(* ===== verification/Prelude.thy ===== *)
theory Prelude
  imports Main "HOL-Library.Word" "HOL-Library.Tree" "HOL-Library.Multiset"
begin

text \<open>
  What the component theories share: the collections of simplification rules that the proofs
  name, the widths of the C types the sources use, and generic lemmas on lists, options,
  function updates and words.
\<close>

section \<open>Collections\<close>

named_theorems dict_laws "laws of the ordered dictionaries of lib/cdt"

section \<open>The C integer types of the sources\<close>

type_synonym u8 = "8 word"
type_synonym u32 = "32 word"
type_synonym u64 = "64 word"

text \<open>\<open>size_t\<close> and \<open>uint64_t\<close> are 64 bits wide on the platforms the sources assume.\<close>

definition SIZE_MAX :: nat where
  "SIZE_MAX = 2 ^ 64 - 1"

section \<open>Lists\<close>

lemma find_append [simp]:
  "List.find P (xs @ ys) = (case List.find P xs of None \<Rightarrow> List.find P ys | Some x \<Rightarrow> Some x)"
  by (induction xs) auto

lemma find_None_all: "(\<forall>x\<in>set xs. \<not> P x) \<Longrightarrow> List.find P xs = None"
  by (induction xs) auto

lemma find_SomeD: "List.find P xs = Some x \<Longrightarrow> x \<in> set xs \<and> P x"
  by (induction xs) (auto split: if_splits)

lemma last_filter_append_one: "P x \<Longrightarrow> \<forall>y\<in>set ys. \<not> P y \<Longrightarrow>
    filter P (xs @ x # ys) = filter P xs @ [x]"
  by (induction xs) (auto simp: filter_empty_conv)

lemma filter_all: "\<forall>x\<in>set xs. P x \<Longrightarrow> filter P xs = xs"
  by (induction xs) auto

lemma filter_none: "\<forall>x\<in>set xs. \<not> P x \<Longrightarrow> filter P xs = []"
  by (induction xs) auto


lemma find_filter_same: "(\<And>x. x \<in> set xs \<Longrightarrow> P x \<Longrightarrow> Q x) \<Longrightarrow> List.find P (filter Q xs) = List.find P xs"
  by (induction xs) auto

lemma not_image: "(\<And>m. m \<in> S \<Longrightarrow> f m = f n \<Longrightarrow> m = n) \<Longrightarrow> n \<notin> S \<Longrightarrow> f n \<notin> f ` S"
  by (auto dest: sym)

section \<open>Loops over linked structures\<close>

text \<open>
  \<open>for (x = first; x; x = next) { next = nxt(x); f(x); }\<close>: the successor is fetched in the
  state before the body runs. The loop takes fuel; \<open>None\<close> is a failed body or too little fuel.
\<close>

primrec walk :: "nat \<Rightarrow> ('s \<Rightarrow> 'a \<Rightarrow> 'a option) \<Rightarrow> ('a \<Rightarrow> 's \<Rightarrow> 's option) \<Rightarrow> 'a option \<Rightarrow> 's \<Rightarrow> 's option"
  where
  "walk 0 nxt f x s = None"
| "walk (Suc k) nxt f x s =
    (case x of
       None \<Rightarrow> Some s
     | Some a \<Rightarrow> (let n = nxt s a in case f a s of None \<Rightarrow> None | Some s' \<Rightarrow> walk k nxt f n s'))"

text \<open>\<open>for (x = first; x; x = nxt(x)) f(x);\<close>: the successor is fetched after the body.\<close>

primrec iter :: "nat \<Rightarrow> ('s \<Rightarrow> 'a \<Rightarrow> 'a option) \<Rightarrow> ('a \<Rightarrow> 's \<Rightarrow> 's option) \<Rightarrow> 'a option \<Rightarrow> 's \<Rightarrow> 's option"
  where
  "iter 0 nxt f x s = None"
| "iter (Suc k) nxt f x s =
    (case x of
       None \<Rightarrow> Some s
     | Some a \<Rightarrow> (case f a s of None \<Rightarrow> None | Some s' \<Rightarrow> iter k nxt f (nxt s' a) s'))"

definition hd_opt :: "'a list \<Rightarrow> 'a option" where
  "hd_opt xs = (case xs of [] \<Rightarrow> None | x # _ \<Rightarrow> Some x)"

lemma hd_opt_simps [simp]: "hd_opt [] = None" "hd_opt (x # xs) = Some x"
  by (simp_all add: hd_opt_def)

text \<open>
  The rules for such loops: \<open>Q xs s\<close> holds while the objects of \<open>xs\<close> are still to be visited.
\<close>

lemma walk_rule:
  assumes "Q xs s" and "length xs < k"
    and step: "\<And>x ys s. Q (x # ys) s \<Longrightarrow> nxt s x = hd_opt ys \<and> (\<exists>s'. f x s = Some s' \<and> Q ys s')"
  shows "\<exists>s'. walk k nxt f (hd_opt xs) s = Some s' \<and> Q [] s'"
  using assms(1,2)
proof (induction xs arbitrary: s k)
  case Nil
  then show ?case by (cases k) auto
next
  case (Cons x xs)
  then obtain m where k: "k = Suc m" by (cases k) auto
  from step [OF Cons.prems(1)] obtain s' where "nxt s x = hd_opt xs" "f x s = Some s'" "Q xs s'" by blast
  with Cons.IH [of s' m] Cons.prems(2) show ?case by (simp add: k)
qed

lemma iter_rule:
  assumes "Q xs s" and "length xs < k"
    and step: "\<And>x ys s. Q (x # ys) s \<Longrightarrow> \<exists>s'. f x s = Some s' \<and> nxt s' x = hd_opt ys \<and> Q ys s'"
  shows "\<exists>s'. iter k nxt f (hd_opt xs) s = Some s' \<and> Q [] s'"
  using assms(1,2)
proof (induction xs arbitrary: s k)
  case Nil
  then show ?case by (cases k) auto
next
  case (Cons x xs)
  then obtain m where k: "k = Suc m" by (cases k) auto
  from step [OF Cons.prems(1)] obtain s' where "f x s = Some s'" "nxt s' x = hd_opt xs" "Q xs s'" by blast
  with Cons.IH [of s' m] Cons.prems(2) show ?case by (simp add: k)
qed

lemma option_eqI: "(\<And>x. u = Some x \<longleftrightarrow> v = Some x) \<Longrightarrow> u = v"
  by (cases u; cases v) auto

end
