(* ===== verification/OpenAddr.thy ===== *)
theory OpenAddr
  imports Prelude
begin

text \<open>
  The open-addressing tables of \<open>lib/cgraph\<close>: \<open>node_set_t\<close> (\<open>node.c\<close>) and \<open>strdict_t\<close>
  (\<open>refstr.c\<close>) share one design, an array of \<open>2 ^ capacity_exp\<close> slots, linear probing
  from the hash, and a tombstone in place of every deleted element. The probe loops are
  defined here once; the locale \<open>open_table\<close> holds the facts both clients use.
\<close>

section \<open>Slots and probe loops\<close>

text \<open>A slot is NULL, the sentinel \<open>(T * )-1\<close>, or a pointer to an element.\<close>

datatype 'a slot = EMPTY | TOMBSTONE | FULL 'a

text \<open>\<open>const size_t candidate = (hash + i) % capacity;\<close> with the sum wrapping at 64 bits.\<close>

definition candidate :: "nat \<Rightarrow> nat \<Rightarrow> nat \<Rightarrow> nat" where
  "candidate hash i capacity = ((hash + i) mod 2 ^ 64) mod capacity"

text \<open>The loop of the find and remove functions: the slot of the sought element, if any.\<close>

function find_slot :: "(nat \<Rightarrow> 'a slot) \<Rightarrow> ('a \<Rightarrow> bool) \<Rightarrow> nat \<Rightarrow> nat \<Rightarrow> nat \<Rightarrow> nat option" where
  "find_slot sl eq hash capacity i =
    (if i < capacity then
       (case sl (candidate hash i capacity) of
          EMPTY \<Rightarrow> None
        | TOMBSTONE \<Rightarrow> find_slot sl eq hash capacity (Suc i)
        | FULL x \<Rightarrow> if eq x then Some (candidate hash i capacity)
                    else find_slot sl eq hash capacity (Suc i))
     else None)"
  by pat_completeness auto
termination
  by (relation "measure (\<lambda>(sl, eq, hash, capacity, i). capacity - i)") auto

text \<open>
  The loop of the add functions: the first empty or deleted slot. \<open>None\<close> stands for the
  \<open>UNREACHABLE()\<close> after the loop.
\<close>

function free_slot :: "(nat \<Rightarrow> 'a slot) \<Rightarrow> nat \<Rightarrow> nat \<Rightarrow> nat \<Rightarrow> nat option" where
  "free_slot sl hash capacity i =
    (if i < capacity then
       (case sl (candidate hash i capacity) of
          FULL x \<Rightarrow> free_slot sl hash capacity (Suc i)
        | _ \<Rightarrow> Some (candidate hash i capacity))
     else None)"
  by pat_completeness auto
termination
  by (relation "measure (\<lambda>(sl, hash, capacity, i). capacity - i)") auto

declare find_slot.simps [simp del] free_slot.simps [simp del]

text \<open>The elements met by the rehashing loop \<open>for (i = 0; i < capacity; ++i)\<close>, in its order.\<close>

definition slot_items :: "(nat \<Rightarrow> 'a slot) \<Rightarrow> nat \<Rightarrow> 'a list" where
  "slot_items sl capacity =
     concat (map (\<lambda>i. case sl i of FULL x \<Rightarrow> [x] | _ \<Rightarrow> []) [0..<capacity])"

text \<open>The growth test: \<open>100 * size >= OCCUPANCY_THRESHOLD_PERCENT * capacity\<close>.\<close>

definition must_grow :: "nat \<Rightarrow> nat \<Rightarrow> bool" where
  "must_grow n capacity \<longleftrightarrow> 100 * n \<ge> 70 * capacity"

text \<open>\<open>capacity == 0 ? 10 : capacity_exp + 1\<close>\<close>

definition grown_exp :: "nat \<Rightarrow> nat \<Rightarrow> nat" where
  "grown_exp capacity exp = (if capacity = 0 then 10 else exp + 1)"

section \<open>What the probe loops compute\<close>

lemma candidate_less: "0 < cap \<Longrightarrow> candidate h i cap < cap"
  by (simp add: candidate_def)

lemma candidate_pow2: "e \<le> 64 \<Longrightarrow> candidate h i (2 ^ e) = (h + i) mod 2 ^ e"
  unfolding candidate_def by (rule mod_mod_cancel) (rule le_imp_power_dvd)

lemma find_slot_Some:
  "find_slot sl eq h cap i = Some c \<Longrightarrow>
    \<exists>x. c < cap \<and> sl c = FULL x \<and> eq x"
proof (induction sl eq h cap i rule: find_slot.induct)
  case (1 sl eq h cap i)
  then show ?case
    by (auto simp: find_slot.simps [of sl eq h cap i] candidate_less split: if_splits slot.splits)
qed

text \<open>A reachable match is found: no empty slot on the way, no earlier match.\<close>

lemma find_slot_reach:
  assumes "j < cap" and "sl (candidate h j cap) = FULL x" and "eq x"
    and "\<forall>m<j. sl (candidate h m cap) \<noteq> EMPTY"
    and "\<forall>m<j. \<forall>y. sl (candidate h m cap) = FULL y \<longrightarrow> \<not> eq y"
  shows "i \<le> j \<Longrightarrow> find_slot sl eq h cap i = Some (candidate h j cap)"
proof (induction "j - i" arbitrary: i)
  case 0
  with assms show ?case by (simp add: find_slot.simps [of sl eq h cap i])
next
  case (Suc d)
  then have "i < j" and "find_slot sl eq h cap (Suc i) = Some (candidate h j cap)" by simp_all
  with assms show ?case
    by (auto simp: find_slot.simps [of sl eq h cap i] split: slot.splits)
qed

lemma free_slot_Some:
  "free_slot sl h cap i = Some c \<Longrightarrow>
    \<exists>j. i \<le> j \<and> j < cap \<and> c = candidate h j cap \<and> (\<forall>x. sl c \<noteq> FULL x) \<and>
      (\<forall>m. i \<le> m \<and> m < j \<longrightarrow> (\<exists>x. sl (candidate h m cap) = FULL x))"
proof (induction sl h cap i rule: free_slot.induct)
  case (1 sl h cap i)
  show ?case
  proof (cases "i < cap \<and> (\<exists>x. sl (candidate h i cap) = FULL x)")
    case True
    with 1 obtain j where "Suc i \<le> j" "j < cap" "c = candidate h j cap" "\<forall>x. sl c \<noteq> FULL x"
      "\<forall>m. Suc i \<le> m \<and> m < j \<longrightarrow> (\<exists>x. sl (candidate h m cap) = FULL x)"
      by (auto simp: free_slot.simps [of sl h cap i])
    with True show ?thesis by (metis Suc_le_eq Suc_leD le_neq_implies_less)
  next
    case False
    with "1.prems" have "i < cap" "c = candidate h i cap" "\<forall>x. sl c \<noteq> FULL x"
      by (auto simp: free_slot.simps [of sl h cap i] split: if_splits slot.splits)
    then show ?thesis by (intro exI [of _ i]) auto
  qed
qed

lemma free_slot_None:
  "free_slot sl h cap i = None \<Longrightarrow> i \<le> j \<Longrightarrow> j < cap \<Longrightarrow> \<exists>x. sl (candidate h j cap) = FULL x"
proof (induction sl h cap i rule: free_slot.induct)
  case (1 sl h cap i)
  then have "i < cap" by simp
  with "1.prems"(1) obtain x where "sl (candidate h i cap) = FULL x"
    and "free_slot sl h cap (Suc i) = None"
    by (auto simp: free_slot.simps [of sl h cap i] split: slot.splits)
  with 1 show ?case by (cases "i = j") auto
qed

text \<open>The probe sequence visits every slot.\<close>

lemma candidate_onto:
  assumes "e \<le> 64" and "c < 2 ^ e"
  shows "\<exists>j < 2 ^ e. candidate h j (2 ^ e) = c"
proof -
  let ?n = "2 ^ e :: nat"
  have n: "0 < ?n" by simp
  let ?j = "(c + ?n - h mod ?n) mod ?n"
  have "(h + ?j) mod ?n = (h mod ?n + (c + ?n - h mod ?n)) mod ?n"
    by (metis mod_add_left_eq mod_add_right_eq)
  also have "h mod ?n + (c + ?n - h mod ?n) = c + ?n"
    using mod_less_divisor [OF n, of h] by linarith
  also have "(c + ?n) mod ?n = c" using assms(2) by simp
  finally have "candidate h ?j ?n = c" using assms(1) by (simp add: candidate_pow2)
  then show ?thesis using n by (intro exI [of _ ?j]) simp
qed

section \<open>Tables\<close>

definition live :: "(nat \<Rightarrow> 'a slot) \<Rightarrow> nat \<Rightarrow> nat set" where
  "live sl cap = {c. c < cap \<and> (\<exists>x. sl c = FULL x)}"

definition items :: "(nat \<Rightarrow> 'a slot) \<Rightarrow> nat \<Rightarrow> 'a set" where
  "items sl cap = {x. \<exists>c<cap. sl c = FULL x}"

lemma itemsI: "c < cap \<Longrightarrow> sl c = FULL x \<Longrightarrow> x \<in> items sl cap"
  by (auto simp: items_def)

lemma itemsE:
  assumes "x \<in> items sl cap"
  obtains c where "c < cap" and "sl c = FULL x"
  using assms by (auto simp: items_def)

lemma finite_slots [simp]: "finite (live sl cap)"
  by (simp add: live_def)

lemma card_live_le: "card (live sl cap) \<le> cap"
  using card_mono [of "{..<cap}" "live sl cap"] by (auto simp: live_def)

lemma set_slot_items: "set (slot_items sl cap) = items sl cap"
  by (auto simp: slot_items_def items_def split: slot.splits)

lemma length_slot_items: "length (slot_items sl cap) = card (live sl cap)"
proof (induction cap)
  case 0
  then show ?case by (simp add: slot_items_def live_def)
next
  case (Suc n)
  have "live sl (Suc n) = (if \<exists>x. sl n = FULL x then insert n (live sl n) else live sl n)"
    by (auto simp: live_def less_Suc_eq)
  moreover have "n \<notin> live sl n" by (simp add: live_def)
  ultimately show ?case using Suc by (auto simp: slot_items_def split: slot.splits)
qed

lemma free_slot_exists:
  assumes "card (live sl (2 ^ e)) < 2 ^ e" and "e \<le> 64"
  shows "\<exists>c. free_slot sl h (2 ^ e) 0 = Some c"
proof (rule ccontr)
  assume "\<not> ?thesis"
  then have none: "free_slot sl h (2 ^ e) 0 = None" by simp
  have "live sl (2 ^ e) = {..<2 ^ e}"
  proof
    show "{..<2 ^ e} \<subseteq> live sl (2 ^ e)"
    proof
      fix c :: nat assume "c \<in> {..<2 ^ e}"
      then obtain j where "j < 2 ^ e" "candidate h j (2 ^ e) = c"
        using candidate_onto [OF assms(2)] by blast
      with free_slot_None [OF none, of j] \<open>c \<in> _\<close> show "c \<in> live sl (2 ^ e)"
        by (auto simp: live_def)
    qed
  qed (auto simp: live_def)
  with assms(1) show False by simp
qed

text \<open>
  The table invariant for a key function and a hash on keys: every element is reachable from
  the slot its hash names without crossing an empty slot, and no key occurs twice.
\<close>

definition table_ok :: "('k \<Rightarrow> nat) \<Rightarrow> ('a \<Rightarrow> 'k) \<Rightarrow> (nat \<Rightarrow> 'a slot) \<Rightarrow> nat \<Rightarrow> bool" where
  "table_ok hash keyof sl cap \<longleftrightarrow>
    (\<forall>c<cap. \<forall>x. sl c = FULL x \<longrightarrow>
      (\<exists>i<cap. c = candidate (hash (keyof x)) i cap \<and>
         (\<forall>j<i. sl (candidate (hash (keyof x)) j cap) \<noteq> EMPTY)) \<and>
      (\<forall>c'<cap. \<forall>y. sl c' = FULL y \<and> keyof y = keyof x \<longrightarrow> c' = c))"

lemma table_ok_empty: "table_ok hash keyof (\<lambda>_. EMPTY) cap"
  by (simp add: table_ok_def)

lemma table_ok_uniq:
  assumes "table_ok hash keyof sl cap" and "c < cap" and "sl c = FULL x"
    and "c' < cap" and "sl c' = FULL y" and "keyof y = keyof x"
  shows "c' = c"
  using assms(1) [unfolded table_ok_def, rule_format, OF assms(2,3)] assms(4-6) by blast

lemma table_ok_reach:
  assumes "table_ok hash keyof sl cap" and "c < cap" and "sl c = FULL x"
  obtains i where "i < cap" and "c = candidate (hash (keyof x)) i cap"
    and "\<forall>j<i. sl (candidate (hash (keyof x)) j cap) \<noteq> EMPTY"
  using assms(1) [unfolded table_ok_def, rule_format, OF assms(2,3)] by blast

lemma table_ok_cong:
  assumes ok: "table_ok hash keyof sl cap" and eq: "\<forall>x\<in>items sl cap. keyof' x = keyof x"
  shows "table_ok hash keyof' sl cap"
  unfolding table_ok_def
proof (intro allI impI conjI)
  fix c x assume c: "c < cap" "sl c = FULL x"
  with eq have x: "keyof' x = keyof x" by (auto intro: itemsI)
  from table_ok_reach [OF ok c] show "\<exists>i<cap. c = candidate (hash (keyof' x)) i cap \<and>
      (\<forall>j<i. sl (candidate (hash (keyof' x)) j cap) \<noteq> EMPTY)"
    unfolding x by blast
  fix c' y assume c': "c' < cap" "sl c' = FULL y \<and> keyof' y = keyof' x"
  then have "keyof' y = keyof y" using eq itemsI [of c' cap sl y] by simp
  with table_ok_uniq [OF ok c c'(1)] c' x show "c' = c" by simp
qed

lemma distinct_keys_items:
  assumes "table_ok hash keyof sl cap"
  shows "distinct (map keyof (slot_items sl cap))"
proof -
  have "n \<le> cap \<Longrightarrow> distinct (map keyof (slot_items sl n))" for n
  proof (induction n)
    case 0
    then show ?case by (simp add: slot_items_def)
  next
    case (Suc n)
    have step: "slot_items sl (Suc n) =
        slot_items sl n @ (case sl n of FULL x \<Rightarrow> [x] | _ \<Rightarrow> [])"
      by (simp add: slot_items_def)
    have "keyof x \<notin> keyof ` set (slot_items sl n)" if "sl n = FULL x" for x
    proof
      assume "keyof x \<in> keyof ` set (slot_items sl n)"
      then obtain c y where "c < n" "sl c = FULL y" "keyof y = keyof x"
        by (auto simp: set_slot_items items_def)
      with table_ok_uniq [OF assms, of n x c y] that Suc.prems show False by simp
    qed
    with Suc show ?case by (auto simp: step split: slot.split)
  qed
  then show ?thesis by simp
qed

lemma pow2_mono_less: "(2::nat) ^ m < 2 ^ n \<Longrightarrow> m < n"
  by (simp add: power_less_imp_less_exp)

text \<open>The grown table is within the 64 bits and larger than the old one.\<close>

lemma grown_exp_bounds:
  assumes "must_grow n cap" and "n < 2 ^ 56" and "cap = 0 \<or> (cap = 2 ^ e \<and> 10 \<le> e)"
  shows "10 \<le> grown_exp cap e \<and> grown_exp cap e \<le> 64 \<and> cap < 2 ^ grown_exp cap e"
proof -
  have "e < 58" if "cap \<noteq> 0"
  proof (rule pow2_mono_less)
    have "70 * 2 ^ e \<le> 100 * n" using assms that by (simp add: must_grow_def)
    with assms(2) show "(2::nat) ^ e < 2 ^ 58" by simp
  qed
  with assms(3) show ?thesis by (auto simp: grown_exp_def)
qed

locale open_table =
  fixes hash :: "'k \<Rightarrow> nat" and keyof :: "'a \<Rightarrow> 'k"
begin

lemma find_hit:
  assumes ok: "table_ok hash keyof sl cap" and c: "c < cap" "sl c = FULL x" "keyof x = k"
  shows "find_slot sl (\<lambda>y. keyof y = k) (hash k) cap 0 = Some c"
proof -
  from table_ok_reach [OF ok c(1,2)] c(3) obtain i
    where i: "i < cap" "c = candidate (hash k) i cap"
      "\<forall>j<i. sl (candidate (hash k) j cap) \<noteq> EMPTY" by auto
  have u: "\<And>c' y. c' < cap \<Longrightarrow> sl c' = FULL y \<Longrightarrow> keyof y = k \<Longrightarrow> c' = c"
    using table_ok_uniq [OF ok c(1,2)] c(3) by simp
  define m where "m = (LEAST j. candidate (hash k) j cap = c)"
  have m: "candidate (hash k) m cap = c" "m \<le> i"
    unfolding m_def using i(2) by (auto intro: LeastI Least_le)
  have first: "\<forall>j<m. candidate (hash k) j cap \<noteq> c"
    unfolding m_def using not_less_Least by blast
  have "find_slot sl (\<lambda>y. keyof y = k) (hash k) cap 0 = Some (candidate (hash k) m cap)"
  proof (rule find_slot_reach [where x = x])
    show "m < cap" using m i by simp
    show "sl (candidate (hash k) m cap) = FULL x" and "keyof x = k" using m c by simp_all
    show "\<forall>j<m. sl (candidate (hash k) j cap) \<noteq> EMPTY" using i m by simp
    show "\<forall>j<m. \<forall>y. sl (candidate (hash k) j cap) = FULL y \<longrightarrow> keyof y \<noteq> k"
      using first u candidate_less [of cap] c(1) by (metis gr_implies_not0 neq0_conv)
  qed simp
  with m show ?thesis by simp
qed

lemma find_miss:
  assumes "k \<notin> keyof ` items sl cap"
  shows "find_slot sl (\<lambda>y. keyof y = k) (hash k) cap 0 = None"
proof (cases "find_slot sl (\<lambda>y. keyof y = k) (hash k) cap 0")
  case (Some c)
  from find_slot_Some [OF this] assms show ?thesis by (auto simp: items_def)
qed simp

lemma unique_item:
  "table_ok hash keyof sl cap \<Longrightarrow> x \<in> items sl cap \<Longrightarrow> y \<in> items sl cap \<Longrightarrow>
    keyof x = keyof y \<Longrightarrow> x = y"
  unfolding items_def using table_ok_uniq [of hash keyof sl cap] by (auto, metis slot.inject)

text \<open>Filling the slot found by the probe, and burying an element.\<close>

lemma put_ok:
  assumes ok: "table_ok hash keyof sl cap" and new: "keyof x \<notin> keyof ` items sl cap"
    and free: "free_slot sl (hash (keyof x)) cap 0 = Some c"
  shows "table_ok hash keyof (sl(c := FULL x)) cap"
    and "items (sl(c := FULL x)) cap = insert x (items sl cap)"
    and "card (live (sl(c := FULL x)) cap) = Suc (card (live sl cap))"
proof -
  obtain j where j: "j < cap" "c = candidate (hash (keyof x)) j cap" "\<forall>y. sl c \<noteq> FULL y"
    "\<forall>m<j. \<exists>y. sl (candidate (hash (keyof x)) m cap) = FULL y"
    using free_slot_Some [OF free] by auto
  have c: "c < cap" using j(1,2) candidate_less [of cap] by simp
  have new': "\<And>c' y. c' < cap \<Longrightarrow> sl c' = FULL y \<Longrightarrow> keyof y \<noteq> keyof x"
    using new itemsI by (metis image_eqI)
  have jn: "\<forall>m<j. sl (candidate (hash (keyof x)) m cap) \<noteq> EMPTY"
    using j(4) by (metis slot.distinct(3))
  show "table_ok hash keyof (sl(c := FULL x)) cap"
    unfolding table_ok_def
  proof (intro allI impI conjI)
    fix d y assume d: "d < cap" and y: "(sl(c := FULL x)) d = FULL y"
    show "\<exists>i<cap. d = candidate (hash (keyof y)) i cap \<and>
        (\<forall>j<i. (sl(c := FULL x)) (candidate (hash (keyof y)) j cap) \<noteq> EMPTY)"
    proof (cases "d = c")
      case True
      with y have "y = x" by simp
      with True j(1,2) jn show ?thesis by auto
    next
      case False
      with y have "sl d = FULL y" by simp
      from table_ok_reach [OF ok d this] obtain i
        where "i < cap" "d = candidate (hash (keyof y)) i cap"
          "\<forall>j<i. sl (candidate (hash (keyof y)) j cap) \<noteq> EMPTY" .
      then show ?thesis by (intro exI [of _ i]) auto
    qed
  next
    fix d y d' z assume d: "d < cap" "(sl(c := FULL x)) d = FULL y" and d': "d' < cap"
      and z: "(sl(c := FULL x)) d' = FULL z \<and> keyof z = keyof y"
    show "d' = d"
    proof (cases "d = c"; cases "d' = c")
      assume "d = c" "d' \<noteq> c"
      with d z new' [OF d'] show ?thesis by auto
    next
      assume "d \<noteq> c" "d' = c"
      with d z new' [OF d(1)] show ?thesis by auto
    next
      assume "d \<noteq> c" "d' \<noteq> c"
      with d z d' table_ok_uniq [OF ok, of d y d' z] show ?thesis by auto
    qed simp
  qed
  show "items (sl(c := FULL x)) cap = insert x (items sl cap)"
    using c j(3) by (auto simp: items_def)
  have "live (sl(c := FULL x)) cap = insert c (live sl cap)" and "c \<notin> live sl cap"
    using c j(3) by (auto simp: live_def)
  then show "card (live (sl(c := FULL x)) cap) = Suc (card (live sl cap))" by simp
qed

lemma bury_ok:
  assumes ok: "table_ok hash keyof sl cap" and c: "c < cap" "sl c = FULL x"
  shows "table_ok hash keyof (sl(c := TOMBSTONE)) cap"
    and "items (sl(c := TOMBSTONE)) cap = items sl cap - {x}"
    and "card (live sl cap) = Suc (card (live (sl(c := TOMBSTONE)) cap))"
proof -
  show "table_ok hash keyof (sl(c := TOMBSTONE)) cap"
    unfolding table_ok_def
  proof (intro allI impI conjI)
    fix d y assume d: "d < cap" and y: "(sl(c := TOMBSTONE)) d = FULL y"
    then have sd: "sl d = FULL y" by (auto split: if_splits)
    from table_ok_reach [OF ok d this] obtain i
      where "i < cap" "d = candidate (hash (keyof y)) i cap"
        "\<forall>j<i. sl (candidate (hash (keyof y)) j cap) \<noteq> EMPTY" .
    then show "\<exists>i<cap. d = candidate (hash (keyof y)) i cap \<and>
        (\<forall>j<i. (sl(c := TOMBSTONE)) (candidate (hash (keyof y)) j cap) \<noteq> EMPTY)"
      by (intro exI [of _ i]) auto
    fix d' z assume "d' < cap" "(sl(c := TOMBSTONE)) d' = FULL z \<and> keyof z = keyof y"
    then show "d' = d" using table_ok_uniq [OF ok d sd] by (auto split: if_splits)
  qed
  have u: "\<And>d. d < cap \<Longrightarrow> sl d = FULL x \<Longrightarrow> d = c"
    using table_ok_uniq [OF ok c] by simp
  show "items (sl(c := TOMBSTONE)) cap = items sl cap - {x}"
  proof (intro set_eqI iffI)
    fix y assume "y \<in> items (sl(c := TOMBSTONE)) cap"
    then obtain d where "d < cap" "d \<noteq> c" "sl d = FULL y"
      by (auto elim!: itemsE split: if_splits)
    then show "y \<in> items sl cap - {x}" using u by (auto intro: itemsI)
  next
    fix y assume "y \<in> items sl cap - {x}"
    then obtain d where "d < cap" "sl d = FULL y" "y \<noteq> x" by (auto elim: itemsE)
    then show "y \<in> items (sl(c := TOMBSTONE)) cap" using c by (intro itemsI [of d]) auto
  qed
  have "live sl cap = insert c (live (sl(c := TOMBSTONE)) cap)"
    and "c \<notin> live (sl(c := TOMBSTONE)) cap"
    using c by (auto simp: live_def split: if_splits)
  then show "card (live sl cap) = Suc (card (live (sl(c := TOMBSTONE)) cap))" by simp
qed

end

end
