(* ===== verification/NodeSet.thy ===== *)
theory NodeSet
  imports OpenAddr
begin

text \<open>
  \<open>node_set_t\<close> of \<open>lib/cgraph/node.c\<close>: the set through which a graph finds its nodes by ID.
  Elements are pointers to \<open>Agsubnode_t\<close> (type \<open>'n\<close>); the set reads the ID of an element
  through the pointer, \<open>item->node->base.tag.id\<close>, which is the argument \<open>idof\<close> here, so that
  an ID changed behind the set's back shows.
\<close>

section \<open>The set and its operations\<close>

record 'n node_set =
  slots :: "(nat \<Rightarrow> 'n slot) option"
  nsize :: nat
  capacity_exp :: nat
  min_initialized :: bool
  nmin :: nat
  nmax :: nat

definition node_set_get_capacity :: "'n node_set \<Rightarrow> nat" where
  "node_set_get_capacity self = (case slots self of None \<Rightarrow> 0 | Some _ \<Rightarrow> 2 ^ capacity_exp self)"

definition node_set_new :: "'n node_set" where
  "node_set_new = \<lparr>slots = None, nsize = 0, capacity_exp = 0, min_initialized = False,
     nmin = 0, nmax = 0\<rparr>"

definition node_set_hash :: "nat \<Rightarrow> nat" where
  "node_set_hash key = key"

text \<open>The array of a set, all NULL when there is none.\<close>

definition slot_array :: "'n node_set \<Rightarrow> nat \<Rightarrow> 'n slot" where
  "slot_array self = (case slots self of None \<Rightarrow> (\<lambda>_. EMPTY) | Some sl \<Rightarrow> sl)"

text \<open>"update bounds of what we have seen"\<close>

definition update_bounds :: "'n node_set \<Rightarrow> nat \<Rightarrow> 'n node_set" where
  "update_bounds self key =
    (let self1 = (if \<not> min_initialized self \<or> key < nmin self
                  then self\<lparr>min_initialized := True, nmin := key\<rparr> else self)
     in if key > nmax self1 then self1\<lparr>nmax := key\<rparr> else self1)"

text \<open>
  The part of \<open>node_set_add\<close> after the growth step; \<open>None\<close> is a failed assertion or the
  \<open>UNREACHABLE()\<close> behind the loop.
\<close>

definition node_set_put :: "('n \<Rightarrow> nat) \<Rightarrow> 'n node_set \<Rightarrow> 'n \<Rightarrow> 'n node_set option" where
  "node_set_put idof self item =
    (let self1 = update_bounds self (idof item);
         capacity = node_set_get_capacity self1
     in if \<not> capacity > nsize self1 then None
        else case free_slot (slot_array self1) (node_set_hash (idof item)) capacity 0 of
            None \<Rightarrow> None
          | Some c \<Rightarrow> Some (self1\<lparr>slots := Some ((slot_array self1)(c := FULL item)),
                                 nsize := nsize self1 + 1\<rparr>))"

fun node_set_put_all :: "('n \<Rightarrow> nat) \<Rightarrow> 'n node_set \<Rightarrow> 'n list \<Rightarrow> 'n node_set option" where
  "node_set_put_all idof self [] = Some self"
| "node_set_put_all idof self (x # xs) =
    (case node_set_put idof self x of None \<Rightarrow> None | Some s \<Rightarrow> node_set_put_all idof s xs)"

text \<open>
  \<open>node_set_add\<close>. The code calls itself to copy the old elements into the larger set; those
  calls never grow (lemma \<open>rehash_no_grow\<close>), so the copy is a sequence of
  \<open>node_set_put\<close>.
\<close>

definition node_set_add :: "('n \<Rightarrow> nat) \<Rightarrow> 'n node_set \<Rightarrow> 'n \<Rightarrow> 'n node_set option" where
  "node_set_add idof self item =
    (let capacity = node_set_get_capacity self in
     if must_grow (nsize self) capacity then
       (let new_c = grown_exp capacity (capacity_exp self);
            new_self = node_set_new\<lparr>slots := Some (\<lambda>_. EMPTY), capacity_exp := new_c\<rparr>
        in case node_set_put_all idof new_self (slot_items (slot_array self) capacity) of
             None \<Rightarrow> None
           | Some s \<Rightarrow> node_set_put idof s item)
     else node_set_put idof self item)"

definition node_set_find :: "('n \<Rightarrow> nat) \<Rightarrow> 'n node_set \<Rightarrow> nat \<Rightarrow> 'n option" where
  "node_set_find idof self key =
    (if min_initialized self \<and> key < nmin self then None
     else if key > nmax self then None
     else
       (case find_slot (slot_array self) (\<lambda>x. idof x = key) (node_set_hash key)
               (node_set_get_capacity self) 0 of
          None \<Rightarrow> None
        | Some c \<Rightarrow> (case slot_array self c of FULL x \<Rightarrow> Some x | _ \<Rightarrow> None)))"

definition node_set_remove :: "('n \<Rightarrow> nat) \<Rightarrow> 'n node_set \<Rightarrow> nat \<Rightarrow> 'n node_set" where
  "node_set_remove idof self item =
    (case find_slot (slot_array self) (\<lambda>x. idof x = item) (node_set_hash item)
            (node_set_get_capacity self) 0 of
       None \<Rightarrow> self
     | Some c \<Rightarrow> self\<lparr>slots := Some ((slot_array self)(c := TOMBSTONE)),
                        nsize := nsize self - 1\<rparr>)"

definition node_set_size :: "'n node_set \<Rightarrow> nat" where
  "node_set_size self = nsize self"

definition node_set_is_empty :: "'n node_set \<Rightarrow> bool" where
  "node_set_is_empty self \<longleftrightarrow> node_set_size self = 0"

section \<open>Correctness\<close>

interpretation node_table: open_table node_set_hash idof for idof :: "'n \<Rightarrow> nat" .

definition nelems :: "'n node_set \<Rightarrow> 'n set" where
  "nelems self = items (slot_array self) (node_set_get_capacity self)"

text \<open>The invariant; \<open>node_room\<close> is what a put needs beyond it.\<close>

definition bounds_ok :: "('n \<Rightarrow> nat) \<Rightarrow> 'n node_set \<Rightarrow> bool" where
  "bounds_ok idof self \<longleftrightarrow>
    (\<forall>x\<in>nelems self. min_initialized self \<and> nmin self \<le> idof x \<and> idof x \<le> nmax self)"

definition node_set_ok :: "('n \<Rightarrow> nat) \<Rightarrow> 'n node_set \<Rightarrow> bool" where
  "node_set_ok idof self \<longleftrightarrow>
     table_ok node_set_hash idof (slot_array self) (node_set_get_capacity self) \<and>
     nsize self = card (live (slot_array self) (node_set_get_capacity self)) \<and>
     (slots self \<noteq> None \<longrightarrow> 10 \<le> capacity_exp self \<and> capacity_exp self \<le> 64) \<and>
     bounds_ok idof self"

lemma update_bounds_simps [simp]:
  "slots (update_bounds self key) = slots self"
  "nsize (update_bounds self key) = nsize self"
  "capacity_exp (update_bounds self key) = capacity_exp self"
  by (simp_all add: update_bounds_def Let_def)

lemma update_bounds_array [simp]:
  "slot_array (update_bounds self key) = slot_array self"
  "node_set_get_capacity (update_bounds self key) = node_set_get_capacity self"
  "nelems (update_bounds self key) = nelems self"
  by (simp_all add: slot_array_def node_set_get_capacity_def nelems_def split: option.split)

lemma update_bounds_covers:
  "min_initialized (update_bounds self key) \<and> nmin (update_bounds self key) \<le> key \<and>
    key \<le> nmax (update_bounds self key)"
  by (auto simp: update_bounds_def Let_def)

lemma update_bounds_mono:
  "min_initialized self \<Longrightarrow> nmin self \<le> k \<Longrightarrow> k \<le> nmax self \<Longrightarrow>
    min_initialized (update_bounds self key) \<and> nmin (update_bounds self key) \<le> k \<and>
    k \<le> nmax (update_bounds self key)"
  by (auto simp: update_bounds_def Let_def)

lemma node_set_ok_new: "node_set_ok idof node_set_new"
  and nelems_new [simp]: "nelems node_set_new = {}"
  by (simp_all add: node_set_ok_def node_set_new_def slot_array_def node_set_get_capacity_def
      bounds_ok_def nelems_def items_def table_ok_empty live_def)

lemma nelems_finite: "finite (nelems self)"
  by (metis List.finite_set nelems_def set_slot_items)

lemma nsize_card: "node_set_ok idof self \<Longrightarrow> nsize self = card (nelems self)"
proof -
  assume ok: "node_set_ok idof self"
  let ?sl = "slot_array self" and ?cap = "node_set_get_capacity self"
  have "bij_betw (\<lambda>c. case ?sl c of FULL x \<Rightarrow> x) (live ?sl ?cap) (nelems self)"
  proof (rule bij_betwI')
    fix c d assume c: "c \<in> live ?sl ?cap" and d: "d \<in> live ?sl ?cap"
    then obtain x y where "c < ?cap" "?sl c = FULL x" "d < ?cap" "?sl d = FULL y"
      by (auto simp: live_def)
    moreover have "table_ok node_set_hash idof ?sl ?cap" using ok by (simp add: node_set_ok_def)
    ultimately show "((case ?sl c of FULL x \<Rightarrow> x) = (case ?sl d of FULL x \<Rightarrow> x)) = (c = d)"
      using table_ok_uniq [of node_set_hash idof ?sl ?cap d y c x] by auto
  next
    fix c assume "c \<in> live ?sl ?cap"
    then show "(case ?sl c of FULL x \<Rightarrow> x) \<in> nelems self"
      by (auto simp: live_def nelems_def intro: itemsI)
  next
    fix x assume "x \<in> nelems self"
    then show "\<exists>c\<in>live ?sl ?cap. x = (case ?sl c of FULL x \<Rightarrow> x)"
      unfolding nelems_def by (elim itemsE) (force simp: live_def)
  qed
  with ok show ?thesis by (simp add: node_set_ok_def bij_betw_same_card)
qed

text \<open>One put into a set with room.\<close>

lemma node_set_put_correct:
  assumes ok: "node_set_ok idof self" and new: "idof item \<notin> idof ` nelems self"
    and sl: "slots self \<noteq> None" and room: "nsize self < node_set_get_capacity self"
  shows "\<exists>s. node_set_put idof self item = Some s \<and> node_set_ok idof s \<and>
    nelems s = insert item (nelems self) \<and> nsize s = Suc (nsize self) \<and>
    slots s \<noteq> None \<and> capacity_exp s = capacity_exp self"
proof -
  let ?cap = "node_set_get_capacity self" and ?sl = "slot_array self"
  have t: "table_ok node_set_hash idof ?sl ?cap" and n: "nsize self = card (live ?sl ?cap)"
    and e: "capacity_exp self \<le> 64" "10 \<le> capacity_exp self"
    using ok sl by (auto simp: node_set_ok_def)
  have cap: "?cap = 2 ^ capacity_exp self" using sl by (auto simp: node_set_get_capacity_def)
  from free_slot_exists [of ?sl "capacity_exp self" "node_set_hash (idof item)"] room n e cap
  obtain c where c: "free_slot ?sl (node_set_hash (idof item)) ?cap 0 = Some c" by auto
  let ?s = "(update_bounds self (idof item))\<lparr>slots := Some (?sl(c := FULL item)),
              nsize := Suc (nsize self)\<rparr>"
  have put: "node_set_put idof self item = Some ?s"
    using room c by (simp add: node_set_put_def Let_def)
  have sa: "slot_array ?s = ?sl(c := FULL item)" "node_set_get_capacity ?s = ?cap"
    using cap by (simp_all add: slot_array_def node_set_get_capacity_def)
  note p = node_table.put_ok [OF t new [unfolded nelems_def] c]
  have el: "nelems ?s = insert item (nelems self)" using p(2) by (simp add: nelems_def sa)
  have "bounds_ok idof ?s"
    unfolding bounds_ok_def el
    using ok update_bounds_covers [of self "idof item"] update_bounds_mono [of self]
    by (auto simp: node_set_ok_def bounds_ok_def)
  then have "node_set_ok idof ?s"
    using p(1,3) n e sa by (simp add: node_set_ok_def)
  with put el show ?thesis by auto
qed

lemma node_set_put_all_correct:
  "node_set_ok idof self \<Longrightarrow> slots self \<noteq> None \<Longrightarrow>
    nsize self + length xs \<le> node_set_get_capacity self \<Longrightarrow>
    distinct (map idof xs) \<Longrightarrow> idof ` nelems self \<inter> idof ` set xs = {} \<Longrightarrow>
    \<exists>s. node_set_put_all idof self xs = Some s \<and> node_set_ok idof s \<and>
      nelems s = nelems self \<union> set xs \<and> nsize s = nsize self + length xs \<and>
      slots s \<noteq> None \<and> capacity_exp s = capacity_exp self"
proof (induction xs arbitrary: self)
  case (Cons x xs)
  then have "idof x \<notin> idof ` nelems self" "nsize self < node_set_get_capacity self" by auto
  from node_set_put_correct [OF Cons.prems(1) this(1) Cons.prems(2) this(2)] obtain s
    where s: "node_set_put idof self x = Some s" "node_set_ok idof s"
      "nelems s = insert x (nelems self)" "nsize s = Suc (nsize self)"
      "slots s \<noteq> None" "capacity_exp s = capacity_exp self" by auto
  have "node_set_get_capacity s = node_set_get_capacity self"
    using s(5,6) Cons.prems(2) by (auto simp: node_set_get_capacity_def)
  with Cons.IH [OF s(2) s(5)] Cons.prems s show ?case by auto
qed simp

text \<open>The copies made while growing never ask for more room themselves.\<close>

lemma rehash_no_grow:
  assumes "node_set_ok idof self" and "k \<le> nsize self"
    and "0 < nsize self \<or> node_set_get_capacity self = 0"
  shows "\<not> must_grow k (2 ^ grown_exp (node_set_get_capacity self) (capacity_exp self))"
proof (cases "slots self")
  case None
  with assms show ?thesis
    by (simp add: must_grow_def grown_exp_def node_set_get_capacity_def node_set_ok_def live_def)
next
  case (Some sl)
  then have cap: "node_set_get_capacity self = 2 ^ capacity_exp self"
    by (simp add: node_set_get_capacity_def)
  have "nsize self \<le> node_set_get_capacity self"
    using assms(1) card_live_le by (simp add: node_set_ok_def)
  with assms cap show ?thesis by (simp add: must_grow_def grown_exp_def)
qed

lemma node_set_add_correct:
  assumes ok: "node_set_ok idof self" and new: "idof item \<notin> idof ` nelems self"
    and few: "nsize self < 2 ^ 56"
  shows "\<exists>s. node_set_add idof self item = Some s \<and> node_set_ok idof s \<and>
    nelems s = insert item (nelems self) \<and> nsize s = Suc (nsize self)"
proof -
  let ?cap = "node_set_get_capacity self"
  show ?thesis
  proof (cases "must_grow (nsize self) ?cap")
    case False
    then have "slots self \<noteq> None"
      by (cases "slots self") (auto simp: must_grow_def node_set_get_capacity_def)
    moreover from False have "nsize self < ?cap" by (simp add: must_grow_def)
    ultimately show ?thesis
      using node_set_put_correct [OF ok new] False by (auto simp: node_set_add_def Let_def)
  next
    case True
    let ?e = "grown_exp ?cap (capacity_exp self)"
    let ?new = "node_set_new\<lparr>slots := Some (\<lambda>_. EMPTY), capacity_exp := ?e\<rparr> :: 'a node_set"
    let ?xs = "slot_items (slot_array self) ?cap"
    have t: "table_ok node_set_hash idof (slot_array self) ?cap"
      and n: "nsize self = card (live (slot_array self) ?cap)"
      using ok by (simp_all add: node_set_ok_def)
    have cap: "?cap = 0 \<or> (?cap = 2 ^ capacity_exp self \<and> 10 \<le> capacity_exp self)"
      using ok by (auto simp: node_set_ok_def node_set_get_capacity_def split: option.split)
    have e: "10 \<le> ?e" "?e \<le> 64" "?cap < 2 ^ ?e"
      using grown_exp_bounds [OF True few cap] by simp_all
    have new_ok: "node_set_ok idof ?new" "nelems ?new = {}" "nsize ?new = 0"
      "node_set_get_capacity ?new = 2 ^ ?e"
      using e by (simp_all add: node_set_ok_def node_set_new_def slot_array_def
          node_set_get_capacity_def bounds_ok_def nelems_def items_def table_ok_empty live_def)
    have len: "length ?xs = nsize self" "nsize self \<le> ?cap"
      using n length_slot_items card_live_le by metis+
    have xs: "set ?xs = nelems self" by (simp add: set_slot_items nelems_def)
    from node_set_put_all_correct [OF new_ok(1), of ?xs] new_ok len e distinct_keys_items [OF t]
    obtain s where s: "node_set_put_all idof ?new ?xs = Some s" "node_set_ok idof s"
      "nelems s = nelems self" "nsize s = nsize self" "slots s \<noteq> None" "capacity_exp s = ?e"
      by (auto simp: xs)
    have "nsize s < node_set_get_capacity s"
      using s len e by (auto simp: node_set_get_capacity_def)
    from node_set_put_correct [OF s(2) _ s(5) this, of item] new s
    show ?thesis using True by (auto simp: node_set_add_def Let_def)
  qed
qed

lemma node_set_find_correct:
  assumes "node_set_ok idof self"
  shows "node_set_find idof self key = Some x \<longleftrightarrow> x \<in> nelems self \<and> idof x = key"
proof
  assume "node_set_find idof self key = Some x"
  then obtain c where c: "find_slot (slot_array self) (\<lambda>x. idof x = key) (node_set_hash key)
      (node_set_get_capacity self) 0 = Some c" "slot_array self c = FULL x"
    by (auto simp: node_set_find_def split: if_splits option.splits slot.splits)
  from find_slot_Some [OF c(1)] c(2) show "x \<in> nelems self \<and> idof x = key"
    by (auto simp: nelems_def intro: itemsI)
next
  assume x: "x \<in> nelems self \<and> idof x = key"
  then obtain c where c: "c < node_set_get_capacity self" "slot_array self c = FULL x"
    unfolding nelems_def by (auto elim: itemsE)
  have "find_slot (slot_array self) (\<lambda>x. idof x = key) (node_set_hash key)
      (node_set_get_capacity self) 0 = Some c"
    using node_table.find_hit [of idof "slot_array self" "node_set_get_capacity self" c x key]
      x c assms by (simp add: node_set_ok_def)
  moreover have "min_initialized self \<and> nmin self \<le> key \<and> key \<le> nmax self"
    using x assms by (auto simp: node_set_ok_def bounds_ok_def)
  ultimately show "node_set_find idof self key = Some x"
    using c by (simp add: node_set_find_def)
qed

lemma node_set_find_None:
  "node_set_ok idof self \<Longrightarrow> node_set_find idof self key = None \<longleftrightarrow> key \<notin> idof ` nelems self"
  using node_set_find_correct [of idof self key] by (cases "node_set_find idof self key") force+

lemma node_set_remove_correct:
  assumes ok: "node_set_ok idof self"
  shows "node_set_ok idof (node_set_remove idof self key)"
    and "nelems (node_set_remove idof self key) = {x \<in> nelems self. idof x \<noteq> key}"
proof -
  let ?cap = "node_set_get_capacity self" and ?sl = "slot_array self"
  have t: "table_ok node_set_hash idof ?sl ?cap" and n: "nsize self = card (live ?sl ?cap)"
    using ok by (simp_all add: node_set_ok_def)
  have "node_set_ok idof (node_set_remove idof self key) \<and>
    nelems (node_set_remove idof self key) = {x \<in> nelems self. idof x \<noteq> key}"
  proof (cases "find_slot ?sl (\<lambda>x. idof x = key) (node_set_hash key) ?cap 0")
    case None
    have "key \<notin> idof ` nelems self"
    proof
      assume "key \<in> idof ` nelems self"
      then obtain c x where "c < ?cap" "?sl c = FULL x" "idof x = key"
        by (auto simp: nelems_def elim: itemsE)
      from node_table.find_hit [OF t this] None show False by simp
    qed
    then show ?thesis using None ok by (auto simp: node_set_remove_def)
  next
    case (Some c)
    from find_slot_Some [OF Some] obtain x where c: "c < ?cap" "?sl c = FULL x" and x: "idof x = key"
      by auto
    let ?s = "self\<lparr>slots := Some (?sl(c := TOMBSTONE)), nsize := nsize self - Suc 0\<rparr>"
    have rem: "node_set_remove idof self key = ?s" using Some by (simp add: node_set_remove_def)
    from c(1) have sl: "slots self \<noteq> None"
      by (cases "slots self") (auto simp: node_set_get_capacity_def)
    have sa: "slot_array ?s = ?sl(c := TOMBSTONE)" "node_set_get_capacity ?s = ?cap"
      using sl by (auto simp: slot_array_def node_set_get_capacity_def)
    note b = node_table.bury_ok [OF t c]
    have el: "nelems ?s = nelems self - {x}" using b(2) by (simp add: nelems_def sa)
    have "\<And>y. y \<in> nelems self \<Longrightarrow> idof y = key \<Longrightarrow> y = x"
      using node_table.unique_item [OF t] x c unfolding nelems_def by (auto intro: itemsI)
    then have "nelems ?s = {y \<in> nelems self. idof y \<noteq> key}" using el x by auto
    moreover have "node_set_ok idof ?s"
      using ok b(1,3) n sa sl el by (auto simp: node_set_ok_def bounds_ok_def)
    ultimately show ?thesis by (simp add: rem)
  qed
  then show "node_set_ok idof (node_set_remove idof self key)"
    and "nelems (node_set_remove idof self key) = {x \<in> nelems self. idof x \<noteq> key}" by simp_all
qed

text \<open>The invariant reads only the IDs of the elements.\<close>

lemma node_set_ok_cong:
  assumes "node_set_ok idof self" and "\<And>x. x \<in> nelems self \<Longrightarrow> idof' x = idof x"
  shows "node_set_ok idof' self"
proof -
  have "table_ok node_set_hash idof' (slot_array self) (node_set_get_capacity self)"
    using assms table_ok_cong [of node_set_hash idof _ _ idof']
    by (simp add: node_set_ok_def nelems_def)
  with assms show ?thesis by (simp add: node_set_ok_def bounds_ok_def)
qed

section \<open>Properties\<close>

text \<open>
  C16. Adding a node whose ID is not in the set succeeds whatever the growth step does, and the
  set then finds the node under its ID and every other ID as before.
\<close>
theorem node_set_add_finds:
  assumes "node_set_ok idof self" and "node_set_find idof self (idof item) = None"
    and "node_set_size self < 2 ^ 56"
  shows "\<exists>s. node_set_add idof self item = Some s \<and> node_set_ok idof s \<and>
    node_set_size s = node_set_size self + 1 \<and>
    (\<forall>key. node_set_find idof s key = (if key = idof item then Some item else node_set_find idof self key))"
proof -
  from assms node_set_add_correct [of idof self item] obtain s where
    s: "node_set_add idof self item = Some s" "node_set_ok idof s" "nelems s = insert item (nelems self)"
    "nsize s = Suc (nsize self)" by (auto simp: node_set_find_None node_set_size_def)
  have "node_set_find idof s key = (if key = idof item then Some item else node_set_find idof self key)" for key
  proof (rule option_eqI)
    fix x
    have "\<forall>y\<in>nelems self. idof y \<noteq> idof item" using assms node_set_find_None by fastforce
    then show "node_set_find idof s key = Some x \<longleftrightarrow>
        (if key = idof item then Some item else node_set_find idof self key) = Some x"
      using node_set_find_correct [OF s(2), of key x] node_set_find_correct [OF assms(1), of key x] s(3)
      by auto
  qed
  with s show ?thesis by (simp add: node_set_size_def)
qed

theorem node_set_add_finds_witness:
  "\<exists>s. node_set_add id node_set_new (5::nat) = Some s \<and> node_set_find id s 5 = Some 5"
proof -
  have "node_set_find id node_set_new (id (5::nat)) = None"
    using node_set_find_None [OF node_set_ok_new, of id] by simp
  moreover have "node_set_size (node_set_new :: nat node_set) < 2 ^ 56"
    by (simp add: node_set_size_def node_set_new_def)
  ultimately show ?thesis using node_set_add_finds [OF node_set_ok_new, of id 5] by fastforce
qed

text \<open>
  C17. Removing an ID makes the set forget it and nothing else: the tombstone left behind hides
  no other element.
\<close>
theorem node_set_remove_forgets:
  assumes "node_set_ok idof self"
  shows "node_set_find idof (node_set_remove idof self i) key =
      (if key = i then None else node_set_find idof self key) \<and>
    node_set_ok idof (node_set_remove idof self i)"
proof
  note r = node_set_remove_correct [OF assms, of i]
  show "node_set_find idof (node_set_remove idof self i) key =
      (if key = i then None else node_set_find idof self key)"
    by (rule option_eqI)
      (use node_set_find_correct [OF r(1), of key] node_set_find_correct [OF assms, of key] r(2) in auto)
  show "node_set_ok idof (node_set_remove idof self i)" by (rule r(1))
qed

theorem node_set_remove_forgets_witness:
  "node_set_find id (node_set_remove id (node_set_new :: nat node_set) 5) 5 = None"
  using node_set_remove_forgets [OF node_set_ok_new, of id 5 5] by simp

end
