(* ===== verification/Cdt.thy ===== *)
theory Cdt
  imports Prelude
begin

text \<open>
  The ordered dictionaries of \<open>lib/cdt\<close> (\<open>dttree.c\<close>): sets and multisets held in a splay tree
  that every operation, lookups included, reorganises top down. A \<open>Dtlink_t\<close> is a node of a
  binary tree (NULL is \<open>Leaf\<close>), its object the element; the stack variable \<open>link\<close> of the C
  code, into which the search moves the subtrees smaller (\<open>l\<close>, \<open>llink\<close>) and larger
  (\<open>r\<close>, \<open>rlink\<close>) than the key, is a pair of lists of half-open nodes, latest first: the node
  \<open>l\<close> points at still misses its right child, the node \<open>r\<close> points at its left child.
  Object identity (\<open>==\<close> on pointers) is HOL equality of the objects.
\<close>

section \<open>Rotations and the search loop\<close>

type_synonym 'a half = "('a tree \<times> 'a) list"

text \<open>\<open>link.right\<close>, the LEFT tree, once the open right end of \<open>l\<close> is filled with \<open>t\<close>.\<close>

fun left_tree :: "('a tree \<times> 'a) list \<Rightarrow> 'a tree \<Rightarrow> 'a tree" where
  "left_tree [] t = t"
| "left_tree ((lt, x) # ls) t = left_tree ls (Node lt x t)"

text \<open>\<open>link.left\<close>, the RIGHT tree, once the open left end of \<open>r\<close> is filled with \<open>t\<close>.\<close>

fun right_tree :: "('a \<times> 'a tree) list \<Rightarrow> 'a tree \<Rightarrow> 'a tree" where
  "right_tree [] t = t"
| "right_tree ((x, rt) # rs) t = right_tree rs (Node t x rt)"

text \<open>
  The loop at \<open>do_search\<close>. The argument \<open>c\<close> is the comparator applied to the key,
  \<open>c x = _DTCMP(key, x)\<close>; the result is the new \<open>root\<close> (\<open>Leaf\<close> when the key was not met)
  and the two half-open trees.
\<close>

fun do_search :: "('a \<Rightarrow> int) \<Rightarrow> 'a tree \<Rightarrow> ('a tree \<times> 'a) list \<Rightarrow> ('a \<times> 'a tree) list
    \<Rightarrow> 'a tree \<times> ('a tree \<times> 'a) list \<times> ('a \<times> 'a tree) list" where
  "do_search c Leaf ls rs = (Leaf, ls, rs)"
| "do_search c (Node a x b) ls rs =
    (if c x = 0 then (Node a x b, ls, rs)
     else if c x < 0 then
       (case a of
          Leaf \<Rightarrow> (Leaf, ls, (x, b) # rs)
        | Node a1 y a2 \<Rightarrow>
            if c y < 0 then do_search c a1 ls ((y, Node a2 x b) # rs)
            else if c y = 0 then (a, ls, (x, b) # rs)
            else do_search c a2 ((a1, y) # ls) ((x, b) # rs))
     else
       (case b of
          Leaf \<Rightarrow> (Leaf, (a, x) # ls, rs)
        | Node b1 y b2 \<Rightarrow>
            if c y > 0 then do_search c b2 ((Node a x b1, y) # ls) rs
            else if c y = 0 then (b, (a, x) # ls, rs)
            else do_search c b1 ((a, x) # ls) ((y, b2) # rs)))"

text \<open>\<open>while((t = root->left)) RROTATE(root, t)\<close> and its mirror image.\<close>

function rotate_first :: "'a tree \<Rightarrow> 'a tree" where
  "rotate_first (Node (Node a y b) x c) = rotate_first (Node a y (Node b x c))"
| "rotate_first (Node Leaf x c) = Node Leaf x c"
| "rotate_first Leaf = Leaf"
  by pat_completeness auto
termination
  by (relation "measure (\<lambda>t. size (left t))") auto

function rotate_last :: "'a tree \<Rightarrow> 'a tree" where
  "rotate_last (Node a x (Node b y c)) = rotate_last (Node (Node a x b) y c)"
| "rotate_last (Node a x Leaf) = Node a x Leaf"
| "rotate_last Leaf = Leaf"
  by pat_completeness auto
termination
  by (relation "measure (\<lambda>t. size (right t))") auto

text \<open>
  The end of \<open>no_root\<close>: descend to the leftmost node of the RIGHT tree and hang the LEFT
  tree under it.
\<close>

fun no_root :: "'a tree \<Rightarrow> 'a tree \<Rightarrow> 'a tree" where
  "no_root lt Leaf = lt"
| "no_root lt (Node a x b) = Node (no_root lt a) x b"

section \<open>The dictionary\<close>

text \<open>\<open>Dtmethod_t.type\<close> restricted to the ordered methods.\<close>

datatype dtmeth = DT_OSET | DT_OBAG

text \<open>
  \<open>Dt_t\<close> with its \<open>Dtdata_t\<close>: the method, the finger \<open>here\<close> (the root) and the size, which
  a negative value marks as unknown. \<open>freed\<close> records the objects passed to the discipline's
  \<open>freef\<close>, \<open>hasfree\<close> whether the discipline has one.
\<close>

record 'a dt =
  meth :: dtmeth
  here :: "'a tree"
  dsize :: int
  hasfree :: bool
  freed :: "'a list"

definition dtopen :: "dtmeth \<Rightarrow> bool \<Rightarrow> 'a dt" where
  "dtopen m hf = \<lparr>meth = m, here = Leaf, dsize = 0, hasfree = hf, freed = []\<rparr>"

definition call_freef :: "'a dt \<Rightarrow> 'a \<Rightarrow> 'a dt" where
  "call_freef d x = (if hasfree d then d\<lparr>freed := freed d @ [x]\<rparr> else d)"

text \<open>The object at the root: \<open>_DTOBJ(root, lk)\<close>, \<open>None\<close> for a NULL root.\<close>

fun dtobj :: "'a tree \<Rightarrow> 'a option" where
  "dtobj Leaf = None"
| "dtobj (Node _ x _) = Some x"

definition dt_first :: "'a dt \<Rightarrow> 'a option \<times> 'a dt" where
  "dt_first d = (let t = rotate_first (here d) in (dtobj t, d\<lparr>here := t\<rparr>))"

definition dt_last :: "'a dt \<Rightarrow> 'a option \<times> 'a dt" where
  "dt_last d = (let t = rotate_last (here d) in (dtobj t, d\<lparr>here := t\<rparr>))"

text \<open>
  \<open>DT_CLEAR\<close>: an empty tree returns at once; otherwise the loop rotates the smallest object
  to the root, frees it and goes on with its right child.
\<close>

function clear_order :: "'a tree \<Rightarrow> 'a list" where
  "clear_order (Node (Node a y b) x c) = clear_order (Node a y (Node b x c))"
| "clear_order (Node Leaf x c) = x # clear_order c"
| "clear_order Leaf = []"
  by pat_completeness auto
termination
  by (relation "measures [size, \<lambda>t. size (left t)]") auto

definition dt_clear :: "'a dt \<Rightarrow> 'a dt" where
  "dt_clear d =
    (if here d = Leaf then d
     else d\<lparr>here := Leaf, dsize := 0,
            freed := (if hasfree d then freed d @ clear_order (here d) else freed d)\<rparr>)"

text \<open>
  A found object of a multiset: rotate the largest smaller object to the root as long as it
  compares equal, so that the root becomes the first of its group.
\<close>

function bag_first :: "('a \<Rightarrow> 'a \<Rightarrow> int) \<Rightarrow> 'a \<Rightarrow> 'a tree \<Rightarrow> 'a tree" where
  "bag_first cmp key Leaf = Leaf"
| "bag_first cmp key (Node a x b) =
    (case rotate_last a of
       Leaf \<Rightarrow> Node a x b
     | Node a1 y _ \<Rightarrow>
         if cmp key y \<noteq> 0 then Node (rotate_last a) x b
         else bag_first cmp key (Node a1 y (Node Leaf x b)))"
  by pat_completeness auto

lemma size_rotate_last [simp]: "size (rotate_last t) = size t"
  by (induction t rule: rotate_last.induct) auto

lemma size_rotate_first [simp]: "size (rotate_first t) = size t"
  by (induction t rule: rotate_first.induct) auto

lemma rotate_last_shape: "rotate_last t = Node a x b \<Longrightarrow> b = Leaf"
  by (induction t rule: rotate_last.induct) auto

lemma rotate_first_shape: "rotate_first t = Node a x b \<Longrightarrow> a = Leaf"
  by (induction t rule: rotate_first.induct) auto

termination bag_first
proof (relation "measure (\<lambda>(cmp, key, t). size (left t))", goal_cases)
  case 1
  show ?case by simp
next
  case (2 cmp key a x b a1 y z)
  then have "size (rotate_last a) = Suc (size a1 + size z)" by simp
  then show ?case by simp
qed

text \<open>
  \<open>has_root\<close>: the isolated root gets the LEFT and RIGHT trees as its children.
\<close>

definition has_root :: "('a \<Rightarrow> 'a \<Rightarrow> int) \<Rightarrow> bool \<Rightarrow> 'a dt \<Rightarrow> 'a tree \<Rightarrow> 'a \<Rightarrow> 'a tree
    \<Rightarrow> 'a option \<times> 'a dt" where
  "has_root cmp searching d lt x rt =
    (let t = (if meth d = DT_OBAG \<and> searching then bag_first cmp x (Node lt x rt)
              else Node lt x rt)
     in (dtobj t, d\<lparr>here := t\<rparr>))"

definition dt_search :: "('a \<Rightarrow> 'a \<Rightarrow> int) \<Rightarrow> 'a \<Rightarrow> 'a dt \<Rightarrow> 'a option \<times> 'a dt" where
  "dt_search cmp obj d =
    (case do_search (cmp obj) (here d) [] [] of
       (Node a x b, ls, rs) \<Rightarrow> has_root cmp True d (left_tree ls a) x (right_tree rs b)
     | (Leaf, ls, rs) \<Rightarrow>
         (None, d\<lparr>here := no_root (left_tree ls Leaf) (right_tree rs Leaf)\<rparr>))"

definition dt_insert :: "('a \<Rightarrow> 'a \<Rightarrow> int) \<Rightarrow> 'a \<Rightarrow> 'a dt \<Rightarrow> 'a option \<times> 'a dt" where
  "dt_insert cmp obj d =
    (let d' = d\<lparr>dsize := (if dsize d \<ge> 0 then dsize d + 1 else dsize d)\<rparr>
     in case do_search (cmp obj) (here d) [] [] of
       (Node a x b, ls, rs) \<Rightarrow>
         (if meth d = DT_OSET then
            has_root cmp False d (left_tree ls a) x (right_tree rs b)
          else has_root cmp False d' (left_tree ls a) obj (Node Leaf x (right_tree rs b)))
     | (Leaf, ls, rs) \<Rightarrow> has_root cmp False d' (left_tree ls Leaf) obj (right_tree rs Leaf))"

text \<open>
  \<open>DT_RENEW\<close> reinserts a link that was taken out; a duplicate of a set is freed.
\<close>

definition dt_renew_link :: "('a \<Rightarrow> 'a \<Rightarrow> int) \<Rightarrow> 'a \<Rightarrow> 'a dt \<Rightarrow> 'a option \<times> 'a dt" where
  "dt_renew_link cmp obj d =
    (case do_search (cmp obj) (here d) [] [] of
       (Node a x b, ls, rs) \<Rightarrow>
         (if meth d = DT_OSET then
            has_root cmp False (call_freef d obj) (left_tree ls a) x (right_tree rs b)
          else has_root cmp False (d\<lparr>dsize := dsize d + 1\<rparr>) (left_tree ls a) x
                 (Node Leaf obj (right_tree rs b)))
     | (Leaf, ls, rs) \<Rightarrow>
         has_root cmp False (d\<lparr>dsize := dsize d + 1\<rparr>) (left_tree ls Leaf) obj
           (right_tree rs Leaf))"

text \<open>
  \<open>DT_DELETE\<close>, \<open>DT_DETACH\<close>, \<open>DT_NEXT\<close> and \<open>DT_PREV\<close> skip the search when the object is
  the one at the root.
\<close>

definition locate :: "('a \<Rightarrow> 'a \<Rightarrow> int) \<Rightarrow> 'a \<Rightarrow> 'a tree
    \<Rightarrow> 'a tree \<times> ('a tree \<times> 'a) list \<times> ('a \<times> 'a tree) list" where
  "locate cmp obj t =
    (if dtobj t = Some obj then (t, [], []) else do_search (cmp obj) t [] [])"

text \<open>\<open>if (--dt->data.size < 0) --dt->data.size;\<close>\<close>

definition dec_size :: "int \<Rightarrow> int" where
  "dec_size n = (let n' = n - 1 in if n' < 0 then n' - 1 else n')"

definition dt_remove :: "bool \<Rightarrow> ('a \<Rightarrow> 'a \<Rightarrow> int) \<Rightarrow> 'a \<Rightarrow> 'a dt \<Rightarrow> 'a option \<times> 'a dt" where
  "dt_remove del cmp obj d =
    (case locate cmp obj (here d) of
       (Node a x b, ls, rs) \<Rightarrow>
         (let d' = (if del then call_freef d x else d)
          in ((if del then Some x else None),
              d'\<lparr>here := no_root (left_tree ls a) (right_tree rs b),
                 dsize := dec_size (dsize d)\<rparr>))
     | (Leaf, ls, rs) \<Rightarrow>
         (None, d\<lparr>here := no_root (left_tree ls Leaf) (right_tree rs Leaf)\<rparr>))"

definition dt_delete :: "('a \<Rightarrow> 'a \<Rightarrow> int) \<Rightarrow> 'a \<Rightarrow> 'a dt \<Rightarrow> 'a option \<times> 'a dt" where
  "dt_delete = dt_remove True"

definition dt_detach :: "('a \<Rightarrow> 'a \<Rightarrow> int) \<Rightarrow> 'a \<Rightarrow> 'a dt \<Rightarrow> 'a option \<times> 'a dt" where
  "dt_detach = dt_remove False"

text \<open>
  \<open>dt_next\<close>/\<open>dt_prev\<close>: the located object joins the LEFT (RIGHT) tree, then the smallest
  (largest) object of the other tree becomes the root.
\<close>

definition dt_next :: "('a \<Rightarrow> 'a \<Rightarrow> int) \<Rightarrow> 'a \<Rightarrow> 'a dt \<Rightarrow> 'a option \<times> 'a dt" where
  "dt_next cmp obj d =
    (let (root, ls, rs) = locate cmp obj (here d);
         (lt, rt) = (case root of
             Node a x b \<Rightarrow> (Node (left_tree ls a) x Leaf, right_tree rs b)
           | Leaf \<Rightarrow> (left_tree ls Leaf, right_tree rs Leaf))
     in case rotate_first rt of
          Node _ y c \<Rightarrow> (Some y, d\<lparr>here := Node lt y c\<rparr>)
        | Leaf \<Rightarrow> (None, d\<lparr>here := no_root lt rt\<rparr>))"

definition dt_prev :: "('a \<Rightarrow> 'a \<Rightarrow> int) \<Rightarrow> 'a \<Rightarrow> 'a dt \<Rightarrow> 'a option \<times> 'a dt" where
  "dt_prev cmp obj d =
    (let (root, ls, rs) = locate cmp obj (here d);
         (lt, rt) = (case root of
             Node a x b \<Rightarrow> (left_tree ls a, Node Leaf x (right_tree rs b))
           | Leaf \<Rightarrow> (left_tree ls Leaf, right_tree rs Leaf))
     in case rotate_last lt of
          Node c y _ \<Rightarrow> (Some y, d\<lparr>here := Node c y rt\<rparr>)
        | Leaf \<Rightarrow> (None, d\<lparr>here := no_root lt rt\<rparr>))"

text \<open>
  \<open>dtrenew\<close>: when the finger points at \<open>obj\<close>, its link is unlinked from the root and
  reinserted under its present key. \<open>None\<close> is the NULL result.
\<close>

definition dtrenew :: "('a \<Rightarrow> 'a \<Rightarrow> int) \<Rightarrow> 'a \<Rightarrow> 'a dt \<Rightarrow> 'a option \<times> 'a dt" where
  "dtrenew cmp obj d =
    (case here d of
       Leaf \<Rightarrow> (None, d)
     | Node a x b \<Rightarrow>
         if x \<noteq> obj then (None, d)
         else
           (let t = (if b = Leaf then a else no_root a b);
                (r, d') = dt_renew_link cmp obj (d\<lparr>here := t, dsize := dsize d - 1\<rparr>)
            in ((if r = None then None else Some obj), d')))"

text \<open>\<open>dtsize\<close>: recount the tree when the size is unknown.\<close>

fun treecount :: "'a tree \<Rightarrow> int" where
  "treecount Leaf = 0"
| "treecount (Node l _ r) = treecount l + treecount r + 1"

definition dtsize :: "'a dt \<Rightarrow> int \<times> 'a dt" where
  "dtsize d = (let d' = (if dsize d < 0 then d\<lparr>dsize := treecount (here d)\<rparr> else d)
               in (dsize d', d'))"

text \<open>
  \<open>dtextract\<close> takes the whole tree out of the dictionary; \<open>dtrestore\<close> puts one back, leaving
  the size unknown, and refuses a dictionary that is not empty or an empty tree (\<open>False\<close> is
  the result -1; the dictionary is not flattened).
\<close>

definition dtextract :: "'a dt \<Rightarrow> 'a tree \<times> 'a dt" where
  "dtextract d = (here d, d\<lparr>here := Leaf, dsize := 0\<rparr>)"

definition dtrestore :: "'a dt \<Rightarrow> 'a tree \<Rightarrow> bool \<times> 'a dt" where
  "dtrestore d t =
    (if t = Leaf then (False, d)
     else if dsize d \<noteq> 0 then (False, d)
     else (True, d\<lparr>here := t, dsize := dsize d - 1\<rparr>))"

text \<open>
  \<open>dtwalk\<close>: the successor is fetched before the user function runs, a negative result stops
  the walk. The user function is a state transformer with an \<open>int\<close> result; the loop takes fuel
  (one unit per object and one for the end) and its \<open>None\<close> is "out of fuel". \<open>nxt\<close> is the
  dictionary's next operation.
\<close>

fun dtwalk_loop :: "('a \<Rightarrow> 'd \<Rightarrow> 'a option \<times> 'd) \<Rightarrow> ('a \<Rightarrow> 's \<Rightarrow> int \<times> 's) \<Rightarrow> nat
    \<Rightarrow> 'a option \<Rightarrow> 'd \<Rightarrow> 's \<Rightarrow> (int \<times> 's \<times> 'd) option" where
  "dtwalk_loop nxt userf 0 obj d s = None"
| "dtwalk_loop nxt userf (Suc n) None d s = Some (0, s, d)"
| "dtwalk_loop nxt userf (Suc n) (Some obj) d s =
    (let (next, d') = nxt obj d; (rv, s') = userf obj s
     in if rv < 0 then Some (rv, s', d') else dtwalk_loop nxt userf n next d' s')"

definition dtwalk :: "('a \<Rightarrow> 'a \<Rightarrow> int) \<Rightarrow> ('a \<Rightarrow> 's \<Rightarrow> int \<times> 's) \<Rightarrow> 'a dt \<Rightarrow> 's
    \<Rightarrow> (int \<times> 's \<times> 'a dt) option" where
  "dtwalk cmp userf d s =
    (let (obj, d') = dt_first d
     in dtwalk_loop (dt_next cmp) userf (Suc (size (here d))) obj d' s)"

section \<open>The abstract dictionary: an ordered list of objects\<close>

text \<open>
  What a dictionary promises is stated on the list of its objects in order. \<open>c\<close> is again the
  comparator applied to the key: positive on the objects before the key, zero on the object
  that matches, negative after it.
\<close>

fun od_insert :: "('a \<Rightarrow> int) \<Rightarrow> 'a \<Rightarrow> 'a list \<Rightarrow> 'a list" where
  "od_insert c obj [] = [obj]"
| "od_insert c obj (x # xs) =
    (if c x > 0 then x # od_insert c obj xs else if c x = 0 then x # xs else obj # x # xs)"

fun od_delete :: "('a \<Rightarrow> int) \<Rightarrow> 'a list \<Rightarrow> 'a list" where
  "od_delete c [] = []"
| "od_delete c (x # xs) =
    (if c x > 0 then x # od_delete c xs else if c x = 0 then xs else x # xs)"

definition od_find :: "('a \<Rightarrow> int) \<Rightarrow> 'a list \<Rightarrow> 'a option" where
  "od_find c xs = List.find (\<lambda>x. c x = 0) xs"

definition od_next :: "('a \<Rightarrow> int) \<Rightarrow> 'a list \<Rightarrow> 'a option" where
  "od_next c xs = List.find (\<lambda>x. c x < 0) xs"

definition od_prev :: "('a \<Rightarrow> int) \<Rightarrow> 'a list \<Rightarrow> 'a option" where
  "od_prev c xs = List.find (\<lambda>x. c x > 0) (rev xs)"

definition od_first :: "'a list \<Rightarrow> 'a option" where
  "od_first xs = (case xs of [] \<Rightarrow> None | x # _ \<Rightarrow> Some x)"

definition od_last :: "'a list \<Rightarrow> 'a option" where
  "od_last xs = (if xs = [] then None else Some (last xs))"

text \<open>A walk over the objects of a list.\<close>

fun od_walk :: "('a \<Rightarrow> 's \<Rightarrow> int \<times> 's) \<Rightarrow> 'a list \<Rightarrow> 's \<Rightarrow> int \<times> 's" where
  "od_walk userf [] s = (0, s)"
| "od_walk userf (x # xs) s =
    (let (rv, s') = userf x s in if rv < 0 then (rv, s') else od_walk userf xs s')"

definition contents :: "'a dt \<Rightarrow> 'a list" where
  "contents d = inorder (here d)"

text \<open>
  \<open>cut c xs\<close>: the key divides the list; what the search needs of the order. \<open>ordered\<close>
  is the invariant of a dictionary.
\<close>

definition cut :: "('a \<Rightarrow> int) \<Rightarrow> 'a list \<Rightarrow> bool" where
  "cut c xs = sorted_wrt (\<lambda>x y. 0 \<le> c y \<longrightarrow> 0 < c x) xs"

definition ordered :: "('a \<Rightarrow> 'a \<Rightarrow> int) \<Rightarrow> 'a list \<Rightarrow> bool" where
  "ordered cmp xs = sorted_wrt (\<lambda>x y. cmp x y < 0) xs"

text \<open>The laws a comparator must satisfy: those of a strict weak order.\<close>

locale comparator =
  fixes cmp :: "'a \<Rightarrow> 'a \<Rightarrow> int"
  assumes cmp_refl: "cmp x x = 0"
    and cmp_sym: "cmp x y < 0 \<longleftrightarrow> 0 < cmp y x"
    and cmp_trans: "cmp x y \<le> 0 \<Longrightarrow> cmp y z < 0 \<Longrightarrow> cmp x z < 0"
begin

lemma cmp_trans2: "cmp x y < 0 \<Longrightarrow> cmp y z \<le> 0 \<Longrightarrow> cmp x z < 0"
  using cmp_trans [of z y x] cmp_trans [of z x y] cmp_sym
  by (metis linorder_not_less order_less_imp_le)

lemma cut_of_ordered: "ordered cmp xs \<Longrightarrow> cut (cmp k) xs"
  unfolding ordered_def cut_def
  by (rule sorted_wrt_mono_rel [rotated], assumption)
     (metis cmp_sym cmp_trans2 linorder_not_less)

lemma ordered_distinct: "ordered cmp xs \<Longrightarrow> distinct xs"
  unfolding ordered_def by (induction xs) (auto simp: cmp_refl)

end

lemma cut_append: "cut c (xs @ ys) \<longleftrightarrow>
    cut c xs \<and> cut c ys \<and> (\<forall>x\<in>set xs. \<forall>y\<in>set ys. 0 \<le> c y \<longrightarrow> 0 < c x)"
  by (auto simp: cut_def sorted_wrt_append)

lemma cut_Cons: "cut c (x # xs) \<longleftrightarrow> (\<forall>y\<in>set xs. 0 \<le> c y \<longrightarrow> 0 < c x) \<and> cut c xs"
  by (auto simp: cut_def)

lemma ordered_append: "ordered cmp (xs @ ys) \<longleftrightarrow>
    ordered cmp xs \<and> ordered cmp ys \<and> (\<forall>x\<in>set xs. \<forall>y\<in>set ys. cmp x y < 0)"
  by (auto simp: ordered_def sorted_wrt_append)

lemma ordered_Cons: "ordered cmp (x # xs) \<longleftrightarrow> (\<forall>y\<in>set xs. cmp x y < 0) \<and> ordered cmp xs"
  by (auto simp: ordered_def)

end
