(* ===== verification/Cdt_Correct.thy ===== *)
theory Cdt_Correct
  imports Cdt
begin

text \<open>
  The splay-tree dictionary of \<open>Cdt\<close> against its specification on ordered lists: no operation
  loses or duplicates an object, lookups find exactly the matching object, insertion and
  deletion act on the in-order sequence as on an ordered list, and a walk by first and next
  visits the objects in order.
\<close>

section \<open>The search loop\<close>

abbreviation lefts :: "('a tree \<times> 'a) list \<Rightarrow> 'a list" where
  "lefts ls \<equiv> inorder (left_tree ls Leaf)"

abbreviation rights :: "('a \<times> 'a tree) list \<Rightarrow> 'a list" where
  "rights rs \<equiv> inorder (right_tree rs Leaf)"

lemma inorder_left_tree: "inorder (left_tree ls t) = lefts ls @ inorder t"
proof (induction ls arbitrary: t)
  case (Cons p ls)
  obtain lt x where p: "p = (lt, x)" by (cases p)
  show ?case
    using Cons [of "Node lt x t"] Cons [of "Node lt x Leaf"] by (simp add: p)
qed simp

lemma inorder_right_tree: "inorder (right_tree rs t) = inorder t @ rights rs"
proof (induction rs arbitrary: t)
  case (Cons p rs)
  obtain x rt where p: "p = (x, rt)" by (cases p)
  show ?case
    using Cons [of "Node t x rt"] Cons [of "Node Leaf x rt"] by (simp add: p)
qed simp

lemma lefts_Cons: "lefts ((lt, x) # ls) = lefts ls @ inorder lt @ [x]"
  using inorder_left_tree [of ls "Node lt x Leaf"] by simp

lemma rights_Cons: "rights ((x, rt) # rs) = x # inorder rt @ rights rs"
  using inorder_right_tree [of rs "Node Leaf x rt"] by simp

lemma inorder_no_root [simp]: "inorder (no_root lt rt) = inorder lt @ inorder rt"
  by (induction lt rt rule: no_root.induct) auto

lemma inorder_rotate_first [simp]: "inorder (rotate_first t) = inorder t"
  by (induction t rule: rotate_first.induct) auto

lemma inorder_rotate_last [simp]: "inorder (rotate_last t) = inorder t"
  by (induction t rule: rotate_last.induct) auto

lemma clear_order_inorder: "clear_order t = inorder t"
  by (induction t rule: clear_order.induct) auto

lemma treecount_size: "treecount t = int (size t)"
  by (induction t) auto

lemmas spine_simps = inorder_left_tree inorder_right_tree lefts_Cons rights_Cons

declare set_inorder [simp del]

declare left_tree.simps(2) [simp del] right_tree.simps(2) [simp del]

lemma do_search_inorder:
  "do_search c t ls rs = (root, ls', rs') \<Longrightarrow>
    lefts ls' @ inorder root @ rights rs' = lefts ls @ inorder t @ rights rs"
  by (induction c t ls rs rule: do_search.induct)
     (auto simp: lefts_Cons rights_Cons split: if_splits tree.splits)

lemma do_search_root:
  "do_search c t ls rs = (Node a x b, ls', rs') \<Longrightarrow> c x = 0"
  by (induction c t ls rs rule: do_search.induct) (auto split: if_splits tree.splits)

lemma cut_mid:
  assumes "cut c (xs @ x # ys)"
  shows "cut c xs" and "cut c ys"
    and "c x \<le> 0 \<Longrightarrow> \<forall>z\<in>set ys. c z < 0"
    and "0 \<le> c x \<Longrightarrow> \<forall>z\<in>set xs. 0 < c z"
  using assms by (auto simp: cut_append cut_Cons not_le [symmetric])

text \<open>
  Everything moved to the LEFT tree is smaller than the key, everything moved to the RIGHT
  tree is larger, given that the key cuts the objects of the tree.
\<close>

lemma do_search_sides:
  "do_search c t ls rs = (root, ls', rs') \<Longrightarrow> cut c (inorder t) \<Longrightarrow>
    (\<forall>x\<in>set (lefts ls). 0 < c x) \<Longrightarrow> (\<forall>x\<in>set (rights rs). c x < 0) \<Longrightarrow>
    (\<forall>x\<in>set (lefts ls'). 0 < c x) \<and> (\<forall>x\<in>set (rights rs'). c x < 0)"
proof (induction c t ls rs rule: do_search.induct)
  case (1 c ls rs)
  then show ?case by auto
next
  case (2 c a x b ls rs)
  from "2.prems"(2) have cx: "cut c (inorder a @ x # inorder b)" by simp
  note mid = cut_mid [OF cx]
  consider "c x = 0" | "c x < 0" | "0 < c x" by linarith
  then show ?case
  proof cases
    case 1
    with "2.prems" show ?thesis by auto
  next
    case 2
    then have bx: "\<forall>z\<in>set (inorder b). c z < 0" using mid(3) by simp
    show ?thesis
    proof (cases a)
      case Leaf
      with 2 bx "2.prems" show ?thesis by (auto simp: rights_Cons)
    next
      case (Node a1 y a2)
      with mid(1) have ca: "cut c (inorder a1 @ y # inorder a2)" by simp
      note my = cut_mid [OF ca]
      consider "c y < 0" | "c y = 0" | "0 < c y" by linarith
      then show ?thesis
      proof cases
        case 1
        with 2 Node "2.prems"(1)
        have eq: "do_search c a1 ls ((y, Node a2 x b) # rs) = (root, ls', rs')" by simp
        have "\<forall>z\<in>set (rights ((y, Node a2 x b) # rs)). c z < 0"
          using 1 2 bx my(3) "2.prems"(4) by (auto simp: rights_Cons)
        with "2.IH"(1) [OF _ _ Node _ eq my(1) "2.prems"(3)] 1 2 show ?thesis by simp
      next
        case b: 2
        then show ?thesis
          using 2 bx "2.prems" Node by (auto simp: rights_Cons)
      next
        case 3
        with 2 Node "2.prems"(1)
        have eq: "do_search c a2 ((a1, y) # ls) ((x, b) # rs) = (root, ls', rs')" by simp
        have l: "\<forall>z\<in>set (lefts ((a1, y) # ls)). 0 < c z"
          using 3 my(4) "2.prems"(3) by (auto simp: lefts_Cons)
        have r: "\<forall>z\<in>set (rights ((x, b) # rs)). c z < 0"
          using 2 bx "2.prems"(4) by (auto simp: rights_Cons)
        from "2.IH"(2) [OF _ _ Node _ _ eq my(2) l r] 2 3 show ?thesis by simp
      qed
    qed
  next
    case 3
    then have ax: "\<forall>z\<in>set (inorder a). 0 < c z" using mid(4) by simp
    show ?thesis
    proof (cases b)
      case Leaf
      with 3 ax "2.prems" show ?thesis by (auto simp: lefts_Cons)
    next
      case (Node b1 y b2)
      with mid(2) have cb: "cut c (inorder b1 @ y # inorder b2)" by simp
      note my = cut_mid [OF cb]
      consider "0 < c y" | "c y = 0" | "c y < 0" by linarith
      then show ?thesis
      proof cases
        case 1
        with 3 Node "2.prems"(1)
        have eq: "do_search c b2 ((Node a x b1, y) # ls) rs = (root, ls', rs')" by simp
        have "\<forall>z\<in>set (lefts ((Node a x b1, y) # ls)). 0 < c z"
          using 1 3 ax my(4) "2.prems"(3) by (auto simp: lefts_Cons)
        from "2.IH"(3) [OF _ _ Node _ eq my(2) this "2.prems"(4)] 1 3 show ?thesis by simp
      next
        case 2
        then show ?thesis
          using 3 ax "2.prems" Node by (auto simp: lefts_Cons)
      next
        case b: 3
        with 3 Node "2.prems"(1)
        have eq: "do_search c b1 ((a, x) # ls) ((y, b2) # rs) = (root, ls', rs')" by simp
        have l: "\<forall>z\<in>set (lefts ((a, x) # ls)). 0 < c z"
          using 3 ax "2.prems"(3) by (auto simp: lefts_Cons)
        have r: "\<forall>z\<in>set (rights ((y, b2) # rs)). c z < 0"
          using b my(3) "2.prems"(4) by (auto simp: rights_Cons)
        from "2.IH"(4) [OF _ _ Node _ _ eq my(1) l r] 3 b show ?thesis by simp
      qed
    qed
  qed
qed

text \<open>The outcome of a search, in terms of the in-order sequence.\<close>

lemma search_found:
  assumes "do_search c t [] [] = (Node a x b, ls, rs)" and "cut c (inorder t)"
  shows "inorder t = inorder (left_tree ls a) @ x # inorder (right_tree rs b)"
    and "c x = 0"
    and "\<forall>z\<in>set (inorder (left_tree ls a)). 0 < c z"
    and "\<forall>z\<in>set (inorder (right_tree rs b)). c z < 0"
proof -
  show eq: "inorder t = inorder (left_tree ls a) @ x # inorder (right_tree rs b)"
    using do_search_inorder [OF assms(1)] by (simp add: inorder_left_tree [of ls a] inorder_right_tree [of rs b])
  show cx: "c x = 0" using assms(1) by (rule do_search_root)
  from cut_mid [of c "inorder (left_tree ls a)" x "inorder (right_tree rs b)"] assms(2) eq cx
  show "\<forall>z\<in>set (inorder (left_tree ls a)). 0 < c z"
    and "\<forall>z\<in>set (inorder (right_tree rs b)). c z < 0" by simp_all
qed

lemma search_missing:
  assumes "do_search c t [] [] = (Leaf, ls, rs)" and "cut c (inorder t)"
  shows "inorder t = lefts ls @ rights rs"
    and "\<forall>z\<in>set (lefts ls). 0 < c z" and "\<forall>z\<in>set (rights rs). c z < 0"
  using do_search_inorder [OF assms(1)] do_search_sides [OF assms] by simp_all

lemma locate_found:
  assumes "locate cmp obj t = (Node a x b, ls, rs)" and "cut (cmp obj) (inorder t)"
    and "cmp obj obj = 0"
  shows "inorder t = inorder (left_tree ls a) @ x # inorder (right_tree rs b)"
    and "cmp obj x = 0"
    and "\<forall>z\<in>set (inorder (left_tree ls a)). 0 < cmp obj z"
    and "\<forall>z\<in>set (inorder (right_tree rs b)). cmp obj z < 0"
proof -
  have *: "inorder t = inorder (left_tree ls a) @ x # inorder (right_tree rs b) \<and> cmp obj x = 0"
  proof (cases "dtobj t = Some obj")
    case True
    with assms show ?thesis by (cases t) (auto simp: locate_def)
  next
    case False
    with assms(1) have "do_search (cmp obj) t [] [] = (Node a x b, ls, rs)"
      by (simp add: locate_def)
    from search_found [OF this assms(2)] show ?thesis by simp
  qed
  then show "inorder t = inorder (left_tree ls a) @ x # inorder (right_tree rs b)"
    and "cmp obj x = 0" by simp_all
  with cut_mid [of "cmp obj" "inorder (left_tree ls a)" x "inorder (right_tree rs b)"] assms(2)
  show "\<forall>z\<in>set (inorder (left_tree ls a)). 0 < cmp obj z"
    and "\<forall>z\<in>set (inorder (right_tree rs b)). cmp obj z < 0" by simp_all
qed

lemma locate_missing:
  assumes "locate cmp obj t = (Leaf, ls, rs)" and "cut (cmp obj) (inorder t)"
  shows "inorder t = lefts ls @ rights rs"
    and "\<forall>z\<in>set (lefts ls). 0 < cmp obj z" and "\<forall>z\<in>set (rights rs). cmp obj z < 0"
proof -
  from assms(1) have "do_search (cmp obj) t [] [] = (Leaf, ls, rs)"
    by (cases t) (auto simp: locate_def split: if_splits)
  from search_missing [OF this assms(2)]
  show "inorder t = lefts ls @ rights rs"
    and "\<forall>z\<in>set (lefts ls). 0 < cmp obj z" and "\<forall>z\<in>set (rights rs). cmp obj z < 0" by simp_all
qed

section \<open>The specification on a list cut by the key\<close>

lemma od_insert_missing:
  "\<forall>z\<in>set xs. 0 < c z \<Longrightarrow> \<forall>z\<in>set ys. c z < 0 \<Longrightarrow> od_insert c obj (xs @ ys) = xs @ obj # ys"
  by (induction xs) (cases ys; auto)+

lemma od_insert_found:
  "\<forall>z\<in>set xs. 0 < c z \<Longrightarrow> c x = 0 \<Longrightarrow> od_insert c obj (xs @ x # ys) = xs @ x # ys"
  by (induction xs) auto

lemma od_delete_missing:
  "\<forall>z\<in>set xs. 0 < c z \<Longrightarrow> \<forall>z\<in>set ys. c z < 0 \<Longrightarrow> od_delete c (xs @ ys) = xs @ ys"
  by (induction xs) (cases ys; auto)+

lemma od_delete_found:
  "\<forall>z\<in>set xs. 0 < c z \<Longrightarrow> c x = 0 \<Longrightarrow> od_delete c (xs @ x # ys) = xs @ ys"
  by (induction xs) auto

lemma od_find_missing:
  "\<forall>z\<in>set xs. 0 < c z \<Longrightarrow> \<forall>z\<in>set ys. c z < 0 \<Longrightarrow> od_find c (xs @ ys) = None"
  unfolding od_find_def by (rule find_None_all) force

lemma od_find_found:
  "\<forall>z\<in>set xs. 0 < c z \<Longrightarrow> c x = 0 \<Longrightarrow> od_find c (xs @ x # ys) = Some x"
  unfolding od_find_def by (induction xs) auto

lemma od_next_cut:
  "\<forall>z\<in>set xs. 0 \<le> c z \<Longrightarrow> \<forall>z\<in>set ys. c z < 0 \<Longrightarrow> od_next c (xs @ ys) = od_first ys"
  unfolding od_next_def od_first_def by (induction xs) (cases ys; auto)+

lemma od_prev_cut:
  "\<forall>z\<in>set xs. 0 < c z \<Longrightarrow> \<forall>z\<in>set ys. c z \<le> 0 \<Longrightarrow> od_prev c (xs @ ys) = od_last xs"
proof -
  assume xs: "\<forall>z\<in>set xs. 0 < c z" and ys: "\<forall>z\<in>set ys. c z \<le> 0"
  then have "List.find (\<lambda>x. 0 < c x) (rev ys) = None"
    by (intro find_None_all) force
  moreover have "List.find (\<lambda>x. 0 < c x) (rev xs) = od_last xs"
    using xs by (cases xs rule: rev_cases) (auto simp: od_last_def)
  ultimately show ?thesis by (simp add: od_prev_def)
qed

lemmas od_cut = od_insert_missing od_insert_found od_delete_missing od_delete_found
  od_find_missing od_find_found

section \<open>The operations refine the specification\<close>

lemma dtobj_rotate_first: "dtobj (rotate_first t) = od_first (inorder t)"
proof (cases "rotate_first t")
  case Leaf
  then have "inorder t = []" by (metis inorder_rotate_first inorder.simps(1))
  with Leaf show ?thesis by (simp add: od_first_def)
next
  case (Node a x b)
  with rotate_first_shape [OF Node] have "inorder t = x # inorder b"
    by (metis append_Nil inorder.simps(1,2) inorder_rotate_first append_Cons)
  with Node show ?thesis by (simp add: od_first_def)
qed

lemma dtobj_rotate_last: "dtobj (rotate_last t) = od_last (inorder t)"
proof (cases "rotate_last t")
  case Leaf
  then have "inorder t = []" by (metis inorder_rotate_last inorder.simps(1))
  with Leaf show ?thesis by (simp add: od_last_def)
next
  case (Node a x b)
  with rotate_last_shape [OF Node] have "inorder t = inorder a @ [x]"
    by (metis inorder.simps(1,2) inorder_rotate_last append_Nil2)
  with Node show ?thesis by (simp add: od_last_def)
qed

lemma dt_first_refines:
  "fst (dt_first d) = od_first (contents d)" "contents (snd (dt_first d)) = contents d"
  by (simp_all add: dt_first_def Let_def dtobj_rotate_first contents_def)

lemma dt_last_refines:
  "fst (dt_last d) = od_last (contents d)" "contents (snd (dt_last d)) = contents d"
  by (simp_all add: dt_last_def Let_def dtobj_rotate_last contents_def)

lemma has_root_set:
  "meth d = DT_OSET \<Longrightarrow> has_root cmp s d lt x rt = (Some x, d\<lparr>here := Node lt x rt\<rparr>)"
  by (simp add: has_root_def Let_def)

lemma dt_search_refines:
  assumes "meth d = DT_OSET" and "cut (cmp obj) (contents d)"
  shows "fst (dt_search cmp obj d) = od_find (cmp obj) (contents d)"
    and "contents (snd (dt_search cmp obj d)) = contents d"
proof -
  obtain root ls rs where r: "do_search (cmp obj) (here d) [] [] = (root, ls, rs)"
    by (cases "do_search (cmp obj) (here d) [] []") auto
  have "fst (dt_search cmp obj d) = od_find (cmp obj) (contents d) \<and>
      contents (snd (dt_search cmp obj d)) = contents d"
  proof (cases root)
    case Leaf
    with r search_missing [of "cmp obj" "here d" ls rs] assms show ?thesis
      by (simp add: dt_search_def contents_def od_cut)
  next
    case (Node a x b)
    with r search_found [of "cmp obj" "here d" a x b ls rs] assms show ?thesis
      by (simp add: dt_search_def contents_def od_cut has_root_set)
  qed
  then show "fst (dt_search cmp obj d) = od_find (cmp obj) (contents d)"
    and "contents (snd (dt_search cmp obj d)) = contents d" by simp_all
qed

lemma dt_insert_refines:
  assumes "meth d = DT_OSET" and "cut (cmp obj) (contents d)"
  shows "fst (dt_insert cmp obj d) =
      Some (case od_find (cmp obj) (contents d) of None \<Rightarrow> obj | Some x \<Rightarrow> x)"
    and "contents (snd (dt_insert cmp obj d)) = od_insert (cmp obj) obj (contents d)"
proof -
  obtain root ls rs where r: "do_search (cmp obj) (here d) [] [] = (root, ls, rs)"
    by (cases "do_search (cmp obj) (here d) [] []") auto
  have "fst (dt_insert cmp obj d) =
      Some (case od_find (cmp obj) (contents d) of None \<Rightarrow> obj | Some x \<Rightarrow> x) \<and>
    contents (snd (dt_insert cmp obj d)) = od_insert (cmp obj) obj (contents d)"
  proof (cases root)
    case Leaf
    with r search_missing [of "cmp obj" "here d" ls rs] assms show ?thesis
      by (simp add: dt_insert_def contents_def od_cut has_root_set Let_def)
  next
    case (Node a x b)
    with r search_found [of "cmp obj" "here d" a x b ls rs] assms show ?thesis
      by (simp add: dt_insert_def contents_def od_cut has_root_set Let_def)
  qed
  then show "fst (dt_insert cmp obj d) =
      Some (case od_find (cmp obj) (contents d) of None \<Rightarrow> obj | Some x \<Rightarrow> x)"
    and "contents (snd (dt_insert cmp obj d)) = od_insert (cmp obj) obj (contents d)" by simp_all
qed

lemma call_freef_simps [simp]:
  "here (call_freef d x) = here d" "meth (call_freef d x) = meth d"
  "dsize (call_freef d x) = dsize d"
  by (simp_all add: call_freef_def)

lemma dt_remove_refines:
  assumes "cut (cmp obj) (contents d)" and "cmp obj obj = 0"
  shows "fst (dt_remove del cmp obj d) =
      (if del then od_find (cmp obj) (contents d) else None)"
    and "contents (snd (dt_remove del cmp obj d)) = od_delete (cmp obj) (contents d)"
proof -
  obtain root ls rs where r: "locate cmp obj (here d) = (root, ls, rs)"
    by (cases "locate cmp obj (here d)") auto
  have "fst (dt_remove del cmp obj d) =
      (if del then od_find (cmp obj) (contents d) else None) \<and>
    contents (snd (dt_remove del cmp obj d)) = od_delete (cmp obj) (contents d)"
  proof (cases root)
    case Leaf
    with r locate_missing [of cmp obj "here d" ls rs] assms show ?thesis
      by (simp add: dt_remove_def contents_def od_cut)
  next
    case (Node a x b)
    with r locate_found [of cmp obj "here d" a x b ls rs] assms show ?thesis
      by (simp add: dt_remove_def contents_def od_cut Let_def)
  qed
  then show "fst (dt_remove del cmp obj d) =
      (if del then od_find (cmp obj) (contents d) else None)"
    and "contents (snd (dt_remove del cmp obj d)) = od_delete (cmp obj) (contents d)" by simp_all
qed

lemma rotate_first_cases:
  obtains "rotate_first t = Leaf" and "inorder t = []"
  | x c where "rotate_first t = Node Leaf x c" and "inorder t = x # inorder c"
proof (cases "rotate_first t")
  case Leaf
  then show ?thesis using that(1) by (metis inorder_rotate_first inorder.simps(1))
next
  case (Node a x c)
  with rotate_first_shape [OF Node] show ?thesis
    using that(2) by (metis append_Nil append_Cons inorder.simps inorder_rotate_first)
qed

lemma rotate_last_cases:
  obtains "rotate_last t = Leaf" and "inorder t = []"
  | c x where "rotate_last t = Node c x Leaf" and "inorder t = inorder c @ [x]"
proof (cases "rotate_last t")
  case Leaf
  then show ?thesis using that(1) by (metis inorder_rotate_last inorder.simps(1))
next
  case (Node c x b)
  with rotate_last_shape [OF Node] show ?thesis
    using that(2) by (metis append_Nil2 inorder.simps inorder_rotate_last)
qed

lemma dt_next_refines:
  assumes "cut (cmp obj) (contents d)" and "cmp obj obj = 0"
  shows "fst (dt_next cmp obj d) = od_next (cmp obj) (contents d)"
    and "contents (snd (dt_next cmp obj d)) = contents d"
proof -
  obtain root ls rs where r: "locate cmp obj (here d) = (root, ls, rs)"
    by (cases "locate cmp obj (here d)") auto
  obtain lt rt where lr: "(lt, rt) = (case root of
             Node a x b \<Rightarrow> (Node (left_tree ls a) x Leaf, right_tree rs b)
           | Leaf \<Rightarrow> (left_tree ls Leaf, right_tree rs Leaf))"
    by (cases root) auto
  have split: "contents d = inorder lt @ inorder rt" "\<forall>z\<in>set (inorder lt). 0 \<le> cmp obj z"
    "\<forall>z\<in>set (inorder rt). cmp obj z < 0"
    using r lr locate_missing [of cmp obj "here d" ls rs]
      locate_found [of cmp obj "here d" "left root" "value root" "right root" ls rs] assms
    by (cases root; force simp: contents_def)+
  have nx: "od_next (cmp obj) (contents d) = od_first (inorder rt)"
    unfolding split(1) using split(2,3) by (rule od_next_cut)
  have dn: "dt_next cmp obj d = (case rotate_first rt of
          Node _ y c \<Rightarrow> (Some y, d\<lparr>here := Node lt y c\<rparr>)
        | Leaf \<Rightarrow> (None, d\<lparr>here := no_root lt rt\<rparr>))"
    using r lr [symmetric] by (simp add: dt_next_def)
  have "fst (dt_next cmp obj d) = od_next (cmp obj) (contents d) \<and>
      contents (snd (dt_next cmp obj d)) = contents d"
    by (cases rt rule: rotate_first_cases)
       (use split(1) nx dn in \<open>simp_all add: od_first_def contents_def\<close>)
  then show "fst (dt_next cmp obj d) = od_next (cmp obj) (contents d)"
    and "contents (snd (dt_next cmp obj d)) = contents d" by simp_all
qed

lemma dt_prev_refines:
  assumes "cut (cmp obj) (contents d)" and "cmp obj obj = 0"
  shows "fst (dt_prev cmp obj d) = od_prev (cmp obj) (contents d)"
    and "contents (snd (dt_prev cmp obj d)) = contents d"
proof -
  obtain root ls rs where r: "locate cmp obj (here d) = (root, ls, rs)"
    by (cases "locate cmp obj (here d)") auto
  obtain lt rt where lr: "(lt, rt) = (case root of
             Node a x b \<Rightarrow> (left_tree ls a, Node Leaf x (right_tree rs b))
           | Leaf \<Rightarrow> (left_tree ls Leaf, right_tree rs Leaf))"
    by (cases root) auto
  have split: "contents d = inorder lt @ inorder rt" "\<forall>z\<in>set (inorder lt). 0 < cmp obj z"
    "\<forall>z\<in>set (inorder rt). cmp obj z \<le> 0"
    using r lr locate_missing [of cmp obj "here d" ls rs]
      locate_found [of cmp obj "here d" "left root" "value root" "right root" ls rs] assms
    by (cases root; force simp: contents_def)+
  have nx: "od_prev (cmp obj) (contents d) = od_last (inorder lt)"
    unfolding split(1) using split(2,3) by (rule od_prev_cut)
  have dn: "dt_prev cmp obj d = (case rotate_last lt of
          Node c y _ \<Rightarrow> (Some y, d\<lparr>here := Node c y rt\<rparr>)
        | Leaf \<Rightarrow> (None, d\<lparr>here := no_root lt rt\<rparr>))"
    using r lr [symmetric] by (simp add: dt_prev_def)
  have "fst (dt_prev cmp obj d) = od_prev (cmp obj) (contents d) \<and>
      contents (snd (dt_prev cmp obj d)) = contents d"
    by (cases lt rule: rotate_last_cases)
       (use split(1) nx dn in \<open>simp_all add: od_last_def contents_def\<close>)
  then show "fst (dt_prev cmp obj d) = od_prev (cmp obj) (contents d)"
    and "contents (snd (dt_prev cmp obj d)) = contents d" by simp_all
qed

lemma dt_renew_link_refines:
  assumes "meth d = DT_OSET" and "cut (cmp obj) (contents d)"
  shows "contents (snd (dt_renew_link cmp obj d)) = od_insert (cmp obj) obj (contents d)"
    and "fst (dt_renew_link cmp obj d) \<noteq> None"
proof -
  obtain root ls rs where r: "do_search (cmp obj) (here d) [] [] = (root, ls, rs)"
    by (cases "do_search (cmp obj) (here d) [] []") auto
  have "contents (snd (dt_renew_link cmp obj d)) = od_insert (cmp obj) obj (contents d) \<and>
    fst (dt_renew_link cmp obj d) \<noteq> None"
  proof (cases root)
    case Leaf
    with r search_missing [of "cmp obj" "here d" ls rs] assms show ?thesis
      by (simp add: dt_renew_link_def contents_def od_cut has_root_set)
  next
    case (Node a x b)
    with r search_found [of "cmp obj" "here d" a x b ls rs] assms show ?thesis
      by (simp add: dt_renew_link_def contents_def od_cut has_root_set)
  qed
  then show "contents (snd (dt_renew_link cmp obj d)) = od_insert (cmp obj) obj (contents d)"
    and "fst (dt_renew_link cmp obj d) \<noteq> None" by simp_all
qed

lemma dtrenew_refines:
  assumes "meth d = DT_OSET" and "here d = Node a obj b"
    and "cut (cmp obj) (inorder a @ inorder b)"
  shows "contents (snd (dtrenew cmp obj d)) = od_insert (cmp obj) obj (inorder a @ inorder b)"
    and "fst (dtrenew cmp obj d) = Some obj"
proof -
  let ?t = "if b = Leaf then a else no_root a b"
  let ?d = "d\<lparr>here := ?t, dsize := dsize d - 1\<rparr>"
  have c: "contents ?d = inorder a @ inorder b" by (simp add: contents_def)
  have "meth ?d = DT_OSET" "cut (cmp obj) (contents ?d)" using assms c by simp_all
  then have r: "contents (snd (dt_renew_link cmp obj ?d)) = od_insert (cmp obj) obj (contents ?d)"
    "fst (dt_renew_link cmp obj ?d) \<noteq> None"
    by (rule dt_renew_link_refines)+
  show "contents (snd (dtrenew cmp obj d)) = od_insert (cmp obj) obj (inorder a @ inorder b)"
    and "fst (dtrenew cmp obj d) = Some obj"
    using r c assms(2) by (simp_all add: dtrenew_def case_prod_beta Let_def)
qed

section \<open>The ordering invariant\<close>

lemma set_od_insert_subset: "set (od_insert c obj xs) \<subseteq> insert obj (set xs)"
  by (induction xs) auto

lemma set_od_delete_subset: "set (od_delete c xs) \<subseteq> set xs"
  by (induction xs) auto

lemma od_find_od_insert_missing: "od_find c xs = None \<Longrightarrow> set (od_insert c obj xs) = insert obj (set xs)"
  by (induction xs) (auto simp: od_find_def split: if_splits)

lemma set_od_delete:
  "cut c xs \<Longrightarrow> set (od_delete c xs) = {x \<in> set xs. c x \<noteq> 0}"
proof (induction xs)
  case (Cons x xs)
  then have "c x \<le> 0 \<Longrightarrow> \<forall>y\<in>set xs. c y < 0" using cut_mid(3) [of c "[]" x xs] by simp
  with Cons show ?case by (force simp: cut_Cons)
qed simp

context comparator
begin

lemma ordered_od_insert: "ordered cmp xs \<Longrightarrow> ordered cmp (od_insert (cmp obj) obj xs)"
proof (induction xs)
  case (Cons x xs)
  then have IH: "ordered cmp (od_insert (cmp obj) obj xs)" and
    x: "\<forall>y\<in>set xs. cmp x y < 0" by (simp_all add: ordered_Cons)
  consider "0 < cmp obj x" | "cmp obj x = 0" | "cmp obj x < 0" by linarith
  then show ?case
  proof cases
    case 1
    then have "cmp x obj < 0" using cmp_sym by blast
    with x IH set_od_insert_subset [of "cmp obj" obj xs] 1 show ?thesis
      by (auto simp: ordered_Cons)
  next
    case 2
    with Cons.prems show ?thesis by simp
  next
    case 3
    then have "\<forall>y\<in>set xs. cmp obj y < 0" using x cmp_trans [of obj x] by auto
    with 3 Cons.prems show ?thesis by (simp add: ordered_Cons)
  qed
qed (simp add: ordered_def)

lemma ordered_od_delete: "ordered cmp xs \<Longrightarrow> ordered cmp (od_delete c xs)"
proof (induction xs)
  case (Cons x xs)
  then show ?case using set_od_delete_subset [of c xs]
    by (auto simp: ordered_Cons)
qed (simp add: ordered_def)

lemma od_find_member: "ordered cmp xs \<Longrightarrow> x \<in> set xs \<Longrightarrow> od_find (cmp x) xs = Some x"
proof -
  assume o: "ordered cmp xs" and "x \<in> set xs"
  then obtain ys zs where xs: "xs = ys @ x # zs" by (meson split_list)
  from o have "\<forall>y\<in>set ys. 0 < cmp x y" using cmp_sym by (auto simp: xs ordered_append)
  then show ?thesis unfolding xs using cmp_refl by (rule od_find_found)
qed

lemma od_find_insert:
  assumes "ordered cmp xs"
  shows "od_find (cmp k) (od_insert (cmp obj) obj xs) =
    (if cmp k obj = 0 \<and> od_find (cmp obj) xs = None then Some obj else od_find (cmp k) xs)"
  using assms
proof (induction xs)
  case (Cons x xs)
  then have x: "\<forall>y\<in>set xs. cmp x y < 0" and o: "ordered cmp xs" by (simp_all add: ordered_Cons)
  have IH: "od_find (cmp k) (od_insert (cmp obj) obj xs) =
    (if cmp k obj = 0 \<and> od_find (cmp obj) xs = None then Some obj else od_find (cmp k) xs)"
    by (rule Cons.IH [OF o])
  consider "0 < cmp obj x" | "cmp obj x = 0" | "cmp obj x < 0" by linarith
  then show ?case
  proof cases
    case 1
    then have "cmp x obj < 0" using cmp_sym by blast
    then have "cmp k obj = 0 \<Longrightarrow> cmp k x \<noteq> 0"
      using cmp_sym cmp_trans by (metis order_less_irrefl order_refl cmp_trans2)
    with 1 IH show ?thesis by (auto simp: od_find_def)
  next
    case 2
    then show ?thesis by (auto simp: od_find_def)
  next
    case 3
    then have "\<forall>y\<in>set xs. cmp obj y < 0" using x cmp_trans [of obj x] by auto
    then have "od_find (cmp obj) (x # xs) = None"
      using 3 unfolding od_find_def by (intro find_None_all) force
    with 3 show ?thesis by (auto simp: od_find_def)
  qed
qed (auto simp: od_find_def)

end

lemma mset_od_insert: "od_find c xs = None \<Longrightarrow> mset (od_insert c x xs) = add_mset x (mset xs)"
  by (induction xs) (auto simp: od_find_def split: if_splits)

context comparator
begin

lemma ordered_unique: "ordered cmp xs \<Longrightarrow> x \<in> set xs \<Longrightarrow> y \<in> set xs \<Longrightarrow> cmp x y = 0 \<Longrightarrow> y = x"
proof -
  assume o: "ordered cmp xs" and x: "x \<in> set xs" and y: "y \<in> set xs" and e: "cmp x y = 0"
  from x obtain ys zs where xs: "xs = ys @ x # zs" by (meson split_list)
  with o have "\<forall>z\<in>set ys. 0 < cmp x z" "\<forall>z\<in>set zs. cmp x z < 0"
    using cmp_sym by (auto simp: ordered_append ordered_Cons)
  with e y xs show "y = x" by auto
qed

lemma mset_od_delete:
  assumes "ordered cmp xs" and "x \<in> set xs"
  shows "mset xs = add_mset x (mset (od_delete (cmp x) xs))"
proof -
  from assms obtain ys zs where xs: "xs = ys @ x # zs" by (meson split_list)
  with assms(1) have "\<forall>y\<in>set ys. 0 < cmp x y" using cmp_sym by (auto simp: ordered_append)
  then have "od_delete (cmp x) (ys @ x # zs) = ys @ zs" using cmp_refl by (rule od_delete_found)
  then show ?thesis by (simp add: xs)
qed

end

section \<open>The dictionary as an interface\<close>

text \<open>
  What the clients of \<open>lib/cdt\<close> rely on: a dictionary \<open>d\<close> holds an ordered sequence of
  objects; insertion, deletion and lookup act on it as on an ordered list; first and next
  enumerate it, and no lookup changes it.
\<close>

locale ordered_dict = comparator cmp for cmp :: "'a \<Rightarrow> 'a \<Rightarrow> int" +
  fixes objs :: "'d \<Rightarrow> 'a list" and good :: "'d \<Rightarrow> bool"
    and ins del srch nxt :: "'a \<Rightarrow> 'd \<Rightarrow> 'a option \<times> 'd"
    and frst :: "'d \<Rightarrow> 'a option \<times> 'd"
  assumes good_ordered: "good d \<Longrightarrow> ordered cmp (objs d)"
    and ins: "good d \<Longrightarrow> objs (snd (ins x d)) = od_insert (cmp x) x (objs d)"
      "good d \<Longrightarrow> good (snd (ins x d))"
    and del: "good d \<Longrightarrow> objs (snd (del x d)) = od_delete (cmp x) (objs d)"
      "good d \<Longrightarrow> good (snd (del x d))"
    and srch: "good d \<Longrightarrow> fst (srch x d) = od_find (cmp x) (objs d)"
      "good d \<Longrightarrow> objs (snd (srch x d)) = objs d" "good d \<Longrightarrow> good (snd (srch x d))"
    and nxt: "good d \<Longrightarrow> fst (nxt x d) = od_next (cmp x) (objs d)"
      "good d \<Longrightarrow> objs (snd (nxt x d)) = objs d" "good d \<Longrightarrow> good (snd (nxt x d))"
    and frst: "good d \<Longrightarrow> fst (frst d) = od_first (objs d)"
      "good d \<Longrightarrow> objs (snd (frst d)) = objs d" "good d \<Longrightarrow> good (snd (frst d))"
begin

lemma search_insert:
  "good d \<Longrightarrow> fst (srch k (snd (ins x d))) =
    (if cmp k x = 0 \<and> fst (srch x d) = None then Some x else fst (srch k d))"
  by (simp add: ins srch od_find_insert good_ordered)

lemma search_delete:
  assumes "good d" and "cmp k x = 0"
  shows "fst (srch k (snd (del x d))) = None"
proof -
  have c: "cut (cmp x) (objs d)" using good_ordered [OF assms(1)] by (rule cut_of_ordered)
  have "cmp k z \<noteq> 0" if "cmp x z \<noteq> 0" for z
    using that assms(2) cmp_sym cmp_trans cmp_trans2
    by (metis linorder_neqE_linordered_idom order_less_irrefl order_refl)
  then show ?thesis
    using assms c by (simp add: del srch od_find_def set_od_delete find_None_all)
qed

lemma next_of_split:
  assumes "good d" and "objs d = xs @ x # ys"
  shows "fst (nxt x d) = od_first ys"
proof -
  from good_ordered [OF assms(1)] have o: "ordered cmp (xs @ x # ys)" by (simp add: assms(2))
  have "\<forall>z\<in>set (xs @ [x]). 0 \<le> cmp x z"
    using o cmp_sym cmp_refl by (fastforce simp: ordered_append ordered_Cons intro: order_less_imp_le)
  moreover have "\<forall>z\<in>set ys. cmp x z < 0" using o by (auto simp: ordered_append ordered_Cons)
  ultimately have "od_next (cmp x) ((xs @ [x]) @ ys) = od_first ys" by (rule od_next_cut)
  with assms show ?thesis by (simp add: nxt)
qed

lemma walk_from:
  "good d \<Longrightarrow> objs d = xs @ ys \<Longrightarrow> length ys < n \<Longrightarrow>
    \<exists>d'. dtwalk_loop nxt f n (od_first ys) d s = Some (fst (od_walk f ys s), snd (od_walk f ys s), d')
      \<and> objs d' = objs d \<and> good d'"
proof (induction ys arbitrary: xs d n s)
  case Nil
  then show ?case by (cases n) (auto simp: od_first_def)
next
  case (Cons y ys)
  then obtain m where n: "n = Suc m" by (cases n) auto
  obtain nx d' where nd: "nxt y d = (nx, d')" by (cases "nxt y d")
  then have nx: "nx = od_first ys" using next_of_split [OF Cons.prems(1,2)] by simp
  have d': "good d'" "objs d' = (xs @ [y]) @ ys"
    using nxt(2,3) [OF Cons.prems(1), of y] nd Cons.prems(2) by simp_all
  obtain rv s' where f: "f y s = (rv, s')" by (cases "f y s")
  from Cons.IH [OF d', of m s'] Cons.prems(2,3) n d' show ?case
    by (simp add: od_first_def [of "y # ys"] nd f nx)
qed

end

lemma dt_ops_meth:
  "meth (snd (dt_first d)) = meth d"
  "meth d = DT_OSET \<Longrightarrow> meth (snd (dt_search cmp x d)) = meth d"
  "meth d = DT_OSET \<Longrightarrow> meth (snd (dt_insert cmp x d)) = meth d"
  "meth (snd (dt_remove b cmp x d)) = meth d"
  "meth (snd (dt_next cmp x d)) = meth d"
  "meth (snd (dt_prev cmp x d)) = meth d"
  by (auto simp: dt_first_def dt_search_def dt_insert_def dt_remove_def dt_next_def dt_prev_def
      has_root_def Let_def split: prod.splits tree.splits)

definition dict_ok :: "('a \<Rightarrow> 'a \<Rightarrow> int) \<Rightarrow> 'a dt \<Rightarrow> bool" where
  "dict_ok cmp d \<longleftrightarrow> meth d = DT_OSET \<and> ordered cmp (contents d)"

sublocale comparator \<subseteq> tree: ordered_dict cmp contents "dict_ok cmp" "dt_insert cmp" "dt_delete cmp"
  "dt_search cmp" "dt_next cmp" dt_first
  by unfold_locales
    (auto simp: dict_ok_def dt_delete_def dt_ops_meth dt_first_refines dt_insert_refines
      dt_remove_refines dt_search_refines dt_next_refines cut_of_ordered cmp_refl
      ordered_od_insert ordered_od_delete)

context comparator
begin

lemmas walk_from_tree = tree.walk_from

end

section \<open>Properties\<close>

lemma int_comparator: "comparator (\<lambda>x y::int. x - y)"
  by unfold_locales auto

abbreviation three :: "int tree" where
  "three \<equiv> Node (Node Leaf 1 Leaf) 3 (Node Leaf 5 Leaf)"

lemma three_ok: "dict_ok (\<lambda>x y::int. x - y) \<lparr>meth = DT_OSET, here = three, dsize = 3, hasfree = True, freed = []\<rparr>"
  by (simp add: dict_ok_def contents_def ordered_def)



text \<open>
  A walk over a dictionary terminates, calls the user function on the objects in order
  until it returns a negative value, and leaves the dictionary's contents as they were.
\<close>
lemma dtwalk_visits_in_order:
  assumes "comparator cmp" and "dict_ok cmp d"
  shows "\<exists>d'. dtwalk cmp f d s = Some (fst (od_walk f (contents d) s), snd (od_walk f (contents d) s), d') \<and>
    contents d' = contents d"
proof -
  obtain obj d1 where first: "dt_first d = (obj, d1)" by (cases "dt_first d")
  have o: "obj = od_first (contents d)" "contents d1 = contents d" "meth d1 = meth d"
    using dt_first_refines [of d] dt_ops_meth(1) [of d] first by simp_all
  have "dict_ok cmp d1" using assms(2) o by (simp add: dict_ok_def)
  moreover have "length (contents d) < Suc (size (here d))" by (simp add: contents_def)
  ultimately show ?thesis
    using comparator.walk_from_tree [OF assms(1), of d1 "[]" "contents d" "Suc (size (here d))" f s] first o
    by (auto simp: dtwalk_def)
qed

text \<open>
  \<open>dtrenew\<close> moves the object at the root, whose key has changed since it was inserted, to
  the place of its new key and keeps the others in order.
\<close>
lemma dtrenew_reorders:
  assumes "comparator cmp" and "meth d = DT_OSET" and "here d = Node a obj b"
    and "ordered cmp (inorder a @ inorder b)"
  shows "contents (snd (dtrenew cmp obj d)) = od_insert (cmp obj) obj (inorder a @ inorder b) \<and>
    fst (dtrenew cmp obj d) = Some obj \<and> ordered cmp (contents (snd (dtrenew cmp obj d)))"
  using dtrenew_refines [OF assms(2,3) comparator.cut_of_ordered [OF assms(1,4)]]
    comparator.ordered_od_insert [OF assms(1,4), of obj] by simp

text \<open>
  Clearing a dictionary empties it and passes every object once, in order, to the
  discipline's free function.
\<close>
lemma dt_clear_frees_all:
  "contents (dt_clear d) = [] \<and>
    freed (dt_clear d) = (if hasfree d then freed d @ contents d else freed d)"
  by (simp add: dt_clear_def contents_def clear_order_inorder)

end
