(* ===== verification/Refstr.thy ===== *)
theory Refstr
  imports OpenAddr
begin

unbundle bit_operations_syntax

text \<open>
  The reference-counted strings of \<open>lib/cgraph/refstr.c\<close>: a graph interns every name and
  attribute value in a dictionary, an open-addressing table of pointers to \<open>refstr_t\<close>, so that
  equal strings of one kind share one address and an address serves as an ID.
  A \<open>refstr_t\<close> is named by the address of its \<open>s\<close> member, the \<open>char *\<close> the callers see; the
  heap cells of a dictionary are an association list from such addresses. The allocator is
  the parameter \<open>malloc\<close>: given the addresses in use it returns the address of a new cell.
\<close>

section \<open>The hash: MurmurHash64A with an extra byte\<close>

definition murmur_m :: u64 where "murmur_m = 0xc6a4a7935bd1e995"

definition murmur_r :: nat where "murmur_r = 47"

text \<open>\<open>memcpy(&k, data, sizeof(k))\<close> on a little-endian machine.\<close>

fun load_le :: "string \<Rightarrow> u64" where
  "load_le [] = 0"
| "load_le (b # bs) = of_char b OR push_bit 8 (load_le bs)"

definition murmur_mix :: "u64 \<Rightarrow> u64 \<Rightarrow> u64" where
  "murmur_mix h k =
    (let k1 = k * murmur_m; k2 = k1 XOR drop_bit murmur_r k1; k3 = k2 * murmur_m
     in (h XOR k3) * murmur_m)"

text \<open>The loop over the whole 8-byte blocks; the rest of the data is \<open>data2\<close>.\<close>

fun murmur_blocks :: "u64 \<Rightarrow> string \<Rightarrow> u64 \<times> string" where
  "murmur_blocks h s =
    (if length s \<ge> 8 then murmur_blocks (murmur_mix h (load_le (take 8 s))) (drop 8 s)
     else (h, s))"

declare murmur_blocks.simps [simp del]

text \<open>The switch that falls through the last \<open>len & 7\<close> bytes.\<close>

fun murmur_tail :: "nat \<Rightarrow> string \<Rightarrow> u64 \<Rightarrow> u64" where
  "murmur_tail i [] h = h"
| "murmur_tail i (b # bs) h = murmur_tail (i + 1) bs h XOR push_bit (8 * i) (of_char b)"

definition hash :: "string \<Rightarrow> u64 \<Rightarrow> u64" where
  "hash key extra =
    (let (h1, data2) = murmur_blocks (0 XOR (of_nat (length key) * murmur_m)) key;
         h2 = murmur_tail 0 data2 (h1 XOR push_bit 56 extra) * murmur_m;
         h3 = (h2 XOR drop_bit murmur_r h2) * murmur_m
     in h3 XOR drop_bit murmur_r h3)"

section \<open>Cells and dictionaries\<close>

record refstr =
  refcnt :: nat
  is_html :: bool
  chars :: string

text \<open>The reference count is a bit-field of 63 bits.\<close>

definition REFCNT_MOD :: nat where "REFCNT_MOD = 2 ^ 63"

text \<open>\<open>strdict_t\<close> with the heap cells its buckets point to.\<close>

record strdict =
  buckets :: "(nat \<Rightarrow> nat slot) option"
  dictsize :: nat
  dict_exp :: nat
  cells :: "(nat \<times> refstr) list"

type_synonym strkey = "string \<times> bool"

definition strdict_new :: strdict where
  "strdict_new = \<lparr>buckets = None, dictsize = 0, dict_exp = 0, cells = []\<rparr>"

definition strdict_hash :: "strkey \<Rightarrow> nat" where
  "strdict_hash k = unat (hash (fst k) (if snd k then 1 else 0))"

definition dict_capacity :: "strdict \<Rightarrow> nat" where
  "dict_capacity dict = (case buckets dict of None \<Rightarrow> 0 | Some _ \<Rightarrow> 2 ^ dict_exp dict)"

definition bucket_array :: "strdict \<Rightarrow> nat \<Rightarrow> nat slot" where
  "bucket_array dict = (case buckets dict of None \<Rightarrow> (\<lambda>_. EMPTY) | Some b \<Rightarrow> b)"

text \<open>What \<open>refstr_eq\<close> compares: the content and the HTML mark of the cell at an address.\<close>

definition cell_key :: "(nat \<times> refstr) list \<Rightarrow> nat \<Rightarrow> strkey" where
  "cell_key cs a = (case map_of cs a of None \<Rightarrow> ([], False) | Some r \<Rightarrow> (chars r, is_html r))"

definition refstr_eq :: "(nat \<times> refstr) list \<Rightarrow> string \<Rightarrow> bool \<Rightarrow> nat \<Rightarrow> bool" where
  "refstr_eq cs s html a \<longleftrightarrow> cell_key cs a = (s, html)"

text \<open>
  \<open>strdict_add\<close>, first without and then with its growth step; \<open>None\<close> is a failed assertion
  or the \<open>UNREACHABLE()\<close>. The recursive calls of the growth step copy into a table with room.
\<close>

definition strdict_put :: "strdict \<Rightarrow> nat \<Rightarrow> strdict option" where
  "strdict_put dict r =
    (if \<not> dict_capacity dict > dictsize dict then None
     else case free_slot (bucket_array dict) (strdict_hash (cell_key (cells dict) r))
                 (dict_capacity dict) 0 of
         None \<Rightarrow> None
       | Some c \<Rightarrow> Some (dict\<lparr>buckets := Some ((bucket_array dict)(c := FULL r)),
                            dictsize := Suc (dictsize dict)\<rparr>))"

fun strdict_put_all :: "strdict \<Rightarrow> nat list \<Rightarrow> strdict option" where
  "strdict_put_all dict [] = Some dict"
| "strdict_put_all dict (r # rs) =
    (case strdict_put dict r of None \<Rightarrow> None | Some d \<Rightarrow> strdict_put_all d rs)"

definition strdict_add :: "strdict \<Rightarrow> nat \<Rightarrow> strdict option" where
  "strdict_add dict r =
    (let capacity = dict_capacity dict in
     if must_grow (dictsize dict) capacity then
       (let new_d = dict\<lparr>buckets := Some (\<lambda>_. EMPTY), dictsize := 0,
                         dict_exp := grown_exp capacity (dict_exp dict)\<rparr>
        in case strdict_put_all new_d (slot_items (bucket_array dict) capacity) of
             None \<Rightarrow> None
           | Some d \<Rightarrow> strdict_put d r)
     else strdict_put dict r)"

definition strdict_find :: "strdict \<Rightarrow> string \<Rightarrow> bool \<Rightarrow> nat option" where
  "strdict_find dict s html =
    (case find_slot (bucket_array dict) (refstr_eq (cells dict) s html) (strdict_hash (s, html))
            (dict_capacity dict) 0 of
       None \<Rightarrow> None
     | Some c \<Rightarrow> (case bucket_array dict c of FULL r \<Rightarrow> Some r | _ \<Rightarrow> None))"

text \<open>\<open>strdict_remove\<close> frees the cell it finds and buries its bucket.\<close>

definition strdict_remove :: "strdict \<Rightarrow> nat \<Rightarrow> strdict" where
  "strdict_remove dict key =
    (let k = cell_key (cells dict) key in
     case find_slot (bucket_array dict) (refstr_eq (cells dict) (fst k) (snd k))
            (strdict_hash k) (dict_capacity dict) 0 of
       None \<Rightarrow> dict
     | Some c \<Rightarrow>
         (case bucket_array dict c of
            FULL r \<Rightarrow> dict\<lparr>buckets := Some ((bucket_array dict)(c := TOMBSTONE)),
                           dictsize := dictsize dict - 1,
                           cells := filter (\<lambda>p. fst p \<noteq> r) (cells dict)\<rparr>
          | _ \<Rightarrow> dict))"

section \<open>The string interface\<close>

text \<open>A \<open>const char *\<close> argument: its address and its content.\<close>

type_synonym cstr = "nat \<times> string"

definition refstrbind :: "strdict \<Rightarrow> string \<Rightarrow> bool \<Rightarrow> nat option" where
  "refstrbind dict s html = strdict_find dict s html"

definition agstrbind_html :: "strdict \<Rightarrow> cstr \<Rightarrow> nat option" where
  "agstrbind_html dict s = refstrbind dict (snd s) True"

definition agstrbind_text :: "strdict \<Rightarrow> cstr \<Rightarrow> nat option" where
  "agstrbind_text dict s = refstrbind dict (snd s) False"

text \<open>A string that is itself an interned HTML string is looked up (duplicated) as HTML.\<close>

definition agstrbind :: "strdict \<Rightarrow> cstr \<Rightarrow> nat option" where
  "agstrbind dict s =
    (if strdict_find dict (snd s) True = Some (fst s) then agstrbind_html dict s
     else agstrbind_text dict s)"

text \<open>Storing through a cell pointer.\<close>

definition set_refcnt :: "strdict \<Rightarrow> nat \<Rightarrow> nat \<Rightarrow> strdict" where
  "set_refcnt dict a n =
    dict\<lparr>cells := map (\<lambda>(b, r). if b = a then (b, r\<lparr>refcnt := n\<rparr>) else (b, r)) (cells dict)\<rparr>"

definition get_refcnt :: "strdict \<Rightarrow> nat \<Rightarrow> nat" where
  "get_refcnt dict a = (case map_of (cells dict) a of None \<Rightarrow> 0 | Some r \<Rightarrow> refcnt r)"

text \<open>
  \<open>agstrdup_internal\<close>; the outer \<open>None\<close> is the failure of \<open>strdict_add\<close>, the result for a NULL
  string is the NULL address 0.
\<close>

definition agstrdup_internal :: "(nat list \<Rightarrow> nat) \<Rightarrow> strdict \<Rightarrow> cstr option \<Rightarrow> bool
    \<Rightarrow> (nat \<times> strdict) option" where
  "agstrdup_internal malloc dict str html =
    (case str of
       None \<Rightarrow> Some (0, dict)
     | Some s \<Rightarrow>
         (case strdict_find dict (snd s) html of
            Some r \<Rightarrow> Some (r, set_refcnt dict r ((get_refcnt dict r + 1) mod REFCNT_MOD))
          | None \<Rightarrow>
              (let r = malloc (map fst (cells dict));
                   cell = \<lparr>refcnt = 1, is_html = html, chars = snd s\<rparr>
               in case strdict_add (dict\<lparr>cells := (r, cell) # cells dict\<rparr>) r of
                    None \<Rightarrow> None
                  | Some d \<Rightarrow> Some (r, d))))"

definition agstrdup_text :: "(nat list \<Rightarrow> nat) \<Rightarrow> strdict \<Rightarrow> cstr option \<Rightarrow> (nat \<times> strdict) option" where
  "agstrdup_text malloc dict str = agstrdup_internal malloc dict str False"

definition agstrdup_html :: "(nat list \<Rightarrow> nat) \<Rightarrow> strdict \<Rightarrow> cstr option \<Rightarrow> (nat \<times> strdict) option" where
  "agstrdup_html malloc dict str = agstrdup_internal malloc dict str True"

definition agstrdup :: "(nat list \<Rightarrow> nat) \<Rightarrow> strdict \<Rightarrow> cstr option \<Rightarrow> (nat \<times> strdict) option" where
  "agstrdup malloc dict str =
    (case str of
       Some s \<Rightarrow>
         if strdict_find dict (snd s) True = Some (fst s) then agstrdup_html malloc dict str
         else agstrdup_text malloc dict str
     | None \<Rightarrow> agstrdup_text malloc dict str)"

text \<open>\<open>agstrfree\<close>: \<open>False\<close> is FAILURE. The count is decremented in its 63 bits.\<close>

definition agstrfree :: "strdict \<Rightarrow> cstr option \<Rightarrow> bool \<Rightarrow> bool \<times> strdict" where
  "agstrfree dict str html =
    (case str of
       None \<Rightarrow> (False, dict)
     | Some s \<Rightarrow>
         (case strdict_find dict (snd s) html of
            None \<Rightarrow> (False, dict)
          | Some r \<Rightarrow>
              if r = fst s then
                (let n = (get_refcnt dict r + (REFCNT_MOD - 1)) mod REFCNT_MOD;
                     d = set_refcnt dict r n
                 in (True, if n = 0 then strdict_remove d r else d))
              else (True, dict)))"

text \<open>\<open>aghtmlstr\<close> reads the mark of the cell the string lies in.\<close>

definition aghtmlstr :: "strdict \<Rightarrow> nat \<Rightarrow> bool" where
  "aghtmlstr dict a = (case map_of (cells dict) a of None \<Rightarrow> False | Some r \<Rightarrow> is_html r)"

section \<open>Correctness of the dictionary\<close>

interpretation string_table: open_table strdict_hash "cell_key cs" for cs :: "(nat \<times> refstr) list" .

definition bucket_items :: "strdict \<Rightarrow> nat set" where
  "bucket_items d = items (bucket_array d) (dict_capacity d)"

definition buckets_ok :: "strdict \<Rightarrow> bool" where
  "buckets_ok d \<longleftrightarrow>
     table_ok strdict_hash (cell_key (cells d)) (bucket_array d) (dict_capacity d) \<and>
     dictsize d = card (live (bucket_array d) (dict_capacity d)) \<and>
     (buckets d \<noteq> None \<longrightarrow> 10 \<le> dict_exp d \<and> dict_exp d \<le> 64)"

lemma bucket_simps [simp]:
  "bucket_array (d\<lparr>dictsize := n\<rparr>) = bucket_array d"
  "bucket_array (d\<lparr>cells := cs\<rparr>) = bucket_array d"
  "bucket_array (d\<lparr>buckets := Some b\<rparr>) = b"
  "dict_capacity (d\<lparr>dictsize := n\<rparr>) = dict_capacity d"
  "dict_capacity (d\<lparr>cells := cs\<rparr>) = dict_capacity d"
  "dict_capacity (d\<lparr>buckets := Some b\<rparr>) = 2 ^ dict_exp d"
  by (simp_all add: bucket_array_def dict_capacity_def split: option.split)

lemma bucket_items_cells [simp]: "bucket_items (d\<lparr>cells := cs\<rparr>) = bucket_items d"
  by (simp add: bucket_items_def)

lemma strdict_put_correct:
  assumes ok: "buckets_ok d" and new: "cell_key (cells d) r \<notin> cell_key (cells d) ` bucket_items d"
    and sl: "buckets d \<noteq> None" and room: "dictsize d < dict_capacity d"
  shows "\<exists>d'. strdict_put d r = Some d' \<and> buckets_ok d' \<and>
    bucket_items d' = insert r (bucket_items d) \<and> dictsize d' = Suc (dictsize d) \<and>
    buckets d' \<noteq> None \<and> dict_exp d' = dict_exp d \<and> cells d' = cells d"
proof -
  let ?cap = "dict_capacity d" and ?sl = "bucket_array d" and ?k = "cell_key (cells d) r"
  have t: "table_ok strdict_hash (cell_key (cells d)) ?sl ?cap" and n: "dictsize d = card (live ?sl ?cap)"
    and e: "dict_exp d \<le> 64" "10 \<le> dict_exp d"
    using ok sl by (auto simp: buckets_ok_def)
  have cap: "?cap = 2 ^ dict_exp d" using sl by (auto simp: dict_capacity_def)
  from free_slot_exists [of ?sl "dict_exp d" "strdict_hash ?k"] room n e cap
  obtain c where c: "free_slot ?sl (strdict_hash ?k) ?cap 0 = Some c" by auto
  let ?d = "d\<lparr>buckets := Some (?sl(c := FULL r)), dictsize := Suc (dictsize d)\<rparr>"
  have put: "strdict_put d r = Some ?d" using room c by (simp add: strdict_put_def)
  note p = string_table.put_ok [OF t new [unfolded bucket_items_def] c]
  have "buckets_ok ?d" "bucket_items ?d = insert r (bucket_items d)"
    using p n e by (simp_all add: buckets_ok_def bucket_items_def cap [symmetric])
  with put show ?thesis by simp
qed

lemma strdict_put_all_correct:
  "buckets_ok d \<Longrightarrow> buckets d \<noteq> None \<Longrightarrow> dictsize d + length rs \<le> dict_capacity d \<Longrightarrow>
    distinct (map (cell_key (cells d)) rs) \<Longrightarrow>
    cell_key (cells d) ` bucket_items d \<inter> cell_key (cells d) ` set rs = {} \<Longrightarrow>
    \<exists>d'. strdict_put_all d rs = Some d' \<and> buckets_ok d' \<and>
      bucket_items d' = bucket_items d \<union> set rs \<and> dictsize d' = dictsize d + length rs \<and>
      buckets d' \<noteq> None \<and> dict_exp d' = dict_exp d \<and> cells d' = cells d"
proof (induction rs arbitrary: d)
  case (Cons r rs)
  then have "cell_key (cells d) r \<notin> cell_key (cells d) ` bucket_items d"
    "dictsize d < dict_capacity d" by auto
  from strdict_put_correct [OF Cons.prems(1) this(1) Cons.prems(2) this(2)] obtain d'
    where d': "strdict_put d r = Some d'" "buckets_ok d'" "bucket_items d' = insert r (bucket_items d)"
      "dictsize d' = Suc (dictsize d)" "buckets d' \<noteq> None" "dict_exp d' = dict_exp d"
      "cells d' = cells d" by auto
  have "dict_capacity d' = dict_capacity d"
    using d'(5,6) Cons.prems(2) by (auto simp: dict_capacity_def)
  with Cons.IH [OF d'(2) d'(5)] Cons.prems d' show ?case by auto
qed simp

lemma strdict_add_correct:
  assumes ok: "buckets_ok d" and new: "cell_key (cells d) r \<notin> cell_key (cells d) ` bucket_items d"
    and few: "dictsize d < 2 ^ 56"
  shows "\<exists>d'. strdict_add d r = Some d' \<and> buckets_ok d' \<and>
    bucket_items d' = insert r (bucket_items d) \<and> dictsize d' = Suc (dictsize d) \<and> cells d' = cells d"
proof -
  let ?cap = "dict_capacity d"
  show ?thesis
  proof (cases "must_grow (dictsize d) ?cap")
    case False
    then have "buckets d \<noteq> None"
      by (cases "buckets d") (auto simp: must_grow_def dict_capacity_def)
    moreover from False have "dictsize d < ?cap" by (simp add: must_grow_def)
    ultimately show ?thesis
      using strdict_put_correct [OF ok new] False by (auto simp: strdict_add_def Let_def)
  next
    case True
    let ?e = "grown_exp ?cap (dict_exp d)"
    let ?new = "d\<lparr>buckets := Some (\<lambda>_. EMPTY), dictsize := 0, dict_exp := ?e\<rparr>"
    let ?xs = "slot_items (bucket_array d) ?cap"
    have t: "table_ok strdict_hash (cell_key (cells d)) (bucket_array d) ?cap"
      and n: "dictsize d = card (live (bucket_array d) ?cap)"
      using ok by (simp_all add: buckets_ok_def)
    have cap: "?cap = 0 \<or> (?cap = 2 ^ dict_exp d \<and> 10 \<le> dict_exp d)"
      using ok by (auto simp: buckets_ok_def dict_capacity_def split: option.split)
    have e: "10 \<le> ?e" "?e \<le> 64" "?cap < 2 ^ ?e"
      using grown_exp_bounds [OF True few cap] by simp_all
    have ba: "bucket_array ?new = (\<lambda>_. EMPTY)" "dict_capacity ?new = 2 ^ ?e"
      by (simp_all add: bucket_array_def dict_capacity_def)
    have new_ok: "buckets_ok ?new" "bucket_items ?new = {}"
      using e by (simp_all add: buckets_ok_def bucket_items_def ba items_def table_ok_empty live_def)
    have len: "length ?xs = dictsize d" "dictsize d \<le> ?cap"
      using n length_slot_items card_live_le by metis+
    have xs: "set ?xs = bucket_items d" by (simp add: set_slot_items bucket_items_def)
    from strdict_put_all_correct [OF new_ok(1), of ?xs] new_ok len e ba distinct_keys_items [OF t]
    obtain d' where d': "strdict_put_all ?new ?xs = Some d'" "buckets_ok d'"
      "bucket_items d' = bucket_items d" "dictsize d' = dictsize d" "buckets d' \<noteq> None"
      "dict_exp d' = ?e" "cells d' = cells d"
      by (auto simp: xs)
    have "dictsize d' < dict_capacity d'"
      using d' len e by (auto simp: dict_capacity_def)
    from strdict_put_correct [OF d'(2) _ d'(5) this, of r] new d'
    show ?thesis using True by (auto simp: strdict_add_def Let_def)
  qed
qed

lemma refstr_eq_key: "refstr_eq cs s html = (\<lambda>a. cell_key cs a = (s, html))"
  by (simp add: refstr_eq_def fun_eq_iff)

lemma strdict_find_correct:
  assumes "buckets_ok d"
  shows "strdict_find d s html = Some a \<longleftrightarrow> a \<in> bucket_items d \<and> cell_key (cells d) a = (s, html)"
proof
  assume "strdict_find d s html = Some a"
  then obtain c where c: "find_slot (bucket_array d) (\<lambda>a. cell_key (cells d) a = (s, html))
      (strdict_hash (s, html)) (dict_capacity d) 0 = Some c" "bucket_array d c = FULL a"
    by (auto simp: strdict_find_def refstr_eq_key split: if_splits option.splits slot.splits)
  from find_slot_Some [OF c(1)] c(2) show "a \<in> bucket_items d \<and> cell_key (cells d) a = (s, html)"
    by (auto simp: bucket_items_def intro: itemsI)
next
  assume a: "a \<in> bucket_items d \<and> cell_key (cells d) a = (s, html)"
  then obtain c where c: "c < dict_capacity d" "bucket_array d c = FULL a"
    unfolding bucket_items_def by (auto elim: itemsE)
  have "find_slot (bucket_array d) (\<lambda>a. cell_key (cells d) a = (s, html)) (strdict_hash (s, html))
      (dict_capacity d) 0 = Some c"
    using string_table.find_hit [of "cells d" "bucket_array d" "dict_capacity d" c a "(s, html)"]
      a c assms by (simp add: buckets_ok_def)
  then show "strdict_find d s html = Some a"
    using c by (simp add: strdict_find_def refstr_eq_key)
qed

section \<open>The pool: what the string interface promises\<close>

text \<open>
  The abstract state is a map from a string and its HTML mark to the address that stands for
  it and the number of references.
\<close>

definition cell_has :: "strkey \<Rightarrow> nat \<times> refstr \<Rightarrow> bool" where
  "cell_has k p \<longleftrightarrow> (chars (snd p), is_html (snd p)) = k"

definition pool :: "strdict \<Rightarrow> strkey \<Rightarrow> (nat \<times> nat) option" where
  "pool d k = map_option (\<lambda>p. (fst p, refcnt (snd p))) (List.find (cell_has k) (cells d))"

definition strdict_ok :: "strdict \<Rightarrow> bool" where
  "strdict_ok d \<longleftrightarrow> buckets_ok d \<and> bucket_items d = fst ` set (cells d) \<and>
     distinct (map fst (cells d)) \<and>
     (\<forall>p\<in>set (cells d). fst p \<noteq> 0 \<and> 0 < refcnt (snd p) \<and> refcnt (snd p) < REFCNT_MOD)"

lemma strdict_ok_new: "strdict_ok strdict_new"
  and pool_new: "pool strdict_new = Map.empty"
  by (auto simp: strdict_ok_def strdict_new_def buckets_ok_def bucket_items_def bucket_array_def
      dict_capacity_def items_def live_def table_ok_empty pool_def)

lemma cell_key_of: "distinct (map fst cs) \<Longrightarrow> p \<in> set cs \<Longrightarrow>
    cell_key cs (fst p) = (chars (snd p), is_html (snd p))"
  by (cases p) (simp add: cell_key_def)

lemma cells_unique:
  assumes ok: "strdict_ok d" and p: "p \<in> set (cells d)" "cell_has k p"
    and q: "q \<in> set (cells d)" "cell_has k q"
  shows "p = q"
proof -
  have d: "distinct (map fst (cells d))" using ok by (simp add: strdict_ok_def)
  have t: "table_ok strdict_hash (cell_key (cells d)) (bucket_array d) (dict_capacity d)"
    using ok by (simp add: strdict_ok_def buckets_ok_def)
  have i: "fst p \<in> items (bucket_array d) (dict_capacity d)"
    "fst q \<in> items (bucket_array d) (dict_capacity d)"
    using ok p q by (auto simp: strdict_ok_def bucket_items_def)
  have "cell_key (cells d) (fst p) = cell_key (cells d) (fst q)"
    using cell_key_of [OF d p(1)] cell_key_of [OF d q(1)] p q by (simp add: cell_has_def)
  from string_table.unique_item [OF t i this] have "fst p = fst q" .
  with d p(1) q(1) show ?thesis by (metis eq_key_imp_eq_value prod.collapse)
qed

lemma pool_Some:
  assumes "strdict_ok d"
  shows "pool d k = Some (a, n) \<longleftrightarrow> (\<exists>r. (a, r) \<in> set (cells d) \<and> cell_has k (a, r) \<and> refcnt r = n)"
proof
  assume "pool d k = Some (a, n)"
  then obtain p where "List.find (cell_has k) (cells d) = Some p" "fst p = a" "refcnt (snd p) = n"
    by (auto simp: pool_def)
  with find_SomeD [OF this(1)] show "\<exists>r. (a, r) \<in> set (cells d) \<and> cell_has k (a, r) \<and> refcnt r = n"
    by (intro exI [of _ "snd p"]) auto
next
  assume "\<exists>r. (a, r) \<in> set (cells d) \<and> cell_has k (a, r) \<and> refcnt r = n"
  then obtain r where r: "(a, r) \<in> set (cells d)" "cell_has k (a, r)" "refcnt r = n" by blast
  then obtain p where p: "List.find (cell_has k) (cells d) = Some p"
    using find_None_iff [of "cell_has k" "cells d"] by (cases "List.find (cell_has k) (cells d)") auto
  from find_SomeD [OF p] cells_unique [OF assms] r have "p = (a, r)" by blast
  with p r show "pool d k = Some (a, n)" by (simp add: pool_def)
qed

lemma find_pool:
  assumes ok: "strdict_ok d"
  shows "strdict_find d s html = map_option fst (pool d (s, html))"
proof -
  have d: "distinct (map fst (cells d))" and b: "buckets_ok d"
    and i: "bucket_items d = fst ` set (cells d)" using ok by (simp_all add: strdict_ok_def)
  have "strdict_find d s html = Some a \<longleftrightarrow> map_option fst (pool d (s, html)) = Some a" for a
  proof
    assume "strdict_find d s html = Some a"
    then have a: "a \<in> fst ` set (cells d)" "cell_key (cells d) a = (s, html)"
      unfolding strdict_find_correct [OF b] i by simp_all
    then obtain p where p: "p \<in> set (cells d)" "a = fst p" by blast
    with a(2) cell_key_of [OF d p(1)] have "cell_has (s, html) (a, snd p)" by (simp add: cell_has_def)
    with p have "pool d (s, html) = Some (a, refcnt (snd p))"
      unfolding pool_Some [OF ok] by (intro exI [of _ "snd p"]) simp
    then show "map_option fst (pool d (s, html)) = Some a" by simp
  next
    assume "map_option fst (pool d (s, html)) = Some a"
    then obtain n where "pool d (s, html) = Some (a, n)" by auto
    then obtain r where r: "(a, r) \<in> set (cells d)" "cell_has (s, html) (a, r)"
      unfolding pool_Some [OF ok] by blast
    from cell_key_of [OF d r(1)] r(2) have "cell_key (cells d) a = (s, html)"
      by (simp add: cell_has_def)
    with r(1) show "strdict_find d s html = Some a"
      unfolding strdict_find_correct [OF b] i by force
  qed
  then show ?thesis by (metis option.exhaust)
qed

text \<open>Changing a count leaves the table alone.\<close>

lemma set_refcnt_simps [simp]:
  "buckets (set_refcnt d a n) = buckets d" "dictsize (set_refcnt d a n) = dictsize d"
  "dict_exp (set_refcnt d a n) = dict_exp d"
  "bucket_array (set_refcnt d a n) = bucket_array d"
  "dict_capacity (set_refcnt d a n) = dict_capacity d"
  "bucket_items (set_refcnt d a n) = bucket_items d"
  by (simp_all add: set_refcnt_def bucket_array_def dict_capacity_def bucket_items_def
      split: option.split)

lemma map_of_update: "map_of (map (\<lambda>(b, r). if b = a then (b, f r) else (b, r)) cs) b =
    map_option (\<lambda>r. if b = a then f r else r) (map_of cs b)"
  by (induction cs) auto

lemma filter_update: "filter (\<lambda>p. fst p \<noteq> a) (map (\<lambda>(b, r). if b = a then (b, f r) else (b, r)) cs) =
    filter (\<lambda>p. fst p \<noteq> a) cs"
  by (induction cs) (auto split: if_splits)

lemma map_of_set_refcnt: "map_of (cells (set_refcnt d a n)) b =
    map_option (\<lambda>r. if b = a then r\<lparr>refcnt := n\<rparr> else r) (map_of (cells d) b)"
  by (simp add: set_refcnt_def map_of_update)

lemma set_refcnt_keys [simp]: "cell_key (cells (set_refcnt d a n)) = cell_key (cells d)"
  by (rule ext) (simp add: cell_key_def map_of_set_refcnt split: option.split)

lemma set_refcnt_fst [simp]: "map fst (cells (set_refcnt d a n)) = map fst (cells d)"
  by (auto simp: set_refcnt_def comp_def case_prod_beta)

lemma set_refcnt_buckets_ok [simp]: "buckets_ok (set_refcnt d a n) = buckets_ok d"
  by (simp add: buckets_ok_def)


lemma pool_get_refcnt:
  assumes ok: "strdict_ok d" and p: "pool d k = Some (a, n)"
  shows "get_refcnt d a = n" and "0 < n" and "n < REFCNT_MOD" and "a \<noteq> 0"
proof -
  from p obtain r where r: "(a, r) \<in> set (cells d)" "refcnt r = n"
    unfolding pool_Some [OF ok] by blast
  moreover have "distinct (map fst (cells d))" using ok by (simp add: strdict_ok_def)
  ultimately show "get_refcnt d a = n" by (simp add: get_refcnt_def)
  from r ok show "0 < n" "n < REFCNT_MOD" "a \<noteq> 0" by (auto simp: strdict_ok_def)
qed

lemma pool_inj:
  assumes ok: "strdict_ok d" and "pool d k = Some (a, n)" and "pool d k' = Some (a, n')"
  shows "k' = k"
proof -
  from assms obtain r r' where "(a, r) \<in> set (cells d)" "cell_has k (a, r)"
    "(a, r') \<in> set (cells d)" "cell_has k' (a, r')"
    unfolding pool_Some [OF ok] by blast
  moreover have "distinct (map fst (cells d))" using ok by (simp add: strdict_ok_def)
  ultimately show ?thesis by (metis cell_has_def eq_key_imp_eq_value snd_conv)
qed

lemma set_refcnt_pool:
  assumes ok: "strdict_ok d" and p: "pool d k = Some (a, m)"
    and n: "0 < n" "n < REFCNT_MOD"
  shows "strdict_ok (set_refcnt d a n)" and "pool (set_refcnt d a n) = (pool d)(k \<mapsto> (a, n))"
proof -
  let ?f = "\<lambda>(b, r). if b = a then (b, r\<lparr>refcnt := n\<rparr>) else (b, r)"
  have cs: "cells (set_refcnt d a n) = map ?f (cells d)" by (simp add: set_refcnt_def)
  have "fst ` set (cells (set_refcnt d a n)) = fst ` set (cells d)"
    by (metis list.set_map set_refcnt_fst)
  moreover have "\<forall>p\<in>set (cells (set_refcnt d a n)).
      fst p \<noteq> 0 \<and> 0 < refcnt (snd p) \<and> refcnt (snd p) < REFCNT_MOD"
    using ok n by (auto simp: strdict_ok_def cs split: if_splits)
  ultimately show ok': "strdict_ok (set_refcnt d a n)"
    using ok by (simp add: strdict_ok_def)
  have mem: "(b, r) \<in> set (map ?f (cells d)) \<longleftrightarrow>
      (\<exists>r'. (b, r') \<in> set (cells d) \<and> r = (if b = a then r'\<lparr>refcnt := n\<rparr> else r'))" for b r
    by (auto simp: image_iff split: if_splits) (force+)?
  show "pool (set_refcnt d a n) = (pool d)(k \<mapsto> (a, n))"
  proof
    fix k'
    have has: "cell_has k' (b, r'\<lparr>refcnt := n\<rparr>) = cell_has k' (b, r')" for b r'
      by (simp add: cell_has_def)
    have "pool (set_refcnt d a n) k' = Some (b, m') \<longleftrightarrow> ((pool d)(k \<mapsto> (a, n))) k' = Some (b, m')"
      for b m'
    proof (cases "b = a")
      case True
      from p obtain r where r: "(a, r) \<in> set (cells d)" "cell_has k (a, r)"
        unfolding pool_Some [OF ok] by blast
      have u: "\<And>r'. (a, r') \<in> set (cells d) \<Longrightarrow> r' = r"
        using ok r(1) by (auto simp: strdict_ok_def dest: eq_key_imp_eq_value)
      have "pool (set_refcnt d a n) k' = Some (b, m') \<longleftrightarrow> cell_has k' (a, r) \<and> n = m'"
      proof
        assume "pool (set_refcnt d a n) k' = Some (b, m')"
        then obtain q where "(b, q) \<in> set (map ?f (cells d))" "cell_has k' (b, q)" "refcnt q = m'"
          unfolding pool_Some [OF ok'] cs by blast
        with True u has show "cell_has k' (a, r) \<and> n = m'" unfolding mem by auto
      next
        assume "cell_has k' (a, r) \<and> n = m'"
        then have "(b, r\<lparr>refcnt := n\<rparr>) \<in> set (map ?f (cells d)) \<and>
            cell_has k' (b, r\<lparr>refcnt := n\<rparr>) \<and> refcnt (r\<lparr>refcnt := n\<rparr>) = m'"
          using r(1) True has unfolding mem by auto
        then show "pool (set_refcnt d a n) k' = Some (b, m')"
          unfolding pool_Some [OF ok'] cs by blast
      qed
      also have "\<dots> \<longleftrightarrow> k' = k \<and> n = m'" using r(2) by (auto simp: cell_has_def)
      also have "\<dots> \<longleftrightarrow> ((pool d)(k \<mapsto> (a, n))) k' = Some (b, m')"
        using True pool_inj [OF ok p, of k'] by auto
      finally show ?thesis .
    next
      case False
      have "pool (set_refcnt d a n) k' = Some (b, m') \<longleftrightarrow> pool d k' = Some (b, m')"
        unfolding pool_Some [OF ok'] pool_Some [OF ok] cs mem using False by auto
      with False p show ?thesis by auto
    qed
    then show "pool (set_refcnt d a n) k' = ((pool d)(k \<mapsto> (a, n))) k'"
      by (metis option.exhaust surj_pair)
  qed
qed


section \<open>Interning and releasing\<close>

text \<open>What an allocator promises: a new address that is not NULL.\<close>

definition fresh_malloc :: "(nat list \<Rightarrow> nat) \<Rightarrow> bool" where
  "fresh_malloc malloc \<longleftrightarrow> (\<forall>xs. malloc xs \<notin> set xs \<and> malloc xs \<noteq> 0)"

lemma agstrdup_hit:
  assumes ok: "strdict_ok d" and hit: "pool d (s, html) = Some (a, n)" and n: "n + 1 < REFCNT_MOD"
  shows "\<exists>d'. agstrdup_internal malloc d (Some (p, s)) html = Some (a, d') \<and> strdict_ok d' \<and>
    pool d' = (pool d)((s, html) \<mapsto> (a, n + 1))"
proof -
  have f: "strdict_find d s html = Some a" using find_pool [OF ok] hit by simp
  note c = pool_get_refcnt [OF ok hit]
  have "agstrdup_internal malloc d (Some (p, s)) html = Some (a, set_refcnt d a (n + 1))"
    using f c(1) n by (simp add: agstrdup_internal_def)
  with set_refcnt_pool [OF ok hit _ n] show ?thesis by simp
qed

lemma strdict_ok_cell:
  assumes ok: "buckets_ok d" and i: "bucket_items d = fst ` set (cells d)" and a: "a \<notin> fst ` set (cells d)"
  shows "buckets_ok (d\<lparr>cells := (a, r) # cells d\<rparr>)"
    and "\<And>b. b \<in> bucket_items d \<Longrightarrow> cell_key ((a, r) # cells d) b = cell_key (cells d) b"
proof -
  show key: "\<And>b. b \<in> bucket_items d \<Longrightarrow> cell_key ((a, r) # cells d) b = cell_key (cells d) b"
    using i a by (auto simp: cell_key_def)
  have "table_ok strdict_hash (cell_key ((a, r) # cells d)) (bucket_array d) (dict_capacity d)"
    using ok key table_ok_cong [of strdict_hash "cell_key (cells d)" "bucket_array d"
        "dict_capacity d" "cell_key ((a, r) # cells d)"]
    by (simp add: buckets_ok_def bucket_items_def)
  with ok show "buckets_ok (d\<lparr>cells := (a, r) # cells d\<rparr>)" by (simp add: buckets_ok_def)
qed

lemma pool_find_None: "pool d k = None \<longleftrightarrow> \<not> (\<exists>p. p \<in> set (cells d) \<and> cell_has k p)"
  unfolding pool_def by (simp add: find_None_iff del: split_paired_All)

lemma agstrdup_miss:
  assumes ok: "strdict_ok d" and miss: "pool d (s, html) = None"
    and fresh: "fresh_malloc malloc" and few: "dictsize d < 2 ^ 56"
  shows "\<exists>a d'. agstrdup_internal malloc d (Some (p, s)) html = Some (a, d') \<and> strdict_ok d' \<and>
    a \<notin> fst ` set (cells d) \<and> a \<in> range malloc \<and> a \<noteq> 0 \<and>
    pool d' = (pool d)((s, html) \<mapsto> (a, 1))"
proof -
  let ?a = "malloc (map fst (cells d))"
  let ?r = "\<lparr>refcnt = 1, is_html = html, chars = s\<rparr>"
  let ?d = "d\<lparr>cells := (?a, ?r) # cells d\<rparr>"
  have a: "?a \<notin> fst ` set (cells d)" "?a \<noteq> 0"
    using fresh by (auto simp: fresh_malloc_def simp flip: set_map)
  have b: "buckets_ok d" and i: "bucket_items d = fst ` set (cells d)"
    and dist: "distinct (map fst (cells d))" using ok by (simp_all add: strdict_ok_def)
  note c = strdict_ok_cell [OF b i a(1), where r = ?r]
  have k: "cell_key (cells ?d) ?a = (s, html)" by (simp add: cell_key_def)
  have "cell_key (cells ?d) ?a \<notin> cell_key (cells ?d) ` bucket_items ?d"
  proof
    assume "cell_key (cells ?d) ?a \<in> cell_key (cells ?d) ` bucket_items ?d"
    then obtain q where q: "q \<in> set (cells d)" "cell_key (cells d) (fst q) = (s, html)"
      using c(2) k by (auto simp: i)
    with cell_key_of [OF dist q(1)] have "cell_has (s, html) q" by (simp add: cell_has_def)
    with q(1) miss show False unfolding pool_find_None by blast
  qed
  from strdict_add_correct [OF c(1) this] few obtain d' where d': "strdict_add ?d ?a = Some d'"
    "buckets_ok d'" "bucket_items d' = insert ?a (bucket_items d)" "cells d' = cells ?d"
    by auto
  have "strdict_find d s html = None" using find_pool [OF ok] miss by simp
  then have dup: "agstrdup_internal malloc d (Some (p, s)) html = Some (?a, d')"
    using d'(1) by (simp add: agstrdup_internal_def Let_def)
  have ok': "strdict_ok d'" using ok d' a i by (auto simp: strdict_ok_def REFCNT_MOD_def)
  have "pool d' = (pool d)((s, html) \<mapsto> (?a, 1))"
    using d'(4) by (auto simp: pool_def cell_has_def fun_eq_iff)
  with dup ok' a show ?thesis by blast
qed

lemma agstrfree_decrements:
  assumes ok: "strdict_ok d" and hit: "pool d (s, html) = Some (a, n)" and n: "1 < n"
  shows "\<exists>d'. agstrfree d (Some (a, s)) html = (True, d') \<and> strdict_ok d' \<and>
    pool d' = (pool d)((s, html) \<mapsto> (a, n - 1))"
proof -
  have f: "strdict_find d s html = Some a" using find_pool [OF ok] hit by simp
  note c = pool_get_refcnt [OF ok hit]
  have m: "(n + (REFCNT_MOD - 1)) mod REFCNT_MOD = n - 1"
  proof -
    have "n + (REFCNT_MOD - 1) = (n - 1) + REFCNT_MOD" using n by (simp add: REFCNT_MOD_def)
    moreover have "(n - 1 + REFCNT_MOD) mod REFCNT_MOD = n - 1" using c(3) by simp
    ultimately show ?thesis by metis
  qed
  have "agstrfree d (Some (a, s)) html = (True, set_refcnt d a (n - 1))"
    using f c(1) m n by (simp add: agstrfree_def Let_def)
  with set_refcnt_pool [OF ok hit, of "n - 1"] n c(3) show ?thesis by simp
qed

lemma strdict_remove_correct:
  assumes ok: "buckets_ok d" and i: "bucket_items d = fst ` set (cells d)"
    and d: "distinct (map fst (cells d))" and a: "a \<in> fst ` set (cells d)"
  shows "buckets_ok (strdict_remove d a)"
    and "cells (strdict_remove d a) = filter (\<lambda>p. fst p \<noteq> a) (cells d)"
    and "bucket_items (strdict_remove d a) = fst ` set (cells (strdict_remove d a))"
proof -
  let ?cap = "dict_capacity d" and ?sl = "bucket_array d" and ?k = "cell_key (cells d) a"
  have t: "table_ok strdict_hash (cell_key (cells d)) ?sl ?cap" and n: "dictsize d = card (live ?sl ?cap)"
    using ok by (simp_all add: buckets_ok_def)
  from a i obtain c where c: "c < ?cap" "?sl c = FULL a"
    unfolding bucket_items_def by (metis itemsE)
  from string_table.find_hit [OF t c refl]
  have f: "find_slot ?sl (refstr_eq (cells d) (fst ?k) (snd ?k)) (strdict_hash ?k) ?cap 0 = Some c"
    by (simp add: refstr_eq_key)
  let ?d = "d\<lparr>buckets := Some (?sl(c := TOMBSTONE)), dictsize := dictsize d - Suc 0,
             cells := filter (\<lambda>p. fst p \<noteq> a) (cells d)\<rparr>"
  have rem: "strdict_remove d a = ?d" using f c by (simp add: strdict_remove_def Let_def)
  then show cs: "cells (strdict_remove d a) = filter (\<lambda>p. fst p \<noteq> a) (cells d)" by simp
  have sl: "buckets d \<noteq> None" using c(1) by (cases "buckets d") (auto simp: dict_capacity_def)
  then have cap: "2 ^ dict_exp d = ?cap" by (auto simp: dict_capacity_def)
  note b = string_table.bury_ok [OF t c]
  show it: "bucket_items (strdict_remove d a) = fst ` set (cells (strdict_remove d a))"
    using b(2) i by (auto simp: rem bucket_items_def cap)
  have "cell_key (filter (\<lambda>p. fst p \<noteq> a) (cells d)) b = cell_key (cells d) b" if "b \<noteq> a" for b
  proof -
    have "map_of (filter (\<lambda>p. fst p \<noteq> a) cs) b = map_of cs b" for cs :: "(nat \<times> refstr) list"
      using that by (induction cs) auto
    then show ?thesis by (simp add: cell_key_def)
  qed
  with table_ok_cong [OF b(1)] b(2) have
    "table_ok strdict_hash (cell_key (filter (\<lambda>p. fst p \<noteq> a) (cells d))) (?sl(c := TOMBSTONE)) ?cap"
    by blast
  with ok b(3) n sl show "buckets_ok (strdict_remove d a)"
    by (simp add: rem buckets_ok_def cap)
qed

lemma agstrfree_last:
  assumes ok: "strdict_ok d" and hit: "pool d (s, html) = Some (a, 1)"
  shows "\<exists>d'. agstrfree d (Some (a, s)) html = (True, d') \<and> strdict_ok d' \<and>
    pool d' = (pool d)((s, html) := None)"
proof -
  have f: "strdict_find d s html = Some a" using find_pool [OF ok] hit by simp
  let ?z = "set_refcnt d a 0"
  note c = pool_get_refcnt [OF ok hit]
  have fr: "agstrfree d (Some (a, s)) html = (True, strdict_remove ?z a)"
    using f c(1) by (simp add: agstrfree_def Let_def REFCNT_MOD_def)
  from hit obtain r where r: "(a, r) \<in> set (cells d)" "cell_has (s, html) (a, r)"
    unfolding pool_Some [OF ok] by blast
  have fst_set: "fst ` set (cells ?z) = fst ` set (cells d)" by (metis list.set_map set_refcnt_fst)
  have z: "buckets_ok ?z" "bucket_items ?z = fst ` set (cells ?z)" "distinct (map fst (cells ?z))"
    "a \<in> fst ` set (cells ?z)"
    using ok r(1) unfolding fst_set by (auto simp: strdict_ok_def image_iff intro: bexI [of _ "(a, r)"])
  note rem = strdict_remove_correct [OF z]
  have cs: "cells (strdict_remove ?z a) = filter (\<lambda>p. fst p \<noteq> a) (cells d)"
    unfolding rem(2) by (simp add: set_refcnt_def filter_update)
  have ok': "strdict_ok (strdict_remove ?z a)"
    using ok rem(1) unfolding strdict_ok_def rem(3) cs by (simp add: distinct_map_filter)
  have "pool (strdict_remove ?z a) k = ((pool d)((s, html) := None)) k" for k
  proof (cases "k = (s, html)")
    case True
    have "\<And>p. p \<in> set (cells d) \<Longrightarrow> cell_has (s, html) p \<Longrightarrow> fst p = a"
      using cells_unique [OF ok _ _ r] by fastforce
    then have "\<forall>p\<in>set (filter (\<lambda>p. fst p \<noteq> a) (cells d)). \<not> cell_has (s, html) p" by auto
    with True show ?thesis by (simp add: pool_def cs find_None_all)
  next
    case False
    have "fst p \<noteq> a" if "p \<in> set (cells d)" "cell_has k p" for p
    proof
      assume "fst p = a"
      moreover have "distinct (map fst (cells d))" using ok by (simp add: strdict_ok_def)
      ultimately have "p = (a, r)" using that r(1) by (metis eq_key_imp_eq_value prod.collapse)
      with that(2) r(2) False show False by (simp add: cell_has_def)
    qed
    then have "List.find (cell_has k) (filter (\<lambda>p. fst p \<noteq> a) (cells d)) = List.find (cell_has k) (cells d)"
      by (rule find_filter_same)
    with False show ?thesis by (simp add: pool_def cs)
  qed
  then have "pool (strdict_remove ?z a) = (pool d)((s, html) := None)" by blast
  with fr ok' show ?thesis by blast
qed

section \<open>Properties\<close>

text \<open>What a string and its kind stand for: its number of references, 0 when it is not interned.\<close>

definition references :: "strdict \<Rightarrow> strkey \<Rightarrow> nat" where
  "references d k = (case pool d k of None \<Rightarrow> 0 | Some (_, n) \<Rightarrow> n)"

text \<open>
  C18. Interning: duplicating a string returns one address per text and kind, never NULL, with
  one more reference; nothing else in the pool changes and a later lookup returns that address.
\<close>
theorem agstrdup_interns:
  assumes "strdict_ok d" and "fresh_malloc malloc" and "dictsize d < 2 ^ 56"
    and "references d (s, html) + 1 < REFCNT_MOD"
  shows "\<exists>a d'. agstrdup_internal malloc d (Some (p, s)) html = Some (a, d') \<and> strdict_ok d' \<and> a \<noteq> 0 \<and>
    (strdict_find d s html \<noteq> None \<longrightarrow> strdict_find d s html = Some a) \<and>
    strdict_find d' s html = Some a \<and> references d' (s, html) = references d (s, html) + 1 \<and>
    (\<forall>k. k \<noteq> (s, html) \<longrightarrow> pool d' k = pool d k)"
proof (cases "pool d (s, html)")
  case None
  from agstrdup_miss [OF assms(1) None assms(2,3), of p] obtain a d' where
    d': "agstrdup_internal malloc d (Some (p, s)) html = Some (a, d')" "strdict_ok d'" "a \<noteq> 0"
    "pool d' = (pool d)((s, html) \<mapsto> (a, 1))" by blast
  with None find_pool [OF assms(1), of s html] find_pool [OF d'(2), of s html] show ?thesis
    by (simp add: references_def)
next
  case (Some q)
  obtain a n where q: "q = (a, n)" by (cases q)
  have n: "n + 1 < REFCNT_MOD" using assms(4) Some q by (simp add: references_def)
  from agstrdup_hit [OF assms(1) Some [unfolded q] n, of malloc p] obtain d' where
    d': "agstrdup_internal malloc d (Some (p, s)) html = Some (a, d')" "strdict_ok d'"
    "pool d' = (pool d)((s, html) \<mapsto> (a, n + 1))" by blast
  have "a \<noteq> 0" using Some q assms(1) unfolding q pool_Some [OF assms(1)] by (force simp: strdict_ok_def)
  with d' Some q find_pool [OF assms(1), of s html] find_pool [OF d'(2), of s html] show ?thesis
    by (simp add: references_def)
qed

text \<open>An allocator with even addresses, for the witnesses.\<close>

definition bump_malloc :: "nat list \<Rightarrow> nat" where
  "bump_malloc xs = 2 * Suc (sum_list xs)"

lemma references_new [simp]: "references strdict_new k = 0"
  by (simp add: references_def pool_new)

lemma dictsize_new [simp]: "dictsize strdict_new = 0"
  by (simp add: strdict_new_def)

lemma bump_malloc_fresh: "fresh_malloc bump_malloc"
proof -
  have "x \<le> sum_list xs" if "x \<in> set xs" for x and xs :: "nat list" using that member_le_sum_list by blast
  then show ?thesis unfolding fresh_malloc_def bump_malloc_def by fastforce
qed

theorem agstrdup_interns_witness:
  "\<exists>a d'. agstrdup_internal bump_malloc strdict_new (Some (0, ''dot'')) False = Some (a, d') \<and>
    strdict_find d' ''dot'' False = Some a \<and> references d' (''dot'', False) = 1"
proof -
  have "references strdict_new (''dot'', False) + 1 < REFCNT_MOD" by (simp add: REFCNT_MOD_def)
  from agstrdup_interns [OF strdict_ok_new bump_malloc_fresh _ this, of 0] show ?thesis by auto
qed

text \<open>
  C19. Freeing a string that was interned drops one reference; the last one takes the string out
  of the pool. All other strings, and other strings' addresses, stay.
\<close>
theorem agstrfree_releases:
  assumes "strdict_ok d" and "strdict_find d s html = Some a"
  shows "\<exists>d'. agstrfree d (Some (a, s)) html = (True, d') \<and> strdict_ok d' \<and>
    references d' (s, html) = references d (s, html) - 1 \<and>
    (strdict_find d' s html = None \<longleftrightarrow> references d (s, html) = 1) \<and>
    (\<forall>k. k \<noteq> (s, html) \<longrightarrow> pool d' k = pool d k)"
proof -
  from assms find_pool [OF assms(1), of s html] obtain n where n: "pool d (s, html) = Some (a, n)" by auto
  have pos: "0 < n" using pool_get_refcnt [OF assms(1) n] assms(1) n
    unfolding pool_Some [OF assms(1)] by (force simp: strdict_ok_def)
  show ?thesis
  proof (cases "n = 1")
    case True
    from agstrfree_last [OF assms(1)] n True obtain d' where
      d': "agstrfree d (Some (a, s)) html = (True, d')" "strdict_ok d'" "pool d' = (pool d)((s, html) := None)"
      by blast
    with n True find_pool [OF d'(2), of s html] show ?thesis by (simp add: references_def)
  next
    case False
    with pos agstrfree_decrements [OF assms(1) n] obtain d' where
      d': "agstrfree d (Some (a, s)) html = (True, d')" "strdict_ok d'"
      "pool d' = (pool d)((s, html) \<mapsto> (a, n - 1))" by auto
    with n False find_pool [OF d'(2), of s html] show ?thesis by (simp add: references_def)
  qed
qed

theorem agstrfree_releases_witness:
  "\<exists>a d d'. agstrdup_internal bump_malloc strdict_new (Some (0, ''dot'')) False = Some (a, d) \<and>
    agstrfree d (Some (a, ''dot'')) False = (True, d') \<and> strdict_find d' ''dot'' False = None"
proof -
  have none: "pool strdict_new (''dot'', False) = None" by (simp add: pool_new)
  from agstrdup_miss [OF strdict_ok_new none bump_malloc_fresh, of 0] obtain a d where
    d: "agstrdup_internal bump_malloc strdict_new (Some (0, ''dot'')) False = Some (a, d)" "strdict_ok d"
    "pool d = (pool strdict_new)((''dot'', False) \<mapsto> (a, 1))" by auto
  then have "strdict_find d ''dot'' False = Some a" using find_pool [OF d(2)] by simp
  from agstrfree_releases [OF d(2) this] d show ?thesis by (auto simp: references_def)
qed

end
