(* ===== verification/Ids.thy ===== *)
theory Ids
  imports Cdt_Correct Refstr
begin

text \<open>
  Object IDs: the default ID discipline of \<open>lib/cgraph/id.c\<close> (the ID of a named object is the
  address of its interned name, anonymous objects get odd numbers) and the internal map of
  \<open>imap.c\<close>, which gives names that start with \<open>'%'\<close> anonymous IDs. The part of \<open>Agclos_t\<close>
  both work on is the record \<open>clos\<close>; its dictionaries are splay trees of the theory \<open>Cdt\<close>.
\<close>

section \<open>The shared resources of a graph\<close>

datatype objtype = AGRAPH | AGNODE | AGEDGE | AGINEDGE

text \<open>\<open>IMapEntry_t\<close>: an ID and the address of the interned name.\<close>

record imap_entry =
  ent_id :: nat
  ent_str :: nat

text \<open>
  \<open>Agclos_t\<close> with the state of the default ID discipline. \<open>malloc\<close> is the allocator the string
  pool uses; \<open>seqs\<close> are the sequence counters, indexed by \<open>AGRAPH\<close>, \<open>AGNODE\<close>, \<open>AGEDGE\<close>.
\<close>

record clos =
  strings :: strdict
  counter :: nat
  seqs :: "objtype \<Rightarrow> nat"
  lookup_by_name :: "objtype \<Rightarrow> imap_entry dt option"
  lookup_by_id :: "objtype \<Rightarrow> imap_entry dt option"
  malloc :: "nat list \<Rightarrow> nat"

definition clos_new :: "(nat list \<Rightarrow> nat) \<Rightarrow> clos" where
  "clos_new m = \<lparr>strings = strdict_new, counter = 0, seqs = (\<lambda>_. 0), lookup_by_name = (\<lambda>_. None),
     lookup_by_id = (\<lambda>_. None), malloc = m\<rparr>"

text \<open>\<open>agnextseq\<close>: the incremented counter.\<close>

definition agnextseq :: "clos \<Rightarrow> objtype \<Rightarrow> nat \<times> clos" where
  "agnextseq cl ty =
    (let n = (seqs cl ty + 1) mod 2 ^ 64 in (n, cl\<lparr>seqs := (seqs cl)(ty := n)\<rparr>))"

section \<open>The default ID discipline\<close>

text \<open>\<open>idmap\<close>: \<open>None\<close> is a failed assertion; an unknown name without \<open>createflag\<close> is ID 0.\<close>

definition idmap :: "clos \<Rightarrow> cstr option \<Rightarrow> bool \<Rightarrow> (nat \<times> clos) option" where
  "idmap cl str createflag =
    (case str of
       Some s \<Rightarrow>
         (if createflag then
            (case agstrdup (malloc cl) (strings cl) (Some s) of
               None \<Rightarrow> None
             | Some (a, d) \<Rightarrow> if even a then Some (a, cl\<lparr>strings := d\<rparr>) else None)
          else
            (let a = (case agstrbind (strings cl) s of None \<Rightarrow> 0 | Some a \<Rightarrow> a)
             in if even a then Some (a, cl) else None))
     | None \<Rightarrow> Some ((counter cl * 2 + 1) mod 2 ^ 64,
                    cl\<lparr>counter := (counter cl + 1) mod 2 ^ 64\<rparr>))"

text \<open>A pointer into the pool read back as a C string; \<open>None\<close> when the cell is freed.\<close>

definition string_at :: "strdict \<Rightarrow> nat \<Rightarrow> cstr option" where
  "string_at d a = map_option (\<lambda>r. (a, chars r)) (map_of (cells d) a)"

text \<open>
  Releasing one reference through such a pointer. A NULL pointer is the harmless failure of
  \<open>agstrfree\<close>; a pointer to a freed cell is undefined behaviour, the result \<open>None\<close>.
\<close>

definition free_string :: "strdict \<Rightarrow> nat \<Rightarrow> strdict option" where
  "free_string d a =
    (if a = 0 then Some d
     else case string_at d a of
         None \<Rightarrow> None
       | Some s \<Rightarrow> Some (snd (agstrfree d (Some s) False)))"

definition idfree :: "clos \<Rightarrow> nat \<Rightarrow> clos option" where
  "idfree cl i =
    (if even i then map_option (\<lambda>d. cl\<lparr>strings := d\<rparr>) (free_string (strings cl) i) else Some cl)"

text \<open>\<open>idprint\<close>: an even ID is the pointer to its name, which may be NULL; otherwise NULL.\<close>

definition idprint :: "nat \<Rightarrow> nat option" where
  "idprint i = (if even i \<and> i \<noteq> 0 then Some i else None)"

section \<open>The internal map\<close>

definition idcmpf :: "imap_entry \<Rightarrow> imap_entry \<Rightarrow> int" where
  "idcmpf p0 p1 = (if ent_id p0 > ent_id p1 then 1 else if ent_id p0 < ent_id p1 then -1 else 0)"

definition namecmpf :: "imap_entry \<Rightarrow> imap_entry \<Rightarrow> int" where
  "namecmpf p0 p1 = (if ent_str p0 > ent_str p1 then 1 else if ent_str p0 < ent_str p1 then -1 else 0)"

text \<open>\<open>if (objtype == AGINEDGE) objtype = AGEDGE;\<close>\<close>

definition map_type :: "objtype \<Rightarrow> objtype" where
  "map_type ty = (if ty = AGINEDGE then AGEDGE else ty)"

definition set_by_name :: "objtype \<Rightarrow> imap_entry dt option \<Rightarrow> clos \<Rightarrow> clos" where
  "set_by_name ty d cl = cl\<lparr>lookup_by_name := (lookup_by_name cl)(ty := d)\<rparr>"

definition set_by_id :: "objtype \<Rightarrow> imap_entry dt option \<Rightarrow> clos \<Rightarrow> clos" where
  "set_by_id ty d cl = cl\<lparr>lookup_by_id := (lookup_by_id cl)(ty := d)\<rparr>"

definition aginternalmaplookup :: "clos \<Rightarrow> objtype \<Rightarrow> cstr \<Rightarrow> nat option \<times> clos" where
  "aginternalmaplookup cl ty str =
    (case lookup_by_name cl (map_type ty) of
       None \<Rightarrow> (None, cl)
     | Some d \<Rightarrow>
         (case agstrbind (strings cl) str of
            None \<Rightarrow> (None, cl)
          | Some search_str \<Rightarrow>
              (let (sym, d') = dt_search namecmpf \<lparr>ent_id = 0, ent_str = search_str\<rparr> d
               in (map_option ent_id sym, set_by_name (map_type ty) (Some d') cl))))"

definition aginternalmapinsert :: "clos \<Rightarrow> objtype \<Rightarrow> cstr \<Rightarrow> nat \<Rightarrow> clos option" where
  "aginternalmapinsert cl ty str i =
    (case agstrdup (malloc cl) (strings cl) (Some str) of
       None \<Rightarrow> None
     | Some (a, st) \<Rightarrow>
         (let ent = \<lparr>ent_id = i, ent_str = a\<rparr>;
              t = map_type ty;
              cl1 = cl\<lparr>strings := st\<rparr>;
              d_name_to_id = (case lookup_by_name cl1 t of None \<Rightarrow> dtopen DT_OSET False | Some d \<Rightarrow> d);
              d_id_to_name = (case lookup_by_id cl1 t of None \<Rightarrow> dtopen DT_OSET False | Some d \<Rightarrow> d)
          in Some (set_by_id t (Some (snd (dt_insert idcmpf ent d_id_to_name)))
                    (set_by_name t (Some (snd (dt_insert namecmpf ent d_name_to_id))) cl1))))"

definition find_isym :: "clos \<Rightarrow> objtype \<Rightarrow> nat \<Rightarrow> imap_entry option \<times> clos" where
  "find_isym cl ty i =
    (case lookup_by_id cl (map_type ty) of
       None \<Rightarrow> (None, cl)
     | Some d \<Rightarrow>
         (let (isym, d') = dt_search idcmpf \<lparr>ent_id = i, ent_str = 0\<rparr> d
          in (isym, set_by_id (map_type ty) (Some d') cl)))"

definition aginternalmapprint :: "clos \<Rightarrow> objtype \<Rightarrow> nat \<Rightarrow> nat option \<times> clos" where
  "aginternalmapprint cl ty i = (let (isym, cl') = find_isym cl ty i in (map_option ent_str isym, cl'))"

text \<open>Both dictionaries exist when an entry is found; a missing one is a NULL dereference.\<close>

definition aginternalmapdelete :: "clos \<Rightarrow> objtype \<Rightarrow> nat \<Rightarrow> (bool \<times> clos) option" where
  "aginternalmapdelete cl ty i =
    (let t = map_type ty; (isym, cl1) = find_isym cl ty i
     in case isym of
          None \<Rightarrow> Some (False, cl1)
        | Some ent \<Rightarrow>
            (case (lookup_by_name cl1 t, lookup_by_id cl1 t) of
               (Some dn, Some di) \<Rightarrow>
                 (let cl2 = set_by_id t (Some (snd (dt_delete idcmpf ent di)))
                              (set_by_name t (Some (snd (dt_delete namecmpf ent dn))) cl1)
                  in map_option (\<lambda>d. (True, cl2\<lparr>strings := d\<rparr>)) (free_string (strings cl2) (ent_str ent)))
             | _ \<Rightarrow> None))"

text \<open>
  \<open>aginternalmapclearlocalnames\<close>: the loop over one dictionary takes the successor before it
  deletes; the fuel is one unit per entry and one for the end.
\<close>

definition LOCALNAMEPREFIX :: char where "LOCALNAMEPREFIX = CHR ''%''"

definition is_local :: "string \<Rightarrow> bool" where
  "is_local s \<longleftrightarrow> (case s of [] \<Rightarrow> False | c # _ \<Rightarrow> c = LOCALNAMEPREFIX)"

primrec clear_names :: "nat \<Rightarrow> objtype \<Rightarrow> imap_entry option \<Rightarrow> clos \<Rightarrow> clos option" where
  "clear_names 0 ty v cl = None"
| "clear_names (Suc n) ty v cl =
    (case v of
       None \<Rightarrow> Some cl
     | Some isym \<Rightarrow>
         (case lookup_by_name cl ty of
            None \<Rightarrow> None
          | Some d \<Rightarrow>
              (let (nxt, d') = dt_next namecmpf isym d;
                   cl1 = set_by_name ty (Some d') cl
               in case string_at (strings cl1) (ent_str isym) of
                    None \<Rightarrow> None
                  | Some s \<Rightarrow>
                      (if is_local (snd s) then
                         (case aginternalmapdelete cl1 ty (ent_id isym) of
                            None \<Rightarrow> None
                          | Some (_, cl2) \<Rightarrow> clear_names n ty nxt cl2)
                       else clear_names n ty nxt cl1))))"

definition clear_type :: "objtype \<Rightarrow> clos \<Rightarrow> clos option" where
  "clear_type ty cl =
    (case lookup_by_name cl ty of
       None \<Rightarrow> Some cl
     | Some d \<Rightarrow>
         (let (isym, d') = dt_first d
          in clear_names (Suc (length (contents d))) ty isym (set_by_name ty (Some d') cl)))"

definition aginternalmapclearlocalnames :: "clos \<Rightarrow> clos option" where
  "aginternalmapclearlocalnames cl =
    Option.bind (Option.bind (clear_type AGRAPH cl) (clear_type AGNODE)) (clear_type AGEDGE)"

text \<open>\<open>closeit\<close> frees the dictionaries (their discipline has no \<open>freef\<close>) and forgets them.\<close>

definition aginternalmapclose :: "clos \<Rightarrow> clos" where
  "aginternalmapclose cl = cl\<lparr>lookup_by_name := (\<lambda>_. None), lookup_by_id := (\<lambda>_. None)\<rparr>"

section \<open>Names and IDs\<close>

text \<open>
  \<open>agmapnametoid\<close>: the outer \<open>None\<close> is a failed assertion, the inner one the result 0. Names
  with the local prefix go to the internal map; the ID discipline always maps the others.
\<close>

definition agmapnametoid :: "clos \<Rightarrow> objtype \<Rightarrow> cstr option \<Rightarrow> bool \<Rightarrow> (nat option \<times> clos) option" where
  "agmapnametoid cl ty str createflag =
    (case str of
       Some s \<Rightarrow>
         (if \<not> is_local (snd s) then
            map_option (\<lambda>(i, cl1). (Some i, cl1)) (idmap cl (Some s) createflag)
          else
            (case aginternalmaplookup cl ty s of
               (Some i, cl1) \<Rightarrow> Some (Some i, cl1)
             | (None, cl1) \<Rightarrow>
                 (if createflag then
                    (case idmap cl1 None createflag of
                       None \<Rightarrow> None
                     | Some (i, cl2) \<Rightarrow>
                         map_option (\<lambda>cl3. (Some i, cl3)) (aginternalmapinsert cl2 ty s i))
                  else Some (None, cl1))))
     | None \<Rightarrow>
         (if createflag then map_option (\<lambda>(i, cl1). (Some i, cl1)) (idmap cl None createflag)
          else Some (None, cl)))"

definition agfreeid :: "clos \<Rightarrow> objtype \<Rightarrow> nat \<Rightarrow> clos option" where
  "agfreeid cl ty i =
    (case aginternalmapdelete cl ty i of None \<Rightarrow> None | Some (_, cl1) \<Rightarrow> idfree cl1 i)"

text \<open>The decimal digits of \<open>PRIu64\<close>.\<close>

fun decimal :: "nat \<Rightarrow> string" where
  "decimal n = (if n < 10 then [char_of (48 + n)] else decimal (n div 10) @ [char_of (48 + n mod 10)])"

declare decimal.simps [simp del]

text \<open>
  \<open>agnameof\<close>: the content of the name; the outer \<open>None\<close> reads a freed cell, the inner one is
  NULL (an anonymous edge).
\<close>

definition agnameof :: "clos \<Rightarrow> objtype \<Rightarrow> nat \<Rightarrow> (string option \<times> clos) option" where
  "agnameof cl ty i =
    (case aginternalmapprint cl ty i of
       (Some a, cl1) \<Rightarrow> map_option (\<lambda>s. (Some (snd s), cl1)) (string_at (strings cl1) a)
     | (None, cl1) \<Rightarrow>
         (case idprint i of
            Some a \<Rightarrow> map_option (\<lambda>s. (Some (snd s), cl1)) (string_at (strings cl1) a)
          | None \<Rightarrow>
              Some (if ty \<noteq> AGEDGE then Some (LOCALNAMEPREFIX # decimal i) else None, cl1)))"

end
