(* ===== verification/Ids_Correct.thy ===== *)
theory Ids_Correct
  imports Ids
begin

text \<open>
  Correctness of the ID layer: a held reference keeps its string alive, the two dictionaries of
  the internal map agree, creating an ID either returns the one the name already has or one
  nobody holds, and releasing a held ID succeeds.
\<close>

section \<open>References to interned strings\<close>

text \<open>
  \<open>H\<close> is the multiset of IDs and string addresses that are held somewhere. The pool holds
  \<open>H\<close> when every held address is a live cell with at least as many references.
\<close>

definition holds :: "strdict \<Rightarrow> nat multiset \<Rightarrow> bool" where
  "holds d H \<longleftrightarrow> strdict_ok d \<and> (\<forall>a. 0 < get_refcnt d a \<longrightarrow> even a) \<and>
     (\<forall>a. even a \<and> a \<noteq> 0 \<longrightarrow> count H a \<le> get_refcnt d a)"

definition pool_room :: "strdict \<Rightarrow> bool" where
  "pool_room d \<longleftrightarrow> dictsize d < 2 ^ 56 \<and> (\<forall>a. get_refcnt d a + 1 < REFCNT_MOD)"

definition even_malloc :: "(nat list \<Rightarrow> nat) \<Rightarrow> bool" where
  "even_malloc m \<longleftrightarrow> fresh_malloc m \<and> (\<forall>xs. even (m xs))"

lemma refcnt_pool:
  assumes ok: "strdict_ok d"
  shows "(0 < n \<and> get_refcnt d a = n) \<longleftrightarrow> (\<exists>k. pool d k = Some (a, n))"
proof
  assume "0 < n \<and> get_refcnt d a = n"
  then obtain r where r: "map_of (cells d) a = Some r" "refcnt r = n"
    by (auto simp: get_refcnt_def split: option.splits)
  have "pool d (chars r, is_html r) = Some (a, n)"
    unfolding pool_Some [OF ok] using map_of_SomeD [OF r(1)] r(2) by (auto simp: cell_has_def)
  then show "\<exists>k. pool d k = Some (a, n)" ..
next
  assume "\<exists>k. pool d k = Some (a, n)"
  then show "0 < n \<and> get_refcnt d a = n" using pool_get_refcnt [OF ok] by blast
qed

lemma get_refcnt_cell: "strdict_ok d \<Longrightarrow> 0 < get_refcnt d a \<longleftrightarrow> a \<in> fst ` set (cells d)"
proof -
  assume ok: "strdict_ok d"
  show ?thesis
  proof (cases "map_of (cells d) a")
    case None
    then have "a \<notin> fst ` set (cells d)" by (simp add: map_of_eq_None_iff)
    with None show ?thesis by (simp add: get_refcnt_def)
  next
    case (Some q)
    note q = map_of_SomeD [OF Some]
    have "\<forall>p\<in>set (cells d). 0 < refcnt (snd p)" using ok by (simp add: strdict_ok_def)
    from bspec [OF this q] imageI [OF q, of fst] have "0 < refcnt q" "a \<in> fst ` set (cells d)"
      by simp_all
    with Some show ?thesis by (simp add: get_refcnt_def)
  qed
qed

lemma get_refcnt_upd:
  assumes ok: "strdict_ok d" "strdict_ok d'" and p: "pool d' = (pool d)(k \<mapsto> (a, n))"
    and k: "pool d k = None \<and> get_refcnt d a = 0 \<or> (\<exists>m. pool d k = Some (a, m))"
  shows "get_refcnt d' = (get_refcnt d)(a := n)"
proof
  fix b
  have "\<exists>k'. pool d' k' = Some (a, n)" by (rule exI [of _ k]) (simp add: p)
  then have "get_refcnt d' a = n" using refcnt_pool [OF ok(2), of n a] by blast
  moreover have "get_refcnt d' b = get_refcnt d b" if "b \<noteq> a"
  proof -
    have "(\<exists>k'. pool d' k' = Some (b, m)) \<longleftrightarrow> (\<exists>k'. pool d k' = Some (b, m))" for m
      using that k unfolding p by (metis fun_upd_apply option.inject option.distinct(1) prod.inject)
    then show ?thesis
      using refcnt_pool [OF ok(1)] refcnt_pool [OF ok(2)] by (metis gr0I)
  qed
  ultimately show "get_refcnt d' b = ((get_refcnt d)(a := n)) b" by simp
qed

lemma get_refcnt_del:
  assumes ok: "strdict_ok d" "strdict_ok d'" and p: "pool d' = (pool d)(k := None)"
    and k: "pool d k = Some (a, m)"
  shows "get_refcnt d' = (get_refcnt d)(a := 0)"
proof
  fix b
  have "\<And>k' n. k' \<noteq> k \<Longrightarrow> pool d k' \<noteq> Some (a, n)" using pool_inj [OF ok(1) k] by blast
  then have "get_refcnt d' a = 0"
    using refcnt_pool [OF ok(2)] unfolding p by (metis fun_upd_apply gr0I option.distinct(1))
  moreover have "get_refcnt d' b = get_refcnt d b" if "b \<noteq> a"
  proof -
    have "(\<exists>k'. pool d' k' = Some (b, m)) \<longleftrightarrow> (\<exists>k'. pool d k' = Some (b, m))" for m
      using that k unfolding p by (metis fun_upd_apply option.inject option.distinct(1) prod.inject)
    then show ?thesis
      using refcnt_pool [OF ok(1)] refcnt_pool [OF ok(2)] by (metis gr0I)
  qed
  ultimately show "get_refcnt d' b = ((get_refcnt d)(a := 0)) b" by simp
qed

text \<open>The key a C string is looked up under.\<close>

definition key_of :: "strdict \<Rightarrow> cstr \<Rightarrow> strkey" where
  "key_of d s = (snd s, strdict_find d (snd s) True = Some (fst s))"

lemma agstrbind_pool: "strdict_ok d \<Longrightarrow> agstrbind d s = map_option fst (pool d (key_of d s))"
  by (simp add: agstrbind_def agstrbind_html_def agstrbind_text_def refstrbind_def key_of_def find_pool)

lemma agstrdup_key: "agstrdup m d (Some s) = agstrdup_internal m d (Some s) (snd (key_of d s))"
  by (simp add: agstrdup_def agstrdup_html_def agstrdup_text_def key_of_def)

lemma fst_key_of [simp]: "fst (key_of d s) = snd s"
  by (simp add: key_of_def)

text \<open>Interning: one more reference to the cell of the string, which is new or was there.\<close>

lemma agstrdup_spec:
  assumes ok: "strdict_ok d" and room: "pool_room d" and m: "even_malloc m"
  shows "\<exists>a d'. agstrdup m d (Some s) = Some (a, d') \<and> strdict_ok d' \<and> a \<noteq> 0 \<and>
    (agstrbind d s = Some a \<and> 0 < get_refcnt d a \<or>
     agstrbind d s = None \<and> get_refcnt d a = 0 \<and> even a) \<and>
    pool d' = (pool d)(key_of d s \<mapsto> (a, get_refcnt d a + 1)) \<and>
    get_refcnt d' = (get_refcnt d)(a := get_refcnt d a + 1)"
proof -
  obtain p t html where k: "key_of d s = (t, html)" and s: "s = (p, t)"
    by (metis fst_key_of prod.collapse)
  show ?thesis
  proof (cases "pool d (t, html)")
    case (Some an)
    then obtain a n where an: "pool d (t, html) = Some (a, n)" by (cases an) auto
    note c = pool_get_refcnt [OF ok an]
    have n: "n + 1 < REFCNT_MOD" using room c(1) by (auto simp: pool_room_def)
    from agstrdup_hit [OF ok an n] obtain d' where
      d': "agstrdup m d (Some s) = Some (a, d')" "strdict_ok d'" "pool d' = (pool d)((t, html) \<mapsto> (a, n + 1))"
      by (auto simp: agstrdup_key s k [unfolded s])
    have "get_refcnt d' = (get_refcnt d)(a := n + 1)"
      using get_refcnt_upd [OF ok d'(2,3)] an by blast
    with d' c an show ?thesis by (simp add: agstrbind_pool [OF ok] k)
  next
    case None
    have rm: "fresh_malloc m" "dictsize d < 2 ^ 56"
      using room m by (auto simp: pool_room_def even_malloc_def)
    from agstrdup_miss [OF ok None rm, of p] obtain a d' where
      d': "agstrdup m d (Some s) = Some (a, d')" "strdict_ok d'" "a \<notin> fst ` set (cells d)"
      "a \<in> range m" "a \<noteq> 0" "pool d' = (pool d)((t, html) \<mapsto> (a, 1))"
      by (auto simp: agstrdup_key s k [unfolded s])
    have z: "get_refcnt d a = 0" using d'(3) get_refcnt_cell [OF ok] by blast
    have "get_refcnt d' = (get_refcnt d)(a := 1)"
      using get_refcnt_upd [OF ok d'(2,6)] None z by blast
    moreover have "even a" using d'(4) m by (auto simp: even_malloc_def)
    ultimately show ?thesis using d' z None by (simp add: agstrbind_pool [OF ok] k)
  qed
qed

lemma agstrdup_holds:
  assumes h: "holds d H" and room: "pool_room d" and m: "even_malloc m"
  shows "\<exists>a d'. agstrdup m d (Some s) = Some (a, d') \<and> holds d' (add_mset a H) \<and> even a \<and> a \<noteq> 0 \<and>
    pool d' = (pool d)(key_of d s \<mapsto> (a, get_refcnt d a + 1)) \<and>
    (agstrbind d s = Some a \<or> agstrbind d s = None \<and> a \<notin># H \<and> get_refcnt d a = 0)"
proof -
  have ok: "strdict_ok d" using h by (simp add: holds_def)
  from agstrdup_spec [OF ok room m, of s] obtain a d' where
    d': "agstrdup m d (Some s) = Some (a, d')" "strdict_ok d'" "a \<noteq> 0"
    "agstrbind d s = Some a \<and> 0 < get_refcnt d a \<or> agstrbind d s = None \<and> get_refcnt d a = 0 \<and> even a"
    "pool d' = (pool d)(key_of d s \<mapsto> (a, get_refcnt d a + 1))"
    "get_refcnt d' = (get_refcnt d)(a := get_refcnt d a + 1)" by blast
  have a: "even a" using h d'(4) by (auto simp: holds_def)
  have c: "count H a \<le> get_refcnt d a" using h a d'(3) by (simp add: holds_def)
  have "holds d' (add_mset a H)"
    using h a d'(2) c unfolding holds_def d'(6) by auto
  moreover have "a \<notin># H" if "get_refcnt d a = 0" using c that by (simp add: not_in_iff)
  ultimately show ?thesis using d' a by (intro exI [of _ a] exI [of _ d']) auto
qed

lemma string_at_pool:
  assumes ok: "strdict_ok d" and p: "pool d k = Some (a, n)"
  shows "string_at d a = Some (a, fst k)"
proof -
  from p obtain r where r: "(a, r) \<in> set (cells d)" "cell_has k (a, r)"
    unfolding pool_Some [OF ok] by blast
  have "distinct (map fst (cells d))" using ok by (simp add: strdict_ok_def)
  with r show ?thesis by (auto simp: string_at_def cell_has_def)
qed

text \<open>Releasing a held reference succeeds and keeps the other holders.\<close>

lemma free_string_spec:
  assumes ok: "strdict_ok d" and a: "0 < get_refcnt d a"
  shows "\<exists>d' n. free_string d a = Some d' \<and> strdict_ok d' \<and>
    get_refcnt d' = (get_refcnt d)(a := n) \<and> get_refcnt d a \<le> n + 1 \<and> n \<le> get_refcnt d a \<and>
    (\<forall>k. (\<forall>m. pool d k \<noteq> Some (a, m)) \<longrightarrow> pool d' k = pool d k)"
proof -
  from a refcnt_pool [OF ok, of "get_refcnt d a" a] obtain k
    where p: "pool d k = Some (a, get_refcnt d a)" by blast
  obtain t html where k: "k = (t, html)" by (cases k)
  have fr: "free_string d a = Some (snd (agstrfree d (Some (a, t)) False))"
    using string_at_pool [OF ok p] k pool_get_refcnt(4) [OF ok p] by (simp add: free_string_def)
  show ?thesis
  proof (cases html)
    case False
    with p k have pf: "pool d (t, False) = Some (a, get_refcnt d a)" by simp
    show ?thesis
    proof (cases "get_refcnt d a = 1")
      case True
      with pf have "pool d (t, False) = Some (a, 1)" by simp
      from agstrfree_last [OF ok this] obtain d' where d': "agstrfree d (Some (a, t)) False = (True, d')"
        "strdict_ok d'" "pool d' = (pool d)((t, False) := None)" by auto
      have "get_refcnt d' = (get_refcnt d)(a := 0)" by (rule get_refcnt_del [OF ok d'(2,3) pf])
      with d' fr True pf show ?thesis by (intro exI [of _ d'] exI [of _ 0]) auto
    next
      case False
      with a have "1 < get_refcnt d a" by simp
      from agstrfree_decrements [OF ok pf this] obtain d' where
        d': "agstrfree d (Some (a, t)) False = (True, d')" "strdict_ok d'"
        "pool d' = (pool d)((t, False) \<mapsto> (a, get_refcnt d a - 1))" by auto
      have "get_refcnt d' = (get_refcnt d)(a := get_refcnt d a - 1)"
        using get_refcnt_upd [OF ok d'(2,3)] pf by blast
      with d' fr pf show ?thesis by (intro exI [of _ d'] exI [of _ "get_refcnt d a - 1"]) auto
    qed
  next
    case True
    have "strdict_find d t False \<noteq> Some a"
    proof
      assume "strdict_find d t False = Some a"
      then obtain n where "pool d (t, False) = Some (a, n)" using find_pool [OF ok] by auto
      from pool_inj [OF ok p this] k True show False by simp
    qed
    then have "snd (agstrfree d (Some (a, t)) False) = d"
      by (auto simp: agstrfree_def split: option.split)
    with fr ok show ?thesis by (intro exI [of _ d] exI [of _ "get_refcnt d a"]) simp
  qed
qed

lemma free_string_holds:
  assumes h: "holds d (add_mset a H)" and a: "even a"
  shows "\<exists>d'. free_string d a = Some d' \<and> holds d' H"
proof (cases "a = 0")
  case True
  with h show ?thesis unfolding True by (simp add: free_string_def holds_def)
next
  case False
  have ok: "strdict_ok d" using h by (simp add: holds_def)
  have c: "count (add_mset a H) a \<le> get_refcnt d a" using h a False unfolding holds_def by blast
  then have "0 < get_refcnt d a" by simp
  from free_string_spec [OF ok this] obtain d' n where d': "free_string d a = Some d'" "strdict_ok d'"
    "get_refcnt d' = (get_refcnt d)(a := n)" "get_refcnt d a \<le> n + 1" by blast
  have "count H b \<le> get_refcnt d' b" if "even b" "b \<noteq> 0" for b
  proof (cases "b = a")
    case True
    with c d'(3,4) show ?thesis by simp
  next
    case False
    with h that have "count (add_mset a H) b \<le> get_refcnt d b" unfolding holds_def by blast
    with False show ?thesis by (simp add: d'(3))
  qed
  with h a d' have "holds d' H" by (simp add: holds_def)
  with d' show ?thesis by blast
qed

section \<open>The internal map as a pair of dictionaries\<close>

interpretation by_id: comparator idcmpf
  by unfold_locales (auto simp: idcmpf_def split: if_splits)

interpretation by_name: comparator namecmpf
  by unfold_locales (auto simp: namecmpf_def split: if_splits)

definition entries :: "clos \<Rightarrow> objtype \<Rightarrow> imap_entry list" where
  "entries cl ty = (case lookup_by_id cl ty of None \<Rightarrow> [] | Some d \<Rightarrow> contents d)"

definition imap_ok :: "clos \<Rightarrow> objtype \<Rightarrow> bool" where
  "imap_ok cl ty \<longleftrightarrow>
    (case (lookup_by_name cl ty, lookup_by_id cl ty) of
       (None, None) \<Rightarrow> True
     | (Some dn, Some di) \<Rightarrow>
         dict_ok namecmpf dn \<and> dict_ok idcmpf di \<and> set (contents dn) = set (contents di)
     | _ \<Rightarrow> False)"

definition map_refs :: "clos \<Rightarrow> nat multiset" where
  "map_refs cl = image_mset ent_str (mset (entries cl AGRAPH @ entries cl AGNODE @ entries cl AGEDGE))"

text \<open>The invariant of the shared resources when \<open>H\<close> is the multiset of the IDs in use.\<close>

definition ids_ok :: "clos \<Rightarrow> nat multiset \<Rightarrow> bool" where
  "ids_ok cl H \<longleftrightarrow> even_malloc (malloc cl) \<and> holds (strings cl) (H + map_refs cl) \<and>
     (\<forall>ty. imap_ok cl ty) \<and>
     (\<forall>ty. \<forall>ent\<in>set (entries cl ty). ty \<noteq> AGINEDGE \<and> odd (ent_id ent) \<and>
        ent_id ent < 2 * counter cl + 1 \<and> even (ent_str ent) \<and> ent_str ent \<noteq> 0) \<and>
     (\<forall>a\<in>#H. odd a \<longrightarrow> a < 2 * counter cl + 1)"

definition ids_room :: "clos \<Rightarrow> bool" where
  "ids_room cl \<longleftrightarrow> pool_room (strings cl) \<and> counter cl + 1 < 2 ^ 63"

text \<open>A lookup changes the shape of the trees and nothing else.\<close>

definition same_ids :: "clos \<Rightarrow> clos \<Rightarrow> bool" where
  "same_ids cl cl' \<longleftrightarrow> strings cl' = strings cl \<and> counter cl' = counter cl \<and> seqs cl' = seqs cl \<and>
     malloc cl' = malloc cl \<and> entries cl' = entries cl \<and> ((\<forall>ty. imap_ok cl ty) \<longrightarrow> (\<forall>ty. imap_ok cl' ty))"

lemma same_ids_refl [simp]: "same_ids cl cl"
  by (simp add: same_ids_def)

lemma same_ids_ok: "same_ids cl cl' \<Longrightarrow> ids_ok cl H \<Longrightarrow> ids_ok cl' H"
  by (auto simp: same_ids_def ids_ok_def map_refs_def)

lemma same_ids_room: "same_ids cl cl' \<Longrightarrow> ids_room cl \<Longrightarrow> ids_room cl'"
  by (simp add: same_ids_def ids_room_def)

lemma clos_set_simps [simp]:
  "strings (set_by_name ty d cl) = strings cl" "strings (set_by_id ty d cl) = strings cl"
  "counter (set_by_name ty d cl) = counter cl" "counter (set_by_id ty d cl) = counter cl"
  "seqs (set_by_name ty d cl) = seqs cl" "seqs (set_by_id ty d cl) = seqs cl"
  "malloc (set_by_name ty d cl) = malloc cl" "malloc (set_by_id ty d cl) = malloc cl"
  "lookup_by_name (set_by_name ty d cl) = (lookup_by_name cl)(ty := d)"
  "lookup_by_id (set_by_name ty d cl) = lookup_by_id cl"
  "lookup_by_id (set_by_id ty d cl) = (lookup_by_id cl)(ty := d)"
  "lookup_by_name (set_by_id ty d cl) = lookup_by_name cl"
  by (simp_all add: set_by_name_def set_by_id_def)

lemma imap_ok_dicts:
  assumes "imap_ok cl ty" and "lookup_by_id cl ty = Some di"
  obtains dn where "lookup_by_name cl ty = Some dn" and "dict_ok namecmpf dn" and "dict_ok idcmpf di"
    and "set (contents dn) = set (contents di)" and "entries cl ty = contents di"
  using assms by (auto simp: imap_ok_def entries_def split: option.splits)

lemma imap_ok_dicts':
  assumes "imap_ok cl ty" and "lookup_by_name cl ty = Some dn"
  obtains di where "lookup_by_id cl ty = Some di" and "dict_ok namecmpf dn" and "dict_ok idcmpf di"
    and "set (contents dn) = set (contents di)" and "entries cl ty = contents di"
  using assms by (auto simp: imap_ok_def entries_def split: option.splits)

lemma entries_None: "imap_ok cl ty \<Longrightarrow> lookup_by_name cl ty = None \<Longrightarrow> entries cl ty = []"
  by (auto simp: imap_ok_def entries_def split: option.splits)

lemma namecmpf_zero [simp]: "namecmpf p q = 0 \<longleftrightarrow> ent_str q = ent_str p"
  by (auto simp: namecmpf_def)

lemma idcmpf_zero [simp]: "idcmpf p q = 0 \<longleftrightarrow> ent_id q = ent_id p"
  by (auto simp: idcmpf_def)

lemma maplookup_spec:
  assumes ok: "\<forall>ty. imap_ok cl ty" and l: "aginternalmaplookup cl ty s = (r, cl')"
  shows "same_ids cl cl'"
    and "r = (case agstrbind (strings cl) s of None \<Rightarrow> None
       | Some a \<Rightarrow> if lookup_by_name cl (map_type ty) = None then None else
           map_option ent_id (List.find (\<lambda>e. ent_str e = a)
             (case lookup_by_name cl (map_type ty) of None \<Rightarrow> [] | Some d \<Rightarrow> contents d)))"
proof -
  let ?t = "map_type ty"
  have "same_ids cl cl' \<and> r = (case agstrbind (strings cl) s of None \<Rightarrow> None
       | Some a \<Rightarrow> if lookup_by_name cl ?t = None then None else
           map_option ent_id (List.find (\<lambda>e. ent_str e = a)
             (case lookup_by_name cl ?t of None \<Rightarrow> [] | Some d \<Rightarrow> contents d)))"
  proof (cases "lookup_by_name cl ?t")
    case None
    with l show ?thesis by (auto simp: aginternalmaplookup_def split: option.split)
  next
    case (Some d)
    show ?thesis
    proof (cases "agstrbind (strings cl) s")
      case None
      with l Some show ?thesis by (auto simp: aginternalmaplookup_def)
    next
      case (Some a)
      let ?k = "\<lparr>ent_id = 0, ent_str = a\<rparr>"
      obtain isym d' where sd: "dt_search namecmpf ?k d = (isym, d')" by (cases "dt_search namecmpf ?k d")
      from ok \<open>lookup_by_name cl ?t = Some d\<close> obtain di where di: "lookup_by_id cl ?t = Some di"
        "dict_ok namecmpf d" "dict_ok idcmpf di" "set (contents d) = set (contents di)"
        by (metis imap_ok_dicts')
      note s = by_name.tree.srch [OF di(2), of ?k, unfolded sd]
      have cl': "cl' = set_by_name ?t (Some d') cl" "r = map_option ent_id isym"
        using l Some \<open>lookup_by_name cl ?t = Some d\<close> sd by (auto simp: aginternalmaplookup_def)
      have "imap_ok cl' ty'" if "\<forall>ty. imap_ok cl ty" for ty'
        using that [rule_format, of ty'] di s by (auto simp: cl' imap_ok_def split: option.splits)
      then have "same_ids cl cl'"
        by (auto simp: same_ids_def cl' entries_def)
      moreover have "isym = List.find (\<lambda>e. ent_str e = a) (contents d)"
        using s(1) by (simp add: od_find_def)
      ultimately show ?thesis using Some \<open>lookup_by_name cl ?t = Some d\<close> cl' by simp
    qed
  qed
  then show "same_ids cl cl'"
    and "r = (case agstrbind (strings cl) s of None \<Rightarrow> None
       | Some a \<Rightarrow> if lookup_by_name cl ?t = None then None else
           map_option ent_id (List.find (\<lambda>e. ent_str e = a)
             (case lookup_by_name cl ?t of None \<Rightarrow> [] | Some d \<Rightarrow> contents d)))" by simp_all
qed

lemma maplookup_None:
  assumes ok: "\<forall>ty. imap_ok cl ty" and l: "aginternalmaplookup cl ty s = (None, cl')"
    and a: "agstrbind (strings cl) s = Some a" and e: "ent \<in> set (entries cl (map_type ty))"
  shows "ent_str ent \<noteq> a"
proof (cases "lookup_by_name cl (map_type ty)")
  case None
  with entries_None ok e show ?thesis by fastforce
next
  case (Some d)
  from ok Some obtain di where "set (contents d) = set (contents di)" "entries cl (map_type ty) = contents di"
    by (metis imap_ok_dicts')
  with maplookup_spec(2) [OF ok l] a Some e show ?thesis
    by (auto simp: find_None_iff)
qed

lemma find_isym_spec:
  assumes ok: "\<forall>ty. imap_ok cl ty" and l: "find_isym cl ty i = (r, cl')"
  shows "same_ids cl cl'" and "r = List.find (\<lambda>e. ent_id e = i) (entries cl (map_type ty))"
proof -
  let ?t = "map_type ty"
  have "same_ids cl cl' \<and> r = List.find (\<lambda>e. ent_id e = i) (entries cl ?t)"
  proof (cases "lookup_by_id cl ?t")
    case None
    with l show ?thesis by (auto simp: find_isym_def entries_def)
  next
    case (Some d)
    let ?k = "\<lparr>ent_id = i, ent_str = 0\<rparr>"
    obtain isym d' where sd: "dt_search idcmpf ?k d = (isym, d')" by (cases "dt_search idcmpf ?k d")
    from ok Some obtain dn where dn: "lookup_by_name cl ?t = Some dn" "dict_ok namecmpf dn"
      "dict_ok idcmpf d" "set (contents dn) = set (contents d)" "entries cl ?t = contents d"
      by (metis imap_ok_dicts)
    note s = by_id.tree.srch [OF dn(3), of ?k, unfolded sd]
    have cl': "cl' = set_by_id ?t (Some d') cl" "r = isym"
      using l Some sd by (auto simp: find_isym_def)
    have "imap_ok cl' ty'" if "\<forall>ty. imap_ok cl ty" for ty'
      using that [rule_format, of ty'] dn s by (auto simp: cl' imap_ok_def split: option.splits)
    moreover have "entries cl' = entries cl"
      using s(2) Some by (auto simp: cl' entries_def fun_eq_iff)
    ultimately have "same_ids cl cl'" by (auto simp: same_ids_def cl')
    with s(1) dn(5) cl' show ?thesis by (simp add: od_find_def)
  qed
  then show "same_ids cl cl'" and "r = List.find (\<lambda>e. ent_id e = i) (entries cl ?t)" by simp_all
qed

section \<open>Creating and releasing IDs\<close>

lemma imap_ok_upd:
  assumes "\<forall>ty. imap_ok cl ty" and "dict_ok namecmpf dn" and "dict_ok idcmpf di"
    and "set (contents dn) = set (contents di)"
    and "lookup_by_name cl' = (lookup_by_name cl)(t := Some dn)"
    and "lookup_by_id cl' = (lookup_by_id cl)(t := Some di)"
  shows "\<forall>ty. imap_ok cl' ty" and "entries cl' = (entries cl)(t := contents di)"
  using assms by (auto simp: imap_ok_def entries_def fun_eq_iff)

lemma map_refs_upd:
  assumes "entries cl' = (entries cl)(t := xs)" and "t \<noteq> AGINEDGE"
  shows "map_refs cl' + image_mset ent_str (mset (entries cl t)) = map_refs cl + image_mset ent_str (mset xs)"
  using assms by (cases t) (simp_all add: map_refs_def)

lemma map_type_ne [simp]: "map_type ty \<noteq> AGINEDGE"
  by (simp add: map_type_def)

lemma entry_refs:
  "t \<noteq> AGINEDGE \<Longrightarrow> ent \<in> set (entries cl t) \<Longrightarrow> ent_str ent \<in># map_refs cl"
  by (cases t) (auto simp: map_refs_def)

lemma ordered_Nil [simp]: "ordered cmp []"
  by (simp add: ordered_def)

lemma dict_ok_dtopen [simp]: "dict_ok cmp (dtopen DT_OSET b)" "contents (dtopen DT_OSET b) = []"
  by (simp_all add: dict_ok_def dtopen_def contents_def)

lemma mapinsert_spec:
  assumes ok: "ids_ok cl H" and room: "pool_room (strings cl)" and i: "odd i" "i < 2 * counter cl + 1"
    and new_id: "\<forall>ent\<in>set (entries cl (map_type ty)). ent_id ent \<noteq> i"
    and new_name: "\<forall>a. agstrbind (strings cl) s = Some a \<longrightarrow>
      (\<forall>ent\<in>set (entries cl (map_type ty)). ent_str ent \<noteq> a)"
  shows "\<exists>cl'. aginternalmapinsert cl ty s i = Some cl' \<and> ids_ok cl' H \<and> counter cl' = counter cl \<and>
    seqs cl' = seqs cl"
proof -
  let ?t = "map_type ty"
  have h: "holds (strings cl) (H + map_refs cl)" and im: "\<forall>ty. imap_ok cl ty" and ev: "even_malloc (malloc cl)"
    using ok by (simp_all add: ids_ok_def)
  from agstrdup_holds [OF h room ev, of s] obtain a st where
    a: "agstrdup (malloc cl) (strings cl) (Some s) = Some (a, st)"
    "holds st (add_mset a (H + map_refs cl))" "even a" "a \<noteq> 0"
    "agstrbind (strings cl) s = Some a \<or> agstrbind (strings cl) s = None \<and> a \<notin># H + map_refs cl"
    by blast
  have na: "\<forall>ent\<in>set (entries cl ?t). ent_str ent \<noteq> a"
    using a(5) new_name entry_refs [of ?t _ cl] by auto
  let ?ent = "\<lparr>ent_id = i, ent_str = a\<rparr>"
  obtain dn di where d: "dn = (case lookup_by_name cl ?t of None \<Rightarrow> dtopen DT_OSET False | Some d \<Rightarrow> d)"
    "di = (case lookup_by_id cl ?t of None \<Rightarrow> dtopen DT_OSET False | Some d \<Rightarrow> d)" by simp
  have dk: "dict_ok namecmpf dn" "dict_ok idcmpf di" "set (contents dn) = set (contents di)"
    "contents di = entries cl ?t"
    using im [rule_format, of ?t] unfolding d by (auto simp: imap_ok_def entries_def split: option.splits)
  let ?dn = "snd (dt_insert namecmpf ?ent dn)" and ?di = "snd (dt_insert idcmpf ?ent di)"
  let ?cl = "set_by_id ?t (Some ?di) (set_by_name ?t (Some ?dn) (cl\<lparr>strings := st\<rparr>))"
  have ins: "aginternalmapinsert cl ty s i = Some ?cl"
    using a(1) by (simp add: aginternalmapinsert_def Let_def d)
  have fn: "od_find (namecmpf ?ent) (contents dn) = None" "od_find (idcmpf ?ent) (contents di) = None"
    using na new_id dk(3,4) by (auto simp: od_find_def find_None_iff)
  note c = by_name.tree.ins [OF dk(1), of ?ent] by_id.tree.ins [OF dk(2), of ?ent]
  have sets: "set (contents ?dn) = set (contents ?di)"
    using fn dk(3) by (simp add: c od_find_od_insert_missing)
  have im': "\<forall>ty. imap_ok ?cl ty" "entries ?cl = (entries cl)(?t := contents ?di)"
    using imap_ok_upd [OF im c(2,4) sets, of ?cl ?t] by simp_all
  have "map_refs ?cl + image_mset ent_str (mset (entries cl ?t)) =
      map_refs cl + image_mset ent_str (mset (contents ?di))"
    by (rule map_refs_upd [OF im'(2)]) simp
  then have mr: "map_refs ?cl = add_mset a (map_refs cl)"
    using mset_od_insert [OF fn(2), of ?ent] by (simp add: c dk(4))
  have el: "set (entries ?cl ?t) = insert ?ent (set (entries cl ?t))"
    using fn(2) by (simp add: im'(2) c od_find_od_insert_missing dk(4))
  have "\<forall>ty. \<forall>ent\<in>set (entries ?cl ty). ty \<noteq> AGINEDGE \<and> odd (ent_id ent) \<and>
        ent_id ent < 2 * counter cl + 1 \<and> even (ent_str ent) \<and> ent_str ent \<noteq> 0"
  proof (intro allI ballI)
    fix ty' ent assume e: "ent \<in> set (entries ?cl ty')"
    have "ent \<in> set (entries cl ty') \<or> (ty' = ?t \<and> ent = ?ent)"
    proof (cases "ty' = ?t")
      case True
      with e el show ?thesis by auto
    next
      case False
      with e im'(2) show ?thesis by simp
    qed
    with ok i a(3,4) show "ty' \<noteq> AGINEDGE \<and> odd (ent_id ent) \<and>
        ent_id ent < 2 * counter cl + 1 \<and> even (ent_str ent) \<and> ent_str ent \<noteq> 0"
      by (auto simp: ids_ok_def)
  qed
  with ok a(2) im'(1) have "ids_ok ?cl H" by (simp add: ids_ok_def mr)
  with ins show ?thesis by auto
qed

lemma idmap_named:
  assumes ok: "ids_ok cl H" and room: "ids_room cl"
  shows "\<exists>i cl'. idmap cl (Some s) True = Some (i, cl') \<and> ids_ok cl' (add_mset i H) \<and> even i \<and> i \<noteq> 0 \<and>
    counter cl' = counter cl \<and> seqs cl' = seqs cl \<and>
    pool (strings cl') = (pool (strings cl))(key_of (strings cl) s \<mapsto> (i, get_refcnt (strings cl) i + 1)) \<and>
    (agstrbind (strings cl) s = Some i \<or> agstrbind (strings cl) s = None \<and> i \<notin># H \<and> get_refcnt (strings cl) i = 0)"
proof -
  have h: "holds (strings cl) (H + map_refs cl)" and ev: "even_malloc (malloc cl)"
    and "pool_room (strings cl)" using ok room by (simp_all add: ids_ok_def ids_room_def)
  from agstrdup_holds [OF h this(3) ev, of s] obtain a st where
    a: "agstrdup (malloc cl) (strings cl) (Some s) = Some (a, st)"
    "holds st (add_mset a (H + map_refs cl))" "even a" "a \<noteq> 0"
    "pool st = (pool (strings cl))(key_of (strings cl) s \<mapsto> (a, get_refcnt (strings cl) a + 1))"
    "agstrbind (strings cl) s = Some a \<or> agstrbind (strings cl) s = None \<and> a \<notin># H + map_refs cl \<and>
       get_refcnt (strings cl) a = 0"
    by blast
  have "ids_ok (cl\<lparr>strings := st\<rparr>) (add_mset a H)"
  proof -
    have e: "entries (cl\<lparr>strings := st\<rparr>) = entries cl" by (simp add: entries_def fun_eq_iff)
    have "imap_ok (cl\<lparr>strings := st\<rparr>) = imap_ok cl" by (simp add: imap_ok_def fun_eq_iff)
    with ok a(2,3) e show ?thesis by (auto simp: ids_ok_def map_refs_def)
  qed
  with a show ?thesis by (auto simp: idmap_def)
qed

text \<open>An anonymous ID is odd and larger than all odd IDs before it.\<close>

lemma idmap_anonymous:
  assumes ok: "ids_ok cl H" and room: "ids_room cl"
  shows "\<exists>cl'. idmap cl None True = Some (2 * counter cl + 1, cl') \<and>
    ids_ok cl' (add_mset (2 * counter cl + 1) H) \<and> 2 * counter cl + 1 \<notin># H \<and>
    cl' = cl\<lparr>counter := counter cl + 1\<rparr>"
proof -
  let ?cl = "cl\<lparr>counter := counter cl + 1\<rparr>"
  have c: "counter cl + 1 < 2 ^ 63" using room by (simp add: ids_room_def)
  have e: "entries ?cl = entries cl" "imap_ok ?cl = imap_ok cl"
    by (simp_all add: entries_def imap_ok_def fun_eq_iff)
  have "holds (strings cl) (add_mset (2 * counter cl + 1) (H + map_refs cl))"
    using ok by (auto simp: ids_ok_def holds_def)
  moreover have "\<forall>ty. \<forall>ent\<in>set (entries cl ty). ty \<noteq> AGINEDGE \<and> odd (ent_id ent) \<and>
        ent_id ent < Suc (Suc (Suc (2 * counter cl))) \<and> even (ent_str ent) \<and> ent_str ent \<noteq> 0"
    using ok by (force simp: ids_ok_def)
  moreover have "\<forall>a\<in>#H. odd a \<longrightarrow> a < Suc (Suc (Suc (2 * counter cl)))" using ok by (force simp: ids_ok_def)
  ultimately have "ids_ok ?cl (add_mset (2 * counter cl + 1) H)"
    using ok e by (simp add: ids_ok_def map_refs_def)
  moreover have "2 * counter cl + 1 \<notin># H" using ok by (force simp: ids_ok_def)
  ultimately show ?thesis using c by (simp add: idmap_def mult.commute)
qed

lemma agstrbind_even:
  assumes "strdict_ok d" and "\<forall>a. 0 < get_refcnt d a \<longrightarrow> even a" and "agstrbind d s = Some a"
  shows "even a" and "a \<noteq> 0" and "0 < get_refcnt d a"
proof -
  from assms(1,3) obtain n where p: "pool d (key_of d s) = Some (a, n)"
    by (auto simp: agstrbind_pool)
  from pool_get_refcnt [OF assms(1) p] assms(2) show "even a" "a \<noteq> 0" "0 < get_refcnt d a" by auto
qed

lemma idmap_lookup:
  assumes "ids_ok cl H"
  shows "idmap cl (Some s) False = Some (case agstrbind (strings cl) s of None \<Rightarrow> 0 | Some a \<Rightarrow> a, cl)"
proof -
  have "strdict_ok (strings cl)" "\<forall>a. 0 < get_refcnt (strings cl) a \<longrightarrow> even a"
    using assms by (simp_all add: ids_ok_def holds_def)
  from agstrbind_even [OF this] show ?thesis by (auto simp: idmap_def split: option.split)
qed

text \<open>A probe without \<open>createflag\<close> never fails and leaves everything as it was.\<close>

lemma mapname_probe:
  assumes ok: "ids_ok cl H"
  shows "\<exists>r cl'. agmapnametoid cl ty str False = Some (r, cl') \<and> same_ids cl cl'"
proof (cases str)
  case None
  then show ?thesis by (simp add: agmapnametoid_def)
next
  case (Some s)
  have im: "\<forall>ty. imap_ok cl ty" using ok by (simp add: ids_ok_def)
  obtain r cl1 where l: "aginternalmaplookup cl ty s = (r, cl1)" by (cases "aginternalmaplookup cl ty s")
  show ?thesis
    using Some idmap_lookup [OF ok, of s] maplookup_spec(1) [OF im l] l
    by (cases r) (simp_all add: agmapnametoid_def)
qed

text \<open>
  Creation: the ID is the one a probe finds, or nobody holds it.
\<close>

lemma mapname_create:
  assumes ok: "ids_ok cl H" and room: "ids_room cl"
  shows "\<exists>i cl'. agmapnametoid cl ty str True = Some (Some i, cl') \<and> ids_ok cl' (add_mset i H) \<and>
    seqs cl' = seqs cl \<and> i \<noteq> 0 \<and>
    ((\<exists>cl''. agmapnametoid cl ty str False = Some (Some i, cl'')) \<or> i \<notin># H)"
proof (cases str)
  case None
  from idmap_anonymous [OF ok room] obtain cl' where
    "idmap cl None True = Some (2 * counter cl + 1, cl')" "ids_ok cl' (add_mset (2 * counter cl + 1) H)"
    "2 * counter cl + 1 \<notin># H" "cl' = cl\<lparr>counter := counter cl + 1\<rparr>" by blast
  with None show ?thesis by (simp add: agmapnametoid_def)
next
  case (Some s)
  show ?thesis
  proof (cases "is_local (snd s)")
    case False
    from idmap_named [OF ok room, of s] obtain i cl' where
      i: "idmap cl (Some s) True = Some (i, cl')" "ids_ok cl' (add_mset i H)" "i \<noteq> 0" "seqs cl' = seqs cl"
      "agstrbind (strings cl) s = Some i \<or> agstrbind (strings cl) s = None \<and> i \<notin># H" by blast
    with Some False idmap_lookup [OF ok, of s] show ?thesis
      by (auto simp: agmapnametoid_def)
  next
    case True
    have im: "\<forall>ty. imap_ok cl ty" using ok by (simp add: ids_ok_def)
    obtain r cl1 where l: "aginternalmaplookup cl ty s = (r, cl1)" by (cases "aginternalmaplookup cl ty s")
    note same = maplookup_spec(1) [OF im l]
    have ok1: "ids_ok cl1 H" and room1: "ids_room cl1"
      using same_ids_ok [OF same ok] same_ids_room [OF same room] .
    show ?thesis
    proof (cases r)
      case None
      from idmap_anonymous [OF ok1 room1] obtain cl2 where
        c2: "idmap cl1 None True = Some (2 * counter cl1 + 1, cl2)"
        "ids_ok cl2 (add_mset (2 * counter cl1 + 1) H)" "2 * counter cl1 + 1 \<notin># H"
        "cl2 = cl1\<lparr>counter := counter cl1 + 1\<rparr>" by blast
      have e2: "entries cl2 = entries cl" "strings cl2 = strings cl"
        using same c2(4) by (auto simp: same_ids_def entries_def fun_eq_iff)
      have nid: "\<forall>ent\<in>set (entries cl2 (map_type ty)). ent_id ent \<noteq> 2 * counter cl1 + 1"
        using ok1 same by (force simp: ids_ok_def same_ids_def e2)
      have nnm: "\<forall>a. agstrbind (strings cl2) s = Some a \<longrightarrow>
          (\<forall>ent\<in>set (entries cl2 (map_type ty)). ent_str ent \<noteq> a)"
        using maplookup_None [OF im l [unfolded None]] by (simp add: e2)
      have "counter cl2 = counter cl1 + 1" using c2(4) by simp
      then have small: "2 * counter cl1 + 1 < 2 * counter cl2 + 1" by simp
      have "pool_room (strings cl2)" using room e2 by (simp add: ids_room_def)
      from mapinsert_spec [OF c2(2) this _ small nid nnm] obtain cl3 where
        c3: "aginternalmapinsert cl2 ty s (2 * counter cl1 + 1) = Some cl3"
        "ids_ok cl3 (add_mset (2 * counter cl1 + 1) H)" "seqs cl3 = seqs cl2" by auto
      with c2 Some True None l same show ?thesis
        by (simp add: agmapnametoid_def same_ids_def)
    next
      case r: (Some i)
      obtain ent where e: "ent \<in> set (entries cl (map_type ty))" "ent_id ent = i"
      proof -
        from maplookup_spec(2) [OF im l, symmetric] r obtain a d where
          d: "lookup_by_name cl (map_type ty) = Some d"
          "map_option ent_id (List.find (\<lambda>e. ent_str e = a) (contents d)) = Some i"
          by (cases "agstrbind (strings cl) s"; cases "lookup_by_name cl (map_type ty)") auto
        then obtain ent where f: "List.find (\<lambda>e. ent_str e = a) (contents d) = Some ent" "ent_id ent = i"
          by auto
        from im d(1) obtain di where "set (contents d) = set (contents di)" "entries cl (map_type ty) = contents di"
          by (metis imap_ok_dicts')
        with find_SomeD [OF f(1)] f(2) that show thesis by auto
      qed
      have i: "odd i" "i < 2 * counter cl + 1" using ok e by (auto simp: ids_ok_def)
      have "ids_ok cl1 (add_mset i H)"
        using ok1 i same by (auto simp: ids_ok_def holds_def same_ids_def)
      with Some True r l same i show ?thesis by (auto simp: agmapnametoid_def same_ids_def odd_pos)
    qed
  qed
qed

lemma idfree_spec:
  assumes ok: "ids_ok cl (add_mset i H)"
  shows "\<exists>cl'. idfree cl i = Some cl' \<and> ids_ok cl' H \<and> seqs cl' = seqs cl"
proof (cases "even i")
  case True
  have "holds (strings cl) (add_mset i (H + map_refs cl))" using ok by (simp add: ids_ok_def)
  from free_string_holds [OF this True] obtain d' where d': "free_string (strings cl) i = Some d'"
    "holds d' (H + map_refs cl)" by blast
  have "entries (cl\<lparr>strings := d'\<rparr>) = entries cl" "imap_ok (cl\<lparr>strings := d'\<rparr>) = imap_ok cl"
    by (simp_all add: entries_def imap_ok_def fun_eq_iff)
  with ok d'(2) have "ids_ok (cl\<lparr>strings := d'\<rparr>) H" by (simp add: ids_ok_def map_refs_def)
  with d'(1) True show ?thesis by (simp add: idfree_def)
next
  case False
  have "holds (strings cl) (H + map_refs cl)"
    using ok False unfolding ids_ok_def holds_def by (auto split: if_splits)
  with ok have "ids_ok cl H" by (simp add: ids_ok_def)
  with False show ?thesis by (simp add: idfree_def)
qed

lemma mapdelete_spec:
  assumes ok: "ids_ok cl H"
  shows "\<exists>b cl'. aginternalmapdelete cl ty i = Some (b, cl') \<and> ids_ok cl' H \<and> seqs cl' = seqs cl"
proof -
  let ?t = "map_type ty"
  have im: "\<forall>ty. imap_ok cl ty" using ok by (simp add: ids_ok_def)
  obtain isym cl1 where f: "find_isym cl ty i = (isym, cl1)" by (cases "find_isym cl ty i")
  note fs = find_isym_spec [OF im f]
  have ok1: "ids_ok cl1 H" using same_ids_ok [OF fs(1) ok] .
  show ?thesis
  proof (cases isym)
    case None
    with f ok1 fs(1) show ?thesis by (auto simp: aginternalmapdelete_def Let_def same_ids_def)
  next
    case (Some ent)
    with find_SomeD fs(2) have ent: "ent \<in> set (entries cl ?t)" by metis
    have im1: "\<forall>ty. imap_ok cl1 ty" using ok1 by (simp add: ids_ok_def)
    have e1: "entries cl1 = entries cl" "seqs cl1 = seqs cl" using fs(1) by (simp_all add: same_ids_def)
    have "ent \<in> set (entries cl1 ?t)" using ent e1(1) by simp
    then obtain di where di: "lookup_by_id cl1 ?t = Some di"
      by (cases "lookup_by_id cl1 ?t") (simp_all add: entries_def)
    from imap_ok_dicts [OF im1 [rule_format] this] obtain dn where dn: "lookup_by_name cl1 ?t = Some dn"
      "dict_ok namecmpf dn" "dict_ok idcmpf di" "set (contents dn) = set (contents di)"
      "entries cl1 ?t = contents di" by blast
    let ?dn = "snd (dt_delete namecmpf ent dn)" and ?di = "snd (dt_delete idcmpf ent di)"
    let ?cl = "set_by_id ?t (Some ?di) (set_by_name ?t (Some ?dn) cl1)"
    note c = by_name.tree.del [OF dn(2), of ent] by_id.tree.del [OF dn(3), of ent]
    have on: "ordered namecmpf (contents dn)" "ordered idcmpf (contents di)"
      using dn(2,3) by (simp_all add: dict_ok_def)
    have mem: "ent \<in> set (contents di)" "ent \<in> set (contents dn)"
      using ent dn(4,5) e1 by simp_all
    have u: "\<And>e. e \<in> set (contents di) \<Longrightarrow> ent_id e = ent_id ent \<Longrightarrow> e = ent"
      "\<And>e. e \<in> set (contents dn) \<Longrightarrow> ent_str e = ent_str ent \<Longrightarrow> e = ent"
      using by_id.ordered_unique [OF on(2) mem(1)] by_name.ordered_unique [OF on(1) mem(2)] by auto
    have sets: "set (contents ?dn) = set (contents ?di)"
      unfolding c(1,3) set_od_delete [OF by_name.cut_of_ordered [OF on(1)]]
        set_od_delete [OF by_id.cut_of_ordered [OF on(2)]]
      using u dn(4) by auto
    have im': "\<forall>ty. imap_ok ?cl ty" "entries ?cl = (entries cl1)(?t := contents ?di)"
      using imap_ok_upd [OF im1 c(2,4) sets, of ?cl ?t] by simp_all
    have "map_refs ?cl + image_mset ent_str (mset (entries cl1 ?t)) =
        map_refs cl1 + image_mset ent_str (mset (contents ?di))"
      by (rule map_refs_upd [OF im'(2)]) simp
    then have mr: "map_refs cl1 = add_mset (ent_str ent) (map_refs ?cl)"
      using by_id.mset_od_delete [OF on(2) mem(1)] by (simp add: c dn(5))
    have ev: "even (ent_str ent)" using ok ent by (simp add: ids_ok_def)
    have "holds (strings cl1) (add_mset (ent_str ent) (H + map_refs ?cl))"
      using ok1 by (simp add: ids_ok_def mr)
    from free_string_holds [OF this ev] obtain d' where d': "free_string (strings cl1) (ent_str ent) = Some d'"
      "holds d' (H + map_refs ?cl)" by blast
    let ?cl' = "?cl\<lparr>strings := d'\<rparr>"
    have del: "aginternalmapdelete cl ty i = Some (True, ?cl')"
      using f Some dn(1) di d'(1) by (simp add: aginternalmapdelete_def Let_def)
    have e': "entries ?cl' = entries ?cl" "imap_ok ?cl' = imap_ok ?cl"
      by (simp_all add: entries_def imap_ok_def fun_eq_iff)
    have "set (entries ?cl ty') \<subseteq> set (entries cl1 ty')" for ty'
      unfolding im'(2) using dn(5) set_od_delete_subset [of "idcmpf ent" "contents di"]
      by (cases "ty' = ?t") (simp_all add: c(3))
    then have "\<forall>ty. \<forall>e\<in>set (entries ?cl ty). ty \<noteq> AGINEDGE \<and> odd (ent_id e) \<and>
        ent_id e < 2 * counter cl1 + 1 \<and> even (ent_str e) \<and> ent_str e \<noteq> 0"
      using ok1 unfolding ids_ok_def by blast
    moreover have "holds d' (H + map_refs ?cl')" using d'(2) e'(1) by (simp add: map_refs_def)
    ultimately have "ids_ok ?cl' H"
      using ok1 im'(1) e' by (simp add: ids_ok_def)
    with del e1 show ?thesis by auto
  qed
qed

text \<open>Releasing an ID that is held.\<close>

lemma agfreeid_spec:
  assumes ok: "ids_ok cl (add_mset i H)"
  shows "\<exists>cl'. agfreeid cl ty i = Some cl' \<and> ids_ok cl' H \<and> seqs cl' = seqs cl"
proof -
  from mapdelete_spec [OF ok] obtain b cl1 where "aginternalmapdelete cl ty i = Some (b, cl1)"
    "ids_ok cl1 (add_mset i H)" "seqs cl1 = seqs cl" by blast
  with idfree_spec [of cl1 i H] show ?thesis by (auto simp: agfreeid_def)
qed

section \<open>Probing for a name after it was created\<close>

lemma key_of_dup:
  assumes "strdict_ok d" and "strdict_ok d'" and p: "pool d' = (pool d)(key_of d s \<mapsto> (a, m))"
    and a: "agstrbind d s = Some a \<or> agstrbind d s = None"
  shows "key_of d' s = key_of d s" and "agstrbind d' s = Some a"
proof -
  obtain t where t: "key_of d s = (t, snd (key_of d s))" "t = snd s" by (simp add: key_of_def)
  have "strdict_find d' (snd s) True = Some (fst s) \<longleftrightarrow> strdict_find d (snd s) True = Some (fst s)"
  proof (cases "snd (key_of d s)")
    case True
    then have f: "strdict_find d (snd s) True = Some (fst s)" by (simp add: key_of_def)
    then have "agstrbind d s = Some (fst s)"
      using find_pool [OF assms(1)] True t by (simp add: agstrbind_pool [OF assms(1)])
    with a have "a = fst s" by simp
    with f True t p find_pool [OF assms(2)] show ?thesis by simp
  next
    case False
    with t p have "pool d' (snd s, True) = pool d (snd s, True)" by simp
    then show ?thesis using find_pool assms(1,2) by simp
  qed
  then show k: "key_of d' s = key_of d s" by (simp add: key_of_def)
  show "agstrbind d' s = Some a" by (simp add: agstrbind_pool [OF assms(2)] k p)
qed

lemma mapname_roundtrip:
  assumes ok: "ids_ok cl H" and room: "ids_room cl" and s: "\<not> is_local (snd s)"
    and c: "agmapnametoid cl ty (Some s) True = Some (Some i, cl')"
  shows "agmapnametoid cl' ty' (Some s) False = Some (Some i, cl')"
proof -
  from idmap_named [OF ok room, of s] obtain j cl2 where
    j: "idmap cl (Some s) True = Some (j, cl2)" "ids_ok cl2 (add_mset j H)"
    "pool (strings cl2) = (pool (strings cl))(key_of (strings cl) s \<mapsto> (j, get_refcnt (strings cl) j + 1))"
    "agstrbind (strings cl) s = Some j \<or> agstrbind (strings cl) s = None" by blast
  with c s have e: "j = i" "cl2 = cl'" by (simp_all add: agmapnametoid_def)
  have oks: "strdict_ok (strings cl)" "strdict_ok (strings cl2)"
    using ok j(2) by (simp_all add: ids_ok_def holds_def)
  have "agstrbind (strings cl') s = Some i" using key_of_dup(2) [OF oks j(3,4)] e by simp
  with idmap_lookup [OF j(2) [unfolded e], of s] s show ?thesis by (simp add: agmapnametoid_def)
qed

lemma mapname_seqs:
  assumes "\<not> is_local (snd s)" and "agmapnametoid cl ty (Some s) False = Some (r, cl')"
  shows "agmapnametoid (cl\<lparr>seqs := f\<rparr>) ty (Some s) False = Some (r, cl'\<lparr>seqs := f\<rparr>)"
  using assms by (auto simp: agmapnametoid_def idmap_def split: option.splits if_splits)

text \<open>Two different texts never share an ID.\<close>

lemma mapname_injective:
  assumes ok: "ids_ok cl H" and s: "\<not> is_local (snd s)" "\<not> is_local (snd s')"
    and i: "agmapnametoid cl ty (Some s) False = Some (Some i, cl1)" "i \<noteq> 0"
      "agmapnametoid cl ty' (Some s') False = Some (Some i, cl2)"
  shows "snd s' = snd s"
proof -
  have o: "strdict_ok (strings cl)" using ok by (simp add: ids_ok_def holds_def)
  from i s idmap_lookup [OF ok] have b: "agstrbind (strings cl) s = Some i" "agstrbind (strings cl) s' = Some i"
    by (auto simp: agmapnametoid_def split: option.splits)
  then obtain n n' where "pool (strings cl) (key_of (strings cl) s) = Some (i, n)"
    "pool (strings cl) (key_of (strings cl) s') = Some (i, n')" by (auto simp: agstrbind_pool [OF o])
  from pool_inj [OF o this] show ?thesis by (metis fst_key_of)
qed

text \<open>Probing twice gives the same answer.\<close>

lemma maplookup_iff:
  assumes ok: "\<forall>ty. imap_ok cl ty" and l: "aginternalmaplookup cl ty s = (r, cl')"
  shows "r = Some i \<longleftrightarrow> (\<exists>e\<in>set (entries cl (map_type ty)). agstrbind (strings cl) s = Some (ent_str e) \<and> ent_id e = i)"
proof (cases "lookup_by_name cl (map_type ty)")
  case None
  with maplookup_spec(2) [OF ok l] entries_None [OF ok [rule_format] None] show ?thesis
    by (simp split: option.split)
next
  case (Some d)
  from ok Some obtain di where d: "dict_ok namecmpf d" "set (contents d) = set (contents di)"
    "entries cl (map_type ty) = contents di" by (metis imap_ok_dicts')
  show ?thesis
  proof (cases "agstrbind (strings cl) s")
    case None
    with maplookup_spec(2) [OF ok l] show ?thesis by simp
  next
    case a: (Some a)
    have r: "r = map_option ent_id (List.find (\<lambda>e. ent_str e = a) (contents d))"
      using maplookup_spec(2) [OF ok l] Some a by simp
    have "ordered namecmpf (contents d)" using d(1) by (simp add: dict_ok_def)
    then have u: "List.find (\<lambda>e. ent_str e = a) (contents d) = Some e"
      if "e \<in> set (contents d)" "ent_str e = a" for e
      using by_name.od_find_member [of "contents d" e] that by (simp add: od_find_def)
    show ?thesis
    proof
      assume "r = Some i"
      with r have "map_option ent_id (List.find (\<lambda>e. ent_str e = a) (contents d)) = Some i" by simp
      then obtain e where "List.find (\<lambda>e. ent_str e = a) (contents d) = Some e" "ent_id e = i" by auto
      with find_SomeD [OF this(1)] d a
      show "\<exists>e\<in>set (entries cl (map_type ty)). agstrbind (strings cl) s = Some (ent_str e) \<and> ent_id e = i"
        by auto
    next
      assume "\<exists>e\<in>set (entries cl (map_type ty)). agstrbind (strings cl) s = Some (ent_str e) \<and> ent_id e = i"
      with u d a r show "r = Some i" by auto
    qed
  qed
qed

lemma mapname_same:
  assumes ok: "ids_ok cl H" and same: "same_ids cl cl1"
    and p: "agmapnametoid cl ty str False = Some (r, cl1)"
    and q: "agmapnametoid cl1 ty str False = Some (r', cl2)"
  shows "r' = r"
proof (cases str)
  case None
  with p q show ?thesis by (simp add: agmapnametoid_def)
next
  case (Some s)
  have ok1: "ids_ok cl1 H" using same_ids_ok [OF same ok] .
  have st: "strings cl1 = strings cl" "entries cl1 = entries cl" using same by (simp_all add: same_ids_def)
  show ?thesis
  proof (cases "is_local (snd s)")
    case False
    let ?i = "\<lambda>d. case agstrbind d s of None \<Rightarrow> 0 | Some a \<Rightarrow> a"
    have a: "agmapnametoid cl ty str False = Some (Some (?i (strings cl)), cl)"
      using Some False by (simp add: agmapnametoid_def idmap_lookup [OF ok])
    have b: "agmapnametoid cl1 ty str False = Some (Some (?i (strings cl1)), cl1)"
      using Some False by (simp add: agmapnametoid_def idmap_lookup [OF ok1])
    from a p have "r = Some (?i (strings cl))" by (metis option.inject prod.inject)
    moreover from b q have "r' = Some (?i (strings cl1))" by (metis option.inject prod.inject)
    ultimately show ?thesis by (simp only: st(1))
  next
    case True
    have im: "\<forall>ty. imap_ok cl ty" "\<forall>ty. imap_ok cl1 ty" using ok ok1 by (simp_all add: ids_ok_def)
    have step: "agmapnametoid c ty str False = Some (aginternalmaplookup c ty s)" for c
      using Some True by (cases "aginternalmaplookup c ty s")
        (auto simp: agmapnametoid_def split: option.split)
    have l: "aginternalmaplookup cl ty s = (r, cl1)" "aginternalmaplookup cl1 ty s = (r', cl2)"
      using p q unfolding step by (simp_all only: option.inject)
    have "r = Some i \<longleftrightarrow> r' = Some i" for i
      using maplookup_iff [OF im(1) l(1), of i] maplookup_iff [OF im(2) l(2), of i] unfolding st
      by (rule trans [OF _ sym])
    from this [of "the r"] this [of "the r'"] show ?thesis by (cases r; cases r') simp_all
  qed
qed

section \<open>Properties\<close>

lemma bump_malloc_even: "even_malloc bump_malloc"
  using bump_malloc_fresh by (simp add: even_malloc_def bump_malloc_def)

lemma ids_ok_new: "even_malloc m \<Longrightarrow> ids_ok (clos_new m) {#}"
  using strdict_ok_new
  by (auto simp: ids_ok_def clos_new_def holds_def imap_ok_def entries_def map_refs_def get_refcnt_def
      strdict_new_def)

lemma ids_room_new: "ids_room (clos_new m)"
  by (simp add: ids_room_def clos_new_def pool_room_def strdict_new_def get_refcnt_def REFCNT_MOD_def)

text \<open>
  C20. Reserving an ID for a name always succeeds, the ID is the one a probe for the name had
  found or one no object holds, and a probe for an ordinary name finds it again afterwards.
\<close>
theorem agmapnametoid_roundtrip:
  assumes "ids_ok cl H" and "ids_room cl"
  shows "\<exists>i cl'. agmapnametoid cl ty str True = Some (Some i, cl') \<and> i \<noteq> 0 \<and> ids_ok cl' (add_mset i H) \<and>
    ((\<exists>cl''. agmapnametoid cl ty str False = Some (Some i, cl'')) \<or> i \<notin># H) \<and>
    (\<forall>s. str = Some s \<and> \<not> is_local (snd s) \<longrightarrow> agmapnametoid cl' ty str False = Some (Some i, cl'))"
proof -
  from mapname_create [OF assms] obtain i cl' where
    i: "agmapnametoid cl ty str True = Some (Some i, cl')" "i \<noteq> 0" "ids_ok cl' (add_mset i H)"
    "(\<exists>cl''. agmapnametoid cl ty str False = Some (Some i, cl'')) \<or> i \<notin># H" by blast
  have "agmapnametoid cl' ty str False = Some (Some i, cl')" if "str = Some s" "\<not> is_local (snd s)" for s
    using mapname_roundtrip [OF assms that(2)] i(1) that(1) by simp
  then have "\<forall>s. str = Some s \<and> \<not> is_local (snd s) \<longrightarrow> agmapnametoid cl' ty str False = Some (Some i, cl')"
    by simp
  with i show ?thesis by (intro exI conjI) assumption+
qed

theorem agmapnametoid_roundtrip_witness:
  "\<exists>i cl'. agmapnametoid (clos_new bump_malloc) AGNODE (Some (1, ''a'')) True = Some (Some i, cl') \<and>
    agmapnametoid cl' AGNODE (Some (1, ''a'')) False = Some (Some i, cl')"
proof -
  let ?s = "(1::nat, ''a'')"
  have l: "\<not> is_local (snd ?s)" by (simp add: is_local_def LOCALNAMEPREFIX_def)
  from agmapnametoid_roundtrip [OF ids_ok_new [OF bump_malloc_even] ids_room_new, of AGNODE "Some ?s"]
  obtain i cl' where i: "agmapnametoid (clos_new bump_malloc) AGNODE (Some ?s) True = Some (Some i, cl')"
    and r: "\<forall>s. Some ?s = Some s \<and> \<not> is_local (snd s) \<longrightarrow>
      agmapnametoid cl' AGNODE (Some ?s) False = Some (Some i, cl')" by (elim exE conjE)
  from r [rule_format, OF conjI, OF refl l] i show ?thesis by blast
qed

text \<open>Two different ordinary names never share an ID.\<close>
lemma agmapnametoid_injective:
  assumes "ids_ok cl H" and "\<not> is_local (snd s)" and "\<not> is_local (snd s')"
    and "agmapnametoid cl ty (Some s) False = Some (Some i, cl1)"
    and "agmapnametoid cl ty' (Some s') False = Some (Some j, cl2)"
    and "i \<noteq> 0" and "snd s \<noteq> snd s'"
  shows "i \<noteq> j"
  using mapname_injective [OF assms(1-4,6)] assms(5,7) by metis

text \<open>
  Releasing the ID of an object never fails and takes exactly that object out of the books:
  the strings, IDs and internal names of all other objects stay accounted for.
\<close>
lemma agfreeid_accounts:
  assumes "ids_ok cl (add_mset i H)"
  shows "\<exists>cl'. agfreeid cl ty i = Some cl' \<and> ids_ok cl' H"
  using agfreeid_spec [OF assms] by blast

end
