(* ===== verification/Agraph.thy ===== *)
theory Agraph
  imports NodeSet Ids_Correct
begin

text \<open>
  The core of \<open>lib/cgraph\<close>: graphs, subgraphs, nodes and edges (\<open>graph.c\<close>, \<open>subg.c\<close>,
  \<open>node.c\<close>, \<open>edge.c\<close>, \<open>apply.c\<close>, \<open>obj.c\<close>). One main graph with its subgraphs is one
  state \<open>world\<close>; every operation takes the state and returns the new one, and its outer \<open>option\<close>
  is \<open>None\<close> where the code dereferences NULL or fails an assertion.

  Pointers: a node and an edge pair are numbers, allocated upwards and never reused; an
  \<open>Agedge_t *\<close> is an edge pair with one of its halves; a graph is the list of the allocation
  numbers of its ancestors from itself outwards, so that the main graph is \<open>[]\<close> and the parent
  is the tail. The memory behind a pointer always reads as a record; an object is alive when its
  graph lists it. A dictionary is the list of its objects in order and its operations are the
  \<open>od_\<close> functions, which the splay trees of \<open>Cdt\<close> implement (theory \<open>Cdt_Correct\<close>); a set of node
  IDs is the concrete table of \<open>NodeSet\<close>.
\<close>

section \<open>Objects and the state\<close>

type_synonym nref = nat
type_synonym eref = nat
type_synonym gref = "nat list"

datatype dir = OUT | IN

type_synonym handle = "eref \<times> dir"

record node_obj =
  nid :: nat
  nseq :: nat
  node_root :: nat

text \<open>\<open>Agedgepair_t\<close>: both halves carry the same ID and sequence number.\<close>

record edge_obj =
  eid :: nat
  eseq :: nat
  etail :: nref
  ehead :: nref

text \<open>The edge sets of an \<open>Agsubnode_t\<close>.\<close>

record subnode =
  in_id :: "handle list"
  out_id :: "handle list"
  in_seq :: "handle list"
  out_seq :: "handle list"

definition empty_subnode :: subnode where
  "empty_subnode = \<lparr>in_id = [], out_id = [], in_seq = [], out_seq = []\<rparr>"

text \<open>\<open>Agraph_t\<close> with the flags of its descriptor that the core reads.\<close>

record agraph =
  gid :: nat
  gseq :: nat
  directed :: bool
  strict :: bool
  no_loop :: bool
  maingraph :: bool
  has_attrs :: bool
  n_seq :: "nref list"
  n_id :: "nref node_set"
  subnodes :: "nref \<Rightarrow> subnode"
  g_seq :: "gref list"
  g_id :: "gref list"

datatype agobj = OG gref | ON nref | OE handle

text \<open>
  The calls into the record, attribute and callback layers, in the order the core makes them;
  what those layers do with them is not part of this state.
\<close>

datatype hook = BindRec agobj | AttrInit gref agobj | AttrDelete agobj | MethodInit gref agobj
  | MethodDelete gref agobj | RecClose agobj | Register agobj

text \<open>
  The state. \<open>pick\<close> stands for what a search by a wild card key meets first in a splay tree;
  \<open>mainroot\<close> is the identity of the main graph.
\<close>

record world =
  clos :: clos
  mainroot :: nat
  nodes :: "nref \<Rightarrow> node_obj"
  edges :: "eref \<Rightarrow> edge_obj"
  graphs :: "gref \<Rightarrow> agraph"
  nnext :: nat
  enext :: nat
  gnext :: nat
  pick :: "handle list \<Rightarrow> handle"
  hooks :: "hook list"

abbreviation AGID_n :: "world \<Rightarrow> nref \<Rightarrow> nat" where "AGID_n s n \<equiv> nid (nodes s n)"
abbreviation AGSEQ_n :: "world \<Rightarrow> nref \<Rightarrow> nat" where "AGSEQ_n s n \<equiv> nseq (nodes s n)"
abbreviation AGID_e :: "world \<Rightarrow> handle \<Rightarrow> nat" where "AGID_e s e \<equiv> eid (edges s (fst e))"
abbreviation AGSEQ_e :: "world \<Rightarrow> handle \<Rightarrow> nat" where "AGSEQ_e s e \<equiv> eseq (edges s (fst e))"
abbreviation AGTAIL :: "world \<Rightarrow> handle \<Rightarrow> nref" where "AGTAIL s e \<equiv> etail (edges s (fst e))"
abbreviation AGHEAD :: "world \<Rightarrow> handle \<Rightarrow> nref" where "AGHEAD s e \<equiv> ehead (edges s (fst e))"

definition AGMKOUT :: "handle \<Rightarrow> handle" where "AGMKOUT e = (fst e, OUT)"

definition AGMKIN :: "handle \<Rightarrow> handle" where "AGMKIN e = (fst e, IN)"

definition AGOPP :: "handle \<Rightarrow> handle" where
  "AGOPP e = (fst e, if snd e = IN then OUT else IN)"

text \<open>\<open>e->node\<close>: the head for an out-edge, the tail for an in-edge.\<close>

definition enode :: "world \<Rightarrow> handle \<Rightarrow> nref" where
  "enode s e = (if snd e = IN then AGTAIL s e else AGHEAD s e)"

definition upd_graph :: "gref \<Rightarrow> (agraph \<Rightarrow> agraph) \<Rightarrow> world \<Rightarrow> world" where
  "upd_graph g f s = s\<lparr>graphs := (graphs s)(g := f (graphs s g))\<rparr>"

definition upd_subnode :: "gref \<Rightarrow> nref \<Rightarrow> (subnode \<Rightarrow> subnode) \<Rightarrow> world \<Rightarrow> world" where
  "upd_subnode g n f =
    upd_graph g (\<lambda>G. G\<lparr>subnodes := (subnodes G)(n := f (subnodes G n))\<rparr>)"

definition hook :: "hook \<Rightarrow> world \<Rightarrow> world" where
  "hook h s = s\<lparr>hooks := hooks s @ [h]\<rparr>"

abbreviation sub_of :: "world \<Rightarrow> gref \<Rightarrow> nref \<Rightarrow> subnode" where
  "sub_of s g n \<equiv> subnodes (graphs s g) n"

text \<open>\<open>agparent\<close>: NULL for the main graph.\<close>

definition agparent :: "gref \<Rightarrow> gref option" where
  "agparent g = (case g of [] \<Rightarrow> None | _ # p \<Rightarrow> Some p)"

section \<open>Comparators\<close>

definition cmp_nat :: "nat \<Rightarrow> nat \<Rightarrow> int" where
  "cmp_nat a b = (if a < b then -1 else if a > b then 1 else 0)"

definition agsubnodeseqcmpf :: "world \<Rightarrow> nref \<Rightarrow> nref \<Rightarrow> int" where
  "agsubnodeseqcmpf s sn0 sn1 = cmp_nat (AGSEQ_n s sn0) (AGSEQ_n s sn1)"

definition agraphseqcmpf :: "world \<Rightarrow> gref \<Rightarrow> gref \<Rightarrow> int" where
  "agraphseqcmpf s sg0 sg1 = cmp_nat (gseq (graphs s sg0)) (gseq (graphs s sg1))"

text \<open>\<open>agraphidcmpf\<close>: the argument is the ID of the first graph, which may be a template.\<close>

definition agraphidcmpf :: "world \<Rightarrow> nat \<Rightarrow> gref \<Rightarrow> int" where
  "agraphidcmpf s i sg1 = cmp_nat i (gid (graphs s sg1))"

definition agedgeseqcmpf :: "world \<Rightarrow> handle \<Rightarrow> handle \<Rightarrow> int" where
  "agedgeseqcmpf s e0 e1 =
    (if enode s e0 \<noteq> enode s e1 then cmp_nat (AGSEQ_n s (enode s e0)) (AGSEQ_n s (enode s e1))
     else cmp_nat (AGSEQ_e s e0) (AGSEQ_e s e1))"

text \<open>
  \<open>agedgeidcmpf\<close> against a template: an endpoint and an ID, \<open>None\<close> for the wild card (objtype 0).
\<close>

definition agedgeidcmpf :: "world \<Rightarrow> nref \<times> nat option \<Rightarrow> handle \<Rightarrow> int" where
  "agedgeidcmpf s key e1 =
    (let c = cmp_nat (AGID_n s (fst key)) (AGID_n s (enode s e1))
     in if c \<noteq> 0 then c
        else case snd key of None \<Rightarrow> 0 | Some i \<Rightarrow> cmp_nat i (AGID_e s e1))"

abbreviation edge_key :: "world \<Rightarrow> handle \<Rightarrow> nref \<times> nat option" where
  "edge_key s e \<equiv> (enode s e, Some (AGID_e s e))"

section \<open>Nodes\<close>

definition SEQ_MASK :: nat where "SEQ_MASK = 2 ^ 28 - 1"

definition agfindnode_by_id :: "world \<Rightarrow> gref \<Rightarrow> nat \<Rightarrow> nref option" where
  "agfindnode_by_id s g i = node_set_find (AGID_n s) (n_id (graphs s g)) i"

definition agsubrep :: "world \<Rightarrow> gref \<Rightarrow> nref \<Rightarrow> nref option" where
  "agsubrep s g n =
    (if g = [] \<and> mainroot s = node_root (nodes s n) then Some n
     else node_set_find (AGID_n s) (n_id (graphs s g)) (AGID_n s n))"

definition agfstnode :: "world \<Rightarrow> gref \<Rightarrow> nref option" where
  "agfstnode s g = od_first (n_seq (graphs s g))"

definition agnxtnode :: "world \<Rightarrow> gref \<Rightarrow> nref \<Rightarrow> nref option" where
  "agnxtnode s g n =
    (case agsubrep s g n of
       None \<Rightarrow> None
     | Some sn \<Rightarrow> od_next (agsubnodeseqcmpf s sn) (n_seq (graphs s g)))"

definition aglstnode :: "world \<Rightarrow> gref \<Rightarrow> nref option" where
  "aglstnode s g = od_last (n_seq (graphs s g))"

definition agprvnode :: "world \<Rightarrow> gref \<Rightarrow> nref \<Rightarrow> nref option" where
  "agprvnode s g n =
    (case agsubrep s g n of
       None \<Rightarrow> None
     | Some sn \<Rightarrow> od_prev (agsubnodeseqcmpf s sn) (n_seq (graphs s g)))"

text \<open>\<open>newnode\<close>: the embedded \<open>mainsub\<close> of the new node has empty edge sets.\<close>

definition newnode :: "world \<Rightarrow> nat \<Rightarrow> nat \<Rightarrow> (nref \<times> world) option" where
  "newnode s i sq =
    (if sq > SEQ_MASK then None
     else
       (let n = nnext s;
            s1 = s\<lparr>nodes := (nodes s)(n := \<lparr>nid = i, nseq = sq, node_root = mainroot s\<rparr>),
                   nnext := Suc n\<rparr>;
            s2 = upd_subnode [] n (\<lambda>_. empty_subnode) s1
        in Some (n, if has_attrs (graphs s2 []) then hook (BindRec (ON n)) s2 else s2)))"

definition installnode :: "world \<Rightarrow> gref \<Rightarrow> nref \<Rightarrow> world option" where
  "installnode s g n =
    (let G = graphs s g; osize = node_set_size (n_id G) in
     if osize \<noteq> length (n_seq G) then None
     else
       (case node_set_add (AGID_n s) (n_id G) n of
          None \<Rightarrow> None
        | Some ns \<Rightarrow>
            (let seq' = od_insert (agsubnodeseqcmpf s n) n (n_seq G);
                 s1 = (if g = [] then s else upd_subnode g n (\<lambda>_. empty_subnode) s);
                 s2 = upd_graph g (\<lambda>G. G\<lparr>n_id := ns, n_seq := seq'\<rparr>) s1
             in if node_set_size ns \<noteq> length seq' \<or> node_set_size ns \<noteq> osize + 1 then None
                else Some s2)))"

fun installnodetoroot :: "world \<Rightarrow> gref \<Rightarrow> nref \<Rightarrow> world option" where
  "installnodetoroot s [] n = installnode s [] n"
| "installnodetoroot s (k # p) n =
    (case installnode s (k # p) n of None \<Rightarrow> None | Some s1 \<Rightarrow> installnodetoroot s1 p n)"

definition initnode :: "world \<Rightarrow> gref \<Rightarrow> nref \<Rightarrow> world" where
  "initnode s g n =
    hook (MethodInit g (ON n)) (if has_attrs (graphs s []) then hook (AttrInit g (ON n)) s else s)"

text \<open>\<open>agsubnode\<close>: the recursion into the parent is the recursion on the graph's ancestors.\<close>

fun agsubnode :: "world \<Rightarrow> gref \<Rightarrow> nref \<Rightarrow> bool \<Rightarrow> (nref option \<times> world) option" where
  "agsubnode s g n0 cflag =
    (if mainroot s \<noteq> node_root (nodes s n0) then Some (None, s)
     else
       (case agfindnode_by_id s g (AGID_n s n0) of
          Some n \<Rightarrow> Some (Some n, s)
        | None \<Rightarrow>
            (if cflag then
               (case g of
                  [] \<Rightarrow> Some (None, s)
                | k # p \<Rightarrow>
                    (case agsubnode s p n0 cflag of
                       Some (Some n, s1) \<Rightarrow> map_option (\<lambda>s2. (Some n, s2)) (installnode s1 g n)
                     | _ \<Rightarrow> None))
             else Some (None, s))))"

declare agsubnode.simps [simp del]

definition agidnode :: "world \<Rightarrow> gref \<Rightarrow> nat \<Rightarrow> bool \<Rightarrow> (nref option \<times> world) option" where
  "agidnode s g i cflag =
    (case agfindnode_by_id s g i of
       Some n \<Rightarrow> Some (Some n, s)
     | None \<Rightarrow>
         (if cflag \<and> g \<noteq> [] then
            (case agfindnode_by_id s [] i of
               Some n \<Rightarrow> map_option (\<lambda>(_, s1). (Some n, s1)) (agsubnode s g n True)
             | None \<Rightarrow> Some (None, s))
          else Some (None, s)))"

text \<open>The creating part of \<open>agnode\<close>.\<close>

definition create_node :: "world \<Rightarrow> gref \<Rightarrow> nat \<Rightarrow> (nref option \<times> world) option" where
  "create_node s g i =
    (let (sq, cl) = agnextseq (clos s) AGNODE in
     case newnode (s\<lparr>clos := cl\<rparr>) i sq of
       None \<Rightarrow> None
     | Some (n, s1) \<Rightarrow>
         (case installnodetoroot s1 g n of
            None \<Rightarrow> None
          | Some s2 \<Rightarrow>
              (let s3 = initnode s2 g n
               in if agsubrep s3 g n = None then None
                  else Some (Some n, hook (Register (ON n)) s3))))"

definition agnode :: "world \<Rightarrow> gref \<Rightarrow> cstr option \<Rightarrow> bool \<Rightarrow> (nref option \<times> world) option" where
  "agnode s g name cflag =
    (case agmapnametoid (clos s) AGNODE name False of
       None \<Rightarrow> None
     | Some (r, cl) \<Rightarrow>
         (let s1 = s\<lparr>clos := cl\<rparr>;
              here = Option.bind r (agfindnode_by_id s1 g);
              above = (if cflag \<and> g \<noteq> [] then Option.bind r (agfindnode_by_id s1 []) else None)
          in case here of
               Some n \<Rightarrow> Some (Some n, s1)
             | None \<Rightarrow>
                 (case above of
                    Some n \<Rightarrow> agsubnode s1 g n True
                  | None \<Rightarrow>
                      (if cflag then
                         (case agmapnametoid (clos s1) AGNODE name True of
                            None \<Rightarrow> None
                          | Some (None, cl2) \<Rightarrow> Some (None, s1\<lparr>clos := cl2\<rparr>)
                          | Some (Some i, cl2) \<Rightarrow> create_node (s1\<lparr>clos := cl2\<rparr>) g i)
                       else Some (None, s1)))))"

end
