(* ===== verification/Agedge.thy ===== *)
theory Agedge
  imports Agraph
begin

text \<open>
  Edges (\<open>edge.c\<close>): iteration over the edge sets of a node, lookup by endpoints and key,
  creation in a graph and its ancestors, and deletion from one graph. The edge dictionaries
  of a graph, \<open>e_seq\<close> and \<open>e_id\<close>, hold the tree of one node at a time: \<open>dtrestore\<close> puts it in,
  \<open>dtextract\<close> takes it out again, which on the lists is reading and writing the field.
\<close>

section \<open>Iteration\<close>

definition agfstout :: "world \<Rightarrow> gref \<Rightarrow> nref \<Rightarrow> handle option" where
  "agfstout s g n =
    (case agsubrep s g n of None \<Rightarrow> None | Some sn \<Rightarrow> od_first (out_seq (sub_of s g sn)))"

definition agnxtout :: "world \<Rightarrow> gref \<Rightarrow> handle \<Rightarrow> handle option" where
  "agnxtout s g e =
    (case agsubrep s g (AGTAIL s e) of
       None \<Rightarrow> None
     | Some sn \<Rightarrow> od_next (agedgeseqcmpf s e) (out_seq (sub_of s g sn)))"

definition agfstin :: "world \<Rightarrow> gref \<Rightarrow> nref \<Rightarrow> handle option" where
  "agfstin s g n =
    (case agsubrep s g n of None \<Rightarrow> None | Some sn \<Rightarrow> od_first (in_seq (sub_of s g sn)))"

definition agnxtin :: "world \<Rightarrow> gref \<Rightarrow> handle \<Rightarrow> handle option" where
  "agnxtin s g e =
    (case agsubrep s g (AGHEAD s e) of
       None \<Rightarrow> None
     | Some sn \<Rightarrow> od_next (agedgeseqcmpf s e) (in_seq (sub_of s g sn)))"

definition agfstedge :: "world \<Rightarrow> gref \<Rightarrow> nref \<Rightarrow> handle option" where
  "agfstedge s g n = (case agfstout s g n of None \<Rightarrow> agfstin s g n | Some e \<Rightarrow> Some e)"

text \<open>
  \<open>do rv = ...; while (rv && rv->node == n)\<close>: skip the loops among the in-edges, each of them
  visited as an out-edge already. The fuel is one unit per in-edge and one for the end.
\<close>

primrec skip_loops :: "nat \<Rightarrow> world \<Rightarrow> gref \<Rightarrow> nref \<Rightarrow> handle option \<Rightarrow> handle option option" where
  "skip_loops 0 s g n rv = None"
| "skip_loops (Suc k) s g n rv =
    (case rv of
       None \<Rightarrow> Some None
     | Some f \<Rightarrow> if enode s f = n then skip_loops k s g n (agnxtin s g f) else Some (Some f))"

definition loop_fuel :: "world \<Rightarrow> gref \<Rightarrow> nref \<Rightarrow> nat" where
  "loop_fuel s g n = length (out_seq (sub_of s g n)) + length (in_seq (sub_of s g n)) + 1"

definition agnxtedge :: "world \<Rightarrow> gref \<Rightarrow> handle \<Rightarrow> nref \<Rightarrow> handle option option" where
  "agnxtedge s g e n =
    (if snd e = OUT then
       (case agnxtout s g e of
          Some f \<Rightarrow> Some (Some f)
        | None \<Rightarrow> skip_loops (loop_fuel s g n) s g n (agfstin s g n))
     else skip_loops (loop_fuel s g n) s g n (agnxtin s g e))"

section \<open>Lookup\<close>

text \<open>
  \<open>agfindedge_by_key\<close> searches the in-edges of the head; the key is an edge ID or the wild card,
  for which the tree returns one of the matching edges.
\<close>

definition search_id :: "world \<Rightarrow> nref \<times> nat option \<Rightarrow> handle list \<Rightarrow> handle option" where
  "search_id s key es =
    (case filter (\<lambda>e. agedgeidcmpf s key e = 0) es of
       [] \<Rightarrow> None
     | [e] \<Rightarrow> Some e
     | cs \<Rightarrow> Some (pick s cs))"

definition agfindedge_by_key :: "world \<Rightarrow> gref \<Rightarrow> nref \<Rightarrow> nref \<Rightarrow> nat option \<Rightarrow> handle option" where
  "agfindedge_by_key s g t h key =
    (case agsubrep s g h of
       None \<Rightarrow> None
     | Some sn \<Rightarrow> search_id s (t, key) (in_id (sub_of s g sn)))"

definition agfindedge_by_id :: "world \<Rightarrow> gref \<Rightarrow> nref \<Rightarrow> nref \<Rightarrow> nat \<Rightarrow> handle option" where
  "agfindedge_by_id s g t h i = agfindedge_by_key s g t h (Some i)"

section \<open>Insertion and removal in one graph and its ancestors\<close>

text \<open>\<open>ins\<close> and \<open>del\<close> on the four sets; \<open>del\<close> asserts that the edge was there.\<close>

definition ins_seq :: "world \<Rightarrow> handle \<Rightarrow> handle list \<Rightarrow> handle list" where
  "ins_seq s e es = od_insert (agedgeseqcmpf s e) e es"

definition ins_id :: "world \<Rightarrow> handle \<Rightarrow> handle list \<Rightarrow> handle list" where
  "ins_id s e es = od_insert (agedgeidcmpf s (edge_key s e)) e es"

definition del_seq :: "world \<Rightarrow> handle \<Rightarrow> handle list \<Rightarrow> handle list option" where
  "del_seq s e es =
    (if od_find (agedgeseqcmpf s e) es = None then None else Some (od_delete (agedgeseqcmpf s e) es))"

definition del_id :: "world \<Rightarrow> handle \<Rightarrow> handle list \<Rightarrow> handle list option" where
  "del_id s e es =
    (if od_find (agedgeidcmpf s (edge_key s e)) es = None then None
     else Some (od_delete (agedgeidcmpf s (edge_key s e)) es))"

text \<open>The body of the loop of \<open>installedge\<close>; a missing endpoint is a NULL dereference.\<close>

definition install_here :: "world \<Rightarrow> gref \<Rightarrow> handle \<Rightarrow> world option" where
  "install_here s g e =
    (case (agsubrep s g (AGTAIL s e), agsubrep s g (AGHEAD s e)) of
       (Some t, Some h) \<Rightarrow>
         Some (upd_subnode g h (\<lambda>sn. sn\<lparr>in_seq := ins_seq s (AGMKIN e) (in_seq sn),
                                         in_id := ins_id s (AGMKIN e) (in_id sn)\<rparr>)
               (upd_subnode g t (\<lambda>sn. sn\<lparr>out_seq := ins_seq s (AGMKOUT e) (out_seq sn),
                                          out_id := ins_id s (AGMKOUT e) (out_id sn)\<rparr>) s))
     | _ \<Rightarrow> None)"

fun installedge :: "world \<Rightarrow> gref \<Rightarrow> handle \<Rightarrow> world option" where
  "installedge s g e =
    (if agfindedge_by_key s g (AGTAIL s e) (AGHEAD s e) (Some (AGID_e s e)) \<noteq> None then Some s
     else
       (case install_here s g e of
          None \<Rightarrow> None
        | Some s1 \<Rightarrow> (case g of [] \<Rightarrow> Some s1 | k # p \<Rightarrow> installedge s1 p e)))"

declare installedge.simps [simp del]

definition subedge :: "world \<Rightarrow> gref \<Rightarrow> handle \<Rightarrow> world option" where
  "subedge s g e = installedge s g e"

section \<open>Creation\<close>

definition newedge :: "world \<Rightarrow> gref \<Rightarrow> nref \<Rightarrow> nref \<Rightarrow> nat \<Rightarrow> (handle \<times> world) option" where
  "newedge s g t h i =
    (case agsubnode s g t True of
       None \<Rightarrow> None
     | Some (_, s1) \<Rightarrow>
         (case agsubnode s1 g h True of
            None \<Rightarrow> None
          | Some (_, s2) \<Rightarrow>
              (let (sq, cl) = agnextseq (clos s2) AGEDGE;
                   e = enext s2;
                   s3 = s2\<lparr>clos := cl, enext := Suc e,
                           edges := (edges s2)(e := \<lparr>eid = i, eseq = sq, etail = t, ehead = h\<rparr>)\<rparr>
               in if sq > SEQ_MASK then None
                  else
                    (case installedge s3 g (e, OUT) of
                       None \<Rightarrow> None
                     | Some s4 \<Rightarrow>
                         (let s5 = (if has_attrs (graphs s4 g) then
                                hook (AttrInit g (OE (e, OUT))) (hook (BindRec (OE (e, OUT))) s4)
                              else s4)
                          in Some ((e, OUT), hook (MethodInit g (OE (e, OUT))) s5))))))"

definition ok_to_make_edge :: "world \<Rightarrow> gref \<Rightarrow> nref \<Rightarrow> nref \<Rightarrow> bool" where
  "ok_to_make_edge s g t h \<longleftrightarrow>
    \<not> (strict (graphs s g) \<and> agfindedge_by_key s g t h None \<noteq> None) \<and>
    \<not> (no_loop (graphs s g) \<and> t = h)"

text \<open>\<open>agidedge\<close>: an undirected graph is searched in both directions.\<close>

definition agidedge :: "world \<Rightarrow> gref \<Rightarrow> nref \<Rightarrow> nref \<Rightarrow> nat \<Rightarrow> bool \<Rightarrow> (handle option \<times> world) option" where
  "agidedge s g t h i cflag =
    (case agfindedge_by_id s g t h i of
       Some e \<Rightarrow> Some (Some e, s)
     | None \<Rightarrow>
         (case (if directed (graphs s g) then None else agfindedge_by_id s g h t i) of
            Some e \<Rightarrow> Some (Some e, s)
          | None \<Rightarrow>
              (if cflag \<and> ok_to_make_edge s g t h \<and> g \<noteq> [] then
                 (case agfindedge_by_id s [] t h i of
                    Some e \<Rightarrow> map_option (\<lambda>s1. (Some e, s1)) (subedge s g e)
                  | None \<Rightarrow> Some (None, s))
               else Some (None, s))))"

text \<open>The lookup of \<open>agedge\<close> in one graph, both ways when it is undirected.\<close>

definition find_either :: "world \<Rightarrow> gref \<Rightarrow> gref \<Rightarrow> nref \<Rightarrow> nref \<Rightarrow> nat option \<Rightarrow> handle option" where
  "find_either s g0 g t h key =
    (case agfindedge_by_key s g t h key of
       Some e \<Rightarrow> Some e
     | None \<Rightarrow> if directed (graphs s g0) then None else agfindedge_by_key s g h t key)"

definition create_edge :: "world \<Rightarrow> gref \<Rightarrow> nref \<Rightarrow> nref \<Rightarrow> cstr option \<Rightarrow> (handle option \<times> world) option" where
  "create_edge s g t h name =
    (if ok_to_make_edge s g t h then
       (case agmapnametoid (clos s) AGEDGE name True of
          None \<Rightarrow> None
        | Some (None, cl) \<Rightarrow> Some (None, s\<lparr>clos := cl\<rparr>)
        | Some (Some i, cl) \<Rightarrow>
            map_option (\<lambda>(e, s1). (Some e, hook (Register (OE e)) s1)) (newedge (s\<lparr>clos := cl\<rparr>) g t h i))
     else Some (None, s))"

definition agedge :: "world \<Rightarrow> gref \<Rightarrow> nref \<Rightarrow> nref \<Rightarrow> cstr option \<Rightarrow> bool
    \<Rightarrow> (handle option \<times> world) option" where
  "agedge s g t h name cflag =
    (case agmapnametoid (clos s) AGEDGE name False of
       None \<Rightarrow> None
     | Some (my_id, cl) \<Rightarrow>
         (let s1 = s\<lparr>clos := cl\<rparr>;
              probe = my_id \<noteq> None \<or> (name = None \<and> (\<not> cflag \<or> strict (graphs s g)))
          in case (if probe then find_either s1 g g t h my_id else None) of
               Some e \<Rightarrow> Some (Some e, s1)
             | None \<Rightarrow>
                 (case (if probe \<and> cflag then find_either s1 g [] t h my_id else None) of
                    Some e \<Rightarrow> map_option (\<lambda>s2. (Some e, s2)) (subedge s1 g e)
                  | None \<Rightarrow> if cflag then create_edge s1 g t h name else Some (None, s1))))"

definition agsubedge :: "world \<Rightarrow> gref \<Rightarrow> handle \<Rightarrow> bool \<Rightarrow> (handle option \<times> world) option" where
  "agsubedge s g e cflag =
    (case agsubnode s g (AGTAIL s e) cflag of
       None \<Rightarrow> None
     | Some (t, s1) \<Rightarrow>
         (if t \<noteq> None \<or> cflag then
            (case agsubnode s1 g (AGHEAD s1 e) cflag of
               None \<Rightarrow> None
             | Some (h, s2) \<Rightarrow>
                 (case (t, h) of
                    (Some t', Some h') \<Rightarrow>
                      (let same = (\<lambda>rv. if snd rv \<noteq> snd e then AGOPP rv else rv) in
                       case agfindedge_by_key s2 g t' h' (Some (AGID_e s2 e)) of
                         Some rv \<Rightarrow> Some (Some (same rv), s2)
                       | None \<Rightarrow>
                           (if cflag then map_option (\<lambda>s3. (Some e, s3)) (installedge s2 g e)
                            else Some (None, s2)))
                  | _ \<Rightarrow> Some (None, s2)))
          else Some (None, s1)))"

section \<open>Removal\<close>

definition agdeledgeimage :: "world \<Rightarrow> gref \<Rightarrow> handle \<Rightarrow> world option" where
  "agdeledgeimage s g e =
    (case (agsubrep s g (AGTAIL s e), agsubrep s g (AGHEAD s e)) of
       (Some t, Some h) \<Rightarrow>
         (case (del_seq s (AGMKOUT e) (out_seq (sub_of s g t)), del_id s (AGMKOUT e) (out_id (sub_of s g t)),
                del_seq s (AGMKIN e) (in_seq (sub_of s g h)), del_id s (AGMKIN e) (in_id (sub_of s g h))) of
            (Some oseq, Some oid, Some iseq, Some iid) \<Rightarrow>
              Some (upd_subnode g h (\<lambda>sn. sn\<lparr>in_seq := iseq, in_id := iid\<rparr>)
                    (upd_subnode g t (\<lambda>sn. sn\<lparr>out_seq := oseq, out_id := oid\<rparr>) s))
          | _ \<Rightarrow> None)
     | _ \<Rightarrow> None)"

section \<open>Degrees\<close>

text \<open>\<open>cnt\<close>: the size of one of the sequence sets.\<close>

definition agdegree :: "world \<Rightarrow> gref \<Rightarrow> nref \<Rightarrow> bool \<Rightarrow> bool \<Rightarrow> nat" where
  "agdegree s g n want_in want_out =
    (case agsubrep s g n of
       None \<Rightarrow> 0
     | Some sn \<Rightarrow> (if want_out then length (out_seq (sub_of s g sn)) else 0) +
                   (if want_in then length (in_seq (sub_of s g sn)) else 0))"

text \<open>The loop of \<open>agcountuniqedges\<close> over the in-edges that are not loops.\<close>

primrec count_in :: "nat \<Rightarrow> world \<Rightarrow> gref \<Rightarrow> nref \<Rightarrow> handle option \<Rightarrow> nat option" where
  "count_in 0 s g n rv = None"
| "count_in (Suc k) s g n rv =
    (case rv of
       None \<Rightarrow> Some 0
     | Some e \<Rightarrow>
         map_option (\<lambda>m. if enode s e \<noteq> n then Suc m else m) (count_in k s g n (agnxtin s g e)))"

definition agcountuniqedges :: "world \<Rightarrow> gref \<Rightarrow> nref \<Rightarrow> bool \<Rightarrow> bool \<Rightarrow> nat option" where
  "agcountuniqedges s g n want_in want_out =
    (case agsubrep s g n of
       None \<Rightarrow> if want_out \<or> want_in then None else Some 0
     | Some sn \<Rightarrow>
         (let out = (if want_out then length (out_seq (sub_of s g sn)) else 0) in
          if want_in then
            (if \<not> want_out then Some (out + length (in_seq (sub_of s g sn)))
             else map_option (\<lambda>m. out + m) (count_in (loop_fuel s g sn) s g n (agfstin s g n)))
          else Some out))"

text \<open>\<open>agnnodes\<close>, \<open>agnsubg\<close>, and the loop of \<open>agnedges\<close> over the nodes.\<close>

definition agnnodes :: "world \<Rightarrow> gref \<Rightarrow> nat" where
  "agnnodes s g = node_set_size (n_id (graphs s g))"

definition agnsubg :: "world \<Rightarrow> gref \<Rightarrow> nat" where
  "agnsubg s g = length (g_seq (graphs s g))"

primrec count_edges :: "nat \<Rightarrow> world \<Rightarrow> gref \<Rightarrow> nref option \<Rightarrow> nat option" where
  "count_edges 0 s g v = None"
| "count_edges (Suc k) s g v =
    (case v of
       None \<Rightarrow> Some 0
     | Some n \<Rightarrow>
         map_option (\<lambda>m. agdegree s g n False True + m) (count_edges k s g (agnxtnode s g n)))"

definition agnedges :: "world \<Rightarrow> gref \<Rightarrow> nat option" where
  "agnedges s g = count_edges (length (n_seq (graphs s g)) + 1) s g (agfstnode s g)"

end
