(* ===== verification/Agops.thy ===== *)
theory Agops
  imports Agedge
begin

text \<open>
  Operations that reach over the hierarchy of subgraphs: \<open>agapply\<close> (\<open>apply.c\<close>), deletion of
  edges and nodes (\<open>edge.c\<close>, \<open>node.c\<close>), opening and closing graphs and subgraphs
  (\<open>graph.c\<close>, \<open>subg.c\<close>), renaming and the generic operations (\<open>node.c\<close>, \<open>obj.c\<close>).
\<close>

section \<open>Subgraph lists\<close>

definition agfstsubg :: "world \<Rightarrow> gref \<Rightarrow> gref option" where
  "agfstsubg s g = od_first (g_seq (graphs s g))"

definition agnxtsubg :: "world \<Rightarrow> gref \<Rightarrow> gref option" where
  "agnxtsubg s subg =
    (case agparent subg of
       None \<Rightarrow> None
     | Some g \<Rightarrow> od_next (agraphseqcmpf s subg) (g_seq (graphs s g)))"

definition agfindsubg_by_id :: "world \<Rightarrow> gref \<Rightarrow> nat \<Rightarrow> gref option" where
  "agfindsubg_by_id s g i = od_find (agraphidcmpf s i) (g_id (graphs s g))"

definition agidsubg :: "world \<Rightarrow> gref \<Rightarrow> nat \<Rightarrow> gref option" where
  "agidsubg s g i = agfindsubg_by_id s g i"

section \<open>Visiting an object in all subgraphs\<close>

definition subnode_search :: "world \<Rightarrow> gref \<Rightarrow> nref \<Rightarrow> nref option" where
  "subnode_search s sub n =
    (if sub = [] \<and> mainroot s = node_root (nodes s n) then Some n
     else Option.bind (agsubnode s sub n False) fst)"

definition subedge_search :: "world \<Rightarrow> gref \<Rightarrow> handle \<Rightarrow> handle option" where
  "subedge_search s sub e =
    (if sub = [] \<and> mainroot s = node_root (nodes s (enode s e)) then Some e
     else Option.bind (agsubedge s sub e False) fst)"

definition objsearch :: "world \<Rightarrow> gref \<Rightarrow> agobj \<Rightarrow> agobj option" where
  "objsearch s sub obj =
    (case obj of
       OG _ \<Rightarrow> Some (OG sub)
     | ON n \<Rightarrow> map_option ON (subnode_search s sub n)
     | OE e \<Rightarrow> map_option OE (subedge_search s sub e))"

text \<open>
  \<open>rec_apply\<close>: the recursion takes fuel for the depth of the hierarchy, the loop over the
  subgraphs for their number.
\<close>

primrec rec_apply :: "nat \<Rightarrow> (gref \<Rightarrow> agobj \<Rightarrow> world \<Rightarrow> world option) \<Rightarrow> bool \<Rightarrow> gref \<Rightarrow> agobj
    \<Rightarrow> world \<Rightarrow> world option" where
  "rec_apply 0 fn pre g obj s = None"
| "rec_apply (Suc k) fn pre g obj s =
    (case (if pre then fn g obj s else Some s) of
       None \<Rightarrow> None
     | Some s1 \<Rightarrow>
         (case iter (length (g_seq (graphs s1 g)) + 1) agnxtsubg
                 (\<lambda>sub s'. case objsearch s' sub obj of
                     None \<Rightarrow> Some s'
                   | Some subobj \<Rightarrow> rec_apply k fn pre sub subobj s')
                 (agfstsubg s1 g) s1 of
            None \<Rightarrow> None
          | Some s2 \<Rightarrow> if \<not> pre then fn g obj s2 else Some s2))"

text \<open>\<open>agapply\<close>: the result is \<open>False\<close> for FAILURE, when \<open>g\<close> does not have the object.\<close>

definition agapply :: "(gref \<Rightarrow> agobj \<Rightarrow> world \<Rightarrow> world option) \<Rightarrow> bool \<Rightarrow> gref \<Rightarrow> agobj \<Rightarrow> world
    \<Rightarrow> (bool \<times> world) option" where
  "agapply fn pre g obj s =
    (case objsearch s g obj of
       None \<Rightarrow> Some (False, s)
     | Some subobj \<Rightarrow>
         map_option (\<lambda>s1. (True, s1)) (rec_apply (Suc (gnext s)) fn pre g subobj s))"

section \<open>Deleting edges and nodes\<close>

definition deledgeimage_fn :: "gref \<Rightarrow> agobj \<Rightarrow> world \<Rightarrow> world option" where
  "deledgeimage_fn g obj s = (case obj of OE e \<Rightarrow> agdeledgeimage s g e | _ \<Rightarrow> None)"

definition agdeledge :: "world \<Rightarrow> gref \<Rightarrow> handle \<Rightarrow> (bool \<times> world) option" where
  "agdeledge s g e0 =
    (let e = AGMKOUT e0 in
     if agfindedge_by_key s g (AGTAIL s e) (AGHEAD s e) (Some (AGID_e s e)) = None
     then Some (False, s)
     else
       (case (if g = [] then
                (let s1 = (if has_attrs (graphs s g) then hook (AttrDelete (OE e)) s else s);
                     s2 = hook (RecClose (OE e)) (hook (MethodDelete g (OE e)) s1)
                 in map_option (\<lambda>cl. s2\<lparr>clos := cl\<rparr>) (agfreeid (clos s2) AGEDGE (AGID_e s2 e)))
              else Some s) of
          None \<Rightarrow> None
        | Some s3 \<Rightarrow> agapply deledgeimage_fn False g (OE e) s3))"

text \<open>The loops over the edges of a node; \<open>nxt\<close> fails only when the fuel of \<open>agnxtedge\<close> does.\<close>

definition nxtedge_of :: "gref \<Rightarrow> nref \<Rightarrow> world \<Rightarrow> handle \<Rightarrow> handle option" where
  "nxtedge_of g n s e = (case agnxtedge s g e n of Some r \<Rightarrow> r | None \<Rightarrow> None)"

definition agdelnodeimage :: "world \<Rightarrow> gref \<Rightarrow> nref \<Rightarrow> world option" where
  "agdelnodeimage s g n =
    (case walk (loop_fuel s g n) (nxtedge_of g n) (\<lambda>e s'. agdeledgeimage s' g e) (agfstedge s g n) s of
       None \<Rightarrow> None
     | Some s1 \<Rightarrow>
         Some (upd_graph g (\<lambda>G. G\<lparr>n_id := node_set_remove (AGID_n s1) (n_id G) (AGID_n s1 n),
                                   n_seq := od_delete (agsubnodeseqcmpf s1 n) (n_seq G)\<rparr>) s1))"

definition delnodeimage_fn :: "gref \<Rightarrow> agobj \<Rightarrow> world \<Rightarrow> world option" where
  "delnodeimage_fn g obj s = (case obj of ON n \<Rightarrow> agdelnodeimage s g n | _ \<Rightarrow> None)"

definition agdelnode :: "world \<Rightarrow> gref \<Rightarrow> nref \<Rightarrow> (bool \<times> world) option" where
  "agdelnode s g n =
    (if agfindnode_by_id s g (AGID_n s n) = None then Some (False, s)
     else
       (case (if g = [] then
                (case walk (loop_fuel s g n) (nxtedge_of g n)
                        (\<lambda>e s'. map_option snd (agdeledge s' g e)) (agfstedge s g n) s of
                   None \<Rightarrow> None
                 | Some s1 \<Rightarrow>
                     (let s2 = (if has_attrs (graphs s1 g) then hook (AttrDelete (ON n)) s1 else s1);
                          s3 = hook (RecClose (ON n)) (hook (MethodDelete g (ON n)) s2)
                      in map_option (\<lambda>cl. s3\<lparr>clos := cl\<rparr>) (agfreeid (clos s3) AGNODE (AGID_n s3 n))))
              else Some s) of
          None \<Rightarrow> None
        | Some s4 \<Rightarrow> agapply delnodeimage_fn False g (ON n) s4))"

section \<open>Graphs and subgraphs\<close>

definition empty_graph :: agraph where
  "empty_graph = \<lparr>gid = 0, gseq = 0, directed = False, strict = False, no_loop = False,
     maingraph = False, has_attrs = False, n_seq = [], n_id = node_set_new,
     subnodes = (\<lambda>_. empty_subnode), g_seq = [], g_id = []\<rparr>"

text \<open>
  \<open>agopen1\<close>: empty dictionaries, the sequence number, the entry in the parent; the attribute
  layer sets \<open>has_attrs\<close>.
\<close>

definition agopen1 :: "world \<Rightarrow> gref \<Rightarrow> world option" where
  "agopen1 s g =
    (let s1 = upd_graph g (\<lambda>G. G\<lparr>n_seq := [], n_id := node_set_new, subnodes := (\<lambda>_. empty_subnode),
                                  g_seq := [], g_id := []\<rparr>) s
     in case (case agparent g of
                None \<Rightarrow> Some s1
              | Some par \<Rightarrow>
                  (let (sq, cl) = agnextseq (clos s1) AGRAPH;
                       s2 = upd_graph g (\<lambda>G. G\<lparr>gseq := sq\<rparr>) (s1\<lparr>clos := cl\<rparr>)
                   in if sq > SEQ_MASK then None
                      else Some (upd_graph par (\<lambda>P.
                             P\<lparr>g_seq := od_insert (agraphseqcmpf s2 g) g (g_seq P),
                               g_id := od_insert (agraphidcmpf s2 (gid (graphs s2 g))) g (g_id P)\<rparr>) s2))) of
          None \<Rightarrow> None
        | Some s3 \<Rightarrow>
            (let init = (case agparent g of None \<Rightarrow> True | Some par \<Rightarrow> has_attrs (graphs s3 par));
                 s4 = (if init then hook (AttrInit g (OG g)) (upd_graph g (\<lambda>G. G\<lparr>has_attrs := True\<rparr>) s3)
                       else s3)
             in Some (hook (MethodInit g (OG g)) s4)))"

text \<open>\<open>agopen\<close> with the default ID discipline; \<open>desc\<close> is a graph whose flags are the descriptor.\<close>

definition agopen :: "nat \<Rightarrow> (nat list \<Rightarrow> nat) \<Rightarrow> (handle list \<Rightarrow> handle) \<Rightarrow> cstr option \<Rightarrow> agraph
    \<Rightarrow> world option" where
  "agopen main m ch name desc =
    (case agmapnametoid (clos_new m) AGRAPH name True of
       None \<Rightarrow> None
     | Some (r, cl) \<Rightarrow>
         (let g0 = empty_graph\<lparr>directed := directed desc, strict := strict desc, no_loop := no_loop desc,
                     has_attrs := has_attrs desc, maingraph := True,
                     gid := (case r of None \<Rightarrow> 0 | Some i \<Rightarrow> i)\<rparr>;
              s = \<lparr>clos = cl, mainroot = main, nodes = (\<lambda>_. \<lparr>nid = 0, nseq = 0, node_root = 0\<rparr>),
                   edges = (\<lambda>_. \<lparr>eid = 0, eseq = 0, etail = 0, ehead = 0\<rparr>),
                   graphs = (\<lambda>_. g0), nnext = 0, enext = 0, gnext = 0, pick = ch, hooks = []\<rparr>
          in map_option (hook (Register (OG []))) (agopen1 s [])))"

definition localsubg :: "world \<Rightarrow> gref \<Rightarrow> nat \<Rightarrow> (gref \<times> world) option" where
  "localsubg s g i =
    (case agfindsubg_by_id s g i of
       Some subg \<Rightarrow> Some (subg, s)
     | None \<Rightarrow>
         (let subg = gnext s # g;
              s1 = s\<lparr>gnext := Suc (gnext s),
                     graphs := (graphs s)(subg := empty_graph\<lparr>directed := directed (graphs s g),
                       strict := strict (graphs s g), no_loop := no_loop (graphs s g),
                       has_attrs := has_attrs (graphs s g), maingraph := False, gid := i\<rparr>)\<rparr>
          in map_option (\<lambda>s2. (subg, s2)) (agopen1 s1 subg)))"

definition agsubg :: "world \<Rightarrow> gref \<Rightarrow> cstr option \<Rightarrow> bool \<Rightarrow> (gref option \<times> world) option" where
  "agsubg s g name cflag =
    (case (if name = None then Some (None, clos s) else agmapnametoid (clos s) AGRAPH name False) of
       None \<Rightarrow> None
     | Some (r, cl) \<Rightarrow>
         (let s1 = s\<lparr>clos := cl\<rparr> in
          case Option.bind r (agfindsubg_by_id s1 g) of
            Some subg \<Rightarrow> Some (Some subg, s1)
          | None \<Rightarrow>
              (if cflag then
                 (case agmapnametoid (clos s1) AGRAPH name True of
                    None \<Rightarrow> None
                  | Some (None, cl2) \<Rightarrow> Some (None, s1\<lparr>clos := cl2\<rparr>)
                  | Some (Some i, cl2) \<Rightarrow>
                      map_option (\<lambda>(subg, s2). (Some subg, hook (Register (OG subg)) s2))
                        (localsubg (s1\<lparr>clos := cl2\<rparr>) g i))
               else Some (None, s1))))"

text \<open>\<open>agdelsubg\<close>: the ID entry is deleted only when the sequence entry was there.\<close>

definition agdelsubg :: "world \<Rightarrow> gref \<Rightarrow> gref \<Rightarrow> bool \<times> world" where
  "agdelsubg s g subg =
    (let c = agraphseqcmpf s subg; d = agraphidcmpf s (gid (graphs s subg)) in
     if od_find c (g_seq (graphs s g)) = None then (False, s)
     else (od_find d (g_id (graphs s g)) \<noteq> None,
           upd_graph g (\<lambda>G. G\<lparr>g_seq := od_delete c (g_seq G), g_id := od_delete d (g_id G)\<rparr>) s))"

text \<open>
  \<open>agclose\<close>: the fuel is for the depth of the hierarchy. The main graph's callback stack and
  string pool go with it; they are not modelled beyond the hooks, so that closing the main
  graph ends in the state after \<open>agfreeid\<close>.
\<close>

primrec agclose_rec :: "nat \<Rightarrow> gref \<Rightarrow> world \<Rightarrow> world option" where
  "agclose_rec 0 g s = None"
| "agclose_rec (Suc k) g s =
    (case walk (length (g_seq (graphs s g)) + 1) agnxtsubg (agclose_rec k) (agfstsubg s g) s of
       None \<Rightarrow> None
     | Some s1 \<Rightarrow>
         (case walk (length (n_seq (graphs s1 g)) + 1) (\<lambda>s'. agnxtnode s' g)
                 (\<lambda>n s'. map_option snd (agdelnode s' g n)) (agfstnode s1 g) s1 of
            None \<Rightarrow> None
          | Some s2 \<Rightarrow>
              (let s3 = hook (MethodDelete g (OG g)) (s2\<lparr>clos := aginternalmapclose (clos s2)\<rparr>);
                   G = graphs s3 g
               in if \<not> node_set_is_empty (n_id G) \<or> n_seq G \<noteq> [] \<or> g_seq G \<noteq> [] \<or> g_id G \<noteq> [] then None
                  else
                    (let s4 = (if has_attrs G then hook (AttrDelete (OG g)) s3 else s3);
                         s5 = hook (RecClose (OG g)) s4
                     in case agfreeid (clos s5) AGRAPH (gid G) of
                          None \<Rightarrow> None
                        | Some cl \<Rightarrow>
                            (let s6 = s5\<lparr>clos := cl\<rparr>
                             in case agparent g of
                                  None \<Rightarrow> Some s6
                                | Some par \<Rightarrow> Some (snd (agdelsubg s6 par g)))))))"

definition agclose :: "world \<Rightarrow> gref \<Rightarrow> world option" where
  "agclose s g = agclose_rec (Suc (gnext s)) g s"

section \<open>Renaming, ordering and the generic operations\<close>

definition dict_relabel :: "nat \<Rightarrow> gref \<Rightarrow> agobj \<Rightarrow> world \<Rightarrow> world option" where
  "dict_relabel new_id ignored obj s =
    (case obj of
       ON n \<Rightarrow>
         (case agsubrep s [] n of
            None \<Rightarrow> None
          | Some key \<Rightarrow>
              (let s1 = upd_graph [] (\<lambda>G. G\<lparr>n_id := node_set_remove (AGID_n s) (n_id G) (AGID_n s key)\<rparr>) s;
                   s2 = s1\<lparr>nodes := (nodes s1)(key := (nodes s1 key)\<lparr>nid := new_id\<rparr>)\<rparr>
               in map_option (\<lambda>ns. upd_graph [] (\<lambda>G. G\<lparr>n_id := ns\<rparr>) s2)
                    (node_set_add (AGID_n s2) (n_id (graphs s2 [])) key)))
     | _ \<Rightarrow> None)"

definition agfindnode_by_name :: "world \<Rightarrow> gref \<Rightarrow> cstr option \<Rightarrow> (nref option \<times> world) option" where
  "agfindnode_by_name s g name =
    map_option (\<lambda>(r, cl). (Option.bind r (agfindnode_by_id (s\<lparr>clos := cl\<rparr>) g), s\<lparr>clos := cl\<rparr>))
      (agmapnametoid (clos s) AGNODE name False)"

definition agrelabel_node :: "world \<Rightarrow> nref \<Rightarrow> cstr option \<Rightarrow> (bool \<times> world) option" where
  "agrelabel_node s n newname =
    (case agfindnode_by_name s [] newname of
       None \<Rightarrow> None
     | Some (Some _, s1) \<Rightarrow> Some (False, s1)
     | Some (None, s1) \<Rightarrow>
         (case agmapnametoid (clos s1) AGNODE newname True of
            None \<Rightarrow> None
          | Some (None, cl) \<Rightarrow> Some (False, s1\<lparr>clos := cl\<rparr>)
          | Some (Some new_id, cl) \<Rightarrow>
              (let s2 = s1\<lparr>clos := cl\<rparr> in
               if agfindnode_by_id s2 [] new_id = None then
                 (case agfreeid cl AGNODE (AGID_n s2 n) of
                    None \<Rightarrow> None
                  | Some cl2 \<Rightarrow>
                      map_option (\<lambda>(_, s3). (True, s3))
                        (agapply (dict_relabel new_id) False [] (ON n) (s2\<lparr>clos := cl2\<rparr>)))
               else map_option (\<lambda>cl2. (False, s2\<lparr>clos := cl2\<rparr>)) (agfreeid cl AGNODE new_id))))"

text \<open>\<open>agrename\<close>; the result is \<open>False\<close> for FAILURE.\<close>

definition agrename :: "world \<Rightarrow> agobj \<Rightarrow> cstr option \<Rightarrow> (bool \<times> world) option" where
  "agrename s obj newname =
    (case obj of
       OG g \<Rightarrow>
         (case agmapnametoid (clos s) AGRAPH newname False of
            None \<Rightarrow> None
          | Some (None, cl) \<Rightarrow> Some (False, s\<lparr>clos := cl\<rparr>)
          | Some (Some i, cl) \<Rightarrow>
              (if i = gid (graphs s g) then Some (True, s\<lparr>clos := cl\<rparr>)
               else
                 (case agmapnametoid cl AGRAPH newname True of
                    None \<Rightarrow> None
                  | Some (None, cl2) \<Rightarrow> Some (False, s\<lparr>clos := cl2\<rparr>)
                  | Some (Some new_id, cl2) \<Rightarrow>
                      (let s2 = s\<lparr>clos := cl2\<rparr> in
                       if (case agparent g of None \<Rightarrow> None | Some p \<Rightarrow> agidsubg s2 p new_id) \<noteq> None
                       then Some (False, s2)
                       else map_option
                              (\<lambda>cl3. (True, upd_graph g (\<lambda>G. G\<lparr>gid := new_id\<rparr>) (s2\<lparr>clos := cl3\<rparr>)))
                              (agfreeid cl2 AGRAPH (gid (graphs s g)))))))
     | ON n \<Rightarrow> agrelabel_node s n newname
     | OE e \<Rightarrow> Some (False, s))"

definition agdelete :: "world \<Rightarrow> gref \<Rightarrow> agobj \<Rightarrow> (bool \<times> world) option" where
  "agdelete s g obj =
    (case obj of
       ON n \<Rightarrow> agdelnode s g n
     | OE e \<Rightarrow> agdeledge s g e
     | OG subg \<Rightarrow>
         (if agparent subg \<noteq> Some g then Some (False, s)
          else map_option (\<lambda>s1. (True, s1)) (agclose s subg)))"

fun is_ancestor :: "gref \<Rightarrow> gref \<Rightarrow> bool" where
  "is_ancestor g [] = (g = [])"
| "is_ancestor g (k # p) = (g = k # p \<or> is_ancestor g p)"

definition agcontains :: "world \<Rightarrow> gref \<Rightarrow> agobj \<Rightarrow> bool option" where
  "agcontains s g obj =
    (case obj of
       OG subg \<Rightarrow> Some (is_ancestor g subg)
     | ON n \<Rightarrow>
         (if mainroot s \<noteq> node_root (nodes s n) then Some False
          else map_option (\<lambda>(r, _). r \<noteq> None) (agidnode s g (AGID_n s n) False))
     | OE e \<Rightarrow>
         (if mainroot s \<noteq> node_root (nodes s (enode s e)) then Some False
          else map_option (\<lambda>(r, _). r \<noteq> None) (agsubedge s g e False)))"

text \<open>
  \<open>agnodebefore\<close>. \<open>agnodesetfinger\<close> splays the node to the root of the node dictionary of every
  graph that has it, \<open>agnoderenew\<close> takes that root out and inserts it under its new sequence
  number; nothing else touches the dictionaries in between (\<open>dtrenew_refines\<close>).
\<close>

definition renew_fn :: "gref \<Rightarrow> agobj \<Rightarrow> world \<Rightarrow> world option" where
  "renew_fn g obj s =
    (case obj of
       ON n \<Rightarrow> Some (upd_graph g
           (\<lambda>G. G\<lparr>n_seq := od_insert (agsubnodeseqcmpf s n) n (remove1 n (n_seq G))\<rparr>) s)
     | _ \<Rightarrow> None)"

definition set_node_seq :: "nref \<Rightarrow> nat \<Rightarrow> world \<Rightarrow> world" where
  "set_node_seq n sq s = s\<lparr>nodes := (nodes s)(n := (nodes s n)\<lparr>nseq := sq\<rparr>)\<rparr>"

text \<open>Give a node a new sequence number and renew it everywhere; the assertion is the bound.\<close>

definition reseq :: "nref \<Rightarrow> nat \<Rightarrow> world \<Rightarrow> (bool \<times> world) option" where
  "reseq n sq s =
    (if sq > SEQ_MASK then None
     else if objsearch s [] (ON n) = None then Some (False, s)
     else agapply renew_fn False [] (ON n) (set_node_seq n sq s))"

text \<open>The loop from the last node down to the first argument.\<close>

primrec shift_nodes :: "nat \<Rightarrow> nref \<Rightarrow> nref option \<Rightarrow> world \<Rightarrow> (bool \<times> world) option" where
  "shift_nodes 0 a v s = None"
| "shift_nodes (Suc k) a v s =
    (case v of
       None \<Rightarrow> None
     | Some n \<Rightarrow>
         (let nxt = agprvnode s [] n in
          case reseq n (AGSEQ_n s n + 1) s of
            None \<Rightarrow> None
          | Some (ok, s1) \<Rightarrow>
              (if \<not> ok then Some (False, s1)
               else if n = a \<or> nxt = None then Some (True, s1) else shift_nodes k a nxt s1)))"

definition agnodebefore :: "world \<Rightarrow> nref \<Rightarrow> nref \<Rightarrow> (bool \<times> world) option" where
  "agnodebefore s a b =
    (if AGSEQ_n s a > AGSEQ_n s b then Some (True, s)
     else
       (case reseq b (seqs (clos s) AGNODE + 2) s of
          None \<Rightarrow> None
        | Some (False, s1) \<Rightarrow> Some (False, s1)
        | Some (True, s1) \<Rightarrow>
            (case shift_nodes (length (n_seq (graphs s1 [])) + 1) a (agprvnode s1 [] b) s1 of
               None \<Rightarrow> None
             | Some (False, s2) \<Rightarrow> Some (False, s2)
             | Some (True, s2) \<Rightarrow>
                 (if AGSEQ_n s2 a = 0 then None else reseq b (AGSEQ_n s2 a - 1) s2))))"

end
