(* ===== verification/Agraph_Wf.thy ===== *)
theory Agraph_Wf
  imports Agops
begin

text \<open>
  The invariant of a main graph and its subgraphs: every dictionary is ordered, the two node
  sets of a graph agree, the four edge sets of every node hold the same edges, a subgraph's
  nodes and edges belong to its parent, the counters are ahead of the numbers in use, and the
  ID layer holds one reference for every object.
\<close>

section \<open>Comparators by key\<close>

definition lexcmp :: "nat \<times> nat \<Rightarrow> nat \<times> nat \<Rightarrow> int" where
  "lexcmp a b = (if fst a \<noteq> fst b then cmp_nat (fst a) (fst b) else cmp_nat (snd a) (snd b))"

lemma cmp_nat_simps [simp]:
  "cmp_nat a b < 0 \<longleftrightarrow> a < b" "0 < cmp_nat a b \<longleftrightarrow> b < a" "cmp_nat a b = 0 \<longleftrightarrow> a = b"
  "cmp_nat a b \<le> 0 \<longleftrightarrow> a \<le> b" "0 \<le> cmp_nat a b \<longleftrightarrow> b \<le> a"
  by (auto simp: cmp_nat_def)

lemma lexcmp_simps [simp]:
  "lexcmp a b < 0 \<longleftrightarrow> fst a < fst b \<or> fst a = fst b \<and> snd a < snd b"
  "0 < lexcmp a b \<longleftrightarrow> fst b < fst a \<or> fst a = fst b \<and> snd b < snd a"
  "lexcmp a b = 0 \<longleftrightarrow> a = b"
  "lexcmp a b \<le> 0 \<longleftrightarrow> fst a < fst b \<or> fst a = fst b \<and> snd a \<le> snd b"
  by (auto simp: lexcmp_def prod_eq_iff)

interpretation by_nat: comparator "\<lambda>x y. cmp_nat (k x) (k y)" for k :: "'a \<Rightarrow> nat"
  by unfold_locales auto

interpretation by_lex: comparator "\<lambda>x y. lexcmp (k x) (k y)" for k :: "'a \<Rightarrow> nat \<times> nat"
  by unfold_locales auto

definition id_key :: "world \<Rightarrow> handle \<Rightarrow> nat \<times> nat" where
  "id_key s e = (AGID_n s (enode s e), AGID_e s e)"

definition seq_key :: "world \<Rightarrow> handle \<Rightarrow> nat \<times> nat" where
  "seq_key s e = (AGSEQ_n s (enode s e), AGSEQ_e s e)"

lemma idcmp_key: "agedgeidcmpf s (edge_key s e) f = lexcmp (id_key s e) (id_key s f)"
  by (simp add: agedgeidcmpf_def lexcmp_def id_key_def Let_def)

lemma idcmp_template: "agedgeidcmpf s (t, Some i) f = lexcmp (AGID_n s t, i) (id_key s f)"
  by (simp add: agedgeidcmpf_def lexcmp_def id_key_def Let_def)

lemma seqcmp_key:
  assumes "AGSEQ_n s (enode s e) = AGSEQ_n s (enode s f) \<Longrightarrow> enode s e = enode s f"
  shows "agedgeseqcmpf s e f = lexcmp (seq_key s e) (seq_key s f)"
  using assms by (auto simp: agedgeseqcmpf_def lexcmp_def seq_key_def)

section \<open>The objects of a graph\<close>

abbreviation N :: "world \<Rightarrow> gref \<Rightarrow> nref list" where
  "N s g \<equiv> n_seq (graphs s g)"

text \<open>The graphs that are open, and the edges of a graph.\<close>

fun live_graph :: "world \<Rightarrow> gref \<Rightarrow> bool" where
  "live_graph s [] = True"
| "live_graph s (k # p) = (live_graph s p \<and> k # p \<in> set (g_seq (graphs s p)))"

definition E :: "world \<Rightarrow> gref \<Rightarrow> eref set" where
  "E s g = {e. \<exists>n\<in>set (N s g). (e, OUT) \<in> set (out_seq (sub_of s g n))}"

definition held :: "world \<Rightarrow> nat multiset" where
  "held s = image_mset (AGID_n s) (mset_set (set (N s []))) +
     image_mset (\<lambda>e. eid (edges s e)) (mset_set (E s [])) +
     image_mset (\<lambda>g. gid (graphs s g)) (mset_set {g. live_graph s g})"

section \<open>The invariant\<close>

definition nodes_ok :: "world \<Rightarrow> gref \<Rightarrow> bool" where
  "nodes_ok s g \<longleftrightarrow>
     ordered (agsubnodeseqcmpf s) (N s g) \<and> node_set_ok (AGID_n s) (n_id (graphs s g)) \<and>
     nelems (n_id (graphs s g)) = set (N s g)"

text \<open>The lists of one node are the out-edges and in-edges among a set of edges.\<close>

definition lists_ok :: "world \<Rightarrow> eref set \<Rightarrow> nref \<Rightarrow> subnode \<Rightarrow> bool" where
  "lists_ok s es n x \<longleftrightarrow>
     set (out_seq x) = {(e, OUT) |e. e \<in> es \<and> etail (edges s e) = n} \<and>
     set (out_id x) = {(e, OUT) |e. e \<in> es \<and> etail (edges s e) = n} \<and>
     set (in_seq x) = {(e, IN) |e. e \<in> es \<and> ehead (edges s e) = n} \<and>
     set (in_id x) = {(e, IN) |e. e \<in> es \<and> ehead (edges s e) = n} \<and>
     ordered (\<lambda>e f. lexcmp (seq_key s e) (seq_key s f)) (out_seq x) \<and>
     ordered (\<lambda>e f. lexcmp (id_key s e) (id_key s f)) (out_id x) \<and>
     ordered (\<lambda>e f. lexcmp (seq_key s e) (seq_key s f)) (in_seq x) \<and>
     ordered (\<lambda>e f. lexcmp (id_key s e) (id_key s f)) (in_id x)"

definition edges_ok :: "world \<Rightarrow> gref \<Rightarrow> bool" where
  "edges_ok s g \<longleftrightarrow> (\<forall>n\<in>set (N s g). lists_ok s (E s g) n (sub_of s g n)) \<and>
     (\<forall>e\<in>E s g. etail (edges s e) \<in> set (N s g) \<and> ehead (edges s e) \<in> set (N s g))"

definition subgraphs_ok :: "world \<Rightarrow> gref \<Rightarrow> bool" where
  "subgraphs_ok s g \<longleftrightarrow>
     ordered (agraphseqcmpf s) (g_seq (graphs s g)) \<and>
     ordered (\<lambda>a b. cmp_nat (gid (graphs s a)) (gid (graphs s b))) (g_id (graphs s g)) \<and>
     set (g_id (graphs s g)) = set (g_seq (graphs s g)) \<and>
     (\<forall>c\<in>set (g_seq (graphs s g)). \<exists>k. c = k # g \<and> k < gnext s \<and>
        (\<forall>j\<in>set g. j < k) \<and> gseq (graphs s c) \<le> seqs (clos s) AGRAPH \<and>
        set (N s c) \<subseteq> set (N s g) \<and> E s c \<subseteq> E s g \<and>
        directed (graphs s c) = directed (graphs s g) \<and> strict (graphs s c) = strict (graphs s g) \<and>
        no_loop (graphs s c) = no_loop (graphs s g))"

definition root_ok :: "world \<Rightarrow> bool" where
  "root_ok s \<longleftrightarrow>
     (\<forall>n\<in>set (N s []). n < nnext s \<and> node_root (nodes s n) = mainroot s \<and>
        AGSEQ_n s n \<le> seqs (clos s) AGNODE) \<and>
     (\<forall>e\<in>E s []. e < enext s \<and> eseq (edges s e) \<le> seqs (clos s) AGEDGE)"

definition structure_ok :: "world \<Rightarrow> bool" where
  "structure_ok s \<longleftrightarrow> (\<forall>g. live_graph s g \<longrightarrow> nodes_ok s g \<and> edges_ok s g \<and> subgraphs_ok s g)"

definition wf :: "world \<Rightarrow> bool" where
  "wf s \<longleftrightarrow> structure_ok s \<and> root_ok s \<and> ids_ok (clos s) (held s)"

section \<open>First consequences\<close>

lemma od_first_hd [simp]: "od_first = hd_opt"
  by (rule ext) (simp add: od_first_def hd_opt_def)

lemma structure_okD:
  assumes "structure_ok s" and "live_graph s g"
  shows "nodes_ok s g" and "edges_ok s g" and "subgraphs_ok s g"
  using assms by (auto simp: structure_ok_def)

lemma wf_structure: "wf s \<Longrightarrow> structure_ok s"
  by (simp add: wf_def)

lemma subgraph_child:
  assumes "subgraphs_ok s g" and "c \<in> set (g_seq (graphs s g))"
  obtains k where "c = k # g" and "k < gnext s" and "\<forall>j\<in>set g. j < k"
    and "gseq (graphs s c) \<le> seqs (clos s) AGRAPH" and "set (N s c) \<subseteq> set (N s g)" and "E s c \<subseteq> E s g"
    and "directed (graphs s c) = directed (graphs s g)" and "strict (graphs s c) = strict (graphs s g)"
    and "no_loop (graphs s c) = no_loop (graphs s g)"
  using assms unfolding subgraphs_ok_def by blast

lemma child_sub:
  assumes "structure_ok s" and "live_graph s (k # p)"
  shows "set (N s (k # p)) \<subseteq> set (N s p)" and "E s (k # p) \<subseteq> E s p" and "k < gnext s"
    and "\<forall>j\<in>set p. j < k" and "strict (graphs s (k # p)) = strict (graphs s p)"
    and "directed (graphs s (k # p)) = directed (graphs s p)"
    and "gseq (graphs s (k # p)) \<le> seqs (clos s) AGRAPH"
proof -
  have "subgraphs_ok s p" using assms by (auto dest: structure_okD)
  then have "\<exists>k'. k # p = k' # p \<and> k' < gnext s \<and> (\<forall>j\<in>set p. j < k') \<and>
        gseq (graphs s (k # p)) \<le> seqs (clos s) AGRAPH \<and>
        set (N s (k # p)) \<subseteq> set (N s p) \<and> E s (k # p) \<subseteq> E s p \<and>
        directed (graphs s (k # p)) = directed (graphs s p) \<and> strict (graphs s (k # p)) = strict (graphs s p) \<and>
        no_loop (graphs s (k # p)) = no_loop (graphs s p)"
    using assms(2) unfolding subgraphs_ok_def by (auto simp del: list.inject)
  then show "set (N s (k # p)) \<subseteq> set (N s p)" and "E s (k # p) \<subseteq> E s p" and "k < gnext s"
    and "\<forall>j\<in>set p. j < k" and "strict (graphs s (k # p)) = strict (graphs s p)"
    and "directed (graphs s (k # p)) = directed (graphs s p)"
    and "gseq (graphs s (k # p)) \<le> seqs (clos s) AGRAPH" by auto
qed

text \<open>Ancestors of a graph, itself included.\<close>

lemma is_ancestor_refl [simp]: "is_ancestor g g"
  by (cases g) auto

lemma is_ancestor_root [simp]: "is_ancestor [] g"
  by (induction g) auto

lemma live_ancestor: "live_graph s g \<Longrightarrow> is_ancestor a g \<Longrightarrow> live_graph s a"
  by (induction g) auto

lemma ancestor_sub:
  assumes ok: "structure_ok s"
  shows "live_graph s g \<Longrightarrow> is_ancestor a g \<Longrightarrow> set (N s g) \<subseteq> set (N s a) \<and> E s g \<subseteq> E s a"
proof (induction g)
  case (Cons k p)
  then show ?case using child_sub(1,2) [OF ok Cons.prems(1)] by auto
qed simp

lemma node_in_root: "structure_ok s \<Longrightarrow> live_graph s g \<Longrightarrow> n \<in> set (N s g) \<Longrightarrow> n \<in> set (N s [])"
  using ancestor_sub [of s g "[]"] by auto

lemma edge_in_root: "structure_ok s \<Longrightarrow> live_graph s g \<Longrightarrow> e \<in> E s g \<Longrightarrow> e \<in> E s []"
  using ancestor_sub [of s g "[]"] by auto

lemma live_path: "structure_ok s \<Longrightarrow> live_graph s g \<Longrightarrow> set g \<subseteq> {..<gnext s} \<and> distinct g"
proof (induction g)
  case (Cons k p)
  then show ?case using child_sub(3,4) [OF Cons.prems] by auto
qed simp

lemma finite_live: "structure_ok s \<Longrightarrow> finite {g. live_graph s g}"
proof -
  assume "structure_ok s"
  then have "{g. live_graph s g} \<subseteq> {xs. set xs \<subseteq> {..<gnext s} \<and> distinct xs}"
    using live_path by blast
  then show ?thesis by (rule finite_subset) (simp add: finite_subset_distinct)
qed

lemma live_length: "structure_ok s \<Longrightarrow> live_graph s g \<Longrightarrow> length g \<le> gnext s"
proof -
  assume "structure_ok s" "live_graph s g"
  from live_path [OF this] have "card (set g) \<le> gnext s" "distinct g"
    using card_mono [of "{..<gnext s}" "set g"] by auto
  then show ?thesis by (simp add: distinct_card)
qed

lemma finite_E: "finite (E s g)"
proof -
  have "E s g \<subseteq> (\<Union>n\<in>set (N s g). fst ` set (out_seq (sub_of s g n)))"
    by (force simp: E_def)
  then show ?thesis by (rule finite_subset) simp
qed

section \<open>Node lookup and iteration\<close>

lemma find_by_id:
  "nodes_ok s g \<Longrightarrow> agfindnode_by_id s g i = Some n \<longleftrightarrow> n \<in> set (N s g) \<and> AGID_n s n = i"
  by (simp add: nodes_ok_def agfindnode_by_id_def node_set_find_correct)

lemma find_by_id_None:
  "nodes_ok s g \<Longrightarrow> agfindnode_by_id s g i = None \<longleftrightarrow> i \<notin> AGID_n s ` set (N s g)"
  by (simp add: nodes_ok_def agfindnode_by_id_def node_set_find_None)

lemma id_unique: "nodes_ok s g \<Longrightarrow> n \<in> set (N s g) \<Longrightarrow> m \<in> set (N s g) \<Longrightarrow> AGID_n s m = AGID_n s n \<Longrightarrow> m = n"
  using find_by_id [of s g "AGID_n s n" n] find_by_id [of s g "AGID_n s n" m] by simp

lemma seq_unique: "nodes_ok s g \<Longrightarrow> n \<in> set (N s g) \<Longrightarrow> m \<in> set (N s g) \<Longrightarrow> AGSEQ_n s m = AGSEQ_n s n \<Longrightarrow> m = n"
  using by_nat.ordered_unique [of "AGSEQ_n s" "N s g" n m]
  by (simp add: nodes_ok_def agsubnodeseqcmpf_def [abs_def])

lemma nodes_distinct: "nodes_ok s g \<Longrightarrow> distinct (N s g)"
  using by_nat.ordered_distinct [of "AGSEQ_n s" "N s g"]
  by (simp add: nodes_ok_def agsubnodeseqcmpf_def [abs_def])

lemma subrep: "nodes_ok s g \<Longrightarrow> n \<in> set (N s g) \<Longrightarrow> agsubrep s g n = Some n"
  using find_by_id [of s g "AGID_n s n" n] by (simp add: agsubrep_def agfindnode_by_id_def)

text \<open>A node of the main graph that a subgraph lacks has no representative there.\<close>

lemma subrep_None:
  assumes "structure_ok s" and "live_graph s g" and "g \<noteq> []" and "n \<in> set (N s [])" and "n \<notin> set (N s g)"
  shows "agsubrep s g n = None"
proof -
  have g: "nodes_ok s g" and r: "nodes_ok s []"
    using structure_okD(1) [OF assms(1)] assms(2) by simp_all
  have "agfindnode_by_id s g (AGID_n s n) = None"
    unfolding find_by_id_None [OF g]
  proof
    assume "AGID_n s n \<in> AGID_n s ` set (N s g)"
    then obtain m where m: "m \<in> set (N s g)" "AGID_n s m = AGID_n s n" by auto
    from id_unique [OF r assms(4) node_in_root [OF assms(1,2) m(1)] m(2)] m(1) assms(5)
    show False by simp
  qed
  with assms(3) show ?thesis by (simp add: agsubrep_def agfindnode_by_id_def)
qed

lemma next_node:
  assumes ok: "nodes_ok s g" and xs: "N s g = xs @ n # ys"
  shows "agnxtnode s g n = hd_opt ys" and "agprvnode s g n = (if xs = [] then None else Some (last xs))"
proof -
  have o: "ordered (\<lambda>x y. cmp_nat (AGSEQ_n s x) (AGSEQ_n s y)) (xs @ n # ys)"
    using ok by (simp add: nodes_ok_def agsubnodeseqcmpf_def [abs_def] xs)
  have r: "agsubrep s g n = Some n" using subrep [OF ok] xs by simp
  have "od_next (agsubnodeseqcmpf s n) ((xs @ [n]) @ ys) = od_first ys"
    using o by (intro od_next_cut) (auto simp: agsubnodeseqcmpf_def ordered_append ordered_Cons)
  with r show "agnxtnode s g n = hd_opt ys" by (simp add: agnxtnode_def xs)
  have "od_prev (agsubnodeseqcmpf s n) (xs @ n # ys) = od_last xs"
    using o by (intro od_prev_cut) (auto simp: agsubnodeseqcmpf_def ordered_append ordered_Cons)
  with r show "agprvnode s g n = (if xs = [] then None else Some (last xs))"
    by (simp add: agprvnode_def xs od_last_def)
qed

section \<open>What the structure depends on\<close>

lemma ordered_cong:
  assumes "\<And>x y. x \<in> set xs \<Longrightarrow> y \<in> set xs \<Longrightarrow> cmp' x y = cmp x y"
  shows "ordered cmp' xs = ordered cmp xs"
  unfolding ordered_def using assms by (induction xs) auto

lemma live_cong: "(\<And>g. live_graph s g \<Longrightarrow> g_seq (graphs s' g) = g_seq (graphs s g)) \<Longrightarrow>
    live_graph s' g = live_graph s g"
  by (induction g) auto

lemma lists_ok_cong:
  assumes "lists_ok s es n x"
    and "\<And>e. e \<in> es \<Longrightarrow> edges s' e = edges s e \<and> nodes s' (etail (edges s e)) = nodes s (etail (edges s e)) \<and>
      nodes s' (ehead (edges s e)) = nodes s (ehead (edges s e))"
  shows "lists_ok s' es n x"
proof -
  have k: "seq_key s' (e, d) = seq_key s (e, d)" "id_key s' (e, d) = id_key s (e, d)" if "e \<in> es" for e d
    using assms(2) [OF that] by (simp_all add: seq_key_def id_key_def enode_def)
  have o: "ordered (\<lambda>e f. lexcmp (seq_key s' e) (seq_key s' f)) xs =
        ordered (\<lambda>e f. lexcmp (seq_key s e) (seq_key s f)) xs"
      "ordered (\<lambda>e f. lexcmp (id_key s' e) (id_key s' f)) xs =
        ordered (\<lambda>e f. lexcmp (id_key s e) (id_key s f)) xs" if "fst ` set xs \<subseteq> es" for xs
  proof -
    have "seq_key s' e = seq_key s e \<and> id_key s' e = id_key s e" if "e \<in> set xs" for e
    proof -
      have "fst e \<in> es" using \<open>fst ` set xs \<subseteq> es\<close> that by blast
      from k [OF this, of "snd e"] show ?thesis by simp
    qed
    then show "ordered (\<lambda>e f. lexcmp (seq_key s' e) (seq_key s' f)) xs =
        ordered (\<lambda>e f. lexcmp (seq_key s e) (seq_key s f)) xs"
      "ordered (\<lambda>e f. lexcmp (id_key s' e) (id_key s' f)) xs =
        ordered (\<lambda>e f. lexcmp (id_key s e) (id_key s f)) xs"
      by (intro ordered_cong; simp)+
  qed
  have "fst ` set (out_seq x) \<subseteq> es" "fst ` set (out_id x) \<subseteq> es" "fst ` set (in_seq x) \<subseteq> es"
    "fst ` set (in_id x) \<subseteq> es" using assms(1) by (auto simp: lists_ok_def)
  moreover have "{(e, d) |e. e \<in> es \<and> etail (edges s' e) = n} = {(e, d) |e. e \<in> es \<and> etail (edges s e) = n}"
    "{(e, d) |e. e \<in> es \<and> ehead (edges s' e) = n} = {(e, d) |e. e \<in> es \<and> ehead (edges s e) = n}"
    for d :: dir using assms(2) by auto
  ultimately show ?thesis using assms(1) unfolding lists_ok_def by (simp add: o)
qed

text \<open>
  The frame rule: the structure reads the lists of the open graphs, the fields of the nodes and
  edges in them, and two counters.
\<close>

definition same_graph :: "world \<Rightarrow> agraph \<Rightarrow> agraph \<Rightarrow> bool" where
  "same_graph s G G' \<longleftrightarrow> n_seq G' = n_seq G \<and> n_id G' = n_id G \<and> g_seq G' = g_seq G \<and> g_id G' = g_id G \<and>
     gid G' = gid G \<and> gseq G' = gseq G \<and> directed G' = directed G \<and> strict G' = strict G \<and>
     no_loop G' = no_loop G \<and> (\<forall>n\<in>set (n_seq G). subnodes G' n = subnodes G n)"

lemma same_graph_refl [simp]: "same_graph s G G"
  by (simp add: same_graph_def)

definition same_structure :: "world \<Rightarrow> world \<Rightarrow> bool" where
  "same_structure s s' \<longleftrightarrow> (\<forall>g. live_graph s g \<longrightarrow> same_graph s (graphs s g) (graphs s' g)) \<and>
     (\<forall>n\<in>set (N s []). nodes s' n = nodes s n) \<and> (\<forall>e\<in>E s []. edges s' e = edges s e) \<and>
     gnext s \<le> gnext s' \<and> seqs (clos s) AGRAPH \<le> seqs (clos s') AGRAPH"

lemma same_structure_refl [simp]: "same_structure s s"
  by (simp add: same_structure_def)

lemma frame:
  assumes ok: "structure_ok s" and same: "same_structure s s'"
  shows frame_live: "live_graph s' g = live_graph s g"
    and frame_E: "live_graph s g \<Longrightarrow> E s' g = E s g"
    and frame_N: "live_graph s g \<Longrightarrow> N s' g = N s g"
    and frame_ok: "structure_ok s'"
proof -
  have G: "\<And>g. live_graph s g \<Longrightarrow> same_graph s (graphs s g) (graphs s' g)"
    using same by (simp add: same_structure_def)
  show live: "live_graph s' g = live_graph s g" for g
    using G by (intro live_cong) (simp add: same_graph_def)
  show E: "live_graph s g \<Longrightarrow> E s' g = E s g" for g
    using G [of g] by (auto simp: E_def same_graph_def)
  show N: "live_graph s g \<Longrightarrow> N s' g = N s g" for g
    using G [of g] by (simp add: same_graph_def)
  show "structure_ok s'"
    unfolding structure_ok_def
  proof (intro allI impI)
    fix g assume "live_graph s' g"
    then have l: "live_graph s g" by (simp add: live)
    note okg = structure_okD [OF ok l] and Gg = G [OF l]
    have nd: "\<And>n. n \<in> set (N s g) \<Longrightarrow> nodes s' n = nodes s n"
      using node_in_root [OF ok l] same by (simp add: same_structure_def)
    have ed: "\<And>e. e \<in> E s g \<Longrightarrow> edges s' e = edges s e"
      using edge_in_root [OF ok l] same by (simp add: same_structure_def)
    have "ordered (agsubnodeseqcmpf s') (N s g) = ordered (agsubnodeseqcmpf s) (N s g)"
      by (rule ordered_cong) (simp add: agsubnodeseqcmpf_def nd)
    moreover have "node_set_ok (AGID_n s') (n_id (graphs s g))"
      by (rule node_set_ok_cong [of "AGID_n s"]) (use okg(1) nd in \<open>simp_all add: nodes_ok_def\<close>)
    moreover have "ordered (agsubnodeseqcmpf s) (N s g)" "nelems (n_id (graphs s g)) = set (N s g)"
      using okg(1) by (simp_all add: nodes_ok_def)
    moreover have Gn: "N s' g = N s g" "n_id (graphs s' g) = n_id (graphs s g)"
      using Gg by (simp_all add: same_graph_def)
    ultimately have 1: "nodes_ok s' g" unfolding nodes_ok_def Gn by blast
    have "lists_ok s' (E s g) n (sub_of s' g n)" if "n \<in> set (N s g)" for n
    proof -
      have "lists_ok s (E s g) n (sub_of s' g n)"
        using okg(2) Gg that by (simp add: edges_ok_def same_graph_def)
      then show ?thesis by (rule lists_ok_cong) (use okg(2) nd ed in \<open>simp add: edges_ok_def\<close>)
    qed
    then have 2: "edges_ok s' g" using okg(2) ed by (simp add: edges_ok_def E [OF l] N [OF l])
    have ch: "live_graph s c" if "c \<in> set (g_seq (graphs s g))" for c
    proof -
      from that okg(3) obtain k where "c = k # g" by (auto simp: subgraphs_ok_def)
      with l that show ?thesis by simp
    qed
    have 3: "subgraphs_ok s' g"
      unfolding subgraphs_ok_def
    proof (intro conjI ballI)
      have gs: "gseq (graphs s' c) = gseq (graphs s c)" "gid (graphs s' c) = gid (graphs s c)"
        if "c \<in> set (g_seq (graphs s g))" for c
        using G [OF ch [OF that]] by (simp_all add: same_graph_def)
      have "ordered (agraphseqcmpf s') (g_seq (graphs s g)) = ordered (agraphseqcmpf s) (g_seq (graphs s g))"
        by (rule ordered_cong) (simp add: agraphseqcmpf_def gs)
      then show "ordered (agraphseqcmpf s') (g_seq (graphs s' g))"
        using okg(3) Gg by (simp add: subgraphs_ok_def same_graph_def)
      have "ordered (\<lambda>a b. cmp_nat (gid (graphs s' a)) (gid (graphs s' b))) (g_id (graphs s g)) =
          ordered (\<lambda>a b. cmp_nat (gid (graphs s a)) (gid (graphs s b))) (g_id (graphs s g))"
        by (rule ordered_cong) (use okg(3) gs in \<open>simp add: subgraphs_ok_def\<close>)
      then show "ordered (\<lambda>a b. cmp_nat (gid (graphs s' a)) (gid (graphs s' b))) (g_id (graphs s' g))"
        using okg(3) Gg by (simp add: subgraphs_ok_def same_graph_def)
      show "set (g_id (graphs s' g)) = set (g_seq (graphs s' g))"
        using okg(3) Gg by (simp add: subgraphs_ok_def same_graph_def)
      fix c assume "c \<in> set (g_seq (graphs s' g))"
      then have c: "c \<in> set (g_seq (graphs s g))" using Gg by (simp add: same_graph_def)
      from subgraph_child [OF okg(3) c] obtain k where k: "c = k # g" "k < gnext s" "\<forall>j\<in>set g. j < k"
        "gseq (graphs s c) \<le> seqs (clos s) AGRAPH" "set (N s c) \<subseteq> set (N s g)" "E s c \<subseteq> E s g"
        "directed (graphs s c) = directed (graphs s g)" "strict (graphs s c) = strict (graphs s g)"
        "no_loop (graphs s c) = no_loop (graphs s g)" .
      note views = E [OF l] E [OF ch [OF c]] N [OF l] N [OF ch [OF c]] gs [OF c]
      have cnt: "k < gnext s'" "gseq (graphs s c) \<le> seqs (clos s') AGRAPH"
        using k(2,4) same by (simp_all add: same_structure_def)
      have flags: "directed (graphs s' c) = directed (graphs s c)" "strict (graphs s' c) = strict (graphs s c)"
        "no_loop (graphs s' c) = no_loop (graphs s c)" "directed (graphs s' g) = directed (graphs s g)"
        "strict (graphs s' g) = strict (graphs s g)" "no_loop (graphs s' g) = no_loop (graphs s g)"
        using Gg G [OF ch [OF c]] by (simp_all add: same_graph_def)
      show "\<exists>k. c = k # g \<and> k < gnext s' \<and>
        (\<forall>j\<in>set g. j < k) \<and> gseq (graphs s' c) \<le> seqs (clos s') AGRAPH \<and>
        set (N s' c) \<subseteq> set (N s' g) \<and> E s' c \<subseteq> E s' g \<and>
        directed (graphs s' c) = directed (graphs s' g) \<and> strict (graphs s' c) = strict (graphs s' g) \<and>
        no_loop (graphs s' c) = no_loop (graphs s' g)"
        unfolding views flags using k cnt by blast
    qed
    from 1 2 3 show "nodes_ok s' g \<and> edges_ok s' g \<and> subgraphs_ok s' g" by simp
  qed
qed

end
