(* ===== verification/Agnode_Correct.thy ===== *)
theory Agnode_Correct
  imports Agraph_Wf
begin

text \<open>
  Nodes: inserting a node into a set of graphs closed upwards keeps the invariant; what
  \<open>installnodetoroot\<close>, \<open>agsubnode\<close>, \<open>agidnode\<close> and \<open>agnode\<close> do to the graph.
\<close>

section \<open>One graph\<close>

text \<open>The graph \<open>g\<close> after node \<open>n\<close> entered it, its ID table being \<open>ns\<close>.\<close>

definition with_node :: "world \<Rightarrow> nref \<Rightarrow> nref node_set \<Rightarrow> gref \<Rightarrow> agraph \<Rightarrow> agraph" where
  "with_node s n ns g G = G\<lparr>subnodes := (if g = [] then subnodes G else (subnodes G)(n := empty_subnode)),
     n_id := ns, n_seq := od_insert (agsubnodeseqcmpf s n) n (n_seq G)\<rparr>"

definition fits :: "world \<Rightarrow> gref \<Rightarrow> nref \<Rightarrow> bool" where
  "fits s g n \<longleftrightarrow> nodes_ok s g \<and> n \<notin> set (N s g) \<and> AGID_n s n \<notin> AGID_n s ` set (N s g) \<and>
     AGSEQ_n s n \<notin> AGSEQ_n s ` set (N s g) \<and> length (N s g) < 2 ^ 56"

definition table_for :: "world \<Rightarrow> nref \<Rightarrow> gref \<Rightarrow> nref node_set \<Rightarrow> bool" where
  "table_for s n g ns \<longleftrightarrow> node_set_ok (AGID_n s) ns \<and> nelems ns = insert n (set (N s g))"

lemma fits_missing: "fits s g n \<Longrightarrow> od_find (agsubnodeseqcmpf s n) (N s g) = None"
  by (force simp: fits_def od_find_def find_None_iff agsubnodeseqcmpf_def)

lemma installnode_fits:
  assumes "fits s g n"
  shows "\<exists>ns. installnode s g n = Some (s\<lparr>graphs := (graphs s)(g := with_node s n ns g (graphs s g))\<rparr>) \<and>
    table_for s n g ns"
proof -
  let ?G = "graphs s g"
  have ok: "node_set_ok (AGID_n s) (n_id ?G)" and el: "nelems (n_id ?G) = set (n_seq ?G)"
    and d: "distinct (n_seq ?G)"
    using assms nodes_distinct [of s g] by (auto simp: fits_def nodes_ok_def)
  have sz: "nsize (n_id ?G) = length (n_seq ?G)"
    using nsize_card [OF ok] el d by (simp add: distinct_card)
  have "AGID_n s n \<notin> AGID_n s ` nelems (n_id ?G)" "nsize (n_id ?G) < 2 ^ 56"
    using assms sz el by (auto simp: fits_def)
  from node_set_add_correct [OF ok this] obtain ns where
    ns: "node_set_add (AGID_n s) (n_id ?G) n = Some ns" "node_set_ok (AGID_n s) ns"
    "nelems ns = insert n (nelems (n_id ?G))" "nsize ns = Suc (nsize (n_id ?G))" by blast
  have len: "length (od_insert (agsubnodeseqcmpf s n) n (n_seq ?G)) = Suc (length (n_seq ?G))"
    using mset_od_insert [OF fits_missing [OF assms], of n]
    by (metis size_add_mset size_mset)
  have "installnode s g n = Some (s\<lparr>graphs := (graphs s)(g := with_node s n ns g ?G)\<rparr>)"
    using ns sz len
    by (simp add: installnode_def Let_def node_set_size_def with_node_def upd_graph_def upd_subnode_def)
  with ns el show ?thesis by (auto simp: table_for_def)
qed

section \<open>A set of graphs\<close>

definition with_nodes :: "world \<Rightarrow> nref \<Rightarrow> gref set \<Rightarrow> (gref \<Rightarrow> nref node_set) \<Rightarrow> world" where
  "with_nodes s n A nsf =
    s\<lparr>graphs := (\<lambda>g. if g \<in> A then with_node s n (nsf g) g (graphs s g) else graphs s g)\<rparr>"

lemma with_nodes_simps [simp]:
  "nodes (with_nodes s n A nsf) = nodes s" "edges (with_nodes s n A nsf) = edges s"
  "clos (with_nodes s n A nsf) = clos s" "mainroot (with_nodes s n A nsf) = mainroot s"
  "nnext (with_nodes s n A nsf) = nnext s" "enext (with_nodes s n A nsf) = enext s"
  "gnext (with_nodes s n A nsf) = gnext s" "pick (with_nodes s n A nsf) = pick s"
  "hooks (with_nodes s n A nsf) = hooks s"
  by (simp_all add: with_nodes_def)

lemma with_node_simps [simp]:
  "gid (with_node s n ns g G) = gid G" "gseq (with_node s n ns g G) = gseq G"
  "directed (with_node s n ns g G) = directed G" "strict (with_node s n ns g G) = strict G"
  "no_loop (with_node s n ns g G) = no_loop G" "maingraph (with_node s n ns g G) = maingraph G"
  "has_attrs (with_node s n ns g G) = has_attrs G" "g_seq (with_node s n ns g G) = g_seq G"
  "g_id (with_node s n ns g G) = g_id G" "n_id (with_node s n ns g G) = ns"
  "n_seq (with_node s n ns g G) = od_insert (agsubnodeseqcmpf s n) n (n_seq G)"
  by (simp_all add: with_node_def)

lemma with_nodes_graph: "graphs (with_nodes s n A nsf) g =
    (if g \<in> A then with_node s n (nsf g) g (graphs s g) else graphs s g)"
  by (simp add: with_nodes_def)

lemma with_nodes_same [simp]:
  "gid (graphs (with_nodes s n A nsf) g) = gid (graphs s g)"
  "gseq (graphs (with_nodes s n A nsf) g) = gseq (graphs s g)"
  "directed (graphs (with_nodes s n A nsf) g) = directed (graphs s g)"
  "strict (graphs (with_nodes s n A nsf) g) = strict (graphs s g)"
  "no_loop (graphs (with_nodes s n A nsf) g) = no_loop (graphs s g)"
  "has_attrs (graphs (with_nodes s n A nsf) g) = has_attrs (graphs s g)"
  "g_seq (graphs (with_nodes s n A nsf) g) = g_seq (graphs s g)"
  "g_id (graphs (with_nodes s n A nsf) g) = g_id (graphs s g)"
  by (simp_all add: with_nodes_graph)

lemma with_nodes_live [simp]: "live_graph (with_nodes s n A nsf) g = live_graph s g"
  by (induction g) auto

lemma with_nodes_keys [simp]:
  "agsubnodeseqcmpf (with_nodes s n A nsf) = agsubnodeseqcmpf s"
  "seq_key (with_nodes s n A nsf) = seq_key s" "id_key (with_nodes s n A nsf) = id_key s"
  "agraphseqcmpf (with_nodes s n A nsf) = agraphseqcmpf s"
  by (simp_all add: fun_eq_iff agsubnodeseqcmpf_def seq_key_def id_key_def enode_def agraphseqcmpf_def)

lemma with_nodes_lists [simp]: "lists_ok (with_nodes s n A nsf) = lists_ok s"
  by (simp add: fun_eq_iff lists_ok_def)

text \<open>What inserting \<open>n\<close> into the graphs \<open>A\<close> needs.\<close>

definition can_enter :: "world \<Rightarrow> nref \<Rightarrow> gref set \<Rightarrow> bool" where
  "can_enter s n A \<longleftrightarrow> (\<forall>g\<in>A. live_graph s g \<and> fits s g n \<and> (g = [] \<longrightarrow> sub_of s [] n = empty_subnode)) \<and>
     (\<forall>k p. k # p \<in> A \<longrightarrow> p \<in> A \<or> n \<in> set (N s p))"

lemma enter_nodes:
  assumes "can_enter s n A"
  shows "set (N (with_nodes s n A nsf) g) = (if g \<in> A then insert n (set (N s g)) else set (N s g))"
    and "E (with_nodes s n A nsf) g = E s g"
proof -
  have "set (od_insert (agsubnodeseqcmpf s n) n (N s g)) = insert n (set (N s g))" if "g \<in> A"
  proof -
    have "fits s g n" using assms that by (auto simp: can_enter_def)
    from od_find_od_insert_missing [OF fits_missing [OF this]] show ?thesis .
  qed
  then show sets: "set (N (with_nodes s n A nsf) g) =
      (if g \<in> A then insert n (set (N s g)) else set (N s g))"
    by (simp add: with_nodes_graph)
  show "E (with_nodes s n A nsf) g = E s g"
  proof (cases "g \<in> A")
    case True
    then have "n \<notin> set (N s g)" "g = [] \<longrightarrow> sub_of s [] n = empty_subnode"
      using assms by (auto simp: can_enter_def fits_def)
    moreover have "sub_of (with_nodes s n A nsf) g m =
        (if m = n \<and> g \<noteq> [] then empty_subnode else sub_of s g m)" for m
      using True by (simp add: with_nodes_graph with_node_def)
    ultimately show ?thesis
      using True sets by (force simp: E_def empty_subnode_def)
  next
    case False
    then show ?thesis using sets by (simp add: E_def with_nodes_graph)
  qed
qed

lemma with_nodes_ok:
  assumes ok: "structure_ok s" and en: "can_enter s n A" and t: "\<forall>g\<in>A. table_for s n g (nsf g)"
  shows "structure_ok (with_nodes s n A nsf)"
  unfolding structure_ok_def
proof (intro allI impI conjI)
  let ?s = "with_nodes s n A nsf"
  fix g assume "live_graph ?s g"
  then have l: "live_graph s g" by simp
  note okg = structure_okD [OF ok l]
  show "nodes_ok ?s g"
  proof (cases "g \<in> A")
    case True
    then have "ordered (agsubnodeseqcmpf s) (N ?s g)"
      using okg(1) by_nat.ordered_od_insert [of "AGSEQ_n s" "N s g" n]
      by (simp add: with_nodes_graph nodes_ok_def agsubnodeseqcmpf_def [abs_def])
    with True t enter_nodes(1) [OF en, of nsf g] show ?thesis
      by (simp add: nodes_ok_def table_for_def with_nodes_graph)
  next
    case False
    with okg(1) show ?thesis by (simp add: nodes_ok_def with_nodes_graph)
  qed
  show "edges_ok ?s g"
  proof (cases "g \<in> A")
    case True
    then have n: "n \<notin> set (N s g)" "g = [] \<longrightarrow> sub_of s [] n = empty_subnode"
      using en by (auto simp: can_enter_def fits_def)
    have "sub_of ?s g m = (if m = n \<and> g \<noteq> [] then empty_subnode else sub_of s g m)" for m
      using True by (simp add: with_nodes_graph with_node_def)
    moreover have "lists_ok s (E s g) n empty_subnode"
      using okg(2) n by (auto simp: lists_ok_def empty_subnode_def edges_ok_def)
    ultimately show ?thesis
      using okg(2) n True enter_nodes [OF en, of nsf g] by (auto simp: edges_ok_def)
  next
    case False
    with okg(2) enter_nodes [OF en, of nsf g] show ?thesis
      by (simp add: edges_ok_def with_nodes_graph)
  qed
  show "subgraphs_ok ?s g"
    unfolding subgraphs_ok_def
  proof (intro conjI ballI)
    show "ordered (agraphseqcmpf ?s) (g_seq (graphs ?s g))"
      and "ordered (\<lambda>a b. cmp_nat (gid (graphs ?s a)) (gid (graphs ?s b))) (g_id (graphs ?s g))"
      and "set (g_id (graphs ?s g)) = set (g_seq (graphs ?s g))"
      using okg(3) by (simp_all add: subgraphs_ok_def)
    fix c assume "c \<in> set (g_seq (graphs ?s g))"
    then have "c \<in> set (g_seq (graphs s g))" by simp
    with okg(3) obtain k where c: "c = k # g" "k < gnext s" "\<forall>j\<in>set g. j < k"
        "gseq (graphs s c) \<le> seqs (clos s) AGRAPH" "set (N s c) \<subseteq> set (N s g)" "E s c \<subseteq> E s g"
        "directed (graphs s c) = directed (graphs s g)" "strict (graphs s c) = strict (graphs s g)"
        "no_loop (graphs s c) = no_loop (graphs s g)"
      unfolding subgraphs_ok_def by blast
    have "c \<in> A \<Longrightarrow> g \<in> A \<or> n \<in> set (N s g)" using en c(1) by (auto simp: can_enter_def)
    then have "set (N ?s c) \<subseteq> set (N ?s g)" using enter_nodes(1) [OF en] c(5) by auto
    with c show "\<exists>k. c = k # g \<and> k < gnext ?s \<and> (\<forall>j\<in>set g. j < k) \<and>
        gseq (graphs ?s c) \<le> seqs (clos ?s) AGRAPH \<and> set (N ?s c) \<subseteq> set (N ?s g) \<and> E ?s c \<subseteq> E ?s g \<and>
        directed (graphs ?s c) = directed (graphs ?s g) \<and> strict (graphs ?s c) = strict (graphs ?s g) \<and>
        no_loop (graphs ?s c) = no_loop (graphs ?s g)"
      by (intro exI [of _ k]) (simp add: enter_nodes(2) [OF en])
  qed
qed

section \<open>Insertion up to the main graph\<close>

lemma with_nodes_one:
  "s\<lparr>graphs := (graphs s)(g := with_node s n ns g (graphs s g))\<rparr> = with_nodes s n {g} (\<lambda>_. ns)"
  by (auto simp: with_nodes_def fun_eq_iff)

lemma with_nodes_compose:
  assumes "A \<inter> B = {}"
  shows "with_nodes (with_nodes s n A f) n B h = with_nodes s n (A \<union> B) (\<lambda>g. if g \<in> A then f g else h g)"
proof -
  let ?s = "with_nodes s n A f"
  have w: "with_node ?s = with_node s" by (intro ext) (simp add: with_node_def)
  have "(\<lambda>g. if g \<in> B then with_node ?s n (h g) g (graphs ?s g) else graphs ?s g) =
      (\<lambda>g. if g \<in> A \<union> B then with_node s n (if g \<in> A then f g else h g) g (graphs s g) else graphs s g)"
  proof
    fix g
    show "(if g \<in> B then with_node ?s n (h g) g (graphs ?s g) else graphs ?s g) =
      (if g \<in> A \<union> B then with_node s n (if g \<in> A then f g else h g) g (graphs s g) else graphs s g)"
      using assms by (cases "g \<in> A"; cases "g \<in> B") (auto simp: w with_nodes_graph)
  qed
  then show ?thesis by (simp add: with_nodes_def [of "with_nodes s n A f"]) (simp add: with_nodes_def)
qed

lemma with_nodes_other: "g \<notin> A \<Longrightarrow> graphs (with_nodes s n A nsf) g = graphs s g"
  by (simp add: with_nodes_graph)

lemma fits_other: "g \<notin> A \<Longrightarrow> fits (with_nodes s n A nsf) g m = fits s g m"
  by (simp add: fits_def nodes_ok_def with_nodes_other)

lemma ancestor_length: "is_ancestor a g \<Longrightarrow> length a \<le> length g"
  by (induction g) auto

lemma ancestor_ne: "is_ancestor a p \<Longrightarrow> a \<noteq> k # p"
  using ancestor_length [of a p] by auto

lemma ancestors_Cons: "{a. is_ancestor a (k # p)} = insert (k # p) {a. is_ancestor a p}"
  by auto

lemma installnodetoroot_fits:
  "\<forall>a. is_ancestor a g \<longrightarrow> fits s a n \<Longrightarrow>
    \<exists>nsf. installnodetoroot s g n = Some (with_nodes s n {a. is_ancestor a g} nsf) \<and>
      (\<forall>a. is_ancestor a g \<longrightarrow> table_for s n a (nsf a))"
proof (induction g arbitrary: s)
  case Nil
  then have "fits s [] n" by simp
  from installnode_fits [OF this] obtain ns where
    "installnode s [] n = Some (with_nodes s n {[]} (\<lambda>_. ns))" "table_for s n [] ns"
    by (auto simp: with_nodes_one)
  moreover have "{a. is_ancestor a []} = {[]}" by auto
  ultimately show ?case by auto
next
  case (Cons k p)
  then have "fits s (k # p) n" by simp
  from installnode_fits [OF this] obtain ns where
    ns: "installnode s (k # p) n = Some (with_nodes s n {k # p} (\<lambda>_. ns))" "table_for s n (k # p) ns"
    by (auto simp: with_nodes_one)
  let ?s = "with_nodes s n {k # p} (\<lambda>_. ns)"
  have "\<forall>a. is_ancestor a p \<longrightarrow> fits ?s a n"
    using Cons.prems by (auto simp: fits_other ancestor_ne)
  from Cons.IH [OF this] obtain nsf where
    h: "installnodetoroot ?s p n = Some (with_nodes ?s n {a. is_ancestor a p} nsf)"
      "\<forall>a. is_ancestor a p \<longrightarrow> table_for ?s n a (nsf a)" by blast
  have disj: "{k # p} \<inter> {a. is_ancestor a p} = {}" using ancestor_ne by auto
  let ?f = "\<lambda>g. if g \<in> {k # p} then ns else nsf g"
  have "installnodetoroot s (k # p) n = Some (with_nodes s n {a. is_ancestor a (k # p)} ?f)"
    using ns(1) h(1) with_nodes_compose [OF disj, of s n "\<lambda>_. ns" nsf]
    by (simp only: installnodetoroot.simps ancestors_Cons) simp
  moreover have "table_for s n a (?f a)" if "is_ancestor a (k # p)" for a
  proof (cases "a = k # p")
    case True
    with ns(2) show ?thesis by simp
  next
    case False
    with that have "is_ancestor a p" by simp
    with h(2) have "table_for ?s n a (nsf a)" by blast
    with False show ?thesis by (simp add: table_for_def with_nodes_graph)
  qed
  ultimately show ?case by blast
qed

text \<open>A node of the main graph fits into every subgraph that lacks it.\<close>

definition small :: "world \<Rightarrow> bool" where
  "small s \<longleftrightarrow> length (N s []) < 2 ^ 56"

lemma length_N:
  assumes "structure_ok s" and "live_graph s g"
  shows "length (N s g) \<le> length (N s [])"
proof -
  have "distinct (N s g)" "distinct (N s [])"
    using structure_okD(1) [OF assms(1)] assms(2) nodes_distinct by auto
  moreover have "set (N s g) \<subseteq> set (N s [])" using node_in_root [OF assms] by blast
  ultimately show ?thesis by (metis card_mono distinct_card finite_set)
qed

lemma fits_existing:
  assumes ok: "structure_ok s" and l: "live_graph s g" and n: "n \<in> set (N s [])" "n \<notin> set (N s g)"
    and small: "small s"
  shows "fits s g n"
proof -
  have r: "nodes_ok s []" and g: "nodes_ok s g" using structure_okD(1) [OF ok] l by simp_all
  have "AGID_n s n \<notin> AGID_n s ` set (N s g)"
    by (rule not_image [OF id_unique [OF r n(1)] n(2)]) (simp_all add: node_in_root [OF ok l])
  moreover have "AGSEQ_n s n \<notin> AGSEQ_n s ` set (N s g)"
    by (rule not_image [OF seq_unique [OF r n(1)] n(2)]) (simp_all add: node_in_root [OF ok l])
  ultimately show ?thesis
    using g n(2) small length_N [OF ok l] by (simp add: fits_def small_def)
qed

definition missing :: "world \<Rightarrow> gref \<Rightarrow> nref \<Rightarrow> gref set" where
  "missing s g n = {a. is_ancestor a g \<and> n \<notin> set (N s a)}"

lemma missing_Cons: "n \<notin> set (N s (k # p)) \<Longrightarrow> missing s (k # p) n = insert (k # p) (missing s p n)"
  by (auto simp: missing_def)

lemma missing_empty:
  assumes "structure_ok s" and "live_graph s g" and "n \<in> set (N s g)"
  shows "missing s g n = {}"
  using ancestor_sub [OF assms(1,2)] assms(3) by (auto simp: missing_def)

lemma with_nodes_empty [simp]: "with_nodes s n {} nsf = s"
  by (simp add: with_nodes_def)

lemma subnode_miss:
  assumes ok: "structure_ok s" and l: "live_graph s g" and n: "n \<in> set (N s [])" "n \<notin> set (N s g)"
  shows "agfindnode_by_id s g (AGID_n s n) = None"
proof -
  have r: "nodes_ok s []" and g: "nodes_ok s g" using structure_okD(1) [OF ok] l by simp_all
  show ?thesis unfolding find_by_id_None [OF g]
    by (rule not_image [OF id_unique [OF r n(1)] n(2)]) (simp_all add: node_in_root [OF ok l])
qed

lemma agsubnode_spec:
  assumes ok: "structure_ok s" and n: "n \<in> set (N s [])" "node_root (nodes s n) = mainroot s"
    and small: "small s"
  shows "live_graph s g \<Longrightarrow> \<exists>nsf. (\<forall>a\<in>missing s g n. table_for s n a (nsf a)) \<and>
    agsubnode s g n c =
      (if n \<in> set (N s g) then Some (Some n, s)
       else if c then Some (Some n, with_nodes s n (missing s g n) nsf)
       else Some (None, s))"
proof (induction g)
  case Nil
  have "agfindnode_by_id s [] (AGID_n s n) = Some n"
    using find_by_id structure_okD(1) [OF ok, of "[]"] n(1) by simp
  with n missing_empty [OF ok, of "[]"] show ?case by (simp add: agsubnode.simps [of s "[]"])
next
  case (Cons k p)
  note g = structure_okD(1) [OF ok Cons.prems]
  show ?case
  proof (cases "n \<in> set (N s (k # p))")
    case True
    then have "agfindnode_by_id s (k # p) (AGID_n s n) = Some n" using find_by_id [OF g] by simp
    with True n(2) missing_empty [OF ok Cons.prems True] show ?thesis
      by (simp add: agsubnode.simps [of s "k # p"])
  next
    case False
    note miss = subnode_miss [OF ok Cons.prems n(1) False]
    show ?thesis
    proof (cases c)
      case False
      obtain nsf where "\<forall>a\<in>missing s p n. table_for s n a (nsf a)" using Cons by auto
      from installnode_fits [OF fits_existing [OF ok Cons.prems n(1) \<open>n \<notin> set (N s (k # p))\<close> small]]
      obtain ns where "table_for s n (k # p) ns" by blast
      with \<open>\<forall>a\<in>missing s p n. table_for s n a (nsf a)\<close> miss n(2) False \<open>n \<notin> set (N s (k # p))\<close>
      show ?thesis
        by (intro exI [of _ "\<lambda>a. if a = k # p then ns else nsf a"])
           (simp add: agsubnode.simps [of s "k # p"] missing_Cons)
    next
      case True
      from Cons obtain nsf where nsf: "\<forall>a\<in>missing s p n. table_for s n a (nsf a)"
        "agsubnode s p n c = Some (Some n, with_nodes s n (missing s p n) nsf)"
        using True missing_empty [OF ok, of p n] by auto
      let ?s = "with_nodes s n (missing s p n) nsf"
      have np: "k # p \<notin> missing s p n" using ancestor_ne by (auto simp: missing_def)
      have "fits ?s (k # p) n"
        using fits_existing [OF ok Cons.prems n(1) \<open>n \<notin> set (N s (k # p))\<close> small]
        by (simp only: fits_other [OF np])
      from installnode_fits [OF this] obtain ns where
        ns: "installnode ?s (k # p) n = Some (with_nodes ?s n {k # p} (\<lambda>_. ns))"
        "table_for ?s n (k # p) ns" by (auto simp: with_nodes_one)
      let ?f = "\<lambda>g. if g \<in> missing s p n then nsf g else ns"
      have "with_nodes ?s n {k # p} (\<lambda>_. ns) = with_nodes s n (missing s (k # p) n) ?f"
        using np \<open>n \<notin> set (N s (k # p))\<close>
        by (subst with_nodes_compose) (auto simp: missing_Cons)
      moreover have "table_for s n (k # p) ns"
        using ns(2) np by (simp add: table_for_def with_nodes_other)
      ultimately show ?thesis
        using nsf ns(1) True miss n(2) \<open>n \<notin> set (N s (k # p))\<close> np
        by (intro exI [of _ ?f]) (simp add: agsubnode.simps [of s "k # p"] missing_Cons)
    qed
  qed
qed

lemma can_enter_missing:
  assumes ok: "structure_ok s" and n: "n \<in> set (N s [])" and small: "small s" and l: "live_graph s g"
  shows "can_enter s n (missing s g n)"
  unfolding can_enter_def
proof (intro conjI ballI allI impI)
  fix a assume a: "a \<in> missing s g n"
  then show la: "live_graph s a" using live_ancestor [OF l] by (simp add: missing_def)
  show "fits s a n" using fits_existing [OF ok la n _ small] a by (simp add: missing_def)
  show "a = [] \<Longrightarrow> sub_of s [] n = empty_subnode" using a n by (simp add: missing_def)
next
  fix k p assume "k # p \<in> missing s g n"
  moreover have "is_ancestor (k # p) g \<Longrightarrow> is_ancestor p g" for g by (induction g) auto
  ultimately show "p \<in> missing s g n \<or> n \<in> set (N s p)" by (auto simp: missing_def)
qed

section \<open>Frames\<close>

text \<open>A step in the ID layer.\<close>

lemma held_clos [simp]: "held (s\<lparr>clos := cl\<rparr>) = held s"
proof -
  have "live_graph (s\<lparr>clos := cl\<rparr>) g = live_graph s g" for g by (induction g) auto
  then show ?thesis by (simp add: held_def E_def)
qed

lemma live_clos [simp]: "live_graph (s\<lparr>clos := cl\<rparr>) g = live_graph s g"
  by (induction g) auto

lemma E_clos [simp]: "E (s\<lparr>clos := cl\<rparr>) = E s"
  by (simp add: E_def fun_eq_iff)

lemma structure_ok_clos:
  "structure_ok s \<Longrightarrow> seqs (clos s) AGRAPH \<le> seqs cl AGRAPH \<Longrightarrow> structure_ok (s\<lparr>clos := cl\<rparr>)"
  by (rule frame_ok [of s]) (simp_all add: same_structure_def)

lemma root_ok_clos:
  "root_ok s \<Longrightarrow> seqs (clos s) AGNODE \<le> seqs cl AGNODE \<Longrightarrow> seqs (clos s) AGEDGE \<le> seqs cl AGEDGE \<Longrightarrow>
    root_ok (s\<lparr>clos := cl\<rparr>)"
  by (fastforce simp: root_ok_def)

lemma wf_clos:
  "wf s \<Longrightarrow> seqs cl = seqs (clos s) \<Longrightarrow> ids_ok cl (held s) \<Longrightarrow> wf (s\<lparr>clos := cl\<rparr>)"
  by (simp add: wf_def structure_ok_clos root_ok_clos)

lemma wf_same_ids: "wf s \<Longrightarrow> same_ids (clos s) cl \<Longrightarrow> wf (s\<lparr>clos := cl\<rparr>)"
  using same_ids_ok [of "clos s" cl "held s"]
  by (intro wf_clos) (simp_all add: same_ids_def wf_def)

text \<open>Hooks.\<close>

lemma hook_simps [simp]:
  "clos (hook h s) = clos s" "mainroot (hook h s) = mainroot s" "nodes (hook h s) = nodes s"
  "edges (hook h s) = edges s" "graphs (hook h s) = graphs s" "nnext (hook h s) = nnext s"
  "enext (hook h s) = enext s" "gnext (hook h s) = gnext s" "pick (hook h s) = pick s"
  by (simp_all add: hook_def)

lemma live_hook [simp]: "live_graph (hook h s) g = live_graph s g"
  by (induction g) auto

lemma E_hook [simp]: "E (hook h s) = E s"
  by (simp add: E_def fun_eq_iff)

lemma held_hook [simp]: "held (hook h s) = held s"
  by (simp add: held_def)

lemma structure_ok_hook [simp]: "structure_ok (hook h s) = structure_ok s"
proof
  assume "structure_ok (hook h s)"
  then show "structure_ok s" by (rule frame_ok) (simp add: same_structure_def)
next
  assume "structure_ok s"
  then show "structure_ok (hook h s)" by (rule frame_ok) (simp add: same_structure_def)
qed

lemma root_ok_hook [simp]: "root_ok (hook h s) = root_ok s"
  by (simp add: root_ok_def)

lemma wf_hook [simp]: "wf (hook h s) = wf s"
  by (simp add: wf_def)

lemma agsubrep_hook [simp]: "agsubrep (hook h s) = agsubrep s"
  by (simp add: agsubrep_def fun_eq_iff)

section \<open>Existing nodes\<close>

lemma held_cong:
  assumes "set (N s' []) = set (N s [])" and "E s' [] = E s []" and "\<And>g. live_graph s' g = live_graph s g"
    and "\<And>n. n \<in> set (N s []) \<Longrightarrow> AGID_n s' n = AGID_n s n"
    and "\<And>e. e \<in> E s [] \<Longrightarrow> eid (edges s' e) = eid (edges s e)"
    and "\<And>g. live_graph s g \<Longrightarrow> gid (graphs s' g) = gid (graphs s g)" and "structure_ok s"
  shows "held s' = held s"
proof -
  have "image_mset (AGID_n s') (mset_set (set (N s []))) = image_mset (AGID_n s) (mset_set (set (N s [])))"
    by (rule image_mset_cong) (simp add: assms(4))
  moreover have "image_mset (\<lambda>e. eid (edges s' e)) (mset_set (E s [])) =
      image_mset (\<lambda>e. eid (edges s e)) (mset_set (E s []))"
    by (rule image_mset_cong) (simp add: assms(5) finite_E)
  moreover have "image_mset (\<lambda>g. gid (graphs s' g)) (mset_set {g. live_graph s g}) =
      image_mset (\<lambda>g. gid (graphs s g)) (mset_set {g. live_graph s g})"
    by (rule image_mset_cong) (simp add: assms(6) finite_live [OF assms(7)])
  ultimately show ?thesis by (simp add: held_def assms(1-3))
qed

lemma wf_with_nodes:
  assumes wf: "wf s" and small: "small s" and l: "live_graph s g" and n: "n \<in> set (N s [])"
    and t: "\<forall>a\<in>missing s g n. table_for s n a (nsf a)"
  shows "wf (with_nodes s n (missing s g n) nsf)"
proof -
  let ?s = "with_nodes s n (missing s g n) nsf"
  have ok: "structure_ok s" using wf by (rule wf_structure)
  note en = can_enter_missing [OF ok n small l]
  have r: "[] \<notin> missing s g n" using n by (simp add: missing_def)
  have Nr: "N ?s [] = N s []" using r by (simp add: with_nodes_graph)
  have "held ?s = held s" using enter_nodes(2) [OF en] Nr ok by (intro held_cong) simp_all
  moreover have "root_ok ?s"
    using wf Nr enter_nodes(2) [OF en] by (simp add: wf_def root_ok_def)
  ultimately show ?thesis using wf with_nodes_ok [OF ok en t] by (simp add: wf_def)
qed

section \<open>New nodes\<close>

definition seq_room :: "world \<Rightarrow> objtype \<Rightarrow> bool" where
  "seq_room s ty \<longleftrightarrow> seqs (clos s) ty < SEQ_MASK"

lemma agnextseq_room:
  "seqs cl ty < SEQ_MASK \<Longrightarrow> agnextseq cl ty = (Suc (seqs cl ty), cl\<lparr>seqs := (seqs cl)(ty := Suc (seqs cl ty))\<rparr>)"
  by (simp add: agnextseq_def SEQ_MASK_def)

lemma ids_ok_seqs [simp]: "ids_ok (cl\<lparr>seqs := f\<rparr>) H = ids_ok cl H"
proof -
  have "entries (cl\<lparr>seqs := f\<rparr>) = entries cl" "imap_ok (cl\<lparr>seqs := f\<rparr>) = imap_ok cl"
    by (simp_all add: entries_def imap_ok_def fun_eq_iff)
  then show ?thesis by (simp add: ids_ok_def map_refs_def)
qed

lemma od_insert_last: "\<forall>y\<in>set xs. 0 < c y \<Longrightarrow> od_insert c x xs = xs @ [x]"
  using od_insert_missing [of xs c "[]" x] by simp

text \<open>What a new node \<open>n\<close> with ID \<open>i\<close>, made in graph \<open>g\<close>, leads to.\<close>

definition node_added :: "world \<Rightarrow> gref \<Rightarrow> nref \<Rightarrow> nat \<Rightarrow> world \<Rightarrow> bool" where
  "node_added s g n i s' \<longleftrightarrow> n \<notin> set (N s []) \<and> AGID_n s' n = i \<and>
     (\<forall>a. live_graph s a \<longrightarrow> N s' a = (if is_ancestor a g then N s a @ [n] else N s a) \<and> E s' a = E s a) \<and>
     (\<forall>a. live_graph s' a = live_graph s a) \<and> (\<forall>m. m \<noteq> n \<longrightarrow> nodes s' m = nodes s m) \<and> edges s' = edges s \<and> pick s' = pick s \<and>
     (\<forall>a. directed (graphs s' a) = directed (graphs s a) \<and> strict (graphs s' a) = strict (graphs s a) \<and>
        no_loop (graphs s' a) = no_loop (graphs s a)) \<and>
     clos s' = (clos s)\<lparr>seqs := (seqs (clos s))(AGNODE := Suc (seqs (clos s) AGNODE))\<rparr>"

lemma create_node_spec:
  assumes ok: "structure_ok s" and root: "root_ok s" and ids: "ids_ok (clos s) (add_mset i (held s))"
    and l: "live_graph s g" and small: "small s" and sq: "seq_room s AGNODE"
    and new: "i \<notin> AGID_n s ` set (N s [])"
  shows "\<exists>n s'. create_node s g i = Some (Some n, s') \<and> wf s' \<and> node_added s g n i s'"
proof -
  let ?q = "Suc (seqs (clos s) AGNODE)" and ?n = "nnext s"
  let ?cl = "(clos s)\<lparr>seqs := (seqs (clos s))(AGNODE := ?q)\<rparr>"
  have q: "?q \<le> SEQ_MASK" using sq by (simp add: seq_room_def)
  obtain s2 where nn: "newnode (s\<lparr>clos := ?cl\<rparr>) i ?q = Some (?n, s2)"
    and s2: "nodes s2 = (nodes s)(?n := \<lparr>nid = i, nseq = ?q, node_root = mainroot s\<rparr>)"
    "edges s2 = edges s" "clos s2 = ?cl" "gnext s2 = gnext s" "enext s2 = enext s" "nnext s2 = Suc ?n"
    "mainroot s2 = mainroot s" "pick s2 = pick s"
    "graphs s2 = (graphs s)([] := (graphs s [])\<lparr>subnodes := (sub_of s [])(?n := empty_subnode)\<rparr>)"
    using q by (simp add: newnode_def Let_def upd_subnode_def upd_graph_def)
  have n: "?n \<notin> set (N s [])" using root by (auto simp: root_ok_def)
  have fr: "same_structure s s2"
    unfolding same_structure_def s2 using n edge_in_root [OF ok] by (auto simp: same_graph_def)
  note live2 = frame_live [OF ok fr] and E2 = frame_E [OF ok fr] and N2 = frame_N [OF ok fr]
    and ok2 = frame_ok [OF ok fr]
  have nodes_in: "m \<noteq> ?n" "AGID_n s m \<noteq> i" "AGSEQ_n s m < ?q" if "live_graph s a" "m \<in> set (N s a)" for a m
    using node_in_root [OF ok that] n new root by (auto simp: root_ok_def less_Suc_eq_le)
  have fits2: "fits s2 a ?n" if "live_graph s a" for a
  proof -
    have "nodes_ok s2 a" using structure_okD(1) [OF ok2] live2 that by simp
    moreover have "length (N s a) < 2 ^ 56" using length_N [OF ok that] small by (simp add: small_def)
    ultimately show ?thesis
      unfolding fits_def N2 [OF that] using nodes_in(1,2) [OF that] nodes_in(3) [OF that]
      by (force simp: s2)
  qed
  then obtain nsf where inst: "installnodetoroot s2 g ?n = Some (with_nodes s2 ?n {a. is_ancestor a g} nsf)"
    and t: "\<forall>a. is_ancestor a g \<longrightarrow> table_for s2 ?n a (nsf a)"
    using installnodetoroot_fits [of g s2 ?n] live_ancestor [OF l] by blast
  let ?A = "{a. is_ancestor a g}"
  let ?s3 = "with_nodes s2 ?n ?A nsf"
  have en: "can_enter s2 ?n ?A"
    unfolding can_enter_def
  proof (intro conjI ballI allI impI)
    fix a assume "a \<in> ?A"
    then have la: "live_graph s a" using live_ancestor [OF l] by simp
    then show "live_graph s2 a" by (simp add: live2)
    show "fits s2 a ?n" using fits2 [OF la] .
    show "sub_of s2 [] ?n = empty_subnode" by (simp add: s2)
  next
    fix k p assume "k # p \<in> ?A"
    moreover have "is_ancestor (k # p) g \<Longrightarrow> is_ancestor p g" for g by (induction g) auto
    ultimately show "p \<in> ?A \<or> ?n \<in> set (N s2 p)" by simp
  qed
  have ok3: "structure_ok ?s3" using with_nodes_ok [OF ok2 en] t by simp
  have E3: "E ?s3 a = E s a" if "live_graph s a" for a
    using enter_nodes(2) [OF en] E2 [OF that] by simp
  have N3: "N ?s3 a = (if is_ancestor a g then N s a @ [?n] else N s a)" if "live_graph s a" for a
  proof -
    have "\<forall>y\<in>set (N s a). 0 < agsubnodeseqcmpf s2 ?n y"
      using nodes_in [OF that] by (simp add: agsubnodeseqcmpf_def s2)
    from od_insert_last [OF this] show ?thesis
      using N2 [OF that] by (simp add: with_nodes_graph)
  qed
  have root3: "root_ok ?s3"
    using root n unfolding root_ok_def N3 [of "[]", simplified] E3 [of "[]", simplified]
    by (auto simp: s2 less_Suc_eq le_Suc_eq)
  have "held ?s3 = add_mset i (held s)"
  proof -
    have i: "image_mset (AGID_n ?s3) (mset_set (set (N s []))) = image_mset (AGID_n s) (mset_set (set (N s [])))"
      by (rule image_mset_cong) (use n in \<open>auto simp: s2\<close>)
    have g: "gid (graphs s2 a) = gid (graphs s a)" for a by (simp add: s2)
    have "mset_set (set (N ?s3 [])) = add_mset ?n (mset_set (set (N s [])))"
      using n by (simp add: N3)
    with i show ?thesis
      by (simp add: held_def E3 live2 g s2(1,2))
  qed
  with ok3 root3 ids have wf3: "wf ?s3" by (simp add: wf_def s2)
  have rep: "agsubrep ?s3 g ?n = Some ?n"
    using subrep structure_okD(1) [OF ok3, of g] l N3 [OF l] by (simp add: live2)
  let ?s4 = "initnode ?s3 g ?n"
  have "create_node s g i = Some (Some ?n, hook (Register (ON ?n)) ?s4)"
    using sq nn inst rep
    by (simp add: create_node_def agnextseq_room seq_room_def initnode_def)
  moreover have "wf (hook (Register (ON ?n)) ?s4)" using wf3 by (simp add: initnode_def)
  moreover have "node_added s g ?n i (hook (Register (ON ?n)) ?s4)"
    unfolding node_added_def using n N3 E3 by (simp add: initnode_def live2 s2)
  ultimately show ?thesis by blast
qed

section \<open>\<open>agnode\<close>\<close>

text \<open>The outcomes of a lookup or creation of a node.\<close>

definition node_entered :: "world \<Rightarrow> gref \<Rightarrow> nref \<Rightarrow> world \<Rightarrow> bool" where
  "node_entered s g n s' \<longleftrightarrow> n \<in> set (N s []) \<and> nodes s' = nodes s \<and> edges s' = edges s \<and> pick s' = pick s \<and>
     (\<forall>a. directed (graphs s' a) = directed (graphs s a) \<and> strict (graphs s' a) = strict (graphs s a) \<and>
        no_loop (graphs s' a) = no_loop (graphs s a)) \<and>
     (\<forall>a. live_graph s' a = live_graph s a) \<and>
     (\<forall>a. live_graph s a \<longrightarrow> E s' a = E s a \<and>
        set (N s' a) = (if is_ancestor a g then insert n (set (N s a)) else set (N s a)))"

lemma agsubnode_enters:
  assumes wf: "wf s" and small: "small s" and l: "live_graph s g" and n: "n \<in> set (N s [])"
  shows "\<exists>s'. agsubnode s g n True = Some (Some n, s') \<and> wf s' \<and> node_entered s g n s' \<and> clos s' = clos s \<and>
    enext s' = enext s \<and> mainroot s' = mainroot s \<and> gnext s' = gnext s \<and> nnext s' = nnext s \<and>
    (\<forall>a. strict (graphs s' a) = strict (graphs s a) \<and> directed (graphs s' a) = directed (graphs s a)
       \<and> no_loop (graphs s' a) = no_loop (graphs s a))"
proof -
  have ok: "structure_ok s" using wf by (rule wf_structure)
  have r: "node_root (nodes s n) = mainroot s" using wf n by (simp add: wf_def root_ok_def)
  from agsubnode_spec [OF ok n r small l, of True] obtain nsf where
    t: "\<forall>a\<in>missing s g n. table_for s n a (nsf a)"
    and e: "agsubnode s g n True = Some (Some n,
        if n \<in> set (N s g) then s else with_nodes s n (missing s g n) nsf)" by auto
  let ?s = "with_nodes s n (missing s g n) nsf"
  have s': "agsubnode s g n True = Some (Some n, ?s)"
    using e missing_empty [OF ok l] by auto
  note en = can_enter_missing [OF ok n small l]
  have "node_entered s g n ?s"
    unfolding node_entered_def
    using n enter_nodes [OF en, of nsf] by (auto simp: missing_def)
  with s' wf_with_nodes [OF wf small l n t] show ?thesis by auto
qed

lemma agnode_spec:
  assumes wf: "wf s" and room: "ids_room (clos s)" and l: "live_graph s g" and small: "small s"
    and sq: "seq_room s AGNODE"
    and probe: "agmapnametoid (clos s) AGNODE name False = Some (r0, cl)"
  shows "\<exists>r s'. agnode s g name c = Some (r, s') \<and> wf s' \<and>
    (case r of
       None \<Rightarrow> \<not> c \<and> s' = s\<lparr>clos := cl\<rparr> \<and> (\<forall>n\<in>set (N s g). Some (AGID_n s n) \<noteq> r0)
     | Some n \<Rightarrow>
         (n \<in> set (N s g) \<and> r0 = Some (AGID_n s n) \<and> s' = s\<lparr>clos := cl\<rparr>) \<or>
         (c \<and> n \<notin> set (N s g) \<and> r0 = Some (AGID_n s n) \<and> node_entered s g n s' \<and> clos s' = cl) \<or>
         (c \<and> (\<forall>m\<in>set (N s []). Some (AGID_n s m) \<noteq> r0) \<and>
           (\<exists>i cl2. agmapnametoid cl AGNODE name True = Some (Some i, cl2) \<and>
             node_added (s\<lparr>clos := cl2\<rparr>) g n i s')))"
proof -
  have ok: "structure_ok s" and ids: "ids_ok (clos s) (held s)" and root: "root_ok s"
    using wf by (simp_all add: wf_def)
  from mapname_probe [OF ids, of AGNODE name] probe have same: "same_ids (clos s) cl" by auto
  let ?s = "s\<lparr>clos := cl\<rparr>"
  have wf1: "wf ?s" using wf_same_ids [OF wf same] .
  note okg = structure_okD(1) [OF ok l] and okr = structure_okD(1) [OF ok, of "[]", simplified]
  have find [simp]: "agfindnode_by_id ?s a = agfindnode_by_id s a" for a
    by (simp add: fun_eq_iff agfindnode_by_id_def)
  show ?thesis
  proof (cases "Option.bind r0 (agfindnode_by_id s g)")
    case (Some n)
    then obtain i where i: "r0 = Some i" "agfindnode_by_id s g i = Some n" by (cases r0) auto
    then have "n \<in> set (N s g) \<and> AGID_n s n = i" using find_by_id [OF okg] by simp
    moreover have "agnode s g name c = Some (Some n, ?s)"
      using probe Some by (simp add: agnode_def Let_def)
    ultimately show ?thesis using wf1 i by auto
  next
    case here: None
    have nhere: "\<forall>n\<in>set (N s g). Some (AGID_n s n) \<noteq> r0"
    proof (cases r0)
      case (Some i)
      with here have "agfindnode_by_id s g i = None" by simp
      with find_by_id_None [OF okg] Some show ?thesis by auto
    qed simp
    show ?thesis
    proof (cases c)
      case False
      with probe here have "agnode s g name c = Some (None, ?s)" by (simp add: agnode_def Let_def)
      with False wf1 nhere show ?thesis by auto
    next
      case c: True
      show ?thesis
      proof (cases "if g \<noteq> [] then Option.bind r0 (agfindnode_by_id s []) else None")
        case (Some n)
        then obtain i where i: "r0 = Some i" "agfindnode_by_id s [] i = Some n" "g \<noteq> []"
          by (cases r0) (auto split: if_splits)
        then have n: "n \<in> set (N s [])" "AGID_n s n = i" using find_by_id [OF okr] by simp_all
        from agsubnode_enters [OF wf1, of g n] small l n obtain s' where
          s': "agsubnode ?s g n True = Some (Some n, s')" "wf s'" "node_entered ?s g n s'" "clos s' = cl"
          by (auto simp: small_def)
        have ne: "node_entered s g n s'" using s'(3) by (simp add: node_entered_def)
        have "Option.bind r0 (agfindnode_by_id s []) = Some n" using i(1,2) by simp
        with i(3) have "agnode s g name c = Some (Some n, s')"
          using probe here c s'(1) by (simp add: agnode_def Let_def)
        with s'(2,4) ne n nhere c i show ?thesis by auto
      next
        case above: None
        have nroot: "\<forall>m\<in>set (N s []). Some (AGID_n s m) \<noteq> r0"
        proof (cases "g = []")
          case True
          with nhere show ?thesis by simp
        next
          case False
          show ?thesis
          proof (cases r0)
            case (Some i)
            with above False have "agfindnode_by_id s [] i = None" by simp
            with find_by_id_None [OF okr] Some show ?thesis by auto
          qed simp
        qed
        have ids1: "ids_ok cl (held s)" and room1: "ids_room cl"
          using same_ids_ok [OF same ids] same_ids_room [OF same room] .
        from mapname_create [OF ids1 room1, of AGNODE name] obtain i cl2 where
          i: "agmapnametoid cl AGNODE name True = Some (Some i, cl2)" "ids_ok cl2 (add_mset i (held s))"
          "seqs cl2 = seqs cl"
          "(\<exists>cl''. agmapnametoid cl AGNODE name False = Some (Some i, cl'')) \<or> i \<notin># held s" by blast
        have new: "i \<notin> AGID_n s ` set (N s [])"
        proof
          assume "i \<in> AGID_n s ` set (N s [])"
          then obtain m where m: "m \<in> set (N s [])" "AGID_n s m = i" by auto
          then have "i \<in># held s" by (auto simp: held_def)
          with i(4) obtain cl'' where "agmapnametoid cl AGNODE name False = Some (Some i, cl'')" by blast
          with mapname_same [OF ids same probe] nroot m show False by auto
        qed
        have sq': "seqs cl = seqs (clos s)" using same by (simp add: same_ids_def)
        have "structure_ok (s\<lparr>clos := cl2\<rparr>)" "root_ok (s\<lparr>clos := cl2\<rparr>)"
          using structure_ok_clos [OF ok] root_ok_clos [OF root] i(3) sq' by simp_all
        from create_node_spec [OF this, of i g] i(2,3) l small sq new sq' obtain n s' where
          s': "create_node (s\<lparr>clos := cl2\<rparr>) g i = Some (Some n, s')" "wf s'"
          "node_added (s\<lparr>clos := cl2\<rparr>) g n i s'" by (auto simp: small_def seq_room_def)
        have "agnode s g name c = Some (Some n, s')"
          using probe here above c i(1) s'(1) by (auto simp: agnode_def Let_def)
        with s' c nroot i(1) show ?thesis by auto
      qed
    qed
  qed
qed

end
