(* ===== verification/Agopen_Correct.thy ===== *)
theory Agopen_Correct
  imports Agnode_Correct
begin

text \<open>
  Opening a main graph establishes the invariant; on top of that the properties of the node
  operations: lookup after creation, the invariant, insertion into subgraphs.
\<close>

lemma held_empty:
  assumes "N s [] = []" and "E s [] = {}" and "\<And>g. live_graph s g \<longleftrightarrow> g = []"
  shows "held s = {#gid (graphs s [])#}"
  using assms by (simp add: held_def)

lemma no_subgraphs:
  assumes "g_seq (graphs s []) = []"
  shows "live_graph s g \<longleftrightarrow> g = []"
proof (induction g)
  case (Cons k p)
  with assms show ?case by (cases p) auto
qed simp

lemma agopen_spec:
  assumes m: "even_malloc m"
  shows "\<exists>s. agopen main m ch name desc = Some s \<and> wf s \<and> N s [] = [] \<and> E s [] = {} \<and>
    g_seq (graphs s []) = [] \<and> directed (graphs s []) = directed desc \<and>
    strict (graphs s []) = strict desc \<and> no_loop (graphs s []) = no_loop desc \<and>
    seqs (clos s) = (\<lambda>_. 0) \<and> (\<exists>i. agmapnametoid (clos_new m) AGRAPH name True = Some (Some i, clos s))"
proof -
  from mapname_create [OF ids_ok_new [OF m] ids_room_new, of AGRAPH name] obtain i cl where
    i: "agmapnametoid (clos_new m) AGRAPH name True = Some (Some i, cl)" "ids_ok cl {#i#}"
    "seqs cl = seqs (clos_new m)" by auto
  let ?o = "agopen main m ch name desc"
  have o: "?o \<noteq> None" using i(1) by (simp add: agopen_def agopen1_def agparent_def Let_def)
  then obtain s where s: "?o = Some s" by blast
  have g: "clos s = cl" "N s [] = []" "g_seq (graphs s []) = []" "g_id (graphs s []) = []"
    "n_id (graphs s []) = node_set_new" "gid (graphs s []) = i" "directed (graphs s []) = directed desc"
    "strict (graphs s []) = strict desc" "no_loop (graphs s []) = no_loop desc"
    using s i(1) by (auto simp: agopen_def agopen1_def agparent_def Let_def upd_graph_def empty_graph_def)
  have E: "E s [] = {}" using g(2) by (simp add: E_def)
  note live = no_subgraphs [OF g(3)]
  have "nodes_ok s []" "edges_ok s []" "subgraphs_ok s []"
    using g E by (simp_all add: nodes_ok_def edges_ok_def subgraphs_ok_def node_set_ok_new)
  then have "structure_ok s" by (simp add: structure_ok_def live)
  moreover have "root_ok s" using g(2) E by (simp add: root_ok_def)
  moreover have "ids_ok (clos s) (held s)" using i(2) g held_empty [OF g(2) E live] by simp
  ultimately show ?thesis using s g E i by (simp add: wf_def clos_new_def)
qed

text \<open>A graph without a name, for the witnesses: the pool is still empty.\<close>

lemma agopen_anonymous:
  "\<exists>s. agopen 0 bump_malloc ch None desc = Some s \<and> wf s \<and> N s [] = [] \<and> E s [] = {} \<and>
    g_seq (graphs s []) = [] \<and> directed (graphs s []) = directed desc \<and>
    strict (graphs s []) = strict desc \<and> no_loop (graphs s []) = no_loop desc \<and>
    seqs (clos s) = (\<lambda>_. 0) \<and> ids_room (clos s) \<and> small s \<and> clos s = (clos_new bump_malloc)\<lparr>counter := 1\<rparr>"
proof -
  from agopen_spec [OF bump_malloc_even, of 0 ch None desc] obtain s i where
    s: "agopen 0 bump_malloc ch None desc = Some s" "wf s" "N s [] = []" "E s [] = {}"
    "g_seq (graphs s []) = []" "directed (graphs s []) = directed desc"
    "strict (graphs s []) = strict desc" "no_loop (graphs s []) = no_loop desc" "seqs (clos s) = (\<lambda>_. 0)"
    "agmapnametoid (clos_new bump_malloc) AGRAPH None True = Some (Some i, clos s)" by blast
  from s(10) have c: "clos s = (clos_new bump_malloc)\<lparr>counter := 1\<rparr>"
    by (auto simp: agmapnametoid_def idmap_def clos_new_def)
  have "pool_room (strings (clos s))"
    using ids_room_new [of bump_malloc] c by (simp add: ids_room_def clos_new_def)
  then have "ids_room (clos s)" by (simp add: ids_room_def c)
  moreover have "small s" by (simp add: small_def s(3))
  ultimately show ?thesis using s(1-9) c by blast
qed

lemma seq_room_zero: "seqs (clos s) = (\<lambda>_. 0) \<Longrightarrow> seq_room s ty"
  by (simp add: seq_room_def SEQ_MASK_def)

section \<open>Properties\<close>

text \<open>
  Opening a main graph always succeeds and establishes the invariant of the whole library:
  an empty graph with the flags of its descriptor, whose ID is the only one in use.
\<close>
lemma agopen_establishes_wf:
  assumes "even_malloc m"
  shows "\<exists>s. agopen main m ch name desc = Some s \<and> wf s \<and> agfstnode s [] = None \<and> agfstsubg s [] = None \<and>
    agnnodes s [] = 0 \<and> agnsubg s [] = 0 \<and> directed (graphs s []) = directed desc \<and>
    strict (graphs s []) = strict desc \<and> no_loop (graphs s []) = no_loop desc"
proof -
  from agopen_spec [OF assms, of main ch name desc] obtain s where
    s: "agopen main m ch name desc = Some s" "wf s" "N s [] = []" "g_seq (graphs s []) = []"
    "directed (graphs s []) = directed desc" "strict (graphs s []) = strict desc"
    "no_loop (graphs s []) = no_loop desc" by blast
  have "nodes_ok s []" using structure_okD(1) [OF wf_structure [OF s(2)], of "[]"] by simp
  then have "nsize (n_id (graphs s [])) = 0"
    using s(3) nsize_card [of "AGID_n s" "n_id (graphs s [])"] by (simp add: nodes_ok_def)
  with s show ?thesis
    by (simp add: agfstnode_def agfstsubg_def agnnodes_def agnsubg_def node_set_size_def)
qed

text \<open>
  \<open>agnode\<close> keeps the invariant. It returns a node of the graph, and of all its ancestors, or
  none when it may not create one; it adds at most that node, to the graph and its ancestors
  only, and touches no edge and no subgraph list.
\<close>
lemma agnode_correct:
  assumes "wf s" and "ids_room (clos s)" and "live_graph s g" and "small s" and "seq_room s AGNODE"
  shows "\<exists>r s'. agnode s g name c = Some (r, s') \<and> wf s' \<and> (c \<longrightarrow> r \<noteq> None) \<and>
    (\<forall>a. live_graph s' a = live_graph s a) \<and> (\<forall>a. live_graph s a \<longrightarrow> E s' a = E s a) \<and>
    (\<forall>n. r = Some n \<longrightarrow> (\<forall>a. live_graph s a \<longrightarrow>
       set (N s' a) = (if is_ancestor a g then insert n (set (N s a)) else set (N s a)))) \<and>
    (r = None \<longrightarrow> graphs s' = graphs s)"
proof -
  have ok: "structure_ok s" and ids: "ids_ok (clos s) (held s)" using assms(1) by (simp_all add: wf_def)
  from mapname_probe [OF ids, of AGNODE name] obtain r0 cl where
    p: "agmapnametoid (clos s) AGNODE name False = Some (r0, cl)" by blast
  from agnode_spec [OF assms p, of c] obtain r s' where rs: "agnode s g name c = Some (r, s')" "wf s'"
    and out: "case r of
       None \<Rightarrow> \<not> c \<and> s' = s\<lparr>clos := cl\<rparr> \<and> (\<forall>n\<in>set (N s g). Some (AGID_n s n) \<noteq> r0)
     | Some n \<Rightarrow>
         (n \<in> set (N s g) \<and> r0 = Some (AGID_n s n) \<and> s' = s\<lparr>clos := cl\<rparr>) \<or>
         (c \<and> n \<notin> set (N s g) \<and> r0 = Some (AGID_n s n) \<and> node_entered s g n s' \<and> clos s' = cl) \<or>
         (c \<and> (\<forall>m\<in>set (N s []). Some (AGID_n s m) \<noteq> r0) \<and>
           (\<exists>i cl2. agmapnametoid cl AGNODE name True = Some (Some i, cl2) \<and>
             node_added (s\<lparr>clos := cl2\<rparr>) g n i s'))" by blast
  have none: "r = None \<Longrightarrow> \<not> c \<and> s' = s\<lparr>clos := cl\<rparr>" using out by simp
  have some: "(\<forall>a. live_graph s' a = live_graph s a) \<and> (\<forall>a. live_graph s a \<longrightarrow> E s' a = E s a \<and>
       set (N s' a) = (if is_ancestor a g then insert n (set (N s a)) else set (N s a)))" if r: "r = Some n" for n
  proof -
    from out r consider "n \<in> set (N s g)" "s' = s\<lparr>clos := cl\<rparr>" | "node_entered s g n s'"
      | i cl2 where "node_added (s\<lparr>clos := cl2\<rparr>) g n i s'" by auto
    then show ?thesis
    proof cases
      case 1
      then have "n \<in> set (N s a)" if "is_ancestor a g" for a
        using ancestor_sub [OF ok assms(3) that] by auto
      with 1 show ?thesis by auto
    qed (auto simp: node_entered_def node_added_def)
  qed
  show ?thesis
  proof (intro exI conjI)
    show "agnode s g name c = Some (r, s')" "wf s'" using rs by simp_all
    show "c \<longrightarrow> r \<noteq> None" "r = None \<longrightarrow> graphs s' = graphs s" using none by auto
    show "\<forall>a. live_graph s' a = live_graph s a" "\<forall>a. live_graph s a \<longrightarrow> E s' a = E s a"
      using some none by (cases r; simp)+
    show "\<forall>n. r = Some n \<longrightarrow> (\<forall>a. live_graph s a \<longrightarrow>
       set (N s' a) = (if is_ancestor a g then insert n (set (N s a)) else set (N s a)))"
      using some by blast
  qed
qed

text \<open>
  A node is found again under the name it was created or found with, in the graph and in
  every ancestor, without anything being created.
\<close>
lemma agnode_roundtrip:
  assumes "wf s" and "ids_room (clos s)" and "live_graph s g" and "small s" and "seq_room s AGNODE"
    and "\<not> is_local (snd nm)" and "agnode s g (Some nm) True = Some (Some n, s')" and "is_ancestor a g"
  shows "agnode s' a (Some nm) c = Some (Some n, s')"
proof -
  have ok: "structure_ok s" and ids: "ids_ok (clos s) (held s)" using assms(1) by (simp_all add: wf_def)
  let ?i = "case agstrbind (strings (clos s)) nm of None \<Rightarrow> 0 | Some b \<Rightarrow> b"
  have p: "agmapnametoid (clos s) AGNODE (Some nm) False = Some (Some ?i, clos s)"
    using assms(6) idmap_lookup [OF ids] by (simp add: agmapnametoid_def)
  from agnode_spec [OF assms(1-5) p, of True] assms(7) have wf': "wf s'" and
    out: "(n \<in> set (N s g) \<and> ?i = AGID_n s n \<and> s' = s) \<or>
         (?i = AGID_n s n \<and> node_entered s g n s' \<and> clos s' = clos s) \<or>
         (\<exists>i cl2. agmapnametoid (clos s) AGNODE (Some nm) True = Some (Some i, cl2) \<and>
             node_added (s\<lparr>clos := cl2\<rparr>) g n i s')" by auto
  have la: "live_graph s a" using live_ancestor [OF assms(3,8)] .
  have "n \<in> set (N s' a) \<and> live_graph s' a \<and>
    agmapnametoid (clos s') AGNODE (Some nm) False = Some (Some (AGID_n s' n), clos s')"
    using out
  proof (elim disjE)
    assume "n \<in> set (N s g) \<and> ?i = AGID_n s n \<and> s' = s"
    with p la ancestor_sub [OF ok assms(3,8)] show ?thesis by auto
  next
    assume "?i = AGID_n s n \<and> node_entered s g n s' \<and> clos s' = clos s"
    with p la assms(8) show ?thesis by (simp add: node_entered_def)
  next
    assume "\<exists>i cl2. agmapnametoid (clos s) AGNODE (Some nm) True = Some (Some i, cl2) \<and>
             node_added (s\<lparr>clos := cl2\<rparr>) g n i s'"
    then obtain i cl2 where i: "agmapnametoid (clos s) AGNODE (Some nm) True = Some (Some i, cl2)"
      "node_added (s\<lparr>clos := cl2\<rparr>) g n i s'" by blast
    from mapname_seqs [OF assms(6) mapname_roundtrip [OF ids assms(2,6) i(1), of AGNODE]] i(2) la assms(8)
    show ?thesis by (simp add: node_added_def)
  qed
  moreover from this have "agfindnode_by_id s' a (AGID_n s' n) = Some n"
    using find_by_id structure_okD(1) [OF wf_structure [OF wf']] by blast
  ultimately show ?thesis by (simp add: agnode_def)
qed

end
