(* ===== verification/Agedge_Correct.thy ===== *)
theory Agedge_Correct
  imports Agnode_Correct
begin

text \<open>
  Edges: entering an edge into a set of graphs closed upwards keeps the invariant; what
  \<open>installedge\<close>, \<open>newedge\<close> and \<open>agedge\<close> do to the graph.
\<close>

section \<open>One graph\<close>

definition add_out :: "world \<Rightarrow> eref \<Rightarrow> subnode \<Rightarrow> subnode" where
  "add_out s e sn = sn\<lparr>out_seq := ins_seq s (e, OUT) (out_seq sn), out_id := ins_id s (e, OUT) (out_id sn)\<rparr>"

definition add_in :: "world \<Rightarrow> eref \<Rightarrow> subnode \<Rightarrow> subnode" where
  "add_in s e sn = sn\<lparr>in_seq := ins_seq s (e, IN) (in_seq sn), in_id := ins_id s (e, IN) (in_id sn)\<rparr>"

definition joined :: "world \<Rightarrow> eref \<Rightarrow> nref \<Rightarrow> subnode \<Rightarrow> subnode" where
  "joined s e n sn =
    (let sn1 = (if n = etail (edges s e) then add_out s e sn else sn)
     in if n = ehead (edges s e) then add_in s e sn1 else sn1)"

text \<open>Numbers that no edge between the same nodes has yet.\<close>

definition new_keys :: "world \<Rightarrow> eref set \<Rightarrow> eref \<Rightarrow> bool" where
  "new_keys s es e \<longleftrightarrow> (\<forall>f\<in>es. etail (edges s f) = etail (edges s e) \<longrightarrow> ehead (edges s f) = ehead (edges s e) \<longrightarrow>
     eid (edges s f) \<noteq> eid (edges s e) \<and> eseq (edges s f) \<noteq> eseq (edges s e))"

text \<open>On the nodes of a graph the sequence comparator is a comparison of keys.\<close>

definition keyed :: "world \<Rightarrow> nref set \<Rightarrow> bool" where
  "keyed s ns \<longleftrightarrow> inj_on (AGID_n s) ns \<and> inj_on (AGSEQ_n s) ns"

lemma nodes_keyed: "nodes_ok s g \<Longrightarrow> keyed s (set (N s g))"
  using id_unique [of s g] seq_unique [of s g] unfolding keyed_def inj_on_def by metis

lemma od_insert_cong: "(\<And>x. x \<in> set xs \<Longrightarrow> c x = d x) \<Longrightarrow> od_insert c obj xs = od_insert d obj xs"
  by (induction xs) auto

lemma od_find_cong: "(\<And>x. x \<in> set xs \<Longrightarrow> c x = d x) \<Longrightarrow> od_find c xs = od_find d xs"
  unfolding od_find_def by (induction xs) auto

lemma od_delete_cong: "(\<And>x. x \<in> set xs \<Longrightarrow> c x = d x) \<Longrightarrow> od_delete c xs = od_delete d xs"
  by (induction xs) auto

lemma ins_seq_key:
  assumes "keyed s ns" and "enode s e \<in> ns" and "\<And>f. f \<in> set es \<Longrightarrow> enode s f \<in> ns"
  shows "ins_seq s e es = od_insert (\<lambda>f. lexcmp (seq_key s e) (seq_key s f)) e es"
  unfolding ins_seq_def
  by (rule od_insert_cong, rule seqcmp_key) (use assms in \<open>auto simp: keyed_def inj_on_def\<close>)

lemma ins_id_key: "ins_id s e es = od_insert (\<lambda>f. lexcmp (id_key s e) (id_key s f)) e es"
  unfolding ins_id_def by (rule od_insert_cong) (simp add: idcmp_key)

lemma insert_by_key:
  fixes k :: "'b \<Rightarrow> nat \<times> nat"
  assumes "ordered (\<lambda>e f. lexcmp (k e) (k f)) es" and "\<forall>f\<in>set es. k f \<noteq> k e"
  shows "ordered (\<lambda>e f. lexcmp (k e) (k f)) (od_insert (\<lambda>f. lexcmp (k e) (k f)) e es) \<and>
    set (od_insert (\<lambda>f. lexcmp (k e) (k f)) e es) = insert e (set es)"
proof -
  have "od_find (\<lambda>f. lexcmp (k e) (k f)) es = None"
    unfolding od_find_def by (rule find_None_all) (use assms(2) in auto)
  from od_find_od_insert_missing [OF this] by_lex.ordered_od_insert [OF assms(1), of e] show ?thesis by simp
qed

lemma joined_lists_ok:
  assumes ok: "lists_ok s es n x" and e: "e \<notin> es" and new: "new_keys s es e"
    and k: "keyed s ns" and ends: "etail (edges s e) \<in> ns" "ehead (edges s e) \<in> ns"
    and es: "\<forall>f\<in>es. etail (edges s f) \<in> ns \<and> ehead (edges s f) \<in> ns"
  shows "lists_ok s (insert e es) n (joined s e n x)"
proof -
  let ?t = "etail (edges s e)" and ?h = "ehead (edges s e)"
  have key: "seq_key s (f, d) \<noteq> seq_key s (e, d)" "id_key s (f, d) \<noteq> id_key s (e, d)"
    if f: "f \<in> es" and same: "enode s (f, d) = enode s (e, d) \<Longrightarrow> etail (edges s f) = ?t \<and> ehead (edges s f) = ?h" for f d
  proof -
    have n: "enode s (f, d) \<in> ns" "enode s (e, d) \<in> ns" using es f ends by (auto simp: enode_def)
    show "seq_key s (f, d) \<noteq> seq_key s (e, d)" "id_key s (f, d) \<noteq> id_key s (e, d)"
      using n k new f same by (auto simp: seq_key_def id_key_def keyed_def inj_on_def new_keys_def)
  qed
  have out: "lists_ok s es n x \<Longrightarrow> n = ?t \<Longrightarrow>
      set (out_seq (add_out s e x)) = insert (e, OUT) (set (out_seq x)) \<and>
      set (out_id (add_out s e x)) = insert (e, OUT) (set (out_id x)) \<and>
      ordered (\<lambda>e f. lexcmp (seq_key s e) (seq_key s f)) (out_seq (add_out s e x)) \<and>
      ordered (\<lambda>e f. lexcmp (id_key s e) (id_key s f)) (out_id (add_out s e x))" for x
  proof -
    assume l: "lists_ok s es n x" and n: "n = ?t"
    then have sets: "set (out_seq x) = {(f, OUT) |f. f \<in> es \<and> etail (edges s f) = ?t}"
      "set (out_id x) = {(f, OUT) |f. f \<in> es \<and> etail (edges s f) = ?t}"
      and ord: "ordered (\<lambda>e f. lexcmp (seq_key s e) (seq_key s f)) (out_seq x)"
      "ordered (\<lambda>e f. lexcmp (id_key s e) (id_key s f)) (out_id x)" by (simp_all add: lists_ok_def)
    have "\<forall>f\<in>set (out_seq x). seq_key s f \<noteq> seq_key s (e, OUT)" "\<forall>f\<in>set (out_id x). id_key s f \<noteq> id_key s (e, OUT)"
      unfolding sets using key [of _ OUT] by (auto simp: enode_def)
    note i = insert_by_key [OF ord(1) this(1)] insert_by_key [OF ord(2) this(2)]
    have "ins_seq s (e, OUT) (out_seq x) = od_insert (\<lambda>f. lexcmp (seq_key s (e, OUT)) (seq_key s f)) (e, OUT) (out_seq x)"
      by (rule ins_seq_key [OF k]) (use sets es ends in \<open>auto simp: enode_def\<close>)
    then show ?thesis using i by (simp add: add_out_def ins_id_key)
  qed
  have inn: "lists_ok s es n x \<Longrightarrow> n = ?h \<Longrightarrow>
      set (in_seq (add_in s e x)) = insert (e, IN) (set (in_seq x)) \<and>
      set (in_id (add_in s e x)) = insert (e, IN) (set (in_id x)) \<and>
      ordered (\<lambda>e f. lexcmp (seq_key s e) (seq_key s f)) (in_seq (add_in s e x)) \<and>
      ordered (\<lambda>e f. lexcmp (id_key s e) (id_key s f)) (in_id (add_in s e x))" for x
  proof -
    assume l: "lists_ok s es n x" and n: "n = ?h"
    then have sets: "set (in_seq x) = {(f, IN) |f. f \<in> es \<and> ehead (edges s f) = ?h}"
      "set (in_id x) = {(f, IN) |f. f \<in> es \<and> ehead (edges s f) = ?h}"
      and ord: "ordered (\<lambda>e f. lexcmp (seq_key s e) (seq_key s f)) (in_seq x)"
      "ordered (\<lambda>e f. lexcmp (id_key s e) (id_key s f)) (in_id x)" by (simp_all add: lists_ok_def)
    have "\<forall>f\<in>set (in_seq x). seq_key s f \<noteq> seq_key s (e, IN)" "\<forall>f\<in>set (in_id x). id_key s f \<noteq> id_key s (e, IN)"
      unfolding sets using key [of _ IN] by (auto simp: enode_def)
    note i = insert_by_key [OF ord(1) this(1)] insert_by_key [OF ord(2) this(2)]
    have "ins_seq s (e, IN) (in_seq x) = od_insert (\<lambda>f. lexcmp (seq_key s (e, IN)) (seq_key s f)) (e, IN) (in_seq x)"
      by (rule ins_seq_key [OF k]) (use sets es ends in \<open>auto simp: enode_def\<close>)
    then show ?thesis using i by (simp add: add_in_def ins_id_key)
  qed
  have fields: "in_seq (add_out s e x) = in_seq x" "in_id (add_out s e x) = in_id x"
    "out_seq (add_in s e x) = out_seq x" "out_id (add_in s e x) = out_id x"
    "add_in s e (add_out s e x) = x\<lparr>out_seq := out_seq (add_out s e x), out_id := out_id (add_out s e x),
      in_seq := in_seq (add_in s e x), in_id := in_id (add_in s e x)\<rparr>" for x
    by (simp_all add: add_out_def add_in_def)
  have ins: "{(f, d) |f. f \<in> insert e es \<and> P f} = (if P e then insert (e, d) else id) {(f, d) |f. f \<in> es \<and> P f}"
    for P and d :: dir by auto
  show ?thesis
    using ok out [OF ok] inn [OF ok]
    unfolding lists_ok_def joined_def Let_def ins
    by (cases "n = ?t"; cases "n = ?h") (simp_all add: fields)
qed

section \<open>Lookup\<close>

lemma E_from_lists:
  assumes "\<forall>n\<in>set (N s g). lists_ok s es n (sub_of s g n)" and "\<forall>e\<in>es. etail (edges s e) \<in> set (N s g)"
  shows "E s g = es"
proof -
  have "(e, OUT) \<in> set (out_seq (sub_of s g n)) \<longleftrightarrow> e \<in> es \<and> etail (edges s e) = n" if "n \<in> set (N s g)" for e n
    using assms(1) that by (auto simp: lists_ok_def)
  with assms(2) show ?thesis by (auto simp: E_def)
qed

lemma filter_key:
  fixes k :: "'b \<Rightarrow> nat \<times> nat"
  assumes "ordered (\<lambda>e f. lexcmp (k e) (k f)) es"
  shows "filter (\<lambda>f. lexcmp v (k f) = 0) es = [] \<or> (\<exists>f. filter (\<lambda>f. lexcmp v (k f) = 0) es = [f])"
  using assms
proof (induction es)
  case (Cons x es)
  then have "ordered (\<lambda>e f. lexcmp (k e) (k f)) es" and x: "\<forall>y\<in>set es. lexcmp (k x) (k y) < 0"
    by (simp_all add: ordered_Cons)
  have "filter (\<lambda>f. lexcmp v (k f) = 0) es = []" if "v = k x"
    using x that by (auto simp: filter_empty_conv)
  with Cons show ?case by (simp add: ordered_Cons)
qed simp

lemma search_id_key:
  assumes "ordered (\<lambda>e f. lexcmp (id_key s e) (id_key s f)) es"
  shows "search_id s (t, Some i) es = Some f \<longleftrightarrow> f \<in> set es \<and> id_key s f = (AGID_n s t, i)"
proof -
  have c: "(\<lambda>e. agedgeidcmpf s (t, Some i) e = 0) = (\<lambda>e. lexcmp (AGID_n s t, i) (id_key s e) = 0)"
    by (simp add: fun_eq_iff idcmp_template)
  from filter_key [OF assms, of "(AGID_n s t, i)"] show ?thesis
  proof (elim disjE exE)
    assume n: "filter (\<lambda>f. lexcmp (AGID_n s t, i) (id_key s f) = 0) es = []"
    then have "\<forall>f\<in>set es. (AGID_n s t, i) \<noteq> id_key s f" by (simp add: filter_empty_conv)
    with n show ?thesis unfolding search_id_def c by auto
  next
    fix x assume n: "filter (\<lambda>f. lexcmp (AGID_n s t, i) (id_key s f) = 0) es = [x]"
    then have "{f \<in> set es. lexcmp (AGID_n s t, i) (id_key s f) = 0} = {x}"
      by (metis empty_set list.simps(15) set_filter)
    then have "f \<in> {f \<in> set es. lexcmp (AGID_n s t, i) (id_key s f) = 0} \<longleftrightarrow> x = f" by auto
    then have "x = f \<longleftrightarrow> f \<in> set es \<and> id_key s f = (AGID_n s t, i)"
      unfolding mem_Collect_eq lexcmp_simps eq_commute [of "(AGID_n s t, i)"] by (rule sym)
    then show ?thesis unfolding search_id_def c n by simp
  qed
qed

lemma in_list:
  assumes "edges_ok s g" and "h \<in> set (N s g)"
  shows "(f, d) \<in> set (in_id (sub_of s g h)) \<longleftrightarrow> f \<in> E s g \<and> d = IN \<and> ehead (edges s f) = h"
    and "(f, d) \<in> set (in_seq (sub_of s g h)) \<longleftrightarrow> f \<in> E s g \<and> d = IN \<and> ehead (edges s f) = h"
    and "(f, d) \<in> set (out_id (sub_of s g h)) \<longleftrightarrow> f \<in> E s g \<and> d = OUT \<and> etail (edges s f) = h"
    and "(f, d) \<in> set (out_seq (sub_of s g h)) \<longleftrightarrow> f \<in> E s g \<and> d = OUT \<and> etail (edges s f) = h"
  using assms by (auto simp: edges_ok_def lists_ok_def)

lemma find_edge:
  assumes n: "nodes_ok s g" and e: "edges_ok s g" and h: "h \<in> set (N s g)"
    and t: "keyed s (insert t (set (N s g)))"
  shows "agfindedge_by_key s g t h (Some i) = Some f \<longleftrightarrow>
    fst f \<in> E s g \<and> snd f = IN \<and> etail (edges s (fst f)) = t \<and> ehead (edges s (fst f)) = h \<and> eid (edges s (fst f)) = i"
proof -
  have o: "ordered (\<lambda>e f. lexcmp (id_key s e) (id_key s f)) (in_id (sub_of s g h))"
    using e h by (auto simp: edges_ok_def lists_ok_def)
  obtain x d where f: "f = (x, d)" by (cases f)
  have "AGID_n s (etail (edges s x)) = AGID_n s t \<longleftrightarrow> etail (edges s x) = t" if "x \<in> E s g"
    using t e that by (auto simp: keyed_def inj_on_def edges_ok_def)
  then show ?thesis
    using in_list(1) [OF e h, of x d] subrep [OF n h] search_id_key [OF o, of t i f]
    by (auto simp: agfindedge_by_key_def f id_key_def enode_def)
qed

lemma find_edge_None:
  assumes n: "nodes_ok s g" and e: "edges_ok s g" and h: "h \<in> set (N s g)"
    and t: "keyed s (insert t (set (N s g)))"
  shows "agfindedge_by_key s g t h (Some i) = None \<longleftrightarrow>
    (\<forall>f\<in>E s g. \<not> (etail (edges s f) = t \<and> ehead (edges s f) = h \<and> eid (edges s f) = i))"
proof -
  have "agfindedge_by_key s g t h (Some i) = None \<longleftrightarrow> (\<forall>f. agfindedge_by_key s g t h (Some i) \<noteq> Some f)"
    by (metis option.exhaust option.distinct(1))
  also have "\<dots> \<longleftrightarrow> (\<forall>f\<in>E s g. \<not> (etail (edges s f) = t \<and> ehead (edges s f) = h \<and> eid (edges s f) = i))"
    unfolding find_edge [OF assms] by auto
  finally show ?thesis .
qed

section \<open>A set of graphs\<close>

definition with_edges :: "world \<Rightarrow> eref \<Rightarrow> gref set \<Rightarrow> world" where
  "with_edges s e A =
    s\<lparr>graphs := (\<lambda>g. if g \<in> A then (graphs s g)\<lparr>subnodes := (\<lambda>n. joined s e n (sub_of s g n))\<rparr> else graphs s g)\<rparr>"

lemma with_edges_simps [simp]:
  "nodes (with_edges s e A) = nodes s" "edges (with_edges s e A) = edges s"
  "clos (with_edges s e A) = clos s" "mainroot (with_edges s e A) = mainroot s"
  "nnext (with_edges s e A) = nnext s" "enext (with_edges s e A) = enext s"
  "gnext (with_edges s e A) = gnext s" "pick (with_edges s e A) = pick s"
  "hooks (with_edges s e A) = hooks s"
  by (simp_all add: with_edges_def)

lemma with_edges_graph: "graphs (with_edges s e A) g =
    (if g \<in> A then (graphs s g)\<lparr>subnodes := (\<lambda>n. joined s e n (sub_of s g n))\<rparr> else graphs s g)"
  by (simp add: with_edges_def)

lemma with_edges_same [simp]:
  "gid (graphs (with_edges s e A) g) = gid (graphs s g)"
  "gseq (graphs (with_edges s e A) g) = gseq (graphs s g)"
  "directed (graphs (with_edges s e A) g) = directed (graphs s g)"
  "strict (graphs (with_edges s e A) g) = strict (graphs s g)"
  "no_loop (graphs (with_edges s e A) g) = no_loop (graphs s g)"
  "has_attrs (graphs (with_edges s e A) g) = has_attrs (graphs s g)"
  "n_seq (graphs (with_edges s e A) g) = n_seq (graphs s g)"
  "n_id (graphs (with_edges s e A) g) = n_id (graphs s g)"
  "g_seq (graphs (with_edges s e A) g) = g_seq (graphs s g)"
  "g_id (graphs (with_edges s e A) g) = g_id (graphs s g)"
  by (simp_all add: with_edges_graph)

lemma with_edges_other: "g \<notin> A \<Longrightarrow> graphs (with_edges s e A) g = graphs s g"
  by (simp add: with_edges_graph)

lemma with_edges_empty [simp]: "with_edges s e {} = s"
  by (simp add: with_edges_def)

lemma with_edges_live [simp]: "live_graph (with_edges s e A) g = live_graph s g"
  by (induction g) auto

lemma with_edges_keys [simp]:
  "agsubnodeseqcmpf (with_edges s e A) = agsubnodeseqcmpf s"
  "seq_key (with_edges s e A) = seq_key s" "id_key (with_edges s e A) = id_key s"
  "agraphseqcmpf (with_edges s e A) = agraphseqcmpf s"
  "agedgeseqcmpf (with_edges s e A) = agedgeseqcmpf s" "agedgeidcmpf (with_edges s e A) = agedgeidcmpf s"
  "new_keys (with_edges s e A) = new_keys s" "keyed (with_edges s e A) = keyed s"
  by (simp_all add: fun_eq_iff agsubnodeseqcmpf_def seq_key_def id_key_def enode_def agraphseqcmpf_def
      agedgeseqcmpf_def agedgeidcmpf_def Let_def new_keys_def keyed_def split: option.splits)

lemma with_edges_joined [simp]: "joined (with_edges s e A) = joined s"
  by (simp add: fun_eq_iff joined_def add_out_def add_in_def ins_seq_def ins_id_def enode_def)

lemma with_edges_lists [simp]: "lists_ok (with_edges s e A) = lists_ok s"
  by (simp add: fun_eq_iff lists_ok_def)

text \<open>A graph that has the edge, or that it can join.\<close>

definition joinable :: "world \<Rightarrow> eref \<Rightarrow> gref \<Rightarrow> bool" where
  "joinable s e g \<longleftrightarrow> nodes_ok s g \<and> edges_ok s g \<and> etail (edges s e) \<in> set (N s g) \<and>
     ehead (edges s e) \<in> set (N s g) \<and> (e \<notin> E s g \<longrightarrow> new_keys s (E s g) e)"

lemma joined_lists:
  assumes "joinable s e g" and "e \<notin> E s g" and "n \<in> set (N s g)"
  shows "lists_ok s (insert e (E s g)) n (joined s e n (sub_of s g n))"
  by (rule joined_lists_ok [OF _ assms(2) _ nodes_keyed])
    (use assms in \<open>auto simp: joinable_def edges_ok_def\<close>)

lemma with_edges_E:
  assumes "\<forall>g\<in>A. joinable s e g \<and> e \<notin> E s g"
  shows "E (with_edges s e A) g = (if g \<in> A then insert e (E s g) else E s g)"
proof (cases "g \<in> A")
  case True
  then have j: "joinable s e g" "e \<notin> E s g" using assms by auto
  have "E (with_edges s e A) g = insert e (E s g)"
    by (rule E_from_lists)
      (use joined_lists [OF j] j in \<open>auto simp: with_edges_graph True joinable_def edges_ok_def\<close>)
  with True show ?thesis by simp
qed (simp add: E_def with_edges_graph)

lemma with_edges_ok:
  assumes ok: "structure_ok s" and j: "\<forall>g\<in>A. joinable s e g \<and> e \<notin> E s g"
    and up: "\<forall>k p. k # p \<in> A \<longrightarrow> p \<in> A \<or> e \<in> E s p"
  shows "structure_ok (with_edges s e A)"
  unfolding structure_ok_def
proof (intro allI impI conjI)
  let ?s = "with_edges s e A"
  note E = with_edges_E [OF j]
  fix g assume "live_graph ?s g"
  then have l: "live_graph s g" by simp
  note okg = structure_okD [OF ok l]
  show "nodes_ok ?s g" using okg(1) by (simp add: nodes_ok_def)
  show "edges_ok ?s g"
  proof (cases "g \<in> A")
    case True
    then have jg: "joinable s e g" "e \<notin> E s g" using j by auto
    show ?thesis using joined_lists [OF jg] jg True
      by (simp add: edges_ok_def E with_edges_graph joinable_def)
  next
    case False
    with okg(2) show ?thesis by (simp add: edges_ok_def E with_edges_other)
  qed
  show "subgraphs_ok ?s g"
    unfolding subgraphs_ok_def
  proof (intro conjI ballI)
    show "ordered (agraphseqcmpf ?s) (g_seq (graphs ?s g))"
      and "ordered (\<lambda>a b. cmp_nat (gid (graphs ?s a)) (gid (graphs ?s b))) (g_id (graphs ?s g))"
      and "set (g_id (graphs ?s g)) = set (g_seq (graphs ?s g))"
      using okg(3) by (simp_all add: subgraphs_ok_def)
    fix c assume "c \<in> set (g_seq (graphs ?s g))"
    then have "c \<in> set (g_seq (graphs s g))" by simp
    from subgraph_child [OF okg(3) this] obtain k where c: "c = k # g" "k < gnext s" "\<forall>j\<in>set g. j < k"
        "gseq (graphs s c) \<le> seqs (clos s) AGRAPH" "set (N s c) \<subseteq> set (N s g)" "E s c \<subseteq> E s g"
        "directed (graphs s c) = directed (graphs s g)" "strict (graphs s c) = strict (graphs s g)"
        "no_loop (graphs s c) = no_loop (graphs s g)" .
    have "E ?s c \<subseteq> E ?s g" using up c(1,6) by (auto simp: E)
    with c show "\<exists>k. c = k # g \<and> k < gnext ?s \<and> (\<forall>j\<in>set g. j < k) \<and>
        gseq (graphs ?s c) \<le> seqs (clos ?s) AGRAPH \<and> set (N ?s c) \<subseteq> set (N ?s g) \<and> E ?s c \<subseteq> E ?s g \<and>
        directed (graphs ?s c) = directed (graphs ?s g) \<and> strict (graphs ?s c) = strict (graphs ?s g) \<and>
        no_loop (graphs ?s c) = no_loop (graphs ?s g)"
      by (intro exI [of _ k]) simp
  qed
qed

section \<open>Insertion up to the main graph\<close>

lemma with_edges_compose:
  assumes "A \<inter> B = {}"
  shows "with_edges (with_edges s e A) e B = with_edges s e (A \<union> B)"
proof -
  have "graphs (with_edges (with_edges s e A) e B) = graphs (with_edges s e (A \<union> B))"
    using assms by (auto simp: fun_eq_iff with_edges_graph)
  then show ?thesis by (simp add: with_edges_def)
qed

lemma joinable_other: "g \<notin> A \<Longrightarrow> joinable (with_edges s e A) f g = joinable s f g"
  by (simp add: joinable_def nodes_ok_def edges_ok_def E_def with_edges_other)

lemma E_other: "g \<notin> A \<Longrightarrow> E (with_edges s e A) g = E s g"
  by (simp add: E_def with_edges_other)

lemma install_here_joinable:
  assumes "joinable s e g"
  shows "install_here s g (e, d) = Some (with_edges s e {g})"
proof -
  have "agsubrep s g (etail (edges s e)) = Some (etail (edges s e))"
    "agsubrep s g (ehead (edges s e)) = Some (ehead (edges s e))"
    using assms subrep by (auto simp: joinable_def)
  then show ?thesis
    by (simp add: install_here_def upd_subnode_def upd_graph_def with_edges_def joined_def Let_def add_out_def
        add_in_def AGMKIN_def AGMKOUT_def fun_eq_iff)
qed

lemma find_own:
  assumes "joinable s e g"
  shows "agfindedge_by_key s g (etail (edges s e)) (ehead (edges s e)) (Some (eid (edges s e))) = None \<longleftrightarrow> e \<notin> E s g"
proof -
  have j: "nodes_ok s g" "edges_ok s g" "etail (edges s e) \<in> set (N s g)" "ehead (edges s e) \<in> set (N s g)"
    using assms by (simp_all add: joinable_def)
  have "keyed s (insert (etail (edges s e)) (set (N s g)))" using nodes_keyed [OF j(1)] j(3) by (simp add: insert_absorb)
  from find_edge_None [OF j(1,2,4) this] show ?thesis using assms by (auto simp: joinable_def new_keys_def)
qed

definition lacking :: "world \<Rightarrow> gref \<Rightarrow> eref \<Rightarrow> gref set" where
  "lacking s g e = {a. is_ancestor a g \<and> e \<notin> E s a}"

lemma installedge_joinable:
  "\<forall>a. is_ancestor a g \<longrightarrow> joinable s e a \<Longrightarrow>
    \<forall>a b. is_ancestor a g \<longrightarrow> is_ancestor b a \<longrightarrow> e \<in> E s a \<longrightarrow> e \<in> E s b \<Longrightarrow>
    installedge s g (e, d) = Some (with_edges s e (lacking s g e))"
proof (induction g arbitrary: s)
  case Nil
  then have j: "joinable s e []" by simp
  have "lacking s [] e = (if e \<in> E s [] then {} else {[]})" by (auto simp: lacking_def)
  then show ?case
    using find_own [OF j] install_here_joinable [OF j] by (simp add: installedge.simps [of s "[]"])
next
  case (Cons k p)
  then have j: "joinable s e (k # p)" by simp
  show ?case
  proof (cases "e \<in> E s (k # p)")
    case True
    then have "lacking s (k # p) e = {}"
      using Cons.prems(2) [rule_format, of "k # p"] by (auto simp: lacking_def)
    with True find_own [OF j] show ?thesis by (simp add: installedge.simps [of s "k # p"])
  next
    case False
    let ?s = "with_edges s e {k # p}"
    have anc: "a \<notin> {k # p}" if "is_ancestor a p" for a using ancestor_ne [OF that] by simp
    have ja: "\<forall>a. is_ancestor a p \<longrightarrow> joinable ?s e a"
      using Cons.prems(1) anc by (simp add: joinable_other)
    have tr: "is_ancestor b p" if "is_ancestor a p" "is_ancestor b a" for a b
      using that by (induction p) auto
    have up: "\<forall>a b. is_ancestor a p \<longrightarrow> is_ancestor b a \<longrightarrow> e \<in> E ?s a \<longrightarrow> e \<in> E ?s b"
      using Cons.prems(2) anc tr by (simp add: E_other)
    have lack: "lacking ?s p e = lacking s p e" using anc by (auto simp: lacking_def E_other)
    have "lacking s (k # p) e = {k # p} \<union> lacking s p e" using False by (auto simp: lacking_def)
    moreover have "{k # p} \<inter> lacking s p e = {}" using ancestor_ne by (auto simp: lacking_def)
    ultimately have "with_edges ?s e (lacking ?s p e) = with_edges s e (lacking s (k # p) e)"
      by (simp only: lack with_edges_compose)
    with Cons.IH [OF ja up] False find_own [OF j] install_here_joinable [OF j] show ?thesis
      by (simp add: installedge.simps [of s "k # p"])
  qed
qed

section \<open>Existing edges\<close>

lemma edge_ends:
  assumes "structure_ok s" and "live_graph s g" and "e \<in> E s g"
  shows "etail (edges s e) \<in> set (N s g)" and "ehead (edges s e) \<in> set (N s g)"
  using structure_okD(2) [OF assms(1,2)] assms(3) by (auto simp: edges_ok_def)

lemma edge_unique:
  assumes ok: "structure_ok s" and l: "live_graph s g" and e: "e \<in> E s g" "f \<in> E s g"
    and ends: "etail (edges s f) = etail (edges s e)" "ehead (edges s f) = ehead (edges s e)"
    and num: "eid (edges s f) = eid (edges s e) \<or> eseq (edges s f) = eseq (edges s e)"
  shows "f = e"
proof -
  let ?h = "ehead (edges s e)"
  have eo: "edges_ok s g" using structure_okD(2) [OF ok l] .
  have h: "?h \<in> set (N s g)" using edge_ends(2) [OF ok l e(1)] .
  then have "lists_ok s (E s g) ?h (sub_of s g ?h)" using eo by (auto simp: edges_ok_def)
  then have o: "ordered (\<lambda>e f. lexcmp (id_key s e) (id_key s f)) (in_id (sub_of s g ?h))"
    "ordered (\<lambda>e f. lexcmp (seq_key s e) (seq_key s f)) (in_seq (sub_of s g ?h))" by (simp_all add: lists_ok_def)
  have m: "(e, IN) \<in> set (in_id (sub_of s g ?h))" "(f, IN) \<in> set (in_id (sub_of s g ?h))"
    "(e, IN) \<in> set (in_seq (sub_of s g ?h))" "(f, IN) \<in> set (in_seq (sub_of s g ?h))"
    using in_list [OF eo h] e ends(2) by simp_all
  from num show ?thesis
  proof
    assume "eid (edges s f) = eid (edges s e)"
    then have "lexcmp (id_key s (e, IN)) (id_key s (f, IN)) = 0" using ends by (simp add: id_key_def enode_def)
    from by_lex.ordered_unique [OF o(1) m(1,2) this] show ?thesis by simp
  next
    assume "eseq (edges s f) = eseq (edges s e)"
    then have "lexcmp (seq_key s (e, IN)) (seq_key s (f, IN)) = 0" using ends by (simp add: seq_key_def enode_def)
    from by_lex.ordered_unique [OF o(2) m(3,4) this] show ?thesis by simp
  qed
qed

lemma joinable_existing:
  assumes ok: "structure_ok s" and l: "live_graph s g" and e: "e \<in> E s []"
    and ends: "etail (edges s e) \<in> set (N s g)" "ehead (edges s e) \<in> set (N s g)"
  shows "joinable s e g"
proof -
  have "new_keys s (E s g) e" if "e \<notin> E s g"
    unfolding new_keys_def
  proof (intro ballI impI)
    fix f assume f: "f \<in> E s g" "etail (edges s f) = etail (edges s e)" "ehead (edges s f) = ehead (edges s e)"
    then have r: "f \<in> E s []" "live_graph s []" using edge_in_root [OF ok l] by simp_all
    have "f \<noteq> e" using f(1) that by blast
    with edge_unique [OF ok r(2) e r(1) f(2,3)]
    show "eid (edges s f) \<noteq> eid (edges s e) \<and> eseq (edges s f) \<noteq> eseq (edges s e)" by blast
  qed
  with structure_okD(1,2) [OF ok l] ends show ?thesis by (simp add: joinable_def)
qed

text \<open>What entering an existing or new edge \<open>e\<close> into \<open>g\<close> and its ancestors does.\<close>

definition edge_entered :: "world \<Rightarrow> gref \<Rightarrow> eref \<Rightarrow> world \<Rightarrow> bool" where
  "edge_entered s g e s' \<longleftrightarrow> nodes s' = nodes s \<and> pick s' = pick s \<and> (\<forall>f. f \<noteq> e \<longrightarrow> edges s' f = edges s f) \<and>
     (\<forall>a. live_graph s' a = live_graph s a) \<and>
     (\<forall>a. directed (graphs s' a) = directed (graphs s a) \<and> strict (graphs s' a) = strict (graphs s a) \<and>
        no_loop (graphs s' a) = no_loop (graphs s a)) \<and>
     (\<forall>a. live_graph s a \<longrightarrow> N s' a = N s a \<and>
        E s' a = (if is_ancestor a g then insert e (E s a) else E s a))"

lemma lacking_props:
  assumes ok: "structure_ok s" and l: "live_graph s g" and j: "\<forall>a. is_ancestor a g \<longrightarrow> joinable s e a"
  shows "\<forall>a\<in>lacking s g e. joinable s e a \<and> e \<notin> E s a"
    and "\<forall>k p. k # p \<in> lacking s g e \<longrightarrow> p \<in> lacking s g e \<or> e \<in> E s p"
    and "\<forall>a b. is_ancestor a g \<longrightarrow> is_ancestor b a \<longrightarrow> e \<in> E s a \<longrightarrow> e \<in> E s b"
proof -
  have "is_ancestor (k # p) g \<Longrightarrow> is_ancestor p g" for k p g by (induction g) auto
  then show "\<forall>k p. k # p \<in> lacking s g e \<longrightarrow> p \<in> lacking s g e \<or> e \<in> E s p" by (auto simp: lacking_def)
  show "\<forall>a\<in>lacking s g e. joinable s e a \<and> e \<notin> E s a" using j by (auto simp: lacking_def)
  show "\<forall>a b. is_ancestor a g \<longrightarrow> is_ancestor b a \<longrightarrow> e \<in> E s a \<longrightarrow> e \<in> E s b"
    using ancestor_sub [OF ok] live_ancestor [OF l] by blast
qed

lemma with_lacking:
  assumes ok: "structure_ok s" and l: "live_graph s g" and j: "\<forall>a. is_ancestor a g \<longrightarrow> joinable s e a"
  shows "installedge s g (e, d) = Some (with_edges s e (lacking s g e))"
    and "structure_ok (with_edges s e (lacking s g e))"
    and "edge_entered s g e (with_edges s e (lacking s g e))"
proof -
  note p = lacking_props [OF assms]
  show "installedge s g (e, d) = Some (with_edges s e (lacking s g e))"
    by (rule installedge_joinable [OF j p(3)])
  show "structure_ok (with_edges s e (lacking s g e))" by (rule with_edges_ok [OF ok p(1,2)])
  have "(if a \<in> lacking s g e then insert e (E s a) else E s a) = (if is_ancestor a g then insert e (E s a) else E s a)" for a
    by (auto simp: lacking_def)
  then show "edge_entered s g e (with_edges s e (lacking s g e))"
    by (simp add: edge_entered_def with_edges_E [OF p(1)])
qed

lemma joinable_ancestors:
  assumes ok: "structure_ok s" and l: "live_graph s g" and e: "e \<in> E s []"
    and ends: "etail (edges s e) \<in> set (N s g)" "ehead (edges s e) \<in> set (N s g)"
  shows "\<forall>a. is_ancestor a g \<longrightarrow> joinable s e a"
  using joinable_existing [OF ok _ e] live_ancestor [OF l] ancestor_sub [OF ok l] ends by blast

lemma subedge_existing:
  assumes wf: "wf s" and l: "live_graph s g" and e: "e \<in> E s []"
    and ends: "etail (edges s e) \<in> set (N s g)" "ehead (edges s e) \<in> set (N s g)"
  shows "\<exists>s'. installedge s g (e, d) = Some s' \<and> wf s' \<and> edge_entered s g e s' \<and> edges s' = edges s \<and>
    clos s' = clos s \<and> s' = with_edges s e (lacking s g e)"
proof -
  have ok: "structure_ok s" using wf by (rule wf_structure)
  note w = with_lacking [OF ok l joinable_ancestors [OF ok l e ends]]
  let ?s = "with_edges s e (lacking s g e)"
  have r: "N ?s [] = N s []" "E ?s [] = E s []"
    using w(3) e by (auto simp: edge_entered_def insert_absorb)
  have "held ?s = held s" by (rule held_cong) (simp_all add: r ok)
  moreover have "root_ok ?s" using wf r by (simp add: wf_def root_ok_def)
  ultimately have "wf ?s" using wf w(2) by (simp add: wf_def)
  with w show ?thesis by simp
qed

section \<open>New edges\<close>

lemma agsubnode_here:
  assumes wf: "structure_ok s" "root_ok s" and l: "live_graph s g" and n: "n \<in> set (N s g)" and small: "small s"
  shows "agsubnode s g n c = Some (Some n, s)"
proof -
  have r: "n \<in> set (N s [])" using node_in_root [OF wf(1) l n] .
  then have "node_root (nodes s n) = mainroot s" using wf(2) by (simp add: root_ok_def)
  from agsubnode_spec [OF wf(1) r this small l, of c] n show ?thesis by auto
qed

lemma newedge_spec:
  assumes ok: "structure_ok s" and root: "root_ok s" and ids: "ids_ok (clos s) (add_mset i (held s))"
    and l: "live_graph s g" and small: "small s" and sq: "seq_room s AGEDGE"
    and th: "t \<in> set (N s g)" "h \<in> set (N s g)"
    and new: "\<forall>f\<in>E s []. \<not> (etail (edges s f) = t \<and> ehead (edges s f) = h \<and> eid (edges s f) = i)"
  shows "\<exists>e s'. newedge s g t h i = Some ((e, OUT), s') \<and> wf s' \<and> edge_entered s g e s' \<and> e \<notin> E s [] \<and>
    etail (edges s' e) = t \<and> ehead (edges s' e) = h \<and> eid (edges s' e) = i \<and>
    (\<exists>q. clos s' = (clos s)\<lparr>seqs := q\<rparr>)"
proof -
  let ?q = "Suc (seqs (clos s) AGEDGE)" and ?e = "enext s"
  let ?cl = "(clos s)\<lparr>seqs := (seqs (clos s))(AGEDGE := ?q)\<rparr>"
  have q: "?q \<le> SEQ_MASK" using sq by (simp add: seq_room_def)
  define s3 where "s3 = s\<lparr>clos := ?cl, enext := Suc ?e,
    edges := (edges s)(?e := \<lparr>eid = i, eseq = ?q, etail = t, ehead = h\<rparr>)\<rparr>"
  have s3: "nodes s3 = nodes s" "edges s3 = (edges s)(?e := \<lparr>eid = i, eseq = ?q, etail = t, ehead = h\<rparr>)"
    "clos s3 = ?cl" "gnext s3 = gnext s" "enext s3 = Suc ?e" "nnext s3 = nnext s" "mainroot s3 = mainroot s"
    "graphs s3 = graphs s" "pick s3 = pick s" by (simp_all add: s3_def)
  have e: "?e \<notin> E s []" using root by (auto simp: root_ok_def)
  have fr: "same_structure s s3" unfolding same_structure_def s3 using e by auto
  note live3 = frame_live [OF ok fr] and E3 = frame_E [OF ok fr] and ok3 = frame_ok [OF ok fr]
  have l3: "live_graph s3 g" using l live3 by simp
  have j: "\<forall>a. is_ancestor a g \<longrightarrow> joinable s3 ?e a"
  proof (intro allI impI)
    fix a assume a: "is_ancestor a g"
    then have la: "live_graph s a" using live_ancestor [OF l] by simp
    have th': "t \<in> set (N s3 a)" "h \<in> set (N s3 a)" using ancestor_sub [OF ok l a] th by (auto simp: s3)
    have "new_keys s3 (E s a) ?e"
      unfolding new_keys_def
    proof (intro ballI impI)
      fix f assume "f \<in> E s a" and ends: "etail (edges s3 f) = etail (edges s3 ?e)" "ehead (edges s3 f) = ehead (edges s3 ?e)"
      then have f: "f \<in> E s []" using edge_in_root [OF ok la] by blast
      then have "f \<noteq> ?e" "eseq (edges s f) < ?q" using e root by (auto simp: root_ok_def less_Suc_eq_le)
      with ends new f show "eid (edges s3 f) \<noteq> eid (edges s3 ?e) \<and> eseq (edges s3 f) \<noteq> eseq (edges s3 ?e)"
        by (auto simp: s3)
    qed
    then show "joinable s3 ?e a"
      using structure_okD(1,2) [OF ok3, of a] la th' by (simp add: joinable_def live3 E3 [OF la] s3(2))
  qed
  let ?s4 = "with_edges s3 ?e (lacking s3 g ?e)"
  note w = with_lacking(1) [OF ok3 l3 j, of OUT] with_lacking(2,3) [OF ok3 l3 j]
  have N4: "N ?s4 a = N s a" for a by (simp add: s3)
  have E4: "E ?s4 a = (if is_ancestor a g then insert ?e (E s a) else E s a)" if "live_graph s a" for a
    using w(3) that E3 [OF that] live3 by (simp add: edge_entered_def)
  have root4: "root_ok ?s4"
    using root e unfolding root_ok_def N4 E4 [of "[]", simplified] by (auto simp: s3 less_Suc_eq le_Suc_eq)
  have "held ?s4 = add_mset i (held s)"
  proof -
    have "image_mset (\<lambda>f. eid (edges s3 f)) (mset_set (E s [])) = image_mset (\<lambda>f. eid (edges s f)) (mset_set (E s []))"
      by (rule image_mset_cong) (use e finite_E [of s "[]"] in \<open>auto simp: s3\<close>)
    moreover have "mset_set (insert ?e (E s [])) = add_mset ?e (mset_set (E s []))" using e finite_E by simp
    moreover have "gid (graphs ?s4 a) = gid (graphs s a)" for a by (simp add: s3)
    ultimately show ?thesis by (simp add: held_def N4 E4 live3 s3(1,2,8))
  qed
  then have wf4: "wf ?s4" using w(2) root4 ids by (simp add: wf_def s3)
  have "agsubnode s g t True = Some (Some t, s)" "agsubnode s g h True = Some (Some h, s)"
    using agsubnode_here [OF ok root l _ small] th by simp_all
  then obtain s' where n: "newedge s g t h i = Some ((?e, OUT), s')" and
    same: "wf s' = wf ?s4" "edge_entered s3 g ?e s' = edge_entered s3 g ?e ?s4" "edges s' = edges ?s4" "clos s' = clos ?s4"
    using w(1) q sq
    by (simp add: newedge_def agnextseq_room seq_room_def Let_def s3_def [symmetric] edge_entered_def)
  have "edge_entered s g ?e s'"
    using w(3) same(2) E3 live3 unfolding edge_entered_def by (simp add: s3)
  then show ?thesis using n wf4 same e by (intro exI [of _ ?e] exI [of _ s']) (auto simp: s3)
qed

section \<open>Lookup by endpoints and key\<close>

text \<open>What the code relies on of a search by a wild card: it yields one of the matching edges.\<close>

definition good_pick :: "world \<Rightarrow> bool" where
  "good_pick s \<longleftrightarrow> (\<forall>cs. cs \<noteq> [] \<longrightarrow> pick s cs \<in> set cs)"

definition fits_key :: "world \<Rightarrow> nref \<Rightarrow> nref \<Rightarrow> nat option \<Rightarrow> eref \<Rightarrow> bool" where
  "fits_key s t h key f \<longleftrightarrow> etail (edges s f) = t \<and> ehead (edges s f) = h \<and>
     (case key of None \<Rightarrow> True | Some i \<Rightarrow> eid (edges s f) = i)"

lemma search_cases:
  assumes p: "good_pick s"
  shows "filter (\<lambda>e. agedgeidcmpf s key e = 0) es = [] \<and> search_id s key es = None \<or>
    (\<exists>f\<in>set (filter (\<lambda>e. agedgeidcmpf s key e = 0) es). search_id s key es = Some f)"
proof (cases "filter (\<lambda>e. agedgeidcmpf s key e = 0) es" rule: list.exhaust)
  case Nil
  then show ?thesis by (simp add: search_id_def)
next
  case (Cons x xs)
  have "pick s (x # xs) \<in> set (x # xs)" using p by (simp add: good_pick_def del: set_simps)
  then show ?thesis unfolding search_id_def Cons by (cases xs) auto
qed

lemma search_some: "good_pick s \<Longrightarrow> search_id s key es = Some f \<Longrightarrow> f \<in> set es \<and> agedgeidcmpf s key f = 0"
  using search_cases [of s key es] by auto

lemma search_none: "good_pick s \<Longrightarrow> search_id s key es = None \<longleftrightarrow> (\<forall>f\<in>set es. agedgeidcmpf s key f \<noteq> 0)"
  using search_cases [of s key es] by (auto simp: filter_empty_conv)

lemma root_keyed:
  assumes "structure_ok s" and "live_graph s g" and "t \<in> set (N s [])"
  shows "keyed s (insert t (set (N s g)))"
proof -
  have "keyed s (set (N s []))" using nodes_keyed [OF structure_okD(1) [OF assms(1), of "[]"]] by simp
  moreover have "insert t (set (N s g)) \<subseteq> set (N s [])" using node_in_root [OF assms(1,2)] assms(3) by blast
  ultimately show ?thesis unfolding keyed_def by (meson inj_on_subset)
qed

lemma key_match:
  assumes ok: "structure_ok s" and l: "live_graph s g" and t: "t \<in> set (N s [])" and f: "f \<in> E s g"
  shows "agedgeidcmpf s (t, key) (f, IN) = 0 \<longleftrightarrow> fits_key s t (ehead (edges s f)) key f"
proof -
  have "etail (edges s f) \<in> set (N s g)" using edge_ends [OF ok l f] by simp
  then have "AGID_n s (etail (edges s f)) = AGID_n s t \<longleftrightarrow> etail (edges s f) = t"
    using root_keyed [OF ok l t] by (auto simp: keyed_def inj_on_def)
  then have "AGID_n s t = AGID_n s (etail (edges s f)) \<longleftrightarrow> etail (edges s f) = t" by auto
  then show ?thesis
    by (cases key) (auto simp: agedgeidcmpf_def fits_key_def enode_def cmp_nat_def)
qed

lemma find_key:
  assumes ok: "structure_ok s" and l: "live_graph s g" and t: "t \<in> set (N s [])" and h: "h \<in> set (N s g)"
    and p: "good_pick s"
  shows "agfindedge_by_key s g t h key = Some f \<Longrightarrow> fst f \<in> E s g \<and> snd f = IN \<and> fits_key s t h key (fst f)"
    and "agfindedge_by_key s g t h key = None \<longleftrightarrow> (\<forall>f\<in>E s g. \<not> fits_key s t h key f)"
proof -
  have eo: "edges_ok s g" and no: "nodes_ok s g" using structure_okD(1,2) [OF ok l] by simp_all
  have a: "agfindedge_by_key s g t h key = search_id s (t, key) (in_id (sub_of s g h))"
    using subrep [OF no h] by (simp add: agfindedge_by_key_def)
  show "fst f \<in> E s g \<and> snd f = IN \<and> fits_key s t h key (fst f)" if "agfindedge_by_key s g t h key = Some f"
  proof -
    obtain x d where f: "f = (x, d)" by (cases f)
    from that a have "f \<in> set (in_id (sub_of s g h))" "agedgeidcmpf s (t, key) f = 0"
      using search_some [OF p] by auto
    then show ?thesis using in_list(1) [OF eo h, of x d] key_match [OF ok l t, of x key] by (auto simp: f)
  qed
  have "f \<in> set (in_id (sub_of s g h)) \<longleftrightarrow> (\<exists>x\<in>E s g. f = (x, IN) \<and> ehead (edges s x) = h)" for f
    using in_list(1) [OF eo h] by (cases f) auto
  then show "agfindedge_by_key s g t h key = None \<longleftrightarrow> (\<forall>f\<in>E s g. \<not> fits_key s t h key f)"
    unfolding a search_none [OF p] using key_match [OF ok l t] by (fastforce simp: fits_key_def)
qed

lemma find_either:
  assumes ok: "structure_ok s" and l: "live_graph s g" and th: "t \<in> set (N s g)" "h \<in> set (N s g)"
    and p: "good_pick s"
  shows "find_either s g0 g t h key = Some f \<Longrightarrow> fst f \<in> E s g \<and>
      (fits_key s t h key (fst f) \<or> \<not> directed (graphs s g0) \<and> fits_key s h t key (fst f))"
    and "find_either s g0 g t h key = None \<longleftrightarrow> (\<forall>f\<in>E s g. \<not> fits_key s t h key f \<and>
      (directed (graphs s g0) \<or> \<not> fits_key s h t key f))"
    and "find_either s g0 g t h key = Some f \<Longrightarrow> \<not> fits_key s t h key (fst f) \<Longrightarrow> x \<in> E s g \<Longrightarrow>
      \<not> fits_key s t h key x"
proof -
  have r: "t \<in> set (N s [])" "h \<in> set (N s [])" using node_in_root [OF ok l] th by simp_all
  note a = find_key [OF ok l r(1) th(2) p] and b = find_key [OF ok l r(2) th(1) p]
  show "find_either s g0 g t h key = Some f \<Longrightarrow> fst f \<in> E s g \<and>
      (fits_key s t h key (fst f) \<or> \<not> directed (graphs s g0) \<and> fits_key s h t key (fst f))"
    using a(1) [of key f] b(1) [of key f] by (auto simp: find_either_def split: option.splits if_splits)
  show "find_either s g0 g t h key = None \<longleftrightarrow> (\<forall>f\<in>E s g. \<not> fits_key s t h key f \<and>
      (directed (graphs s g0) \<or> \<not> fits_key s h t key f))"
    using a(2) [of key] b(2) [of key] by (auto simp: find_either_def split: option.splits)
  show "find_either s g0 g t h key = Some f \<Longrightarrow> \<not> fits_key s t h key (fst f) \<Longrightarrow> x \<in> E s g \<Longrightarrow>
      \<not> fits_key s t h key x"
    using a(1) [of key f] a(2) [of key] by (auto simp: find_either_def split: option.splits if_splits)
qed

section \<open>\<open>agedge\<close>\<close>

lemma clos_keys [simp]:
  "fits_key (s\<lparr>clos := cl\<rparr>) = fits_key s" "good_pick (s\<lparr>clos := cl\<rparr>) = good_pick s"
  "agedgeidcmpf (s\<lparr>clos := cl\<rparr>) = agedgeidcmpf s" "agsubrep (s\<lparr>clos := cl\<rparr>) = agsubrep s"
  by (simp_all add: fun_eq_iff fits_key_def good_pick_def agedgeidcmpf_def enode_def agsubrep_def
      agfindnode_by_id_def cong: option.case_cong)

lemma clos_find [simp]: "agfindedge_by_key (s\<lparr>clos := cl\<rparr>) = agfindedge_by_key s"
proof -
  have "search_id (s\<lparr>clos := cl\<rparr>) = search_id s" by (simp add: fun_eq_iff search_id_def cong: list.case_cong)
  then show ?thesis by (simp add: fun_eq_iff agfindedge_by_key_def cong: option.case_cong)
qed

lemma clos_either [simp]:
  "find_either (s\<lparr>clos := cl\<rparr>) = find_either s" "ok_to_make_edge (s\<lparr>clos := cl\<rparr>) = ok_to_make_edge s"
  by (simp_all add: fun_eq_iff find_either_def ok_to_make_edge_def cong: option.case_cong)

lemma entered_clos: "edge_entered (s\<lparr>clos := cl\<rparr>) g e s' = edge_entered s g e s'"
  by (simp add: edge_entered_def)

lemma entered_hook [simp]: "edge_entered s g e (hook h s') = edge_entered s g e s'"
  by (simp add: edge_entered_def)

lemma already_entered:
  assumes "structure_ok s" and "live_graph s g" and "e \<in> E s g"
  shows "edge_entered s g e (s\<lparr>clos := cl\<rparr>)"
  using ancestor_sub [OF assms(1,2)] assms(3) unfolding edge_entered_def by (auto simp: insert_absorb)

lemma create_edge_spec:
  assumes wf: "wf s" and room: "ids_room (clos s)" and l: "live_graph s g" and small: "small s"
    and sq: "seq_room s AGEDGE" and th: "t \<in> set (N s g)" "h \<in> set (N s g)"
    and may: "ok_to_make_edge s g t h"
    and new: "\<And>i cl. agmapnametoid (clos s) AGEDGE name False = Some (Some i, cl) \<Longrightarrow>
      \<forall>f\<in>E s []. \<not> fits_key s t h (Some i) f"
  shows "\<exists>e s'. create_edge s g t h name = Some (Some (e, OUT), s') \<and> wf s' \<and> edge_entered s g e s' \<and>
    e \<notin> E s [] \<and> etail (edges s' e) = t \<and> ehead (edges s' e) = h \<and>
    (\<exists>i cl q. agmapnametoid (clos s) AGEDGE name True = Some (Some i, cl) \<and> eid (edges s' e) = i \<and>
       clos s' = cl\<lparr>seqs := q\<rparr>)"
proof -
  have ok: "structure_ok s" and root: "root_ok s" and ids: "ids_ok (clos s) (held s)"
    using wf by (simp_all add: wf_def)
  from mapname_create [OF ids room, of AGEDGE name] obtain i cl where
    i: "agmapnametoid (clos s) AGEDGE name True = Some (Some i, cl)" "ids_ok cl (add_mset i (held s))"
    "seqs cl = seqs (clos s)"
    and probe: "(\<exists>cl'. agmapnametoid (clos s) AGEDGE name False = Some (Some i, cl')) \<or> i \<notin># held s" by blast
  let ?s = "s\<lparr>clos := cl\<rparr>"
  have n: "\<forall>f\<in>E ?s []. \<not> (etail (edges ?s f) = t \<and> ehead (edges ?s f) = h \<and> eid (edges ?s f) = i)"
    using probe
  proof
    assume "\<exists>cl'. agmapnametoid (clos s) AGEDGE name False = Some (Some i, cl')"
    with new show ?thesis by (auto simp: fits_key_def)
  next
    assume "i \<notin># held s"
    then show ?thesis by (auto simp: held_def finite_E)
  qed
  have "structure_ok ?s" "root_ok ?s" using structure_ok_clos [OF ok] root_ok_clos [OF root] i(3) by simp_all
  from newedge_spec [OF this, of i g t h] i(2) l small sq th n i(3) obtain e s' where
    e: "newedge ?s g t h i = Some ((e, OUT), s')" "wf s'" "edge_entered ?s g e s'" "e \<notin> E ?s []"
    "etail (edges s' e) = t" "ehead (edges s' e) = h" "eid (edges s' e) = i" "\<exists>q. clos s' = cl\<lparr>seqs := q\<rparr>"
    by (auto simp: small_def seq_room_def)
  then show ?thesis using may i(1) by (auto simp: create_edge_def entered_clos)
qed

text \<open>The outcome of \<open>agedge\<close>.\<close>

definition edge_result :: "world \<Rightarrow> gref \<Rightarrow> nref \<Rightarrow> nref \<Rightarrow> bool \<Rightarrow> handle option \<Rightarrow> world \<Rightarrow> bool" where
  "edge_result s g t h c r s' \<longleftrightarrow> wf s' \<and>
    (case r of
       None \<Rightarrow> graphs s' = graphs s \<and> nodes s' = nodes s \<and> edges s' = edges s \<and> pick s' = pick s \<and>
         (c \<longrightarrow> \<not> ok_to_make_edge s g t h)
     | Some e \<Rightarrow> edge_entered s g (fst e) s' \<and>
         (fits_key s' t h None (fst e) \<or> \<not> directed (graphs s g) \<and> fits_key s' h t None (fst e)) \<and>
         (fst e \<notin> E s g \<longrightarrow> c) \<and> (fst e \<notin> E s [] \<longrightarrow> ok_to_make_edge s g t h \<and> snd e = OUT) \<and>
         (fst e \<in> E s [] \<longrightarrow> edges s' = edges s))"

text \<open>How the key of the edge relates to the name, and that a search prefers the direction asked for.\<close>

definition edge_named :: "world \<Rightarrow> gref \<Rightarrow> nref \<Rightarrow> nref \<Rightarrow> cstr option \<Rightarrow> handle \<Rightarrow> world \<Rightarrow> bool" where
  "edge_named s g t h name e s' \<longleftrightarrow>
    (\<exists>k cl. agmapnametoid (clos s) AGEDGE name False = Some (k, cl) \<and>
      (if fst e \<in> E s [] then
         clos s' = cl \<and>
         (fits_key s t h k (fst e) \<or> \<not> directed (graphs s g) \<and> fits_key s h t k (fst e) \<and>
            (\<forall>f\<in>E s g. \<not> fits_key s t h k f))
       else
         \<exists>i cl2 q. agmapnametoid cl AGEDGE name True = Some (Some i, cl2) \<and>
           fits_key s' t h (Some i) (fst e) \<and> clos s' = cl2\<lparr>seqs := q\<rparr>))"

lemma fits_None: "fits_key s t h key f \<Longrightarrow> fits_key s t h None f"
  by (simp add: fits_key_def)

lemma agedge_spec:
  assumes wf: "wf s" and room: "ids_room (clos s)" and l: "live_graph s g" and small: "small s"
    and sq: "seq_room s AGEDGE" and th: "t \<in> set (N s g)" "h \<in> set (N s g)" and p: "good_pick s"
  shows "\<exists>r s'. agedge s g t h name c = Some (r, s') \<and> edge_result s g t h c r s' \<and>
    (\<forall>e. r = Some e \<longrightarrow> edge_named s g t h name e s')"
proof -
  have ok: "structure_ok s" and ids: "ids_ok (clos s) (held s)" using wf by (simp_all add: wf_def)
  from mapname_probe [OF ids, of AGEDGE name] obtain k cl where
    k: "agmapnametoid (clos s) AGEDGE name False = Some (k, cl)" and same: "same_ids (clos s) cl" by auto
  let ?s = "s\<lparr>clos := cl\<rparr>"
  let ?probe = "k \<noteq> None \<or> (name = None \<and> (\<not> c \<or> strict (graphs s g)))"
  have wf1: "wf ?s" using wf_same_ids [OF wf same] .
  have r: "t \<in> set (N s [])" "h \<in> set (N s [])" using node_in_root [OF ok l] th by simp_all
  have ag: "agedge s g t h name c =
      (case (if ?probe then find_either s g g t h k else None) of
         Some e \<Rightarrow> Some (Some e, ?s)
       | None \<Rightarrow>
           (case (if ?probe \<and> c then find_either s g [] t h k else None) of
              Some e \<Rightarrow> map_option (\<lambda>s2. (Some e, s2)) (installedge ?s g e)
            | None \<Rightarrow> if c then create_edge ?s g t h name else Some (None, ?s)))"
    by (simp only: agedge_def Let_def k option.case prod.case subedge_def clos_either)
  show ?thesis
  proof (cases "if ?probe then find_either s g g t h k else None")
    case (Some e)
    then have f: "find_either s g g t h k = Some e" by (simp split: if_splits)
    have a: "agedge s g t h name c = Some (Some e, ?s)" by (simp only: ag Some option.case)
    note fe = find_either(1) [OF ok l th p f]
    have "edge_result s g t h c (Some e) ?s"
      using wf1 fe already_entered [OF ok l, of "fst e" cl] edge_in_root [OF ok l, of "fst e"] fits_None
      by (auto simp: edge_result_def)
    moreover have "edge_named s g t h name e ?s"
      using k fe find_either(3) [OF ok l th p f] edge_in_root [OF ok l, of "fst e"]
      by (auto simp: edge_named_def)
    ultimately show ?thesis using a by blast
  next
    case miss: None
    show ?thesis
    proof (cases "if ?probe \<and> c then find_either s g [] t h k else None")
      case (Some e)
      then have f: "find_either s g [] t h k = Some e" and c by (simp_all split: if_splits)
      note fe = find_either(1) [OF ok _ r p f, simplified]
      have ends: "etail (edges s (fst e)) \<in> set (N s g)" "ehead (edges s (fst e)) \<in> set (N s g)"
        using fe th by (auto simp: fits_key_def)
      obtain s' where s': "installedge ?s g e = Some s'" "wf s'" "edge_entered s g (fst e) s'" "edges s' = edges s"
        "clos s' = cl"
        using subedge_existing [OF wf1, of g "fst e" "snd e"] l fe ends
        by (auto simp: entered_clos)
      have a: "agedge s g t h name c = Some (Some e, s')"
        unfolding ag miss Some by (simp add: s'(1))
      have "fits_key s' = fits_key s" using s'(4) by (intro ext) (simp add: fits_key_def cong: option.case_cong)
      then have "edge_result s g t h c (Some e) s'"
        using fe s' \<open>c\<close> fits_None by (auto simp: edge_result_def)
      moreover have "edge_named s g t h name e s'"
        using k fe s'(5) find_either(3) [OF ok _ r p f] edge_in_root [OF ok l] by (auto simp: edge_named_def)
      ultimately show ?thesis using a by blast
    next
      case miss2: None
      show ?thesis
      proof (cases "c \<and> ok_to_make_edge s g t h")
        case True
        have "\<forall>f\<in>E ?s []. \<not> fits_key ?s t h (Some i) f"
          if "agmapnametoid (clos ?s) AGEDGE name False = Some (Some i, cl')" for i cl'
        proof -
          have "k = Some i" using mapname_same [OF ids same k] that by simp
          then have "find_either s g [] t h (Some i) = None" using miss2 True by simp
          then show ?thesis using find_either(2) [OF ok _ r p, of g "Some i"] by simp
        qed
        from create_edge_spec [OF wf1, of g t h name] this True l small sq th room same
        obtain e s' where e: "create_edge ?s g t h name = Some (Some (e, OUT), s')" "wf s'"
          "edge_entered ?s g e s'" "e \<notin> E ?s []" "etail (edges s' e) = t" "ehead (edges s' e) = h"
          "\<exists>i cl2 q. agmapnametoid cl AGEDGE name True = Some (Some i, cl2) \<and> eid (edges s' e) = i \<and>
            clos s' = cl2\<lparr>seqs := q\<rparr>"
          by (auto simp: small_def seq_room_def same_ids_def ids_room_def)
        have a: "agedge s g t h name c = Some (Some (e, OUT), s')"
          unfolding ag miss miss2 using e(1) True by simp
        have "edge_result s g t h c (Some (e, OUT)) s'"
          using e True by (simp add: edge_result_def fits_key_def entered_clos)
        moreover have "edge_named s g t h name (e, OUT) s'"
          using k e by (auto simp: edge_named_def fits_key_def)
        ultimately show ?thesis using a by blast
      next
        case False
        then have a: "agedge s g t h name c = Some (None, ?s)"
          unfolding ag miss miss2 by (auto simp: create_edge_def)
        have "edge_result s g t h c None ?s" using wf1 False by (simp add: edge_result_def)
        with a show ?thesis by blast
      qed
    qed
  qed
qed

end
