(* ===== verification/Agedge_Api.thy ===== *)
theory Agedge_Api
  imports Agopen_Correct Agedge_Correct
begin

text \<open>
  The properties of the edge operations: the invariant and effect of \<open>agedge\<close>, what \<open>strict\<close> and
  \<open>no_loop\<close> guarantee, and lookup after creation.
\<close>

section \<open>Consequences of the outcome\<close>

text \<open>No two edges between the same nodes, in a directed graph.\<close>

definition simple_edges :: "world \<Rightarrow> bool" where
  "simple_edges s \<longleftrightarrow> (\<forall>e\<in>E s []. \<forall>f\<in>E s [].
     etail (edges s e) = etail (edges s f) \<and> ehead (edges s e) = ehead (edges s f) \<longrightarrow> e = f)"

definition loop_free :: "world \<Rightarrow> bool" where
  "loop_free s \<longleftrightarrow> (\<forall>e\<in>E s []. etail (edges s e) \<noteq> ehead (edges s e))"

lemma may_make:
  assumes ok: "structure_ok s" and l: "live_graph s g" and th: "t \<in> set (N s g)" "h \<in> set (N s g)"
    and p: "good_pick s" and may: "ok_to_make_edge s g t h"
  shows "strict (graphs s g) \<Longrightarrow> f \<in> E s g \<Longrightarrow> \<not> fits_key s t h None f"
    and "no_loop (graphs s g) \<Longrightarrow> t \<noteq> h"
  using find_key(2) [OF ok l node_in_root [OF ok l th(1)] th(2) p, of None] may
  by (auto simp: ok_to_make_edge_def)

text \<open>A later search in the same graph finds the edge that was returned.\<close>

lemma find_either_unique:
  assumes ok: "structure_ok s" and l: "live_graph s g" and th: "t \<in> set (N s g)" "h \<in> set (N s g)"
    and p: "good_pick s" and e: "e \<in> E s g"
    and k: "fits_key s t h (Some i) e \<or> \<not> directed (graphs s g) \<and> fits_key s h t (Some i) e"
    and only: "\<And>f. f \<in> E s g \<Longrightarrow> fits_key s t h (Some i) f \<Longrightarrow> f = e"
  shows "\<exists>d. find_either s g g t h (Some i) = Some (e, d)"
proof -
  have "find_either s g g t h (Some i) \<noteq> None"
    using find_either(2) [OF ok l th p, of g "Some i"] e k by blast
  then obtain f d where f: "find_either s g g t h (Some i) = Some (f, d)" by auto
  note m = find_either(1) [OF ok l th p f]
  have "f = e"
  proof (cases "fits_key s t h (Some i) f")
    case True
    then show ?thesis using only m by simp
  next
    case False
    then have rev: "fits_key s h t (Some i) f" "f \<in> E s g" using m by simp_all
    have none: "\<not> fits_key s t h (Some i) x" if "x \<in> E s g" for x
    proof
      assume x: "fits_key s t h (Some i) x"
      then have "agfindedge_by_key s g t h (Some i) \<noteq> None"
        using find_key(2) [OF ok l node_in_root [OF ok l th(1)] th(2) p, of "Some i"] that by blast
      then obtain y where y: "agfindedge_by_key s g t h (Some i) = Some y" by blast
      then have "y = (f, d)" using f by (simp add: find_either_def)
      with find_key(1) [OF ok l node_in_root [OF ok l th(1)] th(2) p y] False show False by simp
    qed
    have "fits_key s h t (Some i) e" using k none e by blast
    with rev edge_unique [OF ok l e rev(2)] show ?thesis by (simp add: fits_key_def)
  qed
  with f show ?thesis by blast
qed

section \<open>Properties\<close>

text \<open>
  C21. \<open>agedge\<close> on nodes of a graph keeps the invariant of the library. It returns an edge between
  the two nodes, in the direction asked for when the graph is directed, that the graph and all
  its ancestors then have, and adds nothing else; when it may create one, it fails only because
  \<open>strict\<close> or \<open>no_loop\<close> forbid the edge.
\<close>
theorem agedge_correct:
  assumes "wf s" and "ids_room (clos s)" and "live_graph s g" and "small s" and "seq_room s AGEDGE"
    and "t \<in> set (N s g)" and "h \<in> set (N s g)" and "good_pick s"
  shows "\<exists>r s'. agedge s g t h name c = Some (r, s') \<and> wf s' \<and>
    (\<forall>a. live_graph s' a = live_graph s a) \<and> (\<forall>a. live_graph s a \<longrightarrow> N s' a = N s a) \<and>
    (\<forall>e. r = Some e \<longrightarrow>
       (\<forall>a. live_graph s a \<longrightarrow> E s' a = (if is_ancestor a g then insert (fst e) (E s a) else E s a)) \<and>
       {etail (edges s' (fst e)), ehead (edges s' (fst e))} = {t, h} \<and>
       (directed (graphs s g) \<longrightarrow> etail (edges s' (fst e)) = t \<and> ehead (edges s' (fst e)) = h)) \<and>
    (r = None \<longrightarrow> graphs s' = graphs s \<and> (c \<longrightarrow> \<not> ok_to_make_edge s g t h))"
proof -
  from agedge_spec [OF assms] obtain r s' where
    a: "agedge s g t h name c = Some (r, s')" "edge_result s g t h c r s'" by blast
  have live: "graphs s' = graphs s \<Longrightarrow> live_graph s' x = live_graph s x" for x by (induction x) auto
  have "wf s'" using a(2) by (simp add: edge_result_def)
  moreover have "(\<forall>a. live_graph s' a = live_graph s a) \<and> (\<forall>a. live_graph s a \<longrightarrow> N s' a = N s a)"
    using a(2) live by (cases r) (simp_all add: edge_result_def edge_entered_def)
  moreover have "(\<forall>a. live_graph s a \<longrightarrow> E s' a = (if is_ancestor a g then insert (fst e) (E s a) else E s a)) \<and>
       {etail (edges s' (fst e)), ehead (edges s' (fst e))} = {t, h} \<and>
       (directed (graphs s g) \<longrightarrow> etail (edges s' (fst e)) = t \<and> ehead (edges s' (fst e)) = h)"
    if "r = Some e" for e
    using a(2) that by (auto simp: edge_result_def edge_entered_def fits_key_def)
  moreover have "r = None \<longrightarrow> graphs s' = graphs s \<and> (c \<longrightarrow> \<not> ok_to_make_edge s g t h)"
    using a(2) by (auto simp: edge_result_def)
  ultimately show ?thesis using a(1) by blast
qed

text \<open>For the witnesses: nodes without a name.\<close>

lemma ids_room_seqs [simp]: "ids_room (cl\<lparr>seqs := f\<rparr>) = ids_room cl"
  by (simp add: ids_room_def)

lemma anonymous_node:
  assumes wf: "wf s" and room: "ids_room (clos s)" and small: "small s" and sq: "seq_room s AGNODE"
    and c: "counter (clos s) < 100"
  shows "\<exists>n s'. agnode s [] None True = Some (Some n, s') \<and> wf s' \<and> ids_room (clos s') \<and> N s' [] = N s [] @ [n] \<and>
    E s' [] = E s [] \<and> pick s' = pick s \<and> directed (graphs s' []) = directed (graphs s []) \<and>
    strict (graphs s' []) = strict (graphs s []) \<and> no_loop (graphs s' []) = no_loop (graphs s []) \<and>
    clos s' = (clos s)\<lparr>counter := Suc (counter (clos s)), seqs := (seqs (clos s))(AGNODE := Suc (seqs (clos s) AGNODE))\<rparr>"
proof -
  have p: "agmapnametoid (clos s) AGNODE None False = Some (None, clos s)" by (simp add: agmapnametoid_def)
  have l: "live_graph s []" by simp
  from agnode_spec [OF wf room l small sq p, of True] obtain n s' i cl2 where
    n: "agnode s [] None True = Some (Some n, s')" "wf s'"
    "agmapnametoid (clos s) AGNODE None True = Some (Some i, cl2)" "node_added (s\<lparr>clos := cl2\<rparr>) [] n i s'"
    by (auto split: option.splits)
  have cl2: "cl2 = (clos s)\<lparr>counter := Suc (counter (clos s))\<rparr>"
    using n(3) c by (auto simp: agmapnametoid_def idmap_def)
  then have "ids_room cl2" using room c by (simp add: ids_room_def)
  with cl2 n show ?thesis by (intro exI [of _ n] exI [of _ s']) (simp add: node_added_def)
qed

text \<open>The smallest graph with two nodes.\<close>

definition pair_graph :: "agraph \<Rightarrow> world \<Rightarrow> nref \<Rightarrow> nref \<Rightarrow> bool" where
  "pair_graph desc s a b \<longleftrightarrow> wf s \<and> ids_room (clos s) \<and> small s \<and> seq_room s AGEDGE \<and>
    N s [] = [a, b] \<and> a \<noteq> b \<and> E s [] = {} \<and> good_pick s \<and> directed (graphs s []) = directed desc \<and>
    strict (graphs s []) = strict desc \<and> no_loop (graphs s []) = no_loop desc"

lemma two_nodes:
  "\<exists>s a s1 b s2. agopen 0 bump_malloc hd None desc = Some s \<and> agnode s [] None True = Some (Some a, s1) \<and>
    agnode s1 [] None True = Some (Some b, s2) \<and> pair_graph desc s2 a b"
proof -
  have o: "agopen 0 bump_malloc hd None desc = Some s \<Longrightarrow> pick s = hd" for s
    by (auto simp: agopen_def agopen1_def agparent_def Let_def upd_graph_def split: option.splits)
  have z: "counter (clos_new bump_malloc) = 0" by (simp add: clos_new_def)
  from agopen_anonymous [of hd desc] o obtain s where
    s: "agopen 0 bump_malloc hd None desc = Some s" "wf s" "N s [] = []" "E s [] = {}"
    "seqs (clos s) = (\<lambda>_. 0)" "ids_room (clos s)" "small s" "pick s = hd" "counter (clos s) = 1"
    "directed (graphs s []) = directed desc" "strict (graphs s []) = strict desc"
    "no_loop (graphs s []) = no_loop desc" by auto
  have sq: "seq_room s AGNODE" "counter (clos s) < 100" using s(5,9) by (simp_all add: seq_room_zero)
  from anonymous_node [OF s(2,6,7) sq] obtain a s1 where
    a: "agnode s [] None True = Some (Some a, s1)" "wf s1" "ids_room (clos s1)" "N s1 [] = N s [] @ [a]"
    "E s1 [] = E s []" "pick s1 = pick s" "directed (graphs s1 []) = directed (graphs s [])"
    "strict (graphs s1 []) = strict (graphs s [])" "no_loop (graphs s1 []) = no_loop (graphs s [])"
    "clos s1 = (clos s)\<lparr>counter := Suc (counter (clos s)),
       seqs := (seqs (clos s))(AGNODE := Suc (seqs (clos s) AGNODE))\<rparr>" by blast
  have "small s1" "seq_room s1 AGNODE" "counter (clos s1) < 100"
    using a(4,10) s(3,5,9) by (simp_all add: small_def seq_room_def SEQ_MASK_def)
  from anonymous_node [OF a(2,3) this] obtain b s2 where
    b: "agnode s1 [] None True = Some (Some b, s2)" "wf s2" "ids_room (clos s2)" "N s2 [] = N s1 [] @ [b]"
    "E s2 [] = E s1 []" "pick s2 = pick s1" "directed (graphs s2 []) = directed (graphs s1 [])"
    "strict (graphs s2 []) = strict (graphs s1 [])" "no_loop (graphs s2 []) = no_loop (graphs s1 [])"
    "clos s2 = (clos s1)\<lparr>counter := Suc (counter (clos s1)),
       seqs := (seqs (clos s1))(AGNODE := Suc (seqs (clos s1) AGNODE))\<rparr>" by blast
  have N: "N s2 [] = [a, b]" using a(4) b(4) s(3) by simp
  have "a \<noteq> b" using nodes_distinct [OF structure_okD(1) [OF wf_structure [OF b(2)], of "[]"]] N by simp
  moreover have "small s2" "seq_room s2 AGEDGE" "good_pick s2"
    using N a(6,10) b(6,10) s(5,8) by (simp_all add: small_def seq_room_def SEQ_MASK_def good_pick_def)
  ultimately have "pair_graph desc s2 a b" using N a b s(4,10-12) by (simp add: pair_graph_def)
  with s(1) a(1) b(1) show ?thesis by blast
qed

lemma pair_may_make: "pair_graph desc s a b \<Longrightarrow> ok_to_make_edge s [] a b"
proof -
  assume p: "pair_graph desc s a b"
  then have "structure_ok s" "a \<in> set (N s [])" "b \<in> set (N s [])" "good_pick s" "E s [] = {}" "a \<noteq> b"
    by (auto simp: pair_graph_def wf_def)
  with find_key(2) [of s "[]" a b None] show ?thesis by (simp add: ok_to_make_edge_def)
qed

theorem agedge_correct_witness:
  "\<exists>s a b e s'. pair_graph empty_graph s a b \<and> agedge s [] a b None True = Some (Some e, s') \<and> wf s' \<and> E s' [] = {fst e}"
proof -
  from two_nodes [of empty_graph] obtain s a b where p: "pair_graph empty_graph s a b" by blast
  then have s: "wf s" "ids_room (clos s)" "live_graph s []" "small s" "seq_room s AGEDGE" "a \<in> set (N s [])"
    "b \<in> set (N s [])" "good_pick s" "E s [] = {}" by (auto simp: pair_graph_def)
  from agedge_correct [OF s(1-8), of None True] obtain r s' where
    r: "agedge s [] a b None True = Some (r, s')" "wf s'" "r = None \<longrightarrow> \<not> ok_to_make_edge s [] a b"
    and e: "\<forall>e. r = Some e \<longrightarrow> (\<forall>a. live_graph s a \<longrightarrow> E s' a = (if is_ancestor a [] then insert (fst e) (E s a) else E s a))"
    by auto
  from r(3) pair_may_make [OF p] obtain e where "r = Some e" by auto
  then have "E s' [] = {fst e}" using e [rule_format, of e "[]"] s(9) by simp
  with p r(1,2) \<open>r = Some e\<close> show ?thesis by blast
qed

text \<open>
  C22. \<open>strict\<close> and \<open>no_loop\<close> do what they promise on a directed main graph: \<open>agedge\<close> on it never makes a
  second edge from one node to another when the graph is strict, nor a loop when it admits none.
\<close>
theorem agedge_strict:
  assumes "wf s" and "ids_room (clos s)" and "small s" and "seq_room s AGEDGE"
    and "t \<in> set (N s [])" and "h \<in> set (N s [])" and "good_pick s"
    and "directed (graphs s [])" and "agedge s [] t h name c = Some (r, s')"
  shows "(strict (graphs s []) \<longrightarrow> simple_edges s \<longrightarrow> simple_edges s') \<and>
    (no_loop (graphs s []) \<longrightarrow> loop_free s \<longrightarrow> loop_free s')"
proof -
  have ok: "structure_ok s" and l: "live_graph s []" using assms(1) by (simp_all add: wf_def)
  from agedge_spec [OF assms(1,2) l assms(3-7), of name c] assms(9)
  have r: "edge_result s [] t h c r s'" by simp
  show ?thesis
  proof (cases r)
    case None
    with r have "edges s' = edges s" "graphs s' = graphs s" by (simp_all add: edge_result_def)
    then show ?thesis by (simp add: simple_edges_def loop_free_def E_def)
  next
    case (Some e)
    with r have e: "E s' [] = insert (fst e) (E s [])" "\<forall>f. f \<noteq> fst e \<longrightarrow> edges s' f = edges s f"
      "fits_key s' t h None (fst e)" "fst e \<in> E s [] \<longrightarrow> edges s' = edges s"
      "fst e \<notin> E s [] \<longrightarrow> ok_to_make_edge s [] t h"
      using assms(8) by (auto simp: edge_result_def edge_entered_def)
    show ?thesis
    proof (cases "fst e \<in> E s []")
      case True
      with e show ?thesis by (simp add: simple_edges_def loop_free_def insert_absorb)
    next
      case False
      note may = may_make [OF ok l assms(5-7) e(5) [rule_format, OF False]]
      have "edges s' f = edges s f" if "f \<in> E s []" for f using e(2) that False by metis
      with may e(1,3) show ?thesis
        by (fastforce simp: simple_edges_def loop_free_def fits_key_def)
    qed
  qed
qed

theorem agedge_strict_witness:
  "\<exists>s a b r s'. pair_graph (empty_graph\<lparr>directed := True, strict := True, no_loop := True\<rparr>) s a b \<and>
    agedge s [] a b None True = Some (r, s') \<and> simple_edges s' \<and> loop_free s'"
proof -
  let ?d = "empty_graph\<lparr>directed := True, strict := True, no_loop := True\<rparr>"
  from two_nodes [of ?d] obtain s a b where p: "pair_graph ?d s a b" by blast
  then have s: "wf s" "ids_room (clos s)" "small s" "seq_room s AGEDGE" "a \<in> set (N s [])"
    "b \<in> set (N s [])" "good_pick s" "directed (graphs s [])" "strict (graphs s [])" "no_loop (graphs s [])"
    "E s [] = {}" by (auto simp: pair_graph_def)
  from agedge_spec [OF s(1,2) _ s(3-7), of None True] obtain r s' where
    r: "agedge s [] a b None True = Some (r, s')" by auto
  have "simple_edges s" "loop_free s" using s(11) by (simp_all add: simple_edges_def loop_free_def)
  with agedge_strict [OF s(1-8) r] s(9,10) have "simple_edges s'" "loop_free s'" by simp_all
  with p r show ?thesis by blast
qed

text \<open>
  An edge is found again by its endpoints and key in the graph it was entered in, without a
  change of the graph: the search of \<open>agedge\<close> after the creation returns the same edge.
\<close>
lemma agedge_roundtrip:
  assumes "wf s" and "ids_room (clos s)" and "live_graph s g" and "small s" and "seq_room s AGEDGE"
    and "t \<in> set (N s g)" and "h \<in> set (N s g)" and "good_pick s" and "\<not> is_local (snd nm)"
    and "agedge s g t h (Some nm) True = Some (Some e, s')"
  shows "\<exists>d. agedge s' g t h (Some nm) c = Some (Some (fst e, d), s')"
proof -
  have ids: "ids_ok (clos s) (held s)" using assms(1) by (simp add: wf_def)
  let ?i = "case agstrbind (strings (clos s)) nm of None \<Rightarrow> 0 | Some b \<Rightarrow> b"
  have p: "agmapnametoid (clos s) AGEDGE (Some nm) False = Some (Some ?i, clos s)"
    using assms(9) idmap_lookup [OF ids] by (simp add: agmapnametoid_def)
  from agedge_spec [OF assms(1-8), of "Some nm" True] assms(10)
  have res: "edge_result s g t h True (Some e) s'" and nm: "edge_named s g t h (Some nm) e s'" by (simp_all del: split_paired_All)
  have wf': "structure_ok s'" and ent: "edge_entered s g (fst e) s'" using res by (simp_all add: edge_result_def wf_def)
  have l': "live_graph s' g" and d': "directed (graphs s' g) = directed (graphs s g)"
    and th': "t \<in> set (N s' g)" "h \<in> set (N s' g)" and g': "good_pick s'"
    and E': "E s' g = insert (fst e) (E s g)"
    using ent assms(3,6-8) by (simp_all add: edge_entered_def good_pick_def)
  have e': "fst e \<in> E s' g" using E' by simp
  have uniq: "f = fst e" if "fits_key s' t h (Some i) (fst e)" "fits_key s' t h (Some i) f" "f \<in> E s' g" for f i
    using edge_unique [OF wf' l' e' that(3)] that(1,2) by (simp add: fits_key_def)
  have "\<exists>i. agmapnametoid (clos s') AGEDGE (Some nm) False = Some (Some i, clos s') \<and>
     (fits_key s' t h (Some i) (fst e) \<or> \<not> directed (graphs s' g) \<and> fits_key s' h t (Some i) (fst e)) \<and>
     (\<forall>f\<in>E s' g. fits_key s' t h (Some i) f \<longrightarrow> f = fst e)"
  proof (cases "fst e \<in> E s []")
    case True
    with nm p have k: "clos s' = clos s" "fits_key s t h (Some ?i) (fst e) \<or>
        \<not> directed (graphs s g) \<and> fits_key s h t (Some ?i) (fst e) \<and> (\<forall>f\<in>E s g. \<not> fits_key s t h (Some ?i) f)"
      by (simp_all add: edge_named_def)
    have f: "fits_key s' = fits_key s"
      using res True by (intro ext) (simp add: edge_result_def fits_key_def cong: option.case_cong)
    have "\<forall>x\<in>E s' g. fits_key s' t h (Some ?i) x \<longrightarrow> x = fst e"
      using k(2) uniq unfolding f E' by blast
    with p k f d' show ?thesis by (intro exI [of _ ?i]) auto
  next
    case False
    with nm p obtain i cl2 q where k: "agmapnametoid (clos s) AGEDGE (Some nm) True = Some (Some i, cl2)"
      "fits_key s' t h (Some i) (fst e)" "clos s' = cl2\<lparr>seqs := q\<rparr>" by (auto simp: edge_named_def)
    from mapname_seqs [OF assms(9) mapname_roundtrip [OF ids assms(2,9) k(1), of AGEDGE]] k uniq
    show ?thesis by (intro exI [of _ i]) auto
  qed
  then obtain i where i: "agmapnametoid (clos s') AGEDGE (Some nm) False = Some (Some i, clos s')"
    "fits_key s' t h (Some i) (fst e) \<or> \<not> directed (graphs s' g) \<and> fits_key s' h t (Some i) (fst e)"
    "\<And>f. f \<in> E s' g \<Longrightarrow> fits_key s' t h (Some i) f \<Longrightarrow> f = fst e" by blast
  from find_either_unique [OF wf' l' th' g' e' i(2,3)] i(1) show ?thesis
    by (auto simp: agedge_def Let_def)
qed

end
