(* ===== verification/Prune.thy ===== *)
theory Prune
  imports Agedge_Correct
begin

text \<open>
  Removal: taking nodes and edges out of a set of graphs closed downwards keeps the structure; the
  images \<open>agdeledgeimage\<close> and \<open>agdelnodeimage\<close> do it in one graph, and the postorder visit of
  \<open>agapply\<close> does it in a graph and all its descendants.
\<close>

section \<open>Taking objects out\<close>

definition drop_edges :: "eref set \<Rightarrow> subnode \<Rightarrow> subnode" where
  "drop_edges D sn = sn\<lparr>in_seq := filter (\<lambda>f. fst f \<notin> D) (in_seq sn), in_id := filter (\<lambda>f. fst f \<notin> D) (in_id sn),
     out_seq := filter (\<lambda>f. fst f \<notin> D) (out_seq sn), out_id := filter (\<lambda>f. fst f \<notin> D) (out_id sn)\<rparr>"

lemma drop_edges_simps [simp]:
  "in_seq (drop_edges D sn) = filter (\<lambda>f. fst f \<notin> D) (in_seq sn)"
  "in_id (drop_edges D sn) = filter (\<lambda>f. fst f \<notin> D) (in_id sn)"
  "out_seq (drop_edges D sn) = filter (\<lambda>f. fst f \<notin> D) (out_seq sn)"
  "out_id (drop_edges D sn) = filter (\<lambda>f. fst f \<notin> D) (out_id sn)"
  by (simp_all add: drop_edges_def)

lemma drop_none [simp]: "drop_edges {} sn = sn"
  by (simp add: drop_edges_def)

lemma drop_drop: "drop_edges D' (drop_edges D sn) = drop_edges (D \<union> D') sn"
  by (simp add: drop_edges_def)

lemma drop_lists_ok: "lists_ok s es n x \<Longrightarrow> lists_ok s (es - D) n (drop_edges D x)"
  by (auto simp: lists_ok_def ordered_def intro: sorted_wrt_filter)

lemma drop_same:
  assumes "lists_ok s es n x" and "es \<inter> D = es \<inter> D'"
  shows "drop_edges D x = drop_edges D' x"
proof -
  have f: "filter (\<lambda>f. fst f \<notin> D) xs = filter (\<lambda>f. fst f \<notin> D') xs" if "fst ` set xs \<subseteq> es"
    for xs :: "handle list" by (rule filter_cong) (use that assms(2) in auto)
  have "fst ` set (out_seq x) \<subseteq> es" "fst ` set (out_id x) \<subseteq> es" "fst ` set (in_seq x) \<subseteq> es"
    "fst ` set (in_id x) \<subseteq> es" using assms(1) by (auto simp: lists_ok_def)
  then show ?thesis by (simp only: drop_edges_def f)
qed

text \<open>
  The state \<open>s'\<close> is \<open>s\<close> with, in every open graph \<open>g\<close>, the nodes \<open>X g\<close> and the edges \<open>D g\<close> taken out.
\<close>

definition same_rest :: "world \<Rightarrow> world \<Rightarrow> bool" where
  "same_rest s s' \<longleftrightarrow> nodes s' = nodes s \<and> edges s' = edges s \<and> clos s' = clos s \<and> mainroot s' = mainroot s \<and>
     nnext s' = nnext s \<and> enext s' = enext s \<and> gnext s' = gnext s \<and> pick s' = pick s"

definition pruned :: "world \<Rightarrow> (gref \<Rightarrow> nref set) \<Rightarrow> (gref \<Rightarrow> eref set) \<Rightarrow> world \<Rightarrow> bool" where
  "pruned s X D s' \<longleftrightarrow> same_rest s s' \<and>
     (\<forall>g. live_graph s g \<longrightarrow>
        g_seq (graphs s' g) = g_seq (graphs s g) \<and> g_id (graphs s' g) = g_id (graphs s g) \<and>
        gid (graphs s' g) = gid (graphs s g) \<and> gseq (graphs s' g) = gseq (graphs s g) \<and>
        directed (graphs s' g) = directed (graphs s g) \<and> strict (graphs s' g) = strict (graphs s g) \<and>
        no_loop (graphs s' g) = no_loop (graphs s g) \<and>
        N s' g = filter (\<lambda>m. m \<notin> X g) (N s g) \<and> node_set_ok (AGID_n s) (n_id (graphs s' g)) \<and>
        nelems (n_id (graphs s' g)) = set (N s' g) \<and>
        (\<forall>m\<in>set (N s' g). sub_of s' g m = drop_edges (D g) (sub_of s g m)))"

lemma pruned_live: "pruned s X D s' \<Longrightarrow> live_graph s' g = live_graph s g"
  by (rule live_cong) (simp add: pruned_def)

lemma pruned_refl: "structure_ok s \<Longrightarrow> pruned s (\<lambda>_. {}) (\<lambda>_. {}) s"
  using structure_okD(1) [of s] by (simp add: pruned_def same_rest_def nodes_ok_def)

lemma pruned_trans:
  assumes "pruned s X D s1" and "pruned s1 X' D' s2"
  shows "pruned s (\<lambda>g. X g \<union> X' g) (\<lambda>g. D g \<union> D' g) s2"
  using assms pruned_live [OF assms(1)] unfolding pruned_def same_rest_def
  by (auto simp: drop_drop filter_filter intro!: filter_cong)

lemma pruned_hook: "pruned s X D s' \<Longrightarrow> pruned s X D (hook h s')"
  by (simp add: pruned_def same_rest_def)

text \<open>Only what the graphs have counts.\<close>

lemma pruned_same:
  assumes ok: "structure_ok s" and p: "pruned s X D s'"
    and same: "\<And>g. live_graph s g \<Longrightarrow> set (N s g) \<inter> X g = set (N s g) \<inter> X' g \<and> E s g \<inter> D g = E s g \<inter> D' g"
  shows "pruned s X' D' s'"
proof -
  have "filter (\<lambda>m. m \<notin> X g) (N s g) = filter (\<lambda>m. m \<notin> X' g) (N s g)" if "live_graph s g" for g
    by (rule filter_cong) (use same [OF that] in auto)
  moreover have "drop_edges (D g) (sub_of s g m) = drop_edges (D' g) (sub_of s g m)"
    if "live_graph s g" "m \<in> set (N s g)" for g m
    using structure_okD(2) [OF ok that(1)] that(2) same [OF that(1)]
    by (intro drop_same [of s "E s g" m]) (auto simp: edges_ok_def)
  ultimately show ?thesis using p unfolding pruned_def by auto
qed

text \<open>What may be taken out: with a node its edges, and from a graph nothing its subgraphs keep.\<close>

definition removable :: "world \<Rightarrow> (gref \<Rightarrow> nref set) \<Rightarrow> (gref \<Rightarrow> eref set) \<Rightarrow> bool" where
  "removable s X D \<longleftrightarrow>
     (\<forall>g e. live_graph s g \<longrightarrow> e \<in> E s g \<longrightarrow> etail (edges s e) \<in> X g \<or> ehead (edges s e) \<in> X g \<longrightarrow> e \<in> D g) \<and>
     (\<forall>k p. live_graph s (k # p) \<longrightarrow> set (N s (k # p)) \<inter> X p \<subseteq> X (k # p) \<and> E s (k # p) \<inter> D p \<subseteq> D (k # p))"

lemma same_keys:
  assumes "nodes s' = nodes s" and "edges s' = edges s"
  shows "agsubnodeseqcmpf s' = agsubnodeseqcmpf s" "lists_ok s' = lists_ok s"
    "agedgeseqcmpf s' = agedgeseqcmpf s" "agedgeidcmpf s' = agedgeidcmpf s" "enode s' = enode s"
proof -
  show e: "enode s' = enode s" by (simp add: fun_eq_iff enode_def assms)
  show "agsubnodeseqcmpf s' = agsubnodeseqcmpf s" by (simp add: fun_eq_iff agsubnodeseqcmpf_def assms)
  have "seq_key s' = seq_key s" "id_key s' = id_key s"
    by (simp_all add: fun_eq_iff seq_key_def id_key_def e assms)
  then show "lists_ok s' = lists_ok s" by (intro ext) (simp only: lists_ok_def assms)
  show "agedgeseqcmpf s' = agedgeseqcmpf s" by (simp add: fun_eq_iff agedgeseqcmpf_def e assms)
  show "agedgeidcmpf s' = agedgeidcmpf s"
    by (simp add: fun_eq_iff agedgeidcmpf_def e assms cong: option.case_cong)
qed

lemma pruned_ok:
  assumes ok: "structure_ok s" and rem: "removable s X D" and p: "pruned s X D s'"
  shows "structure_ok s'" and "live_graph s g \<Longrightarrow> E s' g = E s g - D g"
proof -
  note live = pruned_live [OF p]
  have n: "nodes s' = nodes s" and e: "edges s' = edges s" and cl: "clos s' = clos s" and gn: "gnext s' = gnext s"
    using p by (simp_all add: pruned_def same_rest_def)
  note keys [simp] = same_keys [OF n e]
  have N: "N s' g = filter (\<lambda>m. m \<notin> X g) (N s g)" if "live_graph s g" for g
    using p that by (simp add: pruned_def)
  have lists: "lists_ok s' (E s g - D g) m (sub_of s' g m)" if "live_graph s g" "m \<in> set (N s' g)" for g m
  proof -
    have "lists_ok s (E s g) m (sub_of s g m)"
      using structure_okD(2) [OF ok that(1)] that N by (auto simp: edges_ok_def)
    then show ?thesis using p that drop_lists_ok by (simp add: pruned_def)
  qed
  have ends: "etail (edges s' f) \<in> set (N s' g) \<and> ehead (edges s' f) \<in> set (N s' g)"
    if "live_graph s g" "f \<in> E s g - D g" for f g
    using edge_ends [OF ok that(1), of f] that rem by (auto simp: N e removable_def)
  show E: "E s' g = E s g - D g" if "live_graph s g" for g
    using E_from_lists [of s' g "E s g - D g"] lists [OF that] ends [OF that] by blast
  show "structure_ok s'"
    unfolding structure_ok_def live
  proof (intro allI impI conjI)
    fix g assume l: "live_graph s g"
    note okg = structure_okD [OF ok l]
    have same: "g_seq (graphs s' g) = g_seq (graphs s g)" "g_id (graphs s' g) = g_id (graphs s g)"
      using p l by (simp_all add: pruned_def)
    show "nodes_ok s' g"
      using okg(1) p l by (simp add: nodes_ok_def pruned_def same_rest_def N ordered_def sorted_wrt_filter)
    show "edges_ok s' g" using lists [OF l] ends [OF l] by (simp add: edges_ok_def E [OF l])
    show "subgraphs_ok s' g"
      unfolding subgraphs_ok_def same
    proof (intro conjI ballI)
      have ch: "live_graph s c" "\<exists>k. c = k # g" if c: "c \<in> set (g_seq (graphs s g))" for c
        using subgraph_child [OF okg(3) c] c l by (metis live_graph.simps(2))+
      have gs: "gseq (graphs s' c) = gseq (graphs s c)" "gid (graphs s' c) = gid (graphs s c)"
        if "c \<in> set (g_seq (graphs s g))" for c using p ch(1) [OF that] by (simp_all add: pruned_def)
      have "ordered (agraphseqcmpf s') (g_seq (graphs s g)) = ordered (agraphseqcmpf s) (g_seq (graphs s g))"
        by (rule ordered_cong) (simp add: agraphseqcmpf_def gs)
      then show "ordered (agraphseqcmpf s') (g_seq (graphs s g))" using okg(3) by (simp add: subgraphs_ok_def)
      have "ordered (\<lambda>a b. cmp_nat (gid (graphs s' a)) (gid (graphs s' b))) (g_id (graphs s g)) =
          ordered (\<lambda>a b. cmp_nat (gid (graphs s a)) (gid (graphs s b))) (g_id (graphs s g))"
        by (rule ordered_cong) (use okg(3) gs in \<open>simp add: subgraphs_ok_def\<close>)
      then show "ordered (\<lambda>a b. cmp_nat (gid (graphs s' a)) (gid (graphs s' b))) (g_id (graphs s g))"
        using okg(3) by (simp add: subgraphs_ok_def)
      show "set (g_id (graphs s g)) = set (g_seq (graphs s g))" using okg(3) by (simp add: subgraphs_ok_def)
      fix c assume c: "c \<in> set (g_seq (graphs s g))"
      from subgraph_child [OF okg(3) c] obtain k where k: "c = k # g" "k < gnext s" "\<forall>j\<in>set g. j < k"
        "gseq (graphs s c) \<le> seqs (clos s) AGRAPH" "set (N s c) \<subseteq> set (N s g)" "E s c \<subseteq> E s g"
        "directed (graphs s c) = directed (graphs s g)" "strict (graphs s c) = strict (graphs s g)"
        "no_loop (graphs s c) = no_loop (graphs s g)" .
      have down: "set (N s c) \<inter> X g \<subseteq> X c" "E s c \<inter> D g \<subseteq> D c"
        using rem ch(1) [OF c] k(1) by (auto simp: removable_def)
      have "set (N s' c) \<subseteq> set (N s' g)" "E s' c \<subseteq> E s' g"
        using k(5,6) down by (auto simp: N [OF l] N [OF ch(1) [OF c]] E [OF l] E [OF ch(1) [OF c]])
      moreover have "directed (graphs s' c) = directed (graphs s' g)" "strict (graphs s' c) = strict (graphs s' g)"
        "no_loop (graphs s' c) = no_loop (graphs s' g)"
        using p l ch(1) [OF c] k(7-9) by (simp_all add: pruned_def)
      ultimately show "\<exists>k. c = k # g \<and> k < gnext s' \<and>
        (\<forall>j\<in>set g. j < k) \<and> gseq (graphs s' c) \<le> seqs (clos s') AGRAPH \<and>
        set (N s' c) \<subseteq> set (N s' g) \<and> E s' c \<subseteq> E s' g \<and>
        directed (graphs s' c) = directed (graphs s' g) \<and> strict (graphs s' c) = strict (graphs s' g) \<and>
        no_loop (graphs s' c) = no_loop (graphs s' g)"
        using k(1-4) gs [OF c] cl gn by simp
    qed
  qed
qed

section \<open>One edge from one graph\<close>

definition only :: "gref \<Rightarrow> 'a set \<Rightarrow> gref \<Rightarrow> 'a set" where
  "only g D = (\<lambda>a. if a = g then D else {})"

lemma only_simps [simp]: "only g D g = D" "a \<noteq> g \<Longrightarrow> only g D a = {}" "only g {} = (\<lambda>_. {})"
  by (simp_all add: only_def fun_eq_iff)

definition same_flags :: "agraph \<Rightarrow> agraph \<Rightarrow> bool" where
  "same_flags G G' \<longleftrightarrow> g_seq G' = g_seq G \<and> g_id G' = g_id G \<and> gid G' = gid G \<and> gseq G' = gseq G \<and>
     directed G' = directed G \<and> strict G' = strict G \<and> no_loop G' = no_loop G"

text \<open>A change of one graph.\<close>

lemma pruned_one:
  assumes ok: "structure_ok s" and rest: "same_rest s s'" and other: "\<And>a. a \<noteq> g \<Longrightarrow> graphs s' a = graphs s a"
    and fl: "same_flags (graphs s g) (graphs s' g)" and n: "N s' g = filter (\<lambda>m. m \<notin> X) (N s g)"
    and t: "node_set_ok (AGID_n s) (n_id (graphs s' g))" "nelems (n_id (graphs s' g)) = set (N s' g)"
    and d: "\<And>m. m \<in> set (N s' g) \<Longrightarrow> sub_of s' g m = drop_edges D (sub_of s g m)"
  shows "pruned s (only g X) (only g D) s'"
  unfolding pruned_def
proof (intro conjI allI impI ballI)
  show "same_rest s s'" by (rule rest)
  fix a assume "live_graph s a"
  then have "node_set_ok (AGID_n s) (n_id (graphs s a))" "nelems (n_id (graphs s a)) = set (N s a)"
    using structure_okD(1) [OF ok] by (simp_all add: nodes_ok_def)
  then show "node_set_ok (AGID_n s) (n_id (graphs s' a))" "nelems (n_id (graphs s' a)) = set (N s' a)"
    using other t by (cases "a = g"; simp)+
  show "g_seq (graphs s' a) = g_seq (graphs s a)" "g_id (graphs s' a) = g_id (graphs s a)"
    "gid (graphs s' a) = gid (graphs s a)" "gseq (graphs s' a) = gseq (graphs s a)"
    "directed (graphs s' a) = directed (graphs s a)" "strict (graphs s' a) = strict (graphs s a)"
    "no_loop (graphs s' a) = no_loop (graphs s a)"
    using other fl by (cases "a = g"; simp add: same_flags_def)+
  show "N s' a = filter (\<lambda>m. m \<notin> only g X a) (N s a)" using other n by (cases "a = g"; simp)
  show "sub_of s' a m = drop_edges (only g D a) (sub_of s a m)" if "m \<in> set (N s' a)" for m
    using other d that by (cases "a = g"; simp)
qed

context comparator
begin

lemma od_delete_member:
  assumes "ordered cmp es" and "x \<in> set es"
  shows "od_delete (cmp x) es = filter (\<lambda>f. f \<noteq> x) es"
proof -
  from assms(2) obtain ys zs where es: "es = ys @ x # zs" by (meson split_list)
  have "\<forall>y\<in>set ys. 0 < cmp x y" using assms(1) cmp_sym by (auto simp: es ordered_append)
  then have "od_delete (cmp x) es = ys @ zs" unfolding es using cmp_refl by (rule od_delete_found)
  moreover have "distinct es" by (rule ordered_distinct [OF assms(1)])
  then have "filter (\<lambda>f. f \<noteq> x) ys = ys" "filter (\<lambda>f. f \<noteq> x) zs = zs" by (auto simp: es intro!: filter_all)
  ultimately show ?thesis by (simp add: es)
qed

end

lemma delete_by_key:
  fixes k :: "'b \<Rightarrow> nat \<times> nat"
  assumes "ordered (\<lambda>e f. lexcmp (k e) (k f)) es" and "x \<in> set es" and c: "\<forall>f\<in>set es. c f = lexcmp (k x) (k f)"
  shows "od_find c es \<noteq> None \<and> od_delete c es = filter (\<lambda>f. f \<noteq> x) es"
  using by_lex.od_delete_member [OF assms(1,2)] by_lex.od_find_member [OF assms(1,2)]
    od_find_cong [of es c] od_delete_cong [of es c] c by simp

lemma del_seq_key:
  assumes "lists_ok s es n x" and "keyed s ns" and "\<forall>f\<in>es. etail (edges s f) \<in> ns \<and> ehead (edges s f) \<in> ns"
    and "e \<in> es"
  shows "n = etail (edges s e) \<Longrightarrow> del_seq s (e, OUT) (out_seq x) = Some (out_seq (drop_edges {e} x)) \<and>
      del_id s (e, OUT) (out_id x) = Some (out_id (drop_edges {e} x))"
    and "n = ehead (edges s e) \<Longrightarrow> del_seq s (e, IN) (in_seq x) = Some (in_seq (drop_edges {e} x)) \<and>
      del_id s (e, IN) (in_id x) = Some (in_id (drop_edges {e} x))"
proof -
  have key: "agedgeseqcmpf s (e, d) f = lexcmp (seq_key s (e, d)) (seq_key s f)" if "fst f \<in> es" for f d
    by (rule seqcmp_key) (use assms(2-4) that in \<open>auto simp: enode_def keyed_def inj_on_def split: if_splits\<close>)
  have f: "filter (\<lambda>f. f \<noteq> (e, d)) xs = filter (\<lambda>f. fst f \<notin> {e}) xs" if "\<forall>f\<in>set xs. snd f = d" for d xs
    by (rule filter_cong) (use that in auto)
  have del: "del_seq s (e, d) xs = Some (filter (\<lambda>f. fst f \<notin> {e}) xs)"
    if "ordered (\<lambda>e f. lexcmp (seq_key s e) (seq_key s f)) xs" "(e, d) \<in> set xs" "\<forall>f\<in>set xs. fst f \<in> es \<and> snd f = d"
    for d xs
    using delete_by_key [OF that(1,2), of "agedgeseqcmpf s (e, d)"] key that(3) f [of xs d] by (simp add: del_seq_def)
  have did: "del_id s (e, d) xs = Some (filter (\<lambda>f. fst f \<notin> {e}) xs)"
    if "ordered (\<lambda>e f. lexcmp (id_key s e) (id_key s f)) xs" "(e, d) \<in> set xs" "\<forall>f\<in>set xs. fst f \<in> es \<and> snd f = d"
    for d xs
    using delete_by_key [OF that(1,2), of "agedgeidcmpf s (edge_key s (e, d))", unfolded idcmp_key] that(3) f [of xs d]
    by (simp add: del_id_def idcmp_key [of s "(e, d)", simplified, abs_def])
  show "n = etail (edges s e) \<Longrightarrow> del_seq s (e, OUT) (out_seq x) = Some (out_seq (drop_edges {e} x)) \<and>
      del_id s (e, OUT) (out_id x) = Some (out_id (drop_edges {e} x))"
    using assms(1,4) del [of "out_seq x" OUT] did [of "out_id x" OUT] by (auto simp: lists_ok_def)
  show "n = ehead (edges s e) \<Longrightarrow> del_seq s (e, IN) (in_seq x) = Some (in_seq (drop_edges {e} x)) \<and>
      del_id s (e, IN) (in_id x) = Some (in_id (drop_edges {e} x))"
    using assms(1,4) del [of "in_seq x" IN] did [of "in_id x" IN] by (auto simp: lists_ok_def)
qed

lemma drop_other:
  assumes "lists_ok s es n x" and "n \<noteq> etail (edges s e)" and "n \<noteq> ehead (edges s e)"
  shows "drop_edges {e} x = x"
proof -
  have "filter (\<lambda>f. fst f \<notin> {e}) (out_seq x) = out_seq x" "filter (\<lambda>f. fst f \<notin> {e}) (out_id x) = out_id x"
    "filter (\<lambda>f. fst f \<notin> {e}) (in_seq x) = in_seq x" "filter (\<lambda>f. fst f \<notin> {e}) (in_id x) = in_id x"
    by (rule filter_all, use assms in \<open>auto simp: lists_ok_def\<close>)+
  then show ?thesis by (simp add: drop_edges_def)
qed

lemma drop_halves:
  assumes "lists_ok s es n x"
  shows "n \<noteq> ehead (edges s e) \<Longrightarrow> x\<lparr>out_seq := out_seq (drop_edges {e} x), out_id := out_id (drop_edges {e} x)\<rparr> =
      drop_edges {e} x"
    and "n \<noteq> etail (edges s e) \<Longrightarrow> x\<lparr>in_seq := in_seq (drop_edges {e} x), in_id := in_id (drop_edges {e} x)\<rparr> =
      drop_edges {e} x"
proof -
  have "filter (\<lambda>f. fst f \<notin> {e}) (in_seq x) = in_seq x" "filter (\<lambda>f. fst f \<notin> {e}) (in_id x) = in_id x"
    if "n \<noteq> ehead (edges s e)" by (rule filter_all, use assms that in \<open>auto simp: lists_ok_def\<close>)+
  then show "n \<noteq> ehead (edges s e) \<Longrightarrow>
      x\<lparr>out_seq := out_seq (drop_edges {e} x), out_id := out_id (drop_edges {e} x)\<rparr> = drop_edges {e} x"
    by (simp add: drop_edges_def)
  have "filter (\<lambda>f. fst f \<notin> {e}) (out_seq x) = out_seq x" "filter (\<lambda>f. fst f \<notin> {e}) (out_id x) = out_id x"
    if "n \<noteq> etail (edges s e)" by (rule filter_all, use assms that in \<open>auto simp: lists_ok_def\<close>)+
  then show "n \<noteq> etail (edges s e) \<Longrightarrow>
      x\<lparr>in_seq := in_seq (drop_edges {e} x), in_id := in_id (drop_edges {e} x)\<rparr> = drop_edges {e} x"
    by (simp add: drop_edges_def)
qed

lemma deledgeimage_pruned:
  assumes ok: "structure_ok s" and l: "live_graph s g" and e: "e \<in> E s g"
  shows "\<exists>s'. agdeledgeimage s g (e, d) = Some s' \<and> pruned s (only g {}) (only g {e}) s'"
proof -
  let ?t = "etail (edges s e)" and ?h = "ehead (edges s e)" and ?x = "sub_of s g"
  note th = edge_ends [OF ok l e] and no = structure_okD(1) [OF ok l] and eo = structure_okD(2) [OF ok l]
  have lists: "lists_ok s (E s g) n (?x n)" if "n \<in> set (N s g)" for n using eo that by (simp add: edges_ok_def)
  have ends: "\<forall>f\<in>E s g. etail (edges s f) \<in> set (N s g) \<and> ehead (edges s f) \<in> set (N s g)"
    using edge_ends [OF ok l] by blast
  note del = del_seq_key [OF lists nodes_keyed [OF no] ends e]
  let ?f = "\<lambda>sn. sn\<lparr>in_seq := in_seq (drop_edges {e} (?x ?h)), in_id := in_id (drop_edges {e} (?x ?h))\<rparr>"
    and ?k = "\<lambda>sn. sn\<lparr>out_seq := out_seq (drop_edges {e} (?x ?t)), out_id := out_id (drop_edges {e} (?x ?t))\<rparr>"
  let ?s = "upd_subnode g ?h ?f (upd_subnode g ?t ?k s)"
  have im: "agdeledgeimage s g (e, d) = Some ?s"
    using del(1) [OF th(1) refl] del(2) [OF th(2) refl] subrep [OF no th(1)] subrep [OF no th(2)]
    by (simp add: agdeledgeimage_def AGMKOUT_def AGMKIN_def)
  have "sub_of ?s g m = drop_edges {e} (?x m)" if m: "m \<in> set (N s g)" for m
  proof -
    consider "m = ?t" "m = ?h" | "m = ?t" "m \<noteq> ?h" | "m \<noteq> ?t" "m = ?h" | "m \<noteq> ?t" "m \<noteq> ?h" by blast
    then show ?thesis
    proof cases
      case 1
      then show ?thesis by (simp add: upd_subnode_def upd_graph_def drop_edges_def)
    next
      case 2
      with drop_halves(1) [OF lists [OF m] 2(2)] show ?thesis by (simp add: upd_subnode_def upd_graph_def)
    next
      case 3
      with drop_halves(2) [OF lists [OF m] 3(1)] show ?thesis by (simp add: upd_subnode_def upd_graph_def)
    next
      case 4
      with drop_other [OF lists [OF m] 4] show ?thesis by (simp add: upd_subnode_def upd_graph_def)
    qed
  qed
  moreover have "\<exists>u. graphs ?s g = (graphs s g)\<lparr>subnodes := u\<rparr>" by (auto simp: upd_subnode_def upd_graph_def)
  then have "N ?s g = N s g" "n_id (graphs ?s g) = n_id (graphs s g)" "same_flags (graphs s g) (graphs ?s g)"
    by (auto simp: same_flags_def)
  moreover have "same_rest s ?s" by (simp add: same_rest_def upd_subnode_def upd_graph_def)
  ultimately have "pruned s (only g {}) (only g {e}) ?s"
    using no by (intro pruned_one [OF ok]) (auto simp: nodes_ok_def upd_subnode_def upd_graph_def)
  with im show ?thesis by blast
qed

section \<open>The edges of a node\<close>

text \<open>What the iteration visits: the out-edges, then the in-edges that are not loops.\<close>

definition node_edges :: "world \<Rightarrow> gref \<Rightarrow> nref \<Rightarrow> handle list" where
  "node_edges s g n = out_seq (sub_of s g n) @ filter (\<lambda>f. enode s f \<noteq> n) (in_seq (sub_of s g n))"

lemma seq_next:
  assumes o: "ordered (\<lambda>e f. lexcmp (seq_key s e) (seq_key s f)) (xs @ e # ys)" and k: "keyed s ns"
    and es: "\<forall>f\<in>set (xs @ e # ys). enode s f \<in> ns"
  shows "od_next (agedgeseqcmpf s e) (xs @ e # ys) = hd_opt ys"
proof -
  have c: "agedgeseqcmpf s e f = lexcmp (seq_key s e) (seq_key s f)" if "f \<in> set (xs @ e # ys)" for f
    by (rule seqcmp_key) (use k es that in \<open>auto simp: keyed_def inj_on_def\<close>)
  have a: "\<forall>z\<in>set xs. lexcmp (seq_key s z) (seq_key s e) < 0" and b: "\<forall>z\<in>set ys. lexcmp (seq_key s e) (seq_key s z) < 0"
    using o by (simp_all add: ordered_append ordered_Cons del: lexcmp_simps)
  have "0 < lexcmp (seq_key s e) (seq_key s z)" if "z \<in> set xs" for z
    using by_lex.cmp_sym [of "seq_key s" z e] a that by blast
  moreover have "lexcmp (seq_key s e) (seq_key s e) = 0" by simp
  ultimately have "\<forall>z\<in>set (xs @ [e]). 0 \<le> agedgeseqcmpf s e z" "\<forall>z\<in>set ys. agedgeseqcmpf s e z < 0"
    using b c by (auto simp del: lexcmp_simps simp: less_imp_le)
  from od_next_cut [OF this] show ?thesis by simp
qed

lemma node_lists:
  assumes "structure_ok s" and "live_graph s g" and "n \<in> set (N s g)"
  shows "lists_ok s (E s g) n (sub_of s g n)" and "keyed s (set (N s g))" and "agsubrep s g n = Some n"
    and "f \<in> set (out_seq (sub_of s g n)) \<longleftrightarrow> fst f \<in> E s g \<and> snd f = OUT \<and> AGTAIL s f = n"
    and "f \<in> set (in_seq (sub_of s g n)) \<longleftrightarrow> fst f \<in> E s g \<and> snd f = IN \<and> AGHEAD s f = n"
    and "fst f \<in> E s g \<Longrightarrow> enode s f \<in> set (N s g)"
proof -
  note no = structure_okD(1) [OF assms(1,2)] and eo = structure_okD(2) [OF assms(1,2)]
  show "lists_ok s (E s g) n (sub_of s g n)" using eo assms(3) by (simp add: edges_ok_def)
  show "keyed s (set (N s g))" by (rule nodes_keyed [OF no])
  show "agsubrep s g n = Some n" by (rule subrep [OF no assms(3)])
  obtain x d where f: "f = (x, d)" by (cases f)
  show "f \<in> set (out_seq (sub_of s g n)) \<longleftrightarrow> fst f \<in> E s g \<and> snd f = OUT \<and> AGTAIL s f = n"
    using in_list(4) [OF eo assms(3)] by (simp add: f)
  show "f \<in> set (in_seq (sub_of s g n)) \<longleftrightarrow> fst f \<in> E s g \<and> snd f = IN \<and> AGHEAD s f = n"
    using in_list(2) [OF eo assms(3)] by (simp add: f)
  show "fst f \<in> E s g \<Longrightarrow> enode s f \<in> set (N s g)"
    using edge_ends [OF assms(1,2)] by (simp add: f enode_def)
qed

lemma next_out:
  assumes ok: "structure_ok s" and l: "live_graph s g" and n: "n \<in> set (N s g)"
    and xs: "out_seq (sub_of s g n) = xs @ e # ys"
  shows "agnxtout s g e = hd_opt ys"
proof -
  note nl = node_lists [OF ok l n]
  have "AGTAIL s e = n" using nl(4) [of e] xs by simp
  moreover have "ordered (\<lambda>e f. lexcmp (seq_key s e) (seq_key s f)) (xs @ e # ys)"
    using nl(1) xs by (simp add: lists_ok_def)
  from seq_next [OF this nl(2)] nl(4,6) xs
  have "od_next (agedgeseqcmpf s e) (xs @ e # ys) = hd_opt ys" by metis
  ultimately show ?thesis using nl(3) xs by (simp add: agnxtout_def)
qed

lemma next_in:
  assumes ok: "structure_ok s" and l: "live_graph s g" and n: "n \<in> set (N s g)"
    and xs: "in_seq (sub_of s g n) = xs @ e # ys"
  shows "agnxtin s g e = hd_opt ys"
proof -
  note nl = node_lists [OF ok l n]
  have "AGHEAD s e = n" using nl(5) [of e] xs by simp
  moreover have "ordered (\<lambda>e f. lexcmp (seq_key s e) (seq_key s f)) (xs @ e # ys)"
    using nl(1) xs by (simp add: lists_ok_def)
  from seq_next [OF this nl(2)] nl(5,6) xs
  have "od_next (agedgeseqcmpf s e) (xs @ e # ys) = hd_opt ys" by metis
  ultimately show ?thesis using nl(3) xs by (simp add: agnxtin_def)
qed

lemma skip_loops_filter:
  assumes ok: "structure_ok s" and l: "live_graph s g" and n: "n \<in> set (N s g)"
  shows "in_seq (sub_of s g n) = us @ ws \<Longrightarrow> length ws < k \<Longrightarrow>
    skip_loops k s g n (hd_opt ws) = Some (hd_opt (filter (\<lambda>f. enode s f \<noteq> n) ws))"
proof (induction ws arbitrary: us k)
  case Nil
  then show ?case by (cases k) simp_all
next
  case (Cons f ws)
  then obtain m where k: "k = Suc m" by (cases k) auto
  from next_in [OF ok l n Cons.prems(1)] Cons.IH [of "us @ [f]" m] Cons.prems show ?case by (simp add: k)
qed

lemma filter_split:
  assumes "filter P xs = us @ e # ys"
  obtains vs ws where "xs = vs @ e # ws" and "filter P ws = ys"
  using assms
proof (induction xs arbitrary: us thesis)
  case (Cons x xs)
  show ?case
  proof (cases "P x \<and> us = []")
    case True
    with Cons.prems(2) have "x # xs = [] @ e # xs" "filter P xs = ys" by simp_all
    then show ?thesis by (rule Cons.prems(1))
  next
    case False
    then obtain vs where "filter P xs = vs @ e # ys" using Cons.prems(2) by (cases us) (auto split: if_splits)
    then obtain as bs where "xs = as @ e # bs" "filter P bs = ys" using Cons.IH by blast
    then show ?thesis using Cons.prems(1) [of "x # as" bs] by simp
  qed
qed simp

lemma fst_edge:
  assumes ok: "structure_ok s" and l: "live_graph s g" and n: "n \<in> set (N s g)"
  shows "agfstedge s g n = hd_opt (node_edges s g n)"
proof -
  note nl = node_lists [OF ok l n]
  have "enode s f \<noteq> n" if "f \<in> set (in_seq (sub_of s g n))" "out_seq (sub_of s g n) = []" for f
    using nl(4) [of "(fst f, OUT)"] nl(5) [of f] that by (auto simp: enode_def)
  then have "filter (\<lambda>f. enode s f \<noteq> n) (in_seq (sub_of s g n)) = in_seq (sub_of s g n)"
    if "out_seq (sub_of s g n) = []" using that by (intro filter_all) blast
  then show ?thesis using nl(3)
    by (cases "out_seq (sub_of s g n)") (auto simp: agfstedge_def agfstout_def agfstin_def node_edges_def)
qed

lemma nxt_edge:
  assumes ok: "structure_ok s" and l: "live_graph s g" and n: "n \<in> set (N s g)"
    and e: "node_edges s g n = xs @ e # ys"
  shows "agnxtedge s g e n = Some (hd_opt ys)"
proof -
  note nl = node_lists [OF ok l n]
  let ?out = "out_seq (sub_of s g n)" and ?in = "in_seq (sub_of s g n)" and ?P = "\<lambda>f. enode s f \<noteq> n"
  have d: "\<forall>f\<in>set ?out. snd f = OUT" "\<forall>f\<in>set ?in. snd f = IN" using nl(4,5) by auto
  have fuel: "length ?in < loop_fuel s g n" by (simp add: loop_fuel_def)
  from e have "(\<exists>zs. ?out = xs @ e # zs \<and> ys = zs @ filter ?P ?in) \<or>
    (\<exists>us. xs = ?out @ us \<and> filter ?P ?in = us @ e # ys)"
    unfolding node_edges_def by (auto simp: append_eq_append_conv2 append_eq_Cons_conv Cons_eq_append_conv)
  then show ?thesis
  proof (elim disjE exE conjE)
    fix zs assume out: "?out = xs @ e # zs" and ys: "ys = zs @ filter ?P ?in"
    have "snd e = OUT" using d(1) out by simp
    moreover have "skip_loops (loop_fuel s g n) s g n (agfstin s g n) = Some (hd_opt (filter ?P ?in))"
      using skip_loops_filter [OF ok l n _ fuel, of "[]"] nl(3) by (simp add: agfstin_def)
    ultimately show ?thesis
      using next_out [OF ok l n out] ys by (cases zs) (simp_all add: agnxtedge_def)
  next
    fix us assume xs: "xs = ?out @ us" and f: "filter ?P ?in = us @ e # ys"
    then obtain vs ws where iv: "?in = vs @ e # ws" "filter ?P ws = ys"
      by (elim filter_split)
    have "snd e = IN" using d(2) iv by simp
    moreover have "skip_loops (loop_fuel s g n) s g n (hd_opt ws) = Some (hd_opt (filter ?P ws))"
      using skip_loops_filter [OF ok l n, of "vs @ [e]" ws "loop_fuel s g n"] iv fuel by simp
    ultimately show ?thesis
      using next_in [OF ok l n iv(1)] iv(2) by (simp add: agnxtedge_def)
  qed
qed

lemma node_edges_set:
  assumes ok: "structure_ok s" and l: "live_graph s g" and n: "n \<in> set (N s g)"
  shows "fst ` set (node_edges s g n) = {e \<in> E s g. etail (edges s e) = n \<or> ehead (edges s e) = n}"
    and "distinct (map fst (node_edges s g n))"
proof -
  note nl = node_lists [OF ok l n]
  let ?out = "out_seq (sub_of s g n)" and ?in = "in_seq (sub_of s g n)"
  show "fst ` set (node_edges s g n) = {e \<in> E s g. etail (edges s e) = n \<or> ehead (edges s e) = n}"
    (is "?A = ?B")
  proof
    show "?A \<subseteq> ?B" using nl(4,5) by (auto simp: node_edges_def)
    show "?B \<subseteq> ?A"
    proof
      fix e assume e: "e \<in> ?B"
      show "e \<in> ?A"
      proof (cases "etail (edges s e) = n")
        case True
        then have "(e, OUT) \<in> set ?out" using nl(4) e by simp
        then show ?thesis by (force simp: node_edges_def)
      next
        case False
        then have "(e, IN) \<in> set ?in" "enode s (e, IN) \<noteq> n" using nl(5) e by (simp_all add: enode_def)
        then show ?thesis by (force simp: node_edges_def)
      qed
    qed
  qed
  have "distinct ?out" "distinct ?in"
    using nl(1) by_lex.ordered_distinct [of "seq_key s"] by (simp_all add: lists_ok_def)
  moreover have "snd f = OUT \<and> etail (edges s (fst f)) = n" if "f \<in> set ?out" for f using nl(4) that by simp
  moreover have "snd f = IN" if "f \<in> set ?in" for f using nl(5) that by simp
  moreover have "enode s f = etail (edges s (fst f))" if "f \<in> set ?in" for f using nl(5) that by (simp add: enode_def)
  ultimately show "distinct (map fst (node_edges s g n))"
    unfolding node_edges_def by (auto simp: distinct_map inj_on_def prod_eq_iff)
qed

section \<open>One node from one graph\<close>

definition incident :: "world \<Rightarrow> nref \<Rightarrow> eref set" where
  "incident s n = {e. etail (edges s e) = n \<or> ehead (edges s e) = n}"

lemma node_edges_pruned:
  assumes "pruned s X D s'" and "live_graph s g" and "n \<in> set (N s' g)"
  shows "node_edges s' g n = filter (\<lambda>f. fst f \<notin> D g) (node_edges s g n)"
proof -
  have "sub_of s' g n = drop_edges (D g) (sub_of s g n)" "enode s' = enode s"
    using assms same_keys(5) [of s' s] by (auto simp: pruned_def same_rest_def)
  then show ?thesis by (auto simp: node_edges_def intro: filter_cong)
qed

lemma drop_node_edges:
  assumes ok: "structure_ok s" and l: "live_graph s g" and n: "n \<in> set (N s g)"
    and alone: "\<forall>c\<in>set (g_seq (graphs s g)). n \<notin> set (N s c)"
  shows "\<exists>s'. walk (loop_fuel s g n) (nxtedge_of g n) (\<lambda>e s'. agdeledgeimage s' g e) (agfstedge s g n) s = Some s' \<and>
    structure_ok s' \<and> pruned s (only g {}) (only g (incident s n)) s'"
proof -
  let ?L = "node_edges s g n"
  define Q where "Q xs s1 \<longleftrightarrow> structure_ok s1 \<and> node_edges s1 g n = xs \<and>
      pruned s (only g {}) (only g (fst ` set ?L - fst ` set xs)) s1" for xs s1
  have "Q ?L s" using ok pruned_refl [OF ok] by (simp add: Q_def)
  moreover have "length ?L < loop_fuel s g n"
    using length_filter_le [of "\<lambda>f. enode s f \<noteq> n" "in_seq (sub_of s g n)"]
    by (simp add: node_edges_def loop_fuel_def less_Suc_eq_le)
  moreover have "nxtedge_of g n s1 x = hd_opt ys \<and> (\<exists>s2. agdeledgeimage s1 g x = Some s2 \<and> Q ys s2)"
    if q: "Q (x # ys) s1" for x ys s1
  proof -
    have ok1: "structure_ok s1" and ne: "node_edges s1 g n = x # ys"
      and p: "pruned s (only g {}) (only g (fst ` set ?L - fst ` set (x # ys))) s1"
      using q by (simp_all add: Q_def)
    have l1: "live_graph s1 g" and N1: "live_graph s a \<Longrightarrow> N s1 a = N s a" and
      gs: "g_seq (graphs s1 g) = g_seq (graphs s g)" and lv: "live_graph s1 a = live_graph s a" for a
      using pruned_live [OF p] p l by (simp_all add: pruned_def)
    have n1: "n \<in> set (N s1 g)" using N1 [OF l] n by simp
    have ed: "edges s1 = edges s" using p by (simp add: pruned_def same_rest_def)
    have x: "fst x \<in> E s1 g" "etail (edges s1 (fst x)) = n \<or> ehead (edges s1 (fst x)) = n"
      using node_edges_set(1) [OF ok1 l1 n1] ne by auto
    from deledgeimage_pruned [OF ok1 l1 x(1), of "snd x"] obtain s2 where
      s2: "agdeledgeimage s1 g x = Some s2" "pruned s1 (only g {}) (only g {fst x}) s2" by auto
    have "fst x \<notin> E s1 (k # g)" if "live_graph s1 (k # g)" for k
    proof
      assume "fst x \<in> E s1 (k # g)"
      then have "n \<in> set (N s1 (k # g))" using edge_ends [OF ok1 that] x(2) by auto
      moreover have "k # g \<in> set (g_seq (graphs s g))" using that gs by simp
      ultimately show False using alone N1 [of "k # g"] that lv by auto
    qed
    then have "removable s1 (only g {}) (only g {fst x})"
      unfolding removable_def only_def by auto
    note ok2 = pruned_ok(1) [OF ok1 this s2(2)]
    have "node_edges s2 g n = filter (\<lambda>f. fst f \<noteq> fst x) (x # ys)"
      using node_edges_pruned [OF s2(2) l1, of n] n1 s2(2) l1 by (simp add: ne pruned_def)
    also have "\<dots> = ys"
    proof -
      have "fst x \<notin> fst ` set ys" using node_edges_set(2) [OF ok1 l1 n1] unfolding ne by simp
      then have "filter (\<lambda>f. fst f \<noteq> fst x) ys = ys" by (intro filter_all ballI) (metis imageI)
      then show ?thesis by simp
    qed
    finally have ne2: "node_edges s2 g n = ys" .
    have "set (x # ys) \<subseteq> set ?L" using node_edges_pruned [OF p l n1] by (simp only: ne) auto
    moreover have "fst x \<notin> fst ` set ys" using node_edges_set(2) [OF ok1 l1 n1] unfolding ne by simp
    ultimately have "(\<lambda>a. only g (fst ` set ?L - fst ` set (x # ys)) a \<union> only g {fst x} a) =
        only g (fst ` set ?L - fst ` set ys)" by (auto simp: only_def fun_eq_iff)
    with pruned_trans [OF p s2(2)] have "pruned s (only g {}) (only g (fst ` set ?L - fst ` set ys)) s2" by simp
    with ok2 ne2 have "Q ys s2" by (simp add: Q_def)
    then show ?thesis using s2(1) nxt_edge [OF ok1 l1 n1, of "[]" x ys] ne by (simp add: nxtedge_of_def)
  qed
  ultimately obtain s' where s': "walk (loop_fuel s g n) (nxtedge_of g n) (\<lambda>e s'. agdeledgeimage s' g e) (hd_opt ?L) s = Some s'"
    "Q [] s'" using walk_rule [of Q ?L s "loop_fuel s g n" "nxtedge_of g n" "\<lambda>e s'. agdeledgeimage s' g e"] by blast
  have "pruned s (only g {}) (only g (incident s n)) s'"
  proof (rule pruned_same [OF ok])
    show "pruned s (only g {}) (only g (fst ` set ?L)) s'" using s'(2) by (simp add: Q_def)
  qed (auto simp: only_def node_edges_set(1) [OF ok l n] incident_def)
  then show ?thesis using s' fst_edge [OF ok l n] by (simp add: Q_def)
qed

lemma delnodeimage_pruned:
  assumes ok: "structure_ok s" and l: "live_graph s g" and n: "n \<in> set (N s g)"
    and alone: "\<forall>c\<in>set (g_seq (graphs s g)). n \<notin> set (N s c)"
  shows "\<exists>s'. agdelnodeimage s g n = Some s' \<and> pruned s (only g {n}) (only g (incident s n)) s'"
proof -
  from drop_node_edges [OF assms] obtain s1 where
    w: "walk (loop_fuel s g n) (nxtedge_of g n) (\<lambda>e s'. agdeledgeimage s' g e) (agfstedge s g n) s = Some s1"
    and ok1: "structure_ok s1" and p: "pruned s (only g {}) (only g (incident s n)) s1" by blast
  let ?s = "upd_graph g (\<lambda>G. G\<lparr>n_id := node_set_remove (AGID_n s1) (n_id G) (AGID_n s1 n),
                               n_seq := od_delete (agsubnodeseqcmpf s1 n) (n_seq G)\<rparr>) s1"
  have l1: "live_graph s1 g" and n1: "n \<in> set (N s1 g)" using pruned_live [OF p] p l n by (simp_all add: pruned_def)
  note no = structure_okD(1) [OF ok1 l1]
  have "od_delete (agsubnodeseqcmpf s1 n) (N s1 g) = filter (\<lambda>m. m \<noteq> n) (N s1 g)"
    using by_nat.od_delete_member [of "AGSEQ_n s1" "N s1 g" n] no n1
    by (simp add: nodes_ok_def agsubnodeseqcmpf_def [abs_def])
  moreover have "{x \<in> set (N s1 g). AGID_n s1 x \<noteq> AGID_n s1 n} = set (N s1 g) - {n}"
    using id_unique [OF no n1] by auto
  ultimately have "pruned s1 (only g {n}) (only g {}) ?s"
    using no node_set_remove_correct [of "AGID_n s1" "n_id (graphs s1 g)" "AGID_n s1 n"]
    by (intro pruned_one [OF ok1]) (auto simp: upd_graph_def same_rest_def same_flags_def nodes_ok_def)
  from pruned_trans [OF p this] have "pruned s (only g {n}) (only g (incident s n)) ?s" by simp
  with w show ?thesis by (simp add: agdelnodeimage_def)
qed

section \<open>A graph and all its descendants\<close>

text \<open>
  What \<open>agapply\<close> needs of a callback that takes an object out of one graph: it finds the object in
  the subgraphs that have it and removes it where no subgraph has it any more. \<open>base\<close> is what the
  lookup relies on beyond the structure.
\<close>

definition has_any :: "nref set \<Rightarrow> eref set \<Rightarrow> world \<Rightarrow> gref \<Rightarrow> bool" where
  "has_any X D s g \<longleftrightarrow> set (N s g) \<inter> X \<noteq> {} \<or> E s g \<inter> D \<noteq> {}"

definition below :: "gref \<Rightarrow> 'a set \<Rightarrow> gref \<Rightarrow> 'a set" where
  "below g D = (\<lambda>a. if is_ancestor g a then D else {})"

lemma below_simps [simp]: "below g {} = (\<lambda>_. {})" "below g D g = D"
  by (auto simp: below_def fun_eq_iff)

locale deletion =
  fixes base :: "world \<Rightarrow> bool"
    and obj :: agobj
    and fn :: "gref \<Rightarrow> agobj \<Rightarrow> world \<Rightarrow> world option"
    and X :: "nref set"
    and D :: "eref set"
  assumes search: "base s \<Longrightarrow> structure_ok s \<Longrightarrow> live_graph s g \<Longrightarrow> g \<noteq> [] \<Longrightarrow>
      objsearch s g obj = (if has_any X D s g then Some obj else None)"
    and image: "base s \<Longrightarrow> structure_ok s \<Longrightarrow> live_graph s g \<Longrightarrow> has_any X D s g \<Longrightarrow>
      \<forall>c\<in>set (g_seq (graphs s g)). \<not> has_any X D s c \<Longrightarrow>
      \<exists>s'. fn g obj s = Some s' \<and> pruned s (only g X) (only g D) s'"
    and keeps: "base s \<Longrightarrow> structure_ok s \<Longrightarrow> structure_ok s' \<Longrightarrow> pruned s (below g X) (below g D) s' \<Longrightarrow> base s'"
    and edges_of: "base s \<Longrightarrow> etail (edges s e) \<in> X \<or> ehead (edges s e) \<in> X \<Longrightarrow> e \<in> D"

lemma ancestor_same_length: "is_ancestor a g \<Longrightarrow> length g = length a \<Longrightarrow> g = a"
  by (cases g) (auto dest: ancestor_length)

lemma ancestor_trans: "is_ancestor a b \<Longrightarrow> is_ancestor b c \<Longrightarrow> is_ancestor a c"
  by (induction c) auto

lemma ancestor_child:
  "live_graph s a \<Longrightarrow> is_ancestor g a \<Longrightarrow> a = g \<or> (\<exists>c\<in>set (g_seq (graphs s g)). is_ancestor c a)"
proof (induction a)
  case (Cons k p)
  show ?case
  proof (cases "k # p = g")
    case False
    with Cons have "p = g \<or> (\<exists>c\<in>set (g_seq (graphs s g)). is_ancestor c p)" by simp
    with Cons.prems(1) show ?thesis by auto
  qed simp
qed simp

lemma ancestor_tail: "is_ancestor g (k # p) \<Longrightarrow> length g \<le> length p \<Longrightarrow> is_ancestor g p"
  by auto

lemma next_subgraph:
  assumes ok: "structure_ok s" and l: "live_graph s g" and gs: "g_seq (graphs s g) = xs @ c # ys"
  shows "agnxtsubg s c = hd_opt ys"
proof -
  have "subgraphs_ok s g" using structure_okD(3) [OF ok l] .
  then have "ordered (agraphseqcmpf s) (xs @ c # ys)" "agparent c = Some g"
    using gs by (auto simp: subgraphs_ok_def agparent_def)
  moreover from this(1) have "\<forall>z\<in>set (xs @ [c]). 0 \<le> agraphseqcmpf s c z" "\<forall>z\<in>set ys. agraphseqcmpf s c z < 0"
    by (auto simp: ordered_append ordered_Cons agraphseqcmpf_def)
  from od_next_cut [OF this] have "od_next (agraphseqcmpf s c) (xs @ c # ys) = hd_opt ys" by simp
  ultimately show ?thesis by (simp add: agnxtsubg_def gs)
qed

context deletion
begin

text \<open>The graphs below the subgraphs \<open>cs\<close>.\<close>

definition under :: "gref list \<Rightarrow> 'a set \<Rightarrow> gref \<Rightarrow> 'a set" where
  "under cs S = (\<lambda>a. if \<exists>c\<in>set cs. is_ancestor c a then S else {})"

lemma removable_under:
  assumes "base s" and "structure_ok s" and "\<forall>c\<in>set cs. c \<noteq> []"
  shows "removable s (under cs X) (under cs D)"
  unfolding removable_def under_def using edges_of [OF assms(1)] by auto

lemma under_nil [simp]: "under [] S = (\<lambda>_. {})"
  by (simp add: under_def)

lemma under_snoc: "under cs S a \<union> below c S a = under (cs @ [c]) S a"
  by (auto simp: under_def below_def)

lemma below_nothing:
  assumes ok: "structure_ok s" and l: "live_graph s c" and no: "\<not> has_any X D s c"
  shows "pruned s (below c X) (below c D) s"
proof (rule pruned_same [OF ok pruned_refl [OF ok]])
  fix a assume la: "live_graph s a"
  show "set (N s a) \<inter> {} = set (N s a) \<inter> below c X a \<and> E s a \<inter> {} = E s a \<inter> below c D a"
    using ancestor_sub [OF ok la, of c] no by (auto simp: below_def has_any_def)
qed

lemma children_visited:
  assumes k: "\<And>s c. structure_ok s \<Longrightarrow> base s \<Longrightarrow> live_graph s c \<Longrightarrow> has_any X D s c \<Longrightarrow> gnext s < k + length c \<Longrightarrow>
      \<exists>s'. rec_apply k fn False c obj s = Some s' \<and> structure_ok s' \<and> base s' \<and> pruned s (below c X) (below c D) s'"
    and ok: "structure_ok s" and b: "base s" and l: "live_graph s g" and fuel: "gnext s < Suc k + length g"
  shows "\<exists>s'. iter (length (g_seq (graphs s g)) + 1) agnxtsubg
      (\<lambda>sub s'. case objsearch s' sub obj of None \<Rightarrow> Some s' | Some o' \<Rightarrow> rec_apply k fn False sub o' s')
      (agfstsubg s g) s = Some s' \<and> structure_ok s' \<and> base s' \<and>
    pruned s (under (g_seq (graphs s g)) X) (under (g_seq (graphs s g)) D) s'"
proof -
  let ?cs = "g_seq (graphs s g)"
  let ?f = "\<lambda>sub s'. case objsearch s' sub obj of None \<Rightarrow> Some s' | Some o' \<Rightarrow> rec_apply k fn False sub o' s'"
  define Q where "Q xs s1 \<longleftrightarrow> (\<exists>ys. ?cs = ys @ xs \<and> structure_ok s1 \<and> base s1 \<and>
      pruned s (under ys X) (under ys D) s1)" for xs s1
  have "Q ?cs s" using ok b pruned_refl [OF ok] by (auto simp: Q_def intro!: exI [of _ "[]"])
  moreover have "\<exists>s2. ?f c s1 = Some s2 \<and> agnxtsubg s2 c = hd_opt xs \<and> Q xs s2" if q: "Q (c # xs) s1" for c xs s1
  proof -
    from q obtain ys where ys: "?cs = ys @ c # xs" and ok1: "structure_ok s1" and b1: "base s1"
      and p: "pruned s (under ys X) (under ys D) s1" by (auto simp: Q_def)
    from structure_okD(3) [OF ok l] ys obtain j where c: "c = j # g" by (auto simp: subgraphs_ok_def)
    then have lc: "live_graph s c" using l ys by simp
    then have l1: "live_graph s1 c" "live_graph s1 g" using l pruned_live [OF p] by simp_all
    have "\<exists>s2. ?f c s1 = Some s2 \<and> structure_ok s2 \<and> base s2 \<and> pruned s1 (below c X) (below c D) s2"
    proof (cases "has_any X D s1 c")
      case True
      then have "objsearch s1 c obj = Some obj" using search [OF b1 ok1 l1(1)] c by simp
      moreover have "gnext s1 < k + length c" using fuel p c by (simp add: pruned_def same_rest_def)
      ultimately show ?thesis using k [OF ok1 b1 l1(1) True] by simp
    next
      case False
      then have "objsearch s1 c obj = None" using search [OF b1 ok1 l1(1)] c by simp
      with below_nothing [OF ok1 l1(1) False] ok1 b1 show ?thesis by simp
    qed
    then obtain s2 where s2: "?f c s1 = Some s2" "structure_ok s2" "base s2" "pruned s1 (below c X) (below c D) s2"
      by blast
    have p2: "pruned s (under (ys @ [c]) X) (under (ys @ [c]) D) s2"
      using pruned_trans [OF p s2(4)] by (simp only: under_snoc)
    then have "g_seq (graphs s2 g) = ys @ c # xs" "live_graph s2 g"
      using l ys pruned_live [OF p2] by (simp_all add: pruned_def)
    then have "agnxtsubg s2 c = hd_opt xs" using next_subgraph [OF s2(2)] by blast
    moreover have "Q xs s2" using ys s2 p2 by (auto simp: Q_def intro!: exI [of _ "ys @ [c]"])
    ultimately show ?thesis using s2(1) by blast
  qed
  ultimately obtain s' where s': "iter (length ?cs + 1) agnxtsubg ?f (hd_opt ?cs) s = Some s'" "Q [] s'"
    using iter_rule [of Q ?cs s "length ?cs + 1" ?f agnxtsubg] by auto
  then show ?thesis by (auto simp: Q_def agfstsubg_def)
qed

lemma rec_apply_removes:
  "structure_ok s \<Longrightarrow> base s \<Longrightarrow> live_graph s g \<Longrightarrow> has_any X D s g \<Longrightarrow> gnext s < k + length g \<Longrightarrow>
    \<exists>s'. rec_apply k fn False g obj s = Some s' \<and> structure_ok s' \<and> base s' \<and>
      pruned s (below g X) (below g D) s'"
proof (induction k arbitrary: g s)
  case 0
  then show ?case using live_length [of s g] by simp
next
  case (Suc k)
  note ok = Suc.prems(1) and b = Suc.prems(2) and l = Suc.prems(3)
  let ?cs = "g_seq (graphs s g)"
  from children_visited [OF Suc.IH ok b l Suc.prems(5)] obtain s1 where
    it: "iter (length ?cs + 1) agnxtsubg
      (\<lambda>sub s'. case objsearch s' sub obj of None \<Rightarrow> Some s' | Some o' \<Rightarrow> rec_apply k fn False sub o' s')
      (agfstsubg s g) s = Some s1"
    and ok1: "structure_ok s1" and b1: "base s1" and p1: "pruned s (under ?cs X) (under ?cs D) s1" by blast
  have ch: "\<exists>j. c = j # g" "live_graph s c" if "c \<in> set ?cs" for c
    using structure_okD(3) [OF ok l] that l by (auto simp: subgraphs_ok_def)
  have "removable s (under ?cs X) (under ?cs D)" by (rule removable_under [OF b ok]) (use ch in fastforce)
  note E1 = pruned_ok(2) [OF ok this p1]
  have l1: "live_graph s1 g" using l pruned_live [OF p1] by simp
  have "\<not> is_ancestor c g" if "c \<in> set ?cs" for c using ch(1) [OF that] ancestor_length [of c g] by auto
  then have "under ?cs X g = {}" "under ?cs D g = {}" by (auto simp: under_def)
  then have "has_any X D s1 g" using Suc.prems(4) E1 [OF l] p1 l by (simp add: has_any_def pruned_def)
  moreover have no: "\<not> has_any X D s1 c" if "c \<in> set ?cs" for c
  proof -
    have "under ?cs X c = X" "under ?cs D c = D" using that by (auto simp: under_def intro: bexI [of _ c])
    then show ?thesis using E1 [OF ch(2) [OF that]] p1 ch(2) [OF that] by (auto simp: has_any_def pruned_def)
  qed
  moreover have gs: "g_seq (graphs s1 g) = ?cs" using p1 l by (simp add: pruned_def)
  ultimately obtain s2 where s2: "fn g obj s1 = Some s2" "pruned s1 (only g X) (only g D) s2"
    using image [OF b1 ok1 l1] by auto
  have "removable s1 (only g X) (only g D)"
    using edges_of [OF b1] no gs unfolding removable_def only_def by (auto simp: has_any_def)
  note ok2 = pruned_ok(1) [OF ok1 this s2(2)]
  have p2: "pruned s (below g X) (below g D) s2"
  proof (rule pruned_same [OF ok pruned_trans [OF p1 s2(2)]])
    fix a assume la: "live_graph s a"
    have "is_ancestor g a" if "c \<in> set ?cs" "is_ancestor c a" for c
    proof -
      have "is_ancestor g c" using ch(1) [OF that(1)] by auto
      then show ?thesis using that(2) by (rule ancestor_trans)
    qed
    then have "is_ancestor g a \<longleftrightarrow> a = g \<or> (\<exists>c\<in>set ?cs. is_ancestor c a)"
      using ancestor_child [OF la, of g] by (intro iffI) (blast, auto)
    then show "set (N s a) \<inter> (under ?cs X a \<union> only g X a) = set (N s a) \<inter> below g X a \<and>
        E s a \<inter> (under ?cs D a \<union> only g D a) = E s a \<inter> below g D a"
      by (auto simp: under_def only_def below_def)
  qed
  have "rec_apply (Suc k) fn False g obj s = Some s2" using it s2(1) by simp
  with ok2 p2 keeps [OF b ok ok2 p2] show ?case by blast
qed

lemma agapply_removes:
  assumes "structure_ok s" and "base s" and "live_graph s g" and "has_any X D s g"
    and "objsearch s g obj = Some obj"
  shows "\<exists>s'. agapply fn False g obj s = Some (True, s') \<and> structure_ok s' \<and> base s' \<and>
    pruned s (below g X) (below g D) s'"
  using rec_apply_removes [OF assms(1-4), of "Suc (gnext s)"] assms(5) by (auto simp: agapply_def)

end

end
