(* ===== verification/Agdel.thy ===== *)
theory Agdel
  imports Prune
begin

text \<open>
  \<open>agdeledge\<close> and \<open>agdelnode\<close>: the callbacks of the two operations meet the contract of a removal, so
  that \<open>agapply\<close> takes the object out of a graph and all its descendants; from the main graph the
  operation also returns the ID.
\<close>

section \<open>The callbacks\<close>

definition edge_base :: "eref \<Rightarrow> world \<Rightarrow> bool" where
  "edge_base e s \<longleftrightarrow> etail (edges s e) \<in> set (N s []) \<and> ehead (edges s e) \<in> set (N s []) \<and>
     node_root (nodes s (etail (edges s e))) = mainroot s \<and> node_root (nodes s (ehead (edges s e))) = mainroot s \<and>
     (\<forall>f\<in>E s []. etail (edges s f) = etail (edges s e) \<and> ehead (edges s f) = ehead (edges s e) \<and>
        eid (edges s f) = eid (edges s e) \<longrightarrow> f = e)"

lemma subnode_lookup:
  assumes ok: "structure_ok s" and l: "live_graph s g" and r: "node_root (nodes s n) = mainroot s"
    and u: "\<And>m. m \<in> set (N s []) \<Longrightarrow> AGID_n s m = AGID_n s n \<Longrightarrow> m = n"
  shows "agsubnode s g n False = Some (if n \<in> set (N s g) then Some n else None, s)"
proof -
  note no = structure_okD(1) [OF ok l]
  have "agfindnode_by_id s g (AGID_n s n) = (if n \<in> set (N s g) then Some n else None)"
  proof (cases "n \<in> set (N s g)")
    case True
    then show ?thesis using find_by_id [OF no] by simp
  next
    case False
    then have "AGID_n s n \<notin> AGID_n s ` set (N s g)" using u node_in_root [OF ok l] by fastforce
    with False show ?thesis using find_by_id_None [OF no] by simp
  qed
  with r show ?thesis by (simp add: agsubnode.simps)
qed

lemma edge_search:
  assumes b: "edge_base e s" and ok: "structure_ok s" and l: "live_graph s g" and g: "g \<noteq> []"
  shows "objsearch s g (OE (e, OUT)) = (if e \<in> E s g then Some (OE (e, OUT)) else None)"
proof -
  let ?t = "etail (edges s e)" and ?h = "ehead (edges s e)"
  have okr: "nodes_ok s []" using structure_okD(1) [OF ok, of "[]"] by simp
  have t: "agsubnode s g ?t False = Some (if ?t \<in> set (N s g) then Some ?t else None, s)"
    using b id_unique [OF okr] by (intro subnode_lookup [OF ok l]) (auto simp: edge_base_def)
  have h: "agsubnode s g ?h False = Some (if ?h \<in> set (N s g) then Some ?h else None, s)"
    using b id_unique [OF okr] by (intro subnode_lookup [OF ok l]) (auto simp: edge_base_def)
  have sub: "agsubedge s g (e, OUT) False = Some (if e \<in> E s g then Some (e, OUT) else None, s)"
  proof (cases "?t \<in> set (N s g) \<and> ?h \<in> set (N s g)")
    case False
    then have "e \<notin> E s g" using edge_ends [OF ok l] by blast
    with False t h show ?thesis by (auto simp: agsubedge_def)
  next
    case True
    note find = find_edge [OF structure_okD(1,2) [OF ok l] _ root_keyed [OF ok l], of ?h ?t "eid (edges s e)"]
      find_edge_None [OF structure_okD(1,2) [OF ok l] _ root_keyed [OF ok l], of ?h ?t "eid (edges s e)"]
    have "agfindedge_by_key s g ?t ?h (Some (eid (edges s e))) = (if e \<in> E s g then Some (e, IN) else None)"
    proof (cases "e \<in> E s g")
      case False
      then have "\<forall>f\<in>E s g. \<not> (etail (edges s f) = ?t \<and> ehead (edges s f) = ?h \<and> eid (edges s f) = eid (edges s e))"
        using b edge_in_root [OF ok l] unfolding edge_base_def by blast
      with False True b find(2) show ?thesis by (simp add: edge_base_def)
    next
      case e: True
      with True b find(1) [of "(e, IN)"] show ?thesis by (simp add: edge_base_def)
    qed
    with True t h show ?thesis by (simp add: agsubedge_def AGOPP_def)
  qed
  then show ?thesis using g by (simp add: objsearch_def subedge_search_def)
qed

lemma below_removable: "(\<And>x. etail (edges s x) \<in> X \<or> ehead (edges s x) \<in> X \<Longrightarrow> x \<in> D) \<Longrightarrow>
    removable s (below g X) (below g D)"
  by (auto simp: removable_def below_def)

interpretation edge_del: deletion "edge_base e" "OE (e, OUT)" deledgeimage_fn "{}" "{e}" for e
proof unfold_locales
  show "objsearch s g (OE (e, OUT)) = (if has_any {} {e} s g then Some (OE (e, OUT)) else None)"
    if "edge_base e s" "structure_ok s" "live_graph s g" "g \<noteq> []" for s g
    using edge_search [OF that] by (simp add: has_any_def)
  show "\<exists>s'. deledgeimage_fn g (OE (e, OUT)) s = Some s' \<and> pruned s (only g {}) (only g {e}) s'"
    if "edge_base e s" "structure_ok s" "live_graph s g" "has_any {} {e} s g" for s g
    using deledgeimage_pruned [OF that(2,3), of e OUT] that(4) by (simp add: deledgeimage_fn_def has_any_def)
  show "edge_base e s'"
    if "edge_base e s" "structure_ok s" "structure_ok s'" "pruned s (below g {}) (below g {e}) s'" for s s' g
  proof -
    have "removable s (below g {}) (below g {e})" by (rule below_removable) simp
    from pruned_ok(2) [OF that(2) this that(4), of "[]"] have "E s' [] \<subseteq> E s []" by auto
    moreover have "nodes s' = nodes s" "edges s' = edges s" "mainroot s' = mainroot s" "N s' [] = N s []"
      using that(4) by (simp_all add: pruned_def same_rest_def)
    ultimately show ?thesis using that(1) unfolding edge_base_def by auto
  qed
qed simp

definition node_base :: "nref \<Rightarrow> (eref \<Rightarrow> edge_obj) \<Rightarrow> world \<Rightarrow> bool" where
  "node_base n ed s \<longleftrightarrow> edges s = ed \<and> node_root (nodes s n) = mainroot s \<and>
     (\<forall>m\<in>set (N s []). AGID_n s m = AGID_n s n \<longrightarrow> m = n)"

abbreviation edges_at :: "nref \<Rightarrow> (eref \<Rightarrow> edge_obj) \<Rightarrow> eref set" where
  "edges_at n ed \<equiv> {e. etail (ed e) = n \<or> ehead (ed e) = n}"

lemma has_node:
  assumes "structure_ok s" and "live_graph s g" and "node_base n ed s"
  shows "has_any {n} (edges_at n ed) s g \<longleftrightarrow> n \<in> set (N s g)"
  using edge_ends [OF assms(1,2)] assms(3) by (auto simp: has_any_def node_base_def)

interpretation node_del: deletion "node_base n ed" "ON n" delnodeimage_fn "{n}" "edges_at n ed" for n ed
proof unfold_locales
  show "objsearch s g (ON n) = (if has_any {n} (edges_at n ed) s g then Some (ON n) else None)"
    if "node_base n ed s" "structure_ok s" "live_graph s g" "g \<noteq> []" for s g
    using subnode_lookup [OF that(2,3), of n] that has_node [OF that(2,3,1)]
    by (auto simp: node_base_def objsearch_def subnode_search_def)
  show "\<exists>s'. delnodeimage_fn g (ON n) s = Some s' \<and> pruned s (only g {n}) (only g (edges_at n ed)) s'"
    if "node_base n ed s" "structure_ok s" "live_graph s g" "has_any {n} (edges_at n ed) s g"
      "\<forall>c\<in>set (g_seq (graphs s g)). \<not> has_any {n} (edges_at n ed) s c" for s g
  proof -
    have "n \<in> set (N s g)" using that has_node by blast
    moreover have "\<forall>c\<in>set (g_seq (graphs s g)). n \<notin> set (N s c)" using that(5) by (simp add: has_any_def)
    moreover have "incident s n = edges_at n ed" using that(1) by (simp add: incident_def node_base_def)
    ultimately show ?thesis using delnodeimage_pruned [OF that(2,3), of n] by (simp add: delnodeimage_fn_def)
  qed
  show "node_base n ed s'"
    if "node_base n ed s" "structure_ok s" "structure_ok s'" "pruned s (below g {n}) (below g (edges_at n ed)) s'"
    for s s' g
    using that(1,4) by (auto simp: node_base_def pruned_def same_rest_def)
  show "e \<in> edges_at n ed" if "node_base n ed s" "etail (edges s e) \<in> {n} \<or> ehead (edges s e) \<in> {n}" for s e
    using that by (simp add: node_base_def)
qed

section \<open>\<open>agdeledge\<close>\<close>

lemma wf_edge_base: "wf s \<Longrightarrow> e \<in> E s [] \<Longrightarrow> edge_base e s"
proof -
  assume wf: "wf s" and e: "e \<in> E s []"
  have ok: "structure_ok s" and root: "root_ok s" using wf by (simp_all add: wf_def)
  have l: "live_graph s []" by simp
  note th = edge_ends [OF ok l e]
  have "f = e" if "f \<in> E s []" "etail (edges s f) = etail (edges s e)" "ehead (edges s f) = ehead (edges s e)"
    "eid (edges s f) = eid (edges s e)" for f using edge_unique [OF ok l e that(1-3)] that(4) by blast
  with th root show ?thesis unfolding edge_base_def root_ok_def by blast
qed

lemma find_live_edge:
  assumes ok: "structure_ok s" and l: "live_graph s g" and e: "e \<in> E s []"
  shows "agfindedge_by_key s g (etail (edges s e)) (ehead (edges s e)) (Some (eid (edges s e))) \<noteq> None \<longleftrightarrow> e \<in> E s g"
proof -
  let ?t = "etail (edges s e)" and ?h = "ehead (edges s e)"
  have lr: "live_graph s []" by simp
  note th = edge_ends [OF ok lr e]
  have u: "f = e" if "f \<in> E s g" "etail (edges s f) = ?t" "ehead (edges s f) = ?h" "eid (edges s f) = eid (edges s e)" for f
    using edge_unique [OF ok lr e edge_in_root [OF ok l that(1)] that(2,3)] that(4) by blast
  show ?thesis
  proof (cases "?h \<in> set (N s g)")
    case True
    have "agfindedge_by_key s g ?t ?h (Some (eid (edges s e))) = None \<longleftrightarrow>
        (\<forall>f\<in>E s g. \<not> (etail (edges s f) = ?t \<and> ehead (edges s f) = ?h \<and> eid (edges s f) = eid (edges s e)))"
      by (rule find_edge_None [OF structure_okD(1,2) [OF ok l] True root_keyed [OF ok l th(1)]])
    moreover have "(\<forall>f\<in>E s g. \<not> (etail (edges s f) = ?t \<and> ehead (edges s f) = ?h \<and>
        eid (edges s f) = eid (edges s e))) \<longleftrightarrow> e \<notin> E s g" using u by metis
    ultimately show ?thesis by simp
  next
    case False
    then have "g \<noteq> []" using th by auto
    from subrep_None [OF ok l this th(2) False] edge_ends [OF ok l, of e] False show ?thesis
      by (auto simp: agfindedge_by_key_def)
  qed
qed

text \<open>What taking the edges \<open>D\<close> out of \<open>g\<close> and its descendants leaves.\<close>

definition edges_gone :: "world \<Rightarrow> gref \<Rightarrow> eref set \<Rightarrow> world \<Rightarrow> bool" where
  "edges_gone s g D s' \<longleftrightarrow> nodes s' = nodes s \<and> edges s' = edges s \<and> pick s' = pick s \<and>
     gnext s' = gnext s \<and> nnext s' = nnext s \<and> enext s' = enext s \<and> mainroot s' = mainroot s \<and>
     seqs (clos s') = seqs (clos s) \<and> (\<forall>a. live_graph s' a = live_graph s a) \<and>
     (\<forall>a. live_graph s a \<longrightarrow> same_flags (graphs s a) (graphs s' a) \<and> N s' a = N s a \<and>
        E s' a = (if is_ancestor g a then E s a - D else E s a) \<and>
        (\<forall>n\<in>set (N s a). sub_of s' a n = drop_edges (if is_ancestor g a then D else {}) (sub_of s a n)))"

lemma pruned_edges_gone:
  assumes ok: "structure_ok s" and p: "pruned s (below g {}) (below g D) s'"
  shows "edges_gone s g D s'"
proof -
  have "removable s (below g {}) (below g D)" by (rule below_removable) simp
  note E = pruned_ok(2) [OF ok this p]
  then show ?thesis
    using p pruned_live [OF p] by (auto simp: edges_gone_def pruned_def same_rest_def same_flags_def below_def)
qed

lemma root_ok_gone:
  assumes "root_ok s" and "nodes s' = nodes s" and "edges s' = edges s" and "mainroot s' = mainroot s"
    and "nnext s' = nnext s" and "enext s' = enext s" and "seqs (clos s') = seqs (clos s)"
    and "set (N s' []) \<subseteq> set (N s [])" and "E s' [] \<subseteq> E s []"
  shows "root_ok s'"
  using assms unfolding root_ok_def by (simp add: subset_iff)

lemma objsearch_edge:
  assumes wf: "wf s" and l: "live_graph s g" and e: "e \<in> E s g"
  shows "objsearch s g (OE (e, OUT)) = Some (OE (e, OUT))"
proof (cases "g = []")
  case True
  have ok: "structure_ok s" using wf by (rule wf_structure)
  have "enode s (e, OUT) \<in> set (N s [])" using edge_ends [OF ok l e] node_in_root [OF ok l] by (simp add: enode_def)
  then show ?thesis using wf True by (simp add: objsearch_def subedge_search_def wf_def root_ok_def)
next
  case False
  have ok: "structure_ok s" using wf by (rule wf_structure)
  from edge_search [OF wf_edge_base [OF wf edge_in_root [OF ok l e]] ok l False] e show ?thesis by simp
qed

lemma held_edge:
  assumes "structure_ok s" and "e \<in> E s []"
  shows "held s = add_mset (eid (edges s e)) (image_mset (AGID_n s) (mset_set (set (N s []))) +
     image_mset (\<lambda>e. eid (edges s e)) (mset_set (E s [] - {e})) +
     image_mset (\<lambda>g. gid (graphs s g)) (mset_set {g. live_graph s g}))"
proof -
  have "mset_set (E s []) = add_mset e (mset_set (E s [] - {e}))"
    using assms(2) finite_E by (metis insert_Diff finite_Diff mset_set.insert Diff_iff singletonI)
  then show ?thesis by (simp add: held_def)
qed

lemma agdeledge_spec:
  assumes wf: "wf s" and l: "live_graph s g" and e: "e \<in> E s g"
  shows "\<exists>s'. agdeledge s g (e, d) = Some (True, s') \<and> wf s' \<and> edges_gone s g {e} s' \<and> (g \<noteq> [] \<longrightarrow> clos s' = clos s)"
proof -
  have ok: "structure_ok s" and root: "root_ok s" and ids: "ids_ok (clos s) (held s)"
    using wf by (simp_all add: wf_def)
  have er: "e \<in> E s []" by (rule edge_in_root [OF ok l e])
  have found: "agfindedge_by_key s g (etail (edges s e)) (ehead (edges s e)) (Some (eid (edges s e))) \<noteq> None"
    using find_live_edge [OF ok l er] e by blast
  show ?thesis
  proof (cases "g = []")
    case False
    have "has_any {} {e} s g" using e by (simp add: has_any_def)
    from edge_del.agapply_removes [OF ok wf_edge_base [OF wf er] l this objsearch_edge [OF wf l e]] obtain s' where
      s': "agapply deledgeimage_fn False g (OE (e, OUT)) s = Some (True, s')" "structure_ok s'"
      "pruned s (below g {}) (below g {e}) s'" by blast
    note gone = pruned_edges_gone [OF ok s'(3)]
    have cl: "clos s' = clos s" using s'(3) by (simp add: pruned_def same_rest_def)
    have r: "N s' [] = N s []" "E s' [] = E s []" using gone False by (simp_all add: edges_gone_def)
    have "root_ok s'" by (rule root_ok_gone [OF root]) (use gone r in \<open>auto simp: edges_gone_def\<close>)
    moreover have "held s' = held s"
      by (rule held_cong) (use gone r ok in \<open>auto simp: edges_gone_def same_flags_def\<close>)
    ultimately have "wf s'" using s'(2) ids cl by (simp add: wf_def)
    moreover have "agdeledge s g (e, d) = Some (True, s')"
      using found False s'(1) by (simp add: agdeledge_def AGMKOUT_def Let_def)
    ultimately show ?thesis using gone cl by blast
  next
    case True
    let ?H = "image_mset (AGID_n s) (mset_set (set (N s []))) +
     image_mset (\<lambda>e. eid (edges s e)) (mset_set (E s [] - {e})) +
     image_mset (\<lambda>g. gid (graphs s g)) (mset_set {g. live_graph s g})"
    from agfreeid_spec [of "clos s" "eid (edges s e)" ?H AGEDGE] ids held_edge [OF ok er] obtain cl where
      cl: "agfreeid (clos s) AGEDGE (eid (edges s e)) = Some cl" "ids_ok cl ?H" "seqs cl = seqs (clos s)" by auto
    define s3 where "s3 = (hook (RecClose (OE (e, OUT))) (hook (MethodDelete [] (OE (e, OUT)))
        (if has_attrs (graphs s []) then hook (AttrDelete (OE (e, OUT))) s else s)))\<lparr>clos := cl\<rparr>"
    have s3: "nodes s3 = nodes s" "edges s3 = edges s" "clos s3 = cl" "graphs s3 = graphs s" "pick s3 = pick s"
      "gnext s3 = gnext s" "nnext s3 = nnext s" "enext s3 = enext s" "mainroot s3 = mainroot s"
      by (simp_all add: s3_def)
    have live3: "live_graph s3 a = live_graph s a" and E3: "E s3 a = E s a" for a
      by (rule live_cong) (simp_all add: s3 E_def)
    have ok3: "structure_ok s3" by (rule frame_ok [OF ok]) (simp add: same_structure_def s3 cl(3))
    have "edge_base e s3" using wf_edge_base [OF wf er] by (simp add: edge_base_def s3 E3)
    moreover have "objsearch s3 [] (OE (e, OUT)) = Some (OE (e, OUT))"
    proof -
      have "subedge_search s [] (e, OUT) = Some (e, OUT)" using objsearch_edge [OF wf _ er] by (simp add: objsearch_def)
      moreover have "node_root (nodes s (enode s (e, OUT))) = mainroot s"
        using wf_edge_base [OF wf er] by (simp add: edge_base_def enode_def)
      ultimately show ?thesis by (simp add: objsearch_def subedge_search_def s3 enode_def)
    qed
    moreover have "has_any {} {e} s3 []" using er by (simp add: has_any_def E3)
    ultimately obtain s' where
      s': "agapply deledgeimage_fn False [] (OE (e, OUT)) s3 = Some (True, s')" "structure_ok s'"
      "pruned s3 (below [] {}) (below [] {e}) s'"
      using edge_del.agapply_removes [OF ok3] by (metis live_graph.simps(1))
    have gone3: "edges_gone s3 [] {e} s'" by (rule pruned_edges_gone [OF ok3 s'(3)])
    then have gone: "edges_gone s [] {e} s'" by (simp add: edges_gone_def s3 live3 E3 cl(3))
    have r: "N s' [] = N s []" "E s' [] = E s [] - {e}" using gone by (simp_all add: edges_gone_def)
    have "root_ok s'" by (rule root_ok_gone [OF root]) (use gone r in \<open>auto simp: edges_gone_def\<close>)
    moreover have "held s' = ?H"
    proof -
      have "image_mset (\<lambda>g. gid (graphs s' g)) (mset_set {g. live_graph s g}) =
          image_mset (\<lambda>g. gid (graphs s g)) (mset_set {g. live_graph s g})"
        by (rule image_mset_cong) (use gone finite_live [OF ok] in \<open>simp add: edges_gone_def same_flags_def\<close>)
      moreover have "nodes s' = nodes s" "edges s' = edges s" "\<And>a. live_graph s' a = live_graph s a"
        using gone by (simp_all add: edges_gone_def)
      ultimately show ?thesis by (simp add: held_def r)
    qed
    moreover have "clos s' = cl" using s'(3) by (simp add: pruned_def same_rest_def s3)
    ultimately have "wf s'" using s'(2) cl(2) by (simp add: wf_def)
    moreover have "agdeledge s g (e, d) = Some (True, s')"
      by (cases "has_attrs (graphs s [])")
        (use found True s'(1) cl(1) in \<open>simp_all add: agdeledge_def AGMKOUT_def Let_def s3_def\<close>)
    ultimately show ?thesis using gone True by blast
  qed
qed

section \<open>\<open>agdelnode\<close>\<close>

text \<open>What taking node \<open>n\<close> with its edges out of \<open>g\<close> and its descendants leaves.\<close>

definition node_gone :: "world \<Rightarrow> gref \<Rightarrow> nref \<Rightarrow> world \<Rightarrow> bool" where
  "node_gone s g n s' \<longleftrightarrow> nodes s' = nodes s \<and> edges s' = edges s \<and> pick s' = pick s \<and>
     gnext s' = gnext s \<and> nnext s' = nnext s \<and> enext s' = enext s \<and> mainroot s' = mainroot s \<and>
     seqs (clos s') = seqs (clos s) \<and> (\<forall>a. live_graph s' a = live_graph s a) \<and>
     (\<forall>a. live_graph s a \<longrightarrow> same_flags (graphs s a) (graphs s' a) \<and>
        N s' a = (if is_ancestor g a then filter (\<lambda>m. m \<noteq> n) (N s a) else N s a) \<and>
        E s' a = (if is_ancestor g a then E s a - incident s n else E s a))"

lemma pruned_node_gone:
  assumes ok: "structure_ok s" and p: "pruned s (below g {n}) (below g (incident s n)) s'"
  shows "node_gone s g n s'"
proof -
  have "removable s (below g {n}) (below g (incident s n))" by (rule below_removable) (auto simp: incident_def)
  note E = pruned_ok(2) [OF ok this p]
  then show ?thesis
    using p pruned_live [OF p] by (auto simp: node_gone_def pruned_def same_rest_def same_flags_def below_def)
qed

lemma gone_trans:
  assumes "edges_gone s [] D s1" and "edges_gone s1 [] D' s2"
  shows "edges_gone s [] (D \<union> D') s2"
  using assms unfolding edges_gone_def same_flags_def by (auto simp: drop_drop)

lemma gone_node_edges:
  assumes "edges_gone s [] D s'" and "n \<in> set (N s [])"
  shows "node_edges s' [] n = filter (\<lambda>f. fst f \<notin> D) (node_edges s [] n)"
proof -
  have "sub_of s' [] n = drop_edges D (sub_of s [] n)" "enode s' = enode s"
    using assms same_keys(5) [of s' s] by (auto simp: edges_gone_def)
  then show ?thesis by (auto simp: node_edges_def intro: filter_cong)
qed

lemma delete_node_edges:
  assumes wf: "wf s" and n: "n \<in> set (N s [])"
  shows "\<exists>s'. walk (loop_fuel s [] n) (nxtedge_of [] n) (\<lambda>e s'. map_option snd (agdeledge s' [] e)) (agfstedge s [] n) s =
      Some s' \<and> wf s' \<and> edges_gone s [] (incident s n) s'"
proof -
  let ?L = "node_edges s [] n"
  let ?f = "\<lambda>e s'. map_option snd (agdeledge s' [] e)"
  have ok: "structure_ok s" and l: "live_graph s []" using wf by (simp_all add: wf_def)
  define Q where "Q xs s1 \<longleftrightarrow> wf s1 \<and> node_edges s1 [] n = xs \<and>
      edges_gone s [] (fst ` set ?L - fst ` set xs) s1" for xs s1
  have "Q ?L s" using wf by (simp add: Q_def edges_gone_def same_flags_def)
  moreover have "length ?L < loop_fuel s [] n"
    using length_filter_le [of "\<lambda>f. enode s f \<noteq> n" "in_seq (sub_of s [] n)"]
    by (simp add: node_edges_def loop_fuel_def less_Suc_eq_le)
  moreover have "nxtedge_of [] n s1 x = hd_opt ys \<and> (\<exists>s2. ?f x s1 = Some s2 \<and> Q ys s2)"
    if q: "Q (x # ys) s1" for x ys s1
  proof -
    have wf1: "wf s1" and ne: "node_edges s1 [] n = x # ys"
      and p: "edges_gone s [] (fst ` set ?L - fst ` set (x # ys)) s1"
      using q by (simp_all add: Q_def)
    have ok1: "structure_ok s1" and l1: "live_graph s1 []" using wf1 by (simp_all add: wf_def)
    have n1: "n \<in> set (N s1 [])" using p n by (simp add: edges_gone_def)
    have x: "fst x \<in> E s1 []" using node_edges_set(1) [OF ok1 l1 n1] ne by auto
    from agdeledge_spec [OF wf1 l1 x, of "snd x"] obtain s2 where
      s2: "agdeledge s1 [] x = Some (True, s2)" "wf s2" "edges_gone s1 [] {fst x} s2" by auto
    have "fst x \<notin> fst ` set ys" using node_edges_set(2) [OF ok1 l1 n1] unfolding ne by simp
    moreover from this have "filter (\<lambda>f. fst f \<noteq> fst x) ys = ys" by (intro filter_all ballI) (metis imageI)
    then have "node_edges s2 [] n = ys" using gone_node_edges [OF s2(3) n1] by (simp add: ne)
    moreover have "set (x # ys) \<subseteq> set ?L" using gone_node_edges [OF p n] by (simp only: ne) auto
    ultimately have "fst ` set ?L - fst ` set (x # ys) \<union> {fst x} = fst ` set ?L - fst ` set ys" by auto
    with gone_trans [OF p s2(3)] have "edges_gone s [] (fst ` set ?L - fst ` set ys) s2" by simp
    with s2(2) \<open>node_edges s2 [] n = ys\<close> have "Q ys s2" by (simp add: Q_def)
    then show ?thesis using s2(1) nxt_edge [OF ok1 l1 n1, of "[]" x ys] ne by (simp add: nxtedge_of_def)
  qed
  ultimately obtain s' where s': "walk (loop_fuel s [] n) (nxtedge_of [] n) ?f (hd_opt ?L) s = Some s'" "Q [] s'"
    using walk_rule [of Q ?L s "loop_fuel s [] n" "nxtedge_of [] n" ?f] by blast
  have D: "E s a \<inter> fst ` set ?L = E s a \<inter> incident s n" if "live_graph s a" for a
    using node_edges_set(1) [OF ok l n] edge_in_root [OF ok that] by (auto simp: incident_def)
  have "drop_edges (fst ` set ?L) (sub_of s a m) = drop_edges (incident s n) (sub_of s a m)"
    if "live_graph s a" "m \<in> set (N s a)" for a m
    using drop_same [OF node_lists(1) [OF ok that] D [OF that(1)]] .
  moreover have "E s a - fst ` set ?L = E s a - incident s n" if "live_graph s a" for a using D [OF that] by blast
  ultimately have "edges_gone s [] (incident s n) s'" using s'(2) by (simp add: Q_def edges_gone_def)
  then show ?thesis using s' fst_edge [OF ok l n] by (simp add: Q_def)
qed

lemma wf_node_base: "wf s \<Longrightarrow> n \<in> set (N s []) \<Longrightarrow> node_base n (edges s) s"
  using id_unique [OF structure_okD(1), of s "[]" n] unfolding node_base_def wf_def root_ok_def by auto

lemma remove_node:
  assumes ok: "structure_ok s" and b: "node_base n (edges s) s" and l: "live_graph s g" and n: "n \<in> set (N s g)"
  shows "\<exists>s'. agapply delnodeimage_fn False g (ON n) s = Some (True, s') \<and> structure_ok s' \<and>
    node_gone s g n s' \<and> clos s' = clos s"
proof -
  have h: "has_any {n} (edges_at n (edges s)) s g" using n by (simp add: has_any_def)
  have "objsearch s g (ON n) = Some (ON n)"
  proof (cases "g = []")
    case True
    then show ?thesis using b by (simp add: objsearch_def subnode_search_def node_base_def)
  next
    case False
    then show ?thesis using node_del.search [OF b ok l] h by simp
  qed
  from node_del.agapply_removes [OF ok b l h this] obtain s' where
    s': "agapply delnodeimage_fn False g (ON n) s = Some (True, s')" "structure_ok s'"
    "pruned s (below g {n}) (below g (incident s n)) s'" by (auto simp: incident_def)
  then show ?thesis using pruned_node_gone [OF ok s'(3)] by (auto simp: pruned_def same_rest_def)
qed

lemma held_node:
  assumes "n \<in> set (N s [])"
  shows "held s = add_mset (AGID_n s n) (image_mset (AGID_n s) (mset_set (set (N s []) - {n})) +
     image_mset (\<lambda>e. eid (edges s e)) (mset_set (E s [])) +
     image_mset (\<lambda>g. gid (graphs s g)) (mset_set {g. live_graph s g}))"
proof -
  have "mset_set (set (N s [])) = add_mset n (mset_set (set (N s []) - {n}))"
    using assms by (metis insert_Diff finite_Diff finite_set mset_set.insert Diff_iff singletonI)
  then show ?thesis by (simp add: held_def)
qed

lemma agdelnode_spec:
  assumes wf: "wf s" and l: "live_graph s g" and n: "n \<in> set (N s g)"
  shows "\<exists>s'. agdelnode s g n = Some (True, s') \<and> wf s' \<and> node_gone s g n s'"
proof -
  have ok: "structure_ok s" and root: "root_ok s" and ids: "ids_ok (clos s) (held s)"
    using wf by (simp_all add: wf_def)
  have nr: "n \<in> set (N s [])" by (rule node_in_root [OF ok l n])
  have "agfindnode_by_id s g (AGID_n s n) = Some n" using find_by_id [OF structure_okD(1) [OF ok l]] n by simp
  then have found: "agfindnode_by_id s g (AGID_n s n) \<noteq> None" by simp
  show ?thesis
  proof (cases "g = []")
    case False
    from remove_node [OF ok wf_node_base [OF wf nr] l n] obtain s' where
      s': "agapply delnodeimage_fn False g (ON n) s = Some (True, s')" "structure_ok s'" "node_gone s g n s'"
      "clos s' = clos s" by blast
    have r: "N s' [] = N s []" "E s' [] = E s []" using s'(3) False by (simp_all add: node_gone_def)
    have "root_ok s'" by (rule root_ok_gone [OF root]) (use s'(3) r in \<open>auto simp: node_gone_def\<close>)
    moreover have "held s' = held s"
      by (rule held_cong) (use s'(3) r ok in \<open>auto simp: node_gone_def same_flags_def\<close>)
    ultimately have "wf s'" using s'(2,4) ids by (simp add: wf_def)
    moreover have "agdelnode s g n = Some (True, s')" using found False s'(1) by (simp add: agdelnode_def)
    ultimately show ?thesis using s'(3) by blast
  next
    case True
    from delete_node_edges [OF wf nr] obtain s1 where
      w: "walk (loop_fuel s [] n) (nxtedge_of [] n) (\<lambda>e s'. map_option snd (agdeledge s' [] e)) (agfstedge s [] n) s = Some s1"
      and wf1: "wf s1" and gone1: "edges_gone s [] (incident s n) s1" by blast
    have ok1: "structure_ok s1" and root1: "root_ok s1" and ids1: "ids_ok (clos s1) (held s1)"
      using wf1 by (simp_all add: wf_def)
    have nr1: "n \<in> set (N s1 [])" using gone1 nr by (simp add: edges_gone_def)
    let ?H = "image_mset (AGID_n s1) (mset_set (set (N s1 []) - {n})) +
     image_mset (\<lambda>e. eid (edges s1 e)) (mset_set (E s1 [])) +
     image_mset (\<lambda>g. gid (graphs s1 g)) (mset_set {g. live_graph s1 g})"
    from agfreeid_spec [of "clos s1" "AGID_n s1 n" ?H AGNODE] ids1 held_node [OF nr1] obtain cl where
      cl: "agfreeid (clos s1) AGNODE (AGID_n s1 n) = Some cl" "ids_ok cl ?H" "seqs cl = seqs (clos s1)" by auto
    define s4 where "s4 = (hook (RecClose (ON n)) (hook (MethodDelete [] (ON n))
        (if has_attrs (graphs s1 []) then hook (AttrDelete (ON n)) s1 else s1)))\<lparr>clos := cl\<rparr>"
    have s4: "nodes s4 = nodes s1" "edges s4 = edges s1" "clos s4 = cl" "graphs s4 = graphs s1" "pick s4 = pick s1"
      "gnext s4 = gnext s1" "nnext s4 = nnext s1" "enext s4 = enext s1" "mainroot s4 = mainroot s1"
      by (simp_all add: s4_def)
    have live4: "live_graph s4 a = live_graph s1 a" and E4: "E s4 a = E s1 a" for a
      by (rule live_cong) (simp_all add: s4 E_def)
    have ok4: "structure_ok s4" by (rule frame_ok [OF ok1]) (simp add: same_structure_def s4 cl(3))
    have "node_base n (edges s4) s4" using wf_node_base [OF wf1 nr1] by (simp add: node_base_def s4)
    from remove_node [OF ok4 this, of "[]"] nr1 obtain s' where
      s': "agapply delnodeimage_fn False [] (ON n) s4 = Some (True, s')" "structure_ok s'" "node_gone s4 [] n s'"
      "clos s' = cl" by (auto simp: s4)
    have inc: "incident s4 n = incident s n" using gone1 by (simp add: incident_def s4 edges_gone_def)
    have gone: "node_gone s [] n s'"
      using s'(3) gone1 unfolding node_gone_def edges_gone_def same_flags_def inc by (auto simp: s4 live4 E4 cl(3))
    have r: "N s' [] = filter (\<lambda>m. m \<noteq> n) (N s1 [])" "E s' [] = E s1 []"
      using s'(3) gone1 by (auto simp: node_gone_def edges_gone_def s4 E4 inc)
    have st: "nodes s' = nodes s1" "edges s' = edges s1" "\<And>a. live_graph s' a = live_graph s1 a"
      "\<And>a. live_graph s1 a \<Longrightarrow> gid (graphs s' a) = gid (graphs s1 a)" "mainroot s' = mainroot s1"
      "nnext s' = nnext s1" "enext s' = enext s1" "seqs (clos s') = seqs (clos s1)"
      using s'(3) by (simp_all add: node_gone_def s4 live4 same_flags_def cl(3))
    have "root_ok s'" by (rule root_ok_gone [OF root1]) (use st r in auto)
    moreover have "held s' = ?H"
    proof -
      have "image_mset (\<lambda>g. gid (graphs s' g)) (mset_set {g. live_graph s1 g}) =
          image_mset (\<lambda>g. gid (graphs s1 g)) (mset_set {g. live_graph s1 g})"
        by (rule image_mset_cong) (use st(4) finite_live [OF ok1] in simp)
      moreover have "set (N s' []) = set (N s1 []) - {n}" using r(1) by auto
      ultimately show ?thesis by (simp add: held_def r(2) st(1-3))
    qed
    ultimately have "wf s'" using s'(2,4) cl(2) by (simp add: wf_def)
    moreover have "agdelnode s g n = Some (True, s')"
      by (cases "has_attrs (graphs s1 [])")
        (use found True w s'(1) cl(1) in \<open>simp_all add: agdelnode_def Let_def s4_def\<close>)
    ultimately show ?thesis using gone True by blast
  qed
qed

end
