(* ===== verification/Agsubg.thy ===== *)
theory Agsubg
  imports Agnode_Correct
begin

text \<open>
  Subgraphs: \<open>agsubg\<close> finds a subgraph by its name or enters a new, empty one into its parent.
\<close>

section \<open>Entering a subgraph\<close>

text \<open>The parent's two dictionaries with the subgraph \<open>c\<close> in them.\<close>

definition adopt :: "world \<Rightarrow> gref \<Rightarrow> gref \<Rightarrow> world" where
  "adopt s g c = upd_graph g (\<lambda>P. P\<lparr>g_seq := od_insert (agraphseqcmpf s c) c (g_seq P),
     g_id := od_insert (agraphidcmpf s (gid (graphs s c))) c (g_id P)\<rparr>) s"

definition empty_child :: "world \<Rightarrow> gref \<Rightarrow> gref \<Rightarrow> bool" where
  "empty_child s g c \<longleftrightarrow> N s c = [] \<and> n_id (graphs s c) = node_set_new \<and> g_seq (graphs s c) = [] \<and>
     g_id (graphs s c) = [] \<and> gseq (graphs s c) \<le> seqs (clos s) AGRAPH \<and>
     directed (graphs s c) = directed (graphs s g) \<and> strict (graphs s c) = strict (graphs s g) \<and>
     no_loop (graphs s c) = no_loop (graphs s g)"

lemma adopt_ok:
  assumes ok: "structure_ok s" and l: "live_graph s g" and c: "c = k # g" and dead: "\<not> live_graph s c"
    and k: "k < gnext s" "\<forall>j\<in>set g. j < k" and e: "empty_child s g c"
    and sq: "\<forall>d\<in>set (g_seq (graphs s g)). gseq (graphs s d) < gseq (graphs s c)"
    and i: "\<forall>d\<in>set (g_seq (graphs s g)). gid (graphs s d) \<noteq> gid (graphs s c)"
  shows "structure_ok (adopt s g c)" and "live_graph (adopt s g c) a \<longleftrightarrow> live_graph s a \<or> a = c"
    and "g_seq (graphs (adopt s g c) g) = g_seq (graphs s g) @ [c]"
proof -
  let ?s = "adopt s g c"
  have gr: "graphs ?s a = (if a = g then (graphs s g)\<lparr>g_seq := od_insert (agraphseqcmpf s c) c (g_seq (graphs s g)),
     g_id := od_insert (agraphidcmpf s (gid (graphs s c))) c (g_id (graphs s g))\<rparr> else graphs s a)" for a
    by (simp add: adopt_def upd_graph_def)
  have rest: "nodes ?s = nodes s" "edges ?s = edges s" "clos ?s = clos s" "gnext ?s = gnext s"
    by (simp_all add: adopt_def upd_graph_def)
  have N: "N ?s a = N s a" "n_id (graphs ?s a) = n_id (graphs s a)" "subnodes (graphs ?s a) = subnodes (graphs s a)"
    "gid (graphs ?s a) = gid (graphs s a)" "gseq (graphs ?s a) = gseq (graphs s a)"
    "directed (graphs ?s a) = directed (graphs s a)" "strict (graphs ?s a) = strict (graphs s a)"
    "no_loop (graphs ?s a) = no_loop (graphs s a)" for a by (simp_all add: gr fun_eq_iff)
  have E: "E ?s = E s" by (simp add: E_def fun_eq_iff N)
  have keys: "agsubnodeseqcmpf ?s = agsubnodeseqcmpf s" "lists_ok ?s = lists_ok s" "agraphseqcmpf ?s = agraphseqcmpf s"
  proof -
    show "agsubnodeseqcmpf ?s = agsubnodeseqcmpf s" by (simp add: fun_eq_iff agsubnodeseqcmpf_def rest)
    have "seq_key ?s = seq_key s" "id_key ?s = id_key s" by (simp_all add: fun_eq_iff seq_key_def id_key_def enode_def rest)
    then show "lists_ok ?s = lists_ok s" by (intro ext) (simp only: lists_ok_def rest)
    show "agraphseqcmpf ?s = agraphseqcmpf s" by (simp add: fun_eq_iff agraphseqcmpf_def N)
  qed
  have gk: "subgraphs_ok s g" using structure_okD(3) [OF ok l] .
  have cn: "c \<notin> set (g_seq (graphs s g))" using dead l c by auto
  have "\<forall>y\<in>set (g_seq (graphs s g)). 0 < agraphseqcmpf s c y" using sq by (simp add: agraphseqcmpf_def)
  then show gs: "g_seq (graphs ?s g) = g_seq (graphs s g) @ [c]" by (simp add: gr od_insert_last)
  have cg: "c \<noteq> g" using c by simp
  have other: "a \<noteq> g \<Longrightarrow> g_seq (graphs ?s a) = g_seq (graphs s a)" for a by (simp add: gr)
  show live: "live_graph ?s a \<longleftrightarrow> live_graph s a \<or> a = c" for a
  proof (induction a)
    case (Cons j p)
    have "p \<noteq> c \<Longrightarrow> p \<noteq> g \<Longrightarrow> ?case" using Cons other [of p] c by auto
    moreover have "p = c \<Longrightarrow> ?case" using dead e c cg other [of p] by (auto simp: empty_child_def)
    moreover have "p = g \<Longrightarrow> ?case" using Cons l gs c cg by auto
    ultimately show ?case by blast
  qed (simp add: c)
  have ids: "ordered (\<lambda>a b. cmp_nat (gid (graphs s a)) (gid (graphs s b))) (g_id (graphs ?s g)) \<and>
      set (g_id (graphs ?s g)) = insert c (set (g_seq (graphs s g)))"
  proof -
    have o: "ordered (\<lambda>a b. cmp_nat (gid (graphs s a)) (gid (graphs s b))) (g_id (graphs s g))"
      and set: "set (g_id (graphs s g)) = set (g_seq (graphs s g))" using gk by (simp_all add: subgraphs_ok_def)
    have c: "agraphidcmpf s (gid (graphs s c)) = (\<lambda>b. cmp_nat (gid (graphs s c)) (gid (graphs s b)))"
      by (simp add: fun_eq_iff agraphidcmpf_def)
    have "od_find (\<lambda>b. cmp_nat (gid (graphs s c)) (gid (graphs s b))) (g_id (graphs s g)) = None"
      unfolding od_find_def by (rule find_None_all) (use set i in force)
    from od_find_od_insert_missing [OF this] by_nat.ordered_od_insert [OF o, of c] set show ?thesis
      by (simp add: gr c)
  qed
  show "structure_ok ?s"
    unfolding structure_ok_def live
  proof (intro allI impI)
    fix a assume "live_graph s a \<or> a = c"
    then consider "a = c" | "a = g" | "live_graph s a" "a \<noteq> g" "a \<noteq> c" using l by blast
    then show "nodes_ok ?s a \<and> edges_ok ?s a \<and> subgraphs_ok ?s a"
    proof cases
      case 1
      have "n_seq (graphs ?s c) = []" "n_id (graphs ?s c) = node_set_new" "g_seq (graphs ?s c) = []"
        "g_id (graphs ?s c) = []" using e gr [of c] cg by (simp_all add: empty_child_def)
      moreover from this(1) have "E ?s c = {}" by (simp add: E_def)
      ultimately have "nodes_ok ?s c" "edges_ok ?s c" "subgraphs_ok ?s c"
        by (simp_all add: nodes_ok_def edges_ok_def subgraphs_ok_def ordered_def node_set_ok_new)
      with 1 show ?thesis by simp
    next
      case 2
      have "subgraphs_ok ?s g"
        unfolding subgraphs_ok_def gs keys N E rest
      proof (intro conjI ballI)
        show "ordered (agraphseqcmpf s) (g_seq (graphs s g) @ [c])"
          using gk sq by (auto simp: subgraphs_ok_def ordered_append ordered_Cons ordered_def [of _ "[]"] agraphseqcmpf_def)
        fix d assume d: "d \<in> set (g_seq (graphs s g) @ [c])"
        show "\<exists>k. d = k # g \<and> k < gnext s \<and> (\<forall>j\<in>set g. j < k) \<and> gseq (graphs s d) \<le> seqs (clos s) AGRAPH \<and>
          set (N s d) \<subseteq> set (N s g) \<and> E s d \<subseteq> E s g \<and> directed (graphs s d) = directed (graphs s g) \<and>
          strict (graphs s d) = strict (graphs s g) \<and> no_loop (graphs s d) = no_loop (graphs s g)"
        proof (cases "d = c")
          case True
          have "E s c = {}" using e by (simp add: E_def empty_child_def)
          with True c k e show ?thesis by (simp add: empty_child_def)
        next
          case False
          with d have "d \<in> set (g_seq (graphs s g))" by simp
          then show ?thesis
            by (rule gk [unfolded subgraphs_ok_def, THEN conjunct2, THEN conjunct2, THEN conjunct2, THEN bspec])
        qed
      qed (use ids in simp_all)
      with 2 structure_okD(1,2) [OF ok l] show ?thesis by (simp add: nodes_ok_def edges_ok_def N E keys rest)
    next
      case 3
      then have "g_id (graphs ?s a) = g_id (graphs s a)" by (simp add: gr)
      with 3 structure_okD [OF ok 3(1)] show ?thesis
        by (simp add: nodes_ok_def edges_ok_def subgraphs_ok_def N E keys rest other)
    qed
  qed
qed

section \<open>\<open>agsubg\<close>\<close>

text \<open>What creating the empty subgraph \<open>c\<close> of \<open>g\<close> with ID \<open>i\<close> leads to.\<close>

definition subg_added :: "world \<Rightarrow> gref \<Rightarrow> gref \<Rightarrow> nat \<Rightarrow> world \<Rightarrow> bool" where
  "subg_added s g c i s' \<longleftrightarrow> \<not> live_graph s c \<and> agparent c = Some g \<and> gid (graphs s' c) = i \<and>
     N s' c = [] \<and> E s' c = {} \<and> (\<forall>a. live_graph s' a \<longleftrightarrow> live_graph s a \<or> a = c) \<and>
     g_seq (graphs s' g) = g_seq (graphs s g) @ [c] \<and> nodes s' = nodes s \<and> edges s' = edges s \<and>
     pick s' = pick s \<and> (\<forall>a. live_graph s a \<longrightarrow> N s' a = N s a \<and> E s' a = E s a \<and>
       directed (graphs s' a) = directed (graphs s a) \<and> strict (graphs s' a) = strict (graphs s a) \<and>
       no_loop (graphs s' a) = no_loop (graphs s a)) \<and>
     directed (graphs s' c) = directed (graphs s g) \<and> strict (graphs s' c) = strict (graphs s g) \<and>
     no_loop (graphs s' c) = no_loop (graphs s g) \<and>
     clos s' = (clos s)\<lparr>seqs := (seqs (clos s))(AGRAPH := Suc (seqs (clos s) AGRAPH))\<rparr>"

lemma same_graphs:
  assumes "nodes s' = nodes s" and "edges s' = edges s" and "clos s' = clos s" and "gnext s' = gnext s"
    and "\<And>a. same_graph s (graphs s a) (graphs s' a)"
  shows "same_structure s s'"
  using assms by (simp add: same_structure_def)

lemma localsubg_new:
  assumes ok: "structure_ok s" and root: "root_ok s" and ids: "ids_ok (clos s) (add_mset i (held s))"
    and l: "live_graph s g" and sq: "seq_room s AGRAPH" and new: "agfindsubg_by_id s g i = None"
  shows "\<exists>c s'. localsubg s g i = Some (c, s') \<and> wf s' \<and> subg_added s g c i s'"
proof -
  let ?c = "gnext s # g" and ?q = "Suc (seqs (clos s) AGRAPH)"
  let ?cl = "(clos s)\<lparr>seqs := (seqs (clos s))(AGRAPH := ?q)\<rparr>"
  have q: "?q \<le> SEQ_MASK" using sq by (simp add: seq_room_def)
  have dead: "\<not> live_graph s ?c"
  proof
    assume "live_graph s ?c"
    from live_path [OF ok this] show False by simp
  qed
  have lt: "\<forall>j\<in>set g. j < gnext s" using live_path [OF ok l] by auto
  define s2 where "s2 = s\<lparr>clos := ?cl, gnext := Suc (gnext s),
    graphs := (graphs s)(?c := empty_graph\<lparr>directed := directed (graphs s g), strict := strict (graphs s g),
      no_loop := no_loop (graphs s g), has_attrs := has_attrs (graphs s g), maingraph := False, gid := i, gseq := ?q\<rparr>)\<rparr>"
  have s2: "nodes s2 = nodes s" "edges s2 = edges s" "clos s2 = ?cl" "gnext s2 = Suc (gnext s)" "pick s2 = pick s"
    "nnext s2 = nnext s" "enext s2 = enext s" "mainroot s2 = mainroot s" "\<And>a. a \<noteq> ?c \<Longrightarrow> graphs s2 a = graphs s a"
    "graphs s2 ?c = empty_graph\<lparr>directed := directed (graphs s g), strict := strict (graphs s g),
      no_loop := no_loop (graphs s g), has_attrs := has_attrs (graphs s g), maingraph := False, gid := i, gseq := ?q\<rparr>"
    by (simp_all add: s2_def)
  have ne: "a \<noteq> ?c" if "live_graph s a" for a using that dead by blast
  have fr: "same_structure s s2"
    unfolding same_structure_def using s2 ne by (simp add: same_graph_def)
  note live2 = frame_live [OF ok fr] and E2 = frame_E [OF ok fr] and ok2 = frame_ok [OF ok fr]
  have dead2: "\<not> live_graph s2 ?c" using dead by (simp add: live2 del: live_graph.simps)
  have l2: "live_graph s2 g" using l by (simp add: live2)
  have ch: "live_graph s d" "gseq (graphs s d) \<le> seqs (clos s) AGRAPH" if d: "d \<in> set (g_seq (graphs s g))" for d
  proof -
    from structure_okD(3) [OF ok l] d obtain k where k: "d = k # g" "gseq (graphs s d) \<le> seqs (clos s) AGRAPH"
      by (auto simp: subgraphs_ok_def)
    then show "live_graph s d" "gseq (graphs s d) \<le> seqs (clos s) AGRAPH" using l d by simp_all
  qed
  have gs2: "g_seq (graphs s2 g) = g_seq (graphs s g)" using s2(9) ne [OF l] by simp
  have e2: "empty_child s2 g ?c" using s2 ne [OF l] by (simp add: empty_child_def empty_graph_def)
  have 1: "\<forall>d\<in>set (g_seq (graphs s2 g)). gseq (graphs s2 d) < gseq (graphs s2 ?c)"
  proof
    fix d assume "d \<in> set (g_seq (graphs s2 g))"
    then have d: "d \<in> set (g_seq (graphs s g))" by (simp add: gs2)
    show "gseq (graphs s2 d) < gseq (graphs s2 ?c)"
      using ch(2) [OF d] s2(9) [OF ne [OF ch(1) [OF d]]] s2(10) by (simp add: less_Suc_eq_le)
  qed
  have 2: "\<forall>d\<in>set (g_seq (graphs s2 g)). gid (graphs s2 d) \<noteq> gid (graphs s2 ?c)"
  proof
    fix d assume "d \<in> set (g_seq (graphs s2 g))"
    then have d: "d \<in> set (g_seq (graphs s g))" by (simp add: gs2)
    then have "d \<in> set (g_id (graphs s g))" using structure_okD(3) [OF ok l] by (simp add: subgraphs_ok_def)
    then have "agraphidcmpf s i d \<noteq> 0" using new by (simp add: agfindsubg_by_id_def od_find_def find_None_iff)
    then show "gid (graphs s2 d) \<noteq> gid (graphs s2 ?c)"
      using s2(9) [OF ne [OF ch(1) [OF d]]] s2(10) by (auto simp: agraphidcmpf_def)
  qed
  note ad = adopt_ok [OF ok2 l2 refl dead2 _ lt e2 1 2, simplified s2(4), OF lessI]
  let ?s3 = "adopt s2 g ?c"
  let ?s4 = "if has_attrs (graphs s g) then hook (AttrInit ?c (OG ?c)) (upd_graph ?c (\<lambda>G. G\<lparr>has_attrs := True\<rparr>) ?s3)
    else ?s3"
  define sf where "sf = hook (MethodInit ?c (OG ?c)) ?s4"
  have gne: "g \<noteq> ?c" by simp
  have loc: "localsubg s g i = Some (?c, sf)"
  proof -
    let ?s1 = "s\<lparr>gnext := Suc (gnext s),
                     graphs := (graphs s)(?c := empty_graph\<lparr>directed := directed (graphs s g),
                       strict := strict (graphs s g), no_loop := no_loop (graphs s g),
                       has_attrs := has_attrs (graphs s g), maingraph := False, gid := i\<rparr>)\<rparr>"
    let ?u = "upd_graph ?c (\<lambda>G. G\<lparr>n_seq := [], n_id := node_set_new, subnodes := (\<lambda>_. empty_subnode),
                                  g_seq := [], g_id := []\<rparr>) ?s1"
    have "upd_graph ?c (\<lambda>G. G\<lparr>gseq := ?q\<rparr>) (?u\<lparr>clos := ?cl\<rparr>) = s2"
      by (simp add: s2_def upd_graph_def empty_graph_def)
    moreover have "agnextseq (clos ?u) AGRAPH = (?q, ?cl)"
      using agnextseq_room sq by (simp add: upd_graph_def seq_room_def)
    moreover have "has_attrs (graphs ?s3 g) = has_attrs (graphs s g)" by (simp add: adopt_def upd_graph_def s2(9) [OF gne])
    ultimately show ?thesis
      using new q by (simp add: localsubg_def agopen1_def agparent_def Let_def adopt_def sf_def)
  qed
  have st: "same_structure ?s3 sf"
    by (rule same_graphs) (simp_all add: sf_def upd_graph_def same_graph_def)
  note live4 = frame_live [OF ad(1) st] and E4 = frame_E [OF ad(1) st] and N4 = frame_N [OF ad(1) st]
    and ok4 = frame_ok [OF ad(1) st]
  have g4: "same_graph ?s3 (graphs ?s3 a) (graphs sf a)" for a by (simp add: sf_def upd_graph_def same_graph_def)
  have g3: "N ?s3 a = N s2 a" "E ?s3 a = E s2 a" "gid (graphs ?s3 a) = gid (graphs s2 a)"
    "directed (graphs ?s3 a) = directed (graphs s2 a)" "strict (graphs ?s3 a) = strict (graphs s2 a)"
    "no_loop (graphs ?s3 a) = no_loop (graphs s2 a)" for a
    by (simp_all add: adopt_def upd_graph_def E_def)
  have rest: "nodes sf = nodes s" "edges sf = edges s" "clos sf = ?cl" "pick sf = pick s" "nnext sf = nnext s"
    "enext sf = enext s" "mainroot sf = mainroot s"
    by (simp_all add: sf_def s2 adopt_def upd_graph_def)
  have live: "live_graph sf a \<longleftrightarrow> live_graph s a \<or> a = ?c" for a unfolding live4 ad(2) live2 ..
  have Ns: "N sf a = N s2 a" "E sf a = E s2 a" "gid (graphs sf a) = gid (graphs s2 a)"
    "directed (graphs sf a) = directed (graphs s2 a)" "strict (graphs sf a) = strict (graphs s2 a)"
    "no_loop (graphs sf a) = no_loop (graphs s2 a)" for a
    using g4 [of a] g3 [of a] by (auto simp: same_graph_def E_def)
  have old: "N sf a = N s a" "E sf a = E s a" "gid (graphs sf a) = gid (graphs s a)" if "live_graph s a" for a
    unfolding Ns using s2(9) [OF ne [OF that]] E2 [OF that] by simp_all
  have "root_ok sf" using root old [of "[]"] by (simp add: root_ok_def rest)
  moreover have "held sf = add_mset i (held s)"
  proof -
    have "mset_set {a. live_graph sf a} = add_mset ?c (mset_set {a. live_graph s a})"
      unfolding live using dead finite_live [OF ok] by (simp add: Collect_disj_eq insert_def [symmetric] del: live_graph.simps)
    moreover have "image_mset (\<lambda>a. gid (graphs sf a)) (mset_set {a. live_graph s a}) =
        image_mset (\<lambda>a. gid (graphs s a)) (mset_set {a. live_graph s a})"
      by (rule image_mset_cong) (use old(3) finite_live [OF ok] in simp)
    moreover have "gid (graphs sf ?c) = i" by (simp add: Ns s2)
    ultimately show ?thesis by (simp add: held_def old [of "[]", simplified] rest(1,2))
  qed
  ultimately have "wf sf" using ok4 ids rest(3) by (simp add: wf_def)
  moreover have "subg_added s g ?c i sf"
    unfolding subg_added_def
  proof (intro conjI allI impI)
    show "live_graph sf a \<longleftrightarrow> live_graph s a \<or> a = ?c" for a by (rule live)
    show "g_seq (graphs sf g) = g_seq (graphs s g) @ [?c]" using ad(3) g4 [of g] gs2 by (simp add: same_graph_def)
    show "directed (graphs sf ?c) = directed (graphs s g)" "strict (graphs sf ?c) = strict (graphs s g)"
      "no_loop (graphs sf ?c) = no_loop (graphs s g)" "N sf ?c = []" "gid (graphs sf ?c) = i"
      by (simp_all add: Ns s2 empty_graph_def)
    then show "E sf ?c = {}" by (simp add: E_def)
    show "N sf a = N s a" "E sf a = E s a" if "live_graph s a" for a by (rule old [OF that])+
    show "directed (graphs sf a) = directed (graphs s a)" "strict (graphs sf a) = strict (graphs s a)"
      "no_loop (graphs sf a) = no_loop (graphs s a)" if "live_graph s a" for a
      unfolding Ns using s2(9) [OF ne [OF that]] by simp_all
  qed (use dead rest in \<open>simp_all add: agparent_def\<close>)
  ultimately show ?thesis using loc by blast
qed

lemma find_subg:
  assumes "subgraphs_ok s g"
  shows "agfindsubg_by_id s g i = Some c \<Longrightarrow> c \<in> set (g_seq (graphs s g)) \<and> gid (graphs s c) = i"
    and "agfindsubg_by_id s g i = None \<longleftrightarrow> (\<forall>c\<in>set (g_seq (graphs s g)). gid (graphs s c) \<noteq> i)"
  using assms find_SomeD [of "\<lambda>x. agraphidcmpf s i x = 0" "g_id (graphs s g)" c]
  by (auto simp: agfindsubg_by_id_def od_find_def find_None_iff subgraphs_ok_def agraphidcmpf_def)

lemma find_subg_clos [simp]: "agfindsubg_by_id (s\<lparr>clos := cl\<rparr>) = agfindsubg_by_id s"
  by (simp add: fun_eq_iff agfindsubg_by_id_def agraphidcmpf_def [abs_def])

lemma gid_held: "structure_ok s \<Longrightarrow> live_graph s c \<Longrightarrow> gid (graphs s c) \<in># held s"
  by (auto simp: held_def finite_live)

lemma agsubg_spec:
  assumes wf: "wf s" and room: "ids_room (clos s)" and l: "live_graph s g" and sq: "seq_room s AGRAPH"
  shows "\<exists>r s'. agsubg s g name c = Some (r, s') \<and> wf s' \<and>
    (case r of
       None \<Rightarrow> \<not> c \<and> (\<exists>cl. s' = s\<lparr>clos := cl\<rparr>)
     | Some sub \<Rightarrow>
         (sub \<in> set (g_seq (graphs s g)) \<and> (\<exists>cl. s' = s\<lparr>clos := cl\<rparr> \<and>
            agmapnametoid (clos s) AGRAPH name False = Some (Some (gid (graphs s sub)), cl))) \<or>
         (c \<and> (\<exists>i cl cl2 r0. (name \<noteq> None \<longrightarrow> agmapnametoid (clos s) AGRAPH name False = Some (r0, cl)) \<and>
            agmapnametoid cl AGRAPH name True = Some (Some i, cl2) \<and>
            subg_added (s\<lparr>clos := cl2\<rparr>) g sub i s')))"
proof -
  have ok: "structure_ok s" and root: "root_ok s" and ids: "ids_ok (clos s) (held s)" using wf by (simp_all add: wf_def)
  let ?probe = "if name = None then Some (None, clos s) else agmapnametoid (clos s) AGRAPH name False"
  from mapname_probe [OF ids, of AGRAPH name] obtain r0 cl where
    p: "?probe = Some (r0, cl)" and same: "same_ids (clos s) cl"
    by (cases "name = None") auto
  let ?s = "s\<lparr>clos := cl\<rparr>"
  have wf1: "wf ?s" using wf_same_ids [OF wf same] .
  have sk: "subgraphs_ok s g" by (rule structure_okD(3) [OF ok l])
  show ?thesis
  proof (cases "Option.bind r0 (agfindsubg_by_id s g)")
    case (Some sub)
    then obtain i where i: "r0 = Some i" "agfindsubg_by_id s g i = Some sub" by (cases r0) auto
    then have n: "name \<noteq> None" using p by (auto split: if_splits)
    have "agsubg s g name c = Some (Some sub, ?s)" using p Some by (simp add: agsubg_def)
    with wf1 find_subg(1) [OF sk i(2)] p i(1) n show ?thesis by (intro exI [of _ "Some sub"] exI [of _ ?s]) auto
  next
    case None
    show ?thesis
    proof (cases c)
      case False
      with None p have "agsubg s g name c = Some (None, ?s)" by (simp add: agsubg_def)
      with wf1 False show ?thesis by (intro exI [of _ None] exI [of _ ?s]) auto
    next
      case True
      have ids1: "ids_ok cl (held s)" and room1: "ids_room cl"
        using same_ids_ok [OF same ids] same_ids_room [OF same room] by simp_all
      from mapname_create [OF ids1 room1, of AGRAPH name] obtain i cl2 where
        i: "agmapnametoid cl AGRAPH name True = Some (Some i, cl2)" "ids_ok cl2 (add_mset i (held s))" "seqs cl2 = seqs cl"
        and old: "(\<exists>cl'. agmapnametoid cl AGRAPH name False = Some (Some i, cl')) \<or> i \<notin># held s" by blast
      have sqs: "seqs cl = seqs (clos s)" using same by (simp add: same_ids_def)
      have new: "agfindsubg_by_id s g i = None"
        using old
      proof
        assume "\<exists>cl'. agmapnametoid cl AGRAPH name False = Some (Some i, cl')"
        then obtain cl' where q: "agmapnametoid cl AGRAPH name False = Some (Some i, cl')" by blast
        then have n: "name \<noteq> None" by (cases name) (auto simp: agmapnametoid_def)
        with p have "agmapnametoid (clos s) AGRAPH name False = Some (r0, cl)" by simp
        from mapname_same [OF ids same this q] None show ?thesis by auto
      next
        assume "i \<notin># held s"
        moreover have "live_graph s d" if "d \<in> set (g_seq (graphs s g))" for d
          using sk l that by (auto simp: subgraphs_ok_def)
        ultimately show ?thesis using gid_held [OF ok] unfolding find_subg(2) [OF sk] by metis
      qed
      let ?s2 = "s\<lparr>clos := cl2\<rparr>"
      have "structure_ok ?s2" "root_ok ?s2"
        using structure_ok_clos [OF ok, of cl2] root_ok_clos [OF root, of cl2] i(3) sqs by simp_all
      from localsubg_new [OF this, of i g] i l sq new sqs obtain sub s' where
        sub: "localsubg ?s2 g i = Some (sub, s')" "wf s'" "subg_added ?s2 g sub i s'"
        by (auto simp: seq_room_def)
      have "agsubg s g name c = Some (Some sub, hook (Register (OG sub)) s')"
        using p None True i(1) sub(1) by (simp add: agsubg_def)
      moreover have "subg_added ?s2 g sub i (hook (Register (OG sub)) s')" using sub(3) by (simp add: subg_added_def)
      moreover have "wf (hook (Register (OG sub)) s')" using sub(2) by simp
      moreover have "name \<noteq> None \<longrightarrow> agmapnametoid (clos s) AGRAPH name False = Some (r0, cl)" using p by (auto split: if_splits)
      ultimately show ?thesis using True i(1)
        by (intro exI [of _ "Some sub"] exI [of _ "hook (Register (OG sub)) s'"]) auto
    qed
  qed
qed

end
