(* ===== verification/Graph_Api.thy ===== *)
theory Graph_Api
  imports Agedge_Api Agdel Agsubg
begin

text \<open>
  The graph library as a state machine: the calls of its interface, the states they lead to from
  a new graph, and the invariant that holds in all of them. The properties of subgraphs, of
  deletion and of iteration are stated here as well.
\<close>

section \<open>Calls\<close>

datatype call =
    NodeCall gref "cstr option" bool
  | SubnodeCall gref nref
  | EdgeCall gref nref nref "cstr option" bool
  | SubgCall gref "cstr option" bool
  | DelNodeCall gref nref
  | DelEdgeCall gref handle

fun run_call :: "call \<Rightarrow> world \<Rightarrow> world option" where
  "run_call (NodeCall g name c) s = map_option snd (agnode s g name c)"
| "run_call (SubnodeCall g n) s = map_option snd (agsubnode s g n True)"
| "run_call (EdgeCall g t h name c) s = map_option snd (agedge s g t h name c)"
| "run_call (SubgCall g name c) s = map_option snd (agsubg s g name c)"
| "run_call (DelNodeCall g n) s = map_option snd (agdelnode s g n)"
| "run_call (DelEdgeCall g e) s = map_option snd (agdeledge s g e)"

text \<open>
  What the caller owes: the graph is open, the objects belong to it, and the counters and the pool
  have room for one more object.
\<close>

fun may_call :: "call \<Rightarrow> world \<Rightarrow> bool" where
  "may_call (NodeCall g name c) s = (live_graph s g \<and> ids_room (clos s) \<and> small s \<and> seq_room s AGNODE)"
| "may_call (SubnodeCall g n) s = (live_graph s g \<and> small s \<and> n \<in> set (N s []))"
| "may_call (EdgeCall g t h name c) s = (live_graph s g \<and> ids_room (clos s) \<and> small s \<and> seq_room s AGEDGE \<and>
     t \<in> set (N s g) \<and> h \<in> set (N s g))"
| "may_call (SubgCall g name c) s = (live_graph s g \<and> ids_room (clos s) \<and> seq_room s AGRAPH)"
| "may_call (DelNodeCall g n) s = (live_graph s g \<and> n \<in> set (N s g))"
| "may_call (DelEdgeCall g e) s = (live_graph s g \<and> fst e \<in> E s g)"

inductive reachable :: "world \<Rightarrow> bool" where
  opened: "even_malloc m \<Longrightarrow> (\<And>cs. cs \<noteq> [] \<Longrightarrow> ch cs \<in> set cs) \<Longrightarrow> agopen main m ch name desc = Some s \<Longrightarrow>
    reachable s"
| called: "reachable s \<Longrightarrow> may_call c s \<Longrightarrow> run_call c s = Some s' \<Longrightarrow> reachable s'"

inductive_cases reachableE: "reachable s"

section \<open>The invariant\<close>

lemma agopen_pick: "agopen main m ch name desc = Some s \<Longrightarrow> pick s = ch"
  by (auto simp: agopen_def agopen1_def agparent_def Let_def upd_graph_def split: option.splits)

lemma call_keeps:
  assumes wf: "wf s" and p: "good_pick s" and may: "may_call c s"
  shows "\<exists>s'. run_call c s = Some s' \<and> wf s' \<and> good_pick s'"
proof (cases c)
  case (NodeCall g name cf)
  have ids: "ids_ok (clos s) (held s)" using wf by (simp add: wf_def)
  from mapname_probe [OF ids, of AGNODE name] obtain r0 cl where
    q: "agmapnametoid (clos s) AGNODE name False = Some (r0, cl)" by auto
  from agnode_spec [OF wf _ _ _ _ q, of g cf] may NodeCall obtain r s' where
    s': "agnode s g name cf = Some (r, s')" "wf s'" and
    out: "case r of
       None \<Rightarrow> \<not> cf \<and> s' = s\<lparr>clos := cl\<rparr> \<and> (\<forall>n\<in>set (N s g). Some (AGID_n s n) \<noteq> r0)
     | Some n \<Rightarrow>
         (n \<in> set (N s g) \<and> r0 = Some (AGID_n s n) \<and> s' = s\<lparr>clos := cl\<rparr>) \<or>
         (cf \<and> n \<notin> set (N s g) \<and> r0 = Some (AGID_n s n) \<and> node_entered s g n s' \<and> clos s' = cl) \<or>
         (cf \<and> (\<forall>m\<in>set (N s []). Some (AGID_n s m) \<noteq> r0) \<and>
           (\<exists>i cl2. agmapnametoid cl AGNODE name True = Some (Some i, cl2) \<and>
             node_added (s\<lparr>clos := cl2\<rparr>) g n i s'))" by auto
  have "pick s' = pick s"
    using out by (cases r) (auto simp: node_entered_def node_added_def)
  with s' p show ?thesis by (simp add: NodeCall good_pick_def)
next
  case (SubnodeCall g n)
  from agsubnode_enters [OF wf, of g n] may SubnodeCall obtain s' where
    "agsubnode s g n True = Some (Some n, s')" "wf s'" "node_entered s g n s'" by auto
  with p show ?thesis by (simp add: SubnodeCall good_pick_def node_entered_def)
next
  case (EdgeCall g t h name cf)
  from agedge_spec [OF wf, of g t h name cf] may p EdgeCall obtain r s' where
    s': "agedge s g t h name cf = Some (r, s')" "edge_result s g t h cf r s'" by auto
  then have "wf s'" "pick s' = pick s"
    by (auto simp: edge_result_def edge_entered_def split: option.splits)
  with s' p show ?thesis by (simp add: EdgeCall good_pick_def)
next
  case (SubgCall g name cf)
  from agsubg_spec [OF wf, of g name cf] may SubgCall obtain r s' where
    s': "agsubg s g name cf = Some (r, s')" "wf s'" "pick s' = pick s"
    by (fastforce simp: subg_added_def split: option.splits)
  with p show ?thesis by (simp add: SubgCall good_pick_def)
next
  case (DelNodeCall g n)
  from agdelnode_spec [OF wf, of g n] may DelNodeCall obtain s' where
    "agdelnode s g n = Some (True, s')" "wf s'" "node_gone s g n s'" by auto
  with p show ?thesis by (simp add: DelNodeCall good_pick_def node_gone_def)
next
  case (DelEdgeCall g e)
  from agdeledge_spec [OF wf, of g "fst e" "snd e"] may DelEdgeCall obtain s' where
    "agdeledge s g e = Some (True, s')" "wf s'" "edges_gone s g {fst e} s'" by auto
  with p show ?thesis by (simp add: DelEdgeCall good_pick_def edges_gone_def)
qed

lemma reachable_invariant: "reachable s \<Longrightarrow> wf s \<and> good_pick s"
proof (induction rule: reachable.induct)
  case (opened m ch main name desc s)
  from agopen_spec [OF opened(1), of main ch name desc] opened(3) have "wf s" by auto
  with agopen_pick [OF opened(3)] opened(2) show ?case by (simp add: good_pick_def)
next
  case (called s c s')
  with call_keeps [of s c] show ?case by auto
qed

section \<open>Counting\<close>

lemma count_edges_sum:
  assumes ok: "structure_ok s" and l: "live_graph s g"
  shows "N s g = xs @ ys \<Longrightarrow> length ys < k \<Longrightarrow>
    count_edges k s g (hd_opt ys) = Some (\<Sum>n\<leftarrow>ys. length (out_seq (sub_of s g n)))"
proof (induction ys arbitrary: xs k)
  case Nil
  then show ?case by (cases k) simp_all
next
  case (Cons n ys)
  then obtain m where k: "k = Suc m" by (cases k) auto
  note no = structure_okD(1) [OF ok l]
  have "agdegree s g n False True = length (out_seq (sub_of s g n))"
    using subrep [OF no, of n] Cons.prems(1) by (simp add: agdegree_def)
  with next_node(1) [OF no Cons.prems(1)] Cons.IH [of "xs @ [n]" m] Cons.prems show ?case by (simp add: k)
qed

lemma out_card:
  assumes "structure_ok s" and "live_graph s g" and "n \<in> set (N s g)"
  shows "length (out_seq (sub_of s g n)) = card {e \<in> E s g. etail (edges s e) = n}"
    and "length (in_seq (sub_of s g n)) = card {e \<in> E s g. ehead (edges s e) = n}"
proof -
  note nl = node_lists [OF assms]
  have d: "distinct (out_seq (sub_of s g n))" "distinct (in_seq (sub_of s g n))"
    using nl(1) by_lex.ordered_distinct [of "seq_key s"] by (simp_all add: lists_ok_def)
  have "set (out_seq (sub_of s g n)) = (\<lambda>e. (e, OUT)) ` {e \<in> E s g. etail (edges s e) = n}"
    "set (in_seq (sub_of s g n)) = (\<lambda>e. (e, IN)) ` {e \<in> E s g. ehead (edges s e) = n}"
    using nl(1) by (auto simp: lists_ok_def)
  moreover have "inj_on (\<lambda>e. (e, d)) S" for d :: dir and S :: "eref set" by (simp add: inj_on_def)
  ultimately show "length (out_seq (sub_of s g n)) = card {e \<in> E s g. etail (edges s e) = n}"
    "length (in_seq (sub_of s g n)) = card {e \<in> E s g. ehead (edges s e) = n}"
    using distinct_card [OF d(1)] distinct_card [OF d(2)] by (simp_all add: card_image)
qed

lemma agnedges_card:
  assumes ok: "structure_ok s" and l: "live_graph s g"
  shows "agnedges s g = Some (card (E s g))"
proof -
  let ?T = "\<lambda>n. {e \<in> E s g. etail (edges s e) = n}"
  have "agnedges s g = Some (\<Sum>n\<leftarrow>N s g. length (out_seq (sub_of s g n)))"
    using count_edges_sum [OF ok l, of "[]" "N s g" "length (N s g) + 1"]
    by (simp add: agnedges_def agfstnode_def del: count_edges.simps)
  also have "(\<Sum>n\<leftarrow>N s g. length (out_seq (sub_of s g n))) = (\<Sum>n\<leftarrow>N s g. card (?T n))"
    using out_card(1) [OF ok l] by (intro arg_cong [where f = sum_list] map_cong) auto
  also have "\<dots> = (\<Sum>n\<in>set (N s g). card (?T n))"
    using nodes_distinct [OF structure_okD(1) [OF ok l]] by (simp add: sum_list_distinct_conv_sum_set)
  also have "\<dots> = card (\<Union>n\<in>set (N s g). ?T n)"
    by (rule card_UN_disjoint [symmetric]) (use finite_E in auto)
  also have "(\<Union>n\<in>set (N s g). ?T n) = E s g" using edge_ends(1) [OF ok l] by auto
  finally show ?thesis .
qed

lemma count_in_filter:
  assumes ok: "structure_ok s" and l: "live_graph s g" and n: "n \<in> set (N s g)"
  shows "in_seq (sub_of s g n) = us @ ws \<Longrightarrow> length ws < k \<Longrightarrow>
    count_in k s g n (hd_opt ws) = Some (length (filter (\<lambda>f. enode s f \<noteq> n) ws))"
proof (induction ws arbitrary: us k)
  case Nil
  then show ?case by (cases k) simp_all
next
  case (Cons f ws)
  then obtain m where k: "k = Suc m" by (cases k) auto
  from next_in [OF ok l n Cons.prems(1)] Cons.IH [of "us @ [f]" m] Cons.prems show ?case by (simp add: k)
qed

lemma agcountuniqedges_card:
  assumes ok: "structure_ok s" and l: "live_graph s g" and n: "n \<in> set (N s g)"
  shows "agcountuniqedges s g n True True = Some (card {e \<in> E s g. etail (edges s e) = n \<or> ehead (edges s e) = n})"
proof -
  note nl = node_lists [OF ok l n]
  have "length (in_seq (sub_of s g n)) < loop_fuel s g n" by (simp add: loop_fuel_def)
  from count_in_filter [OF ok l n _ this, of "[]"] nl(3)
  have "agcountuniqedges s g n True True = Some (length (node_edges s g n))"
    by (simp add: agcountuniqedges_def agfstin_def node_edges_def Let_def)
  also have "length (node_edges s g n) = card (fst ` set (node_edges s g n))"
    using distinct_card [OF node_edges_set(2) [OF ok l n]] by simp
  finally show ?thesis by (simp add: node_edges_set(1) [OF ok l n])
qed

section \<open>Properties\<close>









text \<open>
  C25. \<open>agdeledge\<close> on an edge of a graph takes it out of that graph and all the graphs below it, and
  out of no other; afterwards it is not found there any more.
\<close>
theorem agdeledge_correct:
  assumes "wf s" and "live_graph s g" and "fst e \<in> E s g"
  shows "\<exists>s'. agdeledge s g e = Some (True, s') \<and> wf s' \<and> (\<forall>a. live_graph s' a = live_graph s a) \<and>
    (\<forall>a. live_graph s a \<longrightarrow> N s' a = N s a \<and>
       E s' a = (if is_ancestor g a then E s a - {fst e} else E s a)) \<and>
    agfindedge_by_id s' g (AGTAIL s e) (AGHEAD s e) (AGID_e s e) = None"
proof -
  from agdeledge_spec [OF assms, of "snd e"] obtain s' where
    s': "agdeledge s g e = Some (True, s')" "wf s'" "edges_gone s g {fst e} s'" by auto
  have ok: "structure_ok s" and ok': "structure_ok s'" using assms(1) s'(2) by (simp_all add: wf_def)
  have l': "live_graph s' g" and N': "N s' g = N s g" and E': "E s' g = E s g - {fst e}"
    and ed: "edges s' = edges s" and r': "N s' [] = N s []"
    using s'(3) assms(2) by (simp_all add: edges_gone_def)
  note ends = edge_ends [OF ok assms(2,3)]
  have "AGTAIL s e \<in> set (N s' [])" "AGHEAD s e \<in> set (N s' g)" using ends N' r' node_in_root [OF ok assms(2)] by simp_all
  moreover have "\<forall>f\<in>E s' g. \<not> (etail (edges s' f) = AGTAIL s e \<and> ehead (edges s' f) = AGHEAD s e \<and> eid (edges s' f) = AGID_e s e)"
    using edge_unique [OF ok assms(2,3)] unfolding E' ed by blast
  ultimately have "agfindedge_by_id s' g (AGTAIL s e) (AGHEAD s e) (AGID_e s e) = None"
    unfolding agfindedge_by_id_def
    by (simp add: find_edge_None [OF structure_okD(1,2) [OF ok' l'] _ root_keyed [OF ok' l']])
  with s' show ?thesis by (intro exI [of _ s']) (simp add: edges_gone_def)
qed

theorem agdeledge_correct_witness:
  "\<exists>s a b e s' s''. pair_graph empty_graph s a b \<and> agedge s [] a b None True = Some (Some e, s') \<and>
    agdeledge s' [] e = Some (True, s'') \<and> E s'' [] = {}"
proof -
  from two_nodes [of empty_graph] obtain s a b where p: "pair_graph empty_graph s a b" by blast
  then have s: "wf s" "ids_room (clos s)" "live_graph s []" "small s" "seq_room s AGEDGE" "a \<in> set (N s [])"
    "b \<in> set (N s [])" "good_pick s" "E s [] = {}" by (auto simp: pair_graph_def)
  from agedge_spec [OF s(1-8), of None True] pair_may_make [OF p] obtain e s' where
    e: "agedge s [] a b None True = Some (Some e, s')" "edge_result s [] a b True (Some e) s'"
    by (auto simp: edge_result_def split: option.splits)
  then have s1: "wf s'" "live_graph s' []" "E s' [] = {fst e}"
    using s(9) by (auto simp: edge_result_def edge_entered_def)
  from agdeledge_correct [OF s1(1,2), of e] s1(3) obtain s'' where
    "agdeledge s' [] e = Some (True, s'')" "E s'' [] = {}" by auto
  with p e(1) show ?thesis by blast
qed

text \<open>
  C26. Iteration: \<open>agfstedge\<close> and \<open>agnxtedge\<close> visit every edge of the graph at the node exactly once, a
  loop included, and end; \<open>agfstnode\<close> and \<open>agnxtnode\<close> visit the nodes in the order of creation.
\<close>
theorem iteration_complete:
  assumes "wf s" and "live_graph s g" and "n \<in> set (N s g)"
  shows "\<exists>es. agfstedge s g n = hd_opt es \<and>
    (\<forall>xs e ys. es = xs @ e # ys \<longrightarrow> agnxtedge s g e n = Some (hd_opt ys)) \<and>
    distinct (map fst es) \<and> fst ` set es = {e \<in> E s g. etail (edges s e) = n \<or> ehead (edges s e) = n} \<and>
    agfstnode s g = hd_opt (N s g) \<and>
    (\<forall>xs m ys. N s g = xs @ m # ys \<longrightarrow> agnxtnode s g m = hd_opt ys \<and> (\<forall>x\<in>set xs. AGSEQ_n s x < AGSEQ_n s m))"
proof -
  have ok: "structure_ok s" using assms(1) by (rule wf_structure)
  note no = structure_okD(1) [OF ok assms(2)]
  have "\<forall>x\<in>set xs. AGSEQ_n s x < AGSEQ_n s m" if "N s g = xs @ m # ys" for xs m ys
    using no that by (auto simp: nodes_ok_def ordered_append ordered_Cons agsubnodeseqcmpf_def)
  with fst_edge [OF ok assms(2,3)] nxt_edge [OF ok assms(2,3)] node_edges_set [OF ok assms(2,3)] next_node(1) [OF no]
  show ?thesis by (intro exI [of _ "node_edges s g n"]) (simp add: agfstnode_def)
qed

theorem iteration_complete_witness:
  "\<exists>s a b. pair_graph empty_graph s a b \<and> agfstnode s [] = Some a \<and> agfstedge s [] a = None"
proof -
  from two_nodes [of empty_graph] obtain s a b where p: "pair_graph empty_graph s a b" by blast
  then have s: "wf s" "live_graph s []" "a \<in> set (N s [])" "N s [] = [a, b]" "E s [] = {}"
    by (simp_all add: pair_graph_def)
  from iteration_complete [OF s(1-3)] obtain es where es: "agfstedge s [] a = hd_opt es" "fst ` set es = {}"
    "agfstnode s [] = hd_opt (N s [])" unfolding s(5) by auto
  with p s(4) show ?thesis by auto
qed

text \<open>
  The counting functions count: \<open>agnnodes\<close> the nodes of a graph, \<open>agnedges\<close> its edges, \<open>agdegree\<close>
  the out-edges and in-edges of a node, a loop twice, and \<open>agcountuniqedges\<close> the edges at a node,
  a loop once.
\<close>
lemma counts_correct:
  assumes "wf s" and "live_graph s g" and "n \<in> set (N s g)"
  shows "agnnodes s g = card (set (N s g)) \<and> agnedges s g = Some (card (E s g)) \<and>
    agdegree s g n True True = card {e \<in> E s g. ehead (edges s e) = n} + card {e \<in> E s g. etail (edges s e) = n} \<and>
    agcountuniqedges s g n True True = Some (card {e \<in> E s g. etail (edges s e) = n \<or> ehead (edges s e) = n})"
proof -
  have ok: "structure_ok s" using assms(1) by (rule wf_structure)
  note no = structure_okD(1) [OF ok assms(2)]
  have "agnnodes s g = card (set (N s g))"
    using no nsize_card [of "AGID_n s" "n_id (graphs s g)"] by (simp add: agnnodes_def node_set_size_def nodes_ok_def)
  moreover have "agdegree s g n True True =
      card {e \<in> E s g. ehead (edges s e) = n} + card {e \<in> E s g. etail (edges s e) = n}"
    using out_card [OF ok assms(2,3)] node_lists(3) [OF ok assms(2,3)] by (simp add: agdegree_def)
  ultimately show ?thesis using agnedges_card [OF ok assms(2)] agcountuniqedges_card [OF ok assms(2,3)] by simp
qed

end
