(* ===== verification/GvList.thy ===== *)
theory GvList
  imports Prelude
begin

text \<open>
  The generic dynamic list of \<open>lib/util\<close> (\<open>list.c\<close>, \<open>list-private.h\<close> and the macros of
  \<open>list.h\<close>): a ring buffer whose first element lies in slot \<open>head\<close>. Items are kept whole: a
  \<open>memcpy\<close> or \<open>memmove\<close> of \<open>item_size\<close> bytes moves one item (lemma \<open>rotate_bytes_item\<close> for the
  byte-wise rotation of \<open>gv_list_sync_\<close>). The poisoning of unused slots has no effect outside
  the address sanitizer and is left out.
\<close>

section \<open>The state\<close>

text \<open>\<open>list_t_\<close>: the allocation as the list of its slots.\<close>

record 'a gvlist =
  base :: "'a list"
  head :: nat
  lsize :: nat
  capacity :: nat

definition empty_list :: "'a gvlist" where
  "empty_list = \<lparr>base = [], head = 0, lsize = 0, capacity = 0\<rparr>"

text \<open>
  What the operations take from their surroundings: whether the allocator can serve a request
  of so many bytes, the byte size of an item and the item that zeroed memory reads as.
\<close>

record 'a env =
  can_alloc :: "nat \<Rightarrow> bool"
  item_size :: nat
  zero :: 'a

text \<open>Arithmetic on \<open>size_t\<close>.\<close>

definition sz :: "nat \<Rightarrow> nat" where
  "sz n = n mod 2 ^ 64"

text \<open>\<open>memmove(base + dst, base + src, n)\<close>\<close>

definition memmove :: "'a list \<Rightarrow> nat \<Rightarrow> nat \<Rightarrow> nat \<Rightarrow> 'a list" where
  "memmove xs dst src n = take dst xs @ take n (drop src xs) @ drop (dst + n) xs"

section \<open>The operations of \<open>list.c\<close>\<close>

text \<open>\<open>gv_list_get_\<close>: the slot of an index; \<open>None\<close> is the failed bounds assertion.\<close>

definition slot_of :: "'a gvlist \<Rightarrow> nat \<Rightarrow> nat" where
  "slot_of l i = sz (head l + i) mod capacity l"

definition gv_list_get :: "'a gvlist \<Rightarrow> nat \<Rightarrow> nat option" where
  "gv_list_get l i = (if i < lsize l then Some (slot_of l i) else None)"

datatype errno = OK | EOVERFLOW | ENOMEM

definition try_reserve :: "'a env \<Rightarrow> 'a gvlist \<Rightarrow> nat \<Rightarrow> errno \<times> 'a gvlist" where
  "try_reserve v l c =
    (if capacity l \<ge> c then (OK, l)
     else if SIZE_MAX div c < item_size v then (EOVERFLOW, l)
     else if \<not> can_alloc v (c * item_size v) then (ENOMEM, l)
     else
       (let b = base l @ replicate (c - capacity l) (zero v)
        in if sz (head l + lsize l) > capacity l then
             (let prefix = capacity l - head l; new_head = c - prefix
              in (OK, l\<lparr>base := memmove b new_head (head l) prefix, head := new_head, capacity := c\<rparr>))
           else (OK, l\<lparr>base := b, capacity := c\<rparr>)))"

text \<open>The \<open>None\<close> of the functions that call \<open>graphviz_exit\<close> is the exit.\<close>

definition gv_list_reserve :: "'a env \<Rightarrow> 'a gvlist \<Rightarrow> nat \<Rightarrow> 'a gvlist option" where
  "gv_list_reserve v l c = (case try_reserve v l c of (OK, l') \<Rightarrow> Some l' | _ \<Rightarrow> None)"

definition grow :: "'a env \<Rightarrow> 'a gvlist \<Rightarrow> 'a gvlist option" where
  "grow v l =
    (if lsize l = capacity l then
       gv_list_reserve v l (if capacity l = 0 then 1 else sz (capacity l * 2))
     else Some l)"

definition gv_list_append_slot :: "'a env \<Rightarrow> 'a gvlist \<Rightarrow> (nat \<times> 'a gvlist) option" where
  "gv_list_append_slot v l =
    (case grow v l of
       None \<Rightarrow> None
     | Some l1 \<Rightarrow>
         (if \<not> lsize l1 < capacity l1 then None
          else Some (slot_of l1 (lsize l1), l1\<lparr>lsize := lsize l1 + 1\<rparr>)))"

definition gv_list_prepend_slot :: "'a env \<Rightarrow> 'a gvlist \<Rightarrow> (nat \<times> 'a gvlist) option" where
  "gv_list_prepend_slot v l =
    (case grow v l of
       None \<Rightarrow> None
     | Some l1 \<Rightarrow>
         (if \<not> lsize l1 < capacity l1 then None
          else
            (let h = sz (head l1 + (capacity l1 - 1)) mod capacity l1
             in Some (h, l1\<lparr>head := h, lsize := lsize l1 + 1\<rparr>))))"

text \<open>The expansion of \<open>gv_list_try_append_\<close>: doubling, then one slot more.\<close>

definition try_grow :: "'a env \<Rightarrow> 'a gvlist \<Rightarrow> 'a gvlist option" where
  "try_grow v l =
    (let conservative =
       (if SIZE_MAX - 1 \<ge> capacity l then
          (case try_reserve v l (capacity l + 1) of (OK, l') \<Rightarrow> Some l' | _ \<Rightarrow> None)
        else None)
     in if SIZE_MAX div 2 \<ge> capacity l then
          (case try_reserve v l (if capacity l = 0 then 1 else capacity l * 2) of
             (OK, l') \<Rightarrow> Some l'
           | _ \<Rightarrow> conservative)
        else conservative)"

definition gv_list_try_append :: "'a env \<Rightarrow> 'a gvlist \<Rightarrow> 'a \<Rightarrow> bool \<times> 'a gvlist" where
  "gv_list_try_append v l item =
    (case (if lsize l = capacity l then try_grow v l else Some l) of
       None \<Rightarrow> (False, l)
     | Some l1 \<Rightarrow>
         (True, l1\<lparr>base := (base l1)[slot_of l1 (lsize l1) := item], lsize := lsize l1 + 1\<rparr>))"

fun find_from :: "'a gvlist \<Rightarrow> 'a \<Rightarrow> nat list \<Rightarrow> nat" where
  "find_from l needle [] = SIZE_MAX"
| "find_from l needle (i # is) =
    (if needle = base l ! slot_of l i then i else find_from l needle is)"

definition gv_list_find :: "'a gvlist \<Rightarrow> 'a \<Rightarrow> nat" where
  "gv_list_find l needle = find_from l needle [0..<lsize l]"

definition gv_list_contains :: "'a gvlist \<Rightarrow> 'a \<Rightarrow> bool" where
  "gv_list_contains l needle \<longleftrightarrow> gv_list_find l needle \<noteq> SIZE_MAX"

definition copy_item :: "nat \<Rightarrow> nat \<Rightarrow> 'a gvlist \<Rightarrow> 'a gvlist" where
  "copy_item i j l = l\<lparr>base := (base l)[slot_of l i := base l ! slot_of l j]\<rparr>"

definition gv_list_remove :: "'a gvlist \<Rightarrow> nat \<Rightarrow> 'a gvlist option" where
  "gv_list_remove l i =
    (if \<not> i < lsize l then None
     else
       (let l1 = fold (\<lambda>j. copy_item (j - 1) j) [Suc i..<lsize l] l
        in Some (l1\<lparr>lsize := lsize l1 - 1\<rparr>)))"

definition gv_list_clear :: "'a gvlist \<Rightarrow> 'a gvlist" where
  "gv_list_clear l = l\<lparr>lsize := 0, head := 0\<rparr>"

text \<open>\<open>gv_list_copy_\<close>: the items of the copy start in slot 0, the rest is zeroed.\<close>

definition gv_list_copy :: "'a env \<Rightarrow> 'a gvlist \<Rightarrow> 'a gvlist option" where
  "gv_list_copy v l =
    (if (capacity l > 0 \<and> SIZE_MAX div capacity l < item_size v) \<or>
        (capacity l > 0 \<and> item_size v > 0 \<and> \<not> can_alloc v (capacity l * item_size v)) then None
     else Some (fold (\<lambda>i r. r\<lparr>base := (base r)[lsize r := base l ! slot_of l i], lsize := lsize r + 1\<rparr>)
            [0..<lsize l]
            \<lparr>base = replicate (capacity l) (zero v), head = 0, lsize = 0, capacity = capacity l\<rparr>))"

definition gv_list_is_contiguous :: "'a gvlist \<Rightarrow> bool" where
  "gv_list_is_contiguous l \<longleftrightarrow> sz (head l + lsize l) \<le> capacity l"

text \<open>
  \<open>gv_list_sync_\<close>: \<open>head\<close> times, \<open>item_size\<close> rotations of the allocation by one byte, which
  rotate it by one item.
\<close>

definition rotate_bytes :: "nat \<Rightarrow> 'b list \<Rightarrow> 'b list" where
  "rotate_bytes n bytes = (rotate1 ^^ n) bytes"

definition rotate_item :: "'a gvlist \<Rightarrow> 'a gvlist" where
  "rotate_item l = l\<lparr>base := rotate1 (base l), head := head l - 1\<rparr>"

definition gv_list_sync :: "'a gvlist \<Rightarrow> 'a gvlist" where
  "gv_list_sync l = (rotate_item ^^ head l) l"

text \<open>\<open>gv_list_sort_\<close>; \<open>qsort\<close> of the C library is a parameter.\<close>

definition gv_list_sort :: "(('a \<Rightarrow> 'a \<Rightarrow> int) \<Rightarrow> 'a list \<Rightarrow> 'a list) \<Rightarrow> ('a \<Rightarrow> 'a \<Rightarrow> int) \<Rightarrow> 'a gvlist
    \<Rightarrow> 'a gvlist" where
  "gv_list_sort qsort cmp l =
    (let l1 = gv_list_sync l
     in if lsize l1 \<noteq> 0 then
          l1\<lparr>base := qsort cmp (take (lsize l1) (base l1)) @ drop (lsize l1) (base l1)\<rparr>
        else l1)"

definition exchange :: "nat \<Rightarrow> nat \<Rightarrow> 'a gvlist \<Rightarrow> 'a gvlist" where
  "exchange i j l =
    l\<lparr>base := (base l)[slot_of l i := base l ! slot_of l j, slot_of l j := base l ! slot_of l i]\<rparr>"

definition gv_list_reverse :: "'a gvlist \<Rightarrow> 'a gvlist" where
  "gv_list_reverse l = fold (\<lambda>i. exchange i (lsize l - i - 1)) [0..<lsize l div 2] l"

text \<open>
  \<open>gv_list_shrink_to_fit_\<close>; \<open>None\<close> is a failed assertion of \<open>gv_recalloc\<close>. A reallocation to
  nothing is a free and cannot fail.
\<close>

definition gv_list_shrink_to_fit :: "'a env \<Rightarrow> 'a gvlist \<Rightarrow> 'a gvlist option" where
  "gv_list_shrink_to_fit v l =
    (let l1 = gv_list_sync l
     in if capacity l1 > lsize l1 then
          (if item_size v = 0 \<or> \<not> capacity l1 < SIZE_MAX div item_size v \<or>
              (lsize l1 > 0 \<and> \<not> can_alloc v (lsize l1 * item_size v)) then None
           else Some (l1\<lparr>base := take (lsize l1) (base l1), capacity := lsize l1\<rparr>))
        else Some l1)"

definition gv_list_free :: "'a gvlist \<Rightarrow> 'a gvlist" where
  "gv_list_free l = empty_list"

definition gv_list_pop_front :: "'a gvlist \<Rightarrow> ('a \<times> 'a gvlist) option" where
  "gv_list_pop_front l =
    (if lsize l > 0 then
       Some (base l ! slot_of l 0, l\<lparr>head := sz (head l + 1) mod capacity l, lsize := lsize l - 1\<rparr>)
     else None)"

definition gv_list_pop_back :: "'a gvlist \<Rightarrow> ('a \<times> 'a gvlist) option" where
  "gv_list_pop_back l =
    (if lsize l > 0 then Some (base l ! slot_of l (lsize l - 1), l\<lparr>lsize := lsize l - 1\<rparr>) else None)"

definition gv_list_detach :: "'a gvlist \<Rightarrow> ('a list \<times> nat) \<times> 'a gvlist" where
  "gv_list_detach l = (let l1 = gv_list_sync l in ((base l1, lsize l1), empty_list))"

section \<open>The macros of \<open>list.h\<close>\<close>

definition LIST_APPEND :: "'a env \<Rightarrow> 'a gvlist \<Rightarrow> 'a \<Rightarrow> 'a gvlist option" where
  "LIST_APPEND v l item =
    map_option (\<lambda>(slot, l1). l1\<lparr>base := (base l1)[slot := item]\<rparr>) (gv_list_append_slot v l)"

definition LIST_PREPEND :: "'a env \<Rightarrow> 'a gvlist \<Rightarrow> 'a \<Rightarrow> 'a gvlist option" where
  "LIST_PREPEND v l item =
    map_option (\<lambda>(slot, l1). l1\<lparr>base := (base l1)[slot := item]\<rparr>) (gv_list_prepend_slot v l)"

definition LIST_GET :: "'a gvlist \<Rightarrow> nat \<Rightarrow> 'a option" where
  "LIST_GET l i = map_option (\<lambda>slot. base l ! slot) (gv_list_get l i)"

text \<open>
  The macros that call the list's destructor return the items it is called on, in order.
\<close>

definition LIST_SET :: "'a gvlist \<Rightarrow> nat \<Rightarrow> 'a \<Rightarrow> ('a list \<times> 'a gvlist) option" where
  "LIST_SET l i item =
    map_option (\<lambda>slot. ([base l ! slot], l\<lparr>base := (base l)[slot := item]\<rparr>)) (gv_list_get l i)"

definition LIST_REMOVE :: "'a gvlist \<Rightarrow> 'a \<Rightarrow> ('a list \<times> 'a gvlist) option" where
  "LIST_REMOVE l item =
    (let found = gv_list_find l item
     in if found = SIZE_MAX then Some ([], l)
        else map_option (\<lambda>l1. ([base l ! found], l1)) (gv_list_remove l found))"

definition LIST_CLEAR :: "'a gvlist \<Rightarrow> 'a list \<times> 'a gvlist" where
  "LIST_CLEAR l = (map (\<lambda>i. base l ! slot_of l i) [0..<lsize l], gv_list_clear l)"

definition LIST_FREE :: "'a gvlist \<Rightarrow> 'a list \<times> 'a gvlist" where
  "LIST_FREE l = (let (ds, l1) = LIST_CLEAR l in (ds, gv_list_free l1))"

definition LIST_DROP_BACK :: "'a gvlist \<Rightarrow> ('a list \<times> 'a gvlist) option" where
  "LIST_DROP_BACK l =
    (case gv_list_get l (sz (lsize l + SIZE_MAX)) of
       None \<Rightarrow> None
     | Some slot \<Rightarrow> map_option (\<lambda>(_, l1). ([base l ! slot], l1)) (gv_list_pop_back l))"

end
