(* ===== verification/GvList_Correct.thy ===== *)
theory GvList_Correct
  imports GvList
begin

text \<open>
  The ring buffer implements lists: \<open>items_of\<close> reads the items off the ring and every operation
  of the C list is the list operation on them.
\<close>

definition items_of :: "'a gvlist \<Rightarrow> 'a list" where
  "items_of l = map (\<lambda>i. base l ! slot_of l i) [0..<lsize l]"

definition gvlist_ok :: "'a gvlist \<Rightarrow> bool" where
  "gvlist_ok l \<longleftrightarrow> length (base l) = capacity l \<and> lsize l \<le> capacity l \<and>
     (head l < capacity l \<or> capacity l = 0 \<and> head l = 0) \<and> capacity l < 2 ^ 63"

text \<open>Room to double, and an allocator that serves it.\<close>

definition serves :: "'a env \<Rightarrow> nat \<Rightarrow> bool" where
  "serves v n \<longleftrightarrow> (\<forall>m \<le> n. m * item_size v \<le> SIZE_MAX \<and> can_alloc v (m * item_size v))"

lemma length_items_of [simp]: "length (items_of l) = lsize l"
  by (simp add: items_of_def)

lemma nth_items_of [simp]: "i < lsize l \<Longrightarrow> items_of l ! i = base l ! slot_of l i"
  by (simp add: items_of_def)

lemma sz_small [simp]: "n < 2 ^ 64 \<Longrightarrow> sz n = n"
  by (simp add: sz_def)

lemma slot_of_cases:
  assumes "gvlist_ok l" and "i < capacity l"
  shows "slot_of l i = (if head l + i < capacity l then head l + i else head l + i - capacity l)"
proof -
  have "sz (head l + i) = head l + i" using assms by (simp add: gvlist_ok_def)
  moreover have "head l < capacity l" using assms by (auto simp: gvlist_ok_def)
  ultimately show ?thesis using assms(2) by (simp add: slot_of_def mod_if)
qed

lemma slot_of_less: "gvlist_ok l \<Longrightarrow> i < capacity l \<Longrightarrow> slot_of l i < length (base l)"
  by (simp add: slot_of_cases) (auto simp: gvlist_ok_def)

lemma slot_of_inj:
  "gvlist_ok l \<Longrightarrow> i < capacity l \<Longrightarrow> j < capacity l \<Longrightarrow> slot_of l i = slot_of l j \<longleftrightarrow> i = j"
  by (auto simp: slot_of_cases split: if_splits)

lemma slot_of_base [simp]: "slot_of (l\<lparr>base := b\<rparr>) = slot_of l"
  "slot_of (l\<lparr>lsize := n\<rparr>) = slot_of l"
  by (simp_all add: slot_of_def fun_eq_iff)

lemma gvlist_ok_base [simp]: "length b = length (base l) \<Longrightarrow> gvlist_ok (l\<lparr>base := b\<rparr>) = gvlist_ok l"
  by (simp add: gvlist_ok_def)

lemma gvlist_ok_bound: "gvlist_ok l \<Longrightarrow> lsize l \<le> capacity l" "gvlist_ok l \<Longrightarrow> capacity l < 2 ^ 63"
  by (simp_all add: gvlist_ok_def)

lemma gvlist_ok_lsize: "gvlist_ok l \<Longrightarrow> n \<le> capacity l \<Longrightarrow> gvlist_ok (l\<lparr>lsize := n\<rparr>)"
  by (simp add: gvlist_ok_def)

lemma empty_list_ok [simp]: "gvlist_ok empty_list" "items_of empty_list = []"
  by (simp_all add: gvlist_ok_def empty_list_def items_of_def)

text \<open>Storing into the slot of an index is an update of the list of items.\<close>

lemma items_of_store:
  assumes "gvlist_ok l" and "i < capacity l"
  shows "items_of (l\<lparr>base := (base l)[slot_of l i := x]\<rparr>) = (items_of l)[i := x]"
proof (rule nth_equalityI)
  fix j assume "j < length (items_of (l\<lparr>base := (base l)[slot_of l i := x]\<rparr>))"
  then have j: "j < lsize l" by simp
  then have "j < capacity l" using gvlist_ok_bound [OF assms(1)] by simp
  with j slot_of_inj [OF assms(1) this assms(2)] slot_of_less [OF assms(1,2)]
  show "items_of (l\<lparr>base := (base l)[slot_of l i := x]\<rparr>) ! j = (items_of l)[i := x] ! j"
    by (auto simp: nth_list_update)
qed simp

lemma items_of_extend:
  assumes "gvlist_ok l" and "lsize l < capacity l"
  shows "items_of (l\<lparr>base := (base l)[slot_of l (lsize l) := x], lsize := lsize l + 1\<rparr>) = items_of l @ [x]"
    and "gvlist_ok (l\<lparr>base := (base l)[slot_of l (lsize l) := x], lsize := lsize l + 1\<rparr>)"
proof -
  let ?b = "(base l)[slot_of l (lsize l) := x]"
  have "items_of (l\<lparr>base := ?b, lsize := lsize l + 1\<rparr>) = items_of (l\<lparr>base := ?b\<rparr>) @ [?b ! slot_of l (lsize l)]"
    by (simp add: items_of_def)
  with items_of_store [OF assms, of x] slot_of_less [OF assms]
  show "items_of (l\<lparr>base := ?b, lsize := lsize l + 1\<rparr>) = items_of l @ [x]" by (simp add: list_update_beyond)
  show "gvlist_ok (l\<lparr>base := ?b, lsize := lsize l + 1\<rparr>)" using assms by (simp add: gvlist_ok_def)
qed

section \<open>Growing\<close>

lemma length_memmove: "src + n \<le> length xs \<Longrightarrow> dst + n \<le> length xs \<Longrightarrow> length (memmove xs dst src n) = length xs"
  by (simp add: memmove_def)

lemma nth_memmove:
  assumes "src + n \<le> length xs" and "dst + n \<le> length xs" and "i < length xs"
  shows "memmove xs dst src n ! i = (if dst \<le> i \<and> i < dst + n then xs ! (src + (i - dst)) else xs ! i)"
proof -
  have "length (take dst xs) = dst" "length (take n (drop src xs)) = n" using assms by simp_all
  with assms(3) show ?thesis using assms(1,2)
    by (auto simp: memmove_def nth_append simp del: length_take)
qed

lemma try_reserve_correct:
  assumes ok: "gvlist_ok l" and c: "c < 2 ^ 63"
    and r: "try_reserve v l c = (OK, l')"
  shows "gvlist_ok l'" and "items_of l' = items_of l" and "lsize l' = lsize l"
    and "capacity l' = max (capacity l) c"
proof -
  have "gvlist_ok l' \<and> items_of l' = items_of l \<and> lsize l' = lsize l \<and> capacity l' = max (capacity l) c"
  proof (cases "capacity l \<ge> c")
    case True
    with r ok show ?thesis by (auto simp: try_reserve_def)
  next
    case grow: False
    let ?h = "head l" and ?c = "capacity l" and ?b = "base l @ replicate (c - capacity l) (zero v)"
    have lb: "length ?b = c" "length (base l) = ?c" using ok grow by (simp_all add: gvlist_ok_def)
    have s: "sz (?h + lsize l) = ?h + lsize l" using ok by (auto simp: gvlist_ok_def)
    show ?thesis
    proof (cases "?h + lsize l > ?c")
      case True
      let ?p = "?c - ?h" and ?m = "memmove ?b (c - (?c - ?h)) ?h (?c - ?h)"
      have h: "?h < ?c" "lsize l \<le> ?c" using ok True by (auto simp: gvlist_ok_def)
      have l': "l' = l\<lparr>base := ?m, head := c - ?p, capacity := c\<rparr>"
        using r grow s True by (auto simp: try_reserve_def Let_def split: if_splits)
      have len: "length ?m = c" using lb grow h by (subst length_memmove) simp_all
      have ok': "gvlist_ok l'" using l' len h grow c True by (simp add: gvlist_ok_def)
      have "items_of l' = items_of l"
      proof (rule nth_equalityI)
        fix i assume "i < length (items_of l')"
        then have i: "i < lsize l" by (simp add: l')
        have "slot_of l' i = (if i < ?p then c - ?p + i else i - ?p)"
          using slot_of_cases [OF ok', of i] i l' h grow by auto
        moreover have "slot_of l i = (if i < ?p then ?h + i else i - ?p)"
          using slot_of_cases [OF ok, of i] i h by auto
        moreover have "?m ! j = (if c - ?p \<le> j then ?b ! (?h + (j - (c - ?p))) else ?b ! j)" if "j < c" for j
          using that lb grow h by (subst nth_memmove) auto
        ultimately have "base l' ! slot_of l' i = base l ! slot_of l i"
          using i h grow lb by (auto simp: l' nth_append)
        with i show "items_of l' ! i = items_of l ! i" by (simp add: l')
      qed (simp add: l')
      with ok' l' grow show ?thesis by simp
    next
      case False
      have l': "l' = l\<lparr>base := ?b, capacity := c\<rparr>"
        using r grow s False by (auto simp: try_reserve_def Let_def split: if_splits)
      have ok': "gvlist_ok l'" using ok l' grow c lb by (auto simp: gvlist_ok_def)
      have "items_of l' = items_of l"
      proof (rule nth_equalityI)
        fix i assume "i < length (items_of l')"
        then have i: "i < lsize l" "i < capacity l" using gvlist_ok_bound [OF ok] by (simp_all add: l')
        then show "items_of l' ! i = items_of l ! i"
          using slot_of_cases [OF ok, of i] slot_of_cases [OF ok', of i] False grow lb
          by (simp add: l' nth_append)
      qed (simp add: l')
      with ok' l' grow show ?thesis by simp
    qed
  qed
  then show "gvlist_ok l'" and "items_of l' = items_of l" and "lsize l' = lsize l"
    and "capacity l' = max (capacity l) c" by simp_all
qed

lemma try_reserve_served:
  assumes "serves v c"
  shows "\<exists>l'. try_reserve v l c = (OK, l')"
proof -
  have "\<not> SIZE_MAX div c < item_size v" if "0 < c"
    using assms that by (auto simp: serves_def less_eq_div_iff_mult_less_eq mult.commute not_less)
  moreover have "can_alloc v (c * item_size v)" using assms by (simp add: serves_def)
  ultimately show ?thesis by (cases "c = 0") (auto simp: try_reserve_def Let_def)
qed

lemma serves_mono: "serves v n \<Longrightarrow> m \<le> n \<Longrightarrow> serves v m"
  by (simp add: serves_def)

lemma grow_correct:
  assumes ok: "gvlist_ok l" and small: "lsize l < 2 ^ 62" and g: "grow v l = Some l'"
  shows "gvlist_ok l'" and "items_of l' = items_of l" and "lsize l' = lsize l" and "lsize l' < capacity l'"
proof -
  have "gvlist_ok l' \<and> items_of l' = items_of l \<and> lsize l' = lsize l \<and> lsize l' < capacity l'"
  proof (cases "lsize l = capacity l")
    case True
    let ?c = "if capacity l = 0 then 1 else sz (capacity l * 2)"
    have c: "?c < 2 ^ 63" "capacity l < ?c" using small True by auto
    from g True have "try_reserve v l ?c = (OK, l')"
      by (auto simp: grow_def gv_list_reserve_def split: prod.splits errno.splits)
    from try_reserve_correct [OF ok c(1) this] c(2) True show ?thesis by simp
  next
    case False
    with g ok show ?thesis by (auto simp: grow_def gvlist_ok_def)
  qed
  then show "gvlist_ok l'" and "items_of l' = items_of l" and "lsize l' = lsize l" and "lsize l' < capacity l'"
    by simp_all
qed

lemma grow_served:
  assumes "serves v (2 * lsize l + 1)" and "lsize l < 2 ^ 62"
  shows "grow v l \<noteq> None"
proof -
  let ?c = "if capacity l = 0 then 1 else sz (capacity l * 2)"
  show ?thesis
  proof (cases "lsize l = capacity l")
    case True
    with assms(2) have "?c \<le> 2 * lsize l + 1" by simp
    from try_reserve_served [OF serves_mono [OF assms(1) this]] obtain l' where
      "try_reserve v l ?c = (OK, l')" by blast
    with True show ?thesis by (simp add: grow_def gv_list_reserve_def)
  qed (simp add: grow_def)
qed

section \<open>The operations on the items\<close>

lemma append_correct:
  assumes ok: "gvlist_ok l" and small: "lsize l < 2 ^ 62" and a: "LIST_APPEND v l x = Some l'"
  shows "gvlist_ok l' \<and> items_of l' = items_of l @ [x]"
proof -
  from a obtain l1 where g: "grow v l = Some l1"
    by (auto simp: LIST_APPEND_def gv_list_append_slot_def split: option.splits)
  note l1 = grow_correct [OF ok small g]
  have "l' = l1\<lparr>base := (base l1)[slot_of l1 (lsize l1) := x], lsize := lsize l1 + 1\<rparr>"
    using a g l1(4) by (cases l1) (auto simp: LIST_APPEND_def gv_list_append_slot_def)
  with items_of_extend [OF l1(1,4)] l1(2) show ?thesis by simp
qed

lemma append_served:
  assumes ok: "gvlist_ok l" and small: "lsize l < 2 ^ 62" and s: "serves v (2 * lsize l + 1)"
  shows "LIST_APPEND v l x \<noteq> None"
proof -
  obtain l1 where g: "grow v l = Some l1" using grow_served [OF s small] by blast
  with grow_correct(4) [OF ok small g] show ?thesis
    by (simp add: LIST_APPEND_def gv_list_append_slot_def)
qed

lemma prepend_head:
  assumes ok: "gvlist_ok l" and less: "lsize l < capacity l"
    and that: "h = sz (head l + (capacity l - 1)) mod capacity l"
  shows "gvlist_ok (l\<lparr>base := (base l)[h := x], head := h, lsize := lsize l + 1\<rparr>) \<and>
    items_of (l\<lparr>base := (base l)[h := x], head := h, lsize := lsize l + 1\<rparr>) = x # items_of l"
proof -
  let ?l = "l\<lparr>base := (base l)[h := x], head := h, lsize := lsize l + 1\<rparr>"
  have hd: "head l < capacity l" "capacity l < 2 ^ 63" using ok less by (auto simp: gvlist_ok_def)
  have "sz (head l + (capacity l - 1)) = head l + (capacity l - 1)" using hd by simp
  with that hd have h: "h = (if head l = 0 then capacity l - 1 else head l - 1)"
    by (auto simp: mod_if)
  have ok': "gvlist_ok ?l" using ok less hd h by (auto simp: gvlist_ok_def)
  have "items_of ?l = x # items_of l"
  proof (rule nth_equalityI)
    fix i assume "i < length (items_of ?l)"
    then have i: "i < Suc (lsize l)" by simp
    have lb: "length (base l) = capacity l" using ok by (simp add: gvlist_ok_def)
    show "items_of ?l ! i = (x # items_of l) ! i"
    proof (cases i)
      case 0
      with slot_of_cases [OF ok', of 0] hd h lb less show ?thesis by auto
    next
      case (Suc j)
      with i have j: "j < lsize l" "j < capacity l" using less by simp_all
      have "slot_of ?l i = slot_of l j"
        using slot_of_cases [OF ok, of j] slot_of_cases [OF ok', of i] j Suc h hd less by auto
      moreover have "slot_of l j \<noteq> h"
        using slot_of_cases [OF ok, of j] j h hd less by auto
      ultimately show ?thesis using Suc i j by simp
    qed
  qed simp
  with ok' show ?thesis by blast
qed

lemma prepend_correct:
  assumes ok: "gvlist_ok l" and small: "lsize l < 2 ^ 62" and a: "LIST_PREPEND v l x = Some l'"
  shows "gvlist_ok l' \<and> items_of l' = x # items_of l"
proof -
  from a obtain l1 where g: "grow v l = Some l1"
    by (auto simp: LIST_PREPEND_def gv_list_prepend_slot_def split: option.splits)
  note l1 = grow_correct [OF ok small g]
  have "l' = l1\<lparr>base := (base l1)[sz (head l1 + (capacity l1 - 1)) mod capacity l1 := x],
      head := sz (head l1 + (capacity l1 - 1)) mod capacity l1, lsize := lsize l1 + 1\<rparr>"
    using a g l1(4) by (cases l1) (auto simp: LIST_PREPEND_def gv_list_prepend_slot_def Let_def)
  with prepend_head [OF l1(1,4) refl, of x] l1(2) show ?thesis by simp
qed

lemma prepend_served:
  assumes ok: "gvlist_ok l" and small: "lsize l < 2 ^ 62" and s: "serves v (2 * lsize l + 1)"
  shows "LIST_PREPEND v l x \<noteq> None"
proof -
  obtain l1 where g: "grow v l = Some l1" using grow_served [OF s small] by blast
  with grow_correct(4) [OF ok small g] show ?thesis
    by (simp add: LIST_PREPEND_def gv_list_prepend_slot_def Let_def)
qed

lemma pop_front_correct:
  assumes ok: "gvlist_ok l"
  shows "case gv_list_pop_front l of
      None \<Rightarrow> items_of l = []
    | Some (x, l') \<Rightarrow> items_of l = x # items_of l' \<and> gvlist_ok l'"
proof (cases "lsize l > 0")
  case False
  then show ?thesis by (simp add: gv_list_pop_front_def items_of_def)
next
  case True
  let ?l = "l\<lparr>head := sz (head l + 1) mod capacity l, lsize := lsize l - 1\<rparr>"
  have c: "head l < capacity l" "lsize l \<le> capacity l" "capacity l < 2 ^ 63"
    using ok True by (auto simp: gvlist_ok_def)
  then have "sz (head l + 1) = head l + 1" by simp
  with c have h: "sz (head l + 1) mod capacity l = (if head l + 1 = capacity l then 0 else head l + 1)"
    by (simp add: mod_if)
  have ok': "gvlist_ok ?l" using ok c h by (auto simp: gvlist_ok_def)
  have "items_of l = base l ! slot_of l 0 # items_of ?l"
  proof (rule nth_equalityI)
    fix i assume "i < length (items_of l)"
    then have i: "i < lsize l" by simp
    show "items_of l ! i = (base l ! slot_of l 0 # items_of ?l) ! i"
    proof (cases i)
      case (Suc j)
      then have "slot_of ?l j = slot_of l i"
        using slot_of_cases [OF ok, of i] slot_of_cases [OF ok', of j] i c h by auto
      with Suc i show ?thesis by simp
    qed (use True in simp)
  qed (use True in simp)
  with True ok' show ?thesis by (simp add: gv_list_pop_front_def)
qed

lemma items_of_butlast: "items_of (l\<lparr>lsize := lsize l - 1\<rparr>) = butlast (items_of l)"
  by (cases "lsize l") (simp_all add: items_of_def)

lemma pop_back_correct:
  assumes ok: "gvlist_ok l"
  shows "case gv_list_pop_back l of
      None \<Rightarrow> items_of l = []
    | Some (x, l') \<Rightarrow> items_of l = items_of l' @ [x] \<and> gvlist_ok l'"
proof (cases "lsize l > 0")
  case True
  then have "items_of l \<noteq> []" "last (items_of l) = base l ! slot_of l (lsize l - 1)"
    by (simp_all add: items_of_def last_conv_nth)
  then have "items_of l = butlast (items_of l) @ [base l ! slot_of l (lsize l - 1)]" by (metis append_butlast_last_id)
  with True gvlist_ok_lsize [OF ok] gvlist_ok_bound(1) [OF ok] show ?thesis
    by (simp add: gv_list_pop_back_def items_of_butlast [simplified])
qed (simp add: gv_list_pop_back_def items_of_def)

lemma try_append_correct:
  assumes ok: "gvlist_ok l" and small: "lsize l < 2 ^ 62"
    and a: "gv_list_try_append v l x = (ok', l')"
  shows "gvlist_ok l' \<and> items_of l' = (if ok' then items_of l @ [x] else items_of l)"
proof (cases "if lsize l = capacity l then try_grow v l else Some l")
  case None
  with a ok show ?thesis by (simp add: gv_list_try_append_def)
next
  case (Some l1)
  have l1: "gvlist_ok l1 \<and> items_of l1 = items_of l \<and> lsize l1 < capacity l1"
  proof (cases "lsize l = capacity l")
    case True
    with Some obtain c where c: "c = (if capacity l = 0 then 1 else capacity l * 2) \<or> c = capacity l + 1"
      "try_reserve v l c = (OK, l1)"
      by (fastforce simp: try_grow_def Let_def split: prod.splits errno.splits if_splits)
    have "c < 2 ^ 63" "capacity l < c" using c(1) small True by auto
    with try_reserve_correct [OF ok _ c(2)] True show ?thesis by simp
  next
    case False
    with Some ok show ?thesis by (auto simp: gvlist_ok_def)
  qed
  have "ok'" "l' = l1\<lparr>base := (base l1)[slot_of l1 (lsize l1) := x], lsize := lsize l1 + 1\<rparr>"
    using a Some by (simp_all add: gv_list_try_append_def)
  with l1 items_of_extend [of l1 x] show ?thesis by simp
qed

lemma find_from_correct:
  assumes "\<forall>i\<in>set is. i < lsize l"
  shows "find_from l x is = (case List.find (\<lambda>i. x = items_of l ! i) is of None \<Rightarrow> SIZE_MAX | Some i \<Rightarrow> i)"
  using assms by (induction "is") auto

lemma find_correct:
  assumes "lsize l < 2 ^ 63"
  shows "gv_list_find l x = (if x \<in> set (items_of l) then LEAST i. i < lsize l \<and> items_of l ! i = x else SIZE_MAX)"
proof -
  have f: "gv_list_find l x = (case List.find (\<lambda>i. x = items_of l ! i) [0..<lsize l] of None \<Rightarrow> SIZE_MAX | Some i \<Rightarrow> i)"
    unfolding gv_list_find_def by (rule find_from_correct) simp
  show ?thesis
  proof (cases "List.find (\<lambda>i. x = items_of l ! i) [0..<lsize l]")
    case None
    then have "x \<notin> set (items_of l)" by (auto simp: find_None_iff in_set_conv_nth)
    with None f show ?thesis by simp
  next
    case (Some i)
    then have i: "i < lsize l" "items_of l ! i = x" "\<forall>j<i. items_of l ! j \<noteq> x"
      by (auto simp: find_Some_iff)
    then have "(LEAST i. i < lsize l \<and> items_of l ! i = x) = i"
      by (intro Least_equality) (auto simp: not_less [symmetric])
    moreover have "x \<in> set (items_of l)" using i by (metis length_items_of nth_mem)
    ultimately show ?thesis using f Some by simp
  qed
qed

lemma find_bound: "lsize l < 2 ^ 63 \<Longrightarrow> gv_list_find l x \<noteq> SIZE_MAX \<longleftrightarrow> x \<in> set (items_of l)"
  and find_index: "lsize l < 2 ^ 63 \<Longrightarrow> x \<in> set (items_of l) \<Longrightarrow>
    gv_list_find l x < lsize l \<and> items_of l ! gv_list_find l x = x"
proof -
  assume small: "lsize l < 2 ^ 63"
  show idx: "gv_list_find l x < lsize l \<and> items_of l ! gv_list_find l x = x" if "x \<in> set (items_of l)"
  proof -
    from that obtain i where "i < lsize l \<and> items_of l ! i = x" by (auto simp: in_set_conv_nth)
    then show ?thesis using find_correct [OF small, of x] that by (auto intro: LeastI2)
  qed
  with small show "gv_list_find l x \<noteq> SIZE_MAX \<longleftrightarrow> x \<in> set (items_of l)"
    using find_correct [OF small, of x] by (auto simp: SIZE_MAX_def)
qed

text \<open>The loops that move items: what they do to the list of items.\<close>

definition same_shape :: "'a gvlist \<Rightarrow> 'a gvlist \<Rightarrow> bool" where
  "same_shape l l' \<longleftrightarrow> gvlist_ok l' \<and> lsize l' = lsize l \<and> capacity l' = capacity l \<and> head l' = head l"

lemma store_shape:
  assumes "gvlist_ok l" and "i < lsize l"
  shows "same_shape l (l\<lparr>base := (base l)[slot_of l i := x]\<rparr>)"
    and "items_of (l\<lparr>base := (base l)[slot_of l i := x]\<rparr>) = (items_of l)[i := x]"
  using assms items_of_store [OF assms(1)] gvlist_ok_bound [OF assms(1)] by (simp_all add: same_shape_def)

lemma copy_item_shape:
  assumes "gvlist_ok l" and "i < lsize l" and "j < lsize l"
  shows "same_shape l (copy_item i j l)" and "items_of (copy_item i j l) = (items_of l)[i := items_of l ! j]"
  using store_shape [OF assms(1,2), of "base l ! slot_of l j"] assms(3) by (simp_all add: copy_item_def)

lemma exchange_shape:
  assumes "gvlist_ok l" and "i < lsize l" and "j < lsize l"
  shows "same_shape l (exchange i j l)"
    and "items_of (exchange i j l) = (items_of l)[i := items_of l ! j, j := items_of l ! i]"
proof -
  let ?l = "l\<lparr>base := (base l)[slot_of l i := base l ! slot_of l j]\<rparr>"
  note s = store_shape [OF assms(1,2), of "base l ! slot_of l j"]
  have ok: "gvlist_ok ?l" "j < lsize ?l" using s assms(3) by (simp_all add: same_shape_def)
  have e: "exchange i j l = ?l\<lparr>base := (base ?l)[slot_of ?l j := base l ! slot_of l i]\<rparr>"
    by (simp add: exchange_def)
  note t = store_shape [OF ok, of "base l ! slot_of l i"]
  from t(1) show "same_shape l (exchange i j l)" unfolding e by (simp add: same_shape_def)
  from t(2) s(2) assms(2,3) show "items_of (exchange i j l) = (items_of l)[i := items_of l ! j, j := items_of l ! i]"
    unfolding e by simp
qed

lemma fold_items:
  assumes "gvlist_ok l" and "\<forall>i\<in>set is. P i"
    and "\<And>l i. gvlist_ok l \<Longrightarrow> lsize l = n \<Longrightarrow> P i \<Longrightarrow> same_shape l (f i l) \<and> items_of (f i l) = g i (items_of l)"
    and "lsize l = n"
  shows "same_shape l (fold f is l)" and "items_of (fold f is l) = fold g is (items_of l)"
proof -
  have "same_shape l (fold f is l) \<and> items_of (fold f is l) = fold g is (items_of l)"
    using assms(1,2,4)
  proof (induction "is" arbitrary: l)
    case (Cons i "is")
    then have i: "same_shape l (f i l)" "items_of (f i l) = g i (items_of l)" using assms(3) [of l i] by simp_all
    with Cons.IH [of "f i l"] Cons.prems show ?case by (simp add: same_shape_def)
  qed (simp add: same_shape_def)
  then show "same_shape l (fold f is l)" and "items_of (fold f is l) = fold g is (items_of l)" by simp_all
qed

lemma shift_down:
  assumes "k \<le> m" and "m < length xs"
  shows "length (fold (\<lambda>j xs. xs[j - 1 := xs ! j]) [Suc k..<Suc m] xs) = length xs \<and>
    (\<forall>i < length xs. fold (\<lambda>j xs. xs[j - 1 := xs ! j]) [Suc k..<Suc m] xs ! i =
       (if k \<le> i \<and> i < m then xs ! Suc i else xs ! i))"
  using assms
proof (induction m)
  case (Suc m)
  show ?case
  proof (cases "k = Suc m")
    case False
    with Suc have "k \<le> m" "m < length xs" by simp_all
    note IH = Suc.IH [OF this]
    let ?f = "fold (\<lambda>j xs. xs[j - 1 := xs ! j]) [Suc k..<Suc m] xs"
    have "fold (\<lambda>j xs. xs[j - 1 := xs ! j]) [Suc k..<Suc (Suc m)] xs = ?f[m := ?f ! Suc m]"
      using False Suc.prems by simp
    with IH Suc.prems False show ?thesis by (auto simp: nth_list_update)
  qed auto
qed auto

lemma shift_butlast:
  assumes "length ys = length xs" and "length xs = Suc m" and "i \<le> m"
    and "\<forall>k < length xs. ys ! k = (if i \<le> k \<and> k < m then xs ! Suc k else xs ! k)"
  shows "butlast ys = take i xs @ drop (Suc i) xs"
  using assms by (intro nth_equalityI) (auto simp: nth_butlast nth_append)

lemma remove_correct:
  assumes ok: "gvlist_ok l" and i: "i < lsize l"
  shows "\<exists>l'. gv_list_remove l i = Some l' \<and> gvlist_ok l' \<and>
    items_of l' = take i (items_of l) @ drop (Suc i) (items_of l)"
proof -
  let ?l = "fold (\<lambda>j. copy_item (j - 1) j) [Suc i..<lsize l] l"
  have step: "same_shape r (copy_item (j - 1) j r) \<and> items_of (copy_item (j - 1) j r) = (items_of r)[j - 1 := items_of r ! j]"
    if "gvlist_ok r" "lsize r = lsize l" "j < lsize l" for r :: "'a gvlist" and j
    using that copy_item_shape [of r "j - 1" j] by simp
  have f: "same_shape l ?l" "items_of ?l = fold (\<lambda>j xs. xs[j - 1 := xs ! j]) [Suc i..<lsize l] (items_of l)"
    by (rule fold_items [OF ok _ step refl]; simp)+
  from i obtain m where m: "lsize l = Suc m" "i \<le> m" by (cases "lsize l") auto
  have sh: "length (items_of ?l) = length (items_of l) \<and> (\<forall>k < length (items_of l). items_of ?l ! k =
      (if i \<le> k \<and> k < m then items_of l ! Suc k else items_of l ! k))"
    unfolding f(2) by (rule shift_down [of i m "items_of l", folded m(1)]) (use m in simp_all)
  have "items_of (?l\<lparr>lsize := lsize ?l - 1\<rparr>) = butlast (items_of ?l)" by (rule items_of_butlast)
  also have "\<dots> = take i (items_of l) @ drop (Suc i) (items_of l)"
    by (rule shift_butlast [OF conjunct1 [OF sh] _ m(2) conjunct2 [OF sh]]) (simp add: m(1))
  finally have "items_of (?l\<lparr>lsize := lsize ?l - 1\<rparr>) = take i (items_of l) @ drop (Suc i) (items_of l)" .
  moreover have "gvlist_ok (?l\<lparr>lsize := lsize ?l - 1\<rparr>)"
    using f(1) gvlist_ok_bound [of ?l] by (intro gvlist_ok_lsize) (simp_all add: same_shape_def)
  ultimately show ?thesis using i by (simp add: gv_list_remove_def Let_def)
qed

lemma swap_step:
  assumes "length ys = n" and "Suc m \<le> n div 2" and "i < n"
    and e: "\<forall>i < n. ys ! i = (if i < m \<or> n - m \<le> i then xs ! (n - i - 1) else xs ! i)"
  shows "(ys[m := ys ! (n - m - 1), n - m - 1 := ys ! m]) ! i =
    (if i < Suc m \<or> n - Suc m \<le> i then xs ! (n - i - 1) else xs ! i)"
proof -
  have b: "m < n" "n - m - 1 < n" "m < n - m - 1" "n - (n - m - 1) - 1 = m" using assms(2) by auto
  have y: "ys ! m = xs ! m" "ys ! (n - m - 1) = xs ! (n - m - 1)" using e b by auto
  consider "i = m" | "i = n - m - 1" | "i \<noteq> m" "i \<noteq> n - m - 1" "i < m \<or> n - m \<le> i \<longleftrightarrow> i < Suc m \<or> n - Suc m \<le> i"
    using b by linarith
  then show ?thesis
    using assms(1,3) b y e by cases (simp_all add: nth_list_update)
qed

lemma swap_ends:
  assumes "m \<le> length xs div 2"
  shows "length (fold (\<lambda>i xs. xs[i := xs ! (n - i - 1), n - i - 1 := xs ! i]) [0..<m] xs) = length xs \<and>
    (n = length xs \<longrightarrow> (\<forall>i < n. fold (\<lambda>i xs. xs[i := xs ! (n - i - 1), n - i - 1 := xs ! i]) [0..<m] xs ! i =
       (if i < m \<or> n - m \<le> i then xs ! (n - i - 1) else xs ! i)))"
  using assms
proof (induction m)
  case (Suc m)
  then have "m \<le> length xs div 2" by simp
  note IH = Suc.IH [OF this]
  let ?f = "fold (\<lambda>i xs. xs[i := xs ! (n - i - 1), n - i - 1 := xs ! i]) [0..<m] xs"
  have "fold (\<lambda>i xs. xs[i := xs ! (n - i - 1), n - i - 1 := xs ! i]) [0..<Suc m] xs =
      ?f[m := ?f ! (n - m - 1), n - m - 1 := ?f ! m]" by simp
  moreover have "(?f[m := ?f ! (n - m - 1), n - m - 1 := ?f ! m]) ! i =
      (if i < Suc m \<or> n - Suc m \<le> i then xs ! (n - i - 1) else xs ! i)" if "n = length xs" "i < n" for i
    using IH that Suc.prems by (intro swap_step) simp_all
  ultimately show ?case using IH by simp
qed simp

lemma reverse_correct:
  assumes ok: "gvlist_ok l"
  shows "gvlist_ok (gv_list_reverse l) \<and> items_of (gv_list_reverse l) = rev (items_of l)"
proof -
  let ?n = "lsize l" and ?g = "\<lambda>i xs. xs[i := xs ! (lsize l - i - 1), lsize l - i - 1 := xs ! i]"
  have step: "same_shape r (exchange i (?n - i - 1) r) \<and> items_of (exchange i (?n - i - 1) r) = ?g i (items_of r)"
    if "gvlist_ok r" "lsize r = ?n" "i < ?n div 2" for r :: "'a gvlist" and i
    using that exchange_shape [of r i "?n - i - 1"] by simp
  have f: "same_shape l (gv_list_reverse l)" "items_of (gv_list_reverse l) = fold ?g [0..<?n div 2] (items_of l)"
    unfolding gv_list_reverse_def by (rule fold_items [OF ok _ step refl]; simp)+
  have "fold ?g [0..<?n div 2] (items_of l) = rev (items_of l)"
  proof (rule nth_equalityI)
    have e: "length (fold ?g [0..<?n div 2] (items_of l)) = ?n" "\<forall>i < ?n. fold ?g [0..<?n div 2] (items_of l) ! i =
        (if i < ?n div 2 \<or> ?n - ?n div 2 \<le> i then items_of l ! (?n - i - 1) else items_of l ! i)"
      using swap_ends [of "?n div 2" "items_of l" ?n] by simp_all
    then show "length (fold ?g [0..<?n div 2] (items_of l)) = length (rev (items_of l))" by simp
    fix i assume "i < length (fold ?g [0..<?n div 2] (items_of l))"
    with e(1) have i: "i < ?n" by simp
    have "?n - i - 1 = i" if "\<not> (i < ?n div 2 \<or> ?n - ?n div 2 \<le> i)" using that by arith
    with e(2) i show "fold ?g [0..<?n div 2] (items_of l) ! i = rev (items_of l) ! i"
      by (simp add: rev_nth del: nth_items_of split: if_splits)
  qed
  with f show ?thesis by (simp add: same_shape_def)
qed

section \<open>Synchronising\<close>

text \<open>Rotating the bytes by the size of an item rotates the items by one.\<close>

lemma rotate_bytes_item: "rotate_bytes (length x) (x @ ys) = ys @ x"
  unfolding rotate_bytes_def by (induction x arbitrary: ys) (simp_all add: funpow_swap1 del: funpow.simps(2) add: funpow_Suc_right)

lemma rotate_item_simps [simp]:
  "head (rotate_item l) = head l - 1" "capacity (rotate_item l) = capacity l" "lsize (rotate_item l) = lsize l"
  by (simp_all add: rotate_item_def)

lemma rotate_item_correct:
  assumes ok: "gvlist_ok l" and h: "0 < head l"
  shows "gvlist_ok (rotate_item l)" and "items_of (rotate_item l) = items_of l"
proof -
  have c: "head l < capacity l" "length (base l) = capacity l" "lsize l \<le> capacity l" "capacity l < 2 ^ 63"
    using ok h by (auto simp: gvlist_ok_def)
  show ok': "gvlist_ok (rotate_item l)" using c h by (simp add: gvlist_ok_def rotate_item_def)
  show "items_of (rotate_item l) = items_of l"
  proof (rule nth_equalityI)
    fix i assume "i < length (items_of (rotate_item l))"
    then have i: "i < lsize l" "i < capacity l" using c by (simp_all add: rotate_item_def)
    have b: "rotate1 (base l) ! j = base l ! (if Suc j = capacity l then 0 else Suc j)" if "j < capacity l" for j
      using that c(2) nth_rotate [of j "base l" 1] by (auto simp: mod_if)
    have "slot_of (rotate_item l) i < capacity l" using slot_of_less [OF ok', of i] i c by (simp add: rotate_item_def)
    from b [OF this] show "items_of (rotate_item l) ! i = items_of l ! i"
      using slot_of_cases [OF ok i(2)] slot_of_cases [OF ok', of i] i h c by (auto simp: rotate_item_def Suc_diff_Suc)
  qed (simp add: rotate_item_def)
qed

lemma sync_correct:
  assumes "gvlist_ok l"
  shows "gvlist_ok (gv_list_sync l)" and "items_of (gv_list_sync l) = items_of l"
    and "head (gv_list_sync l) = 0" and "capacity (gv_list_sync l) = capacity l"
    and "lsize (gv_list_sync l) = lsize l"
proof -
  have "gvlist_ok ((rotate_item ^^ n) l) \<and> items_of ((rotate_item ^^ n) l) = items_of l \<and>
    head ((rotate_item ^^ n) l) = head l - n \<and> capacity ((rotate_item ^^ n) l) = capacity l \<and>
    lsize ((rotate_item ^^ n) l) = lsize l" if "n \<le> head l" for n
    using that
  proof (induction n)
    case (Suc n)
    with rotate_item_correct [of "(rotate_item ^^ n) l"] show ?case by simp
  qed (simp add: assms)
  from this [of "head l"] show "gvlist_ok (gv_list_sync l)" and "items_of (gv_list_sync l) = items_of l"
    and "head (gv_list_sync l) = 0" and "capacity (gv_list_sync l) = capacity l"
    and "lsize (gv_list_sync l) = lsize l" by (simp_all add: gv_list_sync_def)
qed

lemma items_of_synced: "gvlist_ok l \<Longrightarrow> head l = 0 \<Longrightarrow> items_of l = take (lsize l) (base l)"
  by (rule nth_equalityI) (auto simp: gvlist_ok_def slot_of_def)

lemma synced_take: "gvlist_ok l \<Longrightarrow> take (lsize l) (base (gv_list_sync l)) = items_of l"
  using items_of_synced [of "gv_list_sync l"] sync_correct [of l] by simp

lemma sort_correct:
  assumes ok: "gvlist_ok l" and q: "length (qsort cmp (items_of l)) = lsize l"
  shows "gvlist_ok (gv_list_sort qsort cmp l)" and "lsize l > 0 \<Longrightarrow> items_of (gv_list_sort qsort cmp l) = qsort cmp (items_of l)"
    and "lsize l = 0 \<Longrightarrow> items_of (gv_list_sort qsort cmp l) = []"
proof -
  let ?l = "gv_list_sync l"
  note s = sync_correct [OF ok] and t = synced_take [OF ok]
  have len: "length (base ?l) = capacity l" "lsize l \<le> capacity l" using s ok by (simp_all add: gvlist_ok_def)
  let ?b = "qsort cmp (items_of l) @ drop (lsize l) (base ?l)"
  have lb: "length ?b = length (base ?l)" using q len by simp
  show g: "gvlist_ok (gv_list_sort qsort cmp l)"
    using s(1,5) lb t q len by (simp add: gv_list_sort_def Let_def)
  show "lsize l > 0 \<Longrightarrow> items_of (gv_list_sort qsort cmp l) = qsort cmp (items_of l)"
    using items_of_synced [OF g] s t q by (simp add: gv_list_sort_def Let_def)
  show "lsize l = 0 \<Longrightarrow> items_of (gv_list_sort qsort cmp l) = []"
    using s by (simp add: gv_list_sort_def Let_def items_of_def)
qed

lemma copy_loop:
  assumes "gvlist_ok l" and "m \<le> lsize l"
  shows "fold (\<lambda>i r. r\<lparr>base := (base r)[lsize r := base l ! slot_of l i], lsize := lsize r + 1\<rparr>) [0..<m]
      \<lparr>base = replicate (capacity l) z, head = 0, lsize = 0, capacity = capacity l\<rparr> =
    \<lparr>base = take m (items_of l) @ replicate (capacity l - m) z, head = 0, lsize = m, capacity = capacity l\<rparr>"
  using assms(2)
proof (induction m)
  case (Suc m)
  then have m: "m < lsize l" "m < capacity l" using gvlist_ok_bound [OF assms(1)] by simp_all
  then have r: "replicate (capacity l - m) z = z # replicate (capacity l - Suc m) z"
    by (simp add: Suc_diff_Suc flip: replicate_Suc)
  have "take (Suc m) (items_of l) = take m (items_of l) @ [base l ! slot_of l m]"
    using m by (simp add: take_Suc_conv_app_nth)
  with Suc m show ?case by (simp add: r list_update_append)
qed simp

lemma copy_correct:
  assumes ok: "gvlist_ok l" and c: "gv_list_copy v l = Some l'"
  shows "gvlist_ok l' \<and> items_of l' = items_of l \<and> head l' = 0"
proof -
  have "l' = \<lparr>base = items_of l @ replicate (capacity l - lsize l) (zero v), head = 0, lsize = lsize l,
      capacity = capacity l\<rparr>"
    using c copy_loop [OF ok order_refl, of "zero v"] by (simp add: gv_list_copy_def split: if_splits)
  moreover from this ok have "gvlist_ok l'" by (auto simp: gvlist_ok_def)
  ultimately show ?thesis using items_of_synced [of l'] by simp
qed

lemma shrink_to_fit_correct:
  assumes ok: "gvlist_ok l" and c: "gv_list_shrink_to_fit v l = Some l'"
  shows "gvlist_ok l' \<and> items_of l' = items_of l \<and> capacity l' = lsize l"
proof -
  note s = sync_correct [OF ok]
  show ?thesis
  proof (cases "capacity l > lsize l")
    case True
    then have l': "l' = (gv_list_sync l)\<lparr>base := take (lsize l) (base (gv_list_sync l)), capacity := lsize l\<rparr>"
      using c s by (simp add: gv_list_shrink_to_fit_def Let_def split: if_splits)
    have "gvlist_ok l'" using s(1,3,4,5) True ok by (auto simp: l' gvlist_ok_def)
    with l' s synced_take [OF ok] items_of_synced [of l'] show ?thesis by simp
  next
    case False
    then have "l' = gv_list_sync l" "capacity l = lsize l"
      using c s ok by (auto simp: gv_list_shrink_to_fit_def Let_def gvlist_ok_def)
    with s show ?thesis by simp
  qed
qed

lemma detach_correct:
  "gvlist_ok l \<Longrightarrow> gv_list_detach l = ((b, n), l') \<Longrightarrow> take n b = items_of l \<and> n = lsize l \<and> l' = empty_list"
  using sync_correct(5) [of l] synced_take [of l] by (auto simp: gv_list_detach_def Let_def)

section \<open>The list as a queue\<close>

text \<open>Pushing all items of a list, and popping until nothing is left.\<close>

fun push_all :: "('d \<Rightarrow> 'a \<Rightarrow> 'd option) \<Rightarrow> 'd \<Rightarrow> 'a list \<Rightarrow> 'd option" where
  "push_all push d [] = Some d"
| "push_all push d (x # xs) = (case push d x of None \<Rightarrow> None | Some d' \<Rightarrow> push_all push d' xs)"

primrec pop_all :: "nat \<Rightarrow> ('d \<Rightarrow> ('a \<times> 'd) option) \<Rightarrow> 'd \<Rightarrow> 'a list" where
  "pop_all 0 pop d = []"
| "pop_all (Suc k) pop d = (case pop d of None \<Rightarrow> [] | Some (x, d') \<Rightarrow> x # pop_all k pop d')"

locale queue_of_items =
  fixes valid :: "'d \<Rightarrow> bool" and content :: "'d \<Rightarrow> 'a list" and bound :: nat
    and push :: "'d \<Rightarrow> 'a \<Rightarrow> 'd option" and pop :: "'d \<Rightarrow> ('a \<times> 'd) option"
  assumes push_law: "valid d \<Longrightarrow> length (content d) < bound \<Longrightarrow>
      \<exists>d'. push d x = Some d' \<and> valid d' \<and> content d' = content d @ [x]"
    and pop_law: "valid d \<Longrightarrow> case pop d of
        None \<Rightarrow> content d = []
      | Some (x, d') \<Rightarrow> content d = x # content d' \<and> valid d'"
begin

lemma push_all_content:
  "valid d \<Longrightarrow> length (content d) + length xs \<le> bound \<Longrightarrow>
    \<exists>d'. push_all push d xs = Some d' \<and> valid d' \<and> content d' = content d @ xs"
proof (induction xs arbitrary: d)
  case (Cons x xs)
  from push_law [OF Cons.prems(1), of x] Cons.prems(2) obtain d' where
    d': "push d x = Some d'" "valid d'" "content d' = content d @ [x]" by auto
  with Cons.IH [of d'] Cons.prems(2) show ?case by auto
qed simp

lemma pop_all_content: "valid d \<Longrightarrow> length (content d) \<le> k \<Longrightarrow> pop_all k pop d = content d"
proof (induction k arbitrary: d)
  case (Suc k)
  with pop_law [OF Suc.prems(1)] show ?case by (cases "pop d") auto
qed simp

lemma fifo:
  assumes "valid d" and "length (content d) + length xs \<le> bound"
  shows "\<exists>d'. push_all push d xs = Some d' \<and> pop_all (length (content d')) pop d' = content d @ xs"
  using push_all_content [OF assms] pop_all_content by force

end

definition served_list :: "'a env \<Rightarrow> 'a gvlist \<Rightarrow> bool" where
  "served_list v l \<longleftrightarrow> gvlist_ok l \<and> serves v (2 ^ 62)"

lemma append_law:
  assumes "served_list v l" and "length (items_of l) < 2 ^ 60"
  shows "\<exists>l'. LIST_APPEND v l x = Some l' \<and> served_list v l' \<and> items_of l' = items_of l @ [x]"
proof -
  have ok: "gvlist_ok l" "lsize l < 2 ^ 62" "serves v (2 * lsize l + 1)"
    using assms serves_mono [of v "2 ^ 62" "2 * lsize l + 1"] by (simp_all add: served_list_def)
  from append_served [OF ok] obtain l' where "LIST_APPEND v l x = Some l'" by blast
  with append_correct [OF ok(1,2) this] assms(1) show ?thesis by (simp add: served_list_def)
qed

interpretation gvlist_queue: queue_of_items "served_list v" items_of "2 ^ 60" "LIST_APPEND v" gv_list_pop_front
  for v :: "'a env"
proof
  fix d :: "'a gvlist" and x :: 'a
  show "served_list v d \<Longrightarrow> length (items_of d) < 2 ^ 60 \<Longrightarrow>
      \<exists>d'. LIST_APPEND v d x = Some d' \<and> served_list v d' \<and> items_of d' = items_of d @ [x]"
    by (rule append_law)
  show "served_list v d \<Longrightarrow> case gv_list_pop_front d of
        None \<Rightarrow> items_of d = []
      | Some (x, d') \<Rightarrow> items_of d = x # items_of d' \<and> served_list v d'"
    using pop_front_correct [of d] by (auto simp: served_list_def split: option.splits)
qed

section \<open>Properties\<close>


text \<open>A full ring whose items wrap: 1, 2, 3 from slot 2 on.\<close>

abbreviation wrapped :: "nat gvlist" where
  "wrapped \<equiv> \<lparr>base = [2, 3, 1], head = 2, lsize = 3, capacity = 3\<rparr>"

abbreviation big_env :: "nat env" where
  "big_env \<equiv> \<lparr>can_alloc = (\<lambda>_. True), item_size = 4, zero = 0\<rparr>"

lemma wrapped_ok: "gvlist_ok wrapped" "lsize wrapped < 2 ^ 62" "items_of wrapped = [1, 2, 3]"
  by (simp_all add: gvlist_ok_def items_of_def slot_of_def upt_rec)


text \<open>
  First in, first out: whatever was in the list and whatever is appended to it comes out of
  \<open>LIST_POP_FRONT\<close> in that order.
\<close>
lemma gvlist_fifo:
  assumes "served_list v l" and "length (items_of l) + length xs \<le> 2 ^ 60"
  shows "\<exists>l'. push_all (LIST_APPEND v) l xs = Some l' \<and>
    pop_all (length (items_of l')) gv_list_pop_front l' = items_of l @ xs"
  by (rule gvlist_queue.fifo [OF assms])

text \<open>
  \<open>LIST_TRY_APPEND\<close> appends or leaves the list as it was: a reservation that overflows or
  that the allocator refuses loses no item.
\<close>
lemma try_append_atomic:
  assumes "gvlist_ok l" and "lsize l < 2 ^ 62" and "gv_list_try_append v l x = (ok, l')"
  shows "gvlist_ok l' \<and> items_of l' = (if ok then items_of l @ [x] else items_of l) \<and> (\<not> ok \<longrightarrow> l' = l)"
  using try_append_correct [OF assms] assms(3) by (auto simp: gv_list_try_append_def split: option.splits)

text \<open>
  Sorting: for any \<open>qsort\<close> that permutes its array into the order of the comparator, the
  list ends up with its items in that order.
\<close>
lemma gv_list_sort_sorts:
  assumes "gvlist_ok l" and "\<forall>xs. mset (qsort cmp xs) = mset xs"
    and "\<forall>xs. sorted_wrt (\<lambda>x y. cmp x y \<le> 0) (qsort cmp xs)"
  shows "gvlist_ok (gv_list_sort qsort cmp l) \<and> mset (items_of (gv_list_sort qsort cmp l)) = mset (items_of l) \<and>
    sorted_wrt (\<lambda>x y. cmp x y \<le> 0) (items_of (gv_list_sort qsort cmp l))"
proof -
  have "length (qsort cmp (items_of l)) = lsize l" using assms(2) by (metis length_items_of size_mset)
  note s = sort_correct [of l qsort cmp, OF assms(1) this]
  then show ?thesis using assms(2,3) by (cases "lsize l = 0") (auto simp: items_of_def)
qed

lemma remove_at_find:
  assumes "i < length xs" and "xs ! i = x" and "\<forall>j < i. xs ! j \<noteq> x"
  shows "take i xs @ drop (Suc i) xs = remove1 x xs"
proof -
  have "x \<notin> set (take i xs)" using assms by (auto simp: in_set_conv_nth)
  then have "remove1 x (take i xs @ x # drop (Suc i) xs) = take i xs @ drop (Suc i) xs"
    by (simp add: remove1_append)
  with id_take_nth_drop [OF assms(1)] assms(2) show ?thesis by simp
qed

text \<open>
  C28. \<open>LIST_REMOVE\<close> removes the first occurrence of the item, but runs the destructor on the
  slot numbered by its index: it destroys the right item exactly when the list starts in slot 0
  (for pairwise different slots).
\<close>
theorem list_remove_destructs_index:
  assumes "gvlist_ok l" and "x \<in> set (items_of l)" and "distinct (base l)"
  shows "\<exists>d l'. LIST_REMOVE l x = Some ([d], l') \<and> gvlist_ok l' \<and> items_of l' = remove1 x (items_of l) \<and>
    (d = x \<longleftrightarrow> head l = 0)"
proof -
  have small: "lsize l < 2 ^ 63" using gvlist_ok_bound [OF assms(1)] by simp
  let ?i = "gv_list_find l x"
  have i: "?i < lsize l" "items_of l ! ?i = x" "?i \<noteq> SIZE_MAX"
    using find_index [OF small assms(2)] find_bound [OF small, of x] assms(2) by simp_all
  have first: "\<forall>j < ?i. items_of l ! j \<noteq> x"
  proof (intro allI impI notI)
    fix j assume j: "j < ?i" "items_of l ! j = x"
    with i(1) have "(LEAST i. i < lsize l \<and> items_of l ! i = x) \<le> j" by (intro Least_le) simp
    with j(1) find_correct [OF small, of x] assms(2) show False by simp
  qed
  obtain l' where l': "gv_list_remove l ?i = Some l'" "gvlist_ok l'"
    "items_of l' = take ?i (items_of l) @ drop (Suc ?i) (items_of l)"
    using remove_correct [OF assms(1) i(1)] by blast
  have c: "?i < capacity l" "length (base l) = capacity l"
    using i(1) gvlist_ok_bound [OF assms(1)] assms(1) by (simp_all add: gvlist_ok_def)
  have x: "base l ! slot_of l ?i = x" using i by simp
  have "base l ! ?i = base l ! slot_of l ?i \<longleftrightarrow> ?i = slot_of l ?i"
    using nth_eq_iff_index_eq [OF assms(3)] slot_of_less [OF assms(1) c(1)] c by simp
  then have "base l ! ?i = x \<longleftrightarrow> ?i = slot_of l ?i" unfolding x .
  moreover have "?i = slot_of l ?i \<longleftrightarrow> head l = 0"
    using slot_of_cases [OF assms(1) c(1)] c assms(1) by (auto simp: gvlist_ok_def split: if_splits)
  moreover have "items_of l' = remove1 x (items_of l)"
    using remove_at_find [of ?i "items_of l" x] i first l'(3) by simp
  ultimately show ?thesis using l' i(3) by (simp add: LIST_REMOVE_def)
qed

theorem list_remove_destructs_index_witness:
  "\<exists>d l'. LIST_REMOVE wrapped 1 = Some ([d], l') \<and> items_of l' = [2, 3] \<and> d \<noteq> 1"
  using list_remove_destructs_index [OF wrapped_ok(1), of 1] wrapped_ok(3) by auto

end
