(* ===== verification/Agxbuf.thy ===== *)
theory Agxbuf
  imports Prelude
begin

text \<open>
  The extensible string buffer of \<open>lib/util/agxbuf.h\<close>, with its inline storage for short
  contents. The union of the C structure is kept as its two views, of which the code only ever
  uses the one \<open>located\<close> selects; \<open>located\<close> is also the byte after the inline store, which
  \<open>agxbuse\<close> relies on. Memory of the heap buffer is the list of its \<open>capacity\<close> bytes. Failing
  allocations leave the process and are not modelled.
\<close>

section \<open>The state\<close>

definition STORE :: nat where "STORE = 31"

definition AGXBUF_ON_HEAP :: nat where "AGXBUF_ON_HEAP = 255"

definition BUFSIZ :: nat where "BUFSIZ = 8192"

record agxbuf =
  buf :: string
  bsize :: nat
  bcap :: nat
  store :: string
  located :: nat

definition NUL :: char where "NUL = CHR 0x00"

text \<open>A zero-initialised buffer.\<close>

definition agxbuf_zero :: agxbuf where
  "agxbuf_zero = \<lparr>buf = [], bsize = 0, bcap = 0, store = replicate STORE NUL, located = 0\<rparr>"

definition agxbuf_is_inline :: "agxbuf \<Rightarrow> bool" where
  "agxbuf_is_inline xb \<longleftrightarrow> located xb < AGXBUF_ON_HEAP"

text \<open>The bytes from \<open>agxbstart\<close> on; behind the inline store lies the byte \<open>located\<close>.\<close>

definition agxbstart :: "agxbuf \<Rightarrow> string" where
  "agxbstart xb = (if agxbuf_is_inline xb then store xb @ [char_of (located xb)] else buf xb)"

definition agxblen :: "agxbuf \<Rightarrow> nat" where
  "agxblen xb = (if agxbuf_is_inline xb then located xb else bsize xb)"

definition agxbsizeof :: "agxbuf \<Rightarrow> nat" where
  "agxbsizeof xb = (if agxbuf_is_inline xb then STORE else bcap xb)"

text \<open>\<open>memcpy\<close> into a buffer.\<close>

definition put_at :: "string \<Rightarrow> nat \<Rightarrow> string \<Rightarrow> string" where
  "put_at dst i src = take i dst @ src @ drop (i + length src) dst"

section \<open>Operations\<close>

text \<open>\<open>agxbpop\<close>: \<open>None\<close> for -1.\<close>

definition agxbpop :: "agxbuf \<Rightarrow> char option \<times> agxbuf" where
  "agxbpop xb =
    (let len = agxblen xb in
     if len = 0 then (None, xb)
     else if agxbuf_is_inline xb then (Some (store xb ! (len - 1)), xb\<lparr>located := located xb - 1\<rparr>)
     else (Some (buf xb ! (bsize xb - 1)), xb\<lparr>bsize := bsize xb - 1\<rparr>))"

definition agxbmore :: "agxbuf \<Rightarrow> nat \<Rightarrow> agxbuf" where
  "agxbmore xb ssz =
    (let size = agxbsizeof xb;
         nsize0 = (if size = 0 then BUFSIZ else 2 * size);
         nsize = (if size + ssz > nsize0 then size + ssz else nsize0);
         cnt = agxblen xb
     in if located xb = AGXBUF_ON_HEAP then
          xb\<lparr>buf := take nsize (buf xb @ replicate (nsize - size) NUL), bcap := nsize, located := AGXBUF_ON_HEAP\<rparr>
        else
          xb\<lparr>buf := put_at (replicate nsize NUL) 0 (take cnt (store xb)), bsize := cnt, bcap := nsize,
             located := AGXBUF_ON_HEAP\<rparr>)"

definition agxbput_n :: "agxbuf \<Rightarrow> string \<Rightarrow> agxbuf" where
  "agxbput_n xb s =
    (if length s = 0 then xb
     else
       (let xb1 = (if length s > agxbsizeof xb - agxblen xb then agxbmore xb (length s) else xb);
            len = agxblen xb1
        in if agxbuf_is_inline xb1 then
             xb1\<lparr>store := put_at (store xb1) len s, located := located xb1 + length s\<rparr>
           else xb1\<lparr>buf := put_at (buf xb1) len s, bsize := bsize xb1 + length s\<rparr>))"

text \<open>\<open>agxbput\<close>: the argument is the string up to its terminator.\<close>

definition agxbput :: "agxbuf \<Rightarrow> string \<Rightarrow> agxbuf" where
  "agxbput xb s = agxbput_n xb s"

definition agxbputc :: "agxbuf \<Rightarrow> char \<Rightarrow> agxbuf" where
  "agxbputc xb c =
    (let xb1 = (if agxblen xb \<ge> agxbsizeof xb then agxbmore xb 1 else xb);
         len = agxblen xb1
     in if agxbuf_is_inline xb1 then xb1\<lparr>store := (store xb1)[len := c], located := located xb1 + 1\<rparr>
        else xb1\<lparr>buf := (buf xb1)[len := c], bsize := bsize xb1 + 1\<rparr>)"

text \<open>
  \<open>vagxbprint\<close>: \<open>out\<close> is what \<open>vsnprintf\<close> formats, which writes a terminator behind it. The
  terminator would not fit when the text fills the inline store exactly; then the text goes
  through \<open>stage\<close>.
\<close>

definition vagxbprint :: "agxbuf \<Rightarrow> string \<Rightarrow> nat \<times> agxbuf" where
  "vagxbprint xb out =
    (let size = length out + 1;
         unused_space = agxbsizeof xb - agxblen xb;
         extra = size - unused_space;
         use_stage = (unused_space < size \<and> agxbuf_is_inline xb \<and> extra = 1);
         xb1 = (if unused_space < size \<and> \<not> (agxbuf_is_inline xb \<and> extra = 1) then agxbmore xb extra else xb);
         len = agxblen xb1;
         xb2 = (if use_stage then xb1
                else if agxbuf_is_inline xb1 then xb1\<lparr>store := put_at (store xb1) len (out @ [NUL])\<rparr>
                else xb1\<lparr>buf := put_at (buf xb1) len (out @ [NUL])\<rparr>)
     in if length out > 0 then
          (if agxbuf_is_inline xb2 then
             (let xb3 = (if use_stage then xb2\<lparr>store := put_at (store xb2) len out\<rparr> else xb2)
              in (length out, xb3\<lparr>located := located xb3 + length out\<rparr>))
           else (length out, xb2\<lparr>bsize := bsize xb2 + length out\<rparr>))
        else (length out, xb2))"

definition agxbclear :: "agxbuf \<Rightarrow> agxbuf" where
  "agxbclear xb = (if agxbuf_is_inline xb then xb\<lparr>located := 0\<rparr> else xb\<lparr>bsize := 0\<rparr>)"

text \<open>What a \<open>char *\<close> to these bytes reads as.\<close>

definition cstring :: "string \<Rightarrow> string" where
  "cstring s = takeWhile (\<lambda>c. c \<noteq> NUL) s"

text \<open>\<open>agxbuse\<close>: the bytes the returned pointer points to, and the reset buffer.\<close>

definition agxbuse :: "agxbuf \<Rightarrow> string \<times> agxbuf" where
  "agxbuse xb =
    (let xb1 = (if \<not> agxbuf_is_inline xb \<or> agxblen xb \<noteq> STORE then agxbputc xb NUL else xb);
         xb2 = agxbclear xb1
     in (agxbstart xb2, xb2))"

text \<open>\<open>agxbdisown\<close>; \<open>gv_strndup\<close> copies up to the first terminator.\<close>

definition agxbdisown :: "agxbuf \<Rightarrow> string \<times> agxbuf" where
  "agxbdisown xb =
    (if agxbuf_is_inline xb then (cstring (take (agxblen xb) (store xb)) @ [NUL], agxbuf_zero)
     else (buf (agxbputc xb NUL), agxbuf_zero))"

text \<open>
  \<open>agxbuf_trim_zeros\<close>: the index loops run downwards; the first one ends without a period when
  the index wraps.
\<close>

primrec find_period :: "string \<Rightarrow> nat \<Rightarrow> nat option" where
  "find_period s 0 = None"
| "find_period s (Suc i) = (if s ! i = CHR ''.'' then Some i else find_period s i)"

definition shrink :: "agxbuf \<Rightarrow> agxbuf" where
  "shrink xb = (if agxbuf_is_inline xb then xb\<lparr>located := located xb - 1\<rparr> else xb\<lparr>bsize := bsize xb - 1\<rparr>)"

text \<open>The truncating loop, which counts down from the last byte; \<open>False\<close> is its early return.\<close>

primrec trim_loop :: "string \<Rightarrow> nat \<Rightarrow> nat \<Rightarrow> agxbuf \<Rightarrow> bool \<times> agxbuf" where
  "trim_loop s period 0 xb = (True, xb)"
| "trim_loop s period (Suc follower) xb =
    (if follower = period \<or> s ! follower = CHR ''0'' then
       (if follower = period then (True, shrink xb) else trim_loop s period follower (shrink xb))
     else (False, xb))"

definition store_at :: "nat \<Rightarrow> char \<Rightarrow> agxbuf \<Rightarrow> agxbuf" where
  "store_at i c xb =
    (if agxbuf_is_inline xb then xb\<lparr>store := (store xb)[i := c]\<rparr> else xb\<lparr>buf := (buf xb)[i := c]\<rparr>)"

definition agxbuf_trim_zeros :: "agxbuf \<Rightarrow> agxbuf" where
  "agxbuf_trim_zeros xb =
    (let start = agxbstart xb in
     case find_period start (agxblen xb) of
       None \<Rightarrow> xb
     | Some period \<Rightarrow>
         (case trim_loop start period (agxblen xb) xb of
            (False, xb1) \<Rightarrow> xb1
          | (True, xb1) \<Rightarrow>
              (let len = agxblen xb1 in
               if len < 2 \<or> start ! (len - 2) \<noteq> CHR ''-'' \<or> start ! (len - 1) \<noteq> CHR ''0'' then xb1
               else shrink (store_at (len - 2) (CHR ''0'') xb1))))"

section \<open>The buffer as a string\<close>

definition content :: "agxbuf \<Rightarrow> string" where
  "content xb = take (agxblen xb) (agxbstart xb)"

definition agxbuf_ok :: "agxbuf \<Rightarrow> bool" where
  "agxbuf_ok xb \<longleftrightarrow> length (store xb) = STORE \<and>
     (located xb \<le> STORE \<or> located xb = AGXBUF_ON_HEAP \<and> length (buf xb) = bcap xb \<and> bsize xb \<le> bcap xb)"

lemmas agxb_consts = STORE_def AGXBUF_ON_HEAP_def BUFSIZ_def

lemma agxbuf_zero_ok: "agxbuf_ok agxbuf_zero" "content agxbuf_zero = []"
  by (simp_all add: agxbuf_ok_def agxbuf_zero_def content_def agxblen_def agxbuf_is_inline_def agxb_consts)

text \<open>The two views.\<close>

lemma agxbuf_cases:
  assumes "agxbuf_ok xb"
  obtains (inlined) "agxbuf_is_inline xb" "located xb \<le> STORE" "length (store xb) = STORE"
      "agxblen xb = located xb" "agxbsizeof xb = STORE" "content xb = take (located xb) (store xb)"
  | (heap) "\<not> agxbuf_is_inline xb" "located xb = AGXBUF_ON_HEAP" "length (buf xb) = bcap xb" "bsize xb \<le> bcap xb"
      "length (store xb) = STORE" "agxblen xb = bsize xb" "agxbsizeof xb = bcap xb" "content xb = take (bsize xb) (buf xb)"
proof (cases "located xb \<le> STORE")
  case True
  then have "agxbuf_is_inline xb" by (simp add: agxbuf_is_inline_def agxb_consts)
  with True assms inlined show ?thesis by (simp add: agxbuf_ok_def agxblen_def agxbsizeof_def content_def agxbstart_def)
next
  case False
  with assms have h: "located xb = AGXBUF_ON_HEAP" by (simp add: agxbuf_ok_def)
  then have "\<not> agxbuf_is_inline xb" by (simp add: agxbuf_is_inline_def)
  with h False assms heap show ?thesis by (simp add: agxbuf_ok_def agxblen_def agxbsizeof_def content_def agxbstart_def)
qed

lemma length_content: "agxbuf_ok xb \<Longrightarrow> length (content xb) = agxblen xb"
  by (erule agxbuf_cases) simp_all

lemma inline_simps [simp]:
  "agxbuf_is_inline (xb\<lparr>store := s\<rparr>) = agxbuf_is_inline xb"
  "agxbuf_is_inline (xb\<lparr>buf := s\<rparr>) = agxbuf_is_inline xb"
  "agxbuf_is_inline (xb\<lparr>bsize := n\<rparr>) = agxbuf_is_inline xb"
  "agxbuf_is_inline (xb\<lparr>located := n\<rparr>) = (n < AGXBUF_ON_HEAP)"
  by (simp_all add: agxbuf_is_inline_def)

lemma take_put_at: "i \<le> length s \<Longrightarrow> take (i + length t) (put_at s i t) = take i s @ t"
  by (simp add: put_at_def)

lemma length_put_at: "i + length t \<le> length s \<Longrightarrow> length (put_at s i t) = length s"
  by (simp add: put_at_def)

lemma agxbmore_correct:
  assumes ok: "agxbuf_ok xb"
  shows "agxbuf_ok (agxbmore xb n) \<and> content (agxbmore xb n) = content xb \<and>
    \<not> agxbuf_is_inline (agxbmore xb n) \<and> agxbsizeof (agxbmore xb n) \<ge> agxbsizeof xb + n"
  using ok
proof (cases rule: agxbuf_cases)
  case inlined
  then show ?thesis
    by (auto simp: agxbmore_def Let_def agxbuf_ok_def content_def agxblen_def agxbstart_def agxbuf_is_inline_def
        agxbsizeof_def put_at_def agxb_consts)
next
  case heap
  then show ?thesis
    by (auto simp: agxbmore_def Let_def agxbuf_ok_def content_def agxblen_def agxbstart_def agxbuf_is_inline_def
        agxbsizeof_def)
qed

lemma put_inline:
  assumes "agxbuf_ok xb" and "agxbuf_is_inline xb" and "agxblen xb + length s \<le> agxbsizeof xb"
    and "take (agxblen xb + length s) t = content xb @ s" and "length t = STORE"
  shows "agxbuf_ok (xb\<lparr>store := t, located := located xb + length s\<rparr>)"
    and "content (xb\<lparr>store := t, located := located xb + length s\<rparr>) = content xb @ s"
proof -
  from assms(1) have "agxbuf_ok (xb\<lparr>store := t, located := located xb + length s\<rparr>) \<and>
    content (xb\<lparr>store := t, located := located xb + length s\<rparr>) = content xb @ s"
  proof (cases rule: agxbuf_cases)
    case inlined
    then have "located xb + length s < AGXBUF_ON_HEAP" "located xb + length s \<le> STORE"
      using assms(3) by (simp_all add: agxb_consts)
    with inlined assms(4,5) show ?thesis
      by (simp add: agxbuf_ok_def agxbstart_def agxblen_def content_def)
  qed (use assms(2) in simp)
  then show "agxbuf_ok (xb\<lparr>store := t, located := located xb + length s\<rparr>)"
    and "content (xb\<lparr>store := t, located := located xb + length s\<rparr>) = content xb @ s" by simp_all
qed

lemma put_heap:
  assumes "agxbuf_ok xb" and "\<not> agxbuf_is_inline xb" and "agxblen xb + length s \<le> agxbsizeof xb"
    and "take (agxblen xb + length s) t = content xb @ s" and "length t = bcap xb"
  shows "agxbuf_ok (xb\<lparr>buf := t, bsize := bsize xb + length s\<rparr>)"
    and "content (xb\<lparr>buf := t, bsize := bsize xb + length s\<rparr>) = content xb @ s"
proof -
  from assms(1) have "agxbuf_ok (xb\<lparr>buf := t, bsize := bsize xb + length s\<rparr>) \<and>
    content (xb\<lparr>buf := t, bsize := bsize xb + length s\<rparr>) = content xb @ s"
  proof (cases rule: agxbuf_cases)
    case heap
    with assms(3-5) show ?thesis
      by (simp add: agxbuf_ok_def agxbstart_def agxblen_def content_def)
  qed (use assms(2) in simp)
  then show "agxbuf_ok (xb\<lparr>buf := t, bsize := bsize xb + length s\<rparr>)"
    and "content (xb\<lparr>buf := t, bsize := bsize xb + length s\<rparr>) = content xb @ s" by simp_all
qed

text \<open>Writing at the end of a buffer that has the room.\<close>

lemma written:
  assumes ok: "agxbuf_ok xb" and room: "agxblen xb + length s \<le> agxbsizeof xb"
  shows "agxbuf_is_inline xb \<Longrightarrow> take (agxblen xb + length s) (put_at (store xb) (agxblen xb) s) = content xb @ s \<and>
      length (put_at (store xb) (agxblen xb) s) = STORE"
    and "\<not> agxbuf_is_inline xb \<Longrightarrow> take (agxblen xb + length s) (put_at (buf xb) (agxblen xb) s) = content xb @ s \<and>
      length (put_at (buf xb) (agxblen xb) s) = bcap xb"
proof -
  show "agxbuf_is_inline xb \<Longrightarrow> take (agxblen xb + length s) (put_at (store xb) (agxblen xb) s) = content xb @ s \<and>
      length (put_at (store xb) (agxblen xb) s) = STORE"
    using ok room by (cases rule: agxbuf_cases) (simp_all add: take_put_at length_put_at)
  show "\<not> agxbuf_is_inline xb \<Longrightarrow> take (agxblen xb + length s) (put_at (buf xb) (agxblen xb) s) = content xb @ s \<and>
      length (put_at (buf xb) (agxblen xb) s) = bcap xb"
    using ok room by (cases rule: agxbuf_cases) (simp_all add: take_put_at length_put_at)
qed

lemma room_after_more:
  assumes "agxbuf_ok xb" and "n > agxbsizeof xb - agxblen xb \<Longrightarrow> xb1 = agxbmore xb n"
    and "\<not> n > agxbsizeof xb - agxblen xb \<Longrightarrow> xb1 = xb"
  shows "agxbuf_ok xb1 \<and> content xb1 = content xb \<and> agxblen xb1 = agxblen xb \<and> agxblen xb1 + n \<le> agxbsizeof xb1"
proof (cases "n > agxbsizeof xb - agxblen xb")
  case True
  note m = agxbmore_correct [OF assms(1), of n]
  have "agxblen (agxbmore xb n) = agxblen xb"
    using m length_content [of "agxbmore xb n"] length_content [OF assms(1)] by simp
  moreover have "agxblen xb \<le> agxbsizeof xb" using assms(1) by (cases rule: agxbuf_cases) simp_all
  ultimately show ?thesis using m assms(2) [OF True] by simp
next
  case False
  have "agxblen xb \<le> agxbsizeof xb" using assms(1) by (cases rule: agxbuf_cases) simp_all
  with False assms show ?thesis by auto
qed

lemma agxbput_n_correct:
  assumes ok: "agxbuf_ok xb"
  shows "agxbuf_ok (agxbput_n xb s) \<and> content (agxbput_n xb s) = content xb @ s"
proof (cases "length s = 0")
  case True
  with ok show ?thesis by (simp add: agxbput_n_def)
next
  case False
  let ?xb = "if length s > agxbsizeof xb - agxblen xb then agxbmore xb (length s) else xb"
  have r: "agxbuf_ok ?xb \<and> content ?xb = content xb \<and> agxblen ?xb = agxblen xb \<and>
      agxblen ?xb + length s \<le> agxbsizeof ?xb"
    by (rule room_after_more [OF ok]) simp_all
  then obtain xb1 where xb1: "xb1 = ?xb" "agxbuf_ok xb1" "content xb1 = content xb"
    "agxblen xb1 + length s \<le> agxbsizeof xb1" by blast
  have e: "agxbput_n xb s = (if agxbuf_is_inline xb1 then
             xb1\<lparr>store := put_at (store xb1) (agxblen xb1) s, located := located xb1 + length s\<rparr>
           else xb1\<lparr>buf := put_at (buf xb1) (agxblen xb1) s, bsize := bsize xb1 + length s\<rparr>)"
    using False by (simp add: agxbput_n_def Let_def xb1(1))
  from written [OF xb1(2,4)] put_inline [OF xb1(2) _ xb1(4)] put_heap [OF xb1(2) _ xb1(4)] xb1(3)
  show ?thesis unfolding e by (cases "agxbuf_is_inline xb1") simp_all
qed

lemma put_at_single: "i < length s \<Longrightarrow> put_at s i [c] = s[i := c]"
  by (simp add: put_at_def upd_conv_take_nth_drop)

lemma agxbputc_correct:
  assumes ok: "agxbuf_ok xb"
  shows "agxbuf_ok (agxbputc xb c) \<and> content (agxbputc xb c) = content xb @ [c]"
proof -
  let ?xb = "if agxblen xb \<ge> agxbsizeof xb then agxbmore xb 1 else xb"
  have r: "agxbuf_ok ?xb \<and> content ?xb = content xb \<and> agxblen ?xb = agxblen xb \<and>
      agxblen ?xb + 1 \<le> agxbsizeof ?xb"
    by (rule room_after_more [OF ok]) auto
  then obtain xb1 where xb1: "xb1 = ?xb" "agxbuf_ok xb1" "content xb1 = content xb"
    "agxblen xb1 + length [c] \<le> agxbsizeof xb1" by simp
  have "agxbuf_is_inline xb1 \<Longrightarrow> agxblen xb1 < length (store xb1)"
    "\<not> agxbuf_is_inline xb1 \<Longrightarrow> agxblen xb1 < length (buf xb1)"
    using xb1(2,4) by (cases rule: agxbuf_cases; simp)+
  then have e: "agxbputc xb c = (if agxbuf_is_inline xb1 then
             xb1\<lparr>store := put_at (store xb1) (agxblen xb1) [c], located := located xb1 + length [c]\<rparr>
           else xb1\<lparr>buf := put_at (buf xb1) (agxblen xb1) [c], bsize := bsize xb1 + length [c]\<rparr>)"
    by (simp add: agxbputc_def Let_def put_at_single xb1(1))
  from written [OF xb1(2,4)] put_inline [OF xb1(2) _ xb1(4)] put_heap [OF xb1(2) _ xb1(4)] xb1(3)
  show ?thesis unfolding e by (cases "agxbuf_is_inline xb1") simp_all
qed

lemma agxbuf_room: "agxbuf_ok xb \<Longrightarrow> agxblen xb \<le> agxbsizeof xb"
  by (erule agxbuf_cases) simp_all

lemma put_at_nul:
  assumes ok: "agxbuf_ok xb" and room: "agxblen xb + length s < agxbsizeof xb"
  shows "agxbuf_is_inline xb \<Longrightarrow>
      take (agxblen xb + length s) (put_at (store xb) (agxblen xb) (s @ [NUL])) = content xb @ s \<and>
      length (put_at (store xb) (agxblen xb) (s @ [NUL])) = STORE"
    and "\<not> agxbuf_is_inline xb \<Longrightarrow>
      take (agxblen xb + length s) (put_at (buf xb) (agxblen xb) (s @ [NUL])) = content xb @ s \<and>
      length (put_at (buf xb) (agxblen xb) (s @ [NUL])) = bcap xb"
  using written [OF ok, of "s @ [NUL]"] room length_content [OF ok]
  by (auto simp: Suc_le_eq dest: arg_cong [of _ _ "take (agxblen xb + length s)"])

lemma vagxbprint_correct:
  assumes ok: "agxbuf_ok xb"
  shows "fst (vagxbprint xb out) = length out \<and> agxbuf_ok (snd (vagxbprint xb out)) \<and>
    content (snd (vagxbprint xb out)) = content xb @ out"
proof (cases "agxbsizeof xb - agxblen xb < length out + 1 \<and> agxbuf_is_inline xb \<and>
    length out + 1 - (agxbsizeof xb - agxblen xb) = 1")
  case True
  then have r: "agxblen xb + length out \<le> agxbsizeof xb" "agxbuf_is_inline xb"
    using agxbuf_room [OF ok] by linarith+
  have e: "vagxbprint xb out = (length out, if length out > 0 then
      xb\<lparr>store := put_at (store xb) (agxblen xb) out, located := located xb + length out\<rparr> else xb)"
    using True by (cases out) (auto simp: vagxbprint_def Let_def)
  from written(1) [OF ok r] put_inline [OF ok r(2,1)] ok show ?thesis unfolding e by simp
next
  case False
  let ?n = "length out + 1 - (agxbsizeof xb - agxblen xb)"
  let ?xb = "if agxbsizeof xb - agxblen xb < length out + 1 then agxbmore xb ?n else xb"
  have r: "agxbuf_ok ?xb \<and> content ?xb = content xb \<and> agxblen ?xb + length out < agxbsizeof ?xb"
  proof (cases "agxbsizeof xb - agxblen xb < length out + 1")
    case True
    note m = agxbmore_correct [OF ok, of ?n]
    have "agxblen (agxbmore xb ?n) = agxblen xb"
      using m length_content [of "agxbmore xb ?n"] length_content [OF ok] by simp
    then show ?thesis using m True agxbuf_room [OF ok] by simp
  qed (use ok agxbuf_room [OF ok] in auto)
  then obtain xb1 where xb1: "xb1 = ?xb" "agxbuf_ok xb1" "content xb1 = content xb"
    "agxblen xb1 + length out < agxbsizeof xb1" by blast
  then have xb1': "(if agxbsizeof xb - agxblen xb < length out + 1 \<and>
      \<not> (agxbuf_is_inline xb \<and> length out + 1 - (agxbsizeof xb - agxblen xb) = 1)
      then agxbmore xb ?n else xb) = xb1" using False by auto
  let ?in = "xb1\<lparr>store := put_at (store xb1) (agxblen xb1) (out @ [NUL])\<rparr>"
  let ?hp = "xb1\<lparr>buf := put_at (buf xb1) (agxblen xb1) (out @ [NUL])\<rparr>"
  have e: "vagxbprint xb out = (length out, if length out > 0 then
      (if agxbuf_is_inline xb1 then ?in\<lparr>located := located xb1 + length out\<rparr>
       else ?hp\<lparr>bsize := bsize xb1 + length out\<rparr>)
      else (if agxbuf_is_inline xb1 then ?in else ?hp))"
    using False unfolding vagxbprint_def Let_def xb1' by auto
  have le: "agxblen xb1 + length out \<le> agxbsizeof xb1" using xb1(4) by simp
  note p = put_at_nul [OF xb1(2,4)] put_inline [OF xb1(2) _ le] put_heap [OF xb1(2) _ le]
  have z: "length out = 0 \<Longrightarrow> ?in\<lparr>located := located xb1 + length out\<rparr> = ?in"
    "length out = 0 \<Longrightarrow> ?hp\<lparr>bsize := bsize xb1 + length out\<rparr> = ?hp" by simp_all
  have e': "vagxbprint xb out = (length out, if agxbuf_is_inline xb1 then
      ?in\<lparr>located := located xb1 + length out\<rparr> else ?hp\<lparr>bsize := bsize xb1 + length out\<rparr>)"
    unfolding e by auto
  show ?thesis
  proof (cases "agxbuf_is_inline xb1")
    case True
    with p(1,3,4) xb1(3) show ?thesis unfolding e' by simp
  next
    case False
    with p(2,5,6) xb1(3) show ?thesis unfolding e' by simp
  qed
qed

lemma agxbpop_correct:
  assumes ok: "agxbuf_ok xb"
  shows "case agxbpop xb of
      (None, xb') \<Rightarrow> content xb = [] \<and> xb' = xb
    | (Some c, xb') \<Rightarrow> content xb = content xb' @ [c] \<and> agxbuf_ok xb'"
  using ok
proof (cases rule: agxbuf_cases)
  case inlined
  then show ?thesis
    by (cases "located xb")
      (auto simp: agxbpop_def Let_def agxbuf_ok_def content_def agxblen_def agxbstart_def
        take_Suc_conv_app_nth agxb_consts)
next
  case heap
  then show ?thesis
    by (cases "bsize xb")
      (auto simp: agxbpop_def Let_def agxbuf_ok_def content_def agxblen_def agxbstart_def take_Suc_conv_app_nth)
qed

lemma agxbclear_correct: "agxbuf_ok xb \<Longrightarrow> agxbuf_ok (agxbclear xb) \<and> content (agxbclear xb) = []"
  by (erule agxbuf_cases)
    (auto simp: agxbclear_def agxbuf_ok_def content_def agxblen_def agxb_consts)

lemma cstring_prefix: "NUL \<notin> set t \<Longrightarrow> cstring (t @ NUL # r) = t"
  by (induction t) (auto simp: cstring_def)

lemma content_prefix: "agxbuf_ok xb \<Longrightarrow> \<exists>r. agxbstart xb = content xb @ r"
  unfolding content_def by (metis append_take_drop_id)

lemma char_of_zero [simp]: "char_of (0 :: nat) = NUL"
  by (simp add: NUL_def char_of_def)

text \<open>Clearing only resets the length: the bytes stay where they are.\<close>

lemma agxbstart_clear:
  assumes "agxbuf_ok xb" and "content xb = t @ [NUL]"
  shows "\<exists>r. agxbstart (agxbclear xb) = t @ NUL # r"
  using assms(1)
proof (cases rule: agxbuf_cases)
  case inlined
  then have "take (located xb) (store xb) = t @ [NUL]" using assms(2) by simp
  then have "store xb = (t @ [NUL]) @ drop (located xb) (store xb)" by (metis append_take_drop_id)
  then obtain r where "store xb = t @ NUL # r" by simp
  with inlined show ?thesis by (simp add: agxbclear_def agxbstart_def agxb_consts)
next
  case heap
  then have "take (bsize xb) (buf xb) = t @ [NUL]" using assms(2) by simp
  then have "buf xb = (t @ [NUL]) @ drop (bsize xb) (buf xb)" by (metis append_take_drop_id)
  then obtain r where "buf xb = t @ NUL # r" by simp
  with heap show ?thesis by (simp add: agxbclear_def agxbstart_def)
qed

lemma agxbuse_correct:
  assumes ok: "agxbuf_ok xb" and nul: "NUL \<notin> set (content xb)"
  shows "cstring (fst (agxbuse xb)) = content xb \<and> agxbuf_ok (snd (agxbuse xb)) \<and> content (snd (agxbuse xb)) = []"
proof (cases "\<not> agxbuf_is_inline xb \<or> agxblen xb \<noteq> STORE")
  case True
  let ?xb = "agxbputc xb NUL"
  note p = agxbputc_correct [OF ok, of NUL]
  from agxbstart_clear [of ?xb "content xb"] p obtain r where
    "agxbstart (agxbclear ?xb) = content xb @ NUL # r" by blast
  with True p agxbclear_correct [of ?xb] cstring_prefix [OF nul] show ?thesis
    by (simp add: agxbuse_def Let_def)
next
  case False
  from ok False have "agxbuf_is_inline xb" "content xb = store xb"
    by (cases rule: agxbuf_cases; simp)+
  moreover from this have "agxbstart (agxbclear xb) = content xb @ [NUL]"
    by (simp add: agxbclear_def agxbstart_def agxb_consts)
  ultimately show ?thesis using False agxbclear_correct [OF ok] cstring_prefix [OF nul, of "[]"]
    by (simp add: agxbuse_def Let_def)
qed

lemma agxbdisown_correct:
  assumes ok: "agxbuf_ok xb" and nul: "NUL \<notin> set (content xb)"
  shows "cstring (fst (agxbdisown xb)) = content xb \<and> snd (agxbdisown xb) = agxbuf_zero"
  using ok
proof (cases rule: agxbuf_cases)
  case inlined
  have "cstring (content xb) = content xb" using nul by (auto simp: cstring_def takeWhile_eq_all_conv)
  with inlined nul cstring_prefix [OF nul, of "[]"] show ?thesis by (simp add: agxbdisown_def)
next
  case heap
  let ?xb = "agxbputc xb NUL"
  note p = agxbputc_correct [OF ok, of NUL]
  have h: "\<not> agxbuf_is_inline ?xb"
    using heap(1,2) by (auto simp: agxbputc_def Let_def agxbmore_def agxbuf_is_inline_def)
  obtain r where "agxbstart ?xb = content ?xb @ r" using content_prefix p by blast
  with h p have "buf ?xb = content xb @ NUL # r" by (simp add: agxbstart_def)
  with heap(1) cstring_prefix [OF nul] show ?thesis by (simp add: agxbdisown_def)
qed

section \<open>Trimming zeros\<close>

text \<open>
  The intended effect on the text: a fraction loses its trailing zeros, an empty fraction its
  period, and then a final minus zero its sign.
\<close>

definition drop_minus_zero :: "string \<Rightarrow> string" where
  "drop_minus_zero i =
    (if 2 \<le> length i \<and> i ! (length i - 2) = CHR ''-'' \<and> i ! (length i - 1) = CHR ''0''
     then take (length i - 2) i @ ''0'' else i)"

definition trimmed :: "string \<Rightarrow> string \<Rightarrow> string" where
  "trimmed i f =
    (let f' = rev (dropWhile (\<lambda>c. c = CHR ''0'') (rev f))
     in if f' = [] then drop_minus_zero i else i @ CHR ''.'' # f')"

lemma find_period_None: "find_period s n = None \<longleftrightarrow> (\<forall>j < n. s ! j \<noteq> CHR ''.'')"
  by (induction n) (auto simp: less_Suc_eq)

lemma find_period_Some:
  "find_period s n = Some p \<longleftrightarrow> p < n \<and> s ! p = CHR ''.'' \<and> (\<forall>j. p < j \<and> j < n \<longrightarrow> s ! j \<noteq> CHR ''.'')"
  by (induction n) (auto simp: less_Suc_eq)

lemma shrink_correct:
  assumes "agxbuf_ok xb" and "0 < agxblen xb"
  shows "agxbuf_ok (shrink xb)" and "content (shrink xb) = take (agxblen xb - 1) (content xb)"
proof -
  from assms(1) have "agxbuf_ok (shrink xb) \<and> content (shrink xb) = take (agxblen xb - 1) (content xb)"
  proof (cases rule: agxbuf_cases)
    case inlined
    with assms(2) show ?thesis
      by (auto simp: shrink_def agxbuf_ok_def content_def agxblen_def agxbstart_def agxb_consts min_def)
  next
    case heap
    with assms(2) show ?thesis
      by (auto simp: shrink_def agxbuf_ok_def content_def agxblen_def agxbstart_def min_def)
  qed
  then show "agxbuf_ok (shrink xb)" and "content (shrink xb) = take (agxblen xb - 1) (content xb)" by simp_all
qed

lemma trim_loop_correct:
  assumes "agxbuf_ok xb" and "content xb = take n s" and "p < n" and "n \<le> length s"
  shows "\<exists>b xb' m. trim_loop s p n xb = (b, xb') \<and> agxbuf_ok xb' \<and> content xb' = take m s \<and>
    (if b then m = p \<and> (\<forall>j. p < j \<and> j < n \<longrightarrow> s ! j = CHR ''0'')
     else Suc p < m \<and> m \<le> n \<and> s ! (m - 1) \<noteq> CHR ''0'' \<and> (\<forall>j. m \<le> j \<and> j < n \<longrightarrow> s ! j = CHR ''0''))"
  using assms
proof (induction n arbitrary: xb)
  case (Suc n)
  have len: "agxblen xb = Suc n" using length_content [OF Suc.prems(1)] Suc.prems(2,4) by simp
  note sh = shrink_correct [OF Suc.prems(1), unfolded len]
  have c: "content (shrink xb) = take n s" using sh(2) Suc.prems(2) by (simp add: min_def)
  show ?case
  proof (cases "n = p")
    case True
    with sh(1) c show ?thesis
      by (intro exI [of _ True] exI [of _ "shrink xb"] exI [of _ p]) auto
  next
    case np: False
    then have pn: "p < n" "n \<le> length s" using Suc.prems(3,4) by simp_all
    show ?thesis
    proof (cases "s ! n = CHR ''0''")
      case True
      from Suc.IH [OF sh(1) c pn] obtain b xb' m where
        IH: "trim_loop s p n (shrink xb) = (b, xb')" "agxbuf_ok xb'" "content xb' = take m s"
        "if b then m = p \<and> (\<forall>j. p < j \<and> j < n \<longrightarrow> s ! j = CHR ''0'')
         else Suc p < m \<and> m \<le> n \<and> s ! (m - 1) \<noteq> CHR ''0'' \<and> (\<forall>j. m \<le> j \<and> j < n \<longrightarrow> s ! j = CHR ''0'')"
        by auto
      have "trim_loop s p (Suc n) xb = (b, xb')" using True np IH(1) by simp
      moreover have "if b then m = p \<and> (\<forall>j. p < j \<and> j < Suc n \<longrightarrow> s ! j = CHR ''0'')
         else Suc p < m \<and> m \<le> Suc n \<and> s ! (m - 1) \<noteq> CHR ''0'' \<and> (\<forall>j. m \<le> j \<and> j < Suc n \<longrightarrow> s ! j = CHR ''0'')"
        using IH(4) True by (auto simp: less_Suc_eq)
      ultimately show ?thesis using IH(2,3) by blast
    next
      case False
      then have "trim_loop s p (Suc n) xb = (False, xb)" using np by simp
      with Suc.prems pn False show ?thesis
        by (intro exI [of _ False] exI [of _ xb] exI [of _ "Suc n"]) auto
    qed
  qed
qed simp

lemma store_at_correct:
  assumes "agxbuf_ok xb" and "i < agxblen xb"
  shows "agxbuf_ok (store_at i c xb)" and "content (store_at i c xb) = (content xb)[i := c]"
    and "agxblen (store_at i c xb) = agxblen xb"
proof -
  from assms(1) have "agxbuf_ok (store_at i c xb) \<and> content (store_at i c xb) = (content xb)[i := c] \<and>
    agxblen (store_at i c xb) = agxblen xb"
    by (cases rule: agxbuf_cases)
      (auto simp: store_at_def agxbuf_ok_def content_def agxblen_def agxbstart_def take_update_swap)
  then show "agxbuf_ok (store_at i c xb)" and "content (store_at i c xb) = (content xb)[i := c]"
    and "agxblen (store_at i c xb) = agxblen xb" by simp_all
qed

lemma dropWhile_zeros:
  assumes "\<forall>j. m \<le> j \<and> j < length f \<longrightarrow> f ! j = CHR ''0''" and "m \<le> length f"
    and "m = 0 \<or> f ! (m - 1) \<noteq> CHR ''0''"
  shows "rev (dropWhile (\<lambda>c. c = CHR ''0'') (rev f)) = take m f"
proof -
  have z: "\<forall>c\<in>set (rev (drop m f)). c = CHR ''0''"
    using assms(1) by (auto simp: in_set_conv_nth)
  have "rev f = rev (drop m f) @ rev (take m f)" by (metis append_take_drop_id rev_append)
  then have "dropWhile (\<lambda>c. c = CHR ''0'') (rev f) = dropWhile (\<lambda>c. c = CHR ''0'') (rev (take m f))"
    using dropWhile_append2 [of "rev (drop m f)" "\<lambda>c. c = CHR ''0''"] z by metis
  also have "\<dots> = rev (take m f)"
  proof (cases m)
    case (Suc k)
    then have "rev (take m f) = f ! k # rev (take k f)" using assms(2) by (simp add: take_Suc_conv_app_nth)
    with Suc assms(3) show ?thesis by simp
  qed simp
  finally show ?thesis by simp
qed

lemma trim_zeros_period:
  assumes ok: "agxbuf_ok xb" and c: "content xb = i @ CHR ''.'' # f" and f: "CHR ''.'' \<notin> set f"
  shows "agxbuf_ok (agxbuf_trim_zeros xb) \<and> content (agxbuf_trim_zeros xb) = trimmed i f"
proof -
  let ?s = "agxbstart xb" and ?n = "agxblen xb" and ?p = "length i"
  have len: "?n = length i + 1 + length f" using length_content [OF ok] c by simp
  have nth: "?s ! j = (i @ CHR ''.'' # f) ! j" if "j < ?n" for j
    unfolding c [symmetric] using that by (simp add: content_def)
  have n: "?n \<le> length ?s" using length_content [OF ok] by (simp add: content_def)
  have "take ?p (content xb) = i" by (simp add: c)
  then have pre: "take ?p ?s = i" using len by (simp add: content_def min_def)
  have fp: "find_period ?s ?n = Some ?p"
    unfolding find_period_Some
  proof (intro conjI allI impI)
    show "?p < ?n" "?s ! ?p = CHR ''.''" using nth [of ?p] len by simp_all
    fix j assume j: "?p < j \<and> j < ?n"
    then have "?s ! j = f ! (j - Suc ?p)" using nth [of j] by (simp add: nth_append)
    moreover have "j - Suc ?p < length f" using j len by linarith
    ultimately show "?s ! j \<noteq> CHR ''.''" using f by (metis nth_mem)
  qed
  from trim_loop_correct [OF ok _ _ n, of ?p] len obtain b xb' m where
    t: "trim_loop ?s ?p ?n xb = (b, xb')" "agxbuf_ok xb'" "content xb' = take m ?s"
    "if b then m = ?p \<and> (\<forall>j. ?p < j \<and> j < ?n \<longrightarrow> ?s ! j = CHR ''0'')
     else Suc ?p < m \<and> m \<le> ?n \<and> ?s ! (m - 1) \<noteq> CHR ''0'' \<and> (\<forall>j. m \<le> j \<and> j < ?n \<longrightarrow> ?s ! j = CHR ''0'')"
    by (auto simp: content_def)
  have fj: "f ! j = ?s ! (Suc ?p + j)" if "j < length f" for j
    using nth [of "Suc ?p + j"] that len by (simp add: nth_append)
  show ?thesis
  proof (cases b)
    case False
    with t(4) have m: "Suc ?p < m" "m \<le> ?n" "?s ! (m - 1) \<noteq> CHR ''0''"
      "\<forall>j. m \<le> j \<and> j < ?n \<longrightarrow> ?s ! j = CHR ''0''" by simp_all
    have lst: "f ! (m - Suc ?p - 1) \<noteq> CHR ''0''"
    proof -
      have "Suc ?p + (m - Suc ?p - 1) = m - 1" "m - Suc ?p - 1 < length f" using m(1,2) len by linarith+
      with fj [of "m - Suc ?p - 1"] m(3) show ?thesis by (simp only: not_False_eq_True)
    qed
    have "rev (dropWhile (\<lambda>c. c = CHR ''0'') (rev f)) = take (m - Suc ?p) f"
    proof (rule dropWhile_zeros)
      show "\<forall>j. m - Suc ?p \<le> j \<and> j < length f \<longrightarrow> f ! j = CHR ''0''"
      proof (intro allI impI)
        fix j assume j: "m - Suc ?p \<le> j \<and> j < length f"
        then have "m \<le> Suc ?p + j" "Suc ?p + j < ?n" using len by linarith+
        with m(4) fj [of j] j show "f ! j = CHR ''0''" by simp
      qed
      show "m - Suc ?p \<le> length f" using m(2) len by simp
    qed (use lst in simp)
    moreover have "take m ?s = i @ CHR ''.'' # take (m - Suc ?p) f"
    proof -
      have "take m ?s = take m (content xb)" using m(2) by (simp add: content_def min_def)
      moreover obtain k where "m = Suc ?p + k" using m(1) by (metis less_imp_add_positive)
      ultimately show ?thesis by (simp add: c)
    qed
    moreover have "take (m - Suc ?p) f \<noteq> []" using m(1,2) len by (cases f) auto
    ultimately show ?thesis
      using t False fp by (simp add: agxbuf_trim_zeros_def Let_def trimmed_def)
  next
    case True
    with t(4) have m: "m = ?p" "\<forall>j. ?p < j \<and> j < ?n \<longrightarrow> ?s ! j = CHR ''0''" by simp_all
    have z: "rev (dropWhile (\<lambda>c. c = CHR ''0'') (rev f)) = take 0 f"
      by (rule dropWhile_zeros) (use m len fj in auto)
    have c': "content xb' = i" using t(3) m(1) pre by simp
    have l': "agxblen xb' = ?p" using length_content [OF t(2)] c' by simp
    have at: "?s ! j = i ! j" if "j < ?p" for j using nth [of j] that len by (simp add: nth_append)
    show ?thesis
    proof (cases "2 \<le> ?p \<and> i ! (?p - 2) = CHR ''-'' \<and> i ! (?p - 1) = CHR ''0''")
      case neg: True
      let ?x = "store_at (?p - 2) (CHR ''0'') xb'"
      have "?p - 2 < agxblen xb'" using neg l' by linarith
      note st = store_at_correct [OF t(2) this, of "CHR ''0''"]
      have ok2: "agxbuf_ok ?x" "agxblen ?x = ?p" "content ?x = i[?p - 2 := CHR ''0'']"
        using st l' c' by simp_all
      have "agxbuf_trim_zeros xb = shrink ?x"
      proof -
        have "?p - 2 < ?p" "?p - 1 < ?p" using neg by linarith+
        then have "?s ! (?p - 2) = CHR ''-''" "?s ! (?p - 1) = CHR ''0''" using at neg by simp_all
        with t(1) True fp l' neg show ?thesis by (simp add: agxbuf_trim_zeros_def Let_def)
      qed
      moreover have "take (?p - 1) (i[?p - 2 := CHR ''0'']) = take (?p - 2) i @ ''0''"
      proof -
        from neg obtain k where "?p = Suc (Suc k)" by (metis add_2_eq_Suc le_Suc_ex)
        then show ?thesis by (simp add: take_Suc_conv_app_nth take_update_cancel)
      qed
      moreover have "i \<noteq> []" using neg by auto
      ultimately show ?thesis
        using shrink_correct [OF ok2(1)] ok2 neg z by (simp add: trimmed_def drop_minus_zero_def)
    next
      case False
      have "?p < 2 \<or> ?s ! (?p - 2) \<noteq> CHR ''-'' \<or> ?s ! (?p - 1) \<noteq> CHR ''0''"
      proof (cases "?p < 2")
        case big: False
        then have "?p - 2 < ?p" "?p - 1 < ?p" by linarith+
        with at False big show ?thesis by simp
      qed simp
      then have "agxbuf_trim_zeros xb = xb'"
        using t(1) True fp l' by (simp add: agxbuf_trim_zeros_def Let_def)
      with False c' t(2) z show ?thesis by (auto simp: trimmed_def drop_minus_zero_def)
    qed
  qed
qed

lemma trim_zeros_none:
  assumes ok: "agxbuf_ok xb" and c: "CHR ''.'' \<notin> set (content xb)"
  shows "agxbuf_trim_zeros xb = xb"
proof -
  have "agxbstart xb ! j \<noteq> CHR ''.''" if "j < agxblen xb" for j
  proof -
    have "agxbstart xb ! j = content xb ! j" using that by (simp add: content_def)
    moreover have "content xb ! j \<in> set (content xb)" using that length_content [OF ok] by simp
    ultimately show ?thesis using c by metis
  qed
  then have "find_period (agxbstart xb) (agxblen xb) = None" by (simp add: find_period_None)
  then show ?thesis by (simp add: agxbuf_trim_zeros_def Let_def)
qed

section \<open>Properties\<close>

text \<open>
  C29. The buffer behaves as the string of its contents: appending text, a character or formatted
  text appends exactly that, whether it stays inline, fills the inline store to the last byte,
  moves to the heap or grows there; popping takes the last character off.
\<close>
theorem agxbuf_refines_string:
  assumes "agxbuf_ok xb"
  shows "agxbuf_ok (agxbput_n xb s) \<and> content (agxbput_n xb s) = content xb @ s \<and>
    agxbuf_ok (agxbputc xb c) \<and> content (agxbputc xb c) = content xb @ [c] \<and>
    agxbuf_ok (snd (vagxbprint xb s)) \<and> content (snd (vagxbprint xb s)) = content xb @ s \<and>
    fst (vagxbprint xb s) = length s \<and>
    (case agxbpop xb of
      (None, xb') \<Rightarrow> content xb = [] \<and> xb' = xb
    | (Some d, xb') \<Rightarrow> content xb = content xb' @ [d] \<and> agxbuf_ok xb') \<and>
    agxbuf_ok (agxbclear xb) \<and> content (agxbclear xb) = []"
  using agxbput_n_correct [OF assms] agxbputc_correct [OF assms] vagxbprint_correct [OF assms]
    agxbpop_correct [OF assms] agxbclear_correct [OF assms] by simp

theorem agxbuf_refines_string_witness:
  "content (snd (vagxbprint (agxbput_n agxbuf_zero (replicate 30 CHR ''a'')) ''b'')) = replicate 30 CHR ''a'' @ ''b''"
  using agxbuf_refines_string [of "agxbput_n agxbuf_zero (replicate 30 CHR ''a'')" "''b''"]
    agxbput_n_correct [OF agxbuf_zero_ok(1), of "replicate 30 CHR ''a''"] agxbuf_zero_ok(2) by simp

text \<open>
  The pointer \<open>agxbuse\<close> returns reads as the text in the buffer, terminated, also when the
  text fills the inline store and no terminator is written; \<open>agxbdisown\<close> hands out the same
  text. Both leave an empty buffer.
\<close>
lemma agxbuse_terminated:
  assumes "agxbuf_ok xb" and "NUL \<notin> set (content xb)"
  shows "cstring (fst (agxbuse xb)) = content xb \<and> agxbuf_ok (snd (agxbuse xb)) \<and> content (snd (agxbuse xb)) = [] \<and>
    NUL \<in> set (fst (agxbuse xb)) \<and>
    cstring (fst (agxbdisown xb)) = content xb \<and> agxbuf_ok (snd (agxbdisown xb)) \<and> content (snd (agxbdisown xb)) = []"
proof -
  have "NUL \<in> set (fst (agxbuse xb))"
  proof (cases "\<not> agxbuf_is_inline xb \<or> agxblen xb \<noteq> STORE")
    case True
    from agxbstart_clear [of "agxbputc xb NUL" "content xb"] agxbputc_correct [OF assms(1), of NUL]
    obtain r where "agxbstart (agxbclear (agxbputc xb NUL)) = content xb @ NUL # r" by blast
    with True show ?thesis by (simp add: agxbuse_def Let_def)
  next
    case False
    then show ?thesis by (simp add: agxbuse_def Let_def agxbstart_def agxbclear_def agxb_consts)
  qed
  with agxbuse_correct [OF assms] agxbdisown_correct [OF assms] agxbuf_zero_ok show ?thesis by simp
qed

text \<open>
  \<open>agxbuf_trim_zeros\<close> removes the zeros that end a fraction, the period of an empty one and
  the sign of a minus zero left over, and leaves text without a period alone.
\<close>
lemma agxbuf_trim_zeros_trims:
  assumes "agxbuf_ok xb" and "content xb = i @ CHR ''.'' # f" and "CHR ''.'' \<notin> set f"
  shows "agxbuf_ok (agxbuf_trim_zeros xb) \<and> content (agxbuf_trim_zeros xb) = trimmed i f"
  by (rule trim_zeros_period [OF assms])

end
