(* ===== verification/Ctype.thy ===== *)
theory Ctype
  imports Prelude
begin

text \<open>
  The locale-independent character classes of \<open>lib/util/gv_ctype.h\<close> and the string predicates
  of \<open>startswith.h\<close> and \<open>streq.h\<close>. A \<open>char\<close> is signed: passed as an \<open>int\<close>, bytes from 128 on
  are negative.
\<close>

definition schar :: "char \<Rightarrow> int" where
  "schar c = (if of_char c < (128 :: int) then of_char c else of_char c - 256)"

text \<open>The conversion of an \<open>int\<close> to \<open>char\<close>.\<close>

definition to_char :: "int \<Rightarrow> char" where
  "to_char i = char_of i"

definition gv_islower :: "int \<Rightarrow> bool" where
  "gv_islower c \<longleftrightarrow> c \<ge> schar CHR ''a'' \<and> c \<le> schar CHR ''z''"

definition gv_isupper :: "int \<Rightarrow> bool" where
  "gv_isupper c \<longleftrightarrow> c \<ge> schar CHR ''A'' \<and> c \<le> schar CHR ''Z''"

definition gv_isalpha :: "int \<Rightarrow> bool" where
  "gv_isalpha c \<longleftrightarrow> gv_islower c \<or> gv_isupper c"

definition gv_isblank :: "int \<Rightarrow> bool" where
  "gv_isblank c \<longleftrightarrow> c = schar CHR '' '' \<or> c = schar CHR 0x09"

definition gv_iscntrl :: "int \<Rightarrow> bool" where
  "gv_iscntrl c = (if c \<ge> 0 \<and> c \<le> 31 then True else if c = 127 then True else False)"

definition gv_isdigit :: "int \<Rightarrow> bool" where
  "gv_isdigit c \<longleftrightarrow> c \<ge> schar CHR ''0'' \<and> c \<le> schar CHR ''9''"

definition gv_isalnum :: "int \<Rightarrow> bool" where
  "gv_isalnum c \<longleftrightarrow> gv_isalpha c \<or> gv_isdigit c"

definition gv_isgraph :: "int \<Rightarrow> bool" where
  "gv_isgraph c \<longleftrightarrow> c > 32 \<and> c < 127"

definition gv_isprint :: "int \<Rightarrow> bool" where
  "gv_isprint c \<longleftrightarrow> c > 31 \<and> c < 127"

definition gv_ispunct :: "int \<Rightarrow> bool" where
  "gv_ispunct c = (if gv_isalnum c then False else c > 32 \<and> c < 127)"

definition gv_isspace :: "int \<Rightarrow> bool" where
  "gv_isspace c =
    (if c = schar CHR 0x09 then True else if c = schar CHR 0x0A then True
     else if c = schar CHR 0x0B then True else if c = schar CHR 0x0C then True
     else if c = schar CHR 0x0D then True else if c = schar CHR '' '' then True else False)"

definition gv_isxdigit :: "int \<Rightarrow> bool" where
  "gv_isxdigit c =
    (if gv_isdigit c then True
     else if c \<ge> schar CHR ''A'' \<and> c \<le> schar CHR ''F'' then True
     else if c \<ge> schar CHR ''a'' \<and> c \<le> schar CHR ''f'' then True else False)"

definition gv_tolower :: "int \<Rightarrow> char" where
  "gv_tolower c =
    (if gv_isupper c then to_char (schar (to_char c) - schar CHR ''A'' + schar CHR ''a'') else to_char c)"

definition gv_toupper :: "int \<Rightarrow> char" where
  "gv_toupper c =
    (if gv_islower c then to_char (schar (to_char c) - schar CHR ''a'' + schar CHR ''A'') else to_char c)"

text \<open>The loops over a string, whose end is its terminator.\<close>

fun gv_tolower_str :: "string \<Rightarrow> string" where
  "gv_tolower_str [] = []"
| "gv_tolower_str (c # s) = gv_tolower (schar c) # gv_tolower_str s"

fun gv_toupper_str :: "string \<Rightarrow> string" where
  "gv_toupper_str [] = []"
| "gv_toupper_str (c # s) = gv_toupper (schar c) # gv_toupper_str s"

text \<open>\<open>strncmp(s, prefix, strlen(prefix)) == 0\<close>\<close>

definition startswith :: "string \<Rightarrow> string \<Rightarrow> bool" where
  "startswith s pre \<longleftrightarrow> take (length pre) s = pre"

definition streq :: "string \<Rightarrow> string \<Rightarrow> bool" where
  "streq a b \<longleftrightarrow> a = b"

lemmas ctype_defs = gv_islower_def gv_isupper_def gv_isalpha_def gv_isblank_def gv_iscntrl_def gv_isdigit_def
  gv_isalnum_def gv_isgraph_def gv_isprint_def gv_ispunct_def gv_isspace_def gv_isxdigit_def

lemma of_char_int: "(of_char c :: int) = int (of_char c)"
  by (simp add: of_nat_of_char)

lemma of_char_bound: "(of_char c :: int) < 256" "0 \<le> (of_char c :: int)"
  using nat_of_char_less_256 [of c] by (simp_all add: of_char_int)

lemma schar_bounds: "- 128 \<le> schar c" "schar c < 128"
  using of_char_bound [of c] by (auto simp: schar_def)

lemma schar_mod: "schar c mod 256 = of_char c"
  using of_char_bound [of c] by (auto simp: schar_def)

lemma of_char_to_char: "(of_char (to_char i) :: int) = i mod 256"
  by (simp add: to_char_def)

lemma to_char_schar [simp]: "to_char (schar c) = c"
proof -
  have "(of_char (to_char (schar c)) :: int) = of_char c" by (simp only: of_char_to_char schar_mod)
  then show ?thesis by (simp only: of_char_eq_iff)
qed

lemma schar_eq [simp]: "schar c = schar d \<longleftrightarrow> c = d"
  by (metis to_char_schar)

lemma schar_to_char:
  assumes "- 128 \<le> i" and "i < 128"
  shows "schar (to_char i) = i"
proof (cases "0 \<le> i")
  case True
  with assms show ?thesis by (simp add: schar_def of_char_to_char)
next
  case False
  have "i mod 256 = (i + 256) mod 256" by simp
  also have "\<dots> = i + 256" using False assms(1) by (intro mod_pos_pos_trivial) simp_all
  finally have "i mod 256 = i + 256" .
  with False assms show ?thesis by (simp add: schar_def of_char_to_char)
qed

lemma gv_tolower_upper: "gv_isupper c \<Longrightarrow> schar (gv_tolower c) = c + 32"
proof -
  assume "gv_isupper c"
  then have "- 128 \<le> c" "c < 128" "- 128 \<le> c + 32" "c + 32 < 128" by (simp_all add: gv_isupper_def schar_def)
  with \<open>gv_isupper c\<close> show ?thesis by (simp add: gv_tolower_def schar_to_char schar_def [of "CHR ''A''"] schar_def [of "CHR ''a''"])
qed

lemma gv_toupper_lower: "gv_islower c \<Longrightarrow> schar (gv_toupper c) = c - 32"
proof -
  assume "gv_islower c"
  then have "- 128 \<le> c" "c < 128" "- 128 \<le> c - 32" "c - 32 < 128" by (simp_all add: gv_islower_def schar_def)
  with \<open>gv_islower c\<close> show ?thesis by (simp add: gv_toupper_def schar_to_char schar_def [of "CHR ''A''"] schar_def [of "CHR ''a''"])
qed

lemma lower_of_upper: "gv_isupper c \<Longrightarrow> gv_islower (c + 32)" "gv_islower c \<Longrightarrow> gv_isupper (c - 32)"
  by (simp_all add: gv_isupper_def gv_islower_def schar_def)

lemma not_both: "\<not> (gv_isupper c \<and> gv_islower c)"
  by (simp add: gv_isupper_def gv_islower_def schar_def)

section \<open>Properties\<close>

text \<open>
  The character classes fit together on ASCII: every character is a control character or
  printable and not both, the printable ones but the space are graphic, and a graphic character
  is alphanumeric or punctuation and not both. No byte above 127 is in any class.
\<close>
lemma ctype_classes:
  "(0 \<le> c \<and> c < 128 \<longrightarrow> (gv_iscntrl c \<longleftrightarrow> \<not> gv_isprint c)) \<and>
    (gv_isprint c \<longleftrightarrow> gv_isgraph c \<or> c = 32) \<and>
    (gv_isgraph c \<longleftrightarrow> gv_isalnum c \<or> gv_ispunct c) \<and> \<not> (gv_isalnum c \<and> gv_ispunct c) \<and>
    (gv_isblank c \<longrightarrow> gv_isspace c) \<and> (gv_isdigit c \<longrightarrow> gv_isxdigit c) \<and>
    (c < 0 \<or> 128 \<le> c \<longrightarrow> \<not> gv_iscntrl c \<and> \<not> gv_isprint c \<and> \<not> gv_isspace c \<and> \<not> gv_isxdigit c)"
  by (simp add: ctype_defs schar_def) arith

text \<open>
  C25. Changing the case and back restores letters of the other case, leaves every other byte
  alone, and doing it twice is doing it once.
\<close>
theorem case_conversion:
  "(gv_isupper (schar c) \<longrightarrow> gv_toupper (schar (gv_tolower (schar c))) = c) \<and>
    (gv_islower (schar c) \<longrightarrow> gv_tolower (schar (gv_toupper (schar c))) = c) \<and>
    (\<not> gv_isupper (schar c) \<longrightarrow> gv_tolower (schar c) = c) \<and>
    (\<not> gv_islower (schar c) \<longrightarrow> gv_toupper (schar c) = c) \<and>
    gv_tolower_str (gv_tolower_str s) = gv_tolower_str s"
proof -
  have up: "gv_toupper (schar (gv_tolower (schar c))) = c" if "gv_isupper (schar c)"
  proof -
    have "schar (gv_toupper (schar (gv_tolower (schar c)))) = schar c"
      using that by (simp add: gv_tolower_upper gv_toupper_lower lower_of_upper)
    then show ?thesis by (simp only: schar_eq)
  qed
  have low: "gv_tolower (schar (gv_toupper (schar c))) = c" if "gv_islower (schar c)"
  proof -
    have "schar (gv_tolower (schar (gv_toupper (schar c)))) = schar c"
      using that by (simp add: gv_tolower_upper gv_toupper_lower lower_of_upper)
    then show ?thesis by (simp only: schar_eq)
  qed
  have "gv_tolower (schar (gv_tolower (schar d))) = gv_tolower (schar d)" for d
  proof (cases "gv_isupper (schar d)")
    case True
    then have "\<not> gv_isupper (schar (gv_tolower (schar d)))"
      using not_both lower_of_upper(1) by (simp add: gv_tolower_upper) blast
    then show ?thesis by (simp add: gv_tolower_def [of "schar (gv_tolower (schar d))"])
  qed (simp add: gv_tolower_def)
  then have "gv_tolower_str (gv_tolower_str s) = gv_tolower_str s" by (induction s) simp_all
  with up low show ?thesis by (simp add: gv_tolower_def gv_toupper_def)
qed

theorem case_conversion_witness: "gv_toupper (schar (gv_tolower (schar CHR ''Q''))) = CHR ''Q''"
  using case_conversion [of "CHR ''Q''"] by (simp add: gv_isupper_def schar_def)

end
