(* ===== verification/Xml.thy ===== *)
theory Xml
  imports Ctype
begin

text \<open>
  XML escaping, \<open>lib/util/xml.c\<close>. A C string is the list of its characters; a pointer into it is
  the rest of the list, whose terminator \<open>peek\<close> reads at its end. The callback is a function
  that takes and returns its state.
\<close>

section \<open>The code\<close>

definition peek :: "string \<Rightarrow> char" where
  "peek s = (case s of [] \<Rightarrow> CHR 0x00 | c # _ \<Rightarrow> c)"

text \<open>\<open>xml_isentity\<close>, called with a string that starts with an ampersand.\<close>

definition xml_isentity :: "string \<Rightarrow> bool" where
  "xml_isentity str =
    (let s = tl str in
     if peek s = CHR '';'' then False
     else
       (let t =
          (if peek s = CHR ''#'' then
             (let u = tl s in
              if peek u = CHR ''x'' \<or> peek u = CHR ''X'' then dropWhile (\<lambda>c. gv_isxdigit (schar c)) (tl u)
              else dropWhile (\<lambda>c. gv_isdigit (schar c)) u)
           else dropWhile (\<lambda>c. gv_isalpha (schar c)) s)
        in peek t = CHR '';''))"

record xml_flags =
  raw :: bool
  dash :: bool
  nbsp :: bool
  utf8 :: bool

text \<open>The byte length of the UTF-8 character that starts with \<open>uc\<close>, 0 when it is malformed.\<close>

definition utf8_length :: "u8 \<Rightarrow> nat" where
  "utf8_length uc =
    (if drop_bit 5 uc = 6 then 2 else if drop_bit 4 uc = 14 then 3 else if drop_bit 3 uc = 30 then 4 else 0)"

definition byte :: "char \<Rightarrow> u32" where
  "byte c = of_char c"

unbundle bit_operations_syntax

text \<open>The decoding switch.\<close>

definition utf8_decode :: "nat \<Rightarrow> string \<Rightarrow> u32" where
  "utf8_decode len s =
    (if len = 2 then (byte (s ! 1) AND 63) OR push_bit 6 (byte (s ! 0) AND 31)
     else if len = 3 then
       (byte (s ! 2) AND 63) OR push_bit 6 (byte (s ! 1) AND 63) OR push_bit 12 (byte (s ! 0) AND 15)
     else
       (byte (s ! 3) AND 63) OR push_bit 6 (byte (s ! 2) AND 63) OR push_bit 12 (byte (s ! 1) AND 63)
         OR push_bit 18 (byte (s ! 0) AND 7))"

text \<open>\<open>%x\<close>\<close>

definition hex_digit :: "nat \<Rightarrow> char" where
  "hex_digit d = ''0123456789abcdef'' ! d"

fun hex :: "nat \<Rightarrow> string" where
  "hex n = (if n < 16 then [hex_digit n] else hex (n div 16) @ [hex_digit (n mod 16)])"

declare hex.simps [simp del]

text \<open>
  \<open>xml_core\<close>: the text to emit and the rest of the string; \<open>None\<close> is the exit on malformed
  UTF-8. The string is not empty.
\<close>

definition xml_core :: "char \<Rightarrow> string \<Rightarrow> xml_flags \<Rightarrow> (string \<times> string) option" where
  "xml_core previous s flags =
    (let c = hd s; rest = tl s; uc = (of_char c :: u8) in
     if c = CHR ''&'' \<and> (raw flags \<or> \<not> xml_isentity s) then Some (''&amp;'', rest)
     else if c = CHR ''<'' then Some (''&lt;'', rest)
     else if c = CHR ''>'' then Some (''&gt;'', rest)
     else if c = CHR ''-'' \<and> dash flags then Some (''&#45;'', rest)
     else if c = CHR '' '' \<and> previous = CHR '' '' \<and> nbsp flags then Some (''&#160;'', rest)
     else if c = CHR 0x22 then Some (''&quot;'', rest)
     else if c = CHR 0x27 then Some (''&#39;'', rest)
     else if c = CHR 0x0A \<and> raw flags then Some (''&#10;'', rest)
     else if c = CHR 0x0D \<and> raw flags then Some (''&#13;'', rest)
     else if uc > 0x7f \<and> utf8 flags then
       (let len = utf8_length uc in
        if len = 0 \<or> length s < len then None
        else Some (''&#x'' @ hex (unat (utf8_decode len s)) @ '';'', drop len s))
     else Some ([c], rest))"

lemma xml_core_shorter: "xml_core p (c # s) flags = Some (out, r) \<Longrightarrow> length r < Suc (length s)"
  by (auto simp: xml_core_def Let_def utf8_length_def split: if_splits)

text \<open>\<open>gv_xml_escape\<close> with the last result and the state of the callback.\<close>

function xml_loop :: "xml_flags \<Rightarrow> ('s \<Rightarrow> string \<Rightarrow> int \<times> 's) \<Rightarrow> char \<Rightarrow> int \<Rightarrow> string \<Rightarrow> 's \<Rightarrow> (int \<times> 's) option" where
  "xml_loop flags cb previous rc [] st = Some (rc, st)"
| "xml_loop flags cb previous rc (c # s) st =
    (case xml_core previous (c # s) flags of
       None \<Rightarrow> None
     | Some (out, rest) \<Rightarrow>
         (case cb st out of
            (rc', st') \<Rightarrow> if rc' < 0 then Some (rc', st') else xml_loop flags cb c rc' rest st'))"
  by pat_completeness auto
termination
  by (relation "measure (\<lambda>(flags, cb, p, rc, s, st). length s)") (auto dest: xml_core_shorter)

definition gv_xml_escape :: "string \<Rightarrow> xml_flags \<Rightarrow> ('s \<Rightarrow> string \<Rightarrow> int \<times> 's) \<Rightarrow> 's \<Rightarrow> (int \<times> 's) option" where
  "gv_xml_escape s flags cb st = xml_loop flags cb (CHR 0x00) 0 s st"

section \<open>The emitted text\<close>

text \<open>The pieces the callback gets as long as it does not fail, and the text they make.\<close>

function pieces :: "xml_flags \<Rightarrow> char \<Rightarrow> string \<Rightarrow> string list option" where
  "pieces flags previous [] = Some []"
| "pieces flags previous (c # s) =
    (case xml_core previous (c # s) flags of
       None \<Rightarrow> None
     | Some (out, rest) \<Rightarrow> map_option ((#) out) (pieces flags c rest))"
  by pat_completeness auto
termination
  by (relation "measure (\<lambda>(flags, p, s). length s)") (auto dest: xml_core_shorter)

definition escaped :: "xml_flags \<Rightarrow> string \<Rightarrow> string option" where
  "escaped flags s = map_option concat (pieces flags (CHR 0x00) s)"

text \<open>Handing pieces to a callback until it returns a negative value.\<close>

fun feed :: "('s \<Rightarrow> string \<Rightarrow> int \<times> 's) \<Rightarrow> int \<Rightarrow> string list \<Rightarrow> 's \<Rightarrow> int \<times> 's" where
  "feed cb rc [] st = (rc, st)"
| "feed cb rc (t # ts) st =
    (case cb st t of (rc', st') \<Rightarrow> if rc' < 0 then (rc', st') else feed cb rc' ts st')"

lemma xml_loop_feed:
  "pieces flags p s = Some ts \<Longrightarrow> xml_loop flags cb p rc s st = Some (feed cb rc ts st)"
  by (induction flags cb p rc s st arbitrary: ts rule: xml_loop.induct)
    (auto split: option.splits prod.splits)

text \<open>The special characters.\<close>

definition special :: "char set" where
  "special = {CHR ''<'', CHR ''>'', CHR 0x22, CHR 0x27}"

definition entity_char :: "char \<Rightarrow> bool" where
  "entity_char c \<longleftrightarrow> gv_isalnum (schar c) \<or> c = CHR ''#''"

text \<open>The body of an entity, between the ampersand and the semicolon.\<close>

definition entity_body :: "string \<Rightarrow> bool" where
  "entity_body e \<longleftrightarrow> (e \<noteq> [] \<and> (\<forall>c\<in>set e. gv_isalpha (schar c))) \<or>
     (\<exists>d. e = CHR ''#'' # d \<and> (\<forall>c\<in>set d. gv_isdigit (schar c))) \<or>
     (\<exists>x d. e = CHR ''#'' # x # d \<and> (x = CHR ''x'' \<or> x = CHR ''X'') \<and> (\<forall>c\<in>set d. gv_isxdigit (schar c)))"

lemma peek_eq: "c \<noteq> CHR 0x00 \<Longrightarrow> peek s = c \<longleftrightarrow> (\<exists>r. s = c # r)"
  by (cases s) (auto simp: peek_def)

lemma dropWhile_split: "dropWhile P s = c # r \<longleftrightarrow> (\<exists>e. s = e @ c # r \<and> (\<forall>x\<in>set e. P x) \<and> \<not> P c)"
proof
  assume d: "dropWhile P s = c # r"
  have "s = takeWhile P s @ c # r" using d by (metis takeWhile_dropWhile_id)
  moreover have "\<not> P c" using d by (metis dropWhile_eq_Cons_conv)
  ultimately show "\<exists>e. s = e @ c # r \<and> (\<forall>x\<in>set e. P x) \<and> \<not> P c" by (metis set_takeWhileD)
qed (auto simp: dropWhile_append2)

lemma semicolon_class [simp]: "\<not> gv_isalpha (schar CHR '';'')" "\<not> gv_isdigit (schar CHR '';'')"
  "\<not> gv_isxdigit (schar CHR '';'')" "\<not> gv_isalpha (schar CHR ''#'')" "\<not> gv_isdigit (schar CHR ''x'')"
  "\<not> gv_isdigit (schar CHR ''X'')"
  by (simp_all add: ctype_defs schar_def)

lemma isentity_iff: "xml_isentity (CHR ''&'' # s) \<longleftrightarrow> (\<exists>e r. s = e @ CHR '';'' # r \<and> entity_body e)"
proof -
  have dw: "peek (dropWhile P t) = CHR '';'' \<longleftrightarrow> (\<exists>e r. t = e @ CHR '';'' # r \<and> (\<forall>x\<in>set e. P x))"
    if "\<not> P CHR '';''" for P t
    using that by (auto simp: peek_eq dropWhile_split)
  show ?thesis
  proof (cases "peek s = CHR ''#''")
    case True
    then obtain u where s: "s = CHR ''#'' # u" by (auto simp: peek_eq)
    show ?thesis
    proof (cases "peek u = CHR ''x'' \<or> peek u = CHR ''X''")
      case True
      then obtain x v where u: "u = x # v" "x = CHR ''x'' \<or> x = CHR ''X''" by (auto simp: peek_eq)
      have "xml_isentity (CHR ''&'' # s) \<longleftrightarrow> (\<exists>e r. v = e @ CHR '';'' # r \<and> (\<forall>c\<in>set e. gv_isxdigit (schar c)))"
        using True dw by (simp add: xml_isentity_def s u peek_def Let_def)
      also have "\<dots> \<longleftrightarrow> (\<exists>e r. s = e @ CHR '';'' # r \<and> entity_body e)"
      proof
        assume "\<exists>e r. v = e @ CHR '';'' # r \<and> (\<forall>c\<in>set e. gv_isxdigit (schar c))"
        then obtain e r where e: "v = e @ CHR '';'' # r" "\<forall>c\<in>set e. gv_isxdigit (schar c)" by blast
        then have "s = (CHR ''#'' # x # e) @ CHR '';'' # r" by (simp add: s u)
        moreover have "entity_body (CHR ''#'' # x # e)" using e u(2) by (auto simp: entity_body_def)
        ultimately show "\<exists>e r. s = e @ CHR '';'' # r \<and> entity_body e" by blast
      next
        assume a: "\<exists>e r. s = e @ CHR '';'' # r \<and> entity_body e"
        from u(2) show "\<exists>e r. v = e @ CHR '';'' # r \<and> (\<forall>c\<in>set e. gv_isxdigit (schar c))"
        proof
          assume "x = CHR ''x''"
          with a show ?thesis by (auto simp: entity_body_def s u(1) Cons_eq_append_conv)
        next
          assume "x = CHR ''X''"
          with a show ?thesis by (auto simp: entity_body_def s u(1) Cons_eq_append_conv)
        qed
      qed
      finally show ?thesis .
    next
      case False
      have "xml_isentity (CHR ''&'' # s) \<longleftrightarrow> (\<exists>e r. u = e @ CHR '';'' # r \<and> (\<forall>c\<in>set e. gv_isdigit (schar c)))"
        using False dw by (simp add: xml_isentity_def s peek_def Let_def)
      also have "\<dots> \<longleftrightarrow> (\<exists>e r. s = e @ CHR '';'' # r \<and> entity_body e)"
        using False by (auto simp: entity_body_def s Cons_eq_append_conv peek_def)
      finally show ?thesis .
    qed
  next
    case False
    have "xml_isentity (CHR ''&'' # s) \<longleftrightarrow> peek s \<noteq> CHR '';'' \<and>
        (\<exists>e r. s = e @ CHR '';'' # r \<and> (\<forall>c\<in>set e. gv_isalpha (schar c)))"
      using False dw by (simp add: xml_isentity_def Let_def)
    also have "\<dots> \<longleftrightarrow> (\<exists>e r. s = e @ CHR '';'' # r \<and> e \<noteq> [] \<and> (\<forall>c\<in>set e. gv_isalpha (schar c)))"
    proof -
      have "peek (e @ CHR '';'' # r) = CHR '';'' \<longleftrightarrow> e = []" if "\<forall>c\<in>set e. gv_isalpha (schar c)" for e r
        using that by (cases e) (auto simp: peek_def)
      then show ?thesis by metis
    qed
    also have "\<dots> \<longleftrightarrow> (\<exists>e r. s = e @ CHR '';'' # r \<and> entity_body e)"
      using False by (auto simp: entity_body_def peek_eq)
    finally show ?thesis .
  qed
qed

section \<open>Entities pass through\<close>

lemma not_special:
  assumes "entity_char c \<or> c = CHR '';''"
  shows "c \<notin> special" and "c \<noteq> CHR ''&''" and "c \<noteq> CHR ''-''" and "c \<noteq> CHR '' ''"
    and "c \<noteq> CHR 0x0A" and "c \<noteq> CHR 0x0D" and "\<not> (of_char c :: u8) > 0x7f"
proof -
  have r: "0 \<le> schar c" using assms by (auto simp: entity_char_def ctype_defs schar_def split: if_splits)
  have "of_char c < (128 :: nat)"
  proof (rule ccontr)
    assume "\<not> of_char c < (128 :: nat)"
    then have "schar c = int (of_char c) - 256" by (simp add: schar_def of_char_int)
    moreover have "int (of_char c) < 256" using nat_of_char_less_256 [of c] by linarith
    ultimately show False using r by linarith
  qed
  moreover have "unat (of_char c :: u8) = of_char c"
  proof -
    have "unat (of_nat (of_char c) :: u8) = of_char c mod 2 ^ 8" by (simp add: unat_of_nat)
    moreover have "of_char c mod 2 ^ 8 = (of_char c :: nat)"
      by (rule mod_less) (rule order.strict_trans2 [OF nat_of_char_less_256], simp)
    ultimately show ?thesis by (simp add: of_nat_of_char)
  qed
  ultimately show "\<not> (of_char c :: u8) > 0x7f" by (simp add: not_less word_le_nat_alt)
  have n: "\<not> entity_char d \<and> d \<noteq> CHR '';''"
    if "d \<in> {CHR ''<'', CHR ''>'', CHR 0x22, CHR 0x27, CHR ''&'', CHR ''-'', CHR '' '', CHR 0x0A, CHR 0x0D}" for d
    using that by (auto simp: entity_char_def ctype_defs schar_def)
  show "c \<notin> special" "c \<noteq> CHR ''&''" "c \<noteq> CHR ''-''" "c \<noteq> CHR '' ''" "c \<noteq> CHR 0x0A" "c \<noteq> CHR 0x0D"
    using n [of c] assms by (auto simp: special_def)
qed

lemma xml_core_plain:
  "entity_char c \<or> c = CHR '';'' \<Longrightarrow> xml_core p (c # s) flags = Some ([c], s)"
  using not_special [of c] by (simp add: xml_core_def special_def)

lemma entity_body_chars: "entity_body e \<Longrightarrow> \<forall>c\<in>set e. entity_char c"
  by (auto simp: entity_body_def entity_char_def ctype_defs schar_def split: if_splits)

lemma pieces_plain:
  "\<forall>c\<in>set e. entity_char c \<Longrightarrow>
    pieces flags p (e @ CHR '';'' # r) =
      map_option (\<lambda>ts. map (\<lambda>c. [c]) e @ [CHR '';''] # ts) (pieces flags (CHR '';'') r)"
proof (induction e arbitrary: p)
  case Nil
  show ?case by (simp add: xml_core_plain)
next
  case (Cons c e)
  then show ?case by (simp add: xml_core_plain option.map_comp comp_def)
qed

lemma concat_singletons [simp]: "concat (map (\<lambda>c. [c]) e) = e"
  by (induction e) simp_all

text \<open>Every ampersand starts an entity, and no special character is left.\<close>

fun clean :: "string \<Rightarrow> bool" where
  "clean [] = True"
| "clean (c # s) = (c \<notin> special \<and> (c = CHR ''&'' \<longrightarrow> xml_isentity (c # s)) \<and> clean s)"

lemma clean_plain: "\<forall>c\<in>set e. entity_char c \<or> c = CHR '';'' \<Longrightarrow> clean (e @ t) = clean t"
  using not_special(1,2) by (induction e) auto

lemma clean_entity: "entity_body e \<Longrightarrow> clean (CHR ''&'' # e @ CHR '';'' # t) = clean t"
proof -
  assume e: "entity_body e"
  then have "xml_isentity (CHR ''&'' # e @ CHR '';'' # t)" using isentity_iff by blast
  moreover have "clean ((e @ [CHR '';'']) @ t) = clean t"
    using entity_body_chars [OF e] by (intro clean_plain) auto
  moreover have "CHR ''&'' \<notin> special" by (simp add: special_def)
  ultimately show ?thesis by simp
qed

lemma hex_digit_class: "d < 16 \<Longrightarrow> gv_isxdigit (schar (hex_digit d))"
proof -
  have "\<forall>d\<in>set [0..<16]. gv_isxdigit (schar (hex_digit d))"
    by (simp add: upt_rec hex_digit_def ctype_defs schar_def)
  then show "d < 16 \<Longrightarrow> gv_isxdigit (schar (hex_digit d))" by simp
qed

lemma hex_class: "\<forall>c\<in>set (hex n). gv_isxdigit (schar c)"
proof (induction n rule: hex.induct)
  case (1 n)
  show ?case
  proof (cases "n < 16")
    case True
    then show ?thesis by (simp add: hex.simps [of n] hex_digit_class)
  next
    case False
    with 1 show ?thesis by (simp add: hex.simps [of n] hex_digit_class)
  qed
qed

lemma alpha_body: "e \<noteq> [] \<Longrightarrow> list_all (\<lambda>c. gv_isalpha (schar c)) e \<Longrightarrow> entity_body e"
  by (simp add: entity_body_def list_all_iff)

lemma digit_body: "list_all (\<lambda>c. gv_isdigit (schar c)) d \<Longrightarrow> entity_body (CHR ''#'' # d)"
  by (simp add: entity_body_def list_all_iff)

lemma hex_body: "entity_body (CHR ''#'' # CHR ''x'' # hex n)"
  using hex_class by (simp add: entity_body_def)

lemma fixed_bodies: "entity_body ''amp''" "entity_body ''lt''" "entity_body ''gt''" "entity_body ''quot''"
  "entity_body ''#39''" "entity_body ''#45''" "entity_body ''#160''" "entity_body ''#10''" "entity_body ''#13''"
  by (rule alpha_body digit_body; simp add: ctype_defs schar_def)+

lemma clean_fixed:
  "clean (''&amp;'' @ t) = clean t" "clean (''&lt;'' @ t) = clean t" "clean (''&gt;'' @ t) = clean t"
  "clean (''&quot;'' @ t) = clean t" "clean (''&#39;'' @ t) = clean t" "clean (''&#45;'' @ t) = clean t"
  "clean (''&#160;'' @ t) = clean t" "clean (''&#10;'' @ t) = clean t" "clean (''&#13;'' @ t) = clean t"
  "clean (''&#x'' @ hex n @ '';'' @ t) = clean t"
  using clean_entity [OF fixed_bodies(1), of t] clean_entity [OF fixed_bodies(2), of t]
    clean_entity [OF fixed_bodies(3), of t] clean_entity [OF fixed_bodies(4), of t]
    clean_entity [OF fixed_bodies(5), of t] clean_entity [OF fixed_bodies(6), of t]
    clean_entity [OF fixed_bodies(7), of t] clean_entity [OF fixed_bodies(8), of t]
    clean_entity [OF fixed_bodies(9), of t] clean_entity [OF hex_body, of n t] by simp_all

text \<open>One step of a ladder of conditions.\<close>

lemma ladder:
  assumes "(if b then Some (x, r) else e) = Some (out, rest)"
  obtains (yes) b and "out = x" and "rest = r" | (no) "\<not> b" and "e = Some (out, rest)"
  using assms by (cases b) auto

lemma xml_core_out:
  assumes "xml_core p (c # s) flags = Some (out, rest)"
  obtains (entity) e where "out = CHR ''&'' # e @ '';''" and "entity_body e"
  | (same) "out = [c]" and "rest = s" and "c \<notin> special" and "c = CHR ''&'' \<Longrightarrow> xml_isentity (c # s) \<and> \<not> raw flags"
      and "c = CHR ''-'' \<Longrightarrow> \<not> dash flags" and "c = CHR '' '' \<Longrightarrow> p = CHR '' '' \<Longrightarrow> \<not> nbsp flags"
      and "c = CHR 0x0A \<or> c = CHR 0x0D \<Longrightarrow> \<not> raw flags" and "(of_char c :: u8) > 0x7f \<Longrightarrow> \<not> utf8 flags"
proof -
  note b = fixed_bodies hex_body
  have e: thesis if "out = CHR ''&'' # b @ '';''" "entity_body b" for b using entity that by blast
  from assms show thesis
    unfolding xml_core_def Let_def list.sel
    apply (elim ladder)
             apply (rule e [OF _ b(1)], simp)
            apply (rule e [OF _ b(2)], simp)
           apply (rule e [OF _ b(3)], simp)
          apply (rule e [OF _ b(6)], simp)
         apply (rule e [OF _ b(7)], simp)
        apply (rule e [OF _ b(4)], simp)
       apply (rule e [OF _ b(5)], simp)
      apply (rule e [OF _ b(8)], simp)
     apply (rule e [OF _ b(9)], simp)
    apply (split if_split_asm)
     apply (split if_split_asm)
      apply simp
     apply clarsimp
     apply (rule e [OF _ b(10)], simp)
    apply (rule same; (simp add: special_def)?; blast)
    done
qed

lemma pieces_clean: "pieces flags p s = Some ts \<Longrightarrow> clean (concat ts)"
proof (induction flags p s arbitrary: ts rule: pieces.induct)
  case (2 flags p c s)
  from 2(2) obtain out rest us where o: "xml_core p (c # s) flags = Some (out, rest)"
    "pieces flags c rest = Some us" "ts = out # us" by (auto split: option.splits)
  from 2(1) [OF o(1) refl o(2)] have IH: "clean (concat us)" .
  from o(1) show ?case
  proof (cases rule: xml_core_out)
    case (entity e)
    then show ?thesis using clean_entity [of e "concat us"] IH by (simp add: o(3))
  next
    case same
    show ?thesis
    proof (cases "c = CHR ''&''")
      case True
      with same(4) isentity_iff obtain e r where e: "s = e @ CHR '';'' # r" "entity_body e" by blast
      with o(2) same(2) obtain vs where "us = map (\<lambda>c. [c]) e @ [CHR '';''] # vs"
        using pieces_plain [OF entity_body_chars [OF e(2)], of flags c r] by auto
      then have "concat us = e @ CHR '';'' # concat vs" by simp
      moreover from this IH have "clean (concat vs)"
        using clean_plain [of "e @ [CHR '';'']"] entity_body_chars [OF e(2)] by auto
      ultimately show ?thesis using clean_entity [OF e(2)] True by (simp add: o(3) same(1))
    next
      case False
      with same IH show ?thesis by (simp add: o(3))
    qed
  qed
qed simp

lemma hex_no_dash: "CHR ''-'' \<notin> set (hex n)"
  using hex_class [of n] by (auto simp: ctype_defs schar_def)

lemma pieces_dash: "pieces flags p s = Some ts \<Longrightarrow> dash flags \<Longrightarrow> CHR ''-'' \<notin> set (concat ts)"
proof (induction flags p s arbitrary: ts rule: pieces.induct)
  case (2 flags p c s)
  from 2(2) obtain out rest us where o: "xml_core p (c # s) flags = Some (out, rest)"
    "pieces flags c rest = Some us" "ts = out # us" by (auto split: option.splits)
  have "CHR ''-'' \<notin> set (concat us)" using 2(1) [OF o(1) refl o(2) 2(3)] .
  moreover from o(1) have "CHR ''-'' \<notin> set out"
  proof (cases rule: xml_core_out)
    case (entity e)
    have "CHR ''-'' \<notin> set e" using entity_body_chars [OF entity(2)] not_special(3) by blast
    then show ?thesis by (simp add: entity(1))
  next
    case same
    then show ?thesis using 2(3) by auto
  qed
  ultimately show ?case by (simp add: o(3))
qed simp

section \<open>Escaping escaped text\<close>

lemma pieces_entity:
  assumes "\<not> raw flags" and "entity_body e"
  shows "pieces flags p (CHR ''&'' # e @ CHR '';'' # t) =
    map_option ((@) (map (\<lambda>c. [c]) (CHR ''&'' # e @ '';''))) (pieces flags (CHR '';'') t)"
proof -
  have "xml_isentity (CHR ''&'' # e @ CHR '';'' # t)" using isentity_iff assms(2) by blast
  moreover have "\<not> (of_char (CHR ''&'') :: u8) > 0x7f" by simp
  ultimately have "xml_core p (CHR ''&'' # e @ CHR '';'' # t) flags = Some (''&'', e @ CHR '';'' # t)"
    using assms(1) by (simp add: xml_core_def)
  then show ?thesis
    by (cases "pieces flags (CHR '';'') t") (simp_all add: pieces_plain [OF entity_body_chars [OF assms(2)]])
qed

lemma xml_core_same:
  assumes "c = CHR ''&'' \<Longrightarrow> xml_isentity (c # t)"
    and "c \<notin> special" and "c = CHR ''&'' \<Longrightarrow> xml_isentity (c # s) \<and> \<not> raw flags"
    and "c = CHR ''-'' \<Longrightarrow> \<not> dash flags" and "c = CHR '' '' \<Longrightarrow> p = CHR '' '' \<Longrightarrow> \<not> nbsp flags"
    and "c = CHR 0x0A \<or> c = CHR 0x0D \<Longrightarrow> \<not> raw flags" and "(of_char c :: u8) > 0x7f \<Longrightarrow> \<not> utf8 flags"
    and "q = CHR '' '' \<Longrightarrow> p = CHR '' ''"
  shows "xml_core q (c # t) flags = Some ([c], t)"
proof -
  have "\<not> (c = CHR ''&'' \<and> (raw flags \<or> \<not> xml_isentity (c # t)))" "c \<noteq> CHR ''<''" "c \<noteq> CHR ''>''"
    "\<not> (c = CHR ''-'' \<and> dash flags)" "\<not> (c = CHR '' '' \<and> q = CHR '' '' \<and> nbsp flags)"
    "c \<noteq> CHR 0x22" "c \<noteq> CHR 0x27" "\<not> (c = CHR 0x0A \<and> raw flags)" "\<not> (c = CHR 0x0D \<and> raw flags)"
    "\<not> ((of_char c :: u8) > 0x7f \<and> utf8 flags)"
    using assms(2) assms(1,3) assms(4) assms(5,8) assms(6,7) by (simp_all add: special_def)
  then show ?thesis by (simp only: xml_core_def Let_def list.sel if_False)
qed

lemma pieces_again:
  "pieces flags p s = Some ts \<Longrightarrow> \<not> raw flags \<Longrightarrow> (q = CHR '' '' \<Longrightarrow> p = CHR '' '') \<Longrightarrow>
    pieces flags q (concat ts) = Some (map (\<lambda>c. [c]) (concat ts))"
proof (induction flags p s arbitrary: ts q rule: pieces.induct)
  case (2 flags p c s)
  from 2(2) obtain out rest us where o: "xml_core p (c # s) flags = Some (out, rest)"
    "pieces flags c rest = Some us" "ts = out # us" by (auto split: option.splits)
  from 2(1) [OF o(1) refl o(2) 2(3)]
  have IH: "(q = CHR '' '' \<Longrightarrow> c = CHR '' '') \<Longrightarrow>
    pieces flags q (concat us) = Some (map (\<lambda>c. [c]) (concat us))" for q .
  from o(1) show ?case
  proof (cases rule: xml_core_out)
    case (entity e)
    have "pieces flags (CHR '';'') (concat us) = Some (map (\<lambda>c. [c]) (concat us))" by (rule IH) simp
    then have "pieces flags q (CHR ''&'' # e @ CHR '';'' # concat us) =
        Some (map (\<lambda>c. [c]) (CHR ''&'' # e @ '';'') @ map (\<lambda>c. [c]) (concat us))"
      by (simp only: pieces_entity [OF 2(3) entity(2)] option.map)
    moreover have "concat ts = CHR ''&'' # e @ CHR '';'' # concat us" by (simp add: o(3) entity(1))
    ultimately show ?thesis by simp
  next
    case same
    have "xml_isentity (c # concat us)" if c: "c = CHR ''&''"
    proof -
      from same(4) [OF c] c isentity_iff obtain e r where e: "s = e @ CHR '';'' # r" "entity_body e" by blast
      with o(2) same(2) obtain vs where "us = map (\<lambda>c. [c]) e @ [CHR '';''] # vs"
        using pieces_plain [OF entity_body_chars [OF e(2)], of flags c r] by auto
      then have "concat us = e @ CHR '';'' # concat vs" by simp
      with e(2) c isentity_iff show ?thesis by metis
    qed
    then have "xml_core q (c # concat us) flags = Some ([c], concat us)"
      using same(3-8) 2(4) by (rule xml_core_same)
    then show ?thesis using IH [of c] by (simp add: o(3) same(1))
  qed
qed simp

section \<open>Decoding\<close>

text \<open>What the predefined entities and the decimal references stand for.\<close>

definition number :: "string \<Rightarrow> nat" where
  "number ds = foldl (\<lambda>n d. 10 * n + (of_char d - 48)) 0 ds"

definition reference :: "string \<Rightarrow> char" where
  "reference e =
    (if e = ''amp'' then CHR ''&'' else if e = ''lt'' then CHR ''<'' else if e = ''gt'' then CHR ''>''
     else if e = ''quot'' then CHR 0x22 else char_of (number (tl e)))"

fun unescape :: "nat \<Rightarrow> string \<Rightarrow> string" where
  "unescape 0 t = []"
| "unescape (Suc n) [] = []"
| "unescape (Suc n) (c # t) =
    (if c = CHR ''&'' then
       reference (takeWhile (\<lambda>d. d \<noteq> CHR '';'') t) # unescape n (tl (dropWhile (\<lambda>d. d \<noteq> CHR '';'') t))
     else c # unescape n t)"

lemma unescape_entity:
  assumes "CHR '';'' \<notin> set e"
  shows "unescape (Suc n) (CHR ''&'' # e @ CHR '';'' # t) = reference e # unescape n t"
proof -
  have "takeWhile (\<lambda>d. d \<noteq> CHR '';'') (e @ CHR '';'' # t) = e"
    "dropWhile (\<lambda>d. d \<noteq> CHR '';'') (e @ CHR '';'' # t) = CHR '';'' # t"
    using assms by (simp_all add: takeWhile_append2 dropWhile_append2 takeWhile_append dropWhile_append)
  then show ?thesis by simp
qed

lemma xml_core_raw:
  assumes "xml_core p (c # s) flags = Some (out, rest)"
    and "raw flags" and "\<not> utf8 flags" and "\<not> nbsp flags"
  shows "rest = s \<and> unescape (Suc n) (out @ t) = c # unescape n t"
proof -
  note * = unescape_entity [of "''amp''" n t] unescape_entity [of "''lt''" n t]
    unescape_entity [of "''gt''" n t] unescape_entity [of "''quot''" n t] unescape_entity [of "''#39''" n t]
    unescape_entity [of "''#45''" n t] unescape_entity [of "''#10''" n t] unescape_entity [of "''#13''" n t]
  have n: "char_of (39 :: nat) = CHR 0x27" "char_of (45 :: nat) = CHR ''-''"
    "char_of (10 :: nat) = CHR 0x0A" "char_of (13 :: nat) = CHR 0x0D"
    by (simp_all add: char_of_def bit_iff_odd)
  note r = reference_def number_def n
  from assms(1) show ?thesis
    unfolding xml_core_def Let_def list.sel
  proof (elim ladder, goal_cases)
    case 1 then show ?case using * by (simp add: r)
  next
    case 2 then show ?case using * by (simp add: r)
  next
    case 3 then show ?case using * by (simp add: r)
  next
    case 4 then show ?case using * by (simp add: r)
  next
    case 5 then show ?case using assms(4) by simp
  next
    case 6 then show ?case using * by (simp add: r)
  next
    case 7 then show ?case using * by (simp add: r)
  next
    case 8 then show ?case using * by (simp add: r)
  next
    case 9 then show ?case using * by (simp add: r)
  next
    case 10 then show ?case using assms(2,3) by auto
  qed
qed

lemma pieces_unescape:
  "pieces flags p s = Some ts \<Longrightarrow> raw flags \<Longrightarrow> \<not> utf8 flags \<Longrightarrow> \<not> nbsp flags \<Longrightarrow>
    length s \<le> n \<Longrightarrow> unescape n (concat ts) = s"
proof (induction flags p s arbitrary: ts n rule: pieces.induct)
  case (1 flags p)
  then show ?case by (cases n) auto
next
  case (2 flags p c s)
  from 2(2) obtain out rest us where o: "xml_core p (c # s) flags = Some (out, rest)"
    "pieces flags c rest = Some us" "ts = out # us" by (auto split: option.splits)
  from 2(6) obtain m where n: "n = Suc m" by (cases n) auto
  have r: "rest = s" "unescape (Suc m) (out @ concat us) = c # unescape m (concat us)"
    using xml_core_raw [OF o(1) 2(3,4,5)] by blast+
  have "unescape m (concat us) = s"
    using 2(1) [OF o(1) refl o(2) 2(3,4,5)] 2(6) by (simp add: r(1) n)
  then show ?case by (simp add: o(3) n r(2))
qed

section \<open>UTF-8\<close>

text \<open>The encoding of a code point in two to four bytes.\<close>

definition utf8_encode :: "nat \<Rightarrow> string" where
  "utf8_encode n =
    map char_of
     (if n < 0x800 then [192 + n div 64, 128 + n mod 64]
      else if n < 0x10000 then [224 + n div 4096, 128 + n div 64 mod 64, 128 + n mod 64]
      else [240 + n div 262144, 128 + n div 4096 mod 64, 128 + n div 64 mod 64, 128 + n mod 64])"

lemma byte_char_of: "k < 256 \<Longrightarrow> byte (char_of k) = of_nat k"
proof -
  assume k: "k < 256"
  have "byte (char_of k) = of_nat (of_char (char_of k :: char))" unfolding byte_def by (rule of_nat_of_char [symmetric])
  with k show ?thesis by simp
qed

lemma and_low:
  fixes k :: nat
  shows "(of_nat k :: u32) AND 63 = of_nat (k mod 64)" "(of_nat k :: u32) AND 31 = of_nat (k mod 32)"
    "(of_nat k :: u32) AND 15 = of_nat (k mod 16)" "(of_nat k :: u32) AND 7 = of_nat (k mod 8)"
proof -
  have *: "(of_nat k :: u32) AND mask j = of_nat (k mod 2 ^ j)" for j
    unfolding take_bit_eq_mask [symmetric] take_bit_of_nat by (simp only: take_bit_nat_def)
  show "(of_nat k :: u32) AND 63 = of_nat (k mod 64)" "(of_nat k :: u32) AND 31 = of_nat (k mod 32)"
    "(of_nat k :: u32) AND 15 = of_nat (k mod 16)" "(of_nat k :: u32) AND 7 = of_nat (k mod 8)"
    using * [of 6] * [of 5] * [of 4] * [of 3] by (simp_all add: mask_eq_exp_minus_1)
qed

lemma or_high:
  assumes "a < 2 ^ j"
  shows "(of_nat a :: u32) OR push_bit j (of_nat b) = of_nat (a + b * 2 ^ j)"
proof -
  have t: "take_bit j (of_nat a :: u32) = of_nat a"
    using assms by (simp add: take_bit_of_nat take_bit_nat_eq_self)
  have "\<not> bit (of_nat a :: u32) n \<or> \<not> bit (push_bit j (of_nat b :: u32)) n" for n
    by (metis t bit_take_bit_iff bit_push_bit_iff linorder_not_le)
  then have "(of_nat a :: u32) OR push_bit j (of_nat b) = of_nat a + push_bit j (of_nat b)"
    by (rule disjunctive_add [symmetric])
  then show ?thesis by (simp add: push_bit_eq_mult mult.commute)
qed

lemma split_mod_div:
  fixes k :: nat
  assumes "m < k"
  shows "(k * j + m) mod k = m" and "(k * j + m) div k = j"
  using assms by simp_all

lemma utf8_decode_simps:
  "utf8_decode 2 (a # b # t) = (byte b AND 63) OR push_bit 6 (byte a AND 31)"
  "utf8_decode 3 (a # b # c # t) = (byte c AND 63) OR push_bit 6 (byte b AND 63) OR push_bit 12 (byte a AND 15)"
  "utf8_decode 4 (a # b # c # d # t) = (byte d AND 63) OR push_bit 6 (byte c AND 63) OR push_bit 12 (byte b AND 63)
    OR push_bit 18 (byte a AND 7)"
  by (simp_all add: utf8_decode_def)

lemma continuation_byte: "byte (char_of (128 + m mod 64 :: nat)) AND 63 = of_nat (m mod 64)"
proof -
  have "m mod 64 < 64" by simp
  then have "128 + m mod 64 < 256" "(128 + m mod 64) mod 64 = m mod 64"
    using split_mod_div(1) [of "m mod 64" 64 2] by simp_all
  then show ?thesis by (simp only: byte_char_of and_low)
qed

lemma lead_byte:
  "m < 32 \<Longrightarrow> byte (char_of (192 + m :: nat)) AND 31 = of_nat m"
  "m < 16 \<Longrightarrow> byte (char_of (224 + m :: nat)) AND 15 = of_nat m"
  "m < 8 \<Longrightarrow> byte (char_of (240 + m :: nat)) AND 7 = of_nat m"
proof -
  note * = split_mod_div(1)
  show "m < 32 \<Longrightarrow> byte (char_of (192 + m :: nat)) AND 31 = of_nat m"
    using * [of m 32 6] byte_char_of [of "192 + m"] and_low(2) [of "192 + m"] by (simp del: of_nat_add)
  show "m < 16 \<Longrightarrow> byte (char_of (224 + m :: nat)) AND 15 = of_nat m"
    using * [of m 16 14] byte_char_of [of "224 + m"] and_low(3) [of "224 + m"] by (simp del: of_nat_add)
  show "m < 8 \<Longrightarrow> byte (char_of (240 + m :: nat)) AND 7 = of_nat m"
    using * [of m 8 30] byte_char_of [of "240 + m"] and_low(4) [of "240 + m"] by (simp del: of_nat_add)
qed

lemma utf8_encode_cases:
  assumes "n < 0x200000"
  obtains (two) "utf8_encode n = [char_of (192 + n div 64), char_of (128 + n mod 64)]" "n div 64 < 32"
  | (three) "utf8_encode n = [char_of (224 + n div 4096), char_of (128 + n div 64 mod 64), char_of (128 + n mod 64)]"
      "n div 4096 < 16"
  | (four) "utf8_encode n = [char_of (240 + n div 262144), char_of (128 + n div 4096 mod 64),
      char_of (128 + n div 64 mod 64), char_of (128 + n mod 64)]" "n div 262144 < 8"
proof -
  consider "n < 0x800" | "0x800 \<le> n" "n < 0x10000" | "0x10000 \<le> n" by linarith
  then show thesis
    by cases (use assms in \<open>simp_all add: utf8_encode_def two three four div_less_iff_less_mult\<close>)
qed

lemma sextets:
  fixes n :: nat
  shows "n mod 64 < 64"
    and "n mod 64 + n div 64 mod 64 * 64 < 4096"
    and "n mod 64 + n div 64 mod 64 * 64 + n div 4096 * 4096 = n"
    and "n mod 64 + n div 64 mod 64 * 64 + n div 4096 mod 64 * 4096 < 262144"
    and "n mod 64 + n div 64 mod 64 * 64 + n div 4096 mod 64 * 4096 + n div 262144 * 262144 = n"
proof -
  have d: "n div 4096 = n div 64 div 64" "n div 262144 = n div 64 div 64 div 64"
    by (simp_all add: div_mult2_eq [symmetric])
  have b: "n mod 64 < 64" "n div 64 mod 64 < 64" "n div 64 div 64 mod 64 < 64" by simp_all
  have e: "n div 64 * 64 + n mod 64 = n" "n div 64 div 64 * 64 + n div 64 mod 64 = n div 64"
    "n div 64 div 64 div 64 * 64 + n div 64 div 64 mod 64 = n div 64 div 64" by simp_all
  show "n mod 64 < 64"
    "n mod 64 + n div 64 mod 64 * 64 < 4096"
    "n mod 64 + n div 64 mod 64 * 64 + n div 4096 * 4096 = n"
    "n mod 64 + n div 64 mod 64 * 64 + n div 4096 mod 64 * 4096 < 262144"
    "n mod 64 + n div 64 mod 64 * 64 + n div 4096 mod 64 * 4096 + n div 262144 * 262144 = n"
    unfolding d using b e by linarith+
qed

lemma utf8_decode_encode:
  assumes "n < 0x200000"
  shows "utf8_decode (length (utf8_encode n)) (utf8_encode n @ t) = of_nat n"
  using assms
proof (cases rule: utf8_encode_cases)
  case two
  have "n mod 64 < 2 ^ 6" "n mod 64 + n div 64 * 2 ^ 6 = n" by simp_all
  then have "(of_nat (n mod 64) :: u32) OR push_bit 6 (of_nat (n div 64)) = of_nat n" by (simp only: or_high)
  moreover have "length (utf8_encode n) = 2" by (simp add: two(1))
  ultimately show ?thesis
    by (simp only: two(1) append.simps utf8_decode_simps continuation_byte lead_byte(1) [OF two(2)])
next
  case three
  have "n mod 64 < 2 ^ 6" "n mod 64 + n div 64 mod 64 * 2 ^ 6 < 2 ^ 12"
    "n mod 64 + n div 64 mod 64 * 2 ^ 6 + n div 4096 * 2 ^ 12 = n"
    using sextets(1-3) by simp_all
  then have "(of_nat (n mod 64) :: u32) OR push_bit 6 (of_nat (n div 64 mod 64)) OR push_bit 12 (of_nat (n div 4096)) =
      of_nat n" by (simp only: or.assoc [symmetric] or_high)
  moreover have "length (utf8_encode n) = 3" by (simp add: three(1))
  ultimately show ?thesis
    by (simp only: three(1) append.simps utf8_decode_simps continuation_byte lead_byte(2) [OF three(2)])
next
  case four
  have "n mod 64 < 2 ^ 6" "n mod 64 + n div 64 mod 64 * 2 ^ 6 < 2 ^ 12"
    "n mod 64 + n div 64 mod 64 * 2 ^ 6 + n div 4096 mod 64 * 2 ^ 12 < 2 ^ 18"
    "n mod 64 + n div 64 mod 64 * 2 ^ 6 + n div 4096 mod 64 * 2 ^ 12 + n div 262144 * 2 ^ 18 = n"
    using sextets(1,2,4,5) by simp_all
  then have "(of_nat (n mod 64) :: u32) OR push_bit 6 (of_nat (n div 64 mod 64)) OR
      push_bit 12 (of_nat (n div 4096 mod 64)) OR push_bit 18 (of_nat (n div 262144)) = of_nat n"
    by (simp only: or.assoc [symmetric] or_high)
  moreover have "length (utf8_encode n) = 4" by (simp add: four(1))
  ultimately show ?thesis
    by (simp only: four(1) append.simps utf8_decode_simps continuation_byte lead_byte(3) [OF four(2)])
qed

lemma unat_char_of: "k < 256 \<Longrightarrow> unat (of_char (char_of k :: char) :: u8) = k"
proof -
  assume k: "k < 256"
  have "(of_char (char_of k :: char) :: u8) = of_nat (of_char (char_of k :: char))" by (rule of_nat_of_char [symmetric])
  with k show ?thesis by (simp add: unat_of_nat)
qed

lemma utf8_length_unat:
  "utf8_length uc = (if unat uc div 32 = 6 then 2 else if unat uc div 16 = 14 then 3 else if unat uc div 8 = 30 then 4 else 0)"
proof -
  have "drop_bit i uc = v \<longleftrightarrow> unat uc div 2 ^ i = unat v" for i v
    by (simp only: word_unat_eq_iff unat_drop_bit_eq drop_bit_nat_def)
  from this [of 5 6] this [of 4 14] this [of 3 30] show ?thesis by (simp add: utf8_length_def)
qed

lemma utf8_lead:
  assumes "n < 0x200000"
  shows "\<exists>(k :: nat) r. utf8_encode n = char_of k # r \<and> 192 \<le> k \<and> k < 256 \<and>
    utf8_length (of_char (char_of k :: char)) = Suc (length r)"
  using assms
proof (cases rule: utf8_encode_cases)
  case two
  then have "(192 + n div 64) div 32 = 6" using split_mod_div(2) [of "n div 64" 32 6] by simp
  then have "utf8_length (of_char (char_of (192 + n div 64) :: char)) = 2"
    using two(2) by (simp add: utf8_length_unat unat_char_of del: div_add_self1 div_add_self2)
  with two show ?thesis by (intro exI [of _ "192 + n div 64"]) simp
next
  case three
  have "(224 + m) div 32 \<noteq> 6 \<and> (224 + m) div 16 = 14" if "m < 16" for m :: nat
    using that split_mod_div(2) [of m 16 14] split_mod_div(2) [of m 32 7] by simp
  from this [OF three(2)] have "utf8_length (of_char (char_of (224 + n div 4096) :: char)) = 3"
    using three(2) by (simp add: utf8_length_unat unat_char_of del: div_add_self1 div_add_self2)
  with three show ?thesis by (intro exI [of _ "224 + n div 4096"]) simp
next
  case four
  have "(240 + m) div 32 \<noteq> 6 \<and> (240 + m) div 16 \<noteq> 14 \<and> (240 + m) div 8 = 30" if "m < 8" for m :: nat
    using that split_mod_div(2) [of m 8 30] split_mod_div(2) [of m 16 15] split_mod_div(2) [of "16 + m" 32 7] by simp
  from this [OF four(2)] have "utf8_length (of_char (char_of (240 + n div 262144) :: char)) = 4"
    using four(2) by (simp add: utf8_length_unat unat_char_of del: div_add_self1 div_add_self2)
  with four show ?thesis by (intro exI [of _ "240 + n div 262144"]) simp
qed

lemma high_char:
  fixes k :: nat
  assumes "192 \<le> k" and "k < 256"
  shows "(of_char (char_of k :: char) :: u8) > 0x7f"
    and "of_char d < (128 :: nat) \<Longrightarrow> char_of k \<noteq> d"
  using assms unat_char_of [of k] by (auto simp: word_less_nat_alt)

section \<open>Properties\<close>

text \<open>
  The callback gets the pieces of the escaped text in order until it returns a negative
  value, which is then the result; the pieces do not depend on the callback.
\<close>
lemma gv_xml_escape_feeds:
  assumes "pieces flags (CHR 0x00) s = Some ts"
  shows "gv_xml_escape s flags cb st = Some (feed cb 0 ts st) \<and> escaped flags s = Some (concat ts)"
  using xml_loop_feed [OF assms, of cb 0 st] assms by (simp add: gv_xml_escape_def escaped_def)

text \<open>A text with an entity and a tag.\<close>

abbreviation (input) no_flags :: xml_flags where
  "no_flags \<equiv> \<lparr>raw = False, dash = False, nbsp = False, utf8 = False\<rparr>"

lemma pieces_example: "pieces no_flags (CHR 0x00) ''<&lt;'' = Some [''&lt;'', ''&'', ''l'', ''t'', '';'']"
  by (simp add: xml_core_def Let_def xml_isentity_def peek_def ctype_defs schar_def)


lemma escaped_example: "escaped no_flags ''<&lt;'' = Some ''&lt;&lt;''"
  using pieces_example by (simp add: escaped_def)




text \<open>
  Outside raw mode escaping is idempotent, whatever the other flags: text that was escaped
  once is copied unchanged.
\<close>
lemma gv_xml_escape_idempotent:
  assumes "escaped flags s = Some t" and "\<not> raw flags"
  shows "escaped flags t = Some t"
  using assms pieces_again [of flags "CHR 0x00" s _ "CHR 0x00"] by (auto simp: escaped_def)

text \<open>
  With the UTF-8 flag the multi-byte encoding of a code point becomes the
  hexadecimal reference to that code point.
\<close>
lemma xml_core_utf8:
  assumes "utf8 flags" and "n < 0x200000"
  shows "xml_core p (utf8_encode n @ t) flags = Some (''&#x'' @ hex n @ '';'', t)"
proof -
  from utf8_lead [OF assms(2)] obtain k :: nat and r where k: "utf8_encode n = char_of k # r" "192 \<le> k" "k < 256"
    "utf8_length (of_char (char_of k :: char)) = Suc (length r)" by blast
  have d: "unat (utf8_decode (Suc (length r)) (char_of k # r @ t)) = n"
    using utf8_decode_encode [OF assms(2), of t] assms(2) by (simp add: k(1) unat_of_nat)
  note c = high_char [OF k(2,3)]
  have "char_of k \<noteq> CHR ''&''" "char_of k \<noteq> CHR ''<''" "char_of k \<noteq> CHR ''>''" "char_of k \<noteq> CHR ''-''"
    "char_of k \<noteq> CHR '' ''" "char_of k \<noteq> CHR 0x22" "char_of k \<noteq> CHR 0x27" "char_of k \<noteq> CHR 0x0A"
    "char_of k \<noteq> CHR 0x0D"
    by (rule c(2); simp)+
  then show ?thesis using c(1) assms(1) d by (simp add: xml_core_def Let_def k)
qed

end
