(* ===== verification/Base64.thy ===== *)
theory Base64
  imports Prelude
begin

text \<open>
  Base64 encoding, \<open>lib/util/base64.c\<close>. The source is a list of bytes; the arithmetic on promoted
  bytes is arithmetic on \<open>int\<close>.
\<close>

section \<open>The code\<close>

unbundle bit_operations_syntax

definition div_up :: "nat \<Rightarrow> nat \<Rightarrow> nat" where
  "div_up dividend divisor = dividend div divisor + (if dividend mod divisor \<noteq> 0 then 1 else 0)"

definition base64_alphabet :: string where
  "base64_alphabet = ''ABCDEFGHIJKLMNOPQRSTUVWXYZabcdefghijklmnopqrstuvwxyz0123456789+/=''"

definition gv_base64_size :: "nat \<Rightarrow> nat" where
  "gv_base64_size n = div_up n 3 * 4"

definition letter :: "int \<Rightarrow> char" where
  "letter v = base64_alphabet ! nat v"

text \<open>The four sextets of three bytes.\<close>

definition v0 :: "8 word \<Rightarrow> int" where
  "v0 d0 = drop_bit 2 (uint d0 AND 0xFC)"

definition v1 :: "8 word \<Rightarrow> 8 word \<Rightarrow> int" where
  "v1 d0 d1 = push_bit 4 (uint d0 AND 0x03) OR drop_bit 4 (uint d1 AND 0xF0)"

definition v2 :: "8 word \<Rightarrow> 8 word \<Rightarrow> int" where
  "v2 d1 d2 = push_bit 2 (uint d1 AND 0x0F) OR drop_bit 6 (uint d2 AND 0xC0)"

definition v3 :: "8 word \<Rightarrow> int" where
  "v3 d2 = uint d2 AND 0x3F"

definition byte_or_0 :: "8 word list \<Rightarrow> 8 word" where
  "byte_or_0 s = (case s of [] \<Rightarrow> 0 | d # _ \<Rightarrow> d)"

text \<open>The loop over the source, which stops early when the source ends inside a group.\<close>

function base64_loop :: "8 word list \<Rightarrow> string \<Rightarrow> string" where
  "base64_loop [] buf = buf"
| "base64_loop (d0 # s1) buf =
    (let d1 = byte_or_0 s1;
         buf1 = buf @ [letter (v0 d0), letter (v1 d0 d1)]
     in if s1 = [] then buf1
        else
          (let s2 = tl s1;
               d2 = byte_or_0 s2;
               buf2 = buf1 @ [letter (v2 d1 d2)]
           in if s2 = [] then buf2 else base64_loop (tl s2) (buf2 @ [letter (v3 d2)])))"
  by pat_completeness auto
termination by (relation "measure (\<lambda>(s, b). length s)") auto

text \<open>The padding loop.\<close>

function pad :: "string \<Rightarrow> string" where
  "pad buf = (if length buf mod 4 \<noteq> 0 then pad (buf @ [base64_alphabet ! 64]) else buf)"
  by pat_completeness auto
termination
proof (relation "measure (\<lambda>b. (4 - length b mod 4) mod 4)", goal_cases)
  case (2 buf)
  then have "length buf mod 4 \<in> {1, 2, 3}" by auto
  then show ?case by (auto simp: mod_Suc)
qed simp

declare pad.simps [simp del]

definition gv_base64 :: "8 word list \<Rightarrow> string" where
  "gv_base64 source = pad (base64_loop source []) @ [CHR 0x00]"

section \<open>Decoding\<close>

definition index_of :: "char \<Rightarrow> nat" where
  "index_of c = length (takeWhile (\<lambda>x. x \<noteq> c) base64_alphabet)"

text \<open>The bytes a group of four letters stands for.\<close>

definition group_bytes :: "nat \<Rightarrow> nat \<Rightarrow> nat \<Rightarrow> nat \<Rightarrow> 8 word list" where
  "group_bytes a b c d =
    (let x = of_nat (4 * a + b div 16); y = of_nat (16 * (b mod 16) + c div 4); z = of_nat (64 * (c mod 4) + d)
     in if c = 64 then [x] else if d = 64 then [x, y] else [x, y, z])"

fun decode64 :: "string \<Rightarrow> 8 word list" where
  "decode64 (a # b # c # d # s) = group_bytes (index_of a) (index_of b) (index_of c) (index_of d) @ decode64 s"
| "decode64 s = []"

section \<open>Sextets\<close>

lemma and_mask_mod: "(x :: int) AND mask n = x mod 2 ^ n"
  by (simp only: take_bit_eq_mask [symmetric] take_bit_int_def)

lemma int_and_low: "(x :: int) AND 3 = x mod 4" "x AND 15 = x mod 16" "x AND 63 = x mod 64"
  using and_mask_mod [of x 2] and_mask_mod [of x 4] and_mask_mod [of x 6]
  by (simp_all add: mask_eq_exp_minus_1)

lemma or_disjoint:
  assumes "0 \<le> (a :: int)" and "a < 2 ^ n"
  shows "push_bit n b OR a = b * 2 ^ n + a"
proof -
  have t: "take_bit n a = a" using assms by (simp add: take_bit_int_eq_self)
  have "\<not> bit (push_bit n b) k \<or> \<not> bit a k" for k
    by (metis t bit_take_bit_iff bit_push_bit_iff linorder_not_le)
  then have "push_bit n b OR a = push_bit n b + a" by (rule disjunctive_add [symmetric])
  then show ?thesis by (simp add: push_bit_int_def)
qed

lemma uint_byte: "0 \<le> uint (d :: 8 word)" "uint d < 256"
  using uint_lt2p [of d] by simp_all

lemma int_and_high: "drop_bit 2 ((x :: int) AND 252) = x div 4 mod 64" "drop_bit 4 (x AND 240) = x div 16 mod 16"
  "drop_bit 6 (x AND 192) = x div 64 mod 4"
proof -
  have c: "drop_bit 2 (252 :: int) = 63" "drop_bit 4 (240 :: int) = 15" "drop_bit 6 (192 :: int) = 3" by simp_all
  show "drop_bit 2 (x AND 252) = x div 4 mod 64" "drop_bit 4 (x AND 240) = x div 16 mod 16"
    "drop_bit 6 (x AND 192) = x div 64 mod 4"
    by (simp_all only: drop_bit_and c int_and_low) (simp_all add: drop_bit_int_def)
qed

lemma int_div_less: "0 < (k :: int) \<Longrightarrow> x < k * m \<Longrightarrow> x div k < m"
  by (smt (verit) div_mult_mod_eq mult.commute mult_left_less_imp_less pos_mod_sign)

lemma sextet_eqs:
  "v0 d0 = uint d0 div 4"
  "v1 d0 d1 = uint d0 mod 4 * 16 + uint d1 div 16"
  "v2 d1 d2 = uint d1 mod 16 * 4 + uint d2 div 64"
  "v3 d2 = uint d2 mod 64"
proof -
  have s: "x div 4 mod 64 = x div 4" "x div 16 mod 16 = x div 16" "x div 64 mod 4 = x div 64"
    "0 \<le> x div 16" "x div 16 < 16" "0 \<le> x div 64" "x div 64 < 4" if "0 \<le> x" "x < 256" for x :: int
  proof -
    show b: "0 \<le> x div 16" "x div 16 < 16" "0 \<le> x div 64" "x div 64 < 4"
      using that by (simp_all add: pos_imp_zdiv_nonneg_iff int_div_less)
    have "0 \<le> x div 4" "x div 4 < 64" using that by (simp_all add: pos_imp_zdiv_nonneg_iff int_div_less)
    with b show "x div 4 mod 64 = x div 4" "x div 16 mod 16 = x div 16" "x div 64 mod 4 = x div 64"
      by simp_all
  qed
  note s0 = s [OF uint_byte [of d0]] and s1 = s [OF uint_byte [of d1]] and s2 = s [OF uint_byte [of d2]]
  show "v0 d0 = uint d0 div 4" by (simp only: v0_def int_and_high s0(1))
  show "v3 d2 = uint d2 mod 64" by (simp only: v3_def int_and_low)
  show "v1 d0 d1 = uint d0 mod 4 * 16 + uint d1 div 16"
    using or_disjoint [of "uint d1 div 16" 4 "uint d0 mod 4"] s1 unfolding v1_def int_and_high int_and_low by simp
  show "v2 d1 d2 = uint d1 mod 16 * 4 + uint d2 div 64"
    using or_disjoint [of "uint d2 div 64" 2 "uint d1 mod 16"] s2 unfolding v2_def int_and_high int_and_low by simp
qed

lemma sextet_bounds:
  "0 \<le> v0 d0" "v0 d0 < 64" "0 \<le> v1 d0 d1" "v1 d0 d1 < 64" "0 \<le> v2 d1 d2" "v2 d1 d2 < 64" "0 \<le> v3 d2" "v3 d2 < 64"
proof -
  have b: "0 \<le> uint d div k" "uint d div 4 < 64" "uint d div 16 < 16" "uint d div 64 < 4" if "0 < k" for d :: "8 word" and k
    using uint_byte [of d] that by (simp_all add: pos_imp_zdiv_nonneg_iff int_div_less)
  have m: "0 \<le> x mod k" "x mod k < k" if "0 < k" for x k :: int using that by simp_all
  show "0 \<le> v0 d0" "v0 d0 < 64" using b [of 4 d0] by (simp_all add: sextet_eqs)
  show "0 \<le> v3 d2" "v3 d2 < 64" by (simp_all add: sextet_eqs)
  show "0 \<le> v1 d0 d1" "v1 d0 d1 < 64" unfolding sextet_eqs
    using b [of 16 d1] m [of 4 "uint d0"] by linarith+
  show "0 \<le> v2 d1 d2" "v2 d1 d2 < 64" unfolding sextet_eqs
    using b [of 64 d2] m [of 16 "uint d1"] by linarith+
qed

lemma alphabet: "length base64_alphabet = 65" "distinct base64_alphabet"
  by (simp_all add: base64_alphabet_def)

lemma index_of_nth: "i < 65 \<Longrightarrow> index_of (base64_alphabet ! i) = i"
proof -
  have "length (takeWhile (\<lambda>x. x \<noteq> xs ! i) xs) = i" if "distinct xs" "i < length xs" for xs :: string
    using that by (induction xs arbitrary: i) (auto simp: nth_Cons split: nat.splits)
  from this [OF alphabet(2)] show "i < 65 \<Longrightarrow> index_of (base64_alphabet ! i) = i"
    by (simp add: index_of_def alphabet(1))
qed

lemma index_of_letter: "0 \<le> v \<Longrightarrow> v < 64 \<Longrightarrow> index_of (letter v) = nat v"
  unfolding letter_def by (rule index_of_nth) simp

lemma nat_sextets:
  "nat (v0 d0) = unat d0 div 4"
  "nat (v1 d0 d1) = unat d0 mod 4 * 16 + unat d1 div 16"
  "nat (v2 d1 d2) = unat d1 mod 16 * 4 + unat d2 div 64"
  "nat (v3 d2) = unat d2 mod 64"
proof -
  have "v0 d0 = int (unat d0 div 4)" "v1 d0 d1 = int (unat d0 mod 4 * 16 + unat d1 div 16)"
    "v2 d1 d2 = int (unat d1 mod 16 * 4 + unat d2 div 64)" "v3 d2 = int (unat d2 mod 64)"
    by (simp_all add: sextet_eqs of_nat_div of_nat_mod)
  then show "nat (v0 d0) = unat d0 div 4"
    "nat (v1 d0 d1) = unat d0 mod 4 * 16 + unat d1 div 16"
    "nat (v2 d1 d2) = unat d1 mod 16 * 4 + unat d2 div 64"
    "nat (v3 d2) = unat d2 mod 64" by (simp_all only: nat_int)
qed

lemma unat_byte: "unat (d :: 8 word) < 256"
  using unsigned_less [of d] by simp

lemma joined:
  fixes x y :: nat
  shows "y < 16 \<Longrightarrow> 4 * (x div 4) + (x mod 4 * 16 + y) div 16 = x"
    and "y < 4 \<Longrightarrow> 16 * (x div 16) + (x mod 16 * 4 + y) div 4 = x"
    and "y < 16 \<Longrightarrow> (x mod 4 * 16 + y) mod 16 = y" and "y < 4 \<Longrightarrow> (x mod 16 * 4 + y) mod 4 = y"
    and "y < 4 \<Longrightarrow> x mod 16 * 4 + y < 64" and "64 * (x div 64) + x mod 64 = x"
proof -
  show "4 * (x div 4) + (x mod 4 * 16 + y) div 16 = x" if "y < 16"
  proof -
    have "(x mod 4 * 16 + y) div 16 = x mod 4" using that by simp
    then show ?thesis by simp
  qed
  show "16 * (x div 16) + (x mod 16 * 4 + y) div 4 = x" if "y < 4"
  proof -
    have "(x mod 16 * 4 + y) div 4 = x mod 16" using that by simp
    then show ?thesis by simp
  qed
  show "y < 16 \<Longrightarrow> (x mod 4 * 16 + y) mod 16 = y" "y < 4 \<Longrightarrow> (x mod 16 * 4 + y) mod 4 = y" by simp_all
  show "64 * (x div 64) + x mod 64 = x" by simp
  have "x mod 16 < 16" by simp
  then show "y < 4 \<Longrightarrow> x mod 16 * 4 + y < 64" by linarith
qed

lemma group_bytes_sextets:
  "group_bytes (nat (v0 x)) (nat (v1 x y)) (nat (v2 y z)) (nat (v3 z)) = [x, y, z]"
  "group_bytes (nat (v0 x)) (nat (v1 x y)) (nat (v2 y 0)) 64 = [x, y]"
  "group_bytes (nat (v0 x)) (nat (v1 x 0)) 64 64 = [x]"
proof -
  have b: "unat d div 16 < 16" "unat d div 64 < 4" "unat d mod 64 < 64" for d :: "8 word"
    using unat_byte [of d] by (simp_all add: div_less_iff_less_mult)
  have c: "unat y mod 16 * 4 + unat z div 64 < 64" "unat y mod 16 * 4 + unat (0 :: 8 word) div 64 < 64"
    by (rule joined(5), rule b)+
  show "group_bytes (nat (v0 x)) (nat (v1 x y)) (nat (v2 y z)) (nat (v3 z)) = [x, y, z]"
  proof -
    have "unat y mod 16 * 4 + unat z div 64 \<noteq> 64" "unat z mod 64 \<noteq> 64"
      using c(1) b(3) [of z] by (simp_all only: nat_neq_iff simp_thms)
    then show ?thesis by (simp add: group_bytes_def Let_def nat_sextets joined b)
  qed
  show "group_bytes (nat (v0 x)) (nat (v1 x y)) (nat (v2 y 0)) 64 = [x, y]"
    using c(2) by (simp add: group_bytes_def Let_def nat_sextets joined b)
  show "group_bytes (nat (v0 x)) (nat (v1 x 0)) 64 64 = [x]"
    by (simp add: group_bytes_def Let_def nat_sextets joined b)
qed

section \<open>The encoded text\<close>

abbreviation encode64 :: "8 word list \<Rightarrow> string" where
  "encode64 s \<equiv> pad (base64_loop s [])"

lemma base64_loop_append: "base64_loop s buf = buf @ base64_loop s []"
proof (induction s arbitrary: buf rule: measure_induct_rule [of length])
  case (less s)
  show ?case
  proof (cases s)
    case (Cons d0 s1)
    show ?thesis
    proof (cases "s1 = [] \<or> tl s1 = []")
      case False
      let ?buf = "[letter (v0 d0), letter (v1 d0 (byte_or_0 s1)), letter (v2 (byte_or_0 s1) (byte_or_0 (tl s1))),
        letter (v3 (byte_or_0 (tl s1)))]"
      from False have *: "base64_loop s b = base64_loop (tl (tl s1)) (b @ ?buf)" for b
        by (simp add: Let_def Cons)
      have IH: "base64_loop (tl (tl s1)) b = b @ base64_loop (tl (tl s1)) []" for b
        by (rule less) (simp add: Cons)
      show ?thesis unfolding * by (subst (1 2) IH) simp
    qed (auto simp: Let_def Cons)
  qed simp
qed

lemma base64_loop_groups:
  "base64_loop [x] [] = [letter (v0 x), letter (v1 x 0)]"
  "base64_loop [x, y] [] = [letter (v0 x), letter (v1 x y), letter (v2 y 0)]"
  "base64_loop (x # y # z # s) [] =
    [letter (v0 x), letter (v1 x y), letter (v2 y z), letter (v3 z)] @ base64_loop s []"
  by (simp_all add: byte_or_0_def Let_def) (subst base64_loop_append, simp)

lemma pad_append: "length a mod 4 = 0 \<Longrightarrow> pad (a @ b) = a @ pad b"
proof (induction b rule: pad.induct)
  case (1 b)
  then have m: "length (a @ b) mod 4 = length b mod 4" by (metis add_0 length_append mod_add_left_eq)
  with 1 show ?case by (subst (1 2) pad.simps) (simp del: length_append)
qed

lemma pad_short:
  "pad [] = []"
  "pad [a, b] = [a, b, base64_alphabet ! 64, base64_alphabet ! 64]"
  "pad [a, b, c] = [a, b, c, base64_alphabet ! 64]"
  by (simp_all add: pad.simps)

lemma encode64_group:
  "encode64 (x # y # z # s) = [letter (v0 x), letter (v1 x y), letter (v2 y z), letter (v3 z)] @ encode64 s"
  unfolding base64_loop_groups by (rule pad_append) simp

fun by_threes :: "'b list \<Rightarrow> nat" where
  "by_threes (x # y # z # s) = Suc (by_threes s)"
| "by_threes s = 0"

lemma letter_in: "0 \<le> v \<Longrightarrow> v < 64 \<Longrightarrow> letter v \<in> set base64_alphabet"
  unfolding letter_def by (rule nth_mem) (simp add: alphabet(1))

lemma pad_letter: "base64_alphabet ! 64 \<in> set base64_alphabet" "index_of (base64_alphabet ! 64) = 64"
  using index_of_nth [of 64] alphabet(1) by (simp_all add: nth_mem)

lemmas letters = index_of_letter [OF sextet_bounds(1,2)] index_of_letter [OF sextet_bounds(3,4)]
  index_of_letter [OF sextet_bounds(5,6)] index_of_letter [OF sextet_bounds(7,8)]
  letter_in [OF sextet_bounds(1,2)] letter_in [OF sextet_bounds(3,4)]
  letter_in [OF sextet_bounds(5,6)] letter_in [OF sextet_bounds(7,8)]

lemma decode_encode: "decode64 (encode64 s) = s"
proof (induction s rule: by_threes.induct)
  case (1 x y z s)
  then show ?case unfolding encode64_group by (simp add: letters group_bytes_sextets)
next
  case "2_2"
  show ?case by (simp add: base64_loop_groups pad_short letters group_bytes_sextets pad_letter del: base64_loop.simps)
next
  case "2_3"
  show ?case by (simp add: base64_loop_groups pad_short letters group_bytes_sextets pad_letter del: base64_loop.simps)
qed (simp add: pad_short)

lemma gv_base64_size_step: "gv_base64_size (Suc (Suc (Suc n))) = 4 + gv_base64_size n"
proof -
  have "Suc (Suc (Suc n)) = n + 3" "(n + 3) div 3 = n div 3 + 1" "(n + 3) mod 3 = n mod 3" by simp_all
  then show ?thesis unfolding gv_base64_size_def div_up_def by (simp only: add_mult_distrib)
qed

lemma length_encode: "length (encode64 s) = gv_base64_size (length s)"
proof (induction s rule: by_threes.induct)
  case (1 x y z s)
  then show ?case unfolding encode64_group by (simp add: gv_base64_size_step)
qed (simp_all add: base64_loop_groups pad_short gv_base64_size_def div_up_def del: base64_loop.simps(2))

lemma set_encode: "set (encode64 s) \<subseteq> set base64_alphabet"
proof (induction s rule: by_threes.induct)
  case (1 x y z s)
  then show ?case unfolding encode64_group by (simp add: letters)
qed (simp_all add: base64_loop_groups pad_short letters pad_letter del: base64_loop.simps(2))

section \<open>Properties\<close>

text \<open>
  C32. The encoding fills the announced buffer exactly up to the terminator, uses only the
  letters of the alphabet, and decoding it gives the bytes back.
\<close>
theorem gv_base64_roundtrip:
  "\<exists>t. gv_base64 s = t @ [CHR 0x00] \<and> length t = gv_base64_size (length s) \<and> set t \<subseteq> set base64_alphabet \<and>
    decode64 t = s"
  unfolding gv_base64_def using length_encode set_encode decode_encode by blast

end
