(* ===== verification/Strview.thy ===== *)
theory Strview
  imports Ctype "HOL-Library.Char_ord" "HOL-Library.List_Lexorder" "HOL-Library.Sublist"
begin

text \<open>
  String views and the tokenizer, \<open>lib/util/strview.h\<close> and \<open>lib/util/tokenize.h\<close>. A view is the rest of
  the containing C string from its start, and an extent; the tokenizer keeps offsets into the string
  it scans.
\<close>

section \<open>Views\<close>

record strview =
  data :: string
  extent :: nat

definition strview :: "string \<Rightarrow> char \<Rightarrow> strview" where
  "strview referent terminator =
    (if terminator = CHR 0x00 then \<lparr>data = referent, extent = length referent\<rparr>
     else if terminator \<in> set referent then
       \<lparr>data = referent, extent = length (takeWhile (\<lambda>c. c \<noteq> terminator) referent)\<rparr>
     else \<lparr>data = referent, extent = length referent\<rparr>)"

definition strview_str :: "strview \<Rightarrow> string" where
  "strview_str source = take (extent source) (data source)"

text \<open>\<open>strncmp\<close> and \<open>strncasecmp\<close> of the C library, on strings that end with a NUL.\<close>

definition nul_hd :: "string \<Rightarrow> char" where
  "nul_hd s = (case s of [] \<Rightarrow> CHR 0x00 | c # _ \<Rightarrow> c)"

fun strncmp :: "nat \<Rightarrow> string \<Rightarrow> string \<Rightarrow> int" where
  "strncmp 0 a b = 0"
| "strncmp (Suc n) a b =
    (if nul_hd a \<noteq> nul_hd b then of_char (nul_hd a) - of_char (nul_hd b)
     else if a = [] then 0 else strncmp n (tl a) (tl b))"

definition lower :: "char \<Rightarrow> char" where
  "lower c = gv_tolower (schar c)"

definition strncasecmp :: "nat \<Rightarrow> string \<Rightarrow> string \<Rightarrow> int" where
  "strncasecmp n a b = strncmp n (map lower a) (map lower b)"

definition strview_case_eq :: "strview \<Rightarrow> strview \<Rightarrow> bool" where
  "strview_case_eq a b = (if extent a \<noteq> extent b then False else strncasecmp (extent a) (data a) (data b) = 0)"

definition strview_case_str_eq :: "strview \<Rightarrow> string \<Rightarrow> bool" where
  "strview_case_str_eq a b = strview_case_eq a (strview b (CHR 0x00))"

definition strview_cmp :: "strview \<Rightarrow> strview \<Rightarrow> int" where
  "strview_cmp a b =
    (let min_size = (if extent a > extent b then extent b else extent a);
         c = strncmp min_size (data a) (data b)
     in if c \<noteq> 0 then c else if extent a > extent b then 1 else if extent a < extent b then - 1 else 0)"

definition strview_eq :: "strview \<Rightarrow> strview \<Rightarrow> bool" where
  "strview_eq a b \<longleftrightarrow> strview_cmp a b = 0"

definition strview_str_eq :: "strview \<Rightarrow> string \<Rightarrow> bool" where
  "strview_str_eq a b = strview_eq a (strview b (CHR 0x00))"

text \<open>\<open>memchr\<close> over the bytes of the view from an offset: the offset of the first hit.\<close>

definition memchr_from :: "strview \<Rightarrow> nat \<Rightarrow> char \<Rightarrow> nat option" where
  "memchr_from h offset c =
    (let r = take (extent h - offset) (drop offset (data h))
     in if c \<in> set r then Some (offset + length (takeWhile (\<lambda>d. d \<noteq> c) r)) else None)"

lemma length_takeWhile_neq: "c \<in> set r \<Longrightarrow> length (takeWhile (\<lambda>d. d \<noteq> c) r) < length r"
  by (induction r) auto

lemma before_takeWhile: "j < length (takeWhile P r) \<Longrightarrow> P (r ! j)"
  by (metis nth_mem set_takeWhileD takeWhile_nth)

lemma memchr_from_bounds: "memchr_from h offset c = Some i \<Longrightarrow> offset \<le> i \<and> i < extent h"
proof -
  assume m: "memchr_from h offset c = Some i"
  let ?r = "take (extent h - offset) (drop offset (data h))"
  from m have c: "c \<in> set ?r" and i: "i = offset + length (takeWhile (\<lambda>d. d \<noteq> c) ?r)"
    by (auto simp: memchr_from_def Let_def split: if_splits)
  from c have "length (takeWhile (\<lambda>d. d \<noteq> c) ?r) < length ?r"
    by (rule length_takeWhile_neq)
  also have "length ?r \<le> extent h - offset" by simp
  finally show ?thesis using i by linarith
qed

function contains_loop :: "strview \<Rightarrow> string \<Rightarrow> nat \<Rightarrow> bool" where
  "contains_loop haystack needle offset =
    (if \<not> offset < extent haystack then False
     else
       (case memchr_from haystack offset (hd needle) of
          None \<Rightarrow> False
        | Some candidate \<Rightarrow>
            (if extent haystack - candidate < length needle then False
             else if startswith (drop candidate (data haystack)) needle then True
             else contains_loop haystack needle (candidate + 1))))"
  by pat_completeness auto
termination
  by (relation "measure (\<lambda>(h, n, offset). extent h - offset)") (auto dest: memchr_from_bounds)

declare contains_loop.simps [simp del]

definition strview_str_contains :: "strview \<Rightarrow> string \<Rightarrow> bool" where
  "strview_str_contains haystack needle = (if needle = '''' then True else contains_loop haystack needle 0)"

section \<open>The tokenizer\<close>

text \<open>
  \<open>next\<close> is \<open>None\<close> when its \<open>data\<close> is NULL. The assertions of \<open>tok\<close> that there are separators
  and that they are pairwise different are left out: the lemmas hold without them.
\<close>

record tok =
  start :: string
  separators :: string
  next_token :: "(nat \<times> nat) option"

definition strcspn :: "string \<Rightarrow> string \<Rightarrow> nat" where
  "strcspn s reject = length (takeWhile (\<lambda>c. c \<notin> set reject) s)"

definition strspn :: "string \<Rightarrow> string \<Rightarrow> nat" where
  "strspn s accept = length (takeWhile (\<lambda>c. c \<in> set accept) s)"

definition tok :: "string \<Rightarrow> string \<Rightarrow> tok" where
  "tok input seps = \<lparr>start = input, separators = seps, next_token = Some (0, strcspn input seps)\<rparr>"

definition tok_end :: "tok \<Rightarrow> bool" where
  "tok_end t \<longleftrightarrow> next_token t = None"

definition tok_get :: "tok \<Rightarrow> string option" where
  "tok_get t = map_option (\<lambda>(d, n). take n (drop d (start t))) (next_token t)"

definition tok_next :: "tok \<Rightarrow> tok" where
  "tok_next t =
    (case next_token t of
       None \<Rightarrow> t
     | Some (d, n) \<Rightarrow>
         (let st = d + n in
          if st = length (start t) then t\<lparr>next_token := None\<rparr>
          else
            (let st1 = st + strspn (drop st (start t)) (separators t)
             in t\<lparr>next_token := Some (st1, strcspn (drop st1 (start t)) (separators t))\<rparr>)))"

text \<open>The loop every user of the tokenizer writes, with the tokens it sees.\<close>

partial_function (option) tok_loop :: "tok \<Rightarrow> string list \<Rightarrow> string list option" where
  "tok_loop t acc =
    (if tok_end t then Some acc else tok_loop (tok_next t) (acc @ [the (tok_get t)]))"

section \<open>Comparison\<close>

definition view_ok :: "strview \<Rightarrow> bool" where
  "view_ok v \<longleftrightarrow> extent v \<le> length (data v)"

lemma of_char_less: "(of_char c :: int) < of_char d \<longleftrightarrow> c < d" "(of_char c :: int) = of_char d \<longleftrightarrow> c = d"
proof -
  have i: "(of_char x :: int) = int (of_char x)" for x :: char by (rule of_char_int)
  show "(of_char c :: int) < of_char d \<longleftrightarrow> c < d" by (simp add: i less_char_def)
  show "(of_char c :: int) = of_char d \<longleftrightarrow> c = d" by (simp add: i)
qed

lemma strncmp_take:
  "n \<le> length a \<Longrightarrow> n \<le> length b \<Longrightarrow>
    (strncmp n a b < 0 \<longleftrightarrow> take n a < take n b) \<and> (strncmp n a b = 0 \<longleftrightarrow> take n a = take n b)"
proof (induction n a b rule: strncmp.induct)
  case (2 n a b)
  then obtain c a' d b' where "a = c # a'" "b = d # b'" by (cases a; cases b; simp)
  with 2 show ?case using of_char_less [of c d] by (auto simp: nul_hd_def)
qed simp

lemma less_by_length:
  fixes x y :: string
  shows "x < y \<longleftrightarrow> take (min (length x) (length y)) x < take (min (length x) (length y)) y \<or>
    take (min (length x) (length y)) x = take (min (length x) (length y)) y \<and> length x < length y"
proof (induction x arbitrary: y)
  case (Cons c x)
  then show ?case by (cases y) auto
qed (auto simp: list_less_def neq_Nil_conv)

lemma sign_of_cmp:
  fixes c r :: int and m n :: nat
  assumes "y \<longleftrightarrow> eq \<and> m = n" and "x \<longleftrightarrow> lt \<or> eq \<and> m < n"
    and "r = (if c \<noteq> 0 then c else if m > n then 1 else if m < n then - 1 else 0)"
    and "c < 0 \<longleftrightarrow> lt" and "c = 0 \<longleftrightarrow> eq"
  shows "(r < 0 \<longleftrightarrow> x) \<and> (r = 0 \<longleftrightarrow> y)"
  using assms by auto

lemma strview_cmp_sign:
  assumes "view_ok a" and "view_ok b"
  shows "(strview_cmp a b < 0 \<longleftrightarrow> strview_str a < strview_str b) \<and> (strview_cmp a b = 0 \<longleftrightarrow> strview_str a = strview_str b)"
proof -
  let ?m = "min (extent a) (extent b)"
  have m: "(if extent a > extent b then extent b else extent a) = ?m" by simp
  have l: "length (strview_str a) = extent a" "length (strview_str b) = extent b"
    "take ?m (strview_str a) = take ?m (data a)" "take ?m (strview_str b) = take ?m (data b)"
    using assms by (simp_all add: strview_str_def view_ok_def min_def)
  have s: "(strncmp ?m (data a) (data b) < 0 \<longleftrightarrow> take ?m (data a) < take ?m (data b)) \<and>
    (strncmp ?m (data a) (data b) = 0 \<longleftrightarrow> take ?m (data a) = take ?m (data b))"
    using assms by (intro strncmp_take) (simp_all add: view_ok_def)
  have "strview_str a = strview_str b \<longleftrightarrow> take ?m (data a) = take ?m (data b) \<and> extent a = extent b"
    using l by (metis min.idem take_all order_refl)
  moreover have "strview_str a < strview_str b \<longleftrightarrow> take ?m (data a) < take ?m (data b) \<or>
      take ?m (data a) = take ?m (data b) \<and> extent a < extent b"
    using less_by_length [of "strview_str a" "strview_str b"] unfolding l .
  moreover have "strview_cmp a b = (if strncmp ?m (data a) (data b) \<noteq> 0 then strncmp ?m (data a) (data b)
      else if extent a > extent b then 1 else if extent a < extent b then - 1 else 0)"
    unfolding strview_cmp_def Let_def m ..
  ultimately show ?thesis using s by (elim conjE) (rule sign_of_cmp)
qed

section \<open>Search\<close>

lemma memchr_from_Some:
  assumes "view_ok h" and "memchr_from h offset c = Some i"
  shows "data h ! i = c \<and> (\<forall>j. offset \<le> j \<and> j < i \<longrightarrow> data h ! j \<noteq> c)"
proof -
  let ?r = "take (extent h - offset) (drop offset (data h))"
  from assms(2) have c: "c \<in> set ?r" and i: "i = offset + length (takeWhile (\<lambda>d. d \<noteq> c) ?r)"
    by (auto simp: memchr_from_def Let_def split: if_splits)
  let ?k = "length (takeWhile (\<lambda>d. d \<noteq> c) ?r)"
  have k: "?k < length ?r" using c by (rule length_takeWhile_neq)
  have v: "?r ! j = data h ! (offset + j)" if "j < length ?r" for j
  proof -
    have "offset \<le> length (data h)" "j < extent h - offset" using that by auto
    then show ?thesis by simp
  qed
  have "?r ! ?k = c" using nth_length_takeWhile [OF k] by blast
  with v [OF k] have "data h ! i = c" by (simp only: i)
  moreover have "data h ! j \<noteq> c" if "offset \<le> j" "j < i" for j
  proof -
    have j: "j - offset < ?k" "offset + (j - offset) = j" using that i by linarith+
    have "?r ! (j - offset) \<noteq> c" by (rule before_takeWhile [OF j(1)])
    with v [OF order.strict_trans [OF j(1) k]] show ?thesis by (simp only: j(2) not_False_eq_True)
  qed
  ultimately show ?thesis by blast
qed

lemma memchr_from_None:
  assumes "view_ok h" and "memchr_from h offset c = None" and "offset \<le> j" and "j < extent h"
  shows "data h ! j \<noteq> c"
proof -
  let ?r = "take (extent h - offset) (drop offset (data h))"
  have "c \<notin> set ?r" using assms(2) by (auto simp: memchr_from_def Let_def split: if_splits)
  moreover have "?r ! (j - offset) = data h ! j" "j - offset < length ?r"
    using assms by (simp_all add: view_ok_def)
  ultimately show ?thesis by (metis nth_mem)
qed

definition match_at :: "strview \<Rightarrow> string \<Rightarrow> nat \<Rightarrow> bool" where
  "match_at h n i \<longleftrightarrow> i + length n \<le> extent h \<and> take (length n) (drop i (data h)) = n"

lemma match_at_hd: "view_ok h \<Longrightarrow> n \<noteq> [] \<Longrightarrow> match_at h n i \<Longrightarrow> i < extent h \<and> data h ! i = hd n"
  by (cases n; cases "drop i (data h)") (auto simp: match_at_def view_ok_def simp flip: hd_drop_conv_nth)

lemma contains_loop_match:
  "view_ok h \<Longrightarrow> n \<noteq> [] \<Longrightarrow> contains_loop h n offset \<longleftrightarrow> (\<exists>i \<ge> offset. match_at h n i)"
proof (induction h n offset rule: contains_loop.induct)
  case (1 h n offset)
  note ok = 1(2,3)
  have hdm: "i < extent h \<and> data h ! i = hd n" if "match_at h n i" for i using match_at_hd ok that by blast
  show ?case
  proof (cases "offset < extent h")
    case False
    then show ?thesis using hdm by (subst contains_loop.simps) fastforce
  next
    case True
    show ?thesis
    proof (cases "memchr_from h offset (hd n)")
      case None
      then show ?thesis using True hdm memchr_from_None [OF ok(1) None] by (subst contains_loop.simps) auto
    next
      case (Some k)
      have k: "offset \<le> k" "k < extent h" using memchr_from_bounds [OF Some] by simp_all
      have first: "k \<le> i" if "match_at h n i" "offset \<le> i" for i
        using memchr_from_Some [OF ok(1) Some] hdm [OF that(1)] that(2) by (meson not_le)
      show ?thesis
      proof (cases "extent h - k < length n \<or> startswith (drop k (data h)) n")
        case True
        have "match_at h n k \<longleftrightarrow> \<not> extent h - k < length n \<and> startswith (drop k (data h)) n"
          using k by (auto simp: match_at_def startswith_def)
        moreover have "\<not> match_at h n i" if "extent h - k < length n" "offset \<le> i" for i
          using first [of i] that k by (auto simp: match_at_def)
        ultimately show ?thesis using True \<open>offset < extent h\<close> Some k(1)
          by (subst contains_loop.simps) auto
      next
        case False
        then have IH: "contains_loop h n (k + 1) \<longleftrightarrow> (\<exists>i \<ge> k + 1. match_at h n i)"
          using 1(1) [OF _ Some] True ok by simp
        have "\<not> match_at h n k" using False by (auto simp: match_at_def startswith_def)
        then have "(\<exists>i \<ge> offset. match_at h n i) \<longleftrightarrow> (\<exists>i \<ge> k + 1. match_at h n i)"
          using first k(1) by (metis Suc_eq_plus1 le_neq_implies_less not_less_eq_eq order_trans le_add1 Suc_leI)
        with IH False True Some show ?thesis by (subst contains_loop.simps) simp
      qed
    qed
  qed
qed

lemma match_sublist: "view_ok h \<Longrightarrow> (\<exists>i. match_at h n i) \<longleftrightarrow> sublist n (strview_str h)"
proof
  assume ok: "view_ok h" and "\<exists>i. match_at h n i"
  then obtain i where i: "i + length n \<le> extent h" "take (length n) (drop i (data h)) = n"
    by (auto simp: match_at_def)
  have "take (length n) (drop i (strview_str h)) = n"
    using i by (simp add: strview_str_def drop_take min_absorb1)
  then have "strview_str h = take i (strview_str h) @ n @ drop (length n) (drop i (strview_str h))"
    by (metis append_take_drop_id)
  then show "sublist n (strview_str h)" by (metis sublist_appendI)
next
  assume ok: "view_ok h" and "sublist n (strview_str h)"
  then obtain pre post where s: "strview_str h = pre @ n @ post" by (auto simp: sublist_def)
  have l: "length (strview_str h) = extent h" using ok by (simp add: strview_str_def view_ok_def)
  have "data h = pre @ n @ post @ drop (extent h) (data h)"
    using s by (metis append.assoc append_take_drop_id strview_str_def)
  then have "take (length n) (drop (length pre) (data h)) = n"
    by (metis append_eq_conv_conj)
  then have "match_at h n (length pre)" using l s by (simp add: match_at_def)
  then show "\<exists>i. match_at h n i" ..
qed

section \<open>Tokens\<close>

text \<open>The maximal runs without separators, with the empty ones a leading or trailing separator makes.\<close>

function fields :: "(char \<Rightarrow> bool) \<Rightarrow> string \<Rightarrow> string list" where
  "fields sep s =
    takeWhile (\<lambda>c. \<not> sep c) s #
      (case dropWhile (\<lambda>c. \<not> sep c) s of [] \<Rightarrow> [] | c # r \<Rightarrow> fields sep (dropWhile sep r))"
  by pat_completeness auto
termination
proof (relation "measure (\<lambda>(sep, s). length s)", goal_cases)
  case (2 sep s c r)
  then have "length (dropWhile (\<lambda>c. \<not> sep c) s) = Suc (length r)" by simp
  moreover have "length (dropWhile (\<lambda>c. \<not> sep c) s) \<le> length s" "length (dropWhile sep r) \<le> length r"
    by (rule length_dropWhile_le)+
  ultimately show ?case by simp
qed simp

declare fields.simps [simp del]

lemma tok_loop_fields:
  assumes "start t = s" and "separators t = seps" and "next_token t = Some (d, strcspn (drop d s) seps)"
    and "d \<le> length s"
  shows "tok_loop t acc = Some (acc @ fields (\<lambda>c. c \<in> set seps) (drop d s))"
  using assms
proof (induction "\<lambda>c. c \<in> set seps" "drop d s" arbitrary: d t acc rule: fields.induct)
  case 1
  let ?sep = "\<lambda>c. c \<in> set seps" and ?n = "strcspn (drop d s) seps"
  have g: "tok_get t = Some (takeWhile (\<lambda>c. \<not> ?sep c) (drop d s))"
    using 1(2-4) by (simp add: tok_get_def strcspn_def takeWhile_eq_take [symmetric])
  have r: "drop (d + ?n) s = dropWhile (\<lambda>c. \<not> ?sep c) (drop d s)"
    unfolding dropWhile_eq_drop strcspn_def by (simp add: add.commute)
  have e: "tok_loop t acc = tok_loop (tok_next t) (acc @ [takeWhile (\<lambda>c. \<not> ?sep c) (drop d s)])"
    using 1(4) g by (subst tok_loop.simps) (simp add: tok_end_def)
  show ?case
  proof (cases "dropWhile (\<lambda>c. \<not> ?sep c) (drop d s)")
    case Nil
    have "?n \<le> length (drop d s)" unfolding strcspn_def by (rule length_takeWhile_le)
    moreover have "drop (d + ?n) s = []" using Nil r by (simp only:)
    ultimately have "d + ?n = length s" using 1(5) by simp
    then have "tok_next t = t\<lparr>next_token := None\<rparr>" using 1(2,4) by (simp add: tok_next_def)
    then show ?thesis unfolding e by (subst tok_loop.simps) (simp add: tok_end_def fields.simps [of ?sep "drop d s"] Nil)
  next
    case (Cons c r')
    then have c: "?sep c" by (metis dropWhile_eq_Cons_conv)
    from Cons r have ne: "d + ?n < length s" by (metis drop_eq_Nil linorder_not_le list.distinct(1))
    let ?st = "d + ?n + strspn (drop (d + ?n) s) seps"
    have d': "drop ?st s = dropWhile ?sep r'"
    proof -
      have "drop ?st s = dropWhile ?sep (drop (d + ?n) s)"
        unfolding dropWhile_eq_drop strspn_def by (simp add: add.commute add.left_commute)
      then show ?thesis using Cons r c by simp
    qed
    have t': "start (tok_next t) = s" "separators (tok_next t) = seps"
      "next_token (tok_next t) = Some (?st, strcspn (drop ?st s) seps)"
      using 1(2-4) ne by (simp_all add: tok_next_def Let_def)
    have "strspn (drop (d + ?n) s) seps \<le> length (drop (d + ?n) s)"
      unfolding strspn_def by (rule length_takeWhile_le)
    then have "?st \<le> length s" using ne by simp
    from 1(1) [OF Cons d'[symmetric] t' this] show ?thesis
      unfolding e by (simp add: fields.simps [of ?sep "drop d s"] Cons d')
  qed
qed

lemma fields_concat: "concat (fields sep s) = filter (\<lambda>c. \<not> sep c) s"
proof (induction sep s rule: fields.induct)
  case (1 sep s)
  have s: "s = takeWhile (\<lambda>c. \<not> sep c) s @ dropWhile (\<lambda>c. \<not> sep c) s" by simp
  have f: "filter (\<lambda>c. \<not> sep c) (takeWhile (\<lambda>c. \<not> sep c) s) = takeWhile (\<lambda>c. \<not> sep c) s"
    by (rule filter_True) (auto dest: set_takeWhileD)
  show ?case
  proof (cases "dropWhile (\<lambda>c. \<not> sep c) s")
    case Nil
    then show ?thesis using f by (subst fields.simps) (metis append_Nil2 concat.simps list.simps(4) s)
  next
    case (Cons c r)
    then have c: "sep c" by (metis dropWhile_eq_Cons_conv)
    have "filter (\<lambda>c. \<not> sep c) (dropWhile sep r) = filter (\<lambda>c. \<not> sep c) r" by (induction r) auto
    then have "filter (\<lambda>c. \<not> sep c) s = takeWhile (\<lambda>c. \<not> sep c) s @ concat (fields sep (dropWhile sep r))"
      using 1 [OF Cons] c f by (subst s) (simp add: Cons del: takeWhile_dropWhile_id)
    then show ?thesis by (subst fields.simps) (simp add: Cons)
  qed
qed

lemma fields_ne: "fields sep s \<noteq> []"
  by (subst fields.simps) simp

lemma fields_inner: "[] \<notin> set (butlast (tl (fields sep s)))"
proof (induction sep s rule: fields.induct)
  case (1 sep s)
  show ?case
  proof (cases "dropWhile (\<lambda>c. \<not> sep c) s")
    case (Cons c r)
    let ?u = "dropWhile sep r"
    have f: "fields sep s = takeWhile (\<lambda>c. \<not> sep c) s # fields sep ?u" by (subst fields.simps) (simp add: Cons)
    show ?thesis
    proof (cases ?u)
      case Nil
      have "fields sep [] = [[]]" by (subst fields.simps) simp
      with Nil have "fields sep ?u = [[]]" by (simp only:)
      then show ?thesis by (simp add: f)
    next
      case (Cons c' u)
      then have "\<not> sep c'" by (metis dropWhile_eq_Cons_conv)
      then have "hd (fields sep ?u) \<noteq> []" using Cons by (subst fields.simps) simp
      then have "fields sep ?u = hd (fields sep ?u) # tl (fields sep ?u)" "hd (fields sep ?u) \<noteq> []"
        using fields_ne by simp_all
      with 1 [OF \<open>dropWhile (\<lambda>c. \<not> sep c) s = c # r\<close>] show ?thesis unfolding f
        by (metis butlast.simps(2) list.sel(3) list.set_intros set_ConsD empty_iff list.set(1))
    qed
  next
    case Nil
    have "fields sep s = [takeWhile (\<lambda>c. \<not> sep c) s]" unfolding fields.simps [of sep s] Nil by simp
    then show ?thesis by simp
  qed
qed

section \<open>Properties\<close>


text \<open>
  C34. The search loop finds a needle exactly when the viewed text contains it, wherever the text
  goes on behind the view.
\<close>
theorem strview_contains_sublist:
  assumes "extent h \<le> length (data h)"
  shows "strview_str_contains h n \<longleftrightarrow> sublist n (strview_str h)"
proof (cases "n = []")
  case False
  have ok: "view_ok h" using assms by (simp add: view_ok_def)
  show ?thesis using contains_loop_match [OF ok False, of 0] match_sublist [OF ok] False
    by (simp add: strview_str_contains_def)
qed (simp add: strview_str_contains_def)

theorem strview_contains_sublist_witness:
  "\<not> strview_str_contains (strview ''ab:ba'' CHR '':'') ''b:'' \<and> strview_str_contains (strview ''aab'' CHR 0x00) ''ab''"
proof -
  have "\<not> sublist ''b:'' ''ab''" "sublist ''ab'' ''aab''" by (simp_all add: sublist_code)
  then show ?thesis
    using strview_contains_sublist [of "strview ''ab:ba'' CHR '':''" "''b:''"]
      strview_contains_sublist [of "strview ''aab'' CHR 0x00" "''ab''"]
    by (simp add: strview_def strview_str_def)
qed

text \<open>Comparing views is the lexicographic order of the viewed texts, by unsigned bytes.\<close>
lemma strview_cmp_lexicographic:
  assumes "extent a \<le> length (data a)" and "extent b \<le> length (data b)"
  shows "(strview_cmp a b < 0 \<longleftrightarrow> strview_str a < strview_str b) \<and> (strview_eq a b \<longleftrightarrow> strview_str a = strview_str b)"
  using strview_cmp_sign assms unfolding strview_eq_def view_ok_def by blast

end
