(* ===== verification/Bitarray.thy ===== *)
theory Bitarray
  imports Prelude
begin

text \<open>
  Packed arrays of booleans, \<open>lib/util/bitarray.h\<close>. The storage, inline or on the heap, is the list
  of its bytes; which of the two members of the union is live depends on the size.
\<close>

section \<open>The code\<close>

unbundle bit_operations_syntax

definition BLOCK :: nat where "BLOCK = 8"

record bitarray =
  block :: "u8 list"
  base :: "u8 list"
  size_bits :: nat

definition byte_extent :: "nat \<Rightarrow> nat" where
  "byte_extent nbits = nbits div 8 + (if nbits mod 8 = 0 then 0 else 1)"

definition bitarray_new :: "nat \<Rightarrow> bitarray" where
  "bitarray_new nbits =
    (let ba = \<lparr>block = replicate BLOCK 0, base = [], size_bits = nbits\<rparr>
     in if nbits \<le> BLOCK * 8 then ba else ba\<lparr>base := replicate (byte_extent nbits) 0\<rparr>)"

text \<open>The failed assertions are \<open>None\<close>.\<close>

definition bitarray_get :: "bitarray \<Rightarrow> nat \<Rightarrow> bool option" where
  "bitarray_get self index =
    (if \<not> index < size_bits self then None
     else
       (let b = (if size_bits self \<le> BLOCK * 8 then block self else base self)
        in Some (drop_bit (index mod 8) (b ! (index div 8)) AND 1 \<noteq> 0)))"

definition set_bit_in :: "u8 list \<Rightarrow> nat \<Rightarrow> bool \<Rightarrow> u8 list" where
  "set_bit_in b index v =
    (if v then b[index div 8 := b ! (index div 8) OR push_bit (index mod 8) 1]
     else b[index div 8 := b ! (index div 8) AND NOT (push_bit (index mod 8) 1)])"

definition bitarray_set :: "bitarray \<Rightarrow> nat \<Rightarrow> bool \<Rightarrow> bitarray option" where
  "bitarray_set self index v =
    (if \<not> index < size_bits self then None
     else if size_bits self \<le> BLOCK * 8 then Some (self\<lparr>block := set_bit_in (block self) index v\<rparr>)
     else Some (self\<lparr>base := set_bit_in (base self) index v\<rparr>))"

definition zeroed :: "u8 list \<Rightarrow> nat \<Rightarrow> u8 list" where
  "zeroed b n = replicate n 0 @ drop n b"

definition bitarray_clear :: "bitarray \<Rightarrow> bitarray" where
  "bitarray_clear self =
    (if size_bits self \<le> BLOCK * 8 then self\<lparr>block := zeroed (block self) (byte_extent (size_bits self))\<rparr>
     else self\<lparr>base := zeroed (base self) (byte_extent (size_bits self))\<rparr>)"

definition bitarray_reset :: "bitarray \<Rightarrow> bitarray" where
  "bitarray_reset self = \<lparr>block = replicate BLOCK 0, base = [], size_bits = 0\<rparr>"

section \<open>The array of booleans\<close>

definition storage :: "bitarray \<Rightarrow> u8 list" where
  "storage a = (if size_bits a \<le> BLOCK * 8 then block a else base a)"

definition bitarray_ok :: "bitarray \<Rightarrow> bool" where
  "bitarray_ok a \<longleftrightarrow> length (block a) = BLOCK \<and> (size_bits a > BLOCK * 8 \<longrightarrow> length (base a) = byte_extent (size_bits a))"

definition bits :: "bitarray \<Rightarrow> bool list" where
  "bits a = map (\<lambda>i. bit (storage a ! (i div 8)) (i mod 8)) [0..<size_bits a]"

lemma byte_in_extent: "i < n \<Longrightarrow> i div 8 < byte_extent n"
proof -
  assume "i < n"
  then have "i div 8 \<le> n div 8" "n mod 8 = 0 \<Longrightarrow> i div 8 < n div 8" by (auto simp: div_le_mono)
  then show ?thesis by (cases "n mod 8 = 0") (simp_all add: byte_extent_def)
qed

lemma byte_extent_block: "n \<le> BLOCK * 8 \<Longrightarrow> byte_extent n \<le> BLOCK"
proof -
  assume "n \<le> BLOCK * 8"
  then have "n div 8 \<le> 8" "n mod 8 \<noteq> 0 \<Longrightarrow> n div 8 \<le> 7" unfolding BLOCK_def by presburger+
  then show ?thesis by (auto simp: byte_extent_def BLOCK_def)
qed

lemma storage_covers: "bitarray_ok a \<Longrightarrow> i < size_bits a \<Longrightarrow> i div 8 < length (storage a)"
  using byte_in_extent [of i "size_bits a"] byte_extent_block [of "size_bits a"]
  by (auto simp: storage_def bitarray_ok_def)

lemma low_bit: "(drop_bit k (w :: u8) AND 1 \<noteq> 0) = bit w k"
  by (simp add: and_one_eq bit_iff_odd_drop_bit odd_iff_mod_2_eq_one)

lemma get_bits: "bitarray_get a i = (if i < size_bits a then Some (bits a ! i) else None)"
  by (simp add: bitarray_get_def bits_def storage_def low_bit Let_def)

lemma div_mod_eq: "i div 8 = j div 8 \<and> i mod 8 = j mod (8 :: nat) \<longleftrightarrow> i = j"
  by (metis div_mult_mod_eq)

lemma bit_set_bit_in:
  assumes "i div 8 < length b"
  shows "bit (set_bit_in b i v ! (j div 8)) (j mod 8) = (if j = i then v else bit (b ! (j div 8)) (j mod 8))"
proof (cases "j div 8 = i div 8")
  case True
  have "j mod 8 = i mod 8 \<longleftrightarrow> j = i" using True div_mod_eq [of j i] by blast
  moreover have "j mod 8 < 8" by simp
  ultimately show ?thesis
    using assms by (auto simp: set_bit_in_def True bit_or_iff bit_and_iff bit_not_iff bit_exp_iff)
next
  case False
  then show ?thesis by (auto simp: set_bit_in_def)
qed

lemma set_bits:
  assumes "bitarray_ok a" and "i < size_bits a"
  shows "\<exists>a'. bitarray_set a i v = Some a' \<and> bitarray_ok a' \<and> bits a' = (bits a)[i := v]"
proof -
  let ?a = "if size_bits a \<le> BLOCK * 8 then a\<lparr>block := set_bit_in (block a) i v\<rparr>
    else a\<lparr>base := set_bit_in (base a) i v\<rparr>"
  have s: "bitarray_set a i v = Some ?a" using assms(2) by (simp add: bitarray_set_def)
  have l: "length (set_bit_in b i v) = length b" for b by (simp add: set_bit_in_def)
  have st: "storage ?a = set_bit_in (storage a) i v" "size_bits ?a = size_bits a" by (auto simp: storage_def)
  have "bitarray_ok ?a" using assms(1) l by (auto simp: bitarray_ok_def)
  moreover have "bits ?a = (bits a)[i := v]"
  proof (rule nth_equalityI)
    fix j assume "j < length (bits ?a)"
    then have "j < size_bits a" by (simp add: bits_def st)
    then show "bits ?a ! j = (bits a)[i := v] ! j"
      using bit_set_bit_in [OF storage_covers [OF assms], of v j] by (simp add: bits_def st nth_list_update)
  qed (simp add: bits_def st)
  ultimately show ?thesis using s by blast
qed

lemma byte_extent_mono: "byte_extent n = 0 \<longleftrightarrow> n = 0"
  by (auto simp: byte_extent_def)

lemma size_bits_new: "size_bits (bitarray_new n) = n"
  by (simp add: bitarray_new_def Let_def)

lemma new_bits: "bitarray_ok (bitarray_new n) \<and> bits (bitarray_new n) = replicate n False"
proof -
  have "replicate BLOCK (0 :: u8) ! (i div 8) = 0" if "i < n" "n \<le> BLOCK * 8" for i
    using byte_in_extent [OF that(1)] byte_extent_block [OF that(2)] by simp
  moreover have "replicate (byte_extent n) (0 :: u8) ! (i div 8) = 0" if "i < n" for i
    using byte_in_extent [OF that(1)] by simp
  ultimately show ?thesis
    by (auto simp: bitarray_new_def bitarray_ok_def bits_def storage_def Let_def intro!: nth_equalityI)
qed

lemma clear_bits:
  assumes "bitarray_ok a"
  shows "bitarray_ok (bitarray_clear a) \<and> bits (bitarray_clear a) = replicate (size_bits a) False"
proof -
  have "zeroed b (byte_extent (size_bits a)) ! (i div 8) = 0" if "i < size_bits a" for b i
    using byte_in_extent [OF that] by (simp add: zeroed_def nth_append)
  moreover have "length (zeroed b n) = length b" if "n \<le> length b" for b n using that by (simp add: zeroed_def)
  ultimately show ?thesis
    using assms byte_extent_block [of "size_bits a"]
    by (auto simp: bitarray_clear_def bitarray_ok_def bits_def storage_def intro!: nth_equalityI)
qed

section \<open>Properties\<close>

text \<open>
  C35. A bit array is an array of booleans, inline or on the heap: it starts all false, reading
  gives the element, writing changes that element and no other, and clearing makes all false.
\<close>
theorem bitarray_refines_list:
  assumes "bitarray_ok a" and "i < size_bits a"
  shows "bitarray_get a i = Some (bits a ! i) \<and>
    (\<exists>a'. bitarray_set a i v = Some a' \<and> bitarray_ok a' \<and> bits a' = (bits a)[i := v]) \<and>
    bitarray_ok (bitarray_clear a) \<and> bits (bitarray_clear a) = replicate (size_bits a) False \<and>
    bitarray_ok (bitarray_new n) \<and> bits (bitarray_new n) = replicate n False"
  using get_bits [of a i] set_bits [OF assms] clear_bits [OF assms(1)] new_bits [of n] assms(2) by simp

theorem bitarray_refines_list_witness:
  "\<exists>a'. bitarray_set (bitarray_new 70) 69 True = Some a' \<and> bits a' = replicate 69 False @ [True]"
proof -
  have "bitarray_ok (bitarray_new 70)" "69 < size_bits (bitarray_new 70)" "bits (bitarray_new 70) = replicate 70 False"
    using new_bits [of 70] by (simp_all add: size_bits_new)
  from bitarray_refines_list [OF this(1,2), of True 0] this(3) show ?thesis
    by (auto simp: numeral_eq_Suc)
qed

end
