(* ===== verification/Gv_Random.thy ===== *)
theory Gv_Random
  imports Prelude
begin

text \<open>
  Random numbers and permutations, \<open>lib/util/random.c\<close>. The C library's \<open>rand\<close> is a parameter: the
  stream of the values it returns, read from a position that the functions advance, and its bound
  \<open>RAND_MAX\<close>. The rejection loops may not end, and then have no value.
\<close>

section \<open>The code\<close>

partial_function (option) resample :: "(nat \<Rightarrow> nat) \<Rightarrow> nat \<Rightarrow> nat \<Rightarrow> (nat \<times> nat) option" where
  "resample rand discard_threshold n =
    (if rand n > discard_threshold then resample rand discard_threshold (n + 1) else Some (rand n, n + 1))"

definition small_threshold :: "nat \<Rightarrow> nat \<Rightarrow> nat" where
  "small_threshold RAND_MAX bound = RAND_MAX - (RAND_MAX + 1) mod bound"

definition random_small :: "nat \<Rightarrow> (nat \<Rightarrow> nat) \<Rightarrow> nat \<Rightarrow> nat \<Rightarrow> (nat \<times> nat) option" where
  "random_small RAND_MAX rand bound n =
    (if \<not> (0 < bound \<and> bound \<le> RAND_MAX) then None
     else map_option (\<lambda>(r, m). (r mod bound, m)) (resample rand (small_threshold RAND_MAX bound) n))"

definition UINT64_MAX :: nat where "UINT64_MAX = 2 ^ 64 - 1"

definition u64_threshold :: "nat \<Rightarrow> nat" where
  "u64_threshold bound = UINT64_MAX - (UINT64_MAX - bound + 1) mod bound"

text \<open>The bytes of a \<open>uint64_t\<close>, from the lowest address, on a little-endian machine.\<close>

primrec draw_bytes :: "nat \<Rightarrow> (nat \<Rightarrow> nat) \<Rightarrow> nat \<Rightarrow> nat \<Rightarrow> (nat \<times> nat) option" where
  "draw_bytes RAND_MAX rand 0 n = Some (0, n)"
| "draw_bytes RAND_MAX rand (Suc k) n =
    (case random_small RAND_MAX rand 256 n of
       None \<Rightarrow> None
     | Some (b, m) \<Rightarrow> map_option (\<lambda>(r, m'). (b + 256 * r, m')) (draw_bytes RAND_MAX rand k m))"

partial_function (option) u64_loop :: "nat \<Rightarrow> (nat \<Rightarrow> nat) \<Rightarrow> nat \<Rightarrow> nat \<Rightarrow> (nat \<times> nat) option" where
  "u64_loop RAND_MAX rand discard_threshold n =
    (case draw_bytes RAND_MAX rand 8 n of
       None \<Rightarrow> None
     | Some (r, m) \<Rightarrow> if r > discard_threshold then u64_loop RAND_MAX rand discard_threshold m else Some (r, m))"

definition gv_random_u64 :: "nat \<Rightarrow> (nat \<Rightarrow> nat) \<Rightarrow> nat \<Rightarrow> nat \<Rightarrow> (nat \<times> nat) option" where
  "gv_random_u64 RAND_MAX rand bound n =
    (if \<not> 0 < bound then None
     else map_option (\<lambda>(r, m). (r mod bound, m)) (u64_loop RAND_MAX rand (u64_threshold bound) n))"

definition gv_random :: "nat \<Rightarrow> (nat \<Rightarrow> nat) \<Rightarrow> nat \<Rightarrow> nat \<Rightarrow> (nat \<times> nat) option" where
  "gv_random RAND_MAX rand bound n =
    (if \<not> 0 < bound then None
     else if bound > RAND_MAX then gv_random_u64 RAND_MAX rand bound n
     else random_small RAND_MAX rand bound n)"

text \<open>\<open>SWAP(&p[i], &p[j])\<close>\<close>

definition swap :: "nat \<Rightarrow> nat \<Rightarrow> 'a list \<Rightarrow> 'a list" where
  "swap i j p = p[i := p ! j, j := p ! i]"

text \<open>The Fisher-Yates shuffle, from index \<open>i\<close> down to 1.\<close>

primrec shuffle :: "nat \<Rightarrow> (nat \<Rightarrow> nat) \<Rightarrow> nat \<Rightarrow> nat list \<Rightarrow> nat \<Rightarrow> (nat list \<times> nat) option" where
  "shuffle RAND_MAX rand 0 p n = Some (p, n)"
| "shuffle RAND_MAX rand (Suc i) p n =
    (case gv_random RAND_MAX rand (Suc i + 1) n of
       None \<Rightarrow> None
     | Some (j, m) \<Rightarrow> shuffle RAND_MAX rand i (swap (Suc i) j p) m)"

text \<open>\<open>gv_permutation\<close>: the inner \<open>None\<close> is NULL.\<close>

definition gv_permutation :: "nat \<Rightarrow> (nat \<Rightarrow> nat) \<Rightarrow> int \<Rightarrow> nat \<Rightarrow> (nat list option \<times> nat) option" where
  "gv_permutation RAND_MAX rand bound n =
    (if bound \<le> 0 then Some (None, n)
     else map_option (\<lambda>(p, m). (Some p, m)) (shuffle RAND_MAX rand (nat bound - 1) [0..<nat bound] n))"

section \<open>The thresholds\<close>

lemma card_residues:
  assumes "k < (b :: nat)"
  shows "card {r. r < m * b \<and> r mod b = k} = m"
proof -
  have "{r. r < m * b \<and> r mod b = k} = (\<lambda>q. q * b + k) ` {..<m}"
  proof (intro equalityI subsetI)
    fix r assume "r \<in> {r. r < m * b \<and> r mod b = k}"
    then have "r = r div b * b + k" "r div b < m" using less_mult_imp_div_less by auto
    then show "r \<in> (\<lambda>q. q * b + k) ` {..<m}" by blast
  next
    fix r assume "r \<in> (\<lambda>q. q * b + k) ` {..<m}"
    then obtain q where q: "r = q * b + k" "q < m" by auto
    have "q * b + k < Suc q * b" using assms by simp
    also have "\<dots> \<le> m * b" using q(2) by (intro mult_right_mono) simp_all
    finally show "r \<in> {r. r < m * b \<and> r mod b = k}" using q assms by simp
  qed
  moreover have "inj_on (\<lambda>q. q * b + k) {..<m}" using assms by (auto simp: inj_on_def)
  ultimately show ?thesis by (simp add: card_image)
qed

lemma complete_chunks:
  assumes "0 < b" and "b \<le> cap"
  shows "Suc (cap - (cap + 1) mod b) = (cap + 1) div b * b"
proof -
  have "(cap + 1) mod b \<le> cap" using mod_less_divisor [OF assms(1), of "cap + 1"] assms(2) by linarith
  moreover have "(cap + 1) div b * b + (cap + 1) mod b = cap + 1" by (rule div_mult_mod_eq)
  ultimately show ?thesis by linarith
qed

lemma u64_threshold_eq: "0 < b \<Longrightarrow> b \<le> UINT64_MAX \<Longrightarrow> u64_threshold b = UINT64_MAX - (UINT64_MAX + 1) mod b"
proof -
  assume b: "0 < b" "b \<le> UINT64_MAX"
  then have "(UINT64_MAX - b + 1 + b) mod b = (UINT64_MAX - b + 1) mod b" by (rule_tac mod_add_self2)
  moreover have "UINT64_MAX - b + 1 + b = UINT64_MAX + 1" using b(2) by simp
  ultimately show ?thesis by (simp add: u64_threshold_def)
qed

lemma threshold_half:
  fixes b cap :: nat
  assumes "0 < b" and "b \<le> cap"
  shows "cap \<le> 2 * (cap - (cap + 1) mod b)"
proof -
  let ?r = "(cap + 1) mod b"
  have "?r < b" by (rule mod_less_divisor [OF assms(1)])
  moreover have "(cap + 1) div b * b + ?r = cap + 1" by (rule div_mult_mod_eq)
  moreover have "1 \<le> (cap + 1) div b" using assms by (simp add: Suc_le_eq div_greater_zero_iff)
  then have "b \<le> (cap + 1) div b * b" by simp
  ultimately show ?thesis by linarith
qed

section \<open>The loops\<close>

lemma resample_ends: "rand (n + k) \<le> t \<Longrightarrow> \<exists>r m. resample rand t n = Some (r, m)"
proof (induction k arbitrary: n)
  case 0
  then show ?case by (subst resample.simps) simp
next
  case (Suc k)
  from Suc.prems have "rand (Suc n + k) \<le> t" by simp
  from Suc.IH [OF this] show ?case by (subst resample.simps) simp
qed

lemma random_small_bound: "random_small M rand bound n = Some (r, m) \<Longrightarrow> r < bound"
  by (auto simp: random_small_def split: if_splits)

lemma gv_random_bound: "gv_random M rand bound n = Some (r, m) \<Longrightarrow> r < bound"
  by (auto simp: gv_random_def gv_random_u64_def dest!: random_small_bound split: if_splits)

lemma mset_swap: "i < length p \<Longrightarrow> j < length p \<Longrightarrow> mset (swap i j p) = mset p"
  by (simp add: swap_def mset_swap)

lemma shuffle_mset: "shuffle M rand i p n = Some (q, m) \<Longrightarrow> i < length p \<Longrightarrow> mset q = mset p"
proof (induction i arbitrary: p n)
  case (Suc i)
  from Suc.prems(1) obtain j n' where j: "gv_random M rand (Suc i + 1) n = Some (j, n')"
    "shuffle M rand i (swap (Suc i) j p) n' = Some (q, m)" by (auto split: option.splits)
  have "j < Suc i + 1" using gv_random_bound [OF j(1)] .
  then have "mset (swap (Suc i) j p) = mset p" using Suc.prems(2) by (intro mset_swap) simp_all
  moreover have "length (swap (Suc i) j p) = length p" by (simp add: swap_def)
  ultimately show ?case using Suc.IH [OF j(2)] Suc.prems(2) by simp
qed simp

definition fair :: "nat \<Rightarrow> (nat \<Rightarrow> nat) \<Rightarrow> bool" where
  "fair M rand \<longleftrightarrow> (\<forall>n. \<exists>k. 2 * rand (n + k) \<le> M)"

lemma random_small_returns:
  assumes "fair M rand" and "0 < bound" and "bound \<le> M"
  shows "\<exists>r m. random_small M rand bound n = Some (r, m)"
proof -
  from assms(1) obtain k where k: "2 * rand (n + k) \<le> M" by (auto simp: fair_def)
  have "rand (n + k) \<le> small_threshold M bound"
    using threshold_half [OF assms(2,3)] k by (simp add: small_threshold_def)
  from resample_ends [where rand = rand and n = n and k = k, OF this] show ?thesis
    using assms(2,3) by (auto simp: random_small_def)
qed

lemma shuffle_returns:
  assumes "fair M rand" and "i < M"
  shows "\<exists>q m. shuffle M rand i p n = Some (q, m)"
  using assms(2)
proof (induction i arbitrary: p n)
  case (Suc i)
  have "\<not> Suc i + 1 > M" using Suc.prems by simp
  moreover have "0 < Suc i + 1" "Suc i + 1 \<le> M" "i < M" using Suc.prems by simp_all
  moreover from random_small_returns [OF assms(1) this(1,2)]
  obtain j m where "random_small M rand (Suc i + 1) n = Some (j, m)" by blast
  ultimately show ?case using Suc.IH [of "swap (Suc i) j p" m] by (simp add: gv_random_def del: add_Suc)
qed simp

section \<open>Properties\<close>

text \<open>
  C36. The rejection thresholds make the results uniform: among the raw values that are kept,
  every residue has the same number of preimages, in both generators, and at least half of the
  raw values are kept.
\<close>
theorem random_uniform:
  assumes "0 < bound" and "bound \<le> M" and "M \<le> UINT64_MAX" and "k < bound"
  shows "card {r. r \<le> small_threshold M bound \<and> r mod bound = k} = (M + 1) div bound \<and>
    card {r. r \<le> u64_threshold bound \<and> r mod bound = k} = (UINT64_MAX + 1) div bound \<and>
    M \<le> 2 * small_threshold M bound \<and> UINT64_MAX \<le> 2 * u64_threshold bound"
proof -
  have b: "bound \<le> UINT64_MAX" using assms by simp
  note t = complete_chunks [OF assms(1,2)] complete_chunks [OF assms(1) b]
  have "{r. r \<le> x \<and> r mod bound = k} = {r. r < Suc x \<and> r mod bound = k}" for x by auto
  then show ?thesis
    using card_residues [OF assms(4)] t threshold_half [OF assms(1,2)] threshold_half [OF assms(1) b]
    by (simp only: small_threshold_def u64_threshold_eq [OF assms(1) b] simp_thms)
qed

theorem random_uniform_witness:
  "card {r. r \<le> small_threshold 7 3 \<and> r mod 3 = 1} = 2 \<and> small_threshold 7 3 = 5"
  using random_uniform [of 3 7 1] by (simp add: UINT64_MAX_def small_threshold_def)

text \<open>
  \<open>gv_permutation\<close> returns, when the source keeps producing values in its lower half, and what
  it returns is a permutation of the indices.
\<close>
lemma gv_permutation_permutes:
  assumes "fair M rand" and "0 < bound" and "bound \<le> int M"
  shows "\<exists>p m. gv_permutation M rand bound n = Some (Some p, m) \<and> mset p = mset [0..<nat bound]"
proof -
  have "nat bound - 1 < M" using assms(2,3) by linarith
  from shuffle_returns [OF assms(1) this] obtain q m where
    q: "shuffle M rand (nat bound - 1) [0..<nat bound] n = Some (q, m)" by blast
  have "mset q = mset [0..<nat bound]" by (rule shuffle_mset [OF q]) (use assms(2) in simp)
  then show ?thesis using q assms(2) by (auto simp: gv_permutation_def)
qed

end
