(* ===== verification/Arena.thy ===== *)
theory Arena
  imports Prelude
begin

text \<open>
  The region allocator, \<open>lib/util/arena.c\<close>. A chunk is the address of its header and the number of
  bytes behind it; \<open>source\<close> lists the chunks from the current one along \<open>previous\<close>. The system
  allocator is a parameter: given the chunks that are live and a size it returns the address of a new
  block. Memory is a function from addresses to bytes.
\<close>

section \<open>The code\<close>

unbundle bit_operations_syntax

definition HEADER :: nat where "HEADER = 8"

type_synonym chunk = "nat \<times> nat"

record arena =
  source :: "chunk list"
  remaining :: nat

definition arena_zero :: arena where
  "arena_zero = \<lparr>source = [], remaining = 0\<rparr>"

function shift_down :: "nat \<Rightarrow> nat" where
  "shift_down v = (if v = 0 \<or> v AND 1 = 1 then v else shift_down (drop_bit 1 v))"
  by pat_completeness auto
termination by (relation "measure id") (auto simp: drop_bit_eq_div)

declare shift_down.simps [simp del]

definition is_power_of_2 :: "nat \<Rightarrow> bool" where
  "is_power_of_2 v = (if v = 0 then False else shift_down v = 1)"

definition DEFAULT_CHUNK :: nat where
  "DEFAULT_CHUNK = 16384 - HEADER"

definition more_core :: "(chunk list \<Rightarrow> nat \<Rightarrow> nat) \<Rightarrow> arena \<Rightarrow> nat \<Rightarrow> nat \<Rightarrow> arena" where
  "more_core sys arena req_alignment req_size =
    (let wanted = (req_size + req_alignment - 1) mod 2 ^ 64;
         chunk_size = (if DEFAULT_CHUNK < wanted then wanted else DEFAULT_CHUNK);
         more = sys (source arena) (HEADER + chunk_size)
     in arena\<lparr>source := (more, chunk_size) # source arena, remaining := chunk_size\<rparr>)"

text \<open>\<open>(limit - size) & ~(alignment - 1)\<close> on \<open>uintptr_t\<close>.\<close>

definition align_down :: "nat \<Rightarrow> nat \<Rightarrow> nat" where
  "align_down p alignment = unat ((of_nat p :: u64) AND NOT (of_nat alignment - 1))"

text \<open>\<open>alloc\<close>: the outer \<open>None\<close> is a failed assertion, the inner one NULL.\<close>

definition alloc :: "arena \<Rightarrow> nat \<Rightarrow> nat \<Rightarrow> (nat option \<times> arena) option" where
  "alloc arena alignment n =
    (if alignment = 0 \<or> \<not> is_power_of_2 alignment then None
     else if remaining arena < n then Some (None, arena)
     else
       (let base = (case source arena of [] \<Rightarrow> 0 | (a, _) # _ \<Rightarrow> a) + HEADER;
            limit = base + remaining arena;
            start = align_down (limit - n) alignment
        in if start < base then Some (None, arena)
           else Some (Some start, arena\<lparr>remaining := remaining arena - (limit - start)\<rparr>)))"

definition gv_arena_alloc :: "(chunk list \<Rightarrow> nat \<Rightarrow> nat) \<Rightarrow> arena \<Rightarrow> nat \<Rightarrow> nat \<Rightarrow> (nat option \<times> arena) option" where
  "gv_arena_alloc sys arena alignment n =
    (if n = 0 then Some (None, arena)
     else
       (case alloc arena alignment n of
          None \<Rightarrow> None
        | Some (Some p, arena1) \<Rightarrow> Some (Some p, arena1)
        | Some (None, arena1) \<Rightarrow> alloc (more_core sys arena1 alignment n) alignment n))"

text \<open>\<open>memcpy\<close> of a string and its terminator into memory.\<close>

definition store_string :: "(nat \<Rightarrow> char) \<Rightarrow> nat \<Rightarrow> string \<Rightarrow> nat \<Rightarrow> char" where
  "store_string mem p s = (\<lambda>a. if p \<le> a \<and> a < p + length s + 1 then (s @ [CHR 0x00]) ! (a - p) else mem a)"

definition gv_arena_strdup :: "(chunk list \<Rightarrow> nat \<Rightarrow> nat) \<Rightarrow> arena \<Rightarrow> (nat \<Rightarrow> char) \<Rightarrow> string \<Rightarrow>
    (nat \<times> arena \<times> (nat \<Rightarrow> char)) option" where
  "gv_arena_strdup sys arena mem s =
    (case gv_arena_alloc sys arena 1 (length s + 1) of
       Some (Some p, arena1) \<Rightarrow> Some (p, arena1, store_string mem p s)
     | _ \<Rightarrow> None)"

definition gv_arena_free :: "arena \<Rightarrow> nat option \<Rightarrow> nat \<Rightarrow> arena" where
  "gv_arena_free arena p n = arena"

text \<open>\<open>gv_arena_reset\<close> with the blocks it frees, in order.\<close>

primrec reset_loop :: "chunk list \<Rightarrow> nat list" where
  "reset_loop [] = []"
| "reset_loop (c # cs) = fst c # reset_loop cs"

definition gv_arena_reset :: "arena \<Rightarrow> nat list \<times> arena" where
  "gv_arena_reset arena = (reset_loop (source arena), arena_zero)"

section \<open>Alignment\<close>

lemma shift_down_pow2: "0 < v \<Longrightarrow> odd (shift_down v) \<and> (\<exists>k. v = 2 ^ k * shift_down v)"
proof (induction v rule: shift_down.induct)
  case (1 v)
  have o: "v AND 1 = 1 \<longleftrightarrow> odd v" by (simp add: and_one_eq odd_iff_mod_2_eq_one)
  show ?case
  proof (cases "odd v")
    case True
    with o have "shift_down v = v" by (subst shift_down.simps) simp
    moreover have "v = 2 ^ 0 * v" by simp
    ultimately show ?thesis using True by metis
  next
    case False
    have d: "drop_bit 1 v = v div 2" by (simp add: drop_bit_eq_div)
    with False o 1(2) have s: "shift_down v = shift_down (v div 2)" by (subst shift_down.simps) simp
    have "\<not> (v = 0 \<or> v AND 1 = 1)" using o False 1(2) by simp
    from 1(1) [OF this] have IH: "0 < v div 2 \<Longrightarrow> odd (shift_down (v div 2)) \<and>
        (\<exists>k. v div 2 = 2 ^ k * shift_down (v div 2))" unfolding d .
    have "0 < v div 2" using False 1(2) by (auto elim!: evenE)
    from IH [OF this] obtain k where k: "odd (shift_down (v div 2))" "v div 2 = 2 ^ k * shift_down (v div 2)"
      by blast
    have "v = 2 * (v div 2)" using False by simp
    also have "\<dots> = 2 * (2 ^ k * shift_down (v div 2))" using k(2) by (rule arg_cong)
    also have "\<dots> = 2 ^ Suc k * shift_down v" by (simp add: s)
    finally show ?thesis using k(1) s by metis
  qed
qed

lemma is_power_of_2_iff: "is_power_of_2 v \<longleftrightarrow> (\<exists>k. v = 2 ^ k)"
proof
  assume v: "is_power_of_2 v"
  then have "0 < v" "shift_down v = 1" by (auto simp: is_power_of_2_def split: if_splits)
  with shift_down_pow2 [of v] show "\<exists>k. v = 2 ^ k" by auto
next
  assume "\<exists>k. v = 2 ^ k"
  then obtain k where v: "v = 2 ^ k" ..
  define d where "d = shift_down (2 ^ k)"
  obtain j where j: "2 ^ k = 2 ^ j * d" "odd d"
    using shift_down_pow2 [of "2 ^ k"] by (auto simp: d_def)
  from j(1) have "d dvd 2 ^ k" by simp
  moreover have "coprime d (2 ^ k)" using j(2) by simp
  ultimately have "is_unit d" using coprime_common_divisor [of d "2 ^ k" d] by simp
  then show "is_power_of_2 v" by (simp add: is_power_of_2_def v d_def)
qed

lemma and_not_mask:
  fixes w :: u64
  shows "unat (w AND NOT (mask k)) = unat w - unat w mod 2 ^ k"
proof -
  have "(w AND NOT (mask k)) + (w AND mask k) = (w AND NOT (mask k)) OR (w AND mask k)"
    by (rule disjunctive_add) (auto simp: bit_and_iff bit_not_iff)
  also have "\<dots> = w" by (rule bit_eqI) (auto simp: bit_or_iff bit_and_iff bit_not_iff)
  finally have s: "(w AND NOT (mask k)) + take_bit k w = w" by (simp add: take_bit_eq_mask)
  have t: "unat (take_bit k w) = unat w mod 2 ^ k" by (simp only: unsigned_take_bit_eq take_bit_nat_def)
  have "take_bit k w \<le> w" by (simp add: word_le_nat_alt t)
  then have "unat (w - take_bit k w) = unat w - unat w mod 2 ^ k" by (simp add: unat_sub t)
  moreover have "w - take_bit k w = w AND NOT (mask k)" using s by (metis add_diff_cancel_right')
  ultimately show ?thesis by simp
qed

lemma align_down_eq:
  assumes "p < 2 ^ 64" and "k < 64"
  shows "align_down p (2 ^ k) = p - p mod 2 ^ k"
proof -
  have "(of_nat (2 ^ k) - 1 :: u64) = mask k" by (simp add: mask_eq_exp_minus_1)
  moreover have "unat (of_nat p :: u64) = p" using assms(1) by (simp add: unat_of_nat)
  ultimately show ?thesis using and_not_mask [of "of_nat p" k] by (simp add: align_down_def)
qed

section \<open>The invariant\<close>

definition apart :: "nat \<times> nat \<Rightarrow> nat \<times> nat \<Rightarrow> bool" where
  "apart r q \<longleftrightarrow> fst r + snd r \<le> fst q \<or> fst q + snd q \<le> fst r"

definition block_of :: "chunk \<Rightarrow> nat \<times> nat" where
  "block_of c = (fst c, HEADER + snd c)"

definition inside :: "nat \<times> nat \<Rightarrow> chunk \<Rightarrow> bool" where
  "inside r c \<longleftrightarrow> fst c + HEADER \<le> fst r \<and> fst r + snd r \<le> fst c + HEADER + snd c"

text \<open>
  The regions handed out so far lie in the chunks, apart from each other, and those in the current
  chunk above the part that remains.
\<close>

definition region_ok :: "arena \<Rightarrow> nat \<times> nat \<Rightarrow> bool" where
  "region_ok a r \<longleftrightarrow>
     (\<exists>c cs. source a = c # cs \<and> (inside r c \<and> fst c + HEADER + remaining a \<le> fst r \<or> (\<exists>d\<in>set cs. inside r d)))"

definition arena_ok :: "arena \<Rightarrow> (nat \<times> nat) list \<Rightarrow> bool" where
  "arena_ok a R \<longleftrightarrow> sorted_wrt (\<lambda>c d. apart (block_of c) (block_of d)) (source a) \<and>
     (\<forall>c\<in>set (source a). fst c + HEADER + snd c < 2 ^ 64) \<and>
     (case source a of [] \<Rightarrow> remaining a = 0 | c # _ \<Rightarrow> remaining a \<le> snd c) \<and>
     sorted_wrt apart R \<and> (\<forall>r\<in>set R. region_ok a r)"

lemma arena_zero_ok: "arena_ok arena_zero []"
  by (simp add: arena_ok_def arena_zero_def)

lemma inside_apart: "inside r c \<Longrightarrow> inside q d \<Longrightarrow> apart (block_of c) (block_of d) \<Longrightarrow> apart r q"
  by (auto simp: inside_def apart_def block_of_def)

lemma apart_sym: "apart r q = apart q r"
  by (auto simp: apart_def)

lemma alloc_correct:
  assumes ok: "arena_ok a R" and n: "0 < n" and k: "k < 64"
    and r: "alloc a (2 ^ k) n = Some (res, a')"
  shows "case res of None \<Rightarrow> a' = a
    | Some p \<Rightarrow> p mod 2 ^ k = 0 \<and> arena_ok a' ((p, n) # R)"
proof (cases "res")
  case None
  with r show ?thesis by (auto simp: alloc_def Let_def split: if_splits)
next
  case (Some p)
  with r have rem: "n \<le> remaining a" by (auto simp: alloc_def Let_def split: if_splits)
  with ok n obtain c cs where src: "source a = c # cs" by (cases "source a") (auto simp: arena_ok_def)
  let ?base = "fst c + HEADER"
  let ?limit = "?base + remaining a"
  have cap: "remaining a \<le> snd c" "?base + snd c < 2 ^ 64" using ok src by (auto simp: arena_ok_def)
  have down: "align_down (?limit - n) (2 ^ k) = (?limit - n) - (?limit - n) mod 2 ^ k"
    by (rule align_down_eq) (use cap k in auto)
  have bc: "(case c of (x, _) \<Rightarrow> x) = fst c" by (simp add: split_beta)
  have p: "p = (?limit - n) - (?limit - n) mod 2 ^ k" "?base \<le> p"
    "a' = a\<lparr>remaining := remaining a - (?limit - p)\<rparr>"
    using r Some unfolding alloc_def Let_def src list.case bc down by (auto split: if_splits)
  have top: "p + n \<le> ?limit" using rem p(1) by linarith
  then have rem': "remaining a' = p - ?base" "source a' = source a" using p(2,3) by auto
  have "p = (?limit - n) div 2 ^ k * 2 ^ k" unfolding p(1) by (simp add: minus_mod_eq_div_mult)
  then have "p mod 2 ^ k = 0" by simp
  moreover have "arena_ok a' ((p, n) # R)"
  proof -
    have ins: "inside (p, n) c" using p(2) top cap(1) by (simp add: inside_def)
    have "apart (p, n) q" if q: "q \<in> set R" for q
    proof -
      from ok q have "region_ok a q" by (simp add: arena_ok_def)
      then consider "?limit \<le> fst q" | d where "d \<in> set cs" "inside q d" by (auto simp: region_ok_def src)
      then show ?thesis
      proof cases
        case 1
        with top show ?thesis by (simp add: apart_def)
      next
        case 2
        then have "apart (block_of c) (block_of d)" using ok by (simp add: arena_ok_def src)
        with ins 2 show ?thesis by (blast intro: inside_apart)
      qed
    qed
    moreover have "region_ok a' (p, n)" using ins p(2) rem' by (simp add: region_ok_def src)
    moreover have "region_ok a' q" if "region_ok a q" for q
      using that p(2) top rem' by (auto simp: region_ok_def src)
    moreover have "remaining a' \<le> snd c" using rem'(1) top cap(1) p(2) by linarith
    ultimately show ?thesis using ok by (simp add: arena_ok_def rem'(2) src)
  qed
  ultimately show ?thesis by (simp add: Some)
qed

text \<open>The chunk a request leads to, and what the system has to do for it.\<close>

definition chunk_for :: "nat \<Rightarrow> nat \<Rightarrow> nat" where
  "chunk_for alignment n = max DEFAULT_CHUNK (n + alignment - 1)"

definition serves_chunk :: "(chunk list \<Rightarrow> nat \<Rightarrow> nat) \<Rightarrow> chunk list \<Rightarrow> nat \<Rightarrow> bool" where
  "serves_chunk sys cs size' \<longleftrightarrow>
     (let b = (sys cs (HEADER + size'), HEADER + size')
      in fst b + snd b < 2 ^ 64 \<and> (\<forall>c\<in>set cs. apart b (block_of c)))"

lemma more_core_correct:
  assumes ok: "arena_ok a R" and sys: "serves_chunk sys (source a) (chunk_for al n)"
    and small: "n + al < 2 ^ 64" "0 < al"
  shows "arena_ok (more_core sys a al n) R" and "remaining (more_core sys a al n) = chunk_for al n"
    and "\<exists>p. source (more_core sys a al n) = (p, chunk_for al n) # source a"
proof -
  have "(n + al - 1) mod 2 ^ 64 = n + al - 1" using small by simp
  then have m: "more_core sys a al n =
      a\<lparr>source := (sys (source a) (HEADER + chunk_for al n), chunk_for al n) # source a, remaining := chunk_for al n\<rparr>"
    by (simp add: more_core_def Let_def chunk_for_def max_def)
  show "remaining (more_core sys a al n) = chunk_for al n"
    and "\<exists>p. source (more_core sys a al n) = (p, chunk_for al n) # source a" by (simp_all add: m)
  have "region_ok (more_core sys a al n) r" if "region_ok a r" for r
    using that by (auto simp: region_ok_def m)
  with ok sys show "arena_ok (more_core sys a al n) R"
    by (auto simp: arena_ok_def m serves_chunk_def Let_def block_of_def)
qed

lemma alloc_fresh_chunk:
  assumes "source a = (c, chunk_for (2 ^ k) n) # cs" and "remaining a = chunk_for (2 ^ k) n"
    and "c + HEADER + chunk_for (2 ^ k) n < 2 ^ 64" and "k < 64"
  shows "\<exists>p a'. alloc a (2 ^ k) n = Some (Some p, a')"
proof -
  let ?base = "c + HEADER"
  let ?q = "?base + chunk_for (2 ^ k) n - n"
  have "n + 2 ^ k - 1 \<le> chunk_for (2 ^ k) n" by (simp add: chunk_for_def)
  moreover have "(0::nat) < 2 ^ k" by simp
  ultimately have q: "?base + (2 ^ k - 1) \<le> ?q" "n \<le> chunk_for (2 ^ k) n" by linarith+
  have "?q mod 2 ^ k < 2 ^ k" by simp
  with q(1) have "?base \<le> ?q - ?q mod 2 ^ k" by linarith
  moreover have "align_down ?q (2 ^ k) = ?q - ?q mod 2 ^ k" by (rule align_down_eq) (use assms in auto)
  ultimately show ?thesis
    using q(2) assms(1,2) is_power_of_2_iff by (auto simp: alloc_def Let_def)
qed

lemma gv_arena_alloc_correct:
  assumes ok: "arena_ok a R" and n: "0 < n" "n + 2 ^ k < 2 ^ 64"
    and sys: "serves_chunk sys (source a) (chunk_for (2 ^ k) n)"
  shows "\<exists>p a'. gv_arena_alloc sys a (2 ^ k) n = Some (Some p, a') \<and> p mod 2 ^ k = 0 \<and> arena_ok a' ((p, n) # R)"
proof -
  have "(2 :: nat) ^ k < 2 ^ 64" using n by linarith
  then have k: "k < 64" using power_less_imp_less_exp [of 2 k 64] by simp
  have pow: "is_power_of_2 (2 ^ k)" using is_power_of_2_iff by blast
  then have "alloc a (2 ^ k) n \<noteq> None" by (simp add: alloc_def Let_def)
  then obtain r a1 where r: "alloc a (2 ^ k) n = Some (r, a1)" by auto
  show ?thesis
  proof (cases r)
    case (Some p)
    with alloc_correct [OF ok n(1) k r] r n(1) show ?thesis by (simp add: gv_arena_alloc_def)
  next
    case None
    with alloc_correct [OF ok n(1) k r] have a1: "a1 = a" by simp
    let ?m = "more_core sys a (2 ^ k) n"
    have two: "(0 :: nat) < 2 ^ k" by simp
    note m = more_core_correct [OF ok sys n(2) two]
    from m(3) obtain c where c: "source ?m = (c, chunk_for (2 ^ k) n) # source a" by blast
    have "c + HEADER + chunk_for (2 ^ k) n < 2 ^ 64" using m(1) c by (simp add: arena_ok_def)
    from alloc_fresh_chunk [OF c m(2) this k] obtain p a' where p: "alloc ?m (2 ^ k) n = Some (Some p, a')" by blast
    with alloc_correct [OF m(1) n(1) k p] r None a1 n(1) show ?thesis by (simp add: gv_arena_alloc_def)
  qed
qed

section \<open>Properties\<close>

text \<open>
  C37. Allocation from an arena always succeeds when the system can provide a new chunk: the new
  region is aligned as requested, lies inside a chunk and overlaps no region handed out before,
  and the arena is again in this state.
\<close>
theorem arena_alloc_separate:
  assumes "arena_ok a R" and "0 < n" and "n + 2 ^ k < 2 ^ 64"
    and "serves_chunk sys (source a) (chunk_for (2 ^ k) n)"
  shows "\<exists>p a'. gv_arena_alloc sys a (2 ^ k) n = Some (Some p, a') \<and> p mod 2 ^ k = 0 \<and>
    arena_ok a' ((p, n) # R) \<and> (\<forall>r\<in>set R. apart (p, n) r)"
  using gv_arena_alloc_correct [OF assms] by (auto simp: arena_ok_def)

definition bump_sys :: "chunk list \<Rightarrow> nat \<Rightarrow> nat" where
  "bump_sys cs size' = foldr (\<lambda>c b. fst c + HEADER + snd c + b) cs 4096"

theorem arena_alloc_separate_witness:
  "\<exists>p a' q a''. gv_arena_alloc bump_sys arena_zero 8 10 = Some (Some p, a') \<and>
    gv_arena_alloc bump_sys a' 16 20000 = Some (Some q, a'') \<and> p mod 8 = 0 \<and> q mod 16 = 0 \<and> apart (q, 20000) (p, 10)"
proof -
  have "serves_chunk bump_sys (source arena_zero) (chunk_for (2 ^ 3) 10)"
    by (simp add: serves_chunk_def arena_zero_def bump_sys_def chunk_for_def DEFAULT_CHUNK_def HEADER_def)
  from arena_alloc_separate [OF arena_zero_ok _ _ this] obtain p a' where
    p: "gv_arena_alloc bump_sys arena_zero (2 ^ 3) 10 = Some (Some p, a')" "p mod 2 ^ 3 = 0" "arena_ok a' [(p, 10)]"
    by auto
  have "source a' = [(4096, 16376)]"
    using p(1) by (auto simp: gv_arena_alloc_def alloc_def arena_zero_def more_core_def bump_sys_def Let_def
        DEFAULT_CHUNK_def HEADER_def split: if_splits option.splits)
  then have "serves_chunk bump_sys (source a') (chunk_for (2 ^ 4) 20000)"
    by (simp add: serves_chunk_def bump_sys_def chunk_for_def DEFAULT_CHUNK_def HEADER_def block_of_def apart_def)
  from arena_alloc_separate [OF p(3) _ _ this] obtain q a'' where
    "gv_arena_alloc bump_sys a' (2 ^ 4) 20000 = Some (Some q, a'')" "q mod 2 ^ 4 = 0" "apart (q, 20000) (p, 10)"
    by auto
  with p show ?thesis by auto
qed

text \<open>
  A string copied into an arena reads back with its terminator, and no byte of a region handed
  out before changes.
\<close>
lemma arena_strdup_copies:
  assumes "arena_ok a R" and "length s + 2 < 2 ^ 64" and "serves_chunk sys (source a) (chunk_for 1 (length s + 1))"
  shows "\<exists>p a' mem'. gv_arena_strdup sys a mem s = Some (p, a', mem') \<and> arena_ok a' ((p, length s + 1) # R) \<and>
    map mem' [p..<p + length s + 1] = s @ [CHR 0x00] \<and>
    (\<forall>(q, m)\<in>set R. map mem' [q..<q + m] = map mem [q..<q + m])"
proof -
  have "0 < length s + 1" "length s + 1 + 2 ^ 0 < 2 ^ 64" using assms(2) by simp_all
  from gv_arena_alloc_correct [OF assms(1) this, of sys] assms(3) obtain p a' where
    p: "gv_arena_alloc sys a 1 (length s + 1) = Some (Some p, a')" "arena_ok a' ((p, length s + 1) # R)" by auto
  let ?m = "store_string mem p s"
  have "map ?m [p..<p + length s + 1] = s @ [CHR 0x00]"
    by (rule nth_equalityI) (simp_all add: store_string_def del: upt_Suc)
  moreover have "map ?m [q..<q + m] = map mem [q..<q + m]" if "(q, m) \<in> set R" for q m
  proof -
    have "apart (p, length s + 1) (q, m)" using p(2) that by (auto simp: arena_ok_def)
    then show ?thesis by (auto simp: store_string_def apart_def)
  qed
  ultimately show ?thesis using p by (auto simp: gv_arena_strdup_def)
qed

end
