(* ===== verification/Rtree.thy ===== *)
theory Rtree
  imports Prelude Complex_Main
begin

text \<open>
  The R-tree of \<open>lib/label\<close> (\<open>rectangle.c\<close>, \<open>node.c\<close>, \<open>split.q.c\<close>, \<open>index.c\<close>), which the placement of
  external labels searches for overlapping objects. Coordinates are real numbers: the rounding of
  \<open>double\<close> subtraction is not modelled. A tree owns its nodes, so an update in place is a new value.
  Failed assertions, dereferences of NULL and \<open>graphviz_exit\<close> are \<open>None\<close>; the split buffers, which
  every split initialises, are arguments.
\<close>

section \<open>Rectangles\<close>

definition NUMDIMS :: nat where "NUMDIMS = 2"

text \<open>\<open>Rect_t\<close>: the low sides, then the high sides.\<close>

type_synonym rect = "real list"

definition Undefined :: "rect \<Rightarrow> bool" where
  "Undefined r \<longleftrightarrow> r ! 0 > r ! NUMDIMS"

definition InitRect :: rect where
  "InitRect = replicate (2 * NUMDIMS) 0"

definition NullRect :: rect where
  "NullRect = (replicate (2 * NUMDIMS) 0)[0 := 1, NUMDIMS := -1]"

text \<open>The cast of a side to \<open>uint64_t\<close> truncates, and is defined for values in range only.\<close>

definition side :: "rect \<Rightarrow> nat \<Rightarrow> 64 word option" where
  "side r i =
    (let d = r ! (i + NUMDIMS) - r ! i in
     if -1 < d \<and> d < 2 ^ 64 then Some (word_of_int (if d < 0 then 0 else \<lfloor>d\<rfloor>)) else None)"

primrec area_loop :: "rect \<Rightarrow> nat list \<Rightarrow> 64 word \<Rightarrow> 64 word option" where
  "area_loop r [] area = Some area"
| "area_loop r (i # is) area =
    (case side r i of
       None \<Rightarrow> None
     | Some d \<Rightarrow>
         if d = 0 then Some 0
         else if (- 1) div d < area then None
         else area_loop r is (area * d))"

definition RectArea :: "rect \<Rightarrow> 64 word option" where
  "RectArea r = (if Undefined r then Some 0 else area_loop r [0..<NUMDIMS] 1)"

definition CombineRect :: "rect \<Rightarrow> rect \<Rightarrow> rect" where
  "CombineRect r rr =
    (if Undefined r then rr
     else if Undefined rr then r
     else map (\<lambda>i. min (r ! i) (rr ! i)) [0..<NUMDIMS] @
          map (\<lambda>i. min (r ! (i + NUMDIMS)) (rr ! (i + NUMDIMS))) [0..<NUMDIMS])"

definition Overlap :: "rect \<Rightarrow> rect \<Rightarrow> bool" where
  "Overlap r s \<longleftrightarrow>
    list_all (\<lambda>i. \<not> (r ! i > s ! (i + NUMDIMS) \<or> s ! i > r ! (i + NUMDIMS))) [0..<NUMDIMS]"

section \<open>Nodes\<close>

definition NODECARD :: nat where "NODECARD = 64"

text \<open>
  \<open>Branch_t\<close> is a rectangle and a child, which may be NULL; on level 0 the child is the data.
\<close>

datatype 'd child = Data 'd | Sub "'d node"
  and 'd node = Node (ncount: nat) (nlevel: int) (branches: "(rect \<times> 'd child option) list")

type_synonym 'd branch = "rect \<times> 'd child option"

definition InitBranch :: "'d branch" where
  "InitBranch = (InitRect, None)"

definition InitNode :: "'d node" where
  "InitNode = Node 0 (-1) (replicate NODECARD InitBranch)"

definition RTreeNewNode :: "'d node" where
  "RTreeNewNode = InitNode"

definition set_level :: "int \<Rightarrow> 'd node \<Rightarrow> 'd node" where
  "set_level l n = Node (ncount n) l (branches n)"

definition set_branch :: "nat \<Rightarrow> 'd branch \<Rightarrow> 'd node \<Rightarrow> 'd node" where
  "set_branch i b n = Node (ncount n) (nlevel n) ((branches n)[i := b])"

fun cover_loop :: "'d branch list \<Rightarrow> rect \<Rightarrow> bool \<Rightarrow> rect" where
  "cover_loop [] r flag = r"
| "cover_loop ((br, None) # bs) r flag = cover_loop bs r flag"
| "cover_loop ((br, Some c) # bs) r flag = cover_loop bs (if flag then br else CombineRect r br) False"

definition NodeCover :: "'d node \<Rightarrow> rect" where
  "NodeCover n = cover_loop (branches n) InitRect True"

text \<open>The loop of \<open>PickBranch\<close>; the best choice so far is its index, increase and area.\<close>

fun pick_loop :: "rect \<Rightarrow> 'd branch list \<Rightarrow> nat \<Rightarrow> (nat \<times> 64 word \<times> 64 word) option \<Rightarrow> nat option" where
  "pick_loop r [] i best = Some (case best of None \<Rightarrow> 0 | Some (b, _) \<Rightarrow> b)"
| "pick_loop r ((rr, None) # bs) i best = pick_loop r bs (Suc i) best"
| "pick_loop r ((rr, Some c) # bs) i best =
    (case (RectArea rr, RectArea (CombineRect r rr)) of
       (Some area, Some grown) \<Rightarrow>
         (let increase = grown - area in
          pick_loop r bs (Suc i)
            (case best of
               None \<Rightarrow> Some (i, increase, area)
             | Some (b, bestIncr, bestArea) \<Rightarrow>
                 if increase < bestIncr \<or> increase = bestIncr \<and> area < bestArea then Some (i, increase, area)
                 else best))
     | _ \<Rightarrow> None)"

definition PickBranch :: "rect \<Rightarrow> 'd node \<Rightarrow> nat option" where
  "PickBranch r n = pick_loop r (branches n) 0 None"

text \<open>The part of \<open>AddBranch\<close> without a split: the first empty cell takes the branch.\<close>

fun empty_cell :: "'d branch list \<Rightarrow> nat option" where
  "empty_cell [] = None"
| "empty_cell ((br, c) # bs) = (if c = None then Some 0 else map_option Suc (empty_cell bs))"

definition place_branch :: "'d branch \<Rightarrow> 'd node \<Rightarrow> 'd node option" where
  "place_branch b n =
    map_option (\<lambda>i. Node (Suc (ncount n)) (nlevel n) ((branches n)[i := b])) (empty_cell (branches n))"

text \<open>\<open>AddBranch\<close> with \<open>new\<close> being NULL: a full node fails the assertion.\<close>

definition AddBranch_null :: "'d branch \<Rightarrow> 'd node \<Rightarrow> 'd node option" where
  "AddBranch_null b n = (if ncount n < NODECARD then place_branch b n else None)"

definition DisconBranch :: "'d node \<Rightarrow> nat \<Rightarrow> 'd node option" where
  "DisconBranch n i =
    (if i < NODECARD \<and> snd (branches n ! i) \<noteq> None
     then Some (Node (ncount n - 1) (nlevel n) ((branches n)[i := InitBranch]))
     else None)"

section \<open>Splitting\<close>

text \<open>\<open>struct PartitionVars\<close>: the group of each branch, \<open>-1\<close> for none yet, and the two groups.\<close>

record pvars =
  partition_of :: "nat \<Rightarrow> int"
  taken :: "nat \<Rightarrow> bool"
  pcount :: "nat \<Rightarrow> nat"
  cover :: "nat \<Rightarrow> rect"
  parea :: "nat \<Rightarrow> 64 word"

definition InitPVars :: pvars where
  "InitPVars = \<lparr>partition_of = (\<lambda>_. -1), taken = (\<lambda>_. False), pcount = (\<lambda>_. 0),
     cover = (\<lambda>_. NullRect), parea = (\<lambda>_. 0)\<rparr>"

definition Classify :: "'d branch list \<Rightarrow> nat \<Rightarrow> nat \<Rightarrow> pvars \<Rightarrow> pvars option" where
  "Classify buf i grp p =
    (if taken p i then None
     else
       (let c = (if pcount p grp = 0 then fst (buf ! i) else CombineRect (fst (buf ! i)) (cover p grp)) in
        map_option (\<lambda>a.
          p\<lparr>partition_of := (partition_of p)(i := int grp), taken := (taken p)(i := True),
            cover := (cover p)(grp := c), parea := (parea p)(grp := a),
            pcount := (pcount p)(grp := Suc (pcount p grp))\<rparr>)
          (RectArea c)))"

text \<open>\<open>PickSeeds\<close>: the subtractions wrap around.\<close>

primrec areas :: "'d branch list \<Rightarrow> 64 word list option" where
  "areas [] = Some []"
| "areas (b # bs) =
    (case RectArea (fst b) of None \<Rightarrow> None | Some a \<Rightarrow> map_option (\<lambda>as. a # as) (areas bs))"

primrec seed_loop :: "'d branch list \<Rightarrow> 64 word list \<Rightarrow> (nat \<times> nat) list \<Rightarrow> 64 word \<Rightarrow> nat \<times> nat
    \<Rightarrow> (nat \<times> nat) option" where
  "seed_loop buf area [] worst seeds = Some seeds"
| "seed_loop buf area (ij # ijs) worst seeds =
    (case RectArea (CombineRect (fst (buf ! fst ij)) (fst (buf ! snd ij))) of
       None \<Rightarrow> None
     | Some a \<Rightarrow>
         (let waste = a - area ! fst ij - area ! snd ij in
          if waste > worst then seed_loop buf area ijs waste ij else seed_loop buf area ijs worst seeds))"

definition seed_pairs :: "(nat \<times> nat) list" where
  "seed_pairs = concat (map (\<lambda>i. map (\<lambda>j. (i, j)) [i + 1..<NODECARD + 1]) [0..<NODECARD])"

definition PickSeeds :: "'d branch list \<Rightarrow> pvars \<Rightarrow> pvars option" where
  "PickSeeds buf p =
    (case areas buf of
       None \<Rightarrow> None
     | Some area \<Rightarrow>
         (case seed_loop buf area seed_pairs 0 (0, 0) of
            None \<Rightarrow> None
          | Some (seed0, seed1) \<Rightarrow>
              (case Classify buf seed0 0 p of None \<Rightarrow> None | Some p1 \<Rightarrow> Classify buf seed1 1 p1)))"

text \<open>
  One pass over the branches that are not in a group: the one with the biggest difference between
  the growths of the two groups is chosen.
\<close>

primrec choose_loop :: "'d branch list \<Rightarrow> pvars \<Rightarrow> nat list \<Rightarrow> (64 word) option \<Rightarrow> nat \<times> nat
    \<Rightarrow> (nat \<times> nat) option" where
  "choose_loop buf p [] biggest chosen = Some chosen"
| "choose_loop buf p (i # is) biggest chosen =
    (if taken p i then choose_loop buf p is biggest chosen
     else
       (case (RectArea (CombineRect (fst (buf ! i)) (cover p 0)), RectArea (CombineRect (fst (buf ! i)) (cover p 1))) of
          (Some a0, Some a1) \<Rightarrow>
            (let growth0 = a0 - parea p 0; growth1 = a1 - parea p 1;
                 diff = (if growth1 \<ge> growth0 then growth1 - growth0 else growth0 - growth1);
                 grp = (if growth1 \<ge> growth0 then 0 else 1)
             in if biggest = None \<or> the biggest < diff then choose_loop buf p is (Some diff) (i, grp)
                else if biggest = Some diff \<and> pcount p grp < pcount p (snd chosen)
                then choose_loop buf p is biggest (i, grp)
                else choose_loop buf p is biggest chosen)
        | _ \<Rightarrow> None))"

text \<open>The \<open>while\<close> loop of \<open>MethodZero\<close>; each round classifies one branch, the fuel is for all of them.\<close>

primrec method_loop :: "nat \<Rightarrow> 'd branch list \<Rightarrow> pvars \<Rightarrow> nat \<times> nat \<Rightarrow> pvars option" where
  "method_loop 0 buf p chosen = None"
| "method_loop (Suc k) buf p chosen =
    (if pcount p 0 + pcount p 1 < NODECARD + 1 \<and> pcount p 0 < NODECARD + 1 \<and> pcount p 1 < NODECARD + 1
     then
       (case choose_loop buf p [0..<NODECARD + 1] None chosen of
          None \<Rightarrow> None
        | Some c \<Rightarrow> (case Classify buf (fst c) (snd c) p of None \<Rightarrow> None | Some p1 \<Rightarrow> method_loop k buf p1 c))
     else Some p)"

primrec rest_loop :: "'d branch list \<Rightarrow> nat \<Rightarrow> nat list \<Rightarrow> pvars \<Rightarrow> pvars option" where
  "rest_loop buf grp [] p = Some p"
| "rest_loop buf grp (i # is) p =
    (if taken p i then rest_loop buf grp is p
     else (case Classify buf i grp p of None \<Rightarrow> None | Some p1 \<Rightarrow> rest_loop buf grp is p1))"

definition MethodZero :: "'d branch list \<Rightarrow> pvars option" where
  "MethodZero buf =
    (case PickSeeds buf InitPVars of
       None \<Rightarrow> None
     | Some p \<Rightarrow>
         (case method_loop (NODECARD + 2) buf p (0, 0) of
            None \<Rightarrow> None
          | Some p1 \<Rightarrow>
              (case (if pcount p1 0 + pcount p1 1 < NODECARD + 1
                     then rest_loop buf (if pcount p1 0 \<ge> NODECARD + 1 then 1 else 0) [0..<NODECARD + 1] p1
                     else Some p1) of
                 None \<Rightarrow> None
               | Some p2 \<Rightarrow> if pcount p2 0 + pcount p2 1 = NODECARD + 1 then Some p2 else None)))"

text \<open>\<open>GetBranches\<close>: every cell is full; the cover of all is computed for its area.\<close>

definition GetBranches :: "'d node \<Rightarrow> 'd branch \<Rightarrow> 'd branch list option" where
  "GetBranches n b =
    (if list_all (\<lambda>x. snd x \<noteq> None) (branches n) then
       (let buf = branches n @ [b]; cov = foldl (\<lambda>r x. CombineRect r (fst x)) (fst (hd buf)) (tl buf)
        in case RectArea cov of None \<Rightarrow> None | Some _ \<Rightarrow> Some buf)
     else None)"

primrec LoadNodes :: "pvars \<Rightarrow> 'd branch list \<Rightarrow> nat list \<Rightarrow> 'd node \<Rightarrow> 'd node \<Rightarrow> ('d node \<times> 'd node) option" where
  "LoadNodes p buf [] n q = Some (n, q)"
| "LoadNodes p buf (i # is) n q =
    (if partition_of p i = 0 then
       (case AddBranch_null (buf ! i) n of None \<Rightarrow> None | Some n1 \<Rightarrow> LoadNodes p buf is n1 q)
     else if partition_of p i = 1 then
       (case AddBranch_null (buf ! i) q of None \<Rightarrow> None | Some q1 \<Rightarrow> LoadNodes p buf is n q1)
     else None)"

definition SplitNode :: "'d node \<Rightarrow> 'd branch \<Rightarrow> ('d node \<times> 'd node) option" where
  "SplitNode n b =
    (case GetBranches n b of
       None \<Rightarrow> None
     | Some buf \<Rightarrow>
         (case MethodZero buf of
            None \<Rightarrow> None
          | Some p \<Rightarrow>
              (case LoadNodes p buf [0..<NODECARD + 1] (set_level (nlevel n) InitNode)
                       (set_level (nlevel n) RTreeNewNode) of
                 None \<Rightarrow> None
               | Some (n1, q) \<Rightarrow> if ncount n1 + ncount q = NODECARD + 1 then Some (n1, q) else None)))"

text \<open>\<open>AddBranch\<close>: the node, and the new one when it was split.\<close>

definition AddBranch :: "'d branch \<Rightarrow> 'd node \<Rightarrow> ('d node \<times> 'd node option) option" where
  "AddBranch b n =
    (if ncount n < NODECARD then map_option (\<lambda>n1. (n1, None)) (place_branch b n)
     else map_option (\<lambda>(n1, q). (n1, Some q)) (SplitNode n b))"

section \<open>The index\<close>

definition RTreeNewIndex :: "'d node" where
  "RTreeNewIndex = set_level 0 RTreeNewNode"

text \<open>\<open>RTreeSearch\<close>: a leaf puts what it finds in front, an inner node appends the lists of its children.\<close>

fun RTreeSearch :: "'d node \<Rightarrow> rect \<Rightarrow> (rect \<times> 'd) list" where
  "RTreeSearch (Node c l bs) r =
    (if l > 0 then
       concat (map (\<lambda>b. case b of (br, Some (Sub n)) \<Rightarrow> if Overlap r br then RTreeSearch n r else [] | _ \<Rightarrow> []) bs)
     else
       rev (concat (map (\<lambda>b. case b of (br, Some (Data d)) \<Rightarrow> if Overlap r br then [(br, d)] else [] | _ \<Rightarrow> []) bs)))"

definition sub_node :: "'d node \<Rightarrow> nat \<Rightarrow> 'd node option" where
  "sub_node n i =
    (if i < length (branches n) then
       (case snd (branches n ! i) of Some (Sub c) \<Rightarrow> Some c | _ \<Rightarrow> None)
     else None)"

lemma sub_node_member:
  "sub_node n i = Some c \<Longrightarrow> i < length (branches n) \<and> branches n ! i \<in> set (branches n) \<and> snd (branches n ! i) = Some (Sub c)"
  by (auto simp: sub_node_def split: if_splits option.splits child.splits)

lemma sub_node_size [termination_simp]: "sub_node n i = Some c \<Longrightarrow> size c < size n"
proof -
  assume "sub_node n i = Some c"
  from sub_node_member [OF this] obtain r where m: "(r, Some (Sub c)) \<in> set (branches n)"
    by (metis prod.collapse)
  then show ?thesis
    by (cases n) (auto dest!: size_list_estimation' [where f = "size_prod (\<lambda>_. 0) (size_option size)" and y = "Suc (Suc (size c))"] split_list)
qed

text \<open>\<open>RTreeInsert2\<close>: the node, and the new one when it was split.\<close>

fun RTreeInsert2 :: "rect \<Rightarrow> 'd \<Rightarrow> 'd node \<Rightarrow> int \<Rightarrow> ('d node \<times> 'd node option) option" where
  "RTreeInsert2 r data n level =
    (if level < 0 \<or> level > nlevel n then None
     else if nlevel n > level then
       (case PickBranch r n of
          None \<Rightarrow> None
        | Some i \<Rightarrow>
            (case sub_node n i of
               None \<Rightarrow> None
             | Some c \<Rightarrow>
                 (case RTreeInsert2 r data c level of
                    None \<Rightarrow> None
                  | Some (c1, None) \<Rightarrow>
                      Some (set_branch i (CombineRect r (fst (branches n ! i)), Some (Sub c1)) n, None)
                  | Some (c1, Some n2) \<Rightarrow>
                      AddBranch (NodeCover n2, Some (Sub n2)) (set_branch i (NodeCover c1, Some (Sub c1)) n))))
     else AddBranch (r, Some (Data data)) n)"

declare RTreeInsert2.simps [simp del]

text \<open>\<open>RTreeInsert\<close>: whether the root was split, and the new root.\<close>

definition RTreeInsert :: "rect \<Rightarrow> 'd \<Rightarrow> 'd node \<Rightarrow> (bool \<times> 'd node) option" where
  "RTreeInsert r data n =
    (if list_all (\<lambda>i. r ! i \<le> r ! (NUMDIMS + i)) [0..<NUMDIMS] then
       (case RTreeInsert2 r data n 0 of
          None \<Rightarrow> None
        | Some (n1, None) \<Rightarrow> Some (False, n1)
        | Some (n1, Some newnode) \<Rightarrow>
            (case AddBranch_null (NodeCover n1, Some (Sub n1)) (set_level (nlevel n1 + 1) RTreeNewNode) of
               None \<Rightarrow> None
             | Some root1 \<Rightarrow>
                 map_option (\<lambda>root2. (True, root2)) (AddBranch_null (NodeCover newnode, Some (Sub newnode)) root1)))
     else None)"

section \<open>Well-formed trees\<close>

text \<open>The data of a tree.\<close>

fun leaves :: "'d node \<Rightarrow> (rect \<times> 'd) multiset" where
  "leaves (Node c l bs) =
    sum_list (map (\<lambda>b. case b of (r, Some (Data d)) \<Rightarrow> {#(r, d)#} | (r, Some (Sub n)) \<Rightarrow> leaves n | _ \<Rightarrow> {#}) bs)"

declare leaves.simps [simp del]

definition branch_leaves :: "'d branch \<Rightarrow> (rect \<times> 'd) multiset" where
  "branch_leaves b = (case b of (r, Some (Data d)) \<Rightarrow> {#(r, d)#} | (r, Some (Sub n)) \<Rightarrow> leaves n | _ \<Rightarrow> {#})"

lemma leaves_sum: "leaves n = sum_list (map branch_leaves (branches n))"
  by (cases n) (simp add: leaves.simps branch_leaves_def [abs_def])

text \<open>All leaves on level 0, the levels in steps of one, the count true, no empty inner node.\<close>

fun rtree_ok :: "'d node \<Rightarrow> bool" where
  "rtree_ok (Node c l bs) \<longleftrightarrow> length bs = NODECARD \<and> c = length (filter (\<lambda>b. snd b \<noteq> None) bs) \<and> 0 \<le> l \<and>
     (\<forall>b\<in>set bs. case b of (r, None) \<Rightarrow> True | (r, Some (Data d)) \<Rightarrow> l = 0
        | (r, Some (Sub n)) \<Rightarrow> nlevel n = l - 1 \<and> 0 < l \<and> 0 < ncount n \<and> rtree_ok n)"

declare rtree_ok.simps [simp del]

definition branch_ok :: "int \<Rightarrow> 'd branch \<Rightarrow> bool" where
  "branch_ok l b \<longleftrightarrow> (case b of (r, None) \<Rightarrow> True | (r, Some (Data d)) \<Rightarrow> l = 0
        | (r, Some (Sub n)) \<Rightarrow> nlevel n = l - 1 \<and> 0 < l \<and> 0 < ncount n \<and> rtree_ok n)"

abbreviation used :: "'d branch list \<Rightarrow> nat" where
  "used bs \<equiv> length (filter (\<lambda>b. snd b \<noteq> None) bs)"

lemma rtree_ok_iff: "rtree_ok n \<longleftrightarrow> length (branches n) = NODECARD \<and> ncount n = used (branches n) \<and>
    0 \<le> nlevel n \<and> (\<forall>b\<in>set (branches n). branch_ok (nlevel n) b)"
  by (cases n) (simp add: rtree_ok.simps branch_ok_def)

lemma branch_ok_simps [simp]:
  "branch_ok l (r, None)" "branch_ok l (r, Some (Data d)) \<longleftrightarrow> l = 0"
  "branch_ok l (r, Some (Sub n)) \<longleftrightarrow> nlevel n = l - 1 \<and> 0 < l \<and> 0 < ncount n \<and> rtree_ok n"
  by (simp_all add: branch_ok_def)

lemma branch_leaves_simps [simp]:
  "branch_leaves (r, None) = {#}" "branch_leaves (r, Some (Data d)) = {#(r, d)#}"
  "branch_leaves (r, Some (Sub n)) = leaves n"
  by (simp_all add: branch_leaves_def)

lemma branch_rect: "branch_ok l (r, c) = branch_ok l (r', c)" "snd b = Some (Sub n) \<Longrightarrow> branch_leaves b = leaves n"
  by (auto simp: branch_ok_def branch_leaves_def split: option.splits child.splits prod.splits)

lemma empty_cell_spec:
  "empty_cell bs = None \<longleftrightarrow> used bs = length bs"
  "empty_cell bs = Some i \<Longrightarrow> i < length bs \<and> snd (bs ! i) = None"
proof -
  have ne: "used bs \<noteq> Suc (length bs)" for bs :: "'a branch list"
    using length_filter_le [of "\<lambda>b. snd b \<noteq> None" bs] by linarith
  show "empty_cell bs = None \<longleftrightarrow> used bs = length bs"
  proof (induction bs)
    case (Cons b bs)
    then show ?case using ne [of bs] by (cases b) auto
  qed simp
  show "empty_cell bs = Some i \<Longrightarrow> i < length bs \<and> snd (bs ! i) = None"
  proof (induction bs arbitrary: i)
    case (Cons b bs)
    then show ?case by (cases b) (auto split: if_splits)
  qed simp
qed

lemma update_used: "i < length bs \<Longrightarrow> used (bs[i := b]) + (if snd (bs ! i) = None then 0 else 1) =
    used bs + (if snd b = None then 0 else 1)"
proof (induction bs arbitrary: i)
  case (Cons x bs)
  show ?case
  proof (cases i)
    case (Suc j)
    with Cons.IH [of j] Cons.prems show ?thesis by (auto simp del: not_None_eq split: if_splits)
  qed simp
qed simp

lemma update_leaves: "i < length bs \<Longrightarrow>
    sum_list (map branch_leaves (bs[i := b])) + branch_leaves (bs ! i) =
    sum_list (map branch_leaves bs) + branch_leaves b"
proof (induction bs arbitrary: i)
  case (Cons x bs)
  show ?case
  proof (cases i)
    case (Suc j)
    with Cons.IH [of j] Cons.prems show ?thesis by (simp add: add.assoc)
  qed (simp add: add_ac)
qed simp

section \<open>Adding a branch\<close>

text \<open>What is well-formed about a node that is being filled: it may be empty.\<close>

lemma place_branch_ok:
  assumes ok: "rtree_ok n" and b: "branch_ok (nlevel n) b" "snd b \<noteq> None" and p: "place_branch b n = Some n'"
  shows "rtree_ok n'" and "leaves n' = leaves n + branch_leaves b" and "nlevel n' = nlevel n" and "ncount n' = Suc (ncount n)"
proof -
  from p obtain i where i: "empty_cell (branches n) = Some i"
    "n' = Node (Suc (ncount n)) (nlevel n) ((branches n)[i := b])" by (auto simp: place_branch_def)
  note e = empty_cell_spec(2) [OF i(1)]
  then have l: "i < length (branches n)" and none: "snd (branches n ! i) = None" by simp_all
  have "used ((branches n)[i := b]) = Suc (used (branches n))" using update_used [OF l, of b] none b(2) by simp
  moreover have "branch_ok (nlevel n) x" if "x \<in> set ((branches n)[i := b])" for x
    using that ok b(1) set_update_subset_insert [of "branches n" i b] by (auto simp: rtree_ok_iff)
  ultimately show "rtree_ok n'" using ok by (simp add: rtree_ok_iff i(2))
  have "branch_leaves (branches n ! i) = {#}" using none by (cases "branches n ! i") simp
  then show "leaves n' = leaves n + branch_leaves b" using update_leaves [OF l, of b] by (simp add: leaves_sum i(2))
  show "nlevel n' = nlevel n" "ncount n' = Suc (ncount n)" by (simp_all add: i(2))
qed

lemma place_branch_Some:
  assumes "rtree_ok n" and "ncount n < NODECARD"
  shows "\<exists>n'. place_branch b n = Some n'"
proof -
  have "empty_cell (branches n) \<noteq> None" using assms empty_cell_spec(1) [of "branches n"] by (simp add: rtree_ok_iff)
  then show ?thesis by (auto simp: place_branch_def)
qed

lemma empty_node_ok: "0 \<le> l \<Longrightarrow> rtree_ok (set_level l InitNode)" "leaves (set_level l InitNode) = {#}"
  "nlevel (set_level l InitNode) = l" "ncount (set_level l InitNode) = 0"
proof -
  have f: "filter (\<lambda>b. snd b \<noteq> None) (replicate k InitBranch) = []" for k
    by (simp add: filter_empty_conv InitBranch_def)
  show "rtree_ok (set_level l InitNode)" if "0 \<le> l"
    unfolding rtree_ok_iff using f that by (simp add: set_level_def InitNode_def) (simp add: InitBranch_def)
  have "sum_list (map branch_leaves (replicate k InitBranch)) = {#}" for k
    by (induction k) (simp_all add: InitBranch_def)
  then show "leaves (set_level l InitNode) = {#}" by (simp add: leaves_sum set_level_def InitNode_def)
qed (simp_all add: set_level_def InitNode_def)

lemma AddBranch_null_ok:
  assumes "rtree_ok n" and "branch_ok (nlevel n) b" "snd b \<noteq> None" and "AddBranch_null b n = Some n'"
  shows "rtree_ok n' \<and> leaves n' = leaves n + branch_leaves b \<and> nlevel n' = nlevel n \<and> ncount n' = Suc (ncount n)"
proof -
  have "place_branch b n = Some n'" using assms(4) by (simp add: AddBranch_null_def split: if_splits)
  from place_branch_ok [OF assms(1-3) this] show ?thesis by simp
qed

lemma LoadNodes_ok:
  assumes "rtree_ok n" and "rtree_ok q" and "nlevel q = nlevel n"
    and "\<forall>i\<in>set is. branch_ok (nlevel n) (buf ! i) \<and> snd (buf ! i) \<noteq> None"
    and "LoadNodes p buf is n q = Some (n', q')"
  shows "rtree_ok n' \<and> rtree_ok q' \<and> nlevel n' = nlevel n \<and> nlevel q' = nlevel n \<and>
    leaves n' + leaves q' = leaves n + leaves q + sum_list (map (\<lambda>i. branch_leaves (buf ! i)) is) \<and>
    ncount n' = ncount n + length (filter (\<lambda>i. partition_of p i = 0) is) \<and>
    ncount q' = ncount q + length (filter (\<lambda>i. partition_of p i = 1) is)"
  using assms
proof (induction "is" arbitrary: n q)
  case (Cons i js)
  have i: "branch_ok (nlevel n) (buf ! i)" "snd (buf ! i) \<noteq> None" using Cons.prems(4) by simp_all
  show ?case
  proof (cases "partition_of p i = 0")
    case True
    then obtain n1 where n1: "AddBranch_null (buf ! i) n = Some n1" "LoadNodes p buf js n1 q = Some (n', q')"
      using Cons.prems(5) by (auto split: option.splits)
    note a = AddBranch_null_ok [OF Cons.prems(1) i n1(1)]
    from Cons.IH [OF _ Cons.prems(2) _ _ n1(2)] a Cons.prems(3,4) True show ?thesis by (simp add: add_ac)
  next
    case False
    then obtain q1 where q1: "AddBranch_null (buf ! i) q = Some q1" "LoadNodes p buf js n q1 = Some (n', q')"
      "partition_of p i = 1" using Cons.prems(5) by (auto split: option.splits if_splits)
    have "branch_ok (nlevel q) (buf ! i)" using i(1) Cons.prems(3) by simp
    note a = AddBranch_null_ok [OF Cons.prems(2) this i(2) q1(1)]
    from Cons.IH [OF Cons.prems(1) _ _ _ q1(2)] a Cons.prems(3,4) q1(3) show ?thesis by (simp add: add_ac)
  qed
qed simp

section \<open>Splitting\<close>

text \<open>Classified branches keep their group.\<close>

definition extends :: "pvars \<Rightarrow> pvars \<Rightarrow> bool" where
  "extends p p' \<longleftrightarrow> (\<forall>i. taken p i \<longrightarrow> taken p' i \<and> partition_of p' i = partition_of p i)"

lemma extends_refl [simp]: "extends p p"
  by (simp add: extends_def)

lemma extends_trans: "extends p p' \<Longrightarrow> extends p' p'' \<Longrightarrow> extends p p''"
  by (auto simp: extends_def)

lemma Classify_SomeD:
  assumes "Classify buf i g p = Some p'"
  shows "\<not> taken p i" and "partition_of p' = (partition_of p)(i := int g)" and "taken p' = (taken p)(i := True)"
    and "pcount p' = (pcount p)(g := Suc (pcount p g))" and "extends p p'"
  using assms by (auto simp: Classify_def Let_def extends_def split: if_splits)

lemma method_loop_extends: "method_loop k buf p c = Some p' \<Longrightarrow> extends p p'"
proof (induction k arbitrary: p c)
  case (Suc k)
  show ?case
  proof (cases "pcount p 0 + pcount p 1 < NODECARD + 1 \<and> pcount p 0 < NODECARD + 1 \<and> pcount p 1 < NODECARD + 1")
    case True
    with Suc.prems obtain c1 p1 where c1: "Classify buf (fst c1) (snd c1) p = Some p1" "method_loop k buf p1 c1 = Some p'"
      by (auto split: option.splits)
    from extends_trans [OF Classify_SomeD(5) [OF c1(1)] Suc.IH [OF c1(2)]] show ?thesis .
  next
    case False
    with Suc.prems have "p' = p" by auto
    then show ?thesis by simp
  qed
qed simp

lemma rest_loop_extends: "rest_loop buf g is p = Some p' \<Longrightarrow> extends p p'"
proof (induction "is" arbitrary: p)
  case (Cons i js)
  show ?case
  proof (cases "taken p i")
    case True
    with Cons show ?thesis by simp
  next
    case False
    with Cons.prems obtain p1 where p1: "Classify buf i g p = Some p1" "rest_loop buf g js p1 = Some p'"
      by (auto split: option.splits)
    from extends_trans [OF Classify_SomeD(5) [OF p1(1)] Cons.IH [OF p1(2)]] show ?thesis .
  qed
qed simp

lemma seed_loop_member: "seed_loop buf a ijs w s = Some s' \<Longrightarrow> s' = s \<or> s' \<in> set ijs"
  by (induction ijs arbitrary: w s) (auto simp: Let_def split: option.splits if_splits)

lemma seed_pairs_bound: "(i, j) \<in> set seed_pairs \<longleftrightarrow> i < j \<and> j < NODECARD + 1"
proof
  assume "i < j \<and> j < NODECARD + 1"
  moreover from this have "i \<in> {0..<NODECARD}" by simp
  ultimately show "(i, j) \<in> set seed_pairs"
    unfolding seed_pairs_def by (auto simp del: upt_Suc intro!: bexI [of _ i] image_eqI [of _ "Pair i" j])
qed (auto simp: seed_pairs_def simp del: upt_Suc)

lemma PickSeeds_groups:
  assumes "PickSeeds buf InitPVars = Some p"
  shows "\<exists>i j. i < NODECARD + 1 \<and> j < NODECARD + 1 \<and> taken p i \<and> partition_of p i = 0 \<and> taken p j \<and> partition_of p j = 1"
proof -
  from assms obtain area s0 s1 p1 where s: "seed_loop buf area seed_pairs 0 (0, 0) = Some (s0, s1)"
    "Classify buf s0 0 InitPVars = Some p1" "Classify buf s1 1 p1 = Some p"
    by (auto simp: PickSeeds_def split: option.splits)
  have "s0 < NODECARD + 1" "s1 < NODECARD + 1"
    using seed_loop_member [OF s(1)] seed_pairs_bound [of s0 s1] by (auto simp: NODECARD_def)
  moreover have "taken p s0 \<and> partition_of p s0 = 0" "taken p s1 \<and> partition_of p s1 = 1"
    using Classify_SomeD(1-3) [OF s(2)] Classify_SomeD(1-3) [OF s(3)] by (auto split: if_splits)
  ultimately show ?thesis by blast
qed

lemma MethodZero_groups:
  assumes "MethodZero buf = Some p"
  shows "(\<exists>i < NODECARD + 1. partition_of p i = 0) \<and> (\<exists>i < NODECARD + 1. partition_of p i = 1)"
proof -
  from assms obtain p0 p1 where p0: "PickSeeds buf InitPVars = Some p0"
    and p1: "method_loop (NODECARD + 2) buf p0 (0, 0) = Some p1"
    and p: "p = p1 \<or> (\<exists>g. rest_loop buf g [0..<NODECARD + 1] p1 = Some p)"
    by (auto simp: MethodZero_def simp del: method_loop.simps rest_loop.simps upt_Suc split: option.splits if_splits)
  have "extends p1 p" using p rest_loop_extends by auto
  with method_loop_extends [OF p1] have "extends p0 p" by (rule extends_trans)
  with PickSeeds_groups [OF p0] show ?thesis unfolding extends_def by metis
qed

lemma map_nth_sum: "sum_list (map (\<lambda>i. f (xs ! i)) [0..<length xs]) = sum_list (map f xs)"
proof -
  have "map (\<lambda>i. f (xs ! i)) [0..<length xs] = map f (map (nth xs) [0..<length xs])" by simp
  then show ?thesis by (simp only: map_nth)
qed

lemma SplitNode_ok:
  assumes ok: "rtree_ok n" and full: "ncount n = NODECARD" and b: "branch_ok (nlevel n) b" "snd b \<noteq> None"
    and s: "SplitNode n b = Some (n1, q)"
  shows "rtree_ok n1 \<and> rtree_ok q \<and> nlevel n1 = nlevel n \<and> nlevel q = nlevel n \<and>
    leaves n1 + leaves q = leaves n + branch_leaves b \<and> 0 < ncount n1 \<and> 0 < ncount q"
proof -
  from s obtain buf p where buf: "GetBranches n b = Some buf" and p: "MethodZero buf = Some p"
    and ld: "LoadNodes p buf [0..<NODECARD + 1] (set_level (nlevel n) InitNode) (set_level (nlevel n) RTreeNewNode) = Some (n1, q)"
    by (auto simp: SplitNode_def simp del: LoadNodes.simps upt_Suc split: option.splits if_splits)
  have bufeq: "buf = branches n @ [b]" "list_all (\<lambda>x. snd x \<noteq> None) (branches n)"
    using buf by (auto simp: GetBranches_def Let_def split: if_splits option.splits)
  have len: "length buf = NODECARD + 1" using ok by (simp add: bufeq(1) rtree_ok_iff)
  have l0: "0 \<le> nlevel n" using ok by (simp add: rtree_ok_iff)
  have br: "\<forall>i\<in>set [0..<NODECARD + 1]. branch_ok (nlevel n) (buf ! i) \<and> snd (buf ! i) \<noteq> None"
  proof
    fix i assume "i \<in> set [0..<NODECARD + 1]"
    then have "buf ! i \<in> set buf" using len by (intro nth_mem) auto
    then show "branch_ok (nlevel n) (buf ! i) \<and> snd (buf ! i) \<noteq> None"
      using ok b bufeq by (auto simp: rtree_ok_iff list_all_iff)
  qed
  note e = empty_node_ok(1) [OF l0] empty_node_ok(2-4)
  from LoadNodes_ok [OF e(1) e(1) _ _ ld [unfolded RTreeNewNode_def]] br
  have r: "rtree_ok n1" "rtree_ok q" "nlevel n1 = nlevel n" "nlevel q = nlevel n"
    "leaves n1 + leaves q = sum_list (map (\<lambda>i. branch_leaves (buf ! i)) [0..<NODECARD + 1])"
    "ncount n1 = length (filter (\<lambda>i. partition_of p i = 0) [0..<NODECARD + 1])"
    "ncount q = length (filter (\<lambda>i. partition_of p i = 1) [0..<NODECARD + 1])"
    by (simp_all add: e del: upt_Suc)
  have "sum_list (map (\<lambda>i. branch_leaves (buf ! i)) [0..<NODECARD + 1]) = leaves n + branch_leaves b"
    unfolding len [symmetric] map_nth_sum by (simp add: bufeq(1) leaves_sum)
  moreover have "0 < ncount n1" "0 < ncount q"
    using MethodZero_groups [OF p] unfolding r(6,7) by (auto simp: filter_empty_conv simp del: upt_Suc)
  ultimately show ?thesis using r by simp
qed

lemma AddBranch_ok:
  assumes ok: "rtree_ok n" and b: "branch_ok (nlevel n) b" "snd b \<noteq> None" and a: "AddBranch b n = Some (n', m)"
  shows "rtree_ok n' \<and> nlevel n' = nlevel n \<and> 0 < ncount n' \<and>
    (case m of None \<Rightarrow> leaves n' = leaves n + branch_leaves b
     | Some q \<Rightarrow> rtree_ok q \<and> nlevel q = nlevel n \<and> 0 < ncount q \<and> leaves n' + leaves q = leaves n + branch_leaves b)"
proof (cases "ncount n < NODECARD")
  case True
  then have "place_branch b n = Some n'" "m = None" using a by (auto simp: AddBranch_def)
  with place_branch_ok [OF ok b this(1)] show ?thesis by simp
next
  case False
  have "ncount n = NODECARD" using ok False length_filter_le [of "\<lambda>b. snd b \<noteq> None" "branches n"]
    by (simp add: rtree_ok_iff)
  moreover from False a obtain q where "m = Some q" "SplitNode n b = Some (n', q)" by (auto simp: AddBranch_def)
  ultimately show ?thesis using SplitNode_ok [OF ok _ b] by simp
qed

section \<open>Insertion\<close>

lemma set_branch_ok:
  assumes ok: "rtree_ok n" and s: "sub_node n i = Some c" and c: "rtree_ok c'" "nlevel c' = nlevel c" "0 < ncount c'"
  shows "rtree_ok (set_branch i (r, Some (Sub c')) n)" and "nlevel (set_branch i (r, Some (Sub c')) n) = nlevel n"
    and "leaves (set_branch i (r, Some (Sub c')) n) + leaves c = leaves n + leaves c'"
    and "branch_ok (nlevel n) (r', Some (Sub c'))" and "0 < ncount n"
proof -
  from sub_node_member [OF s] have i: "i < length (branches n)" "branches n ! i \<in> set (branches n)"
    "snd (branches n ! i) = Some (Sub c)" by simp_all
  obtain r0 where b: "branches n ! i = (r0, Some (Sub c))" using i(3) by (metis prod.collapse)
  have "branch_ok (nlevel n) (branches n ! i)" using ok i(2) by (simp add: rtree_ok_iff)
  then show bo: "branch_ok (nlevel n) (r', Some (Sub c'))" for r' using c by (simp add: b)
  have "used ((branches n)[i := (r, Some (Sub c'))]) = used (branches n)"
    using update_used [OF i(1), of "(r, Some (Sub c'))"] by (simp add: b)
  moreover have "branch_ok (nlevel n) x" if "x \<in> set ((branches n)[i := (r, Some (Sub c'))])" for x
  proof -
    have "x = (r, Some (Sub c')) \<or> x \<in> set (branches n)"
      using that set_update_subset_insert [of "branches n" i "(r, Some (Sub c'))"] by blast
    then show ?thesis
    proof
      assume "x \<in> set (branches n)"
      then show ?thesis using ok unfolding rtree_ok_iff [of n] by blast
    qed (simp only: bo)
  qed
  ultimately show "rtree_ok (set_branch i (r, Some (Sub c')) n)" using ok by (simp add: rtree_ok_iff set_branch_def)
  show "nlevel (set_branch i (r, Some (Sub c')) n) = nlevel n" by (simp add: set_branch_def)
  show "leaves (set_branch i (r, Some (Sub c')) n) + leaves c = leaves n + leaves c'"
    using update_leaves [OF i(1), of "(r, Some (Sub c'))"] by (simp add: leaves_sum [of n] set_branch_def b) (simp add: leaves_sum)
  have "branches n ! i \<in> set (filter (\<lambda>b. snd b \<noteq> None) (branches n))" using i by simp
  then show "0 < ncount n" using ok by (metis length_pos_if_in_set rtree_ok_iff)
qed

lemma RTreeInsert2_ok:
  assumes "rtree_ok n" and "RTreeInsert2 r d n 0 = Some (n', m)"
  shows "rtree_ok n' \<and> nlevel n' = nlevel n \<and> 0 < ncount n' \<and>
    (case m of None \<Rightarrow> leaves n' = add_mset (r, d) (leaves n)
     | Some q \<Rightarrow> rtree_ok q \<and> nlevel q = nlevel n \<and> 0 < ncount q \<and> leaves n' + leaves q = add_mset (r, d) (leaves n))"
  using assms
proof (induction n arbitrary: n' m rule: measure_induct_rule [of size])
  case (less n)
  show ?case
  proof (cases "0 < nlevel n")
    case False
    then have l: "nlevel n = 0" and a: "AddBranch (r, Some (Data d)) n = Some (n', m)"
      using less.prems by (auto simp: RTreeInsert2.simps [of r d n] rtree_ok_iff split: if_splits)
    from AddBranch_ok [OF less.prems(1) _ _ a] l show ?thesis by (auto split: option.splits)
  next
    case True
    with less.prems(2) obtain i c c1 m1 where c: "sub_node n i = Some c" "RTreeInsert2 r d c 0 = Some (c1, m1)"
      and out: "case m1 of None \<Rightarrow> n' = set_branch i (CombineRect r (fst (branches n ! i)), Some (Sub c1)) n \<and> m = None
        | Some n2 \<Rightarrow> AddBranch (NodeCover n2, Some (Sub n2)) (set_branch i (NodeCover c1, Some (Sub c1)) n) = Some (n', m)"
      by (auto simp: RTreeInsert2.simps [of r d n] split: option.splits if_splits)
    have co: "rtree_ok c"
      using less.prems(1) sub_node_member [OF c(1)] branch_ok_def [of "nlevel n" "branches n ! i"]
      by (auto simp: rtree_ok_iff [of n] split: prod.splits)
    note IH = less.IH [OF sub_node_size [OF c(1)] co c(2)]
    then have c1: "rtree_ok c1" "nlevel c1 = nlevel c" "0 < ncount c1" by simp_all
    note sb = set_branch_ok [OF less.prems(1) c(1) c1]
    show ?thesis
    proof (cases m1)
      case None
      let ?n = "set_branch i (CombineRect r (fst (branches n ! i)), Some (Sub c1)) n"
      have "leaves ?n + leaves c = add_mset (r, d) (leaves n) + leaves c" using sb(3) IH None by simp
      then have "leaves ?n = add_mset (r, d) (leaves n)" by (simp only: add_right_cancel)
      with out None sb(1,2,5) show ?thesis by (simp add: set_branch_def)
    next
      case (Some n2)
      let ?n = "set_branch i (NodeCover c1, Some (Sub c1)) n"
      have n2: "rtree_ok n2" "nlevel n2 = nlevel c" "0 < ncount n2" "leaves c1 + leaves n2 = add_mset (r, d) (leaves c)"
        using IH Some by simp_all
      have "branch_ok (nlevel ?n) (NodeCover n2, Some (Sub n2))"
        using sb(4) c1(2) n2(1-3) by (simp add: sb(2))
      from AddBranch_ok [OF sb(1) this _] out Some have a: "rtree_ok n' \<and> nlevel n' = nlevel ?n \<and> 0 < ncount n' \<and>
        (case m of None \<Rightarrow> leaves n' = leaves ?n + leaves n2
         | Some q \<Rightarrow> rtree_ok q \<and> nlevel q = nlevel ?n \<and> 0 < ncount q \<and> leaves n' + leaves q = leaves ?n + leaves n2)"
        by (simp cong: option.case_cong)
      have "leaves ?n + leaves n2 + leaves c = add_mset (r, d) (leaves n) + leaves c"
        using sb(3) [of "NodeCover c1"] n2(4) by (metis add.commute add.left_commute union_mset_add_mset_right)
      then have "leaves ?n + leaves n2 = add_mset (r, d) (leaves n)" by (simp only: add_right_cancel)
      with a sb(2) show ?thesis by (simp cong: option.case_cong)
    qed
  qed
qed

section \<open>Search\<close>

text \<open>Every rectangle of an inner branch meets whatever a leaf below it meets.\<close>

fun covered :: "'d node \<Rightarrow> bool" where
  "covered (Node c l bs) \<longleftrightarrow> (\<forall>b\<in>set bs. case b of (br, Some (Sub n)) \<Rightarrow>
      covered n \<and> (\<forall>x\<in>#leaves n. \<forall>q. Overlap q (fst x) \<longrightarrow> Overlap q br) | _ \<Rightarrow> True)"

declare covered.simps [simp del]

abbreviation hits :: "rect \<Rightarrow> (rect \<times> 'd) multiset \<Rightarrow> (rect \<times> 'd) multiset" where
  "hits q M \<equiv> filter_mset (\<lambda>x. Overlap q (fst x)) M"

lemma mset_concat_sum: "mset (concat (map f xs)) = sum_list (map (\<lambda>x. mset (f x)) xs)"
  by (induction xs) simp_all

lemma filter_sum: "filter_mset P (sum_list (map f xs)) = sum_list (map (\<lambda>x. filter_mset P (f x)) xs)"
  by (induction xs) simp_all

lemma sum_list_subset: "(\<And>x. x \<in> set xs \<Longrightarrow> f x \<subseteq># g x) \<Longrightarrow> sum_list (map f xs) \<subseteq># sum_list (map g xs)"
  by (induction xs) (simp_all add: subset_mset.add_mono)

lemma search_spec:
  "rtree_ok n \<Longrightarrow> mset (RTreeSearch n q) \<subseteq># hits q (leaves n) \<and>
    (covered n \<longrightarrow> mset (RTreeSearch n q) = hits q (leaves n))"
proof (induction n q rule: RTreeSearch.induct)
  case (1 c l bs q)
  let ?f = "\<lambda>b. case b of (br, Some (Sub n)) \<Rightarrow> if Overlap q br then RTreeSearch n q else [] | _ \<Rightarrow> []"
  let ?g = "\<lambda>b. case b of (br, Some (Data d)) \<Rightarrow> if Overlap q br then [(br, d)] else [] | _ \<Rightarrow> []"
  have ok: "\<forall>b\<in>set bs. branch_ok l b" using "1.prems" by (simp add: rtree_ok_iff)
  have lv: "hits q (leaves (Node c l bs)) = sum_list (map (\<lambda>b. hits q (branch_leaves b)) bs)"
    by (simp add: leaves_sum filter_sum)
  show ?case
  proof (cases "l > 0")
    case True
    have m: "mset (RTreeSearch (Node c l bs) q) = sum_list (map (\<lambda>b. mset (?f b)) bs)"
      using True by (simp add: mset_concat_sum)
    have b: "mset (?f b) \<subseteq># hits q (branch_leaves b) \<and> (covered (Node c l bs) \<longrightarrow> mset (?f b) = hits q (branch_leaves b))"
      if b: "b \<in> set bs" for b
    proof (cases b rule: prod.exhaust)
      case (Pair br ch)
      show ?thesis
      proof (cases ch)
        case None
        then show ?thesis by (simp add: Pair)
      next
        case (Some x)
        show ?thesis
        proof (cases x)
          case (Data d)
          then show ?thesis using ok b True by (auto simp: Pair Some)
        next
          case (Sub n)
          have n: "rtree_ok n" using ok b by (auto simp: Pair Some Sub)
          have IH: "Overlap q br \<Longrightarrow> mset (RTreeSearch n q) \<subseteq># hits q (leaves n) \<and>
              (covered n \<longrightarrow> mset (RTreeSearch n q) = hits q (leaves n))"
            using "1.IH" [OF True b Pair [symmetric] Some Sub _ n] by simp
          have "covered (Node c l bs) \<Longrightarrow> covered n \<and> (\<forall>x\<in>#leaves n. \<forall>q. Overlap q (fst x) \<longrightarrow> Overlap q br)"
            using b by (auto simp: covered.simps Pair Some Sub)
          then have "covered (Node c l bs) \<Longrightarrow> \<not> Overlap q br \<Longrightarrow> hits q (leaves n) = {#}"
            by (auto simp: filter_mset_eq_conv)
          with IH \<open>covered (Node c l bs) \<Longrightarrow> _\<close> show ?thesis by (auto simp: Pair Some Sub)
        qed
      qed
    qed
    have "covered (Node c l bs) \<Longrightarrow> map (\<lambda>b. mset (?f b)) bs = map (\<lambda>b. hits q (branch_leaves b)) bs"
      using b by simp
    then show ?thesis unfolding m lv using sum_list_subset [of bs "\<lambda>b. mset (?f b)"] b by presburger
  next
    case False
    have m: "mset (RTreeSearch (Node c l bs) q) = sum_list (map (\<lambda>b. mset (?g b)) bs)"
      using False by (simp add: mset_concat_sum)
    have "mset (?g b) = hits q (branch_leaves b)" if "b \<in> set bs" for b
    proof -
      have "branch_ok l b" using ok that by blast
      with False show ?thesis
        by (cases b) (auto simp: branch_ok_def branch_leaves_def split: option.splits child.splits)
    qed
    then have "map (\<lambda>b. mset (?g b)) bs = map (\<lambda>b. hits q (branch_leaves b)) bs"
      by (intro map_cong refl)
    then have "mset (RTreeSearch (Node c l bs) q) = hits q (leaves (Node c l bs))" unfolding m lv by (simp only:)
    then show ?thesis by (simp only: subset_mset.order_refl simp_thms)
  qed
qed

section \<open>When a split succeeds\<close>

text \<open>Rectangles whose areas stay in range.\<close>

definition proper :: "rect \<Rightarrow> bool" where
  "proper r \<longleftrightarrow> length r = 2 * NUMDIMS \<and> r ! 0 \<le> r ! 2 \<and> r ! 1 \<le> r ! 3 \<and>
     - (2 ^ 30) \<le> r ! 0 \<and> - (2 ^ 30) \<le> r ! 1 \<and> r ! 2 \<le> 2 ^ 30 \<and> r ! 3 \<le> 2 ^ 30"

lemma upt_NUMDIMS: "[0..<NUMDIMS] = [0, 1]"
  by (simp add: NUMDIMS_def upt_rec)

lemma CombineRect_proper:
  assumes "proper r" and "proper s"
  shows "proper (CombineRect r s)" and "CombineRect r s = [min (r ! 0) (s ! 0), min (r ! 1) (s ! 1),
    min (r ! 2) (s ! 2), min (r ! 3) (s ! 3)]"
proof -
  show e: "CombineRect r s = [min (r ! 0) (s ! 0), min (r ! 1) (s ! 1), min (r ! 2) (s ! 2), min (r ! 3) (s ! 3)]"
    using assms unfolding CombineRect_def upt_NUMDIMS by (simp add: proper_def Undefined_def NUMDIMS_def numeral_2_eq_2 numeral_3_eq_3)
  show "proper (CombineRect r s)"
    unfolding e using assms by (simp add: proper_def NUMDIMS_def min_def numeral_2_eq_2 numeral_3_eq_3)
qed

lemma RectArea_proper:
  assumes "proper r"
  shows "RectArea r \<noteq> None" and "r ! 0 = r ! 2 \<Longrightarrow> RectArea r = Some 0"
proof -
  have u: "\<not> Undefined r" using assms by (simp add: Undefined_def proper_def NUMDIMS_def)
  let ?d0 = "\<lfloor>r ! 2 - r ! 0\<rfloor>" and ?d1 = "\<lfloor>r ! 3 - r ! 1\<rfloor>"
  have nn: "0 \<le> r ! 2 - r ! 0" "r ! 2 - r ! 0 \<le> 2 ^ 31" "0 \<le> r ! 3 - r ! 1" "r ! 3 - r ! 1 \<le> 2 ^ 31"
    using assms by (simp_all add: proper_def)
  then have d: "0 \<le> ?d0" "?d0 \<le> 2 ^ 31" "0 \<le> ?d1" "?d1 \<le> 2 ^ 31" by (simp_all add: floor_le_iff)
  have n: "(0::nat) + 2 = 2" "(1::nat) + 2 = 3" by simp_all
  have s: "side r 0 = Some (word_of_int ?d0)" "side r 1 = Some (word_of_int ?d1)"
    unfolding side_def NUMDIMS_def Let_def n using nn by simp_all
  have i: "uint (word_of_int ?d0 :: 64 word) = ?d0" "uint (word_of_int ?d1 :: 64 word) = ?d1"
    using d by (simp_all add: uint_word_of_int)
  have m: "uint (- 1 :: 64 word) = 2 ^ 64 - 1" by (simp add: unsigned_minus_1_eq_mask mask_eq_exp_minus_1)
  have "\<not> (- 1 :: 64 word) div word_of_int ?d0 < 1" if "word_of_int ?d0 \<noteq> (0 :: 64 word)"
  proof -
    have "?d0 \<noteq> 0" using that by auto
    then have "0 < ?d0" using d(1) by linarith
    then have "1 \<le> (2 ^ 64 - 1) div ?d0" using d(2) by (simp add: pos_imp_zdiv_pos_iff int_one_le_iff_zero_less)
    then show ?thesis by (simp add: word_less_def uint_div i m)
  qed
  moreover have "\<not> (- 1 :: 64 word) div word_of_int ?d1 < word_of_int ?d0" if "word_of_int ?d1 \<noteq> (0 :: 64 word)"
  proof -
    have "?d1 \<noteq> 0" using that by auto
    then have "0 < ?d1" using d(3) by linarith
    then have "2 ^ 31 \<le> (2 ^ 64 - 1) div ?d1"
      using d(4) zdiv_mono2 [of "2 ^ 64 - 1" ?d1 "2 ^ 31"] by simp
    then have "?d0 \<le> (2 ^ 64 - 1) div ?d1" using d(2) by linarith
    then show ?thesis unfolding word_less_def uint_div i m by (simp only: not_less)
  qed
  ultimately show "RectArea r \<noteq> None"
    unfolding RectArea_def upt_NUMDIMS area_loop.simps s option.case using u by simp
  show "RectArea r = Some 0" if "r ! 0 = r ! 2"
  proof -
    have "?d0 = 0" using that by simp
    then show ?thesis using u s(1) by (simp add: RectArea_def upt_NUMDIMS)
  qed
qed

text \<open>The state of the partition after the seeds.\<close>

definition part_ok :: "pvars \<Rightarrow> bool" where
  "part_ok p \<longleftrightarrow> (\<forall>i. taken p i \<longrightarrow> i < NODECARD + 1 \<and> partition_of p i \<in> {0, 1}) \<and>
     pcount p 0 = card {i. taken p i \<and> partition_of p i = 0} \<and>
     pcount p 1 = card {i. taken p i \<and> partition_of p i = 1}"

lemma part_ok_init: "part_ok InitPVars"
  by (simp add: part_ok_def InitPVars_def)

lemma Classify_ok:
  assumes p: "part_ok p" and c: "Classify buf i g p = Some p'" and i: "i < NODECARD + 1" and g: "g < 2"
  shows "part_ok p'" and "pcount p' 0 + pcount p' 1 = Suc (pcount p 0 + pcount p 1)"
proof -
  note d = Classify_SomeD(1-4) [OF c]
  have fin: "finite {j. taken p j \<and> P j}" for P
    by (rule finite_subset [of _ "{..<NODECARD + 1}"]) (use p in \<open>auto simp: part_ok_def\<close>)
  have "{j. taken p' j \<and> partition_of p' j = int h} =
      (if h = g then insert i {j. taken p j \<and> partition_of p j = int h} else {j. taken p j \<and> partition_of p j = int h})" for h
    using d(1) by (auto simp: d(2,3))
  then have c: "card {j. taken p' j \<and> partition_of p' j = int h} =
      (if h = g then Suc (card {j. taken p j \<and> partition_of p j = int h}) else card {j. taken p j \<and> partition_of p j = int h})" for h
    using d(1) fin by simp
  have "pcount p' h = (if h = g then Suc (pcount p h) else pcount p h)" for h by (simp add: d(4))
  moreover have "pcount p h = card {j. taken p j \<and> partition_of p j = int h}" if "h < 2" for h
    using p that by (cases h) (auto simp: part_ok_def less_Suc_eq numeral_2_eq_2)
  ultimately have n: "pcount p' h = card {j. taken p' j \<and> partition_of p' j = int h}" if "h < 2" for h
    using c that by simp
  have "taken p' j \<longrightarrow> j < NODECARD + 1 \<and> partition_of p' j \<in> {0, 1}" for j
    using p i g by (auto simp: part_ok_def d(2,3))
  with n [of 0] n [of 1] show "part_ok p'" by (simp add: part_ok_def)
  from g consider "g = 0" | "g = 1" by linarith
  then show "pcount p' 0 + pcount p' 1 = Suc (pcount p 0 + pcount p 1)" by cases (simp_all add: d(4))
qed

lemma part_total:
  assumes p: "part_ok p"
  shows "pcount p 0 + pcount p 1 \<le> NODECARD + 1"
    and "pcount p 0 + pcount p 1 < NODECARD + 1 \<longleftrightarrow> (\<exists>i < NODECARD + 1. \<not> taken p i)"
proof -
  have sub: "{i. taken p i} \<subseteq> {..<NODECARD + 1}" using p by (auto simp: part_ok_def)
  let ?A = "\<lambda>h. {i. taken p i \<and> partition_of p i = h}"
  have fin: "finite (?A h)" for h by (rule finite_subset [of _ "{..<NODECARD + 1}"]) (use sub in auto)
  have u: "{i. taken p i} = ?A 0 \<union> ?A 1" using p by (auto simp: part_ok_def)
  have "card (?A 0 \<union> ?A 1) = card (?A 0) + card (?A 1)" by (rule card_Un_disjoint [OF fin fin]) auto
  then have c: "card {i. taken p i} = pcount p 0 + pcount p 1" unfolding u using p by (simp only: part_ok_def)
  show "pcount p 0 + pcount p 1 \<le> NODECARD + 1" using card_mono [OF _ sub] c by simp
  show "pcount p 0 + pcount p 1 < NODECARD + 1 \<longleftrightarrow> (\<exists>i < NODECARD + 1. \<not> taken p i)"
  proof
    assume "pcount p 0 + pcount p 1 < NODECARD + 1"
    then have "{i. taken p i} \<noteq> {..<NODECARD + 1}" using c by (metis card_lessThan less_irrefl)
    with sub show "\<exists>i < NODECARD + 1. \<not> taken p i" by auto
  next
    assume "\<exists>i < NODECARD + 1. \<not> taken p i"
    then have "{i. taken p i} \<subset> {..<NODECARD + 1}" using sub by auto
    from psubset_card_mono [OF _ this] show "pcount p 0 + pcount p 1 < NODECARD + 1" by (simp add: c)
  qed
qed

text \<open>A buffer of proper rectangles, and the covers that arise from it.\<close>

definition proper_buf :: "'d branch list \<Rightarrow> bool" where
  "proper_buf buf \<longleftrightarrow> length buf = NODECARD + 1 \<and> (\<forall>b\<in>set buf. proper (fst b) \<and> snd b \<noteq> None)"

definition covers_ok :: "pvars \<Rightarrow> bool" where
  "covers_ok p \<longleftrightarrow> (\<forall>g. 0 < pcount p g \<longrightarrow> proper (cover p g))"

lemma buf_proper: "proper_buf buf \<Longrightarrow> i < NODECARD + 1 \<Longrightarrow> proper (fst (buf ! i))"
  by (simp add: proper_buf_def)

lemma Classify_total:
  assumes "proper_buf buf" and "covers_ok p" and "i < NODECARD + 1" and "\<not> taken p i"
  shows "\<exists>p'. Classify buf i g p = Some p' \<and> covers_ok p'"
proof -
  define c where "c = (if pcount p g = 0 then fst (buf ! i) else CombineRect (fst (buf ! i)) (cover p g))"
  have c: "proper c"
    using buf_proper [OF assms(1,3)] assms(2) CombineRect_proper(1) by (auto simp: covers_ok_def c_def)
  then obtain a where a: "RectArea c = Some a" using RectArea_proper(1) [of c] by blast
  let ?p = "p\<lparr>partition_of := (partition_of p)(i := int g), taken := (taken p)(i := True),
            cover := (cover p)(g := c), parea := (parea p)(g := a),
            pcount := (pcount p)(g := Suc (pcount p g))\<rparr>"
  have "Classify buf i g p = Some ?p"
    using assms(4) a by (simp only: Classify_def Let_def option.map if_False c_def [symmetric])
  moreover have "covers_ok ?p" using assms(2) c by (simp add: covers_ok_def)
  ultimately show ?thesis by blast
qed

lemma choose_loop_total:
  assumes b: "proper_buf buf" and c: "covers_ok p" "0 < pcount p 0" "0 < pcount p 1"
  shows "\<forall>i\<in>set is. i < NODECARD + 1 \<Longrightarrow>
    (biggest \<noteq> None \<longrightarrow> fst chosen < NODECARD + 1 \<and> \<not> taken p (fst chosen) \<and> snd chosen < 2) \<Longrightarrow>
    biggest \<noteq> None \<or> (\<exists>i\<in>set is. \<not> taken p i) \<Longrightarrow>
    \<exists>i g. choose_loop buf p is biggest chosen = Some (i, g) \<and> i < NODECARD + 1 \<and> \<not> taken p i \<and> g < 2"
proof (induction "is" arbitrary: biggest chosen)
  case Nil
  then show ?case by (cases chosen) auto
next
  case (Cons i js)
  show ?case
  proof (cases "taken p i")
    case True
    with Cons.IH [of biggest chosen] Cons.prems show ?thesis by auto
  next
    case False
    have i: "proper (fst (buf ! i))" using buf_proper [OF b] Cons.prems(1) by simp
    have "proper (CombineRect (fst (buf ! i)) (cover p 0))" "proper (CombineRect (fst (buf ! i)) (cover p 1))"
      using CombineRect_proper(1) [OF i] c by (simp_all add: covers_ok_def)
    then obtain a0 a1 where a: "RectArea (CombineRect (fst (buf ! i)) (cover p 0)) = Some a0"
      "RectArea (CombineRect (fst (buf ! i)) (cover p 1)) = Some a1"
      using RectArea_proper(1) by blast
    let ?g0 = "a0 - parea p 0" and ?g1 = "a1 - parea p 1"
    let ?diff = "if ?g1 \<ge> ?g0 then ?g1 - ?g0 else ?g0 - ?g1" and ?grp = "if ?g1 \<ge> ?g0 then 0 else 1 :: nat"
    have eq: "choose_loop buf p (i # js) biggest chosen =
        (if biggest = None \<or> the biggest < ?diff then choose_loop buf p js (Some ?diff) (i, ?grp)
         else if biggest = Some ?diff \<and> pcount p ?grp < pcount p (snd chosen) then choose_loop buf p js biggest (i, ?grp)
         else choose_loop buf p js biggest chosen)"
      using False by (simp only: choose_loop.simps a option.case prod.case Let_def if_False)
    have "\<exists>x g. choose_loop buf p js big (i, ?grp) = Some (x, g) \<and> x < NODECARD + 1 \<and> \<not> taken p x \<and> g < 2"
      if "big \<noteq> None" for big using Cons.IH [of big "(i, ?grp)"] that Cons.prems(1) False by simp
    moreover have "\<exists>x g. choose_loop buf p js biggest chosen = Some (x, g) \<and> x < NODECARD + 1 \<and> \<not> taken p x \<and> g < 2"
      if "biggest \<noteq> None" using Cons.IH [of biggest chosen] that Cons.prems(1,2) by simp
    moreover have "biggest \<noteq> None" if "\<not> (biggest = None \<or> the biggest < ?diff)" using that by simp
    ultimately have branches: "\<And>big. big \<noteq> None \<Longrightarrow>
        \<exists>x g. choose_loop buf p js big (i, ?grp) = Some (x, g) \<and> x < NODECARD + 1 \<and> \<not> taken p x \<and> g < 2"
      "biggest \<noteq> None \<Longrightarrow>
        \<exists>x g. choose_loop buf p js biggest chosen = Some (x, g) \<and> x < NODECARD + 1 \<and> \<not> taken p x \<and> g < 2"
      by blast+
    show ?thesis
    proof (cases "biggest = None \<or> the biggest < ?diff")
      case True
      show ?thesis unfolding eq if_P [OF True] by (rule branches(1)) simp
    next
      case no: False
      then have some: "biggest \<noteq> None" by simp
      show ?thesis
      proof (cases "biggest = Some ?diff \<and> pcount p ?grp < pcount p (snd chosen)")
        case True
        show ?thesis unfolding eq if_not_P [OF no] if_P [OF True] by (rule branches(1) [OF some])
      next
        case False
        show ?thesis unfolding eq if_not_P [OF no] if_not_P [OF False] by (rule branches(2) [OF some])
      qed
    qed
  qed
qed

lemma method_loop_total:
  assumes b: "proper_buf buf"
  shows "part_ok p \<Longrightarrow> covers_ok p \<Longrightarrow> 0 < pcount p 0 \<Longrightarrow> 0 < pcount p 1 \<Longrightarrow>
    NODECARD + 1 - (pcount p 0 + pcount p 1) < k \<Longrightarrow>
    \<exists>p'. method_loop k buf p chosen = Some p' \<and> part_ok p' \<and> 0 < pcount p' 0 \<and> 0 < pcount p' 1 \<and>
      pcount p' 0 + pcount p' 1 = NODECARD + 1"
proof (induction k arbitrary: p chosen)
  case (Suc k)
  note tot = part_total [OF Suc.prems(1)]
  show ?case
  proof (cases "pcount p 0 + pcount p 1 < NODECARD + 1")
    case False
    with tot(1) Suc.prems(1,3,4) show ?thesis by simp
  next
    case True
    then have small: "pcount p 0 < NODECARD + 1" "pcount p 1 < NODECARD + 1" by simp_all
    from True tot(2) have "\<exists>i\<in>set [0..<NODECARD + 1]. \<not> taken p i" by (auto simp del: upt_Suc)
    with choose_loop_total [OF b Suc.prems(2-4), of "[0..<NODECARD + 1]" None chosen] obtain i g where
      c: "choose_loop buf p [0..<NODECARD + 1] None chosen = Some (i, g)" "i < NODECARD + 1" "\<not> taken p i" "g < 2"
      by (auto simp del: upt_Suc choose_loop.simps)
    from Classify_total [OF b Suc.prems(2) c(2,3), of g] obtain p1 where
      p1: "Classify buf i g p = Some p1" "covers_ok p1" by blast
    note k1 = Classify_ok [OF Suc.prems(1) p1(1) c(2,4)]
    have "0 < pcount p1 0" "0 < pcount p1 1" using Classify_SomeD(4) [OF p1(1)] Suc.prems(3,4) by simp_all
    moreover have "NODECARD + 1 - (pcount p1 0 + pcount p1 1) < k" using k1(2) True Suc.prems(5) by simp
    ultimately obtain p' where "method_loop k buf p1 (i, g) = Some p' \<and> part_ok p' \<and> 0 < pcount p' 0 \<and> 0 < pcount p' 1 \<and>
      pcount p' 0 + pcount p' 1 = NODECARD + 1" using Suc.IH [OF k1(1) p1(2)] by blast
    moreover have "method_loop (Suc k) buf p chosen = method_loop k buf p1 (i, g)"
      using True small c(1) p1(1) by (simp del: upt_Suc choose_loop.simps)
    ultimately show ?thesis by simp
  qed
qed simp


text \<open>The waste of a pair, as \<open>PickSeeds\<close> computes it.\<close>

definition waste :: "'d branch list \<Rightarrow> 64 word list \<Rightarrow> nat \<times> nat \<Rightarrow> 64 word" where
  "waste buf area ij = the (RectArea (CombineRect (fst (buf ! fst ij)) (fst (buf ! snd ij)))) - area ! fst ij - area ! snd ij"

definition wasteful :: "'d branch list \<Rightarrow> bool" where
  "wasteful buf \<longleftrightarrow> (\<exists>ij\<in>set seed_pairs. 0 < waste buf (map (\<lambda>b. the (RectArea (fst b))) buf) ij)"

lemma areas_total: "\<forall>b\<in>set bs. proper (fst b) \<Longrightarrow> areas bs = Some (map (\<lambda>b. the (RectArea (fst b))) bs)"
  using RectArea_proper(1) by (induction bs) fastforce+

lemma seed_loop_total:
  assumes b: "proper_buf buf"
  shows "set ijs \<subseteq> set seed_pairs \<Longrightarrow>
    \<exists>s. seed_loop buf area ijs worst seeds = Some s \<and>
      (if \<exists>ij\<in>set ijs. worst < waste buf area ij then s \<in> set ijs else s = seeds)"
proof (induction ijs arbitrary: worst seeds)
  case (Cons ij ijs)
  have "fst ij < NODECARD + 1" "snd ij < NODECARD + 1"
    using Cons.prems seed_pairs_bound [of "fst ij" "snd ij"] by auto
  from CombineRect_proper(1) [OF buf_proper [OF b this(1)] buf_proper [OF b this(2)]]
  obtain a where a: "RectArea (CombineRect (fst (buf ! fst ij)) (fst (buf ! snd ij))) = Some a"
    using RectArea_proper(1) by blast
  have eq: "seed_loop buf area (ij # ijs) worst seeds =
      (if worst < waste buf area ij then seed_loop buf area ijs (waste buf area ij) ij
       else seed_loop buf area ijs worst seeds)"
    by (simp add: a waste_def Let_def)
  have sub: "set ijs \<subseteq> set seed_pairs" using Cons.prems by simp
  show ?case
  proof (cases "worst < waste buf area ij")
    case True
    from Cons.IH [OF sub, of "waste buf area ij" ij] True show ?thesis
      unfolding eq if_P [OF True] by (auto split: if_splits)
  next
    case False
    from Cons.IH [OF sub, of worst seeds] False show ?thesis
      unfolding eq if_not_P [OF False] by (auto split: if_splits)
  qed
qed simp

lemma PickSeeds_total:
  assumes b: "proper_buf buf" and w: "wasteful buf"
  shows "\<exists>p. PickSeeds buf InitPVars = Some p \<and> part_ok p \<and> covers_ok p \<and> pcount p 0 = 1 \<and> pcount p 1 = 1"
proof -
  define area where "area = map (\<lambda>b. the (RectArea (fst b))) buf"
  have ar: "areas buf = Some area" unfolding area_def by (rule areas_total) (use b in \<open>simp add: proper_buf_def\<close>)
  from w have "\<exists>ij\<in>set seed_pairs. 0 < waste buf area ij" by (simp add: wasteful_def area_def)
  with seed_loop_total [OF b subset_refl, of area 0 "(0, 0)"] obtain i j where
    s: "seed_loop buf area seed_pairs 0 (0, 0) = Some (i, j)" "(i, j) \<in> set seed_pairs" by (auto split: if_splits)
  from s(2) have ij: "i < NODECARD + 1" "j < NODECARD + 1" "j \<noteq> i" by (auto simp: seed_pairs_bound)
  have c0: "covers_ok InitPVars" by (simp add: covers_ok_def InitPVars_def)
  have "\<not> taken InitPVars i" by (simp add: InitPVars_def)
  from Classify_total [OF b c0 ij(1) this, of 0] obtain p1 where
    p1: "Classify buf i 0 InitPVars = Some p1" "covers_ok p1" by blast
  note d1 = Classify_SomeD(3,4) [OF p1(1)]
  have "\<not> taken p1 j" using ij(3) by (simp add: d1 InitPVars_def)
  from Classify_total [OF b p1(2) ij(2) this, of 1] obtain p2 where
    p2: "Classify buf j 1 p1 = Some p2" "covers_ok p2" by blast
  have "PickSeeds buf InitPVars = Some p2"
    using ar s(1) p1(1) p2(1) by (simp add: PickSeeds_def)
  moreover have "part_ok p2"
    using Classify_ok(1) [OF Classify_ok(1) [OF part_ok_init p1(1) ij(1)] p2(1) ij(2)] by simp
  moreover have "pcount p2 0 = 1" "pcount p2 1 = 1"
    by (simp_all add: Classify_SomeD(4) [OF p2(1)] d1 InitPVars_def)
  ultimately show ?thesis using p2(2) by blast
qed

lemma MethodZero_total:
  assumes b: "proper_buf buf" and w: "wasteful buf"
  shows "\<exists>p. MethodZero buf = Some p \<and> part_ok p \<and> 0 < pcount p 0 \<and> 0 < pcount p 1 \<and>
    pcount p 0 + pcount p 1 = NODECARD + 1"
proof -
  from PickSeeds_total [OF b w] obtain p where p: "PickSeeds buf InitPVars = Some p" "part_ok p" "covers_ok p"
    "pcount p 0 = 1" "pcount p 1 = 1" by blast
  have "\<exists>p'. method_loop (NODECARD + 2) buf p (0, 0) = Some p' \<and> part_ok p' \<and> 0 < pcount p' 0 \<and> 0 < pcount p' 1 \<and>
      pcount p' 0 + pcount p' 1 = NODECARD + 1"
    proof (rule method_loop_total [OF b p(2,3)])
    show "0 < pcount p 0" "0 < pcount p 1" unfolding p(4,5) by (rule zero_less_one)+
  qed simp
  then obtain p' where p': "method_loop (NODECARD + 2) buf p (0, 0) = Some p'" "part_ok p'" "0 < pcount p' 0"
    "0 < pcount p' 1" "pcount p' 0 + pcount p' 1 = NODECARD + 1" by blast
  have "MethodZero buf = Some p'"
    by (simp only: MethodZero_def p(1) option.case p'(1) p'(5) less_irrefl if_False if_True simp_thms)
  with p' show ?thesis by blast
qed

lemma part_ok_groups:
  assumes p: "part_ok p" and all: "pcount p 0 + pcount p 1 = NODECARD + 1"
  shows "i < NODECARD + 1 \<Longrightarrow> partition_of p i = 0 \<or> partition_of p i = 1"
    and "length (filter (\<lambda>i. partition_of p i = 0) [0..<NODECARD + 1]) = pcount p 0"
    and "length (filter (\<lambda>i. partition_of p i = 1) [0..<NODECARD + 1]) = pcount p 1"
proof -
  have t: "taken p i \<longleftrightarrow> i < NODECARD + 1" for i
    using part_total(2) [OF p] all p by (auto simp: part_ok_def)
  show "i < NODECARD + 1 \<Longrightarrow> partition_of p i = 0 \<or> partition_of p i = 1" using p t by (auto simp: part_ok_def)
  have l: "length (filter P [0..<n]) = card {i. i < n \<and> P i}" for P and n :: nat
  proof -
    have "set (filter P [0..<n]) = {i. i < n \<and> P i}" by auto
    then show ?thesis using distinct_card [of "filter P [0..<n]"] by simp
  qed
  show "length (filter (\<lambda>i. partition_of p i = 0) [0..<NODECARD + 1]) = pcount p 0"
    "length (filter (\<lambda>i. partition_of p i = 1) [0..<NODECARD + 1]) = pcount p 1"
    unfolding l using p by (simp_all only: part_ok_def t)
qed

lemma LoadNodes_total:
  assumes "rtree_ok n" and "rtree_ok q" and "nlevel q = nlevel n"
    and "\<forall>i\<in>set is. branch_ok (nlevel n) (buf ! i) \<and> snd (buf ! i) \<noteq> None \<and> partition_of p i \<in> {0, 1}"
    and "ncount n + length (filter (\<lambda>i. partition_of p i = 0) is) \<le> NODECARD"
    and "ncount q + length (filter (\<lambda>i. partition_of p i = 1) is) \<le> NODECARD"
  shows "\<exists>n' q'. LoadNodes p buf is n q = Some (n', q')"
  using assms
proof (induction "is" arbitrary: n q)
  case (Cons i js)
  have i: "branch_ok (nlevel n) (buf ! i)" "snd (buf ! i) \<noteq> None" using Cons.prems(4) by simp_all
  show ?case
  proof (cases "partition_of p i = 0")
    case True
    then have "ncount n < NODECARD" using Cons.prems(5) by simp
    with place_branch_Some [OF Cons.prems(1), of "buf ! i"] obtain n1 where n1: "AddBranch_null (buf ! i) n = Some n1"
      by (auto simp: AddBranch_null_def)
    note a = AddBranch_null_ok [OF Cons.prems(1) i n1]
    have "\<exists>n' q'. LoadNodes p buf js n1 q = Some (n', q')"
      by (rule Cons.IH) (use a Cons.prems True in simp_all)
    then show ?thesis using True n1 by simp
  next
    case False
    then have p1: "partition_of p i = 1" using Cons.prems(4) by simp
    then have "ncount q < NODECARD" using Cons.prems(6) by simp
    with place_branch_Some [OF Cons.prems(2), of "buf ! i"] obtain q1 where q1: "AddBranch_null (buf ! i) q = Some q1"
      by (auto simp: AddBranch_null_def)
    have "branch_ok (nlevel q) (buf ! i)" using i(1) Cons.prems(3) by simp
    note a = AddBranch_null_ok [OF Cons.prems(2) this i(2) q1]
    have "\<exists>n' q'. LoadNodes p buf js n q1 = Some (n', q')"
      by (rule Cons.IH) (use a Cons.prems p1 in simp_all)
    then show ?thesis using p1 q1 by simp
  qed
qed simp


lemma cover_proper:
  "\<forall>b\<in>set bs. proper (fst b) \<Longrightarrow> proper r \<Longrightarrow> proper (foldl (\<lambda>r x. CombineRect r (fst x)) r bs)"
  by (induction bs arbitrary: r) (simp_all add: CombineRect_proper(1))

text \<open>The buffer of a full node.\<close>

lemma full_buffer:
  assumes ok: "rtree_ok n" and full: "ncount n = NODECARD" and pr: "\<forall>x\<in>set (branches n). proper (fst x)"
    and b: "proper (fst b)" "snd b \<noteq> None"
  shows "GetBranches n b = Some (branches n @ [b])" and "proper_buf (branches n @ [b])"
proof -
  have len: "length (branches n) = NODECARD" using ok by (simp add: rtree_ok_iff)
  have "used (branches n) = length (branches n)" using ok full by (simp add: rtree_ok_iff)
  then have all: "\<forall>x\<in>set (branches n). snd x \<noteq> None" by (metis (mono_tags, lifting) length_filter_less less_irrefl)
  show "proper_buf (branches n @ [b])" using len pr b all by (auto simp: proper_buf_def)
  obtain x xs where x: "branches n = x # xs" using len by (cases "branches n") (simp_all add: NODECARD_def)
  have "proper (foldl (\<lambda>r x. CombineRect r (fst x)) (fst (hd (branches n @ [b]))) (tl (branches n @ [b])))"
    by (rule cover_proper) (use pr b in \<open>simp_all add: x\<close>)
  from RectArea_proper(1) [OF this] show "GetBranches n b = Some (branches n @ [b])"
    using all by (auto simp: GetBranches_def list_all_iff Let_def)
qed

lemma SplitNode_total:
  assumes ok: "rtree_ok n" and full: "ncount n = NODECARD" and pr: "\<forall>x\<in>set (branches n). proper (fst x)"
    and b: "proper (fst b)" "snd b \<noteq> None" "branch_ok (nlevel n) b" and w: "wasteful (branches n @ [b])"
  shows "\<exists>n1 q. SplitNode n b = Some (n1, q)"
proof -
  define buf where "buf = branches n @ [b]"
  note buf = full_buffer [OF ok full pr b(1,2), folded buf_def]
  from MethodZero_total [OF buf(2)] w obtain p where p: "MethodZero buf = Some p" "part_ok p" "0 < pcount p 0"
    "0 < pcount p 1" "pcount p 0 + pcount p 1 = NODECARD + 1" by (auto simp: buf_def)
  have len: "length buf = NODECARD + 1" using ok by (simp add: buf_def rtree_ok_iff)
  have l0: "0 \<le> nlevel n" using ok by (simp add: rtree_ok_iff)
  let ?n = "set_level (nlevel n) InitNode :: 'a node"
  note e = empty_node_ok(1) [OF l0] empty_node_ok(2-4)
  note g = part_ok_groups [OF p(2,5)]
  have br: "\<forall>i\<in>set [0..<NODECARD + 1]. branch_ok (nlevel ?n) (buf ! i) \<and> snd (buf ! i) \<noteq> None \<and> partition_of p i \<in> {0, 1}"
  proof
    fix i assume i: "i \<in> set [0..<NODECARD + 1]"
    then have "buf ! i \<in> set buf" using len by (intro nth_mem) auto
    moreover have "\<forall>x\<in>set buf. branch_ok (nlevel n) x \<and> snd x \<noteq> None"
      using ok b(3) buf(2) by (simp add: buf_def proper_buf_def rtree_ok_iff)
    ultimately show "branch_ok (nlevel ?n) (buf ! i) \<and> snd (buf ! i) \<noteq> None \<and> partition_of p i \<in> {0, 1}"
      using g(1) [of i] i by (auto simp: e(3))
  qed
  have le: "ncount ?n + length (filter (\<lambda>i. partition_of p i = 0) [0..<NODECARD + 1]) \<le> NODECARD"
    "ncount ?n + length (filter (\<lambda>i. partition_of p i = 1) [0..<NODECARD + 1]) \<le> NODECARD"
    unfolding g(2,3) e(4) using p(3-5) by simp_all
  from LoadNodes_total [OF e(1) e(1) refl br le] obtain n1 q where
    ld: "LoadNodes p buf [0..<NODECARD + 1] ?n ?n = Some (n1, q)" by blast
  have "ncount n1 = ncount ?n + pcount p 0 \<and> ncount q = ncount ?n + pcount p 1"
    using LoadNodes_ok [OF e(1) e(1) refl _ ld] br unfolding g(2,3) by blast
  then have "ncount n1 + ncount q = NODECARD + 1" using p(5) by (simp add: e(4))
  then have "SplitNode n b = Some (n1, q)"
    using buf(1) [unfolded buf_def] p(1) ld by (simp add: SplitNode_def buf_def RTreeNewNode_def del: upt_Suc LoadNodes.simps)
  then show ?thesis by blast
qed

text \<open>Rectangles without width waste nothing, so the seeds stay the same branch.\<close>

lemma flat_areas: "\<forall>b\<in>set bs. proper (fst b) \<and> fst b ! 0 = fst b ! 2 \<Longrightarrow> areas bs = Some (replicate (length bs) 0)"
  by (induction bs) (simp_all add: RectArea_proper(2))

lemma flat_seeds:
  assumes "proper_buf buf" and "\<forall>b\<in>set buf. fst b ! 0 = fst b ! 2"
  shows "PickSeeds buf InitPVars = None"
proof -
  have flat: "CombineRect (fst (buf ! i)) (fst (buf ! j)) ! 0 = CombineRect (fst (buf ! i)) (fst (buf ! j)) ! 2"
    if "i < NODECARD + 1" "j < NODECARD + 1" for i j
  proof -
    have "buf ! i \<in> set buf" "buf ! j \<in> set buf" using assms(1) that by (simp_all add: proper_buf_def)
    then show ?thesis
      using CombineRect_proper(2) [OF buf_proper [OF assms(1) that(1)] buf_proper [OF assms(1) that(2)]] assms(2) by simp
  qed
  have z: "RectArea (CombineRect (fst (buf ! i)) (fst (buf ! j))) = Some 0" if "i < NODECARD + 1" "j < NODECARD + 1" for i j
    by (rule RectArea_proper(2) [OF CombineRect_proper(1) [OF buf_proper [OF assms(1) that(1)] buf_proper [OF assms(1) that(2)]]
      flat [OF that]])
  define area where "area = replicate (length buf) (0 :: 64 word)"
  have ar: "areas buf = Some area" unfolding area_def by (rule flat_areas) (use assms in \<open>simp add: proper_buf_def\<close>)
  have w: "waste buf area ij = 0" if "ij \<in> set seed_pairs" for ij
  proof -
    have l: "fst ij < NODECARD + 1" "snd ij < NODECARD + 1" using that seed_pairs_bound [of "fst ij" "snd ij"] by auto
    have "length buf = NODECARD + 1" using assms(1) by (simp only: proper_buf_def)
    with l have "area ! fst ij = 0" "area ! snd ij = 0" unfolding area_def by (simp_all only: nth_replicate)
    with z [OF l] show ?thesis by (simp add: waste_def)
  qed
  from seed_loop_total [OF assms(1) subset_refl, of area 0 "(0, 0)"] w
  have s: "seed_loop buf area seed_pairs 0 (0, 0) = Some (0, 0)" by (auto split: if_splits)
  show ?thesis
  proof (cases "Classify buf 0 0 InitPVars")
    case (Some p1)
    then have "Classify buf 0 1 p1 = None" using Classify_SomeD(3) [OF Some] by (simp add: Classify_def)
    then show ?thesis using ar s Some by (simp add: PickSeeds_def)
  qed (use ar s in \<open>simp add: PickSeeds_def\<close>)
qed

section \<open>Insertion without a split\<close>

text \<open>Every node has room, every rectangle is in range.\<close>

fun roomy :: "'d node \<Rightarrow> bool" where
  "roomy (Node c l bs) \<longleftrightarrow> c < NODECARD \<and> (\<forall>b\<in>set bs. case b of (r, None) \<Rightarrow> True | (r, Some (Data d)) \<Rightarrow> proper r
     | (r, Some (Sub n)) \<Rightarrow> proper r \<and> roomy n)"

declare roomy.simps [simp del]

lemma roomy_branch:
  "roomy n \<Longrightarrow> b \<in> set (branches n) \<Longrightarrow> snd b \<noteq> None \<Longrightarrow> proper (fst b)"
  "roomy n \<Longrightarrow> b \<in> set (branches n) \<Longrightarrow> snd b = Some (Sub c) \<Longrightarrow> roomy c"
  "roomy n \<Longrightarrow> ncount n < NODECARD"
proof -
  assume r: "roomy n" and b: "b \<in> set (branches n)"
  have "case b of (r, None) \<Rightarrow> True | (r, Some (Data d)) \<Rightarrow> proper r | (r, Some (Sub n)) \<Rightarrow> proper r \<and> roomy n"
    using r b by (cases n) (simp only: roomy.simps node.sel)
  then show "snd b \<noteq> None \<Longrightarrow> proper (fst b)" "snd b = Some (Sub c) \<Longrightarrow> roomy c"
    by (auto split: prod.splits option.splits child.splits)
qed (cases n, simp add: roomy.simps)

lemma pick_loop_total:
  assumes r: "proper r"
  shows "\<forall>b\<in>set bs. snd b \<noteq> None \<longrightarrow> proper (fst b) \<Longrightarrow>
    (\<exists>k. pick_loop r bs i best = Some k \<and>
      (case best of Some x \<Rightarrow> k = fst x | None \<Rightarrow> \<forall>b\<in>set bs. snd b = None)) \<or>
      (\<exists>j < length bs. pick_loop r bs i best = Some (i + j) \<and> snd (bs ! j) \<noteq> None)"
proof (induction bs arbitrary: i best)
  case Nil
  then show ?case by (cases best) auto
next
  case (Cons b bs)
  obtain rr ch where b: "b = (rr, ch)" by force
  have later: "\<exists>j < length (b # bs). pick_loop r bs (Suc i) x = Some (i + j) \<and> snd ((b # bs) ! j) \<noteq> None"
    if "\<exists>j < length bs. pick_loop r bs (Suc i) x = Some (Suc i + j) \<and> snd (bs ! j) \<noteq> None" for x
  proof -
    from that obtain j where "j < length bs" "pick_loop r bs (Suc i) x = Some (Suc i + j)" "snd (bs ! j) \<noteq> None" by blast
    then show ?thesis by (intro exI [of _ "Suc j"]) simp
  qed
  have prems: "\<forall>b\<in>set bs. snd b \<noteq> None \<longrightarrow> proper (fst b)" using Cons.prems by simp
  show ?case
  proof (cases ch)
    case None
    from Cons.IH [OF prems, of "Suc i" best] later [of best] show ?thesis
      by (auto simp: b None split: option.splits)
  next
    case (Some c)
    then have "proper rr" using Cons.prems b by simp
    from RectArea_proper(1) [OF this] RectArea_proper(1) [OF CombineRect_proper(1) [OF r this]] obtain a g where
      ag: "RectArea rr = Some a" "RectArea (CombineRect r rr) = Some g" by blast
    define best' where "best' = (case best of None \<Rightarrow> (i, g - a, a) | Some x \<Rightarrow>
        if g - a < fst (snd x) \<or> g - a = fst (snd x) \<and> a < snd (snd x) then (i, g - a, a) else x)"
    have eq: "pick_loop r (b # bs) i best = pick_loop r bs (Suc i) (Some best')"
    proof (cases best)
      case None
      then show ?thesis by (simp add: b Some ag best'_def)
    next
      case (Some x)
      then show ?thesis by (cases x) (simp add: b \<open>ch = Some c\<close> ag best'_def Let_def)
    qed
    have f: "fst best' = i \<or> best = Some best'" by (auto simp: best'_def split: option.splits if_splits)
    from Cons.IH [OF prems, of "Suc i" "Some best'"] show ?thesis
    proof
      assume "\<exists>k. pick_loop r bs (Suc i) (Some best') = Some k \<and> (case Some best' of Some x \<Rightarrow> k = fst x | None \<Rightarrow> \<forall>b\<in>set bs. snd b = None)"
      then obtain k where k: "pick_loop r bs (Suc i) (Some best') = Some k \<and> k = fst best'" by auto
      from f show ?thesis
      proof
        assume "fst best' = i"
        with k have "0 < length (b # bs) \<and> pick_loop r (b # bs) i best = Some (i + 0) \<and> snd ((b # bs) ! 0) \<noteq> None"
          by (simp add: eq) (simp add: b Some)
        then show ?thesis by blast
      next
        assume "best = Some best'"
        with k show ?thesis unfolding eq by simp
      qed
    next
      assume "\<exists>j < length bs. pick_loop r bs (Suc i) (Some best') = Some (Suc i + j) \<and> snd (bs ! j) \<noteq> None"
      from later [OF this] show ?thesis unfolding eq by blast
    qed
  qed
qed

lemma PickBranch_total:
  assumes "rtree_ok n" and "roomy n" and "proper r" and "0 < ncount n" and "0 < nlevel n"
  shows "\<exists>i c. PickBranch r n = Some i \<and> sub_node n i = Some c"
proof -
  have pr: "\<forall>b\<in>set (branches n). snd b \<noteq> None \<longrightarrow> proper (fst b)" using roomy_branch(1) [OF assms(2)] by blast
  have "filter (\<lambda>b. snd b \<noteq> None) (branches n) \<noteq> []" using assms(1,4) by (auto simp: rtree_ok_iff simp del: filter_empty_conv)
  then have "\<not> (\<forall>b\<in>set (branches n). snd b = None)" by (simp add: filter_empty_conv)
  with pick_loop_total [OF assms(3) pr, of 0 None] obtain j where
    j: "j < length (branches n)" "PickBranch r n = Some j" "snd (branches n ! j) \<noteq> None"
    by (auto simp: PickBranch_def)
  have "branch_ok (nlevel n) (branches n ! j)" using assms(1) j(1) by (simp add: rtree_ok_iff)
  with j(1,3) assms(5) have "\<exists>c. sub_node n j = Some c"
    by (auto simp: sub_node_def branch_ok_def split: option.splits child.splits prod.splits)
  with j(2) show ?thesis by blast
qed

lemma RTreeInsert2_room:
  assumes "rtree_ok n" and "roomy n" and "proper r" and "nlevel n = 0 \<or> 0 < ncount n"
  shows "\<exists>n'. RTreeInsert2 r d n 0 = Some (n', None)"
  using assms
proof (induction n rule: measure_induct_rule [of size])
  case (less n)
  show ?case
  proof (cases "0 < nlevel n")
    case False
    then have "nlevel n = 0" using less.prems(1) by (simp add: rtree_ok_iff)
    moreover have "ncount n < NODECARD" by (rule roomy_branch(3) [OF less.prems(2)])
    ultimately show ?thesis using place_branch_Some [OF less.prems(1), of "(r, Some (Data d))"]
      by (auto simp: RTreeInsert2.simps [of r d n] AddBranch_def)
  next
    case True
    with PickBranch_total [OF less.prems(1-3)] less.prems(4) obtain i c where
      i: "PickBranch r n = Some i" "sub_node n i = Some c" by auto
    note m = sub_node_member [OF i(2)]
    have "branch_ok (nlevel n) (branches n ! i)" using m less.prems(1) by (simp add: rtree_ok_iff)
    with m have c: "rtree_ok c" "0 < ncount c" by (cases "branches n ! i"; auto)+
    have "roomy c" using roomy_branch(2) [OF less.prems(2)] m by blast
    from less.IH [OF sub_node_size [OF i(2)] c(1) this less.prems(3)] c(2) obtain c' where
      "RTreeInsert2 r d c 0 = Some (c', None)" by blast
    with True i show ?thesis by (simp add: RTreeInsert2.simps [of r d n])
  qed
qed

section \<open>Properties\<close>

lemma AddBranch_null_new:
  assumes "rtree_ok n" and "rtree_ok m" and "nlevel m = nlevel n" and "0 < ncount n" and "0 < ncount m"
    and "AddBranch_null (r, Some (Sub n)) (set_level (nlevel n + 1) RTreeNewNode) = Some r1"
    and "AddBranch_null (r', Some (Sub m)) r1 = Some r2"
  shows "rtree_ok r2 \<and> leaves r2 = leaves n + leaves m \<and> nlevel r2 = nlevel n + 1 \<and> 0 < ncount r2"
proof -
  have l: "0 \<le> nlevel n + 1" "0 < nlevel n + 1" using assms(1) by (simp_all add: rtree_ok_iff)
  note e = empty_node_ok(1) [OF l(1)] empty_node_ok(2-4)
  from AddBranch_null_ok [OF e(1) _ _ assms(6) [unfolded RTreeNewNode_def]] assms(1,4) l
  have r1: "rtree_ok r1" "leaves r1 = leaves n" "nlevel r1 = nlevel n + 1" by (simp_all add: e)
  from AddBranch_null_ok [OF r1(1) _ _ assms(7)] assms(2,3,5) l r1 show ?thesis by simp
qed


text \<open>
  Insertion returns, without a split, as long as every node has room and the rectangles are in range.
\<close>

lemma rtree_insert_returns:
  assumes "rtree_ok n" and "roomy n" and "proper r" and "nlevel n = 0 \<or> 0 < ncount n"
  shows "\<exists>n'. RTreeInsert r d n = Some (False, n') \<and> leaves n' = add_mset (r, d) (leaves n)"
proof -
  from RTreeInsert2_room [OF assms] obtain n' where n': "RTreeInsert2 r d n 0 = Some (n', None)" by blast
  have "r ! 0 \<le> r ! NUMDIMS \<and> r ! Suc 0 \<le> r ! Suc NUMDIMS"
    using assms(3) by (simp add: proper_def NUMDIMS_def numeral_2_eq_2 numeral_3_eq_3)
  then have "RTreeInsert r d n = Some (False, n')" using n' by (simp add: RTreeInsert_def upt_NUMDIMS)
  with RTreeInsert2_ok [OF assms(1) n'] show ?thesis by simp
qed

definition leaf_a :: "string node" where
  "leaf_a = Node 1 0 (([0, 0, 1, 1], Some (Data ''a'')) # replicate 63 InitBranch)"

definition tree_a :: "string node" where
  "tree_a = Node 1 1 (([0, 0, 1, 1], Some (Sub leaf_a)) # replicate 63 InitBranch)"

lemma no_leaves: "sum_list (replicate k {#}) = {#}"
  by (induction k) simp_all

lemma init_branches: "filter (\<lambda>b. snd b \<noteq> None) (replicate k InitBranch) = []"
  "x \<in> set (replicate k InitBranch) \<Longrightarrow> snd x = None"
  by (auto simp: filter_empty_conv InitBranch_def)

lemma tree_a_ok: "rtree_ok leaf_a" "rtree_ok tree_a" "covered tree_a" "roomy tree_a"
proof -
  have p: "proper [0, 0, 1, 1]" by (simp add: proper_def NUMDIMS_def)
  have i: "\<forall>x\<in>set (replicate 63 (InitBranch :: string branch)). snd x = None" using init_branches(2) by blast
  then have b: "\<forall>x\<in>set (replicate 63 (InitBranch :: string branch)). branch_ok l x" for l by (auto simp: branch_ok_def InitBranch_def)
  show l: "rtree_ok leaf_a" unfolding rtree_ok_iff leaf_a_def using init_branches(1) b by (simp add: NODECARD_def)
  have "nlevel leaf_a = 0" "ncount leaf_a = 1" by (simp_all add: leaf_a_def)
  then show "rtree_ok tree_a" unfolding rtree_ok_iff [of tree_a] using init_branches(1) b l
    by (simp add: tree_a_def NODECARD_def)
  have n: "leaves leaf_a = {#([0, 0, 1, 1], ''a'')#}"
    unfolding leaves_sum leaf_a_def by (simp add: InitBranch_def no_leaves)
  have c: "covered leaf_a" unfolding leaf_a_def covered.simps using i by (auto simp: InitBranch_def)
  show "covered tree_a" unfolding tree_a_def covered.simps using c by (auto simp: InitBranch_def n)
  have "roomy leaf_a" unfolding leaf_a_def roomy.simps using p by (auto simp: InitBranch_def NODECARD_def)
  then show "roomy tree_a" unfolding tree_a_def roomy.simps using p by (auto simp: InitBranch_def NODECARD_def)
qed


text \<open>
  C39. A search returns only items of the tree that overlap the query, each at most as often as it is
  stored; it returns all of them when the rectangle of every inner branch meets what the leaves below it meet.
\<close>

theorem rtree_search_finds:
  assumes "rtree_ok n"
  shows "mset (RTreeSearch n q) \<subseteq># filter_mset (\<lambda>x. Overlap q (fst x)) (leaves n) \<and>
    (\<not> covered n \<or> mset (RTreeSearch n q) = filter_mset (\<lambda>x. Overlap q (fst x)) (leaves n))"
  using search_spec [OF assms, of q] by blast

theorem rtree_search_finds_witness:
  "mset (RTreeSearch tree_a [0, 0, 5, 5]) = filter_mset (\<lambda>x. Overlap [0, 0, 5, 5] (fst x)) (leaves tree_a)"
  using rtree_search_finds [OF tree_a_ok(2), of "[0, 0, 5, 5]"] tree_a_ok(3) by simp

text \<open>
  \<open>SplitNode\<close> on a full node whose rectangles are in range, some two of which waste area, returns:
  both nodes are well formed on the old level, neither is empty, and together they hold the data.
\<close>

lemma split_node_total:
  assumes "rtree_ok n" and "ncount n = NODECARD" and "\<forall>x\<in>set (branches n). proper (fst x)"
    and "proper (fst b)" and "snd b \<noteq> None" and "branch_ok (nlevel n) b" and "wasteful (branches n @ [b])"
  shows "\<exists>n1 q. SplitNode n b = Some (n1, q) \<and> rtree_ok n1 \<and> rtree_ok q \<and> nlevel n1 = nlevel n \<and>
    nlevel q = nlevel n \<and> leaves n1 + leaves q = leaves n + branch_leaves b \<and> 0 < ncount n1 \<and> 0 < ncount q"
proof -
  from SplitNode_total [OF assms] obtain n1 q where s: "SplitNode n b = Some (n1, q)" by blast
  with SplitNode_ok [OF assms(1,2,6,5) s] show ?thesis by blast
qed

text \<open>A full leaf of unit squares.\<close>

definition full_leaf :: "rect \<Rightarrow> string node" where
  "full_leaf r = Node NODECARD 0 (replicate NODECARD (r, Some (Data ''x'')))"

lemma full_leaf_ok: "rtree_ok (full_leaf r)" "ncount (full_leaf r) = NODECARD" "nlevel (full_leaf r) = 0"
  "branches (full_leaf r) = replicate NODECARD (r, Some (Data ''x''))"
  unfolding rtree_ok_iff by (simp_all add: full_leaf_def)

lemma unit_area: "RectArea [0, 0, 1, 1] = Some 1"
proof -
  have s: "side [0, 0, 1, 1] 0 = Some 1" "side [0, 0, 1, 1] 1 = Some 1" by (simp_all add: side_def NUMDIMS_def)
  have "\<not> (- 1 :: 64 word) div 1 < 1" by simp
  then show ?thesis unfolding RectArea_def upt_NUMDIMS area_loop.simps s option.case by (simp add: Undefined_def NUMDIMS_def)
qed

text \<open>
  C40. A split of 65 rectangles without width fails: no pair wastes area, so both seeds are the first
  branch, and the second \<open>Classify\<close> fails its assertion.
\<close>

theorem split_flat_fails:
  assumes "rtree_ok n" and "ncount n = NODECARD" and "\<forall>x\<in>set (branches n). proper (fst x) \<and> fst x ! 0 = fst x ! 2"
    and "proper (fst b)" and "fst b ! 0 = fst b ! 2" and "snd b \<noteq> None"
  shows "AddBranch b n = None"
proof -
  have "\<forall>x\<in>set (branches n). proper (fst x)" using assms(3) by blast
  note buf = full_buffer [OF assms(1,2) this assms(4,6)]
  have "PickSeeds (branches n @ [b]) InitPVars = None"
    by (rule flat_seeds [OF buf(2)]) (use assms(3,5) in simp)
  then have "MethodZero (branches n @ [b]) = None" by (simp add: MethodZero_def)
  then show ?thesis using buf(1) assms(2) by (simp add: AddBranch_def SplitNode_def)
qed

theorem split_flat_fails_witness: "AddBranch ([0, 0, 0, 1], Some (Data ''y'')) (full_leaf [0, 0, 0, 1]) = None"
  by (rule split_flat_fails) (simp_all add: full_leaf_ok proper_def NUMDIMS_def)

text \<open>
  The rectangle that \<open>CombineRect\<close> gives for two rectangles encloses both only when their high
  sides agree: it takes the smaller high side of the two.
\<close>

definition encloses :: "rect \<Rightarrow> rect \<Rightarrow> bool" where
  "encloses r s \<longleftrightarrow> r ! 0 \<le> s ! 0 \<and> r ! 1 \<le> s ! 1 \<and> s ! 2 \<le> r ! 2 \<and> s ! 3 \<le> r ! 3"

lemma combine_encloses:
  assumes "proper r" and "proper s"
  shows "encloses (CombineRect r s) r \<and> encloses (CombineRect r s) s \<longleftrightarrow> r ! 2 = s ! 2 \<and> r ! 3 = s ! 3"
  unfolding encloses_def CombineRect_proper(2) [OF assms] by (auto simp: min_def numeral_2_eq_2 numeral_3_eq_3 split: if_splits)

lemma combine_encloses_instance:
  "\<not> (encloses (CombineRect [0, 0, 1, 1] [10, 10, 11, 11]) [0, 0, 1, 1] \<and>
      encloses (CombineRect [0, 0, 1, 1] [10, 10, 11, 11]) [10, 10, 11, 11])"
  by (subst combine_encloses) (simp_all add: proper_def NUMDIMS_def)

text \<open>
  So a search can miss what was inserted: the tree has one leaf below the root, the branch to
  it covers what it holds, and after the insertion the new item is stored and not found.
\<close>

lemma inserted_not_found:
  "covered tree_a \<and> rtree_ok tree_a \<and>
    (\<exists>n'. RTreeInsert [10, 10, 11, 11] ''b'' tree_a = Some (False, n') \<and>
      ([10, 10, 11, 11], ''b'') \<in># leaves n' \<and> RTreeSearch n' [10, 10, 11, 11] = [])"
proof -
  let ?r = "[10, 10, 11, 11] :: rect"
  have p: "proper ?r" "proper [0, 0, 1, 1]" by (simp_all add: proper_def NUMDIMS_def)
  have c: "CombineRect ?r [0, 0, 1, 1] = [0, 0, 1, 1]" using CombineRect_proper(2) [OF p] by simp
  have "roomy leaf_a" unfolding leaf_a_def roomy.simps by (auto simp: InitBranch_def NODECARD_def p)
  from RTreeInsert2_room [OF tree_a_ok(1) this p(1)] obtain c1 where
    c1: "RTreeInsert2 ?r ''b'' leaf_a 0 = Some (c1, None)" by (auto simp: leaf_a_def)
  have lp: "pick_loop ?r (replicate k InitBranch) i best = Some (case best of None \<Rightarrow> 0 | Some (b, _) \<Rightarrow> b)" for k i best
    by (induction k arbitrary: i) (simp_all add: InitBranch_def)
  from p have "\<exists>a g. RectArea [0, 0, 1, 1] = Some a \<and> RectArea (CombineRect ?r [0, 0, 1, 1]) = Some g"
    using unit_area by (simp add: c)
  then have pb: "PickBranch ?r tree_a = Some 0" by (auto simp: PickBranch_def tree_a_def lp)
  let ?n = "Node 1 1 (([0, 0, 1, 1], Some (Sub c1)) # replicate 63 InitBranch)"
  have "RTreeInsert2 ?r ''b'' tree_a 0 = Some (?n, None)"
    using pb c1 by (simp add: RTreeInsert2.simps [of ?r _ tree_a]) (simp add: tree_a_def sub_node_def set_branch_def c)
  then have i: "RTreeInsert ?r ''b'' tree_a = Some (False, ?n)"
    by (simp add: RTreeInsert_def upt_NUMDIMS) (simp add: NUMDIMS_def)
  have "leaves ?n = leaves c1" unfolding leaves_sum [of ?n] by (simp add: InitBranch_def no_leaves)
  moreover have "leaves c1 = add_mset (?r, ''b'') (leaves leaf_a)" using RTreeInsert2_ok [OF tree_a_ok(1) c1] by simp
  moreover have "\<not> Overlap ?r [0, 0, 1, 1]" by (simp add: Overlap_def upt_NUMDIMS) (simp add: NUMDIMS_def)
  then have "RTreeSearch ?n ?r = []" by (simp add: InitBranch_def)
  ultimately show ?thesis using i tree_a_ok by simp
qed

end
