(* ===== verification/Fastgr.thy ===== *)
theory Fastgr
  imports Complex_Main Prelude
begin

text \<open>
  The fast internal graph of the dot layout (\<open>lib/dotgen/fastgr.c\<close>) and the removal of cycles
  (\<open>lib/dotgen/acyclic.c\<close>). Nodes and edges are indices into the state; a list of edges (\<open>elist\<close>) is
  a list, its size the length. Failed assertions and overflows of \<open>int\<close> are \<open>None\<close>.
\<close>

section \<open>The state\<close>

text \<open>The fields of \<open>Agnodeinfo_t\<close> and \<open>Agedgeinfo_t\<close> that the fast graph uses.\<close>

datatype vtype = NORMAL | VIRTUAL | SLACKNODE | REVERSED | FLATORDER | CLUSTER_EDGE | IGNORED

record vnode =
  v_ht :: real
  v_lw :: real
  v_rw :: real
  v_id :: int
  v_type :: vtype
  v_mark :: nat
  v_onstack :: bool
  v_ranktype :: int
  v_next :: "nat option"
  v_prev :: "nat option"
  v_in :: "nat list"
  v_out :: "nat list"
  v_flat_out :: "nat list"
  v_flat_in :: "nat list"
  v_other :: "nat list"
  v_clust :: "nat option"
  v_rank :: int
  v_UF_size :: int
  v_UF_parent :: "nat option"
  v_priority :: int
  v_tree_in :: "nat list"
  v_tree_out :: "nat list"
  v_par :: "nat option"
  v_low :: int
  v_lim :: int

record vedge =
  e_tail :: nat
  e_head :: nat
  e_type :: vtype
  e_seq :: nat
  e_tail_port :: int
  e_head_port :: int
  e_count :: int
  e_xpenalty :: int
  e_weight :: int
  e_minlen :: int
  e_to_virt :: "nat option"
  e_to_orig :: "nat option"
  e_cutvalue :: int
  e_tree_index :: int

text \<open>A graph with its list of nodes and its components; \<open>vfresh\<close> and \<open>efresh\<close> are what \<open>gv_alloc\<close> returns next.\<close>

record fgraph =
  vnodes :: "nat \<Rightarrow> vnode"
  vedges :: "nat \<Rightarrow> vedge"
  nlist :: "nat option"
  comp :: "nat list"
  has_flat_edges :: bool
  vfresh :: nat
  efresh :: nat

abbreviation vtail :: "fgraph \<Rightarrow> nat \<Rightarrow> nat" where "vtail s e \<equiv> e_tail (vedges s e)"
abbreviation vhead :: "fgraph \<Rightarrow> nat \<Rightarrow> nat" where "vhead s e \<equiv> e_head (vedges s e)"
abbreviation outs :: "fgraph \<Rightarrow> nat \<Rightarrow> nat list" where "outs s n \<equiv> v_out (vnodes s n)"
abbreviation ins :: "fgraph \<Rightarrow> nat \<Rightarrow> nat list" where "ins s n \<equiv> v_in (vnodes s n)"

definition upd_v :: "nat \<Rightarrow> (vnode \<Rightarrow> vnode) \<Rightarrow> fgraph \<Rightarrow> fgraph" where
  "upd_v n f s = s\<lparr>vnodes := (vnodes s)(n := f (vnodes s n))\<rparr>"

definition upd_e :: "nat \<Rightarrow> (vedge \<Rightarrow> vedge) \<Rightarrow> fgraph \<Rightarrow> fgraph" where
  "upd_e e f s = s\<lparr>vedges := (vedges s)(e := f (vedges s e))\<rparr>"

definition INT_MAX :: int where "INT_MAX = 2 ^ 31 - 1"
definition INT_MIN :: int where "INT_MIN = - (2 ^ 31)"

definition int_add :: "int \<Rightarrow> int \<Rightarrow> int option" where
  "int_add a b = (if - (2 ^ 31) \<le> a + b \<and> a + b < 2 ^ 31 then Some (a + b) else None)"

text \<open>The conversion to \<open>short\<close> keeps the low 16 bits.\<close>

definition to_short :: "int \<Rightarrow> int" where
  "to_short x = (x + 2 ^ 15) mod 2 ^ 16 - 2 ^ 15"

section \<open>Edge lists\<close>

definition ffe :: "fgraph \<Rightarrow> nat \<Rightarrow> nat list \<Rightarrow> nat \<Rightarrow> nat list \<Rightarrow> nat option" where
  "ffe s u uL v vL =
    (if length uL > 0 \<and> length vL > 0 then
       (if length uL < length vL then List.find (\<lambda>e. vhead s e = v) uL
        else List.find (\<lambda>e. vtail s e = u) vL)
     else None)"

definition find_fast_edge :: "fgraph \<Rightarrow> nat \<Rightarrow> nat \<Rightarrow> nat option" where
  "find_fast_edge s u v = ffe s u (outs s u) v (ins s v)"

definition find_flat_edge :: "fgraph \<Rightarrow> nat \<Rightarrow> nat \<Rightarrow> nat option" where
  "find_flat_edge s u v = ffe s u (v_flat_out (vnodes s u)) v (v_flat_in (vnodes s v))"

definition elist_append :: "nat \<Rightarrow> nat list \<Rightarrow> nat list" where
  "elist_append e L = L @ [e]"

definition safe_list_append :: "nat \<Rightarrow> nat list \<Rightarrow> nat list" where
  "safe_list_append e L = (if List.member L e then L else elist_append e L)"

definition fast_edge :: "nat \<Rightarrow> fgraph \<Rightarrow> fgraph" where
  "fast_edge e s =
    (let s1 = upd_v (vtail s e) (\<lambda>n. n\<lparr>v_out := elist_append e (v_out n)\<rparr>) s
     in upd_v (vhead s e) (\<lambda>n. n\<lparr>v_in := elist_append e (v_in n)\<rparr>) s1)"

text \<open>The last member fills the hole.\<close>

fun zap_at :: "nat list \<Rightarrow> nat \<Rightarrow> nat list" where
  "zap_at L i = butlast (L[i := last L])"

fun zap_loop :: "nat list \<Rightarrow> nat \<Rightarrow> nat list \<Rightarrow> nat \<Rightarrow> nat list" where
  "zap_loop L i [] e = L"
| "zap_loop L i (x # xs) e = (if x = e then zap_at L i else zap_loop L (Suc i) xs e)"

definition zapinlist :: "nat list \<Rightarrow> nat \<Rightarrow> nat list" where
  "zapinlist L e = zap_loop L 0 L e"

definition delete_fast_edge :: "nat \<Rightarrow> fgraph \<Rightarrow> fgraph" where
  "delete_fast_edge e s =
    (let s1 = upd_v (vtail s e) (\<lambda>n. n\<lparr>v_out := zapinlist (v_out n) e\<rparr>) s
     in upd_v (vhead s e) (\<lambda>n. n\<lparr>v_in := zapinlist (v_in n) e\<rparr>) s1)"

definition other_edge :: "nat \<Rightarrow> fgraph \<Rightarrow> fgraph" where
  "other_edge e s = upd_v (vtail s e) (\<lambda>n. n\<lparr>v_other := elist_append e (v_other n)\<rparr>) s"

definition safe_other_edge :: "nat \<Rightarrow> fgraph \<Rightarrow> fgraph" where
  "safe_other_edge e s = upd_v (vtail s e) (\<lambda>n. n\<lparr>v_other := safe_list_append e (v_other n)\<rparr>) s"

section \<open>Virtual edges and nodes\<close>

definition blank_edge :: "nat \<Rightarrow> nat \<Rightarrow> vedge" where
  "blank_edge u v = \<lparr>e_tail = u, e_head = v, e_type = VIRTUAL, e_seq = 0, e_tail_port = 0, e_head_port = 0,
     e_count = 0, e_xpenalty = 0, e_weight = 0, e_minlen = 0, e_to_virt = None, e_to_orig = None,
     e_cutvalue = 0, e_tree_index = 0\<rparr>"

definition derived_edge :: "vedge \<Rightarrow> nat \<Rightarrow> nat \<Rightarrow> nat \<Rightarrow> vedge" where
  "derived_edge q orig u v =
    (blank_edge u v)\<lparr>e_seq := e_seq q, e_count := e_count q, e_xpenalty := e_xpenalty q,
       e_weight := e_weight q, e_minlen := e_minlen q,
       e_tail_port := (if u = e_tail q then e_tail_port q else if u = e_head q then e_head_port q else 0),
       e_head_port := (if v = e_head q then e_head_port q else if v = e_tail q then e_tail_port q else 0),
       e_to_orig := Some orig\<rparr>"

definition new_virtual_edge :: "fgraph \<Rightarrow> nat \<Rightarrow> nat \<Rightarrow> nat option \<Rightarrow> nat \<times> fgraph" where
  "new_virtual_edge s u v orig =
    (let e = efresh s; s0 = s\<lparr>efresh := Suc e\<rparr> in
     (e, case orig of
           Some q \<Rightarrow>
             (let s1 = upd_e e (\<lambda>_. derived_edge (vedges s q) q u v) s0
              in if e_to_virt (vedges s q) = None then upd_e q (\<lambda>x. x\<lparr>e_to_virt := Some e\<rparr>) s1 else s1)
         | None \<Rightarrow>
             upd_e e (\<lambda>_. (blank_edge u v)\<lparr>e_weight := 1, e_xpenalty := 1, e_count := 1, e_minlen := 1\<rparr>) s0))"

definition virtual_edge :: "fgraph \<Rightarrow> nat \<Rightarrow> nat \<Rightarrow> nat option \<Rightarrow> nat \<times> fgraph" where
  "virtual_edge s u v orig = (let (e, s1) = new_virtual_edge s u v orig in (e, fast_edge e s1))"

definition fast_node :: "nat \<Rightarrow> fgraph \<Rightarrow> fgraph option" where
  "fast_node n s =
    (let s1 = upd_v n (\<lambda>x. x\<lparr>v_next := nlist s\<rparr>) s;
         s2 = (case v_next (vnodes s1 n) of None \<Rightarrow> s1 | Some m \<Rightarrow> upd_v m (\<lambda>x. x\<lparr>v_prev := Some n\<rparr>) s1);
         s3 = upd_v n (\<lambda>x. x\<lparr>v_prev := None\<rparr>) (s2\<lparr>nlist := Some n\<rparr>)
     in if v_next (vnodes s3 n) = Some n then None else Some s3)"

definition delete_fast_node :: "nat \<Rightarrow> fgraph \<Rightarrow> fgraph" where
  "delete_fast_node n s =
    (let nx = v_next (vnodes s n); pv = v_prev (vnodes s n);
         s1 = (case nx of None \<Rightarrow> s | Some m \<Rightarrow> upd_v m (\<lambda>x. x\<lparr>v_prev := pv\<rparr>) s)
     in case v_prev (vnodes s1 n) of
          Some p \<Rightarrow> upd_v p (\<lambda>x. x\<lparr>v_next := v_next (vnodes s1 n)\<rparr>) s1
        | None \<Rightarrow> s1\<lparr>nlist := v_next (vnodes s1 n)\<rparr>)"

text \<open>The memory that \<open>gv_alloc\<close> gives is zero.\<close>

definition zero_node :: vnode where
  "zero_node = \<lparr>v_ht = 0, v_lw = 0, v_rw = 0, v_id = 0, v_type = NORMAL, v_mark = 0, v_onstack = False, v_ranktype = 0,
     v_next = None, v_prev = None, v_in = [], v_out = [], v_flat_out = [], v_flat_in = [], v_other = [], v_clust = None,
     v_rank = 0, v_UF_size = 0, v_UF_parent = None, v_priority = 0, v_tree_in = [], v_tree_out = [], v_par = None,
     v_low = 0, v_lim = 0\<rparr>"

definition virtual_node :: "fgraph \<Rightarrow> (nat \<times> fgraph) option" where
  "virtual_node s =
    (let n = vfresh s;
         s1 = upd_v n (\<lambda>_. zero_node\<lparr>v_type := VIRTUAL, v_lw := 1, v_rw := 1, v_ht := 1, v_UF_size := 1\<rparr>) (s\<lparr>vfresh := Suc n\<rparr>)
     in map_option (\<lambda>s2. (n, s2)) (fast_node n s1))"

definition flat_edge :: "nat \<Rightarrow> fgraph \<Rightarrow> fgraph" where
  "flat_edge e s =
    (let s1 = upd_v (vtail s e) (\<lambda>n. n\<lparr>v_flat_out := elist_append e (v_flat_out n)\<rparr>) s;
         s2 = upd_v (vhead s e) (\<lambda>n. n\<lparr>v_flat_in := elist_append e (v_flat_in n)\<rparr>) s1
     in s2\<lparr>has_flat_edges := True\<rparr>)"

definition delete_flat_edge :: "nat \<Rightarrow> fgraph \<Rightarrow> fgraph" where
  "delete_flat_edge e s =
    (let s0 = (case e_to_orig (vedges s e) of
                 Some q \<Rightarrow> if e_to_virt (vedges s q) = Some e then upd_e q (\<lambda>x. x\<lparr>e_to_virt := None\<rparr>) s else s
               | None \<Rightarrow> s);
         s1 = upd_v (vtail s e) (\<lambda>n. n\<lparr>v_flat_out := zapinlist (v_flat_out n) e\<rparr>) s0
     in upd_v (vhead s e) (\<lambda>n. n\<lparr>v_flat_in := zapinlist (v_flat_in n) e\<rparr>) s1)"

section \<open>Merging\<close>

text \<open>What one round of the loop of \<open>basic_merge\<close> adds; \<open>count\<close> and \<open>xpenalty\<close> are shorts.\<close>

definition merge_into :: "fgraph \<Rightarrow> nat \<Rightarrow> nat \<Rightarrow> fgraph option" where
  "merge_into s e rep =
    (let q = vedges s e; r = (vedges s rep)\<lparr>e_count := to_short (e_count (vedges s rep) + e_count q)\<rparr>;
         s1 = upd_e rep (\<lambda>_. r) s; q1 = vedges s1 e; r1 = r\<lparr>e_xpenalty := to_short (e_xpenalty r + e_xpenalty q1)\<rparr>
     in map_option (\<lambda>w. upd_e rep (\<lambda>_. r1\<lparr>e_weight := w\<rparr>) s1) (int_add (e_weight r1) (e_weight q1)))"

partial_function (option) merge_chain :: "nat \<Rightarrow> nat option \<Rightarrow> fgraph \<Rightarrow> fgraph option" where
  "merge_chain e rep s =
    (case rep of
       None \<Rightarrow> Some s
     | Some r \<Rightarrow> (case merge_into s e r of None \<Rightarrow> None | Some s1 \<Rightarrow> merge_chain e (e_to_virt (vedges s1 r)) s1))"

definition basic_merge :: "nat \<Rightarrow> nat \<Rightarrow> fgraph \<Rightarrow> fgraph option" where
  "basic_merge e rep s =
    (let s1 = (if e_minlen (vedges s rep) < e_minlen (vedges s e)
               then upd_e rep (\<lambda>x. x\<lparr>e_minlen := e_minlen (vedges s e)\<rparr>) s else s)
     in merge_chain e (Some rep) s1)"

definition merge_oneway :: "nat \<Rightarrow> nat \<Rightarrow> fgraph \<Rightarrow> fgraph option" where
  "merge_oneway e rep s =
    (if Some rep = e_to_virt (vedges s e) \<or> Some e = e_to_virt (vedges s rep) then Some s
     else if e_to_virt (vedges s e) \<noteq> None then None
     else basic_merge e rep (upd_e e (\<lambda>x. x\<lparr>e_to_virt := Some rep\<rparr>) s))"

section \<open>Breaking cycles\<close>

definition reverse_edge :: "nat \<Rightarrow> fgraph \<Rightarrow> fgraph option" where
  "reverse_edge e s =
    (let s1 = delete_fast_edge e s in
     case find_fast_edge s1 (vhead s1 e) (vtail s1 e) of
       Some f \<Rightarrow> merge_oneway e f s1
     | None \<Rightarrow> Some (snd (virtual_edge s1 (vhead s1 e) (vtail s1 e) (Some e))))"

definition get_at :: "'a list \<Rightarrow> nat \<Rightarrow> 'a option" where
  "get_at L i = (if i < length L then Some (L ! i) else None)"

text \<open>The fuel bounds the depth of the nested calls and rounds.\<close>

fun dfs :: "nat \<Rightarrow> nat \<Rightarrow> fgraph \<Rightarrow> fgraph option"
  and dfs_loop :: "nat \<Rightarrow> nat \<Rightarrow> nat \<Rightarrow> fgraph \<Rightarrow> fgraph option" where
  "dfs 0 n s = None"
| "dfs (Suc k) n s =
    (if v_mark (vnodes s n) \<noteq> 0 then Some s
     else
       (case dfs_loop k n 0 (upd_v n (\<lambda>x. x\<lparr>v_mark := 1, v_onstack := True\<rparr>) s) of
          None \<Rightarrow> None
        | Some s1 \<Rightarrow> Some (upd_v n (\<lambda>x. x\<lparr>v_onstack := False\<rparr>) s1)))"
| "dfs_loop 0 n i s = None"
| "dfs_loop (Suc k) n i s =
    (case get_at (outs s n) i of
       None \<Rightarrow> Some s
     | Some e \<Rightarrow>
         (let w = vhead s e in
          if v_onstack (vnodes s w) then
            (case reverse_edge e s of None \<Rightarrow> None | Some s1 \<Rightarrow> dfs_loop k n i s1)
          else if v_mark (vnodes s w) = 0 then
            (case dfs k w s of None \<Rightarrow> None | Some s1 \<Rightarrow> dfs_loop k n (Suc i) s1)
          else dfs_loop k n (Suc i) s))"

definition acyclic_comp :: "nat \<Rightarrow> nat \<Rightarrow> nat \<Rightarrow> fgraph \<Rightarrow> fgraph option" where
  "acyclic_comp k j c s =
    (let s0 = s\<lparr>nlist := Some c\<rparr> in
     case iter j (\<lambda>s n. v_next (vnodes s n)) (\<lambda>n s. Some (upd_v n (\<lambda>x. x\<lparr>v_mark := 0\<rparr>) s)) (nlist s0) s0 of
       None \<Rightarrow> None
     | Some s1 \<Rightarrow> iter j (\<lambda>s n. v_next (vnodes s n)) (dfs k) (nlist s1) s1)"

primrec acyclic_comps :: "nat \<Rightarrow> nat \<Rightarrow> nat list \<Rightarrow> fgraph \<Rightarrow> fgraph option" where
  "acyclic_comps k j [] s = Some s"
| "acyclic_comps k j (c # cs) s =
    (case acyclic_comp k j c s of None \<Rightarrow> None | Some s1 \<Rightarrow> acyclic_comps k j cs s1)"

definition dot_acyclic :: "nat \<Rightarrow> nat \<Rightarrow> fgraph \<Rightarrow> fgraph option" where
  "dot_acyclic k j s = acyclic_comps k j (comp s) s"

end
