(* ===== verification/Fastgr_Correct.thy ===== *)
theory Fastgr_Correct
  imports Fastgr
begin

text \<open>
  The invariant of the fast graph, the operations that keep it, and the proof that \<open>acyclic\<close> leaves
  a graph without cycles.
\<close>

section \<open>The invariant\<close>

definition fast :: "fgraph \<Rightarrow> nat \<Rightarrow> bool" where
  "fast s e \<longleftrightarrow> e \<in> set (outs s (vtail s e))"

text \<open>
  An edge is in the lists of its own ends only, once, and in both; a fast edge is not represented
  by another one.
\<close>

definition fg_ok :: "fgraph \<Rightarrow> bool" where
  "fg_ok s \<longleftrightarrow>
     (\<forall>n. distinct (outs s n) \<and> distinct (ins s n)) \<and>
     (\<forall>n. \<forall>e\<in>set (outs s n). vtail s e = n \<and> e \<in> set (ins s (vhead s e)) \<and> e < efresh s \<and>
        e_to_virt (vedges s e) = None) \<and>
     (\<forall>n. \<forall>e\<in>set (ins s n). vhead s e = n \<and> e \<in> set (outs s (vtail s e)))"

lemma fg_okD:
  assumes "fg_ok s"
  shows "distinct (outs s n)" and "distinct (ins s n)"
    and "e \<in> set (outs s n) \<Longrightarrow> vtail s e = n \<and> fast s e \<and> e \<in> set (ins s (vhead s e)) \<and> e < efresh s \<and>
      e_to_virt (vedges s e) = None"
    and "e \<in> set (ins s n) \<Longrightarrow> vhead s e = n \<and> fast s e"
  using assms unfolding fg_ok_def fast_def by blast+

lemma fast_finite: "fg_ok s \<Longrightarrow> finite {e. fast s e}"
  by (rule finite_subset [of _ "{..<efresh s}"]) (auto simp: fg_ok_def fast_def)

lemma fast_iff: "fg_ok s \<Longrightarrow> e \<in> set (outs s n) \<longleftrightarrow> fast s e \<and> vtail s e = n"
  by (auto simp: fg_ok_def fast_def)

section \<open>Lists\<close>

lemma zap_loop_at: "e \<notin> set xs \<Longrightarrow> zap_loop L k (xs @ e # ys) e = zap_at L (k + length xs)"
  by (induction xs arbitrary: k) auto

lemma zap_loop_none: "e \<notin> set xs \<Longrightarrow> zap_loop L k xs e = L"
  by (induction xs arbitrary: k) auto

lemma zap_split:
  assumes "e \<notin> set xs"
  shows "zapinlist (xs @ e # ys) e = xs @ (if ys = [] then [] else last ys # butlast ys)"
  unfolding zapinlist_def zap_loop_at [OF assms]
  by (cases ys rule: rev_cases) (simp_all add: list_update_append butlast_append)

lemma zap_none: "e \<notin> set L \<Longrightarrow> zapinlist L e = L"
  by (simp add: zapinlist_def zap_loop_none)

lemma zap_set:
  assumes d: "distinct L"
  shows "set (zapinlist L e) = set L - {e}" and "distinct (zapinlist L e)" and "length (zapinlist L e) \<le> length L"
proof -
  have "set (zapinlist L e) = set L - {e} \<and> distinct (zapinlist L e) \<and> length (zapinlist L e) \<le> length L"
  proof (cases "e \<in> set L")
    case True
    then obtain xs ys where L: "L = xs @ e # ys" "e \<notin> set xs" by (meson split_list_first)
    have "e \<notin> set ys" using d L by simp
    show ?thesis
    proof (cases ys rule: rev_cases)
      case Nil
      then show ?thesis using d L zap_split [OF L(2), of ys] by auto
    next
      case (snoc zs z)
      then show ?thesis using d L zap_split [OF L(2), of ys] by auto
    qed
  qed (use d zap_none in auto)
  then show "set (zapinlist L e) = set L - {e}" "distinct (zapinlist L e)" "length (zapinlist L e) \<le> length L" by blast+
qed

lemma zap_prefix:
  assumes "distinct L" and "i < length L"
  shows "take i (zapinlist L (L ! i)) = take i L" and "Suc (length (zapinlist L (L ! i))) = length L"
proof -
  have L: "L = take i L @ L ! i # drop (Suc i) L" using assms(2) by (rule id_take_nth_drop)
  have "L ! i \<notin> set (take i L)" using assms by (metis L distinct_append disjoint_iff list.set_intros(1))
  from zap_split [OF this, of "drop (Suc i) L"] L assms(2)
  have z: "zapinlist L (L ! i) = take i L @ (if drop (Suc i) L = [] then [] else last (drop (Suc i) L) # butlast (drop (Suc i) L))"
    by simp
  show "take i (zapinlist L (L ! i)) = take i L" unfolding z using assms(2) by simp
  show "Suc (length (zapinlist L (L ! i))) = length L" unfolding z using assms(2) by auto
qed

section \<open>Looking up an edge\<close>

lemma find_fast_edge_spec:
  assumes ok: "fg_ok s"
  shows "case find_fast_edge s u v of
      None \<Rightarrow> \<forall>e. fast s e \<longrightarrow> \<not> (vtail s e = u \<and> vhead s e = v)
    | Some f \<Rightarrow> fast s f \<and> vtail s f = u \<and> vhead s f = v"
proof -
  have out: "e \<in> set (outs s u) \<longleftrightarrow> fast s e \<and> vtail s e = u" for e by (rule fast_iff [OF ok])
  have "in": "e \<in> set (ins s v) \<longleftrightarrow> fast s e \<and> vhead s e = v" for e
    using ok by (auto simp: fg_ok_def fast_def)
  show ?thesis
  proof (cases "find_fast_edge s u v")
    case None
    have "\<not> (vtail s e = u \<and> vhead s e = v)" if f: "fast s e" for e
    proof
      assume e: "vtail s e = u \<and> vhead s e = v"
      then have m: "e \<in> set (outs s u)" "e \<in> set (ins s v)" using out "in" f by simp_all
      then have "0 < length (outs s u)" "0 < length (ins s v)" by auto
      with None have "List.find (\<lambda>e. vhead s e = v) (outs s u) = None \<or> List.find (\<lambda>e. vtail s e = u) (ins s v) = None"
        by (auto simp: find_fast_edge_def ffe_def split: if_splits)
      with m e show False by (auto simp: find_None_iff)
    qed
    with None show ?thesis by simp
  next
    case (Some f)
    then consider "List.find (\<lambda>e. vhead s e = v) (outs s u) = Some f" | "List.find (\<lambda>e. vtail s e = u) (ins s v) = Some f"
      by (auto simp: find_fast_edge_def ffe_def split: if_splits)
    then have "fast s f \<and> vtail s f = u \<and> vhead s f = v"
      by cases (use out "in" find_SomeD in fastforce)+
    with Some show ?thesis by simp
  qed
qed

section \<open>Deleting and inserting\<close>

lemma upd_v_simps [simp]:
  "vnodes (upd_v n f s) = (vnodes s)(n := f (vnodes s n))" "vedges (upd_v n f s) = vedges s"
  "efresh (upd_v n f s) = efresh s" "nlist (upd_v n f s) = nlist s" "comp (upd_v n f s) = comp s"
  by (simp_all add: upd_v_def)

lemma upd_e_simps [simp]:
  "vnodes (upd_e e f s) = vnodes s" "vedges (upd_e e f s) = (vedges s)(e := f (vedges s e))"
  "efresh (upd_e e f s) = efresh s" "nlist (upd_e e f s) = nlist s" "comp (upd_e e f s) = comp s"
  by (simp_all add: upd_e_def)

text \<open>What every operation here leaves alone.\<close>

definition same_walk :: "fgraph \<Rightarrow> fgraph \<Rightarrow> bool" where
  "same_walk s s' \<longleftrightarrow> (\<forall>n. v_mark (vnodes s' n) = v_mark (vnodes s n) \<and> v_onstack (vnodes s' n) = v_onstack (vnodes s n) \<and>
     v_next (vnodes s' n) = v_next (vnodes s n)) \<and> comp s' = comp s \<and>
     efresh s \<le> efresh s' \<and> (\<forall>e < efresh s. vhead s' e = vhead s e \<and> vtail s' e = vtail s e)"

lemma delete_lists:
  assumes "vtail s e = t" and "vhead s e = h"
  shows "outs (delete_fast_edge e s) m = (if m = t then zapinlist (outs s m) e else outs s m)"
    and "ins (delete_fast_edge e s) m = (if m = h then zapinlist (ins s m) e else ins s m)"
    and "vedges (delete_fast_edge e s) = vedges s" and "efresh (delete_fast_edge e s) = efresh s"
    and "same_walk s (delete_fast_edge e s)"
  using assms by (simp_all add: delete_fast_edge_def same_walk_def Let_def)

lemma fast_edge_lists:
  assumes "vtail s e = t" and "vhead s e = h"
  shows "outs (fast_edge e s) m = (if m = t then outs s m @ [e] else outs s m)"
    and "ins (fast_edge e s) m = (if m = h then ins s m @ [e] else ins s m)"
    and "vedges (fast_edge e s) = vedges s" and "efresh (fast_edge e s) = efresh s" and "same_walk s (fast_edge e s)"
  using assms by (simp_all add: fast_edge_def same_walk_def Let_def elist_append_def)

lemma delete_ok:
  assumes ok: "fg_ok s" and e: "fast s e"
  shows "fg_ok (delete_fast_edge e s)" and "fast (delete_fast_edge e s) f \<longleftrightarrow> fast s f \<and> f \<noteq> e"
proof -
  note d = delete_lists [where s = s and e = e, OF refl refl]
  have eo: "e \<in> set (outs s n) \<longleftrightarrow> n = vtail s e" for n using fast_iff [OF ok, of e n] e by auto
  have ei: "e \<in> set (ins s n) \<longleftrightarrow> n = vhead s e" for n using e ok by (auto simp: fg_ok_def fast_def)
  have so: "set (outs (delete_fast_edge e s) n) = set (outs s n) - {e}" for n
    using eo [of n] zap_set(1) [OF fg_okD(1) [OF ok]] unfolding d(1) by auto
  have si: "set (ins (delete_fast_edge e s) n) = set (ins s n) - {e}" for n
    using ei [of n] zap_set(1) [OF fg_okD(2) [OF ok]] unfolding d(2) by auto
  have di: "distinct (outs (delete_fast_edge e s) n) \<and> distinct (ins (delete_fast_edge e s) n)" for n
    unfolding d(1,2) using zap_set(2) fg_okD(1,2) [OF ok] by simp
  show "fg_ok (delete_fast_edge e s)" using ok di unfolding fg_ok_def so si d(3,4) by auto
  show "fast (delete_fast_edge e s) f \<longleftrightarrow> fast s f \<and> f \<noteq> e" unfolding fast_def so d(3) by auto
qed

lemma insert_ok:
  assumes ok: "fg_ok s" and e: "\<not> fast s e" "e < efresh s" "e_to_virt (vedges s e) = None"
  shows "fg_ok (fast_edge e s)" and "fast (fast_edge e s) f \<longleftrightarrow> fast s f \<or> f = e"
proof -
  note d = fast_edge_lists [where s = s and e = e, OF refl refl]
  have so: "set (outs (fast_edge e s) n) = set (outs s n) \<union> (if n = vtail s e then {e} else {})" for n by (simp add: d(1))
  have si: "set (ins (fast_edge e s) n) = set (ins s n) \<union> (if n = vhead s e then {e} else {})" for n by (simp add: d(2))
  have ni: "e \<notin> set (outs s n)" "e \<notin> set (ins s n)" for n using fg_okD(3,4) [OF ok] e(1) by blast+
  have di: "distinct (outs (fast_edge e s) n) \<and> distinct (ins (fast_edge e s) n)" for n
    unfolding d(1,2) using ni fg_okD(1,2) [OF ok] by simp
  show "fg_ok (fast_edge e s)" using ok di e(2,3) unfolding fg_ok_def so si d(3,4) by auto
  show "fast (fast_edge e s) f \<longleftrightarrow> fast s f \<or> f = e" unfolding fast_def so d(3) by auto
qed

section \<open>Reversing an edge\<close>

definition total_weight :: "fgraph \<Rightarrow> int" where
  "total_weight s = (\<Sum>e | fast s e. e_weight (vedges s e))"

definition weights_ok :: "fgraph \<Rightarrow> bool" where
  "weights_ok s \<longleftrightarrow> (\<forall>e. fast s e \<longrightarrow> 0 \<le> e_weight (vedges s e)) \<and> total_weight s < 2 ^ 31"

text \<open>A bound of the minimum lengths.\<close>

definition lens :: "int \<Rightarrow> fgraph \<Rightarrow> bool" where
  "lens m s \<longleftrightarrow> (\<forall>e. fast s e \<longrightarrow> 0 \<le> e_minlen (vedges s e) \<and> e_minlen (vedges s e) \<le> m)"

definition fast_count :: "fgraph \<Rightarrow> nat" where
  "fast_count s = card {e. fast s e}"

text \<open>The relation of the fast edges, and the one without their direction.\<close>

definition frel :: "fgraph \<Rightarrow> (nat \<times> nat) set" where
  "frel s = {(vtail s e, vhead s e) |e. fast s e}"

abbreviation joined :: "fgraph \<Rightarrow> (nat \<times> nat) set" where
  "joined s \<equiv> frel s \<union> (frel s)\<inverse>"

text \<open>Some edge between the two nodes, in either direction, asks for a length of \<open>m\<close>.\<close>

definition demand :: "fgraph \<Rightarrow> nat \<Rightarrow> nat \<Rightarrow> int \<Rightarrow> bool" where
  "demand s u v m \<longleftrightarrow> (\<exists>f. fast s f \<and> {vtail s f, vhead s f} = {u, v} \<and> m \<le> e_minlen (vedges s f))"

lemma demand_mono:
  assumes "\<And>g. fast s g \<Longrightarrow> \<exists>g'. fast s' g' \<and> {vtail s' g', vhead s' g'} = {vtail s g, vhead s g} \<and>
    e_minlen (vedges s g) \<le> e_minlen (vedges s' g')"
  shows "demand s u v m \<Longrightarrow> demand s' u v m"
proof -
  assume "demand s u v m"
  then obtain g where g: "fast s g" "{vtail s g, vhead s g} = {u, v}" "m \<le> e_minlen (vedges s g)" by (auto simp: demand_def)
  from assms [OF g(1)] obtain g' where "fast s' g'" "{vtail s' g', vhead s' g'} = {vtail s g, vhead s g}"
    "e_minlen (vedges s g) \<le> e_minlen (vedges s' g')" by blast
  with g(2,3) have "fast s' g' \<and> {vtail s' g', vhead s' g'} = {u, v} \<and> m \<le> e_minlen (vedges s' g')" by simp
  then show ?thesis unfolding demand_def by blast
qed

lemma merge_oneway_spec:
  assumes "e \<noteq> f" and "e_to_virt (vedges s e) = None" and "e_to_virt (vedges s f) = None"
    and "0 \<le> e_weight (vedges s e) + e_weight (vedges s f)" and "e_weight (vedges s e) + e_weight (vedges s f) < 2 ^ 31"
  shows "\<exists>q. merge_oneway e f s = Some (s\<lparr>vedges := (vedges s)(e := (vedges s e)\<lparr>e_to_virt := Some f\<rparr>, f := q)\<rparr>) \<and>
    e_tail q = vtail s f \<and> e_head q = vhead s f \<and> e_to_virt q = None \<and>
    e_weight q = e_weight (vedges s f) + e_weight (vedges s e) \<and>
    e_minlen q = max (e_minlen (vedges s f)) (e_minlen (vedges s e))"
proof -
  define s1 where "s1 = upd_e e (\<lambda>x. x\<lparr>e_to_virt := Some f\<rparr>) s"
  define s2 where "s2 = (if e_minlen (vedges s1 f) < e_minlen (vedges s1 e)
      then upd_e f (\<lambda>x. x\<lparr>e_minlen := e_minlen (vedges s1 e)\<rparr>) s1 else s1)"
  have 1: "merge_oneway e f s = merge_chain e (Some f) s2"
    using assms(2,3) by (simp add: merge_oneway_def basic_merge_def s1_def [symmetric] s2_def Let_def)
  have e2: "vedges s2 e = (vedges s e)\<lparr>e_to_virt := Some f\<rparr>" and f2: "vedges s2 f = (vedges s f)
      \<lparr>e_minlen := max (e_minlen (vedges s f)) (e_minlen (vedges s e))\<rparr>"
    using assms(1) by (auto simp: s2_def s1_def max_def)
  define q where "q = (vedges s f)\<lparr>e_minlen := max (e_minlen (vedges s f)) (e_minlen (vedges s e)),
      e_count := to_short (e_count (vedges s f) + e_count (vedges s e)),
      e_xpenalty := to_short (e_xpenalty (vedges s f) + e_xpenalty (vedges s e)),
      e_weight := e_weight (vedges s f) + e_weight (vedges s e)\<rparr>"
  have "merge_into s2 e f = Some (s2\<lparr>vedges := (vedges s2)(f := q)\<rparr>)"
    using assms(1,4,5) by (simp add: merge_into_def Let_def e2 f2 int_add_def q_def add.commute) (simp add: upd_e_def)
  moreover have "e_to_virt q = None" using assms(3) by (simp add: q_def)
  ultimately have "merge_chain e (Some f) s2 = Some (s2\<lparr>vedges := (vedges s2)(f := q)\<rparr>)"
    by (subst merge_chain.simps) (simp, subst merge_chain.simps, simp)
  moreover have "s2\<lparr>vedges := (vedges s2)(f := q)\<rparr> = s\<lparr>vedges := (vedges s)(e := (vedges s e)\<lparr>e_to_virt := Some f\<rparr>, f := q)\<rparr>"
    using assms(1) by (simp add: s2_def s1_def upd_e_def)
  ultimately show ?thesis using 1 assms(3) by (intro exI [of _ q]) (simp add: q_def)
qed

text \<open>What a reversal does: the edge leaves its tail, and its head may get a new out-edge back.\<close>

definition reversed :: "fgraph \<Rightarrow> nat \<Rightarrow> fgraph \<Rightarrow> bool" where
  "reversed s e s' \<longleftrightarrow> fg_ok s' \<and> weights_ok s' \<and> total_weight s' = total_weight s \<and> same_walk s s' \<and>
     fast_count s' \<le> fast_count s \<and> joined s' = joined s \<and> (\<forall>m. lens m s \<longrightarrow> lens m s') \<and>
     (\<forall>u v m. demand s u v m \<longrightarrow> demand s' u v m) \<and>
     outs s' (vtail s e) = zapinlist (outs s (vtail s e)) e \<and>
     (\<exists>xs. outs s' (vhead s e) = outs s (vhead s e) @ xs \<and> (\<forall>x\<in>set xs. vhead s' x = vtail s e)) \<and>
     (\<forall>m. m \<noteq> vtail s e \<and> m \<noteq> vhead s e \<longrightarrow> outs s' m = outs s m)"

lemma reverse_edge_spec:
  assumes ok: "fg_ok s" and w: "weights_ok s" and e: "fast s e" and loop: "vtail s e \<noteq> vhead s e"
  shows "\<exists>s'. reverse_edge e s = Some s' \<and> reversed s e s'"
proof -
  define t where "t = vtail s e"
  define h where "h = vhead s e"
  define s1 where "s1 = delete_fast_edge e s"
  have th: "t \<noteq> h" using loop by (simp add: t_def h_def)
  note dl = delete_lists [where s = s and e = e, OF refl refl, folded s1_def t_def h_def]
  note ok1 = delete_ok [OF ok e, folded s1_def]
  have e0: "e_to_virt (vedges s e) = None" "e < efresh s" using fg_okD(3) [OF ok] e by (auto simp: fast_def)
  have fin: "finite {f. fast s f}" "finite {f. fast s1 f}" using fast_finite ok ok1(1) by blast+
  have set1: "{f. fast s1 f} = {f. fast s f} - {e}" using ok1(2) by auto
  have tw: "total_weight s = (\<Sum>f | fast s1 f. e_weight (vedges s f)) + e_weight (vedges s e)"
    unfolding total_weight_def set1 using sum.remove [OF fin(1), of e "\<lambda>f. e_weight (vedges s f)"] e by simp
  have fc: "fast_count s = Suc (card {f. fast s1 f})"
    unfolding fast_count_def set1 using card_Suc_Diff1 [OF fin(1), of e] e by simp
  have fr: "frel s = insert (t, h) {(vtail s f, vhead s f) |f. fast s1 f}"
    using e unfolding frel_def ok1(2) t_def h_def by auto
  have ends: "vtail s1 e = t" "vhead s1 e = h" by (simp_all add: dl(3) t_def h_def)
  have nn: "0 \<le> e_weight (vedges s f)" if "fast s f" for f using w that by (simp add: weights_ok_def)
  note look = find_fast_edge_spec [OF ok1(1), of h t]
  show ?thesis
  proof (cases "find_fast_edge s1 h t")
    case (Some f)
    then have f: "fast s1 f" "vtail s f = h" "vhead s f = t" using look by (simp_all add: dl(3))
    have ef: "e \<noteq> f" using f(1) ok1(2) by auto
    have f0: "e_to_virt (vedges s f) = None" "f < efresh s"
      using fg_okD(3) [OF ok1(1)] f(1) by (auto simp: fast_def dl)
    have rest: "(\<Sum>g | fast s1 g. e_weight (vedges s g)) =
        e_weight (vedges s f) + (\<Sum>g\<in>{g. fast s1 g} - {f}. e_weight (vedges s g))"
      using sum.remove [OF fin(2), of f] f(1) by simp
    moreover have "0 \<le> (\<Sum>g\<in>{g. fast s1 g} - {f}. e_weight (vedges s g))"
      by (rule sum_nonneg) (use nn ok1(2) in auto)
    ultimately have "e_weight (vedges s e) + e_weight (vedges s f) < 2 ^ 31" using tw w by (simp add: weights_ok_def)
    with merge_oneway_spec [OF ef, of s1] e0 f0 nn e f(1) ok1(2) obtain q where
      q: "merge_oneway e f s1 = Some (s1\<lparr>vedges := (vedges s1)(e := (vedges s1 e)\<lparr>e_to_virt := Some f\<rparr>, f := q)\<rparr>)"
      "e_tail q = h" "e_head q = t" "e_to_virt q = None" "e_weight q = e_weight (vedges s f) + e_weight (vedges s e)"
      "e_minlen q = max (e_minlen (vedges s f)) (e_minlen (vedges s e))"
      by (auto simp: dl(3) f)
    define s' where "s' = s1\<lparr>vedges := (vedges s1)(e := (vedges s1 e)\<lparr>e_to_virt := Some f\<rparr>, f := q)\<rparr>"
    have v: "vnodes s' = vnodes s1" "efresh s' = efresh s" "comp s' = comp s1" by (simp_all add: s'_def dl(4))
    have ed: "vtail s' g = vtail s g \<and> vhead s' g = vhead s g" for g using q(2,3) f by (auto simp: s'_def dl(3))
    have fst': "fast s' g = fast s1 g" for g unfolding fast_def v(1) using ed by (simp add: dl(3))
    have "e \<notin> set (outs s1 n)" "e \<notin> set (ins s1 n)" for n using fg_okD(3,4) [OF ok1(1)] ok1(2) by blast+
    then have tv: "e_to_virt (vedges s' g) = None" if "g \<in> set (outs s1 n)" for g n
      using that fg_okD(3) [OF ok1(1) that] q(4) by (auto simp: s'_def)
    have ok': "fg_ok s'" using ok1(1) tv unfolding fg_ok_def v(1,2) by (simp add: ed dl(3,4))
    have wt: "e_weight (vedges s' g) = e_weight (vedges s g) + (if g = f then e_weight (vedges s e) else 0)" if "fast s1 g" for g
      using that ok1(2) q(5) ef by (auto simp: s'_def dl(3))
    have "total_weight s' = (\<Sum>g | fast s1 g. e_weight (vedges s g)) + (\<Sum>g | fast s1 g. if g = f then e_weight (vedges s e) else 0)"
      unfolding total_weight_def fst' using wt by (simp add: sum.distrib)
    then have tw': "total_weight s' = total_weight s" using tw fin(2) f(1) by (simp add: sum.delta)
    have "0 \<le> e_weight (vedges s' g)" if "fast s' g" for g using that wt [of g] nn ok1(2) e by (auto simp: fst')
    then have w': "weights_ok s'" using w tw' by (simp add: weights_ok_def)
    have ml: "lens m s'" if m: "lens m s" for m
      unfolding lens_def fst'
    proof (intro allI impI)
      fix g assume g: "fast s1 g"
      have sm: "0 \<le> e_minlen (vedges s x) \<and> e_minlen (vedges s x) \<le> m" if "fast s x" for x
        using m that by (simp add: lens_def)
      have "fast s f" "fast s g" "g \<noteq> e" using f(1) g ok1(2) by blast+
      then show "0 \<le> e_minlen (vedges s' g) \<and> e_minlen (vedges s' g) \<le> m"
        using sm [of f] sm [of g] sm [OF e] q(6) by (auto simp: s'_def dl(3) max_def)
    qed
    have dm: "demand s' u v m" if "demand s u v m" for u v m
    proof (rule demand_mono [OF _ that])
      fix g assume g: "fast s g"
      show "\<exists>g'. fast s' g' \<and> {vtail s' g', vhead s' g'} = {vtail s g, vhead s g} \<and> e_minlen (vedges s g) \<le> e_minlen (vedges s' g')"
      proof (cases "g = e")
        case True
        have "fast s' f \<and> {vtail s' f, vhead s' f} = {vtail s g, vhead s g} \<and> e_minlen (vedges s g) \<le> e_minlen (vedges s' f)"
          using f q(2,3,6) unfolding fst' True by (auto simp: s'_def dl(3) t_def h_def)
        then show ?thesis by blast
      next
        case False
        then have "fast s' g" using g by (simp add: fst' ok1(2))
        moreover have "e_minlen (vedges s g) \<le> e_minlen (vedges s' g)" using False q(6) by (auto simp: s'_def dl(3))
        ultimately show ?thesis using ed by metis
      qed
    qed
    have "frel s' = {(vtail s g, vhead s g) |g. fast s1 g}" unfolding frel_def fst' using ed by simp
    moreover have "(h, t) \<in> {(vtail s g, vhead s g) |g. fast s1 g}" using f by blast
    ultimately have j: "joined s' = joined s" using fr by auto
    have "reversed s e s'"
      unfolding reversed_def t_def [symmetric] h_def [symmetric]
    proof (intro conjI)
      show "same_walk s s'" using dl(5) ed v by (simp add: same_walk_def)
      show "fast_count s' \<le> fast_count s" using fc by (simp add: fast_count_def fst')
      show "outs s' t = zapinlist (outs s t) e" by (simp add: v dl(1))
      show "\<exists>xs. outs s' h = outs s h @ xs \<and> (\<forall>x\<in>set xs. vhead s' x = t)"
        by (rule exI [of _ "[]"]) (use th in \<open>simp add: v dl(1)\<close>)
      show "\<forall>m. m \<noteq> t \<and> m \<noteq> h \<longrightarrow> outs s' m = outs s m" by (simp add: v dl(1))
    qed (use ok' w' tw' j ml dm in simp_all)
    moreover have "reverse_edge e s = Some s'"
      using Some q(1) by (simp add: reverse_edge_def s1_def [symmetric] ends s'_def Let_def)
    ultimately show ?thesis by blast
  next
    case None
    then have no: "\<not> (fast s1 g \<and> vtail s g = h \<and> vhead s g = t)" for g using look by (auto simp: dl(3))
    define c where "c = efresh s"
    define q where "q = derived_edge (vedges s e) e h t"
    define s2 where "s2 = s1\<lparr>efresh := Suc c, vedges := (vedges s)(c := q, e := (vedges s e)\<lparr>e_to_virt := Some c\<rparr>)\<rparr>"
    define s' where "s' = fast_edge c s2"
    have ce: "c \<noteq> e" using e0(2) by (simp add: c_def)
    have "new_virtual_edge s1 h t (Some e) = (c, s2)"
      using e0(1) ce by (simp add: new_virtual_edge_def Let_def dl(3,4) c_def [symmetric] q_def [symmetric] s2_def)
        (simp add: upd_e_def dl(3) ce ce [symmetric] fun_upd_twist)
    then have rv: "reverse_edge e s = Some s'"
      using None by (simp add: reverse_edge_def s1_def [symmetric] ends virtual_edge_def s'_def Let_def)
    have qe: "e_tail q = h" "e_head q = t" "e_to_virt q = None" "e_weight q = e_weight (vedges s e)"
      by (simp_all add: q_def derived_edge_def blank_edge_def)
    have v2: "vnodes s2 = vnodes s1" "efresh s2 = Suc c" "comp s2 = comp s1" by (simp_all add: s2_def)
    have ed: "vtail s2 g = vtail s g \<and> vhead s2 g = vhead s g" if "g \<noteq> c" for g using that by (simp add: s2_def)
    have edc: "vtail s2 c = h" "vhead s2 c = t" using qe ce by (simp_all add: s2_def)
    have nc: "c \<notin> set (outs s1 n) \<and> c \<notin> set (ins s1 n)" for n
      using fg_okD(3,4) [OF ok1(1)] by (metis c_def dl(4) fast_def less_irrefl)
    have ne: "e \<notin> set (outs s1 n) \<and> e \<notin> set (ins s1 n)" for n using fg_okD(3,4) [OF ok1(1)] ok1(2) by blast
    have fst2: "fast s2 g = fast s1 g" for g
    proof (cases "g = c")
      case True
      then show ?thesis using nc by (simp add: fast_def v2)
    next
      case False
      then show ?thesis unfolding fast_def v2(1) using ed by (simp add: dl(3))
    qed
    have ok2: "fg_ok s2"
      unfolding fg_ok_def v2(1,2)
    proof (intro conjI allI ballI)
      fix n g assume g: "g \<in> set (outs s1 n)"
      then have "g \<noteq> c" "g \<noteq> e" using nc ne by auto
      then have "vedges s2 g = vedges s g" by (simp add: s2_def)
      with fg_okD(3) [OF ok1(1) g] show "vtail s2 g = n" "g \<in> set (ins s1 (vhead s2 g))" "g < Suc c" "e_to_virt (vedges s2 g) = None"
        by (simp_all add: dl(3,4) c_def)
    next
      fix n g assume g: "g \<in> set (ins s1 n)"
      then have "g \<noteq> c" "g \<noteq> e" using nc ne by auto
      then have "vedges s2 g = vedges s g" by (simp add: s2_def)
      with fg_okD(4) [OF ok1(1) g] show "vhead s2 g = n" "g \<in> set (outs s1 (vtail s2 g))"
        by (simp_all add: dl(3) fast_def)
    qed (use fg_okD(1,2) [OF ok1(1)] in simp_all)
    have nf: "\<not> fast s2 c" using nc by (simp add: fast_def v2)
    have "e_to_virt (vedges s2 c) = None" using qe ce by (simp add: s2_def)
    note ins = insert_ok [OF ok2 nf _ this, folded s'_def, unfolded v2(2), OF lessI]
    note il = fast_edge_lists [OF edc, folded s'_def]
    have set': "{g. fast s' g} = insert c {g. fast s1 g}" using ins(2) fst2 by auto
    have nc1: "c \<notin> {g. fast s1 g}" using nf fst2 by simp
    have wt: "e_weight (vedges s' g) = (if g = c then e_weight (vedges s e) else e_weight (vedges s g))" if "fast s' g" for g
      using ne qe ce that ins(2) [of g] by (auto simp: il(3) s2_def)
    have "total_weight s' = e_weight (vedges s e) + (\<Sum>g | fast s1 g. e_weight (vedges s g))"
    proof -
      have "total_weight s' = e_weight (vedges s' c) + (\<Sum>g | fast s1 g. e_weight (vedges s' g))"
        unfolding total_weight_def set' using fin(2) nc1 by simp
      moreover have "(\<Sum>g | fast s1 g. e_weight (vedges s' g)) = (\<Sum>g | fast s1 g. e_weight (vedges s g))"
        by (rule sum.cong [OF refl]) (metis ins(2) fst2 nf mem_Collect_eq wt)
      ultimately show ?thesis using wt [of c] set' by auto
    qed
    then have tw': "total_weight s' = total_weight s" using tw by simp
    have "0 \<le> e_weight (vedges s' g)" if "fast s' g" for g
      using that wt [OF that] nn e ok1(2) ins(2) [of g] fst2 [of g] by auto
    then have w': "weights_ok s'" using w tw' by (simp add: weights_ok_def)
    have "e_minlen q = e_minlen (vedges s e)" by (simp add: q_def derived_edge_def blank_edge_def)
    then have ml: "lens m s'" if "lens m s" for m
      using that ins(2) fst2 ok1(2) ce e by (auto simp: lens_def il(3) s2_def)
    have dm: "demand s' u v m" if "demand s u v m" for u v m
    proof (rule demand_mono [OF _ that])
      fix g assume g: "fast s g"
      show "\<exists>g'. fast s' g' \<and> {vtail s' g', vhead s' g'} = {vtail s g, vhead s g} \<and> e_minlen (vedges s g) \<le> e_minlen (vedges s' g')"
      proof (cases "g = e")
        case True
        have "fast s' c" using ins(2) by simp
        moreover have "e_minlen (vedges s' c) = e_minlen (vedges s e)" using ce by (simp add: il(3) s2_def q_def derived_edge_def blank_edge_def)
        moreover have "{vtail s' c, vhead s' c} = {vtail s g, vhead s g}" using edc by (auto simp: il(3) True t_def h_def)
        ultimately show ?thesis using True by (intro exI [of _ c]) simp
      next
        case False
        have "g \<noteq> c" using g fg_okD(3) [OF ok, of g] unfolding fast_def c_def by blast
        then have "vedges s' g = vedges s g" using False by (simp add: il(3) s2_def)
        moreover have "fast s' g" using g False ins(2) fst2 ok1(2) by simp
        ultimately show ?thesis by (intro exI [of _ g]) simp
      qed
    qed
    have "frel s' = insert (h, t) {(vtail s g, vhead s g) |g. fast s1 g}"
    proof -
      have "frel s' = {(vtail s2 g, vhead s2 g) |g. g = c \<or> fast s1 g}" unfolding frel_def il(3) using ins(2) fst2 by blast
      also have "\<dots> = insert (h, t) {(vtail s2 g, vhead s2 g) |g. fast s1 g}" using edc by auto
      also have "{(vtail s2 g, vhead s2 g) |g. fast s1 g} = {(vtail s g, vhead s g) |g. fast s1 g}"
        using ed nc1 by (metis (mono_tags, lifting) mem_Collect_eq)
      finally show ?thesis .
    qed
    then have j: "joined s' = joined s" using fr by auto
    have "reversed s e s'"
      unfolding reversed_def t_def [symmetric] h_def [symmetric]
    proof (intro conjI)
      show "same_walk s s'" using dl(5) il(5) v2 ed by (auto simp: same_walk_def il(3,4) c_def)
      show "fast_count s' \<le> fast_count s" unfolding fast_count_def [of s'] set' using fc fin(2) nc1 by simp
      show "outs s' t = zapinlist (outs s t) e" using th by (simp add: il(1) v2 dl(1))
      show "\<exists>xs. outs s' h = outs s h @ xs \<and> (\<forall>x\<in>set xs. vhead s' x = t)"
        by (rule exI [of _ "[c]"]) (use th edc in \<open>simp add: il(1,3) v2 dl(1)\<close>)
      show "\<forall>m. m \<noteq> t \<and> m \<noteq> h \<longrightarrow> outs s' m = outs s m" by (simp add: il(1) v2 dl(1))
    qed (use ins(1) w' tw' j ml dm in simp_all)
    with rv show ?thesis by blast
  qed
qed

section \<open>Depth-first search\<close>

text \<open>Every edge of a node of the list leads to an earlier one.\<close>

definition topo :: "fgraph \<Rightarrow> nat list \<Rightarrow> bool" where
  "topo s L \<longleftrightarrow> (\<forall>A u B. L = A @ u # B \<longrightarrow> (\<forall>e\<in>set (outs s u). vhead s e \<in> set A))"

lemma topo_Nil [simp]: "topo s []"
  by (simp add: topo_def)

lemma topo_snoc: "topo s (L @ [u]) \<longleftrightarrow> topo s L \<and> (\<forall>e\<in>set (outs s u). vhead s e \<in> set L)"
proof
  assume t: "topo s (L @ [u])"
  show "topo s L \<and> (\<forall>e\<in>set (outs s u). vhead s e \<in> set L)"
    using t unfolding topo_def by (metis append.assoc append_Cons append_Nil2)
next
  assume t: "topo s L \<and> (\<forall>e\<in>set (outs s u). vhead s e \<in> set L)"
  show "topo s (L @ [u])"
    unfolding topo_def
  proof (intro allI impI)
    fix A v B assume "L @ [u] = A @ v # B"
    then show "\<forall>e\<in>set (outs s v). vhead s e \<in> set A"
      using t by (cases B rule: rev_cases) (auto simp: topo_def)
  qed
qed

lemma topo_heads: "topo s L \<Longrightarrow> u \<in> set L \<Longrightarrow> e \<in> set (outs s u) \<Longrightarrow> vhead s e \<in> set L"
  by (auto simp: topo_def dest!: split_list)

lemma topo_same: "topo s L \<Longrightarrow> (\<And>u. u \<in> set L \<Longrightarrow> outs s' u = outs s u) \<Longrightarrow>
    (\<And>u e. u \<in> set L \<Longrightarrow> e \<in> set (outs s u) \<Longrightarrow> vhead s' e = vhead s e) \<Longrightarrow> topo s' L"
  unfolding topo_def by (metis in_set_conv_decomp)

text \<open>
  The search among the nodes \<open>V\<close>: the finished nodes, in the order they were finished, are \<open>L\<close>.
\<close>

definition search_ok :: "nat set \<Rightarrow> fgraph \<Rightarrow> nat list \<Rightarrow> bool" where
  "search_ok V s L \<longleftrightarrow> fg_ok s \<and> weights_ok s \<and> finite V \<and> irrefl (joined s) \<and>
     (\<forall>e. fast s e \<longrightarrow> vtail s e \<in> V \<longrightarrow> vhead s e \<in> V) \<and>
     (\<forall>n\<in>V. v_onstack (vnodes s n) \<longrightarrow> v_mark (vnodes s n) \<noteq> 0) \<and>
     distinct L \<and> set L = {n \<in> V. v_mark (vnodes s n) \<noteq> 0 \<and> \<not> v_onstack (vnodes s n)} \<and> topo s L"

text \<open>What every part of the search leaves alone.\<close>

definition frame :: "fgraph \<Rightarrow> fgraph \<Rightarrow> bool" where
  "frame s s' \<longleftrightarrow> (\<forall>m. lens m s \<longrightarrow> lens m s') \<and> (\<forall>u v m. demand s u v m \<longrightarrow> demand s' u v m) \<and> joined s' = joined s \<and> fast_count s' \<le> fast_count s \<and>
     total_weight s' = total_weight s \<and> comp s' = comp s \<and> efresh s \<le> efresh s' \<and>
     (\<forall>e < efresh s. vhead s' e = vhead s e \<and> vtail s' e = vtail s e) \<and>
     (\<forall>m. v_next (vnodes s' m) = v_next (vnodes s m) \<and> v_onstack (vnodes s' m) = v_onstack (vnodes s m))"

lemma frame_refl [simp]: "frame s s"
  by (simp add: frame_def)

lemma frame_trans: "frame s s1 \<Longrightarrow> frame s1 s2 \<Longrightarrow> frame s s2"
  by (simp add: frame_def)

lemma frameD:
  assumes "frame s s'"
  shows "joined s' = joined s" and "fast_count s' \<le> fast_count s" and "total_weight s' = total_weight s"
    and "v_onstack (vnodes s' m) = v_onstack (vnodes s m)" and "v_next (vnodes s' m) = v_next (vnodes s m)"
    and "comp s' = comp s" and "e < efresh s \<Longrightarrow> vhead s' e = vhead s e"
  using assms by (simp_all add: frame_def)

text \<open>What a part of the search does, \<open>M\<close> being the nodes finished in it and \<open>D\<close> the heads of new edges.\<close>

definition searched :: "nat set \<Rightarrow> fgraph \<Rightarrow> nat list \<Rightarrow> nat set \<Rightarrow> nat \<Rightarrow> fgraph \<Rightarrow> bool" where
  "searched V s M D n s' \<longleftrightarrow> set M \<subseteq> V \<and> frame s s' \<and>
     (\<forall>m. v_mark (vnodes s' m) \<noteq> 0 \<longleftrightarrow> v_mark (vnodes s m) \<noteq> 0 \<or> m \<in> set M) \<and>
     (\<forall>m. m \<notin> set M \<and> m \<noteq> n \<longrightarrow> (\<exists>xs. outs s' m = outs s m @ xs \<and> (\<forall>x\<in>set xs. vhead s' x \<in> D \<and> m \<in> V \<and> v_onstack (vnodes s m))))"

definition unmarked :: "nat set \<Rightarrow> fgraph \<Rightarrow> nat" where
  "unmarked V s = card {n \<in> V. v_mark (vnodes s n) = 0}"

lemma outs_length: "fg_ok s \<Longrightarrow> length (outs s n) \<le> fast_count s"
proof -
  assume ok: "fg_ok s"
  have "set (outs s n) \<subseteq> {e. fast s e}" using fg_okD(3) [OF ok] by blast
  from card_mono [OF fast_finite [OF ok] this] show ?thesis
    using distinct_card [OF fg_okD(1) [OF ok]] by (simp add: fast_count_def)
qed

lemma searched_trans:
  assumes ok: "fg_ok s1" and 1: "searched V s M1 D1 n1 s1" and 2: "searched V s1 M2 D2 n s2"
    and n1: "n1 \<in> set M1 \<or> n1 = n"
  shows "searched V s (M1 @ M2) (D1 \<union> D2) n s2"
proof -
  have "\<exists>xs. outs s2 m = outs s m @ xs \<and> (\<forall>x\<in>set xs. vhead s2 x \<in> D1 \<union> D2 \<and> m \<in> V \<and> v_onstack (vnodes s m))"
    if m: "m \<notin> set (M1 @ M2)" "m \<noteq> n" for m
  proof -
    have m1: "m \<notin> set M1 \<and> m \<noteq> n1" "m \<notin> set M2 \<and> m \<noteq> n" using m n1 by auto
    from 1 m1(1) obtain xs where xs: "outs s1 m = outs s m @ xs" "\<forall>x\<in>set xs. vhead s1 x \<in> D1 \<and> m \<in> V \<and> v_onstack (vnodes s m)"
      unfolding searched_def by blast
    from 2 m1(2) obtain ys where ys: "outs s2 m = outs s1 m @ ys" "\<forall>x\<in>set ys. vhead s2 x \<in> D2 \<and> m \<in> V \<and> v_onstack (vnodes s1 m)"
      unfolding searched_def by blast
    have "vhead s2 x = vhead s1 x" if "x \<in> set xs" for x
    proof -
      have "x \<in> set (outs s1 m)" using that xs(1) by simp
      then have "x < efresh s1" using fg_okD(3) [OF ok] by blast
      with 2 show ?thesis by (simp add: searched_def frame_def)
    qed
    moreover have "v_onstack (vnodes s1 m) = v_onstack (vnodes s m)" using 1 by (simp add: searched_def frame_def)
    ultimately show ?thesis using xs ys by (intro exI [of _ "xs @ ys"]) auto
  qed
  then show ?thesis
    using 1 2 unfolding searched_def
    by (auto intro: frame_trans)
qed

lemma searched_refl: "searched V s [] D n s"
  by (auto simp: searched_def)

lemma searched_widen: "searched V s M D n s' \<Longrightarrow> D \<subseteq> D' \<Longrightarrow> n \<in> set M \<Longrightarrow> searched V s M D' n' s'"
proof -
  assume a: "searched V s M D n s'" "D \<subseteq> D'" "n \<in> set M"
  have "\<exists>xs. outs s' m = outs s m @ xs \<and> (\<forall>x\<in>set xs. vhead s' x \<in> D' \<and> m \<in> V \<and> v_onstack (vnodes s m))"
    if "m \<notin> set M" for m
  proof -
    have "m \<notin> set M \<and> m \<noteq> n" using that a(3) by auto
    with a(1) obtain xs where "outs s' m = outs s m @ xs" "\<forall>x\<in>set xs. vhead s' x \<in> D \<and> m \<in> V \<and> v_onstack (vnodes s m)"
      unfolding searched_def by blast
    with a(2) show ?thesis by (intro exI [of _ xs]) auto
  qed
  with a(1) show ?thesis unfolding searched_def by blast
qed

text \<open>A reversed edge.\<close>

lemma reversed_search:
  assumes so: "search_ok V s L" and r: "reversed s e s'" and e: "fast s e" and n: "vtail s e = n" "n \<in> V"
    and h: "v_onstack (vnodes s (vhead s e))" and "n \<notin> set L"
  shows "search_ok V s' L" and "searched V s [] {n} n s'" and "vhead s e \<in> V"
proof -
  have ok: "fg_ok s" and ir: "irrefl (joined s)" and cl: "\<forall>e. fast s e \<longrightarrow> vtail s e \<in> V \<longrightarrow> vhead s e \<in> V"
    and tp: "topo s L" using so by (simp_all add: search_ok_def)
  show hV: "vhead s e \<in> V" using cl e n by simp
  have sw: "same_walk s s'" using r by (simp add: reversed_def)
  have ok': "fg_ok s'" using r by (simp add: reversed_def)
  have jn: "joined s' = joined s" using r by (simp add: reversed_def)
  have hL: "vhead s e \<notin> set L" using so h by (simp add: search_ok_def)
  have outs: "outs s' u = outs s u" if "u \<in> set L" for u
  proof -
    have "u \<noteq> vhead s e \<and> u \<noteq> vtail s e" using hL that assms(7) n(1) by auto
    with r show ?thesis by (simp add: reversed_def)
  qed
  have edge: "vhead s' f = vhead s f" if "f \<in> set (outs s u)" for f u
    using that fg_okD(3) [OF ok that] sw by (simp add: same_walk_def)
  have "vhead s' f \<in> V" if f: "fast s' f" "vtail s' f \<in> V" for f
  proof -
    have "(vtail s' f, vhead s' f) \<in> joined s" using f(1) jn unfolding frel_def by blast
    then consider g where "fast s g" "vtail s g = vtail s' f" "vhead s g = vhead s' f" |
        g where "fast s g" "vhead s g = vtail s' f" "vtail s g = vhead s' f" by (auto simp: frel_def)
    then show ?thesis
    proof cases
      case 1
      with cl f(2) show ?thesis by metis
    next
      case 2
      show ?thesis
      proof (cases "fast s f")
        case True
        then have "f < efresh s" using ok by (auto simp: fg_ok_def fast_def)
        with sw True cl f(2) show ?thesis by (simp add: same_walk_def)
      next
        case False
        have m: "f \<in> set (outs s' (vtail s' f))" using f(1) by (simp add: fast_def)
        show ?thesis
        proof (cases "vtail s' f = vhead s e")
          case True
          from r obtain xs where xs: "outs s' (vhead s e) = outs s (vhead s e) @ xs" "\<forall>x\<in>set xs. vhead s' x = vtail s e"
            unfolding reversed_def by blast
          have "f \<notin> set (outs s (vhead s e))" using False fg_okD(3) [OF ok] by blast
          with m xs True n show ?thesis by auto
        next
          case noth: False
          have "f \<in> set (outs s (vtail s' f))"
          proof (cases "vtail s' f = n")
            case True
            then show ?thesis using m r zap_set(1) [OF fg_okD(1) [OF ok]] n by (auto simp: reversed_def)
          next
            case False
            then show ?thesis using m noth r n by (auto simp: reversed_def)
          qed
          then show ?thesis using fg_okD(3) [OF ok] False by blast
        qed
      qed
    qed
  qed
  then show "search_ok V s' L"
    using so r sw topo_same [OF tp outs edge] unfolding search_ok_def jn by (auto simp: reversed_def same_walk_def)
  have "\<exists>xs. outs s' m = outs s m @ xs \<and> (\<forall>x\<in>set xs. vhead s' x \<in> {n} \<and> m \<in> V \<and> v_onstack (vnodes s m))"
    if "m \<noteq> n" for m
  proof (cases "m = vhead s e")
    case True
    then show ?thesis using r hV h n by (auto simp: reversed_def)
  next
    case False
    then show ?thesis using r n that by (auto simp: reversed_def)
  qed
  then show "searched V s [] {n} n s'"
    using r sw by (simp add: searched_def frame_def reversed_def same_walk_def)
qed

text \<open>Entering and leaving a node.\<close>

lemma same_lists:
  assumes "\<And>m. outs s' m = outs s m" and "\<And>m. ins s' m = ins s m" and "vedges s' = vedges s" and "efresh s' = efresh s"
  shows "fast s' = fast s" and "fg_ok s' = fg_ok s" and "frel s' = frel s" and "weights_ok s' = weights_ok s"
    and "fast_count s' = fast_count s" and "topo s' L = topo s L" and "total_weight s' = total_weight s"
    and "lens m s' = lens m s" and "demand s' u v m = demand s u v m"
proof -
  show f: "fast s' = fast s" using assms by (simp add: fun_eq_iff fast_def)
  show "fg_ok s' = fg_ok s" using assms by (simp add: fg_ok_def)
  show "frel s' = frel s" "fast_count s' = fast_count s" "topo s' L = topo s L" "lens m s' = lens m s"
    "demand s' u v m = demand s u v m"
    using assms f by (simp_all add: frel_def fast_count_def topo_def lens_def demand_def)
  show t: "total_weight s' = total_weight s" using assms f by (simp add: total_weight_def)
  show "weights_ok s' = weights_ok s" using assms f t by (simp add: weights_ok_def)
qed

lemma enter_node:
  assumes so: "search_ok V s L" and n: "n \<in> V" "v_mark (vnodes s n) = 0"
  shows "search_ok V (upd_v n (\<lambda>x. x\<lparr>v_mark := 1, v_onstack := True\<rparr>) s) L"
    and "Suc (unmarked V (upd_v n (\<lambda>x. x\<lparr>v_mark := 1, v_onstack := True\<rparr>) s)) = unmarked V s"
    and "fast_count (upd_v n (\<lambda>x. x\<lparr>v_mark := 1, v_onstack := True\<rparr>) s) = fast_count s"
    and "\<not> v_onstack (vnodes s n)" and "n \<notin> set L"
proof -
  let ?s = "upd_v n (\<lambda>x. x\<lparr>v_mark := 1, v_onstack := True\<rparr>) s"
  have "outs ?s m = outs s m" "ins ?s m = ins s m" for m by simp_all
  note sl = same_lists [where s = s and s' = ?s, OF this upd_v_simps(2,3)]
  show "fast_count ?s = fast_count s" by (rule sl(5))
  show on: "\<not> v_onstack (vnodes s n)" "n \<notin> set L" using so n by (auto simp: search_ok_def)
  show "search_ok V ?s L" using so n on unfolding search_ok_def sl by auto
  have "finite V" using so by (simp add: search_ok_def)
  moreover have "{m \<in> V. v_mark (vnodes s m) = 0} = insert n {m \<in> V. v_mark (vnodes ?s m) = 0}" using n by auto
  ultimately show "Suc (unmarked V ?s) = unmarked V s" by (simp add: unmarked_def)
qed

lemma leave_node:
  assumes so: "search_ok V s L" and n: "n \<in> V" "v_mark (vnodes s n) = 0"
    and s1: "searched V (upd_v n (\<lambda>x. x\<lparr>v_mark := 1, v_onstack := True\<rparr>) s) M (insert n (set M)) n s1"
    "search_ok V s1 (L @ M)" "\<forall>e\<in>set (outs s1 n). vhead s1 e \<in> set (L @ M)"
  shows "search_ok V (upd_v n (\<lambda>x. x\<lparr>v_onstack := False\<rparr>) s1) (L @ M @ [n])"
    and "searched V s (M @ [n]) (set (M @ [n])) n (upd_v n (\<lambda>x. x\<lparr>v_onstack := False\<rparr>) s1)"
proof -
  let ?r = "upd_v n (\<lambda>x. x\<lparr>v_mark := 1, v_onstack := True\<rparr>) s" and ?s = "upd_v n (\<lambda>x. x\<lparr>v_onstack := False\<rparr>) s1"
  note en = enter_node [OF so n]
  have "outs ?s m = outs s1 m" "ins ?s m = ins s1 m" for m by simp_all
  note sl = same_lists [where s = s1 and s' = ?s, OF this upd_v_simps(2,3)]
  have "outs ?r m = outs s m" "ins ?r m = ins s m" for m by simp_all
  note sl0 = same_lists [where s = s and s' = ?r, OF this upd_v_simps(2,3)]
  have m1: "v_mark (vnodes s1 n) \<noteq> 0" "v_onstack (vnodes s1 n)" using s1(1) by (simp_all add: searched_def frame_def)
  then have nLM: "n \<notin> set (L @ M)" using s1(2) by (simp add: search_ok_def)
  have st: "set (L @ M @ [n]) = {m \<in> V. v_mark (vnodes ?s m) \<noteq> 0 \<and> \<not> v_onstack (vnodes ?s m)}"
    using s1(2) n(1) m1 by (auto simp: search_ok_def)
  have tp: "topo ?s (L @ M @ [n])"
  proof -
    have "topo s1 ((L @ M) @ [n])" using s1(2,3) by (simp only: topo_snoc search_ok_def)
    then show ?thesis by (simp only: sl(6) append_assoc)
  qed
  have dst: "distinct (L @ M @ [n])" 
  proof -
    have "distinct (L @ M)" using s1(2) by (simp only: search_ok_def)
    with nLM have "distinct ((L @ M) @ [n])" by (simp only: distinct_append distinct.simps set_simps) simp
    then show ?thesis by simp
  qed
  have on: "\<forall>m\<in>V. v_onstack (vnodes ?s m) \<longrightarrow> v_mark (vnodes ?s m) \<noteq> 0" using s1(2) by (simp add: search_ok_def)
  have ed: "\<forall>e. fast s1 e \<longrightarrow> vtail ?s e \<in> V \<longrightarrow> vhead ?s e \<in> V" using s1(2) by (simp add: search_ok_def)
  have "fg_ok s1" "weights_ok s1" "finite V" "irrefl (joined s1)" using s1(2) by (simp_all add: search_ok_def)
  then show "search_ok V ?s (L @ M @ [n])"
    unfolding search_ok_def sl(1-5) using st tp dst on ed by blast
  have tot: "\<forall>m. lens m s \<longrightarrow> lens m s1" "\<forall>u v m. demand s u v m \<longrightarrow> demand s1 u v m" "joined s1 = joined s" "fast_count s1 \<le> fast_count s" "total_weight s1 = total_weight s"
    using s1(1) unfolding searched_def frame_def sl0 by blast+
  show "searched V s (M @ [n]) (set (M @ [n])) n ?s"
    unfolding searched_def frame_def
  proof (intro conjI allI impI)
    show "set (M @ [n]) \<subseteq> V" using s1(1) n by (simp add: searched_def frame_def)
    fix m
    show "v_onstack (vnodes ?s m) = v_onstack (vnodes s m)" using s1(1) en(4) by (simp add: searched_def frame_def)
    show "v_next (vnodes ?s m) = v_next (vnodes s m)" using s1(1) by (simp add: searched_def frame_def)
    show "v_mark (vnodes ?s m) \<noteq> 0 \<longleftrightarrow> v_mark (vnodes s m) \<noteq> 0 \<or> m \<in> set (M @ [n])"
      using s1(1) n(2) by (auto simp: searched_def)
    assume m: "m \<notin> set (M @ [n]) \<and> m \<noteq> n"
    with s1(1) obtain xs where "outs s1 m = outs ?r m @ xs"
      "\<forall>x\<in>set xs. vhead s1 x \<in> insert n (set M) \<and> m \<in> V \<and> v_onstack (vnodes ?r m)" unfolding searched_def by auto
    with m show "\<exists>xs. outs ?s m = outs s m @ xs \<and> (\<forall>x\<in>set xs. vhead ?s x \<in> set (M @ [n]) \<and> m \<in> V \<and> v_onstack (vnodes s m))"
      by (intro exI [of _ xs]) auto
  qed (use s1(1) tot in \<open>simp_all add: searched_def frame_def sl\<close>)
qed

text \<open>The search, with enough fuel for its depth.\<close>

lemma less_unmarked:
  assumes "searched V s M D n' s'" and "finite V" and "w \<in> set M" and "v_mark (vnodes s w) = 0"
  shows "unmarked V s' < unmarked V s"
proof -
  have mk: "v_mark (vnodes s' m) \<noteq> 0 \<longleftrightarrow> v_mark (vnodes s m) \<noteq> 0 \<or> m \<in> set M" for m
    using assms(1) unfolding searched_def by blast
  then have "{n \<in> V. v_mark (vnodes s' n) = 0} \<subseteq> {n \<in> V. v_mark (vnodes s n) = 0}" by blast
  moreover have "w \<in> {n \<in> V. v_mark (vnodes s n) = 0}" "w \<notin> {n \<in> V. v_mark (vnodes s' n) = 0}"
    using assms(1,3,4) mk [of w] by (auto simp: searched_def)
  ultimately have "{n \<in> V. v_mark (vnodes s' n) = 0} \<subset> {n \<in> V. v_mark (vnodes s n) = 0}" by blast
  then show ?thesis unfolding unmarked_def using assms(2) by (intro psubset_card_mono) simp_all
qed

lemma dfs_total:
  assumes B: "fast_count s \<le> B" and so: "search_ok V s L" and n: "n \<in> V"
  shows "v_mark (vnodes s n) = 0 \<Longrightarrow> unmarked V s * (B + 2) < k \<Longrightarrow>
      \<exists>s' M. dfs k n s = Some s' \<and> search_ok V s' (L @ M) \<and> searched V s M (set M) n s' \<and> n \<in> set M"
    and "v_onstack (vnodes s n) \<Longrightarrow> \<forall>j < i. vhead s (outs s n ! j) \<in> set L \<Longrightarrow> i \<le> length (outs s n) \<Longrightarrow>
      unmarked V s * (B + 2) + (length (outs s n) - i) < k \<Longrightarrow>
      \<exists>s' M. dfs_loop k n i s = Some s' \<and> search_ok V s' (L @ M) \<and> searched V s M (insert n (set M)) n s' \<and>
        (\<forall>e\<in>set (outs s' n). vhead s' e \<in> set (L @ M))"
  using B so n
proof (induction k arbitrary: s n i L)
  case 0
  {
    case 1
    then show ?case by simp
  next
    case 2
    then show ?case by simp
  }
next
  case (Suc k)
  {
    case 1
    let ?s = "upd_v n (\<lambda>x. x\<lparr>v_mark := 1, v_onstack := True\<rparr>) s"
    note en = enter_node [OF 1(4,5,1)]
    have "length (outs ?s n) \<le> B" using outs_length [of ?s n] en(1,3) 1(3) by (simp add: search_ok_def)
    moreover have "unmarked V s * (B + 2) = unmarked V ?s * (B + 2) + B + 2" unfolding en(2) [symmetric] by simp
    ultimately have "unmarked V ?s * (B + 2) + (length (outs ?s n) - 0) < k" using 1(2) by linarith
    from Suc.IH(2) [OF _ _ _ this _ en(1) 1(5)] en(3) 1(3) obtain s1 M where
      s1: "dfs_loop k n 0 ?s = Some s1" "search_ok V s1 (L @ M)" "searched V ?s M (insert n (set M)) n s1"
      "\<forall>e\<in>set (outs s1 n). vhead s1 e \<in> set (L @ M)" by auto
    note lv = leave_node [OF 1(4,5,1) s1(3,2,4)]
    have "dfs (Suc k) n s = Some (upd_v n (\<lambda>x. x\<lparr>v_onstack := False\<rparr>) s1)" using 1(1) s1(1) by simp
    with lv show ?case by (intro exI [of _ "upd_v n (\<lambda>x. x\<lparr>v_onstack := False\<rparr>) s1"] exI [of _ "M @ [n]"]) simp
  next
    case 2
    have ok: "fg_ok s" and fin: "finite V" using 2(6) by (simp_all add: search_ok_def)
    show ?case
    proof (cases "i < length (outs s n)")
      case False
      then have "dfs_loop (Suc k) n i s = Some s" by (simp add: get_at_def)
      moreover have "\<forall>e\<in>set (outs s n). vhead s e \<in> set L" using 2(2) False by (auto simp: in_set_conv_nth)
      ultimately show ?thesis using 2(6) searched_refl by (intro exI [of _ s] exI [of _ "[]"]) simp
    next
      case True
      define e where "e = outs s n ! i"
      define w where "w = vhead s e"
      have en: "e \<in> set (outs s n)" using True by (simp add: e_def)
      have e: "fast s e" "vtail s e = n" "e < efresh s" using fg_okD(3) [OF ok en] by simp_all
      have get: "get_at (outs s n) i = Some e" using True by (simp add: get_at_def e_def)
      have wV: "w \<in> V" using 2(6,7) e by (auto simp: search_ok_def w_def)
      have nL: "n \<notin> set L" using 2(1,6) by (auto simp: search_ok_def)
      show ?thesis
      proof (cases "v_onstack (vnodes s w)")
        case on: True
        have "(n, w) \<in> joined s" using e by (auto simp: frel_def w_def)
        then have "n \<noteq> w" using 2(6) by (auto simp: search_ok_def irrefl_def)
        then obtain s1 where s1: "reverse_edge e s = Some s1" "reversed s e s1"
          using reverse_edge_spec [OF ok _ e(1)] e(2) 2(6) by (auto simp: search_ok_def w_def)
        note rv = reversed_search [OF 2(6) s1(2) e(1,2) 2(7) on [unfolded w_def] nL]
        have o1: "outs s1 n = zapinlist (outs s n) e" using s1(2) e(2) by (simp add: reversed_def)
        note zp = zap_prefix [OF fg_okD(1) [OF ok] True, folded e_def]
        have len: "Suc (length (outs s1 n)) = length (outs s n)" by (simp add: o1 zp(2))
        have pre: "\<forall>j < i. vhead s1 (outs s1 n ! j) \<in> set L"
        proof (intro allI impI)
          fix j assume j: "j < i"
          have "outs s1 n ! j = outs s n ! j" using zp(1) j unfolding o1 by (metis nth_take)
          moreover have "outs s n ! j \<in> set (outs s n)" using j True by simp
          ultimately show "vhead s1 (outs s1 n ! j) \<in> set L"
            using 2(2) j fg_okD(3) [OF ok] s1(2) by (simp add: reversed_def same_walk_def)
        qed
        have on1: "v_onstack (vnodes s1 n)" using 2(1) rv(2) by (simp add: searched_def frame_def)
        have "{m \<in> V. v_mark (vnodes s1 m) = 0} = {m \<in> V. v_mark (vnodes s m) = 0}"
          using s1(2) by (simp add: reversed_def same_walk_def)
        then have um: "unmarked V s1 = unmarked V s" by (simp add: unmarked_def)
        have fc: "fast_count s1 \<le> B" using s1(2) 2(5) by (simp add: reversed_def)
        have "i \<le> length (outs s1 n)" using len True by linarith
        moreover have "unmarked V s1 * (B + 2) + (length (outs s1 n) - i) < k" using 2(4) um len True by simp
        ultimately obtain s2 M where s2: "dfs_loop k n i s1 = Some s2" "search_ok V s2 (L @ M)"
          "searched V s1 M (insert n (set M)) n s2" "\<forall>e\<in>set (outs s2 n). vhead s2 e \<in> set (L @ M)"
          using Suc.IH(2) [OF on1 pre _ _ fc rv(1) 2(7)] by blast
        have "fg_ok s1" using rv(1) by (simp add: search_ok_def)
        from searched_trans [OF this rv(2) s2(3)] have "searched V s M (insert n (set M)) n s2" by simp
        moreover have "dfs_loop (Suc k) n i s = Some s2"
          using get on s1(1) s2(1) by (simp add: w_def)
        ultimately show ?thesis using s2 by blast
      next
        case off: False
        show ?thesis
        proof (cases "v_mark (vnodes s w) = 0")
          case False
          then have wL: "w \<in> set L" using wV off 2(6) by (simp add: search_ok_def)
          have pre: "\<forall>j < Suc i. vhead s (outs s n ! j) \<in> set L" using 2(2) wL by (auto simp: less_Suc_eq e_def w_def)
          have "unmarked V s * (B + 2) + (length (outs s n) - Suc i) < k" using 2(4) True by linarith
          from Suc.IH(2) [OF 2(1) pre _ this 2(5-7)] True obtain s2 M where
            "dfs_loop k n (Suc i) s = Some s2" "search_ok V s2 (L @ M)" "searched V s M (insert n (set M)) n s2"
            "\<forall>e\<in>set (outs s2 n). vhead s2 e \<in> set (L @ M)" by auto
          moreover have "dfs_loop (Suc k) n i s = dfs_loop k n (Suc i) s"
            using get off False by (simp add: w_def)
          ultimately show ?thesis by metis
        next
          case un: True
          have fuel: "unmarked V s * (B + 2) < k" using 2(4) True by linarith
          from Suc.IH(1) [OF un fuel 2(5,6) wV] obtain s1 M1 where
            s1: "dfs k w s = Some s1" "search_ok V s1 (L @ M1)" "searched V s M1 (set M1) w s1" "w \<in> set M1" by blast
          have ok1: "fg_ok s1" using s1(2) by (simp add: search_ok_def)
          have nM: "n \<notin> set M1"
            using s1(2,3) 2(1,7) by (auto simp: search_ok_def searched_def frame_def)
          then obtain xs where xs: "outs s1 n = outs s n @ xs"
            using s1(3,4) unfolding searched_def by metis
          have heads: "vhead s1 f = vhead s f" if "f \<in> set (outs s n)" for f
            using that fg_okD(3) [OF ok that] s1(3) by (simp add: searched_def frame_def)
          have pre: "\<forall>j < Suc i. vhead s1 (outs s1 n ! j) \<in> set (L @ M1)"
          proof (intro allI impI)
            fix j assume j: "j < Suc i"
            then have nth: "outs s1 n ! j = outs s n ! j" "outs s n ! j \<in> set (outs s n)"
              using True by (simp_all add: xs nth_append)
            show "vhead s1 (outs s1 n ! j) \<in> set (L @ M1)"
              using heads [OF nth(2)] nth(1) 2(2) j s1(4) by (cases "j = i") (auto simp: e_def w_def)
          qed
          have on1: "v_onstack (vnodes s1 n)" using 2(1) s1(3) by (simp add: searched_def frame_def)
          have fc: "fast_count s1 \<le> B" using s1(3) 2(5) by (simp add: searched_def frame_def)
          have "Suc (unmarked V s1) \<le> unmarked V s" using less_unmarked [OF s1(3) fin s1(4) un] by simp
          then have "Suc (unmarked V s1) * (B + 2) \<le> unmarked V s * (B + 2)" by (rule mult_le_mono1)
          then have "unmarked V s1 * (B + 2) + (length (outs s1 n) - Suc i) < k"
            using fuel outs_length [OF ok1, of n] fc by simp
          from Suc.IH(2) [OF on1 pre _ this fc s1(2)] 2(7) True xs obtain s2 M2 where
            s2: "dfs_loop k n (Suc i) s1 = Some s2" "search_ok V s2 ((L @ M1) @ M2)" "searched V s1 M2 (insert n (set M2)) n s2"
            "\<forall>e\<in>set (outs s2 n). vhead s2 e \<in> set ((L @ M1) @ M2)" by auto
          from searched_trans [OF ok1 s1(3) s2(3)] s1(4)
          have "searched V s (M1 @ M2) (set M1 \<union> insert n (set M2)) n s2" by simp
          then have "searched V s (M1 @ M2) (insert n (set (M1 @ M2))) n s2" by simp
          moreover have "dfs_loop (Suc k) n i s = Some s2" using get off un s1(1) s2(1) by (simp add: w_def)
          ultimately show ?thesis using s2(2,4) by (intro exI [of _ s2] exI [of _ "M1 @ M2"]) simp
        qed
      qed
    qed
  }
qed

section \<open>Components\<close>

text \<open>What the search among the nodes \<open>V\<close> leaves alone.\<close>

definition keeps :: "nat set \<Rightarrow> fgraph \<Rightarrow> fgraph \<Rightarrow> bool" where
  "keeps V s s' \<longleftrightarrow> frame s s' \<and> (\<forall>m. m \<notin> V \<longrightarrow> outs s' m = outs s m)"

lemma keeps_refl: "keeps V s s"
  by (simp add: keeps_def frame_def)

lemma keeps_trans: "keeps V s s1 \<Longrightarrow> keeps W s1 s2 \<Longrightarrow> keeps (V \<union> W) s s2"
  unfolding keeps_def using frame_trans by auto

lemma searched_keeps: "searched V s M D n s' \<Longrightarrow> n \<in> V \<Longrightarrow> keeps V s s'"
proof -
  assume s: "searched V s M D n s'" and n: "n \<in> V"
  have "outs s' m = outs s m" if "m \<notin> V" for m
  proof -
    have "m \<notin> set M \<and> m \<noteq> n" using s n that by (auto simp: searched_def)
    with s obtain xs where "outs s' m = outs s m @ xs" "\<forall>x\<in>set xs. m \<in> V" unfolding searched_def by blast
    with that show ?thesis by (cases xs) auto
  qed
  with s show ?thesis by (simp add: searched_def keeps_def)
qed

text \<open>A list of nodes linked by \<open>ND_next\<close>.\<close>

primrec linked :: "fgraph \<Rightarrow> nat list \<Rightarrow> bool" where
  "linked s [] \<longleftrightarrow> True"
| "linked s (x # xs) \<longleftrightarrow> v_next (vnodes s x) = hd_opt xs \<and> linked s xs"

lemma linked_same: "(\<And>m. v_next (vnodes s' m) = v_next (vnodes s m)) \<Longrightarrow> linked s' xs = linked s xs"
  by (induction xs) simp_all

definition clear_marks :: "nat set \<Rightarrow> fgraph \<Rightarrow> fgraph" where
  "clear_marks V s = s\<lparr>vnodes := \<lambda>n. if n \<in> V then (vnodes s n)\<lparr>v_mark := 0\<rparr> else vnodes s n\<rparr>"

lemma clear_marks_step: "upd_v x (\<lambda>x. x\<lparr>v_mark := 0\<rparr>) (clear_marks V s) = clear_marks (insert x V) s"
  by (auto simp: clear_marks_def upd_v_def fun_eq_iff)

lemma clear_loop:
  assumes "linked s xs" and "distinct xs" and "length xs < j"
  shows "iter j (\<lambda>s n. v_next (vnodes s n)) (\<lambda>n s. Some (upd_v n (\<lambda>x. x\<lparr>v_mark := 0\<rparr>) s)) (hd_opt xs) s =
    Some (clear_marks (set xs) s)"
proof -
  define Q where "Q ys t \<longleftrightarrow> (\<exists>zs. xs = zs @ ys \<and> t = clear_marks (set zs) s \<and> linked t ys)" for ys t
  have "linked (clear_marks V s) ys = linked s ys" for V ys by (rule linked_same) (simp add: clear_marks_def)
  note cl = this
  have "Q xs s" unfolding Q_def using assms(1) by (intro exI [of _ "[]"]) (simp add: clear_marks_def)
  then have "\<exists>s'. iter j (\<lambda>s n. v_next (vnodes s n)) (\<lambda>n s. Some (upd_v n (\<lambda>x. x\<lparr>v_mark := 0\<rparr>) s)) (hd_opt xs) s = Some s' \<and> Q [] s'"
  proof (rule iter_rule [where Q = Q, OF _ assms(3)])
    fix x ys t assume q: "Q (x # ys) t"
    then obtain zs where zs: "xs = (zs @ [x]) @ ys" "t = clear_marks (set zs) s" "linked t (x # ys)" by (auto simp: Q_def)
    let ?t = "upd_v x (\<lambda>x. x\<lparr>v_mark := 0\<rparr>) t"
    have t: "?t = clear_marks (set (zs @ [x])) s" by (simp add: zs(2) clear_marks_step)
    have "linked ?t ys" using zs(2,3) unfolding t by (simp add: cl)
    moreover have "v_next (vnodes ?t x) = hd_opt ys" using zs(3) by simp
    ultimately show "\<exists>s'. Some ?t = Some s' \<and> v_next (vnodes s' x) = hd_opt ys \<and> Q ys s'"
      using zs(1) t unfolding Q_def by blast
  qed
  then show ?thesis by (auto simp: Q_def)
qed

lemma dfs_marked: "v_mark (vnodes s n) \<noteq> 0 \<Longrightarrow> 0 < k \<Longrightarrow> dfs k n s = Some s"
  by (cases k) simp_all

lemma unmarked_le: "finite V \<Longrightarrow> unmarked V s \<le> card V"
  unfolding unmarked_def by (rule card_mono) auto

lemma dfs_nodes:
  assumes so: "search_ok V s []" and off: "\<forall>n\<in>V. \<not> v_onstack (vnodes s n)"
    and l: "linked s xs" "set xs = V" "length xs < j"
    and B: "fast_count s \<le> B" and k: "card V * (B + 2) < k"
  shows "\<exists>s' L. iter j (\<lambda>s n. v_next (vnodes s n)) (dfs k) (hd_opt xs) s = Some s' \<and> keeps V s s' \<and>
    search_ok V s' L \<and> set L = V"
proof -
  define Q where "Q ys t \<longleftrightarrow> (\<exists>zs L. xs = zs @ ys \<and> keeps V s t \<and> search_ok V t L \<and> set zs \<subseteq> set L \<and> linked t ys)" for ys t
  have "Q xs s" unfolding Q_def using so l keeps_refl by (intro exI [of _ "[]"]) simp
  then have "\<exists>s'. iter j (\<lambda>s n. v_next (vnodes s n)) (dfs k) (hd_opt xs) s = Some s' \<and> Q [] s'"
  proof (rule iter_rule [where Q = Q, OF _ l(3)])
    fix x ys t assume "Q (x # ys) t"
    then obtain zs L where q: "xs = (zs @ [x]) @ ys" "keeps V s t" "search_ok V t L" "set zs \<subseteq> set L" "linked t (x # ys)"
      by (auto simp: Q_def)
    have xV: "x \<in> V" using q(1) l(2) by auto
    have fin: "finite V" using so by (simp add: search_ok_def)
    show "\<exists>s'. dfs k x t = Some s' \<and> v_next (vnodes s' x) = hd_opt ys \<and> Q ys s'"
    proof (cases "v_mark (vnodes t x) = 0")
      case False
      have "\<not> v_onstack (vnodes t x)"
      proof
        assume "v_onstack (vnodes t x)"
        then have "v_onstack (vnodes s x)" using q(2) by (simp add: keeps_def frame_def)
        with off xV show False by blast
      qed
      with False q(3) xV have "x \<in> set L" by (simp add: search_ok_def)
      then have "Q ys t" unfolding Q_def using q by (intro exI [of _ "zs @ [x]"] exI [of _ L]) simp
      with dfs_marked [OF False] k q(5) show ?thesis by auto
    next
      case True
      have "fast_count t \<le> B" using q(2) B by (simp add: keeps_def frame_def)
      moreover have "unmarked V t * (B + 2) < k"
        using k mult_le_mono1 [OF unmarked_le [OF fin, of t], of "B + 2"] by linarith
      ultimately obtain s' M where d: "dfs k x t = Some s'" "search_ok V s' (L @ M)" "searched V t M (set M) x s'" "x \<in> set M"
        using dfs_total(1) [OF _ q(3) xV True] by blast
      have kt: "keeps V t s'" by (rule searched_keeps [OF d(3) xV])
      have "keeps V s s'" using keeps_trans [OF q(2) kt] by simp
      moreover have "linked s' ys" using q(5) kt linked_same [of s' t ys] by (simp add: keeps_def frame_def)
      ultimately have "Q ys s'" unfolding Q_def using q(1,4) d(2,4) by (intro exI [of _ "zs @ [x]"] exI [of _ "L @ M"]) auto
      moreover have "v_next (vnodes s' x) = hd_opt ys" using q(5) kt by (simp add: keeps_def frame_def)
      ultimately show ?thesis using d(1) by blast
    qed
  qed
  then obtain s' L where "iter j (\<lambda>s n. v_next (vnodes s n)) (dfs k) (hd_opt xs) s = Some s'" "keeps V s s'" "search_ok V s' L" "V \<subseteq> set L"
    using l(2) by (auto simp: Q_def)
  moreover from this(3) have "set L \<subseteq> V" by (auto simp: search_ok_def)
  ultimately show ?thesis by blast
qed

text \<open>A component: its nodes are linked, its edges stay inside, and no node is on the stack.\<close>

definition component :: "fgraph \<Rightarrow> nat list \<Rightarrow> bool" where
  "component s xs \<longleftrightarrow> xs \<noteq> [] \<and> distinct xs \<and> linked s xs \<and>
     (\<forall>e. fast s e \<longrightarrow> vtail s e \<in> set xs \<longrightarrow> vhead s e \<in> set xs) \<and> (\<forall>n\<in>set xs. \<not> v_onstack (vnodes s n))"

lemma keeps_component:
  assumes ok: "fg_ok s" "fg_ok s'" and k: "keeps V s s'" and c: "component s xs" "set xs \<inter> V = {}"
  shows "component s' xs"
proof -
  have "vhead s' e \<in> set xs" if e: "fast s' e" "vtail s' e \<in> set xs" for e
  proof -
    have "outs s' (vtail s' e) = outs s (vtail s' e)" using k c(2) e(2) by (auto simp: keeps_def frame_def)
    then have "e \<in> set (outs s (vtail s' e))" using e(1) by (simp add: fast_def)
    from fg_okD(3) [OF ok(1) this] have f: "fast s e" "e < efresh s" "vtail s e = vtail s' e" by auto
    then have "vhead s e \<in> set xs" using c(1) e(2) by (simp add: component_def)
    with k f(2) show ?thesis by (simp add: keeps_def frame_def)
  qed
  moreover have "linked s' xs" using c(1) k linked_same [of s' s xs] by (simp add: component_def keeps_def frame_def)
  ultimately show ?thesis using c(1) k by (simp add: component_def keeps_def frame_def)
qed

lemma acyclic_comp_total:
  assumes ok: "fg_ok s" "weights_ok s" "irrefl (joined s)" and c: "component s xs" and j: "length xs < j"
    and B: "fast_count s \<le> B" and k: "length xs * (B + 2) < k"
  shows "\<exists>s' L. acyclic_comp k j (hd xs) s = Some s' \<and> keeps (set xs) s s' \<and> fg_ok s' \<and> weights_ok s' \<and>
    distinct L \<and> set L = set xs \<and> topo s' L"
proof -
  define s0 where "s0 = s\<lparr>nlist := Some (hd xs)\<rparr>"
  define s1 where "s1 = clear_marks (set xs) s0"
  have x: "hd_opt xs = Some (hd xs)" "linked s0 xs" "distinct xs"
    using c linked_same [of s0 s xs] by (cases xs; simp add: component_def s0_def)+
  have lists: "outs s1 m = outs s m" "ins s1 m = ins s m" "vedges s1 = vedges s" "efresh s1 = efresh s"
    "v_next (vnodes s1 m) = v_next (vnodes s m)" "v_onstack (vnodes s1 m) = v_onstack (vnodes s m)" "comp s1 = comp s"
    "nlist s1 = Some (hd xs)" for m
    by (simp_all add: s1_def s0_def clear_marks_def)
  note sl = same_lists [where s = s and s' = s1, OF lists(1-4)]
  have so: "search_ok (set xs) s1 []"
    unfolding search_ok_def sl using ok c by (auto simp: component_def lists) (simp_all add: s1_def clear_marks_def)
  have "linked s1 xs" using x(2) linked_same [of s1 s0 xs] by (simp add: s1_def clear_marks_def)
  moreover have "\<forall>n\<in>set xs. \<not> v_onstack (vnodes s1 n)" using c by (simp add: component_def lists)
  moreover have "card (set xs) * (B + 2) < k" "fast_count s1 \<le> B" using B k by (simp_all add: sl distinct_card [OF x(3)])
  ultimately obtain s' L where
    s': "iter j (\<lambda>s n. v_next (vnodes s n)) (dfs k) (hd_opt xs) s1 = Some s'" "keeps (set xs) s1 s'"
    "search_ok (set xs) s' L" "set L = set xs"
    using dfs_nodes [OF so _ _ refl j] by blast
  have "keeps (set xs) s s1" by (simp add: keeps_def frame_def sl lists)
  from keeps_trans [OF this s'(2)] have "keeps (set xs) s s'" by simp
  moreover have "acyclic_comp k j (hd xs) s = Some s'"
    using clear_loop [OF x(2,3) j] s'(1) x(1) lists(8)
    by (simp add: acyclic_comp_def Let_def s0_def [symmetric] s1_def [symmetric]) (simp add: s0_def)
  ultimately show ?thesis using s'(3,4) by (auto simp: search_ok_def)
qed

lemma topo_append:
  assumes "topo s L" and "topo s M"
  shows "topo s (L @ M)"
  using assms(2)
proof (induction M rule: rev_induct)
  case (snoc u M)
  then show ?case using topo_snoc [of s "L @ M" u] topo_snoc [of s M u] by auto
qed (use assms(1) in simp)

lemma acyclic_comps_total:
  assumes "fg_ok s" "weights_ok s" "irrefl (joined s)" and "\<forall>xs\<in>set NS. component s xs \<and> length xs < j \<and> length xs * (B + 2) < k"
    and "distinct (concat NS)" and "fast_count s \<le> B"
  shows "\<exists>s' L. acyclic_comps k j (map hd NS) s = Some s' \<and> keeps (set (concat NS)) s s' \<and> fg_ok s' \<and> weights_ok s' \<and>
    distinct L \<and> set L = set (concat NS) \<and> topo s' L"
  using assms
proof (induction NS arbitrary: s)
  case Nil
  then show ?case using keeps_refl by (intro exI [of _ s] exI [of _ "[]"]) simp
next
  case (Cons xs NS)
  have c: "component s xs" "length xs < j" "length xs * (B + 2) < k" using Cons.prems(4) by simp_all
  from acyclic_comp_total [OF Cons.prems(1-3) c(1,2) Cons.prems(6) c(3)] obtain s1 L1 where
    s1: "acyclic_comp k j (hd xs) s = Some s1" "keeps (set xs) s s1" "fg_ok s1" "weights_ok s1" "distinct L1"
    "set L1 = set xs" "topo s1 L1" by blast
  have "component s1 ys" if "ys \<in> set NS" for ys
    by (rule keeps_component [OF Cons.prems(1) s1(3,2)]) (use Cons.prems(4,5) that in auto)
  moreover have "irrefl (joined s1)" "fast_count s1 \<le> B" using s1(2) Cons.prems(3,6) by (simp_all add: keeps_def frame_def)
  ultimately obtain s' L where s': "acyclic_comps k j (map hd NS) s1 = Some s'" "keeps (set (concat NS)) s1 s'" "fg_ok s'"
    "weights_ok s'" "distinct L" "set L = set (concat NS)" "topo s' L"
    using Cons.IH [OF s1(3,4)] Cons.prems(4,5) by auto
  have dj: "set xs \<inter> set (concat NS) = {}" using Cons.prems(5) by auto
  have "topo s' L1"
  proof (rule topo_same [OF s1(7)])
    fix u assume u: "u \<in> set L1"
    then have "u \<notin> set (concat NS)" using s1(6) dj by blast
    then show "outs s' u = outs s1 u" using s'(2) by (simp only: keeps_def simp_thms)
    fix e assume "e \<in> set (outs s1 u)"
    then show "vhead s' e = vhead s1 e" using fg_okD(3) [OF s1(3)] s'(2) by (simp add: keeps_def frame_def)
  qed
  from topo_append [OF this s'(7)] have "topo s' (L1 @ L)" .
  moreover have "distinct (L1 @ L)" using s1(5,6) s'(5,6) dj by simp
  moreover have "keeps (set (concat (xs # NS))) s s'" using keeps_trans [OF s1(2) s'(2)] by simp
  ultimately show ?case using s1(1,6) s'(1,3,4,6) by (intro exI [of _ s'] exI [of _ "L1 @ L"]) simp
qed

lemma topo_acyclic:
  assumes d: "distinct L" and t: "topo s L" and a: "\<forall>e. fast s e \<longrightarrow> vtail s e \<in> set L"
  shows "acyclic (frel s)"
proof -
  define pos where "pos u = length (takeWhile (\<lambda>x. x \<noteq> u) L)" for u
  have "pos v < pos u" if uv: "(u, v) \<in> frel s" for u v
  proof -
    from uv obtain e where e: "fast s e" "vtail s e = u" "vhead s e = v" by (auto simp: frel_def)
    then have eo: "e \<in> set (outs s u)" by (auto simp: fast_def)
    from a e obtain A B where L: "L = A @ u # B" by (auto dest!: split_list)
    then have v: "v \<in> set A" using t eo e(3) unfolding topo_def by blast
    have uA: "u \<notin> set A" using d L by simp
    have "takeWhile (\<lambda>x. x \<noteq> u) L = A" unfolding L using uA by (subst takeWhile_append2) auto
    moreover from v obtain C D where A: "A = C @ v # D" "v \<notin> set C" by (meson split_list_first)
    then have "takeWhile (\<lambda>x. x \<noteq> v) L = C" unfolding L A(1) using A(2) by (simp, subst takeWhile_append2) auto
    ultimately show ?thesis by (simp add: pos_def A(1))
  qed
  then have "(frel s)\<inverse> \<subseteq> measure pos" by auto
  then have "acyclic ((frel s)\<inverse>)" by (rule acyclic_subset [OF wf_acyclic [OF wf_measure]])
  then show ?thesis by (simp add: acyclic_converse)
qed

text \<open>A graph after \<open>decompose\<close>: the components hold all the nodes that have edges.\<close>

definition decomposed :: "fgraph \<Rightarrow> nat list list \<Rightarrow> bool" where
  "decomposed s NS \<longleftrightarrow> comp s = map hd NS \<and> distinct (concat NS) \<and> (\<forall>xs\<in>set NS. component s xs) \<and>
     (\<forall>e. fast s e \<longrightarrow> vtail s e \<in> set (concat NS))"

lemma decomposed_joined:
  assumes "decomposed s NS" and "(u, v) \<in> joined s" and "xs \<in> set NS"
  shows "u \<in> set (concat NS)" and "u \<in> set xs \<longleftrightarrow> v \<in> set xs"
proof -
  have unique: "ys = xs" if "ys \<in> set NS" "w \<in> set xs" "w \<in> set ys" for ys w
  proof (rule ccontr)
    assume ne: "ys \<noteq> xs"
    have "set ys \<inter> set xs = {}"
    proof -
      obtain A B where A: "NS = A @ ys # B" using split_list [OF \<open>ys \<in> set NS\<close>] by blast
      have "xs \<in> set A \<or> xs \<in> set B" using A assms(3) ne by auto
      moreover have "distinct (concat (A @ ys # B))" using assms(1) A by (simp add: decomposed_def)
      ultimately show ?thesis by auto
    qed
    with that show False by blast
  qed
  have one: "vtail s e \<in> set (concat NS) \<and> vhead s e \<in> set (concat NS) \<and> (vtail s e \<in> set xs \<longleftrightarrow> vhead s e \<in> set xs)"
    if e: "fast s e" for e
  proof -
    from e assms(1) obtain ys where ys: "ys \<in> set NS" "vtail s e \<in> set ys" by (auto simp: decomposed_def)
    then have "vhead s e \<in> set ys" using assms(1) e by (auto simp: decomposed_def component_def)
    with ys unique [OF ys(1)] show ?thesis by auto
  qed
  from assms(2) obtain e where e: "fast s e" "(u = vtail s e \<and> v = vhead s e) \<or> (u = vhead s e \<and> v = vtail s e)"
    by (auto simp: frel_def)
  from one [OF e(1)] e(2) show "u \<in> set (concat NS)" "u \<in> set xs \<longleftrightarrow> v \<in> set xs" by auto
qed

lemma dot_acyclic_total:
  assumes "fg_ok s" and "weights_ok s" and "irrefl (joined s)" and "decomposed s NS"
    and "length (concat NS) < j" and "length (concat NS) * (fast_count s + 2) < k"
  shows "\<exists>s'. dot_acyclic k j s = Some s' \<and> acyclic (frel s') \<and> fg_ok s' \<and> keeps (set (concat NS)) s s'"
proof -
  have "length xs \<le> length (concat NS)" if "xs \<in> set NS" for xs
    using that by (auto dest!: split_list)
  then have "length xs < j \<and> length xs * (fast_count s + 2) < k" if "xs \<in> set NS" for xs
    using that assms(5,6) by (meson le_less_trans mult_le_mono1)
  with acyclic_comps_total [OF assms(1-3), of NS j "fast_count s" k] assms(4) obtain s' L where
    s': "acyclic_comps k j (map hd NS) s = Some s'" "keeps (set (concat NS)) s s'" "fg_ok s'" "distinct L"
    "set L = set (concat NS)" "topo s' L"
    by (auto simp: decomposed_def)
  have "vtail s' e \<in> set L" if e: "fast s' e" for e
  proof -
    have "(vtail s' e, vhead s' e) \<in> joined s'" using e by (auto simp: frel_def)
    then have "(vtail s' e, vhead s' e) \<in> joined s" using s'(2) by (simp only: keeps_def frame_def)
    then obtain f where "fast s f" "vtail s' e = vtail s f \<or> vtail s' e = vhead s f" by (auto simp: frel_def)
    moreover have "vtail s f \<in> set (concat NS) \<and> vhead s f \<in> set (concat NS)"
      using assms(4) \<open>fast s f\<close> by (fastforce simp: decomposed_def component_def)
    ultimately show ?thesis unfolding s'(5) by auto
  qed
  from topo_acyclic [OF s'(4,6)] this have "acyclic (frel s')" by blast
  moreover have "dot_acyclic k j s = Some s'" using s'(1) assms(4) by (simp add: dot_acyclic_def decomposed_def)
  ultimately show ?thesis using s'(2,3) by blast
qed

text \<open>
  C4. \<open>acyclic\<close> ends on every decomposed graph without self-loops and leaves a graph without cycles, in
  which the same pairs of nodes are joined: an edge is kept, or reversed, or merged into one that
  runs the other way. The total weight of the edges does not change, so no sum overflows.
\<close>

theorem dot_acyclic_correct:
  assumes "fg_ok s" and "weights_ok s" and "irrefl (joined s)" and "decomposed s NS"
    and "length (concat NS) < j" and "length (concat NS) * (fast_count s + 2) < k"
  shows "\<exists>s'. dot_acyclic k j s = Some s' \<and> acyclic (frel s') \<and> joined s' = joined s \<and> fg_ok s' \<and>
    total_weight s' = total_weight s \<and> fast_count s' \<le> fast_count s \<and> comp s' = comp s"
  using dot_acyclic_total [OF assms] by (auto simp: keeps_def frame_def)

text \<open>A graph of two nodes and two edges that form a cycle.\<close>

abbreviation blank_node :: vnode where
  "blank_node \<equiv> zero_node"

definition two_cycle :: fgraph where
  "two_cycle = \<lparr>
     vnodes = (\<lambda>_. blank_node)(0 := blank_node\<lparr>v_next := Some 1, v_out := [0], v_in := [1]\<rparr>,
                              1 := blank_node\<lparr>v_prev := Some 0, v_out := [1], v_in := [0]\<rparr>),
     vedges = (\<lambda>_. blank_edge 0 0)(0 := (blank_edge 0 1)\<lparr>e_weight := 2, e_minlen := 1\<rparr>,
                                  1 := (blank_edge 1 0)\<lparr>e_weight := 1, e_minlen := 1\<rparr>),
     nlist = Some 0, comp = [0], has_flat_edges = False, vfresh = 2, efresh = 2\<rparr>"

lemma two_cycle_fast: "fast two_cycle e \<longleftrightarrow> e = 0 \<or> e = 1"
  by (auto simp: two_cycle_def zero_node_def blank_edge_def fast_def)

lemma two_cycle_ok:
  "fg_ok two_cycle" "weights_ok two_cycle" "irrefl (joined two_cycle)" "decomposed two_cycle [[0, 1]]"
  "fast_count two_cycle = 2"
proof -
  have f: "{e. fast two_cycle e} = {0, 1}" by (auto simp: two_cycle_fast)
  then show "fast_count two_cycle = 2" by (simp add: fast_count_def)
  show "weights_ok two_cycle" unfolding weights_ok_def total_weight_def f two_cycle_fast
    by (auto simp: two_cycle_def blank_edge_def)
  show "fg_ok two_cycle" unfolding fg_ok_def by (auto simp: two_cycle_def zero_node_def blank_edge_def)
  show "irrefl (joined two_cycle)" unfolding frel_def two_cycle_fast
    by (auto simp: irrefl_def two_cycle_def blank_edge_def)
  show "decomposed two_cycle [[0, 1]]" unfolding decomposed_def component_def two_cycle_fast
    by (auto simp: two_cycle_def blank_edge_def zero_node_def)
qed

lemma dot_acyclic_correct_witness:
  "\<exists>s'. dot_acyclic 9 3 two_cycle = Some s' \<and> acyclic (frel s') \<and> joined s' = joined two_cycle \<and> fg_ok s' \<and>
    total_weight s' = total_weight two_cycle \<and> fast_count s' \<le> fast_count two_cycle \<and> comp s' = comp two_cycle"
  by (rule dot_acyclic_correct [OF two_cycle_ok(1-4)]) (simp_all add: two_cycle_ok(5))

end
