(* ===== verification/Ns.thy ===== *)
theory Ns
  imports Fastgr_Correct
begin

text \<open>
  The network simplex of \<open>lib/common/ns.c\<close>: setting up the ranking problem, the initial ranking, the
  choice of the leaving edge, the cut values and the balancing of the result. The list of nodes of
  the graph is walked along \<open>ND_next\<close>; the loops take fuel. Messages are not modelled.
\<close>

section \<open>The context\<close>

text \<open>\<open>network_simplex_ctx_t\<close>; the graph is an argument.\<close>

record ctx =
  Tree_edge :: "nat list"
  S_i :: nat
  N_edges :: nat
  N_nodes :: nat
  Search_size :: int

definition LENGTH_e :: "fgraph \<Rightarrow> nat \<Rightarrow> int" where
  "LENGTH_e s e = v_rank (vnodes s (vhead s e)) - v_rank (vnodes s (vtail s e))"

definition SLACK :: "fgraph \<Rightarrow> nat \<Rightarrow> int" where
  "SLACK s e = LENGTH_e s e - e_minlen (vedges s e)"

definition TREE_EDGE :: "fgraph \<Rightarrow> nat \<Rightarrow> bool" where
  "TREE_EDGE s e \<longleftrightarrow> e_tree_index (vedges s e) \<ge> 0"

text \<open>The nodes of the graph, as the loops over \<open>GD_nlist\<close> visit them.\<close>

primrec walk_nodes :: "nat \<Rightarrow> fgraph \<Rightarrow> nat option \<Rightarrow> nat list option" where
  "walk_nodes 0 s n = None"
| "walk_nodes (Suc k) s n =
    (case n of None \<Rightarrow> Some [] | Some v \<Rightarrow> map_option (\<lambda>vs. v # vs) (walk_nodes k s (v_next (vnodes s v))))"

section \<open>Setting up\<close>

definition blank_ctx :: ctx where
  "blank_ctx = \<lparr>Tree_edge = [], S_i = 0, N_edges = 0, N_nodes = 0, Search_size = 0\<rparr>"

primrec init_edges :: "nat list \<Rightarrow> nat \<Rightarrow> bool \<Rightarrow> fgraph \<Rightarrow> bool \<times> fgraph" where
  "init_edges [] n feasible s = (feasible, s)"
| "init_edges (e # es) n feasible s =
    (let s1 = upd_v n (\<lambda>x. x\<lparr>v_priority := v_priority x + 1\<rparr>) s;
         s2 = upd_e e (\<lambda>x. x\<lparr>e_cutvalue := 0, e_tree_index := -1\<rparr>) s1
     in init_edges es n (if LENGTH_e s2 e < e_minlen (vedges s2 e) then False else feasible) s2)"

definition init_node :: "nat \<Rightarrow> bool \<times> fgraph \<Rightarrow> bool \<times> fgraph" where
  "init_node n fs =
    (let s1 = upd_v n (\<lambda>x. x\<lparr>v_priority := 0\<rparr>) (snd fs);
         (feasible, s2) = init_edges (ins s1 n) n (fst fs) s1
     in (feasible, upd_v n (\<lambda>x. x\<lparr>v_tree_in := [], v_tree_out := []\<rparr>) s2))"

definition init_graph :: "nat \<Rightarrow> fgraph \<Rightarrow> (bool \<times> ctx \<times> fgraph) option" where
  "init_graph k s =
    map_option (\<lambda>ns.
      (let s1 = fold (\<lambda>n. upd_v n (\<lambda>x. x\<lparr>v_mark := 0\<rparr>)) ns s;
           c = blank_ctx\<lparr>N_nodes := length ns, N_edges := (\<Sum>n\<leftarrow>ns. length (outs s1 n))\<rparr>;
           (feasible, s2) = fold init_node ns (True, s1)
       in (feasible, c, s2)))
      (walk_nodes k s (nlist s))"

section \<open>The initial ranking\<close>

text \<open>A rank that leaves the range of \<open>int\<close> is \<open>None\<close>.\<close>

primrec in_ranks :: "nat \<Rightarrow> nat list \<Rightarrow> fgraph \<Rightarrow> fgraph option" where
  "in_ranks v [] s = Some s"
| "in_ranks v (e # es) s =
    (case int_add (v_rank (vnodes s (vtail s e))) (e_minlen (vedges s e)) of
       None \<Rightarrow> None
     | Some r \<Rightarrow> in_ranks v es (upd_v v (\<lambda>x. x\<lparr>v_rank := max (v_rank x) r\<rparr>) s))"

primrec out_priorities :: "nat list \<Rightarrow> nat list \<Rightarrow> fgraph \<Rightarrow> nat list \<times> fgraph" where
  "out_priorities [] Q s = (Q, s)"
| "out_priorities (e # es) Q s =
    (let w = vhead s e; s1 = upd_v w (\<lambda>x. x\<lparr>v_priority := v_priority x - 1\<rparr>) s
     in out_priorities es (if v_priority (vnodes s1 w) \<le> 0 then Q @ [w] else Q) s1)"

primrec rank_loop :: "nat \<Rightarrow> nat list \<Rightarrow> nat \<Rightarrow> fgraph \<Rightarrow> (nat \<times> fgraph) option" where
  "rank_loop 0 Q ctr s = None"
| "rank_loop (Suc k) Q ctr s =
    (case Q of
       [] \<Rightarrow> Some (ctr, s)
     | v # Q1 \<Rightarrow>
         (let s1 = upd_v v (\<lambda>x. x\<lparr>v_rank := 0\<rparr>) s in
          case in_ranks v (ins s1 v) s1 of
            None \<Rightarrow> None
          | Some s2 \<Rightarrow> (let (Q2, s3) = out_priorities (outs s2 v) Q1 s2 in rank_loop k Q2 (Suc ctr) s3)))"

text \<open>The number of nodes ranked, which should be all.\<close>

definition init_rank :: "nat \<Rightarrow> fgraph \<Rightarrow> (nat \<times> fgraph) option" where
  "init_rank k s =
    (case walk_nodes k s (nlist s) of
       None \<Rightarrow> None
     | Some ns \<Rightarrow> rank_loop k (filter (\<lambda>v. v_priority (vnodes s v) = 0) ns) 0 s)"

text \<open>How \<open>rank2\<close> starts: a ranking that is feasible already is kept.\<close>

definition ns_start :: "nat \<Rightarrow> fgraph \<Rightarrow> (ctx \<times> fgraph) option" where
  "ns_start k s =
    (case init_graph k s of
       None \<Rightarrow> None
     | Some (feasible, c, s1) \<Rightarrow>
         if feasible then Some (c, s1) else map_option (\<lambda>(ctr, s2). (c, s2)) (init_rank k s1))"

section \<open>The leaving edge\<close>

text \<open>One scan of \<open>leave_edge\<close>: it stops after \<open>Search_size\<close> negative edges; \<open>Inl\<close> is that early return.\<close>

primrec leave_scan :: "fgraph \<Rightarrow> int \<Rightarrow> nat list \<Rightarrow> nat \<Rightarrow> int \<Rightarrow> nat option
    \<Rightarrow> (nat \<times> nat option) + (nat \<times> int \<times> nat option)" where
  "leave_scan s sz [] i cnt rv = Inr (i, cnt, rv)"
| "leave_scan s sz (f # fs) i cnt rv =
    (if e_cutvalue (vedges s f) < 0 then
       (let rv1 = (case rv of
                     Some r \<Rightarrow> if e_cutvalue (vedges s r) > e_cutvalue (vedges s f) then Some f else rv
                   | None \<Rightarrow> Some f)
        in if cnt + 1 \<ge> sz then Inl (i, rv1) else leave_scan s sz fs (Suc i) (cnt + 1) rv1)
     else leave_scan s sz fs (Suc i) cnt rv)"

definition leave_edge :: "fgraph \<Rightarrow> ctx \<Rightarrow> nat option \<times> ctx" where
  "leave_edge s c =
    (let j = S_i c in
     case leave_scan s (Search_size c) (drop j (Tree_edge c)) j 0 None of
       Inl (i, rv) \<Rightarrow> (rv, c\<lparr>S_i := i\<rparr>)
     | Inr (i, cnt, rv) \<Rightarrow>
         (if j > 0 then
            (case leave_scan s (Search_size c) (take j (Tree_edge c)) 0 cnt rv of
               Inl (i1, rv1) \<Rightarrow> (rv1, c\<lparr>S_i := i1\<rparr>)
             | Inr (i1, cnt1, rv1) \<Rightarrow> (rv1, c\<lparr>S_i := i1\<rparr>))
          else (rv, c\<lparr>S_i := i\<rparr>)))"

section \<open>Normalizing and balancing\<close>

definition scan_and_normalize :: "nat list \<Rightarrow> fgraph \<Rightarrow> int \<times> fgraph" where
  "scan_and_normalize ns s =
    (let (lo, hi) = fold (\<lambda>n (lo, hi).
           if v_type (vnodes s n) = NORMAL
           then (min lo (v_rank (vnodes s n)), max hi (v_rank (vnodes s n))) else (lo, hi)) ns (INT_MAX, INT_MIN);
         s1 = fold (\<lambda>n. upd_v n (\<lambda>x. x\<lparr>v_rank := v_rank x - lo\<rparr>)) ns s
     in (hi - lo, s1))"

text \<open>
  \<open>TB_balance\<close>. The attribute of the graph decides on \<open>adj\<close>; \<open>qsort\<close> is the sorting function of the C
  library, which \<open>LIST_SORT\<close> calls with one of the two comparisons.
\<close>

definition decreasingrankcmpf :: "fgraph \<Rightarrow> nat \<Rightarrow> nat \<Rightarrow> int" where
  "decreasingrankcmpf s x y =
    (if v_rank (vnodes s y) < v_rank (vnodes s x) then -1
     else if v_rank (vnodes s y) > v_rank (vnodes s x) then 1 else 0)"

definition increasingrankcmpf :: "fgraph \<Rightarrow> nat \<Rightarrow> nat \<Rightarrow> int" where
  "increasingrankcmpf s x y = - decreasingrankcmpf s x y"

definition tb_adj :: "string option \<Rightarrow> int" where
  "tb_adj a = (case a of None \<Rightarrow> 0 | Some t \<Rightarrow> if t = ''min'' then 1 else if t = ''max'' then 2 else 0)"

definition tb_extreme :: "int \<Rightarrow> int \<Rightarrow> nat \<Rightarrow> fgraph \<Rightarrow> fgraph" where
  "tb_extreme adj maxrank n s =
    (if v_type (vnodes s n) = NORMAL then
       (let s1 = (if ins s n = [] \<and> adj = 1 then upd_v n (\<lambda>x. x\<lparr>v_rank := 0\<rparr>) s else s)
        in if outs s1 n = [] \<and> adj = 2 then upd_v n (\<lambda>x. x\<lparr>v_rank := maxrank\<rparr>) s1 else s1)
     else s)"

text \<open>The array \<open>nrank\<close>; an index out of its bounds is \<open>None\<close>.\<close>

definition bump :: "int \<Rightarrow> int \<Rightarrow> int list \<Rightarrow> int list option" where
  "bump d i a = (if 0 \<le> i \<and> i < int (length a) then Some (a[nat i := a ! nat i + d]) else None)"

definition count_rank :: "fgraph \<Rightarrow> nat \<Rightarrow> int list option \<Rightarrow> int list option" where
  "count_rank s n a =
    (case a of None \<Rightarrow> None | Some a \<Rightarrow> if v_type (vnodes s n) = NORMAL then bump 1 (v_rank (vnodes s n)) a else Some a)"

text \<open>The least crowded rank among \<open>i, ..., high\<close> and the choice so far.\<close>

primrec pick_rank :: "nat \<Rightarrow> int \<Rightarrow> int list \<Rightarrow> int \<Rightarrow> int" where
  "pick_rank 0 i a choice = choice"
| "pick_rank (Suc k) i a choice = pick_rank k (i + 1) a (if a ! nat i < a ! nat choice then i else choice)"

definition tb_node :: "int \<Rightarrow> int \<Rightarrow> nat \<Rightarrow> (int list \<times> fgraph) option \<Rightarrow> (int list \<times> fgraph) option" where
  "tb_node adj maxrank n st =
    (case st of None \<Rightarrow> None | Some (a, s) \<Rightarrow>
      if v_type (vnodes s n) \<noteq> NORMAL then Some (a, s)
      else
        (let inweight = (\<Sum>e\<leftarrow>ins s n. e_weight (vedges s e));
             outweight = (\<Sum>e\<leftarrow>outs s n. e_weight (vedges s e));
             low = fold (\<lambda>e l. max l (v_rank (vnodes s (vtail s e)) + e_minlen (vedges s e))) (ins s n) 0;
             high = fold (\<lambda>e h. min h (v_rank (vnodes s (vhead s e)) - e_minlen (vedges s e))) (outs s n) maxrank;
             low = (if low < 0 then 0 else low);
             clean = upd_v n (\<lambda>x. x\<lparr>v_tree_in := [], v_tree_out := [], v_mark := 0\<rparr>)
         in if adj \<noteq> 0 then
              Some (a, clean (if inweight = outweight
                              then upd_v n (\<lambda>x. x\<lparr>v_rank := (if adj = 1 then low else high)\<rparr>) s else s))
            else if inweight = outweight then
              (if low < high \<and> high \<ge> int (length a) then None
               else
                 (let choice = pick_rank (nat (high - low)) (low + 1) a low in
                  case bump (-1) (v_rank (vnodes s n)) a of
                    None \<Rightarrow> None
                  | Some a1 \<Rightarrow>
                      map_option (\<lambda>a2. (a2, clean (upd_v n (\<lambda>x. x\<lparr>v_rank := choice\<rparr>) s))) (bump 1 choice a1)))
            else Some (a, clean s)))"

definition TB_balance :: "((nat \<Rightarrow> nat \<Rightarrow> int) \<Rightarrow> nat list \<Rightarrow> nat list) \<Rightarrow> string option \<Rightarrow> nat list \<Rightarrow> fgraph
    \<Rightarrow> fgraph option" where
  "TB_balance qsort tbbalance ns s =
    (let (maxrank, s1) = scan_and_normalize ns s; adj = tb_adj tbbalance in
     if maxrank < 0 then None
     else
       (let s2 = (if adj \<noteq> 0 then fold (tb_extreme adj maxrank) ns s1 else s1);
            tn = qsort (if adj > 1 then decreasingrankcmpf s2 else increasingrankcmpf s2) ns
        in case fold (count_rank s2) tn (Some (replicate (nat maxrank + 1) 0)) of
             None \<Rightarrow> None
           | Some a \<Rightarrow> map_option snd (fold (tb_node adj maxrank) tn (Some (a, s2)))))"

end
