(* ===== verification/Ns_Tree.thy ===== *)
theory Ns_Tree
  imports Ns
begin

text \<open>
  The spanning tree of the network simplex (\<open>lib/common/ns.c\<close>): the depth-first numbering, the cut
  values, the search for the entering edge and the pivot. The stacks of the searches are lists whose
  head is their top. The list of the tree edges of a node ends where its size says.
\<close>

section \<open>Tree edges\<close>

abbreviation touts :: "fgraph \<Rightarrow> nat \<Rightarrow> nat list" where "touts s n \<equiv> v_tree_out (vnodes s n)"
abbreviation tins :: "fgraph \<Rightarrow> nat \<Rightarrow> nat list" where "tins s n \<equiv> v_tree_in (vnodes s n)"

text \<open>\<open>False\<close> is an error; a list of tree edges that is longer than the list of all edges is one.\<close>

definition add_tree_edge :: "nat \<Rightarrow> ctx \<times> fgraph \<Rightarrow> bool \<times> ctx \<times> fgraph" where
  "add_tree_edge e cs =
    (let (c, s) = cs in
     if TREE_EDGE s e then (False, c, s)
     else
       (let s1 = upd_e e (\<lambda>x. x\<lparr>e_tree_index := int (length (Tree_edge c))\<rparr>) s;
            c1 = c\<lparr>Tree_edge := Tree_edge c @ [e]\<rparr>; n = vtail s1 e;
            s2 = upd_v n (\<lambda>x. x\<lparr>v_mark := 1, v_tree_out := v_tree_out x @ [e]\<rparr>) s1
        in if length (touts s2 n) > length (outs s2 n) then (False, c1, s2)
           else
             (let h = vhead s2 e; s3 = upd_v h (\<lambda>x. x\<lparr>v_mark := 1, v_tree_in := v_tree_in x @ [e]\<rparr>) s2
              in (length (tins s3 h) \<le> length (ins s3 h), c1, s3))))"

text \<open>The last edge of the list takes the place of the leaving one.\<close>

definition drop_edge :: "nat \<Rightarrow> nat list \<Rightarrow> nat list" where
  "drop_edge e L = butlast (L[length (takeWhile (\<lambda>x. x \<noteq> e) L) := last L])"

definition exchange_tree_edges :: "nat \<Rightarrow> nat \<Rightarrow> ctx \<times> fgraph \<Rightarrow> (ctx \<times> fgraph) option" where
  "exchange_tree_edges e f cs =
    (let (c, s) = cs; i = e_tree_index (vedges s e) in
     if i < 0 \<or> nat i \<ge> length (Tree_edge c) then None
     else
       (let s1 = upd_e e (\<lambda>x. x\<lparr>e_tree_index := -1\<rparr>) (upd_e f (\<lambda>x. x\<lparr>e_tree_index := i\<rparr>) s);
            s2 = upd_v (vtail s1 e) (\<lambda>x. x\<lparr>v_tree_out := drop_edge e (v_tree_out x)\<rparr>) s1;
            s3 = upd_v (vhead s2 e) (\<lambda>x. x\<lparr>v_tree_in := drop_edge e (v_tree_in x)\<rparr>) s2;
            s4 = upd_v (vtail s3 f) (\<lambda>x. x\<lparr>v_tree_out := v_tree_out x @ [f]\<rparr>) s3;
            s5 = upd_v (vhead s4 f) (\<lambda>x. x\<lparr>v_tree_in := v_tree_in x @ [f]\<rparr>) s4
        in Some (c\<lparr>Tree_edge := (Tree_edge c)[nat i := f]\<rparr>, s5)))"

section \<open>Numbering\<close>

record dfs_state =
  d_v :: nat
  d_par :: "nat option"
  d_lim :: int
  d_out_i :: nat
  d_in_i :: nat

definition new_frame :: "nat \<Rightarrow> nat option \<Rightarrow> int \<Rightarrow> dfs_state" where
  "new_frame v par l = \<lparr>d_v = v, d_par = par, d_lim = l, d_out_i = 0, d_in_i = 0\<rparr>"

text \<open>The first edge from index \<open>i\<close> on that is not the one to the parent, and the index after it.\<close>

primrec next_edge :: "nat option \<Rightarrow> nat list \<Rightarrow> nat \<Rightarrow> nat \<times> nat option" where
  "next_edge par [] i = (i, None)"
| "next_edge par (e # es) i = (if Some e \<noteq> par then (Suc i, Some e) else next_edge par es (Suc i))"

text \<open>The child \<open>n\<close> over the edge \<open>e\<close>; the loop of \<open>dfs_range\<close> passes over a child that is numbered already.\<close>

definition enter_child :: "bool \<Rightarrow> nat \<Rightarrow> nat \<Rightarrow> dfs_state \<Rightarrow> fgraph \<Rightarrow> dfs_state list \<times> fgraph" where
  "enter_child incr n e d s =
    (if incr \<and> v_par (vnodes s n) = Some e \<and> v_low (vnodes s n) = d_lim d
     then ([d\<lparr>d_lim := v_lim (vnodes s n) + 1\<rparr>], s)
     else ([new_frame n (Some e) (d_lim d), d], upd_v n (\<lambda>x. x\<lparr>v_par := Some e, v_low := d_lim d\<rparr>) s))"

definition raise_lim :: "int \<Rightarrow> dfs_state list \<Rightarrow> dfs_state list" where
  "raise_lim l todo = (case todo of [] \<Rightarrow> [] | d # ds \<Rightarrow> d\<lparr>d_lim := l\<rparr> # ds)"

partial_function (option) range_loop :: "bool \<Rightarrow> dfs_state list \<Rightarrow> int \<Rightarrow> fgraph \<Rightarrow> (int \<times> fgraph) option" where
  "range_loop incr todo l s =
    (case todo of
       [] \<Rightarrow> Some (l, s)
     | d # rest \<Rightarrow>
         (case next_edge (d_par d) (drop (d_out_i d) (touts s (d_v d))) (d_out_i d) of
            (i, Some e) \<Rightarrow>
              (let (ds, s1) = enter_child incr (vhead s e) e (d\<lparr>d_out_i := i\<rparr>) s in range_loop incr (ds @ rest) l s1)
          | (i, None) \<Rightarrow>
              (case next_edge (d_par d) (drop (d_in_i d) (tins s (d_v d))) (d_in_i d) of
                 (j, Some e) \<Rightarrow>
                   (let (ds, s1) = enter_child incr (vtail s e) e (d\<lparr>d_out_i := i, d_in_i := j\<rparr>) s
                    in range_loop incr (ds @ rest) l s1)
               | (j, None) \<Rightarrow>
                   range_loop incr (raise_lim (d_lim d + 1) rest) (d_lim d)
                     (upd_v (d_v d) (\<lambda>x. x\<lparr>v_lim := d_lim d\<rparr>) s))))"

declare range_loop.simps [code]

definition dfs_range_init :: "nat \<Rightarrow> fgraph \<Rightarrow> (int \<times> fgraph) option" where
  "dfs_range_init v s =
    map_option (\<lambda>(l, s1). (l + 1, s1))
      (range_loop False [new_frame v None 1] 0 (upd_v v (\<lambda>x. x\<lparr>v_par := None, v_low := 1\<rparr>) s))"

definition dfs_range :: "nat \<Rightarrow> nat option \<Rightarrow> int \<Rightarrow> fgraph \<Rightarrow> (int \<times> fgraph) option" where
  "dfs_range v par low s =
    (if v_par (vnodes s v) = par \<and> v_low (vnodes s v) = low then Some (v_lim (vnodes s v) + 1, s)
     else
       map_option (\<lambda>(l, s1). (l + 1, s1))
         (range_loop True [new_frame v par low] 0 (upd_v v (\<lambda>x. x\<lparr>v_par := par, v_low := low\<rparr>) s)))"

section \<open>Cut values\<close>

definition SEQ :: "int \<Rightarrow> int \<Rightarrow> int \<Rightarrow> bool" where
  "SEQ a b c \<longleftrightarrow> a \<le> b \<and> b \<le> c"

text \<open>The node \<open>w\<close> is in the subtree of \<open>v\<close>.\<close>

definition below :: "fgraph \<Rightarrow> nat \<Rightarrow> nat \<Rightarrow> bool" where
  "below s v w \<longleftrightarrow> SEQ (v_low (vnodes s v)) (v_lim (vnodes s w)) (v_lim (vnodes s v))"

definition x_val :: "fgraph \<Rightarrow> nat \<Rightarrow> nat \<Rightarrow> int \<Rightarrow> int" where
  "x_val s e v dir =
    (let other = (if vtail s e = v then vhead s e else vtail s e);
         f = \<not> below s v other;
         rv = (if f then e_weight (vedges s e)
               else (if TREE_EDGE s e then e_cutvalue (vedges s e) else 0) - e_weight (vedges s e));
         d = (if dir > 0 then (if vhead s e = v then 1 else -1 :: int) else (if vtail s e = v then 1 else -1));
         d = (if f then - d else d)
     in if d < 0 then - rv else rv)"

text \<open>The sum of values, \<open>None\<close> on overflow, where the program exits.\<close>

primrec sadd :: "int list \<Rightarrow> int \<Rightarrow> int option" where
  "sadd [] z = Some z"
| "sadd (x # xs) z = (case int_add z x of None \<Rightarrow> None | Some y \<Rightarrow> sadd xs y)"

definition x_cutval :: "nat \<Rightarrow> fgraph \<Rightarrow> fgraph option" where
  "x_cutval f s =
    (let (v, dir) = (if v_par (vnodes s (vtail s f)) = Some f then (vtail s f, 1) else (vhead s f, -1))
     in map_option (\<lambda>z. upd_e f (\<lambda>x. x\<lparr>e_cutvalue := z\<rparr>) s)
          (sadd (map (\<lambda>e. x_val s e v dir) (outs s v @ ins s v)) 0))"

primrec each :: "('a \<Rightarrow> 's \<Rightarrow> 's option) \<Rightarrow> 'a list \<Rightarrow> 's \<Rightarrow> 's option" where
  "each f [] s = Some s"
| "each f (x # xs) s = (case f x s of None \<Rightarrow> None | Some s1 \<Rightarrow> each f xs s1)"

text \<open>The fuel bounds the depth of the tree; the lists of the tree do not change meanwhile.\<close>

primrec dfs_cutval :: "nat \<Rightarrow> nat \<Rightarrow> nat option \<Rightarrow> fgraph \<Rightarrow> fgraph option" where
  "dfs_cutval 0 v par s = None"
| "dfs_cutval (Suc k) v par s =
    (case each (\<lambda>e s. if Some e \<noteq> par then dfs_cutval k (vhead s e) (Some e) s else Some s) (touts s v) s of
       None \<Rightarrow> None
     | Some s1 \<Rightarrow>
         (case each (\<lambda>e s. if Some e \<noteq> par then dfs_cutval k (vtail s e) (Some e) s else Some s) (tins s1 v) s1 of
            None \<Rightarrow> None
          | Some s2 \<Rightarrow> (case par of None \<Rightarrow> Some s2 | Some f \<Rightarrow> x_cutval f s2)))"

definition init_cutvalues :: "nat \<Rightarrow> fgraph \<Rightarrow> fgraph option" where
  "init_cutvalues k s =
    (case nlist s of
       None \<Rightarrow> None
     | Some v \<Rightarrow> (case dfs_range_init v s of None \<Rightarrow> None | Some (l, s1) \<Rightarrow> dfs_cutval k v None s1))"

end
