(* ===== verification/Ns_Pivot.thy ===== *)
theory Ns_Pivot
  imports Ns_Tree
begin

text \<open>
  The pivot of the network simplex (\<open>lib/common/ns.c\<close>): the search for the entering edge, the update of
  the cut values, the ranks and the numbering, and the balancing to the left and right. Recursion over the tree
  takes fuel. A reference through NULL is \<open>None\<close>.
\<close>

section \<open>The entering edge\<close>

text \<open>
  \<open>dfs_enter_outedge\<close> (\<open>out = True\<close>) and \<open>dfs_enter_inedge\<close>: the nodes to search, the best edge so far and its
  slack.
\<close>

definition far_end :: "bool \<Rightarrow> fgraph \<Rightarrow> nat \<Rightarrow> nat" where
  "far_end out s e = (if out then vhead s e else vtail s e)"

definition near_end :: "bool \<Rightarrow> fgraph \<Rightarrow> nat \<Rightarrow> nat" where
  "near_end out s e = (if out then vtail s e else vhead s e)"

definition enter_step :: "bool \<Rightarrow> fgraph \<Rightarrow> int \<Rightarrow> int \<Rightarrow> nat \<Rightarrow> nat \<Rightarrow> nat list \<times> nat option \<times> int
    \<Rightarrow> nat list \<times> nat option \<times> int" where
  "enter_step out s Lo Hi v e st =
    (let (todo, Enter, Slack) = st; w = far_end out s e in
     if \<not> TREE_EDGE s e then
       (if \<not> SEQ Lo (v_lim (vnodes s w)) Hi \<and> (SLACK s e < Slack \<or> Enter = None)
        then (todo, Some e, SLACK s e) else st)
     else if v_lim (vnodes s w) < v_lim (vnodes s v) then (w # todo, Enter, Slack) else st)"

definition push_below :: "bool \<Rightarrow> fgraph \<Rightarrow> nat \<Rightarrow> nat list \<Rightarrow> nat list \<Rightarrow> nat list" where
  "push_below out s v es todo =
    fold (\<lambda>e todo. if v_lim (vnodes s (near_end out s e)) < v_lim (vnodes s v) then near_end out s e # todo else todo) es todo"

primrec dfs_enter :: "nat \<Rightarrow> bool \<Rightarrow> fgraph \<Rightarrow> int \<Rightarrow> int \<Rightarrow> nat list \<times> nat option \<times> int \<Rightarrow> nat option option" where
  "dfs_enter 0 out s Lo Hi st = None"
| "dfs_enter (Suc k) out s Lo Hi st =
    (case st of
       ([], Enter, Slack) \<Rightarrow> Some Enter
     | (v # todo, Enter, Slack) \<Rightarrow>
         (let (todo1, Enter1, Slack1) = fold (enter_step out s Lo Hi v) (if out then outs s v else ins s v) (todo, Enter, Slack)
          in dfs_enter k out s Lo Hi
               (if Slack1 > 0 then push_below out s v (if out then tins s v else touts s v) todo1 else todo1, Enter1, Slack1)))"

definition enter_edge :: "nat \<Rightarrow> fgraph \<Rightarrow> nat \<Rightarrow> nat option option" where
  "enter_edge k s e =
    (let (v, outsearch) = (if v_lim (vnodes s (vtail s e)) < v_lim (vnodes s (vhead s e)) then (vtail s e, False)
                           else (vhead s e, True))
     in dfs_enter k outsearch s (v_low (vnodes s v)) (v_lim (vnodes s v)) ([v], None, INT_MAX))"

section \<open>The update\<close>

text \<open>The end of a tree edge that is nearer to the root.\<close>

definition up_end :: "fgraph \<Rightarrow> nat \<Rightarrow> nat" where
  "up_end s e = (if v_lim (vnodes s (vtail s e)) > v_lim (vnodes s (vhead s e)) then vtail s e else vhead s e)"

primrec treeupdate :: "nat \<Rightarrow> nat \<Rightarrow> nat \<Rightarrow> int \<Rightarrow> bool \<Rightarrow> fgraph \<Rightarrow> (nat \<times> fgraph) option" where
  "treeupdate 0 v w cutvalue dir s = None"
| "treeupdate (Suc k) v w cutvalue dir s =
    (if SEQ (v_low (vnodes s v)) (v_lim (vnodes s w)) (v_lim (vnodes s v)) then Some (v, s)
     else
       (case v_par (vnodes s v) of
          None \<Rightarrow> None
        | Some e \<Rightarrow>
            (let d = (if v = vtail s e then dir else \<not> dir);
                 s1 = upd_e e (\<lambda>x. x\<lparr>e_cutvalue := e_cutvalue x + (if d then cutvalue else - cutvalue)\<rparr>) s
             in treeupdate k (up_end s1 e) w cutvalue dir s1)))"

primrec rerank :: "nat \<Rightarrow> nat \<Rightarrow> int \<Rightarrow> fgraph \<Rightarrow> fgraph option" where
  "rerank 0 v delta s = None"
| "rerank (Suc k) v delta s =
    (let s1 = upd_v v (\<lambda>x. x\<lparr>v_rank := v_rank x - delta\<rparr>) s in
     case each (\<lambda>e s. if Some e \<noteq> v_par (vnodes s v) then rerank k (vhead s e) delta s else Some s) (touts s1 v) s1 of
       None \<Rightarrow> None
     | Some s2 \<Rightarrow>
         each (\<lambda>e s. if Some e \<noteq> v_par (vnodes s v) then rerank k (vtail s e) delta s else Some s) (tins s2 v) s2)"

primrec invalidate_path :: "nat \<Rightarrow> nat \<Rightarrow> nat \<Rightarrow> fgraph \<Rightarrow> fgraph option" where
  "invalidate_path 0 lca to_node s = None"
| "invalidate_path (Suc k) lca to_node s =
    (if v_low (vnodes s to_node) = -1 then Some s
     else
       (let s1 = upd_v to_node (\<lambda>x. x\<lparr>v_low := -1\<rparr>) s in
        case v_par (vnodes s1 to_node) of
          None \<Rightarrow> Some s1
        | Some e \<Rightarrow>
            if v_lim (vnodes s1 to_node) \<ge> v_lim (vnodes s1 lca) then Some s1
            else invalidate_path k lca (up_end s1 e) s1))"

definition tree_degree :: "fgraph \<Rightarrow> nat \<Rightarrow> nat" where
  "tree_degree s n = length (tins s n) + length (touts s n)"

definition rerank_side :: "nat \<Rightarrow> nat \<Rightarrow> int \<Rightarrow> fgraph \<Rightarrow> fgraph option" where
  "rerank_side k e delta s =
    (if delta > 0 then
       (if tree_degree s (vtail s e) = 1 then rerank k (vtail s e) delta s
        else if tree_degree s (vhead s e) = 1 then rerank k (vhead s e) (- delta) s
        else if v_lim (vnodes s (vtail s e)) < v_lim (vnodes s (vhead s e)) then rerank k (vtail s e) delta s
        else rerank k (vhead s e) (- delta) s)
     else Some s)"

text \<open>The result is the error code.\<close>

definition update :: "nat \<Rightarrow> nat \<Rightarrow> nat \<Rightarrow> ctx \<times> fgraph \<Rightarrow> (int \<times> ctx \<times> fgraph) option" where
  "update k e f cs =
    (let (c, s) = cs in
     case rerank_side k e (SLACK s f) s of
       None \<Rightarrow> None
     | Some s1 \<Rightarrow>
         (let cutvalue = e_cutvalue (vedges s1 e) in
          case treeupdate k (vtail s1 f) (vhead s1 f) cutvalue True s1 of
            None \<Rightarrow> None
          | Some (lca, s2) \<Rightarrow>
              (case treeupdate k (vhead s2 f) (vtail s2 f) cutvalue False s2 of
                 None \<Rightarrow> None
               | Some (lca2, s3) \<Rightarrow>
                   if lca2 \<noteq> lca then Some (2, c, s3)
                   else
                     (let lca_low = v_low (vnodes s3 lca) in
                      case invalidate_path k lca (vhead s3 f) s3 of
                        None \<Rightarrow> None
                      | Some s4 \<Rightarrow>
                          (case invalidate_path k lca (vtail s4 f) s4 of
                             None \<Rightarrow> None
                           | Some s5 \<Rightarrow>
                               (let s6 = upd_e e (\<lambda>x. x\<lparr>e_cutvalue := 0\<rparr>) (upd_e f (\<lambda>x. x\<lparr>e_cutvalue := - cutvalue\<rparr>) s5) in
                                case exchange_tree_edges e f (c, s6) of
                                  None \<Rightarrow> None
                                | Some (c1, s7) \<Rightarrow>
                                    (case dfs_range lca (v_par (vnodes s7 lca)) lca_low s7 of
                                       None \<Rightarrow> None
                                     | Some (l, s8) \<Rightarrow> Some (0, c1, s8))))))))"

section \<open>Balancing to the left and right\<close>

definition freeTreeList :: "nat list \<Rightarrow> ctx \<times> fgraph \<Rightarrow> ctx \<times> fgraph" where
  "freeTreeList ns cs =
    ((fst cs)\<lparr>Tree_edge := []\<rparr>, fold (\<lambda>n. upd_v n (\<lambda>x. x\<lparr>v_tree_in := [], v_tree_out := [], v_mark := 0\<rparr>)) ns (snd cs))"

text \<open>The division of a positive slack; the ranks move by the half of it.\<close>

definition lr_step :: "nat \<Rightarrow> nat \<Rightarrow> fgraph \<Rightarrow> fgraph option" where
  "lr_step k e s =
    (if e_cutvalue (vedges s e) = 0 then
       (case enter_edge k s e of
          None \<Rightarrow> None
        | Some None \<Rightarrow> Some s
        | Some (Some f) \<Rightarrow>
            (let delta = SLACK s f in
             if delta \<le> 1 then Some s
             else if v_lim (vnodes s (vtail s e)) < v_lim (vnodes s (vhead s e)) then rerank k (vtail s e) (delta div 2) s
             else rerank k (vhead s e) (- (delta div 2)) s))
     else Some s)"

definition LR_balance :: "nat \<Rightarrow> nat list \<Rightarrow> ctx \<times> fgraph \<Rightarrow> (ctx \<times> fgraph) option" where
  "LR_balance k ns cs =
    map_option (\<lambda>s. freeTreeList ns (fst cs, s)) (each (lr_step k) (Tree_edge (fst cs)) (snd cs))"

end
