(* ===== verification/Ns_Rank.thy ===== *)
theory Ns_Rank
  imports Ns
begin

text \<open>
  The initial ranking of the network simplex: on a graph without cycles \<open>init_rank\<close> reaches every node
  and gives the least ranking that respects the minimum lengths of the edges.
\<close>

section \<open>The node list\<close>

lemma walk_nodes_linked: "linked s xs \<Longrightarrow> length xs < k \<Longrightarrow> walk_nodes k s (hd_opt xs) = Some xs"
proof (induction xs arbitrary: k)
  case Nil
  then show ?case by (cases k) auto
next
  case (Cons x xs)
  then obtain m where "k = Suc m" by (cases k) auto
  with Cons show ?case by simp
qed

text \<open>The states that differ in ranks and priorities only.\<close>

definition same_net :: "fgraph \<Rightarrow> fgraph \<Rightarrow> bool" where
  "same_net s s' \<longleftrightarrow> vedges s' = vedges s \<and> efresh s' = efresh s \<and> nlist s' = nlist s \<and>
     (\<forall>n. outs s' n = outs s n \<and> ins s' n = ins s n \<and> v_next (vnodes s' n) = v_next (vnodes s n))"

lemma same_net_refl [simp]: "same_net s s"
  by (simp add: same_net_def)

lemma same_net_trans: "same_net s s1 \<Longrightarrow> same_net s1 s2 \<Longrightarrow> same_net s s2"
  by (simp add: same_net_def)

lemma same_netD:
  assumes "same_net s s'"
  shows "vedges s' = vedges s" and "outs s' n = outs s n" and "ins s' n = ins s n"
    and "fast s' = fast s" and "fg_ok s' = fg_ok s" and "frel s' = frel s"
  using assms same_lists [where s = s and s' = s'] by (simp_all add: same_net_def)

abbreviation rank_of :: "fgraph \<Rightarrow> nat \<Rightarrow> int" where
  "rank_of s v \<equiv> v_rank (vnodes s v)"

abbreviation prio :: "fgraph \<Rightarrow> nat \<Rightarrow> int" where
  "prio s v \<equiv> v_priority (vnodes s v)"

section \<open>One round\<close>

text \<open>The rank of a node from its in-edges.\<close>

lemma in_ranks_spec:
  assumes "\<forall>e\<in>set es. vtail s e \<noteq> v \<and> 0 \<le> rank_of s (vtail s e) + e_minlen (vedges s e) \<and>
    rank_of s (vtail s e) + e_minlen (vedges s e) < 2 ^ 31"
  shows "\<exists>s'. in_ranks v es s = Some s' \<and> same_net s s' \<and> (\<forall>u. prio s' u = prio s u) \<and>
    (\<forall>u. u \<noteq> v \<longrightarrow> rank_of s' u = rank_of s u) \<and> rank_of s v \<le> rank_of s' v \<and>
    (\<forall>e\<in>set es. rank_of s (vtail s e) + e_minlen (vedges s e) \<le> rank_of s' v) \<and>
    (rank_of s' v = rank_of s v \<or> (\<exists>e\<in>set es. rank_of s' v = rank_of s (vtail s e) + e_minlen (vedges s e)))"
  using assms
proof (induction es arbitrary: s)
  case (Cons e es)
  let ?r = "rank_of s (vtail s e) + e_minlen (vedges s e)"
  let ?s = "upd_v v (\<lambda>x. x\<lparr>v_rank := max (v_rank x) ?r\<rparr>) s"
  have a: "int_add (rank_of s (vtail s e)) (e_minlen (vedges s e)) = Some ?r"
    using Cons.prems by (simp add: int_add_def)
  have sg: "same_net s ?s" by (simp add: same_net_def)
  have tails: "rank_of ?s (vtail ?s f) = rank_of s (vtail s f)" if "f \<in> set es" for f
    using Cons.prems that by simp
  have "\<forall>f\<in>set es. vtail ?s f \<noteq> v \<and> 0 \<le> rank_of ?s (vtail ?s f) + e_minlen (vedges ?s f) \<and>
      rank_of ?s (vtail ?s f) + e_minlen (vedges ?s f) < 2 ^ 31" using Cons.prems tails by simp
  from Cons.IH [OF this] obtain s' where
    s': "in_ranks v es ?s = Some s'" "same_net ?s s'" "\<forall>u. prio s' u = prio ?s u"
    "\<forall>u. u \<noteq> v \<longrightarrow> rank_of s' u = rank_of ?s u" "rank_of ?s v \<le> rank_of s' v"
    "\<forall>f\<in>set es. rank_of ?s (vtail ?s f) + e_minlen (vedges ?s f) \<le> rank_of s' v"
    "rank_of s' v = rank_of ?s v \<or> (\<exists>f\<in>set es. rank_of s' v = rank_of ?s (vtail ?s f) + e_minlen (vedges ?s f))" by blast
  show ?case
  proof (intro exI [of _ s'] conjI)
    show "in_ranks v (e # es) s = Some s'" using a s'(1) by simp
    show "same_net s s'" by (rule same_net_trans [OF sg s'(2)])
    show "\<forall>u. prio s' u = prio s u" using s'(3) by simp
    show "\<forall>u. u \<noteq> v \<longrightarrow> rank_of s' u = rank_of s u" using s'(4) by simp
    show "rank_of s v \<le> rank_of s' v" using s'(5) by simp
    show "\<forall>f\<in>set (e # es). rank_of s (vtail s f) + e_minlen (vedges s f) \<le> rank_of s' v" using s'(5,6) tails by simp
    have "rank_of ?s v = rank_of s v \<or> rank_of ?s v = ?r" by (simp add: max_def)
    then show "rank_of s' v = rank_of s v \<or> (\<exists>f\<in>set (e # es). rank_of s' v = rank_of s (vtail s f) + e_minlen (vedges s f))"
      using s'(7) tails by auto
  qed
qed simp

text \<open>The priorities of the heads.\<close>

abbreviation heads_at :: "fgraph \<Rightarrow> nat list \<Rightarrow> nat \<Rightarrow> nat" where
  "heads_at s es w \<equiv> length (filter (\<lambda>e. vhead s e = w) es)"

lemma out_priorities_spec:
  assumes "\<forall>w. 0 < heads_at s es w \<longrightarrow> int (heads_at s es w) \<le> prio s w"
  shows "\<exists>new s'. out_priorities es Q s = (Q @ new, s') \<and> same_net s s' \<and> (\<forall>u. rank_of s' u = rank_of s u) \<and>
    (\<forall>w. prio s' w = prio s w - int (heads_at s es w)) \<and> distinct new \<and>
    set new = {w. \<exists>e\<in>set es. vhead s e = w \<and> prio s w = int (heads_at s es w)}"
  using assms
proof (induction es arbitrary: s Q)
  case (Cons e es)
  let ?w = "vhead s e"
  let ?s = "upd_v ?w (\<lambda>x. x\<lparr>v_priority := v_priority x - 1\<rparr>) s"
  have sg: "same_net s ?s" by (simp add: same_net_def)
  have pw: "prio ?s w = prio s w - (if w = ?w then 1 else 0)" for w by simp
  have wpos: "int (heads_at s (e # es) ?w) \<le> prio s ?w" using Cons.prems [rule_format, of ?w] by simp
  have pre: "\<forall>w. 0 < heads_at ?s es w \<longrightarrow> int (heads_at ?s es w) \<le> prio ?s w"
  proof (intro allI impI)
    fix w assume pos: "0 < heads_at ?s es w"
    show "int (heads_at ?s es w) \<le> prio ?s w"
    proof (cases "w = ?w")
      case True
      then show ?thesis using wpos by simp
    next
      case False
      have "0 < heads_at s (e # es) w" using pos by simp
      then have "int (heads_at s (e # es) w) \<le> prio s w" using Cons.prems by blast
      then show ?thesis using False by auto
    qed
  qed
  let ?Q = "if prio ?s ?w \<le> 0 then Q @ [?w] else Q"
  from Cons.IH [of ?s ?Q] pre obtain new s' where
    s': "out_priorities es ?Q ?s = (?Q @ new, s')" "same_net ?s s'" "\<forall>u. rank_of s' u = rank_of ?s u"
    "\<forall>w. prio s' w = prio ?s w - int (heads_at ?s es w)" "distinct new"
    "set new = {w. \<exists>f\<in>set es. vhead ?s f = w \<and> prio ?s w = int (heads_at ?s es w)}" by blast
  let ?new = "(if prio ?s ?w \<le> 0 then [?w] else []) @ new"
  have zero: "prio ?s ?w \<le> 0 \<longleftrightarrow> prio s ?w = int (heads_at s (e # es) ?w) \<and> (\<forall>f\<in>set es. vhead s f \<noteq> ?w)"
  proof
    assume z: "prio ?s ?w \<le> 0"
    have "int (heads_at s es ?w) \<le> prio ?s ?w" using wpos by simp
    then have "int (heads_at s es ?w) = 0" "prio ?s ?w = 0" using z by linarith+
    then have "heads_at s es ?w = 0" "prio s ?w = 1" by simp_all
    then show "prio s ?w = int (heads_at s (e # es) ?w) \<and> (\<forall>f\<in>set es. vhead s f \<noteq> ?w)"
      by (simp add: filter_empty_conv)
  next
    assume z: "prio s ?w = int (heads_at s (e # es) ?w) \<and> (\<forall>f\<in>set es. vhead s f \<noteq> ?w)"
    then have "filter (\<lambda>f. vhead s f = ?w) es = []" by (simp add: filter_empty_conv)
    with z show "prio ?s ?w \<le> 0" by simp
  qed
  show ?case
  proof (intro exI [of _ ?new] exI [of _ s'] conjI)
    show "out_priorities (e # es) Q s = (Q @ ?new, s')"
      using s'(1) by (simp only: out_priorities.simps Let_def) simp
    show "same_net s s'" by (rule same_net_trans [OF sg s'(2)])
    show "\<forall>u. rank_of s' u = rank_of s u" using s'(3) by simp
    show "\<forall>w. prio s' w = prio s w - int (heads_at s (e # es) w)" using s'(4) by simp
    have "?w \<notin> set new" if "prio ?s ?w \<le> 0" using that s'(6) zero by auto
    then show "distinct ?new" using s'(5) by simp
    define P where "P w \<longleftrightarrow> prio s w = int (heads_at s (e # es) w)" for w
    have same: "prio ?s w = int (heads_at ?s es w) \<longleftrightarrow> P w" for w by (cases "w = ?w") (auto simp: P_def)
    have n: "set new = {w. \<exists>f\<in>set es. vhead s f = w \<and> P w}" unfolding s'(6) same by (simp only: upd_v_simps)
    have z: "prio ?s ?w \<le> 0 \<longleftrightarrow> P ?w \<and> (\<forall>f\<in>set es. vhead s f \<noteq> ?w)" unfolding P_def by (rule zero)
    have h: "{w. \<exists>f\<in>set (e # es). vhead s f = w \<and> P w} = (if P ?w then {?w} else {}) \<union> set new" unfolding n by auto
    show "set ?new = {w. \<exists>f\<in>set (e # es). vhead s f = w \<and> prio s w = int (heads_at s (e # es) w)}"
    proof (cases "prio ?s ?w \<le> 0")
      case True
      then have "P ?w" using z by blast
      then show ?thesis unfolding P_def [symmetric] h if_P [OF True] by simp
    next
      case False
      then have "P ?w \<Longrightarrow> ?w \<in> set new" using z unfolding n by blast
      then show ?thesis unfolding P_def [symmetric] h if_not_P [OF False] by auto
    qed
  qed
qed simp

section \<open>The loop\<close>

text \<open>The edges at the nodes of the graph stay inside, and their lengths are bounded.\<close>

definition closed_on :: "nat set \<Rightarrow> fgraph \<Rightarrow> bool" where
  "closed_on V s \<longleftrightarrow> (\<forall>e. fast s e \<longrightarrow> (vtail s e \<in> V \<longleftrightarrow> vhead s e \<in> V))"

definition lengths_ok :: "nat set \<Rightarrow> int \<Rightarrow> fgraph \<Rightarrow> bool" where
  "lengths_ok V m s \<longleftrightarrow> (\<forall>e. fast s e \<longrightarrow> vtail s e \<in> V \<longrightarrow> 0 \<le> e_minlen (vedges s e) \<and> e_minlen (vedges s e) \<le> m)"

text \<open>The rank of a node whose predecessors \<open>P\<close> are ranked: the least that its in-edges allow.\<close>

definition ranked :: "fgraph \<Rightarrow> nat set \<Rightarrow> nat \<Rightarrow> bool" where
  "ranked s P v \<longleftrightarrow> 0 \<le> rank_of s v \<and>
     (\<forall>e\<in>set (ins s v). vtail s e \<in> P \<and> rank_of s (vtail s e) + e_minlen (vedges s e) \<le> rank_of s v) \<and>
     (rank_of s v = 0 \<or> (\<exists>e\<in>set (ins s v). rank_of s v = rank_of s (vtail s e) + e_minlen (vedges s e)))"

definition pending :: "fgraph \<Rightarrow> nat set \<Rightarrow> nat \<Rightarrow> nat" where
  "pending s P v = length (filter (\<lambda>e. vtail s e \<notin> P) (ins s v))"

definition rank_inv :: "nat set \<Rightarrow> int \<Rightarrow> fgraph \<Rightarrow> nat list \<Rightarrow> nat list \<Rightarrow> fgraph \<Rightarrow> bool" where
  "rank_inv V m s0 P Q s \<longleftrightarrow> same_net s0 s \<and> distinct (P @ Q) \<and> set (P @ Q) \<subseteq> V \<and>
     (\<forall>v\<in>V. prio s v = int (pending s (set P) v)) \<and> (\<forall>v\<in>V. v \<in> set (P @ Q) \<longleftrightarrow> prio s v = 0) \<and>
     (\<forall>v\<in>set P. ranked s (set P) v \<and> rank_of s v \<le> int (length P) * m)"

lemma ins_iff: "fg_ok s \<Longrightarrow> e \<in> set (ins s n) \<longleftrightarrow> fast s e \<and> vhead s e = n"
  by (auto simp: fg_ok_def fast_def)

lemma ins_from:
  assumes ok: "fg_ok s"
  shows "length (filter (\<lambda>e. vtail s e = v) (ins s w)) = heads_at s (outs s v) w"
proof -
  have "set (filter (\<lambda>e. vtail s e = v) (ins s w)) = set (filter (\<lambda>e. vhead s e = w) (outs s v))"
    using ins_iff [OF ok] fast_iff [OF ok] by auto
  moreover have "distinct (filter (\<lambda>e. vtail s e = v) (ins s w))" "distinct (filter (\<lambda>e. vhead s e = w) (outs s v))"
    using fg_okD(1,2) [OF ok] by simp_all
  ultimately show ?thesis by (metis distinct_card)
qed

lemma pending_step:
  assumes ok: "fg_ok s" and v: "v \<notin> P"
  shows "pending s P w = pending s (insert v P) w + heads_at s (outs s v) w"
proof -
  have "length (filter (\<lambda>e. vtail s e \<notin> P) es) =
      length (filter (\<lambda>e. vtail s e \<notin> insert v P) es) + length (filter (\<lambda>e. vtail s e = v) es)" for es
    by (induction es) (use v in auto)
  then show ?thesis unfolding pending_def ins_from [OF ok, symmetric] by blast
qed

lemma rank_step:
  assumes ok: "fg_ok s0" and cl: "closed_on V s0" and ln: "lengths_ok V m s0" and m: "0 \<le> m"
    and inv: "rank_inv V m s0 P (v # Q) s" and bound: "int (Suc (length P)) * m < 2 ^ 31"
  shows "\<exists>s2 Q2 s3. in_ranks v (ins s v) (upd_v v (\<lambda>x. x\<lparr>v_rank := 0\<rparr>) s) = Some s2 \<and> same_net s s2 \<and>
    out_priorities (outs s v) Q s2 = (Q2, s3) \<and> rank_inv V m s0 (P @ [v]) Q2 s3"
proof -
  have sg: "same_net s0 s" and d: "distinct (P @ v # Q)" and sub: "set (P @ v # Q) \<subseteq> V"
    and pr: "\<forall>u\<in>V. prio s u = int (pending s (set P) u)" and zero: "\<forall>u\<in>V. u \<in> set (P @ v # Q) \<longleftrightarrow> prio s u = 0"
    and rk: "\<forall>u\<in>set P. ranked s (set P) u \<and> rank_of s u \<le> int (length P) * m"
    using inv unfolding rank_inv_def by blast+
  have oks: "fg_ok s" using ok same_netD(5) [OF sg] by simp
  have vV: "v \<in> V" "v \<notin> set P" using sub d by auto
  then have "pending s (set P) v = 0" using zero pr by auto
  then have tails: "vtail s e \<in> set P" if "e \<in> set (ins s v)" for e using that by (auto simp: pending_def filter_empty_conv)
  define s1 where "s1 = upd_v v (\<lambda>x. x\<lparr>v_rank := 0\<rparr>) s"
  have sg1: "same_net s s1" by (simp add: s1_def same_net_def)
  have P1: "rank_of s1 u = rank_of s u" if "u \<in> set P" for u using that vV(2) by (auto simp: s1_def)
  have len: "0 \<le> e_minlen (vedges s e) \<and> e_minlen (vedges s e) \<le> m" if e: "e \<in> set (ins s u)" "u \<in> V" for e u
  proof -
    have "fast s0 e" "vhead s0 e = u" using e(1) ins_iff [OF oks] same_netD [OF sg] by simp_all
    then have "vtail s0 e \<in> V" using cl e(2) by (simp add: closed_on_def)
    with \<open>fast s0 e\<close> ln show ?thesis by (simp add: lengths_ok_def same_netD(1) [OF sg])
  qed
  have val: "0 \<le> rank_of s (vtail s e) + e_minlen (vedges s e) \<and>
      rank_of s (vtail s e) + e_minlen (vedges s e) \<le> int (Suc (length P)) * m" if e: "e \<in> set (ins s v)" for e
  proof -
    have "0 \<le> rank_of s (vtail s e)" "rank_of s (vtail s e) \<le> int (length P) * m"
      using rk tails [OF e] by (auto simp: ranked_def)
    with len [OF e vV(1)] show ?thesis by (simp add: distrib_right)
  qed
  have "\<forall>e\<in>set (ins s v). vtail s1 e \<noteq> v \<and> 0 \<le> rank_of s1 (vtail s1 e) + e_minlen (vedges s1 e) \<and>
      rank_of s1 (vtail s1 e) + e_minlen (vedges s1 e) < 2 ^ 31"
  proof
    fix e assume e: "e \<in> set (ins s v)"
    note t = tails [OF e]
    have "vtail s e \<noteq> v" using t vV(2) by auto
    with val [OF e] bound P1 [OF t] show "vtail s1 e \<noteq> v \<and> 0 \<le> rank_of s1 (vtail s1 e) + e_minlen (vedges s1 e) \<and>
      rank_of s1 (vtail s1 e) + e_minlen (vedges s1 e) < 2 ^ 31"
      unfolding same_netD(1) [OF sg1] by linarith
  qed
  from in_ranks_spec [OF this] obtain s2 where
    s2: "in_ranks v (ins s v) s1 = Some s2" "same_net s1 s2" "\<forall>u. prio s2 u = prio s1 u"
    "\<forall>u. u \<noteq> v \<longrightarrow> rank_of s2 u = rank_of s1 u" "rank_of s1 v \<le> rank_of s2 v"
    "\<forall>e\<in>set (ins s v). rank_of s1 (vtail s1 e) + e_minlen (vedges s1 e) \<le> rank_of s2 v"
    "rank_of s2 v = rank_of s1 v \<or> (\<exists>e\<in>set (ins s v). rank_of s2 v = rank_of s1 (vtail s1 e) + e_minlen (vedges s1 e))"
    by blast
  have sg2: "same_net s s2" by (rule same_net_trans [OF sg1 s2(2)])
  have pr2: "prio s2 u = prio s u" for u using s2(3) by (simp add: s1_def)
  have hs: "heads_at s2 es w = heads_at s es w" for es w by (simp add: same_netD(1) [OF sg2])
  have step: "pending s (set P) w = pending s (set (P @ [v])) w + heads_at s (outs s v) w" for w
    using pending_step [OF oks vV(2)] by simp
  have hV: "w \<in> V" if "0 < heads_at s (outs s v) w" for w
  proof -
    from that have "filter (\<lambda>e. vhead s e = w) (outs s v) \<noteq> []" by auto
    then obtain e where "e \<in> set (outs s v)" "vhead s e = w" by (auto simp: filter_empty_conv)
    then have "fast s0 e" "vtail s0 e = v" "vhead s0 e = w" using fast_iff [OF oks] same_netD [OF sg] by auto
    with cl vV(1) show ?thesis by (auto simp: closed_on_def)
  qed
  have "\<forall>w. 0 < heads_at s2 (outs s v) w \<longrightarrow> int (heads_at s2 (outs s v) w) \<le> prio s2 w"
    unfolding hs pr2 using pr hV step by fastforce
  from out_priorities_spec [OF this, of Q] obtain new s3 where
    s3: "out_priorities (outs s v) Q s2 = (Q @ new, s3)" "same_net s2 s3" "\<forall>u. rank_of s3 u = rank_of s2 u"
    "\<forall>w. prio s3 w = prio s w - int (heads_at s (outs s v) w)" "distinct new"
    "set new = {w. \<exists>e\<in>set (outs s v). vhead s e = w \<and> prio s w = int (heads_at s (outs s v) w)}"
    unfolding hs pr2 same_netD(1) [OF sg2] by blast
  have sg3: "same_net s s3" by (rule same_net_trans [OF sg2 s3(2)])
  have pend3: "pending s3 A w = pending s A w" for A w by (simp add: pending_def same_netD [OF sg3])
  have prio3: "prio s3 w = int (pending s3 (set (P @ [v])) w)" if "w \<in> V" for w
    unfolding pend3 using s3(4) pr step [of w] that by simp
  have new: "w \<in> set new \<longleftrightarrow> 0 < heads_at s (outs s v) w \<and> prio s w = int (heads_at s (outs s v) w)" for w
    unfolding s3(6) by (auto simp: filter_empty_conv)
  have zero3: "w \<in> set ((P @ [v]) @ Q @ new) \<longleftrightarrow> prio s3 w = 0" if w: "w \<in> V" for w
  proof (cases "prio s w = 0")
    case True
    then have "pending s (set P) w = 0" using pr w by auto
    then have "heads_at s (outs s v) w = 0" using step [of w] by linarith
    then show ?thesis using True zero w s3(4) by auto
  next
    case False
    then have "w \<notin> set (P @ v # Q)" using zero w by blast
    then have "w \<in> set ((P @ [v]) @ Q @ new) \<longleftrightarrow> w \<in> set new" by auto
    also have "\<dots> \<longleftrightarrow> prio s3 w = 0" unfolding new using s3(4) False by auto
    finally show ?thesis .
  qed
  have dnew: "distinct ((P @ [v]) @ Q @ new)"
  proof -
    have "u \<notin> set new" if "u \<in> set (P @ v # Q)" for u
    proof -
      have "prio s u = 0" using zero sub that by blast
      then show ?thesis unfolding new by auto
    qed
    with d s3(5) show ?thesis by auto
  qed
  have r3: "rank_of s3 u = rank_of s u" if "u \<in> set P" for u
  proof -
    have "u \<noteq> v" using that vV(2) by auto
    with s3(3) s2(4) P1 [OF that] show ?thesis by simp
  qed
  have r3v: "rank_of s3 v = rank_of s2 v" using s3(3) by simp
  have ranked3: "ranked s3 (set (P @ [v])) u \<and> rank_of s3 u \<le> int (length (P @ [v])) * m" if u: "u \<in> set (P @ [v])" for u
  proof (cases "u = v")
    case True
    have "rank_of s (vtail s e) = rank_of s1 (vtail s1 e)" if "e \<in> set (ins s v)" for e
      using P1 [OF tails [OF that]] same_netD(1) [OF sg1] by simp
    note eq = this
    have "rank_of s1 v = 0" by (simp add: s1_def)
    have rk0: "0 \<le> rank_of s3 v" unfolding r3v using s2(5) \<open>rank_of s1 v = 0\<close> by simp
    have up: "\<forall>e\<in>set (ins s v). rank_of s (vtail s e) + e_minlen (vedges s e) \<le> rank_of s3 v"
      unfolding r3v using s2(6) eq same_netD(1) [OF sg1] by simp
    have tight: "rank_of s3 v = 0 \<or> (\<exists>e\<in>set (ins s v). rank_of s3 v = rank_of s (vtail s e) + e_minlen (vedges s e))"
      unfolding r3v using s2(7) \<open>rank_of s1 v = 0\<close> eq same_netD(1) [OF sg1] by auto
    have "rank_of s3 v \<le> int (length (P @ [v])) * m"
      using tight val m by auto
    moreover have "ranked s3 (set (P @ [v])) v"
      unfolding ranked_def same_netD(1,3) [OF sg3] using rk0 up tight tails r3 by auto
    ultimately show ?thesis using True by simp
  next
    case False
    then have uP: "u \<in> set P" using u by simp
    have "ranked s (set P) u" "rank_of s u \<le> int (length P) * m" using rk uP by blast+
    moreover have "int (length P) * m \<le> int (length (P @ [v])) * m" using m by (simp add: distrib_right)
    ultimately show ?thesis
      unfolding ranked_def same_netD(1,3) [OF sg3] r3 [OF uP] using r3 by auto
  qed
  have "rank_inv V m s0 (P @ [v]) (Q @ new) s3"
    unfolding rank_inv_def
  proof (intro conjI ballI)
    show "same_net s0 s3" by (rule same_net_trans [OF sg sg3])
    show "distinct ((P @ [v]) @ Q @ new)" by (rule dnew)
    show "set ((P @ [v]) @ Q @ new) \<subseteq> V" using sub hV new by auto
  qed (use prio3 zero3 ranked3 in blast)+
  with s2(1) s3(1) sg2 show ?thesis unfolding s1_def by blast
qed

lemma rank_loop_total:
  assumes ok: "fg_ok s0" and cl: "closed_on V s0" and ln: "lengths_ok V m s0" and m: "0 \<le> m" and fin: "finite V"
    and bound: "int (card V) * m < 2 ^ 31"
  shows "rank_inv V m s0 P Q s \<Longrightarrow> card V - length P < k \<Longrightarrow>
    \<exists>P' s'. rank_loop k Q (length P) s = Some (length P', s') \<and> rank_inv V m s0 P' [] s'"
proof (induction k arbitrary: P Q s)
  case (Suc k)
  show ?case
  proof (cases Q)
    case Nil
    with Suc.prems(1) show ?thesis by (intro exI [of _ P] exI [of _ s]) simp
  next
    case (Cons v Q1)
    have "distinct (P @ v # Q1)" "set (P @ v # Q1) \<subseteq> V" using Suc.prems(1) Cons by (simp_all add: rank_inv_def)
    then have "length (P @ v # Q1) \<le> card V" using fin by (metis card_mono distinct_card)
    then have len: "Suc (length P) \<le> card V" by simp
    then have "int (Suc (length P)) * m \<le> int (card V) * m" using m by (intro mult_right_mono) simp_all
    then have "int (Suc (length P)) * m < 2 ^ 31" using bound by linarith
    from rank_step [OF ok cl ln m _ this] Suc.prems(1) Cons obtain s2 Q2 s3 where
      st: "in_ranks v (ins s v) (upd_v v (\<lambda>x. x\<lparr>v_rank := 0\<rparr>) s) = Some s2" "same_net s s2"
      "out_priorities (outs s v) Q1 s2 = (Q2, s3)" "rank_inv V m s0 (P @ [v]) Q2 s3" by blast
    have "card V - length (P @ [v]) < k" using Suc.prems(2) len by simp
    from Suc.IH [OF st(4) this] obtain P' s' where
      "rank_loop k Q2 (Suc (length P)) s3 = Some (length P', s')" "rank_inv V m s0 P' [] s'" by auto
    moreover have "rank_loop (Suc k) Q (length P) s = rank_loop k Q2 (Suc (length P)) s3"
      using Cons st(1,3) same_netD(2) [OF st(2)] by (simp add: Let_def)
    ultimately show ?thesis by metis
  qed
qed simp

section \<open>Every node is ranked\<close>

lemma all_ranked:
  assumes ok: "fg_ok s0" and ac: "acyclic (frel s0)" and cl: "closed_on V s0" and fin: "finite V"
    and inv: "rank_inv V m s0 P [] s"
  shows "set P = V"
proof (rule ccontr)
  assume "set P \<noteq> V"
  then obtain z0 where z0: "z0 \<in> V - set P" using inv by (auto simp: rank_inv_def)
  let ?R = "frel s0 \<inter> V \<times> V"
  have "finite ?R" using fin by simp
  moreover have "acyclic ?R" by (rule acyclic_subset [OF ac]) simp
  ultimately have "wf ?R" by (rule finite_acyclic_wf)
  from wfE_min [OF this z0] obtain z where z: "z \<in> V - set P" "\<And>y. (y, z) \<in> ?R \<Longrightarrow> y \<notin> V - set P" by blast
  have sg: "same_net s0 s" using inv by (simp add: rank_inv_def)
  have "pending s (set P) z \<noteq> 0" using inv z(1) unfolding rank_inv_def by auto
  then obtain e where e: "e \<in> set (ins s z)" "vtail s e \<notin> set P" by (auto simp: pending_def filter_empty_conv)
  then have f: "fast s0 e" "vhead s0 e = z" "vtail s0 e \<notin> set P"
    using ins_iff [OF ok] same_netD [OF sg] by simp_all
  then have "vtail s0 e \<in> V" using cl z(1) by (auto simp: closed_on_def)
  with f z show False by (auto simp: frel_def)
qed

text \<open>Any other ranking that respects the lengths is at least as large at every node.\<close>

definition feasible_ranks :: "nat set \<Rightarrow> fgraph \<Rightarrow> (nat \<Rightarrow> int) \<Rightarrow> bool" where
  "feasible_ranks V s r \<longleftrightarrow> (\<forall>v\<in>V. 0 \<le> r v) \<and>
     (\<forall>e. fast s e \<longrightarrow> vtail s e \<in> V \<longrightarrow> r (vtail s e) + e_minlen (vedges s e) \<le> r (vhead s e))"

lemma ranked_least:
  assumes ok: "fg_ok s" and ac: "acyclic (frel s)" and cl: "closed_on V s" and fin: "finite V"
    and rk: "\<forall>v\<in>V. ranked s V v" and r: "feasible_ranks V s r"
  shows "v \<in> V \<Longrightarrow> rank_of s v \<le> r v"
proof -
  let ?R = "frel s \<inter> V \<times> V"
  have "finite ?R" using fin by simp
  moreover have "acyclic ?R" by (rule acyclic_subset [OF ac]) simp
  ultimately have "wf ?R" by (rule finite_acyclic_wf)
  then show "v \<in> V \<Longrightarrow> rank_of s v \<le> r v"
  proof (induction v rule: wf_induct_rule)
    case (less v)
    have rv: "ranked s V v" using rk less.prems by blast
    then consider "rank_of s v = 0" | e where "e \<in> set (ins s v)" "rank_of s v = rank_of s (vtail s e) + e_minlen (vedges s e)"
      by (auto simp: ranked_def)
    then show ?case
    proof cases
      case 1
      with r less.prems show ?thesis by (simp add: feasible_ranks_def)
    next
      case 2
      then have e: "fast s e" "vhead s e = v" using ins_iff [OF ok] by simp_all
      have t: "vtail s e \<in> V" using rv 2(1) by (simp add: ranked_def)
      have "(vtail s e, v) \<in> ?R" using e t less.prems by (auto simp: frel_def)
      from less.IH [OF this t] have "rank_of s (vtail s e) \<le> r (vtail s e)" .
      moreover have "r (vtail s e) + e_minlen (vedges s e) \<le> r (vhead s e)" using r e t unfolding feasible_ranks_def by blast
      ultimately show ?thesis using 2(2) e by simp
    qed
  qed
qed

lemma init_rank_total:
  assumes ok: "fg_ok s" and ac: "acyclic (frel s)" and xs: "nlist s = hd_opt xs" "linked s xs" "distinct xs"
    and cl: "closed_on (set xs) s" and ln: "lengths_ok (set xs) m s" and m: "0 \<le> m" "int (length xs) * m < 2 ^ 31"
    and pr: "\<forall>v\<in>set xs. prio s v = int (length (ins s v))" and k: "length xs < k"
  shows "\<exists>s'. init_rank k s = Some (length xs, s') \<and> same_net s s' \<and> (\<forall>v\<in>set xs. ranked s' (set xs) v)"
proof -
  let ?V = "set xs" and ?Q = "filter (\<lambda>v. prio s v = 0) xs"
  have card: "card ?V = length xs" using xs(3) by (rule distinct_card)
  have "pending s {} v = length (ins s v)" for v by (simp add: pending_def)
  then have inv: "rank_inv ?V m s [] ?Q s" using pr xs(3) by (auto simp: rank_inv_def)
  have b: "int (card ?V) * m < 2 ^ 31" using m(2) by (simp add: card)
  have "card ?V - length ([] :: nat list) < k" using k by (simp add: card)
  from rank_loop_total [OF ok cl ln m(1) _ b inv this] obtain P s' where
    s': "rank_loop k ?Q 0 s = Some (length P, s')" "rank_inv ?V m s P [] s'" by auto
  have P: "set P = ?V" by (rule all_ranked [OF ok ac cl _ s'(2)]) simp
  have "distinct P" using s'(2) by (simp add: rank_inv_def)
  then have "length P = length xs" using P card distinct_card by metis
  then have "init_rank k s = Some (length xs, s')"
    using s'(1) walk_nodes_linked [OF xs(2) k] xs(1) by (simp add: init_rank_def)
  moreover have "same_net s s'" "\<forall>v\<in>set P. ranked s' (set P) v" using s'(2) by (simp_all add: rank_inv_def)
  ultimately show ?thesis unfolding P by blast
qed

section \<open>Setting up\<close>

text \<open>Edges that differ in the fields of the tree only, and nodes that keep their lists and their rank.\<close>

definition same_problem :: "fgraph \<Rightarrow> fgraph \<Rightarrow> bool" where
  "same_problem s s' \<longleftrightarrow> efresh s' = efresh s \<and> nlist s' = nlist s \<and>
     (\<forall>e. vtail s' e = vtail s e \<and> vhead s' e = vhead s e \<and> e_minlen (vedges s' e) = e_minlen (vedges s e) \<and>
        e_weight (vedges s' e) = e_weight (vedges s e) \<and> e_to_virt (vedges s' e) = e_to_virt (vedges s e)) \<and>
     (\<forall>n. outs s' n = outs s n \<and> ins s' n = ins s n \<and> v_next (vnodes s' n) = v_next (vnodes s n) \<and> rank_of s' n = rank_of s n)"

lemma same_problem_refl [simp]: "same_problem s s"
  by (simp add: same_problem_def)

lemma same_problem_trans: "same_problem s s1 \<Longrightarrow> same_problem s1 s2 \<Longrightarrow> same_problem s s2"
  by (simp add: same_problem_def)

lemma same_problemD:
  assumes "same_problem s s'"
  shows "fast s' = fast s" and "fg_ok s' = fg_ok s" and "frel s' = frel s" and "closed_on V s' = closed_on V s"
    and "lengths_ok V m s' = lengths_ok V m s" and "SLACK s' e = SLACK s e" and "linked s' xs = linked s xs"
    and "ins s' n = ins s n" and "outs s' n = outs s n"
proof -
  show f: "fast s' = fast s" using assms by (simp add: same_problem_def fast_def fun_eq_iff)
  show "fg_ok s' = fg_ok s" "frel s' = frel s" "closed_on V s' = closed_on V s" "lengths_ok V m s' = lengths_ok V m s"
    "SLACK s' e = SLACK s e"
    using assms f by (simp_all add: same_problem_def fg_ok_def frel_def closed_on_def lengths_ok_def SLACK_def LENGTH_e_def)
  show "linked s' xs = linked s xs" by (rule linked_same) (use assms in \<open>simp add: same_problem_def\<close>)
  show "ins s' n = ins s n" "outs s' n = outs s n" using assms by (simp_all add: same_problem_def)
qed

lemma init_edges_spec:
  "\<exists>s'. init_edges es n f s = (f \<and> (\<forall>e\<in>set es. 0 \<le> SLACK s e), s') \<and> same_problem s s' \<and>
    (\<forall>v. prio s' v = prio s v + (if v = n then int (length es) else 0)) \<and>
    (\<forall>e\<in>set es. \<not> TREE_EDGE s' e) \<and> (\<forall>e. \<not> TREE_EDGE s e \<longrightarrow> \<not> TREE_EDGE s' e)"
proof (induction es arbitrary: f s)
  case (Cons e es)
  let ?a = "upd_v n (\<lambda>x. x\<lparr>v_priority := v_priority x + 1\<rparr>) s"
  let ?s = "upd_e e (\<lambda>x. x\<lparr>e_cutvalue := 0, e_tree_index := -1\<rparr>) ?a"
  let ?f = "if LENGTH_e ?s e < e_minlen (vedges ?s e) then False else f"
  have sp: "same_problem s ?s" by (simp add: same_problem_def)
  from Cons.IH [of ?f ?s] obtain s' where
    s': "init_edges es n ?f ?s = (?f \<and> (\<forall>e\<in>set es. 0 \<le> SLACK ?s e), s')" "same_problem ?s s'"
    "\<forall>v. prio s' v = prio ?s v + (if v = n then int (length es) else 0)"
    "\<forall>e\<in>set es. \<not> TREE_EDGE s' e" "\<forall>e. \<not> TREE_EDGE ?s e \<longrightarrow> \<not> TREE_EDGE s' e" by blast
  have sl: "SLACK ?s e = SLACK s e" for e by (rule same_problemD(6) [OF sp])
  have "(LENGTH_e ?s e < e_minlen (vedges ?s e)) = (SLACK s e < 0)" using sl [of e] unfolding SLACK_def by linarith
  then have f: "(?f \<and> (\<forall>e\<in>set es. 0 \<le> SLACK ?s e)) = (f \<and> (\<forall>e\<in>set (e # es). 0 \<le> SLACK s e))"
    unfolding sl by auto
  have "init_edges (e # es) n f s = init_edges es n ?f ?s" by (simp only: init_edges.simps Let_def)
  moreover have "same_problem s s'" by (rule same_problem_trans [OF sp s'(2)])
  moreover have "\<forall>v. prio s' v = prio s v + (if v = n then int (length (e # es)) else 0)" using s'(3) by simp
  moreover have "\<forall>g. \<not> TREE_EDGE s g \<longrightarrow> \<not> TREE_EDGE ?s g" by (simp add: TREE_EDGE_def)
  moreover have "\<not> TREE_EDGE ?s e" by (simp add: TREE_EDGE_def)
  ultimately show ?case unfolding f [symmetric] using s'(1,4,5) by (intro exI [of _ s']) auto
qed simp

lemma init_nodes_spec:
  "distinct ns \<Longrightarrow> \<exists>s'. fold init_node ns (f, s) = (f \<and> (\<forall>n\<in>set ns. \<forall>e\<in>set (ins s n). 0 \<le> SLACK s e), s') \<and>
    same_problem s s' \<and> (\<forall>v. prio s' v = (if v \<in> set ns then int (length (ins s v)) else prio s v)) \<and>
    (\<forall>n\<in>set ns. \<forall>e\<in>set (ins s n). \<not> TREE_EDGE s' e) \<and> (\<forall>e. \<not> TREE_EDGE s e \<longrightarrow> \<not> TREE_EDGE s' e)"
proof (induction ns arbitrary: f s)
  case (Cons n ns)
  let ?s1 = "upd_v n (\<lambda>x. x\<lparr>v_priority := 0\<rparr>) s"
  from init_edges_spec [of "ins ?s1 n" n f ?s1] obtain s2 where
    s2: "init_edges (ins ?s1 n) n f ?s1 = (f \<and> (\<forall>e\<in>set (ins ?s1 n). 0 \<le> SLACK ?s1 e), s2)" "same_problem ?s1 s2"
    "\<forall>v. prio s2 v = prio ?s1 v + (if v = n then int (length (ins ?s1 n)) else 0)"
    "\<forall>e\<in>set (ins ?s1 n). \<not> TREE_EDGE s2 e" "\<forall>e. \<not> TREE_EDGE ?s1 e \<longrightarrow> \<not> TREE_EDGE s2 e" by blast
  let ?s3 = "upd_v n (\<lambda>x. x\<lparr>v_tree_in := [], v_tree_out := []\<rparr>) s2"
  have sp: "same_problem s ?s3"
    using s2(2) by (simp add: same_problem_def)
  define f3 where "f3 \<longleftrightarrow> f \<and> (\<forall>e\<in>set (ins s n). 0 \<le> SLACK s e)"
  have "same_problem s ?s1" by (simp add: same_problem_def)
  then have st: "init_node n (f, s) = (f3, ?s3)"
    using s2(1) same_problemD(6) [of s ?s1] by (simp add: init_node_def Let_def f3_def)
  from Cons.IH [of f3 ?s3] Cons.prems obtain s' where
    s': "fold init_node ns (f3, ?s3) = (f3 \<and> (\<forall>n\<in>set ns. \<forall>e\<in>set (ins ?s3 n). 0 \<le> SLACK ?s3 e), s')"
    "same_problem ?s3 s'" "\<forall>v. prio s' v = (if v \<in> set ns then int (length (ins ?s3 v)) else prio ?s3 v)"
    "\<forall>n\<in>set ns. \<forall>e\<in>set (ins ?s3 n). \<not> TREE_EDGE s' e" "\<forall>e. \<not> TREE_EDGE ?s3 e \<longrightarrow> \<not> TREE_EDGE s' e" by auto
  have eq: "ins ?s3 v = ins s v" "SLACK ?s3 e = SLACK s e" for v e using same_problemD(6,8) [OF sp] by simp_all
  show ?case
  proof (intro exI [of _ s'] conjI)
    have "(f3 \<and> (\<forall>n\<in>set ns. \<forall>e\<in>set (ins ?s3 n). 0 \<le> SLACK ?s3 e)) =
        (f \<and> (\<forall>n\<in>set (n # ns). \<forall>e\<in>set (ins s n). 0 \<le> SLACK s e))" unfolding eq f3_def by auto
    then show "fold init_node (n # ns) (f, s) = (f \<and> (\<forall>n\<in>set (n # ns). \<forall>e\<in>set (ins s n). 0 \<le> SLACK s e), s')"
      using st s'(1) by simp
    show "same_problem s s'" by (rule same_problem_trans [OF sp s'(2)])
    have "prio ?s3 v = (if v = n then int (length (ins s v)) else prio s v)" for v using s2(3) by simp
    then show "\<forall>v. prio s' v = (if v \<in> set (n # ns) then int (length (ins s v)) else prio s v)"
      using s'(3) unfolding eq by (simp only: list.set insert_iff split: if_split) blast
    have t3: "TREE_EDGE ?s3 e = TREE_EDGE s2 e" "TREE_EDGE ?s1 e = TREE_EDGE s e" for e by (simp_all add: TREE_EDGE_def)
    show "\<forall>m\<in>set (n # ns). \<forall>e\<in>set (ins s m). \<not> TREE_EDGE s' e" using s'(4,5) s2(4) unfolding eq t3 by simp
    show "\<forall>e. \<not> TREE_EDGE s e \<longrightarrow> \<not> TREE_EDGE s' e" using s'(5) s2(5) unfolding t3 by simp
  qed
qed simp

lemma init_graph_spec:
  assumes xs: "nlist s = hd_opt xs" "linked s xs" "distinct xs" and k: "length xs < k"
  shows "\<exists>s'. init_graph k s = Some (\<forall>n\<in>set xs. \<forall>e\<in>set (ins s n). 0 \<le> SLACK s e,
      blank_ctx\<lparr>N_nodes := length xs, N_edges := (\<Sum>n\<leftarrow>xs. length (outs s n))\<rparr>, s') \<and>
    same_problem s s' \<and> (\<forall>v\<in>set xs. prio s' v = int (length (ins s v)) \<and> (\<forall>e\<in>set (ins s v). \<not> TREE_EDGE s' e))"
proof -
  define s1 where "s1 = fold (\<lambda>n. upd_v n (\<lambda>x. x\<lparr>v_mark := 0\<rparr>)) xs s"
  have "same_problem t (fold (\<lambda>n. upd_v n (\<lambda>x. x\<lparr>v_mark := 0\<rparr>)) ns t)" for ns t
  proof (induction ns arbitrary: t)
    case (Cons n ns)
    have "same_problem t (upd_v n (\<lambda>x. x\<lparr>v_mark := 0\<rparr>) t)" by (simp add: same_problem_def)
    from same_problem_trans [OF this Cons.IH] show ?case by simp
  qed simp
  then have sp: "same_problem s s1" by (simp add: s1_def)
  from init_nodes_spec [OF xs(3), of True s1] obtain s' where
    s': "fold init_node xs (True, s1) = (\<forall>n\<in>set xs. \<forall>e\<in>set (ins s n). 0 \<le> SLACK s e, s')" "same_problem s1 s'"
    "\<forall>v\<in>set xs. prio s' v = int (length (ins s v)) \<and> (\<forall>e\<in>set (ins s v). \<not> TREE_EDGE s' e)"
    unfolding same_problemD(6,8) [OF sp] by auto
  have "init_graph k s = Some (\<forall>n\<in>set xs. \<forall>e\<in>set (ins s n). 0 \<le> SLACK s e,
      blank_ctx\<lparr>N_nodes := length xs, N_edges := (\<Sum>n\<leftarrow>xs. length (outs s n))\<rparr>, s')"
    using walk_nodes_linked [OF xs(2) k] s'(1)
    by (simp add: init_graph_def xs(1) s1_def [symmetric] Let_def same_problemD(9) [OF sp])
  with s'(3) same_problem_trans [OF sp s'(2)] show ?thesis by blast
qed

section \<open>Feasible rankings\<close>

definition feasible :: "nat set \<Rightarrow> fgraph \<Rightarrow> bool" where
  "feasible V s \<longleftrightarrow> (\<forall>e. fast s e \<longrightarrow> vtail s e \<in> V \<longrightarrow> 0 \<le> SLACK s e)"

lemma ranked_feasible:
  assumes "fg_ok s" and "closed_on V s" and "\<forall>v\<in>V. ranked s V v"
  shows "feasible V s"
  unfolding feasible_def
proof (intro allI impI)
  fix e assume e: "fast s e" "vtail s e \<in> V"
  then have "vhead s e \<in> V" using assms(2) by (simp add: closed_on_def)
  with assms(3) have "ranked s V (vhead s e)" by blast
  moreover have "e \<in> set (ins s (vhead s e))" using ins_iff [OF assms(1)] e(1) by simp
  ultimately have "rank_of s (vtail s e) + e_minlen (vedges s e) \<le> rank_of s (vhead s e)" by (simp add: ranked_def)
  then show "0 \<le> SLACK s e" by (simp add: SLACK_def LENGTH_e_def)
qed

text \<open>The graph of one component, as the network simplex gets it.\<close>

definition ranking_problem :: "nat list \<Rightarrow> int \<Rightarrow> fgraph \<Rightarrow> bool" where
  "ranking_problem xs m s \<longleftrightarrow> fg_ok s \<and> acyclic (frel s) \<and> nlist s = hd_opt xs \<and> linked s xs \<and> distinct xs \<and>
     closed_on (set xs) s \<and> lengths_ok (set xs) m s \<and> 0 \<le> m \<and> int (length xs) * m < 2 ^ 31"

lemma ns_start_total:
  assumes p: "ranking_problem xs m s" and k: "length xs < k"
  shows "\<exists>c s'. ns_start k s = Some (c, s') \<and> N_nodes c = length xs \<and> feasible (set xs) s' \<and> ranking_problem xs m s' \<and>
    (\<forall>r. feasible_ranks (set xs) s' r = feasible_ranks (set xs) s r) \<and>
    (\<forall>e. fast s' e = fast s e \<and> vtail s' e = vtail s e \<and> vhead s' e = vhead s e \<and> e_minlen (vedges s' e) = e_minlen (vedges s e)) \<and>
    (feasible (set xs) s \<or> (\<forall>v\<in>set xs. ranked s' (set xs) v))"
proof -
  have ok: "fg_ok s" "acyclic (frel s)" and xs: "nlist s = hd_opt xs" "linked s xs" "distinct xs"
    and cl: "closed_on (set xs) s" and ln: "lengths_ok (set xs) m s" and m: "0 \<le> m" "int (length xs) * m < 2 ^ 31"
    using p by (simp_all add: ranking_problem_def)
  let ?f = "\<forall>n\<in>set xs. \<forall>e\<in>set (ins s n). 0 \<le> SLACK s e"
  let ?c = "blank_ctx\<lparr>N_nodes := length xs, N_edges := (\<Sum>n\<leftarrow>xs. length (outs s n))\<rparr>"
  have f: "?f \<longleftrightarrow> feasible (set xs) s"
  proof -
    have "?f \<longleftrightarrow> (\<forall>e. fast s e \<longrightarrow> vhead s e \<in> set xs \<longrightarrow> 0 \<le> SLACK s e)"
      using ins_iff [OF ok(1)] by auto
    also have "\<dots> \<longleftrightarrow> feasible (set xs) s" unfolding feasible_def using cl by (metis closed_on_def)
    finally show ?thesis .
  qed
  from init_graph_spec [OF xs k] obtain s1 where
    s1: "init_graph k s = Some (?f, ?c, s1)" "same_problem s s1" "\<forall>v\<in>set xs. prio s1 v = int (length (ins s v))" by blast
  note sp = same_problemD [OF s1(2)]
  have tl: "vtail s1 e = vtail s e" "vhead s1 e = vhead s e" "e_minlen (vedges s1 e) = e_minlen (vedges s e)" for e
    using s1(2) by (simp_all add: same_problem_def)
  have pr1: "ranking_problem xs m s1" using p s1(2) by (simp add: ranking_problem_def sp same_problem_def)
  have fr1: "feasible_ranks (set xs) s1 r = feasible_ranks (set xs) s r" for r by (simp add: feasible_ranks_def sp tl)
  show ?thesis
  proof (cases ?f)
    case True
    then have "ns_start k s = Some (?c, s1)" unfolding ns_start_def s1(1) option.case prod.case by (rule if_P)
    moreover have "feasible (set xs) s1" using True unfolding f by (simp add: feasible_def sp tl)
    ultimately show ?thesis using True f pr1 fr1 tl sp(1) by (intro exI [of _ ?c] exI [of _ s1]) simp
  next
    case False
    note pr = pr1 [unfolded ranking_problem_def]
    have "\<forall>v\<in>set xs. prio s1 v = int (length (ins s1 v))" using s1(3) unfolding sp .
    with init_rank_total [of s1 xs m k] pr k obtain s2 where
      s2: "init_rank k s1 = Some (length xs, s2)" "same_net s1 s2" "\<forall>v\<in>set xs. ranked s2 (set xs) v" by blast
    note sg = same_netD [OF s2(2)]
    have "linked s2 xs = linked s1 xs" by (rule linked_same) (use s2(2) in \<open>simp add: same_net_def\<close>)
    then have pr2: "ranking_problem xs m s2"
      using pr s2(2) by (simp add: ranking_problem_def sg closed_on_def lengths_ok_def same_net_def)
    have fr2: "feasible_ranks (set xs) s2 r = feasible_ranks (set xs) s r" for r
      using fr1 by (simp add: feasible_ranks_def sg)
    have "ns_start k s = Some (?c, s2)"
      unfolding ns_start_def s1(1) option.case prod.case if_not_P [OF False] by (simp add: s2(1))
    moreover have "feasible (set xs) s2"
      by (rule ranked_feasible [OF _ _ s2(3)]) (use pr2 in \<open>simp_all add: ranking_problem_def\<close>)
    moreover have "N_nodes ?c = length xs" by simp
    moreover have "fast s2 e = fast s e \<and> vtail s2 e = vtail s e \<and> vhead s2 e = vhead s e \<and>
        e_minlen (vedges s2 e) = e_minlen (vedges s e)" for e using sg sp(1) tl by simp
    ultimately show ?thesis using pr2 fr2 s2(3) by blast
  qed
qed


text \<open>Three nodes in a row and a longer edge past the middle one.\<close>

definition short_cut :: fgraph where
  "short_cut = two_cycle\<lparr>
     vnodes := (\<lambda>_. blank_node)(0 := blank_node\<lparr>v_next := Some 1, v_out := [0, 2]\<rparr>,
                              1 := blank_node\<lparr>v_next := Some 2, v_out := [1], v_in := [0]\<rparr>,
                              2 := blank_node\<lparr>v_in := [1, 2]\<rparr>),
     vedges := (\<lambda>_. blank_edge 0 0)(0 := (blank_edge 0 1)\<lparr>e_weight := 1, e_minlen := 1\<rparr>,
                                  1 := (blank_edge 1 2)\<lparr>e_weight := 1, e_minlen := 2\<rparr>,
                                  2 := (blank_edge 0 2)\<lparr>e_weight := 1, e_minlen := 1\<rparr>),
     vfresh := 3, efresh := 3\<rparr>"

lemma short_cut_fast: "fast short_cut e \<longleftrightarrow> e = 0 \<or> e = 1 \<or> e = 2"
  by (auto simp: short_cut_def zero_node_def blank_edge_def fast_def)

lemma short_cut_problem: "ranking_problem [0, 1, 2] 2 short_cut"
proof -
  have "fg_ok short_cut" unfolding fg_ok_def by (auto simp: short_cut_def zero_node_def blank_edge_def)
  moreover have "acyclic (frel short_cut)"
  proof (rule acyclic_subset [OF wf_acyclic [OF wf_less_than]])
    show "frel short_cut \<subseteq> less_than" unfolding frel_def short_cut_fast by (auto simp: short_cut_def blank_edge_def)
  qed
  moreover have "closed_on (set [0, 1, 2]) short_cut" "lengths_ok (set [0, 1, 2]) 2 short_cut"
    unfolding closed_on_def lengths_ok_def short_cut_fast by (auto simp: short_cut_def blank_edge_def)
  ultimately show ?thesis by (simp add: ranking_problem_def) (simp add: short_cut_def two_cycle_def zero_node_def)
qed


text \<open>The two passes together, as \<open>rank1\<close> of \<open>dotgen/rank.c\<close> runs them on every component.\<close>

lemma acyclic_then_rank_total:
  assumes "fg_ok s" and "weights_ok s" and "irrefl (joined s)" and "decomposed s NS" and "lens m s" and "0 \<le> m"
    and "length (concat NS) < j" and "length (concat NS) * (fast_count s + 2) < k" and "int (length (concat NS)) * m < 2 ^ 31"
  shows "\<exists>s'. dot_acyclic k j s = Some s' \<and> acyclic (frel s') \<and> frame s s' \<and>
    (\<forall>xs\<in>set NS. \<exists>c t. ns_start j (s'\<lparr>nlist := Some (hd xs)\<rparr>) = Some (c, t) \<and> N_nodes c = length xs \<and>
       (\<forall>u v l. demand s' u v l \<longrightarrow> u \<in> set xs \<longrightarrow> v \<in> set xs \<and> l \<le> \<bar>rank_of t v - rank_of t u\<bar>))"
proof -
  from dot_acyclic_total [OF assms(1-4,7,8)] obtain s' where
    s': "dot_acyclic k j s = Some s'" "acyclic (frel s')" "fg_ok s'" "keeps (set (concat NS)) s s'" by blast
  then have fr: "frame s s'" by (simp add: keeps_def)
  have "\<exists>c t. ns_start j (s'\<lparr>nlist := Some (hd xs)\<rparr>) = Some (c, t) \<and> N_nodes c = length xs \<and>
       (\<forall>u v l. demand s' u v l \<longrightarrow> u \<in> set xs \<longrightarrow> v \<in> set xs \<and> l \<le> \<bar>rank_of t v - rank_of t u\<bar>)"
    if x: "xs \<in> set NS" for xs
  proof -
    let ?s = "s'\<lparr>nlist := Some (hd xs)\<rparr>"
    have c: "component s xs" using assms(4) x by (simp add: decomposed_def)
    have f: "fast ?s = fast s'" "frel ?s = frel s'" "fg_ok ?s" "linked ?s xs = linked s' xs"
      using s'(3) linked_same [of ?s s' xs] by (simp_all add: fast_def fun_eq_iff frel_def fg_ok_def)
    have "linked s' xs = linked s xs" by (rule linked_same) (rule frameD(5) [OF fr])
    have cl: "(vtail s' e \<in> set xs) = (vhead s' e \<in> set xs)" if "fast s' e" for e
    proof -
      have "(vtail s' e, vhead s' e) \<in> joined s'" using that by (auto simp: frel_def)
      then have "(vtail s' e, vhead s' e) \<in> joined s" unfolding frameD(1) [OF fr] .
      from decomposed_joined(2) [OF assms(4) this x] show ?thesis .
    qed
    then have "closed_on (set xs) ?s" by (simp add: closed_on_def f)
    moreover have "lens m s'" using fr assms(5) by (simp add: frame_def)
    then have "lengths_ok (set xs) m ?s" by (simp add: lengths_ok_def lens_def f)
    moreover have len: "length xs \<le> length (concat NS)" using x by (auto dest!: split_list)
    then have "int (length xs) * m \<le> int (length (concat NS)) * m" using assms(6) by (intro mult_right_mono) simp_all
    then have "int (length xs) * m < 2 ^ 31" using assms(9) by linarith
    ultimately have p: "ranking_problem xs m ?s"
      using c s'(2) assms(6) f \<open>linked s' xs = linked s xs\<close> by (cases xs) (simp_all add: ranking_problem_def component_def)
    have "length xs < j" using len assms(7) by linarith
    from ns_start_total [OF p this] obtain c t where
      t: "ns_start j ?s = Some (c, t)" "N_nodes c = length xs" "feasible (set xs) t"
      "\<forall>e. fast t e = fast ?s e \<and> vtail t e = vtail ?s e \<and> vhead t e = vhead ?s e \<and> e_minlen (vedges t e) = e_minlen (vedges ?s e)"
      by blast
    have "v \<in> set xs \<and> l \<le> \<bar>rank_of t v - rank_of t u\<bar>" if dm: "demand s' u v l" "u \<in> set xs" for u v l
    proof -
      from dm(1) obtain g where g: "fast s' g" "{vtail s' g, vhead s' g} = {u, v}" "l \<le> e_minlen (vedges s' g)"
        by (auto simp: demand_def)
      have uv: "vtail s' g = u \<and> vhead s' g = v \<or> vtail s' g = v \<and> vhead s' g = u" using g(2) by (auto simp: doubleton_eq_iff)
      then have inx: "vtail s' g \<in> set xs" "v \<in> set xs" using cl [OF g(1)] dm(2) by auto
      have "0 \<le> SLACK t g" using t(3,4) g(1) inx(1) by (simp add: feasible_def f)
      then have "e_minlen (vedges s' g) \<le> rank_of t (vhead s' g) - rank_of t (vtail s' g)"
        using t(4) by (simp add: SLACK_def LENGTH_e_def)
      then show ?thesis using uv g(3) inx(2) by auto
    qed
    with t(1,2) show ?thesis by blast
  qed
  with s'(1,2) fr show ?thesis by blast
qed

end
