(* ===== verification/Ns_Balance.thy ===== *)
theory Ns_Balance
  imports Ns_Rank
begin

text \<open>
  The leaving edge of the network simplex, the normalization of the ranks, and \<open>TB_balance\<close>: it moves
  nodes to less crowded ranks and keeps the ranking feasible and its total length.
\<close>

section \<open>The leaving edge\<close>

abbreviation cutv :: "fgraph \<Rightarrow> nat \<Rightarrow> int" where
  "cutv s e \<equiv> e_cutvalue (vedges s e)"

definition negatives :: "fgraph \<Rightarrow> nat list \<Rightarrow> nat list" where
  "negatives s es = filter (\<lambda>e. cutv s e < 0) es"

text \<open>The best candidate so far among the edges seen.\<close>

definition best_of :: "fgraph \<Rightarrow> nat list \<Rightarrow> nat option \<Rightarrow> bool" where
  "best_of s seen r \<longleftrightarrow>
    (case r of None \<Rightarrow> negatives s seen = [] | Some e \<Rightarrow> e \<in> set (negatives s seen) \<and> (\<forall>f\<in>set (negatives s seen). cutv s e \<le> cutv s f))"

definition scan_ok :: "fgraph \<Rightarrow> int \<Rightarrow> nat list \<Rightarrow> nat list \<Rightarrow> nat
    \<Rightarrow> (nat \<times> nat option) + (nat \<times> int \<times> nat option) \<Rightarrow> bool" where
  "scan_ok s sz seen fs i x \<longleftrightarrow>
    (case x of
       Inl (j, r) \<Rightarrow> \<exists>gs hs. fs = gs @ hs \<and> hs \<noteq> [] \<and> j = i + length gs \<and> r \<noteq> None \<and> best_of s (seen @ gs @ [hd hs]) r \<and>
         sz \<le> int (length (negatives s (seen @ fs)))
     | Inr (j, c, r) \<Rightarrow> j = i + length fs \<and> c = int (length (negatives s (seen @ fs))) \<and> best_of s (seen @ fs) r)"

lemma scan_ok_shift: "scan_ok s sz (seen @ [f]) fs (Suc i) x \<Longrightarrow> scan_ok s sz seen (f # fs) i x"
proof (cases x)
  case (Inl p)
  obtain j r where p: "p = (j, r)" by force
  assume "scan_ok s sz (seen @ [f]) fs (Suc i) x"
  then obtain gs hs where "fs = gs @ hs" "hs \<noteq> []" "j = Suc i + length gs" "r \<noteq> None"
    "best_of s ((seen @ [f]) @ gs @ [hd hs]) r" "sz \<le> int (length (negatives s ((seen @ [f]) @ fs)))"
    unfolding Inl p scan_ok_def by auto
  then have "f # fs = (f # gs) @ hs \<and> hs \<noteq> [] \<and> j = i + length (f # gs) \<and> r \<noteq> None \<and>
      best_of s (seen @ (f # gs) @ [hd hs]) r \<and> sz \<le> int (length (negatives s (seen @ f # fs)))" by simp
  then show ?thesis unfolding Inl p scan_ok_def sum.case prod.case by blast
qed (auto simp: scan_ok_def)

lemma leave_scan_spec:
  assumes "best_of s seen rv" and "cnt = int (length (negatives s seen))"
  shows "scan_ok s sz seen fs i (leave_scan s sz fs i cnt rv)"
  using assms
proof (induction fs arbitrary: i cnt rv seen)
  case (Cons f fs)
  show ?case
  proof (cases "cutv s f < 0")
    case False
    have n: "negatives s ((seen @ [f]) @ xs) = negatives s (seen @ xs)" for xs using False by (simp add: negatives_def)
    have "best_of s (seen @ [f]) rv" "cnt = int (length (negatives s (seen @ [f])))"
      using Cons.prems n [of "[]"] by (simp_all add: best_of_def cong: option.case_cong)
    from scan_ok_shift [OF Cons.IH [where i = "Suc i", OF this]] False show ?thesis by simp
  next
    case True
    define rv1 where "rv1 = (case rv of Some r \<Rightarrow> if cutv s r > cutv s f then Some f else rv | None \<Rightarrow> Some f)"
    have n: "negatives s (seen @ [f]) = negatives s seen @ [f]" using True by (simp add: negatives_def)
    have b: "best_of s (seen @ [f]) rv1"
      using Cons.prems(1) True unfolding best_of_def n rv1_def by (auto split: option.splits)
    have c: "cnt + 1 = int (length (negatives s (seen @ [f])))" using Cons.prems(2) n by simp
    have sm: "rv1 \<noteq> None" by (simp add: rv1_def split: option.splits)
    show ?thesis
    proof (cases "cnt + 1 \<ge> sz")
      case stop: True
      have "length (negatives s (seen @ [f])) \<le> length (negatives s (seen @ f # fs))" by (simp add: negatives_def)
      then have le: "sz \<le> int (length (negatives s (seen @ f # fs)))" using stop c by linarith
      have ex: "\<exists>gs hs. f # fs = gs @ hs \<and> hs \<noteq> [] \<and> i = i + length gs \<and> rv1 \<noteq> None \<and> best_of s (seen @ gs @ [hd hs]) rv1 \<and>
          sz \<le> int (length (negatives s (seen @ f # fs)))"
        by (rule exI [of _ "[]"], rule exI [of _ "f # fs"]) (use b le sm in simp)
      have "leave_scan s sz (f # fs) i cnt rv = Inl (i, rv1)"
        using True stop by (simp add: rv1_def Let_def)
      then show ?thesis using ex by (simp add: scan_ok_def)
    next
      case False
      then have eq: "leave_scan s sz (f # fs) i cnt rv = leave_scan s sz fs (Suc i) (cnt + 1) rv1"
        using True by (simp add: rv1_def Let_def)
      show ?thesis unfolding eq by (rule scan_ok_shift [OF Cons.IH [OF b c]])
    qed
  qed
qed (simp add: scan_ok_def)

lemma best_of_mono: "best_of s es (Some e) \<Longrightarrow> set es \<subseteq> set fs \<Longrightarrow> e \<in> set fs \<and> cutv s e < 0"
  by (auto simp: best_of_def negatives_def)

lemma leave_edge_spec:
  assumes "S_i c \<le> length (Tree_edge c)"
  shows "case leave_edge s c of (rv, c') \<Rightarrow> Tree_edge c' = Tree_edge c \<and> S_i c' \<le> length (Tree_edge c) \<and>
    (rv = None \<longleftrightarrow> negatives s (Tree_edge c) = []) \<and>
    (\<forall>e. rv = Some e \<longrightarrow> e \<in> set (negatives s (Tree_edge c)) \<and>
      (int (length (negatives s (Tree_edge c))) < Search_size c \<longrightarrow> (\<forall>f\<in>set (negatives s (Tree_edge c)). cutv s e \<le> cutv s f)))"
proof -
  let ?T = "Tree_edge c" and ?j = "S_i c"
  have len: "length (negatives s (drop ?j ?T @ take ?j ?T)) = length (negatives s ?T)"
    "set (negatives s (drop ?j ?T @ take ?j ?T)) = set (negatives s ?T)"
  proof -
    have "negatives s ?T = negatives s (take ?j ?T) @ negatives s (drop ?j ?T)"
      unfolding negatives_def filter_append [symmetric] append_take_drop_id ..
    then show "length (negatives s (drop ?j ?T @ take ?j ?T)) = length (negatives s ?T)"
      "set (negatives s (drop ?j ?T @ take ?j ?T)) = set (negatives s ?T)" by (auto simp: negatives_def)
  qed
  have sub: "int (length (negatives s (drop ?j ?T))) \<le> int (length (negatives s ?T))"
    using len(1) by (simp add: negatives_def)
  have b0: "best_of s [] None" "0 = int (length (negatives s []))" by (simp_all add: best_of_def negatives_def)
  note one = leave_scan_spec [where sz = "Search_size c" and fs = "drop ?j ?T" and i = ?j, OF b0]
  have found: "e \<in> set (negatives s ?T)" if "best_of s es (Some e)" "set es \<subseteq> set ?T" for e es
    using that by (auto simp: best_of_def negatives_def)
  show ?thesis
  proof (cases "leave_scan s (Search_size c) (drop ?j ?T) ?j 0 None")
    case (Inl p)
    obtain i r where p: "p = (i, r)" by force
    from one [unfolded scan_ok_def] Inl p obtain gs hs where g: "drop ?j ?T = gs @ hs" "hs \<noteq> []" "i = ?j + length gs" "r \<noteq> None"
      "best_of s (gs @ [hd hs]) r" "Search_size c \<le> int (length (negatives s (drop ?j ?T)))" by auto
    have "length (drop ?j ?T) = length gs + length hs" using g(1) by simp
    then have "i \<le> length ?T" using g(2,3) assms by auto
    moreover have "set (gs @ [hd hs]) \<subseteq> set ?T"
      using g(1,2) set_drop_subset [of ?j ?T] by (cases hs) auto
    moreover obtain e where e: "r = Some e" using g(4) by auto
    ultimately have il: "i \<le> length ?T" and fe: "e \<in> set (negatives s ?T)" using found g(5) by simp_all
    have "leave_edge s c = (Some e, c\<lparr>S_i := i\<rparr>)" using Inl p e by (simp add: leave_edge_def Let_def)
    then show ?thesis using il fe g(6) sub by auto
  next
    case (Inr p)
    obtain i n r where p: "p = (i, n, r)" by (cases p) auto
    from one [unfolded scan_ok_def] Inr p have g: "i = ?j + length (drop ?j ?T)" "n = int (length (negatives s (drop ?j ?T)))"
      "best_of s (drop ?j ?T) r" by simp_all
    note two = leave_scan_spec [where sz = "Search_size c" and fs = "take ?j ?T" and i = 0, OF g(3,2)]
    have il: "i \<le> length ?T" using g(1) assms by simp
    show ?thesis
    proof (cases "?j > 0")
      case False
      then have eq: "drop ?j ?T = ?T" by simp
      have "leave_edge s c = (r, c\<lparr>S_i := i\<rparr>)" using Inr p False by (simp add: leave_edge_def Let_def)
      then show ?thesis using g(3) il unfolding eq by (auto simp: best_of_def split: option.splits)
    next
      case True
      show ?thesis
      proof (cases "leave_scan s (Search_size c) (take ?j ?T) 0 n r")
        case (Inl q)
        obtain i1 r1 where q: "q = (i1, r1)" by force
        from two [unfolded scan_ok_def] Inl q obtain gs hs where h: "take ?j ?T = gs @ hs" "hs \<noteq> []" "i1 = length gs" "r1 \<noteq> None"
          "best_of s (drop ?j ?T @ gs @ [hd hs]) r1"
          "Search_size c \<le> int (length (negatives s (drop ?j ?T @ take ?j ?T)))" by auto
        have "length (take ?j ?T) = length gs + length hs" using h(1) by simp
        then have "i1 \<le> length ?T" using h(3) by simp
        moreover have "set (drop ?j ?T @ gs @ [hd hs]) \<subseteq> set ?T"
          using h(1,2) set_drop_subset [of ?j ?T] set_take_subset [of ?j ?T] by (cases hs) auto
        moreover obtain e where e: "r1 = Some e" using h(4) by auto
        ultimately have il: "i1 \<le> length ?T" and fe: "e \<in> set (negatives s ?T)" using found h(5) by simp_all
        have "leave_edge s c = (Some e, c\<lparr>S_i := i1\<rparr>)"
          using Inr p True Inl q e by (simp add: leave_edge_def Let_def)
        then show ?thesis using il fe h(6) len by auto
      next
        case inr: (Inr q)
        obtain i1 n1 r1 where q: "q = (i1, n1, r1)" by (cases q) auto
        from two [unfolded scan_ok_def] inr q have h: "i1 = length (take ?j ?T)" "best_of s (drop ?j ?T @ take ?j ?T) r1" by simp_all
        have "leave_edge s c = (r1, c\<lparr>S_i := i1\<rparr>)"
          using Inr p True inr q by (simp add: leave_edge_def Let_def)
        then show ?thesis using h len by (auto simp: best_of_def split: option.splits)
      qed
    qed
  qed
qed

text \<open>
  \<open>leave_edge\<close>, searching on from where it stopped and wrapping around, finds nothing exactly when no
  tree edge has a negative cut value, so that the loop of \<open>rank2\<close> stops only then; otherwise it gives
  a tree edge of negative cut value, of the least one when fewer than \<open>Search_size\<close> are negative. The
  place where it stopped stays within the list.
\<close>

lemma leave_edge_correct:
  assumes "S_i c \<le> length (Tree_edge c)" and "leave_edge s c = (rv, c')"
  shows "Tree_edge c' = Tree_edge c \<and> S_i c' \<le> length (Tree_edge c) \<and>
    (rv = None \<longleftrightarrow> (\<forall>e\<in>set (Tree_edge c). 0 \<le> cutv s e)) \<and>
    (\<forall>e. rv = Some e \<longrightarrow> e \<in> set (Tree_edge c) \<and> cutv s e < 0 \<and>
      (int (length (filter (\<lambda>f. cutv s f < 0) (Tree_edge c))) < Search_size c \<longrightarrow> (\<forall>f\<in>set (Tree_edge c). cutv s e \<le> cutv s f)))"
proof -
  note sp = leave_edge_spec [OF assms(1), of s, unfolded assms(2) prod.case]
  have n: "negatives s es = [] \<longleftrightarrow> (\<forall>e\<in>set es. 0 \<le> cutv s e)" for es by (auto simp: negatives_def filter_empty_conv)
  have m: "e \<in> set (negatives s es) \<longleftrightarrow> e \<in> set es \<and> cutv s e < 0" for e es by (auto simp: negatives_def)
  have eq: "(\<forall>f\<in>set (negatives s es). cutv s e \<le> cutv s f) \<longleftrightarrow> (\<forall>f\<in>set es. cutv s e \<le> cutv s f)" if "cutv s e < 0" for e es
    using that unfolding m Ball_def by (metis (mono_tags) linorder_le_less_linear order.trans order_less_imp_le)
  have l: "filter (\<lambda>f. cutv s f < 0) es = negatives s es" for es by (simp add: negatives_def)
  have "e \<in> set (Tree_edge c) \<and> cutv s e < 0 \<and>
      (int (length (negatives s (Tree_edge c))) < Search_size c \<longrightarrow> (\<forall>f\<in>set (Tree_edge c). cutv s e \<le> cutv s f))"
    if "rv = Some e" for e
    using sp that m eq by blast
  with sp show ?thesis unfolding l n by blast
qed

section \<open>The length of a ranking\<close>

text \<open>What the network simplex minimizes.\<close>

definition total_length :: "nat set \<Rightarrow> fgraph \<Rightarrow> int" where
  "total_length V s = (\<Sum>e | fast s e \<and> vtail s e \<in> V. e_weight (vedges s e) * LENGTH_e s e)"

text \<open>A state in which only ranks (and the scratch fields of nodes) differ.\<close>

definition reranked :: "fgraph \<Rightarrow> fgraph \<Rightarrow> bool" where
  "reranked s s' \<longleftrightarrow> vedges s' = vedges s \<and> efresh s' = efresh s \<and>
     (\<forall>n. outs s' n = outs s n \<and> ins s' n = ins s n \<and> v_type (vnodes s' n) = v_type (vnodes s n))"

lemma reranked_refl [simp]: "reranked s s"
  by (simp add: reranked_def)

lemma reranked_trans: "reranked s s1 \<Longrightarrow> reranked s1 s2 \<Longrightarrow> reranked s s2"
  by (simp add: reranked_def)

lemma rerankedD:
  assumes "reranked s s'"
  shows "fast s' = fast s" and "fg_ok s' = fg_ok s" and "closed_on V s' = closed_on V s" and "frel s' = frel s"
    and "vedges s' = vedges s" and "outs s' n = outs s n" and "ins s' n = ins s n" and "v_type (vnodes s' n) = v_type (vnodes s n)"
proof -
  show f: "fast s' = fast s" using assms by (simp add: reranked_def fast_def fun_eq_iff)
  show "fg_ok s' = fg_ok s" "closed_on V s' = closed_on V s" "frel s' = frel s"
    using assms f by (simp_all add: reranked_def fg_ok_def closed_on_def frel_def)
qed (use assms in \<open>simp_all add: reranked_def\<close>)

abbreviation in_weight :: "fgraph \<Rightarrow> nat \<Rightarrow> int" where
  "in_weight s n \<equiv> (\<Sum>e\<leftarrow>ins s n. e_weight (vedges s e))"

abbreviation out_weight :: "fgraph \<Rightarrow> nat \<Rightarrow> int" where
  "out_weight s n \<equiv> (\<Sum>e\<leftarrow>outs s n. e_weight (vedges s e))"

text \<open>Moving one node changes the total length by the difference of its weights.\<close>

lemma move_length:
  assumes ok: "fg_ok s" and cl: "closed_on V s" and n: "n \<in> V" and r: "reranked s s'"
    and rk: "\<And>m. rank_of s' m = (if m = n then rank_of s n + d else rank_of s m)"
  shows "total_length V s' = total_length V s + d * (in_weight s n - out_weight s n)"
proof -
  let ?E = "{e. fast s e \<and> vtail s e \<in> V}" and ?w = "\<lambda>e. e_weight (vedges s e)"
  have fin: "finite ?E" by (rule finite_subset [OF _ fast_finite [OF ok]]) auto
  have L: "?w e * LENGTH_e s' e = ?w e * LENGTH_e s e + d * (if vhead s e = n then ?w e else 0) - d * (if vtail s e = n then ?w e else 0)" for e
    unfolding LENGTH_e_def rk rerankedD(5) [OF r] by (auto simp: algebra_simps)
  have "total_length V s' = (\<Sum>e\<in>?E. ?w e * LENGTH_e s' e)" by (simp add: total_length_def rerankedD [OF r])
  also have "\<dots> = total_length V s + d * (\<Sum>e\<in>?E. if vhead s e = n then ?w e else 0) - d * (\<Sum>e\<in>?E. if vtail s e = n then ?w e else 0)"
    unfolding L by (simp add: sum.distrib sum_subtractf sum_distrib_left total_length_def)
  also have "(\<Sum>e\<in>?E. if vhead s e = n then ?w e else 0) = (\<Sum>e\<in>set (ins s n). ?w e)"
  proof (rule sum.mono_neutral_cong_right [OF fin])
    show "set (ins s n) \<subseteq> ?E" using ins_iff [OF ok] cl n by (auto simp: closed_on_def)
  qed (use ins_iff [OF ok] in auto)
  also have "(\<Sum>e\<in>?E. if vtail s e = n then ?w e else 0) = (\<Sum>e\<in>set (outs s n). ?w e)"
  proof (rule sum.mono_neutral_cong_right [OF fin])
    show "set (outs s n) \<subseteq> ?E" using fast_iff [OF ok] n by auto
  qed (use fast_iff [OF ok] in auto)
  finally show ?thesis
    using fg_okD(1,2) [OF ok] by (simp add: sum_list_distinct_conv_sum_set algebra_simps)
qed

text \<open>The bounds that \<open>TB_balance\<close> computes for a node.\<close>

definition low_of :: "fgraph \<Rightarrow> nat \<Rightarrow> int" where
  "low_of s n = fold (\<lambda>e l. max l (rank_of s (vtail s e) + e_minlen (vedges s e))) (ins s n) 0"

definition high_of :: "int \<Rightarrow> fgraph \<Rightarrow> nat \<Rightarrow> int" where
  "high_of m s n = fold (\<lambda>e h. min h (rank_of s (vhead s e) - e_minlen (vedges s e))) (outs s n) m"

lemma fold_max_le: "fold (\<lambda>e l. max l (f e)) es a \<le> (b :: int) \<longleftrightarrow> a \<le> b \<and> (\<forall>e\<in>set es. f e \<le> b)"
  by (induction es arbitrary: a) auto

lemma fold_min_ge: "(b :: int) \<le> fold (\<lambda>e l. min l (f e)) es a \<longleftrightarrow> b \<le> a \<and> (\<forall>e\<in>set es. b \<le> f e)"
  by (induction es arbitrary: a) auto

lemma bounds_of:
  "low_of s n \<le> b \<longleftrightarrow> 0 \<le> b \<and> (\<forall>e\<in>set (ins s n). rank_of s (vtail s e) + e_minlen (vedges s e) \<le> b)"
  "b \<le> high_of m s n \<longleftrightarrow> b \<le> m \<and> (\<forall>e\<in>set (outs s n). b \<le> rank_of s (vhead s e) - e_minlen (vedges s e))"
  by (simp_all add: low_of_def high_of_def fold_max_le fold_min_ge)

lemma move_feasible:
  assumes ok: "fg_ok s" and f: "feasible V s" and ir: "irrefl (frel s)" and r: "reranked s s'"
    and rk: "\<And>m. rank_of s' m = (if m = n then b else rank_of s m)"
    and b: "low_of s n \<le> b" "b \<le> high_of m s n"
  shows "feasible V s'"
  unfolding feasible_def rerankedD [OF r]
proof (intro allI impI)
  fix e assume e: "fast s e" "vtail s e \<in> V"
  have ne: "vtail s e \<noteq> vhead s e" using ir e(1) by (auto simp: irrefl_def frel_def)
  have old: "0 \<le> SLACK s e" using f e by (simp add: feasible_def)
  have hd: "rank_of s (vtail s e) + e_minlen (vedges s e) \<le> b" if "vhead s e = n"
    using b(1) that e(1) ins_iff [OF ok, of e n] unfolding bounds_of by blast
  have tl: "b \<le> rank_of s (vhead s e) - e_minlen (vedges s e)" if "vtail s e = n"
    using b(2) that e(1) fast_iff [OF ok, of e n] unfolding bounds_of by blast
  show "0 \<le> SLACK s' e"
    using ne old hd tl unfolding SLACK_def LENGTH_e_def rk rerankedD(5) [OF r] by auto
qed

section \<open>Normalization\<close>

lemma scan_fold:
  assumes "v \<in> set ns" and "v_type (vnodes s v) = NORMAL"
    and "\<forall>n\<in>set ns. INT_MIN \<le> rank_of s n \<and> rank_of s n \<le> INT_MAX"
  shows "case fold (\<lambda>n (lo, hi). if v_type (vnodes s n) = NORMAL
      then (min lo (rank_of s n), max hi (rank_of s n)) else (lo, hi)) ns (INT_MAX, INT_MIN) of
    (lo, hi) \<Rightarrow> (\<forall>n\<in>set ns. v_type (vnodes s n) = NORMAL \<longrightarrow> lo \<le> rank_of s n \<and> rank_of s n \<le> hi) \<and>
      (\<exists>n\<in>set ns. v_type (vnodes s n) = NORMAL \<and> rank_of s n = lo) \<and>
      (\<exists>n\<in>set ns. v_type (vnodes s n) = NORMAL \<and> rank_of s n = hi)"
proof -
  let ?f = "\<lambda>n (lo, hi). if v_type (vnodes s n) = NORMAL then (min lo (rank_of s n), max hi (rank_of s n)) else (lo, hi)"
  have bd: "case fold ?f ns (lo, hi) of (lo', hi') \<Rightarrow> lo' \<le> lo \<and> hi \<le> hi' \<and>
      (\<forall>n\<in>set ns. v_type (vnodes s n) = NORMAL \<longrightarrow> lo' \<le> rank_of s n \<and> rank_of s n \<le> hi') \<and>
      (lo' = lo \<or> (\<exists>n\<in>set ns. v_type (vnodes s n) = NORMAL \<and> rank_of s n = lo')) \<and>
      (hi' = hi \<or> (\<exists>n\<in>set ns. v_type (vnodes s n) = NORMAL \<and> rank_of s n = hi'))" for ns lo hi
  proof (induction ns arbitrary: lo hi)
    case (Cons n ns)
    show ?case
    proof (cases "v_type (vnodes s n) = NORMAL")
      case True
      from Cons.IH [of "min lo (rank_of s n)" "max hi (rank_of s n)"] True show ?thesis
        by (auto split: prod.splits simp: min_def max_def split: if_splits)
    next
      case False
      from Cons.IH [of lo hi] False show ?thesis by (auto split: prod.splits)
    qed
  qed simp
  obtain lo hi where lh: "fold ?f ns (INT_MAX, INT_MIN) = (lo, hi)" by force
  have all: "\<forall>n\<in>set ns. v_type (vnodes s n) = NORMAL \<longrightarrow> lo \<le> rank_of s n \<and> rank_of s n \<le> hi"
    and ends: "lo \<le> INT_MAX" "INT_MIN \<le> hi" "lo = INT_MAX \<or> (\<exists>n\<in>set ns. v_type (vnodes s n) = NORMAL \<and> rank_of s n = lo)"
      "hi = INT_MIN \<or> (\<exists>n\<in>set ns. v_type (vnodes s n) = NORMAL \<and> rank_of s n = hi)"
    using bd [where ns = ns and lo = INT_MAX and hi = INT_MIN] unfolding lh by auto
  have "lo \<le> rank_of s v" "rank_of s v \<le> hi" "INT_MIN \<le> rank_of s v" "rank_of s v \<le> INT_MAX"
    using all assms by auto
  then have "lo = INT_MAX \<Longrightarrow> rank_of s v = lo" "hi = INT_MIN \<Longrightarrow> rank_of s v = hi" by auto
  then show ?thesis unfolding lh prod.case using all ends(3,4) assms(1,2) by blast
qed

lemma shift_fold:
  "distinct ns \<Longrightarrow> reranked s (fold (\<lambda>n. upd_v n (\<lambda>x. x\<lparr>v_rank := v_rank x - c\<rparr>)) ns s) \<and>
    (\<forall>m. rank_of (fold (\<lambda>n. upd_v n (\<lambda>x. x\<lparr>v_rank := v_rank x - c\<rparr>)) ns s) m = (if m \<in> set ns then rank_of s m - c else rank_of s m))"
proof (induction ns arbitrary: s)
  case (Cons n ns)
  let ?s = "upd_v n (\<lambda>x. x\<lparr>v_rank := v_rank x - c\<rparr>) s"
  have "reranked s ?s" by (simp add: reranked_def)
  with Cons.IH [of ?s] Cons.prems reranked_trans [of s ?s] show ?case by auto
qed simp

lemma normalize_spec:
  assumes v: "v \<in> set ns" "v_type (vnodes s v) = NORMAL" and d: "distinct ns"
    and b: "\<forall>n\<in>set ns. INT_MIN \<le> rank_of s n \<and> rank_of s n \<le> INT_MAX"
  shows "\<exists>c m s'. scan_and_normalize ns s = (m, s') \<and> reranked s s' \<and> 0 \<le> m \<and>
    (\<forall>n. rank_of s' n = (if n \<in> set ns then rank_of s n - c else rank_of s n)) \<and>
    (\<forall>n\<in>set ns. v_type (vnodes s' n) = NORMAL \<longrightarrow> 0 \<le> rank_of s' n \<and> rank_of s' n \<le> m) \<and>
    (\<exists>n\<in>set ns. v_type (vnodes s' n) = NORMAL \<and> rank_of s' n = 0) \<and> (\<exists>n\<in>set ns. v_type (vnodes s' n) = NORMAL \<and> rank_of s' n = m)"
proof -
  obtain lo hi where lh: "fold (\<lambda>n (lo, hi). if v_type (vnodes s n) = NORMAL
      then (min lo (rank_of s n), max hi (rank_of s n)) else (lo, hi)) ns (INT_MAX, INT_MIN) = (lo, hi)" by force
  note sc = scan_fold [OF v b, unfolded lh prod.case]
  define s' where "s' = fold (\<lambda>n. upd_v n (\<lambda>x. x\<lparr>v_rank := v_rank x - lo\<rparr>)) ns s"
  note sh = shift_fold [OF d, of s lo, folded s'_def]
  have "scan_and_normalize ns s = (hi - lo, s')" by (simp add: scan_and_normalize_def lh s'_def)
  moreover have "lo \<le> hi" using sc v by force
  ultimately show ?thesis using sh sc rerankedD(8) [of s s']
    by (intro exI [of _ lo] exI [of _ "hi - lo"] exI [of _ s']) auto
qed

lemma shift_feasible:
  assumes cl: "closed_on V s" and r: "reranked s s'" and rk: "\<And>n. rank_of s' n = (if n \<in> V then rank_of s n - c else rank_of s n)"
  shows "feasible V s' = feasible V s" and "total_length V s' = total_length V s"
proof -
  have L: "LENGTH_e s' e = LENGTH_e s e" if "fast s e" "vtail s e \<in> V" for e
    using cl that unfolding LENGTH_e_def rk rerankedD(5) [OF r] by (simp add: closed_on_def)
  show "feasible V s' = feasible V s" unfolding feasible_def SLACK_def rerankedD [OF r] using L by auto
  show "total_length V s' = total_length V s" unfolding total_length_def rerankedD [OF r] using L by (auto intro: sum.cong)
qed

section \<open>Balancing\<close>

text \<open>The state of the balancing of the nodes \<open>V\<close> with the ranks \<open>0, ..., m\<close>.\<close>

definition tb_ok :: "nat set \<Rightarrow> int \<Rightarrow> fgraph \<Rightarrow> bool" where
  "tb_ok V m s \<longleftrightarrow> fg_ok s \<and> closed_on V s \<and> irrefl (frel s) \<and> feasible V s \<and>
     (\<forall>n\<in>V. v_type (vnodes s n) = NORMAL \<longrightarrow> 0 \<le> rank_of s n \<and> rank_of s n \<le> m)"

lemma tb_move:
  assumes ok: "tb_ok V m s" and n: "n \<in> V" and r: "reranked s s'"
    and rk: "\<And>u. rank_of s' u = (if u = n then b else rank_of s u)"
    and b: "low_of s n \<le> b" "b \<le> high_of m s n"
  shows "tb_ok V m s'"
    and "in_weight s n = out_weight s n \<Longrightarrow> total_length V s' = total_length V s"
proof -
  have f: "feasible V s'" by (rule move_feasible [OF _ _ _ r rk b]) (use ok in \<open>simp_all add: tb_ok_def\<close>)
  have "0 \<le> b" "b \<le> m" using b unfolding bounds_of by auto
  then show "tb_ok V m s'" using ok f rk by (auto simp: tb_ok_def rerankedD [OF r])
  have "\<And>u. rank_of s' u = (if u = n then rank_of s n + (b - rank_of s n) else rank_of s u)" using rk by simp
  from move_length [OF _ _ n r this] ok
  show "in_weight s n = out_weight s n \<Longrightarrow> total_length V s' = total_length V s" by (simp add: tb_ok_def)
qed

lemma tb_between:
  assumes ok: "tb_ok V m s" and n: "n \<in> V" "v_type (vnodes s n) = NORMAL"
  shows "low_of s n \<le> rank_of s n" and "rank_of s n \<le> high_of m s n"
proof -
  have fg: "fg_ok s" and cl: "closed_on V s" and f: "feasible V s" using ok by (simp_all add: tb_ok_def)
  have sl: "rank_of s (vtail s e) + e_minlen (vedges s e) \<le> rank_of s (vhead s e)" if "fast s e" "vtail s e \<in> V" for e
    using f that by (auto simp: feasible_def SLACK_def LENGTH_e_def)
  have "rank_of s (vtail s e) + e_minlen (vedges s e) \<le> rank_of s n" if "e \<in> set (ins s n)" for e
    using sl [of e] that ins_iff [OF fg] cl n(1) by (auto simp: closed_on_def)
  then show "low_of s n \<le> rank_of s n" unfolding bounds_of using ok n by (simp add: tb_ok_def)
  have "rank_of s n \<le> rank_of s (vhead s e) - e_minlen (vedges s e)" if "e \<in> set (outs s n)" for e
    using sl [of e] that fast_iff [OF fg] n(1) by auto
  then show "rank_of s n \<le> high_of m s n" unfolding bounds_of using ok n by (simp add: tb_ok_def)
qed

lemma pick_rank_range: "pick_rank k i a c = c \<or> (i \<le> pick_rank k i a c \<and> pick_rank k i a c < i + int k)"
proof (induction k arbitrary: i c)
  case (Suc k)
  define c' where "c' = (if a ! nat i < a ! nat c then i else c)"
  have "pick_rank (Suc k) i a c = pick_rank k (i + 1) a c'" by (simp add: c'_def)
  moreover have "c' = i \<or> c' = c" by (simp add: c'_def)
  ultimately show ?case using Suc.IH [of "i + 1" c'] by auto
qed simp

lemma bump_spec: "0 \<le> i \<Longrightarrow> i < int (length a) \<Longrightarrow> \<exists>a'. bump d i a = Some a' \<and> length a' = length a"
  by (simp add: bump_def)

lemma tb_node_spec:
  assumes ok: "tb_ok V m s" and n: "n \<in> V" and a: "int (length a) = m + 1"
  shows "\<exists>a' s'. tb_node adj m n (Some (a, s)) = Some (a', s') \<and> tb_ok V m s' \<and> reranked s s' \<and>
    int (length a') = m + 1 \<and> total_length V s' = total_length V s"
proof (cases "v_type (vnodes s n) = NORMAL")
  case False
  then show ?thesis using ok a by (simp add: tb_node_def)
next
  case True
  note bt = tb_between [OF ok n True]
  define clean where "clean = upd_v n (\<lambda>x. x\<lparr>v_tree_in := [], v_tree_out := [], v_mark := 0\<rparr>)"
  define move where "move b = clean (upd_v n (\<lambda>x. x\<lparr>v_rank := b\<rparr>) s)" for b
  have mv: "reranked s (move b)" "rank_of (move b) u = (if u = n then b else rank_of s u)" for b u
    by (simp_all add: move_def clean_def reranked_def)
  have cl: "reranked s (clean s)" "rank_of (clean s) u = rank_of s u" for u by (simp_all add: clean_def reranked_def)
  have still: "tb_ok V m (clean s) \<and> total_length V (clean s) = total_length V s"
    using ok cl(2) shift_feasible [OF _ cl(1), of V 0] by (simp add: tb_ok_def rerankedD [OF cl(1)])
  have low0: "0 \<le> low_of s n" using bounds_of(1) [of s n "low_of s n"] by simp
  then have low': "\<not> low_of s n < 0" by simp
  note low = low' [unfolded low_of_def]
  have "high_of m s n \<le> m" using bounds_of(2) [of "high_of m s n" m s n] by simp
  then have idx: "\<not> (low_of s n < high_of m s n \<and> high_of m s n \<ge> int (length a))" using a by simp
  have moved: "tb_ok V m (move b) \<and> total_length V (move b) = total_length V s"
    if "low_of s n \<le> b" "b \<le> high_of m s n" "in_weight s n = out_weight s n" for b
    using tb_move [OF ok n mv(1) mv(2) that(1,2)] that(3) by simp
  show ?thesis
  proof (cases "in_weight s n = out_weight s n")
    case False
    have "tb_node adj m n (Some (a, s)) = Some (a, clean s)"
      using True False by (simp add: tb_node_def Let_def clean_def)
    then show ?thesis using still cl(1) a by simp
  next
    case eq: True
    show ?thesis
    proof (cases "adj \<noteq> 0")
      case adj: True
      define b where "b = (if adj = 1 then low_of s n else high_of m s n)"
      have b: "low_of s n \<le> b" "b \<le> high_of m s n" using bt by (simp_all add: b_def)
      have "tb_node adj m n (Some (a, s)) = Some (a, move b)"
        using True eq adj low by (simp add: tb_node_def Let_def move_def clean_def b_def low_of_def high_of_def)
      then show ?thesis using moved [OF b eq] mv(1) a by simp
    next
      case False
      define b where "b = pick_rank (nat (high_of m s n - low_of s n)) (low_of s n + 1) a (low_of s n)"
      have "low_of s n \<le> high_of m s n" using bt by simp
      then have b: "low_of s n \<le> b" "b \<le> high_of m s n"
        using pick_rank_range [of "nat (high_of m s n - low_of s n)" "low_of s n + 1" a "low_of s n"] by (auto simp: b_def)
      have "0 \<le> rank_of s n \<and> rank_of s n \<le> m" using ok n True by (simp add: tb_ok_def)
      then obtain a1 where a1: "bump (-1) (rank_of s n) a = Some a1" "length a1 = length a"
        using bump_spec [of "rank_of s n" a "-1"] a by auto
      have "0 \<le> b" "b \<le> m" using b low0 \<open>high_of m s n \<le> m\<close> by simp_all
      then obtain a2 where a2: "bump 1 b a1 = Some a2" "length a2 = length a1"
        using bump_spec [of b a1 1] a a1(2) by auto
      have "tb_node adj m n (Some (a, s)) =
          (case bump (-1) (rank_of s n) a of None \<Rightarrow> None
           | Some a1 \<Rightarrow> map_option (\<lambda>a2. (a2, move b)) (bump 1 b a1))"
        using True eq False low' idx
        by (simp only: tb_node_def Let_def low_of_def [symmetric] high_of_def [symmetric] b_def [symmetric] clean_def [symmetric]
            move_def [symmetric] option.case prod.case if_False if_True simp_thms)
      then have "tb_node adj m n (Some (a, s)) = Some (a2, move b)" using a1(1) a2(1) by simp
      then show ?thesis using moved [OF b eq] mv(1) a a1(2) a2(2) by simp
    qed
  qed
qed

lemma tb_nodes_spec:
  "set ns \<subseteq> V \<Longrightarrow> tb_ok V m s \<Longrightarrow> int (length a) = m + 1 \<Longrightarrow>
    \<exists>a' s'. fold (tb_node adj m) ns (Some (a, s)) = Some (a', s') \<and> tb_ok V m s' \<and> reranked s s' \<and>
      total_length V s' = total_length V s"
proof (induction ns arbitrary: a s)
  case (Cons n ns)
  from tb_node_spec [OF Cons.prems(2) _ Cons.prems(3), of n adj] Cons.prems(1) obtain a1 s1 where
    s1: "tb_node adj m n (Some (a, s)) = Some (a1, s1)" "tb_ok V m s1" "reranked s s1" "int (length a1) = m + 1"
    "total_length V s1 = total_length V s" by auto
  from Cons.IH [OF _ s1(2,4)] Cons.prems(1) obtain a' s' where
    "fold (tb_node adj m) ns (Some (a1, s1)) = Some (a', s')" "tb_ok V m s'" "reranked s1 s'"
    "total_length V s' = total_length V s1" by auto
  with s1 reranked_trans [OF s1(3)] show ?case by simp
qed simp

lemma tb_extreme_spec:
  "set ns \<subseteq> V \<Longrightarrow> tb_ok V m s \<Longrightarrow> tb_ok V m (fold (tb_extreme adj m) ns s) \<and> reranked s (fold (tb_extreme adj m) ns s)"
proof (induction ns arbitrary: s)
  case (Cons n ns)
  have n: "n \<in> V" using Cons.prems(1) by simp
  have st: "tb_ok V m (tb_extreme adj m n s) \<and> reranked s (tb_extreme adj m n s)"
  proof (cases "v_type (vnodes s n) = NORMAL")
    case True
    note bt = tb_between [OF Cons.prems(2) n True]
    let ?mv = "\<lambda>b. upd_v n (\<lambda>x. x\<lparr>v_rank := b\<rparr>) s"
    have mv: "reranked s (?mv b)" "rank_of (?mv b) u = (if u = n then b else rank_of s u)" for b u
      by (simp_all add: reranked_def)
    have rm: "0 \<le> rank_of s n" "rank_of s n \<le> m" using Cons.prems(2) n True by (simp_all add: tb_ok_def)
    show ?thesis
    proof (cases "ins s n = [] \<and> adj = 1")
      case i: True
      have "low_of s n \<le> 0" using i by (simp add: low_of_def)
      moreover have "0 \<le> high_of m s n" using bt rm by simp
      ultimately have "tb_ok V m (?mv 0)" using tb_move(1) [OF Cons.prems(2) n mv(1) mv(2)] by blast
      moreover have "tb_extreme adj m n s = ?mv 0" using True i by (simp add: tb_extreme_def Let_def)
      ultimately show ?thesis using mv(1) by simp
    next
      case False
      show ?thesis
      proof (cases "outs s n = [] \<and> adj = 2")
        case o: True
        have "m \<le> high_of m s n" using o by (simp add: high_of_def)
        moreover have "low_of s n \<le> m" using bt rm by simp
        ultimately have "tb_ok V m (?mv m)" using tb_move(1) [OF Cons.prems(2) n mv(1) mv(2)] by blast
        moreover have "tb_extreme adj m n s = ?mv m" using True o by (simp add: tb_extreme_def Let_def)
        ultimately show ?thesis using mv(1) by simp
      next
        case no: False
        have "tb_extreme adj m n s = s" using True False no by (auto simp: tb_extreme_def Let_def)
        then show ?thesis using Cons.prems(2) by simp
      qed
    qed
  qed (use Cons.prems(2) in \<open>simp add: tb_extreme_def\<close>)
  from Cons.IH [of "tb_extreme adj m n s"] st Cons.prems(1) reranked_trans [of s "tb_extreme adj m n s"]
  show ?case by simp
qed simp

lemma count_ranks_spec:
  "set ns \<subseteq> V \<Longrightarrow> tb_ok V m s \<Longrightarrow> int (length a) = m + 1 \<Longrightarrow>
    \<exists>a'. fold (count_rank s) ns (Some a) = Some a' \<and> int (length a') = m + 1"
proof (induction ns arbitrary: a)
  case (Cons n ns)
  have "\<exists>a1. count_rank s n (Some a) = Some a1 \<and> int (length a1) = m + 1"
  proof (cases "v_type (vnodes s n) = NORMAL")
    case True
    then have "0 \<le> rank_of s n \<and> rank_of s n < int (length a)" using Cons.prems by (simp add: tb_ok_def)
    with bump_spec [of "rank_of s n" a 1] True Cons.prems(3) show ?thesis by (auto simp: count_rank_def)
  qed (use Cons.prems(3) in \<open>simp add: count_rank_def\<close>)
  then obtain a1 where "count_rank s n (Some a) = Some a1" "int (length a1) = m + 1" by blast
  with Cons.IH [of a1] Cons.prems show ?case by simp
qed simp


text \<open>A graph whose middle node has room: the edge past it is longer.\<close>

definition roomy :: fgraph where
  "roomy = short_cut\<lparr>
     vnodes := (\<lambda>_. blank_node)(0 := blank_node\<lparr>v_next := Some 1, v_out := [0, 2], v_rank := 4\<rparr>,
                              1 := blank_node\<lparr>v_next := Some 2, v_out := [1], v_in := [0], v_rank := 5\<rparr>,
                              2 := blank_node\<lparr>v_in := [1, 2], v_rank := 7\<rparr>),
     vedges := (\<lambda>_. blank_edge 0 0)(0 := (blank_edge 0 1)\<lparr>e_weight := 1, e_minlen := 1\<rparr>,
                                  1 := (blank_edge 1 2)\<lparr>e_weight := 1, e_minlen := 1\<rparr>,
                                  2 := (blank_edge 0 2)\<lparr>e_weight := 1, e_minlen := 3\<rparr>)\<rparr>"

lemma roomy_fast: "fast roomy e \<longleftrightarrow> e = 0 \<or> e = 1 \<or> e = 2"
  by (auto simp: roomy_def zero_node_def blank_edge_def fast_def)

lemma roomy_ok: "fg_ok roomy" "closed_on (set [0, 1, 2]) roomy" "irrefl (frel roomy)" "feasible (set [0, 1, 2]) roomy"
proof -
  show "fg_ok roomy" unfolding fg_ok_def by (auto simp: roomy_def short_cut_def zero_node_def blank_edge_def)
  show "closed_on (set [0, 1, 2]) roomy" unfolding closed_on_def roomy_fast by (auto simp: roomy_def blank_edge_def)
  show "irrefl (frel roomy)" unfolding frel_def roomy_fast by (auto simp: irrefl_def roomy_def blank_edge_def)
  show "feasible (set [0, 1, 2]) roomy" unfolding feasible_def roomy_fast
    by (auto simp: roomy_def blank_edge_def zero_node_def SLACK_def LENGTH_e_def)
qed

definition insertion_sort :: "(nat \<Rightarrow> nat \<Rightarrow> int) \<Rightarrow> nat list \<Rightarrow> nat list" where
  "insertion_sort c xs = foldr (\<lambda>x ys. takeWhile (\<lambda>y. c y x < 0) ys @ x # dropWhile (\<lambda>y. c y x < 0) ys) xs []"

lemma insertion_sort_set: "set (insertion_sort c xs) = set xs"
proof (induction xs)
  case (Cons x xs)
  have "set (takeWhile P ys) \<union> set (dropWhile P ys) = set ys" for P and ys :: "nat list"
    by (metis set_append takeWhile_dropWhile_id)
  with Cons show ?case by (simp add: insertion_sort_def)
qed (simp add: insertion_sort_def)


end
