(* ===== verification/Ns_Cut.thy ===== *)
theory Ns_Cut
  imports Ns_Tree Ns_Balance
begin

text \<open>
  The numbering of the network simplex: on a spanning tree \<open>dfs_range_init\<close> gives a postorder, whose
  intervals are the subtrees; and what a cut value is to be.
\<close>

section \<open>Rooted trees\<close>

text \<open>A node and its children, each with the edge to it.\<close>

datatype gtree = GT (groot: nat) (gkids: "(nat \<times> gtree) list")

fun gnodes :: "gtree \<Rightarrow> nat list" where
  "gnodes (GT v cs) = concat (map (\<lambda>p. gnodes (snd p)) cs) @ [v]"

abbreviation knodes :: "(nat \<times> gtree) list \<Rightarrow> nat list" where
  "knodes cs \<equiv> concat (map (\<lambda>p. gnodes (snd p)) cs)"

abbreviation kedges :: "nat option \<Rightarrow> nat list \<Rightarrow> nat list" where
  "kedges par L \<equiv> filter (\<lambda>e. Some e \<noteq> par) L"

text \<open>The tree edges of the state, seen from the root, whose parent is over the edge \<open>par\<close>.\<close>

fun is_tree :: "fgraph \<Rightarrow> nat option \<Rightarrow> gtree \<Rightarrow> bool" where
  "is_tree s par (GT v cs) \<longleftrightarrow>
     map (\<lambda>p. (fst p, groot (snd p))) cs =
       map (\<lambda>e. (e, vhead s e)) (kedges par (touts s v)) @ map (\<lambda>e. (e, vtail s e)) (kedges par (tins s v)) \<and>
     (\<forall>p\<in>set cs. is_tree s (Some (fst p)) (snd p))"

text \<open>The postorder numbers from \<open>l\<close> on, with the parents of the children.\<close>

lemma size_kid: "size_prod (\<lambda>_. 0) size = (\<lambda>p. Suc (size (snd p)))"
  by (simp add: fun_eq_iff size_prod_simp)

function (sequential) numbered :: "fgraph \<Rightarrow> int \<Rightarrow> gtree \<Rightarrow> bool"
  and numbered_kids :: "fgraph \<Rightarrow> int \<Rightarrow> (nat \<times> gtree) list \<Rightarrow> bool" where
  "numbered s l (GT v cs) \<longleftrightarrow> v_low (vnodes s v) = l \<and> v_lim (vnodes s v) = l + int (length (knodes cs)) \<and> numbered_kids s l cs"
| "numbered_kids s l [] \<longleftrightarrow> True"
| "numbered_kids s l (p # cs) \<longleftrightarrow> numbered s l (snd p) \<and> v_par (vnodes s (groot (snd p))) = Some (fst p) \<and>
     numbered_kids s (l + int (length (gnodes (snd p)))) cs"
  by pat_completeness auto
termination
  by (relation "measure (\<lambda>x. case x of Inl (s, l, t) \<Rightarrow> 2 * size t | Inr (s, l, cs) \<Rightarrow> Suc (2 * size_list (size_prod (\<lambda>_. 0) size) cs))")
    (auto simp: size_kid)

section \<open>The numbering\<close>

text \<open>A state that differs in the numbers of the nodes of \<open>A\<close> only.\<close>

definition renum :: "nat set \<Rightarrow> fgraph \<Rightarrow> fgraph \<Rightarrow> bool" where
  "renum A s s' \<longleftrightarrow> s' = s\<lparr>vnodes := vnodes s'\<rparr> \<and>
     (\<forall>n. (n \<notin> A \<longrightarrow> vnodes s' n = vnodes s n) \<and> (\<exists>p l m. vnodes s' n = (vnodes s n)\<lparr>v_par := p, v_low := l, v_lim := m\<rparr>))"

lemma vnode_refl: "\<exists>p l m. x = x\<lparr>v_par := p, v_low := l, v_lim := m\<rparr>"
  by (rule exI [of _ "v_par x"], rule exI [of _ "v_low x"], rule exI [of _ "v_lim x"]) simp

lemma renum_refl [simp]: "renum A s s"
  by (simp add: renum_def vnode_refl)

lemma renum_trans:
  assumes "renum A s s1" and "renum B s1 s2"
  shows "renum (A \<union> B) s s2"
  unfolding renum_def
proof (intro conjI allI impI)
  show "s2 = s\<lparr>vnodes := vnodes s2\<rparr>" using assms by (cases s; cases s1; cases s2) (simp add: renum_def)
  fix n
  show "n \<notin> A \<union> B \<Longrightarrow> vnodes s2 n = vnodes s n" using assms by (simp add: renum_def)
  obtain p l m where 1: "vnodes s1 n = (vnodes s n)\<lparr>v_par := p, v_low := l, v_lim := m\<rparr>" using assms(1) unfolding renum_def by blast
  obtain p' l' m' where "vnodes s2 n = (vnodes s1 n)\<lparr>v_par := p', v_low := l', v_lim := m'\<rparr>" using assms(2) unfolding renum_def by blast
  then have "vnodes s2 n = (vnodes s n)\<lparr>v_par := p', v_low := l', v_lim := m'\<rparr>" unfolding 1 by simp
  then show "\<exists>p l m. vnodes s2 n = (vnodes s n)\<lparr>v_par := p, v_low := l, v_lim := m\<rparr>" by blast
qed

lemma renum_upd:
  assumes "n \<in> A"
  shows "renum A s (upd_v n (\<lambda>x. x\<lparr>v_par := p, v_low := l\<rparr>) s)" and "renum A s (upd_v n (\<lambda>x. x\<lparr>v_lim := m\<rparr>) s)"
proof -
  have "(vnodes s n)\<lparr>v_par := p, v_low := l\<rparr> = (vnodes s n)\<lparr>v_par := p, v_low := l, v_lim := v_lim (vnodes s n)\<rparr>" by simp
  then have "\<exists>p' l' m'. (vnodes s n)\<lparr>v_par := p, v_low := l\<rparr> = (vnodes s n)\<lparr>v_par := p', v_low := l', v_lim := m'\<rparr>" by blast
  then show "renum A s (upd_v n (\<lambda>x. x\<lparr>v_par := p, v_low := l\<rparr>) s)"
    using assms by (auto simp: renum_def upd_v_def vnode_refl)
  have "(vnodes s n)\<lparr>v_lim := m\<rparr> = (vnodes s n)\<lparr>v_par := v_par (vnodes s n), v_low := v_low (vnodes s n), v_lim := m\<rparr>" by simp
  then have "\<exists>p' l' m'. (vnodes s n)\<lparr>v_lim := m\<rparr> = (vnodes s n)\<lparr>v_par := p', v_low := l', v_lim := m'\<rparr>" by blast
  then show "renum A s (upd_v n (\<lambda>x. x\<lparr>v_lim := m\<rparr>) s)"
    using assms by (auto simp: renum_def upd_v_def vnode_refl)
qed

lemma renumD:
  assumes "renum A s s'"
  shows "vedges s' = vedges s" and "nlist s' = nlist s" and "efresh s' = efresh s" and "comp s' = comp s"
    and "touts s' n = touts s n" and "tins s' n = tins s n" and "outs s' n = outs s n" and "ins s' n = ins s n"
    and "rank_of s' n = rank_of s n" and "n \<notin> A \<Longrightarrow> vnodes s' n = vnodes s n"
proof -
  have 1: "s' = s\<lparr>vnodes := vnodes s'\<rparr>" using assms by (simp add: renum_def)
  show "vedges s' = vedges s" by (subst 1) simp
  show "nlist s' = nlist s" by (subst 1) simp
  show "efresh s' = efresh s" by (subst 1) simp
  show "comp s' = comp s" by (subst 1) simp
  obtain p l m where 2: "vnodes s' n = (vnodes s n)\<lparr>v_par := p, v_low := l, v_lim := m\<rparr>" using assms unfolding renum_def by blast
  show "touts s' n = touts s n" "tins s' n = tins s n" "outs s' n = outs s n" "ins s' n = ins s n" "rank_of s' n = rank_of s n"
    by (simp_all add: 2)
  show "n \<notin> A \<Longrightarrow> vnodes s' n = vnodes s n" using assms by (simp add: renum_def)
qed

lemma next_edge_spec:
  "i \<le> length L \<Longrightarrow> case kedges par (drop i L) of
      [] \<Rightarrow> next_edge par (drop i L) i = (length L, None)
    | e # es \<Rightarrow> \<exists>i'. i' \<le> length L \<and> next_edge par (drop i L) i = (i', Some e) \<and> kedges par (drop i' L) = es"
proof (induction "length L - i" arbitrary: i)
  case 0
  then show ?case by simp
next
  case (Suc k)
  then have d: "drop i L = L ! i # drop (Suc i) L" by (simp add: Cons_nth_drop_Suc)
  show ?case
  proof (cases "Some (L ! i) = par")
    case True
    from Suc have "k = length L - Suc i" "Suc i \<le> length L" by simp_all
    note IH = Suc.hyps(1) [OF this]
    have "next_edge par (drop i L) i = next_edge par (drop (Suc i) L) (Suc i)" "kedges par (drop i L) = kedges par (drop (Suc i) L)"
      unfolding d using True by simp_all
    with IH show ?thesis by (simp only:)
  next
    case False
    then show ?thesis unfolding d using Suc by auto
  qed
qed


lemma is_tree_same:
  assumes "\<And>n. touts s' n = touts s n" and "\<And>n. tins s' n = tins s n" and "\<And>e. vtail s' e = vtail s e" and "\<And>e. vhead s' e = vhead s e"
  shows "is_tree s' par t = is_tree s par t"
  by (induction t arbitrary: par) (auto simp: assms)

lemma gtree_induct:
  assumes "\<And>v cs. (\<And>p. p \<in> set cs \<Longrightarrow> P (snd p)) \<Longrightarrow> P (GT v cs)"
  shows "P t"
proof (induction t)
  case (GT v cs)
  then show ?case using assms [of cs v] by (metis prod.collapse snds.intros)
qed

lemma numbered_same:
  "(\<forall>n\<in>set (gnodes t). v_low (vnodes s' n) = v_low (vnodes s n) \<and> v_lim (vnodes s' n) = v_lim (vnodes s n) \<and>
     (n \<noteq> groot t \<longrightarrow> v_par (vnodes s' n) = v_par (vnodes s n))) \<Longrightarrow> distinct (gnodes t) \<Longrightarrow> numbered s' l t = numbered s l t"
  "(\<forall>n\<in>set (knodes cs). v_low (vnodes s' n) = v_low (vnodes s n) \<and> v_lim (vnodes s' n) = v_lim (vnodes s n) \<and>
     v_par (vnodes s' n) = v_par (vnodes s n)) \<Longrightarrow> distinct (knodes cs) \<Longrightarrow> numbered_kids s' l cs = numbered_kids s l cs"
proof (induction s l t and s l cs rule: numbered_numbered_kids.induct)
  case (1 s l v cs)
  have "\<forall>n\<in>set (knodes cs). v_low (vnodes s' n) = v_low (vnodes s n) \<and> v_lim (vnodes s' n) = v_lim (vnodes s n) \<and>
     v_par (vnodes s' n) = v_par (vnodes s n)"
  proof
    fix n assume n: "n \<in> set (knodes cs)"
    then have "n \<in> set (gnodes (GT v cs))" "n \<noteq> groot (GT v cs)" using 1(3) by auto
    with 1(2) show "v_low (vnodes s' n) = v_low (vnodes s n) \<and> v_lim (vnodes s' n) = v_lim (vnodes s n) \<and>
     v_par (vnodes s' n) = v_par (vnodes s n)" by blast
  qed
  moreover have "distinct (knodes cs)" using 1(3) by simp
  moreover note 1(1)
  ultimately show ?case using 1(2) by simp
next
  case (3 s l p cs)
  have "groot (snd p) \<in> set (gnodes (snd p))" by (cases "snd p") simp
  with 3 show ?case by simp
qed simp


text \<open>
  The children that still have the edge to them as their parent and a positive low number are numbered
  from there on, as the incremental \<open>dfs_range\<close> takes for granted.
\<close>

fun sane :: "fgraph \<Rightarrow> gtree \<Rightarrow> bool" where
  "sane s (GT v cs) \<longleftrightarrow>
     (\<forall>p\<in>set cs. (v_par (vnodes s (groot (snd p))) = Some (fst p) \<and> 1 \<le> v_low (vnodes s (groot (snd p))) \<longrightarrow>
        numbered s (v_low (vnodes s (groot (snd p)))) (snd p)) \<and> sane s (snd p))"

lemma sane_same:
  "(\<forall>n\<in>set (gnodes t). v_low (vnodes s' n) = v_low (vnodes s n) \<and> v_lim (vnodes s' n) = v_lim (vnodes s n) \<and>
     v_par (vnodes s' n) = v_par (vnodes s n) \<or> n = groot t) \<Longrightarrow> distinct (gnodes t) \<Longrightarrow> sane s' t = sane s t"
proof (induction t rule: gtree_induct)
  case (1 v cs)
  have kid: "numbered s' l (snd p) = numbered s l (snd p)" "sane s' (snd p) = sane s (snd p)"
    "v_low (vnodes s' (groot (snd p))) = v_low (vnodes s (groot (snd p)))"
    "v_par (vnodes s' (groot (snd p))) = v_par (vnodes s (groot (snd p)))" if p: "p \<in> set cs" for p l
  proof -
    have same: "v_low (vnodes s' n) = v_low (vnodes s n) \<and> v_lim (vnodes s' n) = v_lim (vnodes s n) \<and>
        v_par (vnodes s' n) = v_par (vnodes s n)" if n: "n \<in> set (gnodes (snd p))" for n
    proof -
      have "n \<in> set (gnodes (GT v cs))" "n \<noteq> groot (GT v cs)" using n p 1(3) by auto
      then show ?thesis using 1(2) by blast
    qed
    have d: "distinct (gnodes (snd p))" using 1(3) p by (auto simp: distinct_concat_iff)
    show "numbered s' l (snd p) = numbered s l (snd p)" by (rule numbered_same(1) [OF _ d]) (use same in blast)
    show "sane s' (snd p) = sane s (snd p)" by (rule 1(1) [OF p _ d]) (use same in blast)
    have "groot (snd p) \<in> set (gnodes (snd p))" by (cases "snd p") simp
    from same [OF this] show "v_low (vnodes s' (groot (snd p))) = v_low (vnodes s (groot (snd p)))"
      "v_par (vnodes s' (groot (snd p))) = v_par (vnodes s (groot (snd p)))" by blast+
  qed
  then show ?case by simp
qed

lemma renum_mono: "renum A s s' \<Longrightarrow> A \<subseteq> B \<Longrightarrow> renum B s s'"
  unfolding renum_def by blast

lemma is_tree_renum: "renum A s s' \<Longrightarrow> is_tree s' par t = is_tree s par t"
  by (rule is_tree_same) (simp_all add: renumD)

lemma groot_in [simp]: "groot t \<in> set (gnodes t)"
  by (cases t) simp

text \<open>The frame of \<open>v\<close> with the children \<open>cs\<close> still to come.\<close>

definition frame_at :: "fgraph \<Rightarrow> nat \<Rightarrow> nat option \<Rightarrow> int \<Rightarrow> (nat \<times> gtree) list \<Rightarrow> dfs_state \<Rightarrow> bool" where
  "frame_at s v par l cs d \<longleftrightarrow> d_v d = v \<and> d_par d = par \<and> d_lim d = l \<and>
     d_out_i d \<le> length (touts s v) \<and> d_in_i d \<le> length (tins s v) \<and>
     map (\<lambda>p. (fst p, groot (snd p))) cs =
       map (\<lambda>e. (e, vhead s e)) (kedges par (drop (d_out_i d) (touts s v))) @ map (\<lambda>e. (e, vtail s e)) (kedges par (drop (d_in_i d) (tins s v)))"

lemma frame_last:
  assumes "frame_at s v par l [] d"
  shows "range_loop incr (d # rest) m s = range_loop incr (raise_lim (l + 1) rest) l (upd_v v (\<lambda>x. x\<lparr>v_lim := l\<rparr>) s)"
proof -
  have "kedges par (drop (d_out_i d) (touts s v)) = []" "kedges par (drop (d_in_i d) (tins s v)) = []"
    using assms by (simp_all add: frame_at_def)
  then have n: "next_edge par (drop (d_out_i d) (touts s v)) (d_out_i d) = (length (touts s v), None)"
    "next_edge par (drop (d_in_i d) (tins s v)) (d_in_i d) = (length (tins s v), None)"
    using next_edge_spec [of "d_out_i d" "touts s v" par] next_edge_spec [of "d_in_i d" "tins s v" par] assms
    by (simp_all add: frame_at_def)
  have d: "d_v d = v" "d_par d = par" "d_lim d = l" using assms by (simp_all add: frame_at_def)
  show ?thesis by (subst range_loop.simps) (simp only: list.case d n prod.case option.case)
qed

lemma frame_next:
  assumes "frame_at s v par l ((e, t) # cs) d"
  shows "\<exists>d'. frame_at s v par l cs d' \<and>
    range_loop incr (d # rest) m s = (let (ds, s1) = enter_child incr (groot t) e d' s in range_loop incr (ds @ rest) m s1)"
proof -
  have d: "d_v d = v" "d_par d = par" "d_lim d = l" "d_out_i d \<le> length (touts s v)" "d_in_i d \<le> length (tins s v)"
    using assms by (simp_all add: frame_at_def)
  have m: "(e, groot t) # map (\<lambda>p. (fst p, groot (snd p))) cs =
      map (\<lambda>e. (e, vhead s e)) (kedges par (drop (d_out_i d) (touts s v))) @ map (\<lambda>e. (e, vtail s e)) (kedges par (drop (d_in_i d) (tins s v)))"
    using assms by (simp add: frame_at_def)
  show ?thesis
  proof (cases "kedges par (drop (d_out_i d) (touts s v))")
    case (Cons a es)
    from next_edge_spec [OF d(4), of par] obtain i where
      i: "i \<le> length (touts s v)" "next_edge par (drop (d_out_i d) (touts s v)) (d_out_i d) = (i, Some a)" "kedges par (drop i (touts s v)) = es"
      unfolding Cons by auto
    have a: "a = e" "vhead s e = groot t" using m Cons by simp_all
    have "range_loop incr (d # rest) m s =
      (let (ds, s1) = enter_child incr (groot t) e (d\<lparr>d_out_i := i\<rparr>) s in range_loop incr (ds @ rest) m s1)"
      by (subst range_loop.simps) (simp add: d i(2) a)
    moreover have "frame_at s v par l cs (d\<lparr>d_out_i := i\<rparr>)" using d i m Cons by (simp add: frame_at_def)
    ultimately show ?thesis by blast
  next
    case Nil
    then have n: "next_edge par (drop (d_out_i d) (touts s v)) (d_out_i d) = (length (touts s v), None)"
      using next_edge_spec [OF d(4), of par] by simp
    from m Nil obtain a es where ins: "kedges par (drop (d_in_i d) (tins s v)) = a # es" by (cases "kedges par (drop (d_in_i d) (tins s v))") auto
    from next_edge_spec [OF d(5), of par] obtain j where
      j: "j \<le> length (tins s v)" "next_edge par (drop (d_in_i d) (tins s v)) (d_in_i d) = (j, Some a)" "kedges par (drop j (tins s v)) = es"
      unfolding ins by auto
    have a: "a = e" "vtail s e = groot t" using m Nil ins by simp_all
    let ?d = "d\<lparr>d_out_i := length (touts s v), d_in_i := j\<rparr>"
    have "range_loop incr (d # rest) m s =
      (let (ds, s1) = enter_child incr (groot t) e ?d s in range_loop incr (ds @ rest) m s1)"
      by (subst range_loop.simps) (simp add: d n j(2) a)
    moreover have "frame_at s v par l cs ?d" using d j m Nil ins by (simp add: frame_at_def)
    ultimately show ?thesis by blast
  qed
qed

lemma frame_at_renum: "renum A s s' \<Longrightarrow> frame_at s' v par l cs d = frame_at s v par l cs d"
  by (simp add: frame_at_def renumD)

text \<open>The rest of the children, given that the loop numbers each of them.\<close>

text \<open>That the loop numbers a tree from \<open>l\<close> on and goes on with the frames below.\<close>

definition numbers :: "bool \<Rightarrow> gtree \<Rightarrow> bool" where
  "numbers incr t \<longleftrightarrow> (\<forall>s par l rest m. is_tree s par t \<longrightarrow> distinct (gnodes t) \<longrightarrow> v_low (vnodes s (groot t)) = l \<longrightarrow>
     (incr \<longrightarrow> 1 \<le> l \<and> sane s t) \<longrightarrow>
     (\<exists>s'. range_loop incr (new_frame (groot t) par l # rest) m s =
         range_loop incr (raise_lim (l + int (length (gnodes t))) rest) (l + int (length (gnodes t)) - 1) s' \<and>
       numbered s' l t \<and> renum (set (gnodes t)) s s' \<and> v_par (vnodes s' (groot t)) = v_par (vnodes s (groot t))))"

lemma numbersD:
  assumes "numbers incr t" and "is_tree s par t" and "distinct (gnodes t)" and "v_low (vnodes s (groot t)) = l"
    and "incr \<longrightarrow> 1 \<le> l \<and> sane s t"
  shows "\<exists>s'. range_loop incr (new_frame (groot t) par l # rest) m s =
         range_loop incr (raise_lim (l + int (length (gnodes t))) rest) (l + int (length (gnodes t)) - 1) s' \<and>
       numbered s' l t \<and> renum (set (gnodes t)) s s' \<and> v_par (vnodes s' (groot t)) = v_par (vnodes s (groot t))"
  using assms unfolding numbers_def by blast

lemma number_kid:
  assumes IH: "numbers incr t" and fr: "frame_at s v par l ((e, t) # cs) d" and t: "is_tree s (Some e) t" "distinct (gnodes t)"
    and sn: "incr \<longrightarrow> 1 \<le> l \<and> sane s (GT v ((e, t) # cs))"
  shows "\<exists>d' m' s'. range_loop incr (d # rest) m s = range_loop incr (d'\<lparr>d_lim := l + int (length (gnodes t))\<rparr> # rest) m' s' \<and>
    frame_at s v par l cs d' \<and> numbered s' l t \<and> renum (set (gnodes t)) s s' \<and> v_par (vnodes s' (groot t)) = Some e"
proof -
  from frame_next [OF fr] obtain d' where
    d': "frame_at s v par l cs d'"
      "range_loop incr (d # rest) m s = (let (ds, s1) = enter_child incr (groot t) e d' s in range_loop incr (ds @ rest) m s1)" by blast
  have dl: "d_lim d' = l" using d'(1) by (simp add: frame_at_def)
  show ?thesis
  proof (cases "incr \<and> v_par (vnodes s (groot t)) = Some e \<and> v_low (vnodes s (groot t)) = l")
    case True
    then have num: "numbered s l t" using sn by auto
    then have lim: "v_lim (vnodes s (groot t)) = l + int (length (gnodes t)) - 1" by (cases t) simp
    have "range_loop incr (d # rest) m s = range_loop incr (d'\<lparr>d_lim := l + int (length (gnodes t))\<rparr> # rest) m s"
      using d'(2) True lim by (simp add: enter_child_def dl)
    with d'(1) num True show ?thesis by (intro exI [of _ d'] exI [of _ m] exI [of _ s]) simp
  next
    case False
    let ?s1 = "upd_v (groot t) (\<lambda>x. x\<lparr>v_par := Some e, v_low := l\<rparr>) s"
    have step: "range_loop incr (d # rest) m s = range_loop incr (new_frame (groot t) (Some e) l # d' # rest) m ?s1"
      using d'(2) False by (simp add: enter_child_def dl)
    have r1: "renum (set (gnodes t)) s ?s1" by (rule renum_upd) simp
    have "incr \<longrightarrow> 1 \<le> l \<and> sane ?s1 t"
    proof -
      have "sane ?s1 t = sane s t" by (rule sane_same [OF _ t(2)]) (simp add: upd_v_def)
      then show ?thesis using sn by simp
    qed
    moreover have "is_tree ?s1 (Some e) t" using t(1) is_tree_renum [OF r1] by simp
    moreover have "v_low (vnodes ?s1 (groot t)) = l" by (simp add: upd_v_def)
    ultimately obtain s2 where s2: "range_loop incr (new_frame (groot t) (Some e) l # d' # rest) m ?s1 =
        range_loop incr (raise_lim (l + int (length (gnodes t))) (d' # rest)) (l + int (length (gnodes t)) - 1) s2"
      "numbered s2 l t" "renum (set (gnodes t)) ?s1 s2" "v_par (vnodes s2 (groot t)) = v_par (vnodes ?s1 (groot t))"
      using numbersD [OF IH _ t(2), of ?s1 "Some e" l "d' # rest" m] by blast
    have "renum (set (gnodes t)) s s2" using renum_trans [OF r1 s2(3)] by simp
    with s2 step d'(1) show ?thesis
      by (intro exI [of _ d'] exI [of _ "l + int (length (gnodes t)) - 1"] exI [of _ s2]) (simp add: raise_lim_def upd_v_def)
  qed
qed

lemma number_kids:
  assumes IH: "\<And>p. p \<in> set cs \<Longrightarrow> numbers incr (snd p)"
  shows "frame_at s v par l cs d \<Longrightarrow> \<forall>p\<in>set cs. is_tree s (Some (fst p)) (snd p) \<Longrightarrow> distinct (knodes cs @ [v]) \<Longrightarrow>
    (incr \<longrightarrow> 1 \<le> l \<and> sane s (GT v cs)) \<Longrightarrow>
    \<exists>s'. range_loop incr (d # rest) m s =
        range_loop incr (raise_lim (l + int (length (knodes cs)) + 1) rest) (l + int (length (knodes cs))) s' \<and>
      numbered_kids s' l cs \<and> v_lim (vnodes s' v) = l + int (length (knodes cs)) \<and> renum (insert v (set (knodes cs))) s s' \<and>
      v_par (vnodes s' v) = v_par (vnodes s v) \<and> v_low (vnodes s' v) = v_low (vnodes s v)"
  using IH
proof (induction cs arbitrary: l d m s)
  case Nil
  have "renum {v} s (upd_v v (\<lambda>x. x\<lparr>v_lim := l\<rparr>) s)" by (rule renum_upd) simp
  with frame_last [OF Nil.prems(1)] show ?case by (intro exI [of _ "upd_v v (\<lambda>x. x\<lparr>v_lim := l\<rparr>) s"]) simp
next
  case (Cons p cs)
  obtain e t where p: "p = (e, t)" by force
  let ?n = "int (length (gnodes t))"
  have dt: "distinct (gnodes t)" and disj: "set (gnodes t) \<inter> set (knodes cs) = {}" "v \<notin> set (gnodes t)" and dk: "distinct (knodes cs @ [v])"
    using Cons.prems(3) p by auto
  have it: "is_tree s (Some e) t" using Cons.prems(2) p by simp
  have nt: "numbers incr t" using Cons.prems(5) [of p] p by simp
  from number_kid [OF nt Cons.prems(1) [unfolded p] it dt Cons.prems(4) [unfolded p], of rest m] obtain d' m' s2 where
    s2: "range_loop incr (d # rest) m s = range_loop incr (d'\<lparr>d_lim := l + ?n\<rparr> # rest) m' s2"
      "frame_at s v par l cs d'" "numbered s2 l t" and r2: "renum (set (gnodes t)) s s2" and par2: "v_par (vnodes s2 (groot t)) = Some e"
    by blast
  have "frame_at s2 v par (l + ?n) cs (d'\<lparr>d_lim := l + ?n\<rparr>)" using s2(2) unfolding frame_at_renum [OF r2] by (simp add: frame_at_def)
  moreover have "\<forall>p\<in>set cs. is_tree s2 (Some (fst p)) (snd p)" using Cons.prems(2) is_tree_renum [OF r2] by simp
  moreover note dk
  moreover have "incr \<longrightarrow> 1 \<le> l + ?n \<and> sane s2 (GT v cs)"
  proof
    assume incr
    then have "1 \<le> l" "sane s (GT v cs)" using Cons.prems(4) by auto
    moreover have "sane s2 (GT v cs) = sane s (GT v cs)"
    proof (rule sane_same)
      show "\<forall>n\<in>set (gnodes (GT v cs)). v_low (vnodes s2 n) = v_low (vnodes s n) \<and> v_lim (vnodes s2 n) = v_lim (vnodes s n) \<and>
          v_par (vnodes s2 n) = v_par (vnodes s n) \<or> n = groot (GT v cs)"
      proof
        fix n assume "n \<in> set (gnodes (GT v cs))"
        then have "n \<notin> set (gnodes t)" using disj by auto
        from renumD(10) [OF r2 this] show "v_low (vnodes s2 n) = v_low (vnodes s n) \<and> v_lim (vnodes s2 n) = v_lim (vnodes s n) \<and>
          v_par (vnodes s2 n) = v_par (vnodes s n) \<or> n = groot (GT v cs)" by simp
      qed
    qed (use dk in simp)
    ultimately show "1 \<le> l + ?n \<and> sane s2 (GT v cs)" by simp
  qed
  moreover have "\<And>p. p \<in> set cs \<Longrightarrow> numbers incr (snd p)" using Cons.prems(5) by simp
  ultimately obtain s' where
    s': "range_loop incr (d'\<lparr>d_lim := l + ?n\<rparr> # rest) m' s2 =
        range_loop incr (raise_lim (l + ?n + int (length (knodes cs)) + 1) rest) (l + ?n + int (length (knodes cs))) s'"
      "numbered_kids s' (l + ?n) cs" "v_lim (vnodes s' v) = l + ?n + int (length (knodes cs))" "renum (insert v (set (knodes cs))) s2 s'"
      "v_par (vnodes s' v) = v_par (vnodes s2 v)" "v_low (vnodes s' v) = v_low (vnodes s2 v)"
    using Cons.IH [where l = "l + ?n" and d = "d'\<lparr>d_lim := l + ?n\<rparr>" and m = m' and s = s2] by blast
  have same: "vnodes s' n = vnodes s2 n" if "n \<in> set (gnodes t)" for n
    using that renumD(10) [OF s'(4), of n] disj by auto
  have "numbered s' l t" using numbered_same(1) [of t s' s2 l] same s2(3) dt by simp
  moreover have "v_par (vnodes s' (groot t)) = Some e" using same par2 by simp
  ultimately have "numbered_kids s' l (p # cs)" using s'(2) by (simp add: p)
  moreover have "renum (insert v (set (knodes (p # cs)))) s s'"
    by (rule renum_mono [OF renum_trans [OF r2 s'(4)]]) (auto simp: p)
  moreover have "v_par (vnodes s' v) = v_par (vnodes s v)" "v_low (vnodes s' v) = v_low (vnodes s v)"
    using s'(5,6) renumD(10) [OF r2 disj(2)] by simp_all
  moreover have "range_loop incr (d # rest) m s =
      range_loop incr (raise_lim (l + int (length (knodes (p # cs))) + 1) rest) (l + int (length (knodes (p # cs)))) s'"
    using s2(1) s'(1) by (simp add: p algebra_simps)
  ultimately show ?case using s'(3) by (intro exI [of _ s']) (simp add: p algebra_simps)
qed

lemma number_tree: "numbers incr t"
proof (induction t rule: gtree_induct)
  case (1 v cs)
  show ?case unfolding numbers_def
  proof (intro allI impI)
    fix s par l rest m
    assume t: "is_tree s par (GT v cs)" "distinct (gnodes (GT v cs))" "v_low (vnodes s (groot (GT v cs))) = l" "incr \<longrightarrow> 1 \<le> l \<and> sane s (GT v cs)"
    have "frame_at s v par l cs (new_frame v par l)" using t(1) by (simp add: frame_at_def new_frame_def)
    moreover have "\<forall>p\<in>set cs. is_tree s (Some (fst p)) (snd p)" using t(1) by simp
    moreover have "distinct (knodes cs @ [v])" using t(2) by simp
    ultimately obtain s' where
      "range_loop incr (new_frame v par l # rest) m s =
          range_loop incr (raise_lim (l + int (length (knodes cs)) + 1) rest) (l + int (length (knodes cs))) s'"
      "numbered_kids s' l cs" "v_lim (vnodes s' v) = l + int (length (knodes cs))" "renum (insert v (set (knodes cs))) s s'"
      "v_par (vnodes s' v) = v_par (vnodes s v)" "v_low (vnodes s' v) = v_low (vnodes s v)"
      using number_kids [OF "1.IH", of cs s v par l "new_frame v par l" rest m] t(4) by blast
    with t(3) show "\<exists>s'. range_loop incr (new_frame (groot (GT v cs)) par l # rest) m s =
         range_loop incr (raise_lim (l + int (length (gnodes (GT v cs)))) rest) (l + int (length (gnodes (GT v cs))) - 1) s' \<and>
       numbered s' l (GT v cs) \<and> renum (set (gnodes (GT v cs))) s s' \<and>
       v_par (vnodes s' (groot (GT v cs))) = v_par (vnodes s (groot (GT v cs)))"
      by (intro exI [of _ s']) (simp add: algebra_simps)
  qed
qed

lemma number_root:
  assumes t: "is_tree s par t" "distinct (gnodes t)" and sn: "incr \<longrightarrow> 1 \<le> l \<and> sane s t"
  shows "\<exists>s'. range_loop incr [new_frame (groot t) par l] 0 (upd_v (groot t) (\<lambda>x. x\<lparr>v_par := par, v_low := l\<rparr>) s) =
      Some (l + int (length (gnodes t)) - 1, s') \<and> numbered s' l t \<and>
    renum (set (gnodes t)) s s' \<and> v_par (vnodes s' (groot t)) = par"
proof -
  let ?s = "upd_v (groot t) (\<lambda>x. x\<lparr>v_par := par, v_low := l\<rparr>) s"
  have r: "renum (set (gnodes t)) s ?s" by (rule renum_upd) simp
  have it: "is_tree ?s par t" using t(1) is_tree_renum [OF r] by simp
  have "sane ?s t = sane s t" by (rule sane_same [OF _ t(2)]) (simp add: upd_v_def)
  with sn have "incr \<longrightarrow> 1 \<le> l \<and> sane ?s t" by simp
  moreover have "v_low (vnodes ?s (groot t)) = l" by (simp add: upd_v_def)
  ultimately obtain s' where
    s': "range_loop incr [new_frame (groot t) par l] 0 ?s = range_loop incr (raise_lim (l + int (length (gnodes t))) []) (l + int (length (gnodes t)) - 1) s'"
    "numbered s' l t" "renum (set (gnodes t)) ?s s'" "v_par (vnodes s' (groot t)) = v_par (vnodes ?s (groot t))"
    using numbersD [OF number_tree it t(2), of l incr "[]" 0] by blast
  have "range_loop incr [new_frame (groot t) par l] 0 ?s = Some (l + int (length (gnodes t)) - 1, s')"
    unfolding s'(1) by (subst range_loop.simps) (simp add: raise_lim_def)
  moreover have "v_par (vnodes ?s (groot t)) = par" by (simp add: upd_v_def)
  ultimately show ?thesis using s'(2-4) renum_trans [OF r s'(3)] by (metis Un_absorb)
qed

lemma dfs_range_init_spec:
  assumes t: "is_tree s None t" "distinct (gnodes t)"
  shows "\<exists>s'. dfs_range_init (groot t) s = Some (int (length (gnodes t)) + 1, s') \<and> numbered s' 1 t \<and>
    renum (set (gnodes t)) s s' \<and> v_par (vnodes s' (groot t)) = None"
  using number_root [OF t, of False 1] by (auto simp: dfs_range_init_def)

text \<open>The incremental numbering, from a node whose own numbers are not up to date.\<close>

lemma dfs_range_spec:
  assumes t: "is_tree s par t" "distinct (gnodes t)" "sane s t" and l: "1 \<le> l" "v_low (vnodes s (groot t)) \<noteq> l"
  shows "\<exists>s'. dfs_range (groot t) par l s = Some (l + int (length (gnodes t)), s') \<and> numbered s' l t \<and>
    renum (set (gnodes t)) s s' \<and> v_par (vnodes s' (groot t)) = par"
  using number_root [OF t(1,2), of True l] t(3) l by (auto simp: dfs_range_def)

section \<open>Intervals\<close>

lemma numbered_lims:
  "numbered s l t \<Longrightarrow> map (\<lambda>u. v_lim (vnodes s u)) (gnodes t) = map (\<lambda>i. l + int i) [0..<length (gnodes t)]"
  "numbered_kids s l cs \<Longrightarrow> map (\<lambda>u. v_lim (vnodes s u)) (knodes cs) = map (\<lambda>i. l + int i) [0..<length (knodes cs)]"
proof (induction s l t and s l cs rule: numbered_numbered_kids.induct)
  case (3 s l p cs)
  have "map (\<lambda>i. l + int (length (gnodes (snd p))) + int i) [0..<length (knodes cs)] =
      map (\<lambda>i. l + int i) [length (gnodes (snd p))..<length (gnodes (snd p)) + length (knodes cs)]"
    by (rule nth_equalityI) simp_all
  with 3 show ?case by (simp add: upt_add_eq_append [of 0] del: upt_Suc)
qed simp_all

lemma numbered_root:
  "numbered s l t \<Longrightarrow> v_low (vnodes s (groot t)) = l \<and> v_lim (vnodes s (groot t)) = l + int (length (gnodes t)) - 1"
  by (cases t) simp

lemma numbered_below:
  assumes T: "numbered s l0 T" and t: "numbered s l t" "set (gnodes t) \<subseteq> set (gnodes T)" and w: "w \<in> set (gnodes T)"
  shows "below s (groot t) w \<longleftrightarrow> w \<in> set (gnodes t)"
proof -
  have "distinct (map (\<lambda>u. v_lim (vnodes s u)) (gnodes T))"
    unfolding numbered_lims(1) [OF T] by (simp add: distinct_map inj_on_def)
  then have inj: "inj_on (\<lambda>u. v_lim (vnodes s u)) (set (gnodes T))" by (simp add: distinct_map)
  have "(\<lambda>u. v_lim (vnodes s u)) ` set (gnodes t) = set (map (\<lambda>i. l + int i) [0..<length (gnodes t)])"
    unfolding numbered_lims(1) [OF t(1), symmetric] by simp
  then have im: "x \<in> (\<lambda>u. v_lim (vnodes s u)) ` set (gnodes t) \<longleftrightarrow> l \<le> x \<and> x \<le> l + int (length (gnodes t)) - 1" for x
  proof -
    assume "(\<lambda>u. v_lim (vnodes s u)) ` set (gnodes t) = set (map (\<lambda>i. l + int i) [0..<length (gnodes t)])"
    moreover have "l \<le> x \<and> x \<le> l + int (length (gnodes t)) - 1 \<longleftrightarrow> (\<exists>i < length (gnodes t). x = l + int i)"
    proof
      assume "l \<le> x \<and> x \<le> l + int (length (gnodes t)) - 1"
      then show "\<exists>i < length (gnodes t). x = l + int i" by (intro exI [of _ "nat (x - l)"]) auto
    qed auto
    ultimately show ?thesis by auto
  qed
  have "below s (groot t) w \<longleftrightarrow> v_lim (vnodes s w) \<in> (\<lambda>u. v_lim (vnodes s u)) ` set (gnodes t)"
    unfolding im below_def SEQ_def using numbered_root [OF t(1)] by simp
  also have "\<dots> \<longleftrightarrow> w \<in> set (gnodes t)" using inj w t(2) by (auto simp: inj_on_def)
  finally show ?thesis .
qed

section \<open>Cuts\<close>

text \<open>The weights at a node, and the net weight that leaves a set of nodes.\<close>

definition deg_weight :: "fgraph \<Rightarrow> nat \<Rightarrow> int" where
  "deg_weight s u = out_weight s u + in_weight s u"

definition net_weight :: "fgraph \<Rightarrow> nat set \<Rightarrow> int" where
  "net_weight s S = (\<Sum>u\<in>S. out_weight s u - in_weight s u)"

text \<open>The tree edges of a spanning tree are just the edges with an index in \<open>Tree_edge\<close>.\<close>

definition spanning :: "fgraph \<Rightarrow> gtree \<Rightarrow> bool" where
  "spanning s T \<longleftrightarrow> fg_ok s \<and> irrefl (frel s) \<and> closed_on (set (gnodes T)) s \<and> is_tree s None T \<and> distinct (gnodes T) \<and>
     (\<forall>n\<in>set (gnodes T). distinct (touts s n) \<and> distinct (tins s n) \<and>
        set (touts s n) = {e \<in> set (outs s n). TREE_EDGE s e} \<and> set (tins s n) = {e \<in> set (ins s n). TREE_EDGE s e})"

definition cut_env :: "gtree \<Rightarrow> fgraph \<Rightarrow> bool" where
  "cut_env T s \<longleftrightarrow> spanning s T \<and> numbered s 1 T \<and> (\<forall>e. fast s e \<longrightarrow> 0 \<le> e_weight (vedges s e)) \<and>
     (\<Sum>u\<in>set (gnodes T). deg_weight s u) < 2 ^ 31"

text \<open>A subtree of the whole tree, below the edge \<open>par\<close>.\<close>

definition subtree_at :: "gtree \<Rightarrow> fgraph \<Rightarrow> nat option \<Rightarrow> gtree \<Rightarrow> bool" where
  "subtree_at T s par t \<longleftrightarrow> (\<exists>l. numbered s l t) \<and> is_tree s par t \<and> distinct (gnodes t) \<and> set (gnodes t) \<subseteq> set (gnodes T) \<and>
     v_par (vnodes s (groot t)) = par \<and>
     (case par of None \<Rightarrow> True | Some e \<Rightarrow> fast s e \<and>
        (vtail s e = groot t \<and> vhead s e \<notin> set (gnodes t) \<or> vhead s e = groot t \<and> vtail s e \<notin> set (gnodes t)))"

text \<open>The side of an edge that has been searched, and what its cut value is to be.\<close>

definition child_end :: "fgraph \<Rightarrow> nat \<Rightarrow> nat" where
  "child_end s f = (if v_par (vnodes s (vtail s f)) = Some f then vtail s f else vhead s f)"

definition cut_of :: "gtree \<Rightarrow> fgraph \<Rightarrow> nat \<Rightarrow> int" where
  "cut_of T s f = (if v_par (vnodes s (vtail s f)) = Some f then 1 else -1) *
     net_weight s {u \<in> set (gnodes T). below s (child_end s f) u}"

definition cut_good :: "gtree \<Rightarrow> fgraph \<Rightarrow> nat \<Rightarrow> bool" where
  "cut_good T s f \<longleftrightarrow> cutv s f = cut_of T s f"

lemma numbered_kid: "numbered_kids s l cs \<Longrightarrow> p \<in> set cs \<Longrightarrow> (\<exists>l'. numbered s l' (snd p)) \<and> v_par (vnodes s (groot (snd p))) = Some (fst p)"
  by (induction cs arbitrary: l) auto

text \<open>The children of a node of the tree.\<close>

lemma kid_edges:
  assumes sp: "spanning s T" and at: "subtree_at T s par (GT v cs)" and p: "p \<in> set cs"
  shows "subtree_at T s (Some (fst p)) (snd p)"
    and "fst p \<in> set (kedges par (touts s v)) \<and> vtail s (fst p) = v \<and> vhead s (fst p) = groot (snd p) \<or>
         fst p \<in> set (kedges par (tins s v)) \<and> vhead s (fst p) = v \<and> vtail s (fst p) = groot (snd p)"
proof -
  have v: "v \<in> set (gnodes T)" using at by (simp add: subtree_at_def)
  have ok: "fg_ok s" using sp by (simp add: spanning_def)
  have m: "map (\<lambda>p. (fst p, groot (snd p))) cs =
      map (\<lambda>e. (e, vhead s e)) (kedges par (touts s v)) @ map (\<lambda>e. (e, vtail s e)) (kedges par (tins s v))"
    using at by (simp add: subtree_at_def)
  have "(fst p, groot (snd p)) \<in> set (map (\<lambda>p. (fst p, groot (snd p))) cs)" using p by auto
  then consider "fst p \<in> set (kedges par (touts s v))" "vhead s (fst p) = groot (snd p)"
    | "fst p \<in> set (kedges par (tins s v))" "vtail s (fst p) = groot (snd p)"
    unfolding m by auto
  then have e: "fst p \<in> set (kedges par (touts s v)) \<and> vtail s (fst p) = v \<and> vhead s (fst p) = groot (snd p) \<and> fast s (fst p) \<or>
         fst p \<in> set (kedges par (tins s v)) \<and> vhead s (fst p) = v \<and> vtail s (fst p) = groot (snd p) \<and> fast s (fst p)"
  proof cases
    case 1
    then have "fst p \<in> set (outs s v)" using sp v by (auto simp: spanning_def)
    with 1 show ?thesis using fast_iff [OF ok] by simp
  next
    case 2
    then have "fst p \<in> set (ins s v)" using sp v by (auto simp: spanning_def)
    with 2 show ?thesis using ins_iff [OF ok] by simp
  qed
  then show "fst p \<in> set (kedges par (touts s v)) \<and> vtail s (fst p) = v \<and> vhead s (fst p) = groot (snd p) \<or>
         fst p \<in> set (kedges par (tins s v)) \<and> vhead s (fst p) = v \<and> vtail s (fst p) = groot (snd p)" by blast
  have sub: "set (gnodes (snd p)) \<subseteq> set (knodes cs)" using p by auto
  have vk: "v \<notin> set (knodes cs)" "distinct (knodes cs)" using at by (simp_all add: subtree_at_def)
  have "distinct (gnodes (snd p))" using vk(2) p by (auto simp: distinct_concat_iff)
  moreover have "is_tree s (Some (fst p)) (snd p)" using at p by (simp add: subtree_at_def)
  moreover obtain l where "numbered s l (GT v cs)" using at by (auto simp: subtree_at_def)
  then have "numbered_kids s l cs" by simp
  note numbered_kid [OF this p]
  moreover have "set (gnodes (snd p)) \<subseteq> set (gnodes T)" using sub at by (auto simp: subtree_at_def)
  ultimately show "subtree_at T s (Some (fst p)) (snd p)" using e vk(1) sub by (auto simp: subtree_at_def)
qed

lemma kid_child:
  assumes sp: "spanning s T" and at: "subtree_at T s par (GT v cs)" and p: "p \<in> set cs"
  shows "child_end s (fst p) = groot (snd p)" and "v_par (vnodes s (vtail s (fst p))) = Some (fst p) \<longleftrightarrow> vtail s (fst p) = groot (snd p)"
proof -
  note k = kid_edges [OF sp at p]
  have pv: "v_par (vnodes s v) = par" using at by (simp add: subtree_at_def)
  have pk: "v_par (vnodes s (groot (snd p))) = Some (fst p)" using k(1) by (simp add: subtree_at_def)
  have ne: "v \<noteq> groot (snd p)" using at p groot_in [of "snd p"] unfolding subtree_at_def by auto
  show "child_end s (fst p) = groot (snd p)" "v_par (vnodes s (vtail s (fst p))) = Some (fst p) \<longleftrightarrow> vtail s (fst p) = groot (snd p)"
    using k(2) pv pk ne by (auto simp: child_end_def)
qed

end
