(* ===== verification/Ns_Cutval.thy ===== *)
theory Ns_Cutval
  imports Ns_Cut
begin

text \<open>
  One cut value: the sum that \<open>x_cutval\<close> takes over the edges at a node is the net weight of its subtree,
  when the cut values of the edges to the children are right; it does not overflow.
\<close>

lemma sadd_ok: "(\<Sum>x\<leftarrow>xs. \<bar>x\<bar>) + \<bar>z\<bar> < 2 ^ 31 \<Longrightarrow> sadd xs z = Some (z + sum_list xs)"
proof (induction xs arbitrary: z)
  case (Cons x xs)
  have nn: "0 \<le> (\<Sum>x\<leftarrow>xs. \<bar>x\<bar>)" by (rule sum_list_nonneg) auto
  have "int_add z x = Some (z + x)" using Cons.prems nn by (auto simp: int_add_def)
  moreover have "(\<Sum>x\<leftarrow>xs. \<bar>x\<bar>) + \<bar>z + x\<bar> < 2 ^ 31" using Cons.prems by simp
  from Cons.IH [OF this] have "sadd xs (z + x) = Some (z + x + sum_list xs)" .
  ultimately show ?case by simp
qed simp

lemma spanningD:
  assumes "spanning s T"
  shows "fg_ok s" and "irrefl (frel s)" and "closed_on (set (gnodes T)) s" and "is_tree s None T" and "distinct (gnodes T)"
    and "n \<in> set (gnodes T) \<Longrightarrow> distinct (touts s n) \<and> distinct (tins s n) \<and>
        set (touts s n) = {e \<in> set (outs s n). TREE_EDGE s e} \<and> set (tins s n) = {e \<in> set (ins s n). TREE_EDGE s e}"
  using assms by (simp_all add: spanning_def)

lemma cut_envD:
  assumes "cut_env T s"
  shows "spanning s T" and "numbered s 1 T" and "fast s e \<Longrightarrow> 0 \<le> e_weight (vedges s e)"
    and "(\<Sum>u\<in>set (gnodes T). deg_weight s u) < 2 ^ 31"
  using assms by (simp_all add: cut_env_def)

lemma subtree_below:
  assumes "cut_env T s" and "subtree_at T s par t" and "w \<in> set (gnodes T)"
  shows "below s (groot t) w \<longleftrightarrow> w \<in> set (gnodes t)"
proof -
  obtain l where "numbered s l t" using assms(2) by (auto simp: subtree_at_def)
  then show ?thesis using numbered_below [OF cut_envD(2) [OF assms(1)] _ _ assms(3)] assms(2) by (simp add: subtree_at_def)
qed

lemma subtree_set:
  assumes "cut_env T s" and "subtree_at T s par t"
  shows "{u \<in> set (gnodes T). below s (groot t) u} = set (gnodes t)"
proof -
  have "set (gnodes t) \<subseteq> set (gnodes T)" using assms(2) by (simp add: subtree_at_def)
  then show ?thesis using subtree_below [OF assms] by blast
qed

lemma closed_ends:
  assumes "fg_ok s" and "closed_on V s" and "n \<in> V"
  shows "e \<in> set (outs s n) \<Longrightarrow> vhead s e \<in> V" and "e \<in> set (ins s n) \<Longrightarrow> vtail s e \<in> V"
proof -
  show "vhead s e \<in> V" if "e \<in> set (outs s n)"
    using that assms(2,3) fast_iff [OF assms(1), of e n] unfolding closed_on_def by auto
  show "vtail s e \<in> V" if "e \<in> set (ins s n)"
    using that assms(2,3) ins_iff [OF assms(1), of e n] unfolding closed_on_def by auto
qed

lemma no_loop: "irrefl (frel s) \<Longrightarrow> fast s e \<Longrightarrow> vtail s e \<noteq> vhead s e"
  unfolding frel_def irrefl_def by force

text \<open>The terms of the sum at the child \<open>v\<close> of the edge \<open>f\<close>.\<close>

lemma x_val_terms:
  assumes env: "cut_env T s" and at: "subtree_at T s (Some f) (GT v cs)"
  shows "e \<in> set (outs s v) \<Longrightarrow> x_val s e v dir =
      (if dir > 0 then 1 else -1) * (e_weight (vedges s e) - (if e \<in> set (kedges (Some f) (touts s v)) then cutv s e else 0))"
    and "e \<in> set (ins s v) \<Longrightarrow> x_val s e v dir =
      (if dir > 0 then 1 else -1) * ((if e \<in> set (kedges (Some f) (tins s v)) then cutv s e else 0) - e_weight (vedges s e))"
proof -
  note sp = cut_envD(1) [OF env] note ok = spanningD(1) [OF sp]
  have v: "v \<in> set (gnodes T)" using at by (simp add: subtree_at_def)
  note tree = spanningD(6) [OF sp v]
  have par: "vtail s f = v \<and> vhead s f \<notin> set (gnodes (GT v cs)) \<or> vhead s f = v \<and> vtail s f \<notin> set (gnodes (GT v cs))"
    using at by (simp add: subtree_at_def)
  have b: "below s v w \<longleftrightarrow> w \<in> set (gnodes (GT v cs))" if "w \<in> set (gnodes T)" for w
    using subtree_below [OF env at that] by simp
  have m: "map (\<lambda>p. (fst p, groot (snd p))) cs =
      map (\<lambda>e. (e, vhead s e)) (kedges (Some f) (touts s v)) @ map (\<lambda>e. (e, vtail s e)) (kedges (Some f) (tins s v))"
    using at by (simp add: subtree_at_def)
  have inside: "w \<in> set (gnodes (GT v cs))" if "(e, w) \<in> set (map (\<lambda>p. (fst p, groot (snd p))) cs)" for e w
  proof -
    obtain p where p: "p \<in> set cs" "w = groot (snd p)" using \<open>(e, w) \<in> _\<close> by auto
    have "w \<in> set (gnodes (snd p))" using groot_in [of "snd p"] p(2) by simp
    then show ?thesis using p(1) by auto
  qed
  {
    assume e: "e \<in> set (outs s v)"
    then have f: "fast s e" "vtail s e = v" using fast_iff [OF ok] by auto
    have h: "vhead s e \<noteq> v" using no_loop [OF spanningD(2) [OF sp] f(1)] f(2) by simp
    have hb: "below s v (vhead s e) \<longleftrightarrow> vhead s e \<in> set (gnodes (GT v cs))"
      using b closed_ends(1) [OF ok spanningD(3) [OF sp] v e] by simp
    have t: "TREE_EDGE s e \<longleftrightarrow> e \<in> set (touts s v)" using tree e by auto
    show "x_val s e v dir =
      (if dir > 0 then 1 else -1) * (e_weight (vedges s e) - (if e \<in> set (kedges (Some f) (touts s v)) then cutv s e else 0))"
    proof (cases "vhead s e \<in> set (gnodes (GT v cs))")
      case True
      then have "e \<noteq> f" using par f(2) by auto
      then have "e \<in> set (kedges (Some f) (touts s v)) \<longleftrightarrow> TREE_EDGE s e" using t by simp
      moreover have "below s v (vhead s e)" using hb True by blast
      ultimately show ?thesis using h by (auto simp: x_val_def Let_def f(2))
    next
      case False
      then have "e \<notin> set (kedges (Some f) (touts s v))" using inside [of e "vhead s e"] unfolding m by auto
      moreover have "\<not> below s v (vhead s e)" using hb False by blast
      ultimately show ?thesis using h by (auto simp: x_val_def Let_def f(2))
    qed
  next
    assume e: "e \<in> set (ins s v)"
    then have f: "fast s e" "vhead s e = v" using ins_iff [OF ok] by auto
    have h: "vtail s e \<noteq> v" using no_loop [OF spanningD(2) [OF sp] f(1)] f(2) by simp
    have hb: "below s v (vtail s e) \<longleftrightarrow> vtail s e \<in> set (gnodes (GT v cs))"
      using b closed_ends(2) [OF ok spanningD(3) [OF sp] v e] by simp
    have t: "TREE_EDGE s e \<longleftrightarrow> e \<in> set (tins s v)" using tree e by auto
    show "x_val s e v dir =
      (if dir > 0 then 1 else -1) * ((if e \<in> set (kedges (Some f) (tins s v)) then cutv s e else 0) - e_weight (vedges s e))"
    proof (cases "vtail s e \<in> set (gnodes (GT v cs))")
      case True
      then have "e \<noteq> f" using par f(2) by auto
      then have "e \<in> set (kedges (Some f) (tins s v)) \<longleftrightarrow> TREE_EDGE s e" using t by simp
      moreover have "below s v (vtail s e)" using hb True by blast
      ultimately show ?thesis using h by (auto simp: x_val_def Let_def f(2))
    next
      case False
      then have "e \<notin> set (kedges (Some f) (tins s v))" using inside [of e "vtail s e"] unfolding m by auto
      moreover have "\<not> below s v (vtail s e)" using hb False by blast
      ultimately show ?thesis using h by (auto simp: x_val_def Let_def f(2))
    qed
  }
qed

text \<open>The cut values of the edges to the children.\<close>

lemma kid_cut:
  assumes env: "cut_env T s" and at: "subtree_at T s par (GT v cs)" and p: "p \<in> set cs" and g: "cut_good T s (fst p)"
  shows "cutv s (fst p) = (if fst p \<in> set (kedges par (touts s v)) then - 1 else 1) * net_weight s (set (gnodes (snd p)))"
proof -
  note sp = cut_envD(1) [OF env]
  note k = kid_edges [OF sp at p] and c = kid_child [OF sp at p]
  have v: "v \<in> set (gnodes T)" using at by (simp add: subtree_at_def)
  have ne: "v \<noteq> groot (snd p)" using at p groot_in [of "snd p"] unfolding subtree_at_def by auto
  have "vtail s e = v" if "e \<in> set (touts s v)" for e
    using that spanningD(6) [OF sp v] fast_iff [OF spanningD(1) [OF sp]] by auto
  then have "fst p \<in> set (kedges par (touts s v)) \<longleftrightarrow> vtail s (fst p) \<noteq> groot (snd p)" using k(2) ne by auto
  then show ?thesis
    using g unfolding cut_good_def cut_of_def c subtree_set [OF env k(1)] by simp
qed


lemma sum_only:
  fixes g :: "'a \<Rightarrow> int"
  assumes "distinct L" and "distinct K" and "set K \<subseteq> set L"
  shows "(\<Sum>e\<leftarrow>L. if e \<in> set K then g e else 0) = (\<Sum>e\<leftarrow>K. g e)"
proof -
  have "(\<Sum>e\<leftarrow>L. if e \<in> set K then g e else 0) = (\<Sum>e\<in>set L. if e \<in> set K then g e else 0)"
    using assms(1) by (simp add: sum_list_distinct_conv_sum_set)
  also have "\<dots> = (\<Sum>e\<in>set L \<inter> set K. g e)" by (simp add: sum.inter_restrict)
  also have "set L \<inter> set K = set K" using assms(3) by blast
  finally show ?thesis using assms(2) by (simp add: sum_list_distinct_conv_sum_set)
qed

lemma sum_kids:
  fixes g :: "nat \<Rightarrow> int"
  shows "distinct (knodes cs) \<Longrightarrow> (\<Sum>p\<leftarrow>cs. \<Sum>u\<in>set (gnodes (snd p)). g u) = (\<Sum>u\<in>set (knodes cs). g u)"
proof (induction cs)
  case (Cons p cs)
  then have "(\<Sum>u\<in>set (gnodes (snd p)) \<union> set (knodes cs). g u) = (\<Sum>u\<in>set (gnodes (snd p)). g u) + (\<Sum>u\<in>set (knodes cs). g u)"
    by (intro sum.union_disjoint) simp_all
  with Cons show ?case by simp
qed simp

lemma weights_nonneg:
  assumes "cut_env T s"
  shows "0 \<le> out_weight s u" and "0 \<le> in_weight s u"
proof -
  note ok = spanningD(1) [OF cut_envD(1) [OF assms]]
  show "0 \<le> out_weight s u" "0 \<le> in_weight s u"
    using cut_envD(3) [OF assms] fast_iff [OF ok] ins_iff [OF ok] by (auto intro!: sum_list_nonneg)
qed

lemma net_bound:
  assumes "cut_env T s"
  shows "\<bar>net_weight s S\<bar> \<le> (\<Sum>u\<in>S. deg_weight s u)"
proof -
  have "\<bar>net_weight s S\<bar> \<le> (\<Sum>u\<in>S. \<bar>out_weight s u - in_weight s u\<bar>)" unfolding net_weight_def by (rule sum_abs)
  also have "\<dots> \<le> (\<Sum>u\<in>S. deg_weight s u)"
    using weights_nonneg [OF assms] by (intro sum_mono) (simp add: deg_weight_def abs_le_iff add_increasing add_increasing2)
  finally show ?thesis .
qed

text \<open>The edges to the children of a node are the tree edges at it, but the one to its parent.\<close>

lemma kid_lists:
  assumes env: "cut_env T s" and at: "subtree_at T s par (GT v cs)"
  shows "map fst cs = kedges par (touts s v) @ kedges par (tins s v)"
    and "distinct (kedges par (touts s v))" and "distinct (kedges par (tins s v))"
    and "set (kedges par (touts s v)) \<subseteq> set (outs s v)" and "set (kedges par (tins s v)) \<subseteq> set (ins s v)"
    and "set (kedges par (touts s v)) \<inter> set (kedges par (tins s v)) = {}"
proof -
  note sp = cut_envD(1) [OF env] note ok = spanningD(1) [OF sp]
  have v: "v \<in> set (gnodes T)" using at by (simp add: subtree_at_def)
  note tree = spanningD(6) [OF sp v]
  have "map fst (map (\<lambda>p. (fst p, groot (snd p))) cs) =
      map fst (map (\<lambda>e. (e, vhead s e)) (kedges par (touts s v)) @ map (\<lambda>e. (e, vtail s e)) (kedges par (tins s v)))"
    by (rule arg_cong [where f = "map fst"]) (use at in \<open>simp add: subtree_at_def\<close>)
  then show "map fst cs = kedges par (touts s v) @ kedges par (tins s v)" by (simp add: o_def)
  show "distinct (kedges par (touts s v))" "distinct (kedges par (tins s v))" using tree by simp_all
  show sub: "set (kedges par (touts s v)) \<subseteq> set (outs s v)" "set (kedges par (tins s v)) \<subseteq> set (ins s v)" using tree by auto
  have "False" if "e \<in> set (outs s v)" "e \<in> set (ins s v)" for e
    using that no_loop [OF spanningD(2) [OF sp], of e] fast_iff [OF ok, of e v] ins_iff [OF ok, of e v] by auto
  then show "set (kedges par (touts s v)) \<inter> set (kedges par (tins s v)) = {}" using sub by blast
qed

lemma kid_sums:
  assumes env: "cut_env T s" and at: "subtree_at T s par (GT v cs)" and g: "\<forall>p\<in>set cs. cut_good T s (fst p)"
  shows "(\<Sum>e\<leftarrow>kedges par (tins s v). cutv s e) - (\<Sum>e\<leftarrow>kedges par (touts s v). cutv s e) = net_weight s (set (knodes cs))"
    and "(\<Sum>e\<leftarrow>kedges par (tins s v). \<bar>cutv s e\<bar>) + (\<Sum>e\<leftarrow>kedges par (touts s v). \<bar>cutv s e\<bar>) \<le> (\<Sum>u\<in>set (knodes cs). deg_weight s u)"
proof -
  let ?o = "kedges par (touts s v)" and ?i = "kedges par (tins s v)"
  note k = kid_lists [OF env at]
  have dk: "distinct (knodes cs)" using at by (simp add: subtree_at_def)
  have c: "cutv s (fst p) = (if fst p \<in> set ?o then - 1 else 1) * net_weight s (set (gnodes (snd p)))" if "p \<in> set cs" for p
    using kid_cut [OF env at that] g that by blast
  have io: "e \<notin> set ?o" if "e \<in> set ?i" for e using that k(6) by blast
  have "(\<Sum>e\<leftarrow>?i. cutv s e) - (\<Sum>e\<leftarrow>?o. cutv s e) =
      (\<Sum>e\<leftarrow>?i. if e \<in> set ?o then - cutv s e else cutv s e) + (\<Sum>e\<leftarrow>?o. if e \<in> set ?o then - cutv s e else cutv s e)"
  proof -
    have "map (\<lambda>e. if e \<in> set ?o then - cutv s e else cutv s e) ?i = map (cutv s) ?i" using io by (intro map_cong) auto
    moreover have "map (\<lambda>e. if e \<in> set ?o then - cutv s e else cutv s e) ?o = map (\<lambda>e. - cutv s e) ?o" by (intro map_cong) auto
    moreover have "sum_list (map (\<lambda>e. - cutv s e) L) = - sum_list (map (cutv s) L)" for L by (induction L) simp_all
    ultimately show ?thesis by (simp only: diff_conv_add_uminus)
  qed
  also have "\<dots> = (\<Sum>e\<leftarrow>map fst cs. if e \<in> set ?o then - cutv s e else cutv s e)" unfolding k(1) by simp
  also have "\<dots> = (\<Sum>p\<leftarrow>cs. net_weight s (set (gnodes (snd p))))"
    unfolding map_map by (rule arg_cong [where f = sum_list], rule map_cong [OF refl]) (use c in \<open>simp add: o_def\<close>)
  also have "\<dots> = net_weight s (set (knodes cs))" unfolding net_weight_def by (rule sum_kids [OF dk])
  finally show "(\<Sum>e\<leftarrow>?i. cutv s e) - (\<Sum>e\<leftarrow>?o. cutv s e) = net_weight s (set (knodes cs))" .
  have "(\<Sum>e\<leftarrow>?i. \<bar>cutv s e\<bar>) + (\<Sum>e\<leftarrow>?o. \<bar>cutv s e\<bar>) = (\<Sum>e\<leftarrow>map fst cs. \<bar>cutv s e\<bar>)" unfolding k(1) by simp
  also have "\<dots> = (\<Sum>p\<leftarrow>cs. \<bar>net_weight s (set (gnodes (snd p)))\<bar>)"
    unfolding map_map by (rule arg_cong [where f = sum_list], rule map_cong [OF refl]) (use c in \<open>simp add: o_def abs_mult\<close>)
  also have "\<dots> \<le> (\<Sum>p\<leftarrow>cs. \<Sum>u\<in>set (gnodes (snd p)). deg_weight s u)" by (intro sum_list_mono net_bound [OF env])
  also have "\<dots> = (\<Sum>u\<in>set (knodes cs). deg_weight s u)" by (rule sum_kids [OF dk])
  finally show "(\<Sum>e\<leftarrow>?i. \<bar>cutv s e\<bar>) + (\<Sum>e\<leftarrow>?o. \<bar>cutv s e\<bar>) \<le> (\<Sum>u\<in>set (knodes cs). deg_weight s u)" .
qed


text \<open>The sum of the terms is the net weight of the subtree, and it does not overflow.\<close>

lemma x_cutval_spec:
  assumes env: "cut_env T s" and at: "subtree_at T s (Some f) (GT v cs)" and g: "\<forall>p\<in>set cs. cut_good T s (fst p)"
    and ce: "child_end s f = v"
  shows "x_cutval f s = Some (upd_e f (\<lambda>x. x\<lparr>e_cutvalue := cut_of T s f\<rparr>) s)"
proof -
  let ?o = "kedges (Some f) (touts s v)" and ?i = "kedges (Some f) (tins s v)" and ?w = "\<lambda>e. e_weight (vedges s e)"
  let ?go = "\<lambda>e. if e \<in> set ?o then cutv s e else 0" and ?gi = "\<lambda>e. if e \<in> set ?i then cutv s e else 0"
  define dir :: int where "dir = (if v_par (vnodes s (vtail s f)) = Some f then 1 else -1)"
  have d: "(if dir > 0 then 1 else -1) = dir" "\<bar>dir\<bar> = 1" by (simp_all add: dir_def)
  note ok = spanningD(1) [OF cut_envD(1) [OF env]]
  note k = kid_lists [OF env at] and ks = kid_sums [OF env at g]
  have at': "v \<notin> set (knodes cs)" "set (gnodes (GT v cs)) = insert v (set (knodes cs))" "set (gnodes (GT v cs)) \<subseteq> set (gnodes T)"
    using at by (auto simp: subtree_at_def)
  have pick: "(if v_par (vnodes s (vtail s f)) = Some f then (vtail s f, 1) else (vhead s f, -1)) = (v, dir)"
    using ce by (auto simp: child_end_def dir_def)
  have cut: "cut_of T s f = dir * net_weight s (set (gnodes (GT v cs)))"
    using subtree_set [OF env at] unfolding cut_of_def ce dir_def by simp
  have dist: "distinct (outs s v)" "distinct (ins s v)" using fg_okD(1,2) [OF ok] by blast+
  have so: "(\<Sum>e\<leftarrow>outs s v. ?go e) = (\<Sum>e\<leftarrow>?o. cutv s e)" and si: "(\<Sum>e\<leftarrow>ins s v. ?gi e) = (\<Sum>e\<leftarrow>?i. cutv s e)"
    by (rule sum_only [OF dist(1) k(2,4)], rule sum_only [OF dist(2) k(3,5)])
  have xo: "map (\<lambda>e. x_val s e v dir) (outs s v) = map (\<lambda>e. dir * (?w e - ?go e)) (outs s v)"
    by (rule map_cong [OF refl], subst x_val_terms(1) [OF env at]) (simp_all only: d)
  have xi: "map (\<lambda>e. x_val s e v dir) (ins s v) = map (\<lambda>e. dir * (?gi e - ?w e)) (ins s v)"
    by (rule map_cong [OF refl], subst x_val_terms(2) [OF env at]) (simp_all only: d)
  let ?xs = "map (\<lambda>e. x_val s e v dir) (outs s v @ ins s v)"
  have total: "sum_list ?xs = cut_of T s f"
  proof -
    have "sum_list ?xs = dir * (out_weight s v - (\<Sum>e\<leftarrow>?o. cutv s e)) + dir * ((\<Sum>e\<leftarrow>?i. cutv s e) - in_weight s v)"
      unfolding map_append sum_list_append xo xi sum_list_const_mult sum_list_subtractf so si ..
    also have "\<dots> = dir * (out_weight s v - in_weight s v + net_weight s (set (knodes cs)))"
      unfolding ks(1) [symmetric] by (simp add: algebra_simps)
    also have "\<dots> = dir * net_weight s (set (gnodes (GT v cs)))" unfolding at'(2) net_weight_def using at'(1) by simp
    finally show ?thesis unfolding cut .
  qed
  have "(\<Sum>x\<leftarrow>?xs. \<bar>x\<bar>) + \<bar>0\<bar> < 2 ^ 31"
  proof -
    have wp: "0 \<le> ?w e" if "e \<in> set (outs s v) \<union> set (ins s v)" for e
      using that fast_iff [OF ok] ins_iff [OF ok] cut_envD(3) [OF env] by blast
    have a: "(\<Sum>e\<leftarrow>L. \<bar>if e \<in> set K then cutv s e else 0\<bar>) = (\<Sum>e\<leftarrow>K. \<bar>cutv s e\<bar>)"
      if "distinct L" "distinct K" "set K \<subseteq> set L" for L K
      by (subst sum_only [OF that, symmetric]) (simp add: if_distrib [of abs])
    have "(\<Sum>x\<leftarrow>?xs. \<bar>x\<bar>) = (\<Sum>e\<leftarrow>outs s v. \<bar>?w e - ?go e\<bar>) + (\<Sum>e\<leftarrow>ins s v. \<bar>?gi e - ?w e\<bar>)"
      unfolding map_append xo xi sum_list_append map_map by (simp only: o_def abs_mult d(2) mult_1_left)
    also have "\<dots> \<le> (\<Sum>e\<leftarrow>outs s v. ?w e + \<bar>?go e\<bar>) + (\<Sum>e\<leftarrow>ins s v. \<bar>?gi e\<bar> + ?w e)"
      by (intro add_mono sum_list_mono) (use wp abs_triangle_ineq4 in \<open>force+\<close>)
    also have "\<dots> = deg_weight s v + ((\<Sum>e\<leftarrow>?i. \<bar>cutv s e\<bar>) + (\<Sum>e\<leftarrow>?o. \<bar>cutv s e\<bar>))"
      unfolding sum_list_addf a [OF dist(1) k(2,4)] a [OF dist(2) k(3,5)] by (simp add: deg_weight_def)
    also have "\<dots> \<le> deg_weight s v + (\<Sum>u\<in>set (knodes cs). deg_weight s u)" using ks(2) by simp
    also have "\<dots> = (\<Sum>u\<in>set (gnodes (GT v cs)). deg_weight s u)" unfolding at'(2) using at'(1) by simp
    also have "\<dots> \<le> (\<Sum>u\<in>set (gnodes T). deg_weight s u)"
      using weights_nonneg [OF env] at'(3) by (intro sum_mono2) (simp_all add: deg_weight_def)
    finally show ?thesis using cut_envD(4) [OF env] by simp
  qed
  from sadd_ok [OF this] have "sadd ?xs 0 = Some (cut_of T s f)" unfolding total by simp
  then show ?thesis unfolding x_cutval_def Let_def pick by simp
qed

end
