(* ===== verification/Ns_Optimal.thy ===== *)
theory Ns_Optimal
  imports Ns_Cutval
begin

text \<open>
  All cut values: \<open>dfs_cutval\<close> visits the tree bottom up, so that \<open>init_cutvalues\<close> gives every tree edge the
  weight across its cut. Then the inequalities from which a ranking with a tight tree and no negative cut
  value is optimal.
\<close>

section \<open>The traversal\<close>

fun tedges :: "gtree \<Rightarrow> nat list" where
  "tedges (GT v cs) = concat (map (\<lambda>p. fst p # tedges (snd p)) cs)"

text \<open>Only cut values change; the good ones stay good, and those of \<open>E\<close> become so.\<close>

definition revalued :: "fgraph \<Rightarrow> fgraph \<Rightarrow> bool" where
  "revalued s s' \<longleftrightarrow> (\<exists>c. s' = s\<lparr>vedges := \<lambda>e. (vedges s e)\<lparr>e_cutvalue := c e\<rparr>\<rparr>)"

definition recut :: "gtree \<Rightarrow> nat set \<Rightarrow> fgraph \<Rightarrow> fgraph \<Rightarrow> bool" where
  "recut T E s s' \<longleftrightarrow> revalued s s' \<and> (\<forall>e. cut_good T s e \<or> e \<in> E \<longrightarrow> cut_good T s' e)"

lemma revalued_same:
  assumes "revalued s s'"
  shows "vnodes s' = vnodes s" and "vtail s' e = vtail s e" and "vhead s' e = vhead s e" and "fast s' e = fast s e"
    and "e_weight (vedges s' e) = e_weight (vedges s e)" and "TREE_EDGE s' e = TREE_EDGE s e" and "efresh s' = efresh s"
    and "e_to_virt (vedges s' e) = e_to_virt (vedges s e)" and "e_minlen (vedges s' e) = e_minlen (vedges s e)"
    and "nlist s' = nlist s" and "LENGTH_e s' e = LENGTH_e s e"
proof -
  obtain c where c: "s' = s\<lparr>vedges := \<lambda>e. (vedges s e)\<lparr>e_cutvalue := c e\<rparr>\<rparr>" using assms by (auto simp: revalued_def)
  show "vnodes s' = vnodes s" "vtail s' e = vtail s e" "vhead s' e = vhead s e" "fast s' e = fast s e"
    "e_weight (vedges s' e) = e_weight (vedges s e)" "TREE_EDGE s' e = TREE_EDGE s e" "efresh s' = efresh s"
    "e_to_virt (vedges s' e) = e_to_virt (vedges s e)" "e_minlen (vedges s' e) = e_minlen (vedges s e)"
    "nlist s' = nlist s" "LENGTH_e s' e = LENGTH_e s e"
    unfolding c by (simp_all add: fast_def TREE_EDGE_def LENGTH_e_def)
qed

lemma numbered_cong:
  assumes "vnodes s' = vnodes s"
  shows "numbered s' l t = numbered s l t" and "numbered_kids s' l cs = numbered_kids s l cs"
  using assms by (induction s l t and s l cs rule: numbered_numbered_kids.induct) simp_all

lemma revalued_refl [simp]: "revalued s s"
proof -
  have "s = s\<lparr>vedges := \<lambda>e. (vedges s e)\<lparr>e_cutvalue := cutv s e\<rparr>\<rparr>" by simp
  then show ?thesis unfolding revalued_def by (rule exI [where x = "cutv s"])
qed

lemma revalued_trans: "revalued s s1 \<Longrightarrow> revalued s1 s2 \<Longrightarrow> revalued s s2"
  by (auto simp: revalued_def)

lemma recut_trans: "recut T A s s1 \<Longrightarrow> recut T B s1 s2 \<Longrightarrow> recut T (A \<union> B) s s2"
  unfolding recut_def by (blast intro: revalued_trans)

lemma recut_refl [simp]: "recut T {} s s"
  by (simp add: recut_def)

lemma recut_revalued: "recut T E s s' \<Longrightarrow> revalued s s'"
  by (simp add: recut_def)

lemma revalued_env:
  assumes r: "revalued s s'"
  shows "cut_env T s' = cut_env T s" and "subtree_at T s' par t = subtree_at T s par t" and "cut_of T s' f = cut_of T s f"
    and "child_end s' f = child_end s f"
proof -
  note same = revalued_same [OF r]
  have w: "out_weight s' u = out_weight s u" "in_weight s' u = in_weight s u" for u by (simp_all add: same)
  have tree: "is_tree s' p t = is_tree s p t" for p t by (rule is_tree_same) (simp_all add: same)
  have num: "numbered s' l t = numbered s l t" for l t by (rule numbered_cong(1) [OF same(1)])
  have "fg_ok s' = fg_ok s" by (simp add: fg_ok_def same)
  moreover have "frel s' = frel s" by (simp add: frel_def same)
  moreover have "closed_on V s' = closed_on V s" for V by (simp add: closed_on_def same)
  ultimately have "spanning s' T = spanning s T" by (simp add: spanning_def same tree)
  then show "cut_env T s' = cut_env T s" by (simp add: cut_env_def num same deg_weight_def)
  show "subtree_at T s' par t = subtree_at T s par t" by (simp add: subtree_at_def num same tree cong: option.case_cong)
  show ce: "child_end s' f = child_end s f" by (simp add: child_end_def same)
  have "below s' a b = below s a b" for a b by (simp add: below_def same)
  then show "cut_of T s' f = cut_of T s f" by (simp add: cut_of_def same ce net_weight_def)
qed

lemma recut_set: "recut T {f} s (upd_e f (\<lambda>x. x\<lparr>e_cutvalue := cut_of T s f\<rparr>) s)"
proof -
  let ?s = "upd_e f (\<lambda>x. x\<lparr>e_cutvalue := cut_of T s f\<rparr>) s"
  have "?s = s\<lparr>vedges := \<lambda>e. (vedges s e)\<lparr>e_cutvalue := (if e = f then cut_of T s f else cutv s e)\<rparr>\<rparr>"
    by (simp add: upd_e_def fun_eq_iff)
  then have r: "revalued s ?s" unfolding revalued_def by (rule exI [where x = "\<lambda>e. if e = f then cut_of T s f else cutv s e"])
  show ?thesis unfolding recut_def cut_good_def revalued_env(3) [OF r] using r by (auto simp: upd_e_def)
qed

lemma each_skip: "each (\<lambda>e s. if Some e \<noteq> par then g e s else Some s) L s = each g (kedges par L) s"
  by (induction L arbitrary: s) (auto split: option.split)

definition cut_done :: "gtree \<Rightarrow> nat \<Rightarrow> nat option \<Rightarrow> gtree \<Rightarrow> bool" where
  "cut_done T k par t \<longleftrightarrow> (\<forall>s. cut_env T s \<longrightarrow> subtree_at T s par t \<longrightarrow> (\<forall>f. par = Some f \<longrightarrow> child_end s f = groot t) \<longrightarrow>
     (\<exists>s'. dfs_cutval k (groot t) par s = Some s' \<and> recut T (set (tedges t) \<union> set_option par) s s'))"

lemma each_kids:
  assumes "\<forall>p\<in>set qs. cut_done T k (Some (fst p)) (snd p) \<and> subtree_at T s (Some (fst p)) (snd p) \<and>
      child_end s (fst p) = groot (snd p) \<and> en (fst p) s = groot (snd p)"
    and "cut_env T s" and "\<And>e s s'. revalued s s' \<Longrightarrow> en e s' = en e s"
  shows "\<exists>s'. each (\<lambda>e s. dfs_cutval k (en e s) (Some e) s) (map fst qs) s = Some s' \<and>
    recut T (set (concat (map (\<lambda>p. fst p # tedges (snd p)) qs))) s s'"
  using assms(1,2)
proof (induction qs arbitrary: s)
  case (Cons p qs)
  from Cons.prems obtain s1 where s1: "dfs_cutval k (groot (snd p)) (Some (fst p)) s = Some s1"
    "recut T (set (tedges (snd p)) \<union> {fst p}) s s1" by (force simp: cut_done_def)
  have "\<forall>q\<in>set qs. cut_done T k (Some (fst q)) (snd q) \<and> subtree_at T s1 (Some (fst q)) (snd q) \<and>
      child_end s1 (fst q) = groot (snd q) \<and> en (fst q) s1 = groot (snd q)"
    using Cons.prems(1) unfolding revalued_env [OF recut_revalued [OF s1(2)]] assms(3) [OF recut_revalued [OF s1(2)]] by simp
  moreover have "cut_env T s1" using Cons.prems(2) revalued_env(1) [OF recut_revalued [OF s1(2)]] by simp
  ultimately obtain s' where s': "each (\<lambda>e s. dfs_cutval k (en e s) (Some e) s) (map fst qs) s1 = Some s'"
    "recut T (set (concat (map (\<lambda>p. fst p # tedges (snd p)) qs))) s1 s'" using Cons.IH by blast
  have "set (tedges (snd p)) \<union> {fst p} \<union> set (concat (map (\<lambda>p. fst p # tedges (snd p)) qs)) =
      set (concat (map (\<lambda>p. fst p # tedges (snd p)) (p # qs)))" by auto
  then have "recut T (set (concat (map (\<lambda>p. fst p # tedges (snd p)) (p # qs)))) s s'"
    using recut_trans [OF s1(2) s'(2)] by (simp only:)
  with s1(1) s'(1) Cons.prems(1) show ?case by simp
qed simp

lemma cut_tree: "length (gnodes t) \<le> k \<Longrightarrow> cut_done T k par t"
proof (induction t arbitrary: k par rule: gtree_induct)
  case (1 v cs)
  then obtain k' where k: "k = Suc k'" "length (knodes cs) \<le> k'" by (cases k) auto
  have IH: "cut_done T k' (Some (fst p)) (snd p)" if "p \<in> set cs" for p
  proof -
    have "length (gnodes (snd p)) \<le> length (knodes cs)"
      using that by (simp add: length_concat o_def member_le_sum_list)
    then show ?thesis using "1.IH" [OF that] k(2) by simp
  qed
  show ?case unfolding cut_done_def
  proof (intro allI impI)
    fix s assume env: "cut_env T s" and at: "subtree_at T s par (GT v cs)"
      and ce: "\<forall>f. par = Some f \<longrightarrow> child_end s f = groot (GT v cs)"
    note sp = cut_envD(1) [OF env]
    let ?o = "kedges par (touts s v)" and ?i = "kedges par (tins s v)"
    note kl = kid_lists [OF env at]
    define co where "co = take (length ?o) cs"
    define ci where "ci = drop (length ?o) cs"
    have cs: "cs = co @ ci" by (simp add: co_def ci_def)
    have fst: "map fst co = ?o" "map fst ci = ?i"
      using kl(1) by (simp_all add: co_def ci_def take_map [symmetric] drop_map [symmetric])
    have ends: "vhead s (fst p) = groot (snd p)" if "p \<in> set co" for p
    proof -
      have "fst p \<in> set ?o" unfolding fst(1) [symmetric] using that by simp
      moreover have "p \<in> set cs" using that cs by simp
      ultimately show ?thesis using kid_edges(2) [OF sp at, of p] kl(6) by blast
    qed
    have ends2: "vtail s (fst p) = groot (snd p)" if "p \<in> set ci" for p
    proof -
      have "fst p \<in> set ?i" unfolding fst(2) [symmetric] using that by simp
      moreover have "p \<in> set cs" using that cs by simp
      ultimately show ?thesis using kid_edges(2) [OF sp at, of p] kl(6) by blast
    qed
    have all: "cut_done T k' (Some (fst p)) (snd p) \<and> subtree_at T s (Some (fst p)) (snd p) \<and> child_end s (fst p) = groot (snd p)"
      if "p \<in> set cs" for p
      using IH [OF that] kid_edges(1) [OF sp at that] kid_child(1) [OF sp at that] by blast
    let ?C = "\<lambda>qs. set (concat (map (\<lambda>p. fst p # tedges (snd p)) qs))"
    have "\<exists>s1. each (\<lambda>e s. dfs_cutval k' (vhead s e) (Some e) s) (map fst co) s = Some s1 \<and> recut T (?C co) s s1"
      by (rule each_kids [where en = "\<lambda>e s. vhead s e"]) (use all ends cs env revalued_same(3) in auto)
    then obtain s1 where s1: "each (\<lambda>e s. dfs_cutval k' (vhead s e) (Some e) s) ?o s = Some s1" "recut T (?C co) s s1"
      unfolding fst by blast
    note r1 = recut_revalued [OF s1(2)]
    have all1: "\<forall>p\<in>set ci. cut_done T k' (Some (fst p)) (snd p) \<and> subtree_at T s1 (Some (fst p)) (snd p) \<and>
        child_end s1 (fst p) = groot (snd p) \<and> vtail s1 (fst p) = groot (snd p)"
      unfolding revalued_env [OF r1] revalued_same [OF r1] using all ends2 cs by simp
    have "\<exists>s2. each (\<lambda>e s. dfs_cutval k' (vtail s e) (Some e) s) (map fst ci) s1 = Some s2 \<and> recut T (?C ci) s1 s2"
      by (rule each_kids [where en = "\<lambda>e s. vtail s e"])
        (use all1 env revalued_env(1) [OF r1] revalued_same(2) in simp_all)
    then obtain s2 where s2: "each (\<lambda>e s. dfs_cutval k' (vtail s e) (Some e) s) ?i s1 = Some s2" "recut T (?C ci) s1 s2"
      unfolding fst by blast
    have r12: "recut T (set (tedges (GT v cs))) s s2"
      using recut_trans [OF s1(2) s2(2)] cs by simp
    note r2 = recut_revalued [OF r12]
    have two: "dfs_cutval k (groot (GT v cs)) par s = (case par of None \<Rightarrow> Some s2 | Some f \<Rightarrow> x_cutval f s2)"
      unfolding k(1) by (simp add: each_skip s1(1) s2(1) revalued_same(1) [OF r1])
    show "\<exists>s'. dfs_cutval k (groot (GT v cs)) par s = Some s' \<and> recut T (set (tedges (GT v cs)) \<union> set_option par) s s'"
    proof (cases par)
      case None
      with two r12 show ?thesis by simp
    next
      case (Some f)
      have "\<forall>p\<in>set cs. cut_good T s2 (fst p)" using r12 by (auto simp: recut_def)
      moreover have "child_end s2 f = v" using ce Some revalued_env(4) [OF r2] by simp
      moreover have "cut_env T s2" "subtree_at T s2 (Some f) (GT v cs)" using env at Some revalued_env(1,2) [OF r2] by simp_all
      ultimately have "x_cutval f s2 = Some (upd_e f (\<lambda>x. x\<lparr>e_cutvalue := cut_of T s2 f\<rparr>) s2)" using x_cutval_spec by blast
      moreover note recut_trans [OF r12 recut_set [of T f s2]]
      ultimately show ?thesis using two Some by auto
    qed
  qed
qed


section \<open>The cut values\<close>

text \<open>The weight of the edges that leave a set of nodes, less that of the edges that enter it.\<close>

definition cut_weight :: "fgraph \<Rightarrow> nat set \<Rightarrow> int" where
  "cut_weight s S = (\<Sum>e | fast s e \<and> vtail s e \<in> S \<and> vhead s e \<notin> S. e_weight (vedges s e)) -
     (\<Sum>e | fast s e \<and> vtail s e \<notin> S \<and> vhead s e \<in> S. e_weight (vedges s e))"

text \<open>The only tree edge across the cut is the one that leaves it.\<close>

definition tree_cut :: "fgraph \<Rightarrow> nat set \<Rightarrow> nat \<Rightarrow> bool" where
  "tree_cut s S e \<longleftrightarrow> vtail s e \<in> S \<and> vhead s e \<notin> S \<and>
     (\<forall>g. fast s g \<longrightarrow> TREE_EDGE s g \<longrightarrow> (vtail s g \<in> S) \<noteq> (vhead s g \<in> S) \<longrightarrow> g = e)"

lemma sum_outs:
  fixes g :: "nat \<Rightarrow> int"
  assumes ok: "fg_ok s" and fin: "finite S"
  shows "(\<Sum>u\<in>S. \<Sum>e\<leftarrow>outs s u. g e) = (\<Sum>e | fast s e \<and> vtail s e \<in> S. g e)"
    and "(\<Sum>u\<in>S. \<Sum>e\<leftarrow>ins s u. g e) = (\<Sum>e | fast s e \<and> vhead s e \<in> S. g e)"
proof -
  have "(\<Sum>u\<in>S. \<Sum>e\<leftarrow>outs s u. g e) = (\<Sum>u\<in>S. \<Sum>e\<in>set (outs s u). g e)"
    using fg_okD(1) [OF ok] by (simp add: sum_list_distinct_conv_sum_set)
  also have "\<dots> = (\<Sum>e\<in>(\<Union>u\<in>S. set (outs s u)). g e)"
    using fast_iff [OF ok] by (subst sum.UNION_disjoint [OF fin]) auto
  also have "(\<Union>u\<in>S. set (outs s u)) = {e. fast s e \<and> vtail s e \<in> S}" using fast_iff [OF ok] by auto
  finally show "(\<Sum>u\<in>S. \<Sum>e\<leftarrow>outs s u. g e) = (\<Sum>e | fast s e \<and> vtail s e \<in> S. g e)" .
  have "(\<Sum>u\<in>S. \<Sum>e\<leftarrow>ins s u. g e) = (\<Sum>u\<in>S. \<Sum>e\<in>set (ins s u). g e)"
    using fg_okD(2) [OF ok] by (simp add: sum_list_distinct_conv_sum_set)
  also have "\<dots> = (\<Sum>e\<in>(\<Union>u\<in>S. set (ins s u)). g e)"
    using ins_iff [OF ok] by (subst sum.UNION_disjoint [OF fin]) auto
  also have "(\<Union>u\<in>S. set (ins s u)) = {e. fast s e \<and> vhead s e \<in> S}" using ins_iff [OF ok] by auto
  finally show "(\<Sum>u\<in>S. \<Sum>e\<leftarrow>ins s u. g e) = (\<Sum>e | fast s e \<and> vhead s e \<in> S. g e)" .
qed

lemma net_cut:
  assumes ok: "fg_ok s" and fin: "finite S"
  shows "net_weight s S = cut_weight s S"
proof -
  let ?w = "\<lambda>e. e_weight (vedges s e)"
  have f: "finite {e. fast s e \<and> P e}" for P using fast_finite [OF ok] by (rule rev_finite_subset) auto
  have split: "(\<Sum>e | fast s e \<and> P e. ?w e) = (\<Sum>e | fast s e \<and> P e \<and> Q e. ?w e) + (\<Sum>e | fast s e \<and> P e \<and> \<not> Q e. ?w e)" for P Q
  proof -
    have "{e. fast s e \<and> P e} = {e. fast s e \<and> P e \<and> Q e} \<union> {e. fast s e \<and> P e \<and> \<not> Q e}" by blast
    then show ?thesis using f by (simp only:) (rule sum.union_disjoint, auto)
  qed
  have "net_weight s S = (\<Sum>e | fast s e \<and> vtail s e \<in> S. ?w e) - (\<Sum>e | fast s e \<and> vhead s e \<in> S. ?w e)"
    unfolding net_weight_def sum_subtractf sum_outs [OF ok fin] ..
  also have "\<dots> = cut_weight s S"
    unfolding cut_weight_def split [of "\<lambda>e. vtail s e \<in> S" "\<lambda>e. vhead s e \<in> S"] split [of "\<lambda>e. vhead s e \<in> S" "\<lambda>e. vtail s e \<in> S"]
    by (simp add: conj_commute)
  finally show ?thesis .
qed

lemma cut_other_side:
  assumes "closed_on V s" and "S \<subseteq> V"
  shows "cut_weight s (V - S) = - cut_weight s S"
proof -
  have "{e. fast s e \<and> vtail s e \<in> V - S \<and> vhead s e \<notin> V - S} = {e. fast s e \<and> vtail s e \<notin> S \<and> vhead s e \<in> S}"
    "{e. fast s e \<and> vtail s e \<notin> V - S \<and> vhead s e \<in> V - S} = {e. fast s e \<and> vtail s e \<in> S \<and> vhead s e \<notin> S}"
    using assms unfolding closed_on_def by blast+
  then show ?thesis unfolding cut_weight_def by simp
qed

text \<open>The tree edges at the nodes of a subtree.\<close>

lemma tree_edge_in:
  "cut_env T s \<Longrightarrow> subtree_at T s par t \<Longrightarrow> u \<in> set (gnodes t) \<Longrightarrow> g \<in> set (touts s u) \<union> set (tins s u) \<Longrightarrow>
    Some g = par \<or> g \<in> set (tedges t) \<and> vtail s g \<in> set (gnodes t) \<and> vhead s g \<in> set (gnodes t)"
proof (induction t arbitrary: par rule: gtree_induct)
  case (1 v cs)
  note env = "1.prems"(1) note at = "1.prems"(2) note sp = cut_envD(1) [OF env]
  have edge: "vtail s (fst p) \<in> set (gnodes (GT v cs)) \<and> vhead s (fst p) \<in> set (gnodes (GT v cs))" if p: "p \<in> set cs" for p
  proof -
    have "groot (snd p) \<in> set (gnodes (GT v cs))" using p by (intro subsetD [OF _ groot_in [of "snd p"]]) auto
    moreover have "v \<in> set (gnodes (GT v cs))" by simp
    ultimately show ?thesis using kid_edges(2) [OF sp at p] by metis
  qed
  show ?case
  proof (cases "u = v")
    case True
    show ?thesis
    proof (cases "Some g = par")
      case False
      then have "g \<in> set (map fst cs)" unfolding kid_lists(1) [OF env at] using "1.prems"(4) True by auto
      then obtain p where p: "p \<in> set cs" "g = fst p" by auto
      then have "g \<in> set (tedges (GT v cs))" by auto
      with edge [OF p(1)] p(2) show ?thesis by simp
    qed simp
  next
    case False
    then obtain p where p: "p \<in> set cs" "u \<in> set (gnodes (snd p))" using "1.prems"(3) by auto
    from "1.IH" [OF p(1) env kid_edges(1) [OF sp at p(1)] p(2) "1.prems"(4)]
    consider "g = fst p" | "g \<in> set (tedges (snd p))" "vtail s g \<in> set (gnodes (snd p))" "vhead s g \<in> set (gnodes (snd p))" by auto
    then show ?thesis
    proof cases
      case 1
      then have "g \<in> set (tedges (GT v cs))" using p(1) by auto
      with edge [OF p(1)] 1 show ?thesis by simp
    next
      case 2
      then have "g \<in> set (tedges (GT v cs))" "vtail s g \<in> set (gnodes (GT v cs))" "vhead s g \<in> set (gnodes (GT v cs))"
        using p(1) by auto
      then show ?thesis by simp
    qed
  qed
qed

lemma tree_edge_iff:
  assumes "spanning s T" and "n \<in> set (gnodes T)"
  shows "e \<in> set (touts s n) \<longleftrightarrow> fast s e \<and> TREE_EDGE s e \<and> vtail s e = n"
    and "e \<in> set (tins s n) \<longleftrightarrow> fast s e \<and> TREE_EDGE s e \<and> vhead s e = n"
  using spanningD(6) [OF assms] fast_iff [OF spanningD(1) [OF assms(1)]] ins_iff [OF spanningD(1) [OF assms(1)]] by auto

text \<open>Every edge of a subtree leads to a subtree of its own.\<close>

lemma tree_edge_kid:
  "cut_env T s \<Longrightarrow> subtree_at T s par t \<Longrightarrow> g \<in> set (tedges t) \<Longrightarrow>
    \<exists>t'. subtree_at T s (Some g) t' \<and> child_end s g = groot t' \<and>
      (v_par (vnodes s (vtail s g)) = Some g \<longleftrightarrow> vtail s g = groot t')"
proof (induction t arbitrary: par rule: gtree_induct)
  case (1 v cs)
  note env = "1.prems"(1) note at = "1.prems"(2) note sp = cut_envD(1) [OF env]
  from "1.prems"(3) obtain p where p: "p \<in> set cs" "g = fst p \<or> g \<in> set (tedges (snd p))" by auto
  show ?case
  proof (cases "g = fst p")
    case True
    then show ?thesis using kid_edges(1) [OF sp at p(1)] kid_child [OF sp at p(1)] by blast
  next
    case False
    then show ?thesis using "1.IH" [OF p(1) env kid_edges(1) [OF sp at p(1)]] p(2) by blast
  qed
qed

lemma tedges_ok:
  "cut_env T s \<Longrightarrow> subtree_at T s par t \<Longrightarrow> g \<in> set (tedges t) \<Longrightarrow> fast s g \<and> TREE_EDGE s g \<and> vtail s g \<in> set (gnodes T)"
proof (induction t arbitrary: par rule: gtree_induct)
  case (1 v cs)
  note env = "1.prems"(1) note at = "1.prems"(2) note sp = cut_envD(1) [OF env]
  have v: "v \<in> set (gnodes T)" using at by (simp add: subtree_at_def)
  from "1.prems"(3) obtain p where p: "p \<in> set cs" "g = fst p \<or> g \<in> set (tedges (snd p))" by auto
  note k = kid_edges [OF sp at p(1)]
  show ?case
  proof (cases "g = fst p")
    case True
    have "groot (snd p) \<in> set (gnodes T)" using k(1) groot_in [of "snd p"] by (auto simp: subtree_at_def)
    then show ?thesis using k(2) True v tree_edge_iff [OF sp v] by auto
  next
    case False
    then show ?thesis using "1.IH" [OF p(1) env k(1)] p(2) by blast
  qed
qed

text \<open>A correct cut value is the weight across the cut of its edge.\<close>

lemma cut_of_tree_cut:
  assumes env: "cut_env T s" and at: "subtree_at T s None T" and e: "fast s e" "TREE_EDGE s e" "vtail s e \<in> set (gnodes T)"
  shows "\<exists>S \<subseteq> set (gnodes T). tree_cut s S e \<and> cut_of T s e = cut_weight s S"
proof -
  note sp = cut_envD(1) [OF env] note ok = spanningD(1) [OF sp]
  have te: "e \<in> set (tedges T)"
    using tree_edge_in [OF env at e(3), of e] tree_edge_iff(1) [OF sp e(3)] e by auto
  obtain t where t: "subtree_at T s (Some e) t" "child_end s e = groot t" "v_par (vnodes s (vtail s e)) = Some e \<longleftrightarrow> vtail s e = groot t"
    using tree_edge_kid [OF env at te] by blast
  let ?S = "set (gnodes t)"
  have sub: "?S \<subseteq> set (gnodes T)" using t(1) by (simp add: subtree_at_def)
  have ends: "vtail s e = groot t \<and> vhead s e \<notin> ?S \<or> vhead s e = groot t \<and> vtail s e \<notin> ?S" using t(1) by (simp add: subtree_at_def)
  have only: "g = e" if "fast s g" "TREE_EDGE s g" "(vtail s g \<in> ?S) \<noteq> (vhead s g \<in> ?S)" for g
  proof -
    note cross = that(3)
    have "g \<in> set (touts s (vtail s g))" if "vtail s g \<in> ?S" using that tree_edge_iff(1) [OF sp, of "vtail s g" g] sub \<open>fast s g\<close> \<open>TREE_EDGE s g\<close> by auto
    moreover have "g \<in> set (tins s (vhead s g))" if "vhead s g \<in> ?S" using that tree_edge_iff(2) [OF sp, of "vhead s g" g] sub \<open>fast s g\<close> \<open>TREE_EDGE s g\<close> by auto
    ultimately obtain u where u: "u \<in> ?S" "g \<in> set (touts s u) \<union> set (tins s u)" using cross by blast
    from tree_edge_in [OF env t(1) u] cross show "g = e" by auto
  qed
  have net: "net_weight s ?S = cut_weight s ?S" by (rule net_cut [OF ok]) simp
  show ?thesis
  proof (cases "vtail s e = groot t")
    case True
    then have "tree_cut s ?S e" using ends groot_in [of t] only by (auto simp: tree_cut_def)
    moreover have "cut_of T s e = cut_weight s ?S" using True t(3) net subtree_set [OF env t(1)] by (simp add: cut_of_def t(2))
    ultimately show ?thesis using sub by blast
  next
    case False
    let ?R = "set (gnodes T) - ?S"
    have cl: "vtail s g \<in> set (gnodes T) \<longleftrightarrow> vhead s g \<in> set (gnodes T)" if "fast s g" for g
      using spanningD(3) [OF sp] that by (simp add: closed_on_def)
    have "tree_cut s ?R e" unfolding tree_cut_def
    proof (intro conjI allI impI)
      show "vtail s e \<in> ?R" "vhead s e \<notin> ?R" using False ends groot_in [of t] e(3) by auto
      fix g assume g: "fast s g" "TREE_EDGE s g" "(vtail s g \<in> ?R) \<noteq> (vhead s g \<in> ?R)"
      then show "g = e" using only [OF g(1,2)] cl [OF g(1)] by blast
    qed
    moreover have "cut_of T s e = cut_weight s ?R"
      using False t(3) net subtree_set [OF env t(1)] cut_other_side [OF spanningD(3) [OF sp] sub] by (simp add: cut_of_def t(2))
    ultimately show ?thesis by blast
  qed
qed


section \<open>The theorem\<close>

text \<open>What the traversal needs of the state.\<close>

definition cut_ready :: "gtree \<Rightarrow> fgraph \<Rightarrow> bool" where
  "cut_ready T s \<longleftrightarrow> spanning s T \<and> nlist s = Some (groot T) \<and> (\<forall>e. fast s e \<longrightarrow> 0 \<le> e_weight (vedges s e)) \<and>
     (\<Sum>u\<in>set (gnodes T). deg_weight s u) < 2 ^ 31"

lemma renum_spanning:
  assumes "renum A s s'"
  shows "spanning s' T = spanning s T" and "fast s' e = fast s e" and "deg_weight s' u = deg_weight s u" and "TREE_EDGE s' e = TREE_EDGE s e"
    and "SLACK s' e = SLACK s e"
proof -
  note r = renumD [OF assms]
  show f: "fast s' e = fast s e" for e by (simp add: fast_def r)
  have "is_tree s' p t = is_tree s p t" for p t by (rule is_tree_same) (simp_all add: r)
  moreover have "fg_ok s' = fg_ok s" "frel s' = frel s" "closed_on V s' = closed_on V s" for V
    by (simp_all add: fg_ok_def frel_def closed_on_def r f)
  ultimately show "spanning s' T = spanning s T" by (simp add: spanning_def r TREE_EDGE_def)
  show "deg_weight s' u = deg_weight s u" by (simp add: deg_weight_def r)
  show "TREE_EDGE s' e = TREE_EDGE s e" by (simp add: TREE_EDGE_def r)
  show "SLACK s' e = SLACK s e" by (simp add: SLACK_def LENGTH_e_def r)
qed

lemma init_cutvalues_spec:
  assumes rd: "cut_ready T s" and k: "length (gnodes T) \<le> k"
  shows "\<exists>s1 s'. init_cutvalues k s = Some s' \<and> renum (set (gnodes T)) s s1 \<and> revalued s1 s' \<and> cut_env T s' \<and> subtree_at T s' None T \<and>
    (\<forall>e\<in>set (tedges T). cut_good T s' e)"
proof -
  have sp: "spanning s T" using rd by (simp add: cut_ready_def)
  from dfs_range_init_spec [OF spanningD(4,5) [OF sp]] obtain s1 where
    s1: "dfs_range_init (groot T) s = Some (int (length (gnodes T)) + 1, s1)" "numbered s1 1 T" "renum (set (gnodes T)) s s1"
      "v_par (vnodes s1 (groot T)) = None" by blast
  have env: "cut_env T s1"
    using rd s1(2) by (simp add: cut_env_def cut_ready_def renum_spanning [OF s1(3)] renumD(1) [OF s1(3)])
  have at: "subtree_at T s1 None T"
    using s1(2,4) spanningD(4,5) [OF cut_envD(1) [OF env]] by (auto simp: subtree_at_def)
  from cut_tree [OF k, of T None, unfolded cut_done_def] env at obtain s' where
    s': "dfs_cutval k (groot T) None s1 = Some s'" "recut T (set (tedges T)) s1 s'" by auto
  have "init_cutvalues k s = Some s'" using rd s1(1) s'(1) by (simp add: init_cutvalues_def cut_ready_def)
  moreover note recut_revalued [OF s'(2)]
  moreover have "\<forall>e\<in>set (tedges T). cut_good T s' e" using s'(2) by (simp add: recut_def)
  ultimately show ?thesis using s1(3) env at revalued_env(1,2) [OF recut_revalued [OF s'(2)]] by blast
qed

lemma tree_edge_listed:
  assumes "cut_env T s" and "subtree_at T s None T" and "fast s e" and "TREE_EDGE s e" and "vtail s e \<in> set (gnodes T)"
  shows "e \<in> set (tedges T)"
  using tree_edge_in [OF assms(1,2,5), of e] tree_edge_iff(1) [OF cut_envD(1) [OF assms(1)] assms(5)] assms(3,4) by auto

text \<open>
  C11. \<open>init_cutvalues\<close>, given fuel for the depth of the tree, returns on every spanning tree of nonnegative
  weights whose sum fits an \<open>int\<close> (no cut value overflows), and gives every tree edge its cut value
  as the network simplex defines it: the weight of the edges that go from the tail side to the head side
  of the cut that removing it makes in the tree, less the weight of those that go back. Ranks, weights and
  the tree do not change.
\<close>

theorem init_cutvalues_correct:
  assumes rd: "cut_ready T s" and k: "length (gnodes T) \<le> k"
  shows "\<exists>s'. init_cutvalues k s = Some s' \<and>
    (\<forall>e. fast s e \<and> TREE_EDGE s e \<and> vtail s e \<in> set (gnodes T) \<longrightarrow>
       (\<exists>S \<subseteq> set (gnodes T). tree_cut s S e \<and> cutv s' e = cut_weight s S)) \<and>
    (\<forall>e. fast s' e = fast s e \<and> vtail s' e = vtail s e \<and> vhead s' e = vhead s e \<and> TREE_EDGE s' e = TREE_EDGE s e \<and>
       SLACK s' e = SLACK s e)"
proof -
  from init_cutvalues_spec [OF rd k] obtain s1 s' where
    s': "init_cutvalues k s = Some s'" and r1: "renum (set (gnodes T)) s s1" and r2: "revalued s1 s'" and env: "cut_env T s'"
    and at: "subtree_at T s' None T" and g: "\<forall>e\<in>set (tedges T). cut_good T s' e" by blast
  note same = revalued_same [OF r2] renum_spanning [OF r1] renumD(1) [OF r1]
  have sl: "SLACK s' e = SLACK s e" for e unfolding SLACK_def revalued_same [OF r2] using renum_spanning(5) [OF r1, of e] by (simp add: SLACK_def)
  have cw: "cut_weight s' S = cut_weight s S" "tree_cut s' S e = tree_cut s S e" for S e
    unfolding cut_weight_def tree_cut_def by (simp_all add: same)
  have "\<exists>S \<subseteq> set (gnodes T). tree_cut s S e \<and> cutv s' e = cut_weight s S"
    if e: "fast s e" "TREE_EDGE s e" "vtail s e \<in> set (gnodes T)" for e
  proof -
    have e': "fast s' e" "TREE_EDGE s' e" "vtail s' e \<in> set (gnodes T)" using e by (simp_all add: same)
    have "cutv s' e = cut_of T s' e" using g tree_edge_listed [OF env at e'] by (auto simp: cut_good_def)
    with cut_of_tree_cut [OF env at e'] show ?thesis unfolding cw by auto
  qed
  with s' sl show ?thesis by (intro exI [of _ s']) (simp add: same)
qed

section \<open>Towards optimality\<close>

text \<open>The other ranking is no shorter, one subtree after the other.\<close>

lemma abel:
  "cut_env T s \<Longrightarrow> subtree_at T s par t \<Longrightarrow>
    (\<forall>e\<in>set (tedges t). cut_good T s e \<and> 0 \<le> cutv s e \<and> \<delta> (vtail s e) \<le> (\<delta> (vhead s e) :: int)) \<Longrightarrow>
    (\<Sum>u\<in>set (gnodes t). \<delta> u * net_weight s {u}) \<le> \<delta> (groot t) * net_weight s (set (gnodes t))"
proof (induction t arbitrary: par rule: gtree_induct)
  case (1 v cs)
  note env = "1.prems"(1) note at = "1.prems"(2) note sp = cut_envD(1) [OF env]
  have dk: "distinct (knodes cs)" "v \<notin> set (knodes cs)" using at by (simp_all add: subtree_at_def)
  have nodes: "set (gnodes (GT v cs)) = insert v (set (knodes cs))" by auto
  have kid: "(\<Sum>u\<in>set (gnodes (snd p)). \<delta> u * net_weight s {u}) \<le> \<delta> v * net_weight s (set (gnodes (snd p)))" if p: "p \<in> set cs" for p
  proof -
    note k = kid_edges [OF sp at p] and c = kid_child [OF sp at p]
    have e: "cut_good T s (fst p)" "0 \<le> cutv s (fst p)" "\<delta> (vtail s (fst p)) \<le> \<delta> (vhead s (fst p))"
      using "1.prems"(3) p by auto
    have "\<forall>e\<in>set (tedges (snd p)). cut_good T s e \<and> 0 \<le> cutv s e \<and> \<delta> (vtail s e) \<le> \<delta> (vhead s e)"
      using "1.prems"(3) p by auto
    note IH = "1.IH" [OF p env k(1) this]
    have co: "cutv s (fst p) = (if vtail s (fst p) = groot (snd p) then 1 else -1) * net_weight s (set (gnodes (snd p)))"
      using e(1) unfolding cut_good_def cut_of_def c subtree_set [OF env k(1)] .
    have ne: "v \<noteq> groot (snd p)" using dk(2) p groot_in [of "snd p"] by auto
    have "(\<delta> (groot (snd p)) - \<delta> v) * net_weight s (set (gnodes (snd p))) \<le> 0"
    proof (cases "vtail s (fst p) = groot (snd p)")
      case True
      then have "vhead s (fst p) = v" using k(2) ne by auto
      with e co True show ?thesis by (intro mult_nonpos_nonneg) auto
    next
      case False
      then have "vtail s (fst p) = v" "vhead s (fst p) = groot (snd p)" using k(2) by auto
      with e co False show ?thesis by (intro mult_nonneg_nonpos) auto
    qed
    with IH show ?thesis by (simp add: left_diff_distrib)
  qed
  have "(\<Sum>u\<in>set (knodes cs). \<delta> u * net_weight s {u}) = (\<Sum>p\<leftarrow>cs. \<Sum>u\<in>set (gnodes (snd p)). \<delta> u * net_weight s {u})"
    by (rule sum_kids [OF dk(1), symmetric])
  also have "\<dots> \<le> (\<Sum>p\<leftarrow>cs. \<delta> v * net_weight s (set (gnodes (snd p))))" by (rule sum_list_mono) (rule kid)
  also have "\<dots> = \<delta> v * net_weight s (set (knodes cs))"
    unfolding sum_list_const_mult net_weight_def sum_kids [OF dk(1)] ..
  finally show ?case unfolding nodes using dk(2) by (simp add: net_weight_def distrib_left)
qed


lemma length_difference:
  assumes ok: "fg_ok s" and cl: "closed_on V s" and fin: "finite V"
  shows "(\<Sum>e | fast s e \<and> vtail s e \<in> V. e_weight (vedges s e) * (\<delta> (vhead s e) - \<delta> (vtail s e))) = - (\<Sum>u\<in>V. \<delta> u * net_weight s {u})"
proof -
  let ?w = "\<lambda>e. e_weight (vedges s e)"
  have eq: "{e. fast s e \<and> vtail s e \<in> V} = {e. fast s e \<and> vhead s e \<in> V}" using cl by (auto simp: closed_on_def)
  have o: "\<delta> u * out_weight s u = (\<Sum>e\<leftarrow>outs s u. ?w e * \<delta> (vtail s e))" for u
  proof -
    have "(\<Sum>e\<leftarrow>outs s u. ?w e * \<delta> (vtail s e)) = (\<Sum>e\<leftarrow>outs s u. \<delta> u * ?w e)"
      by (rule arg_cong [where f = sum_list], rule map_cong [OF refl]) (use fast_iff [OF ok] in auto)
    then show ?thesis by (simp add: sum_list_const_mult)
  qed
  have i: "\<delta> u * in_weight s u = (\<Sum>e\<leftarrow>ins s u. ?w e * \<delta> (vhead s e))" for u
  proof -
    have "(\<Sum>e\<leftarrow>ins s u. ?w e * \<delta> (vhead s e)) = (\<Sum>e\<leftarrow>ins s u. \<delta> u * ?w e)"
      by (rule arg_cong [where f = sum_list], rule map_cong [OF refl]) (use ins_iff [OF ok] in auto)
    then show ?thesis by (simp add: sum_list_const_mult)
  qed
  have "(\<Sum>u\<in>V. \<delta> u * net_weight s {u}) = (\<Sum>u\<in>V. \<delta> u * out_weight s u) - (\<Sum>u\<in>V. \<delta> u * in_weight s u)"
    by (simp add: net_weight_def right_diff_distrib sum_subtractf)
  also have "\<dots> = (\<Sum>e | fast s e \<and> vtail s e \<in> V. ?w e * \<delta> (vtail s e)) - (\<Sum>e | fast s e \<and> vhead s e \<in> V. ?w e * \<delta> (vhead s e))"
    unfolding o i sum_outs [OF ok fin] ..
  also have "\<dots> = - (\<Sum>e | fast s e \<and> vtail s e \<in> V. ?w e * (\<delta> (vhead s e) - \<delta> (vtail s e)))"
    unfolding eq [symmetric] by (simp add: right_diff_distrib sum_subtractf)
  finally show ?thesis by simp
qed

text \<open>The tree of two edges out of the source; the third edge closes a cycle.\<close>

definition slanted :: fgraph where
  "slanted = roomy\<lparr>
     vnodes := (vnodes roomy)(0 := (vnodes roomy 0)\<lparr>v_tree_out := [0, 2]\<rparr>, 1 := (vnodes roomy 1)\<lparr>v_tree_in := [0]\<rparr>,
                              2 := (vnodes roomy 2)\<lparr>v_tree_in := [2]\<rparr>),
     vedges := (vedges roomy)(1 := (vedges roomy 1)\<lparr>e_tree_index := -1\<rparr>, 2 := (vedges roomy 2)\<lparr>e_tree_index := 1\<rparr>)\<rparr>"

definition slanted_tree :: gtree where
  "slanted_tree = GT 0 [(0, GT 1 []), (2, GT 2 [])]"


lemma slanted_fast: "fast slanted e \<longleftrightarrow> e = 0 \<or> e = 1 \<or> e = 2"
  by (auto simp: slanted_def roomy_def zero_node_def blank_edge_def fast_def)

lemma slanted_ready: "cut_ready slanted_tree slanted"
proof -
  have ok: "fg_ok slanted" unfolding fg_ok_def by (auto simp: slanted_def roomy_def short_cut_def zero_node_def blank_edge_def)
  have "closed_on (set (gnodes slanted_tree)) slanted" unfolding closed_on_def slanted_fast
    by (auto simp: slanted_def slanted_tree_def roomy_def blank_edge_def)
  moreover have "irrefl (frel slanted)" unfolding frel_def slanted_fast by (auto simp: irrefl_def slanted_def roomy_def blank_edge_def)
  ultimately have "spanning slanted slanted_tree"
    unfolding spanning_def using ok by (auto simp: slanted_def slanted_tree_def roomy_def zero_node_def blank_edge_def TREE_EDGE_def)
  then show ?thesis unfolding cut_ready_def slanted_fast
    by (auto simp: slanted_def slanted_tree_def roomy_def short_cut_def two_cycle_def zero_node_def blank_edge_def deg_weight_def)
qed

lemma init_cutvalues_correct_witness:
  "\<exists>s'. init_cutvalues 3 slanted = Some s' \<and>
    (\<forall>e. fast slanted e \<and> TREE_EDGE slanted e \<and> vtail slanted e \<in> set (gnodes slanted_tree) \<longrightarrow>
       (\<exists>S \<subseteq> set (gnodes slanted_tree). tree_cut slanted S e \<and> cutv s' e = cut_weight slanted S)) \<and>
    (\<forall>e. fast s' e = fast slanted e \<and> vtail s' e = vtail slanted e \<and> vhead s' e = vhead slanted e \<and>
       TREE_EDGE s' e = TREE_EDGE slanted e \<and> SLACK s' e = SLACK slanted e)"
  by (rule init_cutvalues_correct [OF slanted_ready]) (simp add: slanted_tree_def)

end
