(* ===== verification/Ns_Enter.thy ===== *)
theory Ns_Enter
  imports Ns_Pivot Ns_Optimal
begin

text \<open>
  The entering edge: the search below the child end of a tree edge finds an edge of least slack that
  crosses the cut against the tree edge, or none when there is none.
\<close>

section \<open>Up and down\<close>

text \<open>The child end of a tree edge has the lower number.\<close>

lemma kid_lim:
  assumes "numbered s l (GT v cs)" and "p \<in> set cs"
  shows "v_lim (vnodes s (groot (snd p))) < v_lim (vnodes s v)"
proof -
  have "numbered_kids s l cs" and v: "v_lim (vnodes s v) = l + int (length (knodes cs))" using assms(1) by simp_all
  then have "map (\<lambda>u. v_lim (vnodes s u)) (knodes cs) = map (\<lambda>i. l + int i) [0..<length (knodes cs)]"
    using numbered_lims(2) by blast
  then have "(\<lambda>u. v_lim (vnodes s u)) ` set (knodes cs) = (\<lambda>i. l + int i) ` {0..<length (knodes cs)}"
    by (metis image_set set_upt)
  moreover have "groot (snd p) \<in> set (knodes cs)"
    using assms(2) by (intro subsetD [OF _ groot_in [of "snd p"]]) auto
  ultimately have "v_lim (vnodes s (groot (snd p))) \<in> (\<lambda>i. l + int i) ` {0..<length (knodes cs)}" by blast
  then show ?thesis using v by auto
qed

lemma tree_edge_down:
  "cut_env T s \<Longrightarrow> subtree_at T s par t \<Longrightarrow> g \<in> set (tedges t) \<Longrightarrow>
    \<exists>t'. subtree_at T s (Some g) t' \<and> child_end s g = groot t' \<and>
      (vtail s g = groot t' \<and> v_lim (vnodes s (vtail s g)) < v_lim (vnodes s (vhead s g)) \<or>
       vhead s g = groot t' \<and> v_lim (vnodes s (vhead s g)) < v_lim (vnodes s (vtail s g))) \<and>
      (\<forall>u. u = vtail s g \<or> u = vhead s g \<longrightarrow> (v_par (vnodes s u) = Some g \<longleftrightarrow> u = groot t'))"
proof (induction t arbitrary: par rule: gtree_induct)
  case (1 v cs)
  note env = "1.prems"(1) note at = "1.prems"(2) note sp = cut_envD(1) [OF env]
  from "1.prems"(3) obtain p where p: "p \<in> set cs" "g = fst p \<or> g \<in> set (tedges (snd p))" by auto
  obtain l where l: "numbered s l (GT v cs)" using at by (auto simp: subtree_at_def)
  show ?case
  proof (cases "g = fst p")
    case True
    have "v_par (vnodes s v) \<noteq> Some g" using at kid_edges(2) [OF sp at p(1)] True by (auto simp: subtree_at_def)
    moreover have "v_par (vnodes s (groot (snd p))) = Some g" using kid_edges(1) [OF sp at p(1)] True by (simp add: subtree_at_def)
    moreover have "v \<noteq> groot (snd p)" using kid_lim [OF l p(1)] by auto
    ultimately show ?thesis
      using kid_edges [OF sp at p(1)] kid_child(1) [OF sp at p(1)] kid_lim [OF l p(1)] True by (intro exI [of _ "snd p"]) auto
  next
    case False
    then show ?thesis using "1.IH" [OF p(1) env kid_edges(1) [OF sp at p(1)]] p(2) by blast
  qed
qed

section \<open>One node\<close>

definition pick_enter :: "fgraph \<Rightarrow> nat \<Rightarrow> nat option \<times> int \<Rightarrow> nat option \<times> int" where
  "pick_enter s e x = (if SLACK s e < snd x \<or> fst x = None then (Some e, SLACK s e) else x)"

lemma fold_enter:
  "fold (enter_step out s Lo Hi v) es (todo, x) =
    (rev (map (far_end out s) (filter (\<lambda>e. TREE_EDGE s e \<and> v_lim (vnodes s (far_end out s e)) < v_lim (vnodes s v)) es)) @ todo,
     fold (pick_enter s) (filter (\<lambda>e. \<not> TREE_EDGE s e \<and> \<not> SEQ Lo (v_lim (vnodes s (far_end out s e))) Hi) es) x)"
proof (induction es arbitrary: todo x)
  case (Cons e es)
  obtain En Sl where x: "x = (En, Sl)" by force
  show ?case using Cons by (simp add: x enter_step_def pick_enter_def Let_def)
qed simp

lemma push_below_eq:
  "push_below out s v es todo =
    rev (map (near_end out s) (filter (\<lambda>e. v_lim (vnodes s (near_end out s e)) < v_lim (vnodes s v)) es)) @ todo"
  unfolding push_below_def by (induction es arbitrary: todo) simp_all

text \<open>The best edge of a set, with its slack.\<close>

definition best_enter :: "fgraph \<Rightarrow> nat set \<Rightarrow> nat option \<times> int \<Rightarrow> bool" where
  "best_enter s G x \<longleftrightarrow>
    (case fst x of None \<Rightarrow> G = {} \<and> snd x = INT_MAX | Some f \<Rightarrow> f \<in> G \<and> snd x = SLACK s f \<and> (\<forall>g\<in>G. SLACK s f \<le> SLACK s g))"

lemma best_pick: "best_enter s G x \<Longrightarrow> best_enter s (G \<union> set es) (fold (pick_enter s) es x)"
proof (induction es arbitrary: G x)
  case (Cons e es)
  have "best_enter s (insert e G) (pick_enter s e x)"
    using Cons.prems by (force simp: best_enter_def pick_enter_def split: option.splits)
  from Cons.IH [OF this] show ?case by simp
qed simp

lemma best_slack_le: "best_enter s G x \<Longrightarrow> best_enter s H y \<Longrightarrow> G \<subseteq> H \<Longrightarrow> snd x \<le> 0 \<Longrightarrow> snd y \<le> 0"
  by (force simp: best_enter_def INT_MAX_def split: option.splits)

section \<open>The search\<close>

definition crossing :: "bool \<Rightarrow> fgraph \<Rightarrow> nat set \<Rightarrow> nat set \<Rightarrow> nat set" where
  "crossing out s S D = {g. fast s g \<and> \<not> TREE_EDGE s g \<and> near_end out s g \<in> D \<and> far_end out s g \<notin> S}"

abbreviation kid_at :: "(nat \<times> gtree) list \<Rightarrow> nat \<Rightarrow> gtree" where
  "kid_at cs e \<equiv> the (map_of cs e)"

lemma kid_at_in:
  assumes "distinct (map fst cs)" and "e \<in> set (map fst cs)"
  shows "(e, kid_at cs e) \<in> set cs"
  using assms by (metis map_of_SomeD map_of_eq_None_iff option.collapse set_map)

lemma sum_kid_at:
  assumes d: "distinct (map fst cs)" and L: "distinct L" "set L \<subseteq> set (map fst cs)"
  shows "(\<Sum>e\<leftarrow>L. length (gnodes (kid_at cs e))) \<le> length (knodes cs)"
proof -
  have "(\<Sum>e\<leftarrow>L. length (gnodes (kid_at cs e))) \<le> (\<Sum>e\<leftarrow>map fst cs. length (gnodes (kid_at cs e)))"
    unfolding sum_list_distinct_conv_sum_set [OF L(1)] sum_list_distinct_conv_sum_set [OF d] by (rule sum_mono2) (use L(2) in auto)
  also have "\<dots> = (\<Sum>p\<leftarrow>cs. length (gnodes (snd p)))"
    unfolding map_map by (rule arg_cong [where f = sum_list], rule map_cong [OF refl]) (use d in auto)
  also have "\<dots> = length (knodes cs)" by (simp add: length_concat o_def)
  finally show ?thesis .
qed

text \<open>The tree edges at a node that lead down are those to its children.\<close>

lemma down_edges:
  assumes env: "cut_env T s" and rt: "subtree_at T s None T" and at: "subtree_at T s (Some g) (GT v cs)" and e: "e \<in> set (touts s v) \<union> set (tins s v)"
    and w: "{vtail s e, vhead s e} = {v, w}"
  shows "v_lim (vnodes s w) < v_lim (vnodes s v) \<longleftrightarrow> e \<in> set (map fst cs)"
proof -
  note sp = cut_envD(1) [OF env] note ok = spanningD(1) [OF sp]
  have v: "v \<in> set (gnodes T)" using at by (simp add: subtree_at_def)
  have te: "e \<in> set (tedges T)" using tree_edge_in [OF env rt v e] by simp
  obtain t' where t': "child_end s e = groot t'" "vtail s e = groot t' \<and> v_lim (vnodes s (vtail s e)) < v_lim (vnodes s (vhead s e)) \<or>
       vhead s e = groot t' \<and> v_lim (vnodes s (vhead s e)) < v_lim (vnodes s (vtail s e))"
    "\<forall>u. u = vtail s e \<or> u = vhead s e \<longrightarrow> (v_par (vnodes s u) = Some e \<longleftrightarrow> u = groot t')"
    using tree_edge_down [OF env rt te] by blast
  have "e \<in> set (map fst cs) \<longleftrightarrow> Some e \<noteq> Some g" unfolding kid_lists(1) [OF env at] using e by auto
  moreover have "groot t' = v" if "e = g"
  proof -
    have "v_par (vnodes s v) = Some e" using at that by (simp add: subtree_at_def)
    then show ?thesis using t'(3) w by (metis doubleton_eq_iff)
  qed
  moreover have "child_end s e \<noteq> v" if "e \<in> set (map fst cs)"
  proof -
    obtain p where p: "p \<in> set cs" "e = fst p" using \<open>e \<in> set (map fst cs)\<close> by (auto simp: image_iff)
    have "groot (snd p) \<noteq> v" using at p groot_in [of "snd p"] unfolding subtree_at_def by auto
    then show ?thesis using kid_child(1) [OF sp at p(1)] p(2) by simp
  qed
  ultimately show ?thesis using t' w by (auto simp: doubleton_eq_iff)
qed


lemma node_edges:
  assumes env: "cut_env T s" and at: "subtree_at T s (Some g) (GT v cs)"
  shows "e \<in> set (if out then outs s v else ins s v) \<longleftrightarrow> fast s e \<and> near_end out s e = v"
    and "e \<in> set (if out then tins s v else touts s v) \<longleftrightarrow> fast s e \<and> TREE_EDGE s e \<and> far_end out s e = v"
    and "distinct (if out then outs s v else ins s v)" and "distinct (if out then tins s v else touts s v)"
    and "far_end out s e = v \<or> near_end out s e = v \<Longrightarrow> fast s e \<Longrightarrow> TREE_EDGE s e \<Longrightarrow> e \<in> set (touts s v) \<union> set (tins s v)"
    and "{vtail s e, vhead s e} = {near_end out s e, far_end out s e}"
proof -
  note sp = cut_envD(1) [OF env] note ok = spanningD(1) [OF sp]
  have v: "v \<in> set (gnodes T)" using at by (simp add: subtree_at_def)
  show "e \<in> set (if out then outs s v else ins s v) \<longleftrightarrow> fast s e \<and> near_end out s e = v"
    using fast_iff [OF ok] ins_iff [OF ok] by (simp add: near_end_def)
  show "e \<in> set (if out then tins s v else touts s v) \<longleftrightarrow> fast s e \<and> TREE_EDGE s e \<and> far_end out s e = v"
    using tree_edge_iff [OF sp v] by (simp add: far_end_def)
  show "distinct (if out then outs s v else ins s v)" using fg_okD(1,2) [OF ok] by simp
  show "distinct (if out then tins s v else touts s v)" using spanningD(6) [OF sp v] by simp
  show "far_end out s e = v \<or> near_end out s e = v \<Longrightarrow> fast s e \<Longrightarrow> TREE_EDGE s e \<Longrightarrow> e \<in> set (touts s v) \<union> set (tins s v)"
    using tree_edge_iff [OF sp v] by (auto simp: far_end_def near_end_def split: if_splits)
  show "{vtail s e, vhead s e} = {near_end out s e, far_end out s e}" by (auto simp: far_end_def near_end_def)
qed

text \<open>One node of the search: its children take its place on the stack.\<close>

lemma search_node:
  assumes env: "cut_env T s" and rt: "subtree_at T s None T" and at: "subtree_at T s (Some g) (GT v cs)"
    and S: "\<forall>w\<in>set (gnodes T). SEQ Lo (v_lim (vnodes s w)) Hi \<longleftrightarrow> w \<in> S"
    and best: "best_enter s (crossing out s S D) (En, Sl)"
    and st: "fold (enter_step out s Lo Hi v) (if out then outs s v else ins s v) (todo, En, Sl) = (todo1, En1, Sl1)"
  shows "best_enter s (crossing out s S (insert v D)) (En1, Sl1)"
    and "\<exists>L M. distinct (L @ M) \<and> set (L @ M) = set (map fst cs) \<and> todo1 = map (groot \<circ> kid_at cs) L @ todo \<and>
      push_below out s v (if out then tins s v else touts s v) todo1 = map (groot \<circ> kid_at cs) M @ todo1"
proof -
  note sp = cut_envD(1) [OF env] note ok = spanningD(1) [OF sp] note ne = node_edges [OF env at]
  have v: "v \<in> set (gnodes T)" using at by (simp add: subtree_at_def)
  let ?es = "if out then outs s v else ins s v" and ?bs = "if out then tins s v else touts s v"
  define P where "P = (\<lambda>e. \<not> TREE_EDGE s e \<and> \<not> SEQ Lo (v_lim (vnodes s (far_end out s e))) Hi)"
  define Q where "Q = (\<lambda>e. TREE_EDGE s e \<and> v_lim (vnodes s (far_end out s e)) < v_lim (vnodes s v))"
  define R where "R = (\<lambda>e. v_lim (vnodes s (near_end out s e)) < v_lim (vnodes s v))"
  have eq: "todo1 = rev (map (far_end out s) (filter Q ?es)) @ todo" "(En1, Sl1) = fold (pick_enter s) (filter P ?es) (En, Sl)"
    using st unfolding fold_enter P_def Q_def by simp_all
  have "crossing out s S (insert v D) = crossing out s S D \<union> set (filter P ?es)"
  proof -
    have "far_end out s e \<in> set (gnodes T)" if "e \<in> set ?es" for e
      using that closed_ends [OF ok spanningD(3) [OF sp] v] by (auto simp: far_end_def split: if_splits)
    then have "P e \<longleftrightarrow> \<not> TREE_EDGE s e \<and> far_end out s e \<notin> S" if "e \<in> set ?es" for e using that S by (simp add: P_def)
    then have "set (filter P ?es) = {e. fast s e \<and> near_end out s e = v \<and> \<not> TREE_EDGE s e \<and> far_end out s e \<notin> S}"
      using ne(1) [where out = out] by auto
    then show ?thesis by (auto simp: crossing_def)
  qed
  then show "best_enter s (crossing out s S (insert v D)) (En1, Sl1)" unfolding eq(2) by (simp only: best_pick [OF best])
  define L where "L = rev (filter Q ?es)"
  define M where "M = rev (filter R ?bs)"
  have q: "e \<in> set L \<longleftrightarrow> e \<in> set (map fst cs) \<and> near_end out s e = v" for e
  proof -
    have "e \<in> set (map fst cs) \<Longrightarrow> fast s e \<and> TREE_EDGE s e"
      unfolding kid_lists(1) [OF env at] using tree_edge_iff [OF sp v] by auto
    moreover have "v_lim (vnodes s (far_end out s e)) < v_lim (vnodes s v) \<longleftrightarrow> e \<in> set (map fst cs)"
      if "fast s e" "TREE_EDGE s e" "near_end out s e = v"
      by (rule down_edges [OF env rt at]) (use that ne(5,6) [where out = out and e = e] in auto)
    ultimately show ?thesis unfolding L_def Q_def set_rev set_filter using ne(1) [where out = out and e = e] by blast
  qed
  have r: "e \<in> set M \<longleftrightarrow> e \<in> set (map fst cs) \<and> far_end out s e = v" for e
  proof -
    have "e \<in> set (map fst cs) \<Longrightarrow> fast s e \<and> TREE_EDGE s e"
      unfolding kid_lists(1) [OF env at] using tree_edge_iff [OF sp v] by auto
    moreover have "v_lim (vnodes s (near_end out s e)) < v_lim (vnodes s v) \<longleftrightarrow> e \<in> set (map fst cs)"
      if "fast s e" "TREE_EDGE s e" "far_end out s e = v"
      by (rule down_edges [OF env rt at]) (use that ne(5,6) [where out = out and e = e] in auto)
    ultimately show ?thesis unfolding M_def R_def set_rev set_filter using ne(2) [where out = out and e = e] by blast
  qed
  have one: "near_end out s e = v \<or> far_end out s e = v" "fast s e" if "e \<in> set (map fst cs)" for e
  proof -
    obtain p where p: "p \<in> set cs" "e = fst p" using \<open>e \<in> set (map fst cs)\<close> by (auto simp: image_iff)
    show "near_end out s e = v \<or> far_end out s e = v" "fast s e"
      using kid_edges [OF sp at p(1)] p(2) by (auto simp: near_end_def far_end_def subtree_at_def)
  qed
  have two: "\<not> (near_end out s e = v \<and> far_end out s e = v)" if "e \<in> set (map fst cs)" for e
    using no_loop [OF spanningD(2) [OF sp] one(2) [OF that]] by (auto simp: near_end_def far_end_def split: if_splits)
  have dc: "distinct (map fst cs)"
    unfolding kid_lists(1) [OF env at] distinct_append using kid_lists(2,3,6) [OF env at] by blast
  have other: "v \<noteq> groot (kid_at cs e) \<and> {v, groot (kid_at cs e)} = {near_end out s e, far_end out s e}" if "e \<in> set (map fst cs)" for e
  proof -
    note p = kid_at_in [OF dc that]
    have "v \<noteq> groot (kid_at cs e)" using at p groot_in [of "kid_at cs e"] unfolding subtree_at_def by auto
    moreover have "{v, groot (kid_at cs e)} = {vtail s e, vhead s e}" using kid_edges(2) [OF sp at p] by (elim disjE) (simp_all add: insert_commute)
    ultimately show ?thesis using ne(6) [where out = out and e = e] by simp
  qed
  have end_kid: "groot (kid_at cs e) = far_end out s e" if "e \<in> set L" for e
    using other [of e] q [of e] that by (auto simp: doubleton_eq_iff)
  have end_kid2: "groot (kid_at cs e) = near_end out s e" if "e \<in> set M" for e
    using other [of e] r [of e] that by (auto simp: doubleton_eq_iff)
  have "distinct (L @ M)" unfolding distinct_append
    using q r two ne(3,4) [where out = out] by (auto simp: L_def M_def)
  moreover have "set (L @ M) = set (map fst cs)" using q r one(1) by auto
  moreover have "todo1 = map (groot \<circ> kid_at cs) L @ todo"
    using end_kid unfolding eq(1) L_def rev_map [symmetric] by simp
  moreover have "push_below out s v ?bs todo1 = map (groot \<circ> kid_at cs) M @ todo1"
    using end_kid2 unfolding push_below_eq M_def R_def rev_map [symmetric] by simp
  ultimately show "\<exists>L M. distinct (L @ M) \<and> set (L @ M) = set (map fst cs) \<and> todo1 = map (groot \<circ> kid_at cs) L @ todo \<and>
      push_below out s v ?bs todo1 = map (groot \<circ> kid_at cs) M @ todo1" by blast
qed


lemma enter_loop:
  assumes env: "cut_env T s" and rt: "subtree_at T s None T"
    and S: "\<forall>w\<in>set (gnodes T). SEQ Lo (v_lim (vnodes s w)) Hi \<longleftrightarrow> w \<in> S"
  shows "(\<Sum>t\<leftarrow>ts. length (gnodes t)) < k \<Longrightarrow> \<forall>t\<in>set ts. set (gnodes t) \<subseteq> S \<and> (\<exists>g. subtree_at T s (Some g) t) \<Longrightarrow>
    S \<subseteq> D \<union> (\<Union>t\<in>set ts. set (gnodes t)) \<or> Sl \<le> 0 \<Longrightarrow> D \<subseteq> S \<Longrightarrow> best_enter s (crossing out s S D) (En, Sl) \<Longrightarrow>
    \<exists>r D' Sl'. dfs_enter k out s Lo Hi (map groot ts, En, Sl) = Some r \<and> D' \<subseteq> S \<and> (D' = S \<or> Sl' \<le> 0) \<and>
      best_enter s (crossing out s S D') (r, Sl')"
proof (induction k arbitrary: ts D En Sl)
  case (Suc k)
  show ?case
  proof (cases ts)
    case Nil
    with Suc.prems have "D = S \<or> Sl \<le> 0" by auto
    with Nil Suc.prems(4,5) show ?thesis by (intro exI [of _ En] exI [of _ D] exI [of _ Sl]) simp
  next
    case (Cons t ts')
    obtain v cs where t: "t = GT v cs" by (cases t)
    obtain g where at: "subtree_at T s (Some g) (GT v cs)" using Suc.prems(2) Cons t by auto
    note sp = cut_envD(1) [OF env]
    obtain todo1 En1 Sl1 where st: "fold (enter_step out s Lo Hi v) (if out then outs s v else ins s v) (map groot ts', En, Sl) = (todo1, En1, Sl1)"
      by (metis prod_cases3)
    note b1 = search_node(1) [OF env rt at S Suc.prems(5) st]
    obtain L M where LM: "distinct (L @ M)" "set (L @ M) = set (map fst cs)" "todo1 = map (groot \<circ> kid_at cs) L @ map groot ts'"
      "push_below out s v (if out then tins s v else touts s v) todo1 = map (groot \<circ> kid_at cs) M @ todo1"
      using search_node(2) [OF env rt at S Suc.prems(5) st] by blast
    define ts1 where "ts1 = (if Sl1 > 0 then map (kid_at cs) M @ map (kid_at cs) L @ ts' else map (kid_at cs) L @ ts')"
    have dc: "distinct (map fst cs)"
      unfolding kid_lists(1) [OF env at] distinct_append using kid_lists(2,3,6) [OF env at] by blast
    have step: "dfs_enter (Suc k) out s Lo Hi (map groot ts, En, Sl) = dfs_enter k out s Lo Hi (map groot ts1, En1, Sl1)"
      using LM(3,4) by (simp add: Cons t st ts1_def)
    have kid: "subtree_at T s (Some e) (kid_at cs e) \<and> set (gnodes (kid_at cs e)) \<subseteq> set (gnodes (GT v cs))" if "e \<in> set (L @ M)" for e
    proof -
      note p = kid_at_in [OF dc that [unfolded LM(2)]]
      show ?thesis using kid_edges(1) [OF sp at p] p by force
    qed
    have sub: "set (gnodes (GT v cs)) \<subseteq> S" "\<forall>t\<in>set ts'. set (gnodes t) \<subseteq> S \<and> (\<exists>g. subtree_at T s (Some g) t)"
      using Suc.prems(2) Cons t by auto
    have all: "\<forall>t\<in>set ts1. set (gnodes t) \<subseteq> S \<and> (\<exists>g. subtree_at T s (Some g) t)"
    proof
      fix t assume "t \<in> set ts1"
      then consider e where "e \<in> set (L @ M)" "t = kid_at cs e" | "t \<in> set ts'" by (auto simp: ts1_def split: if_splits)
      then show "set (gnodes t) \<subseteq> S \<and> (\<exists>g. subtree_at T s (Some g) t)"
      proof cases
        case 1
        from kid [OF this(1)] show ?thesis using sub(1) 1(2) by blast
      next
        case 2
        with sub(2) show ?thesis by blast
      qed
    qed
    have "(\<Sum>t\<leftarrow>ts1. length (gnodes t)) \<le> (\<Sum>e\<leftarrow>L @ M. length (gnodes (kid_at cs e))) + (\<Sum>t\<leftarrow>ts'. length (gnodes t))"
      by (simp add: ts1_def o_def)
    also have "\<dots> \<le> length (knodes cs) + (\<Sum>t\<leftarrow>ts'. length (gnodes t))"
      using sum_kid_at [OF dc LM(1) equalityD1 [OF LM(2)]] by simp
    finally have fuel: "(\<Sum>t\<leftarrow>ts1. length (gnodes t)) < k" using Suc.prems(1) Cons t by simp
    have cover: "S \<subseteq> insert v D \<union> (\<Union>t\<in>set ts1. set (gnodes t)) \<or> Sl1 \<le> 0"
    proof (cases "Sl1 \<le> 0")
      case False
      have "\<not> Sl \<le> 0" using best_slack_le [OF Suc.prems(5) b1] False by (auto simp: crossing_def)
      then have "S \<subseteq> D \<union> (\<Union>t\<in>set ts. set (gnodes t))" using Suc.prems(3) by simp
      then have all: "S \<subseteq> D \<union> (insert v (set (knodes cs)) \<union> (\<Union>t\<in>set ts'. set (gnodes t)))" by (simp add: Cons t Un_assoc)
      have kn: "set (knodes cs) \<subseteq> (\<Union>t\<in>set ts1. set (gnodes t))"
      proof
        fix u assume "u \<in> set (knodes cs)"
        obtain p where p: "p \<in> set cs" "u \<in> set (gnodes (snd p))" using \<open>u \<in> set (knodes cs)\<close> by auto
        then have "fst p \<in> set (L @ M)" unfolding LM(2) by simp
        then have "kid_at cs (fst p) \<in> set ts1" using False by (auto simp: ts1_def)
        moreover have "kid_at cs (fst p) = snd p" using map_of_is_SomeI [OF dc, of "fst p" "snd p"] p(1) by simp
        ultimately have "snd p \<in> set ts1" by simp
        then show "u \<in> (\<Union>t\<in>set ts1. set (gnodes t))" using p(2) by blast
      qed
      have "set ts' \<subseteq> set ts1" by (auto simp: ts1_def)
      then have "(\<Union>t\<in>set ts'. set (gnodes t)) \<subseteq> (\<Union>t\<in>set ts1. set (gnodes t))" by blast
      then have "insert v (set (knodes cs)) \<union> (\<Union>t\<in>set ts'. set (gnodes t)) \<subseteq> insert v (\<Union>t\<in>set ts1. set (gnodes t))"
        using kn by (intro Un_least insert_mono) auto
      moreover have "A \<subseteq> D \<union> X \<Longrightarrow> X \<subseteq> insert v W \<Longrightarrow> A \<subseteq> insert v D \<union> W" for A X W by auto
      ultimately have "S \<subseteq> insert v D \<union> (\<Union>t\<in>set ts1. set (gnodes t))" using all by metis
      then show ?thesis ..
    qed simp
    have "insert v D \<subseteq> S" using Suc.prems(4) sub(1) by simp
    from Suc.IH [OF fuel all cover this b1] show ?thesis unfolding step .
  qed
qed simp

text \<open>
  C12. \<open>enter_edge\<close> for a leaving tree edge returns, given fuel for the nodes, and on a feasible ranking it
  gives an edge of least slack among those that cross the cut of the leaving edge the other way, from
  the head side to the tail side; it gives NULL only when there is none. (The search stops early at
  slack 0.) Replacing one by the other thus keeps the ranking feasible.
\<close>

theorem enter_edge_correct:
  assumes env: "cut_env T s" and rt: "subtree_at T s None T" and feas: "feasible (set (gnodes T)) s"
    and e: "fast s e" "TREE_EDGE s e" "vtail s e \<in> set (gnodes T)" and k: "length (gnodes T) < k"
  shows "\<exists>S r. S \<subseteq> set (gnodes T) \<and> tree_cut s S e \<and> enter_edge k s e = Some r \<and>
    (case r of
       None \<Rightarrow> \<not> (\<exists>g. fast s g \<and> vtail s g \<in> set (gnodes T) \<and> vtail s g \<notin> S \<and> vhead s g \<in> S)
     | Some f \<Rightarrow> fast s f \<and> \<not> TREE_EDGE s f \<and> vtail s f \<notin> S \<and> vhead s f \<in> S \<and>
         (\<forall>g. fast s g \<and> vtail s g \<notin> S \<and> vhead s g \<in> S \<longrightarrow> SLACK s f \<le> SLACK s g))"
proof -
  let ?V = "set (gnodes T)"
  note sp = cut_envD(1) [OF env] note ok = spanningD(1) [OF sp]
  have te: "e \<in> set (tedges T)" by (rule tree_edge_listed [OF env rt e])
  obtain t where t: "subtree_at T s (Some e) t" "child_end s e = groot t"
    "vtail s e = groot t \<and> v_lim (vnodes s (vtail s e)) < v_lim (vnodes s (vhead s e)) \<or>
     vhead s e = groot t \<and> v_lim (vnodes s (vhead s e)) < v_lim (vnodes s (vtail s e))"
    using tree_edge_down [OF env rt te] by blast
  let ?t = "set (gnodes t)"
  define out where "out \<longleftrightarrow> \<not> v_lim (vnodes s (vtail s e)) < v_lim (vnodes s (vhead s e))"
  have sub: "?t \<subseteq> ?V" "distinct (gnodes t)" using t(1) by (simp_all add: subtree_at_def)
  have B: "\<forall>w\<in>?V. SEQ (v_low (vnodes s (groot t))) (v_lim (vnodes s w)) (v_lim (vnodes s (groot t))) \<longleftrightarrow> w \<in> ?t"
    using subtree_below [OF env t(1)] by (simp add: below_def)
  have "length (gnodes t) \<le> length (gnodes T)"
    using card_mono [OF _ sub(1)] distinct_card [OF sub(2)] distinct_card [OF spanningD(5) [OF sp]] by simp
  then have "(\<Sum>t\<leftarrow>[t]. length (gnodes t)) < k" using k by simp
  then have "\<exists>r D' Sl'. dfs_enter k out s (v_low (vnodes s (groot t))) (v_lim (vnodes s (groot t))) (map groot [t], None, INT_MAX) = Some r \<and>
      D' \<subseteq> ?t \<and> (D' = ?t \<or> Sl' \<le> 0) \<and> best_enter s (crossing out s ?t D') (r, Sl')"
    by (rule enter_loop [OF env rt B, where D = "{}"]) (use t(1) in \<open>auto simp: best_enter_def crossing_def\<close>)
  then obtain r D' Sl' where r: "dfs_enter k out s (v_low (vnodes s (groot t))) (v_lim (vnodes s (groot t))) ([groot t], None, INT_MAX) = Some r"
    "D' \<subseteq> ?t" "D' = ?t \<or> Sl' \<le> 0" "best_enter s (crossing out s ?t D') (r, Sl')" by auto
  have run: "enter_edge k s e = Some r" using t(3) r(1) unfolding enter_edge_def out_def by auto
  define S where "S = (if out then ?V - ?t else ?t)"
  have cl: "vtail s g \<in> ?V \<longleftrightarrow> vhead s g \<in> ?V" if "fast s g" for g
    using spanningD(3) [OF sp] that by (simp add: closed_on_def)
  have ends: "vtail s e = groot t \<and> vhead s e \<notin> ?t \<or> vhead s e = groot t \<and> vtail s e \<notin> ?t" using t(1) by (simp add: subtree_at_def)
  have only: "g = e" if g: "fast s g" "TREE_EDGE s g" "(vtail s g \<in> ?t) \<noteq> (vhead s g \<in> ?t)" for g
  proof -
    have "\<exists>u\<in>?t. g \<in> set (touts s u) \<union> set (tins s u)"
      using g tree_edge_iff [OF sp, of "vtail s g" g] tree_edge_iff [OF sp, of "vhead s g" g] sub(1) by blast
    then obtain u where u: "u \<in> ?t" "g \<in> set (touts s u) \<union> set (tins s u)" by blast
    from tree_edge_in [OF env t(1) u] g(3) show "g = e" by auto
  qed
  have cut: "tree_cut s S e" unfolding tree_cut_def
  proof (intro conjI allI impI)
    show "vtail s e \<in> S" "vhead s e \<notin> S"
      using t(3) ends groot_in [of t] e(3) cl [OF e(1)] by (auto simp: S_def out_def)
    fix g assume g: "fast s g" "TREE_EDGE s g" "(vtail s g \<in> S) \<noteq> (vhead s g \<in> S)"
    then show "g = e" using only [OF g(1,2)] cl [OF g(1)] by (auto simp: S_def split: if_splits)
  qed
  have x: "g \<in> crossing out s ?t ?t \<longleftrightarrow> fast s g \<and> vtail s g \<in> ?V \<and> vtail s g \<notin> S \<and> vhead s g \<in> S" for g
  proof -
    have nt: "\<not> TREE_EDGE s g" if "fast s g" "vtail s g \<notin> S" "vhead s g \<in> S" using cut that by (auto simp: tree_cut_def)
    show ?thesis
      using cl [of g] sub(1) nt by (auto simp: crossing_def S_def near_end_def far_end_def split: if_splits)
  qed
  have tail: "vtail s g \<in> ?V" if "fast s g" "vhead s g \<in> S" for g using cl [OF that(1)] that(2) sub(1) by (auto simp: S_def split: if_splits)
  have nonneg: "0 \<le> SLACK s g" if "g \<in> crossing out s ?t ?t" for g using that unfolding x using feas by (simp add: feasible_def)
  have best: "best_enter s (crossing out s ?t ?t) (r, case r of None \<Rightarrow> INT_MAX | Some f \<Rightarrow> SLACK s f)"
  proof (cases "D' = ?t")
    case True
    with r(4) show ?thesis by (cases r) (simp_all add: best_enter_def)
  next
    case False
    then have "Sl' \<le> 0" using r(3) by blast
    with r(4) obtain f where f: "r = Some f" "f \<in> crossing out s ?t D'" "SLACK s f \<le> 0" by (auto simp: best_enter_def INT_MAX_def split: option.splits)
    then have "f \<in> crossing out s ?t ?t" using r(2) by (auto simp: crossing_def)
    moreover have "SLACK s f \<le> SLACK s g" if "g \<in> crossing out s ?t ?t" for g using nonneg [OF that] f(3) by simp
    ultimately show ?thesis using f(1) by (simp add: best_enter_def)
  qed
  have "S \<subseteq> ?V" using sub(1) by (auto simp: S_def)
  moreover have "case r of
       None \<Rightarrow> \<not> (\<exists>g. fast s g \<and> vtail s g \<in> ?V \<and> vtail s g \<notin> S \<and> vhead s g \<in> S)
     | Some f \<Rightarrow> fast s f \<and> \<not> TREE_EDGE s f \<and> vtail s f \<notin> S \<and> vhead s f \<in> S \<and>
         (\<forall>g. fast s g \<and> vtail s g \<notin> S \<and> vhead s g \<in> S \<longrightarrow> SLACK s f \<le> SLACK s g)"
  proof (cases r)
    case None
    then have "crossing out s ?t ?t = {}" using best by (simp add: best_enter_def)
    then have "\<not> (\<exists>g. fast s g \<and> vtail s g \<in> ?V \<and> vtail s g \<notin> S \<and> vhead s g \<in> S)" using x by blast
    then show ?thesis unfolding None option.case .
  next
    case (Some f)
    then have f: "f \<in> crossing out s ?t ?t" "\<And>g. g \<in> crossing out s ?t ?t \<Longrightarrow> SLACK s f \<le> SLACK s g"
      using best by (auto simp: best_enter_def)
    have "\<not> TREE_EDGE s f" using f(1) by (simp add: crossing_def)
    moreover have "SLACK s f \<le> SLACK s g" if "fast s g \<and> vtail s g \<notin> S \<and> vhead s g \<in> S" for g
      using f(2) [of g] x [of g] tail [of g] that by simp
    ultimately show ?thesis unfolding Some option.case using f(1) [unfolded x] by blast
  qed
  ultimately show ?thesis using cut run by blast
qed


lemma slanted_numbered: "\<exists>s'. init_cutvalues 3 slanted = Some s' \<and> cut_env slanted_tree s' \<and> subtree_at slanted_tree s' None slanted_tree \<and>
    feasible (set (gnodes slanted_tree)) s' \<and> (\<forall>e. fast s' e = fast slanted e \<and> TREE_EDGE s' e = TREE_EDGE slanted e \<and>
      vtail s' e = vtail slanted e \<and> vhead s' e = vhead slanted e)"
proof -
  have "length (gnodes slanted_tree) \<le> 3" by (simp add: slanted_tree_def)
  from init_cutvalues_spec [OF slanted_ready this] obtain s1 s' where
    s': "init_cutvalues 3 slanted = Some s'" and r1: "renum (set (gnodes slanted_tree)) slanted s1" and r2: "revalued s1 s'"
    and env: "cut_env slanted_tree s'" "subtree_at slanted_tree s' None slanted_tree" by blast
  note same = revalued_same [OF r2] renum_spanning [OF r1] renumD(1) [OF r1]
  have sl: "SLACK s' e = SLACK slanted e" for e unfolding SLACK_def revalued_same [OF r2] using renum_spanning(5) [OF r1, of e] by (simp add: SLACK_def)
  have "feasible (set (gnodes slanted_tree)) slanted" unfolding feasible_def slanted_fast
    by (auto simp: slanted_def roomy_def blank_edge_def zero_node_def SLACK_def LENGTH_e_def)
  then have "feasible (set (gnodes slanted_tree)) s'" unfolding feasible_def sl by (simp add: same)
  with s' env show ?thesis by (intro exI [of _ s']) (simp add: same)
qed

lemma enter_edge_correct_witness:
  "\<exists>s' S r. init_cutvalues 3 slanted = Some s' \<and> S \<subseteq> set (gnodes slanted_tree) \<and> tree_cut s' S 0 \<and> enter_edge 4 s' 0 = Some r \<and>
    (case r of
       None \<Rightarrow> \<not> (\<exists>g. fast s' g \<and> vtail s' g \<in> set (gnodes slanted_tree) \<and> vtail s' g \<notin> S \<and> vhead s' g \<in> S)
     | Some f \<Rightarrow> fast s' f \<and> \<not> TREE_EDGE s' f \<and> vtail s' f \<notin> S \<and> vhead s' f \<in> S \<and>
         (\<forall>g. fast s' g \<and> vtail s' g \<notin> S \<and> vhead s' g \<in> S \<longrightarrow> SLACK s' f \<le> SLACK s' g))"
proof -
  from slanted_numbered obtain s' where s': "init_cutvalues 3 slanted = Some s'" "cut_env slanted_tree s'" "subtree_at slanted_tree s' None slanted_tree"
    "feasible (set (gnodes slanted_tree)) s'" "\<forall>e. fast s' e = fast slanted e \<and> TREE_EDGE s' e = TREE_EDGE slanted e \<and>
      vtail s' e = vtail slanted e \<and> vhead s' e = vhead slanted e" by blast
  have e: "fast s' 0" "TREE_EDGE s' 0" "vtail s' 0 \<in> set (gnodes slanted_tree)" "length (gnodes slanted_tree) < 4"
    using s'(5) slanted_fast by (auto simp: slanted_def roomy_def blank_edge_def TREE_EDGE_def slanted_tree_def)
  from enter_edge_correct [OF s'(2-4) e] s'(1) show ?thesis by blast
qed

end
