(* ===== verification/Ns_Stree.thy ===== *)
theory Ns_Stree
  imports Ns_Enter
begin

text \<open>
  Trees as sets of nodes and edges, built by joining two of them with an edge; every such tree can be
  rooted at any of its nodes in the order of the lists of a state. Taking an edge away leaves two trees.
\<close>

section \<open>Trees of edges\<close>

definition joins :: "fgraph \<Rightarrow> nat \<Rightarrow> nat \<Rightarrow> nat \<Rightarrow> bool" where
  "joins s e a b \<longleftrightarrow> vtail s e = a \<and> vhead s e = b \<or> vtail s e = b \<and> vhead s e = a"

lemma joins_sym: "joins s e a b = joins s e b a"
  by (auto simp: joins_def)

inductive stree :: "fgraph \<Rightarrow> nat set \<Rightarrow> nat set \<Rightarrow> bool" for s where
  one: "stree s {v} {}"
| join: "stree s V1 E1 \<Longrightarrow> stree s V2 E2 \<Longrightarrow> V1 \<inter> V2 = {} \<Longrightarrow> joins s e a b \<Longrightarrow> a \<in> V1 \<Longrightarrow> b \<in> V2 \<Longrightarrow>
    stree s (V1 \<union> V2) (insert e (E1 \<union> E2))"

inductive_cases stree_oneE: "stree s {v} E"

lemma stree_fin: "stree s V E \<Longrightarrow> finite V \<and> finite E \<and> V \<noteq> {}"
  by (induction rule: stree.induct) auto

lemma stree_ends: "stree s V E \<Longrightarrow> e \<in> E \<Longrightarrow> vtail s e \<in> V \<and> vhead s e \<in> V"
  by (induction rule: stree.induct) (auto simp: joins_def)

text \<open>Taking an edge away leaves two trees.\<close>

definition parts :: "fgraph \<Rightarrow> nat \<Rightarrow> nat set \<Rightarrow> nat set \<Rightarrow> nat set \<Rightarrow> nat set \<Rightarrow> nat set \<Rightarrow> nat set \<Rightarrow> bool" where
  "parts s e V E A B EA EB \<longleftrightarrow> stree s A EA \<and> stree s B EB \<and> A \<inter> B = {} \<and> V = A \<union> B \<and> E = insert e (EA \<union> EB) \<and>
     e \<notin> EA \<union> EB \<and> (\<exists>x\<in>A. \<exists>y\<in>B. joins s e x y)"

lemma parts_sym: "parts s e V E A B EA EB = parts s e V E B A EB EA"
proof -
  have "(\<exists>x\<in>A. \<exists>y\<in>B. joins s e x y) \<longleftrightarrow> (\<exists>x\<in>B. \<exists>y\<in>A. joins s e x y)" using joins_sym by metis
  then show ?thesis unfolding parts_def by (simp add: Int_commute Un_commute conj_commute conj_left_commute)
qed

lemma parts_join:
  assumes p: "parts s e V1 E1 A B EA EB" and ne: "e \<notin> E2" "e \<noteq> e0" and t: "stree s V2 E2" and d: "V1 \<inter> V2 = {}"
    and j: "joins s e0 a b" "a \<in> A" "b \<in> V2"
  shows "parts s e (V1 \<union> V2) (insert e0 (E1 \<union> E2)) (A \<union> V2) B (insert e0 (EA \<union> E2)) EB"
proof -
  have p1: "stree s A EA" "stree s B EB" "A \<inter> B = {}" "V1 = A \<union> B" "E1 = insert e (EA \<union> EB)" "e \<notin> EA \<union> EB" "\<exists>x\<in>A. \<exists>y\<in>B. joins s e x y"
    using p unfolding parts_def by blast+
  have d2: "A \<inter> V2 = {}" "B \<inter> V2 = {}" using d p1(4) by auto
  have "stree s (A \<union> V2) (insert e0 (EA \<union> E2))" by (rule stree.join [OF p1(1) t d2(1) j])
  moreover have "(A \<union> V2) \<inter> B = {}" using d2 p1(3) by blast
  moreover have "V1 \<union> V2 = (A \<union> V2) \<union> B" unfolding p1(4) by blast
  moreover have "insert e0 (E1 \<union> E2) = insert e (insert e0 (EA \<union> E2) \<union> EB)" unfolding p1(5) by blast
  moreover have "e \<notin> insert e0 (EA \<union> E2) \<union> EB" using ne p1(6) by blast
  moreover have "\<exists>x\<in>A \<union> V2. \<exists>y\<in>B. joins s e x y" using p1(7) by blast
  ultimately show ?thesis using p1(2) unfolding parts_def by blast
qed

lemma stree_parts: "stree s V E \<Longrightarrow> e \<in> E \<Longrightarrow> \<exists>A B EA EB. parts s e V E A B EA EB"
proof (induction rule: stree.induct)
  case (join V1 E1 V2 E2 e0 a b)
  have fresh: "e0 \<notin> E1" "e0 \<notin> E2"
    using stree_ends [OF join.hyps(1), of e0] stree_ends [OF join.hyps(2), of e0] join.hyps(3-6) by (auto simp: joins_def)
  have apart: "E1 \<inter> E2 = {}"
    using stree_ends [OF join.hyps(1)] stree_ends [OF join.hyps(2)] join.hyps(3) by blast
  consider "e = e0" | "e \<in> E1" "e \<noteq> e0" | "e \<in> E2" "e \<noteq> e0" using join.prems by auto
  then show ?case
  proof cases
    case 1
    then have "parts s e (V1 \<union> V2) (insert e0 (E1 \<union> E2)) V1 V2 E1 E2" using join.hyps fresh unfolding parts_def by blast
    then show ?thesis by blast
  next
    case 2
    from join.IH(1) [OF 2(1)] obtain A B EA EB where p: "parts s e V1 E1 A B EA EB" by blast
    have ne: "e \<notin> E2" using 2(1) apart by blast
    have "a \<in> A \<or> a \<in> B" using join.hyps(5) p unfolding parts_def by blast
    then show ?thesis
    proof
      assume "a \<in> A"
      from parts_join [OF p ne 2(2) join.hyps(2,3,4) this join.hyps(6)] show ?thesis by blast
    next
      assume "a \<in> B"
      from parts_join [OF iffD1 [OF parts_sym p] ne 2(2) join.hyps(2,3,4) this join.hyps(6)] show ?thesis by blast
    qed
  next
    case 3
    from join.IH(2) [OF 3(1)] obtain A B EA EB where p: "parts s e V2 E2 A B EA EB" by blast
    have ne: "e \<notin> E1" using 3(1) apart by blast
    have sym: "V2 \<inter> V1 = {}" "joins s e0 b a" "insert e0 (E1 \<union> E2) = insert e0 (E2 \<union> E1)" "V1 \<union> V2 = V2 \<union> V1"
      using join.hyps(3,4) by (auto simp: joins_sym)
    have "b \<in> A \<or> b \<in> B" using join.hyps(6) p unfolding parts_def by blast
    then show ?thesis unfolding sym(3,4)
    proof
      assume "b \<in> A"
      from parts_join [OF p ne 3(2) join.hyps(1) sym(1,2) this join.hyps(5)] show "\<exists>A B EA EB. parts s e (V2 \<union> V1) (insert e0 (E2 \<union> E1)) A B EA EB" by blast
    next
      assume "b \<in> B"
      from parts_join [OF iffD1 [OF parts_sym p] ne 3(2) join.hyps(1) sym(1,2) this join.hyps(5)]
      show "\<exists>A B EA EB. parts s e (V2 \<union> V1) (insert e0 (E2 \<union> E1)) A B EA EB" by blast
    qed
  qed
qed simp

section \<open>Rooting\<close>

text \<open>A rooted tree whose edges join its nodes, in any order.\<close>

fun rooted :: "fgraph \<Rightarrow> gtree \<Rightarrow> bool" where
  "rooted s (GT v cs) \<longleftrightarrow> (\<forall>p\<in>set cs. joins s (fst p) v (groot (snd p)) \<and> rooted s (snd p))"

fun attach :: "nat \<Rightarrow> nat \<times> gtree \<Rightarrow> gtree \<Rightarrow> gtree" where
  "attach a q (GT v cs) = GT v ((if v = a then [q] else []) @ map (\<lambda>p. (fst p, attach a q (snd p))) cs)"

lemma groot_attach [simp]: "groot (attach a q t) = groot t"
  by (cases t) simp

lemma attach_none: "a \<notin> set (gnodes t) \<Longrightarrow> attach a q t = t"
proof (induction t rule: gtree_induct)
  case (1 v cs)
  have "map (\<lambda>p. (fst p, attach a q (snd p))) cs = cs"
    by (rule map_idI) (use 1 in auto)
  with 1 show ?case by simp
qed

lemma kids_once:
  assumes "distinct (knodes cs)" and "a \<in> set (knodes cs)"
  shows "\<exists>xs p ys. cs = xs @ p # ys \<and> a \<in> set (gnodes (snd p)) \<and> a \<notin> set (knodes xs) \<and> a \<notin> set (knodes ys)"
  using assms
proof (induction cs)
  case (Cons p cs)
  show ?case
  proof (cases "a \<in> set (gnodes (snd p))")
    case True
    with Cons.prems have "p # cs = [] @ p # cs \<and> a \<in> set (gnodes (snd p)) \<and> a \<notin> set (knodes []) \<and> a \<notin> set (knodes cs)" by auto
    then show ?thesis by blast
  next
    case False
    with Cons obtain xs q ys where "cs = xs @ q # ys" "a \<in> set (gnodes (snd q))" "a \<notin> set (knodes xs)" "a \<notin> set (knodes ys)" by auto
    with False have "p # cs = (p # xs) @ q # ys \<and> a \<in> set (gnodes (snd q)) \<and> a \<notin> set (knodes (p # xs)) \<and> a \<notin> set (knodes ys)" by simp
    then show ?thesis by blast
  qed
qed simp

lemma attach_kids_none: "a \<notin> set (knodes cs) \<Longrightarrow> map (\<lambda>p. (fst p, attach a q (snd p))) cs = cs"
  by (rule map_idI) (auto intro!: prod_eqI attach_none)

lemma attach_mset:
  "distinct (gnodes t) \<Longrightarrow> a \<in> set (gnodes t) \<Longrightarrow>
    mset (gnodes (attach a q t)) = mset (gnodes t) + mset (gnodes (snd q)) \<and>
    mset (tedges (attach a q t)) = mset (tedges t) + mset (fst q # tedges (snd q))"
proof (induction t rule: gtree_induct)
  case (1 v cs)
  show ?case
  proof (cases "v = a")
    case True
    then have "map (\<lambda>p. (fst p, attach a q (snd p))) cs = cs" using "1.prems"(1) by (intro attach_kids_none) simp
    with True show ?thesis by simp
  next
    case False
    then have "a \<in> set (knodes cs)" "distinct (knodes cs)" using "1.prems" by auto
    from kids_once [OF this(2,1)] obtain xs p ys where
      p: "cs = xs @ p # ys" "a \<in> set (gnodes (snd p))" "a \<notin> set (knodes xs)" "a \<notin> set (knodes ys)" by blast
    have "distinct (gnodes (snd p))" using "1.prems"(1) p(1) by simp
    from "1.IH" [of p, OF _ this p(2)] p(1) have IH:
      "mset (gnodes (attach a q (snd p))) = mset (gnodes (snd p)) + mset (gnodes (snd q))"
      "mset (tedges (attach a q (snd p))) = mset (tedges (snd p)) + mset (fst q # tedges (snd q))" by simp_all
    from False show ?thesis
      by (simp add: p(1) attach_kids_none [OF p(3)] attach_kids_none [OF p(4)] IH)
  qed
qed

lemma attach_rooted: "rooted s t \<Longrightarrow> rooted s (snd q) \<Longrightarrow> joins s (fst q) a (groot (snd q)) \<Longrightarrow> rooted s (attach a q t)"
  by (induction t rule: gtree_induct) auto

lemma stree_rooted:
  "stree s V E \<Longrightarrow> r \<in> V \<Longrightarrow>
    \<exists>t. groot t = r \<and> rooted s t \<and> distinct (gnodes t) \<and> set (gnodes t) = V \<and> distinct (tedges t) \<and> set (tedges t) = E"
proof (induction arbitrary: r rule: stree.induct)
  case (one v)
  then show ?case by (intro exI [of _ "GT v []"]) simp
next
  case (join V1 E1 V2 E2 e a b)
  have ee: "e \<notin> E1" "e \<notin> E2" "E1 \<inter> E2 = {}"
    using stree_ends [OF join.hyps(1)] stree_ends [OF join.hyps(2)] join.hyps(3-6) by (auto simp: joins_def)
  have main: "\<exists>t. groot t = r \<and> rooted s t \<and> distinct (gnodes t) \<and> set (gnodes t) = U1 \<union> U2 \<and> distinct (tedges t) \<and> set (tedges t) = insert e (F1 \<union> F2)"
    if u: "r \<in> U1" "U1 \<inter> U2 = {}" "joins s e x y" "x \<in> U1" "y \<in> U2" "e \<notin> F1" "e \<notin> F2" "F1 \<inter> F2 = {}"
      and 1: "\<And>r. r \<in> U1 \<Longrightarrow> \<exists>t. groot t = r \<and> rooted s t \<and> distinct (gnodes t) \<and> set (gnodes t) = U1 \<and> distinct (tedges t) \<and> set (tedges t) = F1"
      and 2: "\<And>r. r \<in> U2 \<Longrightarrow> \<exists>t. groot t = r \<and> rooted s t \<and> distinct (gnodes t) \<and> set (gnodes t) = U2 \<and> distinct (tedges t) \<and> set (tedges t) = F2"
    for U1 U2 F1 F2 x y
  proof -
    obtain t1 where t1: "groot t1 = r" "rooted s t1" "distinct (gnodes t1)" "set (gnodes t1) = U1" "distinct (tedges t1)" "set (tedges t1) = F1"
      using 1 [OF u(1)] by blast
    obtain t2 where t2: "groot t2 = y" "rooted s t2" "distinct (gnodes t2)" "set (gnodes t2) = U2" "distinct (tedges t2)" "set (tedges t2) = F2"
      using 2 [OF u(5)] by blast
    let ?t = "attach x (e, t2) t1"
    have m: "mset (gnodes ?t) = mset (gnodes t1 @ gnodes t2)" "mset (tedges ?t) = mset (tedges t1 @ e # tedges t2)"
      using attach_mset [OF t1(3), of x "(e, t2)"] t1(4) u(4) by simp_all
    have "distinct (gnodes ?t)" "set (gnodes ?t) = U1 \<union> U2"
      using mset_eq_imp_distinct_iff [OF m(1)] mset_eq_setD [OF m(1)] t1(3,4) t2(3,4) u(2) by simp_all
    moreover have "distinct (tedges ?t)" "set (tedges ?t) = insert e (F1 \<union> F2)"
      using mset_eq_imp_distinct_iff [OF m(2)] mset_eq_setD [OF m(2)] t1(5,6) t2(5,6) u(6-8) by auto
    moreover have "rooted s ?t" by (rule attach_rooted) (use t1(2) t2(1,2) u(3) in simp_all)
    ultimately show ?thesis using t1(1) by (intro exI [of _ ?t]) simp
  qed
  show ?case
  proof (cases "r \<in> V1")
    case True
    from main [OF True join.hyps(3-6) ee join.IH] show ?thesis by blast
  next
    case False
    then have "r \<in> V2" using join.prems by blast
    have "V2 \<inter> V1 = {}" "joins s e b a" "E2 \<inter> E1 = {}" using join.hyps(3,4) ee(3) by (auto simp: joins_sym)
    from main [OF \<open>r \<in> V2\<close> this(1,2) join.hyps(6,5) ee(2,1) this(3) join.IH(2,1)] show ?thesis by (simp add: Un_commute)
  qed
qed


section \<open>The order of the lists\<close>

text \<open>The lists of the tree edges hold the edges of \<open>E\<close>, and \<open>par\<close> at the root.\<close>

definition lists_at :: "fgraph \<Rightarrow> nat set \<Rightarrow> nat set \<Rightarrow> nat \<Rightarrow> nat option \<Rightarrow> bool" where
  "lists_at s V E r par \<longleftrightarrow> (\<forall>n\<in>V. distinct (touts s n) \<and> distinct (tins s n) \<and>
     set (kedges (if n = r then par else None) (touts s n)) = {e \<in> E. vtail s e = n} \<and>
     set (kedges (if n = r then par else None) (tins s n)) = {e \<in> E. vhead s e = n})"

lemma lists_atD:
  assumes "lists_at s V E r par" and "n \<in> V"
  shows "distinct (touts s n)" and "distinct (tins s n)"
    and "n \<noteq> r \<Longrightarrow> set (touts s n) = {e \<in> E. vtail s e = n}" and "n \<noteq> r \<Longrightarrow> set (tins s n) = {e \<in> E. vhead s e = n}"
    and "n = r \<Longrightarrow> set (kedges par (touts s n)) = {e \<in> E. vtail s e = n}"
    and "n = r \<Longrightarrow> set (kedges par (tins s n)) = {e \<in> E. vhead s e = n}"
proof -
  have all: "distinct (touts s n)" "distinct (tins s n)"
    "set (kedges (if n = r then par else None) (touts s n)) = {e \<in> E. vtail s e = n}"
    "set (kedges (if n = r then par else None) (tins s n)) = {e \<in> E. vhead s e = n}"
    using assms unfolding lists_at_def by blast+
  then show "distinct (touts s n)" "distinct (tins s n)" by blast+
  have none: "kedges None L = L" for L by simp
  show "set (touts s n) = {e \<in> E. vtail s e = n}" "set (tins s n) = {e \<in> E. vhead s e = n}" if "n \<noteq> r"
    using all(3,4) that unfolding none if_not_P [OF that] by blast+
  show "set (kedges par (touts s n)) = {e \<in> E. vtail s e = n}" "set (kedges par (tins s n)) = {e \<in> E. vhead s e = n}" if "n = r"
    using all(3,4) unfolding if_P [OF that] by blast+
qed

lemma rooted_ends: "rooted s t \<Longrightarrow> e \<in> set (tedges t) \<Longrightarrow> vtail s e \<in> set (gnodes t) \<and> vhead s e \<in> set (gnodes t)"
proof (induction t rule: gtree_induct)
  case (1 v cs)
  from "1.prems"(2) obtain p where p: "p \<in> set cs" "e = fst p \<or> e \<in> set (tedges (snd p))" by auto
  have sub: "set (gnodes (snd p)) \<subseteq> set (gnodes (GT v cs))" using p(1) by auto
  show ?case
  proof (cases "e = fst p")
    case True
    have "joins s e v (groot (snd p))" using "1.prems"(1) p(1) True by simp
    moreover have "groot (snd p) \<in> set (gnodes (GT v cs))" by (rule subsetD [OF sub groot_in])
    moreover have "v \<in> set (gnodes (GT v cs))" by simp
    ultimately show ?thesis unfolding joins_def by metis
  next
    case False
    then show ?thesis using "1.IH" [OF p(1)] "1.prems"(1) p sub by auto
  qed
qed

lemma kids_apart:
  assumes "distinct (knodes cs)" and "p \<in> set cs" and "q \<in> set cs" and "n \<in> set (gnodes (snd p))" and "n \<in> set (gnodes (snd q))"
  shows "p = q"
proof -
  have "n \<in> set (knodes cs)" using assms(2,4) by auto
  from kids_once [OF assms(1) this] obtain xs r ys where
    r: "cs = xs @ r # ys" "n \<notin> set (knodes xs)" "n \<notin> set (knodes ys)" by blast
  then show ?thesis using assms(2-5) by auto
qed

lemma kid_edges_unique:
  assumes r: "rooted s (GT v cs)" and d: "distinct (gnodes (GT v cs))" "distinct (tedges (GT v cs))" and p: "p \<in> set cs"
    and e: "e \<in> set (tedges (GT v cs))"
  shows "n \<in> set (gnodes (snd p)) \<Longrightarrow> vtail s e = n \<or> vhead s e = n \<Longrightarrow>
      e \<in> set (tedges (snd p)) \<or> e = fst p \<and> n = groot (snd p)"
    and "vtail s e = v \<or> vhead s e = v \<Longrightarrow> e \<in> set (map fst cs)"
proof -
  from e obtain q where q: "q \<in> set cs" "e = fst q \<or> e \<in> set (tedges (snd q))" by auto
  have dk: "distinct (knodes cs)" "v \<notin> set (knodes cs)" using d(1) by simp_all
  have inner: "e \<in> set (tedges (snd q)) \<Longrightarrow> vtail s e \<in> set (gnodes (snd q)) \<and> vhead s e \<in> set (gnodes (snd q))"
    using rooted_ends r q(1) by simp
  show "e \<in> set (tedges (snd p)) \<or> e = fst p \<and> n = groot (snd p)" if n: "n \<in> set (gnodes (snd p))" "vtail s e = n \<or> vhead s e = n"
  proof (cases "e \<in> set (tedges (snd q))")
    case True
    then have "n \<in> set (gnodes (snd q))" using inner n(2) by blast
    then show ?thesis using kids_apart [OF dk(1) p q(1) n(1)] True by simp
  next
    case False
    then have eq: "e = fst q" using q(2) by simp
    then have j: "joins s e v (groot (snd q))" using r q(1) by simp
    have "n \<noteq> v" using n(1) p dk(2) by auto
    then have "n = groot (snd q)" using j n(2) by (auto simp: joins_def)
    then have "p = q" using kids_apart [OF dk(1) p q(1) n(1)] by simp
    then show ?thesis using eq \<open>n = groot (snd q)\<close> by simp
  qed
  show "e \<in> set (map fst cs)" if "vtail s e = v \<or> vhead s e = v"
  proof (cases "e \<in> set (tedges (snd q))")
    case True
    then show ?thesis using inner that dk(2) q(1) by auto
  next
    case False
    then show ?thesis using q by simp
  qed
qed

lemma distinct_tkids: "distinct (tedges (GT v cs)) \<Longrightarrow> distinct (map fst cs) \<and> (\<forall>p\<in>set cs. distinct (tedges (snd p)) \<and> fst p \<notin> set (tedges (snd p)))"
  by (induction cs) auto

lemma lists_at_kid:
  assumes r: "rooted s (GT v cs)" and d: "distinct (gnodes (GT v cs))" "distinct (tedges (GT v cs))" and p: "p \<in> set cs"
    and l: "lists_at s (set (gnodes (GT v cs))) (set (tedges (GT v cs))) v par"
  shows "lists_at s (set (gnodes (snd p))) (set (tedges (snd p))) (groot (snd p)) (Some (fst p))"
  unfolding lists_at_def
proof (intro ballI)
  fix n assume n: "n \<in> set (gnodes (snd p))"
  have nv: "n \<noteq> v" "n \<in> set (gnodes (GT v cs))" using n p d(1) by auto
  have ln: "distinct (touts s n)" "distinct (tins s n)" "set (touts s n) = {e \<in> set (tedges (GT v cs)). vtail s e = n}"
    "set (tins s n) = {e \<in> set (tedges (GT v cs)). vhead s e = n}"
    using lists_atD(1-4) [OF l nv(2)] nv(1) by blast+
  have fp: "fst p \<notin> set (tedges (snd p))" using distinct_tkids [OF d(2)] p by blast
  have sub: "set (tedges (snd p)) \<subseteq> set (tedges (GT v cs))" using p by auto
  have j: "joins s (fst p) v (groot (snd p))" using r p by simp
  note u = kid_edges_unique(1) [OF r d p]
  have t: "set (kedges (if n = groot (snd p) then Some (fst p) else None) L) = {e \<in> set (tedges (snd p)). h e = n}"
    if L: "set L = {e \<in> set (tedges (GT v cs)). h e = n}" and h: "\<And>e. h e = n \<Longrightarrow> vtail s e = n \<or> vhead s e = n" for L h
  proof (intro equalityI subsetI)
    fix e assume "e \<in> set (kedges (if n = groot (snd p) then Some (fst p) else None) L)"
    then have e: "e \<in> set (tedges (GT v cs))" "h e = n" "n = groot (snd p) \<Longrightarrow> e \<noteq> fst p" unfolding set_filter L by auto
    from u [OF e(1) n h [OF e(2)]] e(3) e(2) show "e \<in> {e \<in> set (tedges (snd p)). h e = n}" by blast
  next
    fix e assume "e \<in> {e \<in> set (tedges (snd p)). h e = n}"
    then show "e \<in> set (kedges (if n = groot (snd p) then Some (fst p) else None) L)"
      unfolding set_filter L using fp sub by auto
  qed
  show "distinct (touts s n) \<and> distinct (tins s n) \<and>
      set (kedges (if n = groot (snd p) then Some (fst p) else None) (touts s n)) = {e \<in> set (tedges (snd p)). vtail s e = n} \<and>
      set (kedges (if n = groot (snd p) then Some (fst p) else None) (tins s n)) = {e \<in> set (tedges (snd p)). vhead s e = n}"
    using ln(1,2) t [OF ln(3)] t [OF ln(4)] by blast
qed

lemma distinct_concat_kids:
  assumes "distinct L" and "\<And>e. e \<in> set L \<Longrightarrow> distinct (g e)" and "\<And>e f. e \<in> set L \<Longrightarrow> f \<in> set L \<Longrightarrow> e \<noteq> f \<Longrightarrow> set (g e) \<inter> set (g f) = {}"
  shows "distinct (concat (map g L))"
  using assms
proof (induction L)
  case (Cons e L)
  have "set (g e) \<inter> set (g f) = {}" if "f \<in> set L" for f using Cons.prems(1,3) that by (metis distinct.simps(2) list.set_intros)
  then have "set (g e) \<inter> set (concat (map g L)) = {}" by auto
  moreover have "distinct (concat (map g L))" using Cons by simp
  ultimately show ?case using Cons.prems(2) by simp
qed simp

lemma tree_in_order:
  "rooted s t \<Longrightarrow> distinct (gnodes t) \<Longrightarrow> distinct (tedges t) \<Longrightarrow> lists_at s (set (gnodes t)) (set (tedges t)) (groot t) par \<Longrightarrow>
    \<exists>t'. groot t' = groot t \<and> is_tree s par t' \<and> distinct (gnodes t') \<and> set (gnodes t') = set (gnodes t)"
proof (induction t arbitrary: par rule: gtree_induct)
  case (1 v cs)
  note r = "1.prems"(1) and d = "1.prems"(2,3) and l = "1.prems"(4)
  have dk: "distinct (knodes cs)" "v \<notin> set (knodes cs)" using d(1) by simp_all
  note dc = conjunct1 [OF distinct_tkids [OF d(2)]]
  let ?o = "kedges par (touts s v)" and ?i = "kedges par (tins s v)"
  have lv: "distinct ?o" "distinct ?i" "set ?o = {e \<in> set (tedges (GT v cs)). vtail s e = v}" "set ?i = {e \<in> set (tedges (GT v cs)). vhead s e = v}"
    using lists_atD(1,2,5,6) [OF l, of v] by simp_all
  have "\<exists>t'. groot t' = groot (snd p) \<and> is_tree s (Some (fst p)) t' \<and> distinct (gnodes t') \<and> set (gnodes t') = set (gnodes (snd p))" if p: "p \<in> set cs" for p
  proof (rule "1.IH" [OF p])
    show "rooted s (snd p)" using r p by simp
    show "distinct (gnodes (snd p))" using dk(1) p by (auto simp: distinct_concat_iff)
    show "distinct (tedges (snd p))" using distinct_tkids [OF d(2)] p by blast
    show "lists_at s (set (gnodes (snd p))) (set (tedges (snd p))) (groot (snd p)) (Some (fst p))"
      by (rule lists_at_kid [OF r d p]) (use l in simp)
  qed
  then obtain f where f: "\<And>p. p \<in> set cs \<Longrightarrow> groot (f p) = groot (snd p) \<and> is_tree s (Some (fst p)) (f p) \<and> distinct (gnodes (f p)) \<and>
      set (gnodes (f p)) = set (gnodes (snd p))"
    by metis
  have j: "joins s (fst p) v (groot (snd p)) \<and> groot (snd p) \<noteq> v" if "p \<in> set cs" for p
  proof -
    have "groot (snd p) \<in> set (knodes cs)" using that by (intro subsetD [OF _ groot_in [of "snd p"]]) auto
    then show ?thesis using r that dk(2) by auto
  qed
  have set: "set (?o @ ?i) = set (map fst cs)"
  proof (intro equalityI subsetI)
    fix e assume "e \<in> set (?o @ ?i)"
    then have e: "e \<in> set (tedges (GT v cs))" "vtail s e = v \<or> vhead s e = v" unfolding set_append lv(3,4) by auto
    then obtain p where "p \<in> set cs" by auto
    from kid_edges_unique(2) [OF r d this e] show "e \<in> set (map fst cs)" .
  next
    fix e assume "e \<in> set (map fst cs)"
    then obtain p where p: "p \<in> set cs" "e = fst p" by (auto simp: image_iff)
    then have "e \<in> set (tedges (GT v cs))" by auto
    then show "e \<in> set (?o @ ?i)" unfolding set_append lv(3,4) using j [OF p(1)] p(2) by (auto simp: joins_def)
  qed
  have kin: "(e, kid_at cs e) \<in> set cs" if "e \<in> set (?o @ ?i)" for e by (rule kid_at_in [OF dc]) (use that set in blast)
  have "set ?o \<inter> set ?i = {}"
  proof (rule ccontr)
    assume "set ?o \<inter> set ?i \<noteq> {}"
    then obtain e where e: "e \<in> set ?o" "e \<in> set ?i" by blast
    then have "vtail s e = v" "vhead s e = v" unfolding lv(3,4) by simp_all
    moreover have "(e, kid_at cs e) \<in> set cs" using kin e(1) by simp
    ultimately show False using j [of "(e, kid_at cs e)"] by (auto simp: joins_def)
  qed
  then have dl: "distinct (?o @ ?i)" using lv(1,2) by simp
  define t' where "t' = GT v (map (\<lambda>e. (e, f (e, kid_at cs e))) (?o @ ?i))"
  have ends: "groot (f (e, kid_at cs e)) = (if e \<in> set ?o then vhead s e else vtail s e)" if "e \<in> set (?o @ ?i)" for e
  proof -
    have "joins s e v (groot (f (e, kid_at cs e)))" using f [OF kin [OF that]] j [OF kin [OF that]] by simp
    moreover have "vtail s e = v \<longleftrightarrow> e \<in> set ?o" "e \<notin> set ?o \<Longrightarrow> vhead s e = v"
      using that \<open>set ?o \<inter> set ?i = {}\<close> unfolding set_append lv(3,4) by auto
    moreover have "groot (f (e, kid_at cs e)) \<noteq> v" using f [OF kin [OF that]] j [OF kin [OF that]] by simp
    ultimately show ?thesis by (auto simp: joins_def)
  qed
  have "map (\<lambda>e. (e, groot (f (e, kid_at cs e)))) ?o = map (\<lambda>e. (e, vhead s e)) ?o" using ends by (intro map_cong) auto
  moreover have "map (\<lambda>e. (e, groot (f (e, kid_at cs e)))) ?i = map (\<lambda>e. (e, vtail s e)) ?i"
  proof (intro map_cong refl)
    fix e assume "e \<in> set ?i"
    then have "e \<in> set (?o @ ?i)" "e \<notin> set ?o" using \<open>set ?o \<inter> set ?i = {}\<close> by auto
    then show "(e, groot (f (e, kid_at cs e))) = (e, vtail s e)" using ends [of e] by (simp only: if_False)
  qed
  ultimately have "is_tree s par t'"
    using f [OF kin] unfolding t'_def by (auto simp: o_def)
  moreover have nodes: "set (gnodes (f (e, kid_at cs e))) = set (gnodes (kid_at cs e))" "distinct (gnodes (f (e, kid_at cs e)))" if "e \<in> set (?o @ ?i)" for e
    using f [OF kin [OF that]] by simp_all
  have all: "set (knodes cs) = (\<Union>e\<in>set (?o @ ?i). set (gnodes (kid_at cs e)))"
  proof (intro equalityI subsetI)
    fix n assume "n \<in> set (knodes cs)"
    then obtain p where p: "p \<in> set cs" "n \<in> set (gnodes (snd p))" by auto
    moreover have "kid_at cs (fst p) = snd p" using map_of_is_SomeI [OF dc, of "fst p" "snd p"] p(1) by simp
    moreover have "fst p \<in> set (?o @ ?i)" unfolding set using p(1) by simp
    ultimately show "n \<in> (\<Union>e\<in>set (?o @ ?i). set (gnodes (kid_at cs e)))" by (metis UN_I)
  next
    fix n assume "n \<in> (\<Union>e\<in>set (?o @ ?i). set (gnodes (kid_at cs e)))"
    then obtain e where "e \<in> set (?o @ ?i)" "n \<in> set (gnodes (kid_at cs e))" by blast
    then show "n \<in> set (knodes cs)" using kin [of e] by force
  qed
  have gn: "gnodes t' = concat (map (\<lambda>e. gnodes (f (e, kid_at cs e))) (?o @ ?i)) @ [v]" by (simp add: t'_def o_def)
  have "set (concat (map (\<lambda>e. gnodes (f (e, kid_at cs e))) (?o @ ?i))) = set (knodes cs)"
    unfolding all by (simp only: set_concat set_map image_image) (rule SUP_cong [OF refl nodes(1)])
  moreover have "distinct (concat (map (\<lambda>e. gnodes (f (e, kid_at cs e))) (?o @ ?i)))"
  proof (rule distinct_concat_kids [OF dl])
    show "distinct (gnodes (f (e, kid_at cs e)))" if "e \<in> set (?o @ ?i)" for e using nodes(2) [OF that] .
    fix e g assume e: "e \<in> set (?o @ ?i)" "g \<in> set (?o @ ?i)" "e \<noteq> g"
    show "set (gnodes (f (e, kid_at cs e))) \<inter> set (gnodes (f (g, kid_at cs g))) = {}"
      unfolding nodes(1) [OF e(1)] nodes(1) [OF e(2)]
      using kids_apart [OF dk(1) kin [OF e(1)] kin [OF e(2)]] e(3) by auto
  qed
  ultimately have "distinct (gnodes t')" "set (gnodes t') = set (gnodes (GT v cs))" unfolding gn using dk(2) by auto
  moreover have "groot t' = groot (GT v cs)" by (simp add: t'_def)
  ultimately show ?case using \<open>is_tree s par t'\<close> by blast
qed

text \<open>Every tree of edges is a rooted one of the state, when the lists say so.\<close>

lemma stree_is_tree:
  assumes "stree s V E" and "r \<in> V" and "lists_at s V E r par"
  shows "\<exists>t. groot t = r \<and> is_tree s par t \<and> distinct (gnodes t) \<and> set (gnodes t) = V"
proof -
  obtain t where t: "groot t = r" "rooted s t" "distinct (gnodes t)" "set (gnodes t) = V" "distinct (tedges t)" "set (tedges t) = E"
    using stree_rooted [OF assms(1,2)] by blast
  with tree_in_order [OF t(2,3,5), of par] assms(3) show ?thesis by simp
qed

end
