(* ===== verification/Ns_Desc.thy ===== *)
theory Ns_Desc
  imports Ns_Stree
begin

text \<open>
  The descendants of a node of the spanning tree, as the numbering gives them: how the tree edges lead
  from a node to its parent, that two sets of descendants are nested or apart, and that the cut of a
  tree edge is unique.
\<close>

section \<open>Descendants\<close>

text \<open>A numbered spanning tree.\<close>

definition numbered_tree :: "gtree \<Rightarrow> fgraph \<Rightarrow> bool" where
  "numbered_tree T s \<longleftrightarrow> cut_env T s \<and> subtree_at T s None T"

lemma numbered_treeD:
  assumes "numbered_tree T s"
  shows "cut_env T s" and "subtree_at T s None T" and "spanning s T" and "fg_ok s"
  using assms cut_envD(1) spanningD(1) by (auto simp: numbered_tree_def)

definition desc :: "gtree \<Rightarrow> fgraph \<Rightarrow> nat \<Rightarrow> nat set" where
  "desc T s v = {u \<in> set (gnodes T). below s v u}"

lemma desc_subtree: "numbered_tree T s \<Longrightarrow> subtree_at T s par t \<Longrightarrow> desc T s (groot t) = set (gnodes t)"
  unfolding desc_def using subtree_set numbered_treeD(1) by blast

lemma node_subtree:
  "cut_env T s \<Longrightarrow> subtree_at T s par t \<Longrightarrow> v \<in> set (gnodes t) \<Longrightarrow>
    \<exists>par' t'. subtree_at T s par' t' \<and> groot t' = v \<and> set (gnodes t') \<subseteq> set (gnodes t) \<and> (v = groot t \<longrightarrow> par' = par) \<and>
      (v \<noteq> groot t \<longrightarrow> (\<exists>g p cs pp. par' = Some g \<and> g \<in> set (tedges t) \<and> subtree_at T s pp (GT p cs) \<and> (g, t') \<in> set cs))"
proof (induction t arbitrary: par rule: gtree_induct)
  case (1 w cs)
  note env = "1.prems"(1) note at = "1.prems"(2) note sp = cut_envD(1) [OF env]
  show ?case
  proof (cases "v = w")
    case True
    then show ?thesis using at by (intro exI [of _ par] exI [of _ "GT w cs"]) simp
  next
    case False
    then obtain p where p: "p \<in> set cs" "v \<in> set (gnodes (snd p))" using "1.prems"(3) by auto
    note k = kid_edges(1) [OF sp at p(1)]
    have sub: "set (gnodes (snd p)) \<subseteq> set (gnodes (GT w cs))" "set (tedges (snd p)) \<subseteq> set (tedges (GT w cs))"
      "fst p \<in> set (tedges (GT w cs))" using p(1) by auto
    from "1.IH" [OF p(1) env k p(2)] obtain par' t' where
      t': "subtree_at T s par' t'" "groot t' = v" "set (gnodes t') \<subseteq> set (gnodes (snd p))" "v = groot (snd p) \<longrightarrow> par' = Some (fst p)"
      "v \<noteq> groot (snd p) \<longrightarrow> (\<exists>g q cs pp. par' = Some g \<and> g \<in> set (tedges (snd p)) \<and> subtree_at T s pp (GT q cs) \<and> (g, t') \<in> set cs)"
      by blast
    show ?thesis
    proof (cases "v = groot (snd p)")
      case True
      have "(fst p, snd p) \<in> set cs" using p(1) by simp
      with k True False sub at show ?thesis
        by (intro exI [of _ "Some (fst p)"] exI [of _ "snd p"]) auto
    next
      case vn: False
      with t'(5) obtain g q cs' pp where "par' = Some g" "g \<in> set (tedges (snd p))" "subtree_at T s pp (GT q cs')" "(g, t') \<in> set cs'" by blast
      with t'(1-3) sub False show ?thesis by (intro exI [of _ par'] exI [of _ t']) auto
    qed
  qed
qed

text \<open>The parent of a node that is not the root.\<close>

lemma parent_node:
  assumes nt: "numbered_tree T s" and v: "v \<in> set (gnodes T)" "v \<noteq> groot T"
  shows "\<exists>g. v_par (vnodes s v) = Some g \<and> g \<in> set (tedges T) \<and> child_end s g = v \<and> up_end s g \<in> set (gnodes T) \<and>
    joins s g v (up_end s g) \<and> v_lim (vnodes s v) < v_lim (vnodes s (up_end s g)) \<and> up_end s g \<notin> desc T s v \<and>
    desc T s v \<subseteq> desc T s (up_end s g)"
proof -
  note env = numbered_treeD(1) [OF nt] and rt = numbered_treeD(2) [OF nt] and sp = numbered_treeD(3) [OF nt]
  from node_subtree [OF env rt v(1)] v(2) obtain t g p cs pp where
    t: "subtree_at T s (Some g) t" "groot t = v" "g \<in> set (tedges T)" "subtree_at T s pp (GT p cs)" "(g, t) \<in> set cs" by blast
  note k = kid_edges(2) [OF sp t(4,5), simplified] and c = kid_child(1) [OF sp t(4,5), simplified]
  obtain l where l: "numbered s l (GT p cs)" using t(4) by (auto simp: subtree_at_def)
  have lim: "v_lim (vnodes s v) < v_lim (vnodes s p)" using kid_lim [OF l t(5)] t(2) by simp
  have up: "up_end s g = p" using k lim t(2) by (auto simp: up_end_def)
  have j: "joins s g v p" using k t(2) by (auto simp: joins_def)
  have pT: "p \<in> set (gnodes T)" using t(4) by (simp add: subtree_at_def)
  have d: "desc T s v = set (gnodes t)" "desc T s p = set (gnodes (GT p cs))"
    using desc_subtree [OF nt t(1)] desc_subtree [OF nt t(4)] t(2) by simp_all
  have "p \<notin> set (gnodes t)" using t(4,5) by (auto simp: subtree_at_def)
  moreover have "set (gnodes t) \<subseteq> set (gnodes (GT p cs))" using t(5) by force
  moreover have "v_par (vnodes s v) = Some g" using t(1,2) by (simp add: subtree_at_def)
  ultimately show ?thesis using t(2,3) c up j lim pT d by auto
qed

lemma desc_self: "numbered_tree T s \<Longrightarrow> v \<in> set (gnodes T) \<Longrightarrow> v \<in> desc T s v"
proof -
  assume nt: "numbered_tree T s" and v: "v \<in> set (gnodes T)"
  from node_subtree [OF numbered_treeD(1,2) [OF nt] v] obtain par t where "subtree_at T s par t" "groot t = v" by blast
  then show ?thesis using desc_subtree [OF nt] groot_in [of t] by blast
qed

lemma desc_root: "numbered_tree T s \<Longrightarrow> desc T s (groot T) = set (gnodes T)"
  using desc_subtree numbered_treeD(2) by blast

lemma desc_sub: "desc T s v \<subseteq> set (gnodes T)"
  by (auto simp: desc_def)

text \<open>Only the edge to the parent leads out of the descendants of a node.\<close>

lemma desc_exit:
  assumes nt: "numbered_tree T s" and v: "v \<in> set (gnodes T)" and g: "fast s g" "TREE_EDGE s g" "joins s g u w"
    and u: "u \<in> desc T s v" "w \<notin> desc T s v"
  shows "v_par (vnodes s v) = Some g"
proof -
  note env = numbered_treeD(1) [OF nt] and rt = numbered_treeD(2) [OF nt] and sp = numbered_treeD(3) [OF nt]
  from node_subtree [OF env rt v] obtain par t where t: "subtree_at T s par t" "groot t = v" by blast
  have d: "desc T s v = set (gnodes t)" using desc_subtree [OF nt t(1)] t(2) by simp
  have uT: "u \<in> set (gnodes T)" using u(1) by (simp add: desc_def)
  have "g \<in> set (touts s u) \<union> set (tins s u)" using g tree_edge_iff [OF sp uT] by (auto simp: joins_def)
  from tree_edge_in [OF env t(1) _ this] u g(3) d have "Some g = par" by (auto simp: joins_def)
  then show ?thesis using t by (simp add: subtree_at_def)
qed

lemma tree_edgeD:
  assumes nt: "numbered_tree T s" and g: "g \<in> set (tedges T)"
  shows "fast s g" and "TREE_EDGE s g" and "vtail s g \<in> set (gnodes T)" and "vhead s g \<in> set (gnodes T)"
    and "child_end s g \<in> set (gnodes T)" and "v_par (vnodes s (child_end s g)) = Some g" and "child_end s g \<noteq> groot T"
    and "joins s g (child_end s g) (up_end s g)"
proof -
  note env = numbered_treeD(1) [OF nt] and rt = numbered_treeD(2) [OF nt] and sp = numbered_treeD(3) [OF nt]
  note ok = tedges_ok [OF env rt g]
  then show "fast s g" "TREE_EDGE s g" "vtail s g \<in> set (gnodes T)" by blast+
  then show "vhead s g \<in> set (gnodes T)" using spanningD(3) [OF sp] by (simp add: closed_on_def)
  obtain t where t: "subtree_at T s (Some g) t" "child_end s g = groot t"
    "vtail s g = groot t \<and> v_lim (vnodes s (vtail s g)) < v_lim (vnodes s (vhead s g)) \<or>
     vhead s g = groot t \<and> v_lim (vnodes s (vhead s g)) < v_lim (vnodes s (vtail s g))"
    using tree_edge_down [OF env rt g] by blast
  have sub: "set (gnodes t) \<subseteq> set (gnodes T)" using t(1) by (simp add: subtree_at_def)
  show "child_end s g \<in> set (gnodes T)" unfolding t(2) by (rule subsetD [OF sub groot_in])
  show par: "v_par (vnodes s (child_end s g)) = Some g" using t(1,2) by (simp add: subtree_at_def)
  show "child_end s g \<noteq> groot T" using par rt by (auto simp: subtree_at_def)
  show "joins s g (child_end s g) (up_end s g)" using t(2,3) by (auto simp: joins_def up_end_def)
qed

text \<open>The induction up the tree.\<close>

lemma climb_induct:
  assumes nt: "numbered_tree T s" and v: "v \<in> set (gnodes T)"
    and step: "\<And>v. v \<in> set (gnodes T) \<Longrightarrow>
      (\<And>g. v \<noteq> groot T \<Longrightarrow> v_par (vnodes s v) = Some g \<Longrightarrow> up_end s g \<in> set (gnodes T) \<Longrightarrow> P (up_end s g)) \<Longrightarrow> P v"
  shows "P v"
  using v
proof (induction "nat (int (length (gnodes T)) - v_lim (vnodes s v))" arbitrary: v rule: less_induct)
  case less
  show ?case
  proof (rule step [OF less.prems])
    fix g assume g: "v \<noteq> groot T" "v_par (vnodes s v) = Some g" "up_end s g \<in> set (gnodes T)"
    from parent_node [OF nt less.prems g(1)] g(2) have lt: "v_lim (vnodes s v) < v_lim (vnodes s (up_end s g))" by auto
    have "numbered s 1 T" using numbered_treeD(1) [OF nt] by (simp add: cut_env_def)
    from numbered_lims(1) [OF this]
    have "(\<lambda>u. v_lim (vnodes s u)) ` set (gnodes T) = (\<lambda>i. 1 + int i) ` {0..<length (gnodes T)}" by (metis image_set set_upt)
    then have "v_lim (vnodes s (up_end s g)) \<in> (\<lambda>i. 1 + int i) ` {0..<length (gnodes T)}" using g(3) by blast
    then have "v_lim (vnodes s (up_end s g)) \<le> int (length (gnodes T))" by auto
    with lt have "nat (int (length (gnodes T)) - v_lim (vnodes s (up_end s g))) < nat (int (length (gnodes T)) - v_lim (vnodes s v))" by linarith
    from less.hyps [OF this g(3)] show "P (up_end s g)" .
  qed
qed

lemma desc_lim: "x \<in> desc T s v \<Longrightarrow> v_lim (vnodes s x) \<le> v_lim (vnodes s v)"
  by (simp add: desc_def below_def SEQ_def)

lemma lim_inj:
  assumes nt: "numbered_tree T s" and "u \<in> set (gnodes T)" and "v \<in> set (gnodes T)" and "v_lim (vnodes s u) = v_lim (vnodes s v)"
  shows "u = v"
proof -
  have "numbered s 1 T" using numbered_treeD(1) [OF nt] by (simp add: cut_env_def)
  then have "distinct (map (\<lambda>u. v_lim (vnodes s u)) (gnodes T))"
    unfolding numbered_lims(1) [OF \<open>numbered s 1 T\<close>] by (simp add: distinct_map inj_on_def)
  then have "inj_on (\<lambda>u. v_lim (vnodes s u)) (set (gnodes T))" by (simp add: distinct_map)
  then show ?thesis using assms(2-4) by (auto simp: inj_on_def)
qed

lemma root_above:
  assumes nt: "numbered_tree T s" and v: "v \<in> set (gnodes T)" and r: "groot T \<in> desc T s v"
  shows "v = groot T"
proof -
  have "v \<in> desc T s (groot T)" using desc_root [OF nt] v by simp
  from desc_lim [OF this] desc_lim [OF r] have "v_lim (vnodes s v) = v_lim (vnodes s (groot T))" by simp
  from lim_inj [OF nt v _ this] show ?thesis by simp
qed

lemma desc_antisym:
  assumes nt: "numbered_tree T s" and "u \<in> desc T s v" and "v \<in> desc T s u"
  shows "u = v"
proof (rule lim_inj [OF nt])
  show "u \<in> set (gnodes T)" "v \<in> set (gnodes T)" using assms(2,3) by (simp_all add: desc_def)
  show "v_lim (vnodes s u) = v_lim (vnodes s v)" using desc_lim [OF assms(2)] desc_lim [OF assms(3)] by simp
qed

text \<open>A node below \<open>v\<close> has its parent there, too.\<close>

lemma desc_parent:
  assumes nt: "numbered_tree T s" and v: "v \<in> set (gnodes T)" and x: "x \<in> desc T s v" "x \<noteq> v"
  shows "\<exists>g. x \<noteq> groot T \<and> v_par (vnodes s x) = Some g \<and> up_end s g \<in> desc T s v"
proof -
  have xT: "x \<in> set (gnodes T)" using x(1) by (simp add: desc_def)
  have nr: "x \<noteq> groot T" using root_above [OF nt v] x by blast
  from parent_node [OF nt xT nr] obtain g where g: "v_par (vnodes s x) = Some g" "g \<in> set (tedges T)" "joins s g x (up_end s g)"
    "child_end s g = x" by blast
  have "up_end s g \<in> desc T s v"
  proof (rule ccontr)
    assume "up_end s g \<notin> desc T s v"
    from desc_exit [OF nt v tree_edgeD(1,2) [OF nt g(2)] g(3) x(1) this] have par: "v_par (vnodes s v) = Some g" .
    have "v \<noteq> groot T" using par numbered_treeD(2) [OF nt] by (auto simp: subtree_at_def)
    from parent_node [OF nt v this] obtain g' where "v_par (vnodes s v) = Some g'" "child_end s g' = v" by blast
    then show False using par g(4) x(2) by simp
  qed
  with g(1) nr show ?thesis by blast
qed

lemma desc_trans: "numbered_tree T s \<Longrightarrow> v \<in> set (gnodes T) \<Longrightarrow> x \<in> desc T s v \<Longrightarrow> desc T s x \<subseteq> desc T s v"
proof -
  assume nt: "numbered_tree T s" and v: "v \<in> set (gnodes T)" and x: "x \<in> desc T s v"
  then have "x \<in> set (gnodes T)" by (simp add: desc_def)
  have "x \<in> desc T s v \<longrightarrow> desc T s x \<subseteq> desc T s v"
  proof (rule climb_induct [OF nt \<open>x \<in> set (gnodes T)\<close>])
    fix y assume y: "y \<in> set (gnodes T)"
      and IH: "\<And>g. y \<noteq> groot T \<Longrightarrow> v_par (vnodes s y) = Some g \<Longrightarrow> up_end s g \<in> set (gnodes T) \<Longrightarrow>
        up_end s g \<in> desc T s v \<longrightarrow> desc T s (up_end s g) \<subseteq> desc T s v"
    show "y \<in> desc T s v \<longrightarrow> desc T s y \<subseteq> desc T s v"
    proof
      assume yd: "y \<in> desc T s v"
      show "desc T s y \<subseteq> desc T s v"
      proof (cases "y = v")
        case False
        from desc_parent [OF nt v yd this] obtain g where g: "y \<noteq> groot T" "v_par (vnodes s y) = Some g" "up_end s g \<in> desc T s v" by blast
        have "up_end s g \<in> set (gnodes T)" using g(3) by (simp add: desc_def)
        with IH [OF g(1,2)] g(3) have "desc T s (up_end s g) \<subseteq> desc T s v" by blast
        moreover from parent_node [OF nt y g(1)] g(2) have "desc T s y \<subseteq> desc T s (up_end s g)" by auto
        ultimately show ?thesis by blast
      qed simp
    qed
  qed
  then show ?thesis using x by blast
qed

lemma desc_nested:
  assumes nt: "numbered_tree T s" and x: "x \<in> desc T s u" "x \<in> desc T s v" and uv: "u \<in> set (gnodes T)" "v \<in> set (gnodes T)"
  shows "u \<in> desc T s v \<or> v \<in> desc T s u"
proof -
  have xT: "x \<in> set (gnodes T)" using x(1) by (simp add: desc_def)
  have "x \<in> desc T s u \<longrightarrow> x \<in> desc T s v \<longrightarrow> u \<notin> desc T s v \<longrightarrow> v \<in> desc T s u"
  proof (rule climb_induct [OF nt xT], intro impI)
    fix x assume xT: "x \<in> set (gnodes T)"
      and IH: "\<And>g. x \<noteq> groot T \<Longrightarrow> v_par (vnodes s x) = Some g \<Longrightarrow> up_end s g \<in> set (gnodes T) \<Longrightarrow>
        up_end s g \<in> desc T s u \<longrightarrow> up_end s g \<in> desc T s v \<longrightarrow> u \<notin> desc T s v \<longrightarrow> v \<in> desc T s u"
      and a: "x \<in> desc T s u" "x \<in> desc T s v" "u \<notin> desc T s v"
    show "v \<in> desc T s u"
    proof (cases "x = v")
      case False
      from desc_parent [OF nt uv(2) a(2) False] obtain g where g: "x \<noteq> groot T" "v_par (vnodes s x) = Some g" "up_end s g \<in> desc T s v" by blast
      have "x \<noteq> u" using a by blast
      from desc_parent [OF nt uv(1) a(1) this] g(2) have "up_end s g \<in> desc T s u" by auto
      moreover have "up_end s g \<in> set (gnodes T)" using g(3) by (simp add: desc_def)
      ultimately show ?thesis using IH [OF g(1,2)] g(3) a(3) by blast
    qed (use a in simp)
  qed
  then show ?thesis using x by blast
qed

section \<open>Cuts\<close>

text \<open>A set that no tree edge leaves is everything or nothing.\<close>

lemma no_crossing:
  assumes nt: "numbered_tree T s" and X: "\<forall>g\<in>set (tedges T). vtail s g \<in> X \<longleftrightarrow> vhead s g \<in> X" and v: "v \<in> set (gnodes T)"
  shows "v \<in> X \<longleftrightarrow> groot T \<in> X"
proof (rule climb_induct [OF nt v])
  fix v assume v: "v \<in> set (gnodes T)" and IH: "\<And>g. v \<noteq> groot T \<Longrightarrow> v_par (vnodes s v) = Some g \<Longrightarrow> up_end s g \<in> set (gnodes T) \<Longrightarrow>
    up_end s g \<in> X \<longleftrightarrow> groot T \<in> X"
  show "v \<in> X \<longleftrightarrow> groot T \<in> X"
  proof (cases "v = groot T")
    case False
    from parent_node [OF nt v False] obtain g where g: "v_par (vnodes s v) = Some g" "g \<in> set (tedges T)" "up_end s g \<in> set (gnodes T)"
      "joins s g v (up_end s g)" by blast
    have "vtail s g \<in> X \<longleftrightarrow> vhead s g \<in> X" using X g(2) by blast
    then have "v \<in> X \<longleftrightarrow> up_end s g \<in> X" using g(4) unfolding joins_def by (elim disjE conjE) simp_all
    with IH [OF False g(1,3)] show ?thesis by simp
  qed simp
qed

lemma tree_cut_unique:
  assumes nt: "numbered_tree T s" and S: "tree_cut s S g" "tree_cut s S' g" "S \<subseteq> set (gnodes T)" "S' \<subseteq> set (gnodes T)" and g: "g \<in> set (tedges T)"
  shows "S = S'"
proof -
  define X where "X = (S - S') \<union> (S' - S)"
  have "\<forall>h\<in>set (tedges T). vtail s h \<in> X \<longleftrightarrow> vhead s h \<in> X"
  proof
    fix h assume "h \<in> set (tedges T)"
    note h = tree_edgeD(1,2) [OF nt this]
    show "vtail s h \<in> X \<longleftrightarrow> vhead s h \<in> X"
    proof (cases "h = g")
      case True
      then show ?thesis using S(1,2) by (auto simp: tree_cut_def X_def)
    next
      case False
      then have "vtail s h \<in> S \<longleftrightarrow> vhead s h \<in> S" "vtail s h \<in> S' \<longleftrightarrow> vhead s h \<in> S'" using S(1,2) h unfolding tree_cut_def by blast+
      then show ?thesis by (auto simp: X_def)
    qed
  qed
  from no_crossing [OF nt this] have all: "v \<in> X \<longleftrightarrow> groot T \<in> X" if "v \<in> set (gnodes T)" for v using that by blast
  have "vtail s g \<in> S" "vtail s g \<in> S'" using S(1,2) by (simp_all add: tree_cut_def)
  then have "vtail s g \<notin> X" "vtail s g \<in> set (gnodes T)" using S(3) by (auto simp: X_def)
  with all have none: "v \<notin> X" if "v \<in> set (gnodes T)" for v using that by blast
  show ?thesis
  proof (intro equalityI subsetI)
    fix v assume "v \<in> S"
    then show "v \<in> S'" using none [of v] S(3) by (auto simp: X_def)
  next
    fix v assume "v \<in> S'"
    then show "v \<in> S" using none [of v] S(4) by (auto simp: X_def)
  qed
qed

text \<open>The side of the tail of a tree edge, in terms of the child end.\<close>

definition tail_side :: "gtree \<Rightarrow> fgraph \<Rightarrow> nat \<Rightarrow> nat set" where
  "tail_side T s g = (if child_end s g = vtail s g then desc T s (child_end s g) else set (gnodes T) - desc T s (child_end s g))"

lemma side_cut:
  assumes nt: "numbered_tree T s" and g: "g \<in> set (tedges T)"
  shows "tree_cut s (tail_side T s g) g" and "tail_side T s g \<subseteq> set (gnodes T)"
proof -
  let ?c = "child_end s g" and ?V = "set (gnodes T)"
  note e = tree_edgeD [OF nt g]
  have cd: "?c \<in> desc T s ?c" by (rule desc_self [OF nt e(5)])
  have up: "up_end s g \<notin> desc T s ?c" using parent_node [OF nt e(5,7)] e(6) by auto
  have cl: "vtail s h \<in> ?V \<longleftrightarrow> vhead s h \<in> ?V" if "fast s h" for h
    using spanningD(3) [OF numbered_treeD(3) [OF nt]] that by (simp add: closed_on_def)
  have only: "h = g" if h: "fast s h" "TREE_EDGE s h" "(vtail s h \<in> desc T s ?c) \<noteq> (vhead s h \<in> desc T s ?c)" for h
  proof -
    obtain u w where "joins s h u w" "u \<in> desc T s ?c" "w \<notin> desc T s ?c" using h(3) by (auto simp: joins_def)
    from desc_exit [OF nt e(5) h(1,2) this] e(6) show ?thesis by simp
  qed
  show "tail_side T s g \<subseteq> ?V" by (auto simp: tail_side_def desc_def)
  show "tree_cut s (tail_side T s g) g" unfolding tree_cut_def
  proof (intro conjI allI impI)
    show "vtail s g \<in> tail_side T s g" "vhead s g \<notin> tail_side T s g"
    proof -
      consider "vtail s g = ?c" "vhead s g = up_end s g" | "vtail s g = up_end s g" "vhead s g = ?c" using e(8) unfolding joins_def by blast
      then have "vtail s g \<in> tail_side T s g \<and> vhead s g \<notin> tail_side T s g"
      proof cases
        case 1
        then have "tail_side T s g = desc T s ?c" by (simp add: tail_side_def)
        with 1 cd up show ?thesis by simp
      next
        case 2
        have "vtail s g \<noteq> ?c" using 2(1) up cd by auto
        then have "tail_side T s g = ?V - desc T s ?c" by (simp add: tail_side_def)
        with 2 cd up e(3) show ?thesis by simp
      qed
      then show "vtail s g \<in> tail_side T s g" "vhead s g \<notin> tail_side T s g" by blast+
    qed
    fix h assume h: "fast s h" "TREE_EDGE s h" "(vtail s h \<in> tail_side T s g) \<noteq> (vhead s h \<in> tail_side T s g)"
    have "(vtail s h \<in> desc T s ?c) \<noteq> (vhead s h \<in> desc T s ?c)"
      using h(3) cl [OF h(1)] desc_sub [of T s ?c] by (auto simp: tail_side_def split: if_splits)
    with only h show "h = g" by blast
  qed
qed

text \<open>What the cut value of a tree edge must be, whatever the cut is.\<close>

definition cut_right :: "gtree \<Rightarrow> fgraph \<Rightarrow> nat \<Rightarrow> bool" where
  "cut_right T s g \<longleftrightarrow> cutv s g = cut_weight s (tail_side T s g)"

lemma cut_right_iff:
  assumes nt: "numbered_tree T s" and g: "g \<in> set (tedges T)" and S: "tree_cut s S g" "S \<subseteq> set (gnodes T)"
  shows "cut_right T s g \<longleftrightarrow> cutv s g = cut_weight s S"
  using tree_cut_unique [OF nt S(1) side_cut(1) [OF nt g] S(2) side_cut(2) [OF nt g] g] by (simp add: cut_right_def)

lemma cut_good_right:
  assumes nt: "numbered_tree T s" and g: "g \<in> set (tedges T)"
  shows "cut_good T s g \<longleftrightarrow> cut_right T s g"
proof -
  from cut_of_tree_cut [OF numbered_treeD(1,2) [OF nt] tree_edgeD(1,2,3) [OF nt g]] obtain S where
    S: "S \<subseteq> set (gnodes T)" "tree_cut s S g" "cut_of T s g = cut_weight s S" by blast
  show ?thesis unfolding cut_right_iff [OF nt g S(2,1)] cut_good_def S(3) ..
qed

end
