(* ===== verification/Ns_Shift.thy ===== *)
theory Ns_Shift
  imports Ns_Desc Ns_Balance
begin

text \<open>
  States that are alike for the spanning tree, and \<open>rerank\<close>: it moves the ranks of the nodes of a subtree by
  the same amount. What this does to the slacks and to the total length.
\<close>

section \<open>Alike states\<close>

text \<open>The states differ in ranks, priorities, marks and cut values only.\<close>

definition alike :: "fgraph \<Rightarrow> fgraph \<Rightarrow> bool" where
  "alike s s' \<longleftrightarrow> nlist s' = nlist s \<and> efresh s' = efresh s \<and>
     (\<forall>n. outs s' n = outs s n \<and> ins s' n = ins s n \<and> touts s' n = touts s n \<and> tins s' n = tins s n \<and>
        v_par (vnodes s' n) = v_par (vnodes s n) \<and> v_low (vnodes s' n) = v_low (vnodes s n) \<and> v_lim (vnodes s' n) = v_lim (vnodes s n)) \<and>
     (\<forall>e. vtail s' e = vtail s e \<and> vhead s' e = vhead s e \<and> e_weight (vedges s' e) = e_weight (vedges s e) \<and>
        e_minlen (vedges s' e) = e_minlen (vedges s e) \<and> e_tree_index (vedges s' e) = e_tree_index (vedges s e) \<and>
        e_to_virt (vedges s' e) = e_to_virt (vedges s e))"

lemma alike_refl [simp]: "alike s s"
  by (simp add: alike_def)

lemma alike_trans: "alike s s1 \<Longrightarrow> alike s1 s2 \<Longrightarrow> alike s s2"
  unfolding alike_def by simp

lemma alikeD:
  assumes "alike s s'"
  shows "nlist s' = nlist s" and "efresh s' = efresh s" and "outs s' n = outs s n" and "ins s' n = ins s n"
    and "touts s' n = touts s n" and "tins s' n = tins s n" and "v_par (vnodes s' n) = v_par (vnodes s n)"
    and "v_low (vnodes s' n) = v_low (vnodes s n)" and "v_lim (vnodes s' n) = v_lim (vnodes s n)"
    and "vtail s' e = vtail s e" and "vhead s' e = vhead s e" and "e_weight (vedges s' e) = e_weight (vedges s e)"
    and "e_minlen (vedges s' e) = e_minlen (vedges s e)" and "e_tree_index (vedges s' e) = e_tree_index (vedges s e)"
    and "e_to_virt (vedges s' e) = e_to_virt (vedges s e)"
  using assms unfolding alike_def by blast+

lemma alike_edges:
  assumes "alike s s'"
  shows "fast s' e = fast s e" and "TREE_EDGE s' e = TREE_EDGE s e" and "child_end s' e = child_end s e" and "up_end s' e = up_end s e"
    and "below s' u v = below s u v" and "deg_weight s' u = deg_weight s u" and "joins s' e u v = joins s e u v"
    and "closed_on V s' = closed_on V s" and "frel s' = frel s" and "fg_ok s' = fg_ok s"
proof -
  note a = alikeD [OF assms]
  show f: "fast s' e = fast s e" for e by (simp add: fast_def a)
  show "TREE_EDGE s' e = TREE_EDGE s e" "child_end s' e = child_end s e" "up_end s' e = up_end s e" "below s' u v = below s u v"
    "deg_weight s' u = deg_weight s u" "joins s' e u v = joins s e u v"
    by (simp_all add: TREE_EDGE_def child_end_def up_end_def below_def deg_weight_def joins_def a)
  show "closed_on V s' = closed_on V s" "frel s' = frel s" "fg_ok s' = fg_ok s"
    by (simp_all add: closed_on_def frel_def fg_ok_def f a)
qed

lemma alike_tree:
  assumes "alike s s'"
  shows "is_tree s' par t = is_tree s par t" and "numbered s' l t = numbered s l t" and "subtree_at T s' par t = subtree_at T s par t"
    and "spanning s' T = spanning s T" and "numbered_tree T s' = numbered_tree T s" and "desc T s' v = desc T s v" and "tail_side T s' e = tail_side T s e"
    and "cut_weight s' S = cut_weight s S" and "tree_cut s' S e = tree_cut s S e" and "cut_of T s' e = cut_of T s e"
proof -
  note a = alikeD [OF assms] and e = alike_edges [OF assms]
  show t: "is_tree s' par t = is_tree s par t" for par t by (rule is_tree_same) (simp_all add: a)
  have "numbered s' l t = numbered s l t" and "numbered_kids s' l cs = numbered_kids s l cs" for l t cs
    using assms by (induction s l t and s l cs rule: numbered_numbered_kids.induct) (simp_all add: alikeD)
  then show n: "numbered s' l t = numbered s l t" for l t by blast
  show st: "subtree_at T s' par t = subtree_at T s par t" for par t by (simp add: subtree_at_def n t a e cong: option.case_cong)
  show sp: "spanning s' T = spanning s T" by (simp add: spanning_def e t a)
  show "numbered_tree T s' = numbered_tree T s" by (simp add: numbered_tree_def cut_env_def st sp n e a)
  show d: "desc T s' v = desc T s v" for v by (simp add: desc_def e)
  show "tail_side T s' e = tail_side T s e" for e by (simp add: tail_side_def d e a)
  show "cut_weight s' S = cut_weight s S" "tree_cut s' S e = tree_cut s S e" by (simp_all add: cut_weight_def tree_cut_def e a)
  show "cut_of T s' e = cut_of T s e" by (simp add: cut_of_def net_weight_def e a)
qed

section \<open>Moving ranks\<close>

definition shift :: "nat set \<Rightarrow> int \<Rightarrow> fgraph \<Rightarrow> fgraph" where
  "shift A d s = s\<lparr>vnodes := \<lambda>n. if n \<in> A then (vnodes s n)\<lparr>v_rank := v_rank (vnodes s n) - d\<rparr> else vnodes s n\<rparr>"

lemma shift_alike: "alike s (shift A d s)"
  by (simp add: alike_def shift_def)

lemma shift_join: "A \<inter> B = {} \<Longrightarrow> shift B d (shift A d s) = shift (A \<union> B) d s"
proof -
  assume d: "A \<inter> B = {}"
  have v: "vnodes (shift B d (shift A d s)) n = vnodes (shift (A \<union> B) d s) n" for n
  proof -
    have "\<not> (n \<in> A \<and> n \<in> B)" using d by blast
    then show ?thesis by (cases "n \<in> A"; cases "n \<in> B") (simp_all add: shift_def)
  qed
  have "shift B d (shift A d s) = s\<lparr>vnodes := vnodes (shift B d (shift A d s))\<rparr>" "shift (A \<union> B) d s = s\<lparr>vnodes := vnodes (shift (A \<union> B) d s)\<rparr>"
    by (simp_all add: shift_def)
  moreover have "vnodes (shift B d (shift A d s)) = vnodes (shift (A \<union> B) d s)" using v by (rule ext)
  ultimately show ?thesis by metis
qed

lemma shift_one: "upd_v v (\<lambda>x. x\<lparr>v_rank := v_rank x - d\<rparr>) s = shift {v} d s"
  by (simp add: shift_def upd_v_def fun_eq_iff)

lemma shift_none [simp]: "shift {} d s = s"
  by (simp add: shift_def)

lemma shift_slack:
  "SLACK (shift A d s) e = SLACK s e + (if vtail s e \<in> A then d else 0) - (if vhead s e \<in> A then d else 0)"
  by (simp add: shift_def SLACK_def LENGTH_e_def)

lemma rerank_each:
  assumes "\<And>p s. p \<in> set qs \<Longrightarrow> alike base s \<Longrightarrow> rerank k (groot (snd p)) d s = Some (shift (set (gnodes (snd p))) d s) \<and>
      en s (fst p) = groot (snd p)"
    and "alike base s" and "v_par (vnodes base v) = par" and "kedges par L = map fst qs" and "distinct (knodes qs)"
  shows "each (\<lambda>e s. if Some e \<noteq> v_par (vnodes s v) then rerank k (en s e) d s else Some s) L s = Some (shift (set (knodes qs)) d s)"
  using assms
proof (induction L arbitrary: qs s)
  case (Cons e L)
  have par: "v_par (vnodes s v) = par" using alikeD(7) [OF Cons.prems(2)] Cons.prems(3) by simp
  show ?case
  proof (cases "Some e = par")
    case True
    then have "kedges par L = map fst qs" using Cons.prems(4) by simp
    with Cons.IH [OF Cons.prems(1,2,3) this Cons.prems(5)] True par show ?thesis by simp
  next
    case False
    with Cons.prems(4) obtain p ps where qs: "qs = p # ps" "fst p = e" "kedges par L = map fst ps" by (cases qs) auto
    have one: "rerank k (en s e) d s = Some (shift (set (gnodes (snd p))) d s)" using Cons.prems(1) [of p s] Cons.prems(2) qs by simp
    let ?s = "shift (set (gnodes (snd p))) d s"
    have al: "alike base ?s" by (rule alike_trans [OF Cons.prems(2) shift_alike])
    have "each (\<lambda>e s. if Some e \<noteq> v_par (vnodes s v) then rerank k (en s e) d s else Some s) L ?s = Some (shift (set (knodes ps)) d ?s)"
      by (rule Cons.IH [OF _ al Cons.prems(3) qs(3)]) (use Cons.prems(1,5) qs in auto)
    moreover have "shift (set (knodes ps)) d ?s = shift (set (knodes qs)) d s"
      using Cons.prems(5) by (subst shift_join) (simp_all add: qs)
    ultimately show ?thesis using one False par by simp
  qed
qed simp

lemma rerank_tree:
  "is_tree s par t \<Longrightarrow> numbered s l t \<Longrightarrow> distinct (gnodes t) \<Longrightarrow> v_par (vnodes s (groot t)) = par \<Longrightarrow> length (gnodes t) \<le> k \<Longrightarrow>
    rerank k (groot t) d s = Some (shift (set (gnodes t)) d s)"
proof (induction t arbitrary: s par l k rule: gtree_induct)
  case (1 v cs)
  then obtain k' where k: "k = Suc k'" "length (knodes cs) \<le> k'" by (cases k) auto
  let ?o = "kedges par (touts s v)" and ?i = "kedges par (tins s v)"
  have m: "map (\<lambda>p. (fst p, groot (snd p))) cs = map (\<lambda>e. (e, vhead s e)) ?o @ map (\<lambda>e. (e, vtail s e)) ?i"
    using "1.prems"(1) by simp
  have dk: "distinct (knodes cs)" "v \<notin> set (knodes cs)" using "1.prems"(3) by simp_all
  have nk: "numbered_kids s l cs" using "1.prems"(2) by simp
  define co where "co = take (length ?o) cs"
  define ci where "ci = drop (length ?o) cs"
  have cs: "cs = co @ ci" by (simp add: co_def ci_def)
  have mo: "map (\<lambda>p. (fst p, groot (snd p))) co = map (\<lambda>e. (e, vhead s e)) ?o"
    unfolding co_def take_map [symmetric] m by simp
  have mi: "map (\<lambda>p. (fst p, groot (snd p))) ci = map (\<lambda>e. (e, vtail s e)) ?i"
    unfolding ci_def drop_map [symmetric] m by simp
  have fo: "?o = map fst co" "vhead s (fst p) = groot (snd p)" if "p \<in> set co" for p
  proof -
    from arg_cong [OF mo, of "map fst"] show "?o = map fst co" by (simp add: o_def)
    have "(fst p, groot (snd p)) \<in> set (map (\<lambda>e. (e, vhead s e)) ?o)" unfolding mo [symmetric] using that by simp
    then show "vhead s (fst p) = groot (snd p)" by auto
  qed
  have fi: "?i = map fst ci" "vtail s (fst p) = groot (snd p)" if "p \<in> set ci" for p
  proof -
    from arg_cong [OF mi, of "map fst"] show "?i = map fst ci" by (simp add: o_def)
    have "(fst p, groot (snd p)) \<in> set (map (\<lambda>e. (e, vtail s e)) ?i)" unfolding mi [symmetric] using that by simp
    then show "vtail s (fst p) = groot (snd p)" by auto
  qed
  have oo: "?o = map fst co" using arg_cong [OF mo, of "map fst"] by (simp add: o_def)
  have ii: "?i = map fst ci" using arg_cong [OF mi, of "map fst"] by (simp add: o_def)
  let ?s1 = "shift {v} d s" and ?s2 = "shift (set (knodes co)) d (shift {v} d s)"
  have kid: "rerank k' (groot (snd p)) d s' = Some (shift (set (gnodes (snd p))) d s')" if p: "p \<in> set cs" and al: "alike s s'" for p s'
  proof -
    obtain l' where l': "numbered s l' (snd p)" "v_par (vnodes s (groot (snd p))) = Some (fst p)" using numbered_kid [OF nk p] by blast
    have "length (gnodes (snd p)) \<le> length (knodes cs)" using p by (simp add: length_concat o_def member_le_sum_list)
    moreover have "is_tree s' (Some (fst p)) (snd p)" using "1.prems"(1) p alike_tree(1) [OF al] by simp
    moreover have "numbered s' l' (snd p)" using l'(1) alike_tree(2) [OF al] by simp
    moreover have "distinct (gnodes (snd p))" using dk(1) p by (auto simp: distinct_concat_iff)
    moreover have "v_par (vnodes s' (groot (snd p))) = Some (fst p)" using l'(2) alikeD(7) [OF al] by simp
    ultimately show ?thesis using "1.IH" [OF p] k(2) by simp
  qed
  have "each (\<lambda>e s. if Some e \<noteq> v_par (vnodes s v) then rerank k' (vhead s e) d s else Some s) (touts s v) ?s1 = Some ?s2"
  proof (rule rerank_each [where base = s and par = par and en = "\<lambda>s e. vhead s e" and qs = co])
    fix p s' assume p: "p \<in> set co" and al: "alike s s'"
    show "rerank k' (groot (snd p)) d s' = Some (shift (set (gnodes (snd p))) d s') \<and> vhead s' (fst p) = groot (snd p)"
      using kid [of p s', OF _ al] p cs fo(2) [OF p] alikeD(11) [OF al] by simp
  qed (use "1.prems"(4) oo dk cs in \<open>simp_all add: shift_alike\<close>)
  moreover have "each (\<lambda>e s. if Some e \<noteq> v_par (vnodes s v) then rerank k' (vtail s e) d s else Some s) (tins s v) ?s2 = Some (shift (set (knodes ci)) d ?s2)"
  proof (rule rerank_each [where base = s and par = par and en = "\<lambda>s e. vtail s e" and qs = ci])
    fix p s' assume p: "p \<in> set ci" and al: "alike s s'"
    show "rerank k' (groot (snd p)) d s' = Some (shift (set (gnodes (snd p))) d s') \<and> vtail s' (fst p) = groot (snd p)"
      using kid [of p s', OF _ al] p cs fi(2) [OF p] alikeD(10) [OF al] by simp
  qed (use "1.prems"(4) ii dk cs in \<open>simp_all add: alike_trans [OF shift_alike shift_alike]\<close>)
  moreover have "shift (set (knodes ci)) d ?s2 = shift (set (gnodes (GT v cs))) d s"
  proof -
    have "{v} \<inter> set (knodes co) = {}" "({v} \<union> set (knodes co)) \<inter> set (knodes ci) = {}" using dk cs by auto
    then show ?thesis unfolding shift_join [OF \<open>{v} \<inter> set (knodes co) = {}\<close>] using cs by (subst shift_join) auto
  qed
  moreover have "touts ?s1 v = touts s v" "tins ?s2 v = tins s v"
    using alikeD(5) [OF shift_alike] alikeD(6) [OF alike_trans [OF shift_alike shift_alike]] by blast+
  ultimately show ?case
    by (simp only: k(1) rerank.simps Let_def gtree.sel shift_one option.case)
qed

end
