(* ===== verification/Ns_Path.thy ===== *)
theory Ns_Path
  imports Ns_Shift
begin

text \<open>
  The steps of \<open>update\<close> along the tree: \<open>rerank\<close> on one side of the leaving edge, \<open>treeupdate\<close> from an end of the
  entering edge up to the common ancestor of its ends, and \<open>invalidate_path\<close>.
\<close>

section \<open>One side of the leaving edge\<close>

lemma rerank_node:
  assumes nt: "numbered_tree T s" and v: "v \<in> set (gnodes T)" and k: "length (gnodes T) \<le> k"
  shows "rerank k v d s = Some (shift (desc T s v) d s)"
proof -
  from node_subtree [OF numbered_treeD(1,2) [OF nt] v] obtain par t where t: "subtree_at T s par t" "groot t = v" by blast
  obtain l where l: "numbered s l t" using t(1) by (auto simp: subtree_at_def)
  have t': "is_tree s par t" "distinct (gnodes t)" "v_par (vnodes s (groot t)) = par" "set (gnodes t) \<subseteq> set (gnodes T)"
    using t(1) by (simp_all add: subtree_at_def)
  have "distinct (gnodes T)" using numbered_treeD(2) [OF nt] by (simp add: subtree_at_def)
  then have "length (gnodes t) \<le> length (gnodes T)"
    using card_mono [OF _ t'(4)] distinct_card [OF t'(2)] distinct_card by (metis List.finite_set)
  then have "length (gnodes t) \<le> k" using k by simp
  from rerank_tree [OF t'(1) l t'(2,3) this] have "rerank k (groot t) d s = Some (shift (set (gnodes t)) d s)" .
  then show ?thesis using desc_subtree [OF nt t(1)] t(2) by simp
qed

lemma single_edge_root:
  assumes nt: "numbered_tree T s" and e: "e \<in> set (tedges T)" and p: "p = up_end s e" and deg: "tree_degree s p = 1"
  shows "p = groot T"
proof (rule ccontr)
  assume nr: "p \<noteq> groot T"
  note te = tree_edgeD [OF nt e]
  have sp: "spanning s T" by (rule numbered_treeD(3) [OF nt])
  have pT: "p \<in> set (gnodes T)" using te(3,4,8) p by (auto simp: joins_def)
  from parent_node [OF nt pT nr] obtain g where g: "v_par (vnodes s p) = Some g" "g \<in> set (tedges T)" "child_end s g = p" "joins s g p (up_end s g)" by blast
  have ne: "g \<noteq> e"
  proof
    assume "g = e"
    then have "child_end s e = up_end s e" using g(3) p by simp
    moreover have "up_end s e \<notin> desc T s (child_end s e)" using parent_node [OF nt te(5,7)] te(6) by auto
    ultimately show False using desc_self [OF nt te(5)] by simp
  qed
  have "g \<in> set (touts s p @ tins s p)"
    using g(4) tree_edge_iff [OF sp pT] tree_edgeD(1,2) [OF nt g(2)] by (auto simp: joins_def)
  moreover have "e \<in> set (touts s p @ tins s p)" using te(1,2,8) p tree_edge_iff [OF sp pT] by (auto simp: joins_def)
  ultimately have "card {g, e} \<le> card (set (touts s p @ tins s p))" by (intro card_mono) auto
  also have "\<dots> \<le> length (touts s p @ tins s p)" by (rule card_length)
  also have "\<dots> = 1" using deg by (simp add: tree_degree_def)
  finally show False using ne by simp
qed

text \<open>
  The nodes on the tail side go down by the slack of the entering edge, relative to the others; or, at a
  root with a single tree edge, all nodes move.
\<close>

lemma rerank_side_spec:
  assumes nt: "numbered_tree T s" and e: "e \<in> set (tedges T)" and k: "length (gnodes T) \<le> k"
  shows "\<exists>A d. rerank_side k e delta s = Some (shift A d s) \<and>
    (delta \<le> 0 \<and> A = {} \<or>
     A = desc T s (child_end s e) \<and> d = (if child_end s e = vtail s e then delta else - delta) \<or>
     A = set (gnodes T) \<and> tree_degree s (groot T) = 1 \<and> (vtail s e = groot T \<or> vhead s e = groot T))"
proof (cases "delta > 0")
  case False
  then show ?thesis by (intro exI [of _ "{}"] exI [of _ 0]) (simp add: rerank_side_def)
next
  case True
  note te = tree_edgeD [OF nt e]
  have up: "up_end s e \<noteq> child_end s e" using parent_node [OF nt te(5,7)] te(6) desc_self [OF nt te(5)] by auto
  have lt: "v_lim (vnodes s (child_end s e)) < v_lim (vnodes s (up_end s e))" using parent_node [OF nt te(5,7)] te(6) by auto
  note rr = rerank_node [OF nt _ k]
  have root: "up_end s e = groot T \<and> desc T s (up_end s e) = set (gnodes T)" if "tree_degree s (up_end s e) = 1"
    using single_edge_root [OF nt e refl that] desc_root [OF nt] by simp
  consider "vtail s e = child_end s e" "vhead s e = up_end s e" | "vtail s e = up_end s e" "vhead s e = child_end s e"
    using te(8) unfolding joins_def by blast
  then show ?thesis
  proof cases
    case 1
    show ?thesis
    proof (cases "tree_degree s (vhead s e) = 1 \<and> tree_degree s (vtail s e) \<noteq> 1")
      case True
      then have "rerank_side k e delta s = Some (shift (desc T s (up_end s e)) (- delta) s)"
        using \<open>delta > 0\<close> rr [OF te(4)] by (simp add: rerank_side_def 1)
      with root True 1 show ?thesis by auto
    next
      case False
      then have "rerank_side k e delta s = Some (shift (desc T s (child_end s e)) delta s)"
        using \<open>delta > 0\<close> rr [OF te(5)] lt by (auto simp: rerank_side_def 1)
      with 1 show ?thesis by auto
    qed
  next
    case 2
    have ne: "child_end s e \<noteq> vtail s e" using up 2 by auto
    show ?thesis
    proof (cases "tree_degree s (vtail s e) = 1")
      case True
      then have "rerank_side k e delta s = Some (shift (desc T s (up_end s e)) delta s)"
        using \<open>delta > 0\<close> rr [OF te(3)] by (simp add: rerank_side_def 2)
      with root True 2 show ?thesis by auto
    next
      case False
      then have "rerank_side k e delta s = Some (shift (desc T s (child_end s e)) (- delta) s)"
        using \<open>delta > 0\<close> rr [OF te(5)] lt by (auto simp: rerank_side_def 2)
      with ne show ?thesis by auto
    qed
  qed
qed

lemma side_slack:
  assumes nt: "numbered_tree T s" and g: "fast s g" "vtail s g \<in> set (gnodes T)"
    and d: "d = (if child_end s e = vtail s e then delta else - delta)"
  shows "SLACK (shift (desc T s (child_end s e)) d s) g =
    SLACK s g + (if vtail s g \<in> tail_side T s e then delta else 0) - (if vhead s g \<in> tail_side T s e then delta else 0)"
proof -
  have "vhead s g \<in> set (gnodes T)" using g spanningD(3) [OF numbered_treeD(3) [OF nt]] by (simp add: closed_on_def)
  with g(2) show ?thesis unfolding shift_slack d tail_side_def by simp
qed

lemma length_slack: "LENGTH_e s e = SLACK s e + e_minlen (vedges s e)"
  by (simp add: SLACK_def)

lemma side_length:
  assumes nt: "numbered_tree T s" and e: "e \<in> set (tedges T)" and d: "d = (if child_end s e = vtail s e then delta else - delta)"
  shows "total_length (set (gnodes T)) (shift (desc T s (child_end s e)) d s) =
    total_length (set (gnodes T)) s + delta * cut_weight s (tail_side T s e)"
proof -
  let ?V = "set (gnodes T)" and ?S = "tail_side T s e" and ?s = "shift (desc T s (child_end s e)) d s" and ?w = "\<lambda>g. e_weight (vedges s g)"
  note al = shift_alike [of s "desc T s (child_end s e)" d]
  have ok: "fg_ok s" by (rule numbered_treeD(4) [OF nt])
  have fin: "finite {g. fast s g \<and> P g}" for P using fast_finite [OF ok] by (rule rev_finite_subset) auto
  have cl: "vtail s g \<in> ?V \<longleftrightarrow> vhead s g \<in> ?V" if "fast s g" for g
    using that spanningD(3) [OF numbered_treeD(3) [OF nt]] by (simp add: closed_on_def)
  have SV: "?S \<subseteq> ?V" by (rule side_cut(2) [OF nt e])
  have "total_length ?V ?s = (\<Sum>g | fast s g \<and> vtail s g \<in> ?V. ?w g * LENGTH_e ?s g)"
    by (simp add: total_length_def alike_edges [OF al] alikeD [OF al])
  also have "\<dots> = (\<Sum>g | fast s g \<and> vtail s g \<in> ?V.
      ?w g * LENGTH_e s g + delta * ((if vtail s g \<in> ?S then ?w g else 0) - (if vhead s g \<in> ?S then ?w g else 0)))"
  proof (rule sum.cong [OF refl])
    fix g assume "g \<in> {g. fast s g \<and> vtail s g \<in> ?V}"
    then have "fast s g" "vtail s g \<in> ?V" by simp_all
    from side_slack [OF nt this d] show "?w g * LENGTH_e ?s g =
        ?w g * LENGTH_e s g + delta * ((if vtail s g \<in> ?S then ?w g else 0) - (if vhead s g \<in> ?S then ?w g else 0))"
      unfolding length_slack alikeD(13) [OF al] by (simp only:) (simp add: algebra_simps)
  qed
  also have "\<dots> = total_length ?V s + delta * ((\<Sum>g | fast s g \<and> vtail s g \<in> ?V. if vtail s g \<in> ?S then ?w g else 0) -
      (\<Sum>g | fast s g \<and> vtail s g \<in> ?V. if vhead s g \<in> ?S then ?w g else 0))"
    by (simp add: sum.distrib sum_subtractf sum_distrib_left [symmetric] total_length_def)
  also have "(\<Sum>g | fast s g \<and> vtail s g \<in> ?V. if vtail s g \<in> ?S then ?w g else 0) = (\<Sum>g | fast s g \<and> vtail s g \<in> ?S. ?w g)"
    unfolding sum.inter_filter [OF fin, symmetric] by (rule sum.cong) (use SV in auto)
  also have "(\<Sum>g | fast s g \<and> vtail s g \<in> ?V. if vhead s g \<in> ?S then ?w g else 0) = (\<Sum>g | fast s g \<and> vhead s g \<in> ?S. ?w g)"
    unfolding sum.inter_filter [OF fin, symmetric] by (rule sum.cong) (use SV cl in auto)
  also have "(\<Sum>g | fast s g \<and> vtail s g \<in> ?S. ?w g) - (\<Sum>g | fast s g \<and> vhead s g \<in> ?S. ?w g) = cut_weight s ?S"
  proof -
    have fs: "finite ?S" using SV by (rule finite_subset) simp
    have "(\<Sum>g | fast s g \<and> vtail s g \<in> ?S. ?w g) - (\<Sum>g | fast s g \<and> vhead s g \<in> ?S. ?w g) = net_weight s ?S"
      unfolding net_weight_def sum_subtractf sum_outs [OF ok fs] ..
    then show ?thesis using net_cut [OF ok fs] by simp
  qed
  finally show ?thesis .
qed

lemma whole_shift:
  assumes nt: "numbered_tree T s"
  shows "fast s g \<Longrightarrow> vtail s g \<in> set (gnodes T) \<Longrightarrow> SLACK (shift (set (gnodes T)) d s) g = SLACK s g"
    and "total_length (set (gnodes T)) (shift (set (gnodes T)) d s) = total_length (set (gnodes T)) s"
proof -
  let ?V = "set (gnodes T)"
  note al = shift_alike [of s ?V d]
  have sl: "SLACK (shift ?V d s) g = SLACK s g" if "fast s g" "vtail s g \<in> ?V" for g
    using that spanningD(3) [OF numbered_treeD(3) [OF nt]] by (simp add: shift_slack closed_on_def)
  then show "fast s g \<Longrightarrow> vtail s g \<in> ?V \<Longrightarrow> SLACK (shift ?V d s) g = SLACK s g" by blast
  show "total_length ?V (shift ?V d s) = total_length ?V s"
    unfolding total_length_def alike_edges [OF al] alikeD [OF al]
    by (rule sum.cong [OF refl]) (use sl in \<open>simp add: length_slack alikeD(13) [OF al]\<close>)
qed


section \<open>The cut values on the cycle\<close>

definition add_cut :: "(nat \<Rightarrow> int) \<Rightarrow> fgraph \<Rightarrow> fgraph" where
  "add_cut \<delta> s = s\<lparr>vedges := \<lambda>e. (vedges s e)\<lparr>e_cutvalue := cutv s e + \<delta> e\<rparr>\<rparr>"

lemma add_cut_alike: "alike s (add_cut \<delta> s)"
  by (simp add: alike_def add_cut_def)

lemma add_cut_cutv [simp]: "cutv (add_cut \<delta> s) e = cutv s e + \<delta> e"
  by (simp add: add_cut_def)

lemma add_cut_twice: "add_cut \<epsilon> (add_cut \<delta> s) = add_cut (\<lambda>e. \<delta> e + \<epsilon> e) s"
  by (simp add: add_cut_def add.assoc)

lemma add_cut_none [simp]: "add_cut (\<lambda>_. 0) s = s"
  by (simp add: add_cut_def)

lemma add_cut_one: "upd_e g (\<lambda>x. x\<lparr>e_cutvalue := e_cutvalue x + d\<rparr>) s = add_cut (\<lambda>e. if e = g then d else 0) s"
proof -
  have "(vedges s)(g := (vedges s g)\<lparr>e_cutvalue := cutv s g + d\<rparr>) =
    (\<lambda>e. (vedges s e)\<lparr>e_cutvalue := cutv s e + (if e = g then d else 0)\<rparr>)" by (rule ext) simp
  then show ?thesis by (simp add: add_cut_def upd_e_def)
qed

lemma add_cut_rank [simp]: "v_rank (vnodes (add_cut \<delta> s) n) = v_rank (vnodes s n)"
  by (simp add: add_cut_def)

text \<open>The tree edges on the way up from \<open>v\<close> to the first node above \<open>w\<close>.\<close>

definition upward :: "gtree \<Rightarrow> fgraph \<Rightarrow> nat \<Rightarrow> nat \<Rightarrow> nat set" where
  "upward T s v w = {g \<in> set (tedges T). v \<in> desc T s (child_end s g) \<and> w \<notin> desc T s (child_end s g)}"

definition turn :: "gtree \<Rightarrow> fgraph \<Rightarrow> nat \<Rightarrow> nat \<Rightarrow> bool \<Rightarrow> int \<Rightarrow> nat \<Rightarrow> int" where
  "turn T s v w dir c g = (if g \<in> upward T s v w then (if (child_end s g = vtail s g) = dir then c else - c) else 0)"

lemma upward_none:
  assumes nt: "numbered_tree T s" and v: "v \<in> set (gnodes T)" and w: "w \<in> desc T s v"
  shows "upward T s v w = {}"
proof (rule ccontr)
  assume "upward T s v w \<noteq> {}"
  then obtain g where g: "g \<in> set (tedges T)" "v \<in> desc T s (child_end s g)" "w \<notin> desc T s (child_end s g)" by (auto simp: upward_def)
  from desc_trans [OF nt tree_edgeD(5) [OF nt g(1)] g(2)] w g(3) show False by blast
qed

lemma upward_step:
  assumes nt: "numbered_tree T s" and v: "v \<in> set (gnodes T)" "v \<noteq> groot T" and w: "w \<notin> desc T s v" and g: "v_par (vnodes s v) = Some g"
  shows "upward T s v w = insert g (upward T s (up_end s g) w)" and "g \<notin> upward T s (up_end s g) w"
proof -
  from parent_node [OF nt v] g have p: "g \<in> set (tedges T)" "child_end s g = v" "up_end s g \<in> set (gnodes T)" "up_end s g \<notin> desc T s v"
    "desc T s v \<subseteq> desc T s (up_end s g)" by auto
  show "g \<notin> upward T s (up_end s g) w" using p by (simp add: upward_def)
  have "v \<in> desc T s (child_end s h) \<longleftrightarrow> h = g \<or> up_end s g \<in> desc T s (child_end s h)" if h: "h \<in> set (tedges T)" for h
  proof
    assume vh: "v \<in> desc T s (child_end s h)"
    show "h = g \<or> up_end s g \<in> desc T s (child_end s h)"
    proof (cases "v = child_end s h")
      case True
      then show ?thesis using tree_edgeD(6) [OF nt h] g by simp
    next
      case False
      from desc_parent [OF nt tree_edgeD(5) [OF nt h] vh this] g show ?thesis by auto
    qed
  next
    assume "h = g \<or> up_end s g \<in> desc T s (child_end s h)"
    then show "v \<in> desc T s (child_end s h)"
    proof
      assume "h = g"
      then show ?thesis using p(2) desc_self [OF nt v(1)] by simp
    next
      assume "up_end s g \<in> desc T s (child_end s h)"
      from desc_trans [OF nt tree_edgeD(5) [OF nt h] this] p(5) desc_self [OF nt v(1)] show ?thesis by blast
    qed
  qed
  then show "upward T s v w = insert g (upward T s (up_end s g) w)" using p(1,2) w by (auto simp: upward_def)
qed

lemma alike_upward: "alike s s' \<Longrightarrow> upward T s' v w = upward T s v w"
  by (simp add: upward_def alike_tree alike_edges)

lemma alike_turn: "alike s s' \<Longrightarrow> turn T s' v w dir c g = turn T s v w dir c g"
  by (simp add: turn_def alike_upward alike_edges alikeD)

definition fuel_for :: "gtree \<Rightarrow> fgraph \<Rightarrow> nat \<Rightarrow> nat \<Rightarrow> bool" where
  "fuel_for T s v k \<longleftrightarrow> int (length (gnodes T)) - v_lim (vnodes s v) < int k"

lemma lim_range:
  assumes nt: "numbered_tree T s" and v: "v \<in> set (gnodes T)"
  shows "1 \<le> v_lim (vnodes s v)" and "v_lim (vnodes s v) \<le> int (length (gnodes T))"
proof -
  have "numbered s 1 T" using numbered_treeD(1) [OF nt] by (simp add: cut_env_def)
  from numbered_lims(1) [OF this]
  have "(\<lambda>u. v_lim (vnodes s u)) ` set (gnodes T) = (\<lambda>i. 1 + int i) ` {0..<length (gnodes T)}" by (metis image_set set_upt)
  then have "v_lim (vnodes s v) \<in> (\<lambda>i. 1 + int i) ` {0..<length (gnodes T)}" using v by blast
  then show "1 \<le> v_lim (vnodes s v)" "v_lim (vnodes s v) \<le> int (length (gnodes T))" by auto
qed

lemma fuel_enough: "numbered_tree T s \<Longrightarrow> v \<in> set (gnodes T) \<Longrightarrow> length (gnodes T) \<le> k \<Longrightarrow> fuel_for T s v k"
  using lim_range(1) [of T s v] by (simp add: fuel_for_def)

text \<open>The lowest node above both ends.\<close>

definition lowest :: "gtree \<Rightarrow> fgraph \<Rightarrow> nat \<Rightarrow> nat \<Rightarrow> nat \<Rightarrow> bool" where
  "lowest T s v w a \<longleftrightarrow> a \<in> set (gnodes T) \<and> v \<in> desc T s a \<and> w \<in> desc T s a \<and>
     (\<forall>u\<in>set (gnodes T). v \<in> desc T s u \<longrightarrow> w \<in> desc T s u \<longrightarrow> a \<in> desc T s u)"

lemma lowest_unique: "numbered_tree T s \<Longrightarrow> lowest T s v w a \<Longrightarrow> lowest T s w v b \<Longrightarrow> a = b"
  unfolding lowest_def using desc_antisym by blast

lemma treeupdate_spec:
  "numbered_tree T s \<Longrightarrow> v \<in> set (gnodes T) \<Longrightarrow> w \<in> set (gnodes T) \<Longrightarrow> fuel_for T s v k \<Longrightarrow>
    \<exists>a. treeupdate k v w c dir s = Some (a, add_cut (turn T s v w dir c) s) \<and> lowest T s v w a"
proof (induction k arbitrary: v s)
  case 0
  then show ?case using lim_range(2) [of T s v] by (simp add: fuel_for_def)
next
  case (Suc k)
  note nt = Suc.prems(1) and vw = Suc.prems(2,3)
  have b: "SEQ (v_low (vnodes s v)) (v_lim (vnodes s w)) (v_lim (vnodes s v)) \<longleftrightarrow> w \<in> desc T s v"
    using vw(2) by (simp add: desc_def below_def)
  show ?case
  proof (cases "w \<in> desc T s v")
    case True
    then have "turn T s v w dir c = (\<lambda>_. 0)" using upward_none [OF nt vw(1)] by (simp add: turn_def fun_eq_iff)
    moreover have "lowest T s v w v" using True vw(1) desc_self [OF nt vw(1)] by (simp add: lowest_def)
    ultimately show ?thesis using True b by simp
  next
    case False
    have nr: "v \<noteq> groot T" using False desc_root [OF nt] vw(2) by auto
    from parent_node [OF nt vw(1) nr] obtain g where g: "v_par (vnodes s v) = Some g" "g \<in> set (tedges T)" "child_end s g = v"
      "up_end s g \<in> set (gnodes T)" "v_lim (vnodes s v) < v_lim (vnodes s (up_end s g))" "desc T s v \<subseteq> desc T s (up_end s g)" by blast
    let ?d = "if (if v = vtail s g then dir else \<not> dir) then c else - c"
    define s1 where "s1 = add_cut (\<lambda>e. if e = g then ?d else 0) s"
    have al: "alike s s1" unfolding s1_def by (rule add_cut_alike)
    note up = upward_step [OF nt vw(1) nr False g(1)]
    have "\<exists>a. treeupdate k (up_end s1 g) w c dir s1 = Some (a, add_cut (turn T s1 (up_end s1 g) w dir c) s1) \<and> lowest T s1 (up_end s1 g) w a"
    proof (rule Suc.IH)
      show "numbered_tree T s1" using nt alike_tree(5) [OF al] by simp
      show "up_end s1 g \<in> set (gnodes T)" using g(4) alike_edges(4) [OF al] by simp
      show "w \<in> set (gnodes T)" by (rule vw(2))
      show "fuel_for T s1 (up_end s1 g) k"
        using Suc.prems(4) g(5) unfolding fuel_for_def alikeD(9) [OF al] alike_edges(4) [OF al] by simp
    qed
    then obtain a where a: "treeupdate k (up_end s1 g) w c dir s1 = Some (a, add_cut (turn T s (up_end s g) w dir c) s1)" "lowest T s (up_end s g) w a"
      unfolding lowest_def alike_tree(6) [OF al] alike_edges(4) [OF al] ext [OF alike_turn [OF al]] by blast
    have "add_cut (turn T s (up_end s g) w dir c) s1 = add_cut (turn T s v w dir c) s"
    proof -
      have "(\<lambda>e. (if e = g then ?d else 0) + turn T s (up_end s g) w dir c e) = turn T s v w dir c"
      proof
        fix e
        show "(if e = g then ?d else 0) + turn T s (up_end s g) w dir c e = turn T s v w dir c e"
          using up g(3) by (auto simp: turn_def)
      qed
      then show ?thesis unfolding s1_def add_cut_twice by simp
    qed
    moreover have "lowest T s v w a"
      unfolding lowest_def
    proof (intro conjI ballI impI)
      show "a \<in> set (gnodes T)" "w \<in> desc T s a" using a(2) by (simp_all add: lowest_def)
      have "up_end s g \<in> desc T s a" using a(2) by (simp add: lowest_def)
      from desc_trans [OF nt \<open>a \<in> set (gnodes T)\<close> this] g(6) desc_self [OF nt vw(1)] show "v \<in> desc T s a" by blast
      fix u assume u: "u \<in> set (gnodes T)" "v \<in> desc T s u" "w \<in> desc T s u"
      have "v \<noteq> u" using u(3) False by blast
      from desc_parent [OF nt u(1,2) this] g(1) have "up_end s g \<in> desc T s u" by auto
      then show "a \<in> desc T s u" using a(2) u by (simp add: lowest_def)
    qed
    moreover have "treeupdate (Suc k) v w c dir s = treeupdate k (up_end s1 g) w c dir s1"
      using b False g(1) unfolding s1_def add_cut_one [symmetric] by (simp add: Let_def)
    ultimately show ?thesis using a(1) by simp
  qed
qed

section \<open>Invalidation\<close>

definition unlow :: "nat set \<Rightarrow> fgraph \<Rightarrow> fgraph" where
  "unlow B s = s\<lparr>vnodes := \<lambda>n. if n \<in> B then (vnodes s n)\<lparr>v_low := -1\<rparr> else vnodes s n\<rparr>"

lemma unlow_none [simp]: "unlow {} s = s"
  by (simp add: unlow_def)

lemma unlow_sel [simp]:
  "v_par (vnodes (unlow B s) n) = v_par (vnodes s n)" "v_lim (vnodes (unlow B s) n) = v_lim (vnodes s n)"
  "v_low (vnodes (unlow B s) n) = (if n \<in> B then -1 else v_low (vnodes s n))" "vedges (unlow B s) = vedges s"
  "touts (unlow B s) n = touts s n" "tins (unlow B s) n = tins s n" "outs (unlow B s) n = outs s n" "ins (unlow B s) n = ins s n"
  "v_rank (vnodes (unlow B s) n) = v_rank (vnodes s n)" "efresh (unlow B s) = efresh s" "nlist (unlow B s) = nlist s"
  by (simp_all add: unlow_def)

lemma unlow_one: "upd_v v (\<lambda>x. x\<lparr>v_low := -1\<rparr>) (unlow B s) = unlow (insert v B) s"
proof -
  have "(vnodes (unlow B s))(v := (vnodes (unlow B s) v)\<lparr>v_low := -1\<rparr>) = vnodes (unlow (insert v B) s)"
    by (rule ext) (simp add: unlow_def)
  then show ?thesis by (simp add: unlow_def upd_v_def)
qed

text \<open>The nodes from \<open>v\<close> up to \<open>a\<close>.\<close>

definition chain :: "gtree \<Rightarrow> fgraph \<Rightarrow> nat \<Rightarrow> nat \<Rightarrow> nat set" where
  "chain T s a v = {u \<in> desc T s a. v \<in> desc T s u}"

lemma chain_step:
  assumes nt: "numbered_tree T s" and a: "a \<in> set (gnodes T)" and v: "v \<in> desc T s a" "v \<noteq> a" and g: "v_par (vnodes s v) = Some g"
  shows "chain T s a v = insert v (chain T s a (up_end s g))" and "up_end s g \<in> desc T s a" and "v \<notin> chain T s a (up_end s g)"
proof -
  have vT: "v \<in> set (gnodes T)" using v(1) by (simp add: desc_def)
  from desc_parent [OF nt a v] g have nr: "v \<noteq> groot T" and up: "up_end s g \<in> desc T s a" by auto
  from parent_node [OF nt vT nr] g have p: "up_end s g \<notin> desc T s v" "desc T s v \<subseteq> desc T s (up_end s g)" by auto
  show "up_end s g \<in> desc T s a" by (rule up)
  show "v \<notin> chain T s a (up_end s g)" using p(1) by (simp add: chain_def)
  have "v \<in> desc T s u \<longleftrightarrow> u = v \<or> up_end s g \<in> desc T s u" if u: "u \<in> set (gnodes T)" for u
  proof
    assume vu: "v \<in> desc T s u"
    show "u = v \<or> up_end s g \<in> desc T s u"
    proof (cases "v = u")
      case False
      from desc_parent [OF nt u vu False] g show ?thesis by auto
    qed simp
  next
    assume "u = v \<or> up_end s g \<in> desc T s u"
    then show "v \<in> desc T s u"
    proof
      assume "u = v"
      then show ?thesis using desc_self [OF nt vT] by simp
    next
      assume "up_end s g \<in> desc T s u"
      from desc_trans [OF nt u this] p(2) desc_self [OF nt vT] show ?thesis by blast
    qed
  qed
  moreover have "u \<in> set (gnodes T)" if "u \<in> desc T s a" for u using that by (simp add: desc_def)
  ultimately show "chain T s a v = insert v (chain T s a (up_end s g))" using v(1) unfolding chain_def by blast
qed

lemma low_pos:
  assumes nt: "numbered_tree T s" and v: "v \<in> set (gnodes T)"
  shows "1 \<le> v_low (vnodes s v)"
proof -
  from node_subtree [OF numbered_treeD(1,2) [OF nt] v] obtain par t where t: "subtree_at T s par t" "groot t = v" by blast
  obtain l where l: "numbered s l t" using t(1) by (auto simp: subtree_at_def)
  have lr: "v_low (vnodes s v) = l" using numbered_root [OF l] t(2) by simp
  have im: "(\<lambda>u. v_lim (vnodes s u)) ` set (gnodes t) = (\<lambda>i. l + int i) ` {0..<length (gnodes t)}"
    using arg_cong [where f = set, OF numbered_lims(1) [OF l]] by simp
  have "l = l + int 0 \<and> (0 :: nat) \<in> {0..<length (gnodes t)}" by (cases t) simp
  then have "l \<in> (\<lambda>u. v_lim (vnodes s u)) ` set (gnodes t)" unfolding im by (rule conjE) (rule image_eqI)
  then obtain u where u: "u \<in> set (gnodes t)" "v_lim (vnodes s u) = l" by blast
  have "set (gnodes t) \<subseteq> set (gnodes T)" using t(1) by (simp add: subtree_at_def)
  with u(1) have "u \<in> set (gnodes T)" by blast
  from lim_range(1) [OF nt this] lr u(2) show ?thesis by simp
qed

lemma invalidate_spec:
  "numbered_tree T s \<Longrightarrow> a \<in> set (gnodes T) \<Longrightarrow> v \<in> desc T s a \<Longrightarrow> (chain T s a v - {a}) \<inter> B = {} \<Longrightarrow> fuel_for T s v k \<Longrightarrow>
    invalidate_path k a v (unlow B s) = Some (unlow (B \<union> chain T s a v) s)"
proof (induction k arbitrary: v B)
  case 0
  have "v \<in> set (gnodes T)" using "0.prems"(3) by (simp add: desc_def)
  then show ?case using "0.prems"(1,5) lim_range(2) [of T s v] by (simp add: fuel_for_def)
next
  case (Suc k)
  note nt = Suc.prems(1) and a = Suc.prems(2) and v = Suc.prems(3)
  have vT: "v \<in> set (gnodes T)" using v by (simp add: desc_def)
  have vs: "v \<in> desc T s v" by (rule desc_self [OF nt vT])
  have low: "v_low (vnodes (unlow B s) v) = -1 \<longleftrightarrow> v \<in> B" using low_pos [OF nt vT] by simp
  show ?case
  proof (cases "v = a")
    case True
    have ch: "chain T s a v = {a}"
      using True vs desc_antisym [OF nt] unfolding chain_def by blast
    show ?thesis
    proof (cases "v \<in> B")
      case True
      with low ch \<open>v = a\<close> show ?thesis by (auto simp: insert_absorb)
    next
      case False
      then have "invalidate_path (Suc k) a v (unlow B s) = Some (unlow (insert v B) s)"
        using low \<open>v = a\<close> by (simp add: Let_def unlow_one split: option.split)
      with ch \<open>v = a\<close> show ?thesis by simp
    qed
  next
    case False
    from desc_parent [OF nt a v False] obtain g where g: "v \<noteq> groot T" "v_par (vnodes s v) = Some g" by blast
    note st = chain_step [OF nt a v False g(2)]
    have "v \<in> chain T s a v" unfolding st(1) by simp
    then have nb: "v \<notin> B" using Suc.prems(4) False by blast
    from parent_node [OF nt vT g(1)] g(2) have lt: "v_lim (vnodes s v) < v_lim (vnodes s (up_end s g))" by auto
    have la: "v_lim (vnodes s v) < v_lim (vnodes s a)"
      using desc_lim [OF v] lim_inj [OF nt vT a] False by force
    have up: "up_end (unlow (insert v B) s) g = up_end s g" by (simp add: up_end_def)
    have "invalidate_path (Suc k) a v (unlow B s) = invalidate_path k a (up_end s g) (unlow (insert v B) s)"
      using low nb g(2) la up by (simp add: Let_def unlow_one)
    also have "\<dots> = Some (unlow (insert v B \<union> chain T s a (up_end s g)) s)"
    proof (rule Suc.IH [OF nt a st(2)])
      show "(chain T s a (up_end s g) - {a}) \<inter> insert v B = {}" using Suc.prems(4) st(1,3) by blast
      show "fuel_for T s (up_end s g) k" using Suc.prems(5) lt by (simp add: fuel_for_def)
    qed
    finally show ?thesis unfolding st(1) by simp
  qed
qed

end
