(* ===== verification/Ns_Exchange.thy ===== *)
theory Ns_Exchange
  imports Ns_Path
begin

text \<open>
  The exchange of the two edges in the tree: the subtree below the common ancestor is rooted anew over the
  entering edge and numbered again; the rest of the tree keeps its numbers.
\<close>

section \<open>Trees of a state\<close>

lemma drop_edge_set:
  assumes "distinct L" and "e \<in> set L"
  shows "distinct (drop_edge e L)" and "set (drop_edge e L) = set L - {e}"
proof -
  obtain xs ys where L: "L = xs @ e # ys" "e \<notin> set xs" using split_list_first [OF assms(2)] by blast
  have t: "takeWhile (\<lambda>x. x \<noteq> e) L = xs" unfolding L(1) using L(2) by (subst takeWhile_append2) auto
  have "distinct (drop_edge e L) \<and> set (drop_edge e L) = set L - {e}"
  proof (cases ys rule: rev_cases)
    case Nil
    then have "drop_edge e L = xs" unfolding drop_edge_def t by (simp add: L(1))
    then show ?thesis using assms(1) L Nil by auto
  next
    case (snoc zs z)
    then have "drop_edge e L = xs @ z # zs" unfolding drop_edge_def t by (simp add: L(1) butlast_append)
    then show ?thesis using assms(1) L snoc by auto
  qed
  then show "distinct (drop_edge e L)" "set (drop_edge e L) = set L - {e}" by blast+
qed

lemma is_tree_unique: "is_tree s par t \<Longrightarrow> is_tree s par t' \<Longrightarrow> groot t = groot t' \<Longrightarrow> t = t'"
proof (induction t arbitrary: par t' rule: gtree_induct)
  case (1 v cs)
  obtain cs' where t': "t' = GT v cs'" using "1.prems"(3) by (cases t') auto
  have m: "map (\<lambda>p. (fst p, groot (snd p))) cs = map (\<lambda>p. (fst p, groot (snd p))) cs'"
    using "1.prems"(1,2) by (simp add: t')
  then have len: "length cs = length cs'" by (rule map_eq_imp_length_eq)
  have "cs = cs'"
  proof (rule nth_equalityI [OF len])
    fix i assume i: "i < length cs"
    then have eq: "fst (cs ! i) = fst (cs' ! i)" "groot (snd (cs ! i)) = groot (snd (cs' ! i))"
      using arg_cong [OF m, of "\<lambda>l. l ! i"] len by simp_all
    have "cs ! i \<in> set cs" "cs' ! i \<in> set cs'" using i len by simp_all
    moreover from this "1.prems"(1,2) have "is_tree s (Some (fst (cs ! i))) (snd (cs ! i))" "is_tree s (Some (fst (cs' ! i))) (snd (cs' ! i))"
      unfolding t' by simp_all
    ultimately have "is_tree s (Some (fst (cs ! i))) (snd (cs ! i))" "is_tree s (Some (fst (cs ! i))) (snd (cs' ! i))" "cs ! i \<in> set cs"
      by (simp_all add: eq(1))
    from "1.IH" [OF this(3,1,2) eq(2)] show "cs ! i = cs' ! i" using eq(1) by (simp add: prod_eq_iff)
  qed
  then show ?case by (simp add: t')
qed

lemma is_tree_cong:
  "(\<forall>n\<in>set (gnodes t). touts s' n = touts s n \<and> tins s' n = tins s n) \<Longrightarrow> (\<And>e. vtail s' e = vtail s e) \<Longrightarrow> (\<And>e. vhead s' e = vhead s e) \<Longrightarrow>
    is_tree s' par t = is_tree s par t"
proof (induction t arbitrary: par rule: gtree_induct)
  case (1 v cs)
  have "is_tree s' (Some (fst p)) (snd p) = is_tree s (Some (fst p)) (snd p)" if p: "p \<in> set cs" for p
    by (rule "1.IH" [OF p]) (use "1.prems" p in auto)
  then show ?case using "1.prems" by simp
qed

lemma sane_all:
  "is_tree s par t \<Longrightarrow>
    (\<And>g u. is_tree s (Some g) u \<Longrightarrow> groot u \<in> set (gnodes t) \<Longrightarrow> v_par (vnodes s (groot u)) = Some g \<Longrightarrow> 1 \<le> v_low (vnodes s (groot u)) \<Longrightarrow>
      numbered s (v_low (vnodes s (groot u))) u) \<Longrightarrow> sane s t"
proof (induction t arbitrary: par rule: gtree_induct)
  case (1 v cs)
  have "(v_par (vnodes s (groot (snd p))) = Some (fst p) \<and> 1 \<le> v_low (vnodes s (groot (snd p))) \<longrightarrow>
        numbered s (v_low (vnodes s (groot (snd p)))) (snd p)) \<and> sane s (snd p)" if p: "p \<in> set cs" for p
  proof
    have t: "is_tree s (Some (fst p)) (snd p)" using "1.prems"(1) p by simp
    have sub: "set (gnodes (snd p)) \<subseteq> set (gnodes (GT v cs))" using p by auto
    show "v_par (vnodes s (groot (snd p))) = Some (fst p) \<and> 1 \<le> v_low (vnodes s (groot (snd p))) \<longrightarrow>
        numbered s (v_low (vnodes s (groot (snd p)))) (snd p)"
      using "1.prems"(2) [OF t subsetD [OF sub groot_in]] by blast
    show "sane s (snd p)"
      by (rule "1.IH" [OF p t]) (use "1.prems"(2) sub in blast)
  qed
  then show ?case by simp
qed

section \<open>Replacing a subtree\<close>

fun graft :: "nat \<Rightarrow> gtree \<Rightarrow> gtree \<Rightarrow> gtree" where
  "graft a L (GT v cs) = (if v = a then L else GT v (map (\<lambda>p. (fst p, graft a L (snd p))) cs))"

lemma graft_none: "a \<notin> set (gnodes t) \<Longrightarrow> graft a L t = t"
proof (induction t rule: gtree_induct)
  case (1 v cs)
  have "map (\<lambda>p. (fst p, graft a L (snd p))) cs = cs"
    by (rule map_idI) (use 1 in \<open>auto intro!: prod_eqI\<close>)
  with 1 show ?case by auto
qed

lemma groot_graft: "groot L = a \<Longrightarrow> groot (graft a L t) = groot t"
  by (cases t) simp

text \<open>The part outside a subtree.\<close>

inductive part_of :: "nat option \<Rightarrow> gtree \<Rightarrow> nat option \<Rightarrow> gtree \<Rightarrow> bool" where
  here: "part_of par t par t"
| below_kid: "(g, c) \<in> set cs \<Longrightarrow> part_of par' t' (Some g) c \<Longrightarrow> part_of par' t' par (GT v cs)"

lemma part_of_sub: "part_of par' t' par t \<Longrightarrow> set (gnodes t') \<subseteq> set (gnodes t)"
  by (induction rule: part_of.induct) force+

lemma part_of_tree: "part_of par' t' par t \<Longrightarrow> is_tree s par t \<Longrightarrow> is_tree s par' t'"
  by (induction rule: part_of.induct) auto

lemma node_part_of: "v \<in> set (gnodes t) \<Longrightarrow> \<exists>par' t'. part_of par' t' par t \<and> groot t' = v"
proof (induction t arbitrary: par rule: gtree_induct)
  case (1 w cs)
  show ?case
  proof (cases "v = w")
    case True
    then show ?thesis using part_of.here [of par "GT w cs"] by (metis gtree.sel(1))
  next
    case False
    then obtain p where p: "p \<in> set cs" "v \<in> set (gnodes (snd p))" using "1.prems" by auto
    from "1.IH" [OF p] obtain par' t' where "part_of par' t' (Some (fst p)) (snd p)" "groot t' = v" by blast
    moreover have "(fst p, snd p) \<in> set cs" using p(1) by simp
    ultimately show ?thesis using part_of.below_kid by blast
  qed
qed

lemma graft_kid:
  assumes d: "distinct (gnodes (GT v cs))" and p: "p \<in> set cs" and a: "a \<in> set (gnodes (snd p))"
  shows "\<exists>xs ys. cs = xs @ p # ys \<and> a \<notin> set (knodes xs) \<and> a \<notin> set (knodes ys) \<and>
    graft a L (GT v cs) = GT v (xs @ (fst p, graft a L (snd p)) # ys)"
proof -
  have dk: "distinct (knodes cs)" "v \<notin> set (knodes cs)" using d by simp_all
  have ak: "a \<in> set (knodes cs)" using p a by auto
  from kids_once [OF dk(1) ak] obtain xs q ys where
    q: "cs = xs @ q # ys" "a \<in> set (gnodes (snd q))" "a \<notin> set (knodes xs)" "a \<notin> set (knodes ys)" by blast
  have "p = q" using kids_apart [OF dk(1) p _ a q(2)] q(1) by simp
  have same: "map (\<lambda>p. (fst p, graft a L (snd p))) zs = zs" if "a \<notin> set (knodes zs)" for zs
    by (rule map_idI) (use that in \<open>auto intro!: prod_eqI graft_none\<close>)
  have "v \<noteq> a" using ak dk(2) by auto
  then have "graft a L (GT v cs) = GT v (xs @ (fst p, graft a L (snd p)) # ys)"
    using same [OF q(3)] same [OF q(4)] \<open>p = q\<close> by (simp add: q(1))
  with q \<open>p = q\<close> show ?thesis by blast
qed

lemma graft_mset:
  "distinct (gnodes t) \<Longrightarrow> part_of par' t' par t \<Longrightarrow> groot t' = a \<Longrightarrow> mset (gnodes L) = mset (gnodes t') \<Longrightarrow>
    mset (gnodes (graft a L t)) = mset (gnodes t)"
proof (induction t arbitrary: par rule: gtree_induct)
  case (1 v cs)
  show ?case
  proof (cases "v = a")
    case True
    from "1.prems"(2) show ?thesis
    proof cases
      case here
      have "graft a L (GT v cs) = L" using True by simp
      with "1.prems"(4) here show ?thesis by metis
    next
      case (below_kid g c)
      have "a \<in> set (gnodes c)" using part_of_sub [OF below_kid(2)] "1.prems"(3) groot_in [of t'] by blast
      then have "a \<in> set (knodes cs)" using below_kid(1) by force
      then show ?thesis using "1.prems"(1) True by simp
    qed
  next
    case False
    from "1.prems"(2) show ?thesis
    proof cases
      case here
      with False "1.prems"(3) show ?thesis by auto
    next
      case (below_kid g c)
      have a: "a \<in> set (gnodes (snd (g, c)))" using part_of_sub [OF below_kid(2)] "1.prems"(3) groot_in [of t'] by auto
      from graft_kid [OF "1.prems"(1) below_kid(1) a, of L] obtain xs ys where
        q: "cs = xs @ (g, c) # ys" "graft a L (GT v cs) = GT v (xs @ (g, graft a L c) # ys)" by auto
      have "distinct (gnodes c)" using "1.prems"(1) q(1) by simp
      from "1.IH" [OF below_kid(1)] this below_kid(2) "1.prems"(3,4) have "mset (gnodes (graft a L c)) = mset (gnodes c)" by auto
      then show ?thesis unfolding q(2) by (simp add: q(1))
    qed
  qed
qed


lemma graft_is_tree:
  "distinct (gnodes t) \<Longrightarrow> part_of par' t' par t \<Longrightarrow> is_tree s par t \<Longrightarrow> groot t' = a \<Longrightarrow> groot L = a \<Longrightarrow> is_tree s' par' L \<Longrightarrow>
    (\<And>e. vtail s' e = vtail s e) \<Longrightarrow> (\<And>e. vhead s' e = vhead s e) \<Longrightarrow>
    (\<forall>n\<in>set (gnodes t) - set (gnodes t'). touts s' n = touts s n \<and> tins s' n = tins s n) \<Longrightarrow> is_tree s' par (graft a L t)"
proof (induction t arbitrary: par rule: gtree_induct)
  case (1 v cs)
  from "1.prems"(2) show ?case
  proof cases
    case here
    then have "v = a" using "1.prems"(4) by auto
    then have "graft a L (GT v cs) = L" by simp
    with here "1.prems"(6) show ?thesis by simp
  next
    case (below_kid g c)
    have a: "a \<in> set (gnodes (snd (g, c)))" using part_of_sub [OF below_kid(2)] "1.prems"(4) groot_in [of t'] by auto
    from graft_kid [OF "1.prems"(1) below_kid(1) a, of L] obtain xs ys where
      q: "cs = xs @ (g, c) # ys" "graft a L (GT v cs) = GT v (xs @ (g, graft a L c) # ys)" by auto
    have d: "distinct (knodes xs)" "distinct (gnodes c)" "distinct (knodes ys)" "v \<notin> set (gnodes c)"
      "set (gnodes c) \<inter> set (knodes xs) = {}" "set (gnodes c) \<inter> set (knodes ys) = {}" using "1.prems"(1) by (auto simp: q(1))
    have sub: "set (gnodes t') \<subseteq> set (gnodes c)" by (rule part_of_sub [OF below_kid(2)])
    have all: "touts s' n = touts s n \<and> tins s' n = tins s n" if "n \<in> set (gnodes (GT v cs))" "n \<notin> set (gnodes t')" for n
      using "1.prems"(9) that by blast
    have "is_tree s' (Some g) (graft a L c)"
      by (rule "1.IH" [OF below_kid(1), simplified, OF d(2) below_kid(2) _ "1.prems"(4-8)]) (use "1.prems"(3) q(1) all in auto)
    moreover have "is_tree s' (Some (fst p)) (snd p)" if p: "p \<in> set xs \<union> set ys" for p
    proof -
      have "\<forall>n\<in>set (gnodes (snd p)). touts s' n = touts s n \<and> tins s' n = tins s n"
      proof
        fix n assume n: "n \<in> set (gnodes (snd p))"
        then have "n \<in> set (knodes xs) \<union> set (knodes ys)" using p by auto
        then have "n \<notin> set (gnodes c)" using d(5,6) by blast
        then have "n \<notin> set (gnodes t')" using sub by blast
        moreover have "n \<in> set (gnodes (GT v cs))" using n p by (auto simp: q(1))
        ultimately show "touts s' n = touts s n \<and> tins s' n = tins s n" using all by blast
      qed
      from is_tree_cong [OF this "1.prems"(7,8)] show ?thesis using "1.prems"(3) p by (auto simp: q(1))
    qed
    moreover have "touts s' v = touts s v \<and> tins s' v = tins s v" by (rule all) (use sub d(4) in auto)
    ultimately show ?thesis using "1.prems"(3) unfolding q(2) by (auto simp: q(1) "1.prems"(7,8) groot_graft [OF "1.prems"(5)])
  qed
qed

lemma numbered_kids_append:
  "numbered_kids s l (xs @ ys) \<longleftrightarrow> numbered_kids s l xs \<and> numbered_kids s (l + int (length (knodes xs))) ys"
  by (induction xs arbitrary: l) (auto simp: add.assoc)

lemma graft_numbered:
  "distinct (gnodes t) \<Longrightarrow> part_of par' t' par t \<Longrightarrow> numbered s l t \<Longrightarrow> groot t' = a \<Longrightarrow> groot L = a \<Longrightarrow> mset (gnodes L) = mset (gnodes t') \<Longrightarrow>
    numbered s' (v_low (vnodes s a)) L \<Longrightarrow> v_par (vnodes s' a) = v_par (vnodes s a) \<Longrightarrow>
    (\<forall>n\<in>set (gnodes t) - set (gnodes t'). v_low (vnodes s' n) = v_low (vnodes s n) \<and> v_lim (vnodes s' n) = v_lim (vnodes s n) \<and>
      v_par (vnodes s' n) = v_par (vnodes s n)) \<Longrightarrow> numbered s' l (graft a L t)"
proof (induction t arbitrary: par l rule: gtree_induct)
  case (1 v cs)
  from "1.prems"(2) show ?case
  proof cases
    case here
    then have v: "v = a" using "1.prems"(4) by auto
    then have "graft a L (GT v cs) = L" by simp
    moreover have "v_low (vnodes s a) = l" using numbered_root [OF "1.prems"(3)] v by simp
    ultimately show ?thesis using "1.prems"(7) by simp
  next
    case (below_kid g c)
    have a: "a \<in> set (gnodes (snd (g, c)))" using part_of_sub [OF below_kid(2)] "1.prems"(4) groot_in [of t'] by auto
    from graft_kid [OF "1.prems"(1) below_kid(1) a, of L] obtain xs ys where
      q: "cs = xs @ (g, c) # ys" "graft a L (GT v cs) = GT v (xs @ (g, graft a L c) # ys)" by auto
    have d: "distinct (knodes xs)" "distinct (gnodes c)" "distinct (knodes ys)" "v \<notin> set (gnodes c)"
      "set (gnodes c) \<inter> set (knodes xs) = {}" "set (gnodes c) \<inter> set (knodes ys) = {}" using "1.prems"(1) by (auto simp: q(1))
    have sub: "set (gnodes t') \<subseteq> set (gnodes c)" by (rule part_of_sub [OF below_kid(2)])
    have all: "v_low (vnodes s' n) = v_low (vnodes s n) \<and> v_lim (vnodes s' n) = v_lim (vnodes s n) \<and> v_par (vnodes s' n) = v_par (vnodes s n)"
      if "n \<in> set (gnodes (GT v cs))" "n \<notin> set (gnodes t')" for n using "1.prems"(9) that by blast
    have m: "mset (gnodes (graft a L c)) = mset (gnodes c)" by (rule graft_mset [OF d(2) below_kid(2) "1.prems"(4,6)])
    then have len: "length (gnodes (graft a L c)) = length (gnodes c)" by (rule mset_eq_length)
    have n: "numbered_kids s l xs" "numbered s (l + int (length (knodes xs))) c" "v_par (vnodes s (groot c)) = Some g"
      "numbered_kids s (l + int (length (knodes xs)) + int (length (gnodes c))) ys"
      using "1.prems"(3) by (simp_all add: q(1) numbered_kids_append)
    have "numbered s' (l + int (length (knodes xs))) (graft a L c)"
      by (rule "1.IH" [OF below_kid(1), simplified, OF d(2) below_kid(2) n(2) "1.prems"(4-8)]) (use q(1) all in auto)
    moreover have off: "\<forall>n\<in>set (knodes zs). v_low (vnodes s' n) = v_low (vnodes s n) \<and> v_lim (vnodes s' n) = v_lim (vnodes s n) \<and>
        v_par (vnodes s' n) = v_par (vnodes s n)" if zs: "zs = xs \<or> zs = ys" for zs
    proof
      fix n assume n: "n \<in> set (knodes zs)"
      then have "n \<notin> set (gnodes c)" using zs d(5,6) by auto
      then have "n \<notin> set (gnodes t')" using sub by blast
      moreover have "n \<in> set (gnodes (GT v cs))" using n zs by (auto simp: q(1))
      ultimately show "v_low (vnodes s' n) = v_low (vnodes s n) \<and> v_lim (vnodes s' n) = v_lim (vnodes s n) \<and>
        v_par (vnodes s' n) = v_par (vnodes s n)" using all by blast
    qed
    moreover have "numbered_kids s' l xs" using numbered_same(2) [OF off d(1)] n(1) by blast
    moreover have "numbered_kids s' (l + int (length (knodes xs)) + int (length (gnodes c))) ys" using numbered_same(2) [OF off d(3)] n(4) by blast
    moreover have "v_par (vnodes s' (groot c)) = Some g"
    proof (cases "groot c = a")
      case True
      then show ?thesis using "1.prems"(8) n(3) by simp
    next
      case False
      have "groot c \<notin> set (gnodes t')"
        using below_kid(2) False "1.prems"(4) d(2)
      proof cases
        case (below_kid h b cs' w)
        then show ?thesis using d(2) part_of_sub [OF below_kid(3)] by (auto dest!: subsetD)
      qed auto
      moreover have "groot c \<in> set (gnodes (GT v cs))" using groot_in [of c] by (auto simp: q(1) simp del: groot_in)
      ultimately show ?thesis using all n(3) by simp
    qed
    moreover have "v_low (vnodes s' v) = v_low (vnodes s v) \<and> v_lim (vnodes s' v) = v_lim (vnodes s v)" using all [of v] sub d(4) by auto
    ultimately show ?thesis using "1.prems"(3) unfolding q(2) by (simp add: q(1) numbered_kids_append groot_graft [OF "1.prems"(5)] len)
  qed
qed


section \<open>The tree of edges\<close>

lemma subtree_rooted: "spanning s T \<Longrightarrow> subtree_at T s par t \<Longrightarrow> rooted s t"
proof (induction t arbitrary: par rule: gtree_induct)
  case (1 v cs)
  have "joins s (fst p) v (groot (snd p)) \<and> rooted s (snd p)" if p: "p \<in> set cs" for p
    using kid_edges [OF "1.prems" p] "1.IH" [OF p "1.prems"(1)] by (auto simp: joins_def)
  then show ?case by simp
qed

lemma kids_stree:
  "(\<forall>p\<in>set ps. joins s (fst p) v (groot (snd p)) \<and> stree s (set (gnodes (snd p))) (set (tedges (snd p)))) \<Longrightarrow> distinct (knodes ps) \<Longrightarrow>
    v \<notin> set (knodes ps) \<Longrightarrow> stree s (insert v (set (knodes ps))) (set (tedges (GT v ps)))"
proof (induction ps)
  case Nil
  then show ?case using stree.one [of s v] by simp
next
  case (Cons p ps)
  let ?V1 = "insert v (set (knodes ps))" and ?V2 = "set (gnodes (snd p))"
  have t1: "stree s ?V1 (set (tedges (GT v ps)))" using Cons by simp
  have t2: "stree s ?V2 (set (tedges (snd p)))" and j: "joins s (fst p) v (groot (snd p))" using Cons.prems(1) by simp_all
  have d: "?V1 \<inter> ?V2 = {}" using Cons.prems(2,3) by auto
  from stree.join [OF t1 t2 d j _ groot_in]
  have "stree s (?V1 \<union> ?V2) (insert (fst p) (set (tedges (GT v ps)) \<union> set (tedges (snd p))))" by simp
  moreover have "?V1 \<union> ?V2 = insert v (set (knodes (p # ps)))" by auto
  moreover have "insert (fst p) (set (tedges (GT v ps)) \<union> set (tedges (snd p))) = set (tedges (GT v (p # ps)))" by auto
  ultimately show ?case by metis
qed

lemma rooted_stree: "rooted s t \<Longrightarrow> distinct (gnodes t) \<Longrightarrow> stree s (set (gnodes t)) (set (tedges t))"
proof (induction t rule: gtree_induct)
  case (1 v cs)
  have "stree s (insert v (set (knodes cs))) (set (tedges (GT v cs)))"
  proof (rule kids_stree)
    show "\<forall>p\<in>set cs. joins s (fst p) v (groot (snd p)) \<and> stree s (set (gnodes (snd p))) (set (tedges (snd p)))"
    proof
      fix p assume p: "p \<in> set cs"
      then have "distinct (gnodes (snd p))" using "1.prems"(2) by (auto simp: distinct_concat_iff)
      then show "joins s (fst p) v (groot (snd p)) \<and> stree s (set (gnodes (snd p))) (set (tedges (snd p)))"
        using "1.IH" [OF p] "1.prems"(1) p by simp
    qed
  qed (use "1.prems"(2) in simp_all)
  moreover have "insert v (set (knodes cs)) = set (gnodes (GT v cs))" by auto
  ultimately show ?case by metis
qed

lemma stree_cong:
  assumes "stree s V E" and "\<And>e. vtail s' e = vtail s e" and "\<And>e. vhead s' e = vhead s e"
  shows "stree s' V E"
  using assms(1)
proof (induction rule: stree.induct)
  case (join V1 E1 V2 E2 e a b)
  have "joins s' e a b" using join.hyps(4) by (simp add: joins_def assms(2,3))
  from stree.join [OF join.IH join.hyps(3) this join.hyps(5,6)] show ?case .
qed (rule stree.one)

text \<open>A tree none of whose edges crosses a set is on one side of it.\<close>

lemma stree_side:
  "stree s V E \<Longrightarrow> \<forall>g\<in>E. vtail s g \<in> X \<longleftrightarrow> vhead s g \<in> X \<Longrightarrow> V \<subseteq> X \<or> V \<inter> X = {}"
proof (induction rule: stree.induct)
  case (join V1 E1 V2 E2 e a b)
  have c: "V1 \<subseteq> X \<or> V1 \<inter> X = {}" "V2 \<subseteq> X \<or> V2 \<inter> X = {}" using join.IH join.prems by blast+
  have "a \<in> X \<longleftrightarrow> b \<in> X" using join.prems join.hyps(4) unfolding joins_def by (elim disjE conjE) auto
  with c join.hyps(5,6) show ?case by blast
qed auto

lemma stree_swap:
  assumes t: "stree s V E" and e: "e \<in> E" "(vtail s e \<in> X) \<noteq> (vhead s e \<in> X)"
    and only: "\<And>g. g \<in> E \<Longrightarrow> g \<noteq> e \<Longrightarrow> vtail s g \<in> X \<longleftrightarrow> vhead s g \<in> X"
    and f: "vtail s f \<in> V" "vhead s f \<in> V" "(vtail s f \<in> X) \<noteq> (vhead s f \<in> X)"
  shows "stree s V (insert f (E - {e}))"
proof -
  from stree_parts [OF t e(1)] obtain A B EA EB where "parts s e V E A B EA EB" by blast
  then have p: "stree s A EA" "stree s B EB" "A \<inter> B = {}" "V = A \<union> B" "E = insert e (EA \<union> EB)" "e \<notin> EA \<union> EB"
    "\<exists>x\<in>A. \<exists>y\<in>B. joins s e x y" unfolding parts_def by blast+
  obtain x y where xy: "x \<in> A" "y \<in> B" "joins s e x y" using p(7) by blast
  have sA: "A \<subseteq> X \<or> A \<inter> X = {}" by (rule stree_side [OF p(1)]) (use only p(5,6) in blast)
  have sB: "B \<subseteq> X \<or> B \<inter> X = {}" by (rule stree_side [OF p(2)]) (use only p(5,6) in blast)
  have "(x \<in> X) \<noteq> (y \<in> X)" using xy(3) e(2) unfolding joins_def by auto
  then have s: "A \<subseteq> X \<and> B \<inter> X = {} \<or> A \<inter> X = {} \<and> B \<subseteq> X" using sA sB xy(1,2) by blast
  have E: "insert f (EA \<union> EB) = insert f (E - {e})" using p(5,6) by blast
  have "\<exists>u w. u \<in> A \<and> w \<in> B \<and> joins s f u w"
  proof (cases "vtail s f \<in> A")
    case True
    then have "vhead s f \<in> B" using f s p(4) by blast
    with True show ?thesis by (auto simp: joins_def)
  next
    case False
    then have "vtail s f \<in> B" "vhead s f \<in> A" using f s p(4) by blast+
    then show ?thesis by (auto simp: joins_def)
  qed
  then obtain u w where "u \<in> A" "w \<in> B" "joins s f u w" by blast
  from stree.join [OF p(1,2,3) this(3,1,2)] show ?thesis unfolding E p(4) .
qed

lemma subtree_lists:
  assumes nt: "numbered_tree T s" and at: "subtree_at T s par L"
  shows "lists_at s (set (gnodes L)) (set (tedges L)) (groot L) par"
  unfolding lists_at_def
proof (intro ballI)
  fix n assume n: "n \<in> set (gnodes L)"
  note env = numbered_treeD(1) [OF nt] and sp = numbered_treeD(3) [OF nt]
  have nT: "n \<in> set (gnodes T)" using n at by (auto simp: subtree_at_def)
  have ro: "rooted s L" by (rule subtree_rooted [OF sp at])
  have out: "vtail s g = groot L \<and> vhead s g \<notin> set (gnodes L) \<or> vhead s g = groot L \<and> vtail s g \<notin> set (gnodes L)" if "par = Some g" for g
    using at that by (simp add: subtree_at_def)
  have key: "set (kedges (if n = groot L then par else None) K) = {g \<in> set (tedges L). h g = n}"
    if K: "\<And>g. g \<in> set K \<longleftrightarrow> fast s g \<and> TREE_EDGE s g \<and> h g = n" and h: "\<And>g. h g = vtail s g \<or> h g = vhead s g"
      and sub: "set K \<subseteq> set (touts s n) \<union> set (tins s n)" for K h
  proof (intro equalityI subsetI)
    fix g assume "g \<in> set (kedges (if n = groot L then par else None) K)"
    then have g: "g \<in> set K" "n = groot L \<Longrightarrow> Some g \<noteq> par" by auto
    have "Some g \<noteq> par"
    proof
      assume "Some g = par"
      then have "n = groot L" using out [of g] h [of g] K [of g] g(1) n by auto
      with g(2) \<open>Some g = par\<close> show False by blast
    qed
    with tree_edge_in [OF env at n, of g] g(1) sub have "g \<in> set (tedges L)" by blast
    with g(1) K [of g] show "g \<in> {g \<in> set (tedges L). h g = n}" by simp
  next
    fix g assume "g \<in> {g \<in> set (tedges L). h g = n}"
    then have g: "g \<in> set (tedges L)" "h g = n" by simp_all
    have "Some g \<noteq> par" using out [of g] rooted_ends [OF ro g(1)] by auto
    then show "g \<in> set (kedges (if n = groot L then par else None) K)" using K [of g] tedges_ok [OF env at g(1)] g(2) by simp
  qed
  show "distinct (touts s n) \<and> distinct (tins s n) \<and>
      set (kedges (if n = groot L then par else None) (touts s n)) = {e \<in> set (tedges L). vtail s e = n} \<and>
      set (kedges (if n = groot L then par else None) (tins s n)) = {e \<in> set (tedges L). vhead s e = n}"
    using spanningD(6) [OF sp nT] key [of "touts s n" "vtail s"] key [of "tins s n" "vhead s"] tree_edge_iff [OF sp nT] by blast
qed

end
