(* ===== verification/Ns_Regraft.thy ===== *)
theory Ns_Regraft
  imports Ns_Exchange
begin

text \<open>
  The spanning tree after the exchange: the leaving edge is on the way between the ends of the entering edge, the
  subtree of their lowest common ancestor has a new shape, and \<open>dfs_range\<close> numbers it; everything else
  stays, and the whole is a numbered spanning tree again.
\<close>

section \<open>The cycle\<close>

text \<open>The edge \<open>f\<close> crosses the cut of the tree edge \<open>e\<close> from the head side to the tail side.\<close>

definition swappable :: "gtree \<Rightarrow> fgraph \<Rightarrow> nat \<Rightarrow> nat \<Rightarrow> bool" where
  "swappable T s e f \<longleftrightarrow> numbered_tree T s \<and> e \<in> set (tedges T) \<and> fast s f \<and> \<not> TREE_EDGE s f \<and>
     vtail s f \<in> set (gnodes T) \<and> vtail s f \<notin> tail_side T s e \<and> vhead s f \<in> tail_side T s e"

lemma swappableD:
  assumes "swappable T s e f"
  shows "numbered_tree T s" and "e \<in> set (tedges T)" and "fast s f" and "\<not> TREE_EDGE s f"
    and "vtail s f \<in> set (gnodes T)" and "vhead s f \<in> set (gnodes T)" and "vtail s f \<notin> tail_side T s e" and "vhead s f \<in> tail_side T s e"
    and "e \<noteq> f"
    and "vhead s f \<in> desc T s (child_end s e) \<longleftrightarrow> child_end s e = vtail s e"
    and "vtail s f \<in> desc T s (child_end s e) \<longleftrightarrow> child_end s e \<noteq> vtail s e"
proof -
  note s = assms [unfolded swappable_def]
  show nt: "numbered_tree T s" and e: "e \<in> set (tedges T)" and "fast s f" and ne: "\<not> TREE_EDGE s f"
    and t: "vtail s f \<in> set (gnodes T)" and ts: "vtail s f \<notin> tail_side T s e" and hs: "vhead s f \<in> tail_side T s e" using s by blast+
  show h: "vhead s f \<in> set (gnodes T)" using hs side_cut(2) [OF nt e] by blast
  show "e \<noteq> f" using tree_edgeD(2) [OF nt e] ne by blast
  show "vhead s f \<in> desc T s (child_end s e) \<longleftrightarrow> child_end s e = vtail s e"
    "vtail s f \<in> desc T s (child_end s e) \<longleftrightarrow> child_end s e \<noteq> vtail s e"
    using ts hs t h by (auto simp: tail_side_def split: if_splits)
qed

text \<open>The nodes that \<open>invalidate_path\<close> marks.\<close>

definition marked :: "gtree \<Rightarrow> fgraph \<Rightarrow> nat \<Rightarrow> nat \<Rightarrow> nat set" where
  "marked T s f a = chain T s a (vhead s f) \<union> chain T s a (vtail s f)"

lemma lowest_sym: "lowest T s v w a = lowest T s w v a"
  by (auto simp: lowest_def)

lemma marked_desc: "marked T s f a \<subseteq> desc T s a"
  by (auto simp: marked_def chain_def)

lemma cycle_nodes:
  assumes sw: "swappable T s e f" and low: "lowest T s (vtail s f) (vhead s f) a"
  shows "{vtail s e, vhead s e, vtail s f, vhead s f, a} \<subseteq> marked T s f a"
    and "u \<in> desc T s a \<Longrightarrow> u \<notin> marked T s f a \<Longrightarrow> desc T s u \<inter> marked T s f a = {}"
proof -
  note nt = swappableD(1) [OF sw] and e = swappableD(2) [OF sw] and fT = swappableD(5,6) [OF sw] and te = tree_edgeD [OF nt e]
  have a: "a \<in> set (gnodes T)" "vtail s f \<in> desc T s a" "vhead s f \<in> desc T s a" using low by (simp_all add: lowest_def)
  let ?c = "child_end s e"
  have main: "?c \<in> chain T s a v \<and> up_end s e \<in> chain T s a v"
    if v: "v \<in> desc T s ?c" "v \<in> desc T s a" and w: "w \<notin> desc T s ?c" "w \<in> desc T s a" for v w
  proof -
    have "a \<notin> desc T s ?c" using desc_trans [OF nt te(5), of a] w by blast
    with desc_nested [OF nt v te(5) a(1)] have c: "?c \<in> desc T s a" by blast
    have ne: "?c \<noteq> a" using w by blast
    from desc_parent [OF nt a(1) c ne] te(6) have up: "up_end s e \<in> desc T s a" by auto
    have "desc T s ?c \<subseteq> desc T s (up_end s e)" using parent_node [OF nt te(5,7)] te(6) by auto
    with v c up show ?thesis by (auto simp: chain_def)
  qed
  have self: "v \<in> chain T s a v" "a \<in> chain T s a v" if "v \<in> desc T s a" for v
  proof -
    have "v \<in> set (gnodes T)" using that by (simp add: desc_def)
    then show "v \<in> chain T s a v" "a \<in> chain T s a v" using that desc_self [OF nt] a(1) by (simp_all add: chain_def)
  qed
  have ends: "?c \<in> marked T s f a \<and> up_end s e \<in> marked T s f a"
  proof (cases "?c = vtail s e")
    case True
    then have "vhead s f \<in> desc T s ?c" "vtail s f \<notin> desc T s ?c" using swappableD(10,11) [OF sw] by auto
    from main [OF this(1) a(3) this(2) a(2)] show ?thesis by (auto simp: marked_def)
  next
    case False
    then have "vtail s f \<in> desc T s ?c" "vhead s f \<notin> desc T s ?c" using swappableD(10,11) [OF sw] by auto
    from main [OF this(1) a(2) this(2) a(3)] show ?thesis by (auto simp: marked_def)
  qed
  have "vtail s e \<in> {?c, up_end s e} \<and> vhead s e \<in> {?c, up_end s e}" using te(8) by (auto simp: joins_def)
  with ends self a(2,3) show "{vtail s e, vhead s e, vtail s f, vhead s f, a} \<subseteq> marked T s f a" by (auto simp: marked_def)
  assume u: "u \<in> desc T s a" "u \<notin> marked T s f a"
  then have uT: "u \<in> set (gnodes T)" by (simp add: desc_def)
  show "desc T s u \<inter> marked T s f a = {}"
  proof (rule ccontr)
    assume "desc T s u \<inter> marked T s f a \<noteq> {}"
    then obtain y where y: "y \<in> desc T s u" "y \<in> marked T s f a" by blast
    then obtain v where v: "v = vhead s f \<or> v = vtail s f" "v \<in> desc T s y" by (auto simp: marked_def chain_def)
    have "v \<in> desc T s u" using desc_trans [OF nt uT y(1)] v(2) by blast
    then have "u \<in> chain T s a v" using u(1) by (simp add: chain_def)
    with u(2) v(1) show False by (auto simp: marked_def)
  qed
qed

section \<open>The new subtree\<close>

text \<open>The state after the marks and the exchange, but for ranks and cut values.\<close>

definition exchanged :: "nat \<Rightarrow> nat \<Rightarrow> nat set \<Rightarrow> fgraph \<Rightarrow> fgraph \<Rightarrow> bool" where
  "exchanged e f B s s' \<longleftrightarrow> nlist s' = nlist s \<and> efresh s' = efresh s \<and>
     (\<forall>n. outs s' n = outs s n \<and> ins s' n = ins s n \<and> v_par (vnodes s' n) = v_par (vnodes s n) \<and>
        v_lim (vnodes s' n) = v_lim (vnodes s n) \<and> v_low (vnodes s' n) = (if n \<in> B then -1 else v_low (vnodes s n)) \<and>
        touts s' n = (if n = vtail s e then drop_edge e (touts s n) else touts s n) @ (if n = vtail s f then [f] else []) \<and>
        tins s' n = (if n = vhead s e then drop_edge e (tins s n) else tins s n) @ (if n = vhead s f then [f] else [])) \<and>
     (\<forall>g. vtail s' g = vtail s g \<and> vhead s' g = vhead s g \<and> e_weight (vedges s' g) = e_weight (vedges s g) \<and>
        e_minlen (vedges s' g) = e_minlen (vedges s g) \<and> e_to_virt (vedges s' g) = e_to_virt (vedges s g) \<and>
        TREE_EDGE s' g = (g \<noteq> e \<and> (g = f \<or> TREE_EDGE s g)))"

lemma exchangedD:
  assumes "exchanged e f B s s'"
  shows "nlist s' = nlist s" and "efresh s' = efresh s" and "outs s' n = outs s n" and "ins s' n = ins s n"
    and "v_par (vnodes s' n) = v_par (vnodes s n)" and "v_lim (vnodes s' n) = v_lim (vnodes s n)"
    and "v_low (vnodes s' n) = (if n \<in> B then -1 else v_low (vnodes s n))"
    and "touts s' n = (if n = vtail s e then drop_edge e (touts s n) else touts s n) @ (if n = vtail s f then [f] else [])"
    and "tins s' n = (if n = vhead s e then drop_edge e (tins s n) else tins s n) @ (if n = vhead s f then [f] else [])"
    and "vtail s' g = vtail s g" and "vhead s' g = vhead s g" and "e_weight (vedges s' g) = e_weight (vedges s g)"
    and "e_minlen (vedges s' g) = e_minlen (vedges s g)" and "e_to_virt (vedges s' g) = e_to_virt (vedges s g)"
    and "TREE_EDGE s' g = (g \<noteq> e \<and> (g = f \<or> TREE_EDGE s g))"
  using assms unfolding exchanged_def by blast+

lemma swap_list:
  assumes d: "distinct L" "f \<notin> set L" and e: "e \<in> set L \<longleftrightarrow> p" "e \<noteq> f"
  shows "distinct ((if p then drop_edge e L else L) @ (if q then [f] else [])) \<and>
    set ((if p then drop_edge e L else L) @ (if q then [f] else [])) = {g. g \<noteq> e \<and> (g \<in> set L \<or> g = f \<and> q)}"
proof (cases p)
  case True
  then have "e \<in> set L" using e(1) by simp
  note de = drop_edge_set [OF d(1) this]
  show ?thesis using True de d(2) e(2) by (cases q) auto
next
  case False
  then have "e \<notin> set L" using e(1) by simp
  then show ?thesis using False d e(2) by (cases q) auto
qed

lemma exchanged_lists:
  assumes sw: "swappable T s e f" and ex: "exchanged e f B s s'" and n: "n \<in> set (gnodes T)"
  shows "distinct (touts s' n)" and "distinct (tins s' n)"
    and "set (touts s' n) = {g. g \<noteq> e \<and> (g \<in> set (touts s n) \<or> g = f \<and> n = vtail s f)}"
    and "set (tins s' n) = {g. g \<noteq> e \<and> (g \<in> set (tins s n) \<or> g = f \<and> n = vhead s f)}"
proof -
  note nt = swappableD(1) [OF sw] and e = swappableD(2) [OF sw]
  note sp = numbered_treeD(3) [OF nt]
  have d: "distinct (touts s n)" "distinct (tins s n)" using spanningD(6) [OF sp n] by blast+
  have fn: "f \<notin> set (touts s n)" "f \<notin> set (tins s n)" using tree_edge_iff [OF sp n] swappableD(4) [OF sw] by blast+
  have en: "e \<in> set (touts s n) \<longleftrightarrow> n = vtail s e" "e \<in> set (tins s n) \<longleftrightarrow> n = vhead s e"
    using tree_edge_iff [OF sp n, of e] tree_edgeD(1,2) [OF nt e] by auto
  note o = swap_list [OF d(1) fn(1) en(1) swappableD(9) [OF sw], of "n = vtail s f", folded exchangedD(8) [OF ex]]
  note i = swap_list [OF d(2) fn(2) en(2) swappableD(9) [OF sw], of "n = vhead s f", folded exchangedD(9) [OF ex]]
  show "distinct (touts s' n)" by (rule conjunct1 [OF o])
  show "set (touts s' n) = {g. g \<noteq> e \<and> (g \<in> set (touts s n) \<or> g = f \<and> n = vtail s f)}" by (rule conjunct2 [OF o])
  show "distinct (tins s' n)" by (rule conjunct1 [OF i])
  show "set (tins s' n) = {g. g \<noteq> e \<and> (g \<in> set (tins s n) \<or> g = f \<and> n = vhead s f)}" by (rule conjunct2 [OF i])
qed

lemma subtree_par: "subtree_at T s par t \<Longrightarrow> vtail s g \<in> set (gnodes t) \<Longrightarrow> vhead s g \<in> set (gnodes t) \<Longrightarrow> Some g \<noteq> par"
proof
  assume a: "subtree_at T s par t" "vtail s g \<in> set (gnodes t)" "vhead s g \<in> set (gnodes t)" "Some g = par"
  from a(1) have "case par of None \<Rightarrow> True | Some e \<Rightarrow> fast s e \<and>
        (vtail s e = groot t \<and> vhead s e \<notin> set (gnodes t) \<or> vhead s e = groot t \<and> vtail s e \<notin> set (gnodes t))"
    by (simp add: subtree_at_def)
  then show False using a(2,3) unfolding a(4) [symmetric] by simp
qed

lemma subtree_swapped:
  assumes sw: "swappable T s e f" and low: "lowest T s (vtail s f) (vhead s f) a" and ex: "exchanged e f (marked T s f a) s s'"
    and at: "subtree_at T s par L" "groot L = a"
  shows "\<exists>L'. groot L' = a \<and> is_tree s' par L' \<and> distinct (gnodes L') \<and> set (gnodes L') = set (gnodes L) \<and> sane s' L'"
proof -
  note nt = swappableD(1) [OF sw] and e = swappableD(2) [OF sw]
  note env = numbered_treeD(1) [OF nt] and sp = numbered_treeD(3) [OF nt] and te = tree_edgeD [OF nt e]
  let ?B = "marked T s f a" and ?V = "set (gnodes L)" and ?E = "set (tedges L)" and ?c = "child_end s e"
  let ?X = "desc T s ?c" and ?E' = "insert f (set (tedges L) - {e})"
  have dL: "desc T s a = ?V" using desc_subtree [OF nt at(1)] at(2) by simp
  have LT: "?V \<subseteq> set (gnodes T)" "distinct (gnodes L)" using at(1) by (simp_all add: subtree_at_def)
  note cn = cycle_nodes [OF sw low]
  have ends: "vtail s e \<in> ?V" "vhead s e \<in> ?V" "vtail s f \<in> ?V" "vhead s f \<in> ?V" using cn(1) marked_desc [of T s f a] dL by blast+
  have eE: "e \<in> ?E"
  proof -
    have "e \<in> set (touts s (vtail s e))" using te(1-3) tree_edge_iff [OF sp] by blast
    then have "Some e = par \<or> e \<in> ?E" using tree_edge_in [OF env at(1) ends(1), of e] by blast
    moreover have "Some e \<noteq> par" by (rule subtree_par [OF at(1) ends(1,2)])
    ultimately show ?thesis by blast
  qed
  have cross: "(vtail s g \<in> ?X) \<noteq> (vhead s g \<in> ?X) \<longleftrightarrow> (vtail s g \<in> tail_side T s e) \<noteq> (vhead s g \<in> tail_side T s e)"
    if "vtail s g \<in> set (gnodes T)" "vhead s g \<in> set (gnodes T)" for g using that by (auto simp: tail_side_def)
  have st: "stree s ?V ?E" by (rule rooted_stree [OF subtree_rooted [OF sp at(1)] LT(2)])
  have "stree s ?V ?E'"
  proof (rule stree_swap [OF st eE])
    show "(vtail s e \<in> ?X) \<noteq> (vhead s e \<in> ?X)" using cross [OF te(3,4)] side_cut(1) [OF nt e] by (simp add: tree_cut_def)
    show "(vtail s f \<in> ?X) \<noteq> (vhead s f \<in> ?X)" using cross [OF swappableD(5,6) [OF sw]] swappableD(7,8) [OF sw] by blast
    show "vtail s f \<in> ?V" "vhead s f \<in> ?V" by (rule ends)+
    fix g assume g: "g \<in> ?E" "g \<noteq> e"
    note ok = tedges_ok [OF env at(1) g(1)]
    have "vhead s g \<in> set (gnodes T)" using ok spanningD(3) [OF sp] unfolding closed_on_def by blast
    with cross [of g] ok side_cut(1) [OF nt e] g(2) show "vtail s g \<in> ?X \<longleftrightarrow> vhead s g \<in> ?X" unfolding tree_cut_def by blast
  qed
  then have st': "stree s' ?V ?E'" by (rule stree_cong) (simp_all add: exchangedD [OF ex])
  have aV: "a \<in> ?V" using groot_in [of L] at(2) by simp
  have ne_par: "Some e \<noteq> par" "Some f \<noteq> par"
    by (rule subtree_par [OF at(1) ends(1,2)], rule subtree_par [OF at(1) ends(3,4)])
  have "lists_at s' ?V ?E' a par"
    unfolding lists_at_def
  proof (intro ballI)
    fix n assume n: "n \<in> ?V"
    then have nT: "n \<in> set (gnodes T)" using LT by blast
    note xl = exchanged_lists [OF sw ex nT]
    have old: "set (kedges (if n = a then par else None) (touts s n)) = {g \<in> ?E. vtail s g = n}"
      "set (kedges (if n = a then par else None) (tins s n)) = {g \<in> ?E. vhead s g = n}"
      using subtree_lists [OF nt at(1)] n unfolding lists_at_def at(2) by blast+
    have "set (kedges (if n = a then par else None) (touts s' n)) = {g \<in> ?E'. vtail s g = n}"
    proof (rule set_eqI)
      fix g
      show "g \<in> set (kedges (if n = a then par else None) (touts s' n)) \<longleftrightarrow> g \<in> {g \<in> ?E'. vtail s g = n}"
        using eqset_imp_iff [OF old(1), of g] ne_par swappableD(9) [OF sw] unfolding set_filter xl(3) by auto
    qed
    moreover have "set (kedges (if n = a then par else None) (tins s' n)) = {g \<in> ?E'. vhead s g = n}"
    proof (rule set_eqI)
      fix g
      show "g \<in> set (kedges (if n = a then par else None) (tins s' n)) \<longleftrightarrow> g \<in> {g \<in> ?E'. vhead s g = n}"
        using eqset_imp_iff [OF old(2), of g] ne_par swappableD(9) [OF sw] unfolding set_filter xl(4) by auto
    qed
    ultimately show "distinct (touts s' n) \<and> distinct (tins s' n) \<and>
      set (kedges (if n = a then par else None) (touts s' n)) = {g \<in> ?E'. vtail s' g = n} \<and>
      set (kedges (if n = a then par else None) (tins s' n)) = {g \<in> ?E'. vhead s' g = n}"
      using xl(1,2) unfolding exchangedD(10,11) [OF ex] by blast
  qed
  from stree_is_tree [OF st' aV this] obtain L' where L': "groot L' = a" "is_tree s' par L'" "distinct (gnodes L')" "set (gnodes L') = ?V" by blast
  have "sane s' L'"
  proof (rule sane_all [OF L'(2)])
    fix g u assume u: "is_tree s' (Some g) u" "groot u \<in> set (gnodes L')" "v_par (vnodes s' (groot u)) = Some g" "1 \<le> v_low (vnodes s' (groot u))"
    let ?r = "groot u"
    have rB: "?r \<notin> ?B" using u(4) exchangedD(7) [OF ex, of ?r] by auto
    have rd: "?r \<in> desc T s a" using u(2) L'(4) dL by simp
    have rT: "?r \<in> set (gnodes T)" using rd by (simp add: desc_def)
    from node_subtree [OF env numbered_treeD(2) [OF nt] rT] obtain p t where t: "subtree_at T s p t" "groot t = ?r" by blast
    have p: "p = Some g" using t u(3) exchangedD(5) [OF ex] by (simp add: subtree_at_def)
    have dis: "set (gnodes t) \<inter> ?B = {}" using cn(2) [OF rd rB] desc_subtree [OF nt t(1)] t(2) by simp
    have "\<forall>n\<in>set (gnodes t). touts s' n = touts s n \<and> tins s' n = tins s n"
    proof
      fix n assume "n \<in> set (gnodes t)"
      then have "n \<notin> {vtail s e, vhead s e, vtail s f, vhead s f}" using dis cn(1) by blast
      then show "touts s' n = touts s n \<and> tins s' n = tins s n" unfolding exchangedD(8,9) [OF ex] by simp
    qed
    then have "is_tree s' (Some g) t = is_tree s (Some g) t" by (rule is_tree_cong) (simp_all add: exchangedD [OF ex])
    then have "is_tree s' (Some g) t" using t(1) p by (simp add: subtree_at_def)
    from is_tree_unique [OF u(1) this] t(2) have eq: "u = t" by simp
    obtain l where l: "numbered s l t" and dt: "distinct (gnodes t)" using t(1) by (auto simp: subtree_at_def)
    have "numbered s' l t = numbered s l t"
      by (rule numbered_same(1) [OF _ dt]) (use dis in \<open>auto simp: exchangedD [OF ex]\<close>)
    moreover have "v_low (vnodes s' ?r) = l" using rB numbered_root [OF l] t(2) exchangedD(7) [OF ex] by simp
    ultimately show "numbered s' (v_low (vnodes s' ?r)) u" using l eq by simp
  qed
  with L' show ?thesis by blast
qed


section \<open>The whole tree\<close>

lemma exchanged_edges:
  assumes "exchanged e f B s s'"
  shows "fast s' g = fast s g" and "deg_weight s' u = deg_weight s u" and "closed_on V s' = closed_on V s" and "frel s' = frel s"
    and "fg_ok s' = fg_ok s" and "cut_weight s' S = cut_weight s S" and "net_weight s' S = net_weight s S"
proof -
  note a = exchangedD [OF assms]
  show f: "fast s' g = fast s g" for g by (simp add: fast_def a)
  show "deg_weight s' u = deg_weight s u" by (simp add: deg_weight_def a)
  show "closed_on V s' = closed_on V s" "frel s' = frel s" "fg_ok s' = fg_ok s" "cut_weight s' S = cut_weight s S" "net_weight s' S = net_weight s S"
    by (simp_all add: closed_on_def frel_def fg_ok_def cut_weight_def net_weight_def f a)
qed

lemma part_of_subtree: "part_of par' t' par t \<Longrightarrow> spanning s T \<Longrightarrow> subtree_at T s par t \<Longrightarrow> subtree_at T s par' t'"
proof (induction rule: part_of.induct)
  case (below_kid g c cs par' t' par v)
  show ?case by (rule below_kid.IH [OF below_kid.prems(1)]) (use kid_edges(1) [OF below_kid.prems below_kid.hyps(1)] in simp)
qed

lemma new_tree:
  assumes sw: "swappable T s e f" and low: "lowest T s (vtail s f) (vhead s f) a" and ex: "exchanged e f (marked T s f a) s s'"
  shows "\<exists>T' l s''. dfs_range a (v_par (vnodes s' a)) (v_low (vnodes s a)) s' = Some (l, s'') \<and> numbered_tree T' s'' \<and>
    groot T' = groot T \<and> mset (gnodes T') = mset (gnodes T) \<and> renum (set (gnodes T)) s' s''"
proof -
  note nt = swappableD(1) [OF sw]
  note env = numbered_treeD(1) [OF nt] and rt = numbered_treeD(2) [OF nt] and sp = numbered_treeD(3) [OF nt]
  let ?B = "marked T s f a"
  have aT: "a \<in> set (gnodes T)" using low by (simp add: lowest_def)
  obtain par L where L: "part_of par L None T" "groot L = a" using node_part_of [OF aT] by blast
  have at: "subtree_at T s par L" by (rule part_of_subtree [OF L(1) sp rt])
  from subtree_swapped [OF sw low ex at L(2)] obtain L' where
    L': "groot L' = a" "is_tree s' par L'" "distinct (gnodes L')" "set (gnodes L') = set (gnodes L)" "sane s' L'" by blast
  have pa: "v_par (vnodes s' a) = par" "v_par (vnodes s a) = par" using at L(2) exchangedD(5) [OF ex] by (simp_all add: subtree_at_def)
  note cn = cycle_nodes [OF sw low]
  have BL: "?B \<subseteq> set (gnodes L)" using marked_desc [of T s f a] desc_subtree [OF nt at] L(2) by simp
  have "a \<in> ?B" using cn(1) by simp
  then have "v_low (vnodes s' a) = -1" using exchangedD(7) [OF ex, of a] by simp
  then have "v_low (vnodes s' (groot L')) \<noteq> v_low (vnodes s a)" using low_pos [OF nt aT] L'(1) by simp
  from dfs_range_spec [OF L'(2,3,5) low_pos [OF nt aT] this] obtain s'' where
    s'': "dfs_range a par (v_low (vnodes s a)) s' = Some (v_low (vnodes s a) + int (length (gnodes L')), s'')"
    "numbered s'' (v_low (vnodes s a)) L'" "renum (set (gnodes L')) s' s''" "v_par (vnodes s'' a) = par"
    unfolding L'(1) by blast
  note rn = renumD [OF s''(3)] and xd = exchangedD [OF ex]
  have dT: "distinct (gnodes T)" by (rule spanningD(5) [OF sp])
  have LT: "set (gnodes L) \<subseteq> set (gnodes T)" "distinct (gnodes L)" using at by (simp_all add: subtree_at_def)
  have m: "mset (gnodes L') = mset (gnodes L)" using L'(3,4) LT(2) set_eq_iff_mset_eq_distinct by blast
  define T' where "T' = graft a L' T"
  have mT: "mset (gnodes T') = mset (gnodes T)" unfolding T'_def by (rule graft_mset [OF dT L(1,2) m])
  have root: "groot T' = groot T" unfolding T'_def by (rule groot_graft [OF L'(1)])
  have V: "set (gnodes T') = set (gnodes T)" using mset_eq_setD [OF mT] .
  have dT': "distinct (gnodes T')" using mset_eq_imp_distinct_iff [OF mT] dT by simp
  have off: "n \<notin> {vtail s e, vhead s e, vtail s f, vhead s f}" "n \<notin> ?B" "vnodes s'' n = vnodes s' n" if "n \<notin> set (gnodes L)" for n
    using that cn(1) BL rn(10) L'(4) by blast+
  have "is_tree s' None T'" unfolding T'_def
  proof (rule graft_is_tree [OF dT L(1) spanningD(4) [OF sp] L(2) L'(1,2)])
    show "\<forall>n\<in>set (gnodes T) - set (gnodes L). touts s' n = touts s n \<and> tins s' n = tins s n"
    proof
      fix n assume "n \<in> set (gnodes T) - set (gnodes L)"
      then have "n \<notin> {vtail s e, vhead s e, vtail s f, vhead s f}" using off(1) by blast
      then show "touts s' n = touts s n \<and> tins s' n = tins s n" unfolding xd(8,9) by simp
    qed
  qed (simp_all add: xd)
  then have it: "is_tree s'' None T'" using is_tree_renum [OF s''(3)] by simp
  have nb: "numbered s'' 1 T'" unfolding T'_def
  proof (rule graft_numbered [OF dT L(1) cut_envD(2) [OF env] L(2) L'(1) m s''(2)])
    show "v_par (vnodes s'' a) = v_par (vnodes s a)" using s''(4) pa(2) by simp
    show "\<forall>n\<in>set (gnodes T) - set (gnodes L). v_low (vnodes s'' n) = v_low (vnodes s n) \<and> v_lim (vnodes s'' n) = v_lim (vnodes s n) \<and>
      v_par (vnodes s'' n) = v_par (vnodes s n)"
    proof
      fix n assume "n \<in> set (gnodes T) - set (gnodes L)"
      then have "n \<notin> ?B" "vnodes s'' n = vnodes s' n" using off(2,3) by blast+
      then show "v_low (vnodes s'' n) = v_low (vnodes s n) \<and> v_lim (vnodes s'' n) = v_lim (vnodes s n) \<and> v_par (vnodes s'' n) = v_par (vnodes s n)"
        by (simp add: xd)
    qed
  qed
  have "spanning s' T'"
    unfolding spanning_def V
  proof (intro conjI ballI)
    show "fg_ok s'" "irrefl (frel s')" "closed_on (set (gnodes T)) s'"
      using spanningD(1-3) [OF sp] unfolding exchanged_edges [OF ex] by blast+
    show "is_tree s' None T'" by (rule \<open>is_tree s' None T'\<close>)
    show "distinct (gnodes T')" by (rule dT')
    fix n assume n: "n \<in> set (gnodes T)"
    note xl = exchanged_lists [OF sw ex n] and old = spanningD(6) [OF sp n]
    have f: "f \<in> set (outs s n) \<longleftrightarrow> n = vtail s f" "f \<in> set (ins s n) \<longleftrightarrow> n = vhead s f"
      using fast_iff [OF spanningD(1) [OF sp], of f n] ins_iff [OF spanningD(1) [OF sp], of f n] swappableD(3) [OF sw] by auto
    show "distinct (touts s' n)" "distinct (tins s' n)" by (rule xl)+
    show "set (touts s' n) = {g \<in> set (outs s' n). TREE_EDGE s' g}"
      unfolding xl(3) xd(3,15) using f(1) old by blast
    show "set (tins s' n) = {g \<in> set (ins s' n). TREE_EDGE s' g}"
      unfolding xl(4) xd(4,15) using f(2) old by blast
  qed
  then have "spanning s'' T'" using renum_spanning(1) [OF s''(3)] by simp
  moreover have "\<forall>g. fast s'' g \<longrightarrow> 0 \<le> e_weight (vedges s'' g)"
    using cut_envD(3) [OF env] renum_spanning(2) [OF s''(3)] by (simp add: rn xd exchanged_edges [OF ex])
  moreover have "(\<Sum>u\<in>set (gnodes T'). deg_weight s'' u) < 2 ^ 31"
    unfolding V renum_spanning(3) [OF s''(3)] exchanged_edges(2) [OF ex] by (rule cut_envD(4) [OF env])
  ultimately have env': "cut_env T' s''" using nb by (simp add: cut_env_def)
  have "v_par (vnodes s'' (groot T)) = None"
  proof (cases "groot T = a")
    case True
    then show ?thesis using s''(4) pa(2) rt by (simp add: subtree_at_def)
  next
    case False
    have "groot T \<notin> set (gnodes L)"
    proof
      assume "groot T \<in> set (gnodes L)"
      then have "groot T \<in> desc T s a" using desc_subtree [OF nt at] L(2) by simp
      from root_above [OF nt aT this] False show False by simp
    qed
    then show ?thesis using off(3) xd(5) rt by (simp add: subtree_at_def)
  qed
  then have "subtree_at T' s'' None T'" using nb it dT' root by (auto simp: subtree_at_def)
  with env' have "numbered_tree T' s''" by (simp add: numbered_tree_def)
  moreover have "renum (set (gnodes T)) s' s''" using renum_mono [OF s''(3)] L'(4) LT(1) by simp
  ultimately show ?thesis using s''(1) root mT pa(1) by blast
qed

end
