(* ===== verification/Ns_Recut.thy ===== *)
theory Ns_Recut
  imports Ns_Regraft
begin

text \<open>
  The cut values after the exchange: those of the edges on the cycle have changed by that of the leaving edge,
  which is what their new cuts weigh.
\<close>

section \<open>Cuts by descendants\<close>

lemma cut_by_side:
  assumes nt: "numbered_tree T s" and g: "g \<in> set (tedges T)" and X: "X \<subseteq> set (gnodes T)" "(vtail s g \<in> X) \<noteq> (vhead s g \<in> X)"
    and only: "\<And>h. fast s h \<Longrightarrow> TREE_EDGE s h \<Longrightarrow> (vtail s h \<in> X) \<noteq> (vhead s h \<in> X) \<Longrightarrow> h = g"
  shows "cut_right T s g \<longleftrightarrow> cutv s g = (if vtail s g \<in> X then 1 else -1) * net_weight s X"
proof -
  let ?V = "set (gnodes T)"
  have cl: "closed_on ?V s" by (rule spanningD(3) [OF numbered_treeD(3) [OF nt]])
  have net: "net_weight s X = cut_weight s X" by (rule net_cut [OF numbered_treeD(4) [OF nt] finite_subset [OF X(1)]]) simp
  show ?thesis
  proof (cases "vtail s g \<in> X")
    case True
    then have "tree_cut s X g" using X(2) only unfolding tree_cut_def by blast
    from cut_right_iff [OF nt g this X(1)] show ?thesis using True net by simp
  next
    case False
    have "tree_cut s (?V - X) g" unfolding tree_cut_def
    proof (intro conjI allI impI)
      show "vtail s g \<in> ?V - X" "vhead s g \<notin> ?V - X" using tree_edgeD(3) [OF nt g] False X(2) by auto
      fix h assume h: "fast s h" "TREE_EDGE s h" "(vtail s h \<in> ?V - X) \<noteq> (vhead s h \<in> ?V - X)"
      have "vtail s h \<in> ?V \<longleftrightarrow> vhead s h \<in> ?V" using cl h(1) by (simp add: closed_on_def)
      then show "h = g" using only [OF h(1,2)] h(3) by blast
    qed
    from cut_right_iff [OF nt g this] show ?thesis using False net cut_other_side [OF cl X(1)] by auto
  qed
qed

abbreviation dn :: "gtree \<Rightarrow> fgraph \<Rightarrow> nat \<Rightarrow> nat set" where
  "dn T s g \<equiv> desc T s (child_end s g)"

definition sgn_of :: "fgraph \<Rightarrow> nat \<Rightarrow> int" where
  "sgn_of s g = (if child_end s g = vtail s g then 1 else -1)"

lemma dn_cross:
  assumes nt: "numbered_tree T s" and g: "g \<in> set (tedges T)"
  shows "child_end s g \<in> dn T s g" and "up_end s g \<notin> dn T s g" and "(vtail s g \<in> dn T s g) \<noteq> (vhead s g \<in> dn T s g)"
    and "vtail s g \<in> dn T s g \<longleftrightarrow> child_end s g = vtail s g"
    and "fast s h \<Longrightarrow> TREE_EDGE s h \<Longrightarrow> (vtail s h \<in> dn T s g) \<noteq> (vhead s h \<in> dn T s g) \<Longrightarrow> h = g"
proof -
  note te = tree_edgeD [OF nt g]
  show c: "child_end s g \<in> dn T s g" by (rule desc_self [OF nt te(5)])
  show u: "up_end s g \<notin> dn T s g" using parent_node [OF nt te(5,7)] te(6) by auto
  have "vtail s g = child_end s g \<and> vhead s g = up_end s g \<or> vtail s g = up_end s g \<and> vhead s g = child_end s g"
    using te(8) by (simp add: joins_def)
  with c u show "(vtail s g \<in> dn T s g) \<noteq> (vhead s g \<in> dn T s g)" "vtail s g \<in> dn T s g \<longleftrightarrow> child_end s g = vtail s g" by metis+
  show "h = g" if h: "fast s h" "TREE_EDGE s h" "(vtail s h \<in> dn T s g) \<noteq> (vhead s h \<in> dn T s g)"
  proof -
    obtain u w where "joins s h u w" "u \<in> dn T s g" "w \<notin> dn T s g" using h(3) by (auto simp: joins_def)
    from desc_exit [OF nt te(5) h(1,2) this] te(6) show ?thesis by simp
  qed
qed

lemma old_cut:
  assumes nt: "numbered_tree T s" and g: "g \<in> set (tedges T)"
  shows "cut_right T s g \<longleftrightarrow> cutv s g = sgn_of s g * net_weight s (dn T s g)"
  unfolding sgn_of_def using cut_by_side [OF nt g desc_sub dn_cross(3,5) [OF nt g]] dn_cross(4) [OF nt g] by simp

lemma net_parts:
  assumes "finite A" and "finite B"
  shows "A \<inter> B = {} \<Longrightarrow> net_weight s ((A - B) \<union> (B - A)) = net_weight s A + net_weight s B"
    and "B \<subseteq> A \<Longrightarrow> net_weight s ((A - B) \<union> (B - A)) = net_weight s A - net_weight s B"
    and "A \<subseteq> B \<Longrightarrow> net_weight s ((A - B) \<union> (B - A)) = net_weight s B - net_weight s A"
proof -
  show "net_weight s ((A - B) \<union> (B - A)) = net_weight s A + net_weight s B" if "A \<inter> B = {}"
  proof -
    have "(A - B) \<union> (B - A) = A \<union> B" using that by blast
    then show ?thesis using sum.union_disjoint [OF assms that] by (simp add: net_weight_def)
  qed
  have diff: "net_weight s ((A - B) \<union> (B - A)) = net_weight s A - net_weight s B" if "B \<subseteq> A" "finite A" for A B
  proof -
    have "(A - B) \<union> (B - A) = A - B" using that by blast
    then show ?thesis using sum_diff [OF that(2,1)] by (simp add: net_weight_def)
  qed
  show "B \<subseteq> A \<Longrightarrow> net_weight s ((A - B) \<union> (B - A)) = net_weight s A - net_weight s B" by (rule diff [OF _ assms(1)])
  show "A \<subseteq> B \<Longrightarrow> net_weight s ((A - B) \<union> (B - A)) = net_weight s B - net_weight s A"
    using diff [OF _ assms(2)] by (simp add: Un_commute)
qed

section \<open>The new cut values\<close>

text \<open>What \<open>treeupdate\<close> has added to the cut value of an edge, where \<open>c\<close> is that of the leaving one.\<close>

definition added :: "gtree \<Rightarrow> fgraph \<Rightarrow> nat \<Rightarrow> int \<Rightarrow> nat \<Rightarrow> int" where
  "added T s f c g = turn T s (vtail s f) (vhead s f) True c g + turn T s (vhead s f) (vtail s f) False c g"

lemma added_eq:
  assumes g: "g \<in> set (tedges T)"
  shows "added T s f c g = (if vtail s f \<in> dn T s g \<longleftrightarrow> vhead s f \<in> dn T s g then 0
    else if vtail s f \<in> dn T s g then sgn_of s g * c else - sgn_of s g * c)"
  using g by (auto simp: added_def turn_def upward_def sgn_of_def)

text \<open>How the cycle meets the subtree below another of its edges.\<close>

lemma cycle_nested:
  assumes sw: "swappable T s e f" and g: "g \<in> set (tedges T)" "g \<noteq> e"
    and x: "(vtail s f \<in> dn T s g) \<noteq> (vhead s f \<in> dn T s g)"
  shows "dn T s e \<subseteq> dn T s g \<and> vtail s g \<notin> dn T s e \<and> (vtail s f \<in> dn T s g \<longleftrightarrow> vtail s f \<in> dn T s e) \<or>
    dn T s g \<subseteq> dn T s e \<and> vtail s g \<in> dn T s e \<and> (vtail s f \<in> dn T s g \<longleftrightarrow> vtail s f \<in> dn T s e) \<or>
    dn T s g \<inter> dn T s e = {} \<and> vtail s g \<notin> dn T s e \<and> (vtail s f \<in> dn T s g \<longleftrightarrow> vtail s f \<notin> dn T s e)"
proof -
  note nt = swappableD(1) [OF sw] and e = swappableD(2) [OF sw]
  note tg = tree_edgeD [OF nt g(1)] and te = tree_edgeD [OF nt e]
  let ?G = "dn T s g" and ?E = "dn T s e"
  have fe: "(vtail s f \<in> ?E) \<noteq> (vhead s f \<in> ?E)" using swappableD(10,11) [OF sw] by blast
  have ne: "child_end s g \<noteq> child_end s e" using tg(6) te(6) g(2) by auto
  have same: "vtail s g \<in> ?E \<longleftrightarrow> vhead s g \<in> ?E" using dn_cross(5) [OF nt e tg(1,2)] g(2) by blast
  have te': "vtail s g \<in> ?E \<longleftrightarrow> child_end s g \<in> ?E" using same by (auto simp: child_end_def)
  show ?thesis
  proof (cases "?G \<inter> ?E = {}")
    case True
    then have "vtail s g \<notin> ?E" using te' dn_cross(1) [OF nt g(1)] by blast
    moreover have "vtail s f \<in> ?G \<longleftrightarrow> vtail s f \<notin> ?E" using True x fe by blast
    ultimately show ?thesis using True by blast
  next
    case False
    then obtain y where "y \<in> ?G" "y \<in> ?E" by blast
    from desc_nested [OF nt this tg(5) te(5)] show ?thesis
    proof
      assume c: "child_end s g \<in> ?E"
      then have "?G \<subseteq> ?E" by (rule desc_trans [OF nt te(5)])
      then show ?thesis using te' c x fe by blast
    next
      assume c: "child_end s e \<in> ?G"
      then have sub: "?E \<subseteq> ?G" by (rule desc_trans [OF nt tg(5)])
      have "child_end s g \<notin> ?E" using desc_antisym [OF nt _ c] ne by blast
      then show ?thesis using sub te' x fe by blast
    qed
  qed
qed

lemma new_cut:
  assumes sw: "swappable T s e f" and old: "\<And>g. g \<in> set (tedges T) \<Longrightarrow> cut_right T s g"
    and nt': "numbered_tree T' s'" and V: "set (gnodes T') = set (gnodes T)"
    and edges: "\<And>g. fast s' g = fast s g" "\<And>g. vtail s' g = vtail s g" "\<And>g. vhead s' g = vhead s g"
      "\<And>g. TREE_EDGE s' g = (g \<noteq> e \<and> (g = f \<or> TREE_EDGE s g))" "\<And>S. net_weight s' S = net_weight s S"
    and cv: "cutv s' f = - cutv s e" "\<And>g. g \<noteq> e \<Longrightarrow> g \<noteq> f \<Longrightarrow> cutv s' g = cutv s g + added T s f (cutv s e) g"
    and g: "g \<in> set (tedges T')"
  shows "cut_right T' s' g"
proof -
  note nt = swappableD(1) [OF sw] and e = swappableD(2) [OF sw]
  note env = numbered_treeD(1,2) [OF nt] and tg' = tree_edgeD [OF nt' g]
  let ?E = "dn T s e" and ?G = "dn T s g"
  have fe: "(vtail s f \<in> ?E) \<noteq> (vhead s f \<in> ?E)" "vtail s f \<in> ?E \<longleftrightarrow> sgn_of s e = -1" "sgn_of s e = 1 \<or> sgn_of s e = -1"
    using swappableD(10,11) [OF sw] by (auto simp: sgn_of_def)
  have ce: "cutv s e = sgn_of s e * net_weight s ?E" using old_cut [OF nt e] old [OF e] by simp
  have sub: "dn T s h \<subseteq> set (gnodes T')" for h using desc_sub V by metis
  have ge: "g \<noteq> e" using tg'(2) edges(4) by blast
  show ?thesis
  proof (cases "g = f")
    case True
    have x: "(vtail s' g \<in> ?E) \<noteq> (vhead s' g \<in> ?E)" using fe(1) True edges by simp
    have only: "h = g" if "fast s' h" "TREE_EDGE s' h" "(vtail s' h \<in> ?E) \<noteq> (vhead s' h \<in> ?E)" for h
      using dn_cross(5) [OF nt e, of h] that True unfolding edges by blast
    have "vtail s' g \<in> ?E \<longleftrightarrow> sgn_of s e = -1" "cutv s' g = - (sgn_of s e * net_weight s ?E)"
      unfolding True edges using fe(2) cv(1) ce by simp_all
    moreover have "cut_right T' s' g \<longleftrightarrow> cutv s' g = (if vtail s' g \<in> ?E then 1 else -1) * net_weight s ?E"
      using cut_by_side [OF nt' g sub x only] unfolding edges(5) .
    ultimately show ?thesis using fe(3) by auto
  next
    case False
    have gT: "g \<in> set (tedges T)" using tg'(1-3) False unfolding edges V by (intro tree_edge_listed [OF env]) blast+
    note dg = dn_cross [OF nt gT]
    have sg: "vtail s g \<in> ?G \<longleftrightarrow> sgn_of s g = 1" "sgn_of s g = 1 \<or> sgn_of s g = -1" using dg(4) by (auto simp: sgn_of_def)
    have cg: "cutv s g = sgn_of s g * net_weight s ?G" using old_cut [OF nt gT] old [OF gT] by simp
    have old_only: "h = g" if "fast s h" "TREE_EDGE s h" "(vtail s h \<in> ?G) \<noteq> (vhead s h \<in> ?G)" for h using dg(5) that .
    have cge: "vtail s g \<in> ?E \<longleftrightarrow> vhead s g \<in> ?E" using dn_cross(5) [OF nt e tree_edgeD(1,2) [OF nt gT]] ge by blast
    show ?thesis
    proof (cases "(vtail s f \<in> ?G) = (vhead s f \<in> ?G)")
      case True
      have y: "(vtail s' g \<in> ?G) \<noteq> (vhead s' g \<in> ?G)" using dg(3) edges by simp
      have only: "h = g" if "fast s' h" "TREE_EDGE s' h" "(vtail s' h \<in> ?G) \<noteq> (vhead s' h \<in> ?G)" for h
        using old_only [of h] that True unfolding edges by blast
      have "cutv s' g = cutv s g" using cv(2) [OF ge False] added_eq [OF gT] True by simp
      moreover have "vtail s' g \<in> ?G \<longleftrightarrow> sgn_of s g = 1" using sg(1) edges by simp
      moreover have "cut_right T' s' g \<longleftrightarrow> cutv s' g = (if vtail s' g \<in> ?G then 1 else -1) * net_weight s ?G"
        using cut_by_side [OF nt' g sub y only] unfolding edges(5) .
      ultimately show ?thesis using cg sg(2) by auto
    next
      case x: False
      let ?X = "(?G - ?E) \<union> (?E - ?G)"
      have X: "?X \<subseteq> set (gnodes T')" using sub [of g] sub [of e] by blast
      have y: "(vtail s' g \<in> ?X) \<noteq> (vhead s' g \<in> ?X)" unfolding edges using dg(3) cge by blast
      have only: "h = g" if h: "fast s' h" "TREE_EDGE s' h" "(vtail s' h \<in> ?X) \<noteq> (vhead s' h \<in> ?X)" for h
      proof (rule ccontr)
        assume ng: "h \<noteq> g"
        have he: "h \<noteq> e" "fast s h" "h = f \<or> TREE_EDGE s h" using h(1,2) edges by blast+
        have hf: "h \<noteq> f" using h(3) x fe(1) unfolding edges by blast
        then have "vtail s h \<in> ?G \<longleftrightarrow> vhead s h \<in> ?G" "vtail s h \<in> ?E \<longleftrightarrow> vhead s h \<in> ?E"
          using old_only [of h] dn_cross(5) [OF nt e, of h] he ng by blast+
        then show False using h(3) unfolding edges by blast
      qed
      have goal: "cut_right T' s' g \<longleftrightarrow> cutv s' g = (if vtail s g \<in> ?X then 1 else -1) * net_weight s ?X"
        using cut_by_side [OF nt' g X y only] unfolding edges .
      have fin: "finite ?G" "finite ?E" using sub finite_subset by (metis List.finite_set)+
      have ad: "cutv s' g = sgn_of s g * net_weight s ?G + (if vtail s f \<in> ?G then 1 else -1) * sgn_of s g * (sgn_of s e * net_weight s ?E)"
        using cv(2) [OF ge False] added_eq [OF gT, of s f] x cg ce by simp
      from cycle_nested [OF sw gT ge x] show ?thesis
      proof (elim disjE conjE)
        assume c: "?E \<subseteq> ?G" "vtail s g \<notin> ?E" "vtail s f \<in> ?G \<longleftrightarrow> vtail s f \<in> ?E"
        have "vtail s g \<in> ?X \<longleftrightarrow> vtail s g \<in> ?G" using c(2) by blast
        then show ?thesis unfolding goal ad net_parts(2) [OF fin c(1)] using c(3) fe(2,3) sg by (auto simp: algebra_simps)
      next
        assume c: "?G \<subseteq> ?E" "vtail s g \<in> ?E" "vtail s f \<in> ?G \<longleftrightarrow> vtail s f \<in> ?E"
        have "vtail s g \<in> ?X \<longleftrightarrow> vtail s g \<notin> ?G" using c(2) by blast
        then show ?thesis unfolding goal ad net_parts(3) [OF fin c(1)] using c(3) fe(2,3) sg by (auto simp: algebra_simps)
      next
        assume c: "?G \<inter> ?E = {}" "vtail s g \<notin> ?E" "vtail s f \<in> ?G \<longleftrightarrow> vtail s f \<notin> ?E"
        have "vtail s g \<in> ?X \<longleftrightarrow> vtail s g \<in> ?G" using c(2) by blast
        then show ?thesis unfolding goal ad net_parts(1) [OF fin c(1)] using c(3) fe(2,3) sg by (auto simp: algebra_simps)
      qed
    qed
  qed
qed

end
