(* ===== verification/Ns_Update.thy ===== *)
theory Ns_Update
  imports Ns_Recut
begin

text \<open>
  The correctness of the pivot: \<open>update\<close> returns, the entering edge takes the place of the leaving one, the
  numbering and the cut values are those of the new tree, and the ranking stays feasible and gets no
  longer.
\<close>

section \<open>The run\<close>

lemma exchange_spec:
  assumes i: "0 \<le> e_tree_index (vedges s e)" "nat (e_tree_index (vedges s e)) < length (Tree_edge c)" and ef: "e \<noteq> f"
  shows "\<exists>s'. exchange_tree_edges e f (c, s) = Some (c\<lparr>Tree_edge := (Tree_edge c)[nat (e_tree_index (vedges s e)) := f]\<rparr>, s') \<and>
    exchanged e f {} s s' \<and> (\<forall>g. cutv s' g = cutv s g) \<and> (\<forall>n. v_rank (vnodes s' n) = v_rank (vnodes s n)) \<and>
    (\<forall>g. e_tree_index (vedges s' g) = (if g = e then -1 else if g = f then e_tree_index (vedges s e) else e_tree_index (vedges s g)))"
proof -
  define i where "i = e_tree_index (vedges s e)"
  define s1 where "s1 = upd_e e (\<lambda>x. x\<lparr>e_tree_index := -1\<rparr>) (upd_e f (\<lambda>x. x\<lparr>e_tree_index := i\<rparr>) s)"
  define s2 where "s2 = upd_v (vtail s1 e) (\<lambda>x. x\<lparr>v_tree_out := drop_edge e (v_tree_out x)\<rparr>) s1"
  define s3 where "s3 = upd_v (vhead s2 e) (\<lambda>x. x\<lparr>v_tree_in := drop_edge e (v_tree_in x)\<rparr>) s2"
  define s4 where "s4 = upd_v (vtail s3 f) (\<lambda>x. x\<lparr>v_tree_out := v_tree_out x @ [f]\<rparr>) s3"
  define s5 where "s5 = upd_v (vhead s4 f) (\<lambda>x. x\<lparr>v_tree_in := v_tree_in x @ [f]\<rparr>) s4"
  have run: "exchange_tree_edges e f (c, s) = Some (c\<lparr>Tree_edge := (Tree_edge c)[nat i := f]\<rparr>, s5)"
    using assms(1,2) unfolding exchange_tree_edges_def s5_def s4_def s3_def s2_def s1_def i_def by (simp add: Let_def)
  have ends: "vtail s1 g = vtail s g" "vhead s1 g = vhead s g" "vtail s2 g = vtail s g" "vhead s2 g = vhead s g"
    "vtail s3 g = vtail s g" "vhead s3 g = vhead s g" "vtail s4 g = vtail s g" "vhead s4 g = vhead s g" for g
    by (simp_all add: s1_def s2_def s3_def s4_def upd_v_def upd_e_def)
  have ed: "vedges s5 = vedges s1" by (simp add: s2_def s3_def s4_def s5_def upd_v_def)
  have vn: "vnodes s1 = vnodes s" by (simp add: s1_def upd_e_def)
  have gl: "nlist s5 = nlist s" "efresh s5 = efresh s" by (simp_all add: s1_def s2_def s3_def s4_def s5_def upd_v_def upd_e_def)
  have step: "vnodes (upd_v m h t) n = (if n = m then h (vnodes t n) else vnodes t n)" for m h t n by (simp add: upd_v_def)
  have to: "touts s5 n = (if n = vtail s e then drop_edge e (touts s n) else touts s n) @ (if n = vtail s f then [f] else [])" for n
    unfolding s5_def s4_def s3_def s2_def step if_distrib [where f = v_tree_out] by (simp add: ends vn)
  have ti: "tins s5 n = (if n = vhead s e then drop_edge e (tins s n) else tins s n) @ (if n = vhead s f then [f] else [])" for n
    unfolding s5_def s4_def s3_def s2_def step if_distrib [where f = v_tree_in] by (simp add: ends vn)
  have node: "outs s5 n = outs s n \<and> ins s5 n = ins s n \<and> v_par (vnodes s5 n) = v_par (vnodes s n) \<and>
        v_lim (vnodes s5 n) = v_lim (vnodes s n) \<and> v_low (vnodes s5 n) = v_low (vnodes s n) \<and> v_rank (vnodes s5 n) = v_rank (vnodes s n)" for n
    unfolding s5_def s4_def s3_def s2_def by (simp add: upd_v_def vn)
  have v: "vedges s5 g = (if g = e then (vedges s g)\<lparr>e_tree_index := -1\<rparr> else if g = f then (vedges s g)\<lparr>e_tree_index := i\<rparr> else vedges s g)" for g
    unfolding ed s1_def using ef by (simp add: upd_e_def)
  have ix: "e_tree_index (vedges s5 g) = (if g = e then -1 else if g = f then i else e_tree_index (vedges s g))" for g
    unfolding v by simp
  have edge: "vtail s5 g = vtail s g \<and> vhead s5 g = vhead s g \<and> e_weight (vedges s5 g) = e_weight (vedges s g) \<and>
        e_minlen (vedges s5 g) = e_minlen (vedges s g) \<and> e_to_virt (vedges s5 g) = e_to_virt (vedges s g) \<and> cutv s5 g = cutv s g \<and>
        TREE_EDGE s5 g = (g \<noteq> e \<and> (g = f \<or> TREE_EDGE s g))" for g
  proof -
    have "0 \<le> i" using assms(1) by (simp add: i_def)
    then show ?thesis unfolding TREE_EDGE_def v by simp
  qed
  have "exchanged e f {} s s5" unfolding exchanged_def using gl node edge to ti by simp
  with run node edge ix show ?thesis unfolding i_def by blast
qed

lemma exchanged_after:
  assumes ex: "exchanged e f {} s1 s2" and same: "\<And>n. vnodes s1 n = vnodes (unlow B s) n" "nlist s1 = nlist s" "efresh s1 = efresh s"
      "\<And>g. \<exists>c. vedges s1 g = (vedges s g)\<lparr>e_cutvalue := c\<rparr>"
  shows "exchanged e f B s s2"
proof -
  have e: "vtail s1 g = vtail s g \<and> vhead s1 g = vhead s g \<and> e_weight (vedges s1 g) = e_weight (vedges s g) \<and>
        e_minlen (vedges s1 g) = e_minlen (vedges s g) \<and> e_to_virt (vedges s1 g) = e_to_virt (vedges s g) \<and> TREE_EDGE s1 g = TREE_EDGE s g" for g
  proof -
    obtain c where "vedges s1 g = (vedges s g)\<lparr>e_cutvalue := c\<rparr>" using same(4) by blast
    then show ?thesis by (simp add: TREE_EDGE_def)
  qed
  note x = exchangedD [OF ex]
  have node: "vnodes s1 n = vnodes (unlow B s) n" for n by (rule same(1))
  have "outs s2 n = outs s n \<and> ins s2 n = ins s n \<and> v_par (vnodes s2 n) = v_par (vnodes s n) \<and>
        v_lim (vnodes s2 n) = v_lim (vnodes s n) \<and> v_low (vnodes s2 n) = (if n \<in> B then -1 else v_low (vnodes s n))" for n
    by (simp add: x(3-7) node)
  moreover have "touts s2 n = (if n = vtail s e then drop_edge e (touts s n) else touts s n) @ (if n = vtail s f then [f] else []) \<and>
        tins s2 n = (if n = vhead s e then drop_edge e (tins s n) else tins s n) @ (if n = vhead s f then [f] else [])" for n
    unfolding x(8,9) node using e [of e] e [of f] by simp
  moreover have "vtail s2 g = vtail s g \<and> vhead s2 g = vhead s g \<and> e_weight (vedges s2 g) = e_weight (vedges s g) \<and>
        e_minlen (vedges s2 g) = e_minlen (vedges s g) \<and> e_to_virt (vedges s2 g) = e_to_virt (vedges s g) \<and>
        TREE_EDGE s2 g = (g \<noteq> e \<and> (g = f \<or> TREE_EDGE s g))" for g
    unfolding x(10-15) using e [of g] by simp
  ultimately show ?thesis using x(1,2) same(2,3) unfolding exchanged_def by simp
qed

lemma same_length:
  assumes "\<And>g. fast s' g = fast s g" and "\<And>g. vtail s' g = vtail s g" and "\<And>g. e_weight (vedges s' g) = e_weight (vedges s g)"
    and "\<And>g. e_minlen (vedges s' g) = e_minlen (vedges s g)" and "\<And>g. SLACK s' g = SLACK s g"
  shows "total_length V s' = total_length V s"
  by (simp add: total_length_def length_slack assms)

text \<open>What stays of the state, and which edges are tree edges.\<close>

definition swapped :: "nat \<Rightarrow> nat \<Rightarrow> fgraph \<Rightarrow> fgraph \<Rightarrow> bool" where
  "swapped e f s s' \<longleftrightarrow> nlist s' = nlist s \<and> (\<forall>n. outs s' n = outs s n \<and> ins s' n = ins s n) \<and>
     (\<forall>g. vtail s' g = vtail s g \<and> vhead s' g = vhead s g \<and> e_weight (vedges s' g) = e_weight (vedges s g) \<and>
        e_minlen (vedges s' g) = e_minlen (vedges s g) \<and> TREE_EDGE s' g = (g \<noteq> e \<and> (g = f \<or> TREE_EDGE s g)))"

lemma update_run:
  assumes sw: "swappable T s e f" and k: "length (gnodes T) \<le> k" and old: "\<And>g. g \<in> set (tedges T) \<Longrightarrow> cut_right T s g"
    and i: "0 \<le> e_tree_index (vedges s e)" "nat (e_tree_index (vedges s e)) < length (Tree_edge c)"
  shows "\<exists>A d T' s'. update k e f (c, s) = Some (0, c\<lparr>Tree_edge := (Tree_edge c)[nat (e_tree_index (vedges s e)) := f]\<rparr>, s') \<and>
    rerank_side k e (SLACK s f) s = Some (shift A d s) \<and> numbered_tree T' s' \<and> groot T' = groot T \<and> mset (gnodes T') = mset (gnodes T) \<and>
    swapped e f s s' \<and> (\<forall>g. fast s' g = fast s g \<and> SLACK s' g = SLACK (shift A d s) g) \<and> (\<forall>g\<in>set (tedges T'). cut_right T' s' g) \<and>
    (\<forall>g. e_tree_index (vedges s' g) = (if g = e then -1 else if g = f then e_tree_index (vedges s e) else e_tree_index (vedges s g)))"
proof -
  note nt = swappableD(1) [OF sw] and e = swappableD(2) [OF sw]
  from rerank_side_spec [OF nt e k] obtain A d where ra: "rerank_side k e (SLACK s f) s = Some (shift A d s)" by blast
  define s1 where "s1 = shift A d s"
  have al1: "alike s s1" unfolding s1_def by (rule shift_alike)
  have nt1: "numbered_tree T s1" using nt alike_tree(5) [OF al1] by simp
  have cv1: "cutv s1 g = cutv s g" for g by (simp add: s1_def shift_def)
  let ?v = "vtail s f" and ?w = "vhead s f" and ?c = "cutv s e"
  note vw = swappableD(5,6) [OF sw]
  from treeupdate_spec [OF nt1 vw fuel_enough [OF nt1 vw(1) k], of ?c True] obtain a where
    a: "treeupdate k ?v ?w ?c True s1 = Some (a, add_cut (turn T s1 ?v ?w True ?c) s1)" "lowest T s1 ?v ?w a" by blast
  define s2 where "s2 = add_cut (turn T s1 ?v ?w True ?c) s1"
  have al2: "alike s s2" unfolding s2_def by (rule alike_trans [OF al1 add_cut_alike])
  have nt2: "numbered_tree T s2" using nt alike_tree(5) [OF al2] by simp
  from treeupdate_spec [OF nt2 vw(2,1) fuel_enough [OF nt2 vw(2) k], of ?c False] obtain b where
    b: "treeupdate k ?w ?v ?c False s2 = Some (b, add_cut (turn T s2 ?w ?v False ?c) s2)" "lowest T s2 ?w ?v b" by blast
  define s3 where "s3 = add_cut (turn T s2 ?w ?v False ?c) s2"
  have al3: "alike s s3" unfolding s3_def by (rule alike_trans [OF al2 add_cut_alike])
  have nt3: "numbered_tree T s3" using nt alike_tree(5) [OF al3] by simp
  have lows: "lowest T s' v w x = lowest T s v w x" if "alike s s'" for s' v w x by (simp add: lowest_def alike_tree(6) [OF that])
  have low: "lowest T s ?v ?w a" "lowest T s ?w ?v b" using a(2) b(2) lows [OF al1] lows [OF al2] by blast+
  have ab: "b = a" using lowest_unique [OF nt low] by simp
  have low3: "lowest T s3 (vtail s3 f) (vhead s3 f) a" using low(1) lows [OF al3] alikeD(10,11) [OF al3] by simp
  have cv3: "cutv s3 g = cutv s g + added T s f ?c g" for g
    unfolding s3_def s2_def add_cut_cutv added_def alike_turn [OF al1] alike_turn [OF al2 [unfolded s2_def]] by (simp add: cv1)
  have rk3: "v_rank (vnodes s3 n) = v_rank (vnodes s1 n)" for n by (simp add: s3_def s2_def)
  have ad: "a \<in> set (gnodes T)" "?w \<in> desc T s3 a" "?v \<in> desc T s3 a" using low(1) by (simp_all add: lowest_def alike_tree(6) [OF al3])
  let ?B1 = "chain T s3 a ?w" and ?B = "marked T s3 f a"
  have inv1: "invalidate_path k a ?w s3 = Some (unlow ?B1 s3)"
    using invalidate_spec [OF nt3 ad(1,2) _ fuel_enough [OF nt3 vw(2) k], of "{}"] by simp
  have dis: "(chain T s3 a ?v - {a}) \<inter> ?B1 = {}"
  proof (rule ccontr)
    assume "(chain T s3 a ?v - {a}) \<inter> ?B1 \<noteq> {}"
    then obtain u where u: "u \<in> desc T s3 a" "u \<noteq> a" "?v \<in> desc T s3 u" "?w \<in> desc T s3 u" by (auto simp: chain_def)
    then have uT: "u \<in> set (gnodes T)" by (simp add: desc_def)
    have "a \<in> desc T s3 u" using low3 u(3,4) uT unfolding lowest_def alikeD(10,11) [OF al3] by blast
    from desc_antisym [OF nt3 this u(1)] u(2) show False by simp
  qed
  have inv2: "invalidate_path k a ?v (unlow ?B1 s3) = Some (unlow ?B s3)"
    using invalidate_spec [OF nt3 ad(1,3) dis fuel_enough [OF nt3 vw(1) k]] unfolding marked_def alikeD(10,11) [OF al3] .
  define s6 where "s6 = upd_e e (\<lambda>x. x\<lparr>e_cutvalue := 0\<rparr>) (upd_e f (\<lambda>x. x\<lparr>e_cutvalue := - ?c\<rparr>) (unlow ?B s3))"
  have ix: "e_tree_index (vedges s6 e) = e_tree_index (vedges s e)"
    using alikeD(14) [OF al3, of e] swappableD(9) [OF sw] by (simp add: s6_def upd_e_def unlow_def)
  from exchange_spec [of s6 e c f] i swappableD(9) [OF sw] obtain s7 where
    s7: "exchange_tree_edges e f (c, s6) = Some (c\<lparr>Tree_edge := (Tree_edge c)[nat (e_tree_index (vedges s e)) := f]\<rparr>, s7)"
      "exchanged e f {} s6 s7" "\<forall>g. cutv s7 g = cutv s6 g" "\<forall>n. v_rank (vnodes s7 n) = v_rank (vnodes s6 n)"
      "\<forall>g. e_tree_index (vedges s7 g) = (if g = e then -1 else if g = f then e_tree_index (vedges s e) else e_tree_index (vedges s6 g))"
    unfolding ix by blast
  have ex: "exchanged e f ?B s3 s7"
  proof (rule exchanged_after [OF s7(2)])
    show "vnodes s6 n = vnodes (unlow ?B s3) n" for n by (simp add: s6_def upd_e_def)
    show "nlist s6 = nlist s3" "efresh s6 = efresh s3" by (simp_all add: s6_def upd_e_def unlow_def)
    show "\<exists>c. vedges s6 g = (vedges s3 g)\<lparr>e_cutvalue := c\<rparr>" for g
    proof -
      have "vedges s6 g = (vedges s3 g)\<lparr>e_cutvalue := (if g = e then 0 else if g = f then - ?c else cutv s3 g)\<rparr>"
        by (simp add: s6_def upd_e_def unlow_def)
      then show ?thesis by blast
    qed
  qed
  have sw3: "swappable T s3 e f"
    using sw nt3 unfolding swappable_def alike_edges [OF al3] alikeD(10,11) [OF al3] alike_tree(7) [OF al3] by blast
  from new_tree [OF sw3 low3 ex] obtain T' l s8 where
    s8: "dfs_range a (v_par (vnodes s7 a)) (v_low (vnodes s3 a)) s7 = Some (l, s8)" "numbered_tree T' s8" "groot T' = groot T"
      "mset (gnodes T') = mset (gnodes T)" "renum (set (gnodes T)) s7 s8" by blast
  have run: "update k e f (c, s) = Some (0, c\<lparr>Tree_edge := (Tree_edge c)[nat (e_tree_index (vedges s e)) := f]\<rparr>, s8)"
    unfolding update_def prod.case ra [folded s1_def] option.case Let_def cv1 alikeD(10,11) [OF al1] a(1) [folded s2_def] alikeD(10,11) [OF al2]
      b(1) [folded s3_def] ab alikeD(10,11) [OF al3] inv1
    using inv2 s7(1) s8(1) by (simp add: alikeD(10,11) [OF al3] s6_def [symmetric])
  note rn = renumD [OF s8(5)] and xd = exchangedD [OF ex] and rs = renum_spanning [OF s8(5)]
  have cv8: "cutv s8 f = - ?c" "\<And>g. g \<noteq> e \<Longrightarrow> g \<noteq> f \<Longrightarrow> cutv s8 g = cutv s g + added T s f ?c g"
    using s7(3) swappableD(9) [OF sw] cv3 by (auto simp: rn s6_def upd_e_def unlow_def)
  have ends8: "vtail s8 g = vtail s g" "vhead s8 g = vhead s g" "e_weight (vedges s8 g) = e_weight (vedges s g)"
    "e_minlen (vedges s8 g) = e_minlen (vedges s g)" "fast s8 g = fast s g"
    "TREE_EDGE s8 g = (g \<noteq> e \<and> (g = f \<or> TREE_EDGE s g))" for g
    by (simp_all add: rn rs xd exchanged_edges [OF ex] alikeD [OF al3] alike_edges [OF al3])
  have lists8: "outs s8 n = outs s n" "ins s8 n = ins s n" "nlist s8 = nlist s" for n
    by (simp_all add: rn xd alikeD [OF al3])
  have rank8: "v_rank (vnodes s8 n) = v_rank (vnodes s1 n)" for n
    using rn(9) [of n] s7(4) by (simp add: s6_def upd_e_def unlow_def rk3)
  have net: "net_weight s8 S = net_weight s S" for S unfolding net_weight_def by (simp add: ends8 lists8)
  have slack: "SLACK s8 g = SLACK s1 g" for g
    using alikeD(10,11,13) [OF al1] by (simp add: SLACK_def LENGTH_e_def ends8 rank8)
  have "swapped e f s s8" unfolding swapped_def using ends8 lists8 by simp
  moreover have "\<forall>g\<in>set (tedges T'). cut_right T' s8 g"
    using new_cut [OF sw old s8(2) mset_eq_setD [OF s8(4)] ends8(5,1,2,6) net cv8] by blast
  moreover have "e_tree_index (vedges s6 g) = e_tree_index (vedges s g)" for g
    by (simp add: s6_def upd_e_def unlow_def alikeD(14) [OF al3])
  then have "\<forall>g. e_tree_index (vedges s8 g) = (if g = e then -1 else if g = f then e_tree_index (vedges s e) else e_tree_index (vedges s g))"
    using s7(5) unfolding rn(1) by simp
  ultimately show ?thesis using run ra s8(2-4) ends8(5) slack [unfolded s1_def] by blast
qed


section \<open>One pivot\<close>

definition tight_tree :: "gtree \<Rightarrow> fgraph \<Rightarrow> bool" where
  "tight_tree T s \<longleftrightarrow> (\<forall>g\<in>set (tedges T). SLACK s g = 0)"

text \<open>The state of the loop of \<open>rank2\<close> between two pivots.\<close>

definition simplex_state :: "gtree \<Rightarrow> ctx \<Rightarrow> fgraph \<Rightarrow> bool" where
  "simplex_state T c s \<longleftrightarrow> numbered_tree T s \<and> (\<forall>g\<in>set (tedges T). cut_good T s g) \<and> feasible (set (gnodes T)) s \<and>
     set (Tree_edge c) = set (tedges T) \<and> S_i c \<le> length (Tree_edge c) \<and>
     (\<forall>i<length (Tree_edge c). e_tree_index (vedges s (Tree_edge c ! i)) = int i)"

lemma simplex_stateD:
  assumes "simplex_state T c s"
  shows "numbered_tree T s" and "g \<in> set (tedges T) \<Longrightarrow> cut_right T s g" and "feasible (set (gnodes T)) s"
    and "set (Tree_edge c) = set (tedges T)" and "S_i c \<le> length (Tree_edge c)"
    and "i < length (Tree_edge c) \<Longrightarrow> e_tree_index (vedges s (Tree_edge c ! i)) = int i"
  using assms cut_good_right by (auto simp: simplex_state_def)

text \<open>The leaving edge is the only tree edge at the root.\<close>

definition leaf_root :: "gtree \<Rightarrow> fgraph \<Rightarrow> nat \<Rightarrow> bool" where
  "leaf_root T s e \<longleftrightarrow> tree_degree s (groot T) = 1 \<and> (vtail s e = groot T \<or> vhead s e = groot T)"

lemma tedges_set: "numbered_tree T s \<Longrightarrow> g \<in> set (tedges T) \<longleftrightarrow> fast s g \<and> TREE_EDGE s g \<and> vtail s g \<in> set (gnodes T)"
  using tree_edge_listed [OF numbered_treeD(1,2)] tree_edgeD(1-3) by blast

lemma shifted_slack:
  assumes nt: "numbered_tree T s" and e: "e \<in> set (tedges T)" and k: "length (gnodes T) \<le> k" and d: "0 \<le> delta"
    and run: "rerank_side k e delta s = Some s'" and cut: "cut_right T s e"
  shows "(\<forall>g. fast s g \<longrightarrow> vtail s g \<in> set (gnodes T) \<longrightarrow>
      SLACK s' g = SLACK s g + (if vtail s g \<in> tail_side T s e then delta else 0) - (if vhead s g \<in> tail_side T s e then delta else 0)) \<and>
      total_length (set (gnodes T)) s' = total_length (set (gnodes T)) s + delta * cutv s e \<or>
    leaf_root T s e \<and> (\<forall>g. fast s g \<longrightarrow> vtail s g \<in> set (gnodes T) \<longrightarrow> SLACK s' g = SLACK s g) \<and>
      total_length (set (gnodes T)) s' = total_length (set (gnodes T)) s"
proof -
  let ?V = "set (gnodes T)"
  from rerank_side_spec [OF nt e k, of delta] run obtain A d where s': "s' = shift A d s" and
    "delta \<le> 0 \<and> A = {} \<or> A = desc T s (child_end s e) \<and> d = (if child_end s e = vtail s e then delta else - delta) \<or>
     A = ?V \<and> tree_degree s (groot T) = 1 \<and> (vtail s e = groot T \<or> vhead s e = groot T)" by auto
  then show ?thesis
  proof (elim disjE)
    assume "delta \<le> 0 \<and> A = {}"
    then have "delta = 0" "s' = s" using assms(4) s' by simp_all
    then show ?thesis by simp
  next
    assume "A = desc T s (child_end s e) \<and> d = (if child_end s e = vtail s e then delta else - delta)"
    then have A: "A = desc T s (child_end s e)" and dd: "d = (if child_end s e = vtail s e then delta else - delta)" by blast+
    have "cutv s e = cut_weight s (tail_side T s e)" using cut by (simp add: cut_right_def)
    with side_slack [OF nt _ _ dd] side_length [OF nt e dd] show ?thesis unfolding s' A by auto
  next
    assume "A = ?V \<and> tree_degree s (groot T) = 1 \<and> (vtail s e = groot T \<or> vhead s e = groot T)"
    then show ?thesis using whole_shift [OF nt] unfolding s' leaf_root_def by auto
  qed
qed

lemma indexes_swapped:
  assumes ix: "\<And>i. i < length L \<Longrightarrow> t (L ! i) = int i" and e: "e \<in> set L" and f: "f \<notin> set L"
    and t': "\<And>g. t' g = (if g = e then -1 else if g = f then t e else t g)"
  shows "0 \<le> t e \<and> nat (t e) < length L \<and> set (L[nat (t e) := f]) = insert f (set L - {e}) \<and>
    (\<forall>i<length (L[nat (t e) := f]). t' (L[nat (t e) := f] ! i) = int i)"
proof -
  obtain j where j: "j < length L" "L ! j = e" using e by (auto simp: in_set_conv_nth)
  then have te: "t e = int j" using ix by blast
  have inj: "i = j" if "i < length L" "L ! i = e" for i using ix [OF that(1)] that(2) te by simp
  have d: "distinct L" unfolding distinct_conv_nth
  proof (intro allI impI)
    fix a b assume "a < length L" "b < length L" "a \<noteq> b"
    then show "L ! a \<noteq> L ! b" using ix [of a] ix [of b] by auto
  qed
  have "t' (L[j := f] ! i) = int i" if i: "i < length L" for i
  proof (cases "i = j")
    case True
    then show ?thesis using j f e te t' by auto
  next
    case False
    have "L ! i \<noteq> e" "L ! i \<noteq> f" using inj [OF i] False f i by auto
    then show ?thesis using False ix [OF i] t' by simp
  qed
  moreover have "set (L[j := f]) = insert f (set L - {e})" using set_update_distinct [OF d j(1)] j(2) by simp
  ultimately show ?thesis using te j(1) by simp
qed


lemma negative_crosses:
  assumes "\<forall>g. fast s g \<longrightarrow> 0 \<le> e_weight (vedges s g)" and "cut_weight s S < 0"
  shows "\<exists>g. fast s g \<and> vtail s g \<notin> S \<and> vhead s g \<in> S"
proof (rule ccontr)
  assume "\<not> (\<exists>g. fast s g \<and> vtail s g \<notin> S \<and> vhead s g \<in> S)"
  then have none: "{g. fast s g \<and> vtail s g \<notin> S \<and> vhead s g \<in> S} = {}" by blast
  have "0 \<le> (\<Sum>g | fast s g \<and> vtail s g \<in> S \<and> vhead s g \<notin> S. e_weight (vedges s g))"
    by (rule sum_nonneg) (use assms(1) in blast)
  then show False using assms(2) unfolding cut_weight_def none by simp
qed

lemma pivot_step:
  assumes st: "simplex_state T c s" and e: "e \<in> set (Tree_edge c)" "cutv s e < 0" and k: "length (gnodes T) < k"
  shows "\<exists>f c' s' T'. enter_edge k s e = Some (Some f) \<and> update k e f (c, s) = Some (0, c', s') \<and> simplex_state T' c' s' \<and>
    groot T' = groot T \<and> mset (gnodes T') = mset (gnodes T) \<and> swapped e f s s' \<and> fast s f \<and> \<not> TREE_EDGE s f \<and> (\<forall>g. fast s' g = fast s g) \<and>
    total_length (set (gnodes T)) s' \<le> total_length (set (gnodes T)) s \<and>
    (\<not> leaf_root T s e \<longrightarrow> total_length (set (gnodes T)) s' = total_length (set (gnodes T)) s + SLACK s f * cutv s e \<and>
       (tight_tree T s \<longrightarrow> tight_tree T' s'))"
proof -
  note sd = simplex_stateD [OF st]
  note nt = sd(1) note env = numbered_treeD(1,2) [OF nt] and sp = numbered_treeD(3) [OF nt]
  let ?V = "set (gnodes T)"
  have eT: "e \<in> set (tedges T)" using e(1) sd(4) by simp
  note te = tree_edgeD [OF nt eT] and sc = side_cut [OF nt eT]
  let ?S = "tail_side T s e"
  have cl: "vtail s g \<in> ?V \<longleftrightarrow> vhead s g \<in> ?V" if "fast s g" for g using spanningD(3) [OF sp] that by (simp add: closed_on_def)
  from enter_edge_correct [OF env sd(3) te(1-3) k] obtain S r where
    S: "S \<subseteq> ?V" "tree_cut s S e" "enter_edge k s e = Some r"
      "case r of None \<Rightarrow> \<not> (\<exists>g. fast s g \<and> vtail s g \<in> ?V \<and> vtail s g \<notin> S \<and> vhead s g \<in> S)
       | Some f \<Rightarrow> fast s f \<and> \<not> TREE_EDGE s f \<and> vtail s f \<notin> S \<and> vhead s f \<in> S \<and>
         (\<forall>g. fast s g \<and> vtail s g \<notin> S \<and> vhead s g \<in> S \<longrightarrow> SLACK s f \<le> SLACK s g)" by blast
  have SS: "S = ?S" by (rule tree_cut_unique [OF nt S(2) sc(1) S(1) sc(2) eT])
  have w: "\<forall>g. fast s g \<longrightarrow> 0 \<le> e_weight (vedges s g)" using cut_envD(3) [OF env(1)] by blast
  have ce: "cutv s e = cut_weight s ?S" using sd(2) [OF eT] by (simp add: cut_right_def)
  obtain g where g: "fast s g" "vtail s g \<notin> ?S" "vhead s g \<in> ?S" using negative_crosses [OF w] e(2) ce by metis
  have "vtail s g \<in> ?V" using cl [OF g(1)] g(3) sc(2) by blast
  then have "r \<noteq> None" using S(4) g unfolding SS by (cases r) auto
  then obtain f where r: "r = Some f" by blast
  have f: "fast s f" "\<not> TREE_EDGE s f" "vtail s f \<notin> ?S" "vhead s f \<in> ?S"
    "\<And>g. fast s g \<Longrightarrow> vtail s g \<notin> ?S \<Longrightarrow> vhead s g \<in> ?S \<Longrightarrow> SLACK s f \<le> SLACK s g"
    using S(4) unfolding r SS by auto
  have fV: "vtail s f \<in> ?V" using cl [OF f(1)] f(4) sc(2) by blast
  have sw: "swappable T s e f" unfolding swappable_def using nt eT f(1-4) fV by blast
  have f0: "0 \<le> SLACK s f" using sd(3) f(1) fV by (simp add: feasible_def)
  have fL: "f \<notin> set (Tree_edge c)" using sd(4) f(2) tree_edgeD(2) [OF nt] by blast
  define t where "t g = e_tree_index (vedges s g)" for g
  define t' where "t' g = (if g = e then -1 else if g = f then t e else t g)" for g
  have ixs: "0 \<le> t e \<and> nat (t e) < length (Tree_edge c) \<and> set ((Tree_edge c)[nat (t e) := f]) = insert f (set (Tree_edge c) - {e}) \<and>
    (\<forall>i<length ((Tree_edge c)[nat (t e) := f]). t' ((Tree_edge c)[nat (t e) := f] ! i) = int i)"
    by (rule indexes_swapped [OF _ e(1) fL t'_def]) (simp add: t_def sd(6))
  have kk: "length (gnodes T) \<le> k" using k by simp
  from update_run [OF sw kk sd(2)] ixs [unfolded t_def] obtain A d T' s' where
    u: "update k e f (c, s) = Some (0, c\<lparr>Tree_edge := (Tree_edge c)[nat (e_tree_index (vedges s e)) := f]\<rparr>, s')"
      "rerank_side k e (SLACK s f) s = Some (shift A d s)" "numbered_tree T' s'" "groot T' = groot T" "mset (gnodes T') = mset (gnodes T)"
      "swapped e f s s'" "\<forall>g. fast s' g = fast s g \<and> SLACK s' g = SLACK (shift A d s) g" "\<forall>g\<in>set (tedges T'). cut_right T' s' g"
      "\<forall>g. e_tree_index (vedges s' g) = (if g = e then -1 else if g = f then e_tree_index (vedges s e) else e_tree_index (vedges s g))"
    by blast
  let ?c = "c\<lparr>Tree_edge := (Tree_edge c)[nat (e_tree_index (vedges s e)) := f]\<rparr>"
  have V': "set (gnodes T') = ?V" by (rule mset_eq_setD [OF u(5)])
  have same: "vtail s' g = vtail s g" "vhead s' g = vhead s g" "e_weight (vedges s' g) = e_weight (vedges s g)"
    "e_minlen (vedges s' g) = e_minlen (vedges s g)" "TREE_EDGE s' g \<longleftrightarrow> g \<noteq> e \<and> (g = f \<or> TREE_EDGE s g)" "fast s' g = fast s g" for g
    using u(6,7) by (simp_all add: swapped_def)
  have tset: "set (tedges T') = insert f (set (tedges T) - {e})"
    using tedges_set [OF nt] tedges_set [OF u(3)] f(1) fV te(2) f(2) unfolding same V' by blast
  have len: "total_length ?V s' = total_length ?V (shift A d s)"
  proof -
    note al = shift_alike [of s A d]
    show ?thesis
      by (rule same_length) (use u(7) in \<open>simp_all add: same alike_edges [OF al] alikeD [OF al]\<close>)
  qed
  have cross: "(vtail s g \<in> ?S) = (vhead s g \<in> ?S)" if "g \<in> set (tedges T)" "g \<noteq> e" for g
    using sc(1) tree_edgeD(1,2) [OF nt that(1)] that(2) unfolding tree_cut_def by blast
  have move: "feasible ?V s' \<and> total_length ?V s' \<le> total_length ?V s \<and>
    (\<not> leaf_root T s e \<longrightarrow> total_length ?V s' = total_length ?V s + SLACK s f * cutv s e \<and> (tight_tree T s \<longrightarrow> tight_tree T' s'))"
    using shifted_slack [OF nt eT kk f0 u(2) sd(2) [OF eT]]
  proof (elim disjE conjE)
    assume sl: "\<forall>g. fast s g \<longrightarrow> vtail s g \<in> ?V \<longrightarrow> SLACK (shift A d s) g =
        SLACK s g + (if vtail s g \<in> ?S then SLACK s f else 0) - (if vhead s g \<in> ?S then SLACK s f else 0)"
      and tl: "total_length ?V (shift A d s) = total_length ?V s + SLACK s f * cutv s e"
    have new: "SLACK s' g = SLACK s g + (if vtail s g \<in> ?S then SLACK s f else 0) - (if vhead s g \<in> ?S then SLACK s f else 0)"
      if "fast s g" "vtail s g \<in> ?V" for g using u(7) sl that by simp
    have "feasible ?V s'" unfolding feasible_def same
    proof (intro allI impI)
      fix g assume g: "fast s g" "vtail s g \<in> ?V"
      have "0 \<le> SLACK s g" using sd(3) g by (simp add: feasible_def)
      then show "0 \<le> SLACK s' g" unfolding new [OF g] using f(5) [OF g(1)] f0 by auto
    qed
    moreover have "SLACK s f * cutv s e \<le> 0" using f0 e(2) by (intro mult_nonneg_nonpos) auto
    moreover have "tight_tree T' s'" if "tight_tree T s"
      unfolding tight_tree_def tset
    proof
      fix g assume "g \<in> insert f (set (tedges T) - {e})"
      then show "SLACK s' g = 0"
      proof
        assume "g = f"
        then show ?thesis using new [OF f(1) fV] f(3,4) by simp
      next
        assume "g \<in> set (tedges T) - {e}"
        then have g: "g \<in> set (tedges T)" "g \<noteq> e" by simp_all
        then show ?thesis using new [OF tree_edgeD(1,3) [OF nt g(1)]] cross [OF g] \<open>tight_tree T s\<close> by (simp add: tight_tree_def)
      qed
    qed
    ultimately show ?thesis using tl len by simp
  next
    assume lr: "leaf_root T s e" and sl: "\<forall>g. fast s g \<longrightarrow> vtail s g \<in> ?V \<longrightarrow> SLACK (shift A d s) g = SLACK s g"
      and tl: "total_length ?V (shift A d s) = total_length ?V s"
    have "feasible ?V s'" using sd(3) sl u(7) unfolding feasible_def same by simp
    then show ?thesis using lr tl len by simp
  qed
  have "simplex_state T' ?c s'"
    unfolding simplex_state_def V'
  proof (intro conjI)
    show "numbered_tree T' s'" by (rule u(3))
    show "\<forall>g\<in>set (tedges T'). cut_good T' s' g" using u(8) cut_good_right [OF u(3)] by blast
    show "feasible ?V s'" using move by blast
    show "set (Tree_edge ?c) = set (tedges T')" using ixs unfolding t_def tset sd(4) [symmetric] by simp
    show "S_i ?c \<le> length (Tree_edge ?c)" using sd(5) by simp
    show "\<forall>i<length (Tree_edge ?c). e_tree_index (vedges s' (Tree_edge ?c ! i)) = int i"
      using ixs u(9) unfolding t'_def t_def by simp
  qed
  with S(3) r u(1,4-7) f(1,2) move show ?thesis by blast
qed

end
