(* ===== verification/Ns_Tight.thy ===== *)
theory Ns_Tight
  imports Ns_Pivot
begin

text \<open>
  The initial tight tree of the network simplex and its main loop (\<open>lib/common/ns.c\<close>). The subtrees
  (\<open>subtree_t\<close>) are cells of a store of their own; as in the code, a node points to its subtree through
  the field of its parent edge. Recursion takes fuel.
\<close>

section \<open>Subtrees\<close>

text \<open>A \<open>heap_index\<close> of \<open>None\<close> is \<open>SIZE_MAX\<close>: the subtree is not on the heap.\<close>

record subtree =
  rep :: nat
  st_size :: int
  heap_index :: "nat option"
  st_par :: "nat option"

type_synonym subtrees = "nat \<Rightarrow> subtree"

abbreviation ND_subtree :: "fgraph \<Rightarrow> nat \<Rightarrow> nat option" where
  "ND_subtree s n \<equiv> v_par (vnodes s n)"

definition ND_subtree_set :: "nat \<Rightarrow> nat option \<Rightarrow> fgraph \<Rightarrow> fgraph" where
  "ND_subtree_set n v = upd_v n (\<lambda>x. x\<lparr>v_par := v\<rparr>)"

definition on_heap :: "subtree \<Rightarrow> bool" where
  "on_heap t \<longleftrightarrow> heap_index t \<noteq> None"

definition new_subtree :: "nat \<Rightarrow> subtree" where
  "new_subtree v = \<lparr>rep = v, st_size = 0, heap_index = Some 0, st_par = None\<rparr>"

section \<open>Tight subtrees\<close>

record tst =
  t_v :: nat
  in_i :: nat
  out_i :: nat
  t_rv :: int

text \<open>
  The first edge from the index \<open>i\<close> on that is tight and leads to a node without a subtree; \<open>inn\<close> says
  that the edges are the in-edges.
\<close>

primrec tight_edge :: "bool \<Rightarrow> fgraph \<Rightarrow> nat list \<Rightarrow> nat \<Rightarrow> nat \<times> nat option" where
  "tight_edge inn s [] i = (i, None)"
| "tight_edge inn s (e # es) i =
    (if \<not> TREE_EDGE s e \<and> ND_subtree s (if inn then vtail s e else vhead s e) = None \<and> SLACK s e = 0
     then (i, Some e) else tight_edge inn s es (Suc i))"

definition add_rv :: "int \<Rightarrow> tst list \<Rightarrow> tst list" where
  "add_rv d todo = (case todo of [] \<Rightarrow> [] | t # ts \<Rightarrow> t\<lparr>t_rv := t_rv t + d\<rparr> # ts)"

text \<open>A tight edge is found: it joins the tree and its end \<open>w\<close> is searched next, unless \<open>add_tree_edge\<close> fails.\<close>

definition take_edge :: "nat \<Rightarrow> nat \<Rightarrow> nat \<Rightarrow> tst list \<Rightarrow> int \<Rightarrow> ctx \<times> fgraph \<Rightarrow> tst list \<times> int \<times> ctx \<times> fgraph" where
  "take_edge st e w todo rv cs =
    (let (ok, c, s) = add_tree_edge e cs in
     if ok then (\<lparr>t_v = w, in_i = 0, out_i = 0, t_rv = 1\<rparr> # todo, rv, c, ND_subtree_set w (Some st) s)
     else (add_rv (-1) (tl todo), if tl todo = [] then -1 else rv, c, s))"

primrec tight_loop :: "nat \<Rightarrow> nat \<Rightarrow> tst list \<Rightarrow> int \<Rightarrow> ctx \<times> fgraph \<Rightarrow> (int \<times> ctx \<times> fgraph) option" where
  "tight_loop 0 st todo rv cs = None"
| "tight_loop (Suc k) st todo rv cs =
    (case todo of
       [] \<Rightarrow> Some (rv, cs)
     | x # rest \<Rightarrow>
         (case tight_edge True (snd cs) (drop (in_i x) (ins (snd cs) (t_v x))) (in_i x) of
            (i, Some e) \<Rightarrow>
              (let (todo1, rv1, cs1) = take_edge st e (vtail (snd cs) e) (x\<lparr>in_i := i\<rparr> # rest) rv cs
               in tight_loop k st todo1 rv1 cs1)
          | (i, None) \<Rightarrow>
              (case tight_edge False (snd cs) (drop (out_i x) (outs (snd cs) (t_v x))) (out_i x) of
                 (j, Some e) \<Rightarrow>
                   (let (todo1, rv1, cs1) = take_edge st e (vhead (snd cs) e) (x\<lparr>in_i := i, out_i := j\<rparr> # rest) rv cs
                    in tight_loop k st todo1 rv1 cs1)
               | (j, None) \<Rightarrow>
                   tight_loop k st (add_rv (t_rv x) rest) (if rest = [] then t_rv x else rv) cs)))"

definition tight_subtree_search :: "nat \<Rightarrow> nat \<Rightarrow> nat \<Rightarrow> ctx \<times> fgraph \<Rightarrow> (int \<times> ctx \<times> fgraph) option" where
  "tight_subtree_search k v st cs =
    tight_loop k st [\<lparr>t_v = v, in_i = 0, out_i = 0, t_rv = 1\<rparr>] 1 (fst cs, ND_subtree_set v (Some st) (snd cs))"

text \<open>The new subtree is the cell \<open>st\<close>; the result is false when the search fails.\<close>

definition find_tight_subtree :: "nat \<Rightarrow> nat \<Rightarrow> nat \<Rightarrow> subtrees \<times> ctx \<times> fgraph \<Rightarrow> (bool \<times> subtrees \<times> ctx \<times> fgraph) option" where
  "find_tight_subtree k v st x =
    (case tight_subtree_search k v st (snd x) of
       None \<Rightarrow> None
     | Some (n, cs) \<Rightarrow>
         Some (n \<ge> 0, (fst x)(st := (new_subtree v)\<lparr>st_size := n, st_par := Some st\<rparr>), cs))"

section \<open>Sets of subtrees\<close>

primrec find_root :: "nat \<Rightarrow> nat \<Rightarrow> subtrees \<Rightarrow> (nat \<times> subtrees) option" where
  "find_root 0 s0 t = None"
| "find_root (Suc k) s0 t =
    (case st_par (t s0) of
       None \<Rightarrow> Some (s0, t)
     | Some p \<Rightarrow>
         if p = s0 then Some (s0, t)
         else
           (case st_par (t p) of
              None \<Rightarrow> find_root k p t
            | Some q \<Rightarrow> find_root k q (t(s0 := (t s0)\<lparr>st_par := Some q\<rparr>))))"

definition STsetFind :: "nat \<Rightarrow> nat \<Rightarrow> fgraph \<Rightarrow> subtrees \<Rightarrow> (nat \<times> subtrees) option" where
  "STsetFind k n0 s t = (case ND_subtree s n0 of None \<Rightarrow> None | Some s0 \<Rightarrow> find_root k s0 t)"

primrec top_of :: "nat \<Rightarrow> nat \<Rightarrow> subtrees \<Rightarrow> nat option" where
  "top_of 0 r t = None"
| "top_of (Suc k) r t = (case st_par (t r) of None \<Rightarrow> Some r | Some p \<Rightarrow> if p = r then Some r else top_of k p t)"

definition STsetUnion :: "nat \<Rightarrow> nat \<Rightarrow> nat \<Rightarrow> subtrees \<Rightarrow> (nat \<times> subtrees) option" where
  "STsetUnion k s0 s1 t =
    (case (top_of k s0 t, top_of k s1 t) of
       (Some r0, Some r1) \<Rightarrow>
         if r0 = r1 then Some (r0, t)
         else if \<not> on_heap (t r0) \<and> \<not> on_heap (t r1) then None
         else
           (let r = (if \<not> on_heap (t r1) then r0 else if \<not> on_heap (t r0) then r1
                     else if st_size (t r1) < st_size (t r0) then r0 else r1);
                t1 = t(r0 := (t r0)\<lparr>st_par := Some r\<rparr>);
                t2 = t1(r1 := (t1 r1)\<lparr>st_par := Some r\<rparr>)
            in Some (r, t2(r := (t2 r)\<lparr>st_size := st_size (t2 r0) + st_size (t2 r1)\<rparr>)))
     | _ \<Rightarrow> None)"

section \<open>The edge to another tree\<close>

definition better :: "fgraph \<Rightarrow> nat \<Rightarrow> nat option \<Rightarrow> nat option" where
  "better s e best = (case best of None \<Rightarrow> Some e | Some b \<Rightarrow> if SLACK s e < SLACK s b then Some e else best)"

primrec inter_tree_edge_search :: "nat \<Rightarrow> nat \<Rightarrow> nat \<Rightarrow> nat option \<Rightarrow> fgraph \<Rightarrow> nat option \<times> subtrees
    \<Rightarrow> (nat option \<times> subtrees) option" where
  "inter_tree_edge_search m 0 v from s x = None"
| "inter_tree_edge_search m (Suc k) v from s x =
    (case STsetFind m v s (snd x) of
       None \<Rightarrow> None
     | Some (ts, t) \<Rightarrow>
         if (case fst x of None \<Rightarrow> False | Some b \<Rightarrow> SLACK s b = 0) then Some (fst x, t)
         else
           (let visit = (\<lambda>w e y.
                  if TREE_EDGE s e then (if Some w = from then Some y else inter_tree_edge_search m k w (Some v) s y)
                  else (case STsetFind m w s (snd y) of
                          None \<Rightarrow> None
                        | Some (r, t1) \<Rightarrow> Some (if r \<noteq> ts then better s e (fst y) else fst y, t1)))
            in case each (\<lambda>e. visit (vhead s e) e) (outs s v) (fst x, t) of
                 None \<Rightarrow> None
               | Some y \<Rightarrow> each (\<lambda>e. visit (vtail s e) e) (ins s v) y))"

definition inter_tree_edge :: "nat \<Rightarrow> nat \<Rightarrow> fgraph \<Rightarrow> subtrees \<Rightarrow> (nat option \<times> subtrees) option" where
  "inter_tree_edge k tree s t = inter_tree_edge_search k k (rep (t tree)) None s (None, t)"

section \<open>The heap of subtrees\<close>

text \<open>The array of the heap and the size; the subtrees know their places.\<close>

record stheap =
  elt :: "nat list"
  hsize :: nat

definition smallest_of :: "stheap \<Rightarrow> subtrees \<Rightarrow> nat \<Rightarrow> nat" where
  "smallest_of h t i =
    (let left = 2 * (i + 1) - 1; right = 2 * (i + 1);
         m = (if left < hsize h \<and> st_size (t (elt h ! left)) < st_size (t (elt h ! i)) then left else i)
     in if right < hsize h \<and> st_size (t (elt h ! right)) < st_size (t (elt h ! m)) then right else m)"

function STheapify :: "nat \<Rightarrow> stheap \<times> subtrees \<Rightarrow> stheap \<times> subtrees" where
  "STheapify i x =
    (let (h, t) = x; m = smallest_of h t i in
     if m \<noteq> i \<and> m < hsize h then
       (let es = (elt h)[i := elt h ! m, m := elt h ! i];
            t1 = t(es ! i := (t (es ! i))\<lparr>heap_index := Some i\<rparr>);
            t2 = t1(es ! m := (t1 (es ! m))\<lparr>heap_index := Some m\<rparr>)
        in STheapify m (h\<lparr>elt := es\<rparr>, t2))
     else x)"
  by auto
termination
  by (relation "measure (\<lambda>(i, h, t). hsize h - i)") (auto simp: smallest_of_def Let_def split: if_splits)

definition STbuildheap :: "nat list \<Rightarrow> subtrees \<Rightarrow> stheap \<times> subtrees" where
  "STbuildheap es t =
    (let t1 = fold (\<lambda>i t. t(es ! i := (t (es ! i))\<lparr>heap_index := Some i\<rparr>)) [0..<length es] t
     in fold STheapify (rev [0..<length es div 2 + 1]) (\<lparr>elt = es, hsize = length es\<rparr>, t1))"

definition STextractmin :: "stheap \<times> subtrees \<Rightarrow> nat \<times> stheap \<times> subtrees" where
  "STextractmin x =
    (let (h, t) = x; rv = elt h ! 0; n = hsize h - 1;
         t1 = t(rv := (t rv)\<lparr>heap_index := None\<rparr>);
         es = (elt h)[0 := elt h ! n];
         t2 = t1(es ! 0 := (t1 (es ! 0))\<lparr>heap_index := Some 0\<rparr>)
     in (rv, STheapify 0 (\<lparr>elt = es[n := rv], hsize = n\<rparr>, t2)))"

section \<open>Merging\<close>

primrec tree_adjust :: "nat \<Rightarrow> nat \<Rightarrow> nat option \<Rightarrow> int \<Rightarrow> fgraph \<Rightarrow> fgraph option" where
  "tree_adjust 0 v from delta s = None"
| "tree_adjust (Suc k) v from delta s =
    (let s1 = upd_v v (\<lambda>x. x\<lparr>v_rank := v_rank x + delta\<rparr>) s in
     case each (\<lambda>e s. if Some (vtail s e) \<noteq> from then tree_adjust k (vtail s e) (Some v) delta s else Some s) (tins s1 v) s1 of
       None \<Rightarrow> None
     | Some s2 \<Rightarrow>
         each (\<lambda>e s. if Some (vhead s e) \<noteq> from then tree_adjust k (vhead s e) (Some v) delta s else Some s) (touts s2 v) s2)"

text \<open>The inner result is \<open>None\<close> when \<open>add_tree_edge\<close> fails.\<close>

definition merge_trees :: "nat \<Rightarrow> nat \<Rightarrow> subtrees \<times> ctx \<times> fgraph \<Rightarrow> (nat option \<times> subtrees \<times> ctx \<times> fgraph) option" where
  "merge_trees k e x =
    (let (t, c, s) = x in
     if TREE_EDGE s e then None
     else
       (case STsetFind k (vtail s e) s t of
          None \<Rightarrow> None
        | Some (t0, ta) \<Rightarrow>
            (case STsetFind k (vhead s e) s ta of
               None \<Rightarrow> None
             | Some (t1, tb) \<Rightarrow>
                 (case (if SLACK s e = 0 then Some s
                        else if \<not> on_heap (tb t0) then tree_adjust k (rep (tb t0)) None (SLACK s e) s
                        else tree_adjust k (rep (tb t1)) None (- SLACK s e) s) of
                    None \<Rightarrow> None
                  | Some s1 \<Rightarrow>
                      (case add_tree_edge e (c, s1) of
                         (False, c1, s2) \<Rightarrow> Some (None, tb, c1, s2)
                       | (True, c1, s2) \<Rightarrow>
                           map_option (\<lambda>(r, tc). (Some r, tc, c1, s2)) (STsetUnion k t0 t1 tb))))))"

text \<open>
  The loops of \<open>feasible_tree\<close>. The results are the error code, the subtrees in the order of their
  creation, and the state.
\<close>

primrec find_trees :: "nat \<Rightarrow> nat list \<Rightarrow> nat list \<Rightarrow> subtrees \<times> ctx \<times> fgraph
    \<Rightarrow> (int \<times> nat list \<times> subtrees \<times> ctx \<times> fgraph) option" where
  "find_trees k [] tree x = Some (0, tree, x)"
| "find_trees k (n # ns) tree x =
    (if ND_subtree (snd (snd x)) n = None then
       (case find_tight_subtree k n (length tree) x of
          None \<Rightarrow> None
        | Some (ok, x1) \<Rightarrow> if ok then find_trees k ns (tree @ [length tree]) x1 else Some (2, tree, x1))
     else find_trees k ns tree x)"

primrec merge_loop :: "nat \<Rightarrow> nat \<Rightarrow> stheap \<Rightarrow> subtrees \<times> ctx \<times> fgraph \<Rightarrow> (int \<times> subtrees \<times> ctx \<times> fgraph) option" where
  "merge_loop k 0 h x = None"
| "merge_loop k (Suc m) h x =
    (if hsize h \<le> 1 then Some (0, x)
     else
       (let (tree0, h1, t1) = STextractmin (h, fst x); (c, s) = snd x in
        case inter_tree_edge k tree0 s t1 of
          None \<Rightarrow> None
        | Some (None, t2) \<Rightarrow> Some (1, t2, c, s)
        | Some (Some ee, t2) \<Rightarrow>
            (case merge_trees k ee (t2, c, s) of
               None \<Rightarrow> None
             | Some (None, x3) \<Rightarrow> Some (2, x3)
             | Some (Some tree1, t3, cs3) \<Rightarrow>
                 (case heap_index (t3 tree1) of
                    None \<Rightarrow> None
                  | Some i \<Rightarrow> (let (h4, t4) = STheapify i (h1, t3) in merge_loop k m h4 (t4, cs3))))))"

definition feasible_tree :: "nat \<Rightarrow> nat list \<Rightarrow> ctx \<times> fgraph \<Rightarrow> (int \<times> ctx \<times> fgraph) option" where
  "feasible_tree k ns cs =
    (let s1 = fold (\<lambda>n. ND_subtree_set n None) ns (snd cs) in
     case find_trees k ns [] (\<lambda>_. new_subtree 0, fst cs, s1) of
       None \<Rightarrow> None
     | Some (err, tree, t, c, s) \<Rightarrow>
         if err \<noteq> 0 then Some (err, c, s)
         else
           (let (h, t1) = STbuildheap tree t in
            case merge_loop k (Suc (length tree)) h (t1, c, s) of
              None \<Rightarrow> None
            | Some (err, t2, c2, s2) \<Rightarrow>
                if err \<noteq> 0 then Some (err, c2, s2)
                else if Suc (length (Tree_edge c2)) \<noteq> N_nodes c2 then None
                else map_option (\<lambda>s3. (0, c2, s3)) (init_cutvalues k s2)))"

section \<open>The main loop\<close>

text \<open>At most \<open>m\<close> pivots; the result is the error code.\<close>

primrec pivots :: "nat \<Rightarrow> nat \<Rightarrow> ctx \<times> fgraph \<Rightarrow> (int \<times> ctx \<times> fgraph) option" where
  "pivots k 0 cs = Some (0, cs)"
| "pivots k (Suc m) cs =
    (let (rv, c) = leave_edge (snd cs) (fst cs) in
     case rv of
       None \<Rightarrow> Some (0, c, snd cs)
     | Some e \<Rightarrow>
         (case enter_edge k (snd cs) e of
            None \<Rightarrow> None
          | Some None \<Rightarrow> None
          | Some (Some f) \<Rightarrow>
              (case update k e f (c, snd cs) of
                 None \<Rightarrow> None
               | Some (err, cs1) \<Rightarrow> if err \<noteq> 0 then Some (err, cs1) else pivots k m cs1)))"

text \<open>The attribute \<open>TBbalance\<close> and the sorting function are those of \<open>TB_balance\<close>.\<close>

definition finish :: "((nat \<Rightarrow> nat \<Rightarrow> int) \<Rightarrow> nat list \<Rightarrow> nat list) \<Rightarrow> string option \<Rightarrow> nat \<Rightarrow> int \<Rightarrow> nat list
    \<Rightarrow> ctx \<times> fgraph \<Rightarrow> fgraph option" where
  "finish qsort tbbalance k balance ns cs =
    (if balance = 1 then TB_balance qsort tbbalance ns (snd cs)
     else if balance = 2 then map_option snd (LR_balance k ns cs)
     else Some (snd (freeTreeList ns (fst cs, snd (scan_and_normalize ns (snd cs))))))"

definition SEARCHSIZE :: int where "SEARCHSIZE = 30"

definition rank2 :: "((nat \<Rightarrow> nat \<Rightarrow> int) \<Rightarrow> nat list \<Rightarrow> nat list) \<Rightarrow> string option \<Rightarrow> nat \<Rightarrow> int \<Rightarrow> int \<Rightarrow> int \<Rightarrow> fgraph
    \<Rightarrow> (int \<times> fgraph) option" where
  "rank2 qsort tbbalance k balance maxiter search_size s =
    (case (ns_start k s, walk_nodes k s (nlist s)) of
       (Some (c, s1), Some ns) \<Rightarrow>
         (case feasible_tree k ns (c\<lparr>Search_size := (if search_size \<ge> 0 then search_size else SEARCHSIZE)\<rparr>, s1) of
            None \<Rightarrow> None
          | Some (err, cs2) \<Rightarrow>
              if err \<noteq> 0 \<or> maxiter \<le> 0 then Some (err, snd (freeTreeList ns cs2))
              else
                (case pivots k (nat maxiter) cs2 of
                   None \<Rightarrow> None
                 | Some (err, cs3) \<Rightarrow>
                     if err \<noteq> 0 then Some (err, snd (freeTreeList ns cs3))
                     else map_option (\<lambda>s. (0, s)) (finish qsort tbbalance k balance ns cs3)))
     | _ \<Rightarrow> None)"

text \<open>The value of the attribute \<open>searchsize\<close>, as \<open>atoi\<close> reads it.\<close>

definition rank_ns :: "((nat \<Rightarrow> nat \<Rightarrow> int) \<Rightarrow> nat list \<Rightarrow> nat list) \<Rightarrow> string option \<Rightarrow> int option \<Rightarrow> nat \<Rightarrow> int \<Rightarrow> int \<Rightarrow> fgraph
    \<Rightarrow> (int \<times> fgraph) option" where
  "rank_ns qsort tbbalance searchsize k balance maxiter s =
    rank2 qsort tbbalance k balance maxiter (case searchsize of None \<Rightarrow> SEARCHSIZE | Some n \<Rightarrow> n) s"

end
