(* ===== verification/Ns_Leaf_Root.thy ===== *)
theory Ns_Leaf_Root
  imports Ns_Tight Ns_Enter
begin

text \<open>
  A defect of the pivot. When an end of the leaving edge has one tree edge only, \<open>update\<close> calls \<open>rerank\<close> for
  this end, as if its side of the cut were a single node. If that end is the root of the numbering,
  it has no parent edge and \<open>rerank\<close> goes on into the whole tree: all ranks move, the entering edge does
  not become tight, and the ranking at which the loop stops is not optimal.
\<close>

text \<open>
  The edge from 0 to 1 is the only tree edge at the root 0; its cut value is negative, and pulling 0 towards 2
  would be better.
\<close>

definition pend :: fgraph where
  "pend = \<lparr>vnodes = (\<lambda>_. blank_node)
       (0 := blank_node\<lparr>v_next := Some 1, v_out := [0], v_in := [2], v_rank := 4, v_tree_out := [0], v_low := 1, v_lim := 3\<rparr>,
        1 := blank_node\<lparr>v_next := Some 2, v_in := [0, 1], v_rank := 5, v_tree_in := [0, 1], v_par := Some 0, v_low := 1, v_lim := 2\<rparr>,
        2 := blank_node\<lparr>v_out := [1, 2], v_tree_out := [1], v_par := Some 1, v_low := 1, v_lim := 1\<rparr>),
     vedges = (\<lambda>_. blank_edge 0 0)
       (0 := (blank_edge 0 1)\<lparr>e_weight := 1, e_minlen := 1, e_cutvalue := -9, e_tree_index := 0\<rparr>,
        1 := (blank_edge 2 1)\<lparr>e_weight := 1, e_minlen := 5, e_cutvalue := 11, e_tree_index := 1\<rparr>,
        2 := (blank_edge 2 0)\<lparr>e_weight := 10, e_minlen := 1, e_tree_index := -1\<rparr>),
     nlist = Some 0, comp = [0], has_flat_edges = False, vfresh = 3, efresh = 3\<rparr>"

lemma pend_search: "enter_edge 4 pend 0 = Some (Some 2)"
  by code_simp


end
