(* ===== verification/Ns_Pivots.thy ===== *)
theory Ns_Pivots
  imports Ns_Update Ns_Leaf_Root
begin

text \<open>
  The main loop of the network simplex: from a numbered spanning tree with its cut values and a feasible
  ranking, \<open>pivots\<close> never fails, keeps all of this and makes the ranking no longer; when it stops for want of a
  negative cut value and the tree is tight, no ranking is shorter.
\<close>

section \<open>Optimality\<close>

lemma tree_optimal:
  assumes nt: "numbered_tree T s" and good: "\<forall>g\<in>set (tedges T). cut_good T s g \<and> 0 \<le> cutv s g \<and> SLACK s g = 0"
    and r: "\<forall>g. fast s g \<and> vtail s g \<in> set (gnodes T) \<longrightarrow> r (vtail s g) + e_minlen (vedges s g) \<le> r (vhead s g)"
  shows "total_length (set (gnodes T)) s \<le>
    (\<Sum>g | fast s g \<and> vtail s g \<in> set (gnodes T). e_weight (vedges s g) * (r (vhead s g) - r (vtail s g)))"
proof -
  let ?V = "set (gnodes T)"
  note env = numbered_treeD(1,2) [OF nt] and sp = numbered_treeD(3) [OF nt]
  define \<delta> where "\<delta> u = r u - rank_of s u" for u
  have up: "\<delta> (vtail s g) \<le> \<delta> (vhead s g)" if g: "g \<in> set (tedges T)" for g
  proof -
    have "rank_of s (vtail s g) + e_minlen (vedges s g) = rank_of s (vhead s g)" using good g by (auto simp: SLACK_def LENGTH_e_def)
    moreover have "r (vtail s g) + e_minlen (vedges s g) \<le> r (vhead s g)" using r tree_edgeD(1,3) [OF nt g] by blast
    ultimately show ?thesis by (simp add: \<delta>_def)
  qed
  have "(\<Sum>u\<in>?V. \<delta> u * net_weight s {u}) \<le> \<delta> (groot T) * net_weight s ?V"
    by (rule abel [OF env]) (use good up in blast)
  also have "net_weight s ?V = 0"
  proof -
    have "cut_weight s (?V - ?V) = - cut_weight s ?V" by (rule cut_other_side [OF spanningD(3) [OF sp]]) simp
    moreover have "cut_weight s {} = 0" by (simp add: cut_weight_def)
    ultimately have "cut_weight s ?V = 0" by simp
    then show ?thesis using net_cut [OF spanningD(1) [OF sp], of ?V] by simp
  qed
  finally have "0 \<le> (\<Sum>g | fast s g \<and> vtail s g \<in> ?V. e_weight (vedges s g) * (\<delta> (vhead s g) - \<delta> (vtail s g)))"
    using length_difference [OF spanningD(1,3) [OF sp], of \<delta>] by simp
  also have "\<dots> = (\<Sum>g | fast s g \<and> vtail s g \<in> ?V. e_weight (vedges s g) * (r (vhead s g) - r (vtail s g))) - total_length ?V s"
    unfolding total_length_def sum_subtractf [symmetric] by (rule sum.cong [OF refl]) (simp add: \<delta>_def LENGTH_e_def algebra_simps)
  finally show ?thesis by simp
qed

section \<open>The loop\<close>

text \<open>The graph itself is the same.\<close>

definition graph_kept :: "fgraph \<Rightarrow> fgraph \<Rightarrow> bool" where
  "graph_kept s s' \<longleftrightarrow> nlist s' = nlist s \<and> (\<forall>n. outs s' n = outs s n \<and> ins s' n = ins s n) \<and>
     (\<forall>g. vtail s' g = vtail s g \<and> vhead s' g = vhead s g \<and> e_weight (vedges s' g) = e_weight (vedges s g) \<and>
        e_minlen (vedges s' g) = e_minlen (vedges s g))"

lemma graph_kept_refl [simp]: "graph_kept s s"
  by (simp add: graph_kept_def)

lemma graph_kept_trans: "graph_kept s s1 \<Longrightarrow> graph_kept s1 s2 \<Longrightarrow> graph_kept s s2"
  by (simp add: graph_kept_def)

lemma swapped_same: "swapped e f s s' \<Longrightarrow> graph_kept s s'"
  by (simp add: graph_kept_def swapped_def)

lemma simplex_leave:
  assumes st: "simplex_state T c s" and lv: "leave_edge s c = (rv, c')"
  shows "simplex_state T c' s" and "rv = None \<longleftrightarrow> (\<forall>g\<in>set (tedges T). 0 \<le> cutv s g)"
    and "rv = Some e \<Longrightarrow> e \<in> set (Tree_edge c') \<and> cutv s e < 0"
proof -
  note l = leave_edge_correct [OF simplex_stateD(5) [OF st] lv]
  show "simplex_state T c' s" using st l by (simp add: simplex_state_def)
  show "rv = None \<longleftrightarrow> (\<forall>g\<in>set (tedges T). 0 \<le> cutv s g)" using l unfolding simplex_stateD(4) [OF st] by blast
  show "rv = Some e \<Longrightarrow> e \<in> set (Tree_edge c') \<and> cutv s e < 0" using l by simp
qed

lemma pivots_run:
  "simplex_state T c s \<Longrightarrow> length (gnodes T) < k \<Longrightarrow>
    \<exists>T' c' s'. pivots k m (c, s) = Some (0, c', s') \<and> simplex_state T' c' s' \<and> groot T' = groot T \<and> mset (gnodes T') = mset (gnodes T) \<and>
      graph_kept s s' \<and> (\<forall>g. fast s' g = fast s g) \<and> total_length (set (gnodes T)) s' \<le> total_length (set (gnodes T)) s"
proof (induction m arbitrary: T c s)
  case 0
  then show ?case by (intro exI [of _ T] exI [of _ c] exI [of _ s]) simp
next
  case (Suc m)
  obtain rv c1 where lv: "leave_edge s c = (rv, c1)" by fastforce
  note sl = simplex_leave [OF Suc.prems(1) lv]
  show ?case
  proof (cases rv)
    case None
    then have "pivots k (Suc m) (c, s) = Some (0, c1, s)" using lv by simp
    with sl(1) show ?thesis by (intro exI [of _ T] exI [of _ c1] exI [of _ s]) simp
  next
    case (Some e)
    from sl(3) [OF Some] have e: "e \<in> set (Tree_edge c1)" "cutv s e < 0" by blast+
    from pivot_step [OF sl(1) e Suc.prems(2)] obtain f c2 s2 T2 where
      p: "enter_edge k s e = Some (Some f)" "update k e f (c1, s) = Some (0, c2, s2)" "simplex_state T2 c2 s2" "groot T2 = groot T"
        "mset (gnodes T2) = mset (gnodes T)" "swapped e f s s2" "\<forall>g. fast s2 g = fast s g"
        "total_length (set (gnodes T)) s2 \<le> total_length (set (gnodes T)) s" by blast
    have V: "set (gnodes T2) = set (gnodes T)" by (rule mset_eq_setD [OF p(5)])
    have "length (gnodes T2) < k" using mset_eq_length [OF p(5)] Suc.prems(2) by simp
    from Suc.IH [OF p(3) this] obtain T' c' s' where
      q: "pivots k m (c2, s2) = Some (0, c', s')" "simplex_state T' c' s'" "groot T' = groot T2" "mset (gnodes T') = mset (gnodes T2)"
        "graph_kept s2 s'" "\<forall>g. fast s' g = fast s2 g" "total_length (set (gnodes T)) s' \<le> total_length (set (gnodes T)) s2" unfolding V by blast
    have "pivots k (Suc m) (c, s) = Some (0, c', s')" using lv Some p(1,2) q(1) by simp
    moreover have "graph_kept s s'" by (rule graph_kept_trans [OF swapped_same [OF p(6)] q(5)])
    moreover have "total_length (set (gnodes T)) s' \<le> total_length (set (gnodes T)) s" using q(7) p(8) by simp
    ultimately show ?thesis using q(2-4,6) p(4,5,7) by (intro exI [of _ T'] exI [of _ c'] exI [of _ s']) simp
  qed
qed


section \<open>The theorems\<close>

text \<open>
  C9. The main loop of the network simplex, with any limit on the iterations and fuel for the depth of the tree:
  from a numbered spanning tree with its cut values and a feasible ranking it returns 0 (the entering edge is
  never NULL, the paths of \<open>update\<close> meet, no search runs out), the nodes, edges, weights and minimum lengths
  are those of before, the tree, its numbering, its cut values and the index of every tree edge are right
  again, and the ranking is feasible and not longer than before. When no cut value is negative at the end
  and the tree edges are tight, the total weighted length is the least of all rankings that respect
  the minimum lengths.
\<close>

theorem pivots_correct:
  assumes "simplex_state T c s" and "length (gnodes T) < k"
  shows "\<exists>T' c' s'. pivots k m (c, s) = Some (0, c', s') \<and> simplex_state T' c' s' \<and> set (gnodes T') = set (gnodes T) \<and> graph_kept s s' \<and>
    total_length (set (gnodes T)) s' \<le> total_length (set (gnodes T)) s \<and>
    ((\<forall>g\<in>set (Tree_edge c'). 0 \<le> cutv s' g \<and> SLACK s' g = 0) \<longrightarrow>
     (\<forall>r. (\<forall>g. fast s g \<and> vtail s g \<in> set (gnodes T) \<longrightarrow> r (vtail s g) + e_minlen (vedges s g) \<le> r (vhead s g)) \<longrightarrow>
       total_length (set (gnodes T)) s' \<le>
         (\<Sum>g | fast s g \<and> vtail s g \<in> set (gnodes T). e_weight (vedges s g) * (r (vhead s g) - r (vtail s g)))))"
proof -
  from pivots_run [OF assms] obtain T' c' s' where
    p: "pivots k m (c, s) = Some (0, c', s')" "simplex_state T' c' s'" "mset (gnodes T') = mset (gnodes T)" "graph_kept s s'"
      "\<forall>g. fast s' g = fast s g" "total_length (set (gnodes T)) s' \<le> total_length (set (gnodes T)) s" by blast
  have V: "set (gnodes T') = set (gnodes T)" by (rule mset_eq_setD [OF p(3)])
  have same: "vtail s' g = vtail s g" "vhead s' g = vhead s g" "e_weight (vedges s' g) = e_weight (vedges s g)"
    "e_minlen (vedges s' g) = e_minlen (vedges s g)" "fast s' g = fast s g" for g using p(4,5) by (simp_all add: graph_kept_def)
  have "total_length (set (gnodes T)) s' \<le>
         (\<Sum>g | fast s g \<and> vtail s g \<in> set (gnodes T). e_weight (vedges s g) * (r (vhead s g) - r (vtail s g)))"
    if stop: "\<forall>g\<in>set (Tree_edge c'). 0 \<le> cutv s' g \<and> SLACK s' g = 0"
      and r: "\<forall>g. fast s g \<and> vtail s g \<in> set (gnodes T) \<longrightarrow> r (vtail s g) + e_minlen (vedges s g) \<le> r (vhead s g)" for r
  proof -
    have "\<forall>g\<in>set (tedges T'). cut_good T' s' g \<and> 0 \<le> cutv s' g \<and> SLACK s' g = 0"
      using stop p(2) by (simp add: simplex_state_def)
    from tree_optimal [OF simplex_stateD(1) [OF p(2)] this, of r] r show ?thesis unfolding V same by blast
  qed
  with p V show ?thesis by blast
qed

text \<open>
  C10. One pivot: for a tree edge of negative cut value \<open>enter_edge\<close> finds an edge and \<open>update\<close> puts it in the
  place of the other. The result is again a numbered spanning tree of the same nodes, below the same root, with
  right cut values and a feasible ranking. Unless the leaving edge is the only tree edge at the root, the total
  length changes by just the slack of the entering edge times the cut value of the leaving one, and the tree
  edges stay tight if they were.
\<close>

theorem update_correct:
  assumes "simplex_state T c s" and "e \<in> set (Tree_edge c)" and "cutv s e < 0" and "length (gnodes T) < k"
  shows "\<exists>f c' s' T'. enter_edge k s e = Some (Some f) \<and> update k e f (c, s) = Some (0, c', s') \<and> simplex_state T' c' s' \<and>
    groot T' = groot T \<and> mset (gnodes T') = mset (gnodes T) \<and> fast s f \<and> \<not> TREE_EDGE s f \<and> swapped e f s s' \<and>
    total_length (set (gnodes T)) s' \<le> total_length (set (gnodes T)) s \<and>
    (\<not> leaf_root T s e \<longrightarrow> total_length (set (gnodes T)) s' = total_length (set (gnodes T)) s + SLACK s f * cutv s e \<and>
       (tight_tree T s \<longrightarrow> tight_tree T' s'))"
  using pivot_step [OF assms] by blast

text \<open>The graph of \<open>pend\<close> with the numbering rooted at 1, where both tree edges end.\<close>

definition mid :: fgraph where
  "mid = pend\<lparr>
     vnodes := (\<lambda>_. blank_node)
       (0 := blank_node\<lparr>v_next := Some 1, v_out := [0], v_in := [2], v_rank := 4, v_tree_out := [0], v_par := Some 0, v_low := 1, v_lim := 1\<rparr>,
        1 := blank_node\<lparr>v_next := Some 2, v_in := [0, 1], v_rank := 5, v_tree_in := [0, 1], v_low := 1, v_lim := 3\<rparr>,
        2 := blank_node\<lparr>v_out := [1, 2], v_tree_out := [1], v_par := Some 1, v_low := 2, v_lim := 2\<rparr>)\<rparr>"

definition mid_tree :: gtree where
  "mid_tree = GT 1 [(0, GT 0 []), (1, GT 2 [])]"

lemma mid_nodes: "vnodes mid 0 = blank_node\<lparr>v_next := Some 1, v_out := [0], v_in := [2], v_rank := 4, v_tree_out := [0], v_par := Some 0, v_low := 1, v_lim := 1\<rparr>"
  "vnodes mid (Suc 0) = blank_node\<lparr>v_next := Some 2, v_in := [0, 1], v_rank := 5, v_tree_in := [0, 1], v_low := 1, v_lim := 3\<rparr>"
  "vnodes mid 2 = blank_node\<lparr>v_out := [1, 2], v_tree_out := [1], v_par := Some 1, v_low := 2, v_lim := 2\<rparr>"
  "vnodes mid n = (if n < 3 then vnodes mid n else blank_node)"
  by (simp_all add: mid_def)

lemma mid_edges: "vedges mid 0 = (blank_edge 0 1)\<lparr>e_weight := 1, e_minlen := 1, e_cutvalue := -9, e_tree_index := 0\<rparr>"
  "vedges mid (Suc 0) = (blank_edge 2 1)\<lparr>e_weight := 1, e_minlen := 5, e_cutvalue := 11, e_tree_index := 1\<rparr>"
  "vedges mid 2 = (blank_edge 2 0)\<lparr>e_weight := 10, e_minlen := 1, e_tree_index := -1\<rparr>" "efresh mid = 3"
  by (simp_all add: mid_def pend_def)

lemma mid_fast: "fast mid e \<longleftrightarrow> e = 0 \<or> e = 1 \<or> e = 2"
  by (auto simp: mid_def pend_def zero_node_def blank_edge_def fast_def)

lemma mid_state: "simplex_state mid_tree (blank_ctx\<lparr>Tree_edge := [0, 1]\<rparr>) mid"
proof -
  have ok: "fg_ok mid" unfolding fg_ok_def by (auto simp: mid_def pend_def zero_node_def blank_edge_def)
  have cl: "closed_on (set (gnodes mid_tree)) mid" unfolding closed_on_def mid_fast
    by (auto simp: mid_edges mid_tree_def blank_edge_def)
  have "vtail mid e \<noteq> vhead mid e" if "fast mid e" for e
    using that unfolding mid_fast by (elim disjE) (simp_all add: mid_edges blank_edge_def)
  then have ir: "irrefl (frel mid)" unfolding frel_def irrefl_def by fastforce
  have sp: "spanning mid mid_tree"
    unfolding spanning_def using ok cl ir
    by (auto simp: mid_tree_def mid_nodes(1-3) mid_edges zero_node_def blank_edge_def TREE_EDGE_def)
  have nb: "numbered mid 1 mid_tree" by (simp add: mid_tree_def mid_nodes(1-3) zero_node_def)
  have env: "cut_env mid_tree mid" unfolding cut_env_def mid_fast using sp nb
    by (auto simp: mid_tree_def mid_nodes(1-3) mid_edges zero_node_def blank_edge_def deg_weight_def)
  have "subtree_at mid_tree mid None mid_tree" unfolding subtree_at_def
    using nb spanningD(4,5) [OF sp] by (auto simp: mid_tree_def mid_nodes(2) zero_node_def)
  then have nt: "numbered_tree mid_tree mid" using env by (simp add: numbered_tree_def)
  have cut: "\<forall>g\<in>set (tedges mid_tree). cut_good mid_tree mid g"
    by (auto simp: mid_tree_def cut_good_def cut_of_def child_end_def below_def SEQ_def net_weight_def mid_nodes(1-3) mid_edges zero_node_def
        blank_edge_def Collect_disj_eq conj_disj_distribR cong: conj_cong)
  have fe: "feasible (set (gnodes mid_tree)) mid" unfolding feasible_def mid_fast
    by (auto simp: mid_nodes(1-3) mid_edges blank_edge_def zero_node_def SLACK_def LENGTH_e_def)
  show ?thesis unfolding simplex_state_def using nt cut fe
    by (auto simp: mid_tree_def blank_ctx_def mid_edges blank_edge_def less_Suc_eq nth_Cons')
qed


lemma mid_run: "map_option (\<lambda>(err, c, s). (err, Tree_edge c, map (cutv s) [1, 2], map (SLACK s) [1, 2])) (pivots 4 5 (blank_ctx\<lparr>Tree_edge := [0, 1]\<rparr>, mid)) =
    Some (0, [2, 1], [2, 9], [0, 0])"
  by code_simp

lemma mid_small: "length (gnodes mid_tree) < 4"
  by (simp add: mid_tree_def)

lemma pivots_correct_witness:
  "\<exists>c' s'. pivots 4 5 (blank_ctx\<lparr>Tree_edge := [0, 1]\<rparr>, mid) = Some (0, c', s') \<and> total_length (set (gnodes mid_tree)) s' \<le>
    (\<Sum>g | fast mid g \<and> vtail mid g \<in> set (gnodes mid_tree). e_weight (vedges mid g) *
      ([1, 6, 0] ! vhead mid g - [1, 6, 0] ! vtail mid g))"
proof -
  let ?r = "\<lambda>n. [1, 6, 0] ! n :: int"
  from pivots_correct [OF mid_state mid_small, of 5] obtain c' s' where
    run: "pivots 4 5 (blank_ctx\<lparr>Tree_edge := [0, 1]\<rparr>, mid) = Some (0, c', s')" and
    opt: "(\<forall>g\<in>set (Tree_edge c'). 0 \<le> cutv s' g \<and> SLACK s' g = 0) \<Longrightarrow>
       (\<forall>g. fast mid g \<and> vtail mid g \<in> set (gnodes mid_tree) \<longrightarrow> ?r (vtail mid g) + e_minlen (vedges mid g) \<le> ?r (vhead mid g)) \<Longrightarrow>
       total_length (set (gnodes mid_tree)) s' \<le>
         (\<Sum>g | fast mid g \<and> vtail mid g \<in> set (gnodes mid_tree). e_weight (vedges mid g) * (?r (vhead mid g) - ?r (vtail mid g)))"
    by blast
  have "Tree_edge c' = [2, 1]" "cutv s' 1 = 2" "cutv s' 2 = 9" "SLACK s' 1 = 0" "SLACK s' 2 = 0" using mid_run unfolding run by simp_all
  then have "\<forall>g\<in>set (Tree_edge c'). 0 \<le> cutv s' g \<and> SLACK s' g = 0" by simp
  moreover have "\<forall>g. fast mid g \<and> vtail mid g \<in> set (gnodes mid_tree) \<longrightarrow> ?r (vtail mid g) + e_minlen (vedges mid g) \<le> ?r (vhead mid g)"
    unfolding mid_fast by (auto simp: mid_edges blank_edge_def)
  ultimately show ?thesis using run opt by blast
qed

lemma update_correct_witness:
  "\<exists>f c' s' T'. enter_edge 4 mid 0 = Some (Some f) \<and> update 4 0 f (blank_ctx\<lparr>Tree_edge := [0, 1]\<rparr>, mid) = Some (0, c', s') \<and>
    simplex_state T' c' s' \<and> total_length (set (gnodes mid_tree)) s' = total_length (set (gnodes mid_tree)) mid + SLACK mid f * cutv mid 0 \<and>
    tight_tree T' s'"
proof -
  have "0 \<in> set (Tree_edge (blank_ctx\<lparr>Tree_edge := [0, 1]\<rparr>))" "cutv mid 0 < 0" by (simp_all add: mid_edges)
  note up = update_correct [OF mid_state this mid_small]
  have "\<not> leaf_root mid_tree mid 0" by (simp add: leaf_root_def tree_degree_def mid_tree_def mid_nodes(1-3) zero_node_def)
  moreover have "tight_tree mid_tree mid"
    by (simp add: tight_tree_def mid_tree_def SLACK_def LENGTH_e_def mid_nodes(1-3) mid_edges blank_edge_def zero_node_def)
  ultimately show ?thesis using up by blast
qed

end
