(* ===== verification/Unionfind.thy ===== *)
theory Unionfind
  imports Fastgr_Correct
begin

text \<open>
  The union-find of \<open>lib/common/utils.c\<close>, by which the dot layout collapses the nodes of a rank set.
  A node without parent, or with itself as parent, is the root of its set. \<open>UF_size\<close> is an integer.
\<close>

section \<open>The operations\<close>

partial_function (option) UF_find :: "nat \<Rightarrow> fgraph \<Rightarrow> (nat \<times> fgraph) option" where
  "UF_find n s =
    (case v_UF_parent (vnodes s n) of
       None \<Rightarrow> Some (n, s)
     | Some p \<Rightarrow>
         (if p = n then Some (n, s)
          else
            (let s1 = (case v_UF_parent (vnodes s p) of
                         None \<Rightarrow> s | Some pp \<Rightarrow> upd_v n (\<lambda>x. x\<lparr>v_UF_parent := Some pp\<rparr>) s)
             in case v_UF_parent (vnodes s1 n) of None \<Rightarrow> None | Some m \<Rightarrow> UF_find m s1)))"

definition UF_init :: "nat \<Rightarrow> fgraph \<Rightarrow> (nat \<times> fgraph) option" where
  "UF_init u s =
    (if v_UF_parent (vnodes s u) = None then Some (u, upd_v u (\<lambda>x. x\<lparr>v_UF_parent := Some u, v_UF_size := 1\<rparr>) s)
     else UF_find u s)"

definition UF_link :: "nat \<Rightarrow> nat \<Rightarrow> fgraph \<Rightarrow> fgraph" where
  "UF_link u v s =
    (let s1 = upd_v u (\<lambda>x. x\<lparr>v_UF_parent := Some v\<rparr>) s
     in upd_v v (\<lambda>x. x\<lparr>v_UF_size := v_UF_size x + v_UF_size (vnodes s1 u)\<rparr>) s1)"

definition UF_union :: "nat \<Rightarrow> nat \<Rightarrow> fgraph \<Rightarrow> (nat \<times> fgraph) option" where
  "UF_union u v s =
    (if u = v then Some (u, s)
     else
       (case UF_init u s of None \<Rightarrow> None | Some (u, s) \<Rightarrow>
       (case UF_init v s of None \<Rightarrow> None | Some (v, s) \<Rightarrow>
          if u = v then Some (u, s)
          else if v_id (vnodes s u) > v_id (vnodes s v) then Some (v, UF_link u v s)
          else Some (u, UF_link v u s))))"

definition UF_singleton :: "nat \<Rightarrow> fgraph \<Rightarrow> fgraph" where
  "UF_singleton u s = upd_v u (\<lambda>x. x\<lparr>v_UF_size := 1, v_UF_parent := None, v_ranktype := 0\<rparr>) s"

definition UF_setname :: "nat \<Rightarrow> nat \<Rightarrow> fgraph \<Rightarrow> fgraph option" where
  "UF_setname u v s =
    (case UF_find u s of None \<Rightarrow> None | Some (r, s1) \<Rightarrow> if r \<noteq> u then None else Some (UF_link u v s1))"

section \<open>The sets\<close>

text \<open>The parent of a node that is not a root.\<close>

definition uf_rel :: "fgraph \<Rightarrow> (nat \<times> nat) set" where
  "uf_rel s = {(n, p). v_UF_parent (vnodes s n) = Some p \<and> p \<noteq> n}"

definition uf_ok :: "fgraph \<Rightarrow> bool" where
  "uf_ok s \<longleftrightarrow> wf ((uf_rel s)\<inverse>)"

definition is_root :: "fgraph \<Rightarrow> nat \<Rightarrow> bool" where
  "is_root s r \<longleftrightarrow> r \<notin> Domain (uf_rel s)"

definition root_of :: "fgraph \<Rightarrow> nat \<Rightarrow> nat \<Rightarrow> bool" where
  "root_of s n r \<longleftrightarrow> (n, r) \<in> (uf_rel s)\<^sup>* \<and> is_root s r"

lemma is_root_iff: "is_root s r \<longleftrightarrow> v_UF_parent (vnodes s r) = None \<or> v_UF_parent (vnodes s r) = Some r"
  by (cases "v_UF_parent (vnodes s r)") (auto simp: is_root_def uf_rel_def Domain_iff)

lemma uf_rel_fun: "(n, p) \<in> uf_rel s \<Longrightarrow> (n, q) \<in> uf_rel s \<Longrightarrow> p = q"
  by (simp add: uf_rel_def)

lemma root_of_root: "is_root s r \<Longrightarrow> root_of s r q \<longleftrightarrow> q = r"
  unfolding root_of_def is_root_def by (metis Domain.DomainI converse_rtranclE rtrancl.rtrancl_refl)

lemma root_of_step: "(n, p) \<in> uf_rel s \<Longrightarrow> root_of s n r \<longleftrightarrow> root_of s p r"
  unfolding root_of_def is_root_def
  by (metis Domain.DomainI converse_rtranclE converse_rtrancl_into_rtrancl uf_rel_fun)

lemma root_of_exists: "uf_ok s \<Longrightarrow> \<exists>r. root_of s n r"
proof -
  assume "uf_ok s"
  then have "wf ((uf_rel s)\<inverse>)" by (simp add: uf_ok_def)
  then show ?thesis
  proof (induction n rule: wf_induct_rule)
    case (less n)
    show ?case
    proof (cases "is_root s n")
      case True
      then show ?thesis using root_of_root by blast
    next
      case False
      then obtain p where p: "(n, p) \<in> uf_rel s" by (auto simp: is_root_def)
      from less [of p] p root_of_step [OF p] show ?thesis by auto
    qed
  qed
qed

lemma root_of_unique:
  assumes "uf_ok s" and "root_of s n r" and "root_of s n q"
  shows "r = q"
proof -
  have "wf ((uf_rel s)\<inverse>)" using assms(1) by (simp add: uf_ok_def)
  then have "\<forall>r q. root_of s n r \<longrightarrow> root_of s n q \<longrightarrow> r = q"
  proof (induction n rule: wf_induct_rule)
    case (less n)
    show ?case
    proof (cases "is_root s n")
      case True
      then show ?thesis using root_of_root [OF True] by simp
    next
      case False
      then obtain p where p: "(n, p) \<in> uf_rel s" by (auto simp: is_root_def)
      from less [of p] p root_of_step [OF p] show ?thesis by auto
    qed
  qed
  with assms show ?thesis by blast
qed

text \<open>What the operations leave alone: all but the parents and sizes.\<close>

definition uf_set :: "(nat \<Rightarrow> nat option) \<Rightarrow> (nat \<Rightarrow> int) \<Rightarrow> fgraph \<Rightarrow> fgraph" where
  "uf_set p z s = s\<lparr>vnodes := \<lambda>n. (vnodes s n)\<lparr>v_UF_parent := p n, v_UF_size := z n\<rparr>\<rparr>"

definition uf_frame :: "fgraph \<Rightarrow> fgraph \<Rightarrow> bool" where
  "uf_frame s s' \<longleftrightarrow> (\<exists>p z. s' = uf_set p z s)"

lemma uf_frame_refl [simp]: "uf_frame s s"
proof -
  have "s = uf_set (\<lambda>n. v_UF_parent (vnodes s n)) (\<lambda>n. v_UF_size (vnodes s n)) s" by (simp add: uf_set_def)
  then show ?thesis unfolding uf_frame_def by blast
qed

lemma uf_frame_trans: "uf_frame s s1 \<Longrightarrow> uf_frame s1 s2 \<Longrightarrow> uf_frame s s2"
proof -
  have "uf_set p z (uf_set p' z' s) = uf_set p z s" for p z p' z' by (simp add: uf_set_def)
  then show "uf_frame s s1 \<Longrightarrow> uf_frame s1 s2 \<Longrightarrow> uf_frame s s2" unfolding uf_frame_def by metis
qed

lemma uf_frame_upd:
  "uf_frame s (upd_v n (\<lambda>x. x\<lparr>v_UF_parent := p\<rparr>) s)" "uf_frame s (upd_v n (\<lambda>x. x\<lparr>v_UF_size := z\<rparr>) s)"
proof -
  have "upd_v n (\<lambda>x. x\<lparr>v_UF_parent := p\<rparr>) s = uf_set (\<lambda>m. if m = n then p else v_UF_parent (vnodes s m)) (\<lambda>n. v_UF_size (vnodes s n)) s"
    "upd_v n (\<lambda>x. x\<lparr>v_UF_size := z\<rparr>) s = uf_set (\<lambda>m. v_UF_parent (vnodes s m)) (\<lambda>m. if m = n then z else v_UF_size (vnodes s m)) s"
    by (simp_all add: uf_set_def upd_v_def fun_eq_iff)
  then show "uf_frame s (upd_v n (\<lambda>x. x\<lparr>v_UF_parent := p\<rparr>) s)" "uf_frame s (upd_v n (\<lambda>x. x\<lparr>v_UF_size := z\<rparr>) s)"
    unfolding uf_frame_def by blast+
qed

text \<open>Two states with the same sets.\<close>

definition same_sets :: "fgraph \<Rightarrow> fgraph \<Rightarrow> bool" where
  "same_sets s s' \<longleftrightarrow> (\<forall>n r. root_of s' n r \<longleftrightarrow> root_of s n r)"

lemma uf_frameD:
  assumes "uf_frame s s'"
  shows "vedges s' = vedges s" and "efresh s' = efresh s" and "comp s' = comp s" and "nlist s' = nlist s"
    and "outs s' n = outs s n" and "ins s' n = ins s n" and "\<exists>p z. vnodes s' n = (vnodes s n)\<lparr>v_UF_parent := p, v_UF_size := z\<rparr>"
proof -
  from assms obtain p z where s': "s' = uf_set p z s" by (auto simp: uf_frame_def)
  show "vedges s' = vedges s" "efresh s' = efresh s" "comp s' = comp s" "nlist s' = nlist s"
    "outs s' n = outs s n" "ins s' n = ins s n" by (simp_all add: s' uf_set_def)
  show "\<exists>p z. vnodes s' n = (vnodes s n)\<lparr>v_UF_parent := p, v_UF_size := z\<rparr>" unfolding s' uf_set_def by auto
qed

lemma same_sets_refl [simp]: "same_sets s s"
  by (simp add: same_sets_def)

lemma same_sets_trans: "same_sets s s1 \<Longrightarrow> same_sets s1 s2 \<Longrightarrow> same_sets s s2"
  by (simp add: same_sets_def)

lemma same_parents:
  assumes "\<And>n. v_UF_parent (vnodes s' n) = v_UF_parent (vnodes s n)"
  shows "same_sets s s'" and "uf_ok s' = uf_ok s"
proof -
  have "uf_rel s' = uf_rel s" using assms by (simp add: uf_rel_def)
  then show "same_sets s s'" "uf_ok s' = uf_ok s" by (simp_all add: same_sets_def uf_ok_def root_of_def is_root_def)
qed

section \<open>Find\<close>

text \<open>Path halving: a node is moved up to its grandparent.\<close>

lemma halve:
  assumes ok: "uf_ok s" and np: "(n, p) \<in> uf_rel s" and pq: "(p, q) \<in> uf_rel s"
  shows "uf_ok (upd_v n (\<lambda>x. x\<lparr>v_UF_parent := Some q\<rparr>) s)"
    and "same_sets s (upd_v n (\<lambda>x. x\<lparr>v_UF_parent := Some q\<rparr>) s)"
    and "(n, q) \<in> uf_rel (upd_v n (\<lambda>x. x\<lparr>v_UF_parent := Some q\<rparr>) s)"
    and "(uf_rel (upd_v n (\<lambda>x. x\<lparr>v_UF_parent := Some q\<rparr>) s))\<inverse> \<subseteq> ((uf_rel s)\<inverse>)\<^sup>+"
proof -
  let ?s = "upd_v n (\<lambda>x. x\<lparr>v_UF_parent := Some q\<rparr>) s"
  have wf: "wf ((uf_rel s)\<inverse>)" using ok by (simp add: uf_ok_def)
  have nq: "(q, n) \<in> ((uf_rel s)\<inverse>)\<^sup>+" using np pq by (meson converse_iff r_into_trancl trancl_into_trancl)
  have "n \<noteq> q" using nq wf_trancl [OF wf] by (metis wf_not_refl)
  then have rel: "(m, x) \<in> uf_rel ?s \<longleftrightarrow> (if m = n then x = q else (m, x) \<in> uf_rel s)" for m x
    by (auto simp: uf_rel_def)
  show "(n, q) \<in> uf_rel ?s" by (simp add: rel)
  show sub: "(uf_rel ?s)\<inverse> \<subseteq> ((uf_rel s)\<inverse>)\<^sup>+" using nq by (auto simp: rel split: if_splits)
  show ok': "uf_ok ?s" unfolding uf_ok_def by (rule wf_subset [OF wf_trancl [OF wf] sub])
  have root: "is_root ?s r \<longleftrightarrow> is_root s r" for r using np by (auto simp: is_root_def Domain_iff rel)
  show "same_sets s ?s"
    unfolding same_sets_def
  proof (intro allI)
    fix m r
    from wf_trancl [OF wf] show "root_of ?s m r \<longleftrightarrow> root_of s m r"
    proof (induction m rule: wf_induct_rule)
      case (less m)
      show ?case
      proof (cases "is_root s m")
        case True
        then show ?thesis using root_of_root [of s m r] root_of_root [of ?s m r] by (simp add: root)
      next
        case False
        then obtain x where x: "(m, x) \<in> uf_rel s" by (auto simp: is_root_def)
        show ?thesis
        proof (cases "m = n")
          case True
          have "root_of ?s m r \<longleftrightarrow> root_of ?s q r" using root_of_step [of m q ?s r] by (simp add: rel True)
          also have "\<dots> \<longleftrightarrow> root_of s q r" using less nq by (simp add: True)
          also have "\<dots> \<longleftrightarrow> root_of s m r" using root_of_step [OF np] root_of_step [OF pq] by (simp add: True)
          finally show ?thesis .
        next
          case m: False
          have "root_of ?s m r \<longleftrightarrow> root_of ?s x r" using root_of_step [of m x ?s r] x m by (simp add: rel)
          also have "\<dots> \<longleftrightarrow> root_of s x r" using less x by blast
          also have "\<dots> \<longleftrightarrow> root_of s m r" using root_of_step [OF x] by simp
          finally show ?thesis .
        qed
      qed
    qed
  qed
qed

lemma UF_find_step:
  assumes np: "(n, p) \<in> uf_rel s"
  shows "UF_find n s =
    (case v_UF_parent (vnodes s p) of
       None \<Rightarrow> UF_find p s
     | Some q \<Rightarrow> if p = q then UF_find p s else UF_find q (upd_v n (\<lambda>x. x\<lparr>v_UF_parent := Some q\<rparr>) s))"
proof -
  have "v_UF_parent (vnodes s n) = Some p" "p \<noteq> n" using np by (simp_all add: uf_rel_def)
  moreover from this have "(vnodes s n)\<lparr>v_UF_parent := Some p\<rparr> = vnodes s n" by (cases "vnodes s n") simp
  then have "upd_v n (\<lambda>x. x\<lparr>v_UF_parent := Some p\<rparr>) s = s" by (simp add: upd_v_def)
  ultimately show ?thesis by (subst UF_find.simps) (auto simp: Let_def split: option.split)
qed

lemma UF_find_root: "is_root s n \<Longrightarrow> UF_find n s = Some (n, s)"
  unfolding is_root_iff by (subst UF_find.simps) auto

lemma UF_find_total:
  assumes wf: "wf R" "trans R"
  shows "uf_ok s \<Longrightarrow> (uf_rel s)\<inverse> \<subseteq> R \<Longrightarrow>
    \<exists>r s'. UF_find n s = Some (r, s') \<and> root_of s n r \<and> uf_ok s' \<and> same_sets s s' \<and> uf_frame s s'"
  using wf(1)
proof (induction n arbitrary: s rule: wf_induct_rule)
  case (less n)
  show ?case
  proof (cases "is_root s n")
    case True
    then show ?thesis using UF_find_root [OF True] root_of_root [OF True] less.prems(1) by (simp add: same_sets_def)
  next
    case False
    then obtain p where np: "(n, p) \<in> uf_rel s" by (auto simp: is_root_def)
    have pn: "(p, n) \<in> R" using np less.prems(2) by auto
    show ?thesis
    proof (cases "is_root s p")
      case True
      then have "UF_find n s = UF_find p s" unfolding is_root_iff UF_find_step [OF np] by (auto split: option.split)
      with less.IH [OF pn less.prems] root_of_step [OF np] show ?thesis by simp
    next
      case False
      then obtain q where pq: "(p, q) \<in> uf_rel s" by (auto simp: is_root_def)
      let ?s = "upd_v n (\<lambda>x. x\<lparr>v_UF_parent := Some q\<rparr>) s"
      note h = halve [OF less.prems(1) np pq]
      have "(uf_rel ?s)\<inverse> \<subseteq> R"
        by (rule subset_trans [OF h(4)]) (use wf(2) less.prems(2) in \<open>metis trancl_id trancl_mono_subset\<close>)
      moreover have "(q, n) \<in> R" using wf(2) pn pq less.prems(2) by (auto dest: transD)
      moreover have "UF_find n s = UF_find q ?s"
        using pq unfolding UF_find_step [OF np] by (auto simp: uf_rel_def)
      ultimately obtain r s' where "UF_find n s = Some (r, s')" "root_of ?s q r" "uf_ok s'" "same_sets ?s s'" "uf_frame ?s s'"
        using less.IH [OF _ h(1)] by metis
      moreover have "root_of s n r \<longleftrightarrow> root_of ?s q r"
        using h(2) root_of_step [OF h(3)] by (simp add: same_sets_def)
      ultimately show ?thesis using h(2) uf_frame_trans [OF uf_frame_upd(1)] by (auto simp: same_sets_def)
    qed
  qed
qed

lemma UF_find_spec:
  assumes "uf_ok s"
  shows "\<exists>r s'. UF_find n s = Some (r, s') \<and> root_of s n r \<and> uf_ok s' \<and> same_sets s s' \<and> uf_frame s s'"
proof -
  have "wf (((uf_rel s)\<inverse>)\<^sup>+)" using assms wf_trancl by (simp add: uf_ok_def)
  then show ?thesis using UF_find_total [OF _ trans_trancl assms] by blast
qed

section \<open>Union\<close>

lemma UF_init_spec:
  assumes ok: "uf_ok s"
  shows "\<exists>r s'. UF_init u s = Some (r, s') \<and> root_of s u r \<and> uf_ok s' \<and> same_sets s s' \<and> uf_frame s s'"
proof (cases "v_UF_parent (vnodes s u) = None")
  case False
  then have "UF_init u s = UF_find u s" unfolding UF_init_def by (rule if_not_P)
  with UF_find_spec [OF ok] show ?thesis by metis
next
  case True
  let ?s = "upd_v u (\<lambda>x. x\<lparr>v_UF_parent := Some u, v_UF_size := 1\<rparr>) s"
  have rel: "uf_rel ?s = uf_rel s" using True by (auto simp: uf_rel_def split: if_splits)
  then have "root_of ?s n r \<longleftrightarrow> root_of s n r" for n r by (simp add: root_of_def is_root_def)
  moreover have "is_root s u" using True by (simp add: is_root_iff)
  moreover have "?s = upd_v u (\<lambda>x. x\<lparr>v_UF_size := 1\<rparr>) (upd_v u (\<lambda>x. x\<lparr>v_UF_parent := Some u\<rparr>) s)" by (simp add: upd_v_def)
  then have "uf_frame s ?s" using uf_frame_trans [OF uf_frame_upd(1) uf_frame_upd(2)] by simp
  ultimately show ?thesis using True ok rel root_of_root by (simp add: UF_init_def same_sets_def uf_ok_def)
qed

text \<open>Linking one root below another.\<close>

lemma UF_link_spec:
  assumes ok: "uf_ok s" and u: "is_root s u" and v: "is_root s v" and ne: "u \<noteq> v"
  shows "uf_ok (UF_link u v s)" and "uf_frame s (UF_link u v s)"
    and "root_of (UF_link u v s) n r \<longleftrightarrow> (if root_of s n u then r = v else root_of s n r)"
proof -
  let ?s = "UF_link u v s"
  have par: "v_UF_parent (vnodes ?s m) = (if m = u then Some v else v_UF_parent (vnodes s m))" for m
    by (simp add: UF_link_def Let_def)
  show "uf_frame s ?s" unfolding UF_link_def Let_def
    using uf_frame_trans [OF uf_frame_upd(1) uf_frame_upd(2)] by (simp add: upd_v_def)
  have rel: "uf_rel ?s = insert (u, v) (uf_rel s)" using u ne unfolding is_root_iff uf_rel_def par by (auto split: if_splits)
  have wf: "wf ((uf_rel s)\<inverse>)" using ok by (simp add: uf_ok_def)
  have "(u, v) \<notin> ((uf_rel s)\<inverse>)\<^sup>*"
    using v ne unfolding is_root_def by (metis Domain.DomainI converseD rtranclE rtrancl_converseD converse_rtranclE)
  moreover have "(insert (u, v) (uf_rel s))\<inverse> = insert (v, u) ((uf_rel s)\<inverse>)" by auto
  ultimately show ok': "uf_ok ?s" unfolding uf_ok_def rel using wf by (simp add: wf_insert)
  have root: "is_root ?s m \<longleftrightarrow> m \<noteq> u \<and> is_root s m" for m using u by (auto simp: is_root_def rel)
  from wf show "root_of ?s n r \<longleftrightarrow> (if root_of s n u then r = v else root_of s n r)"
  proof (induction n rule: wf_induct_rule)
    case (less n)
    show ?case
    proof (cases "is_root s n")
      case True
      show ?thesis
      proof (cases "n = u")
        case u: True
        have "root_of ?s n r \<longleftrightarrow> root_of ?s v r" using root_of_step [of n v ?s r] by (simp add: rel u)
        also have "\<dots> \<longleftrightarrow> r = v" using root_of_root [of ?s v r] v ne root by simp
        finally show ?thesis using root_of_root [OF True, of u] u by simp
      next
        case False
        then show ?thesis using root_of_root [of ?s n r] root_of_root [OF True] True root by auto
      qed
    next
      case False
      then obtain p where p: "(n, p) \<in> uf_rel s" by (auto simp: is_root_def)
      then have "root_of ?s n r \<longleftrightarrow> root_of ?s p r" using root_of_step [of n p ?s r] by (simp add: rel)
      with less [of p] p root_of_step [OF p] show ?thesis by simp
    qed
  qed
qed

text \<open>
  C7. \<open>UF_union\<close> returns on every forest of parents and merges exactly the two sets: afterwards the nodes of
  both have the returned root, every other node keeps its root, and nothing but parents and sizes has
  changed. So \<open>UF_find\<close> gives the same root for two nodes just when unions have joined them.
\<close>

theorem uf_union_merges:
  assumes "uf_ok s" and "root_of s u ru" and "root_of s v rv"
  shows "\<exists>w s'. UF_union u v s = Some (w, s') \<and> uf_ok s' \<and> uf_frame s s' \<and> (u \<noteq> v \<longrightarrow> w \<in> {ru, rv}) \<and>
    (\<forall>n r. root_of s' n r \<longleftrightarrow> (if u \<noteq> v \<and> (root_of s n ru \<or> root_of s n rv) then r = w else root_of s n r)) \<and>
    (\<forall>n. \<exists>r s2. UF_find n s' = Some (r, s2) \<and> root_of s' n r)"
proof -
  have "\<exists>w s'. UF_union u v s = Some (w, s') \<and> uf_ok s' \<and> uf_frame s s' \<and> (u \<noteq> v \<longrightarrow> w \<in> {ru, rv}) \<and>
    (\<forall>n r. root_of s' n r \<longleftrightarrow> (if u \<noteq> v \<and> (root_of s n ru \<or> root_of s n rv) then r = w else root_of s n r))"
  proof (cases "u = v")
    case True
    then show ?thesis using assms(1) by (simp add: UF_union_def)
  next
    case False
    from UF_init_spec [OF assms(1), of u] assms(2) obtain s1 where
      s1: "UF_init u s = Some (ru, s1)" "uf_ok s1" "same_sets s s1" "uf_frame s s1"
      using root_of_unique [OF assms(1)] by metis
    from UF_init_spec [OF s1(2), of v] assms(3) obtain s2 where
      s2: "UF_init v s1 = Some (rv, s2)" "uf_ok s2" "same_sets s1 s2" "uf_frame s1 s2"
      using root_of_unique [OF s1(2)] s1(3) by (metis same_sets_def)
    have ss: "root_of s2 n r \<longleftrightarrow> root_of s n r" for n r using s1(3) s2(3) by (simp add: same_sets_def)
    have fr: "uf_frame s s2" using s1(4) s2(4) by (rule uf_frame_trans)
    show ?thesis
    proof (cases "ru = rv")
      case True
      then have "UF_union u v s = Some (ru, s2)" using False s1(1) s2(1) by (simp add: UF_union_def)
      moreover have "root_of s n r \<longleftrightarrow> r = ru" if "root_of s n ru" for n r using root_of_unique [OF assms(1)] that by blast
      ultimately show ?thesis using s2(2) fr ss True False by (intro exI [of _ ru] exI [of _ s2]) auto
    next
      case ne: False
      have roots: "is_root s2 ru" "is_root s2 rv" using assms(2,3) unfolding ss [symmetric] by (simp_all add: root_of_def)
      have un: "\<not> (root_of s n ru \<and> root_of s n rv)" for n using root_of_unique [OF assms(1), of n ru rv] ne by blast
      have one: "root_of s n r \<longleftrightarrow> r = q" if "root_of s n q" for n r q using root_of_unique [OF assms(1)] that by blast
      show ?thesis
      proof (cases "v_id (vnodes s2 ru) > v_id (vnodes s2 rv)")
        case True
        then have "UF_union u v s = Some (rv, UF_link ru rv s2)" using False ne s1(1) s2(1) by (simp add: UF_union_def)
        with UF_link_spec [OF s2(2) roots ne] uf_frame_trans [OF fr] show ?thesis
          using one by (intro exI [of _ rv] exI [of _ "UF_link ru rv s2"]) (auto simp: ss False)
      next
        case nt: False
        then have "UF_union u v s = Some (ru, UF_link rv ru s2)" using False ne s1(1) s2(1) by (simp add: UF_union_def)
        with UF_link_spec [OF s2(2) roots(2,1) ne [symmetric]] uf_frame_trans [OF fr] show ?thesis
          using one by (intro exI [of _ ru] exI [of _ "UF_link rv ru s2"]) (auto simp: ss False)
      qed
    qed
  qed
  moreover have "\<exists>r s2. UF_find n s' = Some (r, s2) \<and> root_of s' n r" if "uf_ok s'" for n s'
    using UF_find_spec [OF that] by blast
  ultimately show ?thesis by metis
qed

text \<open>Four nodes, the second and the last in one set; the third points back to the first, past the set.\<close>

definition rank_graph :: fgraph where
  "rank_graph = two_cycle\<lparr>
     vnodes := (\<lambda>_. zero_node)(1 := zero_node\<lparr>v_UF_parent := Some 1, v_UF_size := 2\<rparr>, 3 := zero_node\<lparr>v_UF_parent := Some 1\<rparr>),
     vedges := (\<lambda>_. blank_edge 0 0)(0 := (blank_edge 0 1)\<lparr>e_weight := 1, e_minlen := 1\<rparr>,
                                  1 := (blank_edge 3 2)\<lparr>e_weight := 1, e_minlen := 1\<rparr>,
                                  2 := (blank_edge 2 0)\<lparr>e_weight := 2, e_minlen := 1\<rparr>,
                                  3 := (blank_edge 1 3)\<lparr>e_weight := 1, e_minlen := 1\<rparr>),
     nlist := None, comp := [], vfresh := 4, efresh := 4\<rparr>"

lemma rank_graph_rel: "uf_rel rank_graph = {(3, 1)}"
  by (auto simp: uf_rel_def rank_graph_def zero_node_def split: if_splits)

lemma rank_graph_ok: "uf_ok rank_graph"
  unfolding uf_ok_def by (rule wf_subset [OF wf_less_than]) (auto simp: rank_graph_rel)

lemma rank_graph_root: "is_root rank_graph n \<longleftrightarrow> n \<noteq> 3"
  by (auto simp: is_root_def rank_graph_rel)

lemma rank_graph_roots: "root_of rank_graph n r \<longleftrightarrow> (if n = 3 then r = 1 else r = n)"
proof (cases "n = 3")
  case True
  have "(3, 1) \<in> uf_rel rank_graph" by (simp add: rank_graph_rel)
  from root_of_step [OF this] root_of_root [of rank_graph 1 r] True show ?thesis by (simp add: rank_graph_root)
next
  case False
  then show ?thesis using root_of_root [of rank_graph n r] by (simp add: rank_graph_root)
qed

lemma uf_union_merges_witness:
  "\<exists>w s'. UF_union 0 3 rank_graph = Some (w, s') \<and> uf_ok s' \<and> uf_frame rank_graph s' \<and> ((0 :: nat) \<noteq> 3 \<longrightarrow> w \<in> {0, 1}) \<and>
    (\<forall>n r. root_of s' n r \<longleftrightarrow> (if (0 :: nat) \<noteq> 3 \<and> (root_of rank_graph n 0 \<or> root_of rank_graph n 1) then r = w else root_of rank_graph n r)) \<and>
    (\<forall>n. \<exists>r s2. UF_find n s' = Some (r, s2) \<and> root_of s' n r)"
  by (rule uf_union_merges [OF rank_graph_ok]) (simp_all add: rank_graph_roots)

end
