(* ===== verification/Class1.thy ===== *)
theory Class1
  imports Unionfind Ctype
begin

text \<open>
  \<open>lib/dotgen/class1.c\<close>: the edges of the input become edges of the fast graph, between the roots of
  their rank sets, with the marking of the clusters of \<open>cluster.c\<close> before it. The nodes and out-edges
  of a graph come in the order of \<open>agfstnode\<close> and \<open>agfstout\<close>; \<open>constr\<close> gives the attribute
  \<open>constraint\<close> of an edge, where it is declared.
\<close>

section \<open>Constraint edges\<close>

text \<open>\<open>strcasecmp\<close> and the value of \<open>atoi\<close>, of which only whether it is zero is asked.\<close>

definition strcaseeq :: "string \<Rightarrow> string \<Rightarrow> bool" where
  "strcaseeq a b \<longleftrightarrow> gv_tolower_str a = gv_tolower_str b"

definition atoi_zero :: "string \<Rightarrow> bool" where
  "atoi_zero p \<longleftrightarrow> (\<forall>c\<in>set (takeWhile (\<lambda>c. gv_isdigit (schar c)) p). c = CHR ''0'')"

definition mapBool :: "string option \<Rightarrow> bool \<Rightarrow> bool" where
  "mapBool p defaultValue =
    (case p of
       None \<Rightarrow> defaultValue
     | Some [] \<Rightarrow> defaultValue
     | Some (c # cs) \<Rightarrow>
         (if strcaseeq (c # cs) ''false'' then False
          else if strcaseeq (c # cs) ''no'' then False
          else if strcaseeq (c # cs) ''true'' then True
          else if strcaseeq (c # cs) ''yes'' then True
          else if gv_isdigit (schar c) then \<not> atoi_zero (c # cs)
          else defaultValue))"

definition mapbool :: "string option \<Rightarrow> bool" where
  "mapbool p = mapBool p False"

definition nonconstraint_edge :: "(nat \<Rightarrow> string option) option \<Rightarrow> nat \<Rightarrow> bool" where
  "nonconstraint_edge E_constr e =
    (case E_constr of
       None \<Rightarrow> False
     | Some attr \<Rightarrow> (case attr e of None \<Rightarrow> False | Some constr \<Rightarrow> constr \<noteq> [] \<and> \<not> mapbool (Some constr)))"

section \<open>Clusters\<close>

text \<open>A cluster with its nodes, the out-edges it holds, and its leader.\<close>

record cluster =
  cl_nodes :: "nat list"
  cl_out :: "nat \<Rightarrow> nat list"
  cl_leader :: nat

definition CLUSTER :: int where "CLUSTER = 7"

partial_function (option) mark_vnodes :: "nat \<Rightarrow> nat option \<Rightarrow> fgraph \<Rightarrow> fgraph option" where
  "mark_vnodes c e s =
    (case e of
       None \<Rightarrow> Some s
     | Some e \<Rightarrow>
         (let vn = vhead s e in
          if v_type (vnodes s vn) = VIRTUAL then
            (let s1 = upd_v vn (\<lambda>x. x\<lparr>v_clust := Some c\<rparr>) s in mark_vnodes c (hd_opt (outs s1 vn)) s1)
          else Some s))"

primrec mark_edges :: "nat \<Rightarrow> nat list \<Rightarrow> fgraph \<Rightarrow> fgraph option" where
  "mark_edges c [] s = Some s"
| "mark_edges c (orig # es) s =
    (case mark_vnodes c (e_to_virt (vedges s orig)) s of None \<Rightarrow> None | Some s1 \<Rightarrow> mark_edges c es s1)"

text \<open>\<open>agdelete\<close> takes a node and its edges out of the cluster.\<close>

definition drop_member :: "nat \<Rightarrow> fgraph \<Rightarrow> cluster \<Rightarrow> cluster" where
  "drop_member n s cl = cl\<lparr>cl_nodes := remove1 n (cl_nodes cl),
     cl_out := (\<lambda>m. filter (\<lambda>e. vtail s e \<noteq> n \<and> vhead s e \<noteq> n) (cl_out cl m))\<rparr>"

primrec mark_members :: "nat \<Rightarrow> nat list \<Rightarrow> cluster \<Rightarrow> fgraph \<Rightarrow> (cluster \<times> fgraph) option" where
  "mark_members c [] cl s = Some (cl, s)"
| "mark_members c (n # ns) cl s =
    (if v_ranktype (vnodes s n) \<noteq> 0 then mark_members c ns (drop_member n s cl) s
     else
       (case UF_setname n (cl_leader cl) s of
          None \<Rightarrow> None
        | Some s1 \<Rightarrow>
            (case mark_edges c (cl_out cl n) (upd_v n (\<lambda>x. x\<lparr>v_clust := Some c, v_ranktype := CLUSTER\<rparr>) s1) of
               None \<Rightarrow> None
             | Some s2 \<Rightarrow> mark_members c ns cl s2)))"

primrec mark_each :: "nat \<Rightarrow> cluster list \<Rightarrow> fgraph \<Rightarrow> (cluster list \<times> fgraph) option" where
  "mark_each c [] s = Some ([], s)"
| "mark_each c (cl # cls) s =
    (case mark_members c (cl_nodes cl) cl s of
       None \<Rightarrow> None
     | Some (cl1, s1) \<Rightarrow> map_option (\<lambda>(cls1, s2). (cl1 # cls1, s2)) (mark_each (Suc c) cls s1))"

definition unmark_node :: "nat \<Rightarrow> fgraph \<Rightarrow> fgraph" where
  "unmark_node n s =
    (let s1 = (if v_ranktype (vnodes s n) = CLUSTER then UF_singleton n s else s)
     in upd_v n (\<lambda>x. x\<lparr>v_clust := None\<rparr>) s1)"

definition mark_clusters :: "nat list \<Rightarrow> cluster list \<Rightarrow> fgraph \<Rightarrow> (cluster list \<times> fgraph) option" where
  "mark_clusters ns cls s = mark_each 1 cls (fold unmark_node ns s)"

section \<open>Edges between clusters\<close>

definition ROUND :: "real \<Rightarrow> int" where
  "ROUND f = (if f \<ge> 0 then \<lfloor>f + 1 / 2\<rfloor> else \<lceil>f - 1 / 2\<rceil>)"

definition make_aux_edge :: "nat \<Rightarrow> nat \<Rightarrow> real \<Rightarrow> int \<Rightarrow> fgraph \<Rightarrow> nat \<times> fgraph" where
  "make_aux_edge u v len wt s =
    (let e = efresh s; l = (if len > of_int INT_MAX then of_int INT_MAX else len);
         s1 = upd_e e (\<lambda>_. (blank_edge u v)\<lparr>e_type := NORMAL, e_minlen := ROUND l, e_weight := wt\<rparr>) (s\<lparr>efresh := Suc e\<rparr>)
     in (e, fast_edge e s1))"

definition CL_BACK :: int where "CL_BACK = 10"

definition clust_offset :: "cluster list \<Rightarrow> nat \<Rightarrow> fgraph \<Rightarrow> int" where
  "clust_offset cls n s =
    (case v_clust (vnodes s n) of
       None \<Rightarrow> 0
     | Some c \<Rightarrow> v_rank (vnodes s n) - v_rank (vnodes s (cl_leader (cls ! (c - 1)))))"

definition interclust1 :: "cluster list \<Rightarrow> nat \<Rightarrow> nat \<Rightarrow> nat \<Rightarrow> fgraph \<Rightarrow> fgraph option" where
  "interclust1 cls t h e s =
    (let offset = e_minlen (vedges s e) + clust_offset cls (vtail s e) s - clust_offset cls (vhead s e) s;
         t_len = (if offset > 0 then 0 else - offset); h_len = (if offset > 0 then offset else 0)
     in case virtual_node s of None \<Rightarrow> None | Some (v, s1) \<Rightarrow>
       (let s2 = upd_v v (\<lambda>x. x\<lparr>v_type := SLACKNODE\<rparr>) s1 in
        case UF_find t s2 of None \<Rightarrow> None | Some (t0, s3) \<Rightarrow>
       (case UF_find h s3 of None \<Rightarrow> None | Some (h0, s4) \<Rightarrow>
          (let (rt, s5) = make_aux_edge v t0 (of_int t_len) (CL_BACK * e_weight (vedges s4 e)) s4;
               (rh, s6) = make_aux_edge v h0 (of_int h_len) (e_weight (vedges s5 e)) s5
           in Some (upd_e rt (\<lambda>x. x\<lparr>e_to_orig := Some e\<rparr>) (upd_e rh (\<lambda>x. x\<lparr>e_to_orig := Some e\<rparr>) s6))))))"

section \<open>All edges\<close>

definition class1_edge :: "(nat \<Rightarrow> string option) option \<Rightarrow> cluster list \<Rightarrow> nat \<Rightarrow> fgraph \<Rightarrow> fgraph option" where
  "class1_edge E_constr cls e s =
    (if e_to_virt (vedges s e) \<noteq> None then Some s
     else if nonconstraint_edge E_constr e then Some s
     else
       (case UF_find (vtail s e) s of None \<Rightarrow> None | Some (t, s1) \<Rightarrow>
       (case UF_find (vhead s1 e) s1 of None \<Rightarrow> None | Some (h, s2) \<Rightarrow>
          if t = h then Some s2
          else if v_clust (vnodes s2 t) \<noteq> None \<or> v_clust (vnodes s2 h) \<noteq> None
          then interclust1 cls (vtail s2 e) (vhead s2 e) e s2
          else
            (case find_fast_edge s2 t h of
               Some rep \<Rightarrow> merge_oneway e rep s2
             | None \<Rightarrow> Some (snd (virtual_edge s2 t h (Some e)))))))"

primrec class1_edges :: "(nat \<Rightarrow> string option) option \<Rightarrow> cluster list \<Rightarrow> nat list \<Rightarrow> fgraph \<Rightarrow> fgraph option" where
  "class1_edges E_constr cls [] s = Some s"
| "class1_edges E_constr cls (e # es) s =
    (case class1_edge E_constr cls e s of None \<Rightarrow> None | Some s1 \<Rightarrow> class1_edges E_constr cls es s1)"

definition class1 :: "(nat \<Rightarrow> string option) option \<Rightarrow> nat list \<Rightarrow> (nat \<Rightarrow> nat list) \<Rightarrow> cluster list \<Rightarrow> fgraph
    \<Rightarrow> (cluster list \<times> fgraph) option" where
  "class1 E_constr ns out cls s =
    (case mark_clusters ns cls s of
       None \<Rightarrow> None
     | Some (cls1, s1) \<Rightarrow> map_option (\<lambda>s2. (cls1, s2)) (class1_edges E_constr cls1 (concat (map out ns)) s1))"

end
