(* ===== verification/Class1_Correct.thy ===== *)
theory Class1_Correct
  imports Class1
begin

text \<open>
  What \<open>class1\<close> makes of a graph without clusters: for every constraint edge between two rank sets
  there is a fast edge between their roots, at least as long; there are no others, and the weights
  add up.
\<close>

section \<open>Steps that keep the edges\<close>

text \<open>What of a node neither sets nor edges change.\<close>

definition same_rest :: "fgraph \<Rightarrow> fgraph \<Rightarrow> bool" where
  "same_rest s s' \<longleftrightarrow> comp s' = comp s \<and> nlist s' = nlist s \<and>
     (\<forall>n. v_next (vnodes s' n) = v_next (vnodes s n) \<and> v_mark (vnodes s' n) = v_mark (vnodes s n) \<and>
        v_onstack (vnodes s' n) = v_onstack (vnodes s n) \<and> v_clust (vnodes s' n) = v_clust (vnodes s n) \<and>
        v_flat_out (vnodes s' n) = v_flat_out (vnodes s n) \<and> v_flat_in (vnodes s' n) = v_flat_in (vnodes s n) \<and>
        v_type (vnodes s' n) = v_type (vnodes s n))"

lemma same_rest_refl [simp]: "same_rest s s"
  by (simp add: same_rest_def)

lemma same_rest_trans: "same_rest s s1 \<Longrightarrow> same_rest s1 s2 \<Longrightarrow> same_rest s s2"
  by (simp add: same_rest_def)

lemma uf_frame_rest: "uf_frame s s' \<Longrightarrow> same_rest s s'"
  by (auto simp: uf_frame_def uf_set_def same_rest_def)

section \<open>A new virtual edge\<close>

lemma virtual_edge_spec:
  assumes ok: "fg_ok s" and e: "e < efresh s" "\<not> fast s e" "e_to_virt (vedges s e) = None"
  shows "\<exists>s'. virtual_edge s t h (Some e) = (efresh s, s') \<and> fg_ok s' \<and> (\<forall>f. fast s' f \<longleftrightarrow> fast s f \<or> f = efresh s) \<and>
    efresh s' = Suc (efresh s) \<and> same_rest s s' \<and> same_sets s s' \<and> uf_ok s' = uf_ok s \<and>
    vedges s' = (vedges s)(efresh s := derived_edge (vedges s e) e t h, e := (vedges s e)\<lparr>e_to_virt := Some (efresh s)\<rparr>)"
proof -
  define c where "c = efresh s"
  define q where "q = derived_edge (vedges s e) e t h"
  define s2 where "s2 = s\<lparr>efresh := Suc c, vedges := (vedges s)(c := q, e := (vedges s e)\<lparr>e_to_virt := Some c\<rparr>)\<rparr>"
  have ce: "c \<noteq> e" using e(1) by (simp add: c_def)
  have n: "new_virtual_edge s t h (Some e) = (c, s2)"
    using e(3) ce by (simp add: new_virtual_edge_def Let_def c_def [symmetric] q_def [symmetric] s2_def)
      (simp add: upd_e_def ce ce [symmetric] fun_upd_twist)
  have q: "e_tail q = t" "e_head q = h" "e_to_virt q = None" by (simp_all add: q_def derived_edge_def blank_edge_def)
  have v2: "vnodes s2 = vnodes s" "efresh s2 = Suc c" by (simp_all add: s2_def)
  have nc: "c \<notin> set (outs s n) \<and> c \<notin> set (ins s n)" for n
    using fg_okD(3,4) [OF ok] by (metis c_def fast_def less_irrefl)
  have ne: "e \<notin> set (outs s n) \<and> e \<notin> set (ins s n)" for n using fg_okD(3,4) [OF ok] e(2) by blast
  have edc: "vtail s2 c = t" "vhead s2 c = h" using q ce by (simp_all add: s2_def)
  have ed: "vedges s2 g = vedges s g" if "g \<noteq> c" "g \<noteq> e" for g using that by (simp add: s2_def)
  have fst2: "fast s2 g = fast s g" for g
  proof (cases "g = c")
    case True
    then show ?thesis using nc by (simp add: fast_def v2)
  next
    case False
    then show ?thesis by (simp add: fast_def v2 s2_def)
  qed
  have ok2: "fg_ok s2"
    unfolding fg_ok_def v2(1,2)
  proof (intro conjI allI ballI)
    fix n g assume g: "g \<in> set (outs s n)"
    then have "vedges s2 g = vedges s g" using nc ne ed by metis
    with fg_okD(3) [OF ok g] show "vtail s2 g = n" "g \<in> set (ins s (vhead s2 g))" "g < Suc c" "e_to_virt (vedges s2 g) = None"
      by (simp_all add: c_def)
  next
    fix n g assume g: "g \<in> set (ins s n)"
    then have "vedges s2 g = vedges s g" using nc ne ed by metis
    with fg_okD(4) [OF ok g] show "vhead s2 g = n" "g \<in> set (outs s (vtail s2 g))" by (simp_all add: fast_def)
  qed (use fg_okD(1,2) [OF ok] in simp_all)
  have nf: "\<not> fast s2 c" using nc by (simp add: fast_def v2)
  have "e_to_virt (vedges s2 c) = None" using q ce by (simp add: s2_def)
  note ins = insert_ok [OF ok2 nf _ this, unfolded v2(2), OF lessI]
  note il = fast_edge_lists [OF edc]
  have "virtual_edge s t h (Some e) = (c, fast_edge c s2)" by (simp add: virtual_edge_def n)
  moreover have "same_rest s (fast_edge c s2)" by (simp add: same_rest_def fast_edge_def Let_def s2_def)
  moreover have "v_UF_parent (vnodes (fast_edge c s2) n) = v_UF_parent (vnodes s n)" for n by (simp add: fast_edge_def Let_def s2_def)
  note same_parents [where s = s and s' = "fast_edge c s2", OF this]
  moreover have "vedges (fast_edge c s2) = (vedges s)(c := q, e := (vedges s e)\<lparr>e_to_virt := Some c\<rparr>)"
    unfolding il(3) by (simp add: s2_def)
  ultimately show ?thesis using ins fst2 il(4) v2(2) unfolding c_def [symmetric] q_def [symmetric]
    by (intro exI [of _ "fast_edge c s2"] conjI allI) simp_all
qed


section \<open>The edges made so far\<close>

text \<open>An edge that constrains the ranks of two different sets.\<close>

definition proper :: "(nat \<Rightarrow> string option) option \<Rightarrow> fgraph \<Rightarrow> nat \<Rightarrow> bool" where
  "proper E_constr s e \<longleftrightarrow> \<not> nonconstraint_edge E_constr e \<and> \<not> (\<exists>r. root_of s (vtail s e) r \<and> root_of s (vhead s e) r)"

text \<open>The fast edge \<open>f\<close> runs between the roots of the ends of \<open>e\<close>.\<close>

definition runs :: "fgraph \<Rightarrow> nat \<Rightarrow> fgraph \<Rightarrow> nat \<Rightarrow> bool" where
  "runs s0 e s f \<longleftrightarrow> root_of s0 (vtail s0 e) (vtail s f) \<and> root_of s0 (vhead s0 e) (vhead s f)"

text \<open>The input, before any edge is made.\<close>

definition class1_input :: "fgraph \<Rightarrow> nat list \<Rightarrow> int \<Rightarrow> bool" where
  "class1_input s es m \<longleftrightarrow> uf_ok s \<and> (\<forall>n. outs s n = [] \<and> ins s n = []) \<and> distinct es \<and>
     (\<forall>e\<in>set es. e < efresh s \<and> e_to_virt (vedges s e) = None \<and> 0 \<le> e_weight (vedges s e) \<and>
        0 \<le> e_minlen (vedges s e) \<and> e_minlen (vedges s e) \<le> m) \<and>
     (\<Sum>e\<leftarrow>es. e_weight (vedges s e)) < 2 ^ 31 \<and> (\<forall>n. v_clust (vnodes s n) = None)"

definition class1_inv :: "(nat \<Rightarrow> string option) option \<Rightarrow> fgraph \<Rightarrow> int \<Rightarrow> nat list \<Rightarrow> fgraph \<Rightarrow> bool" where
  "class1_inv E_constr s0 m P s \<longleftrightarrow>
     uf_ok s \<and> same_sets s0 s \<and> same_rest s0 s \<and> fg_ok s \<and> efresh s0 \<le> efresh s \<and>
     (\<forall>e < efresh s0. \<exists>x. vedges s e = (vedges s0 e)\<lparr>e_to_virt := x\<rparr> \<and> (e \<notin> set P \<longrightarrow> x = e_to_virt (vedges s0 e))) \<and>
     (\<forall>f. fast s f \<longrightarrow> efresh s0 \<le> f \<and> vtail s f \<noteq> vhead s f \<and> 0 \<le> e_weight (vedges s f) \<and>
        0 \<le> e_minlen (vedges s f) \<and> e_minlen (vedges s f) \<le> m \<and> (\<exists>e\<in>set P. proper E_constr s0 e \<and> runs s0 e s f)) \<and>
     total_weight s = (\<Sum>e\<leftarrow>filter (proper E_constr s0) P. e_weight (vedges s0 e)) \<and> fast_count s \<le> length P \<and>
     (\<forall>e\<in>set P. proper E_constr s0 e \<longrightarrow> (\<exists>f. fast s f \<and> runs s0 e s f \<and> e_minlen (vedges s0 e) \<le> e_minlen (vedges s f)))"

lemma class1_inv_frame:
  assumes inv: "class1_inv E s0 m P s" and f: "uf_frame s s'" and u: "uf_ok s'" "same_sets s s'"
  shows "class1_inv E s0 m P s'"
proof -
  note d = uf_frameD [OF f]
  note sl = same_lists [where s = s and s' = s', OF d(5,6,1,2)]
  have "same_rest s0 s'" using inv same_rest_trans [OF _ uf_frame_rest [OF f]] by (simp add: class1_inv_def)
  moreover have "same_sets s0 s'" using inv same_sets_trans [OF _ u(2)] by (simp add: class1_inv_def)
  moreover have "runs s0 e s' f = runs s0 e s f" for e f by (simp add: runs_def d(1))
  ultimately show ?thesis using inv u(1) unfolding class1_inv_def sl d(1,2) by simp
qed

lemma class1_inv_skip:
  assumes "class1_inv E s0 m P s" and "\<not> proper E s0 e"
  shows "class1_inv E s0 m (P @ [e]) s"
  using assms unfolding class1_inv_def by auto

text \<open>A new edge between the roots \<open>t\<close> and \<open>h\<close>.\<close>

lemma class1_inv_new:
  assumes inv: "class1_inv E s0 m P s" and inp: "class1_input s0 es m" and e: "e \<in> set es" "e \<notin> set P" "proper E s0 e"
    and th: "root_of s0 (vtail s0 e) t" "root_of s0 (vhead s0 e) h" "t \<noteq> h"
  shows "class1_inv E s0 m (P @ [e]) (snd (virtual_edge s t h (Some e)))"
proof -
  have ok: "fg_ok s" and fe: "efresh s0 \<le> efresh s" and es: "e < efresh s0" using inv inp e(1) by (simp_all add: class1_inv_def class1_input_def)
  have ve: "vedges s e = vedges s0 e"
  proof -
    obtain x where "vedges s e = (vedges s0 e)\<lparr>e_to_virt := x\<rparr>" "x = e_to_virt (vedges s0 e)"
      using inv es e(2) unfolding class1_inv_def by blast
    then show ?thesis by simp
  qed
  have e0: "e_to_virt (vedges s0 e) = None" "0 \<le> e_weight (vedges s0 e)" "0 \<le> e_minlen (vedges s0 e)" "e_minlen (vedges s0 e) \<le> m"
    using inp e(1) by (simp_all add: class1_input_def)
  have fl: "efresh s0 \<le> f" if "fast s f" for f using inv that by (simp add: class1_inv_def)
  have nf: "\<not> fast s e" using fl [of e] es by auto
  have ef: "e < efresh s" and tv: "e_to_virt (vedges s e) = None" using es fe ve e0(1) by simp_all
  from virtual_edge_spec [OF ok ef nf tv, of t h, unfolded ve] obtain s' where
    s': "virtual_edge s t h (Some e) = (efresh s, s')" "fg_ok s'" "\<And>f. fast s' f \<longleftrightarrow> fast s f \<or> f = efresh s"
    "efresh s' = Suc (efresh s)" "same_rest s s'" "same_sets s s'" "uf_ok s' = uf_ok s"
    "vedges s' = (vedges s)(efresh s := derived_edge (vedges s0 e) e t h, e := (vedges s0 e)\<lparr>e_to_virt := Some (efresh s)\<rparr>)"
    by blast
  let ?c = "efresh s"
  have ce: "?c \<noteq> e" using es fe by simp
  have nc: "\<not> fast s ?c" using fg_okD(3) [OF ok] unfolding fast_def by blast
  have vc: "vedges s' ?c = derived_edge (vedges s0 e) e t h" using ce by (simp add: s'(8))
  have vf: "vedges s' f = vedges s f" if "fast s f" for f using that nc nf s'(8) by auto
  have rc: "runs s0 e s' ?c" using th by (simp add: runs_def vc derived_edge_def blank_edge_def)
  have rf: "runs s0 g s' f = runs s0 g s f" if "fast s f" for g f by (simp add: runs_def vf [OF that])
  have tw: "total_weight s' = total_weight s + e_weight (vedges s0 e)"
  proof -
    have "{f. fast s' f} = insert ?c {f. fast s f}" using s'(3) by auto
    then have "total_weight s' = e_weight (vedges s' ?c) + (\<Sum>f | fast s f. e_weight (vedges s' f))"
      unfolding total_weight_def using nc fast_finite [OF ok] by simp
    moreover have "(\<Sum>f | fast s f. e_weight (vedges s' f)) = total_weight s" unfolding total_weight_def
      by (rule sum.cong) (simp_all add: vf)
    ultimately show ?thesis by (simp add: vc derived_edge_def blank_edge_def)
  qed
  have fc: "fast_count s' = Suc (fast_count s)"
  proof -
    have "{f. fast s' f} = insert ?c {f. fast s f}" using s'(3) by auto
    then show ?thesis unfolding fast_count_def using nc fast_finite [OF ok] by simp
  qed
  have "class1_inv E s0 m (P @ [e]) s'"
    unfolding class1_inv_def
  proof (intro conjI allI impI ballI)
    show "fast_count s' \<le> length (P @ [e])" using fc inv by (simp add: class1_inv_def)
    show "uf_ok s'" "same_sets s0 s'" "same_rest s0 s'" "efresh s0 \<le> efresh s'"
      using inv s' same_sets_trans same_rest_trans by (auto simp: class1_inv_def)
    show "fg_ok s'" by (rule s'(2))
    show "total_weight s' = (\<Sum>e\<leftarrow>filter (proper E s0) (P @ [e]). e_weight (vedges s0 e))"
      using inv tw e(3) by (simp add: class1_inv_def)
  next
    fix g assume g: "g < efresh s0"
    show "\<exists>x. vedges s' g = (vedges s0 g)\<lparr>e_to_virt := x\<rparr> \<and> (g \<notin> set (P @ [e]) \<longrightarrow> x = e_to_virt (vedges s0 g))"
    proof (cases "g = e")
      case True
      then show ?thesis using s'(8) by auto
    next
      case False
      then have "vedges s' g = vedges s g" using g fe s'(8) by auto
      with inv g show ?thesis by (auto simp: class1_inv_def)
    qed
  next
    fix f assume "fast s' f"
    then consider "fast s f" | "f = ?c" using s'(3) by blast
    note f = this
    have old: "efresh s0 \<le> f \<and> vtail s f \<noteq> vhead s f \<and> 0 \<le> e_weight (vedges s f) \<and> 0 \<le> e_minlen (vedges s f) \<and>
        e_minlen (vedges s f) \<le> m \<and> (\<exists>e\<in>set P. proper E s0 e \<and> runs s0 e s f)" if "fast s f"
      using inv that unfolding class1_inv_def by blast
    have new: "vtail s' ?c = t" "vhead s' ?c = h" "e_weight (vedges s' ?c) = e_weight (vedges s0 e)"
      "e_minlen (vedges s' ?c) = e_minlen (vedges s0 e)" by (simp_all add: vc derived_edge_def blank_edge_def)
    show "efresh s0 \<le> f" "vtail s' f \<noteq> vhead s' f" "0 \<le> e_weight (vedges s' f)" "0 \<le> e_minlen (vedges s' f)"
      "e_minlen (vedges s' f) \<le> m"
      by (rule f; use old vf new th(3) e0 fe in simp)+
    from f show "\<exists>g\<in>set (P @ [e]). proper E s0 g \<and> runs s0 g s' f"
    proof cases
      case 1
      then show ?thesis using old rf [OF 1] by auto
    next
      case 2
      then show ?thesis using rc e(3) by auto
    qed
  next
    fix g assume g: "g \<in> set (P @ [e])" "proper E s0 g"
    show "\<exists>f. fast s' f \<and> runs s0 g s' f \<and> e_minlen (vedges s0 g) \<le> e_minlen (vedges s' f)"
    proof (cases "g = e")
      case True
      then show ?thesis using rc s'(3) vc by (intro exI [of _ ?c]) (simp add: derived_edge_def blank_edge_def)
    next
      case False
      then obtain f where "fast s f" "runs s0 g s f" "e_minlen (vedges s0 g) \<le> e_minlen (vedges s f)"
        using inv g by (auto simp: class1_inv_def)
      then show ?thesis using vf rf s'(3) by (intro exI [of _ f]) simp
    qed
  qed
  with s'(1) show ?thesis by simp
qed

text \<open>An edge merged into one between the same roots.\<close>

lemma class1_inv_merge:
  assumes inv: "class1_inv E s0 m P s" and inp: "class1_input s0 es m" and e: "e \<in> set es" "e \<notin> set P" "proper E s0 e"
    and f: "fast s f" "runs s0 e s f" and w: "total_weight s + e_weight (vedges s0 e) < 2 ^ 31"
  shows "\<exists>s'. merge_oneway e f s = Some s' \<and> class1_inv E s0 m (P @ [e]) s'"
proof -
  have ok: "fg_ok s" and fe: "efresh s0 \<le> efresh s" and es: "e < efresh s0" using inv inp e(1) by (simp_all add: class1_inv_def class1_input_def)
  have ve: "vedges s e = vedges s0 e"
  proof -
    obtain x where "vedges s e = (vedges s0 e)\<lparr>e_to_virt := x\<rparr>" "x = e_to_virt (vedges s0 e)"
      using inv es e(2) unfolding class1_inv_def by blast
    then show ?thesis by simp
  qed
  have e0: "e_to_virt (vedges s0 e) = None" "0 \<le> e_weight (vedges s0 e)" "0 \<le> e_minlen (vedges s0 e)" "e_minlen (vedges s0 e) \<le> m"
    using inp e(1) by (simp_all add: class1_input_def)
  have old: "efresh s0 \<le> g \<and> vtail s g \<noteq> vhead s g \<and> 0 \<le> e_weight (vedges s g) \<and> 0 \<le> e_minlen (vedges s g) \<and>
      e_minlen (vedges s g) \<le> m \<and> (\<exists>e\<in>set P. proper E s0 e \<and> runs s0 e s g)" if "fast s g" for g
    using inv that unfolding class1_inv_def by blast
  have nf: "\<not> fast s e" "e \<noteq> f" using old [of e] old [OF f(1)] es by auto
  have fin: "finite {g. fast s g}" by (rule fast_finite [OF ok])
  have f0: "e_to_virt (vedges s f) = None" using fg_okD(3) [OF ok] f(1) unfolding fast_def by blast
  have "e_weight (vedges s f) \<le> total_weight s"
    unfolding total_weight_def using member_le_sum [of f "{g. fast s g}" "\<lambda>g. e_weight (vedges s g)"] f(1) fin old by auto
  then have "e_weight (vedges s e) + e_weight (vedges s f) < 2 ^ 31" using w ve by simp
  with merge_oneway_spec [OF nf(2), of s] ve e0 f0 old [OF f(1)] obtain q where
    q: "merge_oneway e f s = Some (s\<lparr>vedges := (vedges s)(e := (vedges s0 e)\<lparr>e_to_virt := Some f\<rparr>, f := q)\<rparr>)"
    "e_tail q = vtail s f" "e_head q = vhead s f" "e_to_virt q = None" "e_weight q = e_weight (vedges s f) + e_weight (vedges s0 e)"
    "e_minlen q = max (e_minlen (vedges s f)) (e_minlen (vedges s0 e))" by auto
  define s' where "s' = s\<lparr>vedges := (vedges s)(e := (vedges s0 e)\<lparr>e_to_virt := Some f\<rparr>, f := q)\<rparr>"
  have v: "vnodes s' = vnodes s" "efresh s' = efresh s" by (simp_all add: s'_def)
  have ed: "vtail s' g = vtail s g \<and> vhead s' g = vhead s g" for g using q(2,3) ve by (auto simp: s'_def)
  have fst': "fast s' g = fast s g" for g unfolding fast_def v(1) using ed by simp
  have vg: "vedges s' g = vedges s g" if "fast s g" "g \<noteq> f" for g using that nf(1) by (auto simp: s'_def)
  have vf: "vedges s' f = q" by (simp add: s'_def)
  have ok': "fg_ok s'"
  proof -
    have "e_to_virt (vedges s' g) = None" if "g \<in> set (outs s n)" for g n
    proof (cases "g = f")
      case False
      have "fast s g" "e_to_virt (vedges s g) = None" using fg_okD(3) [OF ok that] by simp_all
      then show ?thesis using vg False by simp
    qed (simp add: vf q(4))
    then show ?thesis using ok unfolding fg_ok_def v by (simp add: ed)
  qed
  have runs': "runs s0 g s' x = runs s0 g s x" for g x by (simp add: runs_def ed)
  have wt: "e_weight (vedges s' g) = e_weight (vedges s g) + (if g = f then e_weight (vedges s0 e) else 0)" if "fast s g" for g
    using vg [OF that] vf q(5) by auto
  have "total_weight s' = (\<Sum>g | fast s g. e_weight (vedges s g)) + (\<Sum>g | fast s g. if g = f then e_weight (vedges s0 e) else 0)"
    unfolding total_weight_def fst' using wt by (simp add: sum.distrib)
  then have tw: "total_weight s' = total_weight s + e_weight (vedges s0 e)"
    using fin f(1) by (simp add: sum.delta total_weight_def)
  have ml: "e_minlen (vedges s g) \<le> e_minlen (vedges s' g)" "0 \<le> e_minlen (vedges s' g)" "e_minlen (vedges s' g) \<le> m"
    "0 \<le> e_weight (vedges s' g)" if "fast s g" for g
    using old [OF that] vg [OF that] vf q(5,6) e0 by (cases "g = f"; simp)+
  have "class1_inv E s0 m (P @ [e]) s'"
    unfolding class1_inv_def
  proof (intro conjI allI impI ballI)
    show "fast_count s' \<le> length (P @ [e])" using inv by (simp add: class1_inv_def fast_count_def fst')
    have sp: "v_UF_parent (vnodes s' n) = v_UF_parent (vnodes s n)" for n by (simp add: v)
    show "uf_ok s'" "same_sets s0 s'" "same_rest s0 s'" "efresh s0 \<le> efresh s'"
      using inv same_parents [OF sp] same_sets_trans [of s0 s s'] by (simp_all add: class1_inv_def s'_def same_rest_def)
    show "fg_ok s'" by (rule ok')
    show "total_weight s' = (\<Sum>e\<leftarrow>filter (proper E s0) (P @ [e]). e_weight (vedges s0 e))"
      using inv tw e(3) by (simp add: class1_inv_def)
  next
    fix g assume g: "g < efresh s0"
    show "\<exists>x. vedges s' g = (vedges s0 g)\<lparr>e_to_virt := x\<rparr> \<and> (g \<notin> set (P @ [e]) \<longrightarrow> x = e_to_virt (vedges s0 g))"
    proof (cases "g = e")
      case True
      then show ?thesis using nf(2) by (auto simp: s'_def)
    next
      case False
      moreover have "g \<noteq> f" using g old [OF f(1)] by auto
      ultimately have "vedges s' g = vedges s g" by (simp add: s'_def)
      with inv g show ?thesis by (auto simp: class1_inv_def)
    qed
  next
    fix g assume g: "fast s' g"
    then have g: "fast s g" by (simp add: fst')
    show "efresh s0 \<le> g" "vtail s' g \<noteq> vhead s' g" "0 \<le> e_weight (vedges s' g)" "0 \<le> e_minlen (vedges s' g)"
      "e_minlen (vedges s' g) \<le> m" using old [OF g] ml [OF g] ed by simp_all
    show "\<exists>x\<in>set (P @ [e]). proper E s0 x \<and> runs s0 x s' g" using old [OF g] unfolding runs' by auto
  next
    fix g assume g: "g \<in> set (P @ [e])" "proper E s0 g"
    show "\<exists>x. fast s' x \<and> runs s0 g s' x \<and> e_minlen (vedges s0 g) \<le> e_minlen (vedges s' x)"
    proof (cases "g = e")
      case True
      then show ?thesis using f vf q(6) unfolding fst' runs' by (intro exI [of _ f]) simp
    next
      case False
      then obtain x where x: "fast s x" "runs s0 g s x" "e_minlen (vedges s0 g) \<le> e_minlen (vedges s x)"
        using inv g by (auto simp: class1_inv_def)
      then have "e_minlen (vedges s0 g) \<le> e_minlen (vedges s' x)" using ml(1) [OF x(1)] by linarith
      with x show ?thesis unfolding fst' runs' by blast
    qed
  qed
  with q(1) show ?thesis unfolding s'_def by blast
qed


section \<open>All edges\<close>

lemma class1_edge_step:
  assumes inv: "class1_inv E s0 m P s" and inp: "class1_input s0 es m" and es: "es = P @ e # rest"
  shows "\<exists>s'. class1_edge E cls e s = Some s' \<and> class1_inv E s0 m (P @ [e]) s'"
proof -
  have e: "e \<in> set es" "e \<notin> set P" using inp es by (auto simp: class1_input_def)
  then have e0: "e < efresh s0" "e_to_virt (vedges s0 e) = None" using inp by (simp_all add: class1_input_def)
  have ve: "vedges s e = vedges s0 e"
  proof -
    obtain x where "vedges s e = (vedges s0 e)\<lparr>e_to_virt := x\<rparr>" "x = e_to_virt (vedges s0 e)"
      using inv e0(1) e(2) unfolding class1_inv_def by blast
    then show ?thesis by simp
  qed
  show ?thesis
  proof (cases "nonconstraint_edge E e")
    case True
    then have "class1_edge E cls e s = Some s" using ve e0(2) by (simp add: class1_edge_def)
    moreover have "\<not> proper E s0 e" using True by (simp add: proper_def)
    ultimately show ?thesis using class1_inv_skip [OF inv] by blast
  next
    case False
    have u: "uf_ok s" and ss: "same_sets s0 s" using inv by (simp_all add: class1_inv_def)
    from UF_find_spec [OF u] obtain t s1 where
      s1: "UF_find (vtail s0 e) s = Some (t, s1)" "root_of s (vtail s0 e) t" "uf_ok s1" "same_sets s s1" "uf_frame s s1" by blast
    from UF_find_spec [OF s1(3)] obtain h s2 where
      s2: "UF_find (vhead s0 e) s1 = Some (h, s2)" "root_of s1 (vhead s0 e) h" "uf_ok s2" "same_sets s1 s2" "uf_frame s1 s2" by blast
    have fr: "uf_frame s s2" by (rule uf_frame_trans [OF s1(5) s2(5)])
    have inv2: "class1_inv E s0 m P s2"
      by (rule class1_inv_frame [OF inv fr s2(3) same_sets_trans [OF s1(4) s2(4)]])
    have th: "root_of s0 (vtail s0 e) t" "root_of s0 (vhead s0 e) h"
      using s1(2,4) s2(2) ss by (simp_all add: same_sets_def)
    have vs: "vedges s1 = vedges s" "vedges s2 = vedges s" using uf_frameD(1) s1(5) fr by blast+
    show ?thesis
    proof (cases "t = h")
      case eq: True
      then have "class1_edge E cls e s = Some s2" using False ve e0(2) s1(1) s2(1) vs by (simp add: class1_edge_def)
      moreover have "\<not> proper E s0 e" using th eq by (auto simp: proper_def)
      ultimately show ?thesis using class1_inv_skip [OF inv2] by blast
    next
      case ne: False
      have u0: "uf_ok s0" using inp by (simp add: class1_input_def)
      have pr: "proper E s0 e" using th ne False root_of_unique [OF u0] by (metis proper_def)
      have cl: "v_clust (vnodes s2 n) = None" for n using inv2 inp by (simp add: class1_inv_def same_rest_def class1_input_def)
      have eq: "class1_edge E cls e s = (case find_fast_edge s2 t h of
          Some rep \<Rightarrow> merge_oneway e rep s2 | None \<Rightarrow> Some (snd (virtual_edge s2 t h (Some e))))"
        using False ve e0(2) s1(1) s2(1) vs ne cl by (simp add: class1_edge_def)
      have ok2: "fg_ok s2" using inv2 by (simp add: class1_inv_def)
      note look = find_fast_edge_spec [OF ok2, of t h]
      show ?thesis
      proof (cases "find_fast_edge s2 t h")
        case None
        from class1_inv_new [OF inv2 inp e pr th ne] show ?thesis unfolding eq None by simp
      next
        case (Some f)
        with look have f: "fast s2 f" "vtail s2 f = t" "vhead s2 f = h" by simp_all
        have w0: "\<forall>g\<in>set es. 0 \<le> e_weight (vedges s0 g)" using inp by (simp add: class1_input_def)
        have le: "(\<Sum>g\<leftarrow>filter Q L. e_weight (vedges s0 g)) \<le> (\<Sum>g\<leftarrow>L. e_weight (vedges s0 g))" if "set L \<subseteq> set es" for Q L
          using that w0 by (induction L) auto
        have nn: "0 \<le> (\<Sum>g\<leftarrow>rest. e_weight (vedges s0 g))" using w0 by (intro sum_list_nonneg) (auto simp: es)
        have "total_weight s2 + e_weight (vedges s0 e) \<le> (\<Sum>g\<leftarrow>es. e_weight (vedges s0 g))"
        proof -
          have "set P \<subseteq> set es" by (auto simp: es)
          from le [OF this] nn inv2 show ?thesis by (auto simp: class1_inv_def es intro: add_increasing2)
        qed
        moreover have "(\<Sum>g\<leftarrow>es. e_weight (vedges s0 g)) < 2 ^ 31" using inp by (simp add: class1_input_def)
        ultimately have "total_weight s2 + e_weight (vedges s0 e) < 2 ^ 31" by linarith
        moreover have "runs s0 e s2 f" using th f by (simp add: runs_def)
        ultimately show ?thesis unfolding eq Some using class1_inv_merge [OF inv2 inp e pr f(1)] by simp
      qed
    qed
  qed
qed

lemma class1_edges_total:
  assumes inp: "class1_input s0 es m"
  shows "class1_inv E s0 m P s \<Longrightarrow> es = P @ rest \<Longrightarrow>
    \<exists>s'. class1_edges E cls rest s = Some s' \<and> class1_inv E s0 m es s'"
proof (induction rest arbitrary: P s)
  case (Cons e rest)
  from class1_edge_step [OF Cons.prems(1) inp Cons.prems(2), of cls] obtain s1 where
    s1: "class1_edge E cls e s = Some s1" "class1_inv E s0 m (P @ [e]) s1" by blast
  from Cons.IH [OF s1(2)] Cons.prems(2) s1(1) show ?case by simp
qed simp

lemma class1_total:
  assumes inp: "class1_input s (concat (map out ns)) m" and rt: "\<forall>n\<in>set ns. v_ranktype (vnodes s n) \<noteq> CLUSTER" and m: "0 \<le> m"
  shows "\<exists>s'. class1 E ns out [] s = Some ([], s') \<and> class1_inv E s m (concat (map out ns)) s'"
proof -
  have same: "unmark_node n s = s" if "n \<in> set ns" for n
  proof -
    have "(vnodes s n)\<lparr>v_clust := None\<rparr> = vnodes s n" using inp by (cases "vnodes s n") (auto simp: class1_input_def dest!: spec [where x = n])
    then show ?thesis using that rt by (simp add: unmark_node_def upd_v_def)
  qed
  have "fold unmark_node xs s = s" if "set xs \<subseteq> set ns" for xs using that by (induction xs) (simp_all add: same)
  then have "mark_clusters ns [] s = Some ([], s)" by (simp add: mark_clusters_def)
  moreover have "class1_inv E s m [] s"
  proof -
    have f: "\<not> fast s f" for f using inp by (simp add: class1_input_def fast_def)
    have "vedges s e = (vedges s e)\<lparr>e_to_virt := e_to_virt (vedges s e)\<rparr>" for e by simp
    then show ?thesis using inp f by (auto simp: class1_inv_def class1_input_def fg_ok_def total_weight_def fast_count_def)
  qed
  with class1_edges_total [OF inp this, where rest = "concat (map out ns)"] obtain s' where
    "class1_edges E [] (concat (map out ns)) s = Some s'" "class1_inv E s m (concat (map out ns)) s'" by auto
  ultimately show ?thesis by (simp add: class1_def)
qed


text \<open>The out-edges of the small graph of \<open>Unionfind\<close>.\<close>

definition rank_graph_out :: "nat \<Rightarrow> nat list" where
  "rank_graph_out n = (if n = 0 then [0] else if n = 1 then [3] else if n = 2 then [2] else if n = 3 then [1] else [])"

lemma rank_graph_edges: "concat (map rank_graph_out [0, 1, 2, 3]) = [0, 3, 2, 1]"
  by (simp add: rank_graph_out_def)

lemma rank_graph_input: "class1_input rank_graph [0, 3, 2, 1] 1"
  unfolding class1_input_def using rank_graph_ok
  by (auto simp: rank_graph_def zero_node_def blank_edge_def)


end
