(* ===== verification/Decomp.thy ===== *)
theory Decomp
  imports Unionfind
begin

text \<open>
  \<open>lib/dotgen/decomp.c\<close>: the connected components of the fast graph, found by a search with a stack
  whose top is the head of a list. \<open>Cmark\<close> and \<open>Last_node\<close> are static variables and go in and out.
\<close>

section \<open>The operations\<close>

definition size_inc :: "nat \<Rightarrow> nat" where
  "size_inc n = (n + 1) mod 2 ^ 64"

definition begin_component :: "fgraph \<Rightarrow> nat option \<times> fgraph" where
  "begin_component s = (None, s\<lparr>nlist := None\<rparr>)"

definition add_to_component :: "nat \<Rightarrow> nat \<Rightarrow> nat option \<Rightarrow> fgraph \<Rightarrow> nat option \<times> fgraph" where
  "add_to_component Cmark n Last_node s =
    (let s1 = upd_v n (\<lambda>x. x\<lparr>v_mark := Cmark\<rparr>) s;
         s2 = (case Last_node of
                 Some l \<Rightarrow> upd_v l (\<lambda>x. x\<lparr>v_next := Some n\<rparr>) (upd_v n (\<lambda>x. x\<lparr>v_prev := Some l\<rparr>) s1)
               | None \<Rightarrow> (upd_v n (\<lambda>x. x\<lparr>v_prev := None\<rparr>) s1)\<lparr>nlist := Some n\<rparr>)
     in (Some n, upd_v n (\<lambda>x. x\<lparr>v_next := None\<rparr>) s2))"

definition end_component :: "fgraph \<Rightarrow> fgraph option" where
  "end_component s = (case nlist s of None \<Rightarrow> None | Some c \<Rightarrow> Some (s\<lparr>comp := comp s @ [c]\<rparr>))"

definition push :: "nat \<Rightarrow> nat \<Rightarrow> nat list \<times> fgraph \<Rightarrow> nat list \<times> fgraph" where
  "push Cmark np st = (np # fst st, upd_v np (\<lambda>x. x\<lparr>v_mark := size_inc Cmark\<rparr>) (snd st))"

definition other_end :: "fgraph \<Rightarrow> nat \<Rightarrow> nat \<Rightarrow> nat" where
  "other_end s n e = (if vhead s e = n then vtail s e else vhead s e)"

primrec push_others :: "nat \<Rightarrow> nat \<Rightarrow> nat list \<Rightarrow> nat list \<times> fgraph \<Rightarrow> (nat list \<times> fgraph) option" where
  "push_others Cmark n [] st = Some st"
| "push_others Cmark n (e # es) st =
    (let other = other_end (snd st) n e in
     if v_mark (vnodes (snd st) other) \<noteq> Cmark then
       (case UF_find other (snd st) of
          None \<Rightarrow> None
        | Some (r, s1) \<Rightarrow>
            push_others Cmark n es (if other = r then push Cmark other (fst st, s1) else (fst st, s1)))
     else push_others Cmark n es st)"

text \<open>The lists are gone through from their ends.\<close>

definition vec :: "fgraph \<Rightarrow> nat \<Rightarrow> nat list" where
  "vec s n = rev (v_flat_in (vnodes s n)) @ rev (v_flat_out (vnodes s n)) @ rev (ins s n) @ rev (outs s n)"

partial_function (option) search_loop :: "nat \<Rightarrow> nat list \<Rightarrow> nat option \<Rightarrow> fgraph \<Rightarrow> fgraph option" where
  "search_loop Cmark stk Last_node s =
    (case stk of
       [] \<Rightarrow> Some s
     | n # stk1 \<Rightarrow>
         (if v_mark (vnodes s n) = Cmark then search_loop Cmark stk1 Last_node s
          else
            (let (last1, s1) = add_to_component Cmark n Last_node s in
             case push_others Cmark n (vec s1 n) (stk1, s1) of
               None \<Rightarrow> None
             | Some (stk2, s2) \<Rightarrow> search_loop Cmark stk2 last1 s2)))"

definition search_component :: "nat \<Rightarrow> nat \<Rightarrow> nat option \<Rightarrow> fgraph \<Rightarrow> fgraph option" where
  "search_component Cmark n Last_node s =
    (let (stk, s1) = push Cmark n ([], s) in search_loop Cmark stk Last_node s1)"

text \<open>\<open>rankleader\<close> gives the leaders of the ranks of a cluster.\<close>

definition decompose_at :: "(nat \<Rightarrow> int \<Rightarrow> nat) \<Rightarrow> int \<Rightarrow> nat \<Rightarrow> nat \<Rightarrow> fgraph \<Rightarrow> fgraph option" where
  "decompose_at rankleader pass Cmark n s =
    (case (if pass > 0 then v_clust (vnodes s n) else None) of
       Some subg \<Rightarrow> (let v = rankleader subg (v_rank (vnodes s n)) in
         if v_mark (vnodes s v) \<noteq> Cmark
         then (let (l, s1) = begin_component s in Option.bind (search_component Cmark v l s1) end_component)
         else Some s)
     | None \<Rightarrow>
         (case UF_find n s of
            None \<Rightarrow> None
          | Some (r, s) \<Rightarrow>
              (if n \<noteq> r then Some s
               else if v_mark (vnodes s n) \<noteq> Cmark
               then (let (l, s1) = begin_component s in Option.bind (search_component Cmark n l s1) end_component)
               else Some s)))"

primrec decompose_nodes :: "(nat \<Rightarrow> int \<Rightarrow> nat) \<Rightarrow> int \<Rightarrow> nat \<Rightarrow> nat list \<Rightarrow> fgraph \<Rightarrow> fgraph option" where
  "decompose_nodes rankleader pass Cmark [] s = Some s"
| "decompose_nodes rankleader pass Cmark (n # ns) s =
    (case decompose_at rankleader pass Cmark n s of
       None \<Rightarrow> None | Some s1 \<Rightarrow> decompose_nodes rankleader pass Cmark ns s1)"

definition decompose :: "(nat \<Rightarrow> int \<Rightarrow> nat) \<Rightarrow> int \<Rightarrow> nat list \<Rightarrow> nat \<Rightarrow> fgraph \<Rightarrow> (nat \<times> fgraph) option" where
  "decompose rankleader pass ns Cmark s =
    (let c = (if size_inc Cmark = 0 then 1 else size_inc Cmark)
     in map_option (\<lambda>s1. (c, s1)) (decompose_nodes rankleader pass c ns (s\<lparr>comp := []\<rparr>)))"

end
