(* ===== verification/Decomp_Correct.thy ===== *)
theory Decomp_Correct
  imports Decomp
begin

text \<open>
  \<open>decompose\<close> finds the connected components: the lists it makes are linked, disjoint, closed under the
  edges, and each is reached from its first node.
\<close>

section \<open>Neighbours\<close>

text \<open>The steps the search takes: along any edge in the lists of a node, to the root of a set.\<close>

definition nbrs :: "fgraph \<Rightarrow> (nat \<times> nat) set" where
  "nbrs s = {(n, w). \<exists>e\<in>set (vec s n). w = other_end s n e \<and> is_root s w}"

text \<open>What the search leaves alone.\<close>

definition search_frame :: "fgraph \<Rightarrow> fgraph \<Rightarrow> bool" where
  "search_frame s s' \<longleftrightarrow> vedges s' = vedges s \<and> efresh s' = efresh s \<and> same_sets s s' \<and> uf_ok s' = uf_ok s \<and>
     (\<forall>n. outs s' n = outs s n \<and> ins s' n = ins s n \<and> v_flat_in (vnodes s' n) = v_flat_in (vnodes s n) \<and>
        v_flat_out (vnodes s' n) = v_flat_out (vnodes s n) \<and> v_onstack (vnodes s' n) = v_onstack (vnodes s n) \<and>
        v_clust (vnodes s' n) = v_clust (vnodes s n) \<and> v_type (vnodes s' n) = v_type (vnodes s n) \<and> v_rank (vnodes s' n) = v_rank (vnodes s n))"

lemma search_frame_refl [simp]: "search_frame s s"
  by (simp add: search_frame_def)

lemma search_frame_trans: "search_frame s s1 \<Longrightarrow> search_frame s1 s2 \<Longrightarrow> search_frame s s2"
  by (simp add: search_frame_def same_sets_def)

lemma same_sets_root: "same_sets s s' \<Longrightarrow> is_root s' n = is_root s n"
  unfolding same_sets_def root_of_def by (metis rtrancl.rtrancl_refl)

lemma search_frameD:
  assumes "search_frame s s'"
  shows "vedges s' = vedges s" and "other_end s' = other_end s" and "vec s' = vec s" and "is_root s' n = is_root s n"
    and "nbrs s' = nbrs s" and "uf_ok s' = uf_ok s"
proof -
  show "vedges s' = vedges s" "uf_ok s' = uf_ok s" using assms by (simp_all add: search_frame_def)
  show o: "other_end s' = other_end s" "vec s' = vec s" using assms by (simp_all add: search_frame_def other_end_def vec_def fun_eq_iff)
  show r: "is_root s' n = is_root s n" for n using assms same_sets_root by (simp add: search_frame_def)
  show "nbrs s' = nbrs s" by (simp add: nbrs_def o r)
qed

lemma uf_frame_search:
  assumes "uf_frame s s'" "uf_ok s" "uf_ok s'" "same_sets s s'"
  shows "search_frame s s'"
  using assms by (auto simp: search_frame_def uf_frame_def uf_set_def)

text \<open>Marks and links.\<close>

definition marks_same :: "fgraph \<Rightarrow> fgraph \<Rightarrow> bool" where
  "marks_same s s' \<longleftrightarrow> nlist s' = nlist s \<and> comp s' = comp s \<and>
     (\<forall>n. v_mark (vnodes s' n) = v_mark (vnodes s n) \<and> v_next (vnodes s' n) = v_next (vnodes s n))"

lemma uf_frame_marks: "uf_frame s s' \<Longrightarrow> marks_same s s'"
  by (auto simp: marks_same_def uf_frame_def uf_set_def)

section \<open>The neighbours of one node\<close>

lemma push_others_spec:
  assumes "uf_ok s" and "size_inc c \<noteq> c"
  shows "\<exists>new s'. push_others c n es (stk, s) = Some (new @ stk, s') \<and> search_frame s s' \<and>
    comp s' = comp s \<and> nlist s' = nlist s \<and> (\<forall>m. v_next (vnodes s' m) = v_next (vnodes s m)) \<and>
    (\<forall>m. v_mark (vnodes s' m) = c \<longleftrightarrow> v_mark (vnodes s m) = c) \<and>
    set new = {w. v_mark (vnodes s w) \<noteq> c \<and> is_root s w \<and> (\<exists>e\<in>set es. w = other_end s n e)}"
  using assms(1)
proof (induction es arbitrary: stk s)
  case (Cons e es)
  let ?w = "other_end s n e"
  show ?case
  proof (cases "v_mark (vnodes s ?w) \<noteq> c")
    case False
    from Cons.IH [OF Cons.prems, of stk] obtain new s' where
      s': "push_others c n es (stk, s) = Some (new @ stk, s')" "search_frame s s'" "comp s' = comp s" "nlist s' = nlist s"
      "\<forall>m. v_next (vnodes s' m) = v_next (vnodes s m)" "\<forall>m. v_mark (vnodes s' m) = c \<longleftrightarrow> v_mark (vnodes s m) = c"
      "set new = {w. v_mark (vnodes s w) \<noteq> c \<and> is_root s w \<and> (\<exists>e\<in>set es. w = other_end s n e)}" by blast
    have "set new = {w. v_mark (vnodes s w) \<noteq> c \<and> is_root s w \<and> (\<exists>e\<in>set (e # es). w = other_end s n e)}"
      unfolding s'(7) using False by auto
    moreover have "push_others c n (e # es) (stk, s) = Some (new @ stk, s')" using False s'(1) by (simp add: Let_def)
    ultimately show ?thesis using s'(2-6) by blast
  next
    case True
    from UF_find_spec [OF Cons.prems, of ?w] obtain r s1 where
      r: "UF_find ?w s = Some (r, s1)" "root_of s ?w r" "uf_ok s1" "same_sets s s1" "uf_frame s s1" by blast
    have fr1: "search_frame s s1" by (rule uf_frame_search [OF r(5) Cons.prems r(3,4)])
    note m1 = uf_frame_marks [OF r(5), unfolded marks_same_def]
    have rt: "?w = r \<longleftrightarrow> is_root s ?w" using r(2) root_of_root [of s ?w r] by (auto simp: root_of_def)
    define st where "st = (if ?w = r then push c ?w (stk, s1) else (stk, s1))"
    define pre where "pre = (if ?w = r then [?w] else [])"
    have st: "fst st = pre @ stk" by (simp add: st_def pre_def push_def)
    have fr2: "search_frame s1 (snd st)"
    proof -
      have "v_UF_parent (vnodes (snd st) m) = v_UF_parent (vnodes s1 m)" for m by (simp add: st_def push_def)
      from same_parents [where s = s1 and s' = "snd st", OF this] show ?thesis by (simp add: search_frame_def) (simp add: st_def push_def)
    qed
    have fr: "search_frame s (snd st)" by (rule search_frame_trans [OF fr1 fr2])
    have ok2: "uf_ok (snd st)" using search_frameD(6) [OF fr2] r(3) by simp
    have st': "comp (snd st) = comp s" "nlist (snd st) = nlist s" "v_next (vnodes (snd st) m) = v_next (vnodes s m)"
      "v_mark (vnodes (snd st) m) = c \<longleftrightarrow> v_mark (vnodes s m) = c" for m
      using m1 True assms(2) by (auto simp: st_def push_def)
    from Cons.IH [OF ok2, of "fst st"] obtain new s' where
      s': "push_others c n es (fst st, snd st) = Some (new @ fst st, s')" "search_frame (snd st) s'" "comp s' = comp s" "nlist s' = nlist s"
      "\<forall>m. v_next (vnodes s' m) = v_next (vnodes s m)" "\<forall>m. v_mark (vnodes s' m) = c \<longleftrightarrow> v_mark (vnodes s m) = c"
      "set new = {w. v_mark (vnodes s w) \<noteq> c \<and> is_root s w \<and> (\<exists>e\<in>set es. w = other_end s n e)}"
      unfolding st' search_frameD [OF fr] by blast
    have "push_others c n (e # es) (stk, s) = push_others c n es st"
      using True r(1) by (simp add: Let_def st_def)
    then have "push_others c n (e # es) (stk, s) = Some ((new @ pre) @ stk, s')"
      using s'(1) st by (metis append_assoc prod.collapse)
    moreover have "search_frame s s'" by (rule search_frame_trans [OF fr s'(2)])
    moreover have "set (new @ pre) = {w. v_mark (vnodes s w) \<noteq> c \<and> is_root s w \<and> (\<exists>e\<in>set (e # es). w = other_end s n e)}"
      using s'(7) True rt by (auto simp: pre_def)
    ultimately show ?thesis using s'(3-6) by blast
  qed
qed simp


section \<open>One component\<close>

definition last_opt :: "'a list \<Rightarrow> 'a option" where
  "last_opt xs = (if xs = [] then None else Some (last xs))"

lemma linked_snoc:
  assumes "linked s xs" and "distinct (xs @ [n])"
    and "\<And>m. m \<in> set xs \<Longrightarrow> m \<noteq> last xs \<Longrightarrow> v_next (vnodes s' m) = v_next (vnodes s m)"
    and "xs \<noteq> [] \<Longrightarrow> v_next (vnodes s' (last xs)) = Some n" and "v_next (vnodes s' n) = None"
  shows "linked s' (xs @ [n])"
  using assms
proof (induction xs)
  case (Cons x xs)
  show ?case
  proof (cases "xs = []")
    case True
    then show ?thesis using Cons.prems by simp
  next
    case False
    then have "linked s' (xs @ [n])" using Cons.IH Cons.prems by simp
    moreover have "x \<noteq> last xs" using Cons.prems(2) False by auto
    then have "v_next (vnodes s' x) = hd_opt xs" using Cons.prems(1,3) False by simp
    ultimately show ?thesis using False by (cases xs) simp_all
  qed
qed simp

text \<open>While the component of \<open>v\<close> is searched: \<open>A\<close> is in earlier components, \<open>xs\<close> in this one.\<close>

definition search_inv :: "nat \<Rightarrow> nat set \<Rightarrow> nat \<Rightarrow> fgraph \<Rightarrow> nat list \<Rightarrow> nat list \<Rightarrow> fgraph \<Rightarrow> bool" where
  "search_inv c A v s0 xs stk s \<longleftrightarrow>
     search_frame s0 s \<and> uf_ok s \<and> comp s = comp s0 \<and> nlist s = hd_opt xs \<and> distinct xs \<and> linked s xs \<and>
     set xs \<inter> A = {} \<and> set stk \<inter> A = {} \<and> (\<forall>n. v_mark (vnodes s n) = c \<longleftrightarrow> n \<in> A \<union> set xs) \<and>
     (\<forall>n\<in>A. v_next (vnodes s n) = v_next (vnodes s0 n)) \<and>
     (\<forall>n\<in>set xs. \<forall>w. (n, w) \<in> nbrs s0 \<longrightarrow> w \<in> A \<union> set xs \<union> set stk) \<and>
     (\<forall>n\<in>set xs \<union> set stk. (v, n) \<in> (nbrs s0)\<^sup>*) \<and> (if xs = [] then stk = [v] else hd xs = v)"

lemma search_step:
  assumes inv: "search_inv c A v s0 xs (n # stk) s" and new: "v_mark (vnodes s n) \<noteq> c" and c: "size_inc c \<noteq> c"
  shows "\<exists>s1 more s2. add_to_component c n (last_opt xs) s = (last_opt (xs @ [n]), s1) \<and>
    push_others c n (vec s1 n) (stk, s1) = Some (more @ stk, s2) \<and> search_inv c A v s0 (xs @ [n]) (more @ stk) s2"
proof -
  have fr: "search_frame s0 s" and ok: "uf_ok s" and mk: "\<And>m. v_mark (vnodes s m) = c \<longleftrightarrow> m \<in> A \<union> set xs"
    and li: "linked s xs" and A: "set xs \<inter> A = {}" "set (n # stk) \<inter> A = {}"
    and cl: "\<And>m w. m \<in> set xs \<Longrightarrow> (m, w) \<in> nbrs s0 \<Longrightarrow> w \<in> A \<union> set xs \<union> set (n # stk)"
    and re: "\<And>m. m \<in> set xs \<union> set (n # stk) \<Longrightarrow> (v, m) \<in> (nbrs s0)\<^sup>*"
    and nx: "\<And>m. m \<in> A \<Longrightarrow> v_next (vnodes s m) = v_next (vnodes s0 m)"
    and hd: "if xs = [] then n # stk = [v] else hd xs = v" and nl: "nlist s = hd_opt xs" and d: "distinct xs" and cp: "comp s = comp s0"
    using inv unfolding search_inv_def by blast+
  have n: "n \<notin> set xs" "n \<notin> A" using new mk by auto
  have dn: "distinct (xs @ [n])" using d n(1) by simp
  define s1 where "s1 = snd (add_to_component c n (last_opt xs) s)"
  have add: "add_to_component c n (last_opt xs) s = (last_opt (xs @ [n]), s1)"
    by (simp add: s1_def add_to_component_def Let_def last_opt_def)
  have s1v: "v_mark (vnodes s1 m) = (if m = n then c else v_mark (vnodes s m))"
    "v_next (vnodes s1 m) = (if m = n then None else if xs \<noteq> [] \<and> m = last xs then Some n else v_next (vnodes s m))"
    "nlist s1 = hd_opt (xs @ [n])" "comp s1 = comp s" for m
    using nl by (cases xs; auto simp: s1_def add_to_component_def Let_def last_opt_def)+
  have fr1: "search_frame s s1"
  proof -
    have "v_UF_parent (vnodes s1 m) = v_UF_parent (vnodes s m)" for m
      by (simp add: s1_def add_to_component_def Let_def last_opt_def)
    moreover have "vedges s1 = vedges s" "efresh s1 = efresh s" "outs s1 m = outs s m" "ins s1 m = ins s m"
      "v_flat_in (vnodes s1 m) = v_flat_in (vnodes s m)" "v_flat_out (vnodes s1 m) = v_flat_out (vnodes s m)"
      "v_onstack (vnodes s1 m) = v_onstack (vnodes s m)" "v_clust (vnodes s1 m) = v_clust (vnodes s m)"
      "v_type (vnodes s1 m) = v_type (vnodes s m)" "v_rank (vnodes s1 m) = v_rank (vnodes s m)" for m
      by (cases "xs = []"; simp add: s1_def add_to_component_def Let_def last_opt_def)+
    ultimately show ?thesis using same_parents [where s = s and s' = s1] by (simp add: search_frame_def)
  qed
  have fr01: "search_frame s0 s1" by (rule search_frame_trans [OF fr fr1])
  have ok1: "uf_ok s1" using ok search_frameD(6) [OF fr1] by simp
  from push_others_spec [OF ok1 c, of n "vec s1 n" stk] obtain more s2 where
    s2: "push_others c n (vec s1 n) (stk, s1) = Some (more @ stk, s2)" "search_frame s1 s2" "comp s2 = comp s1" "nlist s2 = nlist s1"
    "\<And>m. v_next (vnodes s2 m) = v_next (vnodes s1 m)" "\<And>m. v_mark (vnodes s2 m) = c \<longleftrightarrow> v_mark (vnodes s1 m) = c"
    "set more = {w. v_mark (vnodes s1 w) \<noteq> c \<and> is_root s1 w \<and> (\<exists>e\<in>set (vec s1 n). w = other_end s1 n e)}" by blast
  have more: "w \<in> set more \<longleftrightarrow> w \<notin> A \<union> set (xs @ [n]) \<and> (n, w) \<in> nbrs s0" for w
    unfolding s2(7) search_frameD(2,3,4) [OF fr01] nbrs_def using s1v(1) [of w] mk [of w] by auto
  have "search_inv c A v s0 (xs @ [n]) (more @ stk) s2"
    unfolding search_inv_def
  proof (intro conjI ballI allI impI)
    show "search_frame s0 s2" by (rule search_frame_trans [OF fr01 s2(2)])
    show "uf_ok s2" using search_frameD(6) [OF s2(2)] ok1 by simp
    show "comp s2 = comp s0" "nlist s2 = hd_opt (xs @ [n])" using s2(3,4) s1v(3,4) cp by simp_all
    show "distinct (xs @ [n])" by (rule dn)
    show "linked s2 (xs @ [n])"
      by (rule linked_snoc [OF li dn]) (use n s1v(2) s2(5) in \<open>auto split: if_splits\<close>)
    show "set (xs @ [n]) \<inter> A = {}" using A(1) n(2) by auto
    show "set (more @ stk) \<inter> A = {}" using A(2) more by auto
    show "if xs @ [n] = [] then more @ stk = [v] else hd (xs @ [n]) = v" using hd by (cases xs) auto
  next
    fix m show "v_mark (vnodes s2 m) = c \<longleftrightarrow> m \<in> A \<union> set (xs @ [n])" unfolding s2(6) s1v(1) using mk [of m] by auto
  next
    fix m assume "m \<in> A"
    then have a: "m \<noteq> n" and b: "\<not> (xs \<noteq> [] \<and> m = last xs)" using n(2) A(1) last_in_set by blast+
    show "v_next (vnodes s2 m) = v_next (vnodes s0 m)"
      unfolding s2(5) s1v(2) if_not_P [OF a] if_not_P [OF b] by (rule nx [OF \<open>m \<in> A\<close>])
  next
    fix m w assume m: "m \<in> set (xs @ [n])" "(m, w) \<in> nbrs s0"
    show "w \<in> A \<union> set (xs @ [n]) \<union> set (more @ stk)"
    proof (cases "m = n")
      case True
      then show ?thesis using m(2) more [of w] by auto
    next
      case False
      then show ?thesis using cl [of m w] m by auto
    qed
  next
    fix m assume m: "m \<in> set (xs @ [n]) \<union> set (more @ stk)"
    have "(v, n) \<in> (nbrs s0)\<^sup>*" using re by simp
    then show "(v, m) \<in> (nbrs s0)\<^sup>*" using m re [of m] more [of m] by (auto intro: rtrancl_into_rtrancl)
  qed
  with add s2(1) show ?thesis by blast
qed

lemma search_loop_total:
  assumes fin: "finite ((nbrs s0)\<^sup>* `` {v})" and c: "size_inc c \<noteq> c"
  shows "search_inv c A v s0 xs stk s \<Longrightarrow>
    \<exists>s' ys. search_loop c stk (last_opt xs) s = Some s' \<and> search_inv c A v s0 ys [] s'"
proof (induction "(card ((nbrs s0)\<^sup>* `` {v} - set xs), length stk)" arbitrary: xs stk s rule: wf_induct_rule [OF wf_lex_prod [OF wf_less_than wf_less_than]])
  case (1 xs stk s)
  show ?case
  proof (cases stk)
    case Nil
    then show ?thesis using "1.prems" by (subst search_loop.simps) auto
  next
    case (Cons n stk1)
    show ?thesis
    proof (cases "v_mark (vnodes s n) = c")
      case True
      have "n \<in> set xs" using True "1.prems" unfolding Cons by (auto simp: search_inv_def)
      then have "search_inv c A v s0 xs stk1 s" using "1.prems" unfolding Cons by (auto simp: search_inv_def)
      from "1.hyps" [OF _ this] Cons True show ?thesis by (subst search_loop.simps) simp
    next
      case False
      from search_step [OF "1.prems" [unfolded Cons] False c] obtain s1 more s2 where
        s2: "add_to_component c n (last_opt xs) s = (last_opt (xs @ [n]), s1)"
        "push_others c n (vec s1 n) (stk1, s1) = Some (more @ stk1, s2)" "search_inv c A v s0 (xs @ [n]) (more @ stk1) s2" by blast
      have "n \<notin> set xs" using False "1.prems" by (auto simp: search_inv_def)
      moreover have "n \<in> (nbrs s0)\<^sup>* `` {v}" using "1.prems" unfolding Cons by (auto simp: search_inv_def)
      ultimately have "(nbrs s0)\<^sup>* `` {v} - set (xs @ [n]) \<subset> (nbrs s0)\<^sup>* `` {v} - set xs" by auto
      then have "card ((nbrs s0)\<^sup>* `` {v} - set (xs @ [n])) < card ((nbrs s0)\<^sup>* `` {v} - set xs)"
        by (rule psubset_card_mono [rotated]) (use fin in simp)
      then have "((card ((nbrs s0)\<^sup>* `` {v} - set (xs @ [n])), length (more @ stk1)), (card ((nbrs s0)\<^sup>* `` {v} - set xs), length stk))
          \<in> less_than <*lex*> less_than" by simp
      from "1.hyps" [OF this s2(3)] Cons False s2(1,2) show ?thesis by (subst search_loop.simps) simp
    qed
  qed
qed


section \<open>All components\<close>

definition flats_ok :: "fgraph \<Rightarrow> bool" where
  "flats_ok s \<longleftrightarrow>
     (\<forall>n. \<forall>e\<in>set (v_flat_out (vnodes s n)). vtail s e = n \<and> e \<in> set (v_flat_in (vnodes s (vhead s e))) \<and> e < efresh s) \<and>
     (\<forall>n. \<forall>e\<in>set (v_flat_in (vnodes s n)). vhead s e = n \<and> e \<in> set (v_flat_out (vnodes s (vtail s e))))"

lemma vec_edge:
  assumes "fg_ok s" and "flats_ok s" and "e \<in> set (vec s n)"
  shows "e < efresh s" and "e \<in> set (vec s (other_end s n e))" and "other_end s (other_end s n e) e = n"
proof -
  from assms(3) consider "e \<in> set (v_flat_in (vnodes s n))" | "e \<in> set (v_flat_out (vnodes s n))" | "e \<in> set (ins s n)" | "e \<in> set (outs s n)"
    by (auto simp: vec_def)
  then have "e < efresh s \<and> e \<in> set (vec s (other_end s n e)) \<and> other_end s (other_end s n e) e = n"
  proof cases
    case 1
    then have "vhead s e = n" "e \<in> set (v_flat_out (vnodes s (vtail s e)))" using assms(2) unfolding flats_ok_def by blast+
    moreover from this have "e < efresh s" using assms(2) unfolding flats_ok_def by blast
    ultimately show ?thesis by (auto simp: other_end_def vec_def)
  next
    case 2
    then have "vtail s e = n" "e \<in> set (v_flat_in (vnodes s (vhead s e)))" "e < efresh s" using assms(2) unfolding flats_ok_def by blast+
    then show ?thesis using 2 by (auto simp: other_end_def vec_def)
  next
    case 3
    then have "vhead s e = n" "e \<in> set (outs s (vtail s e))" using assms(1) unfolding fg_ok_def by blast+
    moreover from this have "e < efresh s" using assms(1) unfolding fg_ok_def by blast
    ultimately show ?thesis by (auto simp: other_end_def vec_def)
  next
    case 4
    then have "vtail s e = n" "e \<in> set (ins s (vhead s e))" "e < efresh s" using assms(1) unfolding fg_ok_def by blast+
    then show ?thesis using 4 by (auto simp: other_end_def vec_def)
  qed
  then show "e < efresh s" "e \<in> set (vec s (other_end s n e))" "other_end s (other_end s n e) e = n" by blast+
qed

lemma nbrs_sym: "fg_ok s \<Longrightarrow> flats_ok s \<Longrightarrow> is_root s n \<Longrightarrow> (n, w) \<in> nbrs s \<Longrightarrow> (w, n) \<in> nbrs s"
proof -
  assume ok: "fg_ok s" "flats_ok s" and r: "is_root s n" and "(n, w) \<in> nbrs s"
  then obtain e where "e \<in> set (vec s n)" "w = other_end s n e" by (auto simp: nbrs_def)
  with vec_edge(2,3) [OF ok, of e n] r have "e \<in> set (vec s w) \<and> n = other_end s w e \<and> is_root s n" by simp
  then show "(w, n) \<in> nbrs s" unfolding nbrs_def by blast
qed

lemma nbrs_finite:
  assumes "fg_ok s" and "flats_ok s"
  shows "finite ((nbrs s)\<^sup>* `` {v})"
proof -
  have "(nbrs s)\<^sup>* `` {v} \<subseteq> insert v (Range (nbrs s))" by (auto elim: rtranclE)
  moreover have "Range (nbrs s) \<subseteq> vtail s ` {..<efresh s} \<union> vhead s ` {..<efresh s}"
    using vec_edge(1) [OF assms] by (auto simp: nbrs_def other_end_def)
  ultimately show ?thesis by (meson finite.insertI finite_UnI finite_imageI finite_lessThan finite_subset)
qed

lemma search_component_total:
  assumes ok: "fg_ok s" "flats_ok s" "uf_ok s" and c: "size_inc c \<noteq> c" and v: "v_mark (vnodes s v) \<noteq> c" "is_root s v"
    and A: "\<And>n. v_mark (vnodes s n) = c \<longleftrightarrow> n \<in> A" and cl: "\<forall>n w. n \<in> A \<longrightarrow> (n, w) \<in> nbrs s \<longrightarrow> w \<in> A"
  shows "\<exists>s' ys. search_component c v None (s\<lparr>nlist := None\<rparr>) = Some s' \<and> search_frame s s' \<and> uf_ok s' \<and> comp s' = comp s \<and>
    nlist s' = Some v \<and> hd ys = v \<and> ys \<noteq> [] \<and> distinct ys \<and> linked s' ys \<and> set ys \<inter> A = {} \<and>
    (\<forall>n. v_mark (vnodes s' n) = c \<longleftrightarrow> n \<in> A \<union> set ys) \<and> (\<forall>n\<in>A. v_next (vnodes s' n) = v_next (vnodes s n)) \<and>
    set ys = (nbrs s)\<^sup>* `` {v}"
proof -
  define t where "t = upd_v v (\<lambda>x. x\<lparr>v_mark := size_inc c\<rparr>) (s\<lparr>nlist := None\<rparr>)"
  have "v_UF_parent (vnodes t n) = v_UF_parent (vnodes s n)" for n by (simp add: t_def)
  from same_parents [where s = s and s' = t, OF this] have frt: "search_frame s t" by (simp add: search_frame_def) (simp add: t_def)
  note d = search_frameD [OF frt]
  have vA: "v \<notin> A" using v A by blast
  have "search_inv c A v t [] [v] t"
    unfolding search_inv_def using ok(3) d(6) vA A c v(1) by (auto simp: t_def)
  moreover have fin: "finite ((nbrs t)\<^sup>* `` {v})" unfolding d(5) by (rule nbrs_finite [OF ok(1,2)])
  ultimately obtain s' ys where s': "search_loop c [v] None t = Some s'" "search_inv c A v t ys [] s'"
    using search_loop_total [OF fin c, of A "[]" "[v]" t] by (auto simp: last_opt_def)
  note inv = s'(2) [unfolded search_inv_def]
  have ne: "ys \<noteq> []" and hdv: "hd ys = v" using inv by (cases ys; simp)+
  have disj: "set ys \<inter> A = {}" and re: "\<And>n. n \<in> set ys \<Longrightarrow> (v, n) \<in> (nbrs s)\<^sup>*"
    and step: "\<And>n w. n \<in> set ys \<Longrightarrow> (n, w) \<in> nbrs s \<Longrightarrow> w \<in> A \<union> set ys"
    using inv unfolding d(5) by auto
  have root: "is_root s n" if "(v, n) \<in> (nbrs s)\<^sup>*" for n
    using that v(2) by (induction rule: rtrancl_induct) (auto simp: nbrs_def)
  have close: "w \<in> set ys" if "n \<in> set ys" "(n, w) \<in> nbrs s" for n w
  proof (rule ccontr)
    assume "w \<notin> set ys"
    then have "w \<in> A" using step [OF that] by blast
    moreover have "(w, n) \<in> nbrs s" by (rule nbrs_sym [OF ok(1,2) root [OF re [OF that(1)]] that(2)])
    ultimately show False using cl disj that(1) by blast
  qed
  have "n \<in> set ys" if "(v, n) \<in> (nbrs s)\<^sup>*" for n
    using that by (induction rule: rtrancl_induct) (use ne hdv close in \<open>auto intro: hd_in_set\<close>)
  then have "set ys = (nbrs s)\<^sup>* `` {v}" using re by blast
  moreover have "search_component c v None (s\<lparr>nlist := None\<rparr>) = Some s'"
    using s'(1) by (simp add: search_component_def push_def t_def)
  moreover have "search_frame s s'" using search_frame_trans [OF frt] inv by blast
  moreover have "nlist s' = Some v" using inv hdv ne by (cases ys) simp_all
  moreover have "comp s' = comp s" "\<forall>n\<in>A. v_next (vnodes s' n) = v_next (vnodes s n)" using inv by (simp_all add: t_def)
  ultimately show ?thesis using inv ne hdv by blast
qed

text \<open>After the nodes \<open>P\<close>, with the components \<open>NS\<close>.\<close>

definition decomp_inv :: "nat \<Rightarrow> fgraph \<Rightarrow> nat list \<Rightarrow> nat list list \<Rightarrow> fgraph \<Rightarrow> bool" where
  "decomp_inv c s0 P NS s \<longleftrightarrow>
     search_frame s0 s \<and> uf_ok s \<and> comp s = map hd NS \<and> distinct (concat NS) \<and>
     (\<forall>n. v_mark (vnodes s n) = c \<longleftrightarrow> n \<in> set (concat NS)) \<and>
     (\<forall>xs\<in>set NS. xs \<noteq> [] \<and> linked s xs \<and> hd xs \<in> set P \<and> set xs = (nbrs s0)\<^sup>* `` {hd xs}) \<and>
     (\<forall>n\<in>set P. is_root s0 n \<longrightarrow> n \<in> set (concat NS))"

lemma decomp_step:
  assumes ok: "fg_ok s0" "flats_ok s0" and nc: "\<And>n. v_clust (vnodes s0 n) = None \<or> pass \<le> 0" and c: "size_inc c \<noteq> c"
    and inv: "decomp_inv c s0 P NS s"
  shows "\<exists>s' NS'. decompose_at rl pass c n s = Some s' \<and> decomp_inv c s0 (P @ [n]) NS' s'"
proof -
  have fr: "search_frame s0 s" and u: "uf_ok s" and cp: "comp s = map hd NS" and d: "distinct (concat NS)"
    and mk: "\<And>m. v_mark (vnodes s m) = c \<longleftrightarrow> m \<in> set (concat NS)"
    and xs: "\<And>xs. xs \<in> set NS \<Longrightarrow> xs \<noteq> [] \<and> linked s xs \<and> hd xs \<in> set P \<and> set xs = (nbrs s0)\<^sup>* `` {hd xs}"
    and rt: "\<And>m. m \<in> set P \<Longrightarrow> is_root s0 m \<Longrightarrow> m \<in> set (concat NS)"
    using inv unfolding decomp_inv_def by blast+
  from UF_find_spec [OF u, of n] obtain r s1 where
    r: "UF_find n s = Some (r, s1)" "root_of s n r" "uf_ok s1" "same_sets s s1" "uf_frame s s1" by blast
  have fr1: "search_frame s s1" by (rule uf_frame_search [OF r(5) u r(3,4)])
  have fr01: "search_frame s0 s1" by (rule search_frame_trans [OF fr fr1])
  note m1 = uf_frame_marks [OF r(5), unfolded marks_same_def]
  have nr: "n = r \<longleftrightarrow> is_root s0 n"
    using r(2) root_of_root [of s n r] search_frameD(4) [OF fr] by (auto simp: root_of_def)
  have inv1: "decomp_inv c s0 P NS s1"
  proof -
    have "linked s1 zs = linked s zs" for zs by (rule linked_same) (use m1 in simp)
    then have "\<And>zs. zs \<in> set NS \<Longrightarrow> zs \<noteq> [] \<and> linked s1 zs \<and> hd zs \<in> set P \<and> set zs = (nbrs s0)\<^sup>* `` {hd zs}"
      using xs by simp
    moreover have "comp s1 = map hd NS" "\<And>m. v_mark (vnodes s1 m) = c \<longleftrightarrow> m \<in> set (concat NS)" using m1 cp mk by simp_all
    ultimately show ?thesis using fr01 r(3) d rt unfolding decomp_inv_def by blast
  qed
  have vc: "v_clust (vnodes s n) = v_clust (vnodes s0 n)" using fr by (simp add: search_frame_def)
  have eq: "decompose_at rl pass c n s =
      (if n \<noteq> r then Some s1
       else if v_mark (vnodes s1 n) \<noteq> c
       then Option.bind (search_component c n None (s1\<lparr>nlist := None\<rparr>)) end_component else Some s1)"
  proof -
    have none: "(if pass > 0 then v_clust (vnodes s n) else None) = None" using nc [of n] by (auto simp: vc)
    show ?thesis unfolding decompose_at_def none by (simp add: r(1) begin_component_def)
  qed
  show ?thesis
  proof (cases "n \<noteq> r \<or> v_mark (vnodes s1 n) = c")
    case True
    then have "decompose_at rl pass c n s = Some s1" by (auto simp: eq)
    moreover have "is_root s0 n \<Longrightarrow> n \<in> set (concat NS)" using True nr m1 mk by auto
    then have "decomp_inv c s0 (P @ [n]) NS s1" using inv1 unfolding decomp_inv_def by auto
    ultimately show ?thesis by blast
  next
    case False
    then have n: "n = r" "v_mark (vnodes s1 n) \<noteq> c" "is_root s0 n" using nr by auto
    note d1 = search_frameD [OF fr01]
    have ok1: "fg_ok s1" "flats_ok s1" "is_root s1 n"
      using ok n(3) d1 fr01 by (simp_all add: fg_ok_def flats_ok_def search_frame_def)
    have mk1: "v_mark (vnodes s1 m) = c \<longleftrightarrow> m \<in> set (concat NS)" for m using m1 mk by simp
    have "w \<in> set (concat NS)" if "m \<in> set (concat NS)" "(m, w) \<in> nbrs s1" for m w
    proof -
      from that(1) obtain zs where "zs \<in> set NS" "m \<in> set zs" by auto
      moreover from this have "w \<in> set zs" using xs [of zs] that(2) d1(5) by (auto intro: rtrancl_into_rtrancl)
      ultimately show ?thesis by auto
    qed
    then have cl: "\<forall>m w. m \<in> set (concat NS) \<longrightarrow> (m, w) \<in> nbrs s1 \<longrightarrow> w \<in> set (concat NS)" by blast
    from search_component_total [OF ok1(1,2) r(3) c n(2) ok1(3) mk1 cl] obtain s2 ys where
      s2: "search_component c n None (s1\<lparr>nlist := None\<rparr>) = Some s2" "search_frame s1 s2" "uf_ok s2" "comp s2 = comp s1"
      "nlist s2 = Some n" "hd ys = n" "ys \<noteq> []" "distinct ys" "linked s2 ys" "set ys \<inter> set (concat NS) = {}"
      "\<And>m. v_mark (vnodes s2 m) = c \<longleftrightarrow> m \<in> set (concat NS) \<union> set ys"
      "\<And>m. m \<in> set (concat NS) \<Longrightarrow> v_next (vnodes s2 m) = v_next (vnodes s1 m)" "set ys = (nbrs s1)\<^sup>* `` {n}" by blast
    let ?s = "s2\<lparr>comp := comp s2 @ [n]\<rparr>"
    have "decompose_at rl pass c n s = Some ?s" unfolding eq using n s2(1,5) by (simp add: end_component_def)
    moreover have "decomp_inv c s0 (P @ [n]) (NS @ [ys]) ?s"
      unfolding decomp_inv_def
    proof (intro conjI allI ballI impI)
      have f2: "search_frame s0 s2" by (rule search_frame_trans [OF fr01 s2(2)])
      have "v_UF_parent (vnodes ?s m) = v_UF_parent (vnodes s2 m)" for m by simp
      from same_parents [where s = s2 and s' = ?s, OF this] have sp: "same_sets s2 ?s" "uf_ok ?s = uf_ok s2" by blast+
      then have "search_frame s2 ?s" by (simp add: search_frame_def)
      then show "search_frame s0 ?s" by (rule search_frame_trans [OF f2])
      show "uf_ok ?s" using sp(2) s2(3) by simp
      show "comp ?s = map hd (NS @ [ys])" using cp m1 s2(4,6) by simp
      show "distinct (concat (NS @ [ys]))" using d s2(8,10) by auto
      fix m show "v_mark (vnodes ?s m) = c \<longleftrightarrow> m \<in> set (concat (NS @ [ys]))" using s2(11) by simp
    next
      fix zs assume z: "zs \<in> set (NS @ [ys])"
      have ln: "linked ?s zs = linked s2 zs" by (rule linked_same) simp
      show "zs \<noteq> []" "hd zs \<in> set (P @ [n])" "set zs = (nbrs s0)\<^sup>* `` {hd zs}"
        using z xs [of zs] s2(6,7,13) d1(5) by auto
      show "linked ?s zs"
      proof (cases "zs \<in> set NS")
        case True
        have "linked s2 zs = linked s1 zs"
        proof -
          have "set zs \<subseteq> set (concat NS)" using True by auto
          then have "\<And>m. m \<in> set zs \<Longrightarrow> v_next (vnodes s2 m) = v_next (vnodes s1 m)" using s2(12) by blast
          then show ?thesis by (induction zs) auto
        qed
        moreover have "linked s1 zs = linked s zs" by (rule linked_same) (use m1 in simp)
        ultimately show ?thesis using xs [OF True] ln by simp
      next
        case False
        then show ?thesis using z s2(9) ln by simp
      qed
    next
      fix m assume m: "m \<in> set (P @ [n])" "is_root s0 m"
      have "n \<in> set ys" using s2(6,7) hd_in_set by metis
      then show "m \<in> set (concat (NS @ [ys]))" using m rt [of m] by auto
    qed
    ultimately show ?thesis by blast
  qed
qed

lemma decompose_nodes_total:
  assumes "fg_ok s0" "flats_ok s0" and "\<And>n. v_clust (vnodes s0 n) = None \<or> pass \<le> 0" and "size_inc c \<noteq> c"
  shows "decomp_inv c s0 P NS s \<Longrightarrow> \<exists>s' NS'. decompose_nodes rl pass c ns s = Some s' \<and> decomp_inv c s0 (P @ ns) NS' s'"
proof (induction ns arbitrary: P NS s)
  case (Cons n ns)
  from decomp_step [OF assms Cons.prems, of rl n] obtain s1 NS1 where
    s1: "decompose_at rl pass c n s = Some s1" "decomp_inv c s0 (P @ [n]) NS1 s1" by blast
  from Cons.IH [OF s1(2)] s1(1) show ?case by simp
qed auto

text \<open>The fast edges run between roots, and the search from the given nodes gets to all of them.\<close>

definition covered :: "nat list \<Rightarrow> fgraph \<Rightarrow> bool" where
  "covered ns s \<longleftrightarrow> (\<forall>e. fast s e \<longrightarrow> is_root s (vtail s e) \<and> is_root s (vhead s e) \<and>
     (\<exists>v\<in>set ns. is_root s v \<and> (v, vtail s e) \<in> (nbrs s)\<^sup>*))"

lemma decompose_total:
  assumes "fg_ok s" and "flats_ok s" and "uf_ok s" and "covered ns s" and "\<forall>n. v_mark (vnodes s n) \<le> Cmark"
    and "Cmark + 2 < 2 ^ 64" and "\<forall>n. v_clust (vnodes s n) = None \<or> pass \<le> 0" and "\<forall>n. \<not> v_onstack (vnodes s n)"
  shows "\<exists>s' NS. decompose rl pass ns Cmark s = Some (Cmark + 1, s') \<and> decomposed s' NS \<and> search_frame s s' \<and>
    (\<forall>xs\<in>set NS. hd xs \<in> set ns \<and> set xs = (nbrs s)\<^sup>* `` {hd xs}) \<and> (\<forall>n\<in>set ns. is_root s n \<longrightarrow> n \<in> set (concat NS))"
proof -
  let ?s = "s\<lparr>comp := []\<rparr>" and ?c = "Cmark + 1"
  have c: "size_inc Cmark = ?c" "size_inc ?c \<noteq> ?c" using assms(6) by (simp_all add: size_inc_def)
  have "v_UF_parent (vnodes ?s m) = v_UF_parent (vnodes s m)" for m by simp
  from same_parents [where s = s and s' = ?s, OF this] have sp: "same_sets s ?s" "uf_ok ?s = uf_ok s" by blast+
  then have fr: "search_frame s ?s" by (simp add: search_frame_def)
  have mk: "v_mark (vnodes s n) \<noteq> ?c" for n using assms(5) [rule_format, of n] by simp
  have "decomp_inv ?c s [] [] ?s" using fr sp(2) assms(3) mk by (simp add: decomp_inv_def)
  from decompose_nodes_total [OF assms(1,2) _ c(2) this, of pass rl ns] assms(7) obtain s' NS where
    s': "decompose_nodes rl pass ?c ns ?s = Some s'" "decomp_inv ?c s ns NS s'" by auto
  then have frs: "search_frame s s'" and xs: "\<And>xs. xs \<in> set NS \<Longrightarrow> xs \<noteq> [] \<and> linked s' xs \<and> hd xs \<in> set ns \<and> set xs = (nbrs s)\<^sup>* `` {hd xs}"
    and rt: "\<And>n. n \<in> set ns \<Longrightarrow> is_root s n \<Longrightarrow> n \<in> set (concat NS)" and cp: "comp s' = map hd NS" "distinct (concat NS)"
    unfolding decomp_inv_def by blast+
  have f: "fast s' e = fast s e" "vtail s' e = vtail s e" "vhead s' e = vhead s e" for e
    using frs by (simp_all add: fast_def search_frame_def)
  have tail: "vtail s e \<in> set (concat NS)" if e: "fast s e" for e
  proof -
    from assms(4) e obtain v where v: "v \<in> set ns" "is_root s v" "(v, vtail s e) \<in> (nbrs s)\<^sup>*" by (auto simp: covered_def)
    from rt [OF v(1,2)] obtain zs where zs: "zs \<in> set NS" "v \<in> set zs" by auto
    then have "vtail s e \<in> set zs" using xs [OF zs(1)] v(3) by (auto intro: rtrancl_trans)
    then show ?thesis using zs(1) by auto
  qed
  have step: "(vtail s e, vhead s e) \<in> nbrs s" if e: "fast s e" for e
  proof -
    have "e \<in> set (vec s (vtail s e))" using e by (simp add: fast_def vec_def)
    moreover have "other_end s (vtail s e) e = vhead s e" by (simp add: other_end_def)
    moreover have "is_root s (vhead s e)" using assms(4) e by (simp add: covered_def)
    ultimately show ?thesis unfolding nbrs_def by force
  qed
  have "component s' zs" if z: "zs \<in> set NS" for zs
    unfolding component_def f
  proof (intro conjI allI impI ballI)
    show "zs \<noteq> []" "linked s' zs" using xs [OF z] by simp_all
    show "distinct zs" using cp(2) z by (metis distinct_concat_iff)
    fix n assume "n \<in> set zs"
    show "\<not> v_onstack (vnodes s' n)" using frs assms(8) by (simp add: search_frame_def)
  next
    fix e assume "fast s e" "vtail s e \<in> set zs"
    then show "vhead s e \<in> set zs" using step xs [OF z] by (auto intro: rtrancl_into_rtrancl)
  qed
  then have "decomposed s' NS" using cp tail unfolding decomposed_def f by blast
  moreover have "decompose rl pass ns Cmark s = Some (?c, s')" using s'(1) c(1) by (simp add: decompose_def Let_def)
  ultimately show ?thesis using frs xs rt by blast
qed

text \<open>
  C5. \<open>decompose\<close> on a graph without clusters: it returns; the components are disjoint linked lists, each is
  exactly the set of nodes that can be reached from its first node, every root of a rank set is in one
  of them, and no edge leaves a component. This is what \<open>acyclic\<close> and \<open>rank1\<close> ask for.
\<close>

theorem decompose_correct:
  assumes "fg_ok s" and "flats_ok s" and "uf_ok s" and "covered ns s" and "\<forall>n. v_mark (vnodes s n) \<le> Cmark"
    and "Cmark + 2 < 2 ^ 64" and "\<forall>n. v_clust (vnodes s n) = None \<or> pass \<le> 0" and "\<forall>n. \<not> v_onstack (vnodes s n)"
  shows "\<exists>s' NS. decompose rl pass ns Cmark s = Some (Cmark + 1, s') \<and> decomposed s' NS \<and> search_frame s s' \<and>
    (\<forall>xs\<in>set NS. hd xs \<in> set ns \<and> set xs = (nbrs s)\<^sup>* `` {hd xs}) \<and> (\<forall>n\<in>set ns. is_root s n \<longrightarrow> n \<in> set (concat NS))"
  by (rule decompose_total [OF assms])

lemma decompose_correct_witness:
  "\<exists>s' NS. decompose (\<lambda>_ _. 0) 0 [0, 1] 4 two_cycle = Some (4 + 1, s') \<and> decomposed s' NS \<and> search_frame two_cycle s' \<and>
    (\<forall>xs\<in>set NS. hd xs \<in> set [0, 1] \<and> set xs = (nbrs two_cycle)\<^sup>* `` {hd xs}) \<and>
    (\<forall>n\<in>set [0, 1]. is_root two_cycle n \<longrightarrow> n \<in> set (concat NS))"
proof (rule decompose_correct [OF two_cycle_ok(1)])
  have rel: "uf_rel two_cycle = {}" by (auto simp: uf_rel_def two_cycle_def zero_node_def split: if_splits)
  show "flats_ok two_cycle" by (simp add: flats_ok_def two_cycle_def zero_node_def)
  show "uf_ok two_cycle" by (simp add: uf_ok_def rel)
  show "covered [0, 1] two_cycle" unfolding covered_def two_cycle_fast is_root_def rel
    by (auto simp: two_cycle_def blank_edge_def)
qed (simp_all add: two_cycle_def zero_node_def)

end
