(* ===== verification/Rank_Passes.thy ===== *)
theory Rank_Passes
  imports Class1_Correct Decomp_Correct Ns_Rank
begin

text \<open>
  The passes of \<open>dot1_rank\<close> (\<open>dotgen/rank.c\<close>) one after another, from the input graph to the first ranking
  of every component: \<open>class1\<close>, \<open>decompose\<close>, \<open>acyclic\<close> and the start of the network simplex.
\<close>

definition rank_input :: "nat list \<Rightarrow> (nat \<Rightarrow> nat list) \<Rightarrow> int \<Rightarrow> nat \<Rightarrow> fgraph \<Rightarrow> bool" where
  "rank_input ns out m Cmark s \<longleftrightarrow>
     class1_input s (concat (map out ns)) m \<and> 0 \<le> m \<and> int (length ns) * m < 2 ^ 31 \<and> Cmark + 2 < 2 ^ 64 \<and>
     (\<forall>n\<in>set ns. v_ranktype (vnodes s n) \<noteq> CLUSTER \<and> (\<forall>r. root_of s n r \<longrightarrow> r \<in> set ns)) \<and>
     (\<forall>e\<in>set (concat (map out ns)). vtail s e \<in> set ns \<and> vhead s e \<in> set ns) \<and>
     (\<forall>n. v_flat_in (vnodes s n) = [] \<and> v_flat_out (vnodes s n) = [] \<and> \<not> v_onstack (vnodes s n) \<and> v_mark (vnodes s n) \<le> Cmark)"

lemma after_class1:
  assumes inp: "rank_input ns out m Cmark s" and inv: "class1_inv E s m (concat (map out ns)) s1"
  shows "weights_ok s1" and "irrefl (joined s1)" and "lens m s1" and "flats_ok s1" and "covered ns s1"
    and "\<forall>n. \<not> v_onstack (vnodes s1 n)" and "\<forall>n. v_mark (vnodes s1 n) \<le> Cmark" and "\<forall>n. v_clust (vnodes s1 n) = None"
    and "Range (nbrs s1) \<subseteq> set ns"
proof -
  let ?es = "concat (map out ns)"
  have c1: "class1_input s ?es m" using inp by (simp add: rank_input_def)
  have u: "uf_ok s" using c1 by (simp add: class1_input_def)
  have ss: "same_sets s s1" and sr: "same_rest s s1" using inv by (simp_all add: class1_inv_def)
  have fs: "vtail s1 f \<noteq> vhead s1 f \<and> 0 \<le> e_weight (vedges s1 f) \<and> 0 \<le> e_minlen (vedges s1 f) \<and> e_minlen (vedges s1 f) \<le> m \<and>
      (\<exists>e\<in>set ?es. runs s e s1 f)" if "fast s1 f" for f
    using inv that unfolding class1_inv_def by blast
  have w0: "\<forall>g\<in>set ?es. 0 \<le> e_weight (vedges s g)" using c1 by (simp add: class1_input_def)
  then have "(\<Sum>g\<leftarrow>filter Q L. e_weight (vedges s g)) \<le> (\<Sum>g\<leftarrow>L. e_weight (vedges s g))" if "set L \<subseteq> set ?es" for Q L
    using that
  proof (induction L)
    case (Cons g L)
    then have "0 \<le> e_weight (vedges s g)" using w0 by (simp only: list.set insert_subset)
    with Cons show ?case by auto
  qed simp
  from this [OF subset_refl, of "proper E s"] have "total_weight s1 < 2 ^ 31"
    using inv c1 by (simp add: class1_inv_def class1_input_def)
  then show "weights_ok s1" using fs by (simp add: weights_ok_def)
  have "vtail s1 f \<noteq> vhead s1 f" if "fast s1 f" for f using fs [OF that] by blast
  then show "irrefl (joined s1)" by (fastforce simp: irrefl_def frel_def)
  show "lens m s1" using fs by (simp add: lens_def)
  show "flats_ok s1" "\<forall>n. \<not> v_onstack (vnodes s1 n)" "\<forall>n. v_mark (vnodes s1 n) \<le> Cmark" "\<forall>n. v_clust (vnodes s1 n) = None"
    using sr inp by (simp_all add: flats_ok_def same_rest_def rank_input_def class1_input_def)
  have ends: "is_root s1 (vtail s1 f) \<and> is_root s1 (vhead s1 f) \<and> vtail s1 f \<in> set ns \<and> vhead s1 f \<in> set ns" if f: "fast s1 f" for f
  proof -
    from fs [OF f] obtain e where e: "e \<in> set ?es" "runs s e s1 f" by blast
    then have "root_of s (vtail s e) (vtail s1 f)" "root_of s (vhead s e) (vhead s1 f)" by (simp_all add: runs_def)
    moreover from this have "is_root s1 (vtail s1 f)" "is_root s1 (vhead s1 f)"
      using same_sets_root [OF ss] by (simp_all add: root_of_def)
    moreover have "vtail s e \<in> set ns" "vhead s e \<in> set ns" using inp e(1) unfolding rank_input_def by blast+
    ultimately show ?thesis using inp unfolding rank_input_def by blast
  qed
  then show "covered ns s1" unfolding covered_def by blast
  have ok: "fg_ok s1" using inv by (simp add: class1_inv_def)
  show "Range (nbrs s1) \<subseteq> set ns"
  proof
    fix w assume "w \<in> Range (nbrs s1)"
    then obtain n e where e: "e \<in> set (vec s1 n)" "w = other_end s1 n e" by (auto simp: nbrs_def)
    have "fast s1 e"
    proof -
      have "e \<in> set (ins s1 n) \<or> e \<in> set (outs s1 n)" using e(1) sr inp by (auto simp: vec_def same_rest_def rank_input_def)
      then show ?thesis using fg_okD(3,4) [OF ok] by blast
    qed
    then show "w \<in> set ns" using ends [of e] e(2) by (simp add: other_end_def)
  qed
qed


lemma rank_graph_rank: "rank_input [0, 1, 2, 3] rank_graph_out 1 0 rank_graph"
  unfolding rank_input_def rank_graph_edges using rank_graph_input
  by (auto simp: rank_graph_roots) (auto simp: rank_graph_def zero_node_def blank_edge_def CLUSTER_def split: if_splits)


end
