(* ===== verification/Spec2Isabelle.thy ===== *)
theory Spec2Isabelle
  imports Graph_Api GvList_Correct Agxbuf Xml Base64 Strview Bitarray Gv_Random Arena Rtree Ns_Pivots Rank_Passes
begin

text \<open>
  A verification library for the core of Graphviz: the graph library \<open>lib/cgraph\<close>, the ordered
  dictionaries \<open>lib/cdt\<close> it is built on, and the utility library \<open>lib/util\<close> that the rest of the
  program uses.

  \<^bold>\<open>The program.\<close> Graphviz parses graphs, lays them out and renders them. Everything it does works on
  the data structure of \<open>cgraph\<close>: a main graph with nodes and edges, and a tree of subgraphs that hold
  subsets of them. Every graph keeps its nodes in a hash set by ID (\<open>n_id\<close>) and in an ordered
  dictionary by creation sequence (\<open>n_seq\<close>); every node keeps in every graph four ordered sets of its
  edges. Names are interned in a pool of reference-counted strings, and an ID discipline maps names
  to IDs through a pair of dictionaries.

  \<^bold>\<open>Theories.\<close>

  \<^item> \<open>Prelude\<close>: integer types, generic lemmas, the loops over linked structures.
  \<^item> \<open>Cdt\<close>, \<open>Cdt_Correct\<close>: the splay trees of \<open>lib/cdt\<close> (\<open>dttree\<close>, \<open>dtrenew\<close>, \<open>dtextract\<close>,
    \<open>dtrestore\<close>, \<open>dtsize\<close>, \<open>dtwalk\<close>) with their top-down search, and the proof that the operations are
    those of a list sorted by the comparator. The graph theories use that list (\<open>od_insert\<close>,
    \<open>od_delete\<close>, \<open>od_find\<close>, \<open>od_next\<close>) for their dictionaries.
  \<^item> \<open>OpenAddr\<close>, \<open>NodeSet\<close>: open addressing with tombstones, and the node ID sets of \<open>node.c\<close>.
  \<^item> \<open>Refstr\<close>: the string pool of \<open>refstr.c\<close>, with the MurmurHash of its keys.
  \<^item> \<open>Ids\<close>, \<open>Ids_Correct\<close>: the ID discipline of \<open>id.c\<close> and the internal map of \<open>imap.c\<close>.
  \<^item> \<open>Agraph\<close>: the state of a graph with its subgraphs, and the nodes of \<open>node.c\<close>; \<open>Agedge\<close>: the
    edges of \<open>edge.c\<close>; \<open>Agops\<close>: subgraphs, \<open>agapply\<close>, deletion, renaming, opening and closing
    (\<open>subg.c\<close>, \<open>apply.c\<close>, \<open>graph.c\<close>, \<open>obj.c\<close>).
  \<^item> \<open>Agraph_Wf\<close>, \<open>Agnode_Correct\<close>, \<open>Agopen_Correct\<close>: the well-formedness of a graph (every subgraph
    is contained in its parent, both node containers agree, the edge sets of the endpoints agree) and
    the operations that establish and keep it. \<open>Agedge_Correct\<close>, \<open>Agedge_Api\<close>: what \<open>agedge\<close> and
    \<open>agsubedge\<close>'s helpers enter into the edge sets; \<open>Prune\<close>, \<open>Agdel\<close>: deletion, by the postorder visit of
    \<open>agapply\<close>; \<open>Agsubg\<close>: new subgraphs.
  \<^item> \<open>Graph_Api\<close>: the calls a client makes, the states they reach, and the invariant of all of them.
  \<^item> \<open>GvList\<close>, \<open>GvList_Correct\<close>: the generic ring-buffer lists of \<open>list.c\<close> and \<open>list.h\<close>.
  \<^item> \<open>Agxbuf\<close>: the extensible strings of \<open>agxbuf.h\<close>; \<open>Ctype\<close>: \<open>gv_ctype.h\<close>, \<open>startswith.h\<close>,
    \<open>streq.h\<close>; \<open>Xml\<close>: \<open>xml.c\<close>; \<open>Base64\<close>: \<open>base64.c\<close>; \<open>Strview\<close>: \<open>strview.h\<close> and \<open>tokenize.h\<close>;
    \<open>Bitarray\<close>: \<open>bitarray.h\<close>; \<open>Gv_Random\<close>: \<open>random.c\<close>; \<open>Arena\<close>: \<open>arena.c\<close>.
  \<^item> \<open>Rtree\<close>: the R-tree of \<open>lib/label\<close>, over the real numbers: what is inserted is stored and the
    tree stays well formed, a search is exact when the covers of the inner branches are, and a split
    succeeds; with the two defects found there.
  \<^item> \<open>Fastgr\<close>, \<open>Fastgr_Correct\<close>: the internal graph of the dot layout (\<open>dotgen/fastgr.c\<close>) and the
    removal of cycles (\<open>dotgen/acyclic.c\<close>): the depth-first search ends and leaves a graph without
    cycles that joins the same nodes with the same total weight.
  \<^item> \<open>Ns\<close>, \<open>Ns_Rank\<close>, \<open>Ns_Balance\<close>: the network simplex of \<open>common/ns.c\<close>: the setup and the
    initial ranking, which is the least feasible one; the search for a leaving edge; the balancing,
    which keeps a ranking feasible and its total length.
  \<^item> \<open>Ns_Tree\<close>, \<open>Ns_Cut\<close>, \<open>Ns_Cutval\<close>, \<open>Ns_Optimal\<close>: its spanning tree: the tree edges and their exchange,
    the postorder numbering, and the cut values, which are the weights across the cuts of the tree.
  \<^item> \<open>Ns_Pivot\<close>, \<open>Ns_Tight\<close>: the pivot, the initial tight tree with its heap of subtrees, and the main loop
    \<open>rank2\<close>; \<open>Ns_Enter\<close>: the entering edge is one of least slack across the cut; \<open>Ns_Stree\<close>: trees as sets of edges
    and how they are rooted; \<open>Ns_Leaf_Root\<close>: a defect of the pivot when the root has a single tree edge.
  \<^item> The correctness of the pivot \<open>update\<close>: \<open>Ns_Desc\<close> (the subtrees as intervals of the numbering, nested or
    apart, and the uniqueness of cuts), \<open>Ns_Shift\<close> (\<open>rerank\<close> moves the ranks of a subtree), \<open>Ns_Path\<close>
    (\<open>treeupdate\<close> and \<open>invalidate_path\<close> go up to the lowest common ancestor), \<open>Ns_Exchange\<close> and \<open>Ns_Regraft\<close>
    (below that ancestor the tree gets a new shape, which \<open>dfs_range\<close> numbers), \<open>Ns_Recut\<close> (the cut values on the
    cycle are those of the new cuts), \<open>Ns_Update\<close> (one pivot keeps \<open>simplex_state\<close>: a numbered spanning tree with
    its cut values, the list of tree edges, a feasible ranking) and \<open>Ns_Pivots\<close> (so does the main loop, which never
    fails and ends at an optimum when the tree is tight).
  \<^item> \<open>Unionfind\<close>: the rank sets of \<open>common/utils.c\<close>; \<open>Class1\<close>, \<open>Class1_Correct\<close>: the fast edges made
    from the input by \<open>dotgen/class1.c\<close> (with \<open>mark_clusters\<close> and \<open>make_aux_edge\<close>); \<open>Decomp\<close>,
    \<open>Decomp_Correct\<close>: the components of \<open>dotgen/decomp.c\<close>; \<open>Rank_Passes\<close>: these passes, the removal of
    cycles and the initial ranking one after another, from the input graph to a ranking of every
    component in which every constraint edge has its length (for graphs without clusters).

  \<^bold>\<open>Conventions.\<close> A C object is a value of a record; a pointer is an index into the state that holds
  the objects (nodes, edges and graphs in the \<open>world\<close> of \<open>Agraph\<close>). A call that C code ends by a failed
  assertion, by a null dereference or by \<open>graphviz_exit\<close> has the outer value \<open>None\<close>; NULL is an inner
  \<open>None\<close>. \<open>size_t\<close> is 64 bits wide; sums that may wrap are written with the wrap-around. The C library's
  \<open>malloc\<close>, \<open>qsort\<close>, \<open>rand\<close> and \<open>vsnprintf\<close> are parameters.

  \<^bold>\<open>Bounds and fuel.\<close> Loops over linked structures (\<open>dtwalk\<close>, the node and edge loops of deletion)
  take fuel; the theorems give the number of elements as enough. The rejection loops of \<open>Gv_Random\<close>
  and the tokenizer loop are partial functions; that they return is proved. IDs and sequence numbers
  are bounded as in the code (28-bit sequence numbers, even addresses as IDs of names). The fuel of
  \<open>dfs\<close> in \<open>Fastgr\<close> is the number of nodes times two more than the number of edges. Sums of weights
  when edges merge and sums of ranks in \<open>init_rank\<close> are checked against the range of \<open>int\<close>; the
  differences taken in balancing are not, they are integers.

  \<^bold>\<open>Not modelled.\<close> The layout engines, the renderers and plugins, the parser and the expression
  languages: they are floating-point algorithms over attribute records, generated code, or output.
  Of \<open>cgraph\<close>, attributes, records and callbacks appear as the sequence of hook calls that the core
  makes.
\<close>

end
